(* ===== verification/Prelude.thy ===== *)
theory Prelude
  imports Main "HOL-Library.Word"
begin

text \<open>
  Shared vocabulary of the development: the machine types of the C sources, the error values
  that stand for the abnormal exits of the runtime (\<^verbatim>\<open>Abort\<close>, \<^verbatim>\<open>HREassert\<close>, \<^verbatim>\<open>HREexit\<close>,
  accesses outside an allocated block), generic lemmas on bit operations, lists and search
  loops, and two interfaces that several components implement:
  \<^item> \<open>bit_map\<close>, a set of small integers kept as bits, with the client lemmas on loops that
    set one bit after the other;
  \<^item> \<open>index_table\<close>, a table that numbers the items put into it.
\<close>

unbundle bit_operations_syntax

section \<open>Machine types and abnormal exits\<close>

text \<open>
  \<^verbatim>\<open>size_t\<close> and \<^verbatim>\<open>uint64_t\<close> values that are used as bit patterns are 64-bit words; indices and
  sizes that stay far below the machine bounds are natural numbers, and where a computation can
  wrap the wrap-around is written out.
\<close>

type_synonym u64 = "64 word"
type_synonym u32 = "32 word"
type_synonym u16 = "16 word"

abbreviation SIZE_LIMIT :: nat where
  "SIZE_LIMIT \<equiv> 2 ^ 64"

abbreviation INT_MAX :: nat where
  "INT_MAX \<equiv> 2147483647"

text \<open>
  A 32-bit \<^verbatim>\<open>int\<close> computed from an exact value: the value itself where it fits, its two's-complement
  wrap-around where it does not. (C leaves signed overflow undefined; the wrap-around is what the
  compiled code does on the targets of the program. The properties state a bound that excludes it.)
\<close>

definition int32 :: "int \<Rightarrow> int" where
  "int32 x = (x + 2147483648) mod 4294967296 - 2147483648"

lemma int32_word: "int32 x = sint (word_of_int x :: 32 word)"
  by (simp add: int32_def int_word_sint)

lemma int32_id [simp]: "- int INT_MAX - 1 \<le> x \<Longrightarrow> x \<le> int INT_MAX \<Longrightarrow> int32 x = x"
  by (simp add: int32_def)

lemma int32_bounds: "- int INT_MAX - 1 \<le> int32 x" "int32 x \<le> int INT_MAX"
  using pos_mod_sign[of 4294967296 "x + 2147483648"] pos_mod_bound[of 4294967296 "x + 2147483648"]
  by (simp_all add: int32_def)

lemma int32_diff: "int32 (int32 x - int32 y) = int32 (x - y)"
  by (simp add: int32_word)

lemma int32_add: "int32 (int32 x + y) = int32 (x + y)" "int32 (y + int32 x) = int32 (y + x)"
  by (simp_all add: int32_def algebra_simps mod_simps)

text \<open>
  The abnormal exits. \<open>Abort_msg\<close> is \<^verbatim>\<open>Abort\<close> with its message, \<open>Assert_fail\<close> a failed
  \<^verbatim>\<open>HREassert\<close>, \<open>Exit_failure\<close> is \<^verbatim>\<open>HREexit\<close> or \<^verbatim>\<open>HREabort\<close>, and \<open>Bad_access\<close> an access through
  \<^verbatim>\<open>NULL\<close> or outside an allocated block, which C leaves undefined. \<open>Diverges\<close> stands for a loop
  that never ends; it is produced only where the bound on the iterations is exact, so that a loop
  that exceeds it really runs forever.
\<close>

datatype err = Abort_msg string | Assert_fail | Exit_failure | Bad_access | Diverges

type_synonym 'a result = "err + 'a"

definition result_bind :: "'a result \<Rightarrow> ('a \<Rightarrow> 'b result) \<Rightarrow> 'b result" where
  "result_bind r f = (case r of Inl e \<Rightarrow> Inl e | Inr x \<Rightarrow> f x)"

lemma result_bind_simps [simp]:
  "result_bind (Inl e) f = Inl e"
  "result_bind (Inr x) f = f x"
  by (simp_all add: result_bind_def)

lemma result_bind_Inr: "result_bind r f = Inr y \<longleftrightarrow> (\<exists>x. r = Inr x \<and> f x = Inr y)"
  by (cases r) simp_all

text \<open>A loop whose body may exit abnormally.\<close>

fun fold_result :: "('a \<Rightarrow> 's \<Rightarrow> 's result) \<Rightarrow> 'a list \<Rightarrow> 's \<Rightarrow> 's result" where
  "fold_result f [] s = Inr s"
| "fold_result f (x # xs) s = result_bind (f x s) (fold_result f xs)"

lemma fold_result_invariant:
  assumes "P 0 s" and "\<And>k s. k < length xs \<Longrightarrow> P k s \<Longrightarrow> \<exists>s'. f (xs ! k) s = Inr s' \<and> P (Suc k) s'"
  shows "\<exists>s'. fold_result f xs s = Inr s' \<and> P (length xs) s'"
  using assms
proof (induction xs arbitrary: s P)
  case Nil
  then show ?case by simp
next
  case (Cons x xs)
  from Cons.prems(2)[of 0 s] Cons.prems(1) obtain s' where s': "f x s = Inr s'" "P (Suc 0) s'" by auto
  have "\<exists>t. fold_result f xs s' = Inr t \<and> P (Suc (length xs)) t"
    by (rule Cons.IH[of "\<lambda>k. P (Suc k)"]) (use s' Cons.prems(2)[of "Suc _"] in auto)
  with s' show ?case by simp
qed

section \<open>Runs that may abort or not end\<close>

text \<open>
  Operations with loops or recursion that may not end are \<open>None\<close> where they do not return, and a value
  or an abnormal exit otherwise.
\<close>

abbreviation ret :: "'a \<Rightarrow> 'a result option" where "ret x \<equiv> Some (Inr x)"
abbreviation abort :: "string \<Rightarrow> 'a result option" where "abort msg \<equiv> Some (Inl (Abort_msg msg))"

definition rbind :: "'a result option \<Rightarrow> ('a \<Rightarrow> 'b result option) \<Rightarrow> 'b result option" where
  "rbind m f = (case m of None \<Rightarrow> None | Some (Inl e) \<Rightarrow> Some (Inl e) | Some (Inr x) \<Rightarrow> f x)"

lemma rbind_simps [simp]:
  "rbind (Some (Inl e)) f = Some (Inl e)" "rbind (Some (Inr x)) f = f x" "rbind None f = None"
  by (simp_all add: rbind_def)

lemma rbind_mono_elem:
  assumes "rbind m k = Some y" and "\<And>x. m = Some x \<Longrightarrow> m' = Some x" and "\<And>x z. k x = Some z \<Longrightarrow> k' x = Some z"
  shows "rbind m' k' = Some y"
  using assms by (auto simp: rbind_def split: option.splits sum.splits)

lemma rbind_mono [partial_function_mono]:
  assumes "mono_option B" and "\<And>y. mono_option (\<lambda>f. C y f)"
  shows "mono_option (\<lambda>f. rbind (B f) (\<lambda>y. C y f))"
proof -
  have "mono_option (\<lambda>f. Option.bind (B f) (\<lambda>y. case y of Inl e \<Rightarrow> Some (Inl e) | Inr x \<Rightarrow> C x f))"
    using assms(1)
  proof (rule bind_mono)
    show "mono_option (\<lambda>f. case y of Inl e \<Rightarrow> Some (Inl e) | Inr x \<Rightarrow> C x f)" for y
      by (cases y) (simp_all add: assms(2) option.const_mono)
  qed
  moreover have "Option.bind m (\<lambda>y. case y of Inl e \<Rightarrow> Some (Inl e) | Inr x \<Rightarrow> g x) = rbind m g"
    for m and g :: "'c \<Rightarrow> 'd result option" by (auto simp: rbind_def split: option.splits sum.splits)
  ultimately show ?thesis by simp
qed

named_theorems bit_facts \<open>facts about single bits of words and numbers\<close>

section \<open>Bits\<close>

lemma nat_and_63 [bit_facts]: "(i::nat) AND 63 = i mod 64"
proof -
  have "i AND mask 6 = take_bit 6 i" by (simp add: take_bit_eq_mask)
  then show ?thesis by (simp add: mask_eq_exp_minus_1 take_bit_eq_mod)
qed

lemma nat_drop_bit_6 [bit_facts]: "drop_bit 6 (i::nat) = i div 64"
  by (simp add: drop_bit_eq_div)

lemma bit_two_power [bit_facts]:
  "bit ((2::'a::len word) ^ k) n \<longleftrightarrow> n = k \<and> k < LENGTH('a)"
  by (auto simp: bit_exp_iff)

lemma word_and_two_power [bit_facts]: "((w::'a::len word) AND 2 ^ k = 0) = (\<not> bit w k)"
  by (simp add: bit_iff_and_push_bit_not_eq_0)

lemma word_eq_bits: "(\<And>n. n < LENGTH('a) \<Longrightarrow> bit (v::'a::len word) n = bit w n) \<Longrightarrow> v = w"
  by (rule bit_word_eqI) simp

lemma word_zero_iff_bits: "(w::'a::len word) = 0 \<longleftrightarrow> (\<forall>n < LENGTH('a). \<not> bit w n)"
  by (auto intro: word_eq_bits)

lemma div_mod_64_eq: "(i::nat) div 64 = j div 64 \<Longrightarrow> i mod 64 = j mod 64 \<Longrightarrow> i = j"
  by (metis div_mult_mod_eq)

lemma div_mod_64_add:
  assumes "e mod 64 + n < (64::nat)"
  shows "(e + n) div 64 = e div 64" and "(e + n) mod 64 = e mod 64 + n"
proof -
  have "e + n = 64 * (e div 64) + (e mod 64 + n)" by simp
  then show "(e + n) div 64 = e div 64" and "(e + n) mod 64 = e mod 64 + n"
    using assms by (metis div_less div_mult_self4 add_0_right add.commute zero_neq_numeral,
        metis mod_mult_self4 mod_less)
qed

lemma even_mod_64: "even (e::nat) \<Longrightarrow> e mod 64 \<le> 62"
proof -
  assume "even e"
  then have "e mod 64 \<noteq> 63" by (metis dvd_mod_iff even_numeral odd_numeral)
  moreover have "e mod 64 < 64" by simp
  ultimately show ?thesis by linarith
qed

section \<open>Lists, counting and searching\<close>

text \<open>
  \<open>first_from p i n\<close> is the loop \<^verbatim>\<open>for (k = i; k < n; k++) if (p(k)) break;\<close>: the first index at
  which the loop breaks, or \<open>None\<close> when it runs to the end; \<open>last_below p n\<close> is the same loop
  downwards from \<open>n - 1\<close> to \<open>0\<close>.
\<close>

definition first_from :: "(nat \<Rightarrow> bool) \<Rightarrow> nat \<Rightarrow> nat \<Rightarrow> nat option" where
  "first_from p i n = List.find p [i..<n]"

fun last_below :: "(nat \<Rightarrow> bool) \<Rightarrow> nat \<Rightarrow> nat option" where
  "last_below p 0 = None"
| "last_below p (Suc n) = (if p n then Some n else last_below p n)"

lemma first_from_step:
  "first_from p i n = (if i < n then if p i then Some i else first_from p (Suc i) n else None)"
  by (simp add: first_from_def upt_conv_Cons)

lemma find_upt_None: "List.find p [i..<n] = None \<longleftrightarrow> (\<forall>k. i \<le> k \<and> k < n \<longrightarrow> \<not> p k)"
  by (auto simp: find_None_iff)

lemma find_upt_Some:
  "List.find p [i..<n] = Some k \<longleftrightarrow> i \<le> k \<and> k < n \<and> p k \<and> (\<forall>j. i \<le> j \<and> j < k \<longrightarrow> \<not> p j)"
proof
  assume "List.find p [i..<n] = Some k"
  then obtain m where m: "m < n - i" "p (i + m)" "k = i + m" "\<forall>j < m. \<not> p (i + j)"
    by (auto simp: find_Some_iff)
  have "\<not> p j" if "i \<le> j" "j < k" for j
    using m(4)[rule_format, of "j - i"] m(3) that by simp
  with m show "i \<le> k \<and> k < n \<and> p k \<and> (\<forall>j. i \<le> j \<and> j < k \<longrightarrow> \<not> p j)" by auto
next
  assume *: "i \<le> k \<and> k < n \<and> p k \<and> (\<forall>j. i \<le> j \<and> j < k \<longrightarrow> \<not> p j)"
  then have "k - i < length [i..<n] \<and> p ([i..<n] ! (k - i)) \<and> k = [i..<n] ! (k - i)
     \<and> (\<forall>j < k - i. \<not> p ([i..<n] ! j))" by auto
  then show "List.find p [i..<n] = Some k" unfolding find_Some_iff by blast
qed

lemma first_from_None_iff:
  "first_from p i n = None \<longleftrightarrow> (\<forall>k. i \<le> k \<and> k < n \<longrightarrow> \<not> p k)"
  by (simp add: first_from_def find_upt_None)

lemma first_from_Some_iff:
  "first_from p i n = Some k \<longleftrightarrow> i \<le> k \<and> k < n \<and> p k \<and> (\<forall>j. i \<le> j \<and> j < k \<longrightarrow> \<not> p j)"
  by (simp add: first_from_def find_upt_Some)

lemma last_below_None_iff: "last_below p n = None \<longleftrightarrow> (\<forall>k < n. \<not> p k)"
  by (induction n) (auto simp: less_Suc_eq)

lemma last_below_Some_iff:
  "last_below p n = Some k \<longleftrightarrow> k < n \<and> p k \<and> (\<forall>j. k < j \<and> j < n \<longrightarrow> \<not> p j)"
  by (induction n) (auto simp: less_Suc_eq)

text \<open>Number of indices below \<open>n\<close> that satisfy \<open>p\<close>.\<close>

definition count_below :: "(nat \<Rightarrow> bool) \<Rightarrow> nat \<Rightarrow> nat" where
  "count_below p n = card {k. k < n \<and> p k}"

lemma count_below_0 [simp]: "count_below p 0 = 0"
  by (simp add: count_below_def)

lemma count_below_Suc: "count_below p (Suc n) = count_below p n + (if p n then 1 else 0)"
proof -
  have "{k. k < Suc n \<and> p k} = (if p n then insert n {k. k < n \<and> p k} else {k. k < n \<and> p k})"
    by (auto simp: less_Suc_eq)
  then show ?thesis by (simp add: count_below_def)
qed

lemma count_below_cong: "(\<And>k. k < n \<Longrightarrow> p k = q k) \<Longrightarrow> count_below p n = count_below q n"
  by (auto simp: count_below_def intro: arg_cong [where f = card])

lemma count_below_insert:
  assumes "k < n" and "\<not> p k"
  shows "count_below (\<lambda>i. i = k \<or> p i) n = Suc (count_below p n)"
proof -
  have "{i. i < n \<and> (i = k \<or> p i)} = insert k {i. i < n \<and> p i}" using assms by auto
  with assms show ?thesis by (simp add: count_below_def)
qed

lemma count_below_remove:
  assumes "k < n" and "p k"
  shows "Suc (count_below (\<lambda>i. i \<noteq> k \<and> p i) n) = count_below p n"
proof -
  have "{i. i < n \<and> p i} = insert k {i. i < n \<and> i \<noteq> k \<and> p i}" using assms by auto
  then show ?thesis by (simp add: count_below_def)
qed

lemma count_below_upd:
  assumes "k < n"
  shows "int (count_below (\<lambda>i. i = k \<or> p i) n) = int (count_below p n) + (if p k then 0 else 1)"
    and "int (count_below (\<lambda>i. i \<noteq> k \<and> p i) n) = int (count_below p n) - (if p k then 1 else 0)"
proof -
  have same: "p k \<Longrightarrow> (\<lambda>i. i = k \<or> p i) = p" "\<not> p k \<Longrightarrow> (\<lambda>i. i \<noteq> k \<and> p i) = p" by auto
  show "int (count_below (\<lambda>i. i = k \<or> p i) n) = int (count_below p n) + (if p k then 0 else 1)"
    using count_below_insert[OF assms, of p] same(1) by auto
  show "int (count_below (\<lambda>i. i \<noteq> k \<and> p i) n) = int (count_below p n) - (if p k then 1 else 0)"
    using count_below_remove[OF assms, of p] same(2) by auto
qed

lemma count_below_zero_iff: "count_below p n = 0 \<longleftrightarrow> (\<forall>k < n. \<not> p k)"
  by (auto simp: count_below_def)

lemma count_below_eq_length_filter: "count_below p n = length (filter p [0..<n])"
  by (induction n) (simp_all add: count_below_Suc)

lemma count_below_bij:
  assumes "bij_betw f {..<n} {..<n}"
  shows "count_below (\<lambda>k. p (f k)) n = count_below p n"
proof -
  have "bij_betw f {k. k < n \<and> p (f k)} {k. k < n \<and> p k}"
    using assms unfolding bij_betw_def
    by (auto simp: inj_on_def)
  then show ?thesis unfolding count_below_def by (rule bij_betw_same_card)
qed

lemma fold_invariant:
  assumes "P s" and "\<And>x s. x \<in> set xs \<Longrightarrow> P s \<Longrightarrow> P (f x s)"
  shows "P (fold f xs s)"
  using assms by (induction xs arbitrary: s) auto

section \<open>Interfaces\<close>

text \<open>
  A set of natural numbers kept as bits. \<open>ok s e\<close> says that \<open>s\<close> has room for \<open>e\<close>.
\<close>

locale bit_map =
  fixes inv :: "'s \<Rightarrow> bool"
    and ok :: "'s \<Rightarrow> nat \<Rightarrow> bool"
    and test :: "'s \<Rightarrow> nat \<Rightarrow> bool"
    and ins :: "'s \<Rightarrow> nat \<Rightarrow> 's"
    and del :: "'s \<Rightarrow> nat \<Rightarrow> 's"
  assumes inv_ins: "inv s \<Longrightarrow> ok s e \<Longrightarrow> inv (ins s e)"
    and inv_del: "inv s \<Longrightarrow> ok s e \<Longrightarrow> inv (del s e)"
    and ok_ins: "inv s \<Longrightarrow> ok s e \<Longrightarrow> ok (ins s e) x = ok s x"
    and ok_del: "inv s \<Longrightarrow> ok s e \<Longrightarrow> ok (del s e) x = ok s x"
    and test_ins: "inv s \<Longrightarrow> ok s e \<Longrightarrow> ok s x \<Longrightarrow> test (ins s e) x \<longleftrightarrow> x = e \<or> test s x"
    and test_del: "inv s \<Longrightarrow> ok s e \<Longrightarrow> ok s x \<Longrightarrow> test (del s e) x \<longleftrightarrow> x \<noteq> e \<and> test s x"
begin

lemma ins_all:
  assumes "inv s" and "\<forall>e \<in> set es. ok s e"
  shows "inv (fold (\<lambda>e t. ins t e) es s)
    \<and> (\<forall>x. ok (fold (\<lambda>e t. ins t e) es s) x = ok s x)
    \<and> (\<forall>x. ok s x \<longrightarrow> test (fold (\<lambda>e t. ins t e) es s) x = (x \<in> set es \<or> test s x))"
  using assms
proof (induction es arbitrary: s)
  case Nil
  then show ?case by simp
next
  case (Cons e es)
  from Cons.prems have s: "inv s" "ok s e" by auto
  then have "inv (ins s e)" "\<forall>x \<in> set es. ok (ins s e) x"
    using Cons.prems by (auto simp: inv_ins ok_ins)
  from Cons.IH[OF this] show ?case
    by (auto simp: ok_ins[OF s] test_ins[OF s])
qed

lemma ins_filter:
  assumes "inv s" and "\<forall>e \<in> set es. ok s e" and "ok s x"
  shows "test (fold (\<lambda>e t. if p e then ins t e else t) es s) x
    \<longleftrightarrow> (x \<in> set es \<and> p x) \<or> test s x"
proof -
  have "fold (\<lambda>e t. if p e then ins t e else t) es s = fold (\<lambda>e t. ins t e) (filter p es) s"
    by (induction es arbitrary: s) auto
  with ins_all[of s "filter p es"] assms show ?thesis by auto
qed

end

text \<open>
  A table that gives every item a number, in the order in which the items came: \<open>put\<close> looks an item
  up, adds it when it is not there, and returns its number and whether it was there.
\<close>

locale index_table =
  fixes inv :: "'s \<Rightarrow> bool"
    and items :: "'s \<Rightarrow> 'a list"
    and ok :: "'s \<Rightarrow> 'a \<Rightarrow> bool"
    and put :: "'s \<Rightarrow> 'a \<Rightarrow> (nat \<times> bool \<times> 's) option"
  assumes items_distinct: "inv s \<Longrightarrow> distinct (items s)"
    and put_known: "inv s \<Longrightarrow> ok s a \<Longrightarrow> i < length (items s) \<Longrightarrow> items s ! i = a \<Longrightarrow>
      \<exists>t. put s a = Some (i, True, t) \<and> inv t \<and> items t = items s \<and> (\<forall>b. ok t b = ok s b)"
    and put_new: "inv s \<Longrightarrow> ok s a \<Longrightarrow> a \<notin> set (items s) \<Longrightarrow>
      \<exists>t. put s a = Some (length (items s), False, t) \<and> inv t \<and> items t = items s @ [a] \<and> (\<forall>b. ok t b = ok s b)"
begin

lemma put_total:
  assumes "inv s" and "ok s a"
  shows "\<exists>i t. put s a = Some (i, a \<in> set (items s), t) \<and> inv t \<and> i < length (items t) \<and> items t ! i = a
    \<and> items t = items s @ (if a \<in> set (items s) then [] else [a]) \<and> (\<forall>b. ok t b = ok s b)"
proof (cases "a \<in> set (items s)")
  case True
  then obtain i where i: "i < length (items s)" "items s ! i = a" by (auto simp: in_set_conv_nth)
  from put_known[OF assms i] obtain t where
    "put s a = Some (i, True, t)" "inv t" "items t = items s" "\<forall>b. ok t b = ok s b" by blast
  with i True show ?thesis by (intro exI[of _ i] exI[of _ t]) simp
next
  case False
  with put_new[OF assms] show ?thesis by auto
qed

text \<open>Numbers never change: an item put again later gets the number it had.\<close>

lemma put_again:
  assumes "inv s" and "ok s a" and "ok s b" and "put s a = Some (i, k, t)" and "put t b = Some (j, l, u)"
  shows "\<exists>u'. put u a = Some (i, True, u')" and "i = j \<longleftrightarrow> a = b"
proof -
  from put_total[OF assms(1,2)] assms(4) have t: "inv t" "i < length (items t)" "items t ! i = a" "\<forall>b. ok t b = ok s b"
    by (metis option.inject prod.inject)+
  from put_total[OF t(1), of b] assms(3) t(4) obtain j' u' where
    u': "put t b = Some (j', b \<in> set (items t), u')" "inv u'" "j' < length (items u')" "items u' ! j' = b"
      "items u' = items t @ (if b \<in> set (items t) then [] else [b])" "\<forall>c. ok u' c = ok t c" by blast
  have [simp]: "u' = u" "j' = j" using u'(1) assms(5) by auto
  have u: "inv u" "j < length (items u)" "items u ! j = b" "\<forall>b. ok u b = ok s b" using u' t(4) by simp_all
  have "i < length (items u)" "items u ! i = a" using u'(5) t(2,3) by (simp_all add: nth_append)
  note u = u this
  then show "\<exists>u'. put u a = Some (i, True, u')" using put_known[OF u(1), of a i] assms(2) by auto
  show "i = j \<longleftrightarrow> a = b"
    using items_distinct[OF u(1)] u by (metis nth_eq_iff_index_eq)
qed

end

end
