(* ===== verification/Bitvector.thy ===== *)
theory Bitvector
  imports Prelude
begin

text \<open>
  The bit vectors of \<^verbatim>\<open>src/src/dm/bitvector.c\<close>: a record with the fields of \<^verbatim>\<open>bitvector_t\<close>, one
  definition per operation, the invariant \<open>bv_wf\<close> (the words cover the bits, and the bits of
  the last word beyond \<open>n_bits\<close> are zero) and the refinement of every operation to the set
  \<open>bv_set\<close> of the indices whose bit is one. The dependency matrix is built on this component.
  Indices at or beyond \<open>n_bits\<close> are outside the contract of the C functions (they would access
  memory outside the buffer); \<open>bv_index_in_bounds\<close> shows that every index below \<open>n_bits\<close> stays
  inside.
\<close>

section \<open>Model\<close>

record bitvector =
  n_bits :: nat
  n_words :: nat
  bv_data :: "u64 list"

definition utrunc :: "nat \<Rightarrow> nat \<Rightarrow> nat" where
  "utrunc x m = ((x + (m - 1)) mod SIZE_LIMIT) div m"

definition WORD_BITS :: nat where
  "WORD_BITS = 64"

definition WORD_BITS_MASK :: nat where
  "WORD_BITS_MASK = 63"

definition WORD_SHIFT :: nat where
  "WORD_SHIFT = 6"

definition bv_seg :: "nat \<Rightarrow> nat" where
  "bv_seg i = drop_bit WORD_SHIFT i"

definition bv_ofs :: "nat \<Rightarrow> nat" where
  "bv_ofs i = i AND WORD_BITS_MASK"

definition bitvector_create :: "nat \<Rightarrow> bitvector" where
  "bitvector_create n =
     (let w = utrunc n WORD_BITS in \<lparr>n_bits = n, n_words = w, bv_data = replicate w 0\<rparr>)"

definition bitvector_clear :: "bitvector \<Rightarrow> bitvector" where
  "bitvector_clear bv = bv\<lparr>bv_data := replicate (n_words bv) 0\<rparr>"

text \<open>The buffer is released; the word count keeps its old value, as in the code.\<close>

definition bitvector_free :: "bitvector \<Rightarrow> bitvector" where
  "bitvector_free bv = bv\<lparr>bv_data := [], n_bits := 0\<rparr>"

definition bitvector_copy :: "bitvector \<Rightarrow> bitvector" where
  "bitvector_copy src =
     (let tgt = bitvector_create (n_bits src)
      in tgt\<lparr>bv_data := take (utrunc (n_bits src) WORD_BITS) (bv_data src)\<rparr>)"

definition bitvector_size :: "bitvector \<Rightarrow> nat" where
  "bitvector_size bv = n_bits bv"

definition bitvector_isset_or_set :: "bitvector \<Rightarrow> nat \<Rightarrow> bool \<times> bitvector" where
  "bitvector_isset_or_set bv idx =
     (let mask = push_bit (bv_ofs idx) 1; w = bv_seg idx;
          res = (bv_data bv ! w AND mask \<noteq> 0)
      in (res, bv\<lparr>bv_data := (bv_data bv)[w := bv_data bv ! w OR mask]\<rparr>))"

definition bitvector_set2 :: "bitvector \<Rightarrow> nat \<Rightarrow> u64 \<Rightarrow> bitvector" where
  "bitvector_set2 bv idx v =
     (let mask = push_bit (bv_ofs idx) 3; val = push_bit (bv_ofs idx) v; w = bv_seg idx
      in bv\<lparr>bv_data := (bv_data bv)[w := (bv_data bv ! w AND NOT mask) OR val]\<rparr>)"

definition bitvector_isset_or_set2 :: "bitvector \<Rightarrow> nat \<Rightarrow> u64 \<Rightarrow> bool \<times> bitvector" where
  "bitvector_isset_or_set2 bv idx v =
     (let mask = push_bit (bv_ofs idx) 3; val = push_bit (bv_ofs idx) v; w = bv_seg idx;
          res = (bv_data bv ! w AND mask = val)
      in (res, bv\<lparr>bv_data := (bv_data bv)[w := (bv_data bv ! w AND NOT mask) OR val]\<rparr>))"

definition bitvector_get2 :: "bitvector \<Rightarrow> nat \<Rightarrow> u64" where
  "bitvector_get2 bv idx =
     (let mask = push_bit (bv_ofs idx) 3
      in drop_bit (bv_ofs idx) (bv_data bv ! bv_seg idx AND mask))"

definition bitvector_set :: "bitvector \<Rightarrow> nat \<Rightarrow> bitvector" where
  "bitvector_set bv idx =
     (let mask = push_bit (bv_ofs idx) 1; w = bv_seg idx
      in bv\<lparr>bv_data := (bv_data bv)[w := bv_data bv ! w OR mask]\<rparr>)"

text \<open>The atomic variant performs the same update in one indivisible step.\<close>

definition bitvector_set_atomic :: "bitvector \<Rightarrow> nat \<Rightarrow> bitvector" where
  "bitvector_set_atomic bv idx =
     (let mask = push_bit (bv_ofs idx) 1
      in bv\<lparr>bv_data := (bv_data bv)[bv_seg idx := bv_data bv ! bv_seg idx OR mask]\<rparr>)"

definition bitvector_unset :: "bitvector \<Rightarrow> nat \<Rightarrow> bitvector" where
  "bitvector_unset bv idx =
     (let mask = NOT (push_bit (bv_ofs idx) 1); w = bv_seg idx
      in bv\<lparr>bv_data := (bv_data bv)[w := bv_data bv ! w AND mask]\<rparr>)"

definition bitvector_is_set :: "bitvector \<Rightarrow> nat \<Rightarrow> bool" where
  "bitvector_is_set bv idx =
     (let mask = push_bit (bv_ofs idx) 1 in bv_data bv ! bv_seg idx AND mask \<noteq> 0)"

text \<open>The word-wise loops over two vectors of the same number of words.\<close>

definition map_words :: "(u64 \<Rightarrow> u64 \<Rightarrow> u64) \<Rightarrow> bitvector \<Rightarrow> bitvector \<Rightarrow> u64 list" where
  "map_words f bv bv2 = map (\<lambda>i. f (bv_data bv ! i) (bv_data bv2 ! i)) [0..<n_words bv]"

definition bitvector_union :: "bitvector \<Rightarrow> bitvector \<Rightarrow> bitvector" where
  "bitvector_union bv bv2 =
     (if n_bits bv \<noteq> n_bits bv2 then bv else bv\<lparr>bv_data := map_words (OR) bv bv2\<rparr>)"

definition bitvector_intersect :: "bitvector \<Rightarrow> bitvector \<Rightarrow> bitvector" where
  "bitvector_intersect bv bv2 =
     (if n_bits bv \<noteq> n_bits bv2 then bv else bv\<lparr>bv_data := map_words (AND) bv bv2\<rparr>)"

definition bitvector_xor :: "bitvector \<Rightarrow> bitvector \<Rightarrow> bitvector" where
  "bitvector_xor bv bv2 =
     (if n_bits bv \<noteq> n_bits bv2 then bv else bv\<lparr>bv_data := map_words (XOR) bv bv2\<rparr>)"

definition bitvector_is_empty :: "bitvector \<Rightarrow> bool" where
  "bitvector_is_empty bv =
     (if n_bits bv = 0 then True
      else fold (\<lambda>i result. result OR bv_data bv ! i) [0..<n_words bv] 0 = 0)"

definition bitvector_is_disjoint :: "bitvector \<Rightarrow> bitvector \<Rightarrow> bool" where
  "bitvector_is_disjoint bv1 bv2 =
     (if n_bits bv1 \<noteq> n_bits bv2 then False
      else fold (\<lambda>i result. result OR (bv_data bv1 ! i AND bv_data bv2 ! i))
             [0..<n_words bv1] 0 = 0)"

definition bitvector_invert :: "bitvector \<Rightarrow> bitvector" where
  "bitvector_invert bv =
     (if n_bits bv = 0 then bv
      else let d = map (\<lambda>i. NOT (bv_data bv ! i)) [0..<n_words bv];
               used_bits = WORD_BITS - (n_words bv * WORD_BITS - n_bits bv);
               mask = push_bit used_bits 1 - 1
           in bv\<lparr>bv_data := (if used_bits < WORD_BITS
                then d[n_words bv - 1 := d ! (n_words bv - 1) AND mask] else d)\<rparr>)"

definition popcountll :: "u64 \<Rightarrow> nat" where
  "popcountll w = length (filter (bit w) [0..<64])"

definition bitvector_n_high :: "bitvector \<Rightarrow> nat" where
  "bitvector_n_high bv = fold (\<lambda>i n. n + popcountll (bv_data bv ! i)) [0..<n_words bv] 0"

text \<open>The result is the part of the caller's array that the loop writes.\<close>

definition bitvector_high_bits :: "bitvector \<Rightarrow> nat list result" where
  "bitvector_high_bits bv =
     (if n_bits bv > INT_MAX then Inl (Abort_msg ''bitvector too large'')
      else Inr (filter (bitvector_is_set bv) [0..<n_bits bv]))"

definition bitvector_equal :: "bitvector \<Rightarrow> bitvector \<Rightarrow> bool" where
  "bitvector_equal bv1 bv2 =
     (if n_bits bv1 \<noteq> n_bits bv2 then False
      else list_all (\<lambda>i. bv_data bv1 ! i = bv_data bv2 ! i) [0..<n_words bv1])"

section \<open>Invariant and abstraction\<close>

definition bv_bit :: "bitvector \<Rightarrow> nat \<Rightarrow> bool" where
  "bv_bit bv i = bit (bv_data bv ! (i div 64)) (i mod 64)"

definition bv_wf :: "bitvector \<Rightarrow> bool" where
  "bv_wf bv \<longleftrightarrow> n_words bv = (n_bits bv + 63) div 64 \<and> length (bv_data bv) = n_words bv
     \<and> (\<forall>i. n_bits bv \<le> i \<and> i < 64 * n_words bv \<longrightarrow> \<not> bv_bit bv i)"

definition bv_set :: "bitvector \<Rightarrow> nat set" where
  "bv_set bv = {i. i < n_bits bv \<and> bv_bit bv i}"

lemmas bv_const = WORD_BITS_def WORD_BITS_MASK_def WORD_SHIFT_def

lemma bv_seg_div [simp]: "bv_seg i = i div 64"
  by (simp add: bv_seg_def bv_const bit_facts)

lemma bv_ofs_mod [simp]: "bv_ofs i = i mod 64"
  by (simp add: bv_ofs_def bv_const bit_facts)

lemma utrunc_64: "n + 63 < SIZE_LIMIT \<Longrightarrow> utrunc n WORD_BITS = (n + 63) div 64"
  by (simp add: utrunc_def bv_const)

lemma bv_index_in_bounds: "bv_wf bv \<Longrightarrow> i < n_bits bv \<Longrightarrow> bv_seg i < length (bv_data bv)"
  by (simp add: bv_wf_def)

lemma bv_index_words: "bv_wf bv \<Longrightarrow> i < n_bits bv \<Longrightarrow> i < 64 * n_words bv"
  by (simp add: bv_wf_def)

lemma is_set_bit: "bitvector_is_set bv i = bv_bit bv i"
  by (simp add: bitvector_is_set_def bv_bit_def bit_facts)

lemma bv_bit_update:
  assumes "e div 64 < length (bv_data bv)"
  shows "bv_bit (bv\<lparr>bv_data := (bv_data bv)[e div 64 := w]\<rparr>) i
    = (if i div 64 = e div 64 then bit w (i mod 64) else bv_bit bv i)"
  using assms by (simp add: bv_bit_def)

lemma create_wf:
  assumes "n + 63 < SIZE_LIMIT"
  shows "bv_wf (bitvector_create n)" and "bv_set (bitvector_create n) = {}"
    and "n_bits (bitvector_create n) = n"
  using assms
  by (auto simp: bitvector_create_def Let_def utrunc_64 bv_wf_def bv_bit_def bv_set_def
      nth_replicate div_less_iff_less_mult less_mult_imp_div_less mult.commute)

lemma bv_set_eq_iff:
  assumes "bv_wf a" and "bv_wf b" and "n_bits a = n_bits b"
  shows "bv_data a = bv_data b \<longleftrightarrow> bv_set a = bv_set b"
proof
  assume "bv_data a = bv_data b"
  then show "bv_set a = bv_set b" using assms by (simp add: bv_set_def bv_bit_def)
next
  assume eq: "bv_set a = bv_set b"
  have all: "bv_bit a i = bv_bit b i" if "i < 64 * n_words a" for i
    using that eq assms by (cases "i < n_bits a") (auto simp: bv_set_def bv_wf_def)
  show "bv_data a = bv_data b"
  proof (rule nth_equalityI)
    show "length (bv_data a) = length (bv_data b)" using assms by (simp add: bv_wf_def)
    fix k assume "k < length (bv_data a)"
    then have k: "k < n_words a" using assms by (simp add: bv_wf_def)
    show "bv_data a ! k = bv_data b ! k"
    proof (rule word_eq_bits)
      fix n assume "n < LENGTH(64)"
      then have n: "n < 64" by simp
      with k have "64 * k + n < 64 * n_words a" by linarith
      from all[OF this] n show "bit (bv_data a ! k) n = bit (bv_data b ! k) n"
        by (simp add: bv_bit_def)
    qed
  qed
qed


section \<open>The operations on single bits\<close>

lemma set_frame [simp]:
  "n_bits (bitvector_set bv e) = n_bits bv" "n_words (bitvector_set bv e) = n_words bv"
  "length (bv_data (bitvector_set bv e)) = length (bv_data bv)"
  "n_bits (bitvector_unset bv e) = n_bits bv" "n_words (bitvector_unset bv e) = n_words bv"
  "length (bv_data (bitvector_unset bv e)) = length (bv_data bv)"
  by (simp_all add: bitvector_set_def bitvector_unset_def Let_def)

lemma set_bit_iff:
  assumes "e div 64 < length (bv_data bv)"
  shows "bv_bit (bitvector_set bv e) i \<longleftrightarrow> i = e \<or> bv_bit bv i"
  using assms
  by (auto simp: bitvector_set_def Let_def bv_bit_update bit_or_iff bit_facts)
    (auto simp: bv_bit_def dest: div_mod_64_eq)

lemma unset_bit_iff:
  assumes "e div 64 < length (bv_data bv)"
  shows "bv_bit (bitvector_unset bv e) i \<longleftrightarrow> i \<noteq> e \<and> bv_bit bv i"
  using assms
  by (auto simp: bitvector_unset_def Let_def bv_bit_update bit_and_iff bit_not_iff bit_facts)
    (auto simp: bv_bit_def dest: div_mod_64_eq)

lemma set_wf:
  assumes "bv_wf bv" and "e < n_bits bv"
  shows "bv_wf (bitvector_set bv e)" and "bv_wf (bitvector_unset bv e)"
  using assms bv_index_in_bounds[OF assms]
  by (auto simp: bv_wf_def set_bit_iff unset_bit_iff)

lemma set_bit_set:
  assumes "bv_wf bv" and "e < n_bits bv"
  shows "bv_set (bitvector_set bv e) = insert e (bv_set bv)"
    and "bv_set (bitvector_unset bv e) = bv_set bv - {e}"
  using assms bv_index_in_bounds[OF assms]
  by (auto simp: bv_set_def set_bit_iff unset_bit_iff)

interpretation bv: bit_map bv_wf "\<lambda>bv e. e < n_bits bv" bitvector_is_set bitvector_set bitvector_unset
proof unfold_locales
  fix s e x assume "bv_wf s" and e: "e < n_bits s" and x: "x < n_bits s"
  then have "e div 64 < length (bv_data s)" using bv_index_in_bounds by simp
  then show "bitvector_is_set (bitvector_set s e) x \<longleftrightarrow> x = e \<or> bitvector_is_set s x"
    and "bitvector_is_set (bitvector_unset s e) x \<longleftrightarrow> x \<noteq> e \<and> bitvector_is_set s x"
    by (simp_all add: is_set_bit set_bit_iff unset_bit_iff)
qed (simp_all add: set_wf)

lemma isset_or_set_eq:
  "bitvector_isset_or_set bv e = (bitvector_is_set bv e, bitvector_set bv e)"
  by (simp add: bitvector_isset_or_set_def bitvector_is_set_def bitvector_set_def Let_def)

lemma set_atomic_eq: "bitvector_set_atomic bv e = bitvector_set bv e"
  by (simp add: bitvector_set_atomic_def bitvector_set_def Let_def)

section \<open>The word-wise operations\<close>

lemma map_words_bit:
  assumes "i < 64 * n_words bv"
  shows "bv_bit (bv\<lparr>bv_data := map_words f bv bv2\<rparr>) i
    = bit (f (bv_data bv ! (i div 64)) (bv_data bv2 ! (i div 64))) (i mod 64)"
proof -
  have "i div 64 < n_words bv" using assms by (simp add: less_mult_imp_div_less mult.commute)
  then show ?thesis by (simp add: bv_bit_def map_words_def)
qed

lemma word_op_wf:
  assumes "bv_wf a" and "bv_wf b" and "n_bits a = n_bits b"
    and g: "\<And>v w n. n < 64 \<Longrightarrow> bit (f v w) n = g (bit v n) (bit w n)" and "\<not> g False False"
  shows "bv_wf (a\<lparr>bv_data := map_words f a b\<rparr>)"
    and "bv_set (a\<lparr>bv_data := map_words f a b\<rparr>)
      = {i. i < n_bits a \<and> g (i \<in> bv_set a) (i \<in> bv_set b)}"
proof -
  have w: "n_words b = n_words a" using assms by (simp add: bv_wf_def)
  have bit: "bv_bit (a\<lparr>bv_data := map_words f a b\<rparr>) i = g (bv_bit a i) (bv_bit b i)"
    if "i < 64 * n_words a" for i
    using map_words_bit[OF that] g by (simp add: bv_bit_def)
  show "bv_wf (a\<lparr>bv_data := map_words f a b\<rparr>)"
    unfolding bv_wf_def using assms(1,2,3,5) w bit by (auto simp: bv_wf_def map_words_def)
  show "bv_set (a\<lparr>bv_data := map_words f a b\<rparr>)
      = {i. i < n_bits a \<and> g (i \<in> bv_set a) (i \<in> bv_set b)}"
    using bit bv_index_words[OF assms(1)] assms(3) by (auto simp: bv_set_def)
qed

lemma fold_or_zero:
  "fold (\<lambda>i result. result OR f i) xs (w::u64) = 0 \<longleftrightarrow> w = 0 \<and> (\<forall>i \<in> set xs. f i = 0)"
  by (induction xs arbitrary: w) (auto simp: or_eq_0_iff)

lemma words_zero_iff:
  "(\<forall>k < m. f k = (0::u64)) \<longleftrightarrow> (\<forall>i < 64 * m. \<not> bit (f (i div 64)) (i mod 64))"
proof
  assume "\<forall>k < m. f k = (0::u64)"
  then show "\<forall>i < 64 * m. \<not> bit (f (i div 64)) (i mod 64)"
    by (simp add: less_mult_imp_div_less mult.commute)
next
  assume *: "\<forall>i < 64 * m. \<not> bit (f (i div 64)) (i mod 64)"
  show "\<forall>k < m. f k = (0::u64)"
  proof (intro allI impI, subst word_zero_iff_bits, intro allI impI)
    fix k n assume "k < m" and "n < LENGTH(64)"
    then have "64 * k + n < 64 * m" and "n < 64" by simp_all
    moreover from \<open>n < 64\<close> have "(64 * k + n) div 64 = k" and "(64 * k + n) mod 64 = n" by simp_all
    ultimately show "\<not> bit (f k) n" using * by metis
  qed
qed

lemma invert_bit:
  assumes "bv_wf bv" and "i < 64 * n_words bv"
  shows "bv_bit (bitvector_invert bv) i \<longleftrightarrow> i < n_bits bv \<and> \<not> bv_bit bv i"
proof (cases "n_bits bv = 0")
  case True
  with assms show ?thesis by (simp add: bitvector_invert_def bv_wf_def)
next
  case False
  let ?d = "map (\<lambda>i. NOT (bv_data bv ! i)) [0..<n_words bv]"
  let ?used = "64 - (n_words bv * 64 - n_bits bv)"
  have nw: "n_words bv = (n_bits bv + 63) div 64" using assms by (simp add: bv_wf_def)
  have k: "i div 64 < n_words bv" using assms(2) by (simp add: less_mult_imp_div_less mult.commute)
  have base: "bit (?d ! (i div 64)) (i mod 64) \<longleftrightarrow> \<not> bv_bit bv i"
    using k by (simp add: bv_bit_def bit_not_iff)
  have mask: "bit (push_bit ?used 1 - 1 :: u64) n \<longleftrightarrow> n < ?used" if "n < 64" for n
    using that by (simp add: push_bit_of_1 flip: mask_eq_exp_minus_1) (simp add: bit_mask_iff)
  show ?thesis
  proof (cases "?used < 64 \<and> i div 64 = n_words bv - 1")
    case True
    then have u: "?used < 64" and l: "i div 64 = n_words bv - 1" by auto
    have "i = 64 * (n_words bv - 1) + i mod 64" using l by (metis mult_div_mod_eq)
    then have "i < n_bits bv \<longleftrightarrow> i mod 64 < ?used" using nw False k by linarith
    moreover have "bv_bit (bitvector_invert bv) i
      = (bit (?d ! (i div 64)) (i mod 64) \<and> bit (push_bit ?used 1 - 1 :: u64) (i mod 64))"
      using u l k False unfolding bitvector_invert_def bv_const Let_def bv_bit_def
      by (simp only: if_True if_False bitvector.simps nth_list_update length_map length_upt)
        (simp add: bit_and_iff)
    moreover have "bit (push_bit ?used 1 - 1 :: u64) (i mod 64) \<longleftrightarrow> i mod 64 < ?used"
      by (rule mask) simp
    ultimately show ?thesis using base by blast
  next
    case neither: False
    have "i < n_bits bv" using neither nw False k by linarith
    moreover have "bv_bit (bitvector_invert bv) i = bit (?d ! (i div 64)) (i mod 64)"
      using neither False k by (auto simp: bitvector_invert_def bv_const Let_def bv_bit_def)
    ultimately show ?thesis using base by simp
  qed
qed

lemma invert_frame [simp]:
  "n_bits (bitvector_invert bv) = n_bits bv" "n_words (bitvector_invert bv) = n_words bv"
  by (simp_all add: bitvector_invert_def Let_def)

lemma invert_wf: "bv_wf bv \<Longrightarrow> bv_wf (bitvector_invert bv)"
  using invert_bit[of bv]
  by (auto simp: bv_wf_def) (auto simp: bitvector_invert_def Let_def bv_wf_def)

lemma n_high_card:
  assumes "bv_wf bv"
  shows "bitvector_n_high bv = card (bv_set bv)"
proof -
  have pop: "popcountll w = count_below (bit w) 64" for w
    by (simp add: popcountll_def count_below_eq_length_filter)
  have step: "fold (\<lambda>i n. n + popcountll (bv_data bv ! i)) [0..<k] 0 = count_below (bv_bit bv) (64 * k)" for k
  proof (induction k)
    case (Suc k)
    have "{i. i < 64 * Suc k \<and> bv_bit bv i}
      = {i. i < 64 * k \<and> bv_bit bv i} \<union> (\<lambda>n. 64 * k + n) ` {n. n < 64 \<and> bit (bv_data bv ! k) n}"
    proof (intro set_eqI iffI)
      fix i assume i: "i \<in> {i. i < 64 * Suc k \<and> bv_bit bv i}"
      show "i \<in> {i. i < 64 * k \<and> bv_bit bv i} \<union> (\<lambda>n. 64 * k + n) ` {n. n < 64 \<and> bit (bv_data bv ! k) n}"
      proof (cases "i < 64 * k")
        case False
        then obtain n where "i = 64 * k + n" using le_Suc_ex not_less by blast
        moreover from this i have "n < 64" by simp
        ultimately have "i = 64 * k + n" "n < 64" "i div 64 = k" "i mod 64 = n" by simp_all
        then show ?thesis using i by (auto simp: bv_bit_def)
      qed (use i in simp)
    qed (auto simp: bv_bit_def)
    then have "count_below (bv_bit bv) (64 * Suc k)
      = card {i. i < 64 * k \<and> bv_bit bv i} + card ((\<lambda>n. 64 * k + n) ` {n. n < 64 \<and> bit (bv_data bv ! k) n})"
      unfolding count_below_def by (subst card_Un_disjoint[symmetric]) auto
    also have "card ((\<lambda>n. 64 * k + n) ` {n. n < 64 \<and> bit (bv_data bv ! k) n}) = popcountll (bv_data bv ! k)"
      unfolding pop count_below_def by (rule card_image) (simp add: inj_on_def)
    finally show ?case using Suc by (simp add: count_below_def)
  qed simp
  have "{i. i < 64 * n_words bv \<and> bv_bit bv i} = bv_set bv"
    using assms bv_index_words[OF assms] by (auto simp: bv_set_def bv_wf_def not_le[symmetric])
  with step[of "n_words bv"] show ?thesis by (simp add: bitvector_n_high_def count_below_def)
qed

section \<open>Pairs of bits\<close>

lemma bit_three: "bit (3::int) n \<longleftrightarrow> n < 2"
proof -
  have "(3::int) = mask 2" by (simp add: mask_eq_exp_minus_1)
  then show ?thesis by (simp only: bit_mask_iff) auto
qed

lemma small_bit: "(v::u64) < 4 \<Longrightarrow> bit v n \<Longrightarrow> n < 2"
proof -
  assume "v < 4" and n: "bit v n"
  then have "take_bit 2 v = v" by (simp add: take_bit_eq_mod unsigned_take_bit_eq word_mod_less_divisor mod_word_less)
  then show "n < 2" using n by (metis bit_take_bit_iff)
qed

lemma set2_bit:
  assumes "even e" and "e div 64 < length (bv_data bv)" and "v < 4"
  shows "bv_bit (bitvector_set2 bv e v) i
    = (if i = e \<or> i = Suc e then bit v (i - e) else bv_bit bv i)"
proof (cases "i div 64 = e div 64")
  case False
  moreover have "Suc e div 64 = e div 64" using div_mod_64_add(1)[of e 1] even_mod_64[OF assms(1)] by simp
  ultimately have "i \<noteq> e" "i \<noteq> Suc e" by auto
  with False assms show ?thesis
    by (simp add: bitvector_set2_def Let_def bv_bit_update)
next
  case True
  have e: "e mod 64 \<le> 62" using assms(1) by (rule even_mod_64)
  have i: "i = e + k \<longleftrightarrow> i mod 64 = e mod 64 + k" for k
    using True div_mult_mod_eq[of i 64] div_mult_mod_eq[of e 64] by linarith
  have "bv_bit (bitvector_set2 bv e v) i
    = ((bv_bit bv i \<and> \<not> (e mod 64 \<le> i mod 64 \<and> i mod 64 < e mod 64 + 2))
       \<or> (e mod 64 \<le> i mod 64 \<and> bit v (i mod 64 - e mod 64)))"
    using True assms(2)
    by (auto simp: bitvector_set2_def Let_def bv_bit_update bit_or_iff bit_and_iff bit_not_iff
        bit_push_bit_iff bit_three bv_bit_def)
  moreover have "i = e \<or> i = Suc e \<longleftrightarrow> e mod 64 \<le> i mod 64 \<and> i mod 64 < e mod 64 + 2"
    using i[of 0] i[of 1] by auto
  moreover have "i - e = i mod 64 - e mod 64" if "i = e \<or> i = Suc e"
    using that i[of 0] i[of 1] by auto
  moreover have "i mod 64 < e mod 64 + 2" if "e mod 64 \<le> i mod 64" "bit v (i mod 64 - e mod 64)"
    using small_bit[OF assms(3) that(2)] that(1) by simp
  ultimately show ?thesis by auto
qed

lemma get2_bit:
  assumes "even e" and "n < 64"
  shows "bit (bitvector_get2 bv e) n \<longleftrightarrow> n < 2 \<and> bv_bit bv (e + n)"
proof -
  have e: "e mod 64 \<le> 62" using assms(1) by (rule even_mod_64)
  then have "bit (bitvector_get2 bv e) n \<longleftrightarrow> n < 2 \<and> bit (bv_data bv ! (e div 64)) (e mod 64 + n)"
    using assms(2)
    by (auto simp: bitvector_get2_def bit_drop_bit_eq bit_and_iff bit_push_bit_iff bit_three)
  moreover have "(e + n) div 64 = e div 64" "(e + n) mod 64 = e mod 64 + n" if "n < 2"
    using that e div_mod_64_add[of e n] by auto
  ultimately show ?thesis by (auto simp only: bv_bit_def)
qed

section \<open>Properties\<close>

text \<open>
  C13. The operations implement the set operations: within the vector's range \<^verbatim>\<open>bitvector_set\<close> adds
  exactly one element to the represented set and \<^verbatim>\<open>bitvector_unset\<close> removes exactly one; on
  well-formed vectors of the same size, \<^verbatim>\<open>bitvector_union\<close>, \<^verbatim>\<open>bitvector_intersect\<close> and
  \<^verbatim>\<open>bitvector_xor\<close> compute union, intersection and symmetric difference of the represented sets,
  \<^verbatim>\<open>bitvector_invert\<close> the complement within the vector's range, and all six keep the invariant (in
  particular the unused bits of the last word stay zero).
\<close>

theorem bitvector_set_algebra:
  assumes "bv_wf a" and "bv_wf b" and "n_bits a = n_bits b"
  shows "bv_wf (bitvector_union a b) \<and> bv_set (bitvector_union a b) = bv_set a \<union> bv_set b
    \<and> bv_wf (bitvector_intersect a b) \<and> bv_set (bitvector_intersect a b) = bv_set a \<inter> bv_set b
    \<and> bv_wf (bitvector_xor a b)
    \<and> bv_set (bitvector_xor a b) = (bv_set a - bv_set b) \<union> (bv_set b - bv_set a)
    \<and> bv_wf (bitvector_invert a) \<and> bv_set (bitvector_invert a) = {..<n_bits a} - bv_set a
    \<and> (\<forall>e < n_bits a. bv_wf (bitvector_set a e) \<and> bv_set (bitvector_set a e) = insert e (bv_set a)
         \<and> bv_wf (bitvector_unset a e) \<and> bv_set (bitvector_unset a e) = bv_set a - {e})"
proof -
  have sub: "bv_set a \<subseteq> {..<n_bits a}" "bv_set b \<subseteq> {..<n_bits a}"
    using assms(3) by (auto simp: bv_set_def)
  note op = word_op_wf[OF assms]
  have "bv_set (bitvector_invert a) = {..<n_bits a} - bv_set a"
    using invert_bit[OF assms(1)] bv_index_words[OF assms(1)] by (auto simp: bv_set_def)
  moreover have "bv_wf (bitvector_union a b)" "bv_set (bitvector_union a b) = bv_set a \<union> bv_set b"
    using assms(3) op[of "(OR)" "(\<or>)"] sub by (auto simp: bitvector_union_def bit_or_iff)
  moreover have "bv_wf (bitvector_intersect a b)"
    "bv_set (bitvector_intersect a b) = bv_set a \<inter> bv_set b"
    using assms(3) op[of "(AND)" "(\<and>)"] sub by (auto simp: bitvector_intersect_def bit_and_iff)
  moreover have "bv_wf (bitvector_xor a b)"
    "bv_set (bitvector_xor a b) = (bv_set a - bv_set b) \<union> (bv_set b - bv_set a)"
    using assms(3) op[of "(XOR)" "(\<noteq>)"] sub by (auto simp: bitvector_xor_def bit_xor_iff)
  moreover have "bv_wf (bitvector_set a e) \<and> bv_set (bitvector_set a e) = insert e (bv_set a)
      \<and> bv_wf (bitvector_unset a e) \<and> bv_set (bitvector_unset a e) = bv_set a - {e}" if "e < n_bits a" for e
    using assms(1) that by (simp add: set_wf set_bit_set)
  ultimately show ?thesis using invert_wf[OF assms(1)] by blast
qed

definition bv_demo1 :: bitvector where
  "bv_demo1 = bitvector_set (bitvector_set (bitvector_create 70) 3) 68"

definition bv_demo2 :: bitvector where
  "bv_demo2 = bitvector_set (bitvector_create 70) 68"

lemma bv_demo_wf: "bv_wf bv_demo1" "bv_wf bv_demo2" "n_bits bv_demo1 = 70" "n_bits bv_demo2 = 70"
  using create_wf[of 70] by (simp_all add: bv_demo1_def bv_demo2_def set_wf)

theorem bitvector_set_algebra_witness:
  "n_bits bv_demo1 = n_bits bv_demo2
    \<and> bv_set (bitvector_invert bv_demo1) = {..<70} - bv_set bv_demo1
    \<and> bv_set (bitvector_unset bv_demo1 68) = bv_set bv_demo1 - {68}"
  using bitvector_set_algebra[OF bv_demo_wf(1,2)] bv_demo_wf by simp

text \<open>
  C14. The queries answer about the represented sets: emptiness, disjointness and equality are
  exact (equality because the unused bits are kept zero), \<^verbatim>\<open>bitvector_n_high\<close> is the
  cardinality, and \<^verbatim>\<open>bitvector_high_bits\<close> lists the elements in increasing order.
\<close>

theorem bitvector_queries:
  assumes "bv_wf a" and "bv_wf b" and "n_bits a = n_bits b"
  shows "(bitvector_is_empty a \<longleftrightarrow> bv_set a = {})
    \<and> (bitvector_is_disjoint a b \<longleftrightarrow> bv_set a \<inter> bv_set b = {})
    \<and> (bitvector_equal a b \<longleftrightarrow> bv_set a = bv_set b)
    \<and> bitvector_n_high a = card (bv_set a)
    \<and> (n_bits a \<le> INT_MAX \<longrightarrow> bitvector_high_bits a = Inr (sorted_list_of_set (bv_set a)))"
proof (intro conjI impI)
  have high: "i < n_bits a" if "i < 64 * n_words a" "bv_bit a i" for i
    using assms(1) that by (auto simp: bv_wf_def not_le[symmetric])
  show "bitvector_is_empty a \<longleftrightarrow> bv_set a = {}"
    using high bv_index_words[OF assms(1)]
    by (auto simp: bitvector_is_empty_def fold_or_zero words_zero_iff bv_bit_def[symmetric]
        bv_set_def atLeast0LessThan Ball_def)
  show "bitvector_is_disjoint a b \<longleftrightarrow> bv_set a \<inter> bv_set b = {}"
    using high bv_index_words[OF assms(1)] assms(3)
    by (auto simp: bitvector_is_disjoint_def fold_or_zero words_zero_iff bit_and_iff
        bv_bit_def[symmetric] bv_set_def atLeast0LessThan Ball_def)
  have "bv_data a = bv_data b \<longleftrightarrow> (\<forall>k < n_words a. bv_data a ! k = bv_data b ! k)"
    using assms by (auto simp: bv_wf_def list_eq_iff_nth_eq)
  then show "bitvector_equal a b \<longleftrightarrow> bv_set a = bv_set b"
    using bv_set_eq_iff[OF assms] assms(3) by (auto simp: bitvector_equal_def list_all_iff)
  show "bitvector_n_high a = card (bv_set a)" using assms(1) by (rule n_high_card)
  assume "n_bits a \<le> INT_MAX"
  moreover have "bv_set a = set (filter (bitvector_is_set a) [0..<n_bits a])"
    by (auto simp: bv_set_def is_set_bit)
  then have "sorted_list_of_set (bv_set a) = filter (bitvector_is_set a) [0..<n_bits a]"
    by (simp only:) (rule sorted_list_of_set.idem_if_sorted_distinct, simp_all add: sorted_wrt_filter)
  ultimately show "bitvector_high_bits a = Inr (sorted_list_of_set (bv_set a))"
    by (simp add: bitvector_high_bits_def)
qed

theorem bitvector_queries_witness:
  "bv_wf bv_demo1 \<and> bitvector_n_high bv_demo1 = card (bv_set bv_demo1)"
  using bitvector_queries[OF bv_demo_wf(1,2)] bv_demo_wf by simp

text \<open>
  Two-bit entries at even indices: \<^verbatim>\<open>bitvector_get2\<close> reads back the value written by
  \<^verbatim>\<open>bitvector_set2\<close>, the other pairs keep theirs, and \<^verbatim>\<open>bitvector_isset_or_set2\<close> reports whether
  the pair already had the value while performing the same write.
\<close>

theorem bitvector_two_bit_roundtrip:
  assumes "bv_wf bv" and "even e" and "even x" and "e < n_bits bv" and "v < 4"
  shows "bitvector_get2 (bitvector_set2 bv e v) x
      = (if x = e then v else bitvector_get2 bv x)
    \<and> bitvector_isset_or_set2 bv e v = (bitvector_get2 bv e = v, bitvector_set2 bv e v)"
proof
  have len: "e div 64 < length (bv_data bv)" using bv_index_in_bounds[OF assms(1,4)] by simp
  show "bitvector_get2 (bitvector_set2 bv e v) x = (if x = e then v else bitvector_get2 bv x)"
  proof (rule word_eq_bits)
    fix n assume "n < LENGTH(64)"
    then have n: "n < 64" by simp
    have "x + n \<noteq> e \<and> x + n \<noteq> Suc e" if "x \<noteq> e" "n < 2"
      using that assms(2,3) by presburger
    then show "bit (bitvector_get2 (bitvector_set2 bv e v) x) n
      = bit (if x = e then v else bitvector_get2 bv x) n"
      using assms(2,3,5) len n small_bit[OF assms(5), of n]
      by (auto simp: get2_bit set2_bit less_Suc_eq numeral_2_eq_2)
  qed
  have e: "e mod 64 \<le> 62" using assms(2) by (rule even_mod_64)
  have "bv_data bv ! (e div 64) AND push_bit (e mod 64) 3 = push_bit (e mod 64) v
    \<longleftrightarrow> bitvector_get2 bv e = v"
  proof
    assume "bv_data bv ! (e div 64) AND push_bit (e mod 64) 3 = push_bit (e mod 64) v"
    then have "bitvector_get2 bv e = drop_bit (e mod 64) (push_bit (e mod 64) v)"
      unfolding bitvector_get2_def Let_def bv_seg_div bv_ofs_mod by (rule arg_cong)
    also have "\<dots> = v"
      by (rule word_eq_bits)
        (use e in \<open>auto simp: bit_drop_bit_eq bit_push_bit_iff dest: small_bit[OF assms(5)]\<close>)
    finally show "bitvector_get2 bv e = v" .
  next
    assume v: "bitvector_get2 bv e = v"
    show "bv_data bv ! (e div 64) AND push_bit (e mod 64) 3 = push_bit (e mod 64) v"
      by (rule word_eq_bits) (auto simp: v[symmetric] bitvector_get2_def bit_and_iff bit_push_bit_iff
          bit_three bit_drop_bit_eq)
  qed
  then show "bitvector_isset_or_set2 bv e v = (bitvector_get2 bv e = v, bitvector_set2 bv e v)"
    by (simp add: bitvector_isset_or_set2_def bitvector_set2_def Let_def)
qed

theorem bitvector_two_bit_roundtrip_witness:
  "bitvector_get2 (bitvector_set2 bv_demo1 2 2) 2 = 2 \<and> bv_wf bv_demo1"
  using bitvector_two_bit_roundtrip[of bv_demo1 2 2 2] bv_demo_wf by simp

end
