(* ===== verification/Dm_Base.thy ===== *)
theory Dm_Base
  imports Bitvector
begin

text \<open>
  The dependency matrix of \<^verbatim>\<open>src/src/dm/dm.c\<close>: its headers (the permutation \<open>becomes\<close> with its
  inverse \<open>at\<close>, the group links, the caches of counts, minima and maxima), creation, reading and
  writing of single entries, and the searches \<^verbatim>\<open>dm_first\<close>, \<^verbatim>\<open>dm_last\<close>, \<^verbatim>\<open>dm_top\<close>, \<^verbatim>\<open>dm_bottom\<close>.
  Rows and columns are natural numbers (the C code uses non-negative \<^verbatim>\<open>int\<close>), the cached counts,
  minima and maxima are integers because the code stores \<open>-1\<close> for an absent value.
  The invariant \<open>dm_wf\<close> says that both headers are permutations with their inverses, that the bit
  vector has room for every physical entry, and that the cached counts of the live rows and
  columns are exact.
\<close>

section \<open>Model\<close>

record header_entry =
  becomes :: nat
  at :: nat
  group :: nat

record matrix_header =
  h_size :: nat
  h_data :: "header_entry list"
  h_count :: "int list"
  h_min :: "int list"
  h_max :: "int list"

record matrix =
  rows :: nat
  cols :: nat
  bits_per_row :: nat
  row_perm :: matrix_header
  col_perm :: matrix_header
  bits :: bitvector

definition hdr_add_count :: "nat \<Rightarrow> int \<Rightarrow> matrix_header \<Rightarrow> matrix_header" where
  "hdr_add_count i d p = p\<lparr>h_count := (h_count p)[i := h_count p ! i + d]\<rparr>"

definition hdr_set_min :: "nat \<Rightarrow> int \<Rightarrow> matrix_header \<Rightarrow> matrix_header" where
  "hdr_set_min i v p = p\<lparr>h_min := (h_min p)[i := v]\<rparr>"

definition hdr_set_max :: "nat \<Rightarrow> int \<Rightarrow> matrix_header \<Rightarrow> matrix_header" where
  "hdr_set_max i v p = p\<lparr>h_max := (h_max p)[i := v]\<rparr>"

definition dm_clear_header :: "matrix_header \<Rightarrow> matrix_header" where
  "dm_clear_header p = p\<lparr>h_data := map (\<lambda>i. \<lparr>becomes = i, at = i, group = i\<rparr>) [0..<h_size p],
     h_count := replicate (h_size p) 0, h_min := replicate (h_size p) (-1),
     h_max := replicate (h_size p) (-1)\<rparr>"

definition dm_create_header :: "nat \<Rightarrow> matrix_header" where
  "dm_create_header sz = \<lparr>h_size = sz,
     h_data = map (\<lambda>i. \<lparr>becomes = i, at = i, group = i\<rparr>) [0..<sz],
     h_count = replicate sz 0, h_min = replicate sz (-1), h_max = replicate sz (-1)\<rparr>"

definition invalidate_min_max :: "matrix_header \<Rightarrow> matrix_header" where
  "invalidate_min_max p =
     p\<lparr>h_min := replicate (h_size p) (-1), h_max := replicate (h_size p) (-1)\<rparr>"

definition dm_nrows :: "matrix \<Rightarrow> nat" where
  "dm_nrows m = rows m"

definition dm_ncols :: "matrix \<Rightarrow> nat" where
  "dm_ncols m = cols m"

definition dm_create :: "nat \<Rightarrow> nat \<Rightarrow> matrix" where
  "dm_create r c =
     (let row_size = (if c mod 32 \<noteq> 0 then c - c mod 32 + 32 else c)
      in \<lparr>rows = r, cols = c, bits_per_row = row_size, row_perm = dm_create_header r,
          col_perm = dm_create_header c, bits = bitvector_create (r * row_size)\<rparr>)"

definition dm_clear :: "matrix \<Rightarrow> matrix" where
  "dm_clear m = m\<lparr>bits := bitvector_clear (bits m), row_perm := dm_clear_header (row_perm m),
     col_perm := dm_clear_header (col_perm m)\<rparr>"

definition rowp :: "matrix \<Rightarrow> nat \<Rightarrow> nat" where
  "rowp m row = becomes (h_data (row_perm m) ! row)"

definition colp :: "matrix \<Rightarrow> nat \<Rightarrow> nat" where
  "colp m col = becomes (h_data (col_perm m) ! col)"

definition dm_ones_in_row :: "matrix \<Rightarrow> nat \<Rightarrow> int" where
  "dm_ones_in_row m row = h_count (row_perm m) ! rowp m row"

definition dm_ones_in_col :: "matrix \<Rightarrow> nat \<Rightarrow> int" where
  "dm_ones_in_col m col = h_count (col_perm m) ! colp m col"

definition dm_is_set :: "matrix \<Rightarrow> nat \<Rightarrow> nat \<Rightarrow> bool" where
  "dm_is_set m row col =
     (let bitnr = rowp m row * bits_per_row m + colp m col
      in bitvector_is_set (bits m) bitnr)"

text \<open>The part of \<^verbatim>\<open>dm_set\<close> that keeps the four caches, in the order of the code.\<close>

definition dm_set_cache :: "matrix \<Rightarrow> nat \<Rightarrow> nat \<Rightarrow> matrix" where
  "dm_set_cache m row col =
     (let r = rowp m row; c = colp m col;
          m = (if (h_min (row_perm m) ! r \<noteq> -1 \<or> dm_ones_in_row m row = 0)
                \<and> int c < h_min (row_perm m) ! r
               then m\<lparr>row_perm := hdr_set_min r (int c) (row_perm m)\<rparr> else m);
          m = (if (h_min (col_perm m) ! c \<noteq> -1 \<or> dm_ones_in_col m col = 0)
                \<and> int r < h_min (col_perm m) ! c
               then m\<lparr>col_perm := hdr_set_min c (int r) (col_perm m)\<rparr> else m);
          m = (if (h_max (row_perm m) ! r \<noteq> -1 \<or> dm_ones_in_row m row = 0)
                \<and> int c > h_max (row_perm m) ! r
               then m\<lparr>row_perm := hdr_set_max r (int c) (row_perm m)\<rparr> else m)
      in if (h_max (col_perm m) ! c \<noteq> -1 \<or> dm_ones_in_col m col = 0)
           \<and> int r > h_max (col_perm m) ! c
         then m\<lparr>col_perm := hdr_set_max c (int r) (col_perm m)\<rparr> else m)"

definition dm_set :: "matrix \<Rightarrow> nat \<Rightarrow> nat \<Rightarrow> matrix" where
  "dm_set m row col =
     (let r = rowp m row; c = colp m col; bitnr = r * bits_per_row m + c;
          m = (if \<not> bitvector_is_set (bits m) bitnr
               then dm_set_cache (m\<lparr>row_perm := hdr_add_count r 1 (row_perm m),
                      col_perm := hdr_add_count c 1 (col_perm m)\<rparr>) row col
               else m)
      in m\<lparr>bits := bitvector_set (bits m) bitnr\<rparr>)"

text \<open>
  The part of \<^verbatim>\<open>dm_unset\<close> that keeps the four caches, one definition per cache. The column minimum
  is guarded by the count of the row and the row maximum by the count of the column, as in the
  code.
\<close>

definition unset_row_min :: "nat \<Rightarrow> nat \<Rightarrow> matrix \<Rightarrow> matrix" where
  "unset_row_min row col m =
     (let r = rowp m row; c = colp m col
      in if h_min (row_perm m) ! r \<noteq> -1 \<and> int c = h_min (row_perm m) ! r
         then if dm_ones_in_row m row > 1
              then case first_from (dm_is_set m row) (col + 1) (dm_ncols m) of
                     Some i \<Rightarrow> m\<lparr>row_perm := hdr_set_min r (int i) (row_perm m)\<rparr>
                   | None \<Rightarrow> m
              else m\<lparr>row_perm := hdr_set_min r (-1) (row_perm m)\<rparr>
         else m)"

definition unset_col_min :: "nat \<Rightarrow> nat \<Rightarrow> matrix \<Rightarrow> matrix" where
  "unset_col_min row col m =
     (let r = rowp m row; c = colp m col
      in if h_min (col_perm m) ! c \<noteq> -1 \<and> int r = h_min (col_perm m) ! c
         then if dm_ones_in_row m row > 1
              then case first_from (\<lambda>i. dm_is_set m i col) (row + 1) (dm_nrows m) of
                     Some i \<Rightarrow> m\<lparr>col_perm := hdr_set_min c (int i) (col_perm m)\<rparr>
                   | None \<Rightarrow> m
              else m\<lparr>col_perm := hdr_set_min c (-1) (col_perm m)\<rparr>
         else m)"

definition unset_row_max :: "nat \<Rightarrow> nat \<Rightarrow> matrix \<Rightarrow> matrix" where
  "unset_row_max row col m =
     (let r = rowp m row; c = colp m col
      in if h_max (row_perm m) ! r \<noteq> -1 \<and> int c = h_max (row_perm m) ! r
         then if dm_ones_in_col m col > 1
              then case last_below (dm_is_set m row) col of
                     Some i \<Rightarrow> m\<lparr>row_perm := hdr_set_max r (int i) (row_perm m)\<rparr>
                   | None \<Rightarrow> m
              else m\<lparr>row_perm := hdr_set_max r (-1) (row_perm m)\<rparr>
         else m)"

definition unset_col_max :: "nat \<Rightarrow> nat \<Rightarrow> matrix \<Rightarrow> matrix" where
  "unset_col_max row col m =
     (let r = rowp m row; c = colp m col
      in if h_max (col_perm m) ! c \<noteq> -1 \<and> int r = h_max (col_perm m) ! c
         then if dm_ones_in_col m col > 1
              then case last_below (\<lambda>i. dm_is_set m i col) row of
                     Some i \<Rightarrow> m\<lparr>col_perm := hdr_set_max c (int i) (col_perm m)\<rparr>
                   | None \<Rightarrow> m
              else m\<lparr>col_perm := hdr_set_max c (-1) (col_perm m)\<rparr>
         else m)"

definition dm_unset :: "matrix \<Rightarrow> nat \<Rightarrow> nat \<Rightarrow> matrix" where
  "dm_unset m row col =
     (let r = rowp m row; c = colp m col; bitnr = r * bits_per_row m + c;
          m = (if bitvector_is_set (bits m) bitnr
               then unset_col_max row col (unset_row_max row col (unset_col_min row col
                      (unset_row_min row col (m\<lparr>row_perm := hdr_add_count r (-1) (row_perm m),
                         col_perm := hdr_add_count c (-1) (col_perm m)\<rparr>))))
               else m)
      in m\<lparr>bits := bitvector_unset (bits m) bitnr\<rparr>)"

definition dm_fill :: "matrix \<Rightarrow> matrix" where
  "dm_fill m = fold (\<lambda>i. fold (\<lambda>j m. dm_set m i j) [0..<dm_ncols m]) [0..<dm_nrows m] m"

text \<open>The searches; each returns its answer and the matrix with the filled cache.\<close>

definition dm_first :: "matrix \<Rightarrow> nat \<Rightarrow> int \<times> matrix" where
  "dm_first m row =
     (let r = rowp m row;
          m = (if h_min (row_perm m) ! r = -1
               then if dm_ones_in_row m row > 0
                    then case first_from (dm_is_set m row) 0 (dm_ncols m) of
                           Some i \<Rightarrow> m\<lparr>row_perm := hdr_set_min r (int i) (row_perm m)\<rparr>
                         | None \<Rightarrow> m
                    else m\<lparr>row_perm := hdr_set_min r (-1) (row_perm m)\<rparr>
               else m)
      in (h_min (row_perm m) ! r, m))"

definition dm_last :: "matrix \<Rightarrow> nat \<Rightarrow> int \<times> matrix" where
  "dm_last m row =
     (let r = rowp m row;
          m = (if h_max (row_perm m) ! r = -1
               then if dm_ones_in_row m row > 0
                    then case last_below (dm_is_set m row) (dm_ncols m) of
                           Some i \<Rightarrow> m\<lparr>row_perm := hdr_set_max r (int i) (row_perm m)\<rparr>
                         | None \<Rightarrow> m
                    else m\<lparr>row_perm := hdr_set_max r (-1) (row_perm m)\<rparr>
               else m)
      in (h_max (row_perm m) ! r, m))"

definition dm_top :: "matrix \<Rightarrow> nat \<Rightarrow> int \<times> matrix" where
  "dm_top m col =
     (let c = colp m col;
          m = (if h_min (col_perm m) ! c = -1
               then if dm_ones_in_col m col > 0
                    then case first_from (\<lambda>i. dm_is_set m i col) 0 (dm_nrows m) of
                           Some i \<Rightarrow> m\<lparr>col_perm := hdr_set_min c (int i) (col_perm m)\<rparr>
                         | None \<Rightarrow> m
                    else m\<lparr>col_perm := hdr_set_min c (-1) (col_perm m)\<rparr>
               else m)
      in (h_min (col_perm m) ! c, m))"

definition dm_bottom :: "matrix \<Rightarrow> nat \<Rightarrow> int \<times> matrix" where
  "dm_bottom m col =
     (let c = colp m col;
          m = (if h_max (col_perm m) ! c = -1
               then if dm_ones_in_col m col > 0
                    then case last_below (\<lambda>i. dm_is_set m i col) (dm_nrows m) of
                           Some i \<Rightarrow> m\<lparr>col_perm := hdr_set_max c (int i) (col_perm m)\<rparr>
                         | None \<Rightarrow> m
                    else m\<lparr>col_perm := hdr_set_max c (-1) (col_perm m)\<rparr>
               else m)
      in (h_max (col_perm m) ! c, m))"

section \<open>Invariant\<close>

definition hdr_wf :: "matrix_header \<Rightarrow> bool" where
  "hdr_wf p \<longleftrightarrow> length (h_data p) = h_size p \<and> length (h_count p) = h_size p
     \<and> length (h_min p) = h_size p \<and> length (h_max p) = h_size p
     \<and> (\<forall>i < h_size p. becomes (h_data p ! i) < h_size p \<and> at (h_data p ! i) < h_size p
          \<and> at (h_data p ! becomes (h_data p ! i)) = i
          \<and> becomes (h_data p ! at (h_data p ! i)) = i)"

text \<open>Shape: headers, sizes and room in the bit vector.\<close>

definition dm_shape :: "matrix \<Rightarrow> bool" where
  "dm_shape m \<longleftrightarrow> hdr_wf (row_perm m) \<and> hdr_wf (col_perm m)
     \<and> rows m \<le> h_size (row_perm m) \<and> cols m \<le> h_size (col_perm m)
     \<and> h_size (col_perm m) \<le> bits_per_row m
     \<and> bv_wf (bits m) \<and> n_bits (bits m) = h_size (row_perm m) * bits_per_row m"

text \<open>Exact counts; the rows and columns that have been merged away count zero.\<close>

definition dm_counts :: "matrix \<Rightarrow> bool" where
  "dm_counts m \<longleftrightarrow>
     (\<forall>i < h_size (row_perm m). dm_ones_in_row m i =
        (if i < rows m then int (count_below (dm_is_set m i) (cols m)) else 0))
   \<and> (\<forall>j < h_size (col_perm m). dm_ones_in_col m j =
        (if j < cols m then int (count_below (\<lambda>i. dm_is_set m i j) (rows m)) else 0))"

definition dm_wf :: "matrix \<Rightarrow> bool" where
  "dm_wf m \<longleftrightarrow> dm_shape m \<and> dm_counts m"

text \<open>The cached minima and maxima of the rows are absent or right.\<close>

definition first_col :: "matrix \<Rightarrow> nat \<Rightarrow> int" where
  "first_col m i = (case first_from (dm_is_set m i) 0 (cols m) of None \<Rightarrow> -1 | Some j \<Rightarrow> int j)"

definition last_col :: "matrix \<Rightarrow> nat \<Rightarrow> int" where
  "last_col m i = (case last_below (dm_is_set m i) (cols m) of None \<Rightarrow> -1 | Some j \<Rightarrow> int j)"

definition row_cache_ok :: "matrix \<Rightarrow> bool" where
  "row_cache_ok m \<longleftrightarrow> (\<forall>i < rows m.
     (h_min (row_perm m) ! rowp m i = -1 \<or> h_min (row_perm m) ! rowp m i = first_col m i)
   \<and> (h_max (row_perm m) ! rowp m i = -1 \<or> h_max (row_perm m) ! rowp m i = last_col m i))"

section \<open>Headers\<close>

lemma hdr_upd_frame [simp]:
  "h_size (hdr_add_count i d p) = h_size p" "h_data (hdr_add_count i d p) = h_data p"
  "h_min (hdr_add_count i d p) = h_min p" "h_max (hdr_add_count i d p) = h_max p"
  "h_count (hdr_add_count i d p) = (h_count p)[i := h_count p ! i + d]"
  "h_size (hdr_set_min i v p) = h_size p" "h_data (hdr_set_min i v p) = h_data p"
  "h_min (hdr_set_min i v p) = (h_min p)[i := v]" "h_max (hdr_set_min i v p) = h_max p"
  "h_count (hdr_set_min i v p) = h_count p"
  "h_size (hdr_set_max i v p) = h_size p" "h_data (hdr_set_max i v p) = h_data p"
  "h_max (hdr_set_max i v p) = (h_max p)[i := v]" "h_min (hdr_set_max i v p) = h_min p"
  "h_count (hdr_set_max i v p) = h_count p"
  by (simp_all add: hdr_add_count_def hdr_set_min_def hdr_set_max_def)

lemma hdr_wf_upd [simp]:
  "hdr_wf (hdr_add_count i d p) = hdr_wf p"
  "hdr_wf (hdr_set_min i v p) = hdr_wf p"
  "hdr_wf (hdr_set_max i v p) = hdr_wf p"
  by (simp_all add: hdr_wf_def)

lemma hdr_wf_create: "hdr_wf (dm_create_header n)"
  by (simp add: hdr_wf_def dm_create_header_def)

lemma hdr_wf_clear: "hdr_wf p \<Longrightarrow> hdr_wf (dm_clear_header p)"
  by (simp add: hdr_wf_def dm_clear_header_def)

lemma hdr_wf_invalidate: "hdr_wf p \<Longrightarrow> hdr_wf (invalidate_min_max p)"
  by (simp add: hdr_wf_def invalidate_min_max_def)

lemma becomes_lt: "hdr_wf p \<Longrightarrow> i < h_size p \<Longrightarrow> becomes (h_data p ! i) < h_size p"
  by (simp add: hdr_wf_def)

lemma becomes_inj:
  "hdr_wf p \<Longrightarrow> i < h_size p \<Longrightarrow> j < h_size p \<Longrightarrow>
   becomes (h_data p ! i) = becomes (h_data p ! j) \<longleftrightarrow> i = j"
  by (metis hdr_wf_def)

lemma becomes_surj:
  "hdr_wf p \<Longrightarrow> k < h_size p \<Longrightarrow> \<exists>i < h_size p. becomes (h_data p ! i) = k"
  by (metis hdr_wf_def)

section \<open>Physical addresses\<close>

lemma shape_rowp: "dm_shape m \<Longrightarrow> i < h_size (row_perm m) \<Longrightarrow> rowp m i < h_size (row_perm m)"
  by (simp add: dm_shape_def rowp_def becomes_lt)

lemma shape_colp: "dm_shape m \<Longrightarrow> j < h_size (col_perm m) \<Longrightarrow> colp m j < h_size (col_perm m)"
  by (simp add: dm_shape_def colp_def becomes_lt)

lemma rowp_inj:
  "dm_shape m \<Longrightarrow> i < h_size (row_perm m) \<Longrightarrow> i' < h_size (row_perm m) \<Longrightarrow>
   rowp m i = rowp m i' \<longleftrightarrow> i = i'"
  by (simp add: dm_shape_def rowp_def becomes_inj)

lemma colp_inj:
  "dm_shape m \<Longrightarrow> j < h_size (col_perm m) \<Longrightarrow> j' < h_size (col_perm m) \<Longrightarrow>
   colp m j = colp m j' \<longleftrightarrow> j = j'"
  by (simp add: dm_shape_def colp_def becomes_inj)

lemma bitnr_lt:
  assumes "dm_shape m" and "i < h_size (row_perm m)" and "j < h_size (col_perm m)"
  shows "rowp m i * bits_per_row m + colp m j < n_bits (bits m)"
proof -
  have "rowp m i < h_size (row_perm m)" "colp m j < bits_per_row m"
    using assms shape_rowp shape_colp[OF assms(1,3)] by (auto simp: dm_shape_def)
  then have "rowp m i * bits_per_row m + colp m j < (rowp m i + 1) * bits_per_row m" by simp
  also have "\<dots> \<le> h_size (row_perm m) * bits_per_row m"
    using \<open>rowp m i < _\<close> by (intro mult_le_mono1) simp
  finally show ?thesis using assms(1) by (simp add: dm_shape_def)
qed

lemma bitnr_inj:
  assumes "dm_shape m" and "i < h_size (row_perm m)" and "j < h_size (col_perm m)"
    and "i' < h_size (row_perm m)" and "j' < h_size (col_perm m)"
  shows "rowp m i * bits_per_row m + colp m j = rowp m i' * bits_per_row m + colp m j'
    \<longleftrightarrow> i = i' \<and> j = j'"
proof -
  have lt: "colp m j < bits_per_row m" "colp m j' < bits_per_row m"
    using assms shape_colp[OF assms(1,3)] shape_colp[OF assms(1,5)] by (auto simp: dm_shape_def)
  have "rowp m i = rowp m i' \<and> colp m j = colp m j'"
    if eq: "rowp m i * bits_per_row m + colp m j = rowp m i' * bits_per_row m + colp m j'"
  proof -
    have "(colp m j + rowp m i * bits_per_row m) div bits_per_row m = rowp m i"
      "(colp m j' + rowp m i' * bits_per_row m) div bits_per_row m = rowp m i'"
      using lt by (simp_all add: div_mult_self1)
    with eq have "rowp m i = rowp m i'" by (metis add.commute)
    with eq show ?thesis by simp
  qed
  then show ?thesis using assms rowp_inj colp_inj by blast
qed

section \<open>Single entries\<close>

lemma set_cache_frame [simp]:
  "rows (dm_set_cache m i j) = rows m" "cols (dm_set_cache m i j) = cols m"
  "bits_per_row (dm_set_cache m i j) = bits_per_row m" "bits (dm_set_cache m i j) = bits m"
  "h_size (row_perm (dm_set_cache m i j)) = h_size (row_perm m)"
  "h_size (col_perm (dm_set_cache m i j)) = h_size (col_perm m)"
  "h_data (row_perm (dm_set_cache m i j)) = h_data (row_perm m)"
  "h_data (col_perm (dm_set_cache m i j)) = h_data (col_perm m)"
  "h_count (row_perm (dm_set_cache m i j)) = h_count (row_perm m)"
  "h_count (col_perm (dm_set_cache m i j)) = h_count (col_perm m)"
  "hdr_wf (row_perm (dm_set_cache m i j)) = hdr_wf (row_perm m)"
  "hdr_wf (col_perm (dm_set_cache m i j)) = hdr_wf (col_perm m)"
  by (simp_all add: dm_set_cache_def Let_def)

lemma unset_row_min_frame [simp]:
  "rows (unset_row_min i j m) = rows m" "cols (unset_row_min i j m) = cols m"
  "bits_per_row (unset_row_min i j m) = bits_per_row m" "bits (unset_row_min i j m) = bits m"
  "h_size (row_perm (unset_row_min i j m)) = h_size (row_perm m)"
  "h_size (col_perm (unset_row_min i j m)) = h_size (col_perm m)"
  "h_data (row_perm (unset_row_min i j m)) = h_data (row_perm m)"
  "h_data (col_perm (unset_row_min i j m)) = h_data (col_perm m)"
  "h_count (row_perm (unset_row_min i j m)) = h_count (row_perm m)"
  "h_count (col_perm (unset_row_min i j m)) = h_count (col_perm m)"
  "hdr_wf (row_perm (unset_row_min i j m)) = hdr_wf (row_perm m)"
  "hdr_wf (col_perm (unset_row_min i j m)) = hdr_wf (col_perm m)"
  by (simp_all add: unset_row_min_def Let_def split: option.split)

lemma unset_col_min_frame [simp]:
  "rows (unset_col_min i j m) = rows m" "cols (unset_col_min i j m) = cols m"
  "bits_per_row (unset_col_min i j m) = bits_per_row m" "bits (unset_col_min i j m) = bits m"
  "h_size (row_perm (unset_col_min i j m)) = h_size (row_perm m)"
  "h_size (col_perm (unset_col_min i j m)) = h_size (col_perm m)"
  "h_data (row_perm (unset_col_min i j m)) = h_data (row_perm m)"
  "h_data (col_perm (unset_col_min i j m)) = h_data (col_perm m)"
  "h_count (row_perm (unset_col_min i j m)) = h_count (row_perm m)"
  "h_count (col_perm (unset_col_min i j m)) = h_count (col_perm m)"
  "hdr_wf (row_perm (unset_col_min i j m)) = hdr_wf (row_perm m)"
  "hdr_wf (col_perm (unset_col_min i j m)) = hdr_wf (col_perm m)"
  by (simp_all add: unset_col_min_def Let_def split: option.split)

lemma unset_row_max_frame [simp]:
  "rows (unset_row_max i j m) = rows m" "cols (unset_row_max i j m) = cols m"
  "bits_per_row (unset_row_max i j m) = bits_per_row m" "bits (unset_row_max i j m) = bits m"
  "h_size (row_perm (unset_row_max i j m)) = h_size (row_perm m)"
  "h_size (col_perm (unset_row_max i j m)) = h_size (col_perm m)"
  "h_data (row_perm (unset_row_max i j m)) = h_data (row_perm m)"
  "h_data (col_perm (unset_row_max i j m)) = h_data (col_perm m)"
  "h_count (row_perm (unset_row_max i j m)) = h_count (row_perm m)"
  "h_count (col_perm (unset_row_max i j m)) = h_count (col_perm m)"
  "hdr_wf (row_perm (unset_row_max i j m)) = hdr_wf (row_perm m)"
  "hdr_wf (col_perm (unset_row_max i j m)) = hdr_wf (col_perm m)"
  by (simp_all add: unset_row_max_def Let_def split: option.split)

lemma unset_col_max_frame [simp]:
  "rows (unset_col_max i j m) = rows m" "cols (unset_col_max i j m) = cols m"
  "bits_per_row (unset_col_max i j m) = bits_per_row m" "bits (unset_col_max i j m) = bits m"
  "h_size (row_perm (unset_col_max i j m)) = h_size (row_perm m)"
  "h_size (col_perm (unset_col_max i j m)) = h_size (col_perm m)"
  "h_data (row_perm (unset_col_max i j m)) = h_data (row_perm m)"
  "h_data (col_perm (unset_col_max i j m)) = h_data (col_perm m)"
  "h_count (row_perm (unset_col_max i j m)) = h_count (row_perm m)"
  "h_count (col_perm (unset_col_max i j m)) = h_count (col_perm m)"
  "hdr_wf (row_perm (unset_col_max i j m)) = hdr_wf (row_perm m)"
  "hdr_wf (col_perm (unset_col_max i j m)) = hdr_wf (col_perm m)"
  by (simp_all add: unset_col_max_def Let_def split: option.split)

lemma set_frame_matrix [simp]:
  "rows (dm_set m i j) = rows m" "cols (dm_set m i j) = cols m"
  "bits_per_row (dm_set m i j) = bits_per_row m"
  "bits (dm_set m i j) = bitvector_set (bits m) (rowp m i * bits_per_row m + colp m j)"
  "h_size (row_perm (dm_set m i j)) = h_size (row_perm m)"
  "h_size (col_perm (dm_set m i j)) = h_size (col_perm m)"
  "h_data (row_perm (dm_set m i j)) = h_data (row_perm m)"
  "h_data (col_perm (dm_set m i j)) = h_data (col_perm m)"
  "hdr_wf (row_perm (dm_set m i j)) = hdr_wf (row_perm m)"
  "hdr_wf (col_perm (dm_set m i j)) = hdr_wf (col_perm m)"
  "rowp (dm_set m i j) = rowp m" "colp (dm_set m i j) = colp m"
  by (simp_all add: dm_set_def Let_def rowp_def colp_def fun_eq_iff)

lemma unset_frame_matrix [simp]:
  "rows (dm_unset m i j) = rows m" "cols (dm_unset m i j) = cols m"
  "bits_per_row (dm_unset m i j) = bits_per_row m"
  "bits (dm_unset m i j) = bitvector_unset (bits m) (rowp m i * bits_per_row m + colp m j)"
  "h_size (row_perm (dm_unset m i j)) = h_size (row_perm m)"
  "h_size (col_perm (dm_unset m i j)) = h_size (col_perm m)"
  "h_data (row_perm (dm_unset m i j)) = h_data (row_perm m)"
  "h_data (col_perm (dm_unset m i j)) = h_data (col_perm m)"
  "hdr_wf (row_perm (dm_unset m i j)) = hdr_wf (row_perm m)"
  "hdr_wf (col_perm (dm_unset m i j)) = hdr_wf (col_perm m)"
  "rowp (dm_unset m i j) = rowp m" "colp (dm_unset m i j) = colp m"
  by (simp_all add: dm_unset_def Let_def rowp_def colp_def fun_eq_iff)

lemma set_counts:
  "h_count (row_perm (dm_set m i j)) = (if dm_is_set m i j then h_count (row_perm m)
     else (h_count (row_perm m))[rowp m i := h_count (row_perm m) ! rowp m i + 1])"
  "h_count (col_perm (dm_set m i j)) = (if dm_is_set m i j then h_count (col_perm m)
     else (h_count (col_perm m))[colp m j := h_count (col_perm m) ! colp m j + 1])"
  by (simp_all add: dm_set_def dm_is_set_def Let_def)

lemma unset_counts:
  "h_count (row_perm (dm_unset m i j)) = (if dm_is_set m i j
     then (h_count (row_perm m))[rowp m i := h_count (row_perm m) ! rowp m i - 1]
     else h_count (row_perm m))"
  "h_count (col_perm (dm_unset m i j)) = (if dm_is_set m i j
     then (h_count (col_perm m))[colp m j := h_count (col_perm m) ! colp m j - 1]
     else h_count (col_perm m))"
  by (simp_all add: dm_unset_def dm_is_set_def Let_def)

lemma set_shape:
  assumes "dm_shape m" and "i < h_size (row_perm m)" and "j < h_size (col_perm m)"
  shows "dm_shape (dm_set m i j)" and "dm_shape (dm_unset m i j)"
  using assms bitnr_lt[OF assms] by (auto simp: dm_shape_def Bitvector.set_wf)

lemma is_set_set:
  assumes m: "dm_shape m" "i < h_size (row_perm m)" "j < h_size (col_perm m)"
    and xy: "x < h_size (row_perm m)" "y < h_size (col_perm m)"
  shows "dm_is_set (dm_set m i j) x y \<longleftrightarrow> (x = i \<and> y = j) \<or> dm_is_set m x y"
    and "dm_is_set (dm_unset m i j) x y \<longleftrightarrow> \<not> (x = i \<and> y = j) \<and> dm_is_set m x y"
  using m(1) bitnr_lt[OF m] bitnr_lt[OF m(1) xy] bitnr_inj[OF m(1) xy m(2,3)]
  by (auto simp: dm_is_set_def dm_shape_def bv.test_ins bv.test_del)

lemma ones_set:
  assumes m: "dm_shape m" "i < h_size (row_perm m)" and x: "x < h_size (row_perm m)"
  shows "dm_ones_in_row (dm_set m i j) x
      = dm_ones_in_row m x + (if x = i \<and> \<not> dm_is_set m i j then 1 else 0)"
    and "dm_ones_in_row (dm_unset m i j) x
      = dm_ones_in_row m x - (if x = i \<and> dm_is_set m i j then 1 else 0)"
  using m rowp_inj[OF m(1) x m(2)] shape_rowp[OF m]
  by (auto simp: dm_ones_in_row_def set_counts unset_counts dm_shape_def hdr_wf_def nth_list_update)

lemma ones_set_col:
  assumes m: "dm_shape m" "j < h_size (col_perm m)" and y: "y < h_size (col_perm m)"
  shows "dm_ones_in_col (dm_set m i j) y
      = dm_ones_in_col m y + (if y = j \<and> \<not> dm_is_set m i j then 1 else 0)"
    and "dm_ones_in_col (dm_unset m i j) y
      = dm_ones_in_col m y - (if y = j \<and> dm_is_set m i j then 1 else 0)"
  using m colp_inj[OF m(1) y m(2)] shape_colp[OF m]
  by (auto simp: dm_ones_in_col_def set_counts unset_counts dm_shape_def hdr_wf_def nth_list_update)

lemma wf_shape:
  assumes "dm_wf m"
  shows "dm_shape m" and "rows m \<le> h_size (row_perm m)" and "cols m \<le> h_size (col_perm m)"
    and "i < rows m \<Longrightarrow> i < h_size (row_perm m)" and "j < cols m \<Longrightarrow> j < h_size (col_perm m)"
  using assms by (auto simp: dm_wf_def dm_shape_def)

lemma count_set:
  assumes wf: "dm_wf m" and i: "i < rows m" and j: "j < cols m"
  shows "x < rows m \<Longrightarrow> int (count_below (dm_is_set (dm_set m i j) x) (cols m))
      = int (count_below (dm_is_set m x) (cols m)) + (if x = i \<and> \<not> dm_is_set m i j then 1 else 0)"
    and "x < rows m \<Longrightarrow> int (count_below (dm_is_set (dm_unset m i j) x) (cols m))
      = int (count_below (dm_is_set m x) (cols m)) - (if x = i \<and> dm_is_set m i j then 1 else 0)"
    and "y < cols m \<Longrightarrow> int (count_below (\<lambda>k. dm_is_set (dm_set m i j) k y) (rows m))
      = int (count_below (\<lambda>k. dm_is_set m k y) (rows m)) + (if y = j \<and> \<not> dm_is_set m i j then 1 else 0)"
    and "y < cols m \<Longrightarrow> int (count_below (\<lambda>k. dm_is_set (dm_unset m i j) k y) (rows m))
      = int (count_below (\<lambda>k. dm_is_set m k y) (rows m)) - (if y = j \<and> dm_is_set m i j then 1 else 0)"
proof -
  note m = wf_shape[OF wf]
  note is_set = is_set_set[OF m(1) m(4)[OF i] m(5)[OF j] m(4) m(5)]
  { assume x: "x < rows m"
    have "count_below (dm_is_set (dm_set m i j) x) (cols m)
        = count_below (\<lambda>k. (x = i \<and> k = j) \<or> dm_is_set m x k) (cols m)"
      "count_below (dm_is_set (dm_unset m i j) x) (cols m)
        = count_below (\<lambda>k. \<not> (x = i \<and> k = j) \<and> dm_is_set m x k) (cols m)"
      using x by (auto simp: is_set intro!: count_below_cong)
    then show "int (count_below (dm_is_set (dm_set m i j) x) (cols m))
      = int (count_below (dm_is_set m x) (cols m)) + (if x = i \<and> \<not> dm_is_set m i j then 1 else 0)"
      "int (count_below (dm_is_set (dm_unset m i j) x) (cols m))
      = int (count_below (dm_is_set m x) (cols m)) - (if x = i \<and> dm_is_set m i j then 1 else 0)"
      using count_below_upd[OF j, of "dm_is_set m i"] by (cases "x = i"; simp)+ }
  { assume y: "y < cols m"
    have "count_below (\<lambda>k. dm_is_set (dm_set m i j) k y) (rows m)
        = count_below (\<lambda>k. (y = j \<and> k = i) \<or> dm_is_set m k y) (rows m)"
      "count_below (\<lambda>k. dm_is_set (dm_unset m i j) k y) (rows m)
        = count_below (\<lambda>k. \<not> (y = j \<and> k = i) \<and> dm_is_set m k y) (rows m)"
      using y by (auto simp: is_set intro!: count_below_cong)
    then show "int (count_below (\<lambda>k. dm_is_set (dm_set m i j) k y) (rows m))
      = int (count_below (\<lambda>k. dm_is_set m k y) (rows m)) + (if y = j \<and> \<not> dm_is_set m i j then 1 else 0)"
      "int (count_below (\<lambda>k. dm_is_set (dm_unset m i j) k y) (rows m))
      = int (count_below (\<lambda>k. dm_is_set m k y) (rows m)) - (if y = j \<and> dm_is_set m i j then 1 else 0)"
      using count_below_upd[OF i, of "\<lambda>k. dm_is_set m k j"] by (cases "y = j"; simp)+ }
qed

lemma set_dm_wf:
  assumes wf: "dm_wf m" and i: "i < rows m" and j: "j < cols m"
  shows "dm_wf (dm_set m i j)" and "dm_wf (dm_unset m i j)"
proof -
  note m = wf_shape[OF wf]
  have ij: "i < h_size (row_perm m)" "j < h_size (col_perm m)" using m i j by auto
  note facts = ones_set[OF m(1) ij(1)] ones_set_col[OF m(1) ij(2)] count_set[OF wf i j]
  have "dm_counts m" using wf by (simp add: dm_wf_def)
  then have "dm_counts (dm_set m i j)" "dm_counts (dm_unset m i j)"
    using i j by (auto simp: dm_counts_def facts)
  then show "dm_wf (dm_set m i j)" "dm_wf (dm_unset m i j)"
    using set_shape[OF m(1) ij] by (simp_all add: dm_wf_def)
qed

lemma create_dm_wf:
  assumes "r * (c + 32) + 63 < SIZE_LIMIT"
  shows "dm_wf (dm_create r c)" and "\<not> dm_is_set (dm_create r c) i j \<or> r \<le> i \<or> c \<le> j"
proof -
  let ?s = "if c mod 32 \<noteq> 0 then c - c mod 32 + 32 else c"
  have s: "c \<le> ?s" "?s \<le> c + 32" using mod_less_divisor[of 32 c] by auto
  then have "r * ?s + 63 < SIZE_LIMIT" using assms mult_le_mono2[of ?s "c + 32" r] by linarith
  note bv = create_wf[OF this]
  have shape: "dm_shape (dm_create r c)"
    using bv mod_less_divisor[of 32 c]
    by (auto simp: dm_shape_def dm_create_def Let_def hdr_wf_create dm_create_header_def [of r]
        dm_create_header_def [of c] hdr_wf_def)
  have not_set: "\<not> dm_is_set (dm_create r c) x y" if "x < r" "y < c" for x y
  proof -
    have sz: "h_size (row_perm (dm_create r c)) = r" "h_size (col_perm (dm_create r c)) = c"
      by (simp_all add: dm_create_def dm_create_header_def Let_def)
    have "rowp (dm_create r c) x * bits_per_row (dm_create r c) + colp (dm_create r c) y
      < n_bits (bits (dm_create r c))" using bitnr_lt[OF shape] that sz by simp
    moreover have "bv_set (bits (dm_create r c)) = {}" using bv by (simp add: dm_create_def Let_def)
    ultimately show ?thesis by (auto simp: dm_is_set_def is_set_bit bv_set_def)
  qed
  then show "\<not> dm_is_set (dm_create r c) i j \<or> r \<le> i \<or> c \<le> j" by force
  have "count_below (dm_is_set (dm_create r c) x) c = 0" if "x < r" for x
    using that not_set by (simp add: count_below_zero_iff)
  moreover have "count_below (\<lambda>x. dm_is_set (dm_create r c) x y) r = 0" if "y < c" for y
    using that not_set by (simp add: count_below_zero_iff)
  ultimately have "dm_counts (dm_create r c)"
    by (simp add: dm_counts_def)
      (simp add: dm_create_def dm_create_header_def Let_def dm_ones_in_row_def dm_ones_in_col_def rowp_def colp_def)
  with shape show "dm_wf (dm_create r c)" by (simp add: dm_wf_def)
qed

section \<open>Searching rows and columns\<close>

lemma count_pos_find:
  "count_below p n > 0 \<Longrightarrow> \<exists>k. first_from p 0 n = Some k"
  "count_below p n > 0 \<Longrightarrow> \<exists>k. last_below p n = Some k"
  using first_from_None_iff[of p 0 n] last_below_None_iff[of p n] count_below_zero_iff[of p n] by auto

lemma count_zero_find:
  "count_below p n = 0 \<Longrightarrow> first_from p 0 n = None"
  "count_below p n = 0 \<Longrightarrow> last_below p n = None"
  by (simp_all add: first_from_None_iff last_below_None_iff count_below_zero_iff)

lemma wf_min_length:
  assumes "dm_wf m" and "i < rows m"
  shows "rowp m i < length (h_min (row_perm m))" and "rowp m i < length (h_max (row_perm m))"
  using assms shape_rowp[of m i] by (auto simp: dm_wf_def dm_shape_def hdr_wf_def)

lemma wf_ones_row: "dm_wf m \<Longrightarrow> i < rows m \<Longrightarrow> dm_ones_in_row m i = int (count_below (dm_is_set m i) (cols m))"
  by (simp add: dm_wf_def dm_counts_def dm_shape_def)

lemma wf_ones_col: "dm_wf m \<Longrightarrow> j < cols m \<Longrightarrow> dm_ones_in_col m j = int (count_below (\<lambda>i. dm_is_set m i j) (rows m))"
  by (simp add: dm_wf_def dm_counts_def dm_shape_def)

lemma dm_first_eq:
  assumes wf: "dm_wf m" and i: "i < rows m"
  shows "dm_first m i = (if h_min (row_perm m) ! rowp m i = -1
    then (first_col m i, m\<lparr>row_perm := hdr_set_min (rowp m i) (first_col m i) (row_perm m)\<rparr>)
    else (h_min (row_perm m) ! rowp m i, m))"
proof (cases "count_below (dm_is_set m i) (cols m) = 0")
  case True
  with wf_min_length[OF wf i] wf_ones_row[OF wf i] count_zero_find(1)[OF True] show ?thesis
    by (simp add: dm_first_def Let_def dm_ncols_def first_col_def)
next
  case False
  then obtain k where "first_from (dm_is_set m i) 0 (cols m) = Some k" using count_pos_find(1) by blast
  with False wf_min_length[OF wf i] wf_ones_row[OF wf i] show ?thesis
    by (simp add: dm_first_def Let_def dm_ncols_def first_col_def)
qed

lemma dm_last_eq:
  assumes wf: "dm_wf m" and i: "i < rows m"
  shows "dm_last m i = (if h_max (row_perm m) ! rowp m i = -1
    then (last_col m i, m\<lparr>row_perm := hdr_set_max (rowp m i) (last_col m i) (row_perm m)\<rparr>)
    else (h_max (row_perm m) ! rowp m i, m))"
proof (cases "count_below (dm_is_set m i) (cols m) = 0")
  case True
  with wf_min_length[OF wf i] wf_ones_row[OF wf i] count_zero_find(2)[OF True] show ?thesis
    by (simp add: dm_last_def Let_def dm_ncols_def last_col_def)
next
  case False
  then obtain k where "last_below (dm_is_set m i) (cols m) = Some k" using count_pos_find(2) by blast
  with False wf_min_length[OF wf i] wf_ones_row[OF wf i] show ?thesis
    by (simp add: dm_last_def Let_def dm_ncols_def last_col_def)
qed

text \<open>Writing a cache entry changes nothing that the matrix means.\<close>

definition same_matrix :: "matrix \<Rightarrow> matrix \<Rightarrow> bool" where
  "same_matrix m m' \<longleftrightarrow> rows m' = rows m \<and> cols m' = cols m \<and> bits_per_row m' = bits_per_row m
     \<and> bits m' = bits m \<and> col_perm m' = col_perm m \<and> h_data (row_perm m') = h_data (row_perm m)
     \<and> h_count (row_perm m') = h_count (row_perm m) \<and> h_size (row_perm m') = h_size (row_perm m)
     \<and> length (h_min (row_perm m')) = length (h_min (row_perm m))
     \<and> length (h_max (row_perm m')) = length (h_max (row_perm m))"

lemma same_matrix_refl [simp]: "same_matrix m m"
  by (simp add: same_matrix_def)

lemma same_matrix_trans: "same_matrix a b \<Longrightarrow> same_matrix b c \<Longrightarrow> same_matrix a c"
  by (simp add: same_matrix_def)

lemma same_matrixD:
  assumes "same_matrix m m'"
  shows "rowp m' = rowp m" and "colp m' = colp m" and "dm_is_set m' = dm_is_set m"
    and "rows m' = rows m" and "cols m' = cols m" and "dm_wf m' = dm_wf m"
    and "first_col m' = first_col m" and "last_col m' = last_col m"
    and "dm_ones_in_row m' = dm_ones_in_row m" and "dm_ones_in_col m' = dm_ones_in_col m"
proof -
  show r: "rowp m' = rowp m" and c: "colp m' = colp m"
    using assms by (simp_all add: same_matrix_def rowp_def colp_def fun_eq_iff)
  then show s: "dm_is_set m' = dm_is_set m"
    using assms by (simp add: same_matrix_def dm_is_set_def fun_eq_iff)
  show rc: "rows m' = rows m" "cols m' = cols m" using assms by (simp_all add: same_matrix_def)
  show o: "dm_ones_in_row m' = dm_ones_in_row m" "dm_ones_in_col m' = dm_ones_in_col m"
    using assms r c by (simp_all add: same_matrix_def dm_ones_in_row_def dm_ones_in_col_def fun_eq_iff)
  show "dm_wf m' = dm_wf m"
    using assms s o by (simp add: same_matrix_def dm_wf_def dm_counts_def dm_shape_def hdr_wf_def)
  show "first_col m' = first_col m" "last_col m' = last_col m"
    by (simp_all add: ext first_col_def last_col_def rc s)
qed

lemma dm_first_ok:
  assumes wf: "dm_wf m" and ok: "row_cache_ok m" and i: "i < rows m"
  shows "fst (dm_first m i) = first_col m i" and "same_matrix m (snd (dm_first m i))"
    and "row_cache_ok (snd (dm_first m i))"
proof -
  show v: "fst (dm_first m i) = first_col m i" and s: "same_matrix m (snd (dm_first m i))"
    using dm_first_eq[OF wf i] ok i by (auto simp: row_cache_ok_def same_matrix_def)
  show "row_cache_ok (snd (dm_first m i))"
    using dm_first_eq[OF wf i] ok i wf_min_length[OF wf] same_matrixD[OF s]
    by (auto simp: row_cache_ok_def nth_list_update rowp_inj[OF wf_shape(1)[OF wf]] wf_shape[OF wf])
qed

lemma dm_last_ok:
  assumes wf: "dm_wf m" and ok: "row_cache_ok m" and i: "i < rows m"
  shows "fst (dm_last m i) = last_col m i" and "same_matrix m (snd (dm_last m i))"
    and "row_cache_ok (snd (dm_last m i))"
proof -
  show v: "fst (dm_last m i) = last_col m i" and s: "same_matrix m (snd (dm_last m i))"
    using dm_last_eq[OF wf i] ok i by (auto simp: row_cache_ok_def same_matrix_def)
  show "row_cache_ok (snd (dm_last m i))"
    using dm_last_eq[OF wf i] ok i wf_min_length[OF wf] same_matrixD[OF s]
    by (auto simp: row_cache_ok_def nth_list_update rowp_inj[OF wf_shape(1)[OF wf]] wf_shape[OF wf])
qed

lemma dm_top_eq:
  assumes wf: "dm_wf m" and j: "j < cols m" and c: "h_min (col_perm m) ! colp m j = -1"
  shows "fst (dm_top m j) = (case first_from (\<lambda>i. dm_is_set m i j) 0 (rows m) of None \<Rightarrow> -1 | Some i \<Rightarrow> int i)"
proof -
  have len: "colp m j < length (h_min (col_perm m))"
    using wf j shape_colp[of m j] by (auto simp: dm_wf_def dm_shape_def hdr_wf_def)
  show ?thesis
    using c len wf_ones_col[OF wf j] count_pos_find(1)[of "\<lambda>i. dm_is_set m i j" "rows m"]
      count_zero_find(1)[of "\<lambda>i. dm_is_set m i j" "rows m"]
    by (cases "count_below (\<lambda>i. dm_is_set m i j) (rows m)") (auto simp: dm_top_def Let_def dm_nrows_def)
qed

lemma dm_bottom_eq:
  assumes wf: "dm_wf m" and j: "j < cols m" and c: "h_max (col_perm m) ! colp m j = -1"
  shows "fst (dm_bottom m j) = (case last_below (\<lambda>i. dm_is_set m i j) (rows m) of None \<Rightarrow> -1 | Some i \<Rightarrow> int i)"
proof -
  have len: "colp m j < length (h_max (col_perm m))"
    using wf j shape_colp[of m j] by (auto simp: dm_wf_def dm_shape_def hdr_wf_def)
  show ?thesis
    using c len wf_ones_col[OF wf j] count_pos_find(2)[of "\<lambda>i. dm_is_set m i j" "rows m"]
      count_zero_find(2)[of "\<lambda>i. dm_is_set m i j" "rows m"]
    by (cases "count_below (\<lambda>i. dm_is_set m i j) (rows m)") (auto simp: dm_bottom_def Let_def dm_nrows_def)
qed

section \<open>Properties\<close>

text \<open>
  C15. Entries of the dependency matrix: \<^verbatim>\<open>dm_set\<close> and \<^verbatim>\<open>dm_unset\<close> change exactly the addressed
  entry, whatever the row and column permutations are, and keep the invariant: the headers remain
  permutations and the cached numbers of ones of every row and column stay exact.
\<close>

theorem dm_set_unset_correct:
  assumes "dm_wf m" and "i < rows m" and "j < cols m" and "x < rows m" and "y < cols m"
  shows "dm_wf (dm_set m i j) \<and> dm_wf (dm_unset m i j)
    \<and> (dm_is_set (dm_set m i j) x y \<longleftrightarrow> (x = i \<and> y = j) \<or> dm_is_set m x y)
    \<and> (dm_is_set (dm_unset m i j) x y \<longleftrightarrow> (x \<noteq> i \<or> y \<noteq> j) \<and> dm_is_set m x y)
    \<and> dm_ones_in_row (dm_set m i j) x = int (count_below (dm_is_set (dm_set m i j) x) (cols m))
    \<and> dm_ones_in_col (dm_unset m i j) y = int (count_below (\<lambda>k. dm_is_set (dm_unset m i j) k y) (rows m))"
proof -
  note m = wf_shape[OF assms(1)]
  have "dm_wf (dm_set m i j)" "dm_wf (dm_unset m i j)" using set_dm_wf[OF assms(1-3)] by auto
  then show ?thesis
    using is_set_set[OF m(1) m(4)[OF assms(2)] m(5)[OF assms(3)] m(4)[OF assms(4)] m(5)[OF assms(5)]]
      wf_ones_row[of "dm_set m i j" x] wf_ones_col[of "dm_unset m i j" y] assms(4,5) by auto
qed

lemma create_dims [simp]: "rows (dm_create r c) = r" "cols (dm_create r c) = c"
  "h_size (row_perm (dm_create r c)) = r" "h_size (col_perm (dm_create r c)) = c"
  by (simp_all add: dm_create_def dm_create_header_def Let_def)

lemma demo_dm_wf: "dm_wf (dm_create 2 3)"
  using create_dm_wf(1)[of 2 3] by simp

theorem dm_set_unset_correct_witness:
  "dm_wf (dm_set (dm_create 2 3) 1 2) \<and> dm_is_set (dm_set (dm_create 2 3) 1 2) 1 2"
  using dm_set_unset_correct[OF demo_dm_wf, of 1 2 1 2] by simp

text \<open>
  Searching a row: when the caches are absent or right, \<^verbatim>\<open>dm_first\<close> and \<^verbatim>\<open>dm_last\<close> return the
  first and the last column of the row that is set and \<open>-1\<close> for an empty row; filling the caches
  keeps them right and changes no entry.
\<close>

theorem dm_first_last_exact:
  assumes "dm_wf m" and "row_cache_ok m" and "i < rows m"
  shows "fst (dm_first m i) = first_col m i \<and> fst (dm_last m i) = last_col m i
    \<and> row_cache_ok (snd (dm_first m i)) \<and> row_cache_ok (snd (dm_last m i))
    \<and> dm_wf (snd (dm_first m i)) \<and> dm_wf (snd (dm_last m i))
    \<and> dm_is_set (snd (dm_first m i)) = dm_is_set m \<and> dm_is_set (snd (dm_last m i)) = dm_is_set m"
  using dm_first_ok[OF assms] dm_last_ok[OF assms] assms(1)
    same_matrixD[OF dm_first_ok(2)[OF assms]] same_matrixD[OF dm_last_ok(2)[OF assms]] by simp

lemma create_cache_ok: "row_cache_ok (dm_create r c)"
  by (simp add: row_cache_ok_def dm_create_def dm_create_header_def Let_def rowp_def)

theorem dm_first_last_exact_witness:
  "row_cache_ok (dm_create 2 3) \<and> fst (dm_first (dm_create 2 3) 1) = first_col (dm_create 2 3) 1"
  using dm_first_last_exact[OF demo_dm_wf create_cache_ok, of 1] create_cache_ok by simp

lemma demo_create: "dm_create 2 3 = \<lparr>rows = 2, cols = 3, bits_per_row = 32,
   row_perm = dm_create_header 2, col_perm = dm_create_header 3,
   bits = \<lparr>n_bits = 64, n_words = 1, bv_data = [0]\<rparr>\<rparr>"
  by (simp add: dm_create_def bitvector_create_def utrunc_def WORD_BITS_def)

text \<open>
  The column cache goes stale: after row 0 of a fresh matrix is filled and \<^verbatim>\<open>dm_top\<close> has
  cached the top of column 0, clearing entry (0, 0) leaves the cached value in place, because
  \<^verbatim>\<open>dm_unset\<close> consults the number of ones of the row instead of the column; \<^verbatim>\<open>dm_top\<close> then reports
  row 0 for a column that is empty.
\<close>

theorem dm_top_stale_after_unset:
  "let m = dm_set (dm_set (dm_set (dm_create 2 3) 0 0) 0 1) 0 2;
       m' = dm_unset (snd (dm_top m 0)) 0 0
   in fst (dm_top m 0) = 0 \<and> fst (dm_top m' 0) = 0
      \<and> \<not> dm_is_set m' 0 0 \<and> \<not> dm_is_set m' 1 0 \<and> dm_ones_in_col m' 0 = 0"
  unfolding demo_create by code_simp

end
