(* ===== verification/Dm_Perm.thy ===== *)
theory Dm_Perm
  imports Dm_Base
begin

text \<open>
  Row and column permutations of the dependency matrix (\<^verbatim>\<open>src/src/dm/dm.c\<close>): permutation groups,
  \<^verbatim>\<open>apply_permutation_group\<close>, \<^verbatim>\<open>dm_permute_rows\<close> and \<^verbatim>\<open>dm_permute_cols\<close>, swaps, flips, the heapsort
  behind \<^verbatim>\<open>dm_sort_rows\<close> and \<^verbatim>\<open>dm_sort_cols\<close>, and the decomposition of a permutation into cycles.
  The lemmas show that a group acts on the matrix as the cyclic shift of its elements and that
  the header stays a permutation with its inverse.
\<close>

section \<open>Model\<close>

text \<open>
  \<open>g_data\<close> holds the entries written so far (the C field \<^verbatim>\<open>size\<close> is their number),
  \<open>g_data_size\<close> the capacity of the array; \<open>g_fixed_size\<close> says that the caller provided the array.
\<close>

record permutation_group =
  g_data_size :: nat
  g_fixed_size :: bool
  g_data :: "nat list"

definition dm_create_permutation_group :: "nat \<Rightarrow> bool \<Rightarrow> permutation_group" where
  "dm_create_permutation_group sz fixed = \<lparr>g_data_size = sz, g_fixed_size = fixed, g_data = []\<rparr>"

definition dm_add_to_permutation_group :: "permutation_group \<Rightarrow> nat \<Rightarrow> permutation_group result" where
  "dm_add_to_permutation_group g idx =
     (if length (g_data g) \<ge> g_data_size g
      then if g_fixed_size g then Inl Exit_failure
           else Inr (g\<lparr>g_data_size := length (g_data g) + 20, g_data := g_data g @ [idx]\<rparr>)
      else Inr (g\<lparr>g_data := g_data g @ [idx]\<rparr>))"

definition dm_close_group :: "permutation_group \<Rightarrow> permutation_group result" where
  "dm_close_group g =
     (if g_data g = [] then Inl Exit_failure
      else dm_add_to_permutation_group g (last (g_data g)))"

text \<open>The callers fill a group in a loop.\<close>

fun add_all :: "permutation_group \<Rightarrow> nat list \<Rightarrow> permutation_group result" where
  "add_all g [] = Inr g"
| "add_all g (x # xs) = result_bind (dm_add_to_permutation_group g x) (\<lambda>g. add_all g xs)"

definition set_header :: "matrix_header \<Rightarrow> nat \<Rightarrow> nat \<Rightarrow> matrix_header" where
  "set_header p idx v =
     (let d = (h_data p)[v := (h_data p ! v)\<lparr>at := idx\<rparr>]
      in p\<lparr>h_data := d[idx := (d ! idx)\<lparr>becomes := v\<rparr>]\<rparr>)"

fun apply_group_loop :: "matrix_header \<Rightarrow> nat \<Rightarrow> header_entry \<Rightarrow> nat list \<Rightarrow> matrix_header" where
  "apply_group_loop p lst tmp [] = set_header p lst (becomes tmp)"
| "apply_group_loop p lst tmp (current # xs) =
     (if current = lst
      then let p = set_header p lst (becomes tmp)
           in case xs of [] \<Rightarrow> set_header p lst (becomes tmp)
              | y # ys \<Rightarrow> apply_group_loop p y (h_data p ! y) ys
      else apply_group_loop (set_header p lst (becomes (h_data p ! current))) current tmp xs)"

definition apply_permutation_group :: "matrix_header \<Rightarrow> permutation_group \<Rightarrow> matrix_header" where
  "apply_permutation_group p g =
     (case g_data g of [] \<Rightarrow> p | x # xs \<Rightarrow> apply_group_loop p x (h_data p ! x) xs)"

definition dm_permute_rows :: "matrix \<Rightarrow> permutation_group \<Rightarrow> matrix" where
  "dm_permute_rows m g =
     (let m = m\<lparr>col_perm := invalidate_min_max (col_perm m)\<rparr>
      in m\<lparr>row_perm := apply_permutation_group (row_perm m) g\<rparr>)"

definition dm_permute_cols :: "matrix \<Rightarrow> permutation_group \<Rightarrow> matrix" where
  "dm_permute_cols m g =
     (let m = m\<lparr>row_perm := invalidate_min_max (row_perm m)\<rparr>
      in m\<lparr>col_perm := apply_permutation_group (col_perm m) g\<rparr>)"

definition dm_swap_rows :: "matrix \<Rightarrow> nat \<Rightarrow> nat \<Rightarrow> matrix result" where
  "dm_swap_rows m rowa rowb =
     result_bind (add_all (dm_create_permutation_group 2 True) [rowa, rowb])
       (\<lambda>g. Inr (dm_permute_rows m g))"

definition dm_swap_cols :: "matrix \<Rightarrow> nat \<Rightarrow> nat \<Rightarrow> matrix result" where
  "dm_swap_cols m cola colb =
     result_bind (add_all (dm_create_permutation_group 2 True) [cola, colb])
       (\<lambda>g. Inr (dm_permute_cols m g))"

definition dm_horizontal_flip :: "matrix \<Rightarrow> matrix result" where
  "dm_horizontal_flip m =
     fold_result (\<lambda>i m. dm_swap_rows m i (dm_nrows m - i - 1)) [0..<dm_nrows m div 2] m"

definition dm_vertical_flip :: "matrix \<Rightarrow> matrix result" where
  "dm_vertical_flip m =
     fold_result (\<lambda>i m. dm_swap_cols m i (dm_ncols m - i - 1)) [0..<dm_ncols m div 2] m"

text \<open>
  The inner \<^verbatim>\<open>while\<close> of \<^verbatim>\<open>dm_create_permutation_groups\<close>: it returns the collected cycle \<^verbatim>\<open>rot\<close> and
  the marks. An index outside the array, possible only when \<open>p\<close> is no permutation, ends it.
\<close>

function collect_cycle :: "nat list \<Rightarrow> nat \<Rightarrow> nat list \<Rightarrow> bool list \<Rightarrow> nat list \<times> bool list" where
  "collect_cycle p cur rot visited =
     (if cur < length visited \<and> \<not> visited ! cur
      then collect_cycle p (p ! cur) (rot @ [cur]) (visited[cur := True])
      else (rot, visited))"
  by pat_completeness auto
termination
proof (relation "measure (\<lambda>(p, cur, rot, visited). length (filter Not visited))", simp, clarsimp)
  fix cur :: nat and visited :: "bool list"
  assume "cur < length visited" and "\<not> visited ! cur"
  then show "length (filter Not (visited[cur := True])) < length (filter Not visited)"
  proof (induction visited arbitrary: cur)
    case (Cons x xs)
    then show ?case by (cases cur) auto
  qed simp
qed

declare collect_cycle.simps [simp del]

text \<open>One iteration of the outer loop; the state is the marks, \<^verbatim>\<open>num_done\<close> and the groups so far.\<close>

definition groups_step ::
  "nat list \<Rightarrow> nat \<Rightarrow> nat \<Rightarrow> bool list \<times> nat \<times> permutation_group list
    \<Rightarrow> (bool list \<times> nat \<times> permutation_group list) result" where
  "groups_step p sz i = (\<lambda>(visited, num_done, groups).
     if num_done < sz
     then let (rot, visited) = collect_cycle p (p ! i) [] visited; c = length rot
          in if c > 0
             then result_bind (add_all (dm_create_permutation_group c False) rot)
                    (\<lambda>g. Inr (visited, num_done + c, groups @ [g]))
             else Inr (visited, num_done, groups)
     else Inr (visited, num_done, groups))"

definition dm_create_permutation_groups :: "nat list \<Rightarrow> nat \<Rightarrow> permutation_group list result" where
  "dm_create_permutation_groups p sz =
     result_bind (fold_result (groups_step p sz) [0..<sz] (replicate sz False, 0, []))
       (\<lambda>(visited, num_done, groups). Inr groups)"

section \<open>The action of one group on a header\<close>

text \<open>\<open>cyc_next g i\<close> is the element after \<open>i\<close> in the cycle \<open>g\<close>, and \<open>i\<close> itself outside of it.\<close>

definition cyc_next :: "nat list \<Rightarrow> nat \<Rightarrow> nat" where
  "cyc_next g i = (case map_of (zip g (rotate1 g)) i of None \<Rightarrow> i | Some x \<Rightarrow> x)"

lemma cyc_next_outside [simp]: "i \<notin> set g \<Longrightarrow> cyc_next g i = i"
  by (simp add: cyc_next_def map_of_zip_is_None[THEN iffD2] split: option.split)

lemma cyc_next_nth:
  assumes "distinct g" and "k < length g"
  shows "cyc_next g (g ! k) = g ! (Suc k mod length g)"
  using assms by (simp add: cyc_next_def map_of_zip_nth nth_rotate1)

lemma cyc_next_in: "distinct g \<Longrightarrow> cyc_next g i \<in> set g \<longleftrightarrow> i \<in> set g"
proof (cases "i \<in> set g")
  case True
  assume d: "distinct g"
  from True obtain k where k: "k < length g" "i = g ! k" by (metis in_set_conv_nth)
  then have "Suc k mod length g < length g" by (intro mod_less_divisor) linarith
  with k d True show ?thesis by (simp add: cyc_next_nth)
qed simp

lemma cyc_next_inj:
  assumes d: "distinct g" and eq: "cyc_next g i = cyc_next g j"
  shows "i = j"
proof (cases "i \<in> set g \<and> j \<in> set g")
  case True
  then obtain k l where k: "k < length g" "i = g ! k" and l: "l < length g" "j = g ! l"
    by (metis in_set_conv_nth)
  have lt: "Suc k mod length g < length g" "Suc l mod length g < length g"
    using k by (intro mod_less_divisor, linarith)+
  from eq d k l lt have "Suc k mod length g = Suc l mod length g"
    by (simp add: cyc_next_nth nth_eq_iff_index_eq)
  then have "k = l" using k l by (metis Suc_lessI mod_less mod_self nat.inject nat.distinct(1))
  with k l show ?thesis by simp
next
  case False
  then show ?thesis using eq d by (metis cyc_next_in cyc_next_outside)
qed

lemma cyc_next_bij:
  assumes "distinct g" and "set g \<subseteq> {..<n}"
  shows "bij_betw (cyc_next g) {..<n} {..<n}"
proof -
  have lt: "cyc_next g i < n" if "i < n" for i
    using that assms cyc_next_in[OF assms(1), of i] by (cases "i \<in> set g") auto
  have inj: "inj_on (cyc_next g) {..<n}" using cyc_next_inj[OF assms(1)] by (auto intro: inj_onI)
  have "cyc_next g ` {..<n} \<subseteq> {..<n}" using lt by auto
  then have "cyc_next g ` {..<n} = {..<n}" by (rule endo_inj_surj[OF finite_lessThan _ inj])
  with inj show ?thesis by (simp add: bij_betw_def)
qed

lemma hdr_wfI:
  assumes "length (h_data p) = h_size p" "length (h_count p) = h_size p"
    "length (h_min p) = h_size p" "length (h_max p) = h_size p"
    and b: "\<And>i. i < h_size p \<Longrightarrow> becomes (h_data p ! i) < h_size p"
    and a: "\<And>i. i < h_size p \<Longrightarrow> at (h_data p ! becomes (h_data p ! i)) = i"
  shows "hdr_wf p"
proof -
  let ?f = "\<lambda>i. becomes (h_data p ! i)"
  have "inj_on ?f {..<h_size p}"
  proof (rule inj_onI)
    fix i j assume ij: "i \<in> {..<h_size p}" "j \<in> {..<h_size p}" and eq: "?f i = ?f j"
    have "i = at (h_data p ! ?f i)" using ij a by simp
    also have "\<dots> = at (h_data p ! ?f j)" unfolding eq ..
    also have "\<dots> = j" using ij a by simp
    finally show "i = j" .
  qed
  moreover have "?f ` {..<h_size p} \<subseteq> {..<h_size p}" using b by auto
  ultimately have surj: "?f ` {..<h_size p} = {..<h_size p}" by (simp add: endo_inj_surj)
  have "at (h_data p ! k) < h_size p \<and> ?f (at (h_data p ! k)) = k" if "k < h_size p" for k
  proof -
    have "k \<in> ?f ` {..<h_size p}" using that unfolding surj by simp
    then obtain i where i: "i < h_size p" and k: "k = ?f i" by auto
    show ?thesis unfolding k a[OF i] using i by simp
  qed
  with assms show ?thesis by (simp add: hdr_wf_def)
qed

lemma set_header_frame [simp]:
  "h_size (set_header p i v) = h_size p" "h_count (set_header p i v) = h_count p"
  "h_min (set_header p i v) = h_min p" "h_max (set_header p i v) = h_max p"
  "length (h_data (set_header p i v)) = length (h_data p)"
  by (simp_all add: set_header_def Let_def)

lemma set_header_entry:
  assumes "i < length (h_data p)" and "v < length (h_data p)" and "k < length (h_data p)"
  shows "becomes (h_data (set_header p i v) ! k) = (if k = i then v else becomes (h_data p ! k))"
    and "at (h_data (set_header p i v) ! k) = (if k = v then i else at (h_data p ! k))"
    and "group (h_data (set_header p i v) ! k) = group (h_data p ! k)"
  using assms by (auto simp: set_header_def Let_def nth_list_update)


text \<open>The loop writes the shifted targets one after the other.\<close>

definition write_all :: "matrix_header \<Rightarrow> (nat \<times> nat) list \<Rightarrow> matrix_header" where
  "write_all p ws = fold (\<lambda>(i, v) p. set_header p i v) ws p"

lemma write_all_simps [simp]:
  "write_all p [] = p" "write_all p ((i, v) # ws) = write_all (set_header p i v) ws"
  by (simp_all add: write_all_def)

lemma write_all_frame [simp]:
  "h_size (write_all p ws) = h_size p" "h_count (write_all p ws) = h_count p"
  "h_min (write_all p ws) = h_min p" "h_max (write_all p ws) = h_max p"
  "length (h_data (write_all p ws)) = length (h_data p)"
  by (induction ws arbitrary: p) auto

lemma write_all_becomes:
  assumes "distinct (map fst ws)"
    and "\<forall>(i, v) \<in> set ws. i < length (h_data p) \<and> v < length (h_data p)" and "k < length (h_data p)"
  shows "becomes (h_data (write_all p ws) ! k)
      = (case map_of ws k of Some v \<Rightarrow> v | None \<Rightarrow> becomes (h_data p ! k))"
  using assms
proof (induction ws arbitrary: p)
  case (Cons w ws)
  obtain i v where w: "w = (i, v)" by (cases w)
  have iv: "i < length (h_data p)" "v < length (h_data p)" using Cons.prems w by auto
  have none: "map_of ws i = None" using Cons.prems w by (auto simp: map_of_eq_None_iff)
  have "becomes (h_data (write_all (set_header p i v) ws) ! k)
      = (case map_of ws k of Some v \<Rightarrow> v | None \<Rightarrow> becomes (h_data (set_header p i v) ! k))"
    using Cons.prems w by (intro Cons.IH) auto
  with w none set_header_entry(1)[OF iv Cons.prems(3)] show ?case
    by (cases "k = i") (auto split: option.split)
qed simp

lemma write_all_at:
  assumes "distinct (map snd ws)"
    and "\<forall>(i, v) \<in> set ws. i < length (h_data p) \<and> v < length (h_data p)" and "k < length (h_data p)"
  shows "at (h_data (write_all p ws) ! k)
      = (case map_of (map prod.swap ws) k of Some i \<Rightarrow> i | None \<Rightarrow> at (h_data p ! k))"
  using assms
proof (induction ws arbitrary: p)
  case (Cons w ws)
  obtain i v where w: "w = (i, v)" by (cases w)
  have iv: "i < length (h_data p)" "v < length (h_data p)" using Cons.prems w by auto
  have none: "map_of (map prod.swap ws) v = None"
    using Cons.prems w by (auto simp: map_of_eq_None_iff image_image)
  have "at (h_data (write_all (set_header p i v) ws) ! k)
      = (case map_of (map prod.swap ws) k of Some i \<Rightarrow> i | None \<Rightarrow> at (h_data (set_header p i v) ! k))"
    using Cons.prems w by (intro Cons.IH) auto
  with w none set_header_entry(2)[OF iv Cons.prems(3)] show ?case
    by (cases "k = v") (auto split: option.split)
qed simp

lemma write_all_group:
  assumes "\<forall>(i, v) \<in> set ws. i < length (h_data p) \<and> v < length (h_data p)" and "k < length (h_data p)"
  shows "group (h_data (write_all p ws) ! k) = group (h_data p ! k)"
  using assms
proof (induction ws arbitrary: p)
  case (Cons w ws)
  then show ?case by (cases w) (auto simp: set_header_entry)
qed simp

lemma apply_group_loop_writes:
  assumes "distinct (lst # xs)" and "\<forall>x \<in> set (lst # xs). x < length (h_data p)"
    and "\<forall>x < length (h_data p). becomes (h_data p ! x) < length (h_data p)"
    and "becomes tmp < length (h_data p)"
  shows "apply_group_loop p lst tmp xs
    = write_all p (zip (lst # xs) (map (\<lambda>x. becomes (h_data p ! x)) xs @ [becomes tmp]))"
  using assms
proof (induction xs arbitrary: p lst)
  case (Cons x xs)
  let ?p = "set_header p lst (becomes (h_data p ! x))"
  have len: "lst < length (h_data p)" "becomes (h_data p ! x) < length (h_data p)" using Cons.prems by auto
  have b: "becomes (h_data ?p ! y) = (if y = lst then becomes (h_data p ! x) else becomes (h_data p ! y))"
    if "y < length (h_data p)" for y using set_header_entry(1)[OF len that] .
  have eq: "map (\<lambda>y. becomes (h_data ?p ! y)) xs = map (\<lambda>y. becomes (h_data p ! y)) xs"
    using Cons.prems b by auto
  have "apply_group_loop ?p x tmp xs
      = write_all ?p (zip (x # xs) (map (\<lambda>y. becomes (h_data ?p ! y)) xs @ [becomes tmp]))"
    by (rule Cons.IH) (use Cons.prems b in auto)
  then show ?case using Cons.prems(1) unfolding eq by auto
qed simp

lemma apply_group_writes:
  assumes wf: "hdr_wf p" and "distinct (g_data g)" and "set (g_data g) \<subseteq> {..<h_size p}"
  shows "apply_permutation_group p g
    = write_all p (zip (g_data g) (map (\<lambda>x. becomes (h_data p ! x)) (rotate1 (g_data g))))"
proof (cases "g_data g")
  case (Cons x xs)
  with assms apply_group_loop_writes[of x xs p "h_data p ! x"] show ?thesis
    by (auto simp: apply_permutation_group_def hdr_wf_def)
qed (simp add: apply_permutation_group_def)

lemma map_of_zip_map:
  "length xs = length ys \<Longrightarrow> map_of (zip xs (map f ys)) k = map_option f (map_of (zip xs ys) k)"
  by (induction xs ys rule: list_induct2) auto

lemma apply_group_entry:
  assumes wf: "hdr_wf p" and d: "distinct (g_data g)" and sub: "set (g_data g) \<subseteq> {..<h_size p}"
    and k: "k < h_size p"
  shows "becomes (h_data (apply_permutation_group p g) ! k) = becomes (h_data p ! cyc_next (g_data g) k)"
    and "group (h_data (apply_permutation_group p g) ! k) = group (h_data p ! k)"
    and "at (h_data (apply_permutation_group p g) ! becomes (h_data p ! cyc_next (g_data g) k)) = k"
proof -
  let ?b = "\<lambda>x. becomes (h_data p ! x)"
  let ?ws = "zip (g_data g) (map ?b (rotate1 (g_data g)))"
  have len: "length (h_data p) = h_size p" using wf by (simp add: hdr_wf_def)
  have inj: "inj_on ?b (set (g_data g))"
    using sub becomes_inj[OF wf] by (auto simp: inj_on_def subset_iff)
  have dist: "distinct (map fst ?ws)" "distinct (map snd ?ws)"
    using d inj by (simp_all add: distinct_map)
  have rng: "\<forall>(i, v) \<in> set ?ws. i < length (h_data p) \<and> v < length (h_data p)"
  proof (clarify)
    fix i v assume iv: "(i, v) \<in> set ?ws"
    then obtain x where "x \<in> set (g_data g)" "v = ?b x" by (auto dest!: set_zip_rightD)
    then show "i < length (h_data p) \<and> v < length (h_data p)"
      using set_zip_leftD[OF iv] sub becomes_lt[OF wf] len by (auto simp: subset_iff)
  qed
  note entry = write_all_becomes[OF dist(1) rng] write_all_at[OF dist(2) rng] write_all_group[OF rng]
  note eq = apply_group_writes[OF wf d sub]
  have mo: "map_of ?ws k = map_option ?b (map_of (zip (g_data g) (rotate1 (g_data g))) k)"
    by (rule map_of_zip_map) simp
  have e: "becomes (h_data (apply_permutation_group p g) ! k)
      = (case map_of ?ws k of Some v \<Rightarrow> v | None \<Rightarrow> ?b k)"
    using entry(1)[of k] k len unfolding eq by simp
  show b: "becomes (h_data (apply_permutation_group p g) ! k) = ?b (cyc_next (g_data g) k)"
    unfolding e mo cyc_next_def
    by (cases "map_of (zip (g_data g) (rotate1 (g_data g))) k") (simp_all only: option.simps)
  show "group (h_data (apply_permutation_group p g) ! k) = group (h_data p ! k)"
    using entry(3)[of k] k len eq by simp
  have lt: "cyc_next (g_data g) k < h_size p"
    using cyc_next_bij[OF d sub] k by (metis bij_betwE lessThan_iff)
  let ?v = "?b (cyc_next (g_data g) k)"
  have at: "at (h_data (apply_permutation_group p g) ! ?v)
      = (case map_of (map prod.swap ?ws) ?v of Some i \<Rightarrow> i | None \<Rightarrow> at (h_data p ! ?v))"
    using entry(2)[of ?v] becomes_lt[OF wf lt] len eq by simp
  show "at (h_data (apply_permutation_group p g) ! ?v) = k"
  proof (cases "k \<in> set (g_data g)")
    case True
    then obtain v where v: "map_of ?ws k = Some v" by (cases "map_of ?ws k") (auto simp: map_of_zip_is_None)
    with e b have "map_of ?ws k = Some ?v" by simp
    then have "(?v, k) \<in> set (map prod.swap ?ws)" by (auto dest: map_of_SomeD)
    moreover have "distinct (map fst (map prod.swap ?ws))" using dist(2) by (simp add: comp_def)
    ultimately have "map_of (map prod.swap ?ws) ?v = Some k" by simp
    then show ?thesis using at by simp
  next
    case False
    have "?v \<notin> snd ` set ?ws"
    proof
      assume "?v \<in> snd ` set ?ws"
      then obtain x where "x \<in> set (g_data g)" "?b x = ?b k"
        using False by (auto dest!: set_zip_rightD)
      with becomes_inj[OF wf] sub k False show False by (metis lessThan_iff subsetD)
    qed
    then have "map_of (map prod.swap ?ws) ?v = None" by (auto simp: map_of_eq_None_iff image_image)
    then show ?thesis using at False wf k by (simp add: hdr_wf_def)
  qed
qed

lemma apply_group_frame:
  assumes "hdr_wf p" and "distinct (g_data g)" and "set (g_data g) \<subseteq> {..<h_size p}"
  shows "h_size (apply_permutation_group p g) = h_size p"
    and "h_count (apply_permutation_group p g) = h_count p"
    and "h_min (apply_permutation_group p g) = h_min p"
    and "h_max (apply_permutation_group p g) = h_max p"
    and "hdr_wf (apply_permutation_group p g)"
proof -
  note eq = apply_group_writes[OF assms]
  show fr: "h_size (apply_permutation_group p g) = h_size p"
    "h_count (apply_permutation_group p g) = h_count p"
    "h_min (apply_permutation_group p g) = h_min p"
    "h_max (apply_permutation_group p g) = h_max p" by (simp_all add: eq)
  have lt: "k < h_size p \<Longrightarrow> cyc_next (g_data g) k < h_size p" for k
    using cyc_next_bij[OF assms(2,3)] by (metis bij_betwE lessThan_iff)
  show "hdr_wf (apply_permutation_group p g)"
    by (rule hdr_wfI) (use assms(1) fr apply_group_entry[OF assms] becomes_lt[OF assms(1)] lt
      in \<open>auto simp: hdr_wf_def eq\<close>)
qed

section \<open>Permuting the matrix\<close>

definition perm_ok :: "nat \<Rightarrow> permutation_group \<Rightarrow> bool" where
  "perm_ok n g \<longleftrightarrow> distinct (g_data g) \<and> set (g_data g) \<subseteq> {..<n}"

lemma invalidate_frame [simp]:
  "h_size (invalidate_min_max p) = h_size p" "h_data (invalidate_min_max p) = h_data p"
  "h_count (invalidate_min_max p) = h_count p"
  "i < h_size p \<Longrightarrow> h_min (invalidate_min_max p) ! i = -1"
  "i < h_size p \<Longrightarrow> h_max (invalidate_min_max p) ! i = -1"
  by (simp_all add: invalidate_min_max_def)

lemma permute_frame [simp]:
  "rows (dm_permute_rows m g) = rows m" "cols (dm_permute_rows m g) = cols m"
  "bits (dm_permute_rows m g) = bits m" "bits_per_row (dm_permute_rows m g) = bits_per_row m"
  "rows (dm_permute_cols m g) = rows m" "cols (dm_permute_cols m g) = cols m"
  "bits (dm_permute_cols m g) = bits m" "bits_per_row (dm_permute_cols m g) = bits_per_row m"
  "row_perm (dm_permute_rows m g) = apply_permutation_group (row_perm m) g"
  "col_perm (dm_permute_rows m g) = invalidate_min_max (col_perm m)"
  "col_perm (dm_permute_cols m g) = apply_permutation_group (col_perm m) g"
  "row_perm (dm_permute_cols m g) = invalidate_min_max (row_perm m)"
  by (simp_all add: dm_permute_rows_def dm_permute_cols_def Let_def)

lemma permute_rows_shape:
  assumes m: "dm_shape m" and g: "perm_ok (h_size (row_perm m)) g"
  shows "dm_shape (dm_permute_rows m g)"
    and "i < h_size (row_perm m) \<Longrightarrow> rowp (dm_permute_rows m g) i = rowp m (cyc_next (g_data g) i)"
    and "colp (dm_permute_rows m g) = colp m"
    and "i < h_size (row_perm m) \<Longrightarrow>
      dm_is_set (dm_permute_rows m g) i j = dm_is_set m (cyc_next (g_data g) i) j"
proof -
  have wf: "hdr_wf (row_perm m)" using m by (simp add: dm_shape_def)
  note fr = apply_group_frame[OF wf] and en = apply_group_entry[OF wf]
  show "dm_shape (dm_permute_rows m g)"
    using m g fr by (auto simp: dm_shape_def hdr_wf_invalidate perm_ok_def)
  show r: "i < h_size (row_perm m) \<Longrightarrow> rowp (dm_permute_rows m g) i = rowp m (cyc_next (g_data g) i)"
    using g en(1) by (simp add: rowp_def perm_ok_def)
  show c: "colp (dm_permute_rows m g) = colp m" by (simp add: colp_def fun_eq_iff)
  show "i < h_size (row_perm m) \<Longrightarrow>
      dm_is_set (dm_permute_rows m g) i j = dm_is_set m (cyc_next (g_data g) i) j"
    using r by (simp add: dm_is_set_def c)
qed

lemma permute_cols_shape:
  assumes m: "dm_shape m" and g: "perm_ok (h_size (col_perm m)) g"
  shows "dm_shape (dm_permute_cols m g)"
    and "j < h_size (col_perm m) \<Longrightarrow> colp (dm_permute_cols m g) j = colp m (cyc_next (g_data g) j)"
    and "rowp (dm_permute_cols m g) = rowp m"
    and "j < h_size (col_perm m) \<Longrightarrow>
      dm_is_set (dm_permute_cols m g) i j = dm_is_set m i (cyc_next (g_data g) j)"
proof -
  have wf: "hdr_wf (col_perm m)" using m by (simp add: dm_shape_def)
  note fr = apply_group_frame[OF wf] and en = apply_group_entry[OF wf]
  show "dm_shape (dm_permute_cols m g)"
    using m g fr by (auto simp: dm_shape_def hdr_wf_invalidate perm_ok_def)
  show r: "j < h_size (col_perm m) \<Longrightarrow> colp (dm_permute_cols m g) j = colp m (cyc_next (g_data g) j)"
    using g en(1) by (simp add: colp_def perm_ok_def)
  show c: "rowp (dm_permute_cols m g) = rowp m" by (simp add: rowp_def fun_eq_iff)
  show "j < h_size (col_perm m) \<Longrightarrow>
      dm_is_set (dm_permute_cols m g) i j = dm_is_set m i (cyc_next (g_data g) j)"
    using r by (simp add: dm_is_set_def c)
qed

lemma perm_ok_mono: "perm_ok n g \<Longrightarrow> n \<le> k \<Longrightarrow> perm_ok k g"
  by (auto simp: perm_ok_def)

lemma cyc_next_lt: "perm_ok n g \<Longrightarrow> cyc_next (g_data g) i < n \<longleftrightarrow> i < n"
  by (metis cyc_next_in cyc_next_outside lessThan_iff perm_ok_def subsetD)

lemma permute_rows_wf:
  assumes wf: "dm_wf m" and g: "perm_ok (rows m) g"
  shows "dm_wf (dm_permute_rows m g)"
    and "i < rows m \<Longrightarrow> dm_is_set (dm_permute_rows m g) i j = dm_is_set m (cyc_next (g_data g) i) j"
    and "i < rows m \<Longrightarrow> dm_ones_in_row (dm_permute_rows m g) i = dm_ones_in_row m (cyc_next (g_data g) i)"
proof -
  note s = wf_shape[OF wf]
  have g': "perm_ok (h_size (row_perm m)) g" using g s(2) by (rule perm_ok_mono)
  note p = permute_rows_shape[OF s(1) g']
  note lt = cyc_next_lt[OF g] cyc_next_lt[OF g']
  have hw: "hdr_wf (row_perm m)" using s(1) by (simp add: dm_shape_def)
  note fr = apply_group_frame[OF hw]
  show is_set: "i < rows m \<Longrightarrow> dm_is_set (dm_permute_rows m g) i j = dm_is_set m (cyc_next (g_data g) i) j" for i j
    using p(4) s(4) by blast
  have ones: "dm_ones_in_row (dm_permute_rows m g) i = dm_ones_in_row m (cyc_next (g_data g) i)"
    if "i < h_size (row_perm m)" for i
    using that p(2) g' fr by (simp add: dm_ones_in_row_def perm_ok_def)
  then show "i < rows m \<Longrightarrow> dm_ones_in_row (dm_permute_rows m g) i = dm_ones_in_row m (cyc_next (g_data g) i)"
    using s(4) by blast
  have bij: "bij_betw (cyc_next (g_data g)) {..<rows m} {..<rows m}"
    using g by (intro cyc_next_bij) (auto simp: perm_ok_def)
  have col: "count_below (\<lambda>i. dm_is_set (dm_permute_rows m g) i j) (rows m)
      = count_below (\<lambda>i. dm_is_set m i j) (rows m)" for j
    using count_below_bij[OF bij, of "\<lambda>i. dm_is_set m i j"] is_set
    by (metis (no_types, lifting) count_below_cong)
  have sz: "h_size (row_perm (dm_permute_rows m g)) = h_size (row_perm m)"
    using fr g' by (simp add: perm_ok_def)
  have row: "count_below (dm_is_set (dm_permute_rows m g) i) (cols m)
      = count_below (dm_is_set m (cyc_next (g_data g) i)) (cols m)" if "i < rows m" for i
    using is_set[OF that] by (auto intro: count_below_cong)
  have oc: "dm_ones_in_col (dm_permute_rows m g) = dm_ones_in_col m"
    by (simp add: dm_ones_in_col_def p(3) fun_eq_iff)
  have "dm_counts m" using wf by (simp add: dm_wf_def)
  then have "dm_counts (dm_permute_rows m g)"
    unfolding dm_counts_def sz by (auto simp: ones row col oc lt)
  with p(1) show "dm_wf (dm_permute_rows m g)" by (simp add: dm_wf_def)
qed

lemma permute_cols_wf:
  assumes wf: "dm_wf m" and g: "perm_ok (cols m) g"
  shows "dm_wf (dm_permute_cols m g)"
    and "j < cols m \<Longrightarrow> dm_is_set (dm_permute_cols m g) i j = dm_is_set m i (cyc_next (g_data g) j)"
    and "j < cols m \<Longrightarrow> dm_ones_in_col (dm_permute_cols m g) j = dm_ones_in_col m (cyc_next (g_data g) j)"
    and "row_cache_ok (dm_permute_cols m g)"
proof -
  note s = wf_shape[OF wf]
  have g': "perm_ok (h_size (col_perm m)) g" using g s(3) by (rule perm_ok_mono)
  note p = permute_cols_shape[OF s(1) g']
  note lt = cyc_next_lt[OF g] cyc_next_lt[OF g']
  have hw: "hdr_wf (col_perm m)" using s(1) by (simp add: dm_shape_def)
  note fr = apply_group_frame[OF hw]
  show is_set: "j < cols m \<Longrightarrow> dm_is_set (dm_permute_cols m g) i j = dm_is_set m i (cyc_next (g_data g) j)" for i j
    using p(4) s(5) by blast
  have ones: "dm_ones_in_col (dm_permute_cols m g) j = dm_ones_in_col m (cyc_next (g_data g) j)"
    if "j < h_size (col_perm m)" for j
    using that p(2) g' fr by (simp add: dm_ones_in_col_def perm_ok_def)
  then show "j < cols m \<Longrightarrow> dm_ones_in_col (dm_permute_cols m g) j = dm_ones_in_col m (cyc_next (g_data g) j)"
    using s(5) by blast
  have bij: "bij_betw (cyc_next (g_data g)) {..<cols m} {..<cols m}"
    using g by (intro cyc_next_bij) (auto simp: perm_ok_def)
  have row: "count_below (dm_is_set (dm_permute_cols m g) i) (cols m)
      = count_below (dm_is_set m i) (cols m)" for i
    using count_below_bij[OF bij, of "dm_is_set m i"] is_set
    by (metis (no_types, lifting) count_below_cong)
  have sz: "h_size (col_perm (dm_permute_cols m g)) = h_size (col_perm m)"
    using fr g' by (simp add: perm_ok_def)
  have col: "count_below (\<lambda>i. dm_is_set (dm_permute_cols m g) i j) (rows m)
      = count_below (\<lambda>i. dm_is_set m i (cyc_next (g_data g) j)) (rows m)" if "j < cols m" for j
    using is_set[OF that] by (auto intro: count_below_cong)
  have oc: "dm_ones_in_row (dm_permute_cols m g) = dm_ones_in_row m"
    by (simp add: dm_ones_in_row_def p(3) fun_eq_iff)
  have "dm_counts m" using wf by (simp add: dm_wf_def)
  then have "dm_counts (dm_permute_cols m g)"
    unfolding dm_counts_def sz by (auto simp: ones row col oc lt)
  with p(1) show "dm_wf (dm_permute_cols m g)" by (simp add: dm_wf_def)
  show "row_cache_ok (dm_permute_cols m g)"
    using shape_rowp[OF s(1)] s by (simp add: row_cache_ok_def p(3))
qed

section \<open>Building groups, swaps and flips\<close>

lemma add_all_ok:
  "length (g_data g) + length xs \<le> g_data_size g \<Longrightarrow> add_all g xs = Inr (g\<lparr>g_data := g_data g @ xs\<rparr>)"
  by (induction xs arbitrary: g) (simp_all add: dm_add_to_permutation_group_def)

lemma create_add_all:
  "length xs \<le> n \<Longrightarrow> add_all (dm_create_permutation_group n b) xs
    = Inr \<lparr>g_data_size = n, g_fixed_size = b, g_data = xs\<rparr>"
  by (simp add: add_all_ok dm_create_permutation_group_def)


lemma set_header_same:
  assumes "hdr_wf p" and "a < h_size p"
  shows "set_header p a (becomes (h_data p ! a)) = p"
proof -
  let ?v = "becomes (h_data p ! a)"
  have v: "?v < length (h_data p)" "a < length (h_data p)" "at (h_data p ! ?v) = a"
    using assms by (auto simp: hdr_wf_def)
  have at: "(h_data p ! ?v)\<lparr>at := a\<rparr> = h_data p ! ?v" using v(3) by simp
  have be: "(h_data p ! a)\<lparr>becomes := ?v\<rparr> = h_data p ! a" by simp
  show ?thesis unfolding set_header_def Let_def at list_update_id be by simp
qed

lemma apply_group_same:
  assumes "hdr_wf p" and "a < h_size p" and "g_data g = [a, a]"
  shows "apply_permutation_group p g = p"
  using assms set_header_same[OF assms(1,2)] by (simp add: apply_permutation_group_def)

definition swapped :: "nat \<Rightarrow> nat \<Rightarrow> nat \<Rightarrow> nat" where
  "swapped a b i = (if i = a then b else if i = b then a else i)"

lemma dm_swap_eq:
  "dm_swap_rows m a b = Inr (dm_permute_rows m \<lparr>g_data_size = 2, g_fixed_size = True, g_data = [a, b]\<rparr>)"
  "dm_swap_cols m a b = Inr (dm_permute_cols m \<lparr>g_data_size = 2, g_fixed_size = True, g_data = [a, b]\<rparr>)"
  by (simp_all add: dm_swap_rows_def dm_swap_cols_def create_add_all del: add_all.simps)

lemma cyc_next_pair: "a \<noteq> b \<Longrightarrow> cyc_next [a, b] = swapped a b"
  by (auto simp: cyc_next_def swapped_def)

lemma swapped_same [simp]: "swapped a a i = i"
  by (simp add: swapped_def)

lemma dm_swap_rows_ok:
  assumes wf: "dm_wf m" and a: "a < rows m" and b: "b < rows m"
  shows "\<exists>m'. dm_swap_rows m a b = Inr m' \<and> dm_wf m' \<and> rows m' = rows m \<and> cols m' = cols m
    \<and> (\<forall>i < rows m. \<forall>j. dm_is_set m' i j = dm_is_set m (swapped a b i) j)"
proof (cases "a = b")
  case False
  let ?g = "\<lparr>g_data_size = 2, g_fixed_size = True, g_data = [a, b]\<rparr>"
  have "perm_ok (rows m) ?g" using a b False by (simp add: perm_ok_def)
  from permute_rows_wf[OF wf this] show ?thesis
    by (simp add: dm_swap_eq cyc_next_pair False)
next
  case True
  let ?g = "\<lparr>g_data_size = 2, g_fixed_size = True, g_data = [a, a]\<rparr>"
  let ?e = "\<lparr>g_data_size = 0, g_fixed_size = True, g_data = []\<rparr>"
  have "hdr_wf (row_perm m)" using wf by (simp add: dm_wf_def dm_shape_def)
  then have "apply_permutation_group (row_perm m) ?g = apply_permutation_group (row_perm m) ?e"
    using apply_group_same[of "row_perm m" a ?g] wf_shape(4)[OF wf a]
    by (simp add: apply_permutation_group_def)
  then have eq: "dm_permute_rows m ?g = dm_permute_rows m ?e" by (simp add: dm_permute_rows_def)
  have "perm_ok (rows m) ?e" by (simp add: perm_ok_def)
  from permute_rows_wf[OF wf this] show ?thesis
    using True eq by (simp add: dm_swap_eq)
qed

lemma dm_swap_cols_ok:
  assumes wf: "dm_wf m" and a: "a < cols m" and b: "b < cols m"
  shows "\<exists>m'. dm_swap_cols m a b = Inr m' \<and> dm_wf m' \<and> rows m' = rows m \<and> cols m' = cols m
    \<and> (\<forall>j < cols m. \<forall>i. dm_is_set m' i j = dm_is_set m i (swapped a b j))"
proof (cases "a = b")
  case False
  let ?g = "\<lparr>g_data_size = 2, g_fixed_size = True, g_data = [a, b]\<rparr>"
  have "perm_ok (cols m) ?g" using a b False by (simp add: perm_ok_def)
  from permute_cols_wf[OF wf this] show ?thesis
    by (simp add: dm_swap_eq cyc_next_pair False)
next
  case True
  let ?g = "\<lparr>g_data_size = 2, g_fixed_size = True, g_data = [a, a]\<rparr>"
  let ?e = "\<lparr>g_data_size = 0, g_fixed_size = True, g_data = []\<rparr>"
  have "hdr_wf (col_perm m)" using wf by (simp add: dm_wf_def dm_shape_def)
  then have "apply_permutation_group (col_perm m) ?g = apply_permutation_group (col_perm m) ?e"
    using apply_group_same[of "col_perm m" a ?g] wf_shape(5)[OF wf a]
    by (simp add: apply_permutation_group_def)
  then have eq: "dm_permute_cols m ?g = dm_permute_cols m ?e" by (simp add: dm_permute_cols_def)
  have "perm_ok (cols m) ?e" by (simp add: perm_ok_def)
  from permute_cols_wf[OF wf this] show ?thesis
    using True eq by (simp add: dm_swap_eq)
qed

lemma dm_horizontal_flip_ok:
  assumes wf: "dm_wf m"
  shows "\<exists>m'. dm_horizontal_flip m = Inr m' \<and> dm_wf m' \<and> rows m' = rows m \<and> cols m' = cols m
    \<and> (\<forall>i < rows m. \<forall>j. dm_is_set m' i j = dm_is_set m (rows m - 1 - i) j)"
proof -
  let ?n = "rows m"
  let ?P = "\<lambda>k m'. dm_wf m' \<and> rows m' = ?n \<and> cols m' = cols m
    \<and> (\<forall>i < ?n. \<forall>j. dm_is_set m' i j
        = dm_is_set m (if i < k \<or> ?n - 1 - i < k then ?n - 1 - i else i) j)"
  have "\<exists>m'. fold_result (\<lambda>i m. dm_swap_rows m i (dm_nrows m - i - 1)) [0..<?n div 2] m = Inr m'
    \<and> ?P (length [0..<?n div 2]) m'"
  proof (rule fold_result_invariant)
    fix k s assume "k < length [0..<?n div 2]" and P: "?P k s"
    then have k: "k < ?n div 2" "k < ?n" by simp_all
    from k P dm_swap_rows_ok[of s k "?n - k - 1"] obtain s' where
      s': "dm_swap_rows s k (?n - k - 1) = Inr s'" "dm_wf s'" "rows s' = ?n" "cols s' = cols m"
        "\<forall>i < ?n. \<forall>j. dm_is_set s' i j = dm_is_set s (swapped k (?n - k - 1) i) j" by auto
    have "dm_is_set s' i j = dm_is_set m (if i < Suc k \<or> ?n - 1 - i < Suc k then ?n - 1 - i else i) j"
      if "i < ?n" for i j
    proof -
      have lt: "swapped k (?n - k - 1) i < ?n" using that k by (auto simp: swapped_def)
      have "dm_is_set s' i j = dm_is_set s (swapped k (?n - k - 1) i) j" using s' that by blast
      also have "\<dots> = dm_is_set m (if swapped k (?n - k - 1) i < k \<or> ?n - 1 - swapped k (?n - k - 1) i < k
          then ?n - 1 - swapped k (?n - k - 1) i else swapped k (?n - k - 1) i) j"
        using P lt by blast
      also have "(if swapped k (?n - k - 1) i < k \<or> ?n - 1 - swapped k (?n - k - 1) i < k
          then ?n - 1 - swapped k (?n - k - 1) i else swapped k (?n - k - 1) i)
        = (if i < Suc k \<or> ?n - 1 - i < Suc k then ?n - 1 - i else i)" using k that by (auto simp: swapped_def)
      finally show ?thesis .
    qed
    then show "\<exists>s'. dm_swap_rows s ([0..<?n div 2] ! k) (dm_nrows s - [0..<?n div 2] ! k - 1) = Inr s'
        \<and> ?P (Suc k) s'"
      using s' k P by (auto simp: dm_nrows_def)
  qed (use wf in simp)
  then obtain m' where m': "dm_horizontal_flip m = Inr m'" "?P (?n div 2) m'"
    by (auto simp: dm_horizontal_flip_def dm_nrows_def)
  have "(if i < ?n div 2 \<or> ?n - 1 - i < ?n div 2 then ?n - 1 - i else i) = ?n - 1 - i" if "i < ?n" for i
    using that by auto
  with m' show ?thesis by auto
qed

lemma dm_vertical_flip_ok:
  assumes wf: "dm_wf m"
  shows "\<exists>m'. dm_vertical_flip m = Inr m' \<and> dm_wf m' \<and> rows m' = rows m \<and> cols m' = cols m
    \<and> (\<forall>i < cols m. \<forall>j. dm_is_set m' j i = dm_is_set m j (cols m - 1 - i))"
proof -
  let ?n = "cols m"
  let ?P = "\<lambda>k m'. dm_wf m' \<and> cols m' = ?n \<and> rows m' = rows m
    \<and> (\<forall>i < ?n. \<forall>j. dm_is_set m' j i
        = dm_is_set m j (if i < k \<or> ?n - 1 - i < k then ?n - 1 - i else i))"
  have "\<exists>m'. fold_result (\<lambda>i m. dm_swap_cols m i (dm_ncols m - i - 1)) [0..<?n div 2] m = Inr m'
    \<and> ?P (length [0..<?n div 2]) m'"
  proof (rule fold_result_invariant)
    fix k s assume "k < length [0..<?n div 2]" and P: "?P k s"
    then have k: "k < ?n div 2" "k < ?n" by simp_all
    from k P dm_swap_cols_ok[of s k "?n - k - 1"] obtain s' where
      s': "dm_swap_cols s k (?n - k - 1) = Inr s'" "dm_wf s'" "cols s' = ?n" "rows s' = rows m"
        "\<forall>i < ?n. \<forall>j. dm_is_set s' j i = dm_is_set s j (swapped k (?n - k - 1) i)" by auto
    have "dm_is_set s' j i = dm_is_set m j (if i < Suc k \<or> ?n - 1 - i < Suc k then ?n - 1 - i else i)"
      if "i < ?n" for i j
    proof -
      have lt: "swapped k (?n - k - 1) i < ?n" using that k by (auto simp: swapped_def)
      have "dm_is_set s' j i = dm_is_set s j (swapped k (?n - k - 1) i)" using s' that by blast
      also have "\<dots> = dm_is_set m j (if swapped k (?n - k - 1) i < k \<or> ?n - 1 - swapped k (?n - k - 1) i < k
          then ?n - 1 - swapped k (?n - k - 1) i else swapped k (?n - k - 1) i)"
        using P lt by blast
      also have "(if swapped k (?n - k - 1) i < k \<or> ?n - 1 - swapped k (?n - k - 1) i < k
          then ?n - 1 - swapped k (?n - k - 1) i else swapped k (?n - k - 1) i)
        = (if i < Suc k \<or> ?n - 1 - i < Suc k then ?n - 1 - i else i)" using k that by (auto simp: swapped_def)
      finally show ?thesis .
    qed
    then show "\<exists>s'. dm_swap_cols s ([0..<?n div 2] ! k) (dm_ncols s - [0..<?n div 2] ! k - 1) = Inr s'
        \<and> ?P (Suc k) s'"
      using s' k P by (auto simp: dm_ncols_def)
  qed (use wf in simp)
  then obtain m' where m': "dm_vertical_flip m = Inr m'" "?P (?n div 2) m'"
    by (auto simp: dm_vertical_flip_def dm_ncols_def)
  have "(if i < ?n div 2 \<or> ?n - 1 - i < ?n div 2 then ?n - 1 - i else i) = ?n - 1 - i" if "i < ?n" for i
    using that by auto
  with m' show ?thesis by auto
qed

section \<open>Decomposition into cycles\<close>

text \<open>\<open>is_perm p n\<close>: the array \<open>p\<close> is a permutation of the indices below \<open>n\<close>.\<close>

definition is_perm :: "nat list \<Rightarrow> nat \<Rightarrow> bool" where
  "is_perm p n \<longleftrightarrow> length p = n \<and> distinct p \<and> set p \<subseteq> {..<n}"

lemma is_perm_lt: "is_perm p n \<Longrightarrow> x < n \<Longrightarrow> p ! x < n"
  by (auto simp: is_perm_def subset_iff)

lemma is_perm_inj: "is_perm p n \<Longrightarrow> x < n \<Longrightarrow> y < n \<Longrightarrow> p ! x = p ! y \<longleftrightarrow> x = y"
  by (simp add: is_perm_def nth_eq_iff_index_eq)

text \<open>\<open>cycle_of p g\<close>: the list \<open>g\<close> is a cycle of \<open>p\<close>.\<close>

definition cycle_of :: "nat list \<Rightarrow> nat list \<Rightarrow> bool" where
  "cycle_of p g \<longleftrightarrow> distinct g \<and> (\<forall>x \<in> set g. p ! x = cyc_next g x)"

definition marked :: "bool list \<Rightarrow> nat set" where
  "marked visited = {x. x < length visited \<and> visited ! x}"

lemma marked_upd: "x < length v \<Longrightarrow> marked (v[x := True]) = insert x (marked v)"
  by (auto simp: marked_def nth_list_update split: if_splits)

lemma filter_Not_upd:
  "i < length v \<Longrightarrow> \<not> v ! i \<Longrightarrow> length (filter Not (v[i := True])) < length (filter Not v)"
proof (induction v arbitrary: i)
  case (Cons x xs)
  then show ?case by (cases i) auto
qed simp

lemma collect_cycle_correct:
  assumes p: "is_perm p n" and len: "length visited = n"
    and sub: "set rot \<subseteq> marked visited" and d: "distinct rot"
    and closed: "\<And>x. x < n \<Longrightarrow> p ! x \<in> marked visited - set rot \<longleftrightarrow> x \<in> marked visited - set rot"
    and path: "\<And>k. Suc k < length rot \<Longrightarrow> rot ! Suc k = p ! (rot ! k)"
    and cur: "cur < n" "rot \<noteq> [] \<Longrightarrow> cur = p ! last rot" "rot = [] \<Longrightarrow> cur \<notin> marked visited"
  shows "\<exists>rot' visited'. collect_cycle p cur rot visited = (rot', visited')
    \<and> length visited' = n \<and> rot' \<noteq> [] \<and> hd rot' = (if rot = [] then cur else hd rot)
    \<and> cycle_of p rot' \<and> marked visited' = (marked visited - set rot) \<union> set rot'
    \<and> set rot' \<inter> (marked visited - set rot) = {} \<and> set rot' \<subseteq> {..<n}"
  using len sub d closed path cur
proof (induction "length (filter Not visited)" arbitrary: cur rot visited rule: less_induct)
  case less
  note prem = less.prems
  have clt: "cur < length visited" using prem(1,6) by simp
  show ?case
  proof (cases "visited ! cur")
    case False
    then have cm: "cur \<notin> marked visited" by (simp add: marked_def)
    let ?v = "visited[cur := True]" and ?r = "rot @ [cur]"
    have D: "marked ?v - set ?r = marked visited - set rot"
      using prem cm by (auto simp: marked_upd)
    have step: "collect_cycle p cur rot visited = collect_cycle p (p ! cur) ?r ?v"
      using False clt by (subst collect_cycle.simps) simp
    have "\<exists>rot' visited'. collect_cycle p (p ! cur) ?r ?v = (rot', visited')
      \<and> length visited' = n \<and> rot' \<noteq> [] \<and> hd rot' = (if ?r = [] then p ! cur else hd ?r)
      \<and> cycle_of p rot' \<and> marked visited' = (marked ?v - set ?r) \<union> set rot'
      \<and> set rot' \<inter> (marked ?v - set ?r) = {} \<and> set rot' \<subseteq> {..<n}"
    proof (rule less.hyps)
      show "length (filter Not ?v) < length (filter Not visited)"
        using clt False by (rule filter_Not_upd)
      show "p ! x \<in> marked ?v - set ?r \<longleftrightarrow> x \<in> marked ?v - set ?r" if "x < n" for x
        unfolding D using that by (rule prem(4))
      show "set ?r \<subseteq> marked ?v" using prem(2) clt by (auto simp: marked_upd)
      show "distinct ?r" using prem(2,3) cm by auto
      show "?r ! Suc k = p ! (?r ! k)" if "Suc k < length ?r" for k
      proof (cases "Suc k < length rot")
        case True
        then show ?thesis using prem(5)[of k] by (simp add: nth_append)
      next
        case False
        then have k: "k = length rot - 1" "rot \<noteq> []" using that by auto
        then show ?thesis using prem(7) by (simp add: nth_append last_conv_nth)
      qed
    qed (use prem is_perm_lt[OF p] in auto)
    then show ?thesis using step D by (auto simp: hd_append)
  next
    case True
    have stop: "collect_cycle p cur rot visited = (rot, visited)"
      using True by (subst collect_cycle.simps) simp
    have cm: "cur \<in> marked visited" using True clt by (simp add: marked_def)
    then have ne: "rot \<noteq> []" using prem(8) by auto
    then have cl: "cur = p ! last rot" using prem(7) by simp
    have rn: "x < n" if "x \<in> set rot" for x using that prem(1,2) by (auto simp: marked_def)
    have "cur \<in> set rot"
      using cm cl prem(4)[of "last rot"] rn[of "last rot"] ne by auto
    then obtain k where k: "k < length rot" "cur = rot ! k" by (metis in_set_conv_nth)
    have k0: "k = 0"
    proof (rule ccontr)
      assume "k \<noteq> 0"
      then obtain k' where k': "k = Suc k'" by (cases k) auto
      with k prem(5)[of k'] have "p ! (rot ! k') = p ! last rot" using cl by simp
      then have "rot ! k' = last rot" using is_perm_inj[OF p] rn k k' ne by simp
      then have "rot ! k' = rot ! (length rot - 1)" using ne by (simp add: last_conv_nth)
      then have "k' = length rot - 1" using prem(3) k k' by (simp add: nth_eq_iff_index_eq)
      with k k' show False by simp
    qed
    have "cycle_of p rot"
      unfolding cycle_of_def
    proof (intro conjI ballI)
      fix x assume "x \<in> set rot"
      then obtain l where l: "l < length rot" "x = rot ! l" by (metis in_set_conv_nth)
      show "p ! x = cyc_next rot x"
      proof (cases "Suc l < length rot")
        case True
        then show ?thesis using l prem(5)[of l] prem(3) by (simp add: cyc_next_nth)
      next
        case False
        then have le: "l = length rot - 1" using l by simp
        then have "Suc l = length rot" "x = last rot" using l ne by (simp_all add: last_conv_nth)
        then show ?thesis using l k k0 cl prem(3) cyc_next_nth[of rot l] by simp
      qed
    qed (rule prem(3))
    then show ?thesis using stop ne prem(1,2) rn k k0
      by (auto simp: hd_conv_nth)
  qed
qed

text \<open>The state of the outer loop: the groups are disjoint cycles that cover the marked indices.\<close>

definition groups_inv ::
  "nat list \<Rightarrow> nat \<Rightarrow> nat \<Rightarrow> bool list \<times> nat \<times> permutation_group list \<Rightarrow> bool" where
  "groups_inv p n i = (\<lambda>(visited, num_done, groups).
     length visited = n \<and> num_done = card (marked visited)
   \<and> (\<forall>x < n. p ! x \<in> marked visited \<longleftrightarrow> x \<in> marked visited)
   \<and> (\<forall>x < i. x \<in> marked visited)
   \<and> (\<forall>g \<in> set groups. cycle_of p (g_data g))
   \<and> distinct (concat (map g_data groups)) \<and> set (concat (map g_data groups)) = marked visited)"

lemma marked_finite [simp]: "finite (marked v)"
  by (simp add: marked_def)

lemma groups_step_inv:
  assumes p: "is_perm p n" and i: "i < n" and inv: "groups_inv p n i (visited, num_done, groups)"
  shows "\<exists>s'. groups_step p n i (visited, num_done, groups) = Inr s' \<and> groups_inv p n (Suc i) s'"
proof -
  have V: "length visited = n" "num_done = card (marked visited)"
    "\<And>x. x < n \<Longrightarrow> p ! x \<in> marked visited \<longleftrightarrow> x \<in> marked visited"
    "\<And>x. x < i \<Longrightarrow> x \<in> marked visited" "\<And>g. g \<in> set groups \<Longrightarrow> cycle_of p (g_data g)"
    "distinct (concat (map g_data groups))" "set (concat (map g_data groups)) = marked visited"
    using inv by (auto simp: groups_inv_def)
  have sub: "marked visited \<subseteq> {..<n}" using V(1) by (auto simp: marked_def)
  show ?thesis
  proof (cases "p ! i \<in> marked visited")
    case True
    then have stop: "collect_cycle p (p ! i) [] visited = ([], visited)"
      by (subst collect_cycle.simps) (simp add: marked_def)
    have "groups_inv p n (Suc i) (visited, num_done, groups)"
      using inv V(3)[OF i] True by (auto simp: groups_inv_def less_Suc_eq)
    then show ?thesis using stop by (simp add: groups_step_def)
  next
    case False
    have "num_done < n"
    proof -
      have "marked visited \<subset> {..<n}" using sub False is_perm_lt[OF p i] by auto
      then show ?thesis using V(2) psubset_card_mono[of "{..<n}" "marked visited"] by simp
    qed
    moreover obtain rot v' where rot: "collect_cycle p (p ! i) [] visited = (rot, v')"
      "length v' = n" "rot \<noteq> []" "hd rot = p ! i" "cycle_of p rot"
      "marked v' = marked visited \<union> set rot" "set rot \<inter> marked visited = {}" "set rot \<subseteq> {..<n}"
      using collect_cycle_correct[OF p V(1), of "[]" "p ! i"] V(3) is_perm_lt[OF p i] False by auto
    moreover have "add_all (dm_create_permutation_group (length rot) False) rot
      = Inr \<lparr>g_data_size = length rot, g_fixed_size = False, g_data = rot\<rparr>"
      by (rule create_add_all) simp
    moreover have "groups_inv p n (Suc i) (v', num_done + length rot,
        groups @ [\<lparr>g_data_size = length rot, g_fixed_size = False, g_data = rot\<rparr>])"
    proof -
      have d: "distinct rot" using rot(5) by (simp add: cycle_of_def)
      have "card (marked v') = num_done + length rot"
        using rot(6,7) V(2) d by (simp add: card_Un_disjoint Int_commute distinct_card)
      moreover have "p ! x \<in> marked v' \<longleftrightarrow> x \<in> marked v'" if "x < n" for x
      proof -
        have cl: "p ! y \<in> set rot" if "y \<in> set rot" for y
          using rot(5) that cyc_next_in[OF d, of y] by (auto simp: cycle_of_def)
        have "p ! x \<in> set rot \<Longrightarrow> x \<in> set rot"
        proof -
          assume *: "p ! x \<in> set rot"
          have "(\<lambda>y. p ! y) ` set rot = set rot"
            by (rule endo_inj_surj) (use cl rot(8) is_perm_inj[OF p] in \<open>auto simp: inj_on_def subset_iff\<close>)
          then obtain y where "y \<in> set rot" "p ! x = p ! y" using * by (metis imageE)
          then show "x \<in> set rot" using is_perm_inj[OF p \<open>x < n\<close>] rot(8) by auto
        qed
        then show ?thesis using cl rot(6) V(3)[OF that] by auto
      qed
      moreover have "i \<in> marked v'"
      proof -
        have "p ! i \<in> marked v'" using rot(3,4,6) hd_in_set[of rot] by auto
        with calculation(2)[OF i] show ?thesis by simp
      qed
      ultimately show ?thesis
        using V rot d by (auto simp: groups_inv_def less_Suc_eq)
    qed
    ultimately show ?thesis by (simp add: groups_step_def Let_def)
  qed
qed

lemma create_permutation_groups_correct:
  assumes p: "is_perm p n"
  shows "\<exists>groups. dm_create_permutation_groups p n = Inr groups
    \<and> (\<forall>g \<in> set groups. cycle_of p (g_data g))
    \<and> distinct (concat (map g_data groups)) \<and> set (concat (map g_data groups)) = {..<n}"
proof -
  have "\<exists>s'. fold_result (groups_step p n) [0..<n] (replicate n False, 0, []) = Inr s'
    \<and> groups_inv p n (length [0..<n]) s'"
  proof (rule fold_result_invariant)
    show "groups_inv p n 0 (replicate n False, 0, [])"
      by (auto simp: groups_inv_def marked_def is_perm_lt[OF p])
    fix k s assume "k < length [0..<n]" and "groups_inv p n k s"
    then show "\<exists>s'. groups_step p n ([0..<n] ! k) s = Inr s' \<and> groups_inv p n (Suc k) s'"
      using groups_step_inv[OF p, of k] by (cases s) auto
  qed
  then obtain v k gs where s: "fold_result (groups_step p n) [0..<n] (replicate n False, 0, []) = Inr (v, k, gs)"
    "groups_inv p n n (v, k, gs)" by auto
  have "marked v = {..<n}" using s(2) by (auto simp: groups_inv_def) (auto simp: marked_def)
  with s show ?thesis by (auto simp: dm_create_permutation_groups_def groups_inv_def)
qed

section \<open>Applying all cycles of a permutation\<close>

definition dm_permute_cols_all :: "matrix \<Rightarrow> permutation_group list \<Rightarrow> matrix" where
  "dm_permute_cols_all m groups = fold (\<lambda>g m. dm_permute_cols m g) groups m"

definition dm_permute_rows_all :: "matrix \<Rightarrow> permutation_group list \<Rightarrow> matrix" where
  "dm_permute_rows_all m groups = fold (\<lambda>g m. dm_permute_rows m g) groups m"

lemma permute_all_wf:
  assumes "dm_wf m"
  shows "\<forall>g \<in> set gs. perm_ok (cols m) g \<Longrightarrow> j < cols m \<Longrightarrow>
      dm_wf (dm_permute_cols_all m gs) \<and> cols (dm_permute_cols_all m gs) = cols m
      \<and> rows (dm_permute_cols_all m gs) = rows m
      \<and> dm_is_set (dm_permute_cols_all m gs) i j = dm_is_set m i (foldr (\<lambda>g. cyc_next (g_data g)) gs j)"
    and "\<forall>g \<in> set gs. perm_ok (rows m) g \<Longrightarrow> i < rows m \<Longrightarrow>
      dm_wf (dm_permute_rows_all m gs) \<and> cols (dm_permute_rows_all m gs) = cols m
      \<and> rows (dm_permute_rows_all m gs) = rows m
      \<and> dm_is_set (dm_permute_rows_all m gs) i j = dm_is_set m (foldr (\<lambda>g. cyc_next (g_data g)) gs i) j"
  using assms
proof (induction gs arbitrary: m)
  case (Cons g gs)
  { case 1
    then have lt: "foldr (\<lambda>g. cyc_next (g_data g)) gs j < cols m"
      by (induction gs) (auto simp: cyc_next_lt)
    have g: "perm_ok (cols m) g" using 1 by simp
    show ?case using Cons.IH(1)[of "dm_permute_cols m g"] 1 lt permute_cols_wf[OF 1(3) g]
      by (simp add: dm_permute_cols_all_def) }
  { case 2
    then have lt: "foldr (\<lambda>g. cyc_next (g_data g)) gs i < rows m"
      by (induction gs) (auto simp: cyc_next_lt)
    have g: "perm_ok (rows m) g" using 2 by simp
    show ?case using Cons.IH(2)[of "dm_permute_rows m g"] 2 lt permute_rows_wf[OF 2(3) g]
      by (simp add: dm_permute_rows_all_def) }
qed (simp_all add: dm_permute_cols_all_def dm_permute_rows_all_def)

lemma disjoint_cycles_compose:
  assumes "distinct (concat (map g_data gs))" and "\<forall>g \<in> set gs. cycle_of p (g_data g)"
  shows "foldr (\<lambda>g. cyc_next (g_data g)) gs j = (if j \<in> set (concat (map g_data gs)) then p ! j else j)"
  using assms
proof (induction gs)
  case (Cons g gs)
  have d: "distinct (g_data g)" "set (g_data g) \<inter> set (concat (map g_data gs)) = {}"
    "distinct (concat (map g_data gs))" using Cons.prems by auto
  have IH: "foldr (\<lambda>g. cyc_next (g_data g)) gs j = (if j \<in> set (concat (map g_data gs)) then p ! j else j)"
    using Cons d by auto
  have cyc: "p ! j \<in> set (concat (map g_data gs))" if "j \<in> set (concat (map g_data gs))"
  proof -
    from that obtain h where "h \<in> set gs" "j \<in> set (g_data h)" by auto
    then show ?thesis using Cons.prems(2) cyc_next_in[of "g_data h" j] by (auto simp: cycle_of_def)
  qed
  show ?case
  proof (cases "j \<in> set (concat (map g_data gs))")
    case True
    with cyc d(2) have "p ! j \<notin> set (g_data g)" by blast
    then show ?thesis using True IH by auto
  next
    case False
    then show ?thesis using IH Cons.prems(2) by (auto simp: cycle_of_def)
  qed
qed simp

lemma cycles_perm_ok:
  assumes "\<forall>g \<in> set gs. cycle_of p (g_data g)" and "set (concat (map g_data gs)) = {..<n}"
  shows "\<forall>g \<in> set gs. perm_ok n g"
  using assms by (auto simp: perm_ok_def cycle_of_def)

section \<open>Properties\<close>

text \<open>
  C16. Permuting by a group: \<^verbatim>\<open>dm_permute_cols\<close> and \<^verbatim>\<open>dm_permute_rows\<close> with a group of distinct
  indices shift the columns (rows) cyclically along the group, keep the header a permutation with
  its inverse and the counts exact, and \<^verbatim>\<open>dm_permute_cols\<close> drops the cached first and last columns,
  so that \<^verbatim>\<open>dm_first\<close> and \<^verbatim>\<open>dm_last\<close> are exact afterwards.
\<close>

theorem dm_permute_cyclic:
  assumes "dm_wf m" and "perm_ok (cols m) g" and "perm_ok (rows m) h" and "i < rows m" and "j < cols m"
  shows "dm_wf (dm_permute_cols m g) \<and> row_cache_ok (dm_permute_cols m g) \<and> dm_wf (dm_permute_rows m h)
    \<and> dm_is_set (dm_permute_cols m g) i j = dm_is_set m i (cyc_next (g_data g) j)
    \<and> dm_is_set (dm_permute_rows m h) i j = dm_is_set m (cyc_next (g_data h) i) j
    \<and> dm_ones_in_col (dm_permute_cols m g) j = dm_ones_in_col m (cyc_next (g_data g) j)
    \<and> dm_ones_in_row (dm_permute_rows m h) i = dm_ones_in_row m (cyc_next (g_data h) i)
    \<and> fst (dm_first (dm_permute_cols m g) i) = first_col (dm_permute_cols m g) i"
  using permute_cols_wf[OF assms(1,2)] permute_rows_wf[OF assms(1,3)] assms(4,5)
    dm_first_ok(1)[of "dm_permute_cols m g" i] by simp

theorem dm_permute_cyclic_witness:
  "dm_is_set (dm_permute_cols (dm_create 2 3) \<lparr>g_data_size = 3, g_fixed_size = True, g_data = [0, 2, 1]\<rparr>) 1 0
    = dm_is_set (dm_create 2 3) 1 2"
proof -
  have g: "perm_ok (cols (dm_create 2 3)) \<lparr>g_data_size = 3, g_fixed_size = True, g_data = [0, 2, 1]\<rparr>"
    and h: "perm_ok (rows (dm_create 2 3)) \<lparr>g_data_size = 2, g_fixed_size = True, g_data = [1, 0]\<rparr>"
    by (simp_all add: perm_ok_def)
  show ?thesis
    using dm_permute_cyclic[OF demo_dm_wf g h, of 1 0] by (simp add: cyc_next_def)
qed

text \<open>
  C40. Swaps and flips: \<^verbatim>\<open>dm_swap_rows\<close> and \<^verbatim>\<open>dm_swap_cols\<close> never fail on rows and columns of the
  matrix and exchange exactly the two named lines (also when they are the same line), and
  \<^verbatim>\<open>dm_horizontal_flip\<close> and \<^verbatim>\<open>dm_vertical_flip\<close> reverse the order of the rows and of the columns.
\<close>

theorem dm_swap_flip_correct:
  assumes "dm_wf m" and "a < rows m" and "b < rows m" and "c < cols m" and "d < cols m"
  shows "(\<exists>m'. dm_swap_rows m a b = Inr m' \<and> dm_wf m'
        \<and> (\<forall>i < rows m. \<forall>j. dm_is_set m' i j = dm_is_set m (swapped a b i) j))
    \<and> (\<exists>m'. dm_swap_cols m c d = Inr m' \<and> dm_wf m'
        \<and> (\<forall>j < cols m. \<forall>i. dm_is_set m' i j = dm_is_set m i (swapped c d j)))
    \<and> (\<exists>m'. dm_horizontal_flip m = Inr m' \<and> dm_wf m'
        \<and> (\<forall>i < rows m. \<forall>j. dm_is_set m' i j = dm_is_set m (rows m - 1 - i) j))
    \<and> (\<exists>m'. dm_vertical_flip m = Inr m' \<and> dm_wf m'
        \<and> (\<forall>j < cols m. \<forall>i. dm_is_set m' i j = dm_is_set m i (cols m - 1 - j)))"
  using dm_swap_rows_ok[OF assms(1-3)] dm_swap_cols_ok[OF assms(1,4,5)]
    dm_horizontal_flip_ok[OF assms(1)] dm_vertical_flip_ok[OF assms(1)] by blast

theorem dm_swap_flip_correct_witness:
  "(\<exists>m'. dm_swap_cols (dm_set (dm_create 2 3) 1 0) 0 2 = Inr m' \<and> dm_wf m' \<and> dm_is_set m' 1 2)
    \<and> (\<exists>m'. dm_horizontal_flip (dm_set (dm_create 2 3) 1 0) = Inr m' \<and> dm_wf m' \<and> dm_is_set m' 0 0)"
proof -
  let ?m = "dm_set (dm_create 2 3) 1 0"
  have wf: "dm_wf ?m" using set_dm_wf(1)[OF demo_dm_wf, of 1 0] by simp
  have d: "rows ?m = 2" "cols ?m = 3" "dm_is_set ?m 1 0" by (unfold demo_create, code_simp+)
  show ?thesis using dm_swap_flip_correct[OF wf, of 0 1 0 2] d by (auto simp: swapped_def)
qed

text \<open>
  C17. From a permutation to groups: \<^verbatim>\<open>dm_create_permutation_groups\<close> never fails on a permutation
  \<open>p\<close> of the columns; its groups are disjoint cycles of \<open>p\<close> that cover every column once, and
  permuting the columns by one group after the other moves column \<open>p ! j\<close> to place \<open>j\<close>.
\<close>

theorem dm_create_permutation_groups_correct:
  assumes "dm_wf m" and "is_perm p (cols m)"
  shows "\<exists>groups. dm_create_permutation_groups p (cols m) = Inr groups
    \<and> (\<forall>g \<in> set groups. cycle_of p (g_data g)) \<and> distinct (concat (map g_data groups))
    \<and> set (concat (map g_data groups)) = {..<cols m}
    \<and> (\<forall>i. \<forall>j < cols m. dm_is_set (dm_permute_cols_all m groups) i j = dm_is_set m i (p ! j))"
proof -
  from create_permutation_groups_correct[OF assms(2)] obtain gs where gs:
    "dm_create_permutation_groups p (cols m) = Inr gs" "\<forall>g \<in> set gs. cycle_of p (g_data g)"
    "distinct (concat (map g_data gs))" "set (concat (map g_data gs)) = {..<cols m}" by auto
  have "foldr (\<lambda>g. cyc_next (g_data g)) gs j = p ! j" if "j < cols m" for j
    unfolding disjoint_cycles_compose[OF gs(3,2)] gs(4) using that by simp
  then have "dm_is_set (dm_permute_cols_all m gs) i j = dm_is_set m i (p ! j)" if "j < cols m" for i j
    using permute_all_wf(1)[OF assms(1) cycles_perm_ok[OF gs(2,4)] that] that by simp
  with gs show ?thesis by blast
qed

theorem dm_create_permutation_groups_correct_witness:
  "\<exists>groups. dm_create_permutation_groups [2, 0, 1] 3 = Inr groups
    \<and> (\<forall>i. \<forall>j < 3. dm_is_set (dm_permute_cols_all (dm_create 2 3) groups) i j
        = dm_is_set (dm_create 2 3) i ([2, 0, 1] ! j))"
proof -
  have "is_perm [2, 0, 1] (cols (dm_create 2 3))" by (simp add: is_perm_def)
  from dm_create_permutation_groups_correct[OF demo_dm_wf this] show ?thesis by auto
qed

text \<open>
  The row cache after a permutation: \<^verbatim>\<open>dm_set\<close> compares and stores physical columns while
  \<^verbatim>\<open>dm_first\<close> caches logical ones. After swapping columns 0 and 2, setting entry (0, 1), asking
  for the first column of row 0 and then setting entry (0, 2), \<^verbatim>\<open>dm_first\<close> reports column 0,
  which is not set.
\<close>

theorem dm_first_wrong_after_swap:
  "case dm_swap_cols (dm_create 2 3) 0 2 of Inl e \<Rightarrow> False
   | Inr m0 \<Rightarrow> let m = dm_set (snd (dm_first (dm_set m0 0 1) 0)) 0 2
      in fst (dm_first m 0) = 0 \<and> \<not> dm_is_set m 0 0 \<and> dm_is_set m 0 1 \<and> dm_is_set m 0 2"
  unfolding demo_create by code_simp

end
