(* ===== verification/Dm_Sort.thy ===== *)
theory Dm_Sort
  imports Dm_Perm "HOL-Library.List_Lexorder"
begin

text \<open>
  The heapsort of the dependency matrix (\<^verbatim>\<open>sift_down_\<close>, \<^verbatim>\<open>sort_\<close>, \<^verbatim>\<open>dm_sort_rows\<close> and
  \<^verbatim>\<open>dm_sort_cols\<close> of \<^verbatim>\<open>src/src/dm/dm.c\<close>) and the comparators that the regrouping layer gives it
  (\<^verbatim>\<open>src/src/pins-lib/pins2pins-group.c\<close>). The sort sees its array only through a comparator and a
  swap, so its correctness is proved once over their contracts: the locale \<open>swappable\<close> has only the
  law of the swap and gives that the sort ends with a permutation of the array whatever the
  comparator answers; \<open>sortable\<close> adds the law of the comparator and gives the order. Both are
  interpreted on the rows and on the columns, \<open>sortable\<close> with each comparator.

  \<^verbatim>\<open>write_before_read\<close> and \<^verbatim>\<open>read_before_write\<close> add up indices in an \<^verbatim>\<open>int\<close>, and the model keeps the
  sums at that width (\<open>int32\<close>). They meet the law of the comparator up to 65536 columns (rows),
  since \<open>65536 * 65535 / 2\<close> is below \<open>2 ^ 31\<close>; beyond that the sums can wrap and the order is lost
  (\<open>write_before_read_wraps\<close>).
\<close>

section \<open>Model\<close>

lemma result_bind_cong [fundef_cong]:
  "r = r' \<Longrightarrow> (\<And>x. r' = Inr x \<Longrightarrow> f x = g x) \<Longrightarrow> result_bind r f = result_bind r' g"
  by (cases r') auto

text \<open>\<^verbatim>\<open>bottom\<close> is the last index of the heap and may be \<open>-1\<close>.\<close>

function sift_down ::
  "('s \<Rightarrow> nat \<Rightarrow> nat \<Rightarrow> int) \<Rightarrow> ('s \<Rightarrow> nat \<Rightarrow> nat \<Rightarrow> 's result) \<Rightarrow> 's \<Rightarrow> nat \<Rightarrow> int \<Rightarrow> 's result" where
  "sift_down cmp dm_swap_fn m root bottom =
     (if int (root * 2 + 1) \<le> bottom
      then let child = root * 2 + 1;
               child = (if int (child + 1) \<le> bottom \<and> cmp m child (child + 1) < 0
                        then child + 1 else child)
           in if cmp m root child < 0
              then result_bind (dm_swap_fn m root child)
                     (\<lambda>m. sift_down cmp dm_swap_fn m child bottom)
              else Inr m
      else Inr m)"
  by pat_completeness auto
termination
  by (relation "measure (\<lambda>(cmp, swap, m, root, bottom). nat (bottom + 1 - int root))")
    (auto split: if_splits)

declare sift_down.simps [simp del]

definition dm_sort ::
  "('s \<Rightarrow> nat \<Rightarrow> nat \<Rightarrow> int) \<Rightarrow> ('s \<Rightarrow> nat \<Rightarrow> nat \<Rightarrow> 's result) \<Rightarrow> nat \<Rightarrow> 's \<Rightarrow> 's result" where
  "dm_sort cmp dm_swap_fn sz m =
     result_bind
       (fold_result (\<lambda>i m. sift_down cmp dm_swap_fn m i (int sz - 1)) (rev [0..<sz div 2]) m)
       (fold_result (\<lambda>i m. result_bind (dm_swap_fn m i 0)
          (\<lambda>m. sift_down cmp dm_swap_fn m 0 (int i - 1))) (rev [0..<sz]))"

definition dm_sort_rows :: "matrix \<Rightarrow> (matrix \<Rightarrow> nat \<Rightarrow> nat \<Rightarrow> int) \<Rightarrow> matrix result" where
  "dm_sort_rows m cmp = dm_sort cmp dm_swap_rows (dm_nrows m) m"

definition dm_sort_cols :: "matrix \<Rightarrow> (matrix \<Rightarrow> nat \<Rightarrow> nat \<Rightarrow> int) \<Rightarrow> matrix result" where
  "dm_sort_cols m cmp = dm_sort cmp dm_swap_cols (dm_ncols m) m"

text \<open>The comparators. \<^verbatim>\<open>raw\<close> and \<^verbatim>\<open>rbw\<close> are the truth values of the two entries as 0 or 1.\<close>

definition max_row_first :: "matrix \<Rightarrow> nat \<Rightarrow> nat \<Rightarrow> int" where
  "max_row_first m rowa rowb =
     (case first_from (\<lambda>i. dm_is_set m rowa i \<noteq> dm_is_set m rowb i) 0 (dm_ncols m) of
        None \<Rightarrow> 0
      | Some i \<Rightarrow> of_bool (dm_is_set m rowb i) - of_bool (dm_is_set m rowa i))"

definition max_col_first :: "matrix \<Rightarrow> nat \<Rightarrow> nat \<Rightarrow> int" where
  "max_col_first m cola colb =
     (case first_from (\<lambda>i. dm_is_set m i cola \<noteq> dm_is_set m i colb) 0 (dm_nrows m) of
        None \<Rightarrow> 0
      | Some i \<Rightarrow> of_bool (dm_is_set m i colb) - of_bool (dm_is_set m i cola))"

definition write_before_read :: "matrix \<Rightarrow> nat \<Rightarrow> nat \<Rightarrow> int" where
  "write_before_read m rowa rowb =
     (let (ra, rb) = fold (\<lambda>i (ra, rb). (if dm_is_set m rowa i then int32 (ra + int i) else ra,
            if dm_is_set m rowb i then int32 (rb + int i) else rb)) [0..<dm_ncols m] (0, 0)
      in int32 (rb - ra))"

definition read_before_write :: "matrix \<Rightarrow> nat \<Rightarrow> nat \<Rightarrow> int" where
  "read_before_write m cola colb =
     (let (ca, cb) = fold (\<lambda>i (ca, cb). (if dm_is_set m i cola then int32 (ca + int i) else ca,
            if dm_is_set m i colb then int32 (cb + int i) else cb)) [0..<dm_nrows m] (0, 0)
      in int32 (cb - ca))"

section \<open>Rearrangements\<close>

text \<open>
  \<open>rearr sz n f g\<close>: the array \<open>g\<close> of size \<open>sz\<close> is \<open>f\<close> with its first \<open>n\<close> places permuted.
\<close>

definition rearr :: "nat \<Rightarrow> nat \<Rightarrow> (nat \<Rightarrow> 'a) \<Rightarrow> (nat \<Rightarrow> 'a) \<Rightarrow> bool" where
  "rearr sz n f g \<longleftrightarrow> (\<exists>p. bij_betw p {..<n} {..<n} \<and> (\<forall>k < n. g k = f (p k))
     \<and> (\<forall>k. n \<le> k \<and> k < sz \<longrightarrow> g k = f k))"

lemma rearr_refl [simp]: "rearr sz n f f"
  unfolding rearr_def by (rule exI[of _ id]) (simp add: bij_betw_def)

lemma rearr_trans:
  assumes "rearr sz n f g" and "rearr sz n g h"
  shows "rearr sz n f h"
proof -
  from assms obtain p q where p: "bij_betw p {..<n} {..<n}" "\<forall>k < n. g k = f (p k)"
    "\<forall>k. n \<le> k \<and> k < sz \<longrightarrow> g k = f k"
    and q: "bij_betw q {..<n} {..<n}" "\<forall>k < n. h k = g (q k)" "\<forall>k. n \<le> k \<and> k < sz \<longrightarrow> h k = g k"
    unfolding rearr_def by blast
  have "q k < n" if "k < n" for k using q(1) that by (metis bij_betwE lessThan_iff)
  then show ?thesis
    unfolding rearr_def using p q bij_betw_trans[OF q(1) p(1)]
    by (intro exI[of _ "p \<circ> q"]) auto
qed

lemma rearr_swap:
  assumes "i < n" and "j < n" and "n \<le> sz" and "\<forall>k < sz. g k = f (swapped i j k)"
  shows "rearr sz n f g"
proof -
  have "bij_betw (swapped i j) {..<n} {..<n}"
    using assms(1,2) by (intro bij_betw_byWitness[where f' = "swapped i j"]) (auto simp: swapped_def)
  with assms show ?thesis
    unfolding rearr_def by (intro exI[of _ "swapped i j"]) (auto simp: swapped_def)
qed

lemma rearr_mono:
  assumes "rearr sz n f g" and "n \<le> m" and "m \<le> sz"
  shows "rearr sz m f g"
proof -
  from assms(1) obtain p where p: "bij_betw p {..<n} {..<n}" "\<forall>k < n. g k = f (p k)"
    "\<forall>k. n \<le> k \<and> k < sz \<longrightarrow> g k = f k" unfolding rearr_def by blast
  have "bij_betw (\<lambda>k. if k < n then p k else k) {n..<m} {n..<m}"
    by (rule bij_betw_cong[THEN iffD1, OF _ bij_betw_id]) auto
  moreover have "bij_betw (\<lambda>k. if k < n then p k else k) {..<n} {..<n}"
    by (rule bij_betw_cong[THEN iffD1, OF _ p(1)]) auto
  ultimately have "bij_betw (\<lambda>k. if k < n then p k else k) ({..<n} \<union> {n..<m}) ({..<n} \<union> {n..<m})"
    by (intro bij_betw_combine) auto
  moreover have "{..<n} \<union> {n..<m} = {..<m}" using assms(2) by auto
  ultimately show ?thesis
    unfolding rearr_def using p assms by (intro exI[of _ "\<lambda>k. if k < n then p k else k"]) auto
qed

lemma rearr_ball: "rearr sz n f g \<Longrightarrow> \<forall>k < n. P (f k) \<Longrightarrow> \<forall>k < n. P (g k)"
  unfolding rearr_def by (metis bij_betwE lessThan_iff)

section \<open>Heapsort over an abstract array\<close>

text \<open>
  The contract of the swap: \<open>dm_swap_fn\<close> exchanges two items of the array. The sort then ends
  without error and only rearranges the items, with any comparator at all.
\<close>

locale swappable =
  fixes inv :: "'s \<Rightarrow> bool"
    and sz :: nat
    and item :: "'s \<Rightarrow> nat \<Rightarrow> 'a"
    and swap :: "'s \<Rightarrow> nat \<Rightarrow> nat \<Rightarrow> 's result"
  assumes swap_ok: "inv s \<Longrightarrow> i < sz \<Longrightarrow> j < sz \<Longrightarrow>
      \<exists>s'. swap s i j = Inr s' \<and> inv s' \<and> (\<forall>k < sz. item s' k = item s (swapped i j k))"
begin

lemma swap_rearr:
  assumes "inv s" and "i < sz" and "j < sz"
  shows "\<exists>s'. swap s i j = Inr s' \<and> inv s' \<and> rearr sz sz (item s) (item s')"
  using swap_ok[OF assms] rearr_swap[OF assms(2,3) order_refl] by metis

lemma sift_down_rearr:
  assumes "inv s" and "b < int sz"
  shows "\<exists>s'. sift_down cmp swap s r b = Inr s' \<and> inv s' \<and> rearr sz sz (item s) (item s')"
  using assms
proof (induction "nat (b + 1 - int r)" arbitrary: s r rule: less_induct)
  case less
  define c where "c = (if int (r * 2 + 2) \<le> b \<and> cmp s (r * 2 + 1) (r * 2 + 2) < 0 then r * 2 + 2 else r * 2 + 1)"
  show ?case
  proof (cases "int (r * 2 + 1) \<le> b \<and> cmp s r c < 0")
    case False
    then show ?thesis using less.prems(1) by (subst sift_down.simps) (auto simp: c_def Let_def)
  next
    case True
    then have c: "r < c" "c < sz" "int c \<le> b" using less.prems(2) by (auto simp: c_def split: if_splits)
    obtain s1 where s1: "swap s r c = Inr s1" "inv s1" "rearr sz sz (item s) (item s1)"
      using swap_rearr[OF less.prems(1), of r c] c by auto
    have "sift_down cmp swap s r b = sift_down cmp swap s1 c b"
      using True s1(1) by (subst sift_down.simps) (auto simp: c_def Let_def)
    moreover have "nat (b + 1 - int c) < nat (b + 1 - int r)" using c by simp
    ultimately show ?thesis
      using less.hyps[of c s1] s1 less.prems(2) by (auto intro: rearr_trans)
  qed
qed

lemma fold_rearr:
  assumes "inv s"
    and step: "\<And>t i. inv t \<Longrightarrow> i \<in> set xs \<Longrightarrow> \<exists>t'. f i t = Inr t' \<and> inv t' \<and> rearr sz sz (item t) (item t')"
  shows "\<exists>s'. fold_result f xs s = Inr s' \<and> inv s' \<and> rearr sz sz (item s) (item s')"
proof -
  let ?P = "\<lambda>k t. inv t \<and> rearr sz sz (item s) (item t)"
  have "\<exists>s'. fold_result f xs s = Inr s' \<and> ?P (length xs) s'"
  proof (rule fold_result_invariant)
    show "?P 0 s" using assms(1) by simp
    fix k t assume "k < length xs" and "?P k t"
    then show "\<exists>s'. f (xs ! k) t = Inr s' \<and> ?P (Suc k) s'"
      using step[of t "xs ! k"] by (auto intro: rearr_trans)
  qed
  then show ?thesis .
qed

lemma dm_sort_rearr:
  assumes "inv s"
  shows "\<exists>s'. dm_sort cmp swap sz s = Inr s' \<and> inv s' \<and> rearr sz sz (item s) (item s')"
proof -
  obtain s1 where s1: "fold_result (\<lambda>i m. sift_down cmp swap m i (int sz - 1)) (rev [0..<sz div 2]) s = Inr s1"
    "inv s1" "rearr sz sz (item s) (item s1)"
    using fold_rearr[OF assms, of "rev [0..<sz div 2]"] sift_down_rearr[of _ "int sz - 1"] by fastforce
  let ?f = "\<lambda>i m. result_bind (swap m i 0) (\<lambda>m. sift_down cmp swap m 0 (int i - 1))"
  have "\<exists>t'. ?f i t = Inr t' \<and> inv t' \<and> rearr sz sz (item t) (item t')" if t: "inv t" "i < sz" for t i
  proof -
    obtain t1 where t1: "swap t i 0 = Inr t1" "inv t1" "rearr sz sz (item t) (item t1)"
      using swap_rearr[OF t, of 0] t(2) by auto
    with sift_down_rearr[OF t1(2), of "int i - 1" cmp 0] t(2) show ?thesis by (auto intro: rearr_trans)
  qed
  then obtain s' where "fold_result ?f (rev [0..<sz]) s1 = Inr s'" "inv s'" "rearr sz sz (item s1) (item s')"
    using fold_rearr[OF s1(2), of "rev [0..<sz]" ?f] by auto
  with s1 show ?thesis by (auto simp: dm_sort_def intro: rearr_trans)
qed

end

text \<open>The contract of the comparator: it is negative exactly when the key of the first item is smaller.\<close>

locale sortable = swappable inv sz item swap
  for inv :: "'s \<Rightarrow> bool"
    and sz :: nat
    and item :: "'s \<Rightarrow> nat \<Rightarrow> 'a"
    and swap :: "'s \<Rightarrow> nat \<Rightarrow> nat \<Rightarrow> 's result" +
  fixes key :: "'a \<Rightarrow> 'k::linorder"
    and cmp :: "'s \<Rightarrow> nat \<Rightarrow> nat \<Rightarrow> int"
  assumes cmp_less: "inv s \<Longrightarrow> i < sz \<Longrightarrow> j < sz \<Longrightarrow> cmp s i j < 0 \<longleftrightarrow> key (item s i) < key (item s j)"
begin

definition val :: "'s \<Rightarrow> nat \<Rightarrow> 'k" where
  "val s k = key (item s k)"

definition child_of :: "nat \<Rightarrow> nat \<Rightarrow> bool" where
  "child_of c k \<longleftrightarrow> c = 2 * k + 1 \<or> c = 2 * k + 2"

text \<open>The heap order holds from place \<open>lo\<close> on, except below the place \<open>r\<close>.\<close>

definition heap_but :: "'s \<Rightarrow> nat \<Rightarrow> nat \<Rightarrow> nat \<Rightarrow> bool" where
  "heap_but s lo n r \<longleftrightarrow>
     (\<forall>k c. lo \<le> k \<and> k \<noteq> r \<and> child_of c k \<and> c < n \<longrightarrow> val s c \<le> val s k)
   \<and> (\<forall>k c. lo \<le> k \<and> child_of r k \<and> child_of c r \<and> c < n \<longrightarrow> val s c \<le> val s k)"

definition heap :: "'s \<Rightarrow> nat \<Rightarrow> nat \<Rightarrow> bool" where
  "heap s lo n \<longleftrightarrow> (\<forall>k c. lo \<le> k \<and> child_of c k \<and> c < n \<longrightarrow> val s c \<le> val s k)"

lemma child_of_parent: "child_of c k \<longleftrightarrow> c \<noteq> 0 \<and> k = (c - 1) div 2"
  unfolding child_of_def by auto

lemma heap_top:
  assumes "heap s 0 n" and "k < n"
  shows "val s k \<le> val s 0"
  using assms(2)
proof (induction k rule: less_induct)
  case (less k)
  show ?case
  proof (cases "k = 0")
    case False
    let ?p = "(k - 1) div 2"
    have "child_of k ?p" using False by (simp add: child_of_parent)
    then have "val s k \<le> val s ?p" using assms(1) less.prems by (auto simp: heap_def)
    also have "\<dots> \<le> val s 0" using less False by simp
    finally show ?thesis .
  qed simp
qed

lemma sift_step:
  assumes "heap_but s lo n r" and "lo \<le> r" and "child_of c r" and "c < n"
    and max: "\<And>d. child_of d r \<Longrightarrow> d < n \<Longrightarrow> val s d \<le> val s c" and less: "val s r < val s c"
    and sw: "\<And>k. k < n \<Longrightarrow> val s' k = val s (swapped r c k)" and "r < n"
  shows "heap_but s' lo n c"
  unfolding heap_but_def
proof (intro conjI allI impI, elim conjE)
  fix k d assume k: "lo \<le> k" "k \<noteq> c" "child_of d k" "d < n"
  have "k < n" using k by (auto simp: child_of_def)
  show "val s' d \<le> val s' k"
  proof (cases "k = r")
    case True
    have "val s' k = val s c" using True sw assms(4,8) by (simp add: swapped_def)
    moreover have "val s' d = (if d = c then val s r else val s d)"
      using True k sw by (auto simp: swapped_def child_of_def)
    ultimately show ?thesis using max[of d] k True less by auto
  next
    case False
    have vk: "val s' k = val s k" using False k sw[OF \<open>k < n\<close>] by (simp add: swapped_def)
    show ?thesis
    proof (cases "d = r")
      case True
      then have "val s' d = val s c" using sw assms(8) by (simp add: swapped_def)
      moreover have "val s c \<le> val s k" using assms(1,3,4) k True by (auto simp: heap_but_def)
      ultimately show ?thesis using vk by simp
    next
      case dr: False
      have "d \<noteq> c" using False k(3) assms(3) by (auto simp: child_of_parent)
      then have "val s' d = val s d" using dr sw[OF k(4)] by (simp add: swapped_def)
      moreover have "val s d \<le> val s k" using assms(1) k False by (auto simp: heap_but_def)
      ultimately show ?thesis using vk by simp
    qed
  qed
next
  fix k d assume k: "lo \<le> k \<and> child_of c k \<and> child_of d c \<and> d < n"
  then have kr: "k = r" using assms(3) by (auto simp: child_of_parent)
  have "c \<noteq> r" "d \<noteq> c" "d \<noteq> r" using k assms(3) by (auto simp: child_of_def)
  then have "val s' k = val s c" "val s' d = val s d" using kr sw assms(8) k by (auto simp: swapped_def)
  moreover have "val s d \<le> val s c" using assms(1,2,3) k \<open>c \<noteq> r\<close>
    by (auto simp: heap_but_def child_of_def)
  ultimately show "val s' d \<le> val s' k" by simp
qed

lemma sift_done:
  assumes "heap_but s lo n r" and "\<And>d. child_of d r \<Longrightarrow> d < n \<Longrightarrow> val s d \<le> val s r"
  shows "heap s lo n"
  using assms unfolding heap_def heap_but_def by metis

lemma swap_val:
  assumes "inv s" and "i < sz" and "j < sz"
  shows "\<exists>s'. swap s i j = Inr s' \<and> inv s' \<and> (\<forall>k < sz. item s' k = item s (swapped i j k))
    \<and> (\<forall>k < sz. val s' k = val s (swapped i j k))"
  using swap_ok[OF assms] by (auto simp: val_def)

lemma sift_down_correct:
  assumes "inv s" and "n \<le> sz" and "heap_but s lo n r" and "lo \<le> r" and "b = int n - 1"
  shows "\<exists>s'. sift_down cmp swap s r b = Inr s' \<and> inv s' \<and> heap s' lo n \<and> rearr sz n (item s) (item s')"
  using assms
proof (induction "n - r" arbitrary: s r rule: less_induct)
  case less
  note IH = less.hyps and prems = less.prems
  show ?case
  proof (cases "2 * r + 1 < n")
    case False
    then have "heap s lo n" using sift_done[OF prems(3)] by (auto simp: child_of_def)
    with False prems show ?thesis by (subst sift_down.simps) auto
  next
    case True
    define c where "c = (if r * 2 + 2 < n \<and> cmp s (r * 2 + 1) (r * 2 + 2) < 0 then r * 2 + 2 else r * 2 + 1)"
    have c: "child_of c r" "c < n" "r < c" using True by (auto simp: c_def child_of_def)
    have less: "cmp s i j < 0 \<longleftrightarrow> val s i < val s j" if "i < n" "j < n" for i j
      using cmp_less[OF prems(1), of i j] that prems(2) by (simp add: val_def)
    have max: "val s d \<le> val s c" if "child_of d r" "d < n" for d
      using that less[of "r * 2 + 1" "r * 2 + 2"] True
      by (auto simp: c_def child_of_def mult.commute split: if_splits)
    have unf: "sift_down cmp swap s r b = (if cmp s r c < 0
        then result_bind (swap s r c) (\<lambda>m. sift_down cmp swap m c b) else Inr s)"
      using True prems(5) by (subst sift_down.simps) (auto simp: c_def Let_def)
    show ?thesis
    proof (cases "cmp s r c < 0")
      case False
      then have "heap s lo n" using sift_done[OF prems(3)] max less[of r c] c by force
      with False prems(1) unf show ?thesis by auto
    next
      case lt: True
      obtain s1 where s1: "swap s r c = Inr s1" "inv s1"
        "\<forall>k < sz. item s1 k = item s (swapped r c k)" "\<forall>k < sz. val s1 k = val s (swapped r c k)"
        using swap_val[OF prems(1), of r c] c prems(2) by auto
      have "heap_but s1 lo n c"
        by (rule sift_step[OF prems(3,4) c(1,2) max]) (use lt less c s1 prems(2) in auto)
      then obtain s' where "sift_down cmp swap s1 c b = Inr s'" "inv s'" "heap s' lo n"
        "rearr sz n (item s1) (item s')"
        using IH[OF diff_less_mono2[OF c(3) less_trans[OF c(3,2)]], of s1] s1 prems c by auto
      moreover have "rearr sz n (item s) (item s1)"
        by (rule rearr_swap[of r _ c]) (use c prems(2) s1 in auto)
      ultimately show ?thesis using unf lt s1 by (auto intro: rearr_trans)
    qed
  qed
qed

lemma heap_extend: "heap s (Suc lo) n \<Longrightarrow> heap_but s lo n lo"
proof -
  assume h: "heap s (Suc lo) n"
  have "Suc lo \<le> k" if "lo \<le> k" "k \<noteq> lo" for k using that by simp
  then show ?thesis using h unfolding heap_def heap_but_def by (auto simp: child_of_def)
qed

lemma build_heap:
  assumes "inv s"
  shows "\<exists>s'. fold_result (\<lambda>i m. sift_down cmp swap m i (int sz - 1)) (rev [0..<sz div 2]) s = Inr s'
    \<and> inv s' \<and> heap s' 0 sz \<and> rearr sz sz (item s) (item s')"
proof -
  let ?xs = "rev [0..<sz div 2]"
  let ?P = "\<lambda>k t. inv t \<and> heap t (sz div 2 - k) sz \<and> rearr sz sz (item s) (item t)"
  have "\<exists>s'. fold_result (\<lambda>i m. sift_down cmp swap m i (int sz - 1)) ?xs s = Inr s' \<and> ?P (length ?xs) s'"
  proof (rule fold_result_invariant)
    show "?P 0 s" using assms by (auto simp: heap_def child_of_def)
    fix k t assume k: "k < length ?xs" and P: "?P k t"
    then have x: "?xs ! k = sz div 2 - Suc k" by (simp add: rev_nth)
    have "Suc (sz div 2 - Suc k) = sz div 2 - k" using k by simp
    then have "heap_but t (sz div 2 - Suc k) sz (sz div 2 - Suc k)"
      using P heap_extend by metis
    from sift_down_correct[OF _ order_refl this order_refl refl] P obtain t' where
      "sift_down cmp swap t (sz div 2 - Suc k) (int sz - 1) = Inr t'" "inv t'"
      "heap t' (sz div 2 - Suc k) sz" "rearr sz sz (item t) (item t')" by blast
    with P show "\<exists>s'. sift_down cmp swap t (?xs ! k) (int sz - 1) = Inr s' \<and> ?P (Suc k) s'"
      unfolding x by (blast intro: rearr_trans)
  qed
  then show ?thesis by auto
qed

text \<open>After \<open>sz - n\<close> rounds the places from \<open>n\<close> on are sorted and bound the heap below.\<close>

definition sorted_from :: "'s \<Rightarrow> nat \<Rightarrow> bool" where
  "sorted_from s n \<longleftrightarrow> (\<forall>i j. n \<le> j \<and> i \<le> j \<and> j < sz \<longrightarrow> val s i \<le> val s j)"

lemma extract_max:
  assumes "inv s" and "heap s 0 (Suc n)" and "sorted_from s (Suc n)" and "n < sz"
  shows "\<exists>s'. result_bind (swap s n 0) (\<lambda>m. sift_down cmp swap m 0 (int n - 1)) = Inr s'
    \<and> inv s' \<and> heap s' 0 n \<and> sorted_from s' n \<and> rearr sz sz (item s) (item s')"
proof -
  obtain s1 where s1: "swap s n 0 = Inr s1" "inv s1"
    "\<forall>k < sz. item s1 k = item s (swapped n 0 k)" "\<forall>k < sz. val s1 k = val s (swapped n 0 k)"
    using swap_val[OF assms(1), of n 0] assms(4) by auto
  have same: "val s1 k = val s k" if "k < sz" "k \<noteq> n" "k \<noteq> 0" for k using that s1(4) by (simp add: swapped_def)
  have "heap_but s1 0 n 0"
    unfolding heap_but_def using assms(2,4) same by (auto simp: heap_def child_of_def)
  from sift_down_correct[OF s1(2) _ this _ refl] assms(4) obtain s' where s':
    "sift_down cmp swap s1 0 (int n - 1) = Inr s'" "inv s'" "heap s' 0 n" "rearr sz n (item s1) (item s')"
    by auto
  have r1: "rearr sz (Suc n) (item s) (item s1)"
    by (rule rearr_swap[of n _ 0]) (use assms(4) s1 in auto)
  have r2: "rearr sz (Suc n) (item s1) (item s')" using rearr_mono[OF s'(4), of "Suc n"] assms(4) by simp
  note r = rearr_trans[OF r1 r2]
  have top: "val s k \<le> val s 0" if "k < Suc n" for k using heap_top[OF assms(2) that] .
  have n': "val s' n = val s 0"
    using s'(4) assms(4) s1(4) unfolding rearr_def val_def by (auto simp: swapped_def)
  have low: "\<forall>k < Suc n. key (item s' k) \<le> val s j" if "Suc n \<le> j" "j < sz" for j
    by (rule rearr_ball[OF r]) (use assms(3) that in \<open>auto simp: sorted_from_def val_def\<close>)
  have low0: "\<forall>k < Suc n. key (item s' k) \<le> val s 0"
    by (rule rearr_ball[OF r]) (use top in \<open>auto simp: val_def\<close>)
  have high: "val s' j = val s j" if "Suc n \<le> j" "j < sz" for j
    using r that unfolding rearr_def val_def by auto
  have "sorted_from s' n"
    unfolding sorted_from_def
  proof (intro allI impI)
    fix i j assume ij: "n \<le> j \<and> i \<le> j \<and> j < sz"
    consider "j = n" | "Suc n \<le> j" "i \<le> n" | "Suc n \<le> j" "Suc n \<le> i" using ij by linarith
    then show "val s' i \<le> val s' j"
    proof cases
      case 1 then show ?thesis using low0 n' ij by (simp add: val_def)
    next
      case 2 then show ?thesis using low[of j] high[of j] ij by (simp add: val_def)
    next
      case 3 then show ?thesis using high ij assms(3) by (auto simp: sorted_from_def)
    qed
  qed
  moreover have "rearr sz sz (item s) (item s')" using rearr_mono[OF r] assms(4) by simp
  ultimately show ?thesis using s1(1) s' by simp
qed

lemma dm_sort_correct:
  assumes "inv s"
  shows "\<exists>s'. dm_sort cmp swap sz s = Inr s' \<and> inv s' \<and> rearr sz sz (item s) (item s')
    \<and> (\<forall>i j. i \<le> j \<and> j < sz \<longrightarrow> key (item s' i) \<le> key (item s' j))"
proof -
  obtain s1 where s1: "fold_result (\<lambda>i m. sift_down cmp swap m i (int sz - 1)) (rev [0..<sz div 2]) s = Inr s1"
    "inv s1" "heap s1 0 sz" "rearr sz sz (item s) (item s1)" using build_heap[OF assms] by blast
  let ?f = "\<lambda>i m. result_bind (swap m i 0) (\<lambda>m. sift_down cmp swap m 0 (int i - 1))"
  let ?P = "\<lambda>k t. inv t \<and> heap t 0 (sz - k) \<and> sorted_from t (sz - k) \<and> rearr sz sz (item s) (item t)"
  have "\<exists>s'. fold_result ?f (rev [0..<sz]) s1 = Inr s' \<and> ?P (length (rev [0..<sz])) s'"
  proof (rule fold_result_invariant)
    show "?P 0 s1" using s1 by (auto simp: sorted_from_def)
    fix k t assume k: "k < length (rev [0..<sz])" and P: "?P k t"
    have x: "rev [0..<sz] ! k = sz - Suc k" "Suc (sz - Suc k) = sz - k" using k by (auto simp: rev_nth)
    from extract_max[of t "sz - Suc k"] P k x(2) obtain t' where
      "?f (sz - Suc k) t = Inr t'" "inv t'" "heap t' 0 (sz - Suc k)" "sorted_from t' (sz - Suc k)"
      "rearr sz sz (item t) (item t')" by auto
    with P show "\<exists>s'. ?f (rev [0..<sz] ! k) t = Inr s' \<and> ?P (Suc k) s'"
      unfolding x(1) by (blast intro: rearr_trans)
  qed
  with s1(1) show ?thesis by (auto simp: dm_sort_def sorted_from_def val_def)
qed

end

section \<open>Rows and columns as sortable arrays\<close>

definition row_bits :: "matrix \<Rightarrow> nat \<Rightarrow> bool list" where
  "row_bits m i = map (dm_is_set m i) [0..<cols m]"

definition col_bits :: "matrix \<Rightarrow> nat \<Rightarrow> bool list" where
  "col_bits m j = map (\<lambda>i. dm_is_set m i j) [0..<rows m]"

definition bit_weight :: "bool list \<Rightarrow> int" where
  "bit_weight bs = (\<Sum>i < length bs. if bs ! i then int i else 0)"

text \<open>Comparing two lines entry by entry is the lexicographic order of the negated entries.\<close>

lemma lex_first_diff:
  fixes f g :: "nat \<Rightarrow> bool"
  shows "map (\<lambda>i. \<not> f i) [k..<n] < map (\<lambda>i. \<not> g i) [k..<n]
    \<longleftrightarrow> (\<exists>i. first_from (\<lambda>i. f i \<noteq> g i) k n = Some i \<and> f i \<and> \<not> g i)"
proof (induction "n - k" arbitrary: k)
  case 0
  then show ?case by (simp add: first_from_def)
next
  case (Suc d)
  then have k: "k < n" "d = n - Suc k" by auto
  show ?case using Suc(1)[OF k(2)] k(1) first_from_step[of "\<lambda>i. f i \<noteq> g i" k n]
    by (auto simp: upt_conv_Cons)
qed

lemma max_first_less:
  "max_row_first m i j < 0 \<longleftrightarrow> map Not (row_bits m i) < map Not (row_bits m j)"
  "max_col_first m i j < 0 \<longleftrightarrow> map Not (col_bits m i) < map Not (col_bits m j)"
  using lex_first_diff[of "dm_is_set m i" 0 "cols m" "dm_is_set m j"]
    lex_first_diff[of "\<lambda>r. dm_is_set m r i" 0 "rows m" "\<lambda>r. dm_is_set m r j"]
  by (auto simp: max_row_first_def max_col_first_def row_bits_def col_bits_def dm_ncols_def dm_nrows_def
      comp_def split: option.splits)

lemma sum_fold_pair:
  "fold (\<lambda>i (a, b). (if f i then int32 (a + int i) else a, if g i then int32 (b + int i) else b)) [0..<n] (0, 0)
    = (int32 (\<Sum>i < n. if f i then int i else 0), int32 (\<Sum>i < n. if g i then int i else 0))"
  by (induction n) (auto simp: int32_add)

lemma weight_map: "bit_weight (map f [0..<n]) = (\<Sum>i < n. if f i then int i else 0)"
  by (auto simp: bit_weight_def intro!: sum.cong)

lemma index_sum: "2 * (\<Sum>i < n. int i) = int n * (int n - 1)"
  by (induction n) (auto simp: algebra_simps)

lemma weight_bounds: "0 \<le> bit_weight bs" "2 * bit_weight bs \<le> int (length bs) * (int (length bs) - 1)"
proof -
  have "bit_weight bs \<le> (\<Sum>i < length bs. int i)" unfolding bit_weight_def by (rule sum_mono) simp
  then show "2 * bit_weight bs \<le> int (length bs) * (int (length bs) - 1)" by (simp flip: index_sum)
qed (auto simp: bit_weight_def intro: sum_nonneg)

lemma weight_fits:
  assumes "length bs \<le> 65536"
  shows "bit_weight bs \<le> int INT_MAX"
proof -
  have "int (length bs) * (int (length bs) - 1) \<le> 65536 * 65535"
    by (cases "length bs = 0", simp, rule mult_mono) (use assms in \<open>simp_all add: Suc_leI\<close>)
  then show ?thesis using weight_bounds(2)[of bs] by simp
qed

lemma weight_cmp:
  "write_before_read m i j = int32 (bit_weight (row_bits m j) - bit_weight (row_bits m i))"
  "read_before_write m i j = int32 (bit_weight (col_bits m j) - bit_weight (col_bits m i))"
  by (simp_all add: write_before_read_def read_before_write_def sum_fold_pair weight_map int32_diff
      row_bits_def col_bits_def dm_ncols_def dm_nrows_def)

lemma weight_diff:
  assumes "length a \<le> 65536" and "length b \<le> 65536"
  shows "int32 (bit_weight b - bit_weight a) < 0 \<longleftrightarrow> - bit_weight a < - bit_weight b"
  using weight_bounds(1)[of a] weight_bounds(1)[of b] weight_fits[OF assms(1)] weight_fits[OF assms(2)]
  by (subst int32_id) auto

lemma weight_cmp_less:
  "cols m \<le> 65536 \<Longrightarrow>
     write_before_read m i j < 0 \<longleftrightarrow> - bit_weight (row_bits m i) < - bit_weight (row_bits m j)"
  "rows m \<le> 65536 \<Longrightarrow>
     read_before_write m i j < 0 \<longleftrightarrow> - bit_weight (col_bits m i) < - bit_weight (col_bits m j)"
  using weight_diff[of "row_bits m i" "row_bits m j"] weight_diff[of "col_bits m i" "col_bits m j"]
  by (simp_all add: weight_cmp row_bits_def col_bits_def)

text \<open>
  The bound is needed: with 70000 columns the sum of a full row is 2449965000, which wraps to a
  negative \<^verbatim>\<open>int\<close>, and the row is taken to be lighter than an empty one.
\<close>

lemma write_before_read_wraps:
  assumes "cols m = 70000" and "\<And>k. k < 70000 \<Longrightarrow> \<not> dm_is_set m i k" and "\<And>k. k < 70000 \<Longrightarrow> dm_is_set m j k"
  shows "write_before_read m i j < 0" and "bit_weight (row_bits m i) < bit_weight (row_bits m j)"
proof -
  have "bit_weight (row_bits m i) = (\<Sum>k \<in> {..<70000 :: nat}. 0)"
    unfolding row_bits_def weight_map assms(1) by (rule sum.cong) (use assms(2) in auto)
  moreover have "bit_weight (row_bits m j) = (\<Sum>k < 70000. int k)"
    unfolding row_bits_def weight_map assms(1) by (rule sum.cong) (use assms(3) in auto)
  moreover have "2 * (\<Sum>k < 70000. int k) = 70000 * 69999" using index_sum[of 70000] by simp
  ultimately have w: "bit_weight (row_bits m i) = 0" "bit_weight (row_bits m j) = 2449965000" by simp_all
  then show "write_before_read m i j < 0" by (simp add: weight_cmp int32_def)
  show "bit_weight (row_bits m i) < bit_weight (row_bits m j)" using w by simp
qed

definition has_dims :: "nat \<Rightarrow> nat \<Rightarrow> matrix \<Rightarrow> bool" where
  "has_dims r c m \<longleftrightarrow> dm_wf m \<and> rows m = r \<and> cols m = c"

lemma swapped_lt: "a < n \<Longrightarrow> b < n \<Longrightarrow> k < n \<Longrightarrow> swapped a b k < n"
  by (simp add: swapped_def)

lemma swap_rows_bits:
  assumes "has_dims r c s" and "i < r" and "j < r"
  shows "\<exists>s'. dm_swap_rows s i j = Inr s' \<and> has_dims r c s'
    \<and> (\<forall>k < r. row_bits s' k = row_bits s (swapped i j k))"
  using dm_swap_rows_ok[of s i j] assms by (auto simp: has_dims_def row_bits_def)

lemma swap_cols_bits:
  assumes "has_dims r c s" and "i < c" and "j < c"
  shows "\<exists>s'. dm_swap_cols s i j = Inr s' \<and> has_dims r c s'
    \<and> (\<forall>k < c. col_bits s' k = col_bits s (swapped i j k))"
  using dm_swap_cols_ok[of s i j] assms by (auto simp: has_dims_def col_bits_def)

interpretation rows_any: swappable "has_dims r c" r row_bits dm_swap_rows for r c :: nat
  by unfold_locales (simp add: swap_rows_bits)

interpretation cols_any: swappable "has_dims r c" c col_bits dm_swap_cols for r c :: nat
  by unfold_locales (simp add: swap_cols_bits)

interpretation rows_max: sortable "has_dims r c" r row_bits dm_swap_rows "map Not" max_row_first
  for r c :: nat
  by unfold_locales (simp add: max_first_less)

interpretation cols_max: sortable "has_dims r c" c col_bits dm_swap_cols "map Not" max_col_first
  for r c :: nat
  by unfold_locales (simp add: max_first_less)

interpretation rows_weight: sortable "\<lambda>m. has_dims r c m \<and> c \<le> 65536" r row_bits dm_swap_rows
  "\<lambda>b. - bit_weight b" write_before_read
  for r c :: nat
proof unfold_locales
  fix s i j assume "has_dims r c s \<and> c \<le> 65536"
  then show "write_before_read s i j < 0 \<longleftrightarrow> - bit_weight (row_bits s i) < - bit_weight (row_bits s j)"
    by (simp only: has_dims_def weight_cmp_less)
qed (use swap_rows_bits in blast)

interpretation cols_weight: sortable "\<lambda>m. has_dims r c m \<and> r \<le> 65536" c col_bits dm_swap_cols
  "\<lambda>b. - bit_weight b" read_before_write
  for r c :: nat
proof unfold_locales
  fix s i j assume "has_dims r c s \<and> r \<le> 65536"
  then show "read_before_write s i j < 0 \<longleftrightarrow> - bit_weight (col_bits s i) < - bit_weight (col_bits s j)"
    by (simp only: has_dims_def weight_cmp_less)
qed (use swap_cols_bits in blast)

section \<open>Properties\<close>

text \<open>
  C18. Sorting rows: whatever comparator it is given, \<^verbatim>\<open>dm_sort_rows\<close> finishes without error, keeps
  the invariant and leaves a permutation of the original rows. With \<^verbatim>\<open>max_row_first\<close> the result is
  ordered lexicographically with set entries first; with \<^verbatim>\<open>write_before_read\<close> it is ordered by
  decreasing weight (the sum of the indices of the set entries) when the matrix has at most 65536
  columns, so that the 32-bit sums of the comparator do not wrap.
\<close>

theorem dm_sort_rows_correct:
  assumes "dm_wf m"
  shows "(\<forall>cmp. \<exists>m'. dm_sort_rows m cmp = Inr m' \<and> has_dims (rows m) (cols m) m'
        \<and> rearr (rows m) (rows m) (row_bits m) (row_bits m'))
    \<and> (\<forall>m'. dm_sort_rows m max_row_first = Inr m' \<longrightarrow>
        (\<forall>i j. i \<le> j \<and> j < rows m \<longrightarrow> map Not (row_bits m' i) \<le> map Not (row_bits m' j)))
    \<and> (\<forall>m'. cols m \<le> 65536 \<and> dm_sort_rows m write_before_read = Inr m' \<longrightarrow>
        (\<forall>i j. i \<le> j \<and> j < rows m \<longrightarrow> bit_weight (row_bits m' j) \<le> bit_weight (row_bits m' i)))"
proof -
  have m: "has_dims (rows m) (cols m) m" using assms by (simp add: has_dims_def)
  show ?thesis
    using rows_any.dm_sort_rearr[OF m] rows_max.dm_sort_correct[OF m]
      rows_weight.dm_sort_correct[of "rows m" "cols m" m] m
    by (fastforce simp: dm_sort_rows_def dm_nrows_def)
qed

theorem dm_sort_rows_correct_witness:
  "\<exists>m' m''. dm_sort_rows (dm_set (dm_create 2 3) 1 0) max_row_first = Inr m'
     \<and> map Not (row_bits m' 0) \<le> map Not (row_bits m' 1)
     \<and> dm_sort_rows (dm_set (dm_create 2 3) 1 0) write_before_read = Inr m''
     \<and> bit_weight (row_bits m'' 1) \<le> bit_weight (row_bits m'' 0)"
proof -
  let ?m = "dm_set (dm_create 2 3) 1 0"
  have wf: "dm_wf ?m" using set_dm_wf(1)[OF demo_dm_wf, of 1 0] by simp
  have dims: "rows ?m = 2" "cols ?m = 3" by (unfold demo_create, code_simp+)
  note c = dm_sort_rows_correct[OF wf, unfolded dims]
  obtain m' m'' where "dm_sort_rows ?m max_row_first = Inr m'" "dm_sort_rows ?m write_before_read = Inr m''"
    using c by metis
  then show ?thesis using c by fastforce
qed

text \<open>
  Sorting columns: the same of \<^verbatim>\<open>dm_sort_cols\<close>, with \<^verbatim>\<open>max_col_first\<close> and, up to 65536 rows,
  \<^verbatim>\<open>read_before_write\<close>.
\<close>

theorem dm_sort_cols_correct:
  assumes "dm_wf m"
  shows "(\<forall>cmp. \<exists>m'. dm_sort_cols m cmp = Inr m' \<and> has_dims (rows m) (cols m) m'
        \<and> rearr (cols m) (cols m) (col_bits m) (col_bits m'))
    \<and> (\<forall>m'. dm_sort_cols m max_col_first = Inr m' \<longrightarrow>
        (\<forall>i j. i \<le> j \<and> j < cols m \<longrightarrow> map Not (col_bits m' i) \<le> map Not (col_bits m' j)))
    \<and> (\<forall>m'. rows m \<le> 65536 \<and> dm_sort_cols m read_before_write = Inr m' \<longrightarrow>
        (\<forall>i j. i \<le> j \<and> j < cols m \<longrightarrow> bit_weight (col_bits m' j) \<le> bit_weight (col_bits m' i)))"
proof -
  have m: "has_dims (rows m) (cols m) m" using assms by (simp add: has_dims_def)
  show ?thesis
    using cols_any.dm_sort_rearr[OF m] cols_max.dm_sort_correct[OF m]
      cols_weight.dm_sort_correct[of "rows m" "cols m" m] m
    by (fastforce simp: dm_sort_cols_def dm_ncols_def)
qed

theorem dm_sort_cols_correct_witness:
  "\<exists>m'. dm_sort_cols (dm_create 2 3) read_before_write = Inr m' \<and> has_dims 2 3 m'"
  using dm_sort_cols_correct[OF demo_dm_wf] by auto

end
