(* ===== verification/Dm_Merge.thy ===== *)
theory Dm_Merge
  imports Dm_Sort "HOL-Library.Multiset"
begin

text \<open>
  Merging and splitting of rows and columns (\<^verbatim>\<open>src/src/dm/dm.c\<close>): the circular group links of the
  headers, \<^verbatim>\<open>merge_rows_\<close>, \<^verbatim>\<open>unmerge_row_\<close> and their column versions, and the loops \<^verbatim>\<open>dm_nub_rows\<close>,
  \<^verbatim>\<open>dm_subsume_rows\<close>, \<^verbatim>\<open>dm_nub_cols\<close>, \<^verbatim>\<open>dm_ungroup_rows\<close> and \<^verbatim>\<open>dm_ungroup_cols\<close>.
  The abstract state is the list of groups: one list of physical rows per live row of the matrix,
  headed by the row that represents it. Merging appends one group to another, splitting takes the
  head off a group, and ungrouping flattens all groups.
\<close>

section \<open>Model\<close>

text \<open>
  The loop of \<^verbatim>\<open>last_in_group_\<close> follows the links. There are \<open>h_size\<close> entries, so a walk of more
  than that many steps has entered a cycle that misses its target and never ends.
\<close>

fun last_in_group_loop :: "nat \<Rightarrow> matrix_header \<Rightarrow> nat \<Rightarrow> nat \<Rightarrow> nat result" where
  "last_in_group_loop 0 h gr start = Inl Diverges"
| "last_in_group_loop (Suc n) h gr start =
     (if group (h_data h ! start) \<noteq> gr then last_in_group_loop n h gr (group (h_data h ! start))
      else Inr start)"

definition last_in_group :: "matrix_header \<Rightarrow> nat \<Rightarrow> nat result" where
  "last_in_group h gr = last_in_group_loop (h_size h) h gr gr"

definition set_group :: "nat \<Rightarrow> nat \<Rightarrow> matrix_header \<Rightarrow> matrix_header" where
  "set_group k v h = h\<lparr>h_data := (h_data h)[k := (h_data h ! k)\<lparr>group := v\<rparr>]\<rparr>"

definition merge_group :: "matrix_header \<Rightarrow> nat \<Rightarrow> nat \<Rightarrow> matrix_header result" where
  "merge_group h groupa groupb =
     result_bind (last_in_group h groupa) (\<lambda>la. result_bind (last_in_group h groupb) (\<lambda>lb.
       Inr (set_group lb groupa (set_group la groupb h))))"

definition unmerge_group :: "matrix_header \<Rightarrow> nat \<Rightarrow> matrix_header result" where
  "unmerge_group h groupedrow =
     result_bind (last_in_group h groupedrow) (\<lambda>lst.
       let nxt = group (h_data h ! groupedrow)
       in Inr (set_group groupedrow groupedrow (set_group lst nxt h)))"

text \<open>\<^verbatim>\<open>uncount_row_\<close> and \<^verbatim>\<open>count_row_\<close> differ in the sign only, as do the column versions.\<close>

definition recount_row :: "int \<Rightarrow> matrix \<Rightarrow> nat \<Rightarrow> matrix" where
  "recount_row d m row = fold (\<lambda>i m.
     if dm_is_set m row i
     then m\<lparr>row_perm := hdr_add_count (rowp m row) d (row_perm m),
            col_perm := hdr_add_count (colp m i) d (col_perm m)\<rparr>
     else m) [0..<dm_ncols m] m"

definition uncount_row :: "matrix \<Rightarrow> nat \<Rightarrow> matrix" where
  "uncount_row m row = recount_row (-1) m row"

definition count_row :: "matrix \<Rightarrow> nat \<Rightarrow> matrix" where
  "count_row m row = recount_row 1 m row"

definition merge_rows :: "matrix \<Rightarrow> nat \<Rightarrow> nat \<Rightarrow> matrix result" where
  "merge_rows m rowa rowb =
     (if rowa = rowb then Inl Exit_failure
      else let n = dm_nrows m; rowa = (if rowb < rowa then rowa - 1 else rowa)
           in result_bind (add_all (dm_create_permutation_group n True) [rowb..<n]) (\<lambda>g.
                let m = dm_permute_rows m g
                in result_bind (merge_group (row_perm m) (rowp m (n - 1)) (rowp m rowa)) (\<lambda>h.
                     let m = uncount_row (m\<lparr>row_perm := h\<rparr>) (n - 1)
                     in Inr (m\<lparr>rows := rows m - 1\<rparr>))))"

definition unmerge_row :: "matrix \<Rightarrow> nat \<Rightarrow> matrix result" where
  "unmerge_row m row =
     (let org_row = rowp m row;
          org_group = group (h_data (row_perm m) ! org_row);
          next_at = at (h_data (row_perm m) ! org_group)
      in if org_row = org_group then Inr m
         else result_bind (unmerge_group (row_perm m) org_row) (\<lambda>h.
           let m = m\<lparr>row_perm := h\<rparr>
           in result_bind (add_all (dm_create_permutation_group (h_size (row_perm m)) True)
                (rev [row + 1..<next_at + 1])) (\<lambda>g.
                let m = dm_permute_rows m g; j = min next_at row;
                    m = count_row m (j + 1)
                in Inr (m\<lparr>rows := rows m + 1\<rparr>))))"

definition recount_col :: "int \<Rightarrow> matrix \<Rightarrow> nat \<Rightarrow> matrix" where
  "recount_col d m col = fold (\<lambda>i m.
     if dm_is_set m i col
     then m\<lparr>col_perm := hdr_add_count (colp m col) d (col_perm m),
            row_perm := hdr_add_count (rowp m i) d (row_perm m)\<rparr>
     else m) [0..<dm_nrows m] m"

definition uncount_col :: "matrix \<Rightarrow> nat \<Rightarrow> matrix" where
  "uncount_col m col = recount_col (-1) m col"

definition count_col :: "matrix \<Rightarrow> nat \<Rightarrow> matrix" where
  "count_col m col = recount_col 1 m col"

definition merge_cols :: "matrix \<Rightarrow> nat \<Rightarrow> nat \<Rightarrow> matrix result" where
  "merge_cols m cola colb =
     (if cola = colb then Inl Exit_failure
      else let n = dm_ncols m; cola = (if colb < cola then cola - 1 else cola)
           in result_bind (add_all (dm_create_permutation_group n True) [colb..<n]) (\<lambda>g.
                let m = dm_permute_cols m g
                in result_bind (merge_group (col_perm m) (colp m (n - 1)) (colp m cola)) (\<lambda>h.
                     let m = uncount_col (m\<lparr>col_perm := h\<rparr>) (n - 1)
                     in Inr (m\<lparr>cols := cols m - 1\<rparr>))))"

definition unmerge_col :: "matrix \<Rightarrow> nat \<Rightarrow> matrix result" where
  "unmerge_col m col =
     (let org_col = colp m col;
          org_group = group (h_data (col_perm m) ! org_col);
          next_at = at (h_data (col_perm m) ! org_group)
      in if org_col = org_group then Inr m
         else result_bind (unmerge_group (col_perm m) org_col) (\<lambda>h.
           let m = m\<lparr>col_perm := h\<rparr>
           in result_bind (add_all (dm_create_permutation_group (h_size (col_perm m)) True)
                (rev [col + 1..<next_at + 1])) (\<lambda>g.
                let m = dm_permute_cols m g; j = min next_at col;
                    m = count_col m (j + 1)
                in Inr (m\<lparr>cols := cols m + 1\<rparr>))))"

section \<open>Group links\<close>

definition grp :: "matrix_header \<Rightarrow> nat \<Rightarrow> nat" where
  "grp h k = group (h_data h ! k)"

text \<open>\<open>link_cycle f xs\<close>: following \<open>f\<close> from the head of \<open>xs\<close> visits \<open>xs\<close> and comes back.\<close>

definition links :: "(nat \<Rightarrow> nat) \<Rightarrow> nat list \<Rightarrow> bool" where
  "links f xs \<longleftrightarrow> successively (\<lambda>x y. f x = y) xs"

definition link_cycle :: "(nat \<Rightarrow> nat) \<Rightarrow> nat list \<Rightarrow> bool" where
  "link_cycle f xs \<longleftrightarrow> xs \<noteq> [] \<and> distinct xs \<and> links f xs \<and> f (last xs) = hd xs"

lemma links_Cons: "links f (x # xs) \<longleftrightarrow> xs = [] \<or> f x = hd xs \<and> links f xs"
  by (auto simp: links_def successively_Cons)

lemma links_simple [simp]: "links f []" "links f [x]"
  by (simp_all add: links_def)

lemma links_append: "links f (xs @ ys) \<longleftrightarrow> links f xs \<and> links f ys \<and> (xs = [] \<or> ys = [] \<or> f (last xs) = hd ys)"
  by (auto simp: links_def successively_append_iff)

lemma links_upd:
  "distinct xs \<Longrightarrow> k = last xs \<or> k \<notin> set xs \<Longrightarrow> links (f(k := v)) xs = links f xs"
  by (induction xs) (auto simp: links_Cons split: if_splits)

lemma link_cycle_upd: "k \<notin> set xs \<Longrightarrow> link_cycle (f(k := v)) xs = link_cycle f xs"
proof (cases "xs = []")
  case False
  assume "k \<notin> set xs"
  then have "last xs \<noteq> k" using False by auto
  with \<open>k \<notin> set xs\<close> show ?thesis by (auto simp: link_cycle_def links_upd)
qed (simp add: link_cycle_def)

lemma link_cycle_append:
  assumes "link_cycle f xs" and "link_cycle f ys" and "set xs \<inter> set ys = {}"
  shows "link_cycle (f(last xs := hd ys, last ys := hd xs)) (xs @ ys)"
proof -
  have ne: "last xs \<in> set xs" "last ys \<in> set ys" using assms by (auto simp: link_cycle_def)
  have d: "last xs \<noteq> last ys" "last xs \<notin> set ys" "last ys \<notin> set xs" using ne assms(3) by auto
  have "links (f(last xs := hd ys, last ys := hd xs)) (xs @ ys)"
    unfolding links_append using assms d by (simp add: link_cycle_def links_upd del: fun_upd_apply) simp
  then show ?thesis using assms d by (simp add: link_cycle_def)
qed

lemma link_cycle_tail:
  assumes "link_cycle f (x # ys)" and "ys \<noteq> []"
  shows "link_cycle (f(last ys := hd ys, x := x)) ys" and "link_cycle (f(last ys := hd ys, x := x)) [x]"
proof -
  have "links (f(last ys := hd ys, x := x)) ys"
    using assms by (simp add: link_cycle_def links_upd links_Cons del: fun_upd_apply)
  then show "link_cycle (f(last ys := hd ys, x := x)) ys" using assms by (auto simp: link_cycle_def)
qed (simp add: link_cycle_def)

lemma last_in_group_loop_cycle:
  assumes c: "link_cycle (grp h) xs" and i: "i < length xs" and n: "length xs - i \<le> n"
  shows "last_in_group_loop n h (hd xs) (xs ! i) = Inr (last xs)"
  using i n
proof (induction n arbitrary: i)
  case (Suc n)
  have ne: "xs \<noteq> []" and dist: "distinct xs" using c by (auto simp: link_cycle_def)
  show ?case
  proof (cases "Suc i = length xs")
    case True
    then have "xs ! i = last xs" by (metis diff_Suc_1 last_conv_nth ne)
    then show ?thesis using c by (simp add: link_cycle_def grp_def)
  next
    case False
    then have i': "Suc i < length xs" using Suc.prems by simp
    then have nxt: "grp h (xs ! i) = xs ! Suc i" using c
      by (simp add: link_cycle_def links_def successively_conv_nth)
    have "xs ! Suc i \<noteq> hd xs" using i' dist ne by (simp add: hd_conv_nth nth_eq_iff_index_eq)
    then show ?thesis using nxt Suc.IH[of "Suc i"] i' Suc.prems by (simp add: grp_def)
  qed
qed simp

lemma last_in_group_cycle:
  assumes "link_cycle (grp h) xs" and "set xs \<subseteq> {..<h_size h}"
  shows "last_in_group h (hd xs) = Inr (last xs)"
proof -
  have ne: "xs \<noteq> []" and d: "distinct xs" using assms(1) by (auto simp: link_cycle_def)
  have "length xs \<le> h_size h"
    using card_mono[OF finite_lessThan assms(2)] d by (simp add: distinct_card)
  then show ?thesis
    using last_in_group_loop_cycle[OF assms(1), of 0 "h_size h"] ne
    by (simp add: last_in_group_def hd_conv_nth)
qed

text \<open>Changing links leaves the permutation and the caches alone.\<close>

definition same_perm :: "matrix_header \<Rightarrow> matrix_header \<Rightarrow> bool" where
  "same_perm h h' \<longleftrightarrow> h_size h' = h_size h \<and> length (h_data h') = length (h_data h)
     \<and> h_count h' = h_count h \<and> h_min h' = h_min h \<and> h_max h' = h_max h
     \<and> (\<forall>k < length (h_data h). becomes (h_data h' ! k) = becomes (h_data h ! k)
          \<and> at (h_data h' ! k) = at (h_data h ! k))"

lemma same_perm_refl [simp]: "same_perm h h"
  by (simp add: same_perm_def)

lemma same_perm_set_group: "same_perm h h' \<Longrightarrow> same_perm h (set_group k v h')"
  by (cases "k < length (h_data h')") (auto simp: same_perm_def set_group_def nth_list_update)

lemma grp_set_group: "k < length (h_data h) \<Longrightarrow> grp (set_group k v h) = (grp h)(k := v)"
  by (auto simp: grp_def set_group_def fun_eq_iff nth_list_update)

lemma set_group_frame [simp]:
  "h_size (set_group k v h) = h_size h" "length (h_data (set_group k v h)) = length (h_data h)"
  by (simp_all add: set_group_def)

lemma merge_group_ok:
  assumes h: "length (h_data h) = h_size h" and xs: "link_cycle (grp h) xs" "set xs \<subseteq> {..<h_size h}"
    and ys: "link_cycle (grp h) ys" "set ys \<subseteq> {..<h_size h}"
  shows "\<exists>h'. merge_group h (hd xs) (hd ys) = Inr h' \<and> same_perm h h'
    \<and> grp h' = (grp h)(last xs := hd ys, last ys := hd xs)"
proof -
  have "last xs \<in> set xs" "last ys \<in> set ys" using xs ys by (auto simp: link_cycle_def)
  then have "last xs < h_size h" "last ys < h_size h" using xs ys by auto
  then show ?thesis
    using last_in_group_cycle[OF xs] last_in_group_cycle[OF ys] h
    by (auto simp: merge_group_def same_perm_set_group grp_set_group)
qed

lemma unmerge_group_ok:
  assumes h: "length (h_data h) = h_size h" and xs: "link_cycle (grp h) (x # ys)" "set (x # ys) \<subseteq> {..<h_size h}"
    and ne: "ys \<noteq> []"
  shows "\<exists>h'. unmerge_group h x = Inr h' \<and> same_perm h h'
    \<and> grp h' = (grp h)(last ys := hd ys, x := x)"
proof -
  have "last ys \<in> set ys" using ne by simp
  then have "last ys < h_size h" "x < h_size h" using xs by auto
  moreover have "group (h_data h ! x) = hd ys" using xs ne by (simp add: link_cycle_def links_Cons grp_def)
  ultimately show ?thesis
    using last_in_group_cycle[OF xs] h ne
    by (auto simp: unmerge_group_def same_perm_set_group grp_set_group Let_def)
qed

section \<open>Counts\<close>

lemma recount_row_loop:
  assumes m: "dm_shape m" and row: "row < h_size (row_perm m)" and n: "n \<le> h_size (col_perm m)"
    and M: "M = fold (\<lambda>i m. if dm_is_set m row i
       then m\<lparr>row_perm := hdr_add_count (rowp m row) d (row_perm m),
              col_perm := hdr_add_count (colp m i) d (col_perm m)\<rparr> else m) [0..<n] m"
  shows "\<exists>rc cc. M = m\<lparr>row_perm := (row_perm m)\<lparr>h_count := rc\<rparr>, col_perm := (col_perm m)\<lparr>h_count := cc\<rparr>\<rparr>
    \<and> length rc = h_size (row_perm m) \<and> length cc = h_size (col_perm m)
    \<and> (\<forall>i < h_size (row_perm m). rc ! rowp m i = dm_ones_in_row m i
         + (if i = row then d * int (count_below (dm_is_set m row) n) else 0))
    \<and> (\<forall>j < h_size (col_perm m). cc ! colp m j = dm_ones_in_col m j
         + (if j < n \<and> dm_is_set m row j then d else 0))"
  using n M
proof (induction n arbitrary: M)
  case 0
  have "length (h_count (row_perm m)) = h_size (row_perm m)" "length (h_count (col_perm m)) = h_size (col_perm m)"
    using m by (auto simp: dm_shape_def hdr_wf_def)
  with 0 show ?case
    by (intro exI[of _ "h_count (row_perm m)"] exI[of _ "h_count (col_perm m)"])
      (simp add: dm_ones_in_row_def dm_ones_in_col_def)
next
  case (Suc n)
  let ?f = "\<lambda>i m. if dm_is_set m row i
       then m\<lparr>row_perm := hdr_add_count (rowp m row) d (row_perm m),
              col_perm := hdr_add_count (colp m i) d (col_perm m)\<rparr> else m"
  from Suc obtain rc cc where IH: "fold ?f [0..<n] m
      = m\<lparr>row_perm := (row_perm m)\<lparr>h_count := rc\<rparr>, col_perm := (col_perm m)\<lparr>h_count := cc\<rparr>\<rparr>"
    "length rc = h_size (row_perm m)" "length cc = h_size (col_perm m)"
    "\<forall>i < h_size (row_perm m). rc ! rowp m i = dm_ones_in_row m i
         + (if i = row then d * int (count_below (dm_is_set m row) n) else 0)"
    "\<forall>j < h_size (col_perm m). cc ! colp m j = dm_ones_in_col m j
         + (if j < n \<and> dm_is_set m row j then d else 0)" by auto
  let ?m = "m\<lparr>row_perm := (row_perm m)\<lparr>h_count := rc\<rparr>, col_perm := (col_perm m)\<lparr>h_count := cc\<rparr>\<rparr>"
  have same: "dm_is_set ?m row n = dm_is_set m row n" "rowp ?m row = rowp m row" "colp ?m n = colp m n"
    by (simp_all add: dm_is_set_def rowp_def colp_def)
  have M: "M = ?f n ?m" using Suc.prems IH(1) by simp
  have lt: "rowp m row < h_size (row_perm m)" "colp m n < h_size (col_perm m)"
    using shape_rowp[OF m row] shape_colp[OF m] Suc.prems(1) by auto
  have inj: "i < h_size (row_perm m) \<Longrightarrow> rowp m i = rowp m row \<longleftrightarrow> i = row"
    "j < h_size (col_perm m) \<Longrightarrow> colp m j = colp m n \<longleftrightarrow> j = n" for i j
    using rowp_inj[OF m] colp_inj[OF m] row Suc.prems(1) by auto
  show ?case
  proof (cases "dm_is_set m row n")
    case True
    let ?rc = "rc[rowp m row := rc ! rowp m row + d]" and ?cc = "cc[colp m n := cc ! colp m n + d]"
    have "M = m\<lparr>row_perm := (row_perm m)\<lparr>h_count := ?rc\<rparr>, col_perm := (col_perm m)\<lparr>h_count := ?cc\<rparr>\<rparr>"
      using M True same by (simp add: hdr_add_count_def)
    moreover have "?rc ! rowp m i = dm_ones_in_row m i
        + (if i = row then d * int (count_below (dm_is_set m row) (Suc n)) else 0)"
      if "i < h_size (row_perm m)" for i
      using that IH(2,4) lt(1) inj(1)[OF that] True
      by (cases "i = row") (simp_all add: count_below_Suc algebra_simps)
    moreover have "?cc ! colp m j = dm_ones_in_col m j + (if j < Suc n \<and> dm_is_set m row j then d else 0)"
      if "j < h_size (col_perm m)" for j
      using that IH(3,5) lt(2) inj(2)[OF that] True
      by (cases "j = n") (simp_all add: less_Suc_eq)
    ultimately show ?thesis using IH(2,3) by (intro exI[of _ ?rc] exI[of _ ?cc]) simp
  next
    case False
    then show ?thesis
      using M IH(2-5) same by (intro exI[of _ rc] exI[of _ cc]) (auto simp: count_below_Suc less_Suc_eq)
  qed
qed

section \<open>Headers as lists of groups\<close>

definition merge_spec :: "nat \<Rightarrow> nat \<Rightarrow> nat list list \<Rightarrow> nat list list" where
  "merge_spec a b gs =
     (let gs = gs[a := gs ! a @ gs ! b] in take b gs @ drop (Suc b) gs)"

definition unmerge_spec :: "nat \<Rightarrow> nat list list \<Rightarrow> nat list list" where
  "unmerge_spec i gs =
     (if length (gs ! i) = 1 then gs
      else take i gs @ [[hd (gs ! i)], tl (gs ! i)] @ drop (Suc i) gs)"

text \<open>The first \<open>n\<close> places of the header stand for the groups \<open>gs\<close>, which partition all places.\<close>

definition hdr_rep :: "matrix_header \<Rightarrow> nat \<Rightarrow> nat list list \<Rightarrow> bool" where
  "hdr_rep h n gs \<longleftrightarrow> length gs = n
     \<and> (\<forall>i < n. hd (gs ! i) = becomes (h_data h ! i) \<and> link_cycle (grp h) (gs ! i))
     \<and> distinct (concat gs) \<and> set (concat gs) = {..<h_size h}"

lemma cyc_next_upt:
  assumes "b < n"
  shows "cyc_next [b..<n] i = (if i < b \<or> n \<le> i then i else if Suc i = n then b else Suc i)"
proof (cases "i < b \<or> n \<le> i")
  case False
  then have i: "i = [b..<n] ! (i - b)" "i - b < length [b..<n]" by auto
  have "cyc_next [b..<n] i = [b..<n] ! (Suc (i - b) mod (n - b))"
    using cyc_next_nth[OF distinct_upt i(2)] i(1) by simp
  also have "\<dots> = (if Suc i = n then b else Suc i)"
  proof (cases "Suc i = n")
    case True
    then have "Suc (i - b) = n - b" using False by linarith
    then show ?thesis using True assms by simp
  qed (use False in auto)
  finally show ?thesis using False by simp
qed auto

lemma cyc_next_rev_upt:
  assumes "a < n"
  shows "cyc_next (rev [a..<n]) i = (if i < a \<or> n \<le> i then i else if i = a then n - 1 else i - 1)"
proof (cases "i < a \<or> n \<le> i")
  case False
  then have i: "i = rev [a..<n] ! (n - 1 - i)" "n - 1 - i < length (rev [a..<n])" by (auto simp: rev_nth)
  have "cyc_next (rev [a..<n]) i = rev [a..<n] ! (Suc (n - 1 - i) mod (n - a))"
    using cyc_next_nth[OF _ i(2)] i(1) by simp
  also have "\<dots> = (if i = a then n - 1 else i - 1)"
  proof (cases "i = a")
    case True
    then have "Suc (n - 1 - i) = n - a" using False by linarith
    then show ?thesis using True assms by (simp add: rev_nth)
  next
    case ia: False
    then have lt: "Suc (n - 1 - i) < n - a" using False by linarith
    then have "rev [a..<n] ! Suc (n - 1 - i) = [a..<n] ! (n - a - Suc (Suc (n - 1 - i)))"
      by (subst rev_nth) simp_all
    also have "n - a - Suc (Suc (n - 1 - i)) = i - 1 - a" using ia False by linarith
    also have "[a..<n] ! (i - 1 - a) = i - 1" using ia False by (subst nth_upt) linarith+
    finally show ?thesis using ia lt by simp
  qed
  finally show ?thesis using False by simp
qed auto

lemma mset_concat_update:
  "i < length xs \<Longrightarrow> mset (concat (xs[i := y])) + mset (xs ! i) = mset (concat xs) + mset y"
  by (induction xs arbitrary: i) (auto simp: nth_Cons ac_simps split: nat.splits)

lemma mset_concat_remove:
  "i < length xs \<Longrightarrow> mset (concat (take i xs @ drop (Suc i) xs)) + mset (xs ! i) = mset (concat xs)"
  by (induction xs arbitrary: i) (auto simp: nth_Cons ac_simps take_Cons drop_Cons split: nat.splits)

lemma mset_merge_spec:
  assumes "a < length gs" and "b < length gs" and "a \<noteq> b"
  shows "mset (concat (merge_spec a b gs)) = mset (concat gs)"
proof -
  let ?g = "gs[a := gs ! a @ gs ! b]"
  have "mset (concat (merge_spec a b gs)) + mset (gs ! b) = mset (concat ?g)"
    using mset_concat_remove[of b ?g] assms by (simp add: merge_spec_def Let_def)
  moreover have "mset (concat ?g) = mset (concat gs) + mset (gs ! b)"
    using mset_concat_update[of a gs "gs ! a @ gs ! b"] assms by (simp add: ac_simps)
  ultimately show ?thesis by simp
qed

lemma concat_unmerge_spec:
  assumes "i < length gs" and "gs ! i \<noteq> []"
  shows "concat (unmerge_spec i gs) = concat gs"
proof -
  obtain x xs where x: "gs ! i = x # xs" using assms(2) by (cases "gs ! i") auto
  have "concat gs = concat (take i gs @ gs ! i # drop (Suc i) gs)"
    using id_take_nth_drop[OF assms(1)] by simp
  then show ?thesis by (simp add: unmerge_spec_def x)
qed

lemma concat_nth_disjoint:
  "distinct (concat gs) \<Longrightarrow> i < length gs \<Longrightarrow> j < length gs \<Longrightarrow> i \<noteq> j \<Longrightarrow> set (gs ! i) \<inter> set (gs ! j) = {}"
proof (induction gs arbitrary: i j)
  case (Cons g gs)
  have sub: "set (gs ! k) \<subseteq> set (concat gs)" if "k < length gs" for k using nth_mem[OF that] by auto
  show ?case
  proof (cases i; cases j)
    fix j' assume "i = 0" "j = Suc j'"
    then show ?thesis using Cons.prems sub[of j'] by auto
  next
    fix i' assume "i = Suc i'" "j = 0"
    then show ?thesis using Cons.prems sub[of i'] by auto
  next
    fix i' j' assume "i = Suc i'" "j = Suc j'"
    then show ?thesis using Cons by auto
  qed (use Cons.prems in auto)
qed simp

lemma merge_spec_nth:
  assumes "k < length gs - 1" and "a < length gs" and "b < length gs" and "a \<noteq> b"
  shows "merge_spec a b gs ! k = (let k' = if k < b then k else Suc k
    in if k' = a then gs ! a @ gs ! b else gs ! k')"
  using assms by (auto simp: merge_spec_def Let_def nth_append nth_list_update)

lemma length_merge_spec: "b < length gs \<Longrightarrow> length (merge_spec a b gs) = length gs - 1"
  by (simp add: merge_spec_def Let_def)

lemma hdr_rep_sub: "hdr_rep h n gs \<Longrightarrow> i < n \<Longrightarrow> set (gs ! i) \<subseteq> {..<h_size h}"
proof -
  assume r: "hdr_rep h n gs" and i: "i < n"
  have "set (gs ! i) \<subseteq> set (concat gs)" using r i nth_mem[of i gs] by (auto simp: hdr_rep_def simp del: nth_mem)
  then show ?thesis using r by (simp add: hdr_rep_def)
qed

lemma apply_group_grp:
  assumes "hdr_wf h" and "distinct (g_data g)" and "set (g_data g) \<subseteq> {..<h_size h}" and "k < h_size h"
  shows "grp (apply_permutation_group h g) k = grp h k"
  using apply_group_entry(2)[OF assms] by (simp add: grp_def)

lemma link_cycle_cong: "(\<And>k. k \<in> set xs \<Longrightarrow> f k = g k) \<Longrightarrow> link_cycle f xs = link_cycle g xs"
proof -
  assume eq: "\<And>k. k \<in> set xs \<Longrightarrow> f k = g k"
  then have "links f xs = links g xs" by (induction xs) (auto simp: links_Cons)
  with eq show ?thesis by (cases "xs = []") (auto simp: link_cycle_def)
qed

lemma hdr_merge:
  assumes wf: "hdr_wf h" and rep: "hdr_rep h n gs" and n: "n \<le> h_size h"
    and ab: "a < n" "b < n" "a \<noteq> b" and g: "g_data g = [b..<n]"
    and h1: "h1 = apply_permutation_group h g" and a': "a' = (if b < a then a - 1 else a)"
  shows "\<exists>h2. merge_group h1 (becomes (h_data h1 ! (n - 1))) (becomes (h_data h1 ! a')) = Inr h2
    \<and> same_perm h1 h2 \<and> hdr_rep h2 (n - 1) (merge_spec a b gs)"
proof -
  have gd: "distinct (g_data g)" "set (g_data g) \<subseteq> {..<h_size h}" using g n by auto
  note en = apply_group_entry[OF wf gd] and fr = apply_group_frame[OF wf gd]
  note R = rep[unfolded hdr_rep_def]
  have be: "becomes (h_data h1 ! k) = becomes (h_data h ! (if k < b then k else if Suc k = n then b else Suc k))"
    if "k < n" for k using that en(1)[of k] n ab(2) cyc_next_upt[of b n k] by (simp add: h1 g)
  have ba: "becomes (h_data h1 ! a') = hd (gs ! a)" "becomes (h_data h1 ! (n - 1)) = hd (gs ! b)"
    using be[of a'] be[of "n - 1"] ab R by (auto simp: a')
  have gr: "link_cycle (grp h1) (gs ! k)" if "k < n" for k
    using R that hdr_rep_sub[OF rep that] apply_group_grp[OF wf gd]
      link_cycle_cong[of "gs ! k" "grp h1" "grp h"] by (auto simp: h1 subset_iff)
  have sz: "h_size h1 = h_size h" "hdr_wf h1" using fr by (auto simp: h1)
  obtain h2 where h2: "merge_group h1 (hd (gs ! b)) (hd (gs ! a)) = Inr h2" "same_perm h1 h2"
    "grp h2 = (grp h1)(last (gs ! b) := hd (gs ! a), last (gs ! a) := hd (gs ! b))"
    using merge_group_ok[OF _ gr[OF ab(2)] _ gr[OF ab(1)]] sz hdr_rep_sub[OF rep] ab
    by (auto simp: hdr_wf_def)
  have dj: "set (gs ! i) \<inter> set (gs ! j) = {}" if "i < n" "j < n" "i \<noteq> j" for i j
    using concat_nth_disjoint[of gs i j] R that by auto
  have la: "last (gs ! a) \<in> set (gs ! a)" "last (gs ! b) \<in> set (gs ! b)"
    using gr ab by (auto simp: link_cycle_def)
  have ms: "mset (concat (merge_spec a b gs)) = mset (concat gs)" using mset_merge_spec R ab by simp
  have c: "link_cycle (grp h2) (merge_spec a b gs ! k)
      \<and> hd (merge_spec a b gs ! k) = becomes (h_data h2 ! k)" if k: "k < n - 1" for k
  proof -
    let ?k = "if k < b then k else Suc k"
    have k': "?k < n" "?k \<noteq> b" using k ab by auto
    have b2: "becomes (h_data h2 ! k) = hd (gs ! ?k)"
      using be[of k] h2(2) k sz n R k' by (auto simp: same_perm_def hdr_wf_def)
    show ?thesis
    proof (cases "?k = a")
      case True
      have "last (gs ! a) \<noteq> last (gs ! b)" using la dj[OF ab] by auto
      then have "grp h2 = (grp h1)(last (gs ! a) := hd (gs ! b), last (gs ! b) := hd (gs ! a))"
        using h2(3) by (simp add: fun_upd_twist)
      then have "link_cycle (grp h2) (gs ! a @ gs ! b)"
        using link_cycle_append[OF gr gr dj] ab by simp
      moreover have "gs ! a \<noteq> []" using gr[OF ab(1)] by (simp add: link_cycle_def)
      ultimately show ?thesis using True b2 merge_spec_nth[of k gs a b] k ab R by auto
    next
      case False
      have "link_cycle (grp h2) (gs ! ?k)"
        unfolding h2(3) using gr[OF k'(1)] dj[OF k'(1) ab(1) False] dj[OF k'(1) ab(2) k'(2)] la
        by (subst link_cycle_upd, blast)+ blast
      then show ?thesis using False b2 merge_spec_nth[of k gs a b] k ab R by (auto simp: Let_def)
    qed
  qed
  have "hdr_rep h2 (n - 1) (merge_spec a b gs)"
    using c length_merge_spec[of b gs a] ab R mset_eq_setD[OF ms] mset_eq_imp_distinct_iff[OF ms] h2(2) sz
    by (auto simp: hdr_rep_def same_perm_def)
  with h2 ba show ?thesis by auto
qed

lemma same_perm_wf: "same_perm h h' \<Longrightarrow> hdr_wf h \<Longrightarrow> hdr_wf h'"
  by (auto simp: same_perm_def hdr_wf_def)

lemma unmerge_spec_nth:
  assumes "k < Suc (length gs)" and "i < length gs" and "length (gs ! i) \<noteq> 1"
  shows "unmerge_spec i gs ! k = (if k < i then gs ! k else if k = i then [hd (gs ! i)]
    else if k = Suc i then tl (gs ! i) else gs ! (k - 1))"
proof -
  consider "k \<le> Suc i" | d where "k = i + Suc (Suc d)"
    using that by (metis add_Suc_right add_Suc not_less_eq_eq le_iff_add Suc_leI not_less)
  then show ?thesis
    using assms by cases (auto simp: unmerge_spec_def nth_append nth_Cons le_Suc_eq not_less split: nat.splits)
qed

lemma length_unmerge_spec:
  "i < length gs \<Longrightarrow> length (unmerge_spec i gs) = (if length (gs ! i) = 1 then length gs else Suc (length gs))"
  by (auto simp: unmerge_spec_def)

text \<open>The next member of a group sits behind the live rows.\<close>

lemma hdr_next_dead:
  assumes wf: "hdr_wf h" and rep: "hdr_rep h n gs" and n: "n \<le> h_size h" and i: "i < n"
    and x: "gs ! i = x # ys" and ne: "ys \<noteq> []"
  shows "grp h x = hd ys" and "hd ys < h_size h" and "n \<le> at (h_data h ! hd ys)"
    and "at (h_data h ! hd ys) < h_size h" and "becomes (h_data h ! at (h_data h ! hd ys)) = hd ys"
proof -
  have R: "link_cycle (grp h) (gs ! i)" "length gs = n" "distinct (concat gs)" using rep i by (auto simp: hdr_rep_def)
  show "grp h x = hd ys" using R x ne by (simp add: link_cycle_def links_Cons)
  have hy: "hd ys \<in> set (gs ! i)" using x ne by simp
  then show lt: "hd ys < h_size h" using hdr_rep_sub[OF rep i] by auto
  then show lt': "at (h_data h ! hd ys) < h_size h"
    and be: "becomes (h_data h ! at (h_data h ! hd ys)) = hd ys" using wf by (auto simp: hdr_wf_def)
  show "n \<le> at (h_data h ! hd ys)"
  proof (rule ccontr)
    let ?k = "at (h_data h ! hd ys)"
    assume "\<not> n \<le> ?k"
    then have k: "?k < n" by simp
    then have "hd (gs ! ?k) = hd ys" "gs ! ?k \<noteq> []" using rep be by (auto simp: hdr_rep_def link_cycle_def)
    then have "hd ys \<in> set (gs ! ?k)" by (metis hd_in_set)
    then have "?k = i" using concat_nth_disjoint[OF R(3), of ?k i] k i R(2) hy by auto
    then have "x = hd ys" using \<open>hd (gs ! ?k) = hd ys\<close> x by simp
    then show False using R(1) x ne by (auto simp: link_cycle_def)
  qed
qed

lemma hdr_unmerge:
  assumes wf: "hdr_wf h" and rep: "hdr_rep h n gs" and n: "n \<le> h_size h" and i: "i < n"
    and x: "gs ! i = x # ys" and ne: "ys \<noteq> []" and at: "na = at (h_data h ! hd ys)"
    and g: "g_data g = rev [i + 1..<na + 1]"
  shows "\<exists>h1. unmerge_group h x = Inr h1 \<and> same_perm h h1
    \<and> hdr_rep (apply_permutation_group h1 g) (Suc n) (unmerge_spec i gs)"
proof -
  note nd = hdr_next_dead[OF wf rep n i x ne]
  note R = rep[unfolded hdr_rep_def]
  have lc: "link_cycle (grp h) (x # ys)" using R i x by metis
  obtain h1 where h1: "unmerge_group h x = Inr h1" "same_perm h h1"
    "grp h1 = (grp h)(last ys := hd ys, x := x)"
    using unmerge_group_ok[of h x ys] wf lc ne hdr_rep_sub[OF rep i] x by (auto simp: hdr_wf_def)
  have wf1: "hdr_wf h1" "h_size h1 = h_size h" using same_perm_wf[OF h1(2) wf] h1(2) by (auto simp: same_perm_def)
  let ?h = "apply_permutation_group h1 g"
  have gd: "distinct (g_data g)" "set (g_data g) \<subseteq> {..<h_size h1}" using g nd(4) wf1 at by auto
  note en = apply_group_entry[OF wf1(1) gd] and fr = apply_group_frame[OF wf1(1) gd]
  have be: "becomes (h_data ?h ! k) = becomes (h_data h ! (if k \<le> i then k else if k = Suc i then na else k - 1))"
    if "k \<le> n" for k
  proof -
    have nn: "n \<le> na" "na < h_size h" using nd at by auto
    have "cyc_next (g_data g) k = (if k \<le> i then k else if k = Suc i then na else k - 1)"
      unfolding g using cyc_next_rev_upt[of "i + 1" "na + 1" k] that nn i by auto
    moreover have "k < h_size h1" using that nn wf1 by simp
    moreover have "\<forall>k < h_size h. becomes (h_data h1 ! k) = becomes (h_data h ! k)"
      using h1(2) wf by (auto simp: same_perm_def hdr_wf_def)
    ultimately show ?thesis using en(1)[of k] that nn i by auto
  qed
  have gr: "link_cycle (grp ?h) zs = link_cycle (grp h1) zs" if "set zs \<subseteq> {..<h_size h}" for zs
    using that apply_group_grp[OF wf1(1) gd] wf1(2) by (intro link_cycle_cong) auto
  have one: "length (gs ! i) \<noteq> 1" using x ne by simp
  have c: "link_cycle (grp ?h) (unmerge_spec i gs ! k)
      \<and> hd (unmerge_spec i gs ! k) = becomes (h_data ?h ! k)" if k: "k < Suc n" for k
  proof -
    note us = unmerge_spec_nth[of k gs i]
    have sub: "set (gs ! l) \<subseteq> {..<h_size h}" if "l < n" for l using hdr_rep_sub[OF rep that] .
    have keep: "link_cycle (grp ?h) (gs ! l)" if l: "l < n" "l \<noteq> i" for l
    proof -
      have "set (gs ! l) \<inter> set (x # ys) = {}" using concat_nth_disjoint[of gs l i] R l i x by auto
      then have "x \<notin> set (gs ! l)" "last ys \<notin> set (gs ! l)" using ne by auto
      then show ?thesis unfolding gr[OF sub[OF l(1)]] h1(3) using R l by (simp add: link_cycle_upd)
    qed
    have "link_cycle (grp ?h) [x]" "link_cycle (grp ?h) ys"
      using gr[of "[x]"] gr[of ys] link_cycle_tail[OF lc ne] sub[OF i] x h1(3) by auto
    then show ?thesis
      using us one keep be[of k] k i R x nd(5) at by (auto simp: not_less le_less_Suc_eq)
  qed
  have "hdr_rep ?h (Suc n) (unmerge_spec i gs)"
    unfolding hdr_rep_def using c length_unmerge_spec[of i gs] concat_unmerge_spec[of i gs] R i x one wf1 fr(1)
    by auto
  with h1 show ?thesis by blast
qed

section \<open>Merging and splitting rows\<close>

definition rows_rep :: "matrix \<Rightarrow> nat list list \<Rightarrow> bool" where
  "rows_rep m gs \<longleftrightarrow> dm_wf m \<and> hdr_rep (row_perm m) (rows m) gs"

lemma count_below_shift:
  "i < n \<Longrightarrow> count_below (\<lambda>k. p (if k \<le> i then k else if k = Suc i then x else k - 1)) (Suc n)
    = count_below p n + (if p x then 1 else 0)"
proof (induction n)
  case (Suc n)
  let ?f = "\<lambda>k. p (if k \<le> i then k else if k = Suc i then x else k - 1)"
  show ?case
  proof (cases "i = n")
    case True
    have "count_below ?f (Suc n) = count_below p (Suc n)" using True by (intro count_below_cong) auto
    then show ?thesis using True count_below_Suc[of ?f "Suc n"] by simp
  next
    case False
    then show ?thesis using Suc count_below_Suc[of ?f "Suc n"] count_below_Suc[of p n] by simp
  qed
qed simp

lemma recount_row_ok:
  assumes "dm_shape m" and "row < h_size (row_perm m)"
  shows "\<exists>rc cc. recount_row d m row
      = m\<lparr>row_perm := (row_perm m)\<lparr>h_count := rc\<rparr>, col_perm := (col_perm m)\<lparr>h_count := cc\<rparr>\<rparr>
    \<and> length rc = h_size (row_perm m) \<and> length cc = h_size (col_perm m)
    \<and> (\<forall>i < h_size (row_perm m). rc ! rowp m i = dm_ones_in_row m i
         + (if i = row then d * int (count_below (dm_is_set m row) (cols m)) else 0))
    \<and> (\<forall>j < h_size (col_perm m). cc ! colp m j = dm_ones_in_col m j
         + (if j < cols m \<and> dm_is_set m row j then d else 0))"
  using recount_row_loop[OF assms, of "cols m"] assms(1)
  by (simp add: recount_row_def dm_ncols_def dm_shape_def)

lemma recount_reshape_row:
  assumes m: "dm_shape m" and row: "row < h_size (row_perm m)" and n: "n \<le> h_size (row_perm m)"
    and M: "M = (recount_row d m row)\<lparr>rows := n\<rparr>"
    and r: "\<And>i. i < h_size (row_perm m) \<Longrightarrow> dm_ones_in_row m i
         + (if i = row then d * int (count_below (dm_is_set m row) (cols m)) else 0)
         = (if i < n then int (count_below (dm_is_set m i) (cols m)) else 0)"
    and c: "\<And>j. j < h_size (col_perm m) \<Longrightarrow> dm_ones_in_col m j
         + (if j < cols m \<and> dm_is_set m row j then d else 0)
         = (if j < cols m then int (count_below (\<lambda>i. dm_is_set m i j) n) else 0)"
  shows "dm_wf M" and "rowp M = rowp m" and "colp M = colp m" and "dm_is_set M = dm_is_set m"
    and "rows M = n" and "cols M = cols m" and "bits M = bits m" and "bits_per_row M = bits_per_row m"
    and "h_data (row_perm M) = h_data (row_perm m)" and "h_size (row_perm M) = h_size (row_perm m)"
    and "h_data (col_perm M) = h_data (col_perm m)" and "h_size (col_perm M) = h_size (col_perm m)"
proof -
  obtain rc cc where R: "recount_row d m row
      = m\<lparr>row_perm := (row_perm m)\<lparr>h_count := rc\<rparr>, col_perm := (col_perm m)\<lparr>h_count := cc\<rparr>\<rparr>"
    "length rc = h_size (row_perm m)" "length cc = h_size (col_perm m)"
    "\<forall>i < h_size (row_perm m). rc ! rowp m i = dm_ones_in_row m i
         + (if i = row then d * int (count_below (dm_is_set m row) (cols m)) else 0)"
    "\<forall>j < h_size (col_perm m). cc ! colp m j = dm_ones_in_col m j
         + (if j < cols m \<and> dm_is_set m row j then d else 0)"
    using recount_row_ok[OF m row] by blast
  show rp: "rowp M = rowp m" and cp: "colp M = colp m"
    by (simp_all add: M R rowp_def colp_def fun_eq_iff)
  show s: "dm_is_set M = dm_is_set m" using rp cp by (simp add: M R dm_is_set_def fun_eq_iff)
  show "rows M = n" "cols M = cols m" "bits M = bits m" "bits_per_row M = bits_per_row m"
    "h_data (row_perm M) = h_data (row_perm m)" "h_size (row_perm M) = h_size (row_perm m)"
    "h_data (col_perm M) = h_data (col_perm m)" "h_size (col_perm M) = h_size (col_perm m)"
    by (simp_all add: M R)
  have o: "dm_ones_in_row M i = rc ! rowp m i" "dm_ones_in_col M j = cc ! colp m j" for i j
    by (simp_all add: dm_ones_in_row_def dm_ones_in_col_def rp cp) (simp_all add: M R)
  have "dm_shape M" using m n by (simp add: dm_shape_def hdr_wf_def M R)
  moreover have "dm_counts M"
    unfolding dm_counts_def o s using R(4,5) r c by (simp add: M R(1))
  ultimately show "dm_wf M" by (simp add: dm_wf_def)
qed

lemma regroup_rows:
  assumes m: "dm_shape m" and h: "same_perm (row_perm m) h"
  shows "dm_shape (m\<lparr>row_perm := h\<rparr>)" and "colp (m\<lparr>row_perm := h\<rparr>) = colp m"
    and "i < h_size (row_perm m) \<Longrightarrow> rowp (m\<lparr>row_perm := h\<rparr>) i = rowp m i"
    and "i < h_size (row_perm m) \<Longrightarrow> dm_is_set (m\<lparr>row_perm := h\<rparr>) i = dm_is_set m i"
    and "i < h_size (row_perm m) \<Longrightarrow> dm_ones_in_row (m\<lparr>row_perm := h\<rparr>) i = dm_ones_in_row m i"
    and "dm_ones_in_col (m\<lparr>row_perm := h\<rparr>) = dm_ones_in_col m"
proof -
  have sz: "h_size h = h_size (row_perm m)" using h by (simp add: same_perm_def)
  show "dm_shape (m\<lparr>row_perm := h\<rparr>)"
    using m same_perm_wf[OF h] sz by (simp add: dm_shape_def)
  show c: "colp (m\<lparr>row_perm := h\<rparr>) = colp m" by (simp add: colp_def fun_eq_iff)
  show r: "i < h_size (row_perm m) \<Longrightarrow> rowp (m\<lparr>row_perm := h\<rparr>) i = rowp m i"
    using h m by (simp add: same_perm_def rowp_def dm_shape_def hdr_wf_def)
  then show "i < h_size (row_perm m) \<Longrightarrow> dm_is_set (m\<lparr>row_perm := h\<rparr>) i = dm_is_set m i"
    using c by (simp add: dm_is_set_def fun_eq_iff)
  show "i < h_size (row_perm m) \<Longrightarrow> dm_ones_in_row (m\<lparr>row_perm := h\<rparr>) i = dm_ones_in_row m i"
    using r h by (simp add: dm_ones_in_row_def same_perm_def)
  show "dm_ones_in_col (m\<lparr>row_perm := h\<rparr>) = dm_ones_in_col m"
    using c by (simp add: dm_ones_in_col_def fun_eq_iff)
qed

lemma hdr_rep_cong: "h_data h = h_data h' \<Longrightarrow> h_size h = h_size h' \<Longrightarrow> hdr_rep h n gs = hdr_rep h' n gs"
proof -
  assume eq: "h_data h = h_data h'" "h_size h = h_size h'"
  then have "grp h = grp h'" by (simp add: grp_def fun_eq_iff)
  with eq show ?thesis by (simp add: hdr_rep_def)
qed

text \<open>What merging and splitting rows leaves alone.\<close>

definition row_frame :: "matrix \<Rightarrow> matrix \<Rightarrow> bool" where
  "row_frame m m' \<longleftrightarrow> cols m' = cols m \<and> bits m' = bits m \<and> bits_per_row m' = bits_per_row m
     \<and> colp m' = colp m \<and> h_size (row_perm m') = h_size (row_perm m)"

lemma row_frame_refl [simp]: "row_frame m m"
  by (simp add: row_frame_def)

lemma row_frame_trans: "row_frame a b \<Longrightarrow> row_frame b c \<Longrightarrow> row_frame a c"
  by (simp add: row_frame_def)

lemma regroup_rows_wf:
  assumes wf: "dm_wf m" and h: "same_perm (row_perm m) h"
  shows "dm_wf (m\<lparr>row_perm := h\<rparr>)"
proof -
  note sh = wf_shape[OF wf]
  note rg = regroup_rows[OF sh(1) h]
  have sz: "h_size h = h_size (row_perm m)" using h by (simp add: same_perm_def)
  have c: "count_below (\<lambda>i. dm_is_set (m\<lparr>row_perm := h\<rparr>) i j) (rows m) = count_below (\<lambda>i. dm_is_set m i j) (rows m)" for j
    using rg(4) sh(4) by (intro count_below_cong) simp
  have "dm_counts m" using wf by (simp add: dm_wf_def)
  then have "dm_counts (m\<lparr>row_perm := h\<rparr>)"
    unfolding dm_counts_def rg(6) by (simp add: sz rg(4,5) c)
  with rg(1) show ?thesis by (simp add: dm_wf_def)
qed

lemma recount_row_rows: "dm_shape m \<Longrightarrow> row < h_size (row_perm m) \<Longrightarrow> rows (recount_row d m row) = rows m"
  using recount_row_ok[of m row d] by auto

lemma drop_last_row:
  assumes wf: "dm_wf m" and n: "0 < rows m"
    and M: "M = (recount_row (-1) m (rows m - 1))\<lparr>rows := rows m - 1\<rparr>"
  shows "dm_wf M" and "colp M = colp m" and "rows M = rows m - 1" and "cols M = cols m" and "bits M = bits m"
    and "bits_per_row M = bits_per_row m" and "h_data (row_perm M) = h_data (row_perm m)"
    and "h_size (row_perm M) = h_size (row_perm m)"
proof -
  note sh = wf_shape[OF wf]
  have cnt: "dm_counts m" using wf by (simp add: dm_wf_def)
  obtain k where k: "rows m = Suc k" using n by (cases "rows m") auto
  have A: "rows m - 1 < h_size (row_perm m)" "rows m - 1 \<le> h_size (row_perm m)" using sh(2) n by auto
  have R: "dm_ones_in_row m i + (if i = rows m - 1 then - 1 * int (count_below (dm_is_set m (rows m - 1)) (cols m)) else 0)
         = (if i < rows m - 1 then int (count_below (dm_is_set m i) (cols m)) else 0)"
    if "i < h_size (row_perm m)" for i
    using that cnt k by (auto simp: dm_counts_def less_Suc_eq)
  have C: "dm_ones_in_col m j + (if j < cols m \<and> dm_is_set m (rows m - 1) j then - 1 else 0)
         = (if j < cols m then int (count_below (\<lambda>i. dm_is_set m i j) (rows m - 1)) else 0)"
    if "j < h_size (col_perm m)" for j
    using that cnt k by (auto simp: dm_counts_def count_below_Suc)
  note X = recount_reshape_row[OF sh(1) A M R C]
  show "dm_wf M" "colp M = colp m" "rows M = rows m - 1" "cols M = cols m" "bits M = bits m"
    "bits_per_row M = bits_per_row m" "h_data (row_perm M) = h_data (row_perm m)"
    "h_size (row_perm M) = h_size (row_perm m)" using X by auto
qed

lemma merge_rows_ok:
  assumes rep: "rows_rep m gs" and a: "a < rows m" and b: "b < rows m" and ab: "a \<noteq> b"
  shows "\<exists>m'. merge_rows m a b = Inr m' \<and> rows_rep m' (merge_spec a b gs) \<and> rows m' = rows m - 1
    \<and> row_frame m m'"
proof -
  let ?n = "rows m" and ?a = "if b < a then a - 1 else a"
  define g where "g = \<lparr>g_data_size = rows m, g_fixed_size = True, g_data = [b..<rows m]\<rparr>"
  have wf: "dm_wf m" and hr: "hdr_rep (row_perm m) ?n gs" using rep by (auto simp: rows_rep_def)
  note sh = wf_shape[OF wf]
  have po: "perm_ok ?n g" by (auto simp: perm_ok_def g_def)
  note po' = perm_ok_mono[OF po sh(2)]
  define m1 where "m1 = dm_permute_rows m g"
  have wf1: "dm_wf m1" using permute_rows_wf(1)[OF wf po] by (simp add: m1_def)
  have hw: "hdr_wf (row_perm m)" using sh by (simp add: dm_shape_def)
  have h1: "row_perm m1 = apply_permutation_group (row_perm m) g" by (simp add: m1_def)
  have d1: "rows m1 = ?n" "cols m1 = cols m" "bits m1 = bits m" "bits_per_row m1 = bits_per_row m"
    "colp m1 = colp m" "h_size (row_perm m1) = h_size (row_perm m)"
    using permute_rows_shape(3)[OF sh(1) po'] apply_group_frame(1)[OF hw] po' h1 by (auto simp: m1_def perm_ok_def)
  have gd: "g_data g = [b..<?n]" by (simp add: g_def)
  from hdr_merge[OF hw hr sh(2) a b ab gd h1 refl] obtain h2 where h2:
    "merge_group (row_perm m1) (rowp m1 (?n - 1)) (rowp m1 ?a) = Inr h2"
    "same_perm (row_perm m1) h2" "hdr_rep h2 (?n - 1) (merge_spec a b gs)" unfolding rowp_def by blast
  define m2 where "m2 = m1\<lparr>row_perm := h2\<rparr>"
  have wf2: "dm_wf m2" using regroup_rows_wf[OF wf1 h2(2)] by (simp add: m2_def)
  have d2: "rows m2 = ?n" "cols m2 = cols m" "bits m2 = bits m" "bits_per_row m2 = bits_per_row m"
    "colp m2 = colp m" "row_perm m2 = h2" "h_size h2 = h_size (row_perm m)"
    using d1 regroup_rows(2)[OF wf_shape(1)[OF wf1] h2(2)] h2(2) by (auto simp: m2_def same_perm_def)
  define M where "M = (recount_row (-1) m2 (?n - 1))\<lparr>rows := ?n - 1\<rparr>"
  note X = drop_last_row[OF wf2, of M, unfolded d2]
  have "hdr_rep (row_perm M) (?n - 1) (merge_spec a b gs)"
    using h2(3) hdr_rep_cong[of "row_perm M" h2] X(7,8) a d2(7) by (simp add: M_def)
  moreover have "dm_wf M" "rows M = ?n - 1" "row_frame m M" using X a by (simp_all add: M_def row_frame_def)
  moreover have "merge_rows m a b = Inr M"
  proof -
    have "merge_rows m a b = result_bind (merge_group (row_perm m1) (rowp m1 (?n - 1)) (rowp m1 ?a))
      (\<lambda>h. let m = uncount_row (m1\<lparr>row_perm := h\<rparr>) (?n - 1) in Inr (m\<lparr>rows := rows m - 1\<rparr>))"
      unfolding merge_rows_def dm_nrows_def Let_def m1_def g_def using ab by (simp add: create_add_all)
    then show ?thesis
      unfolding h2(1) result_bind_simps m2_def[symmetric] Let_def uncount_row_def M_def
      using recount_row_rows[OF wf_shape(1)[OF wf2], of "?n - 1" "-1"] a sh(2) d2 by simp
  qed
  ultimately show ?thesis by (auto simp: rows_rep_def)
qed

text \<open>
  The state after the permutation of \<^verbatim>\<open>unmerge_row_\<close>: the row that sat at the dead place \<open>na\<close> is at
  place \<open>i + 1\<close>, and the live rows behind \<open>i\<close> have moved up by one.
\<close>

lemma insert_row_counts:
  assumes wf: "dm_wf m" and i: "i < rows m" and na: "rows m \<le> na" "na < h_size (row_perm m)"
    and s2: "dm_shape m2" and sz: "h_size (row_perm m2) = h_size (row_perm m)" "h_size (col_perm m2) = h_size (col_perm m)"
      "cols m2 = cols m"
    and is_set: "\<And>k. k < h_size (row_perm m) \<Longrightarrow> dm_is_set m2 k = dm_is_set m (cyc_next (rev [i + 1..<na + 1]) k)"
    and ones: "\<And>k. k < h_size (row_perm m) \<Longrightarrow> dm_ones_in_row m2 k = dm_ones_in_row m (cyc_next (rev [i + 1..<na + 1]) k)"
    and col: "dm_ones_in_col m2 = dm_ones_in_col m"
    and M: "M = (recount_row 1 m2 (Suc i))\<lparr>rows := Suc (rows m)\<rparr>"
  shows "dm_wf M" and "colp M = colp m2" and "rows M = Suc (rows m)" and "cols M = cols m" and "bits M = bits m2"
    and "bits_per_row M = bits_per_row m2" and "h_data (row_perm M) = h_data (row_perm m2)"
    and "h_size (row_perm M) = h_size (row_perm m)"
proof -
  note sh = wf_shape[OF wf]
  have cnt: "dm_counts m" using wf by (simp add: dm_wf_def)
  let ?c = "cyc_next (rev [i + 1..<na + 1])"
  have c: "?c k = (if k \<le> i \<or> na < k then k else if k = Suc i then na else k - 1)" for k
    using cyc_next_rev_upt[of "i + 1" "na + 1" k] i na by auto
  have clt: "?c k < h_size (row_perm m)" if "k < h_size (row_perm m)" for k using c that na by auto
  have A: "Suc i < h_size (row_perm m2)" "Suc (rows m) \<le> h_size (row_perm m2)" using i na sz by auto
  have R: "dm_ones_in_row m2 k + (if k = Suc i then 1 * int (count_below (dm_is_set m2 (Suc i)) (cols m2)) else 0)
         = (if k < Suc (rows m) then int (count_below (dm_is_set m2 k) (cols m2)) else 0)"
    if k: "k < h_size (row_perm m2)" for k
  proof -
    have k': "k < h_size (row_perm m)" using k sz by simp
    have o: "dm_ones_in_row m2 k = (if ?c k < rows m then int (count_below (dm_is_set m2 k) (cols m)) else 0)"
      using ones[OF k'] is_set[OF k'] clt[OF k'] cnt by (simp add: dm_counts_def)
    have "?c k < rows m \<longleftrightarrow> k < Suc (rows m) \<and> k \<noteq> Suc i" using c[of k] i na by auto
    then show ?thesis using o sz i by auto
  qed
  have C: "dm_ones_in_col m2 j + (if j < cols m2 \<and> dm_is_set m2 (Suc i) j then 1 else 0)
         = (if j < cols m2 then int (count_below (\<lambda>i. dm_is_set m2 i j) (Suc (rows m))) else 0)"
    if j: "j < h_size (col_perm m2)" for j
  proof -
    have "count_below (\<lambda>k. dm_is_set m2 k j) (Suc (rows m))
        = count_below (\<lambda>k. dm_is_set m (if k \<le> i then k else if k = Suc i then na else k - 1) j) (Suc (rows m))"
      using is_set c na by (intro count_below_cong) auto
    also have "\<dots> = count_below (\<lambda>k. dm_is_set m k j) (rows m) + (if dm_is_set m na j then 1 else 0)"
      using count_below_shift[OF i, of "\<lambda>k. dm_is_set m k j" na] by simp
    finally show ?thesis using cnt j sz col is_set[of "Suc i"] c[of "Suc i"] i na by (auto simp: dm_counts_def)
  qed
  note X = recount_reshape_row[OF s2 A M R C]
  show "dm_wf M" "colp M = colp m2" "rows M = Suc (rows m)" "cols M = cols m" "bits M = bits m2"
    "bits_per_row M = bits_per_row m2" "h_data (row_perm M) = h_data (row_perm m2)"
    "h_size (row_perm M) = h_size (row_perm m)" using X sz by auto
qed

lemma unmerge_row_ok:
  assumes rep: "rows_rep m gs" and i: "i < rows m"
  shows "\<exists>m'. unmerge_row m i = Inr m' \<and> rows_rep m' (unmerge_spec i gs)
    \<and> rows m' = length (unmerge_spec i gs) \<and> row_frame m m'"
proof -
  let ?n = "rows m"
  have wf: "dm_wf m" and hr: "hdr_rep (row_perm m) ?n gs" using rep by (auto simp: rows_rep_def)
  note sh = wf_shape[OF wf]
  have hw: "hdr_wf (row_perm m)" using sh by (simp add: dm_shape_def)
  have R: "length gs = ?n" "link_cycle (grp (row_perm m)) (gs ! i)" "hd (gs ! i) = rowp m i"
    using hr i by (auto simp: hdr_rep_def rowp_def)
  then obtain x ys where x: "gs ! i = x # ys" by (cases "gs ! i") (auto simp: link_cycle_def)
  show ?thesis
  proof (cases "ys = []")
    case True
    then have "group (h_data (row_perm m) ! x) = x" using R(2) x by (simp add: link_cycle_def grp_def)
    then have "unmerge_row m i = Inr m" using R(3) x by (simp add: unmerge_row_def Let_def)
    moreover have "unmerge_spec i gs = gs" using x True by (simp add: unmerge_spec_def)
    ultimately show ?thesis using rep R(1) by simp
  next
    case ne: False
    define na where "na = at (h_data (row_perm m) ! hd ys)"
    note nd = hdr_next_dead[OF hw hr sh(2) i x ne, folded na_def]
    define g where "g = \<lparr>g_data_size = h_size (row_perm m), g_fixed_size = True, g_data = rev [i + 1..<na + 1]\<rparr>"
    have gd: "g_data g = rev [i + 1..<na + 1]" by (simp add: g_def)
    from hdr_unmerge[OF hw hr sh(2) i x ne na_def gd] obtain h1 where h1:
      "unmerge_group (row_perm m) x = Inr h1" "same_perm (row_perm m) h1"
      "hdr_rep (apply_permutation_group h1 g) (Suc ?n) (unmerge_spec i gs)" by blast
    define m1 where "m1 = m\<lparr>row_perm := h1\<rparr>"
    have wf1: "dm_wf m1" using regroup_rows_wf[OF wf h1(2)] by (simp add: m1_def)
    note rg = regroup_rows[OF sh(1) h1(2), folded m1_def]
    have d1: "rows m1 = ?n" "cols m1 = cols m" "bits m1 = bits m" "bits_per_row m1 = bits_per_row m"
      "h_size (row_perm m1) = h_size (row_perm m)" "col_perm m1 = col_perm m" "row_perm m1 = h1"
      using h1(2) by (auto simp: m1_def same_perm_def)
    have po: "perm_ok (h_size (row_perm m1)) g" using nd d1 by (auto simp: perm_ok_def gd)
    have hw1: "hdr_wf h1" using same_perm_wf[OF h1(2) hw] .
    define m2 where "m2 = dm_permute_rows m1 g"
    note ps = permute_rows_shape[OF wf_shape(1)[OF wf1] po, folded m2_def, unfolded gd]
    have d2: "rows m2 = ?n" "cols m2 = cols m" "bits m2 = bits m" "bits_per_row m2 = bits_per_row m"
      "colp m2 = colp m" "row_perm m2 = apply_permutation_group h1 g" "h_size (row_perm m2) = h_size (row_perm m)"
      "h_size (col_perm m2) = h_size (col_perm m)"
      using ps(3) rg(2) d1 apply_group_frame(1)[OF hw1, of g] po by (auto simp: m2_def perm_ok_def)
    have c2: "cyc_next (rev [i + 1..<na + 1]) k < h_size (row_perm m)" if "k < h_size (row_perm m)" for k
      using cyc_next_lt[OF po] that d1 gd by simp
    have set2: "dm_is_set m2 k = dm_is_set m (cyc_next (rev [i + 1..<na + 1]) k)" if "k < h_size (row_perm m)" for k
      using ps(4)[of k] that d1 rg(4)[OF c2[OF that]] by (auto simp: fun_eq_iff)
    have ones2: "dm_ones_in_row m2 k = dm_ones_in_row m (cyc_next (rev [i + 1..<na + 1]) k)"
      if "k < h_size (row_perm m)" for k
      using ps(2)[of k] that d1 rg(3)[OF c2[OF that]] h1(2) apply_group_frame(2)[OF hw1, of g] po d2(6)
      by (simp add: dm_ones_in_row_def perm_ok_def same_perm_def)
    have col2: "dm_ones_in_col m2 = dm_ones_in_col m"
      using d2(5) d1 by (auto simp: dm_ones_in_col_def m2_def fun_eq_iff)
    define M where "M = (recount_row 1 m2 (Suc i))\<lparr>rows := Suc ?n\<rparr>"
    note X = insert_row_counts[OF wf i nd(3,4) ps(1) d2(7,8,2) set2 ones2 col2 M_def, unfolded d2]
    have us: "length (unmerge_spec i gs) = Suc ?n" using length_unmerge_spec[of i gs] x ne R(1) i by simp
    have "hdr_rep (row_perm M) (Suc ?n) (unmerge_spec i gs)"
      using h1(3) hdr_rep_cong[of "row_perm M" "row_perm m2"] X(7,8) d2(6,7) by simp
    moreover have "row_frame m M" using X by (simp add: row_frame_def)
    moreover have "unmerge_row m i = Inr M"
    proof -
      have org: "rowp m i = x" "group (h_data (row_perm m) ! x) = hd ys" "x \<noteq> hd ys"
        using R x nd(1) ne by (auto simp: grp_def link_cycle_def)
      have ad: "add_all (dm_create_permutation_group (h_size (row_perm m1)) True) (rev [i + 1..<na + 1]) = Inr g"
        unfolding g_def d1(5) using nd(4) by (intro create_add_all) auto
      have "unmerge_row m i = result_bind (unmerge_group (row_perm m) x) (\<lambda>h.
           let m = m\<lparr>row_perm := h\<rparr>
           in result_bind (add_all (dm_create_permutation_group (h_size (row_perm m)) True)
                (rev [i + 1..<na + 1])) (\<lambda>g.
                let m = dm_permute_rows m g; m = count_row m (min na i + 1)
                in Inr (m\<lparr>rows := rows m + 1\<rparr>)))"
        unfolding unmerge_row_def Let_def org(1,2) na_def using org(3) by simp
      also have "\<dots> = Inr ((recount_row 1 m2 (min na i + 1))\<lparr>rows := rows (recount_row 1 m2 (min na i + 1)) + 1\<rparr>)"
        unfolding h1(1) result_bind_simps m1_def[symmetric] Let_def ad m2_def[symmetric] count_row_def ..
      finally show ?thesis
        using recount_row_rows[OF ps(1), of "Suc i" 1] d2 i nd(3,4) by (simp add: M_def min_def)
    qed
    ultimately show ?thesis using X us by (auto simp: rows_rep_def)
  qed
qed

end
