(* ===== verification/Dm_Merge_Cols.thy ===== *)
theory Dm_Merge_Cols
  imports Dm_Merge
begin

text \<open>
  Merging and splitting of columns: the column counterparts of the lemmas about rows in
  \<^verbatim>\<open>Dm_Merge\<close>, over the same representation of a header as a list of groups.
\<close>

section \<open>Counts\<close>

lemma recount_col_loop:
  assumes m: "dm_shape m" and col: "col < h_size (col_perm m)" and n: "n \<le> h_size (row_perm m)"
    and M: "M = fold (\<lambda>i m. if dm_is_set m i col
       then m\<lparr>col_perm := hdr_add_count (colp m col) d (col_perm m),
              row_perm := hdr_add_count (rowp m i) d (row_perm m)\<rparr> else m) [0..<n] m"
  shows "\<exists>rc cc. M = m\<lparr>col_perm := (col_perm m)\<lparr>h_count := rc\<rparr>, row_perm := (row_perm m)\<lparr>h_count := cc\<rparr>\<rparr>
    \<and> length rc = h_size (col_perm m) \<and> length cc = h_size (row_perm m)
    \<and> (\<forall>i < h_size (col_perm m). rc ! colp m i = dm_ones_in_col m i
         + (if i = col then d * int (count_below (\<lambda>x. dm_is_set m x col) n) else 0))
    \<and> (\<forall>j < h_size (row_perm m). cc ! rowp m j = dm_ones_in_row m j
         + (if j < n \<and> dm_is_set m j col then d else 0))"
  using n M
proof (induction n arbitrary: M)
  case 0
  have "length (h_count (col_perm m)) = h_size (col_perm m)" "length (h_count (row_perm m)) = h_size (row_perm m)"
    using m by (auto simp: dm_shape_def hdr_wf_def)
  with 0 show ?case
    by (intro exI[of _ "h_count (col_perm m)"] exI[of _ "h_count (row_perm m)"])
      (simp add: dm_ones_in_col_def dm_ones_in_row_def)
next
  case (Suc n)
  let ?f = "\<lambda>i m. if dm_is_set m i col
       then m\<lparr>col_perm := hdr_add_count (colp m col) d (col_perm m),
              row_perm := hdr_add_count (rowp m i) d (row_perm m)\<rparr> else m"
  from Suc obtain rc cc where IH: "fold ?f [0..<n] m
      = m\<lparr>col_perm := (col_perm m)\<lparr>h_count := rc\<rparr>, row_perm := (row_perm m)\<lparr>h_count := cc\<rparr>\<rparr>"
    "length rc = h_size (col_perm m)" "length cc = h_size (row_perm m)"
    "\<forall>i < h_size (col_perm m). rc ! colp m i = dm_ones_in_col m i
         + (if i = col then d * int (count_below (\<lambda>x. dm_is_set m x col) n) else 0)"
    "\<forall>j < h_size (row_perm m). cc ! rowp m j = dm_ones_in_row m j
         + (if j < n \<and> dm_is_set m j col then d else 0)" by auto
  let ?m = "m\<lparr>col_perm := (col_perm m)\<lparr>h_count := rc\<rparr>, row_perm := (row_perm m)\<lparr>h_count := cc\<rparr>\<rparr>"
  have same: "dm_is_set ?m n col = dm_is_set m n col" "colp ?m col = colp m col" "rowp ?m n = rowp m n"
    by (simp_all add: dm_is_set_def colp_def rowp_def)
  have M: "M = ?f n ?m" using Suc.prems IH(1) by simp
  have lt: "colp m col < h_size (col_perm m)" "rowp m n < h_size (row_perm m)"
    using shape_colp[OF m col] shape_rowp[OF m] Suc.prems(1) by auto
  have inj: "i < h_size (col_perm m) \<Longrightarrow> colp m i = colp m col \<longleftrightarrow> i = col"
    "j < h_size (row_perm m) \<Longrightarrow> rowp m j = rowp m n \<longleftrightarrow> j = n" for i j
    using colp_inj[OF m] rowp_inj[OF m] col Suc.prems(1) by auto
  show ?case
  proof (cases "dm_is_set m n col")
    case True
    let ?rc = "rc[colp m col := rc ! colp m col + d]" and ?cc = "cc[rowp m n := cc ! rowp m n + d]"
    have "M = m\<lparr>col_perm := (col_perm m)\<lparr>h_count := ?rc\<rparr>, row_perm := (row_perm m)\<lparr>h_count := ?cc\<rparr>\<rparr>"
      using M True same by (simp add: hdr_add_count_def)
    moreover have "?rc ! colp m i = dm_ones_in_col m i
        + (if i = col then d * int (count_below (\<lambda>x. dm_is_set m x col) (Suc n)) else 0)"
      if "i < h_size (col_perm m)" for i
      using that IH(2,4) lt(1) inj(1)[OF that] True
      by (cases "i = col") (simp_all add: count_below_Suc algebra_simps)
    moreover have "?cc ! rowp m j = dm_ones_in_row m j + (if j < Suc n \<and> dm_is_set m j col then d else 0)"
      if "j < h_size (row_perm m)" for j
      using that IH(3,5) lt(2) inj(2)[OF that] True
      by (cases "j = n") (simp_all add: less_Suc_eq)
    ultimately show ?thesis using IH(2,3) by (intro exI[of _ ?rc] exI[of _ ?cc]) simp
  next
    case False
    then show ?thesis
      using M IH(2-5) same by (intro exI[of _ rc] exI[of _ cc]) (auto simp: count_below_Suc less_Suc_eq)
  qed
qed

definition cols_rep :: "matrix \<Rightarrow> nat list list \<Rightarrow> bool" where
  "cols_rep m gs \<longleftrightarrow> dm_wf m \<and> hdr_rep (col_perm m) (cols m) gs"

lemma recount_col_ok:
  assumes "dm_shape m" and "col < h_size (col_perm m)"
  shows "\<exists>rc cc. recount_col d m col
      = m\<lparr>col_perm := (col_perm m)\<lparr>h_count := rc\<rparr>, row_perm := (row_perm m)\<lparr>h_count := cc\<rparr>\<rparr>
    \<and> length rc = h_size (col_perm m) \<and> length cc = h_size (row_perm m)
    \<and> (\<forall>i < h_size (col_perm m). rc ! colp m i = dm_ones_in_col m i
         + (if i = col then d * int (count_below (\<lambda>x. dm_is_set m x col) (rows m)) else 0))
    \<and> (\<forall>j < h_size (row_perm m). cc ! rowp m j = dm_ones_in_row m j
         + (if j < rows m \<and> dm_is_set m j col then d else 0))"
  using recount_col_loop[OF assms, of "rows m"] assms(1)
  by (simp add: recount_col_def dm_nrows_def dm_shape_def)

lemma recount_reshape_col:
  assumes m: "dm_shape m" and col: "col < h_size (col_perm m)" and n: "n \<le> h_size (col_perm m)"
    and M: "M = (recount_col d m col)\<lparr>cols := n\<rparr>"
    and r: "\<And>i. i < h_size (col_perm m) \<Longrightarrow> dm_ones_in_col m i
         + (if i = col then d * int (count_below (\<lambda>x. dm_is_set m x col) (rows m)) else 0)
         = (if i < n then int (count_below (\<lambda>x. dm_is_set m x i) (rows m)) else 0)"
    and c: "\<And>j. j < h_size (row_perm m) \<Longrightarrow> dm_ones_in_row m j
         + (if j < rows m \<and> dm_is_set m j col then d else 0)
         = (if j < rows m then int (count_below (\<lambda>i. dm_is_set m j i) n) else 0)"
  shows "dm_wf M" and "colp M = colp m" and "rowp M = rowp m" and "dm_is_set M = dm_is_set m"
    and "cols M = n" and "rows M = rows m" and "bits M = bits m" and "bits_per_row M = bits_per_row m"
    and "h_data (col_perm M) = h_data (col_perm m)" and "h_size (col_perm M) = h_size (col_perm m)"
    and "h_data (row_perm M) = h_data (row_perm m)" and "h_size (row_perm M) = h_size (row_perm m)"
proof -
  obtain rc cc where R: "recount_col d m col
      = m\<lparr>col_perm := (col_perm m)\<lparr>h_count := rc\<rparr>, row_perm := (row_perm m)\<lparr>h_count := cc\<rparr>\<rparr>"
    "length rc = h_size (col_perm m)" "length cc = h_size (row_perm m)"
    "\<forall>i < h_size (col_perm m). rc ! colp m i = dm_ones_in_col m i
         + (if i = col then d * int (count_below (\<lambda>x. dm_is_set m x col) (rows m)) else 0)"
    "\<forall>j < h_size (row_perm m). cc ! rowp m j = dm_ones_in_row m j
         + (if j < rows m \<and> dm_is_set m j col then d else 0)"
    using recount_col_ok[OF m col] by blast
  show rp: "colp M = colp m" and cp: "rowp M = rowp m"
    by (simp_all add: M R colp_def rowp_def fun_eq_iff)
  show s: "dm_is_set M = dm_is_set m" using rp cp by (simp add: M R dm_is_set_def fun_eq_iff)
  show "cols M = n" "rows M = rows m" "bits M = bits m" "bits_per_row M = bits_per_row m"
    "h_data (col_perm M) = h_data (col_perm m)" "h_size (col_perm M) = h_size (col_perm m)"
    "h_data (row_perm M) = h_data (row_perm m)" "h_size (row_perm M) = h_size (row_perm m)"
    by (simp_all add: M R)
  have o: "dm_ones_in_col M i = rc ! colp m i" "dm_ones_in_row M j = cc ! rowp m j" for i j
    by (simp_all add: dm_ones_in_col_def dm_ones_in_row_def rp cp) (simp_all add: M R)
  have "dm_shape M" using m n by (simp add: dm_shape_def hdr_wf_def M R)
  moreover have "dm_counts M"
    unfolding dm_counts_def o s using R(4,5) r c by (simp add: M R(1))
  ultimately show "dm_wf M" by (simp add: dm_wf_def)
qed

lemma regroup_cols:
  assumes m: "dm_shape m" and h: "same_perm (col_perm m) h"
  shows "dm_shape (m\<lparr>col_perm := h\<rparr>)" and "rowp (m\<lparr>col_perm := h\<rparr>) = rowp m"
    and "i < h_size (col_perm m) \<Longrightarrow> colp (m\<lparr>col_perm := h\<rparr>) i = colp m i"
    and "i < h_size (col_perm m) \<Longrightarrow> dm_is_set (m\<lparr>col_perm := h\<rparr>) y i = dm_is_set m y i"
    and "i < h_size (col_perm m) \<Longrightarrow> dm_ones_in_col (m\<lparr>col_perm := h\<rparr>) i = dm_ones_in_col m i"
    and "dm_ones_in_row (m\<lparr>col_perm := h\<rparr>) = dm_ones_in_row m"
proof -
  have sz: "h_size h = h_size (col_perm m)" using h by (simp add: same_perm_def)
  show "dm_shape (m\<lparr>col_perm := h\<rparr>)"
    using m same_perm_wf[OF h] sz by (simp add: dm_shape_def)
  show c: "rowp (m\<lparr>col_perm := h\<rparr>) = rowp m" by (simp add: rowp_def fun_eq_iff)
  show r: "i < h_size (col_perm m) \<Longrightarrow> colp (m\<lparr>col_perm := h\<rparr>) i = colp m i"
    using h m by (simp add: same_perm_def colp_def dm_shape_def hdr_wf_def)
  then show "i < h_size (col_perm m) \<Longrightarrow> dm_is_set (m\<lparr>col_perm := h\<rparr>) y i = dm_is_set m y i"
    using c by (simp add: dm_is_set_def fun_eq_iff)
  show "i < h_size (col_perm m) \<Longrightarrow> dm_ones_in_col (m\<lparr>col_perm := h\<rparr>) i = dm_ones_in_col m i"
    using r h by (simp add: dm_ones_in_col_def same_perm_def)
  show "dm_ones_in_row (m\<lparr>col_perm := h\<rparr>) = dm_ones_in_row m"
    using c by (simp add: dm_ones_in_row_def fun_eq_iff)
qed

text \<open>What merging and splitting cols leaves alone.\<close>

definition col_frame :: "matrix \<Rightarrow> matrix \<Rightarrow> bool" where
  "col_frame m m' \<longleftrightarrow> rows m' = rows m \<and> bits m' = bits m \<and> bits_per_row m' = bits_per_row m
     \<and> rowp m' = rowp m \<and> h_size (col_perm m') = h_size (col_perm m)"

lemma col_frame_refl [simp]: "col_frame m m"
  by (simp add: col_frame_def)

lemma col_frame_trans: "col_frame a b \<Longrightarrow> col_frame b c \<Longrightarrow> col_frame a c"
  by (simp add: col_frame_def)

lemma regroup_cols_wf:
  assumes wf: "dm_wf m" and h: "same_perm (col_perm m) h"
  shows "dm_wf (m\<lparr>col_perm := h\<rparr>)"
proof -
  note sh = wf_shape[OF wf]
  note rg = regroup_cols[OF sh(1) h]
  have sz: "h_size h = h_size (col_perm m)" using h by (simp add: same_perm_def)
  have c: "count_below (\<lambda>i. dm_is_set (m\<lparr>col_perm := h\<rparr>) j i) (cols m) = count_below (\<lambda>i. dm_is_set m j i) (cols m)" for j
    using rg(4) sh(5) by (intro count_below_cong) simp
  have "dm_counts m" using wf by (simp add: dm_wf_def)
  then have "dm_counts (m\<lparr>col_perm := h\<rparr>)"
    unfolding dm_counts_def rg(6) by (simp add: sz rg(4,5) c)
  with rg(1) show ?thesis by (simp add: dm_wf_def)
qed

lemma recount_col_cols: "dm_shape m \<Longrightarrow> col < h_size (col_perm m) \<Longrightarrow> cols (recount_col d m col) = cols m"
  using recount_col_ok[of m col d] by auto

lemma drop_last_col:
  assumes wf: "dm_wf m" and n: "0 < cols m"
    and M: "M = (recount_col (-1) m (cols m - 1))\<lparr>cols := cols m - 1\<rparr>"
  shows "dm_wf M" and "rowp M = rowp m" and "cols M = cols m - 1" and "rows M = rows m" and "bits M = bits m"
    and "bits_per_row M = bits_per_row m" and "h_data (col_perm M) = h_data (col_perm m)"
    and "h_size (col_perm M) = h_size (col_perm m)"
proof -
  note sh = wf_shape[OF wf]
  have cnt: "dm_counts m" using wf by (simp add: dm_wf_def)
  obtain k where k: "cols m = Suc k" using n by (cases "cols m") auto
  have A: "cols m - 1 < h_size (col_perm m)" "cols m - 1 \<le> h_size (col_perm m)" using sh(3) n by auto
  have R: "dm_ones_in_col m i + (if i = cols m - 1 then - 1 * int (count_below (\<lambda>x. dm_is_set m x (cols m - 1)) (rows m)) else 0)
         = (if i < cols m - 1 then int (count_below (\<lambda>x. dm_is_set m x i) (rows m)) else 0)"
    if "i < h_size (col_perm m)" for i
    using that cnt k by (auto simp: dm_counts_def less_Suc_eq)
  have C: "dm_ones_in_row m j + (if j < rows m \<and> dm_is_set m j (cols m - 1) then - 1 else 0)
         = (if j < rows m then int (count_below (\<lambda>i. dm_is_set m j i) (cols m - 1)) else 0)"
    if "j < h_size (row_perm m)" for j
    using that cnt k by (auto simp: dm_counts_def count_below_Suc)
  note X = recount_reshape_col[OF sh(1) A M R C]
  show "dm_wf M" "rowp M = rowp m" "cols M = cols m - 1" "rows M = rows m" "bits M = bits m"
    "bits_per_row M = bits_per_row m" "h_data (col_perm M) = h_data (col_perm m)"
    "h_size (col_perm M) = h_size (col_perm m)" using X by auto
qed

lemma merge_cols_ok:
  assumes rep: "cols_rep m gs" and a: "a < cols m" and b: "b < cols m" and ab: "a \<noteq> b"
  shows "\<exists>m'. merge_cols m a b = Inr m' \<and> cols_rep m' (merge_spec a b gs) \<and> cols m' = cols m - 1
    \<and> col_frame m m'"
proof -
  let ?n = "cols m" and ?a = "if b < a then a - 1 else a"
  define g where "g = \<lparr>g_data_size = cols m, g_fixed_size = True, g_data = [b..<cols m]\<rparr>"
  have wf: "dm_wf m" and hr: "hdr_rep (col_perm m) ?n gs" using rep by (auto simp: cols_rep_def)
  note sh = wf_shape[OF wf]
  have po: "perm_ok ?n g" by (auto simp: perm_ok_def g_def)
  note po' = perm_ok_mono[OF po sh(3)]
  define m1 where "m1 = dm_permute_cols m g"
  have wf1: "dm_wf m1" using permute_cols_wf(1)[OF wf po] by (simp add: m1_def)
  have hw: "hdr_wf (col_perm m)" using sh by (simp add: dm_shape_def)
  have h1: "col_perm m1 = apply_permutation_group (col_perm m) g" by (simp add: m1_def)
  have d1: "cols m1 = ?n" "rows m1 = rows m" "bits m1 = bits m" "bits_per_row m1 = bits_per_row m"
    "rowp m1 = rowp m" "h_size (col_perm m1) = h_size (col_perm m)"
    using permute_cols_shape(3)[OF sh(1) po'] apply_group_frame(1)[OF hw] po' h1 by (auto simp: m1_def perm_ok_def)
  have gd: "g_data g = [b..<?n]" by (simp add: g_def)
  from hdr_merge[OF hw hr sh(3) a b ab gd h1 refl] obtain h2 where h2:
    "merge_group (col_perm m1) (colp m1 (?n - 1)) (colp m1 ?a) = Inr h2"
    "same_perm (col_perm m1) h2" "hdr_rep h2 (?n - 1) (merge_spec a b gs)" unfolding colp_def by blast
  define m2 where "m2 = m1\<lparr>col_perm := h2\<rparr>"
  have wf2: "dm_wf m2" using regroup_cols_wf[OF wf1 h2(2)] by (simp add: m2_def)
  have d2: "cols m2 = ?n" "rows m2 = rows m" "bits m2 = bits m" "bits_per_row m2 = bits_per_row m"
    "rowp m2 = rowp m" "col_perm m2 = h2" "h_size h2 = h_size (col_perm m)"
    using d1 regroup_cols(2)[OF wf_shape(1)[OF wf1] h2(2)] h2(2) by (auto simp: m2_def same_perm_def)
  define M where "M = (recount_col (-1) m2 (?n - 1))\<lparr>cols := ?n - 1\<rparr>"
  note X = drop_last_col[OF wf2, of M, unfolded d2]
  have "hdr_rep (col_perm M) (?n - 1) (merge_spec a b gs)"
    using h2(3) hdr_rep_cong[of "col_perm M" h2] X(7,8) a d2(7) by (simp add: M_def)
  moreover have "dm_wf M" "cols M = ?n - 1" "col_frame m M" using X a by (simp_all add: M_def col_frame_def)
  moreover have "merge_cols m a b = Inr M"
  proof -
    have "merge_cols m a b = result_bind (merge_group (col_perm m1) (colp m1 (?n - 1)) (colp m1 ?a))
      (\<lambda>h. let m = uncount_col (m1\<lparr>col_perm := h\<rparr>) (?n - 1) in Inr (m\<lparr>cols := cols m - 1\<rparr>))"
      unfolding merge_cols_def dm_ncols_def Let_def m1_def g_def using ab by (simp add: create_add_all)
    then show ?thesis
      unfolding h2(1) result_bind_simps m2_def[symmetric] Let_def uncount_col_def M_def
      using recount_col_cols[OF wf_shape(1)[OF wf2], of "?n - 1" "-1"] a sh(3) d2 by simp
  qed
  ultimately show ?thesis by (auto simp: cols_rep_def)
qed

text \<open>
  The state after the permutation of \<^verbatim>\<open>unmerge_col_\<close>: the col that sat at the dead place \<open>na\<close> is at
  place \<open>i + 1\<close>, and the live cols behind \<open>i\<close> have moved up by one.
\<close>

lemma insert_col_counts:
  assumes wf: "dm_wf m" and i: "i < cols m" and na: "cols m \<le> na" "na < h_size (col_perm m)"
    and s2: "dm_shape m2" and sz: "h_size (col_perm m2) = h_size (col_perm m)" "h_size (row_perm m2) = h_size (row_perm m)"
      "rows m2 = rows m"
    and is_set: "\<And>k y. k < h_size (col_perm m) \<Longrightarrow> dm_is_set m2 y k = dm_is_set m y (cyc_next (rev [i + 1..<na + 1]) k)"
    and ones: "\<And>k. k < h_size (col_perm m) \<Longrightarrow> dm_ones_in_col m2 k = dm_ones_in_col m (cyc_next (rev [i + 1..<na + 1]) k)"
    and row: "dm_ones_in_row m2 = dm_ones_in_row m"
    and M: "M = (recount_col 1 m2 (Suc i))\<lparr>cols := Suc (cols m)\<rparr>"
  shows "dm_wf M" and "rowp M = rowp m2" and "cols M = Suc (cols m)" and "rows M = rows m" and "bits M = bits m2"
    and "bits_per_row M = bits_per_row m2" and "h_data (col_perm M) = h_data (col_perm m2)"
    and "h_size (col_perm M) = h_size (col_perm m)"
proof -
  note sh = wf_shape[OF wf]
  have cnt: "dm_counts m" using wf by (simp add: dm_wf_def)
  let ?c = "cyc_next (rev [i + 1..<na + 1])"
  have c: "?c k = (if k \<le> i \<or> na < k then k else if k = Suc i then na else k - 1)" for k
    using cyc_next_rev_upt[of "i + 1" "na + 1" k] i na by auto
  have clt: "?c k < h_size (col_perm m)" if "k < h_size (col_perm m)" for k using c that na by auto
  have A: "Suc i < h_size (col_perm m2)" "Suc (cols m) \<le> h_size (col_perm m2)" using i na sz by auto
  have R: "dm_ones_in_col m2 k + (if k = Suc i then 1 * int (count_below (\<lambda>x. dm_is_set m2 x (Suc i)) (rows m2)) else 0)
         = (if k < Suc (cols m) then int (count_below (\<lambda>x. dm_is_set m2 x k) (rows m2)) else 0)"
    if k: "k < h_size (col_perm m2)" for k
  proof -
    have k': "k < h_size (col_perm m)" using k sz by simp
    have o: "dm_ones_in_col m2 k = (if ?c k < cols m then int (count_below (\<lambda>x. dm_is_set m2 x k) (rows m)) else 0)"
      using ones[OF k'] is_set[OF k'] clt[OF k'] cnt by (simp add: dm_counts_def)
    have "?c k < cols m \<longleftrightarrow> k < Suc (cols m) \<and> k \<noteq> Suc i" using c[of k] i na by auto
    then show ?thesis using o sz i by auto
  qed
  have C: "dm_ones_in_row m2 j + (if j < rows m2 \<and> dm_is_set m2 j (Suc i) then 1 else 0)
         = (if j < rows m2 then int (count_below (\<lambda>i. dm_is_set m2 j i) (Suc (cols m))) else 0)"
    if j: "j < h_size (row_perm m2)" for j
  proof -
    have "count_below (\<lambda>k. dm_is_set m2 j k) (Suc (cols m))
        = count_below (\<lambda>k. dm_is_set m j (if k \<le> i then k else if k = Suc i then na else k - 1)) (Suc (cols m))"
      using is_set c na by (intro count_below_cong) auto
    also have "\<dots> = count_below (\<lambda>k. dm_is_set m j k) (cols m) + (if dm_is_set m j na then 1 else 0)"
      using count_below_shift[OF i, of "\<lambda>k. dm_is_set m j k" na] by simp
    finally show ?thesis using cnt j sz row is_set[of "Suc i"] c[of "Suc i"] i na by (auto simp: dm_counts_def)
  qed
  note X = recount_reshape_col[OF s2 A M R C]
  show "dm_wf M" "rowp M = rowp m2" "cols M = Suc (cols m)" "rows M = rows m" "bits M = bits m2"
    "bits_per_row M = bits_per_row m2" "h_data (col_perm M) = h_data (col_perm m2)"
    "h_size (col_perm M) = h_size (col_perm m)" using X sz by auto
qed

lemma unmerge_col_ok:
  assumes rep: "cols_rep m gs" and i: "i < cols m"
  shows "\<exists>m'. unmerge_col m i = Inr m' \<and> cols_rep m' (unmerge_spec i gs)
    \<and> cols m' = length (unmerge_spec i gs) \<and> col_frame m m'"
proof -
  let ?n = "cols m"
  have wf: "dm_wf m" and hr: "hdr_rep (col_perm m) ?n gs" using rep by (auto simp: cols_rep_def)
  note sh = wf_shape[OF wf]
  have hw: "hdr_wf (col_perm m)" using sh by (simp add: dm_shape_def)
  have R: "length gs = ?n" "link_cycle (grp (col_perm m)) (gs ! i)" "hd (gs ! i) = colp m i"
    using hr i by (auto simp: hdr_rep_def colp_def)
  then obtain x ys where x: "gs ! i = x # ys" by (cases "gs ! i") (auto simp: link_cycle_def)
  show ?thesis
  proof (cases "ys = []")
    case True
    then have "group (h_data (col_perm m) ! x) = x" using R(2) x by (simp add: link_cycle_def grp_def)
    then have "unmerge_col m i = Inr m" using R(3) x by (simp add: unmerge_col_def Let_def)
    moreover have "unmerge_spec i gs = gs" using x True by (simp add: unmerge_spec_def)
    ultimately show ?thesis using rep R(1) by simp
  next
    case ne: False
    define na where "na = at (h_data (col_perm m) ! hd ys)"
    note nd = hdr_next_dead[OF hw hr sh(3) i x ne, folded na_def]
    define g where "g = \<lparr>g_data_size = h_size (col_perm m), g_fixed_size = True, g_data = rev [i + 1..<na + 1]\<rparr>"
    have gd: "g_data g = rev [i + 1..<na + 1]" by (simp add: g_def)
    from hdr_unmerge[OF hw hr sh(3) i x ne na_def gd] obtain h1 where h1:
      "unmerge_group (col_perm m) x = Inr h1" "same_perm (col_perm m) h1"
      "hdr_rep (apply_permutation_group h1 g) (Suc ?n) (unmerge_spec i gs)" by blast
    define m1 where "m1 = m\<lparr>col_perm := h1\<rparr>"
    have wf1: "dm_wf m1" using regroup_cols_wf[OF wf h1(2)] by (simp add: m1_def)
    note rg = regroup_cols[OF sh(1) h1(2), folded m1_def]
    have d1: "cols m1 = ?n" "rows m1 = rows m" "bits m1 = bits m" "bits_per_row m1 = bits_per_row m"
      "h_size (col_perm m1) = h_size (col_perm m)" "row_perm m1 = row_perm m" "col_perm m1 = h1"
      using h1(2) by (auto simp: m1_def same_perm_def)
    have po: "perm_ok (h_size (col_perm m1)) g" using nd d1 by (auto simp: perm_ok_def gd)
    have hw1: "hdr_wf h1" using same_perm_wf[OF h1(2) hw] .
    define m2 where "m2 = dm_permute_cols m1 g"
    note ps = permute_cols_shape[OF wf_shape(1)[OF wf1] po, folded m2_def, unfolded gd]
    have d2: "cols m2 = ?n" "rows m2 = rows m" "bits m2 = bits m" "bits_per_row m2 = bits_per_row m"
      "rowp m2 = rowp m" "col_perm m2 = apply_permutation_group h1 g" "h_size (col_perm m2) = h_size (col_perm m)"
      "h_size (row_perm m2) = h_size (row_perm m)"
      using ps(3) rg(2) d1 apply_group_frame(1)[OF hw1, of g] po by (auto simp: m2_def perm_ok_def)
    have c2: "cyc_next (rev [i + 1..<na + 1]) k < h_size (col_perm m)" if "k < h_size (col_perm m)" for k
      using cyc_next_lt[OF po] that d1 gd by simp
    have set2: "dm_is_set m2 y k = dm_is_set m y (cyc_next (rev [i + 1..<na + 1]) k)" if "k < h_size (col_perm m)" for k y
      using ps(4)[of k] that d1 rg(4)[OF c2[OF that]] by (auto simp: fun_eq_iff)
    have ones2: "dm_ones_in_col m2 k = dm_ones_in_col m (cyc_next (rev [i + 1..<na + 1]) k)"
      if "k < h_size (col_perm m)" for k
      using ps(2)[of k] that d1 rg(3)[OF c2[OF that]] h1(2) apply_group_frame(2)[OF hw1, of g] po d2(6)
      by (simp add: dm_ones_in_col_def perm_ok_def same_perm_def)
    have row2: "dm_ones_in_row m2 = dm_ones_in_row m"
      using d2(5) d1 by (auto simp: dm_ones_in_row_def m2_def fun_eq_iff)
    define M where "M = (recount_col 1 m2 (Suc i))\<lparr>cols := Suc ?n\<rparr>"
    note X = insert_col_counts[OF wf i nd(3,4) ps(1) d2(7,8,2) set2 ones2 row2 M_def, unfolded d2]
    have us: "length (unmerge_spec i gs) = Suc ?n" using length_unmerge_spec[of i gs] x ne R(1) i by simp
    have "hdr_rep (col_perm M) (Suc ?n) (unmerge_spec i gs)"
      using h1(3) hdr_rep_cong[of "col_perm M" "col_perm m2"] X(7,8) d2(6,7) by simp
    moreover have "col_frame m M" using X by (simp add: col_frame_def)
    moreover have "unmerge_col m i = Inr M"
    proof -
      have org: "colp m i = x" "group (h_data (col_perm m) ! x) = hd ys" "x \<noteq> hd ys"
        using R x nd(1) ne by (auto simp: grp_def link_cycle_def)
      have ad: "add_all (dm_create_permutation_group (h_size (col_perm m1)) True) (rev [i + 1..<na + 1]) = Inr g"
        unfolding g_def d1(5) using nd(4) by (intro create_add_all) auto
      have "unmerge_col m i = result_bind (unmerge_group (col_perm m) x) (\<lambda>h.
           let m = m\<lparr>col_perm := h\<rparr>
           in result_bind (add_all (dm_create_permutation_group (h_size (col_perm m)) True)
                (rev [i + 1..<na + 1])) (\<lambda>g.
                let m = dm_permute_cols m g; m = count_col m (min na i + 1)
                in Inr (m\<lparr>cols := cols m + 1\<rparr>)))"
        unfolding unmerge_col_def Let_def org(1,2) na_def using org(3) by simp
      also have "\<dots> = Inr ((recount_col 1 m2 (min na i + 1))\<lparr>cols := cols (recount_col 1 m2 (min na i + 1)) + 1\<rparr>)"
        unfolding h1(1) result_bind_simps m1_def[symmetric] Let_def ad m2_def[symmetric] count_col_def ..
      finally show ?thesis
        using recount_col_cols[OF ps(1), of "Suc i" 1] d2 i nd(3,4) by (simp add: M_def min_def)
    qed
    ultimately show ?thesis using X us by (auto simp: cols_rep_def)
  qed
qed

end
