(* ===== verification/Dm_Nub.thy ===== *)
theory Dm_Nub
  imports Dm_Merge_Cols
begin

text \<open>
  The loops that merge or split whole matrices (\<^verbatim>\<open>dm_nub_rows\<close>, \<^verbatim>\<open>dm_nub_cols\<close>, \<^verbatim>\<open>dm_subsume_rows\<close>,
  \<^verbatim>\<open>dm_ungroup_rows\<close>, \<^verbatim>\<open>dm_ungroup_cols\<close> of \<^verbatim>\<open>src/src/dm/dm.c\<close>) and the callbacks that the regrouping
  layer gives them (\<^verbatim>\<open>src/src/pins-lib/pins2pins-group.c\<close>). The loops are verified over the interface
  \<open>line_groups\<close>, which states what merging and splitting do to the list of groups; it is
  interpreted on the rows and on the columns.
\<close>

section \<open>Model\<close>

lemma recount_row_rows_any: "rows (recount_row d m row) = rows m"
  unfolding recount_row_def by (rule fold_invariant[where P = "\<lambda>m'. rows m' = rows m"]) auto

lemma recount_col_cols_any: "cols (recount_col d m col) = cols m"
  unfolding recount_col_def by (rule fold_invariant[where P = "\<lambda>m'. cols m' = cols m"]) auto

lemma merge_rows_rows: "merge_rows m a b = Inr m' \<Longrightarrow> rows m' = rows m - 1"
  by (auto simp: merge_rows_def result_bind_Inr Let_def uncount_row_def recount_row_rows_any split: if_splits)

lemma merge_cols_cols: "merge_cols m a b = Inr m' \<Longrightarrow> cols m' = cols m - 1"
  by (auto simp: merge_cols_def result_bind_Inr Let_def uncount_col_def recount_col_cols_any split: if_splits)

text \<open>The inner loop of \<^verbatim>\<open>dm_nub_rows\<close>; the callback \<open>fn\<close> has its context applied.\<close>

function nub_rows_inner :: "(matrix \<Rightarrow> nat \<Rightarrow> nat \<Rightarrow> bool) \<Rightarrow> nat \<Rightarrow> nat \<Rightarrow> matrix \<Rightarrow> matrix result" where
  "nub_rows_inner fn i j m =
     (if j < dm_nrows m
      then if fn m i j then result_bind (merge_rows m i j) (nub_rows_inner fn i j)
           else nub_rows_inner fn i (j + 1) m
      else Inr m)"
  by pat_completeness auto
termination
  by (relation "measure (\<lambda>(fn, i, j, m). rows m - j)") (auto simp: dm_nrows_def dest: merge_rows_rows)

declare nub_rows_inner.simps [simp del]

lemma nub_rows_inner_rows: "nub_rows_inner fn i j m = Inr m' \<Longrightarrow> rows m' \<le> rows m"
proof (induction fn i j m rule: nub_rows_inner.induct)
  case (1 fn i j m)
  have step: "rows m' \<le> rows m" if "j < dm_nrows m" "fn m i j" "merge_rows m i j = Inr x"
      "nub_rows_inner fn i j x = Inr m'" for x
    using "1.IH"(1)[OF that] merge_rows_rows[OF that(3)] by simp
  from "1.prems" show ?case
    by (subst (asm) nub_rows_inner.simps) (auto simp: result_bind_Inr split: if_splits dest: step "1.IH"(2))
qed

function nub_rows_from :: "(matrix \<Rightarrow> nat \<Rightarrow> nat \<Rightarrow> bool) \<Rightarrow> nat \<Rightarrow> matrix \<Rightarrow> matrix result" where
  "nub_rows_from fn i m =
     (if i < dm_nrows m
      then result_bind (nub_rows_inner fn i (i + 1) m) (nub_rows_from fn (i + 1))
      else Inr m)"
  by pat_completeness auto
termination
  by (relation "measure (\<lambda>(fn, i, m). rows m - i)") (auto simp: dm_nrows_def dest!: nub_rows_inner_rows)

declare nub_rows_from.simps [simp del]

definition dm_nub_rows :: "matrix \<Rightarrow> (matrix \<Rightarrow> nat \<Rightarrow> nat \<Rightarrow> bool) \<Rightarrow> matrix result" where
  "dm_nub_rows m fn = nub_rows_from fn 0 m"

function nub_cols_inner :: "(matrix \<Rightarrow> nat \<Rightarrow> nat \<Rightarrow> bool) \<Rightarrow> nat \<Rightarrow> nat \<Rightarrow> matrix \<Rightarrow> matrix result" where
  "nub_cols_inner fn i j m =
     (if j < dm_ncols m
      then if fn m i j then result_bind (merge_cols m i j) (nub_cols_inner fn i j)
           else nub_cols_inner fn i (j + 1) m
      else Inr m)"
  by pat_completeness auto
termination
  by (relation "measure (\<lambda>(fn, i, j, m). cols m - j)") (auto simp: dm_ncols_def dest: merge_cols_cols)

declare nub_cols_inner.simps [simp del]

lemma nub_cols_inner_cols: "nub_cols_inner fn i j m = Inr m' \<Longrightarrow> cols m' \<le> cols m"
proof (induction fn i j m rule: nub_cols_inner.induct)
  case (1 fn i j m)
  have step: "cols m' \<le> cols m" if "j < dm_ncols m" "fn m i j" "merge_cols m i j = Inr x"
      "nub_cols_inner fn i j x = Inr m'" for x
    using "1.IH"(1)[OF that] merge_cols_cols[OF that(3)] by simp
  from "1.prems" show ?case
    by (subst (asm) nub_cols_inner.simps) (auto simp: result_bind_Inr split: if_splits dest: step "1.IH"(2))
qed

function nub_cols_from :: "(matrix \<Rightarrow> nat \<Rightarrow> nat \<Rightarrow> bool) \<Rightarrow> nat \<Rightarrow> matrix \<Rightarrow> matrix result" where
  "nub_cols_from fn i m =
     (if i < dm_ncols m
      then result_bind (nub_cols_inner fn i (i + 1) m) (nub_cols_from fn (i + 1))
      else Inr m)"
  by pat_completeness auto
termination
  by (relation "measure (\<lambda>(fn, i, m). cols m - i)") (auto simp: dm_ncols_def dest!: nub_cols_inner_cols)

declare nub_cols_from.simps [simp del]

definition dm_nub_cols :: "matrix \<Rightarrow> (matrix \<Rightarrow> nat \<Rightarrow> nat \<Rightarrow> bool) \<Rightarrow> matrix result" where
  "dm_nub_cols m fn = nub_cols_from fn 0 m"

text \<open>The inner loop of \<^verbatim>\<open>dm_subsume_rows\<close> carries the flag \<^verbatim>\<open>row_i_removed\<close>.\<close>

function subsume_rows_inner ::
  "(matrix \<Rightarrow> nat \<Rightarrow> nat \<Rightarrow> bool) \<Rightarrow> nat \<Rightarrow> nat \<Rightarrow> bool \<Rightarrow> matrix \<Rightarrow> (bool \<times> matrix) result" where
  "subsume_rows_inner fn i j row_i_removed m =
     (if j < dm_nrows m
      then if fn m i j
           then result_bind (merge_rows m i j) (subsume_rows_inner fn i j row_i_removed)
           else if fn m j i
                then result_bind (merge_rows m j i) (subsume_rows_inner fn i (j + 1) True)
                else subsume_rows_inner fn i (j + 1) row_i_removed m
      else Inr (row_i_removed, m))"
  by pat_completeness auto
termination
  by (relation "measure (\<lambda>(fn, i, j, r, m). rows m - j)") (auto simp: dm_nrows_def dest!: merge_rows_rows)

declare subsume_rows_inner.simps [simp del]

lemma subsume_rows_inner_rows:
  "subsume_rows_inner fn i j r m = Inr (r', m') \<Longrightarrow> rows m' \<le> rows m \<and> (r' \<and> \<not> r \<longrightarrow> rows m' < rows m)"
proof (induction fn i j r m rule: subsume_rows_inner.induct)
  case (1 fn i j r m)
  have dec: "rows x < rows m" if "merge_rows m a b = Inr x" "j < rows m" for a b x
    using merge_rows_rows[OF that(1)] that(2) by simp
  show ?case
  proof (cases "j < dm_nrows m")
    case j: True
    note unf = "1.prems"[unfolded subsume_rows_inner.simps[of fn i j r m]]
    consider "fn m i j" | "\<not> fn m i j" "fn m j i" | "\<not> fn m i j" "\<not> fn m j i" by blast
    then show ?thesis
    proof cases
      case 1
      then obtain x where x: "merge_rows m i j = Inr x" "subsume_rows_inner fn i j r x = Inr (r', m')"
        using unf j by (auto simp: result_bind_Inr)
      show ?thesis using "1.IH"(1)[OF j 1 x] dec[OF x(1)] j by (simp add: dm_nrows_def)
    next
      case 2
      then obtain x where x: "merge_rows m j i = Inr x" "subsume_rows_inner fn i (j + 1) True x = Inr (r', m')"
        using unf j by (auto simp: result_bind_Inr)
      show ?thesis using "1.IH"(2)[OF j 2 x] dec[OF x(1)] j by (simp add: dm_nrows_def)
    next
      case 3
      then show ?thesis using "1.IH"(3)[OF j 3] unf j by simp
    qed
  qed (use "1.prems" in \<open>simp add: subsume_rows_inner.simps\<close>)
qed

function subsume_rows_from :: "(matrix \<Rightarrow> nat \<Rightarrow> nat \<Rightarrow> bool) \<Rightarrow> nat \<Rightarrow> matrix \<Rightarrow> matrix result" where
  "subsume_rows_from fn i m =
     (if i < dm_nrows m
      then result_bind (subsume_rows_inner fn i (i + 1) False m)
             (\<lambda>(row_i_removed, m). subsume_rows_from fn (if row_i_removed then i else i + 1) m)
      else Inr m)"
  by pat_completeness auto
termination
  by (relation "measure (\<lambda>(fn, i, m). rows m - i)") (auto simp: dm_nrows_def dest!: subsume_rows_inner_rows)

declare subsume_rows_from.simps [simp del]

definition dm_subsume_rows :: "matrix \<Rightarrow> (matrix \<Rightarrow> nat \<Rightarrow> nat \<Rightarrow> bool) \<Rightarrow> matrix result" where
  "dm_subsume_rows m fn = subsume_rows_from fn 0 m"

text \<open>The number of rows grows while \<^verbatim>\<open>dm_ungroup_rows\<close> runs; \<open>None\<close> is a loop that never ends.\<close>

partial_function (option) ungroup_rows_from :: "nat \<Rightarrow> matrix \<Rightarrow> matrix result option" where
  "ungroup_rows_from i m =
     (if i < dm_nrows m
      then (case unmerge_row m i of Inl e \<Rightarrow> Some (Inl e) | Inr m \<Rightarrow> ungroup_rows_from (i + 1) m)
      else Some (Inr m))"

definition dm_ungroup_rows :: "matrix \<Rightarrow> matrix result option" where
  "dm_ungroup_rows m = ungroup_rows_from 0 m"

partial_function (option) ungroup_cols_from :: "nat \<Rightarrow> matrix \<Rightarrow> matrix result option" where
  "ungroup_cols_from i m =
     (if i < dm_ncols m
      then (case unmerge_col m i of Inl e \<Rightarrow> Some (Inl e) | Inr m \<Rightarrow> ungroup_cols_from (i + 1) m)
      else Some (Inr m))"

definition dm_ungroup_cols :: "matrix \<Rightarrow> matrix result option" where
  "dm_ungroup_cols m = ungroup_cols_from 0 m"

text \<open>
  The callbacks of the regrouping layer. They compare original rows or columns, which they find
  through the permutation: a guard array is the list of its entries, the combined
  dependencies of all lines lie in one array with \<open>num_ints_per\<close> words per line.
\<close>

record group_info =
  gi_guards :: "nat list list option"
  combined :: "u64 list"
  num_ints_per :: nat

definition eq_guards :: "nat list list \<Rightarrow> nat \<Rightarrow> nat \<Rightarrow> matrix \<Rightarrow> bool" where
  "eq_guards guards i j m =
     (let old_i = rowp m i; old_j = rowp m j
      in if length (guards ! old_i) \<noteq> length (guards ! old_j) then False
         else list_all (\<lambda>g. guards ! old_i ! g = guards ! old_j ! g) [0..<length (guards ! old_i)])"

definition is_equal :: "group_info \<Rightarrow> nat \<Rightarrow> nat \<Rightarrow> bool" where
  "is_equal ctx ia ib = list_all (\<lambda>j.
     combined ctx ! (ia * num_ints_per ctx + j) = combined ctx ! (ib * num_ints_per ctx + j))
     [0..<num_ints_per ctx]"

definition eq_rows :: "group_info \<Rightarrow> matrix \<Rightarrow> nat \<Rightarrow> nat \<Rightarrow> bool" where
  "eq_rows ctx m rowa rowb =
     (if (case gi_guards ctx of None \<Rightarrow> True | Some guards \<Rightarrow> eq_guards guards rowa rowb m)
      then is_equal ctx (rowp m rowa) (rowp m rowb) else False)"

definition is_subsumed :: "group_info \<Rightarrow> nat \<Rightarrow> nat \<Rightarrow> bool" where
  "is_subsumed ctx ia ib = list_all (\<lambda>j.
     let a = combined ctx ! (ia * num_ints_per ctx + j); b = combined ctx ! (ib * num_ints_per ctx + j)
     in a OR b = a) [0..<num_ints_per ctx]"

definition subsume_rows :: "group_info \<Rightarrow> matrix \<Rightarrow> nat \<Rightarrow> nat \<Rightarrow> bool" where
  "subsume_rows ctx m rowa rowb =
     (if (case gi_guards ctx of None \<Rightarrow> True | Some guards \<Rightarrow> eq_guards guards rowa rowb m)
      then is_subsumed ctx (rowp m rowa) (rowp m rowb) else False)"

definition eq_cols :: "group_info \<Rightarrow> matrix \<Rightarrow> nat \<Rightarrow> nat \<Rightarrow> bool" where
  "eq_cols ctx m cola colb = is_equal ctx (colp m cola) (colp m colb)"

definition subsume_cols :: "group_info \<Rightarrow> matrix \<Rightarrow> nat \<Rightarrow> nat \<Rightarrow> bool" where
  "subsume_cols ctx m cola colb = is_subsumed ctx (colp m cola) (colp m colb)"

section \<open>Groups and relations\<close>

text \<open>
  \<open>sep C i gs\<close>: the heads of the first \<open>i\<close> groups are unrelated to all later heads.
  \<open>homog S gs\<close>: the head of every group is related to its members.
\<close>

definition sep :: "(nat \<Rightarrow> nat \<Rightarrow> bool) \<Rightarrow> nat \<Rightarrow> nat list list \<Rightarrow> bool" where
  "sep C i gs \<longleftrightarrow> (\<forall>a k. a < i \<and> a < k \<and> k < length gs \<longrightarrow> \<not> C (hd (gs ! a)) (hd (gs ! k)))"

definition homog :: "(nat \<Rightarrow> nat \<Rightarrow> bool) \<Rightarrow> nat list list \<Rightarrow> bool" where
  "homog S gs \<longleftrightarrow> (\<forall>i < length gs. \<forall>x \<in> set (gs ! i). S (hd (gs ! i)) x)"

definition any_rel :: "(nat \<Rightarrow> nat \<Rightarrow> bool) \<Rightarrow> nat \<Rightarrow> nat \<Rightarrow> bool" where
  "any_rel S x y \<longleftrightarrow> S x y \<or> S y x"

lemma hd_merge_spec:
  assumes "k < length gs - 1" and "a < length gs" and "b < length gs" and "a \<noteq> b" and "gs ! a \<noteq> []"
  shows "hd (merge_spec a b gs ! k) = hd (gs ! (if k < b then k else Suc k))"
  using merge_spec_nth[OF assms(1-4)] assms(5) by (auto simp: Let_def)

lemma sep_merge:
  assumes "sep C i gs" and "i \<le> b" and "a < length gs" and "b < length gs" and "a \<noteq> b" and "gs ! a \<noteq> []"
  shows "sep C i (merge_spec a b gs)"
  unfolding sep_def
proof (intro allI impI, elim conjE)
  fix x k assume x: "x < i" "x < k" "k < length (merge_spec a b gs)"
  then have k: "k < length gs - 1" using length_merge_spec[OF assms(4)] by simp
  let ?k = "if k < b then k else Suc k"
  have "hd (merge_spec a b gs ! x) = hd (gs ! x)" "hd (merge_spec a b gs ! k) = hd (gs ! ?k)"
    using hd_merge_spec[OF _ assms(3-6)] x k assms(2) by auto
  moreover have "\<not> C (hd (gs ! x)) (hd (gs ! ?k))" using assms(1) x k by (auto simp: sep_def)
  ultimately show "\<not> C (hd (merge_spec a b gs ! x)) (hd (merge_spec a b gs ! k))" by simp
qed

lemma homog_merge:
  assumes "homog S gs" and "transp S" and ab: "a < length gs" "b < length gs" "a \<noteq> b" and "gs ! a \<noteq> []"
    and S: "S (hd (gs ! a)) (hd (gs ! b))"
  shows "homog S (merge_spec a b gs)"
  unfolding homog_def
proof (intro allI impI ballI)
  fix k x assume k: "k < length (merge_spec a b gs)" and x: "x \<in> set (merge_spec a b gs ! k)"
  have k': "k < length gs - 1" using k length_merge_spec[OF ab(2)] by simp
  note nth = merge_spec_nth[OF k' ab]
  show "S (hd (merge_spec a b gs ! k)) x"
  proof (cases "(if k < b then k else Suc k) = a")
    case True
    then have e: "merge_spec a b gs ! k = gs ! a @ gs ! b" using nth by simp
    then have "x \<in> set (gs ! a) \<or> x \<in> set (gs ! b)" using x by simp
    then have "S (hd (gs ! a)) x"
      using assms(1) ab S transpD[OF assms(2) S] by (auto simp: homog_def)
    then show ?thesis using e assms(6) by simp
  next
    case False
    then show ?thesis using nth x k' assms(1) by (auto simp: homog_def)
  qed
qed

section \<open>The loops over an interface of groups\<close>

text \<open>
  The contract of merging and splitting. \<open>rep m gs\<close> says that the lines of \<open>m\<close> stand for the
  groups \<open>gs\<close>, \<open>frame\<close> what the operations leave alone.
\<close>

locale line_groups =
  fixes rep :: "matrix \<Rightarrow> nat list list \<Rightarrow> bool"
    and lines :: "matrix \<Rightarrow> nat"
    and frame :: "matrix \<Rightarrow> matrix \<Rightarrow> bool"
    and merge :: "matrix \<Rightarrow> nat \<Rightarrow> nat \<Rightarrow> matrix result"
    and unmerge :: "matrix \<Rightarrow> nat \<Rightarrow> matrix result"
  assumes rep_len: "rep m gs \<Longrightarrow> length gs = lines m"
    and rep_ne: "rep m gs \<Longrightarrow> i < lines m \<Longrightarrow> gs ! i \<noteq> []"
    and merge_ok: "rep m gs \<Longrightarrow> a < lines m \<Longrightarrow> b < lines m \<Longrightarrow> a \<noteq> b \<Longrightarrow>
      \<exists>m'. merge m a b = Inr m' \<and> rep m' (merge_spec a b gs) \<and> lines m' = lines m - 1 \<and> frame m m'"
    and unmerge_ok: "rep m gs \<Longrightarrow> i < lines m \<Longrightarrow>
      \<exists>m'. unmerge m i = Inr m' \<and> rep m' (unmerge_spec i gs)
        \<and> lines m' = length (unmerge_spec i gs) \<and> frame m m'"
    and frame_refl: "frame m m"
    and frame_trans: "frame m m1 \<Longrightarrow> frame m1 m2 \<Longrightarrow> frame m m2"
begin

text \<open>The callback compares the heads of two groups, in every state the loop can reach.\<close>

definition reads :: "(matrix \<Rightarrow> nat \<Rightarrow> nat \<Rightarrow> bool) \<Rightarrow> (nat \<Rightarrow> nat \<Rightarrow> bool) \<Rightarrow> matrix \<Rightarrow> bool" where
  "reads fn S m0 \<longleftrightarrow> (\<forall>m gs i j. rep m gs \<and> frame m0 m \<and> i < lines m \<and> j < lines m
     \<longrightarrow> fn m i j = S (hd (gs ! i)) (hd (gs ! j)))"

lemma merge_step:
  assumes "rep m gs" and "frame m0 m" and ab: "a < lines m" "b < lines m" "a \<noteq> b" and "homog S gs"
    and "transp S" and "S (hd (gs ! a)) (hd (gs ! b))" and "sep C i gs" and "i \<le> b"
  shows "\<exists>m'. merge m a b = Inr m' \<and> rep m' (merge_spec a b gs) \<and> lines m' = lines m - 1 \<and> frame m0 m'
    \<and> homog S (merge_spec a b gs) \<and> sep C i (merge_spec a b gs)
    \<and> mset (concat (merge_spec a b gs)) = mset (concat gs)
    \<and> (\<forall>k < lines m - 1. hd (merge_spec a b gs ! k) = hd (gs ! (if k < b then k else Suc k)))"
proof -
  note len = rep_len[OF assms(1)]
  have ab': "a < length gs" "b < length gs" using ab len by auto
  note ne = rep_ne[OF assms(1) ab(1)]
  show ?thesis
    using merge_ok[OF assms(1) ab] frame_trans[OF assms(2)] homog_merge[OF assms(6,7) ab' ab(3) ne assms(8)]
      sep_merge[OF assms(9,10) ab' ab(3) ne] mset_merge_spec[OF ab' ab(3)] hd_merge_spec[OF _ ab' ab(3) ne] len
    by auto
qed

end

locale nub_loop = line_groups +
  fixes inner :: "(matrix \<Rightarrow> nat \<Rightarrow> nat \<Rightarrow> bool) \<Rightarrow> nat \<Rightarrow> nat \<Rightarrow> matrix \<Rightarrow> matrix result"
    and outer :: "(matrix \<Rightarrow> nat \<Rightarrow> nat \<Rightarrow> bool) \<Rightarrow> nat \<Rightarrow> matrix \<Rightarrow> matrix result"
  assumes inner_unfold: "inner fn i j m =
     (if j < lines m
      then if fn m i j then result_bind (merge m i j) (inner fn i j) else inner fn i (j + 1) m
      else Inr m)"
    and outer_unfold: "outer fn i m =
     (if i < lines m then result_bind (inner fn i (i + 1) m) (outer fn (i + 1)) else Inr m)"
begin

lemma inner_correct:
  assumes fn: "reads fn E m0" and E: "symp E" "transp E"
    and "rep m gs" and "frame m0 m" and "homog E gs" and "sep E i gs" and "i < j" and "i < lines m"
    and "\<forall>k. i < k \<and> k < j \<and> k < lines m \<longrightarrow> \<not> E (hd (gs ! i)) (hd (gs ! k))"
  shows "\<exists>m' gs'. inner fn i j m = Inr m' \<and> rep m' gs' \<and> frame m0 m' \<and> homog E gs' \<and> sep E (Suc i) gs'
    \<and> mset (concat gs') = mset (concat gs) \<and> i < lines m' \<and> lines m' \<le> lines m"
  using assms(4-)
proof (induction "lines m - j" arbitrary: m gs j)
  case 0
  then have "sep E (Suc i) gs" using rep_len[of m gs] by (auto simp: sep_def less_Suc_eq)
  then show ?case using 0 by (subst inner_unfold) auto
next
  case (Suc d)
  then have j: "j < lines m" by simp
  have rd: "fn m i j = E (hd (gs ! i)) (hd (gs ! j))"
    using fn Suc.prems j unfolding reads_def by blast
  show ?case
  proof (cases "fn m i j")
    case True
    have "i \<noteq> j" "i \<le> j" using Suc.prems by auto
    from merge_step[OF Suc.prems(1,2) Suc.prems(6) j this(1) Suc.prems(3) E(2) _ Suc.prems(4) this(2)] rd True
    obtain m1 where m1: "merge m i j = Inr m1" "rep m1 (merge_spec i j gs)" "lines m1 = lines m - 1" "frame m0 m1"
      "homog E (merge_spec i j gs)" "sep E i (merge_spec i j gs)" "mset (concat (merge_spec i j gs)) = mset (concat gs)"
      "\<forall>k < lines m - 1. hd (merge_spec i j gs ! k) = hd (gs ! (if k < j then k else Suc k))" by auto
    have "d = lines m1 - j" "i < lines m1" using m1 Suc.hyps(2) Suc.prems j by auto
    moreover have "\<forall>k. i < k \<and> k < j \<and> k < lines m1 \<longrightarrow> \<not> E (hd (merge_spec i j gs ! i)) (hd (merge_spec i j gs ! k))"
      using m1(3,8) Suc.prems(5,7) by auto
    ultimately have "\<exists>m' gs'. inner fn i j m1 = Inr m' \<and> rep m' gs' \<and> frame m0 m' \<and> homog E gs' \<and> sep E (Suc i) gs'
      \<and> mset (concat gs') = mset (concat (merge_spec i j gs)) \<and> i < lines m' \<and> lines m' \<le> lines m1"
      using Suc.hyps(1)[OF _ m1(2,4,5,6) Suc.prems(5)] by blast
    moreover have "inner fn i j m = inner fn i j m1" using True j m1(1) by (subst inner_unfold) simp
    moreover have "lines m1 \<le> lines m" using m1(3) by simp
    ultimately show ?thesis unfolding m1(7) by (metis order_trans)
  next
    case False
    have "\<forall>k. i < k \<and> k < j + 1 \<and> k < lines m \<longrightarrow> \<not> E (hd (gs ! i)) (hd (gs ! k))"
      using Suc.prems(7) False rd by (auto simp: less_Suc_eq)
    moreover have "d = lines m - (j + 1)" "i < j + 1" using Suc.hyps(2) Suc.prems by auto
    ultimately show ?thesis
      using Suc.hyps(1)[OF _ Suc.prems(1-4) _ Suc.prems(6)] False j by (subst inner_unfold) auto
  qed
qed

lemma outer_correct:
  assumes fn: "reads fn E m0" and E: "symp E" "transp E"
    and "rep m gs" and "frame m0 m" and "homog E gs" and "sep E i gs"
  shows "\<exists>m' gs'. outer fn i m = Inr m' \<and> rep m' gs' \<and> frame m0 m' \<and> homog E gs' \<and> sep E (lines m') gs'
    \<and> mset (concat gs') = mset (concat gs)"
  using assms(4-)
proof (induction "lines m - i" arbitrary: m gs i rule: less_induct)
  case less
  show ?case
  proof (cases "i < lines m")
    case True
    have "\<forall>k. i < k \<and> k < i + 1 \<and> k < lines m \<longrightarrow> \<not> E (hd (gs ! i)) (hd (gs ! k))" by auto
    from inner_correct[OF fn E less.prems _ True this] obtain m1 gs1 where
      m1: "inner fn i (i + 1) m = Inr m1" "rep m1 gs1" "frame m0 m1" "homog E gs1"
      "sep E (Suc i) gs1" "mset (concat gs1) = mset (concat gs)" "i < lines m1" "lines m1 \<le> lines m"
      by auto
    then have "lines m1 - Suc i < lines m - i" by linarith
    from less.hyps[OF this m1(2,3,4,5)] m1(1,6) True show ?thesis by (subst outer_unfold) auto
  next
    case False
    then have "sep E (lines m) gs" using less.prems by (auto simp: sep_def)
    then show ?thesis using False less.prems by (subst outer_unfold) auto
  qed
qed

end

locale subsume_loop = line_groups +
  fixes inner :: "(matrix \<Rightarrow> nat \<Rightarrow> nat \<Rightarrow> bool) \<Rightarrow> nat \<Rightarrow> nat \<Rightarrow> bool \<Rightarrow> matrix \<Rightarrow> (bool \<times> matrix) result"
    and outer :: "(matrix \<Rightarrow> nat \<Rightarrow> nat \<Rightarrow> bool) \<Rightarrow> nat \<Rightarrow> matrix \<Rightarrow> matrix result"
  assumes inner_unfold: "inner fn i j r m =
     (if j < lines m
      then if fn m i j then result_bind (merge m i j) (inner fn i j r)
           else if fn m j i then result_bind (merge m j i) (inner fn i (j + 1) True)
                else inner fn i (j + 1) r m
      else Inr (r, m))"
    and outer_unfold: "outer fn i m =
     (if i < lines m
      then result_bind (inner fn i (i + 1) False m) (\<lambda>(r, m). outer fn (if r then i else i + 1) m)
      else Inr m)"
begin

text \<open>Either the row has been absorbed, or it is unrelated to all later rows.\<close>

lemma inner_correct:
  assumes fn: "reads fn S m0" and S: "transp S"
    and "rep m gs" and "frame m0 m" and "homog S gs" and "sep (any_rel S) i gs" and "i < j" and "i < lines m"
    and "r \<or> (\<forall>k. i < k \<and> k < j \<and> k < lines m \<longrightarrow> \<not> any_rel S (hd (gs ! i)) (hd (gs ! k)))"
  shows "\<exists>r' m' gs'. inner fn i j r m = Inr (r', m') \<and> rep m' gs' \<and> frame m0 m' \<and> homog S gs'
    \<and> sep (any_rel S) (if r' then i else Suc i) gs' \<and> mset (concat gs') = mset (concat gs)
    \<and> i < lines m' \<and> lines m' \<le> lines m \<and> (r' \<and> \<not> r \<longrightarrow> lines m' < lines m)"
  using assms(3-)
proof (induction "lines m - j" arbitrary: m gs j r rule: less_induct)
  case less
  note P = less.prems
  show ?case
  proof (cases "j < lines m")
    case False
    then have "sep (any_rel S) (if r then i else Suc i) gs"
      using P rep_len[OF P(1)] by (auto simp: sep_def less_Suc_eq)
    then show ?thesis using P False by (subst inner_unfold) auto
  next
    case j: True
    have rd: "fn m i j = S (hd (gs ! i)) (hd (gs ! j))" "fn m j i = S (hd (gs ! j)) (hd (gs ! i))"
      using fn P j unfolding reads_def by blast+
    have ij: "i \<noteq> j" "i \<le> j" "j \<noteq> i" "i \<le> i" using P by auto
    consider "fn m i j" | "\<not> fn m i j" "fn m j i" | "\<not> fn m i j" "\<not> fn m j i" by blast
    then show ?thesis
    proof cases
      case 1
      from merge_step[OF P(1,2) P(6) j ij(1) P(3) S _ P(4) ij(2)] rd 1 obtain m1 where
        m1: "merge m i j = Inr m1" "rep m1 (merge_spec i j gs)" "lines m1 = lines m - 1" "frame m0 m1"
        "homog S (merge_spec i j gs)" "sep (any_rel S) i (merge_spec i j gs)"
        "mset (concat (merge_spec i j gs)) = mset (concat gs)"
        "\<forall>k < lines m - 1. hd (merge_spec i j gs ! k) = hd (gs ! (if k < j then k else Suc k))" by auto
      have l: "lines m1 - j < lines m - j" "i < lines m1" "lines m1 < lines m" using m1(3) P j by auto
      have "r \<or> (\<forall>k. i < k \<and> k < j \<and> k < lines m1
          \<longrightarrow> \<not> any_rel S (hd (merge_spec i j gs ! i)) (hd (merge_spec i j gs ! k)))"
        using m1(3,8) P(5,7) by auto
      from less.hyps[OF l(1) m1(2,4,5,6) P(5) l(2) this] obtain r' m' gs' where
        "inner fn i j r m1 = Inr (r', m')" "rep m' gs'" "frame m0 m'" "homog S gs'"
        "sep (any_rel S) (if r' then i else Suc i) gs'" "mset (concat gs') = mset (concat gs)"
        "i < lines m'" "lines m' \<le> lines m1" unfolding m1(7) by blast
      moreover have "inner fn i j r m = inner fn i j r m1" using 1 j m1(1) by (subst inner_unfold) simp
      moreover have "lines m' < lines m" using calculation(8) l(3) by (rule le_less_trans)
      ultimately show ?thesis by (metis less_imp_le)
    next
      case 2
      from merge_step[OF P(1,2) j P(6) ij(3) P(3) S _ P(4) ij(4)] rd 2 obtain m1 where
        m1: "merge m j i = Inr m1" "rep m1 (merge_spec j i gs)" "lines m1 = lines m - 1" "frame m0 m1"
        "homog S (merge_spec j i gs)" "sep (any_rel S) i (merge_spec j i gs)"
        "mset (concat (merge_spec j i gs)) = mset (concat gs)" by auto
      have l: "lines m1 - (j + 1) < lines m - j" "i < lines m1" "lines m1 < lines m" "i < j + 1"
        using m1(3) P j by auto
      from less.hyps[OF l(1) m1(2,4,5,6) l(4) l(2), of True] obtain r' m' gs' where
        "inner fn i (j + 1) True m1 = Inr (r', m')" "rep m' gs'" "frame m0 m'" "homog S gs'"
        "sep (any_rel S) (if r' then i else Suc i) gs'" "mset (concat gs') = mset (concat gs)"
        "i < lines m'" "lines m' \<le> lines m1" unfolding m1(7) by blast
      moreover have "inner fn i j r m = inner fn i (j + 1) True m1" using 2 j m1(1) by (subst inner_unfold) simp
      moreover have "lines m' < lines m" using calculation(8) l(3) by (rule le_less_trans)
      ultimately show ?thesis by (metis less_imp_le)
    next
      case 3
      have l: "lines m - (j + 1) < lines m - j" "i < j + 1" using j P by auto
      have "r \<or> (\<forall>k. i < k \<and> k < j + 1 \<and> k < lines m \<longrightarrow> \<not> any_rel S (hd (gs ! i)) (hd (gs ! k)))"
        using P(7) 3 rd by (auto simp: less_Suc_eq any_rel_def)
      moreover have "inner fn i j r m = inner fn i (j + 1) r m" using 3 j by (subst inner_unfold) simp
      ultimately show ?thesis using less.hyps[OF l(1) P(1-4) l(2) P(6)] by simp
    qed
  qed
qed

lemma outer_correct:
  assumes fn: "reads fn S m0" and S: "transp S"
    and "rep m gs" and "frame m0 m" and "homog S gs" and "sep (any_rel S) i gs"
  shows "\<exists>m' gs'. outer fn i m = Inr m' \<and> rep m' gs' \<and> frame m0 m' \<and> homog S gs'
    \<and> sep (any_rel S) (lines m') gs' \<and> mset (concat gs') = mset (concat gs)"
  using assms(3-)
proof (induction "lines m - i" arbitrary: m gs i rule: less_induct)
  case less
  show ?case
  proof (cases "i < lines m")
    case True
    have "False \<or> (\<forall>k. i < k \<and> k < i + 1 \<and> k < lines m \<longrightarrow> \<not> any_rel S (hd (gs ! i)) (hd (gs ! k)))" by auto
    from inner_correct[OF fn S less.prems _ True this] obtain r' m1 gs1 where
      m1: "inner fn i (i + 1) False m = Inr (r', m1)" "rep m1 gs1" "frame m0 m1" "homog S gs1"
      "sep (any_rel S) (if r' then i else Suc i) gs1" "mset (concat gs1) = mset (concat gs)" "i < lines m1"
      "lines m1 \<le> lines m" "r' \<longrightarrow> lines m1 < lines m" by auto
    then have "lines m1 - (if r' then i else Suc i) < lines m - i" by auto
    from less.hyps[OF this m1(2,3,4,5)] m1(1,6) True show ?thesis by (subst outer_unfold) auto
  next
    case False
    then have "sep (any_rel S) (lines m) gs" using less.prems by (auto simp: sep_def)
    then show ?thesis using False less.prems by (subst outer_unfold) auto
  qed
qed

end

locale ungroup_loop = line_groups +
  fixes loop :: "nat \<Rightarrow> matrix \<Rightarrow> matrix result option"
  assumes loop_unfold: "loop i m =
     (if i < lines m then (case unmerge m i of Inl e \<Rightarrow> Some (Inl e) | Inr m \<Rightarrow> loop (i + 1) m)
      else Some (Inr m))"
begin

lemma loop_correct:
  assumes "rep m gs" and "gs = map (\<lambda>x. [x]) front @ rest" and "i = length front"
  shows "\<exists>m'. loop i m = Some (Inr m') \<and> rep m' (map (\<lambda>x. [x]) (front @ concat rest)) \<and> frame m m'"
  using assms
proof (induction "length (concat rest)" arbitrary: m gs front rest i rule: less_induct)
  case less
  note len = rep_len[OF less.prems(1)]
  show ?case
  proof (cases rest)
    case Nil
    then show ?thesis using less.prems len frame_refl by (subst loop_unfold) auto
  next
    case (Cons g rs)
    have i: "i < lines m" and gi: "gs ! i = g" using less.prems Cons len by (auto simp: nth_append)
    obtain x ys where g: "g = x # ys" using rep_ne[OF less.prems(1) i] gi by (cases g) auto
    define rest1 where "rest1 = (if ys = [] then rs else ys # rs)"
    have us: "unmerge_spec i gs = map (\<lambda>x. [x]) (front @ [x]) @ rest1"
      using less.prems(2,3) Cons g gi by (auto simp: unmerge_spec_def rest1_def)
    have cc: "concat rest = x # concat rest1" using Cons g by (simp add: rest1_def)
    obtain m1 where m1: "unmerge m i = Inr m1" "rep m1 (unmerge_spec i gs)" "frame m m1"
      using unmerge_ok[OF less.prems(1) i] by blast
    have "length (concat rest1) < length (concat rest)" using cc by simp
    from less.hyps[OF this m1(2) us] obtain m' where
      "loop (i + 1) m1 = Some (Inr m')" "rep m' (map (\<lambda>x. [x]) (front @ concat rest))" "frame m1 m'"
      using less.prems(3) cc by auto
    then show ?thesis using i m1 frame_trans by (subst loop_unfold) auto
  qed
qed

end

section \<open>Rows and columns as groups\<close>

interpretation row_groups: line_groups rows_rep rows row_frame merge_rows unmerge_row
proof unfold_locales
  fix m gs assume "rows_rep m gs"
  then show "length gs = rows m" and "\<And>i. i < rows m \<Longrightarrow> gs ! i \<noteq> []"
    by (auto simp: rows_rep_def hdr_rep_def link_cycle_def)
qed (rule merge_rows_ok unmerge_row_ok row_frame_refl row_frame_trans; assumption)+

interpretation col_groups: line_groups cols_rep cols col_frame merge_cols unmerge_col
proof unfold_locales
  fix m gs assume "cols_rep m gs"
  then show "length gs = cols m" and "\<And>i. i < cols m \<Longrightarrow> gs ! i \<noteq> []"
    by (auto simp: cols_rep_def hdr_rep_def link_cycle_def)
qed (rule merge_cols_ok unmerge_col_ok col_frame_refl col_frame_trans; assumption)+

lemma nub_rows_unfold:
  "nub_rows_inner fn i j m =
     (if j < rows m then if fn m i j then result_bind (merge_rows m i j) (nub_rows_inner fn i j)
        else nub_rows_inner fn i (j + 1) m else Inr m)"
  "nub_rows_from fn i m =
     (if i < rows m then result_bind (nub_rows_inner fn i (i + 1) m) (nub_rows_from fn (i + 1)) else Inr m)"
  using nub_rows_inner.simps[of fn i j m] nub_rows_from.simps[of fn i m] by (simp_all only: dm_nrows_def)

lemma nub_cols_unfold:
  "nub_cols_inner fn i j m =
     (if j < cols m then if fn m i j then result_bind (merge_cols m i j) (nub_cols_inner fn i j)
        else nub_cols_inner fn i (j + 1) m else Inr m)"
  "nub_cols_from fn i m =
     (if i < cols m then result_bind (nub_cols_inner fn i (i + 1) m) (nub_cols_from fn (i + 1)) else Inr m)"
  using nub_cols_inner.simps[of fn i j m] nub_cols_from.simps[of fn i m] by (simp_all only: dm_ncols_def)

lemmas loop_unfolds =
  subsume_rows_inner.simps[unfolded dm_nrows_def] subsume_rows_from.simps[unfolded dm_nrows_def]
  ungroup_rows_from.simps[unfolded dm_nrows_def] ungroup_cols_from.simps[unfolded dm_ncols_def]

interpretation row_nub: nub_loop rows_rep rows row_frame merge_rows unmerge_row nub_rows_inner nub_rows_from
  by unfold_locales (rule nub_rows_unfold)+

interpretation col_nub: nub_loop cols_rep cols col_frame merge_cols unmerge_col nub_cols_inner nub_cols_from
  by unfold_locales (rule nub_cols_unfold)+

interpretation row_subsume: subsume_loop rows_rep rows row_frame merge_rows unmerge_row
    subsume_rows_inner subsume_rows_from
  by unfold_locales (rule loop_unfolds)+

interpretation row_ungroup: ungroup_loop rows_rep rows row_frame merge_rows unmerge_row ungroup_rows_from
  by unfold_locales (rule loop_unfolds)

interpretation col_ungroup: ungroup_loop cols_rep cols col_frame merge_cols unmerge_col ungroup_cols_from
  by unfold_locales (rule loop_unfolds)

text \<open>The relations that the callbacks decide.\<close>

definition guards_agree :: "group_info \<Rightarrow> nat \<Rightarrow> nat \<Rightarrow> bool" where
  "guards_agree ctx p q \<longleftrightarrow> (case gi_guards ctx of None \<Rightarrow> True | Some gs \<Rightarrow> gs ! p = gs ! q)"

definition row_eq :: "group_info \<Rightarrow> nat \<Rightarrow> nat \<Rightarrow> bool" where
  "row_eq ctx p q \<longleftrightarrow> guards_agree ctx p q \<and> is_equal ctx p q"

definition row_sub :: "group_info \<Rightarrow> nat \<Rightarrow> nat \<Rightarrow> bool" where
  "row_sub ctx p q \<longleftrightarrow> guards_agree ctx p q \<and> is_subsumed ctx p q"

lemma is_equal_iff: "is_equal ctx p q \<longleftrightarrow> (\<forall>j < num_ints_per ctx.
    combined ctx ! (p * num_ints_per ctx + j) = combined ctx ! (q * num_ints_per ctx + j))"
  by (auto simp: is_equal_def list_all_iff)

lemma is_subsumed_iff: "is_subsumed ctx p q \<longleftrightarrow> (\<forall>j < num_ints_per ctx.
    combined ctx ! (p * num_ints_per ctx + j) OR combined ctx ! (q * num_ints_per ctx + j)
      = combined ctx ! (p * num_ints_per ctx + j))"
  by (auto simp: is_subsumed_def list_all_iff Let_def)

lemma or_absorb_trans: "a OR b = a \<Longrightarrow> b OR c = b \<Longrightarrow> a OR c = (a::u64)"
  by (metis or.assoc)

lemma is_equal_equiv: "symp (is_equal ctx)" "transp (is_equal ctx)" "is_equal ctx p p"
  by (simp_all add: symp_def transp_def is_equal_iff)

lemma is_subsumed_preorder: "transp (is_subsumed ctx)" "is_subsumed ctx p p"
proof -
  show "transp (is_subsumed ctx)"
  proof (rule transpI)
    fix x y z assume "is_subsumed ctx x y" and "is_subsumed ctx y z"
    then show "is_subsumed ctx x z" unfolding is_subsumed_iff using or_absorb_trans by blast
  qed
qed (simp add: is_subsumed_iff)

lemma guards_agree_equiv: "symp (guards_agree ctx)" "transp (guards_agree ctx)" "guards_agree ctx p p"
  by (cases "gi_guards ctx"; simp add: symp_def transp_def guards_agree_def)+

lemma row_eq_equiv: "symp (row_eq ctx)" "transp (row_eq ctx)" "row_eq ctx p p"
  using is_equal_equiv[of ctx] guards_agree_equiv[of ctx] unfolding row_eq_def symp_def transp_def by blast+

lemma row_sub_preorder: "transp (row_sub ctx)" "row_sub ctx p p"
  using is_subsumed_preorder[of ctx] guards_agree_equiv[of ctx] unfolding row_sub_def transp_def by blast+

lemma eq_guards_iff: "eq_guards gs i j m \<longleftrightarrow> gs ! rowp m i = gs ! rowp m j"
  using list_eq_iff_nth_eq[of "gs ! rowp m i" "gs ! rowp m j"]
  by (auto simp: eq_guards_def Let_def list_all_iff)

lemma rep_hd: "rows_rep m gs \<Longrightarrow> i < rows m \<Longrightarrow> hd (gs ! i) = rowp m i"
  "cols_rep m gs \<Longrightarrow> j < cols m \<Longrightarrow> hd (gs ! j) = colp m j"
  by (simp_all add: rows_rep_def cols_rep_def hdr_rep_def rowp_def colp_def)

lemma callbacks_read:
  "row_groups.reads (eq_rows ctx) (row_eq ctx) m" "row_groups.reads (subsume_rows ctx) (row_sub ctx) m"
  "col_groups.reads (eq_cols ctx) (is_equal ctx) m"
  by (auto simp: row_groups.reads_def col_groups.reads_def rep_hd eq_rows_def subsume_rows_def eq_cols_def
      row_eq_def row_sub_def guards_agree_def eq_guards_iff split: option.splits)

lemma sep_0 [simp]: "sep C 0 gs"
  by (simp add: sep_def)

lemma rep_dm_is_set:
  "rows_rep m gs \<Longrightarrow> rows_rep m' gs' \<Longrightarrow> row_frame m m' \<Longrightarrow> i < rows m \<Longrightarrow> i' < rows m' \<Longrightarrow>
   hd (gs ! i) = hd (gs' ! i') \<Longrightarrow> dm_is_set m' i' j = dm_is_set m i j"
  "cols_rep m gs \<Longrightarrow> cols_rep m' gs' \<Longrightarrow> col_frame m m' \<Longrightarrow> k < cols m \<Longrightarrow> k' < cols m' \<Longrightarrow>
   hd (gs ! k) = hd (gs' ! k') \<Longrightarrow> dm_is_set m' i k' = dm_is_set m i k"
  using rep_hd(1)[of m gs i] rep_hd(1)[of m' gs' i'] rep_hd(2)[of m gs k] rep_hd(2)[of m' gs' k']
  by (simp_all add: dm_is_set_def row_frame_def col_frame_def)

lemma singles_rep:
  assumes "r * (c + 32) + 63 < SIZE_LIMIT"
  shows "rows_rep (dm_create r c) (map (\<lambda>x. [x]) [0..<r])" and "cols_rep (dm_create r c) (map (\<lambda>x. [x]) [0..<c])"
proof -
  have c: "concat (map (\<lambda>x. [x]) xs) = (xs :: nat list)" for xs by (induction xs) auto
  have "hdr_rep (dm_create_header n) n (map (\<lambda>x. [x]) [0..<n])" for n
    by (simp add: hdr_rep_def dm_create_header_def link_cycle_def grp_def c[unfolded concat_map_singleton] lessThan_atLeast0)
  then show "rows_rep (dm_create r c) (map (\<lambda>x. [x]) [0..<r])" "cols_rep (dm_create r c) (map (\<lambda>x. [x]) [0..<c])"
    using create_dm_wf(1)[OF assms] by (simp_all add: rows_rep_def cols_rep_def) (simp_all add: dm_create_def Let_def)
qed

lemma homog_singles: "(\<And>x. S x x) \<Longrightarrow> homog S (map (\<lambda>x. [x]) xs)"
  by (simp add: homog_def)

lemma singles_length:
  assumes "rows_rep m (map (\<lambda>x. [x]) xs)"
  shows "rows m = h_size (row_perm m)"
proof -
  have "length xs = rows m" "distinct xs" "set xs = {..<h_size (row_perm m)}"
    using assms by (auto simp: rows_rep_def hdr_rep_def comp_def)
  then show ?thesis using distinct_card[of xs] by simp
qed

section \<open>Properties\<close>

text \<open>
  C19. Merging and splitting: on a matrix whose rows stand for the groups \<open>gs\<close>, \<^verbatim>\<open>merge_rows_\<close> of
  two different rows succeeds, appends the second group to the first, removes exactly the second
  row and keeps the order and the entries of the others and all counts exact; merging a row
  with itself aborts; \<^verbatim>\<open>unmerge_row_\<close> takes the head of a group off and puts the rest of the
  group right behind it.
\<close>

theorem merge_unmerge_rows_correct:
  assumes "rows_rep m gs" and "a < rows m" and "b < rows m" and "a \<noteq> b"
  shows "(\<exists>m'. merge_rows m a b = Inr m' \<and> rows_rep m' (merge_spec a b gs) \<and> rows m' = rows m - 1
      \<and> (\<forall>i < rows m'. \<forall>j. dm_is_set m' i j = dm_is_set m (if i < b then i else Suc i) j))
    \<and> merge_rows m a a = Inl Exit_failure
    \<and> (\<exists>m'. unmerge_row m a = Inr m' \<and> rows_rep m' (unmerge_spec a gs)
        \<and> rows m' = (if length (gs ! a) = 1 then rows m else Suc (rows m))
        \<and> (\<forall>i \<le> a. \<forall>j. dm_is_set m' i j = dm_is_set m i j))"
proof -
  obtain m' where m': "merge_rows m a b = Inr m'" "rows_rep m' (merge_spec a b gs)" "rows m' = rows m - 1"
    "row_frame m m'" using merge_rows_ok[OF assms] by blast
  have len: "length gs = rows m" and ne: "gs ! a \<noteq> []"
    using row_groups.rep_len[OF assms(1)] row_groups.rep_ne[OF assms(1,2)] by auto
  have "dm_is_set m' i j = dm_is_set m (if i < b then i else Suc i) j" if "i < rows m'" for i j
    using rep_dm_is_set(1)[OF assms(1) m'(2,4), of "if i < b then i else Suc i" i j]
      hd_merge_spec[of i gs a b] that m'(3) len ne assms by auto
  moreover have "merge_rows m a a = Inl Exit_failure" by (simp add: merge_rows_def)
  moreover obtain u where u: "unmerge_row m a = Inr u" "rows_rep u (unmerge_spec a gs)"
    "rows u = length (unmerge_spec a gs)" "row_frame m u" using unmerge_row_ok[OF assms(1,2)] by blast
  moreover have "rows u = (if length (gs ! a) = 1 then rows m else Suc (rows m))"
    using u(3) length_unmerge_spec[of a gs] len assms(2) by simp
  moreover have "dm_is_set u i j = dm_is_set m i j" if "i \<le> a" for i j
  proof -
    have "hd (unmerge_spec a gs ! i) = hd (gs ! i)"
      using that unmerge_spec_nth[of i gs a] len assms(2) by (cases "length (gs ! a) = 1") (auto simp: unmerge_spec_def)
    then show ?thesis
      using rep_dm_is_set(1)[OF assms(1) u(2,4), of i i j] that assms(2) u(3) length_unmerge_spec[of a gs] len by auto
  qed
  ultimately show ?thesis using m' by blast
qed

theorem merge_unmerge_rows_correct_witness:
  "\<exists>m'. merge_rows (dm_create 2 3) 0 1 = Inr m' \<and> rows_rep m' [[0, 1]]"
proof -
  have "rows_rep (dm_create 2 3) [[0], [1]]" using singles_rep(1)[of 2 3] by (simp add: upt_rec)
  from merge_unmerge_rows_correct[OF this, of 0 1] show ?thesis by (auto simp: merge_spec_def)
qed

text \<open>
  C20. Removing duplicates: \<^verbatim>\<open>dm_nub_rows\<close> with the callback \<^verbatim>\<open>eq_rows\<close> always finishes without
  error; afterwards no two rows are equal, the rows of every group are equal to the row that
  represents it, and every original row is in exactly one group. \<^verbatim>\<open>dm_nub_cols\<close> with \<^verbatim>\<open>eq_cols\<close> does
  the same for columns.
\<close>

theorem dm_nub_correct:
  assumes "rows_rep m gs" and "homog (row_eq ctx) gs" and "cols_rep m cs" and "homog (is_equal ctx) cs"
  shows "(\<exists>m' gs'. dm_nub_rows m (eq_rows ctx) = Inr m' \<and> rows_rep m' gs' \<and> row_frame m m'
        \<and> homog (row_eq ctx) gs' \<and> sep (row_eq ctx) (rows m') gs' \<and> mset (concat gs') = mset (concat gs))
    \<and> (\<exists>m' cs'. dm_nub_cols m (eq_cols ctx) = Inr m' \<and> cols_rep m' cs' \<and> col_frame m m'
        \<and> homog (is_equal ctx) cs' \<and> sep (is_equal ctx) (cols m') cs' \<and> mset (concat cs') = mset (concat cs))"
  using row_nub.outer_correct[OF callbacks_read(1) row_eq_equiv(1,2) assms(1) row_frame_refl assms(2) sep_0]
    col_nub.outer_correct[OF callbacks_read(3) is_equal_equiv(1,2) assms(3) col_frame_refl assms(4) sep_0]
  unfolding dm_nub_rows_def dm_nub_cols_def by blast

definition demo_info :: group_info where
  "demo_info = \<lparr>gi_guards = None, combined = [5, 5, 1], num_ints_per = 1\<rparr>"

theorem dm_nub_correct_witness:
  "\<exists>m' gs'. dm_nub_rows (dm_create 2 3) (eq_rows demo_info) = Inr m' \<and> rows_rep m' gs'
     \<and> sep (row_eq demo_info) (rows m') gs'"
proof -
  have r: "rows_rep (dm_create 2 3) (map (\<lambda>x. [x]) [0..<2])" and c: "cols_rep (dm_create 2 3) (map (\<lambda>x. [x]) [0..<3])"
    using singles_rep[of 2 3] by simp_all
  from dm_nub_correct[OF r homog_singles[OF row_eq_equiv(3)] c homog_singles[OF is_equal_equiv(3)], of demo_info]
  show ?thesis by blast
qed

text \<open>
  C21. Removing subsumed rows: \<^verbatim>\<open>dm_subsume_rows\<close> with the callback \<^verbatim>\<open>subsume_rows\<close> always finishes
  without error, although rows disappear in front of the loop index; afterwards no row is
  subsumed by another, every row of a group is subsumed by its representative, and every
  original row is in exactly one group.
\<close>

theorem dm_subsume_rows_correct:
  assumes "rows_rep m gs" and "homog (row_sub ctx) gs"
  shows "\<exists>m' gs'. dm_subsume_rows m (subsume_rows ctx) = Inr m' \<and> rows_rep m' gs' \<and> row_frame m m'
    \<and> homog (row_sub ctx) gs' \<and> sep (any_rel (row_sub ctx)) (rows m') gs' \<and> mset (concat gs') = mset (concat gs)"
  using row_subsume.outer_correct[OF callbacks_read(2) row_sub_preorder(1) assms(1) row_frame_refl assms(2) sep_0]
  unfolding dm_subsume_rows_def .

theorem dm_subsume_rows_correct_witness:
  "\<exists>m' gs'. dm_subsume_rows (dm_create 2 3) (subsume_rows demo_info) = Inr m' \<and> rows_rep m' gs'"
proof -
  have r: "rows_rep (dm_create 2 3) (map (\<lambda>x. [x]) [0..<2])" using singles_rep[of 2 3] by simp
  from dm_subsume_rows_correct[OF r homog_singles[OF row_sub_preorder(2)], of demo_info] show ?thesis by blast
qed

text \<open>
  C22. Ungrouping: \<^verbatim>\<open>dm_ungroup_rows\<close> and \<^verbatim>\<open>dm_ungroup_cols\<close> terminate, although the matrix grows
  while they run, and flatten the groups: every original row (column) is a row (column) of its
  own again, in the order in which the groups list them.
\<close>

theorem dm_ungroup_flattens:
  assumes "rows_rep m gs" and "cols_rep m cs"
  shows "(\<exists>m'. dm_ungroup_rows m = Some (Inr m') \<and> rows_rep m' (map (\<lambda>x. [x]) (concat gs))
        \<and> row_frame m m' \<and> rows m' = h_size (row_perm m))
    \<and> (\<exists>m'. dm_ungroup_cols m = Some (Inr m') \<and> cols_rep m' (map (\<lambda>x. [x]) (concat cs)) \<and> col_frame m m')"
proof -
  obtain m' where m': "dm_ungroup_rows m = Some (Inr m')" "rows_rep m' (map (\<lambda>x. [x]) (concat gs))" "row_frame m m'"
    using row_ungroup.loop_correct[OF assms(1), of "[]" gs 0] by (auto simp: dm_ungroup_rows_def)
  have "rows m' = h_size (row_perm m)" using singles_length[OF m'(2)] m'(3) by (simp add: row_frame_def)
  moreover have "\<exists>m'. dm_ungroup_cols m = Some (Inr m') \<and> cols_rep m' (map (\<lambda>x. [x]) (concat cs)) \<and> col_frame m m'"
    using col_ungroup.loop_correct[OF assms(2), of "[]" cs 0] by (auto simp: dm_ungroup_cols_def)
  ultimately show ?thesis using m' by blast
qed

theorem dm_ungroup_flattens_witness:
  "\<exists>m'. dm_ungroup_rows (dm_create 2 3) = Some (Inr m') \<and> rows m' = 2"
  using dm_ungroup_flattens[OF singles_rep(1)[of 2 3] singles_rep(2)[of 2 3]] by auto

end
