(* ===== verification/Dm_Ops.thy ===== *)
theory Dm_Ops
  imports Dm_Nub
begin

text \<open>
  Operations on whole rows, columns and matrices (\<^verbatim>\<open>src/src/dm/dm.c\<close>): copying of matrices and of
  their permutations, \<^verbatim>\<open>dm_flatten\<close>, the iterators, projection and expansion of state vectors,
  unions of rows into bit vectors, the index tables, and the entry-wise combinations of two
  matrices. An array that the code fills through a pointer is a list argument that is returned
  updated.
\<close>

section \<open>Model\<close>

text \<open>\<^verbatim>\<open>copy_header_\<close>: the target \<open>None\<close> is a header whose arrays are all \<^verbatim>\<open>NULL\<close>.\<close>

definition copy_header :: "matrix_header \<Rightarrow> matrix_header option \<Rightarrow> matrix_header" where
  "copy_header src tgt =
     (let tgt = (case tgt of
            None \<Rightarrow> \<lparr>h_size = h_size src, h_data = replicate (h_size src) \<lparr>becomes = 0, at = 0, group = 0\<rparr>,
               h_count = take (h_size src) (h_count src), h_min = take (h_size src) (h_min src),
               h_max = take (h_size src) (h_max src)\<rparr>
          | Some tgt \<Rightarrow> tgt)
      in if h_size src = h_size tgt then tgt\<lparr>h_data := take (h_size tgt) (h_data src)\<rparr> else tgt)"

definition hdr_set_count :: "nat \<Rightarrow> int \<Rightarrow> matrix_header \<Rightarrow> matrix_header" where
  "hdr_set_count i v p = p\<lparr>h_count := (h_count p)[i := v]\<rparr>"

definition copy_recount_col :: "nat \<Rightarrow> nat \<Rightarrow> matrix \<Rightarrow> matrix" where
  "copy_recount_col n i tgt =
     (let b = colp tgt i; tgt = tgt\<lparr>col_perm := hdr_set_count b 0 (col_perm tgt)\<rparr>
      in fold (\<lambda>j tgt. if dm_is_set tgt j i then tgt\<lparr>col_perm := hdr_add_count b 1 (col_perm tgt)\<rparr> else tgt) [0..<n] tgt)"

definition dm_copy_row_info :: "matrix \<Rightarrow> matrix \<Rightarrow> matrix" where
  "dm_copy_row_info src tgt =
     (let tgt = tgt\<lparr>row_perm := copy_header (row_perm src) (Some (row_perm tgt))\<rparr>;
          tgt = tgt\<lparr>col_perm := invalidate_min_max (col_perm tgt)\<rparr>;
          tgt = (if rows tgt \<noteq> rows src
                 then fold (copy_recount_col (dm_nrows src)) [0..<dm_ncols tgt] tgt
                 else tgt)
      in tgt\<lparr>rows := rows src\<rparr>)"

definition copy_recount_row :: "nat \<Rightarrow> nat \<Rightarrow> matrix \<Rightarrow> matrix" where
  "copy_recount_row n i tgt =
     (let b = rowp tgt i; tgt = tgt\<lparr>row_perm := hdr_set_count b 0 (row_perm tgt)\<rparr>
      in fold (\<lambda>j tgt. if dm_is_set tgt i j then tgt\<lparr>row_perm := hdr_add_count b 1 (row_perm tgt)\<rparr> else tgt) [0..<n] tgt)"

definition dm_copy_col_info :: "matrix \<Rightarrow> matrix \<Rightarrow> matrix" where
  "dm_copy_col_info src tgt =
     (let tgt = tgt\<lparr>col_perm := copy_header (col_perm src) (Some (col_perm tgt))\<rparr>;
          tgt = tgt\<lparr>row_perm := invalidate_min_max (row_perm tgt)\<rparr>;
          tgt = (if cols tgt \<noteq> cols src
                 then fold (copy_recount_row (dm_ncols src)) [0..<dm_nrows tgt] tgt
                 else tgt)
      in tgt\<lparr>cols := cols src\<rparr>)"

definition dm_copy :: "matrix \<Rightarrow> matrix" where
  "dm_copy src =
     \<lparr>rows = rows src, cols = cols src, bits_per_row = bits_per_row src,
      row_perm = copy_header (row_perm src) None, col_perm = copy_header (col_perm src) None,
      bits = (if rows src \<noteq> 0 \<and> cols src \<noteq> 0 then bitvector_copy (bits src) else bitvector_create 0)\<rparr>"

definition dm_flatten :: "matrix \<Rightarrow> matrix" where
  "dm_flatten m = fold (\<lambda>i. fold (\<lambda>j m_new. if dm_is_set m i j then dm_set m_new i j else m_new)
     [0..<dm_ncols m]) [0..<dm_nrows m] (dm_create (dm_nrows m) (dm_ncols m))"

text \<open>An iterator that has run out has \<open>-1\<close> in the coordinate it advances.\<close>

record dm_row_iterator =
  ri_m :: matrix
  ri_row :: nat
  ri_col :: int

record dm_col_iterator =
  ci_m :: matrix
  ci_row :: int
  ci_col :: nat

definition dm_row_next :: "dm_row_iterator \<Rightarrow> int \<times> dm_row_iterator" where
  "dm_row_next ix =
     (let result = ri_col ix
      in (result, if result \<noteq> -1
          then ix\<lparr>ri_col := (case first_from (dm_is_set (ri_m ix) (ri_row ix)) (nat (result + 1)) (dm_ncols (ri_m ix)) of
                 Some i \<Rightarrow> int i | None \<Rightarrow> -1)\<rparr>
          else ix))"

definition dm_col_next :: "dm_col_iterator \<Rightarrow> int \<times> dm_col_iterator" where
  "dm_col_next ix =
     (let result = ci_row ix
      in (result, if result \<noteq> -1
          then ix\<lparr>ci_row := (case first_from (\<lambda>i. dm_is_set (ci_m ix) i (ci_col ix)) (nat (result + 1)) (dm_nrows (ci_m ix)) of
                 Some i \<Rightarrow> int i | None \<Rightarrow> -1)\<rparr>
          else ix))"

definition dm_create_row_iterator :: "matrix \<Rightarrow> nat \<Rightarrow> dm_row_iterator" where
  "dm_create_row_iterator m row =
     (let ix = \<lparr>ri_m = m, ri_row = row, ri_col = 0\<rparr>
      in if \<not> dm_is_set m row 0 then snd (dm_row_next ix) else ix)"

definition dm_create_col_iterator :: "matrix \<Rightarrow> nat \<Rightarrow> dm_col_iterator" where
  "dm_create_col_iterator m col =
     (let ix = \<lparr>ci_m = m, ci_row = 0, ci_col = col\<rparr>
      in if \<not> dm_is_set m 0 col then snd (dm_col_next ix) else ix)"

definition dm_project_vector :: "matrix \<Rightarrow> nat \<Rightarrow> int list \<Rightarrow> int list \<Rightarrow> nat \<times> int list" where
  "dm_project_vector m row src tgt =
     fold (\<lambda>i (k, tgt). if dm_is_set m row i then (k + 1, tgt[k := src ! i]) else (k, tgt))
       [0..<dm_ncols m] (0, tgt)"

definition dm_expand_vector :: "matrix \<Rightarrow> nat \<Rightarrow> int list \<Rightarrow> int list \<Rightarrow> int list \<Rightarrow> nat \<times> int list" where
  "dm_expand_vector m row s0 src tgt =
     fold (\<lambda>i (k, tgt). if dm_is_set m row i then (k + 1, tgt[i := src ! k]) else (k, tgt[i := s0 ! i]))
       [0..<dm_ncols m] (0, tgt)"

definition dm_row_union :: "bitvector \<Rightarrow> matrix \<Rightarrow> nat \<Rightarrow> bitvector result" where
  "dm_row_union bv m row =
     (if bitvector_size bv \<noteq> dm_ncols m then Inl Assert_fail
      else Inr (fold (\<lambda>i bv. if dm_is_set m row i then bitvector_set bv i else bv) [0..<dm_ncols m] bv))"

text \<open>The assertion compares with the number of columns while the loop runs over the rows.\<close>

definition dm_col_union :: "bitvector \<Rightarrow> matrix \<Rightarrow> nat \<Rightarrow> bitvector result" where
  "dm_col_union bv m col =
     (if bitvector_size bv \<noteq> dm_ncols m then Inl Assert_fail
      else fold_result (\<lambda>i bv. if dm_is_set m i col
             then if bv_seg i < length (bv_data bv) then Inr (bitvector_set bv i) else Inl Bad_access
             else Inr bv) [0..<dm_nrows m] bv)"

text \<open>
  The index tables. One block of memory holds a header with a pointer for every line, followed by
  the data: for every line the number of its entries and then the entries. The number of integers
  to allocate is counted in an \<^verbatim>\<open>int\<close> (\<open>idx_memcnt\<close>), the size of the block is a \<^verbatim>\<open>size_t\<close>
  (\<open>idx_bytes\<close>), and the data are written one integer at a time behind the header, so that a block
  that is too small is written past its end (\<open>Bad_access\<close>). A pointer of the header is the offset
  of the line in the data. \<open>alloc\<close> says which sizes the system can provide; \<^verbatim>\<open>RTmalloc\<close> aborts on the
  others and returns \<^verbatim>\<open>NULL\<close> (\<open>None\<close>) for size 0. Fresh memory is 0 in the model, and \<open>dm_idx_tables_exact\<close>
  shows that every integer of it is written.
\<close>

record idx_table =
  it_result :: "nat list"
  it_data :: "int list"

definition put_int :: "int list \<Rightarrow> nat \<Rightarrow> int \<Rightarrow> int list result" where
  "put_int data q v = (if q < length data then Inr (data[q := v]) else Inl Bad_access)"

definition idx_entry :: "(nat \<Rightarrow> bool) \<Rightarrow> nat \<Rightarrow> nat \<Rightarrow> int list \<times> nat \<Rightarrow> (int list \<times> nat) result" where
  "idx_entry p cnt j = (\<lambda>(data, q).
     if p j then result_bind (put_int data q (int j)) (\<lambda>data. Inr (data[cnt := data ! cnt + 1], q + 1))
     else Inr (data, q))"

definition idx_line :: "(nat \<Rightarrow> bool) \<Rightarrow> nat \<Rightarrow> nat list \<times> int list \<times> nat \<Rightarrow> (nat list \<times> int list \<times> nat) result" where
  "idx_line p k = (\<lambda>(result, data, cnt).
     result_bind (put_int data cnt 0) (\<lambda>data.
     result_bind (fold_result (idx_entry p cnt) [0..<k] (data, cnt + 1)) (\<lambda>(data, q).
     Inr (result @ [cnt], data, q))))"

definition idx_memcnt :: "(nat \<Rightarrow> nat \<Rightarrow> bool) \<Rightarrow> nat \<Rightarrow> nat \<Rightarrow> int" where
  "idx_memcnt p n k =
     fold (\<lambda>i memcnt. fold (\<lambda>j memcnt. if p i j then int32 (memcnt + 1) else memcnt) [0..<k] (int32 (memcnt + 1)))
       [0..<n] 0"

definition idx_bytes :: "nat \<Rightarrow> int \<Rightarrow> nat" where
  "idx_bytes n memcnt = nat ((int n * 8 + memcnt * 4) mod int SIZE_LIMIT)"

definition to_idx_table ::
  "(nat \<Rightarrow> bool) \<Rightarrow> (nat \<Rightarrow> nat \<Rightarrow> bool) \<Rightarrow> nat \<Rightarrow> nat \<Rightarrow> idx_table option result" where
  "to_idx_table alloc p n k =
     (let bytes = idx_bytes n (idx_memcnt p n k)
      in if bytes = 0 then Inr None
         else if \<not> alloc bytes then Inl (Abort_msg ''out of memory'')
         else result_bind
           (fold_result (\<lambda>i. idx_line (p i) k) [0..<n] ([], replicate ((bytes - n * 8) div 4) 0, 0))
           (\<lambda>(result, data, q). Inr (Some \<lparr>it_result = result, it_data = data\<rparr>)))"

definition dm_rows_to_idx_table :: "(nat \<Rightarrow> bool) \<Rightarrow> matrix \<Rightarrow> idx_table option result" where
  "dm_rows_to_idx_table alloc m = to_idx_table alloc (dm_is_set m) (dm_nrows m) (dm_ncols m)"

definition dm_cols_to_idx_table :: "(nat \<Rightarrow> bool) \<Rightarrow> matrix \<Rightarrow> idx_table option result" where
  "dm_cols_to_idx_table alloc m = to_idx_table alloc (\<lambda>j i. dm_is_set m i j) (dm_ncols m) (dm_nrows m)"

definition dm_apply_or :: "matrix \<Rightarrow> matrix \<Rightarrow> matrix result" where
  "dm_apply_or a b =
     (if dm_nrows a = dm_nrows b \<and> dm_ncols a = dm_ncols b
      then Inr (fold (\<lambda>i. fold (\<lambda>j a. if dm_is_set b i j then dm_set a i j else a) [0..<dm_ncols a])
             [0..<dm_nrows a] a)
      else Inl Assert_fail)"

definition dm_equal_header :: "matrix_header \<Rightarrow> matrix_header \<Rightarrow> bool" where
  "dm_equal_header a b =
     (if h_size a \<noteq> h_size b then False
      else list_all (\<lambda>i. let ae = h_data a ! i; be = h_data b ! i
             in \<not> (at ae \<noteq> at be \<or> becomes ae \<noteq> becomes be \<or> group ae \<noteq> group be)) [0..<h_size a])"

definition dm_equals :: "matrix \<Rightarrow> matrix \<Rightarrow> bool result" where
  "dm_equals a b =
     (if dm_nrows a = dm_nrows b \<and> dm_ncols a = dm_ncols b
      then if dm_equal_header (row_perm a) (row_perm b) \<and> dm_equal_header (col_perm a) (col_perm b)
           then Inr (bitvector_equal (bits a) (bits b))
           else Inl Assert_fail
      else Inl Assert_fail)"

definition dm_apply_xor :: "matrix \<Rightarrow> matrix \<Rightarrow> matrix result" where
  "dm_apply_xor a b =
     (if dm_nrows a = dm_nrows b \<and> dm_ncols a = dm_ncols b
      then Inr (fold (\<lambda>i. fold (\<lambda>j a. if dm_is_set a i j \<noteq> dm_is_set b i j then dm_set a i j else dm_unset a i j)
             [0..<dm_ncols a]) [0..<dm_nrows a] a)
      else Inl Assert_fail)"

definition dm_is_empty :: "matrix \<Rightarrow> bool" where
  "dm_is_empty m = bitvector_is_empty (bits m)"

definition dm_prod :: "bitvector \<Rightarrow> bitvector \<Rightarrow> matrix \<Rightarrow> bitvector result" where
  "dm_prod tgt bv m =
     (if bitvector_size tgt = dm_ncols m \<and> bitvector_size bv = dm_nrows m
      then fold_result (\<lambda>i tgt. dm_row_union tgt m i) [0..<bitvector_size bv] tgt
      else Inl Assert_fail)"

section \<open>Loops over all entries\<close>

text \<open>A nested loop that visits every entry once and rewrites it.\<close>

lemma fold_nested: "fold (\<lambda>i. fold (f i) js) is m = fold (\<lambda>(i, j). f i j) (List.product is js) m"
  by (induction "is" arbitrary: m) (auto simp: fold_map comp_def)

lemma entry_loop:
  assumes "distinct ps" and "\<forall>(i, j) \<in> set ps. i < r \<and> j < c" and "has_dims r c m"
    and step: "\<And>i j m. i < r \<Longrightarrow> j < c \<Longrightarrow> has_dims r c m \<Longrightarrow> has_dims r c (f i j m)
      \<and> (\<forall>x < r. \<forall>y < c. dm_is_set (f i j m) x y = (if x = i \<and> y = j then g i j (dm_is_set m i j) else dm_is_set m x y))"
  shows "has_dims r c (fold (\<lambda>(i, j). f i j) ps m)
    \<and> (\<forall>x < r. \<forall>y < c. dm_is_set (fold (\<lambda>(i, j). f i j) ps m) x y
        = (if (x, y) \<in> set ps then g x y (dm_is_set m x y) else dm_is_set m x y))"
  using assms(1-3)
proof (induction ps arbitrary: m)
  case (Cons p ps)
  obtain i j where p: "p = (i, j)" by (cases p)
  have ij: "i < r" "j < c" "(i, j) \<notin> set ps" using Cons.prems p by auto
  note s = step[OF ij(1,2) Cons.prems(3)]
  have "has_dims r c (fold (\<lambda>(i, j). f i j) ps (f i j m))
    \<and> (\<forall>x < r. \<forall>y < c. dm_is_set (fold (\<lambda>(i, j). f i j) ps (f i j m)) x y
        = (if (x, y) \<in> set ps then g x y (dm_is_set (f i j m) x y) else dm_is_set (f i j m) x y))"
    by (rule Cons.IH) (use Cons.prems s in auto)
  then show ?case using s ij p by auto
qed simp

lemma all_entries_loop:
  assumes "has_dims r c m"
    and step: "\<And>i j m. i < r \<Longrightarrow> j < c \<Longrightarrow> has_dims r c m \<Longrightarrow> has_dims r c (f i j m)
      \<and> (\<forall>x < r. \<forall>y < c. dm_is_set (f i j m) x y = (if x = i \<and> y = j then g i j (dm_is_set m i j) else dm_is_set m x y))"
  shows "has_dims r c (fold (\<lambda>i. fold (f i) [0..<c]) [0..<r] m)
    \<and> (\<forall>x < r. \<forall>y < c. dm_is_set (fold (\<lambda>i. fold (f i) [0..<c]) [0..<r] m) x y = g x y (dm_is_set m x y))"
  using entry_loop[of "List.product [0..<r] [0..<c]" r c m f g, OF distinct_product _ assms(1) step]
  unfolding fold_nested by simp

lemma set_unset_step:
  assumes "has_dims r c m" and "i < r" and "j < c"
  shows "has_dims r c (dm_set m i j)" and "has_dims r c (dm_unset m i j)"
    and "x < r \<Longrightarrow> y < c \<Longrightarrow> dm_is_set (dm_set m i j) x y = (if x = i \<and> y = j then True else dm_is_set m x y)"
    and "x < r \<Longrightarrow> y < c \<Longrightarrow> dm_is_set (dm_unset m i j) x y = (if x = i \<and> y = j then False else dm_is_set m x y)"
proof -
  have m: "dm_wf m" "rows m = r" "cols m = c" using assms(1) by (auto simp: has_dims_def)
  note s = wf_shape[OF m(1)]
  show "has_dims r c (dm_set m i j)" "has_dims r c (dm_unset m i j)"
    using set_dm_wf[OF m(1)] assms m by (auto simp: has_dims_def)
  show "x < r \<Longrightarrow> y < c \<Longrightarrow> dm_is_set (dm_set m i j) x y = (if x = i \<and> y = j then True else dm_is_set m x y)"
    "x < r \<Longrightarrow> y < c \<Longrightarrow> dm_is_set (dm_unset m i j) x y = (if x = i \<and> y = j then False else dm_is_set m x y)"
    using is_set_set[OF s(1) s(4) s(5) s(4) s(5), of i j x y] assms m by auto
qed

lemma apply_loops:
  assumes "has_dims r c a"
  shows "has_dims r c (fold (\<lambda>i. fold (\<lambda>j a. if p i j then dm_set a i j else a) [0..<c]) [0..<r] a)
    \<and> (\<forall>x < r. \<forall>y < c. dm_is_set (fold (\<lambda>i. fold (\<lambda>j a. if p i j then dm_set a i j else a) [0..<c]) [0..<r] a) x y
        = (p x y \<or> dm_is_set a x y))"
    and "has_dims r c (fold (\<lambda>i. fold (\<lambda>j a. if dm_is_set a i j \<noteq> p i j then dm_set a i j else dm_unset a i j) [0..<c]) [0..<r] a)
    \<and> (\<forall>x < r. \<forall>y < c. dm_is_set (fold (\<lambda>i. fold (\<lambda>j a. if dm_is_set a i j \<noteq> p i j then dm_set a i j else dm_unset a i j) [0..<c]) [0..<r] a) x y
        = (dm_is_set a x y \<noteq> p x y))"
    and "has_dims r c (fold (\<lambda>i. fold (\<lambda>j a. dm_set a i j) [0..<c]) [0..<r] a)
    \<and> (\<forall>x < r. \<forall>y < c. dm_is_set (fold (\<lambda>i. fold (\<lambda>j a. dm_set a i j) [0..<c]) [0..<r] a) x y = True)"
proof -
  show "has_dims r c (fold (\<lambda>i. fold (\<lambda>j a. if p i j then dm_set a i j else a) [0..<c]) [0..<r] a)
    \<and> (\<forall>x < r. \<forall>y < c. dm_is_set (fold (\<lambda>i. fold (\<lambda>j a. if p i j then dm_set a i j else a) [0..<c]) [0..<r] a) x y
        = (p x y \<or> dm_is_set a x y))"
    by (rule all_entries_loop[OF assms, where g = "\<lambda>i j v. p i j \<or> v"]) (auto simp: set_unset_step)
  show "has_dims r c (fold (\<lambda>i. fold (\<lambda>j a. if dm_is_set a i j \<noteq> p i j then dm_set a i j else dm_unset a i j) [0..<c]) [0..<r] a)
    \<and> (\<forall>x < r. \<forall>y < c. dm_is_set (fold (\<lambda>i. fold (\<lambda>j a. if dm_is_set a i j \<noteq> p i j then dm_set a i j else dm_unset a i j) [0..<c]) [0..<r] a) x y
        = (dm_is_set a x y \<noteq> p x y))"
    by (rule all_entries_loop[OF assms, where g = "\<lambda>i j v. v \<noteq> p i j"]) (auto simp: set_unset_step)
  show "has_dims r c (fold (\<lambda>i. fold (\<lambda>j a. dm_set a i j) [0..<c]) [0..<r] a)
    \<and> (\<forall>x < r. \<forall>y < c. dm_is_set (fold (\<lambda>i. fold (\<lambda>j a. dm_set a i j) [0..<c]) [0..<r] a) x y = True)"
    by (rule all_entries_loop[OF assms, where g = "\<lambda>i j v. True"]) (auto simp: set_unset_step)
qed

lemma create_has_dims: "r * (c + 32) + 63 < SIZE_LIMIT \<Longrightarrow> has_dims r c (dm_create r c)"
  "r * (c + 32) + 63 < SIZE_LIMIT \<Longrightarrow> i < r \<Longrightarrow> j < c \<Longrightarrow> \<not> dm_is_set (dm_create r c) i j"
  using create_dm_wf(1)[of r c] create_dm_wf(2)[of r c i j] by (auto simp: has_dims_def)

section \<open>Vectors, iterators and tables\<close>

lemma project_loop:
  "length (filter p [0..<n]) \<le> length tgt \<Longrightarrow>
   fold (\<lambda>i (k, tgt). if p i then (k + 1, tgt[k := src ! i]) else (k, tgt)) [0..<n] (0, tgt)
    = (length (filter p [0..<n]), map ((!) src) (filter p [0..<n]) @ drop (length (filter p [0..<n])) tgt)"
proof (induction n)
  case (Suc n)
  then show ?case
    by (auto simp: list_update_append Cons_nth_drop_Suc[symmetric])
qed simp

lemma expand_loop:
  "n \<le> length tgt \<Longrightarrow>
   fold (\<lambda>i (k, tgt). if p i then (k + 1, tgt[i := src ! k]) else (k, tgt[i := s0 ! i])) [0..<n] (0, tgt)
    = (length (filter p [0..<n]),
       map (\<lambda>i. if p i then src ! length (filter p [0..<i]) else s0 ! i) [0..<n] @ drop n tgt)"
proof (induction n)
  case (Suc n)
  then show ?case
    by (auto simp: list_update_append Cons_nth_drop_Suc[symmetric])
qed simp

lemma nth_filter_upt:
  assumes "i < n" and "p i"
  shows "length (filter p [0..<i]) < length (filter p [0..<n])"
    and "filter p [0..<n] ! length (filter p [0..<i]) = i"
proof -
  have "[0..<n] = [0..<i] @ i # [Suc i..<n]"
    using assms(1) by (metis less_imp_le_nat upt_add_eq_append upt_conv_Cons zero_le le_add_diff_inverse)
  then have "filter p [0..<n] = filter p [0..<i] @ i # filter p [Suc i..<n]" using assms(2) by simp
  then show "length (filter p [0..<i]) < length (filter p [0..<n])"
    and "filter p [0..<n] ! length (filter p [0..<i]) = i" by simp_all
qed

text \<open>What a client sees that calls the iterator until it returns \<open>-1\<close>, in at most \<open>n\<close> calls.\<close>

fun row_drain :: "nat \<Rightarrow> dm_row_iterator \<Rightarrow> int list" where
  "row_drain 0 ix = []"
| "row_drain (Suc n) ix = (let (r, ix') = dm_row_next ix in if r = -1 then [] else r # row_drain n ix')"

fun col_drain :: "nat \<Rightarrow> dm_col_iterator \<Rightarrow> int list" where
  "col_drain 0 ix = []"
| "col_drain (Suc n) ix = (let (r, ix') = dm_col_next ix in if r = -1 then [] else r # col_drain n ix')"

lemma filter_first_from:
  "filter p [k..<n] = (case first_from p k n of None \<Rightarrow> [] | Some i \<Rightarrow> i # filter p [Suc i..<n])"
proof (induction "n - k" arbitrary: k)
  case 0
  then show ?case by (simp add: first_from_def)
next
  case (Suc d)
  then have "k < n" "d = n - Suc k" by auto
  with Suc(1)[of "Suc k"] show ?case by (simp add: first_from_step[of p k n] upt_conv_Cons[of k n])
qed

lemma row_drain_stop: "ri_col ix = -1 \<Longrightarrow> row_drain n ix = []"
  by (cases n) (simp_all add: dm_row_next_def Let_def)

lemma col_drain_stop: "ci_row ix = -1 \<Longrightarrow> col_drain n ix = []"
  by (cases n) (simp_all add: dm_col_next_def Let_def)

lemma row_drain_from:
  "ri_m ix = m \<Longrightarrow> ri_row ix = row \<Longrightarrow> ri_col ix = int k \<Longrightarrow> k < cols m \<Longrightarrow> cols m - k \<le> n \<Longrightarrow>
   row_drain n ix = map int (k # filter (dm_is_set m row) [Suc k..<cols m])"
proof (induction n arbitrary: ix k)
  case (Suc n)
  define ix' where "ix' = snd (dm_row_next ix)"
  have r: "dm_row_next ix = (int k, ix')" using Suc.prems by (simp add: ix'_def dm_row_next_def Let_def)
  have k: "nat (int k + 1) = Suc k" by simp
  have f: "ri_m ix' = m" "ri_row ix' = row"
    "ri_col ix' = (case first_from (dm_is_set m row) (Suc k) (cols m) of Some i \<Rightarrow> int i | None \<Rightarrow> -1)"
    using Suc.prems by (simp_all add: ix'_def dm_row_next_def Let_def dm_ncols_def k)
  show ?case
  proof (cases "first_from (dm_is_set m row) (Suc k) (cols m)")
    case None
    then show ?thesis using r f row_drain_stop[of ix' n] filter_first_from[of "dm_is_set m row" "Suc k" "cols m"] by simp
  next
    case (Some i)
    then have i: "Suc k \<le> i" "i < cols m" by (simp_all add: first_from_Some_iff)
    then have "row_drain n ix' = map int (i # filter (dm_is_set m row) [Suc i..<cols m])"
      using Some f Suc.prems by (intro Suc.IH) simp_all
    then show ?thesis using r Some filter_first_from[of "dm_is_set m row" "Suc k" "cols m"] by simp
  qed
qed simp

lemma col_drain_from:
  "ci_m ix = m \<Longrightarrow> ci_col ix = col \<Longrightarrow> ci_row ix = int k \<Longrightarrow> k < rows m \<Longrightarrow> rows m - k \<le> n \<Longrightarrow>
   col_drain n ix = map int (k # filter (\<lambda>i. dm_is_set m i col) [Suc k..<rows m])"
proof (induction n arbitrary: ix k)
  case (Suc n)
  define ix' where "ix' = snd (dm_col_next ix)"
  let ?p = "\<lambda>i. dm_is_set m i col"
  have r: "dm_col_next ix = (int k, ix')" using Suc.prems by (simp add: ix'_def dm_col_next_def Let_def)
  have k: "nat (int k + 1) = Suc k" by simp
  have f: "ci_m ix' = m" "ci_col ix' = col"
    "ci_row ix' = (case first_from ?p (Suc k) (rows m) of Some i \<Rightarrow> int i | None \<Rightarrow> -1)"
    using Suc.prems by (simp_all add: ix'_def dm_col_next_def Let_def dm_nrows_def k)
  show ?case
  proof (cases "first_from ?p (Suc k) (rows m)")
    case None
    then show ?thesis using r f col_drain_stop[of ix' n] filter_first_from[of ?p "Suc k" "rows m"] by simp
  next
    case (Some i)
    then have i: "Suc k \<le> i" "i < rows m" by (simp_all add: first_from_Some_iff)
    then have "col_drain n ix' = map int (i # filter ?p [Suc i..<rows m])"
      using Some f Suc.prems by (intro Suc.IH) simp_all
    then show ?thesis using r Some filter_first_from[of ?p "Suc k" "rows m"] by simp
  qed
qed simp

lemma row_drain_pos:
  assumes "ri_m ix = m" and "ri_row ix = row" and "cols m \<le> n"
    and "ri_col ix = (case first_from (dm_is_set m row) k (cols m) of Some i \<Rightarrow> int i | None \<Rightarrow> -1)"
  shows "row_drain n ix = map int (filter (dm_is_set m row) [k..<cols m])"
proof (cases "first_from (dm_is_set m row) k (cols m)")
  case None
  then show ?thesis using assms row_drain_stop[of ix n] filter_first_from[of "dm_is_set m row" k "cols m"] by simp
next
  case (Some i)
  then have "i < cols m" by (simp add: first_from_Some_iff)
  then show ?thesis
    using Some assms row_drain_from[of ix m row i n] filter_first_from[of "dm_is_set m row" k "cols m"] by simp
qed

lemma col_drain_pos:
  assumes "ci_m ix = m" and "ci_col ix = col" and "rows m \<le> n"
    and "ci_row ix = (case first_from (\<lambda>i. dm_is_set m i col) k (rows m) of Some i \<Rightarrow> int i | None \<Rightarrow> -1)"
  shows "col_drain n ix = map int (filter (\<lambda>i. dm_is_set m i col) [k..<rows m])"
proof (cases "first_from (\<lambda>i. dm_is_set m i col) k (rows m)")
  case None
  then show ?thesis using assms col_drain_stop[of ix n] filter_first_from[of "\<lambda>i. dm_is_set m i col" k "rows m"] by simp
next
  case (Some i)
  then have "i < rows m" by (simp add: first_from_Some_iff)
  then show ?thesis
    using Some assms col_drain_from[of ix m col i n] filter_first_from[of "\<lambda>i. dm_is_set m i col" k "rows m"] by simp
qed

section \<open>Index tables\<close>

text \<open>What a line holds when it is complete, and what a client reads through the header.\<close>

definition idx_of :: "(nat \<Rightarrow> bool) \<Rightarrow> nat \<Rightarrow> int list" where
  "idx_of p k = int (length (filter p [0..<k])) # map int (filter p [0..<k])"

definition idx_count :: "idx_table \<Rightarrow> nat \<Rightarrow> int" where
  "idx_count t i = it_data t ! (it_result t ! i)"

definition idx_entries :: "idx_table \<Rightarrow> nat \<Rightarrow> int list" where
  "idx_entries t i = take (nat (idx_count t i)) (drop (Suc (it_result t ! i)) (it_data t))"

lemma idx_memcnt_eq: "idx_memcnt p n k = int32 (int (length (concat (map (\<lambda>i. idx_of (p i) k) [0..<n]))))"
proof -
  have inner: "fold (\<lambda>j memcnt. if p i j then int32 (memcnt + 1) else memcnt) [0..<k] (int32 x)
    = int32 (x + int (length (filter (p i) [0..<k])))" for i x
    by (induction k) (auto simp: int32_add algebra_simps)
  show ?thesis
  proof (induction n)
    case 0
    show ?case by (simp add: idx_memcnt_def)
  next
    case (Suc n)
    let ?L = "length (concat (map (\<lambda>i. idx_of (p i) k) [0..<n]))"
    have "idx_memcnt p (Suc n) k = int32 (idx_memcnt p n k + 1 + int (length (filter (p n) [0..<k])))"
      by (simp add: idx_memcnt_def inner)
    also have "\<dots> = int32 (int ?L + 1 + int (length (filter (p n) [0..<k])))"
      unfolding Suc.IH add.assoc by (rule int32_add(1))
    finally show ?case by (simp add: idx_of_def algebra_simps)
  qed
qed

lemma idx_entry_loop:
  "fold_result (idx_entry p (length pre)) js (pre @ c # body @ rest, Suc (length pre) + length body) =
     (let es = map int (filter p js)
      in if length es \<le> length rest
         then Inr (pre @ (c + int (length es)) # body @ es @ drop (length es) rest,
                Suc (length pre) + length body + length es)
         else Inl Bad_access)"
proof (induction js arbitrary: c body rest)
  case (Cons j js)
  show ?case
  proof (cases "p j \<and> rest \<noteq> []")
    case True
    then obtain x xs where rest: "rest = x # xs" by (auto simp: neq_Nil_conv)
    show ?thesis using True Cons.IH[of "c + 1" "body @ [int j]" xs]
      by (simp add: idx_entry_def put_int_def rest nth_append list_update_append Let_def)
  next
    case False
    then show ?thesis using Cons.IH[of c body rest]
      by (auto simp: idx_entry_def put_int_def Let_def)
  qed
qed simp

lemma idx_line_eq:
  "idx_line p k (res, pre @ rest, length pre) =
     (if length (idx_of p k) \<le> length rest
      then Inr (res @ [length pre], pre @ idx_of p k @ drop (length (idx_of p k)) rest, length pre + length (idx_of p k))
      else Inl Bad_access)"
proof (cases rest)
  case (Cons x xs)
  then show ?thesis
    using idx_entry_loop[of p pre "[0..<k]" 0 "[]" xs]
    by (simp add: idx_line_def put_int_def idx_of_def Let_def list_update_append)
qed (simp add: idx_line_def put_int_def idx_of_def)

lemma idx_fill_eq:
  "fold_result (\<lambda>i. idx_line (p i) k) is (res, pre @ rest, length pre) =
     (let ls = map (\<lambda>i. idx_of (p i) k) is; len = length (concat ls)
      in if len \<le> length rest
         then Inr (res @ map (\<lambda>l. length pre + length (concat (take l ls))) [0..<length is],
                pre @ concat ls @ drop len rest, length pre + len)
         else Inl Bad_access)"
proof (induction "is" arbitrary: res pre rest)
  case (Cons i js)
  let ?l = "idx_of (p i) k"
  show ?case
  proof (cases "length ?l \<le> length rest")
    case True
    have "map (\<lambda>l. length pre + length (concat (take l (?l # ls)))) [0..<Suc n]
        = length pre # map (\<lambda>l. length (pre @ ?l) + length (concat (take l ls))) [0..<n]" for ls n
      by (simp add: upt_conv_Cons map_Suc_upt[symmetric] del: upt_Suc)
    then show ?thesis
      using True Cons.IH[of "res @ [length pre]" "pre @ ?l" "drop (length ?l) rest"]
      by (auto simp: idx_line_eq Let_def add.commute simp del: upt_Suc)
  next
    case False
    then show ?thesis by (simp add: idx_line_eq Let_def)
  qed
qed simp

text \<open>Where the exact count fits an \<^verbatim>\<open>int\<close>, the allocated block is filled exactly.\<close>

lemma idx_bytes_ok:
  assumes "n * (k + 1) \<le> INT_MAX"
  shows "idx_bytes n (idx_memcnt p n k) = n * 8 + length (concat (map (\<lambda>i. idx_of (p i) k) [0..<n])) * 4"
proof -
  let ?len = "length (concat (map (\<lambda>i. idx_of (p i) k) [0..<n]))"
  have "?len \<le> (\<Sum>i \<leftarrow> [0..<n]. k + 1)"
    unfolding length_concat map_map
    by (rule sum_list_mono) (use length_filter_le[of _ "[0..<k]"] in \<open>auto simp: idx_of_def\<close>)
  then have "?len \<le> INT_MAX" using assms by (simp add: sum_list_triv)
  moreover have "n \<le> INT_MAX" using assms by simp
  ultimately show ?thesis by (simp add: idx_bytes_def idx_memcnt_eq)
qed

lemma to_idx_table_ok:
  assumes "0 < n" and "n * (k + 1) \<le> INT_MAX" and "\<And>b. alloc b"
  shows "to_idx_table alloc p n k = (let ls = map (\<lambda>i. idx_of (p i) k) [0..<n]
    in Inr (Some \<lparr>it_result = map (\<lambda>l. length (concat (take l ls))) [0..<n], it_data = concat ls\<rparr>))"
  using idx_fill_eq[of p k "[0..<n]" "[]" "[]" "replicate _ 0"] assms
  by (simp add: to_idx_table_def idx_bytes_ok Let_def)

lemma idx_table_read:
  assumes "i < length is" and "ls = map (\<lambda>i. idx_of (p i) k) is"
    and "t = \<lparr>it_result = map (\<lambda>l. length (concat (take l ls))) [0..<length is], it_data = concat ls\<rparr>"
  shows "idx_count t i = int (length (filter (p (is ! i)) [0..<k]))"
    and "idx_entries t i = map int (filter (p (is ! i)) [0..<k])"
proof -
  have "ls = take i ls @ idx_of (p (is ! i)) k # drop (Suc i) ls"
    using assms(1,2) id_take_nth_drop[of i ls] by simp
  then have "concat ls = concat (take i ls) @ idx_of (p (is ! i)) k @ concat (drop (Suc i) ls)"
    by (metis concat.simps(2) concat_append)
  then show "idx_count t i = int (length (filter (p (is ! i)) [0..<k]))"
    "idx_entries t i = map int (filter (p (is ! i)) [0..<k])"
    using assms(1,3) by (simp_all add: idx_count_def idx_entries_def idx_of_def nth_append)
qed

lemma idx_table_exact:
  assumes "i < n" and "n * (k + 1) \<le> INT_MAX" and alloc: "\<And>b. alloc b"
  shows "\<exists>t. to_idx_table alloc p n k = Inr (Some t)
    \<and> idx_count t i = int (length (filter (p i) [0..<k])) \<and> idx_entries t i = map int (filter (p i) [0..<k])
    \<and> it_data t = concat (map (\<lambda>i. idx_of (p i) k) [0..<n])
    \<and> idx_bytes n (idx_memcnt p n k) = n * 8 + length (it_data t) * 4"
proof -
  define ls where "ls = map (\<lambda>i. idx_of (p i) k) [0..<n]"
  define t where "t = \<lparr>it_result = map (\<lambda>l. length (concat (take l ls))) [0..<n], it_data = concat ls\<rparr>"
  have "to_idx_table alloc p n k = Inr (Some t)"
    using to_idx_table_ok[of n k alloc p] assms by (simp add: t_def ls_def Let_def)
  moreover have "idx_count t i = int (length (filter (p i) [0..<k]))" "idx_entries t i = map int (filter (p i) [0..<k])"
    using idx_table_read[of i "[0..<n]" ls p k t] assms(1) by (simp_all add: t_def ls_def)
  ultimately show ?thesis using idx_bytes_ok[OF assms(2), of p] by (simp add: t_def ls_def)
qed

text \<open>
  Where it does not fit, the count has wrapped and no table is ever returned: the block is too small,
  \<^verbatim>\<open>NULL\<close>, or larger than any system provides. A dense matrix of 65537 rows and 65537 columns needs
  \<open>65537 * 65538\<close> integers, and its count wraps to 196610.
\<close>

lemma to_idx_table_wraps:
  assumes big: "INT_MAX < length (concat (map (\<lambda>i. idx_of (p i) k) [0..<n]))" and "n \<le> INT_MAX"
    and mem: "\<And>b. 2 ^ 63 \<le> b \<Longrightarrow> \<not> alloc b"
  shows "to_idx_table alloc p n k \<noteq> Inr (Some t)"
proof
  assume t: "to_idx_table alloc p n k = Inr (Some t)"
  let ?b = "idx_bytes n (idx_memcnt p n k)"
  have "alloc ?b" using t by (auto simp: to_idx_table_def Let_def split: if_splits)
  then have small: "?b < 2 ^ 63" using mem leI by blast
  have m: "idx_memcnt p n k \<le> int INT_MAX" "- int INT_MAX - 1 \<le> idx_memcnt p n k"
    unfolding idx_memcnt_eq by (rule int32_bounds)+
  have "0 \<le> int n * 8 + idx_memcnt p n k * 4"
  proof (rule ccontr)
    assume neg: "\<not> 0 \<le> int n * 8 + idx_memcnt p n k * 4"
    then have "(int n * 8 + idx_memcnt p n k * 4) mod int SIZE_LIMIT = int n * 8 + idx_memcnt p n k * 4 + int SIZE_LIMIT"
      using m(2) mod_pos_pos_trivial[of "int n * 8 + idx_memcnt p n k * 4 + int SIZE_LIMIT" "int SIZE_LIMIT"] by simp
    then show False using small m(2) neg by (simp add: idx_bytes_def nat_less_iff)
  qed
  then have "int ?b = int n * 8 + idx_memcnt p n k * 4" using m(1) assms(2) by (simp add: idx_bytes_def)
  then have "(?b - n * 8) div 4 \<le> INT_MAX" using m(1) by simp
  then show False
    using t big idx_fill_eq[of p k "[0..<n]" "[]" "[]" "replicate ((?b - n * 8) div 4) 0"]
    by (auto simp: to_idx_table_def Let_def split: if_splits)
qed

section \<open>Unions and copies\<close>

lemma union_loop:
  assumes "bv_wf bv" and "\<forall>e \<in> set es. e < n_bits bv"
  shows "bv_wf (fold (\<lambda>e t. if p e then bitvector_set t e else t) es bv)"
    and "n_bits (fold (\<lambda>e t. if p e then bitvector_set t e else t) es bv) = n_bits bv"
    and "bv_set (fold (\<lambda>e t. if p e then bitvector_set t e else t) es bv) = bv_set bv \<union> {e \<in> set es. p e}"
proof -
  have eq: "fold (\<lambda>e t. if p e then bitvector_set t e else t) es bv = fold (\<lambda>e t. bitvector_set t e) (filter p es) bv"
    by (induction es arbitrary: bv) auto
  note all = bv.ins_all[OF assms(1), of "filter p es"]
  show wf: "bv_wf (fold (\<lambda>e t. if p e then bitvector_set t e else t) es bv)" using all assms(2) by (simp add: eq)
  show nb: "n_bits (fold (\<lambda>e t. if p e then bitvector_set t e else t) es bv) = n_bits bv"
    by (rule fold_invariant[where P = "\<lambda>t. n_bits t = n_bits bv"]) auto
  have "bitvector_is_set (fold (\<lambda>e t. if p e then bitvector_set t e else t) es bv) x
      = (x \<in> set es \<and> p x \<or> bitvector_is_set bv x)" if "x < n_bits bv" for x
    using all assms(2) that by (auto simp: eq)
  then show "bv_set (fold (\<lambda>e t. if p e then bitvector_set t e else t) es bv) = bv_set bv \<union> {e \<in> set es. p e}"
    using nb assms(2) by (auto simp: bv_set_def is_set_bit[symmetric])
qed

lemma dm_row_union_ok:
  assumes "bv_wf bv" and "n_bits bv = cols m"
  shows "\<exists>bv'. dm_row_union bv m row = Inr bv' \<and> bv_wf bv' \<and> n_bits bv' = cols m
    \<and> bv_set bv' = bv_set bv \<union> {j. j < cols m \<and> dm_is_set m row j}"
  using union_loop[OF assms(1), of "[0..<cols m]" "dm_is_set m row"] assms(2)
  by (auto simp: dm_row_union_def bitvector_size_def dm_ncols_def)

lemma col_union_in_bounds:
  assumes "bv_wf bv" and "n_bits bv = cols m" and "rows m \<le> cols m"
  shows "\<exists>t. dm_col_union bv m col = Inr t \<and> bv_wf t \<and> bv_set t = bv_set bv \<union> {i. i < rows m \<and> dm_is_set m i col}"
proof -
  let ?f = "\<lambda>i bv. if dm_is_set m i col
             then if bv_seg i < length (bv_data bv) then Inr (bitvector_set bv i) else Inl Bad_access else Inr bv"
  let ?P = "\<lambda>k t. bv_wf t \<and> n_bits t = cols m \<and> bv_set t = bv_set bv \<union> {i. i < k \<and> dm_is_set m i col}"
  have "\<exists>t. fold_result ?f [0..<rows m] bv = Inr t \<and> ?P (length [0..<rows m]) t"
  proof (rule fold_result_invariant)
    show "?P 0 bv" using assms by simp
    fix k t assume k: "k < length [0..<rows m]" and P: "?P k t"
    then have kn: "k < n_bits t" using assms by simp
    have u: "bv_wf (bitvector_set t k)" "n_bits (bitvector_set t k) = n_bits t"
      "bv_set (bitvector_set t k) = bv_set t \<union> {k}"
      using union_loop[of t "[k]" "\<lambda>_. True"] P kn by auto
    show "\<exists>s'. ?f ([0..<rows m] ! k) t = Inr s' \<and> ?P (Suc k) s'"
      using P k u bv_index_in_bounds[of t k] kn by (auto simp: less_Suc_eq)
  qed
  with assms show ?thesis by (auto simp: dm_col_union_def bitvector_size_def dm_ncols_def dm_nrows_def)
qed

lemma col_union_fails:
  assumes "i \<in> set xs" and "dm_is_set m i col" and "length (bv_data bv) \<le> i div 64"
  shows "fold_result (\<lambda>i bv. if dm_is_set m i col
             then if bv_seg i < length (bv_data bv) then Inr (bitvector_set bv i) else Inl Bad_access
             else Inr bv) xs bv = Inl Bad_access"
  using assms
proof (induction xs arbitrary: bv)
  case (Cons x xs)
  have "length (bv_data (bitvector_set bv x)) = length (bv_data bv)" by (simp add: bitvector_set_def Let_def)
  with Cons show ?case by auto
qed simp

lemma col_union_out_of_bounds:
  assumes "bv_wf bv" and "n_bits bv = cols m" and "i < rows m \<and> dm_is_set m i col \<and> 64 * n_words bv \<le> i"
  shows "dm_col_union bv m col = Inl Bad_access"
proof -
  have "length (bv_data bv) \<le> i div 64" using assms by (auto simp: bv_wf_def div_le_mono[of "64 * _" i 64, simplified])
  then show ?thesis
    using col_union_fails[of i "[0..<rows m]" m col bv] assms
    by (auto simp: dm_col_union_def bitvector_size_def dm_ncols_def dm_nrows_def)
qed

lemma dm_prod_ok:
  assumes "bv_wf tgt" and "n_bits tgt = cols m" and "n_bits bv = rows m"
  shows "\<exists>bv'. dm_prod tgt bv m = Inr bv' \<and> bv_wf bv' \<and> n_bits bv' = cols m
    \<and> bv_set bv' = bv_set tgt \<union> {j. j < cols m \<and> (\<exists>i < rows m. dm_is_set m i j)}"
proof -
  let ?P = "\<lambda>k t. bv_wf t \<and> n_bits t = cols m
    \<and> bv_set t = bv_set tgt \<union> {j. j < cols m \<and> (\<exists>i < k. dm_is_set m i j)}"
  have "\<exists>bv'. fold_result (\<lambda>i tgt. dm_row_union tgt m i) [0..<rows m] tgt = Inr bv' \<and> ?P (length [0..<rows m]) bv'"
  proof (rule fold_result_invariant)
    show "?P 0 tgt" using assms by simp
    fix k t assume k: "k < length [0..<rows m]" and P: "?P k t"
    then obtain t' where "dm_row_union t m k = Inr t'" "bv_wf t'" "n_bits t' = cols m"
      "bv_set t' = bv_set t \<union> {j. j < cols m \<and> dm_is_set m k j}" using dm_row_union_ok[of t m k] by auto
    with P k show "\<exists>s'. dm_row_union t m ([0..<rows m] ! k) = Inr s' \<and> ?P (Suc k) s'"
      by (auto simp: less_Suc_eq)
  qed
  with assms show ?thesis by (simp add: dm_prod_def bitvector_size_def dm_ncols_def dm_nrows_def)
qed

lemma copy_header_fresh: "hdr_wf h \<Longrightarrow> copy_header h None = h"
  by (simp add: copy_header_def hdr_wf_def)

lemma bitvector_copy_id:
  assumes "bv_wf bv" and "n_bits bv + 63 < SIZE_LIMIT"
  shows "bitvector_copy bv = bv"
  using assms utrunc_64[OF assms(2)] by (simp add: bitvector_copy_def bitvector_create_def Let_def bv_wf_def)

lemma dm_copy_id:
  assumes "dm_wf m" and "rows m \<noteq> 0" and "cols m \<noteq> 0" and "n_bits (bits m) + 63 < SIZE_LIMIT"
  shows "dm_copy m = m"
  using assms copy_header_fresh[of "row_perm m"] copy_header_fresh[of "col_perm m"] bitvector_copy_id[of "bits m"]
  by (simp add: dm_copy_def dm_wf_def dm_shape_def)

lemma dm_equal_header_iff: "dm_equal_header a b \<longleftrightarrow> h_size a = h_size b \<and> (\<forall>i < h_size a. h_data a ! i = h_data b ! i)"
  by (auto simp: dm_equal_header_def list_all_iff Let_def)

lemma dm_equals_sound:
  assumes wf: "dm_wf a" "dm_wf b" and dims: "rows a = rows b" "cols a = cols b" "bits_per_row a = bits_per_row b"
    and eq: "dm_equals a b = Inr True"
  shows "i < rows a \<Longrightarrow> j < cols a \<Longrightarrow> dm_is_set a i j = dm_is_set b i j"
proof -
  assume ij: "i < rows a" "j < cols a"
  have hdr: "dm_equal_header (row_perm a) (row_perm b)" "dm_equal_header (col_perm a) (col_perm b)"
    and be: "bitvector_equal (bits a) (bits b)" using eq by (auto simp: dm_equals_def split: if_splits)
  note sa = wf_shape[OF wf(1)]
  have "rowp a i = rowp b i" "colp a j = colp b j"
    using hdr ij sa(4,5) by (auto simp: dm_equal_header_iff rowp_def colp_def)
  moreover have "bv_data (bits a) = bv_data (bits b)"
    using be wf by (auto simp: bitvector_equal_def list_all_iff dm_wf_def dm_shape_def bv_wf_def intro!: nth_equalityI split: if_splits)
  ultimately show "dm_is_set a i j = dm_is_set b i j"
    using dims by (simp add: dm_is_set_def bitvector_is_set_def)
qed

text \<open>Recounting the columns after the row permutation has been replaced.\<close>

lemma count_col_loop:
  assumes "b < length (h_count (col_perm m))"
  shows "fold (\<lambda>j t. if dm_is_set t j i then t\<lparr>col_perm := hdr_add_count b 1 (col_perm t)\<rparr> else t) [0..<n] m
    = m\<lparr>col_perm := (col_perm m)\<lparr>h_count := (h_count (col_perm m))
        [b := h_count (col_perm m) ! b + int (count_below (\<lambda>j. dm_is_set m j i) n)]\<rparr>\<rparr>"
proof (induction n)
  case (Suc n)
  have "dm_is_set (m\<lparr>col_perm := (col_perm m)\<lparr>h_count := cc\<rparr>\<rparr>) n i = dm_is_set m n i" for cc
    by (simp add: dm_is_set_def rowp_def colp_def)
  then show ?case using Suc assms by (simp add: count_below_Suc hdr_add_count_def add.assoc)
qed simp

lemma copy_recount_col_ok:
  assumes "colp m i < length (h_count (col_perm m))"
  shows "copy_recount_col n i m = m\<lparr>col_perm := (col_perm m)\<lparr>h_count := (h_count (col_perm m))
        [colp m i := int (count_below (\<lambda>j. dm_is_set m j i) n)]\<rparr>\<rparr>"
proof -
  let ?t = "m\<lparr>col_perm := hdr_set_count (colp m i) 0 (col_perm m)\<rparr>"
  have "dm_is_set ?t j i = dm_is_set m j i" for j
    by (simp add: dm_is_set_def rowp_def colp_def hdr_set_count_def)
  then show ?thesis
    using count_col_loop[of "colp m i" ?t i n] assms by (simp add: copy_recount_col_def Let_def hdr_set_count_def)
qed

lemma recount_cols_loop:
  assumes m: "dm_shape m" and n: "n \<le> h_size (col_perm m)"
  shows "\<exists>cc. fold (copy_recount_col r) [0..<n] m = m\<lparr>col_perm := (col_perm m)\<lparr>h_count := cc\<rparr>\<rparr>
    \<and> length cc = h_size (col_perm m) \<and> (\<forall>j < n. cc ! colp m j = int (count_below (\<lambda>i. dm_is_set m i j) r))"
  using n
proof (induction n)
  case 0
  then show ?case using m by (intro exI[of _ "h_count (col_perm m)"]) (simp add: dm_shape_def hdr_wf_def)
next
  case (Suc n)
  then obtain cc where IH: "fold (copy_recount_col r) [0..<n] m = m\<lparr>col_perm := (col_perm m)\<lparr>h_count := cc\<rparr>\<rparr>"
    "length cc = h_size (col_perm m)" "\<forall>j < n. cc ! colp m j = int (count_below (\<lambda>i. dm_is_set m i j) r)" by auto
  have n: "n < h_size (col_perm m)" using Suc.prems by simp
  let ?b = "colp m n" and ?t = "m\<lparr>col_perm := (col_perm m)\<lparr>h_count := cc\<rparr>\<rparr>"
  have b: "?b < h_size (col_perm m)" using shape_colp[OF m n] .
  let ?c = "cc[?b := int (count_below (\<lambda>i. dm_is_set m i n) r)]"
  have same: "colp ?t n = ?b" "dm_is_set ?t j n = dm_is_set m j n" for j
    by (simp_all add: colp_def rowp_def dm_is_set_def)
  have "copy_recount_col r n ?t = m\<lparr>col_perm := (col_perm m)\<lparr>h_count := ?c\<rparr>\<rparr>"
    using copy_recount_col_ok[of ?t n r] b IH(2) same by simp
  moreover have "?c ! colp m j = int (count_below (\<lambda>i. dm_is_set m i j) r)" if "j < Suc n" for j
  proof (cases "j = n")
    case True
    then show ?thesis using b IH(2) by simp
  next
    case False
    then have "j < n" using that by simp
    then show ?thesis using IH(3) colp_inj[OF m _ n, of j] n by simp
  qed
  ultimately show ?case using IH(1,2) by (intro exI[of _ ?c]) simp
qed

lemma dm_copy_row_info_ok:
  assumes src: "dm_shape src" and tgt: "dm_shape tgt" and sz: "h_size (row_perm src) = h_size (row_perm tgt)"
  shows "dm_shape (dm_copy_row_info src tgt)" and "rows (dm_copy_row_info src tgt) = rows src"
    and "i < h_size (row_perm tgt) \<Longrightarrow> rowp (dm_copy_row_info src tgt) i = rowp src i"
    and "colp (dm_copy_row_info src tgt) = colp tgt" and "bits (dm_copy_row_info src tgt) = bits tgt"
    and "rows tgt \<noteq> rows src \<Longrightarrow> j < cols tgt \<Longrightarrow> dm_ones_in_col (dm_copy_row_info src tgt) j
      = int (count_below (\<lambda>i. dm_is_set (dm_copy_row_info src tgt) i j) (rows src))"
proof -
  define m0 where "m0 = tgt\<lparr>row_perm := (row_perm tgt)\<lparr>h_data := h_data (row_perm src)\<rparr>,
    col_perm := invalidate_min_max (col_perm tgt)\<rparr>"
  have ch: "copy_header (row_perm src) (Some (row_perm tgt)) = (row_perm tgt)\<lparr>h_data := h_data (row_perm src)\<rparr>"
    using sz src by (simp add: copy_header_def dm_shape_def hdr_wf_def)
  have s0: "dm_shape m0" using src tgt sz
    by (auto simp: dm_shape_def m0_def hdr_wf_def invalidate_min_max_def)
  have d0: "rows m0 = rows tgt" "cols m0 = cols tgt" "h_size (col_perm m0) = h_size (col_perm tgt)"
    "h_size (row_perm m0) = h_size (row_perm tgt)" "bits m0 = bits tgt" "colp m0 = colp tgt"
    by (simp_all add: m0_def colp_def fun_eq_iff)
  have r0: "i < h_size (row_perm tgt) \<Longrightarrow> rowp m0 i = rowp src i" for i by (simp add: m0_def rowp_def)
  have cm: "cols m0 \<le> h_size (col_perm m0)" using s0 by (simp add: dm_shape_def)
  obtain cc where cc: "fold (copy_recount_col (rows src)) [0..<cols m0] m0 = m0\<lparr>col_perm := (col_perm m0)\<lparr>h_count := cc\<rparr>\<rparr>"
    "length cc = h_size (col_perm m0)" "\<forall>j < cols m0. cc ! colp m0 j = int (count_below (\<lambda>i. dm_is_set m0 i j) (rows src))"
    using recount_cols_loop[OF s0 cm] by blast
  define cc' where "cc' = (if rows tgt \<noteq> rows src then cc else h_count (col_perm m0))"
  have M: "dm_copy_row_info src tgt = m0\<lparr>col_perm := (col_perm m0)\<lparr>h_count := cc'\<rparr>, rows := rows src\<rparr>"
    using cc(1) d0 unfolding dm_copy_row_info_def ch
    by (simp add: m0_def[symmetric] Let_def dm_ncols_def dm_nrows_def cc'_def)
  have "length cc' = h_size (col_perm m0)" using cc(2) s0 by (simp add: cc'_def dm_shape_def hdr_wf_def)
  then show "dm_shape (dm_copy_row_info src tgt)" using s0 src sz d0 unfolding M by (simp add: dm_shape_def hdr_wf_def)
  show "rows (dm_copy_row_info src tgt) = rows src" "bits (dm_copy_row_info src tgt) = bits tgt" by (simp_all add: M d0)
  show c: "colp (dm_copy_row_info src tgt) = colp tgt" using d0(6) by (simp add: M colp_def fun_eq_iff)
  have r: "rowp (dm_copy_row_info src tgt) = rowp m0" by (simp add: M rowp_def fun_eq_iff)
  then show "i < h_size (row_perm tgt) \<Longrightarrow> rowp (dm_copy_row_info src tgt) i = rowp src i" using r0 by simp
  have "dm_is_set (dm_copy_row_info src tgt) = dm_is_set m0" using r c d0(6) by (simp add: M dm_is_set_def fun_eq_iff)
  then show "rows tgt \<noteq> rows src \<Longrightarrow> j < cols tgt \<Longrightarrow> dm_ones_in_col (dm_copy_row_info src tgt) j
      = int (count_below (\<lambda>i. dm_is_set (dm_copy_row_info src tgt) i j) (rows src))"
    using cc(3) d0 c by (simp add: dm_ones_in_col_def) (simp add: M cc'_def)
qed

section \<open>Properties\<close>

text \<open>
  C23. Combining matrices entry by entry: for two matrices of the same size, whatever their
  permutations are, \<^verbatim>\<open>dm_apply_or\<close> and \<^verbatim>\<open>dm_apply_xor\<close> compute the disjunction and the exclusive
  disjunction of the entries, \<^verbatim>\<open>dm_fill\<close> sets every entry, and \<^verbatim>\<open>dm_flatten\<close> keeps every entry while
  it drops the permutation; all of them keep the counts exact. Combining with a matrix that has
  another number of rows or another number of columns fails the assertion.
\<close>

theorem dm_entrywise_correct:
  assumes "dm_wf a" and "rows b = rows a" and "cols b = cols a" and "rows a * (cols a + 32) + 63 < SIZE_LIMIT"
    and "i < rows a" and "j < cols a"
  shows "(\<exists>m. dm_apply_or a b = Inr m \<and> dm_wf m \<and> dm_is_set m i j = (dm_is_set b i j \<or> dm_is_set a i j))
    \<and> (\<exists>m. dm_apply_xor a b = Inr m \<and> dm_wf m \<and> dm_is_set m i j = (dm_is_set a i j \<noteq> dm_is_set b i j))
    \<and> dm_wf (dm_fill a) \<and> dm_is_set (dm_fill a) i j
    \<and> dm_wf (dm_flatten a) \<and> dm_is_set (dm_flatten a) i j = dm_is_set a i j
    \<and> (rows c \<noteq> rows a \<or> cols c \<noteq> cols a \<longrightarrow> dm_apply_or a c = Inl Assert_fail \<and> dm_apply_xor a c = Inl Assert_fail)"
proof -
  have d: "has_dims (rows a) (cols a) a" using assms(1) by (simp add: has_dims_def)
  note L = apply_loops[OF d] and F = apply_loops(1)[OF create_has_dims(1)[OF assms(4)], of "dm_is_set a"]
  show ?thesis
    using L(1)[of "dm_is_set b"] L(2)[of "dm_is_set b"] L(3) F create_has_dims(2)[OF assms(4-6)] assms(2,3,5,6)
    by (auto simp: dm_apply_or_def dm_apply_xor_def dm_fill_def dm_flatten_def dm_nrows_def dm_ncols_def has_dims_def)
qed

theorem dm_entrywise_correct_witness:
  "\<exists>m. dm_apply_or (dm_create 2 3) (dm_set (dm_create 2 3) 1 2) = Inr m
    \<and> dm_is_set m 1 2 = (dm_is_set (dm_set (dm_create 2 3) 1 2) 1 2 \<or> dm_is_set (dm_create 2 3) 1 2)"
  using dm_entrywise_correct[OF demo_dm_wf, of "dm_set (dm_create 2 3) 1 2" 1 2] by auto

text \<open>
  C24. State vectors: \<^verbatim>\<open>dm_project_vector\<close> writes the values of the set columns to the front of its
  target and returns their number, \<^verbatim>\<open>dm_expand_vector\<close> spreads them again over a base state.
  Expanding a projection restores the vector wherever the row is set and takes the base state
  elsewhere; projecting an expansion restores the short vector.
\<close>

theorem dm_project_expand_roundtrip:
  assumes "length (filter (dm_is_set m row) [0..<cols m]) \<le> length buf"
    and "cols m \<le> length long" and "i < cols m"
  shows "fst (dm_project_vector m row src buf) = length (filter (dm_is_set m row) [0..<cols m])
    \<and> length (snd (dm_project_vector m row src buf)) = length buf
    \<and> fst (dm_expand_vector m row s0 short long) = length (filter (dm_is_set m row) [0..<cols m])
    \<and> snd (dm_expand_vector m row s0 (snd (dm_project_vector m row src buf)) long) ! i
       = (if dm_is_set m row i then src ! i else s0 ! i)
    \<and> (length short = length (filter (dm_is_set m row) [0..<cols m]) \<longrightarrow>
       take (length short) (snd (dm_project_vector m row (snd (dm_expand_vector m row s0 short long)) buf)) = short)"
proof -
  let ?p = "dm_is_set m row" and ?n = "cols m"
  have pr: "dm_project_vector m row v buf = (length (filter ?p [0..<?n]),
      map ((!) v) (filter ?p [0..<?n]) @ drop (length (filter ?p [0..<?n])) buf)" for v
    using project_loop[OF assms(1)] by (simp add: dm_project_vector_def dm_ncols_def)
  have ex: "dm_expand_vector m row s0 v long = (length (filter ?p [0..<?n]),
       map (\<lambda>i. if ?p i then v ! length (filter ?p [0..<i]) else s0 ! i) [0..<?n] @ drop ?n long)" for v
    using expand_loop[OF assms(2)] by (simp add: dm_expand_vector_def dm_ncols_def)
  have "map ((!) (snd (dm_expand_vector m row s0 short long))) (filter ?p [0..<?n]) = short"
    if l: "length short = length (filter ?p [0..<?n])"
  proof (rule nth_equalityI)
    fix k assume "k < length (map ((!) (snd (dm_expand_vector m row s0 short long))) (filter ?p [0..<?n]))"
    then have k: "k < length (filter ?p [0..<?n])" by simp
    define x where "x = filter ?p [0..<?n] ! k"
    have x: "x < ?n" "?p x" using nth_mem[OF k] by (auto simp: x_def)
    have "length (filter ?p [0..<x]) = k"
      using nth_filter_upt[of x ?n ?p, OF x] k by (metis distinct_filter distinct_upt nth_eq_iff_index_eq x_def)
    then show "map ((!) (snd (dm_expand_vector m row s0 short long))) (filter ?p [0..<?n]) ! k = short ! k"
      using k x by (simp add: x_def[symmetric] ex nth_append)
  qed (simp add: l)
  then show ?thesis
    using assms nth_filter_upt[OF assms(3), of ?p] by (auto simp: pr ex nth_append)
qed

theorem dm_project_expand_roundtrip_witness:
  "snd (dm_expand_vector (dm_create 2 3) 1 [7, 8, 9] (snd (dm_project_vector (dm_create 2 3) 1 [4, 5, 6] [0, 0, 0])) [0, 0, 0]) ! 2
    = (if dm_is_set (dm_create 2 3) 1 2 then [4, 5, 6] ! 2 else [7, 8, 9] ! 2)"
proof -
  have "length (filter (dm_is_set (dm_create 2 3) 1) [0..<cols (dm_create 2 3)]) \<le> length [0, 0, 0 :: int]"
    using length_filter_le[of "dm_is_set (dm_create 2 3) 1" "[0..<3]"] by simp
  from dm_project_expand_roundtrip[OF this, of "[0, 0, 0]" 2] show ?thesis by simp
qed

text \<open>
  Iterators: on a matrix with at least one column (row), calling \<^verbatim>\<open>dm_row_next\<close> (\<^verbatim>\<open>dm_col_next\<close>)
  from a fresh iterator until it returns \<open>-1\<close> enumerates exactly the set columns of the row (rows
  of the column) in increasing order, within one call more than there are columns (rows).
\<close>

theorem dm_iterators_enumerate:
  assumes "0 < cols m" and "0 < rows m"
  shows "row_drain (Suc (cols m)) (dm_create_row_iterator m row) = map int (filter (dm_is_set m row) [0..<cols m])
    \<and> col_drain (Suc (rows m)) (dm_create_col_iterator m col) = map int (filter (\<lambda>i. dm_is_set m i col) [0..<rows m])"
proof
  let ?p = "dm_is_set m row" and ?q = "\<lambda>i. dm_is_set m i col"
  let ?r = "dm_create_row_iterator m row" and ?c = "dm_create_col_iterator m col"
  have "ri_m ?r = m \<and> ri_row ?r = row
    \<and> ri_col ?r = (case first_from ?p 0 (cols m) of Some i \<Rightarrow> int i | None \<Rightarrow> -1)"
    using assms first_from_step[of ?p 0 "cols m"]
    by (simp add: dm_create_row_iterator_def dm_row_next_def Let_def dm_ncols_def)
  then show "row_drain (Suc (cols m)) ?r = map int (filter ?p [0..<cols m])"
    by (intro row_drain_pos) simp_all
  have "ci_m ?c = m \<and> ci_col ?c = col
    \<and> ci_row ?c = (case first_from ?q 0 (rows m) of Some i \<Rightarrow> int i | None \<Rightarrow> -1)"
    using assms first_from_step[of ?q 0 "rows m"]
    by (simp add: dm_create_col_iterator_def dm_col_next_def Let_def dm_nrows_def)
  then show "col_drain (Suc (rows m)) ?c = map int (filter ?q [0..<rows m])"
    by (intro col_drain_pos) simp_all
qed

theorem dm_iterators_enumerate_witness:
  "row_drain 4 (dm_create_row_iterator (dm_create 2 3) 1) = map int (filter (dm_is_set (dm_create 2 3) 1) [0..<3])"
  using dm_iterators_enumerate[of "dm_create 2 3" 1 0] by (simp add: numeral_eq_Suc del: row_drain.simps)

text \<open>
  C25. Index tables: on a matrix whose tables fit an \<^verbatim>\<open>int\<close> count (rows times columns plus rows, and
  plus columns, at most \<^verbatim>\<open>INT_MAX\<close>) and with enough memory, \<^verbatim>\<open>dm_rows_to_idx_table\<close> and
  \<^verbatim>\<open>dm_cols_to_idx_table\<close> return a table without writing outside the allocated block; through its
  header one reads for every line the number of its set entries, which is the cached count,
  followed by these entries in increasing order; and the lines, one after the other, fill the
  allocated block exactly.
\<close>

theorem dm_idx_tables_exact:
  assumes "dm_wf m" and "i < rows m" and "j < cols m" and "\<forall>b. alloc b"
    and "rows m * (cols m + 1) \<le> INT_MAX" and "cols m * (rows m + 1) \<le> INT_MAX"
  shows "(\<exists>t. dm_rows_to_idx_table alloc m = Inr (Some t)
      \<and> idx_count t i = dm_ones_in_row m i
      \<and> idx_entries t i = map int (filter (dm_is_set m i) [0..<cols m])
      \<and> it_data t = concat (map (\<lambda>i. idx_of (dm_is_set m i) (cols m)) [0..<rows m])
      \<and> idx_bytes (rows m) (idx_memcnt (dm_is_set m) (rows m) (cols m)) = rows m * 8 + length (it_data t) * 4)
    \<and> (\<exists>t. dm_cols_to_idx_table alloc m = Inr (Some t)
      \<and> idx_count t j = dm_ones_in_col m j
      \<and> idx_entries t j = map int (filter (\<lambda>i. dm_is_set m i j) [0..<rows m])
      \<and> it_data t = concat (map (\<lambda>j. idx_of (\<lambda>i. dm_is_set m i j) (rows m)) [0..<cols m])
      \<and> idx_bytes (cols m) (idx_memcnt (\<lambda>j i. dm_is_set m i j) (cols m) (rows m)) = cols m * 8 + length (it_data t) * 4)"
proof -
  note al = assms(4)[THEN spec]
  show ?thesis
    unfolding dm_rows_to_idx_table_def dm_cols_to_idx_table_def dm_nrows_def dm_ncols_def
    using idx_table_exact[where alloc = alloc and p = "dm_is_set m", OF assms(2,5) al]
      idx_table_exact[where alloc = alloc and p = "\<lambda>j i. dm_is_set m i j", OF assms(3,6) al]
      wf_ones_row[OF assms(1,2)] wf_ones_col[OF assms(1,3)]
    by (simp add: count_below_eq_length_filter)
qed

theorem dm_idx_tables_exact_witness:
  "\<exists>t. dm_rows_to_idx_table (\<lambda>b. True) (dm_set (dm_create 2 3) 1 2) = Inr (Some t)
    \<and> idx_count t 1 = dm_ones_in_row (dm_set (dm_create 2 3) 1 2) 1"
proof -
  have wf: "dm_wf (dm_set (dm_create 2 3) 1 2)" using set_dm_wf(1)[OF demo_dm_wf, of 1 2] by simp
  have "rows (dm_set (dm_create 2 3) 1 2) = 2" "cols (dm_set (dm_create 2 3) 1 2) = 3"
    by (unfold demo_create, code_simp+)
  then show ?thesis using dm_idx_tables_exact[OF wf, of 1 2 "\<lambda>b. True"] by simp blast
qed

text \<open>
  Unions of rows: \<^verbatim>\<open>dm_row_union\<close> adds the set columns of one row to a bit vector of the
  right size and fails the assertion otherwise; \<^verbatim>\<open>dm_prod\<close> adds the columns of all rows, whether
  or not the row is in the vector \<open>bv\<close> that it is to be multiplied with.
\<close>

theorem dm_row_union_and_prod:
  assumes "bv_wf tgt" and "n_bits tgt = cols m" and "n_bits bv = rows m"
  shows "(\<exists>t. dm_row_union tgt m row = Inr t \<and> bv_wf t \<and> bv_set t = bv_set tgt \<union> {j. j < cols m \<and> dm_is_set m row j})
    \<and> (\<exists>t. dm_prod tgt bv m = Inr t \<and> bv_wf t \<and> bv_set t = bv_set tgt \<union> {j. j < cols m \<and> (\<exists>i < rows m. dm_is_set m i j)})
    \<and> (n_bits other \<noteq> cols m \<longrightarrow> dm_row_union other m row = Inl Assert_fail \<and> dm_prod other bv m = Inl Assert_fail)"
proof -
  have "n_bits other \<noteq> cols m \<longrightarrow> dm_row_union other m row = Inl Assert_fail \<and> dm_prod other bv m = Inl Assert_fail"
    by (simp add: dm_row_union_def dm_prod_def bitvector_size_def dm_ncols_def)
  with dm_row_union_ok[OF assms(1,2), of row] dm_prod_ok[OF assms] show ?thesis by blast
qed

theorem dm_row_union_and_prod_witness:
  "\<exists>t. dm_prod (bitvector_create 3) (bitvector_create 2) (dm_create 2 3) = Inr t \<and> bv_wf t"
proof -
  have "n_bits (bitvector_create 3) = cols (dm_create 2 3)" "n_bits (bitvector_create 2) = rows (dm_create 2 3)"
    using create_wf(3)[of 3] create_wf(3)[of 2] by simp_all
  moreover have "bv_wf (bitvector_create 3)" using create_wf(1)[of 3] by simp
  ultimately show ?thesis using dm_row_union_and_prod by blast
qed

text \<open>
  \<^verbatim>\<open>dm_col_union\<close> is correct only for matrices with at most as many rows as columns: its
  assertion demands a vector with one bit per column, but the loop sets one bit per row. A set
  entry in a row whose bit lies behind the last word of the vector is written out of bounds.
\<close>

theorem dm_col_union_bounds:
  assumes "bv_wf bv" and "n_bits bv = cols m"
  shows "(rows m \<le> cols m \<longrightarrow> (\<exists>t. dm_col_union bv m col = Inr t \<and> bv_wf t
        \<and> bv_set t = bv_set bv \<union> {i. i < rows m \<and> dm_is_set m i col}))
    \<and> (i < rows m \<and> dm_is_set m i col \<and> 64 * n_words bv \<le> i \<longrightarrow> dm_col_union bv m col = Inl Bad_access)"
  using col_union_in_bounds[OF assms] col_union_out_of_bounds[OF assms] by blast

theorem dm_col_union_bounds_witness:
  "dm_col_union (bitvector_create 1) (dm_set (dm_create 65 1) 64 0) 0 = Inl Bad_access"
proof -
  let ?m = "dm_set (dm_create 65 1) 64 0"
  have d: "has_dims 65 1 (dm_create 65 1)" by (rule create_has_dims(1)) simp
  have m: "rows ?m = 65" "cols ?m = 1" "dm_is_set ?m 64 0"
    using set_unset_step(1)[OF d, of 64 0] set_unset_step(3)[OF d, of 64 0 64 0] by (simp_all add: has_dims_def)
  have bv: "bv_wf (bitvector_create 1)" "n_bits (bitvector_create 1) = cols ?m" "n_words (bitvector_create 1) = 1"
    using create_wf[of 1] m by (simp_all add: bv_wf_def)
  show ?thesis using dm_col_union_bounds[OF bv(1,2), of 0 64] m bv(3) by simp
qed

text \<open>
  Copies: \<^verbatim>\<open>dm_copy\<close> of a matrix that is not degenerate is an identical matrix, on which
  \<^verbatim>\<open>dm_equals\<close> answers true; a positive answer of \<^verbatim>\<open>dm_equals\<close> means that all entries agree;
  \<^verbatim>\<open>dm_copy_row_info\<close> gives the target the rows of the source in the order of the source and, when
  their number changes, exact column counts again.
\<close>

theorem dm_copy_correct:
  assumes "dm_wf m" and "rows m \<noteq> 0" and "cols m \<noteq> 0" and "n_bits (bits m) + 63 < SIZE_LIMIT"
    and "dm_wf t" and "h_size (row_perm m) = h_size (row_perm t)" and "i < rows m" and "j < cols t"
  shows "dm_copy m = m \<and> dm_equals m (dm_copy m) = Inr True
    \<and> (rows m = rows t \<and> cols m = cols t \<and> bits_per_row m = bits_per_row t \<and> dm_equals m t = Inr True
        \<longrightarrow> dm_is_set m i j = dm_is_set t i j)
    \<and> rows (dm_copy_row_info m t) = rows m
    \<and> rowp (dm_copy_row_info m t) i = rowp m i \<and> colp (dm_copy_row_info m t) j = colp t j
    \<and> (rows t \<noteq> rows m \<longrightarrow> dm_ones_in_col (dm_copy_row_info m t) j
        = int (count_below (\<lambda>i. dm_is_set (dm_copy_row_info m t) i j) (rows m)))"
proof -
  note s = wf_shape[OF assms(1)] and t = wf_shape[OF assms(5)]
  have c: "dm_copy m = m" by (rule dm_copy_id[OF assms(1-4)])
  have "dm_equals m m = Inr True"
    using assms by (simp add: dm_equals_def dm_equal_header_iff bitvector_equal_def list_all_iff)
  with c show ?thesis
    using dm_copy_row_info_ok[OF s(1) t(1) assms(6)] dm_equals_sound[OF assms(1,5), of i j] assms(6-8) s(4) by auto
qed

lemma demo_bits: "n_bits (bits (dm_create 2 3)) = 64"
  by (simp add: demo_create)

theorem dm_copy_correct_witness:
  "dm_copy (dm_create 2 3) = dm_create 2 3 \<and> dm_equals (dm_create 2 3) (dm_copy (dm_create 2 3)) = Inr True"
  using dm_copy_correct[OF demo_dm_wf _ _ _ demo_dm_wf, of 0 0] demo_bits by auto

end
