(* ===== verification/Dm_Span.thy ===== *)
theory Dm_Span
  imports Dm_Ops
begin

text \<open>
  The event span of the dependency matrix and the local search that reduces it
  (\<^verbatim>\<open>dm_row_spans\<close>, \<^verbatim>\<open>dm_event_span\<close>, \<^verbatim>\<open>est_first\<close>, \<^verbatim>\<open>est_last\<close>, \<^verbatim>\<open>estimate_cost\<close>, \<^verbatim>\<open>dm_optimize\<close> of
  \<^verbatim>\<open>src/src/dm/dm.c\<close>). The cost of \<^verbatim>\<open>estimate_cost\<close> is added up in a 32-bit \<^verbatim>\<open>int\<close>; the sum of
  \<^verbatim>\<open>dm_event_span\<close> is a \<^verbatim>\<open>double\<close>, which is exact below \<open>2 ^ 53\<close> and which \<^verbatim>\<open>dm_optimize\<close> converts to an
  \<^verbatim>\<open>int\<close>, and is an integer here. Both sums are at most the number of rows times the number of columns (or
  times one, \<open>total_span_bound\<close>), so that where this product fits an \<^verbatim>\<open>int\<close> nothing overflows.
  The functions that read the first and last column of a row fill its caches, so they return
  the matrix as well.
\<close>

section \<open>Model\<close>

definition row_span_step :: "nat \<Rightarrow> int list \<times> matrix \<Rightarrow> int list \<times> matrix" where
  "row_span_step i = (\<lambda>(spans, m).
     let (f, m) = dm_first m i; (l, m) = dm_last m i
     in (spans @ [if f = -1 \<or> l = -1 then 0 else l - f + 1], m))"

definition dm_row_spans :: "matrix \<Rightarrow> int list \<times> matrix" where
  "dm_row_spans m = fold row_span_step [0..<dm_nrows m] ([], m)"

definition dm_event_span :: "matrix \<Rightarrow> int list option \<Rightarrow> int \<times> matrix" where
  "dm_event_span m spans =
     (let (s, m) = (case spans of None \<Rightarrow> dm_row_spans m | Some s \<Rightarrow> (s, m))
      in (fold (\<lambda>i res. res + s ! i) [0..<dm_nrows m] 0, m))"

definition est_first :: "matrix \<Rightarrow> nat \<Rightarrow> nat \<Rightarrow> nat \<Rightarrow> int \<Rightarrow> int" where
  "est_first m row i j first =
     (if first = -1 then -1
      else if int i < first then if int j < first then first else first - 1
      else if int i > first
           then if int j \<le> first then if dm_is_set m row i then int j else first + 1
                else first
      else if int j < first then int j
      else case first_from (dm_is_set m row) (i + 1) (j + 1) of Some k \<Rightarrow> int k - 1 | None \<Rightarrow> int j)"

text \<open>The loop of \<^verbatim>\<open>est_last\<close> runs downwards from \<open>i - 1\<close> to \<open>j\<close>.\<close>

definition est_last :: "matrix \<Rightarrow> nat \<Rightarrow> nat \<Rightarrow> nat \<Rightarrow> int \<Rightarrow> int" where
  "est_last m row i j lst =
     (if lst = -1 then -1
      else if int i > lst then if int j > lst then lst else lst + 1
      else if int i < lst
           then if int j \<ge> lst then if dm_is_set m row i then int j else lst - 1
                else lst
      else if int j > lst then int j
      else case last_below (\<lambda>k. j \<le> k \<and> dm_is_set m row k) i of Some k \<Rightarrow> int k + 1 | None \<Rightarrow> int j)"

definition estimate_cost :: "matrix \<Rightarrow> nat \<Rightarrow> nat \<Rightarrow> int list \<Rightarrow> int list \<Rightarrow> int" where
  "estimate_cost m i j firsts lasts =
     fold (\<lambda>row ec. let ef = est_first m row i j (firsts ! row); el = est_last m row i j (lasts ! row)
        in int32 (ec + (el - ef + 1))) [0..<dm_nrows m] 0"

definition collect_step :: "nat \<Rightarrow> int list \<times> int list \<times> matrix \<Rightarrow> int list \<times> int list \<times> matrix" where
  "collect_step i = (\<lambda>(firsts, lasts, m).
     let (f, m) = dm_first m i; (l, m) = dm_last m i in (firsts @ [f], lasts @ [l], m))"

definition collect_firsts_lasts :: "matrix \<Rightarrow> int list \<times> int list \<times> matrix" where
  "collect_firsts_lasts m = fold collect_step [0..<dm_nrows m] ([], [], m)"

definition best_rotation_step ::
  "matrix \<Rightarrow> int list \<Rightarrow> int list \<Rightarrow> nat \<Rightarrow> nat \<Rightarrow> int \<times> nat \<times> nat \<Rightarrow> int \<times> nat \<times> nat" where
  "best_rotation_step m firsts lasts i j = (\<lambda>(mn, best_i, best_j).
     if i \<noteq> j
     then let c = estimate_cost m i j firsts lasts in if c < mn then (c, i, j) else (mn, best_i, best_j)
     else (mn, best_i, best_j))"

definition best_rotation :: "matrix \<Rightarrow> int list \<Rightarrow> int list \<Rightarrow> int \<Rightarrow> int \<times> nat \<times> nat" where
  "best_rotation m firsts lasts mn =
     fold (\<lambda>i. fold (best_rotation_step m firsts lasts i) [0..<dm_ncols m]) [0..<dm_ncols m] (mn, 0, 0)"

text \<open>The columns that the rotation loop adds to its group, from \<open>best_i\<close> to \<open>best_j\<close>.\<close>

definition rot_cols :: "nat \<Rightarrow> nat \<Rightarrow> nat list" where
  "rot_cols best_i best_j =
     (if best_i < best_j then [best_i..<best_j] @ [best_j] else rev [best_j + 1..<best_i + 1] @ [best_j])"

text \<open>The main loop; \<open>None\<close> would be a search that never ends.\<close>

partial_function (option) optimize_loop :: "matrix \<Rightarrow> int \<Rightarrow> int \<Rightarrow> matrix result option" where
  "optimize_loop m mn last_min =
     (if last_min \<noteq> mn
      then case collect_firsts_lasts m of (firsts, lasts, m') \<Rightarrow>
           (case best_rotation m' firsts lasts mn of (mn', best_i, best_j) \<Rightarrow>
             (if best_i \<noteq> best_j
              then (case add_all (dm_create_permutation_group (dm_ncols m') True) (rot_cols best_i best_j) of
                      Inl e \<Rightarrow> Some (Inl e)
                    | Inr rot \<Rightarrow> optimize_loop (dm_permute_cols m' rot) mn' mn)
              else optimize_loop m' mn' mn))
      else Some (Inr m))"

declare optimize_loop.simps [code]

definition dm_optimize :: "matrix \<Rightarrow> matrix result option" where
  "dm_optimize m = (let (mn, m) = dm_event_span m None in optimize_loop m mn 0)"

section \<open>Estimates\<close>

text \<open>\<open>rot i j\<close> is the effect of rotating column \<open>i\<close> to position \<open>j\<close>.\<close>

definition rot :: "nat \<Rightarrow> nat \<Rightarrow> nat \<Rightarrow> nat" where
  "rot i j k = (if i < j then if k < i \<or> j < k then k else if k = j then i else Suc k
     else if k < j \<or> i < k then k else if k = j then i else k - 1)"

lemma rot_cols_eq: "rot_cols i j = (if i < j then [i..<Suc j] else rev [j..<Suc i])"
proof (cases "i < j")
  case False
  then have "[j..<Suc i] = j # [Suc j..<Suc i]" by (intro upt_conv_Cons) simp
  with False show ?thesis by (simp add: rot_cols_def del: upt_Suc)
qed (simp add: rot_cols_def)

lemma cyc_next_rot: "cyc_next (rot_cols i j) = rot i j"
proof
  fix k
  show "cyc_next (rot_cols i j) k = rot i j k"
    using cyc_next_upt[of i "Suc j" k] cyc_next_rev_upt[of j "Suc i" k]
    by (auto simp: rot_cols_eq rot_def simp del: upt_Suc)
qed

lemma rot_perm_ok: "i < n \<Longrightarrow> j < n \<Longrightarrow> g_data g = rot_cols i j \<Longrightarrow> perm_ok n g"
  by (auto simp: perm_ok_def rot_cols_eq simp del: upt_Suc)

definition fst_of :: "(nat \<Rightarrow> bool) \<Rightarrow> nat \<Rightarrow> int" where
  "fst_of p n = (case first_from p 0 n of None \<Rightarrow> -1 | Some k \<Rightarrow> int k)"

definition lst_of :: "(nat \<Rightarrow> bool) \<Rightarrow> nat \<Rightarrow> int" where
  "lst_of p n = (case last_below p n of None \<Rightarrow> -1 | Some k \<Rightarrow> int k)"

lemma fst_of_eq: "fst_of p n = int k \<longleftrightarrow> k < n \<and> p k \<and> (\<forall>l < k. \<not> p l)"
  unfolding fst_of_def using first_from_Some_iff[of p 0 n k] by (auto split: option.split)

lemma lst_of_eq: "lst_of p n = int k \<longleftrightarrow> k < n \<and> p k \<and> (\<forall>l. k < l \<and> l < n \<longrightarrow> \<not> p l)"
  unfolding lst_of_def using last_below_Some_iff[of p n k] by (auto split: option.split)

lemma fst_of_none: "fst_of p n = -1 \<longleftrightarrow> (\<forall>k < n. \<not> p k)"
  unfolding fst_of_def using first_from_None_iff[of p 0 n] by (auto split: option.split)

lemma lst_of_none: "lst_of p n = -1 \<longleftrightarrow> (\<forall>k < n. \<not> p k)"
  unfolding lst_of_def using last_below_None_iff[of p n] by (auto split: option.split)

lemma fst_of_cases: "fst_of p n = -1 \<or> (\<exists>k. fst_of p n = int k)"
  by (auto simp: fst_of_def split: option.split)

lemma lst_of_cases: "lst_of p n = -1 \<or> (\<exists>k. lst_of p n = int k)"
  by (auto simp: lst_of_def split: option.split)

lemma rot_lt: "i < n \<Longrightarrow> j < n \<Longrightarrow> rot i j k < n \<longleftrightarrow> k < n"
  by (auto simp: rot_def)

lemma est_first_rot:
  assumes i: "i < n" and j: "j < n" and f: "fst_of (dm_is_set m row) n = first"
  shows "est_first m row i j first = fst_of (\<lambda>k. dm_is_set m row (rot i j k)) n"
proof -
  let ?p = "dm_is_set m row"
  let ?q = "\<lambda>k. ?p (rot i j k)"
  consider "first = -1" | f0 where "first = int f0" using fst_of_cases[of ?p n] f by auto
  then show ?thesis
  proof cases
    case 1
    then have "fst_of ?q n = -1" using f rot_lt[OF i j] by (simp add: fst_of_none)
    then show ?thesis using 1 by (simp add: est_first_def)
  next
    case (2 f0)
    then have F: "f0 < n" "?p f0" "\<And>l. l < f0 \<Longrightarrow> \<not> ?p l" using f by (auto simp: fst_of_eq)
    consider (lt) "i < f0" | (gt) "i > f0" | (left) "i = f0" "j < f0" | (right) "i = f0" "j \<ge> f0" by linarith
    then show ?thesis
    proof cases
      case lt
      have "fst_of ?q n = int (if j < f0 then f0 else f0 - 1)"
        unfolding fst_of_eq using lt F i j by (auto simp: rot_def)
      then show ?thesis using lt 2 by (auto simp: est_first_def)
    next
      case gt
      have "fst_of ?q n = int (if j \<le> f0 then if ?p i then j else f0 + 1 else f0)"
        unfolding fst_of_eq using gt F i j by (auto simp: rot_def)
      then show ?thesis using gt 2 by (auto simp: est_first_def)
    next
      case left
      have "fst_of ?q n = int j" unfolding fst_of_eq using left F i j by (auto simp: rot_def)
      then show ?thesis using left 2 by (auto simp: est_first_def)
    next
      case right
      show ?thesis
      proof (cases "first_from ?p (i + 1) (j + 1)")
        case None
        then have N: "\<And>k. i < k \<Longrightarrow> k \<le> j \<Longrightarrow> \<not> ?p k" by (auto simp: first_from_None_iff)
        have "fst_of ?q n = int j" unfolding fst_of_eq using right F N i j by (auto simp: rot_def)
        then show ?thesis using right 2 None by (auto simp: est_first_def)
      next
        case (Some k)
        then have S: "i < k" "k \<le> j" "?p k" "\<And>l. i < l \<Longrightarrow> l < k \<Longrightarrow> \<not> ?p l" by (auto simp: first_from_Some_iff)
        have "fst_of ?q n = int (k - 1)" unfolding fst_of_eq using right F S i j by (auto simp: rot_def)
        then show ?thesis using right 2 Some S by (auto simp: est_first_def)
      qed
    qed
  qed
qed

lemma est_last_rot:
  assumes i: "i < n" and j: "j < n" and f: "lst_of (dm_is_set m row) n = lst"
  shows "est_last m row i j lst = lst_of (\<lambda>k. dm_is_set m row (rot i j k)) n"
proof -
  let ?p = "dm_is_set m row"
  let ?q = "\<lambda>k. ?p (rot i j k)"
  consider "lst = -1" | f0 where "lst = int f0" using lst_of_cases[of ?p n] f by auto
  then show ?thesis
  proof cases
    case 1
    then have "lst_of ?q n = -1" using f rot_lt[OF i j] by (simp add: lst_of_none)
    then show ?thesis using 1 by (simp add: est_last_def)
  next
    case (2 f0)
    then have F: "f0 < n" "?p f0" "\<And>l. f0 < l \<Longrightarrow> l < n \<Longrightarrow> \<not> ?p l" using f by (auto simp: lst_of_eq)
    consider (gt) "i > f0" | (lt) "i < f0" | (right) "i = f0" "j > f0" | (left) "i = f0" "j \<le> f0" by linarith
    then show ?thesis
    proof cases
      case gt
      have "lst_of ?q n = int (if j > f0 then f0 else f0 + 1)"
        unfolding lst_of_eq using gt F i j by (auto simp: rot_def)
      then show ?thesis using gt 2 by (auto simp: est_last_def)
    next
      case lt
      have "lst_of ?q n = int (if j \<ge> f0 then if ?p i then j else f0 - 1 else f0)"
        unfolding lst_of_eq using lt F i j by (auto simp: rot_def)
      then show ?thesis using lt 2 by (auto simp: est_last_def)
    next
      case right
      have "lst_of ?q n = int j" unfolding lst_of_eq using right F i j by (auto simp: rot_def)
      then show ?thesis using right 2 by (auto simp: est_last_def)
    next
      case left
      show ?thesis
      proof (cases "last_below (\<lambda>k. j \<le> k \<and> ?p k) i")
        case None
        then have N: "\<And>k. k < i \<Longrightarrow> j \<le> k \<Longrightarrow> \<not> ?p k" by (auto simp: last_below_None_iff)
        have "lst_of ?q n = int j" unfolding lst_of_eq using left F N i j by (auto simp: rot_def)
        then show ?thesis using left 2 None by (auto simp: est_last_def)
      next
        case (Some k)
        then have S: "k < i" "j \<le> k" "?p k" "\<And>l. k < l \<Longrightarrow> l < i \<Longrightarrow> \<not> ?p l" by (auto simp: last_below_Some_iff)
        have "lst_of ?q n = int (k + 1)" unfolding lst_of_eq using left F S i j by (auto simp: rot_def)
        then show ?thesis using left 2 Some S by (auto simp: est_last_def)
      qed
    qed
  qed
qed

section \<open>Spans\<close>

definition span_of :: "matrix \<Rightarrow> nat \<Rightarrow> int" where
  "span_of m i = (if first_col m i = -1 then 0 else last_col m i - first_col m i + 1)"

definition total_span :: "matrix \<Rightarrow> int" where
  "total_span m = (\<Sum>i < rows m. span_of m i)"

definition empty_rows :: "matrix \<Rightarrow> int" where
  "empty_rows m = (\<Sum>i < rows m. if first_col m i = -1 then 1 else 0)"

lemma first_col_fst_of: "first_col m i = fst_of (dm_is_set m i) (cols m)" "last_col m i = lst_of (dm_is_set m i) (cols m)"
  by (simp_all add: first_col_def last_col_def fst_of_def lst_of_def)

lemma first_last_none: "first_col m i = -1 \<longleftrightarrow> last_col m i = -1"
  by (simp add: first_col_fst_of fst_of_none lst_of_none)

lemma span_nonneg: "0 \<le> span_of m i"
proof (cases "first_col m i = -1")
  case False
  then obtain a b where ab: "first_col m i = int a" "last_col m i = int b"
    using first_last_none[of m i] fst_of_cases[of "dm_is_set m i" "cols m"] lst_of_cases[of "dm_is_set m i" "cols m"]
    by (auto simp: first_col_fst_of)
  then have "a \<le> b" by (auto simp: first_col_fst_of fst_of_eq lst_of_eq)
  then show ?thesis using ab False by (simp add: span_of_def)
qed (simp add: span_of_def)

text \<open>What the caches may change: nothing that a reader of the matrix sees.\<close>

definition good :: "matrix \<Rightarrow> matrix \<Rightarrow> bool" where
  "good m m' \<longleftrightarrow> dm_wf m' \<and> row_cache_ok m' \<and> same_matrix m m'"

lemma good_step:
  assumes "good m s" and "i < rows m"
  shows "\<exists>s'. (let (f, s1) = dm_first s i; (l, s2) = dm_last s1 i in (f, l, s2)) = (first_col m i, last_col m i, s')
    \<and> good m s'"
proof -
  have g: "dm_wf s" "row_cache_ok s" "same_matrix m s" using assms by (auto simp: good_def)
  have i: "i < rows s" using assms(2) g(3) by (simp add: same_matrix_def)
  obtain f s1 where f: "dm_first s i = (f, s1)" by (cases "dm_first s i")
  note F = dm_first_ok[OF g(1,2) i] same_matrixD[OF g(3)]
  have s1: "f = first_col m i" "same_matrix s s1" "row_cache_ok s1" using F f by auto
  note D = same_matrixD[OF s1(2)]
  have g1: "dm_wf s1" "i < rows s1" using D g(1) i by auto
  obtain l s2 where l: "dm_last s1 i = (l, s2)" by (cases "dm_last s1 i")
  note L = dm_last_ok[OF g1(1) s1(3) g1(2)]
  have s2: "l = last_col m i" "same_matrix s1 s2" "row_cache_ok s2" using L l D F by auto
  have "dm_wf s2" using same_matrixD(6)[OF s2(2)] g1(1) by simp
  then have "good m s2" using s2(3) same_matrix_trans[OF g(3) same_matrix_trans[OF s1(2) s2(2)]] by (simp add: good_def)
  then show ?thesis using f l s1(1) s2(1) by simp
qed

lemma row_spans_loop:
  assumes "good m m" and "n \<le> rows m"
  shows "\<exists>s. fold row_span_step [0..<n] ([], m) = (map (span_of m) [0..<n], s) \<and> good m s"
  using assms(2)
proof (induction n)
  case 0
  then show ?case using assms(1) by simp
next
  case (Suc n)
  then obtain s where s: "fold row_span_step [0..<n] ([], m) = (map (span_of m) [0..<n], s)" "good m s" by auto
  then obtain s' where s': "(let (f, s1) = dm_first s n; (l, s2) = dm_last s1 n in (f, l, s2)) = (first_col m n, last_col m n, s')"
    "good m s'" using good_step[of m s n] Suc.prems by auto
  then have "row_span_step n (map (span_of m) [0..<n], s) = (map (span_of m) [0..<Suc n], s')"
    using first_last_none[of m n] by (auto simp: row_span_step_def span_of_def Let_def split: prod.splits)
  then show ?case using s s' by simp
qed

lemma collect_loop:
  assumes "good m m" and "n \<le> rows m"
  shows "\<exists>s. fold collect_step [0..<n] ([], [], m) = (map (first_col m) [0..<n], map (last_col m) [0..<n], s) \<and> good m s"
  using assms(2)
proof (induction n)
  case 0
  then show ?case using assms(1) by simp
next
  case (Suc n)
  then obtain s where s: "fold collect_step [0..<n] ([], [], m) = (map (first_col m) [0..<n], map (last_col m) [0..<n], s)"
    "good m s" by auto
  then obtain s' where s': "(let (f, s1) = dm_first s n; (l, s2) = dm_last s1 n in (f, l, s2)) = (first_col m n, last_col m n, s')"
    "good m s'" using good_step[of m s n] Suc.prems by auto
  then have "collect_step n (map (first_col m) [0..<n], map (last_col m) [0..<n], s)
      = (map (first_col m) [0..<Suc n], map (last_col m) [0..<Suc n], s')"
    by (auto simp: collect_step_def Let_def split: prod.splits)
  then show ?case using s s' by simp
qed

lemma fold_sum: "fold (\<lambda>i res. res + f i) [0..<n] 0 = (\<Sum>i < n. f i :: int)"
  by (induction n) auto

lemma fold_sum32: "fold (\<lambda>i res. int32 (res + f i)) [0..<n] 0 = int32 (\<Sum>i < n. f i)"
  by (induction n) (simp_all add: int32_add)

lemma event_span_ok:
  assumes "good m m"
  shows "\<exists>s. dm_event_span m None = (total_span m, s) \<and> good m s"
proof -
  obtain s where s: "dm_row_spans m = (map (span_of m) [0..<rows m], s)" "good m s"
    using row_spans_loop[OF assms order_refl] by (auto simp: dm_row_spans_def dm_nrows_def)
  have "rows s = rows m" using s(2) by (simp add: good_def same_matrix_def)
  moreover have "(\<Sum>i < rows m. map (span_of m) [0..<rows m] ! i) = (\<Sum>i < rows m. span_of m i)"
    by (rule sum.cong) auto
  ultimately show ?thesis using s by (simp add: dm_event_span_def fold_sum total_span_def dm_nrows_def)
qed

section \<open>The local search\<close>

lemma fst_of_cong:
  assumes "\<And>k. k < n \<Longrightarrow> p k = q k"
  shows "fst_of p n = fst_of q n"
proof -
  have "List.find p [0..<n] = List.find q [0..<n]" using assms by (intro find_cong) auto
  then show ?thesis by (simp add: fst_of_def first_from_def)
qed

lemma lst_of_cong:
  assumes "\<And>k. k < n \<Longrightarrow> p k = q k"
  shows "lst_of p n = lst_of q n"
proof -
  have "last_below p n = last_below q n" using assms by (induction n) auto
  then show ?thesis by (simp add: lst_of_def)
qed

definition rot_matrix :: "matrix \<Rightarrow> nat \<Rightarrow> nat \<Rightarrow> matrix" where
  "rot_matrix m i j = dm_permute_cols m \<lparr>g_data_size = cols m, g_fixed_size = True, g_data = rot_cols i j\<rparr>"

lemma rot_matrix_ok:
  assumes wf: "dm_wf m" and i: "i < cols m" and j: "j < cols m"
  shows "dm_wf (rot_matrix m i j)" and "row_cache_ok (rot_matrix m i j)"
    and "rows (rot_matrix m i j) = rows m" and "cols (rot_matrix m i j) = cols m"
    and "first_col (rot_matrix m i j) row = est_first m row i j (first_col m row)"
    and "last_col (rot_matrix m i j) row = est_last m row i j (last_col m row)"
    and "first_col (rot_matrix m i j) row = -1 \<longleftrightarrow> first_col m row = -1"
    and "rearr (cols m) (cols m) (col_bits m) (col_bits (rot_matrix m i j))"
proof -
  let ?g = "\<lparr>g_data_size = cols m, g_fixed_size = True, g_data = rot_cols i j\<rparr>"
  have po: "perm_ok (cols m) ?g" using i j by (intro rot_perm_ok) simp_all
  note p = permute_cols_wf[OF wf po, folded rot_matrix_def]
  show "dm_wf (rot_matrix m i j)" "row_cache_ok (rot_matrix m i j)" by (rule p)+
  show d: "rows (rot_matrix m i j) = rows m" "cols (rot_matrix m i j) = cols m" by (simp_all add: rot_matrix_def)
  have s: "dm_is_set (rot_matrix m i j) r k = dm_is_set m r (rot i j k)" if "k < cols m" for r k
    using p(2)[OF that] cyc_next_rot by simp
  show f: "first_col (rot_matrix m i j) row = est_first m row i j (first_col m row)" for row
    using est_first_rot[OF i j, of m row] fst_of_cong[of "cols m" "dm_is_set (rot_matrix m i j) row"] s
    by (simp add: first_col_fst_of d)
  show "last_col (rot_matrix m i j) row = est_last m row i j (last_col m row)"
    using est_last_rot[OF i j, of m row] lst_of_cong[of "cols m" "dm_is_set (rot_matrix m i j) row"] s
    by (simp add: first_col_fst_of d)
  have b: "bij_betw (rot i j) {..<cols m} {..<cols m}"
    using cyc_next_bij[of "g_data ?g" "cols m"] po cyc_next_rot by (simp add: perm_ok_def)
  show "first_col (rot_matrix m i j) row = -1 \<longleftrightarrow> first_col m row = -1"
  proof -
    have "(\<forall>k < cols m. \<not> dm_is_set m row (rot i j k)) \<longleftrightarrow> (\<forall>k < cols m. \<not> dm_is_set m row k)"
      using b by (metis bij_betw_def imageE image_eqI lessThan_iff)
    then show ?thesis using s by (simp add: first_col_fst_of d fst_of_none)
  qed
  show "rearr (cols m) (cols m) (col_bits m) (col_bits (rot_matrix m i j))"
    unfolding rearr_def using b s by (intro exI[of _ "rot i j"]) (auto simp: col_bits_def d)
qed

lemma empty_rows_rot:
  "dm_wf m \<Longrightarrow> i < cols m \<Longrightarrow> j < cols m \<Longrightarrow> empty_rows (rot_matrix m i j) = empty_rows m"
  using rot_matrix_ok(7)[of m i j] by (simp add: empty_rows_def rot_matrix_ok(3))

lemma estimate_cost_exact:
  assumes wf: "dm_wf m" and ij: "i < cols m" "j < cols m"
  shows "estimate_cost m i j (map (first_col m) [0..<rows m]) (map (last_col m) [0..<rows m])
    = int32 (total_span (rot_matrix m i j) + empty_rows m)"
proof -
  note R = rot_matrix_ok[OF wf ij]
  have "estimate_cost m i j (map (first_col m) [0..<rows m]) (map (last_col m) [0..<rows m])
    = int32 (\<Sum>row < rows m. est_last m row i j (map (last_col m) [0..<rows m] ! row)
        - est_first m row i j (map (first_col m) [0..<rows m] ! row) + 1)"
    by (simp add: estimate_cost_def Let_def fold_sum32 dm_nrows_def)
  also have "(\<Sum>row < rows m. est_last m row i j (map (last_col m) [0..<rows m] ! row)
        - est_first m row i j (map (first_col m) [0..<rows m] ! row) + 1)
    = (\<Sum>row < rows m. span_of (rot_matrix m i j) row + (if first_col m row = -1 then 1 else 0))"
  proof (rule sum.cong[OF refl])
    fix row assume "row \<in> {..<rows m}"
    then have n: "map (last_col m) [0..<rows m] ! row = last_col m row" "map (first_col m) [0..<rows m] ! row = first_col m row"
      by simp_all
    show "est_last m row i j (map (last_col m) [0..<rows m] ! row)
        - est_first m row i j (map (first_col m) [0..<rows m] ! row) + 1
      = span_of (rot_matrix m i j) row + (if first_col m row = -1 then 1 else 0)"
      unfolding n using R(5,6,7)[of row] first_last_none[of m row]
      by (cases "first_col m row = -1") (auto simp: span_of_def est_first_def est_last_def)
  qed
  also have "\<dots> = total_span (rot_matrix m i j) + empty_rows m"
    by (simp add: sum.distrib total_span_def empty_rows_def R(3))
  finally show ?thesis .
qed

text \<open>The two sums are bounded by the size of the matrix.\<close>

lemma span_bound: "span_of m i + (if first_col m i = -1 then 1 else 0) \<le> int (max 1 (cols m))"
proof (cases "first_col m i = -1")
  case False
  then obtain a b where ab: "first_col m i = int a" "last_col m i = int b"
    using first_last_none[of m i] fst_of_cases[of "dm_is_set m i" "cols m"] lst_of_cases[of "dm_is_set m i" "cols m"]
    by (auto simp: first_col_fst_of)
  then have "b < cols m" by (auto simp: first_col_fst_of lst_of_eq)
  then show ?thesis using ab by (simp add: span_of_def)
qed (simp add: span_of_def)

lemma total_span_bound: "total_span m + empty_rows m \<le> int (rows m * max 1 (cols m))"
proof -
  have "total_span m + empty_rows m = (\<Sum>i < rows m. span_of m i + (if first_col m i = -1 then 1 else 0))"
    by (simp add: total_span_def empty_rows_def sum.distrib)
  also have "\<dots> \<le> (\<Sum>i < rows m. int (max 1 (cols m)))" by (rule sum_mono) (rule span_bound)
  finally show ?thesis by simp
qed

lemma total_span_nonneg: "0 \<le> total_span m"
  by (simp add: total_span_def sum_nonneg span_nonneg)

lemma empty_rows_nonneg: "0 \<le> empty_rows m"
  by (simp add: empty_rows_def sum_nonneg)

lemma estimate_cost_fits:
  assumes "dm_wf m" and "i < cols m" and "j < cols m" and "rows m * max 1 (cols m) \<le> INT_MAX"
  shows "int32 (total_span (rot_matrix m i j) + empty_rows m) = total_span (rot_matrix m i j) + empty_rows m"
proof (rule int32_id)
  note R = rot_matrix_ok(3,4)[OF assms(1-3)]
  show "- int INT_MAX - 1 \<le> total_span (rot_matrix m i j) + empty_rows m"
    using total_span_nonneg[of "rot_matrix m i j"] empty_rows_nonneg[of m] by simp
  have "total_span (rot_matrix m i j) + empty_rows m \<le> int (rows m * max 1 (cols m))"
    using total_span_bound[of "rot_matrix m i j"] R empty_rows_rot[OF assms(1-3)] by simp
  then show "total_span (rot_matrix m i j) + empty_rows m \<le> int INT_MAX" using assms(4) by linarith
qed

lemma best_rotation_loop:
  assumes "\<forall>(i, j) \<in> set ps. i < c \<and> j < c"
    and "(x = mn \<and> a = 0 \<and> b = 0) \<or> (a \<noteq> b \<and> a < c \<and> b < c \<and> x = estimate_cost m a b fs ls \<and> x < mn)"
  shows "\<exists>x' a' b'. fold (\<lambda>(i, j). best_rotation_step m fs ls i j) ps (x, a, b) = (x', a', b') \<and> x' \<le> x
    \<and> ((x' = mn \<and> a' = 0 \<and> b' = 0) \<or> (a' \<noteq> b' \<and> a' < c \<and> b' < c \<and> x' = estimate_cost m a' b' fs ls \<and> x' < mn))
    \<and> (\<forall>(i, j) \<in> set ps. i \<noteq> j \<longrightarrow> x' \<le> estimate_cost m i j fs ls)"
  using assms
proof (induction ps arbitrary: x a b)
  case (Cons p ps)
  obtain i j where p: "p = (i, j)" by (cases p)
  obtain x1 a1 b1 where s: "best_rotation_step m fs ls i j (x, a, b) = (x1, a1, b1)"
    by (cases "best_rotation_step m fs ls i j (x, a, b)")
  have ij: "i < c" "j < c" using Cons.prems p by auto
  have x1: "x1 \<le> x" "i \<noteq> j \<longrightarrow> x1 \<le> estimate_cost m i j fs ls"
    "(x1 = mn \<and> a1 = 0 \<and> b1 = 0) \<or> (a1 \<noteq> b1 \<and> a1 < c \<and> b1 < c \<and> x1 = estimate_cost m a1 b1 fs ls \<and> x1 < mn)"
    using s Cons.prems(2) ij by (auto simp: best_rotation_step_def Let_def split: if_splits)
  have "\<forall>(i, j) \<in> set ps. i < c \<and> j < c" using Cons.prems by auto
  from Cons.IH[OF this x1(3)] obtain x' a' b' where
    "fold (\<lambda>(i, j). best_rotation_step m fs ls i j) ps (x1, a1, b1) = (x', a', b')" "x' \<le> x1"
    "(x' = mn \<and> a' = 0 \<and> b' = 0) \<or> (a' \<noteq> b' \<and> a' < c \<and> b' < c \<and> x' = estimate_cost m a' b' fs ls \<and> x' < mn)"
    "\<forall>(i, j) \<in> set ps. i \<noteq> j \<longrightarrow> x' \<le> estimate_cost m i j fs ls" by blast
  then show ?case using s p x1(1,2) by auto
qed simp

lemma best_rotation_ok:
  "\<exists>x a b. best_rotation m fs ls mn = (x, a, b)
    \<and> ((x = mn \<and> a = 0 \<and> b = 0) \<or> (a \<noteq> b \<and> a < cols m \<and> b < cols m \<and> x = estimate_cost m a b fs ls \<and> x < mn))
    \<and> (\<forall>i < cols m. \<forall>j < cols m. i \<noteq> j \<longrightarrow> x \<le> estimate_cost m i j fs ls)"
  using best_rotation_loop[of "List.product [0..<cols m] [0..<cols m]" "cols m" mn mn 0 0 m fs ls]
  by (auto simp: best_rotation_def fold_nested dm_ncols_def)

text \<open>Filling caches does not change what the search is about.\<close>

lemma goodD:
  assumes "good m s"
  shows "dm_wf s" and "row_cache_ok s" and "rows s = rows m" and "cols s = cols m" and "total_span s = total_span m"
    and "empty_rows s = empty_rows m" and "first_col s = first_col m" and "last_col s = last_col m"
    and "col_bits s = col_bits m" and "good s s"
proof -
  have g: "dm_wf s" "row_cache_ok s" "same_matrix m s" using assms by (auto simp: good_def)
  note D = same_matrixD[OF g(3)]
  show "dm_wf s" "row_cache_ok s" "rows s = rows m" "cols s = cols m" "first_col s = first_col m" "last_col s = last_col m"
    using g D by auto
  have "span_of s = span_of m" unfolding span_of_def D(7,8) ..
  then show "total_span s = total_span m" "empty_rows s = empty_rows m"
    using D by (simp_all add: total_span_def empty_rows_def)
  show "col_bits s = col_bits m" using D by (simp add: col_bits_def fun_eq_iff)
  show "good s s" using g by (simp add: good_def)
qed

text \<open>One round of the search, up to the next test of the loop.\<close>

lemma optimize_round:
  assumes g: "good m m" and ne: "last_min \<noteq> mn" and sz: "rows m * max 1 (cols m) \<le> INT_MAX"
  shows "\<exists>s mn'. good m s \<and>
    ((optimize_loop m mn last_min = optimize_loop s mn mn
        \<and> (\<forall>i < cols m. \<forall>j < cols m. i \<noteq> j \<longrightarrow> mn \<le> total_span (rot_matrix s i j) + empty_rows m))
     \<or> (\<exists>a b. a < cols m \<and> b < cols m \<and> optimize_loop m mn last_min = optimize_loop (rot_matrix s a b) mn' mn
        \<and> mn' = total_span (rot_matrix s a b) + empty_rows m \<and> mn' < mn))"
proof -
  obtain s where s: "collect_firsts_lasts m = (map (first_col m) [0..<rows m], map (last_col m) [0..<rows m], s)" "good m s"
    using collect_loop[OF g order_refl] by (auto simp: collect_firsts_lasts_def dm_nrows_def)
  note S = goodD[OF s(2)]
  let ?fs = "map (first_col m) [0..<rows m]" and ?ls = "map (last_col m) [0..<rows m]"
  have cost: "estimate_cost s i j ?fs ?ls = total_span (rot_matrix s i j) + empty_rows m" if "i < cols m" "j < cols m" for i j
    using estimate_cost_exact[OF S(1), of i j] estimate_cost_fits[OF S(1), of i j] that S sz by simp
  obtain x a b where x: "best_rotation s ?fs ?ls mn = (x, a, b)"
    "(x = mn \<and> a = 0 \<and> b = 0) \<or> (a \<noteq> b \<and> a < cols m \<and> b < cols m \<and> x = estimate_cost s a b ?fs ?ls \<and> x < mn)"
    "\<forall>i < cols m. \<forall>j < cols m. i \<noteq> j \<longrightarrow> x \<le> estimate_cost s i j ?fs ?ls"
    using best_rotation_ok[of s ?fs ?ls mn] S(4) by auto
  show ?thesis
  proof (cases "a = b")
    case True
    then have "x = mn" using x(2) by auto
    moreover from this True have "optimize_loop m mn last_min = optimize_loop s mn mn"
      using ne s(1) x(1) by (subst optimize_loop.simps) simp
    ultimately show ?thesis using s(2) x(3) cost by auto
  next
    case False
    then have ab: "a < cols m" "b < cols m" "x = estimate_cost s a b ?fs ?ls" "x < mn" using x(2) by auto
    have ad: "add_all (dm_create_permutation_group (cols s) True) (rot_cols a b)
        = Inr \<lparr>g_data_size = cols s, g_fixed_size = True, g_data = rot_cols a b\<rparr>"
      using ab S(4) by (intro create_add_all) (auto simp: rot_cols_eq simp del: upt_Suc)
    have "optimize_loop m mn last_min = optimize_loop (rot_matrix s a b) x mn"
      using ne s(1) x(1) False ad by (subst optimize_loop.simps) (simp add: dm_ncols_def rot_matrix_def)
    then show ?thesis using s(2) ab cost[OF ab(1,2)] by auto
  qed
qed

lemma optimize_loop_correct:
  assumes "good m m" and "0 \<le> mn" and "mn \<le> total_span m + empty_rows m" and "total_span m \<le> mn"
    and "last_min \<noteq> mn" and "rows m * max 1 (cols m) \<le> INT_MAX"
  shows "\<exists>m'. optimize_loop m mn last_min = Some (Inr m') \<and> good m' m' \<and> rows m' = rows m \<and> cols m' = cols m
    \<and> rearr (cols m) (cols m) (col_bits m) (col_bits m') \<and> total_span m' \<le> total_span m
    \<and> empty_rows m' = empty_rows m
    \<and> (\<forall>i < cols m. \<forall>j < cols m. i \<noteq> j \<longrightarrow> total_span m' \<le> total_span (rot_matrix m' i j) + empty_rows m)"
  using assms
proof (induction "nat mn" arbitrary: m mn last_min rule: less_induct)
  case less
  obtain s mn' where s: "good m s" and alt:
    "(optimize_loop m mn last_min = optimize_loop s mn mn
        \<and> (\<forall>i < cols m. \<forall>j < cols m. i \<noteq> j \<longrightarrow> mn \<le> total_span (rot_matrix s i j) + empty_rows m))
     \<or> (\<exists>a b. a < cols m \<and> b < cols m \<and> optimize_loop m mn last_min = optimize_loop (rot_matrix s a b) mn' mn
        \<and> mn' = total_span (rot_matrix s a b) + empty_rows m \<and> mn' < mn)"
    using optimize_round[OF less.prems(1,5,6)] by blast
  note S = goodD[OF s]
  from alt show ?case
  proof
    assume A: "optimize_loop m mn last_min = optimize_loop s mn mn
        \<and> (\<forall>i < cols m. \<forall>j < cols m. i \<noteq> j \<longrightarrow> mn \<le> total_span (rot_matrix s i j) + empty_rows m)"
    have "optimize_loop s mn mn = Some (Inr s)" by (subst optimize_loop.simps) simp
    moreover have "\<forall>i < cols m. \<forall>j < cols m. i \<noteq> j \<longrightarrow> total_span s \<le> total_span (rot_matrix s i j) + empty_rows m"
      using A S(5) less.prems(4) by force
    ultimately show ?thesis using A S by simp
  next
    assume "\<exists>a b. a < cols m \<and> b < cols m \<and> optimize_loop m mn last_min = optimize_loop (rot_matrix s a b) mn' mn
        \<and> mn' = total_span (rot_matrix s a b) + empty_rows m \<and> mn' < mn"
    then obtain a b where ab: "a < cols s" "b < cols s" "optimize_loop m mn last_min = optimize_loop (rot_matrix s a b) mn' mn"
      "mn' = total_span (rot_matrix s a b) + empty_rows m" "mn' < mn" using S(4) by auto
    let ?r = "rot_matrix s a b"
    note R = rot_matrix_ok[OF S(1) ab(1,2)]
    have e: "empty_rows ?r = empty_rows m" using empty_rows_rot[OF S(1) ab(1,2)] S(6) by simp
    have nn: "0 \<le> mn'" using ab(4) total_span_nonneg[of ?r] empty_rows_nonneg[of m] by simp
    have pre: "nat mn' < nat mn" "good ?r ?r" "mn' \<le> total_span ?r + empty_rows ?r" "total_span ?r \<le> mn'" "mn \<noteq> mn'"
      using ab(4,5) nn e empty_rows_nonneg[of m] R by (auto simp: good_def)
    have sz: "rows ?r * max 1 (cols ?r) \<le> INT_MAX" using less.prems(6) R(3,4) S(3,4) by simp
    from less.hyps[OF pre(1,2) nn pre(3,4,5) sz] obtain m' where m': "optimize_loop ?r mn' mn = Some (Inr m')" "good m' m'"
      "rows m' = rows ?r" "cols m' = cols ?r" "rearr (cols ?r) (cols ?r) (col_bits ?r) (col_bits m')"
      "total_span m' \<le> total_span ?r" "empty_rows m' = empty_rows ?r"
      "\<forall>i < cols ?r. \<forall>j < cols ?r. i \<noteq> j \<longrightarrow> total_span m' \<le> total_span (rot_matrix m' i j) + empty_rows ?r" by blast
    have "rearr (cols m) (cols m) (col_bits m) (col_bits m')"
      using rearr_trans[of "cols m" "cols m" "col_bits m" "col_bits ?r" "col_bits m'"] m'(5) R(4,8) S by simp
    moreover have "total_span m' \<le> total_span m" using m'(6) ab(4,5) less.prems(3) by linarith
    ultimately show ?thesis using m' ab(3) R(3,4) S e by simp
  qed
qed

section \<open>Properties\<close>

text \<open>
  C26. Cost estimates: for every rotation of a column \<open>i\<close> to a position \<open>j\<close>, \<^verbatim>\<open>est_first\<close> and
  \<^verbatim>\<open>est_last\<close> predict the first and the last set column of every row of the rotated matrix
  exactly, and \<^verbatim>\<open>estimate_cost\<close> is the event span of the rotated matrix plus one for every
  empty row, wrapped to 32 bits, which is the exact value whenever the number of rows times the
  number of columns fits an \<^verbatim>\<open>int\<close>.
\<close>

theorem estimates_exact:
  assumes "dm_wf m" and "i < cols m" and "j < cols m"
  shows "est_first m row i j (first_col m row) = first_col (rot_matrix m i j) row
    \<and> est_last m row i j (last_col m row) = last_col (rot_matrix m i j) row
    \<and> estimate_cost m i j (map (first_col m) [0..<rows m]) (map (last_col m) [0..<rows m])
       = int32 (total_span (rot_matrix m i j) + empty_rows m)
    \<and> (rows m * max 1 (cols m) \<le> INT_MAX \<longrightarrow>
       estimate_cost m i j (map (first_col m) [0..<rows m]) (map (last_col m) [0..<rows m])
         = total_span (rot_matrix m i j) + empty_rows m)"
  using rot_matrix_ok(5,6)[OF assms, of row] estimate_cost_exact[OF assms] estimate_cost_fits[OF assms] by simp

theorem estimates_exact_witness:
  "est_first (dm_create 2 3) 1 0 2 (first_col (dm_create 2 3) 1) = first_col (rot_matrix (dm_create 2 3) 0 2) 1
    \<and> estimate_cost (dm_create 2 3) 0 2 (map (first_col (dm_create 2 3)) [0..<2]) (map (last_col (dm_create 2 3)) [0..<2])
       = total_span (rot_matrix (dm_create 2 3) 0 2) + empty_rows (dm_create 2 3)"
  using estimates_exact[OF demo_dm_wf, of 0 2 1] by simp

text \<open>
  C27. The local search: on every well-formed matrix whose cached first and last columns are right
  (\<open>row_cache_ok\<close>, which holds after \<^verbatim>\<open>dm_create\<close> and after every permutation of columns) and whose
  number of rows times number of columns fits an \<^verbatim>\<open>int\<close>, \<^verbatim>\<open>dm_optimize\<close> terminates without error, only
  permutes columns, never increases the event span, and ends in a matrix that no single rotation
  improves by more than the number of empty rows.
\<close>

theorem dm_optimize_correct:
  assumes "dm_wf m" and "row_cache_ok m" and "rows m * max 1 (cols m) \<le> INT_MAX"
  shows "\<exists>m'. dm_optimize m = Some (Inr m') \<and> dm_wf m' \<and> rows m' = rows m \<and> cols m' = cols m
    \<and> rearr (cols m) (cols m) (col_bits m) (col_bits m') \<and> total_span m' \<le> total_span m
    \<and> (\<forall>i < cols m. \<forall>j < cols m. i \<noteq> j \<longrightarrow> total_span m' \<le> total_span (rot_matrix m' i j) + empty_rows m)"
proof -
  have g: "good m m" using assms(1,2) by (simp add: good_def)
  obtain s where s: "dm_event_span m None = (total_span m, s)" "good m s" using event_span_ok[OF g] by blast
  note S = goodD[OF s(2)]
  have opt: "dm_optimize m = optimize_loop s (total_span m) 0" using s(1) by (simp add: dm_optimize_def)
  show ?thesis
  proof (cases "total_span m = 0")
    case True
    then have "dm_optimize m = Some (Inr s)" unfolding opt by (subst optimize_loop.simps) simp
    then show ?thesis using S True total_span_nonneg empty_rows_nonneg[of m] by auto
  next
    case False
    have "\<exists>m'. optimize_loop s (total_span m) 0 = Some (Inr m') \<and> good m' m' \<and> rows m' = rows s \<and> cols m' = cols s
      \<and> rearr (cols s) (cols s) (col_bits s) (col_bits m') \<and> total_span m' \<le> total_span s \<and> empty_rows m' = empty_rows s
      \<and> (\<forall>i < cols s. \<forall>j < cols s. i \<noteq> j \<longrightarrow> total_span m' \<le> total_span (rot_matrix m' i j) + empty_rows s)"
      by (rule optimize_loop_correct) (use S False assms(3) total_span_nonneg[of m] empty_rows_nonneg[of m] in auto)
    then show ?thesis unfolding opt using S goodD(1) by auto
  qed
qed

definition span_demo :: matrix where
  "span_demo = dm_set (dm_set (dm_set (dm_create 2 3) 0 0) 0 2) 1 0"

lemma span_demo_facts: "dm_wf span_demo" "row_cache_ok span_demo" "rows span_demo = 2" "cols span_demo = 3"
proof -
  let ?a = "dm_set (dm_create 2 3) 0 0" and ?b = "dm_set (dm_set (dm_create 2 3) 0 0) 0 2"
  have d: "rows ?a = 2" "cols ?a = 3" "rows ?b = 2" "cols ?b = 3" by (unfold demo_create, code_simp+)
  have "dm_wf ?a" using set_dm_wf(1)[OF demo_dm_wf, of 0 0] by simp
  then have "dm_wf ?b" using set_dm_wf(1)[of ?a 0 2] d by simp
  then show "dm_wf span_demo" using set_dm_wf(1)[of ?b 1 0] d by (simp add: span_demo_def)
  show "row_cache_ok span_demo" "rows span_demo = 2" "cols span_demo = 3"
    unfolding span_demo_def demo_create by code_simp+
qed

theorem dm_optimize_correct_witness:
  "(\<exists>m'. dm_optimize span_demo = Some (Inr m') \<and> dm_wf m' \<and> total_span m' \<le> total_span span_demo)
    \<and> total_span span_demo = 4
    \<and> (case dm_optimize span_demo of Some (Inr m') \<Rightarrow> total_span m' = 3 | _ \<Rightarrow> False)"
proof -
  have "rows span_demo * max 1 (cols span_demo) \<le> INT_MAX" by (simp add: span_demo_facts)
  moreover have "total_span span_demo = 4" unfolding span_demo_def demo_create by code_simp
  moreover have "case dm_optimize span_demo of Some (Inr m') \<Rightarrow> total_span m' = 3 | _ \<Rightarrow> False"
    unfolding span_demo_def demo_create by code_simp
  ultimately show ?thesis using dm_optimize_correct[OF span_demo_facts(1,2)] by blast
qed

text \<open>
  Empty rows hide improvements: because \<^verbatim>\<open>estimate_cost\<close> counts one for an empty row and
  \<^verbatim>\<open>dm_event_span\<close> counts zero, \<^verbatim>\<open>dm_optimize\<close> leaves the matrix with the rows 101 and 000 at event
  span 3, although rotating its last column to position 1 gives event span 2.
\<close>

theorem dm_optimize_misses_rotation:
  "let m = dm_set (dm_set (dm_create 2 3) 0 0) 0 2
   in fst (dm_event_span m None) = 3 \<and> fst (dm_event_span (rot_matrix m 2 1) None) = 2
    \<and> (case dm_optimize m of Some (Inr m') \<Rightarrow> fst (dm_event_span m' None) = 3 | _ \<Rightarrow> False)"
  unfolding demo_create by code_simp

end
