(* ===== verification/Bitset.thy ===== *)
theory Bitset
  imports Prelude
begin

text \<open>
  The tree bit sets of \<^verbatim>\<open>src/src/util-lib/bitset.c\<close>: a set of 32-bit elements kept as a tree whose
  leaves are arrays of 64-bit words, in which empty and full subtrees are the two special
  pointers \<^verbatim>\<open>ALL_ZERO\<close> and \<^verbatim>\<open>ALL_ONES\<close>, and of a default value for everything outside the tree. The
  tree owns its nodes, so a pointer to a node is the node; the two allocators only supply
  memory. An \<^verbatim>\<open>element_t\<close> is a natural number below \<open>2 ^ 32\<close>; the size of the tree is an \<^verbatim>\<open>element_t\<close>
  too and wraps around when the tree gets too deep, which is written out.
\<close>

section \<open>Model\<close>

datatype tree = ALL_ZERO | ALL_ONES | Node "tree list" | Leaf "u64 list"

record bitset =
  bs_set :: tree
  bs_depth :: nat
  set_size :: nat
  default_value :: tree
  node_class :: nat
  node_size :: nat
  base_class :: nat
  base_words :: nat

abbreviation ELEM_LIMIT :: nat where
  "ELEM_LIMIT \<equiv> 2 ^ 32"

text \<open>The loop of \<^verbatim>\<open>ilog2\<close>, with the number of halvings so far.\<close>

function ilog2_loop :: "nat \<Rightarrow> int \<Rightarrow> nat result" where
  "ilog2_loop i n =
     (if n \<le> 1 then Inr i
      else if odd n then Inl (Abort_msg ''argument is not a power of 2'')
      else ilog2_loop (i + 1) (n div 2))"
  by pat_completeness auto
termination
  by (relation "measure (\<lambda>(i, n). nat n)") auto

declare ilog2_loop.simps [simp del]

definition ilog2 :: "int \<Rightarrow> nat result" where
  "ilog2 n = (if n < 1 then Inl (Abort_msg ''argument is not a power of 2'') else ilog2_loop 0 n)"

definition bitset_create :: "int \<Rightarrow> int \<Rightarrow> bitset result" where
  "bitset_create ns ls =
     (if ns mod 8 \<noteq> 0 then Inl (Abort_msg ''node size is not a multiple of the pointer size'')
      else let n = ns div 8
      in result_bind (ilog2 n) (\<lambda>nc.
         if nc = 0 then Inl (Abort_msg ''node too small for two pointers'')
         else if ls mod 8 \<noteq> 0 then Inl (Abort_msg ''leaf size is not a multiple of the word size'')
         else result_bind (ilog2 ls) (\<lambda>k.
           let bc = k + 3
           in Inr \<lparr>bs_set = ALL_ZERO, bs_depth = 0, set_size = 2 ^ bc mod ELEM_LIMIT,
                default_value = ALL_ZERO, node_class = nc, node_size = nat n,
                base_class = bc, base_words = nat (ls div 8)\<rparr>)))"

definition bitset_create_shared :: "bitset \<Rightarrow> bitset" where
  "bitset_create_shared s =
     \<lparr>bs_set = ALL_ZERO, bs_depth = 0, set_size = 2 ^ base_class s mod ELEM_LIMIT,
      default_value = ALL_ZERO, node_class = node_class s, node_size = node_size s,
      base_class = base_class s, base_words = base_words s\<rparr>"

definition bitset_clear_all :: "bitset \<Rightarrow> bitset" where
  "bitset_clear_all s = s\<lparr>set_size := 2 ^ base_class s mod ELEM_LIMIT, bs_set := ALL_ZERO,
     default_value := ALL_ZERO, bs_depth := 0\<rparr>"

definition bitset_set_all :: "bitset \<Rightarrow> bitset" where
  "bitset_set_all s = s\<lparr>set_size := 2 ^ base_class s mod ELEM_LIMIT, bs_set := ALL_ONES,
     default_value := ALL_ONES, bs_depth := 0\<rparr>"

definition expand :: "bitset \<Rightarrow> bitset" where
  "expand s = s\<lparr>bs_set := Node (bs_set s # replicate (node_size s - 1) (default_value s)),
     set_size := push_bit (node_class s) (set_size s) mod ELEM_LIMIT, bs_depth := bs_depth s + 1\<rparr>"

definition simplify_node :: "bitset \<Rightarrow> tree list \<Rightarrow> tree" where
  "simplify_node main node =
     (if node ! 0 \<noteq> ALL_ZERO \<and> node ! 0 \<noteq> ALL_ONES then Node node
      else if list_all (\<lambda>i. node ! i = node ! 0) [1..<node_size main] then node ! 0
      else Node node)"

definition simplify_leaf :: "bitset \<Rightarrow> u64 list \<Rightarrow> tree" where
  "simplify_leaf main node =
     (if node ! 0 = 0
      then if list_all (\<lambda>i. node ! i = 0) [1..<base_words main] then ALL_ZERO else Leaf node
      else if node ! 0 = -1
      then if list_all (\<lambda>i. node ! i = -1) [1..<base_words main] then ALL_ONES else Leaf node
      else Leaf node)"

text \<open>
  A tree that is not one of the two special pointers is the memory of a node or of a leaf; the
  depth says which. The invariant excludes the other case, for which the list is empty.
\<close>

definition expand_node :: "bitset \<Rightarrow> tree \<Rightarrow> tree list" where
  "expand_node main t =
     (case t of Node ts \<Rightarrow> ts | Leaf ws \<Rightarrow> [] | _ \<Rightarrow> replicate (node_size main) t)"

definition expand_leaf :: "bitset \<Rightarrow> tree \<Rightarrow> u64 list" where
  "expand_leaf main t =
     (case t of ALL_ONES \<Rightarrow> replicate (base_words main) (-1) | ALL_ZERO \<Rightarrow> replicate (base_words main) 0
      | Leaf ws \<Rightarrow> ws | Node ts \<Rightarrow> [])"

definition child_bits :: "bitset \<Rightarrow> nat \<Rightarrow> nat" where
  "child_bits main depth = (depth - 1) * node_class main + base_class main"

fun set_bit :: "bitset \<Rightarrow> tree \<Rightarrow> nat \<Rightarrow> nat \<Rightarrow> tree \<times> bool" where
  "set_bit main t 0 e =
     (if t = ALL_ONES then (t, False)
      else let node = expand_leaf main t; word = drop_bit 6 e; e = take_bit 6 e; b = push_bit e 1
           in if node ! word AND b = 0
              then (simplify_leaf main (node[word := node ! word OR b]), True)
              else (Leaf node, False))"
| "set_bit main t (Suc d) e =
     (if t = ALL_ONES then (t, False)
      else let node = expand_node main t; bits = child_bits main (Suc d);
               branch = drop_bit bits e; e = take_bit bits e;
               (child, is_new) = set_bit main (node ! branch) d e;
               node = node[branch := child]
           in if is_new then (simplify_node main node, is_new) else (Node node, is_new))"

text \<open>The loop \<^verbatim>\<open>while(!(e<set->set_size)) expand(set);\<close>, where \<open>None\<close> means that it never ends.\<close>

partial_function (option) expand_until :: "bitset \<Rightarrow> nat \<Rightarrow> bitset option" where
  "expand_until s e = (if \<not> e < set_size s then expand_until (expand s) e else Some s)"

definition bitset_set :: "bitset \<Rightarrow> nat \<Rightarrow> (bool \<times> bitset) option" where
  "bitset_set s e =
     (case expand_until s e of None \<Rightarrow> None
      | Some s \<Rightarrow> (case set_bit s (bs_set s) (bs_depth s) e of (t, is_new) \<Rightarrow> Some (is_new, s\<lparr>bs_set := t\<rparr>)))"

fun clear_bit :: "bitset \<Rightarrow> tree \<Rightarrow> nat \<Rightarrow> nat \<Rightarrow> tree" where
  "clear_bit main t 0 e =
     (if t = ALL_ZERO then t
      else let node = expand_leaf main t; word = drop_bit 6 e; e = take_bit 6 e
           in simplify_leaf main (node[word := node ! word AND NOT (push_bit e 1)]))"
| "clear_bit main t (Suc d) e =
     (if t = ALL_ZERO then t
      else let node = expand_node main t; bits = child_bits main (Suc d);
               branch = drop_bit bits e; e = take_bit bits e
           in simplify_node main (node[branch := clear_bit main (node ! branch) d e]))"

definition bitset_clear :: "bitset \<Rightarrow> nat \<Rightarrow> bitset option" where
  "bitset_clear s e =
     (case expand_until s e of None \<Rightarrow> None
      | Some s \<Rightarrow> Some (s\<lparr>bs_set := clear_bit s (bs_set s) (bs_depth s) e\<rparr>))"

fun testbit :: "bitset \<Rightarrow> tree \<Rightarrow> nat \<Rightarrow> nat \<Rightarrow> bool" where
  "testbit main t 0 e =
     (if t = ALL_ONES then True else if t = ALL_ZERO then False
      else let node = expand_leaf main t; word = drop_bit 6 e; e = take_bit 6 e
           in node ! word AND push_bit e 1 \<noteq> 0)"
| "testbit main t (Suc d) e =
     (if t = ALL_ONES then True else if t = ALL_ZERO then False
      else let node = expand_node main t; bits = child_bits main (Suc d);
               branch = drop_bit bits e; e = take_bit bits e
           in testbit main (node ! branch) d e)"

definition bitset_test :: "bitset \<Rightarrow> nat \<Rightarrow> bool" where
  "bitset_test s e =
     (if e < set_size s then testbit s (bs_set s) (bs_depth s) e else default_value s = ALL_ONES)"

text \<open>The two scanning loops of \<^verbatim>\<open>find_next_set\<close>: over the bits of a leaf and over the children of a node.\<close>

function leaf_scan :: "bitset \<Rightarrow> u64 list \<Rightarrow> nat \<Rightarrow> nat \<Rightarrow> nat \<times> nat" where
  "leaf_scan main node word e =
     (if word < base_words main
      then if node ! word AND push_bit e 1 \<noteq> 0 then (word, e)
           else let e = e + 1
                in if drop_bit 6 e \<noteq> 0 then leaf_scan main node (word + 1) 0
                   else leaf_scan main node word e
      else (word, e))"
  by pat_completeness auto
termination
  by (relation "measures [\<lambda>(main, node, word, e). base_words main - word, \<lambda>(main, node, word, e). 64 - e]")
    (auto simp: drop_bit_eq_div div_eq_0_iff)

declare leaf_scan.simps [simp del]

fun node_scan :: "(tree \<Rightarrow> nat \<Rightarrow> nat) \<Rightarrow> nat \<Rightarrow> tree list \<Rightarrow> nat \<Rightarrow> nat \<Rightarrow> nat \<times> nat" where
  "node_scan fnd sz [] branch e = (branch, e)"
| "node_scan fnd sz (c # cs) branch e =
     (let e = fnd c e in if e < sz then (branch, e) else node_scan fnd sz cs (branch + 1) 0)"

fun find_next_set :: "bitset \<Rightarrow> tree \<Rightarrow> nat \<Rightarrow> nat \<Rightarrow> nat" where
  "find_next_set main t 0 e =
     (if t = ALL_ONES then e
      else let (word, e) = (if t = ALL_ZERO then (base_words main, 0)
             else leaf_scan main (expand_leaf main t) (drop_bit 6 e) (take_bit 6 e))
           in push_bit 6 word + e)"
| "find_next_set main t (Suc d) e =
     (if t = ALL_ONES then e
      else let bits = child_bits main (Suc d);
               (branch, e) = (if t = ALL_ZERO then (node_size main, 0)
                 else let b = drop_bit bits e
                      in node_scan (\<lambda>c e. find_next_set main c d e) (2 ^ bits)
                           (drop b (take (node_size main) (expand_node main t))) b (take_bit bits e))
           in push_bit bits branch + e)"

definition bitset_next_set :: "bitset \<Rightarrow> nat \<Rightarrow> bool \<times> nat" where
  "bitset_next_set s e =
     (let next = find_next_set s (bs_set s) (bs_depth s) e
      in if e < set_size s \<and> next < set_size s then (True, next)
         else if default_value s = ALL_ONES then (True, set_size s)
         else (False, e))"

fun invert :: "bitset \<Rightarrow> tree \<Rightarrow> nat \<Rightarrow> tree" where
  "invert main t 0 =
     (if t = ALL_ONES then ALL_ZERO else if t = ALL_ZERO then ALL_ONES
      else Leaf (map (\<lambda>w. NOT w) (expand_leaf main t)))"
| "invert main t (Suc d) =
     (if t = ALL_ONES then ALL_ZERO else if t = ALL_ZERO then ALL_ONES
      else Node (map (\<lambda>c. invert main c d) (expand_node main t)))"

text \<open>
  The default value is one of the two special pointers, for which \<^verbatim>\<open>invert\<close> does not look at the
  depth (the code passes \<open>-1\<close>).
\<close>

definition bitset_invert :: "bitset \<Rightarrow> bitset" where
  "bitset_invert s =
     s\<lparr>default_value := invert s (default_value s) 0, bs_set := invert s (bs_set s) (bs_depth s)\<rparr>"

text \<open>The counter of \<^verbatim>\<open>bitset_set_range\<close> is an \<^verbatim>\<open>element_t\<close> and wraps.\<close>

partial_function (option) set_range_from :: "bitset \<Rightarrow> nat \<Rightarrow> nat \<Rightarrow> bitset option" where
  "set_range_from s i high =
     (if i \<le> high
      then (case bitset_set s i of None \<Rightarrow> None
            | Some (is_new, s) \<Rightarrow> set_range_from s ((i + 1) mod ELEM_LIMIT) high)
      else Some s)"

definition bitset_set_range :: "bitset \<Rightarrow> nat \<Rightarrow> nat \<Rightarrow> bitset option" where
  "bitset_set_range s low high = set_range_from s low high"

section \<open>Invariant\<close>

definition params_ok :: "bitset \<Rightarrow> bool" where
  "params_ok m \<longleftrightarrow> node_size m = 2 ^ node_class m \<and> 1 \<le> node_class m
     \<and> base_words m * 64 = 2 ^ base_class m"

definition width :: "bitset \<Rightarrow> nat \<Rightarrow> nat" where
  "width m d = base_class m + d * node_class m"

fun wf_tree :: "bitset \<Rightarrow> nat \<Rightarrow> tree \<Rightarrow> bool" where
  "wf_tree m 0 t = (case t of Leaf ws \<Rightarrow> length ws = base_words m | Node ts \<Rightarrow> False | _ \<Rightarrow> True)"
| "wf_tree m (Suc d) t =
     (case t of Node ts \<Rightarrow> length ts = node_size m \<and> list_all (wf_tree m d) ts
      | Leaf ws \<Rightarrow> False | _ \<Rightarrow> True)"

definition bs_wf :: "bitset \<Rightarrow> bool" where
  "bs_wf s \<longleftrightarrow> params_ok s \<and> width s (bs_depth s) < 32 \<and> set_size s = 2 ^ width s (bs_depth s)
     \<and> wf_tree s (bs_depth s) (bs_set s) \<and> (default_value s = ALL_ZERO \<or> default_value s = ALL_ONES)"

text \<open>The size of the largest tree whose size is still an \<^verbatim>\<open>element_t\<close>.\<close>

definition bs_limit :: "bitset \<Rightarrow> nat" where
  "bs_limit s = 2 ^ width s ((31 - base_class s) div node_class s)"

lemma width_simps [simp]: "width m 0 = base_class m" "width m (Suc d) = width m d + node_class m"
  by (simp_all add: width_def)

lemma child_bits_Suc [simp]: "child_bits m (Suc d) = width m d"
  by (simp add: child_bits_def width_def)

lemma wf_tree_special [simp]: "wf_tree m d ALL_ZERO" "wf_tree m d ALL_ONES"
  by (cases d; simp)+

lemma testbit_special [simp]: "testbit m ALL_ZERO d e = False" "testbit m ALL_ONES d e = True"
  by (cases d; simp)+

section \<open>Addresses\<close>

lemma split_addr:
  fixes e :: nat
  assumes "e < 2 ^ (w + n)"
  shows "drop_bit w e < 2 ^ n" and "take_bit w e < 2 ^ w"
    and "e = 2 ^ w * drop_bit w e + take_bit w e"
  using assms
  by (simp_all add: drop_bit_eq_div take_bit_eq_mod power_add less_mult_imp_div_less mult.commute)

lemma addr_eq_iff: "(x = e) = (drop_bit w x = drop_bit w e \<and> take_bit w x = take_bit w (e :: nat))"
  by (metis bits_ident)

lemma base_bits: "params_ok m \<Longrightarrow> e < 2 ^ base_class m \<Longrightarrow> drop_bit 6 e < base_words m"
  by (auto simp: params_ok_def drop_bit_eq_div less_mult_imp_div_less)

lemma nz_sizes: "params_ok m \<Longrightarrow> 0 < base_words m \<and> 2 \<le> node_size m"
  unfolding params_ok_def
  by (cases "node_class m") (auto intro: Nat.gr0I)

section \<open>Expanding and simplifying\<close>

lemma list_all_from_1: "0 < n \<Longrightarrow> list_all P [1..<n] \<longleftrightarrow> (\<forall>i < n. P i)" if "P 0"
  using that by (auto simp: list_all_iff) (metis One_nat_def Suc_leI atLeastLessThan_iff neq0_conv)

lemma expand_node_ok:
  assumes "wf_tree m (Suc d) t"
  shows "length (expand_node m t) = node_size m" "list_all (wf_tree m d) (expand_node m t)"
  using assms by (auto simp: expand_node_def list_all_iff split: tree.splits)

lemma expand_leaf_ok:
  assumes "wf_tree m 0 t"
  shows "length (expand_leaf m t) = base_words m"
  using assms by (auto simp: expand_leaf_def split: tree.splits)

lemma testbit_node:
  assumes "params_ok m" and "wf_tree m (Suc d) t" and "e < 2 ^ width m (Suc d)"
  shows "testbit m t (Suc d) e
    = testbit m (expand_node m t ! drop_bit (width m d) e) d (take_bit (width m d) e)"
  using assms split_addr(1)[of e "width m d" "node_class m"]
  by (cases t) (simp_all add: expand_node_def params_ok_def Let_def)

lemma testbit_leaf:
  assumes "params_ok m" and "wf_tree m 0 t" and "e < 2 ^ base_class m"
  shows "testbit m t 0 e = bit (expand_leaf m t ! drop_bit 6 e) (take_bit 6 e)"
proof -
  have "take_bit 6 e < 64" by (simp add: take_bit_eq_mod)
  with assms base_bits[OF assms(1,3)] show ?thesis
    by (cases t) (auto simp: expand_leaf_def bit_facts)
qed

lemma simplify_node_ok:
  assumes "params_ok m" and "length ts = node_size m" and "list_all (wf_tree m d) ts"
  shows "wf_tree m (Suc d) (simplify_node m ts)"
    and "x < 2 ^ width m (Suc d) \<Longrightarrow> testbit m (simplify_node m ts) (Suc d) x
      = testbit m (ts ! drop_bit (width m d) x) d (take_bit (width m d) x)"
proof -
  define same where "same = list_all (\<lambda>i. ts ! i = ts ! 0) [1..<node_size m]"
  have same: "ts ! i = ts ! 0" if "same" "i < node_size m" for i
    using that list_all_from_1[of "\<lambda>i. ts ! i = ts ! 0" "node_size m"] unfolding same_def by (metis gr_implies_not0 neq0_conv)
  have eq: "simplify_node m ts = (if (ts ! 0 = ALL_ZERO \<or> ts ! 0 = ALL_ONES) \<and> same then ts ! 0 else Node ts)"
    unfolding simplify_node_def same_def[symmetric] by simp
  show "wf_tree m (Suc d) (simplify_node m ts)"
    unfolding eq using assms by auto
  assume x: "x < 2 ^ width m (Suc d)"
  then have lt: "drop_bit (width m d) x < node_size m"
    using split_addr[of x "width m d" "node_class m"] assms by (simp add: params_ok_def)
  show "testbit m (simplify_node m ts) (Suc d) x
      = testbit m (ts ! drop_bit (width m d) x) d (take_bit (width m d) x)"
    unfolding eq using same[OF _ lt] by (auto simp: expand_node_def Let_def)
qed

lemma simplify_leaf_ok:
  assumes "params_ok m" and "length ws = base_words m"
  shows "wf_tree m 0 (simplify_leaf m ws)"
    and "x < 2 ^ base_class m \<Longrightarrow> testbit m (simplify_leaf m ws) 0 x
      = bit (ws ! drop_bit 6 x) (take_bit 6 x)"
proof -
  have eq: "simplify_leaf m ws = (if \<forall>i < base_words m. ws ! i = 0 then ALL_ZERO
      else if \<forall>i < base_words m. ws ! i = -1 then ALL_ONES else Leaf ws)"
    using nz_sizes[OF assms(1)] list_all_from_1[of "\<lambda>i. ws ! i = 0" "base_words m"]
      list_all_from_1[of "\<lambda>i. ws ! i = -1" "base_words m"]
    by (auto simp: simplify_leaf_def)
  show "wf_tree m 0 (simplify_leaf m ws)"
    unfolding eq using assms by auto
  assume x: "x < 2 ^ base_class m"
  have "take_bit 6 x < 64" by (simp add: take_bit_eq_mod)
  with base_bits[OF assms(1) x] show "testbit m (simplify_leaf m ws) 0 x = bit (ws ! drop_bit 6 x) (take_bit 6 x)"
    unfolding eq by (auto simp: expand_leaf_def bit_facts)
qed

section \<open>Setting, clearing and testing one bit\<close>

lemma list_all_update: "list_all P xs \<Longrightarrow> P x \<Longrightarrow> list_all P (xs[i := x])"
  by (auto simp: list_all_iff dest!: set_update_subset_insert[THEN subsetD])

lemma set_bit_ok:
  assumes "params_ok m" and "wf_tree m d t" and "e < 2 ^ width m d"
  shows "wf_tree m d (fst (set_bit m t d e)) \<and> snd (set_bit m t d e) = (\<not> testbit m t d e)
    \<and> (\<forall>x < 2 ^ width m d. testbit m (fst (set_bit m t d e)) d x = (x = e \<or> testbit m t d x))"
  using assms
proof (induction d arbitrary: t e)
  case 0
  show ?case
  proof (cases "t = ALL_ONES")
    case False
    let ?n = "expand_leaf m t" and ?w = "drop_bit 6 e" and ?k = "take_bit 6 e"
    have k: "?k < 64" "\<And>x. take_bit 6 x < (64 :: nat)" by (simp_all add: take_bit_eq_mod)
    have w: "?w < length ?n" and len: "length ?n = base_words m"
      using 0 base_bits expand_leaf_ok by auto
    have old: "testbit m t 0 x = bit (?n ! drop_bit 6 x) (take_bit 6 x)" if "x < 2 ^ base_class m" for x
      using testbit_leaf 0 that by simp
    show ?thesis
    proof (cases "testbit m t 0 e")
      case True
      then have "set_bit m t 0 e = (Leaf ?n, False)"
        using False old[of e] 0 by (simp add: Let_def bit_facts)
      moreover have "testbit m (Leaf ?n) 0 x = testbit m t 0 x" if "x < 2 ^ base_class m" for x
        using old[OF that] k by (simp add: expand_leaf_def Let_def bit_facts)
      ultimately show ?thesis using len True by (auto simp del: testbit.simps)
    next
      case nt: False
      then have eq: "set_bit m t 0 e = (simplify_leaf m (?n[?w := ?n ! ?w OR push_bit ?k 1]), True)"
        using False old[of e] 0 by (simp add: Let_def bit_facts)
      have "bit (?n[?w := ?n ! ?w OR push_bit ?k 1] ! drop_bit 6 x) (take_bit 6 x) = (x = e \<or> testbit m t 0 x)"
        if "x < 2 ^ base_class m" for x
        using w k old[OF that] addr_eq_iff[of x e 6]
        by (cases "drop_bit 6 x = ?w") (auto simp: bit_or_iff bit_facts simp del: testbit.simps)
      then show ?thesis
        unfolding eq using simplify_leaf_ok[OF 0(1), of "?n[?w := ?n ! ?w OR push_bit ?k 1]"] len nt
        by (simp del: testbit.simps push_bit_of_1)
    qed
  qed simp
next
  case (Suc d)
  show ?case
  proof (cases "t = ALL_ONES")
    case False
    let ?n = "expand_node m t" and ?b = "drop_bit (width m d) e" and ?k = "take_bit (width m d) e"
    have b: "?b < node_size m" and k: "?k < 2 ^ width m d"
      using split_addr[of e "width m d" "node_class m"] Suc.prems by (simp_all add: params_ok_def)
    note n = expand_node_ok[OF Suc.prems(2)]
    have wfc: "wf_tree m d (?n ! ?b)" using n b by (simp add: list_all_length)
    note IH = Suc.IH[OF Suc.prems(1) wfc k]
    obtain c new where c: "set_bit m (?n ! ?b) d ?k = (c, new)" by (cases "set_bit m (?n ! ?b) d ?k")
    have eq: "set_bit m t (Suc d) e
        = (if new then simplify_node m (?n[?b := c]) else Node (?n[?b := c]), new)"
      using False c by (simp add: Let_def)
    have n': "length (?n[?b := c]) = node_size m" "list_all (wf_tree m d) (?n[?b := c])"
      using n IH c by (auto intro: list_all_update)
    note old = testbit_node[OF Suc.prems(1,2)]
    have upd: "testbit m (?n[?b := c] ! drop_bit (width m d) x) d (take_bit (width m d) x)
        = (x = e \<or> testbit m t (Suc d) x)" if x: "x < 2 ^ width m (Suc d)" for x
    proof (cases "drop_bit (width m d) x = ?b")
      case True
      have "take_bit (width m d) x < 2 ^ width m d" by simp
      then show ?thesis using IH c b n(1) True old[OF x] addr_eq_iff[of x e "width m d"] by simp
    next
      case False
      then show ?thesis using old[OF x] addr_eq_iff[of x e "width m d"] by simp
    qed
    have new: "new = (\<not> testbit m t (Suc d) e)"
      using IH c old[OF Suc.prems(3)] by simp
    have node: "testbit m (Node ts) (Suc d) x = testbit m (ts ! drop_bit (width m d) x) d (take_bit (width m d) x)"
      for ts x by (simp add: expand_node_def Let_def)
    show ?thesis
      unfolding eq using new upd n' simplify_node_ok[OF Suc.prems(1) n'] node
      by (simp del: testbit.simps width_simps)
  qed simp
qed

lemma clear_bit_ok:
  assumes "params_ok m" and "wf_tree m d t" and "e < 2 ^ width m d"
  shows "wf_tree m d (clear_bit m t d e)
    \<and> (\<forall>x < 2 ^ width m d. testbit m (clear_bit m t d e) d x = (x \<noteq> e \<and> testbit m t d x))"
  using assms
proof (induction d arbitrary: t e)
  case 0
  show ?case
  proof (cases "t = ALL_ZERO")
    case False
    let ?n = "expand_leaf m t" and ?w = "drop_bit 6 e" and ?k = "take_bit 6 e"
    let ?u = "?n[?w := ?n ! ?w AND NOT (push_bit ?k 1)]"
    have k: "?k < 64" "\<And>x. take_bit 6 x < (64 :: nat)" by (simp_all add: take_bit_eq_mod)
    have w: "?w < length ?n" and len: "length ?u = base_words m"
      using 0 base_bits expand_leaf_ok by auto
    have eq: "clear_bit m t 0 e = simplify_leaf m ?u"
      using False by (simp add: Let_def)
    have "bit (?u ! drop_bit 6 x) (take_bit 6 x) = (x \<noteq> e \<and> testbit m t 0 x)"
      if "x < 2 ^ base_class m" for x
      using w k testbit_leaf[OF 0(1,2), of x] that addr_eq_iff[of x e 6]
      by (cases "drop_bit 6 x = ?w") (auto simp: bit_and_iff bit_not_iff bit_facts simp del: testbit.simps)
    then show ?thesis
      unfolding eq using simplify_leaf_ok[OF 0(1) len]
      by (simp del: testbit.simps push_bit_of_1)
  qed simp
next
  case (Suc d)
  show ?case
  proof (cases "t = ALL_ZERO")
    case False
    let ?n = "expand_node m t" and ?b = "drop_bit (width m d) e" and ?k = "take_bit (width m d) e"
    let ?c = "clear_bit m (?n ! ?b) d ?k"
    have b: "?b < node_size m" and k: "?k < 2 ^ width m d"
      using split_addr[of e "width m d" "node_class m"] Suc.prems by (simp_all add: params_ok_def)
    note n = expand_node_ok[OF Suc.prems(2)]
    have wfc: "wf_tree m d (?n ! ?b)" using n b by (simp add: list_all_length)
    note IH = Suc.IH[OF Suc.prems(1) wfc k]
    have eq: "clear_bit m t (Suc d) e = simplify_node m (?n[?b := ?c])"
      using False by (simp add: Let_def)
    have n': "length (?n[?b := ?c]) = node_size m" "list_all (wf_tree m d) (?n[?b := ?c])"
      using n IH by (auto intro: list_all_update)
    have upd: "testbit m (?n[?b := ?c] ! drop_bit (width m d) x) d (take_bit (width m d) x)
        = (x \<noteq> e \<and> testbit m t (Suc d) x)" if x: "x < 2 ^ width m (Suc d)" for x
      using IH b n(1) testbit_node[OF Suc.prems(1,2) x] addr_eq_iff[of x e "width m d"]
      by (cases "drop_bit (width m d) x = ?b") simp_all
    show ?thesis
      unfolding eq using upd simplify_node_ok[OF Suc.prems(1) n']
      by (simp del: testbit.simps width_simps)
  qed simp
qed

section \<open>Searching and inverting\<close>

text \<open>\<open>next_ok p n e r\<close>: \<open>r\<close> is the first element from \<open>e\<close> on with \<open>p\<close>, or at least \<open>n\<close> if there is none below \<open>n\<close>.\<close>

definition next_ok :: "(nat \<Rightarrow> bool) \<Rightarrow> nat \<Rightarrow> nat \<Rightarrow> nat \<Rightarrow> bool" where
  "next_ok p n e r \<longleftrightarrow> e \<le> r \<and> (\<forall>x. e \<le> x \<and> x < r \<and> x < n \<longrightarrow> \<not> p x) \<and> (r < n \<longrightarrow> p r)"

lemma next_ok_self: "p e \<Longrightarrow> next_ok p n e e"
  by (auto simp: next_ok_def)

lemma next_ok_cong: "(\<And>x. x < n \<Longrightarrow> p x = q x) \<Longrightarrow> next_ok p n e r = next_ok q n e r"
  by (auto simp: next_ok_def)

lemma leaf_scan_ok:
  assumes "e < 64" and "word < base_words m"
  shows "next_ok (\<lambda>x. bit (node ! drop_bit 6 x) (take_bit 6 x)) (64 * base_words m) (64 * word + e)
    (case leaf_scan m node word e of (w, k) \<Rightarrow> 64 * w + k)"
  using assms
proof (induction m node word e rule: leaf_scan.induct)
  case (1 m node word e)
  let ?p = "\<lambda>x. bit (node ! drop_bit 6 x) (take_bit 6 x)"
  let ?a = "64 * word + e"
  have p: "?p ?a = bit (node ! word) e" and lt: "?a < 64 * base_words m"
    using 1(3,4) by (simp_all add: drop_bit_eq_div take_bit_eq_mod)
  have step: "next_ok ?p (64 * base_words m) ?a r"
    if "next_ok ?p (64 * base_words m) (?a + 1) r" "\<not> ?p ?a" for r
    using that by (auto simp: next_ok_def Suc_le_eq dest: le_neq_implies_less)
  show ?case
  proof (cases "bit (node ! word) e")
    case True
    then have "leaf_scan m node word e = (word, e)"
      using 1(4) by (simp add: leaf_scan.simps[of m node word e] bit_facts)
    with True p show ?thesis by (simp add: next_ok_self)
  next
    case False
    show ?thesis
    proof (cases "e = 63")
      case e: True
      show ?thesis
      proof (cases "word + 1 < base_words m")
        case True
        have "next_ok ?p (64 * base_words m) (?a + 1) (case leaf_scan m node (word + 1) 0 of (w, k) \<Rightarrow> 64 * w + k)"
          using 1(1)[of 64] 1(4) False e True word_and_two_power[of "node ! word" 63]
          by (simp add: drop_bit_eq_div)
        from step[OF this] have "next_ok ?p (64 * base_words m) ?a (case leaf_scan m node (word + 1) 0 of (w, k) \<Rightarrow> 64 * w + k)"
          using False p by blast
        moreover have "leaf_scan m node word e = leaf_scan m node (word + 1) 0"
          using False e 1(4) word_and_two_power[of "node ! word" 63]
          by (simp add: leaf_scan.simps[of m node word 63] drop_bit_eq_div)
        ultimately show ?thesis by (simp only:)
      next
        case last: False
        then have "leaf_scan m node word e = (word + 1, 0)"
          using False e 1(4) word_and_two_power[of "node ! word" 63]
          by (simp add: leaf_scan.simps[of m node word 63] leaf_scan.simps[of m node "Suc word" 0] drop_bit_eq_div)
        moreover have "next_ok ?p (64 * base_words m) (?a + 1) (64 * (word + 1))"
          using e last by (auto simp: next_ok_def)
        ultimately show ?thesis using step False p e by simp
      qed
    next
      case e: False
      then have "drop_bit 6 (e + 1) = 0" using 1(3) by (simp add: drop_bit_eq_div)
      moreover from this have "next_ok ?p (64 * base_words m) (?a + 1) (case leaf_scan m node word (e + 1) of (w, k) \<Rightarrow> 64 * w + k)"
        using 1(2)[of "e + 1"] 1(3,4) False e by (simp add: bit_facts)
      ultimately show ?thesis using step False p 1(4)
        by (simp add: leaf_scan.simps[of m node word e] bit_facts)
    qed
  qed
qed

lemma node_scan_ok:
  assumes "\<And>c e. c \<in> set cs \<Longrightarrow> e < sz \<Longrightarrow> next_ok (q c) sz e (fnd c e)"
    and "e < sz" and "cs \<noteq> []"
  shows "next_ok (\<lambda>x. q (cs ! (x div sz - b)) (x mod sz)) (sz * (b + length cs)) (sz * b + e)
    (case node_scan fnd sz cs b e of (w, k) \<Rightarrow> sz * w + k)"
  using assms
proof (induction cs arbitrary: b e)
  case (Cons c cs)
  let ?p = "\<lambda>cs b x. q (cs ! (x div sz - b)) (x mod sz)"
  have sz: "0 < sz" using Cons.prems by auto
  have here: "next_ok (q c) sz e (fnd c e)" using Cons.prems by simp
  have pc: "?p (c # cs) b (sz * b + k) = q c k" if "k < sz" for k
    using that by simp
  have low: "\<exists>k < sz. x = sz * b + k \<and> e \<le> k" if "sz * b + e \<le> x" "x < sz * (b + 1)" for x
    using that by (intro exI[of _ "x - sz * b"]) (auto simp: algebra_simps)
  show ?case
  proof (cases "fnd c e < sz")
    case True
    have "\<not> ?p (c # cs) b x" if "sz * b + e \<le> x" "x < sz * b + fnd c e" for x
      using here low[of x] that True pc by (auto simp: next_ok_def)
    moreover have "?p (c # cs) b (sz * b + fnd c e)" using here True pc by (simp add: next_ok_def)
    ultimately show ?thesis using True here by (auto simp: next_ok_def)
  next
    case False
    then have none: "\<not> ?p (c # cs) b x" if "sz * b + e \<le> x" "x < sz * (b + 1)" for x
      using here low[OF that] pc by (auto simp: next_ok_def)
    have eq: "node_scan fnd sz (c # cs) b e = node_scan fnd sz cs (b + 1) 0"
      using False by simp
    show ?thesis
    proof (cases "cs = []")
      case True
      then show ?thesis unfolding eq using none Cons.prems(2) sz by (auto simp: next_ok_def)
    next
      case ne: False
      let ?r = "case node_scan fnd sz cs (b + 1) 0 of (w, k) \<Rightarrow> sz * w + k"
      have IH: "next_ok (?p cs (b + 1)) (sz * (b + 1 + length cs)) (sz * (b + 1)) ?r"
        using Cons.IH[of 0 "b + 1"] Cons.prems ne sz by simp
      have shift: "?p (c # cs) b x = ?p cs (b + 1) x" if "sz * (b + 1) \<le> x" for x
      proof -
        have "b + 1 \<le> x div sz" using that sz by (simp add: less_eq_div_iff_mult_less_eq mult.commute)
        then have "x div sz - b = Suc (x div sz - (b + 1))" by simp
        then show ?thesis by simp
      qed
      have "sz * b + e \<le> sz * (b + 1)" using Cons.prems(2) by simp
      then show ?thesis unfolding eq using IH none shift
        unfolding next_ok_def by (auto simp: add.assoc) (meson le_trans not_le)+
    qed
  qed
qed simp

lemma find_next_set_ok:
  assumes "params_ok m" and "wf_tree m d t" and "e < 2 ^ width m d"
  shows "next_ok (testbit m t d) (2 ^ width m d) e (find_next_set m t d e)"
  using assms
proof (induction d arbitrary: t e)
  case 0
  have sz: "2 ^ base_class m = 64 * base_words m" using 0 by (simp add: params_ok_def)
  consider "t = ALL_ONES" | "t = ALL_ZERO" | ws where "t = Leaf ws" using 0 by (cases t) auto
  then show ?case
  proof cases
    case 3
    have e: "take_bit 6 e < 64" "64 * drop_bit 6 e + take_bit 6 e = e" "drop_bit 6 e < base_words m"
      using 0 base_bits by (simp_all add: take_bit_eq_mod drop_bit_eq_div)
    have "next_ok (\<lambda>x. bit (ws ! drop_bit 6 x) (take_bit 6 x)) (64 * base_words m) e (find_next_set m t 0 e)"
      using leaf_scan_ok[OF e(1,3), of ws] e(2) 3
      by (cases "leaf_scan m ws (drop_bit 6 e) (take_bit 6 e)")
        (simp add: expand_leaf_def push_bit_eq_mult mult.commute)
    moreover have "testbit m t 0 x = bit (ws ! drop_bit 6 x) (take_bit 6 x)" if "x < 64 * base_words m" for x
      using testbit_leaf[OF 0(1,2), of x] that sz 3 by (simp add: expand_leaf_def del: testbit.simps)
    ultimately show ?thesis unfolding width_simps sz by (subst next_ok_cong)
  qed (use 0 sz in \<open>auto simp: next_ok_def push_bit_eq_mult\<close>)
next
  case (Suc d)
  let ?sz = "2 ^ width m d :: nat"
  have sz: "2 ^ width m (Suc d) = ?sz * node_size m"
    using Suc.prems by (simp add: params_ok_def power_add)
  consider "t = ALL_ONES" | "t = ALL_ZERO" | ts where "t = Node ts" using Suc.prems by (cases t) auto
  then show ?case
  proof cases
    case 3
    let ?b = "drop_bit (width m d) e" and ?k = "take_bit (width m d) e"
    have ts: "length ts = node_size m" "\<And>c. c \<in> set ts \<Longrightarrow> wf_tree m d c"
      using Suc.prems 3 by (auto simp: list_all_iff)
    have b: "?b < node_size m" "?k < ?sz" "?sz * ?b + ?k = e"
      using split_addr[of e "width m d" "node_class m"] Suc.prems by (simp_all add: params_ok_def)
    have "next_ok (\<lambda>x. testbit m (drop ?b ts ! (x div ?sz - ?b)) d (x mod ?sz)) (?sz * (?b + length (drop ?b ts)))
        (?sz * ?b + ?k) (case node_scan (\<lambda>c e. find_next_set m c d e) ?sz (drop ?b ts) ?b ?k of (w, k) \<Rightarrow> ?sz * w + k)"
      by (rule node_scan_ok) (use b ts Suc.IH Suc.prems(1) in \<open>auto dest: in_set_dropD\<close>)
    moreover have "find_next_set m t (Suc d) e = (case node_scan (\<lambda>c e. find_next_set m c d e) ?sz (drop ?b ts) ?b ?k of (w, k) \<Rightarrow> ?sz * w + k)"
      using 3 ts(1) by (simp add: expand_node_def push_bit_eq_mult Let_def mult.commute split: prod.split)
    ultimately have "next_ok (\<lambda>x. testbit m (drop ?b ts ! (x div ?sz - ?b)) d (x mod ?sz)) (?sz * node_size m) e (find_next_set m t (Suc d) e)"
      using b ts(1) by simp
    moreover have "testbit m t (Suc d) x = testbit m (drop ?b ts ! (x div ?sz - ?b)) d (x mod ?sz)"
      if "e \<le> x" "x < ?sz * node_size m" for x
    proof -
      have "?b \<le> x div ?sz" using that(1) by (simp add: drop_bit_eq_div div_le_mono)
      moreover have "x div ?sz < node_size m" using that(2) by (simp add: less_mult_imp_div_less mult.commute)
      ultimately show ?thesis using 3 b ts(1) by (simp add: expand_node_def Let_def drop_bit_eq_div take_bit_eq_mod)
    qed
    ultimately show ?thesis unfolding sz next_ok_def by auto
  qed (use Suc.prems sz in \<open>auto simp: next_ok_def push_bit_eq_mult mult.commute\<close>)
qed

lemma invert_ok:
  assumes "params_ok m" and "wf_tree m d t"
  shows "wf_tree m d (invert m t d)"
    and "e < 2 ^ width m d \<Longrightarrow> testbit m (invert m t d) d e = (\<not> testbit m t d e)"
  using assms
proof (induction d arbitrary: t e)
  case 0
  {
    case 1
    then show ?case by (auto simp: expand_leaf_def split: tree.splits)
  next
    case 2
    have "take_bit 6 e < 64" by (simp add: take_bit_eq_mod)
    with 2 base_bits[of m e] show ?case
      by (cases t) (auto simp: expand_leaf_def bit_facts Let_def bit_not_iff)
  }
next
  case (Suc d)
  {
    case 1
    then show ?case using Suc.IH(1)
      by (auto simp: expand_node_def list_all_iff split: tree.splits)
  next
    case 2
    have "drop_bit (width m d) e < node_size m" "take_bit (width m d) e < 2 ^ width m d"
      using split_addr[of e "width m d" "node_class m"] 2 by (simp_all add: params_ok_def)
    with 2 Suc.IH(2) show ?case
      by (cases t) (auto simp: expand_node_def Let_def list_all_length)
  }
qed

section \<open>Growing the tree\<close>

text \<open>The operations on trees read only the four parameters of the set they are called for.\<close>

lemma same_params:
  assumes "node_size m = node_size n" and "node_class m = node_class n"
    and "base_class m = base_class n" and "base_words m = base_words n"
  shows "testbit m t d e = testbit n t d e" and "wf_tree m d t = wf_tree n d t"
    and "params_ok m = params_ok n" and "width m d = width n d" and "bs_limit m = bs_limit n"
proof -
  show w: "width m d = width n d" for d using assms by (simp add: width_def)
  then show "bs_limit m = bs_limit n" using assms by (simp add: bs_limit_def)
  show "params_ok m = params_ok n" using assms by (simp add: params_ok_def)
  have "expand_node m = expand_node n" "expand_leaf m = expand_leaf n"
    using assms by (auto simp: expand_node_def expand_leaf_def fun_eq_iff split: tree.splits)
  then show "testbit m t d e = testbit n t d e"
    using w by (induction d arbitrary: t e) (simp_all add: Let_def)
  have "wf_tree m d = wf_tree n d"
    using assms by (induction d) (auto simp: fun_eq_iff list_all_iff split: tree.splits)
  then show "wf_tree m d t = wf_tree n d t" by simp
qed

lemma same_params_set [simp]:
  "testbit (s\<lparr>bs_set := u\<rparr>) t d e = testbit s t d e" "wf_tree (s\<lparr>bs_set := u\<rparr>) d t = wf_tree s d t"
  "params_ok (s\<lparr>bs_set := u\<rparr>) = params_ok s" "width (s\<lparr>bs_set := u\<rparr>) d = width s d"
  "bs_limit (s\<lparr>bs_set := u\<rparr>) = bs_limit s"
  "testbit (expand s) t d e = testbit s t d e" "wf_tree (expand s) d t = wf_tree s d t"
  "params_ok (expand s) = params_ok s" "width (expand s) d = width s d" "bs_limit (expand s) = bs_limit s"
  by (rule same_params; simp add: expand_def)+

lemma expand_fields [simp]:
  "bs_set (expand s) = Node (bs_set s # replicate (node_size s - 1) (default_value s))"
  "bs_depth (expand s) = Suc (bs_depth s)" "default_value (expand s) = default_value s"
  "node_class (expand s) = node_class s" "node_size (expand s) = node_size s"
  "base_class (expand s) = base_class s" "base_words (expand s) = base_words s"
  by (simp_all add: expand_def)

lemma expand_ok:
  assumes "bs_wf s" and "width s (Suc (bs_depth s)) < 32"
  shows "bs_wf (expand s)" and "bitset_test (expand s) x = bitset_test s x"
proof -
  let ?w = "width s (bs_depth s)"
  have s: "params_ok s" "set_size s = 2 ^ ?w" "wf_tree s (bs_depth s) (bs_set s)"
    "default_value s = ALL_ZERO \<or> default_value s = ALL_ONES" using assms by (auto simp: bs_wf_def)
  have sz: "set_size (expand s) = 2 ^ width s (Suc (bs_depth s))"
    using s(2) power_strict_increasing[OF assms(2), of "2 :: nat"]
    by (simp add: expand_def push_bit_eq_mult power_add[symmetric])
  have len: "length (bs_set s # replicate (node_size s - 1) (default_value s)) = node_size s"
    using nz_sizes[OF s(1)] by simp
  show "bs_wf (expand s)"
    using s assms(2) sz len unfolding bs_wf_def
    by (auto simp: list_all_iff simp del: width_simps)
  have "testbit s (Node (bs_set s # replicate (node_size s - 1) (default_value s))) (Suc (bs_depth s)) x
      = (if x < set_size s then testbit s (bs_set s) (bs_depth s) x else default_value s = ALL_ONES)"
    if x: "x < 2 ^ width s (Suc (bs_depth s))"
  proof (cases "x < set_size s")
    case True
    then show ?thesis using s(2) by (simp add: expand_node_def drop_bit_eq_div take_bit_eq_mod)
  next
    case False
    then have "0 < drop_bit ?w x" using s(2) by (simp add: drop_bit_eq_div div_greater_zero_iff)
    moreover have "drop_bit ?w x < node_size s"
      using split_addr(1)[of x ?w "node_class s"] x s(1) by (simp add: params_ok_def)
    ultimately show ?thesis using s(4) False by (auto simp: expand_node_def Let_def nth_Cons')
  qed
  moreover have "set_size s \<le> set_size (expand s)" using s(2) sz by (simp add: power_increasing)
  ultimately show "bitset_test (expand s) x = bitset_test s x"
    using sz by (auto simp: bitset_test_def simp del: testbit.simps width_simps)
qed

text \<open>What an operation on a set leaves of it: the invariant and the largest possible element.\<close>

definition bs_keeps :: "bitset \<Rightarrow> bitset \<Rightarrow> bool" where
  "bs_keeps s s' \<longleftrightarrow> bs_wf s' \<and> bs_limit s' = bs_limit s"

lemma depth_bound:
  assumes "params_ok s"
  shows "base_class s < 32 \<Longrightarrow> width s d < 32 \<longleftrightarrow> d \<le> (31 - base_class s) div node_class s"
proof -
  assume "base_class s < 32"
  then have "width s d < 32 \<longleftrightarrow> d * node_class s \<le> 31 - base_class s" by (auto simp: width_def)
  also have "\<dots> \<longleftrightarrow> d \<le> (31 - base_class s) div node_class s"
    using assms by (simp add: params_ok_def less_eq_div_iff_mult_less_eq)
  finally show ?thesis .
qed

lemma bs_wf_base: "bs_wf s \<Longrightarrow> base_class s < 32"
  by (auto simp: bs_wf_def width_def)

lemma bs_limit_lt:
  assumes "bs_wf s"
  shows "bs_limit s < 2 ^ 32"
proof -
  have "width s ((31 - base_class s) div node_class s) < 32"
    using assms depth_bound[of s] bs_wf_base[OF assms] by (auto simp: bs_wf_def)
  then show ?thesis unfolding bs_limit_def by (rule power_strict_increasing) simp
qed

lemma expand_until_ok:
  assumes "bs_wf s" and "e < bs_limit s"
  shows "\<exists>s'. expand_until s e = Some s' \<and> bs_keeps s s' \<and> e < set_size s'
    \<and> (\<forall>x. bitset_test s' x = bitset_test s x)"
  using assms
proof (induction "(31 - base_class s) div node_class s - bs_depth s" arbitrary: s)
  case 0
  let ?n = "(31 - base_class s) div node_class s"
  have "bs_depth s \<le> ?n"
    using 0(2) depth_bound[of s "bs_depth s"] bs_wf_base by (auto simp: bs_wf_def)
  with 0 have "e < set_size s" by (simp add: bs_wf_def bs_limit_def)
  then show ?case using 0 by (simp add: expand_until.simps bs_keeps_def)
next
  case (Suc k)
  show ?case
  proof (cases "e < set_size s")
    case True
    then show ?thesis using Suc.prems by (simp add: expand_until.simps bs_keeps_def)
  next
    case False
    have w: "width s (Suc (bs_depth s)) < 32"
      using Suc(2,3) depth_bound[of s "Suc (bs_depth s)"] bs_wf_base by (auto simp: bs_wf_def)
    have "k = (31 - base_class (expand s)) div node_class (expand s) - bs_depth (expand s)"
      using Suc(2) by (simp add: expand_def)
    from Suc(1)[OF this expand_ok(1)[OF Suc.prems(1) w]] Suc.prems(2) show ?thesis
      using False expand_ok(2)[OF Suc.prems(1) w] by (simp add: expand_until.simps[of s e] bs_keeps_def)
  qed
qed

lemma expand_mod:
  assumes "set_size s = 2 ^ width s (bs_depth s) mod ELEM_LIMIT"
  shows "set_size (expand s) = 2 ^ width s (Suc (bs_depth s)) mod ELEM_LIMIT"
proof -
  have "set_size (expand s) = (2 ^ width s (bs_depth s) mod ELEM_LIMIT) * 2 ^ node_class s mod ELEM_LIMIT"
    using assms by (simp add: expand_def push_bit_eq_mult)
  then show ?thesis by (simp add: power_add mod_mult_left_eq)
qed

lemma limit_passed:
  assumes "params_ok s" and "base_class s < 32" and "bs_limit s \<le> e"
    and "set_size s = 2 ^ width s (bs_depth s) mod ELEM_LIMIT"
  shows "set_size s \<le> e"
proof (cases "width s (bs_depth s) < 32")
  case True
  then have "bs_depth s \<le> (31 - base_class s) div node_class s" using depth_bound assms by simp
  then have "width s (bs_depth s) \<le> width s ((31 - base_class s) div node_class s)"
    by (simp add: width_def)
  then have "2 ^ width s (bs_depth s) \<le> bs_limit s" by (simp add: bs_limit_def power_increasing)
  then show ?thesis using assms(3,4) by (metis le_trans mod_less_eq_dividend)
next
  case False
  then have "ELEM_LIMIT dvd 2 ^ width s (bs_depth s)" by (intro le_imp_power_dvd) simp
  then show ?thesis using assms(4) by simp
qed

lemma expand_until_None:
  assumes "params_ok s" and "base_class s < 32" and "bs_limit s \<le> e"
    and "set_size s = 2 ^ width s (bs_depth s) mod ELEM_LIMIT"
  shows "expand_until s e = None"
proof -
  let ?stuck = "\<lambda>s e. params_ok s \<and> base_class s < 32 \<and> bs_limit s \<le> e
    \<and> set_size s = 2 ^ width s (bs_depth s) mod ELEM_LIMIT"
  have "\<not> ?stuck s e" if "expand_until s e = Some r" for r
    using that
  proof (rule expand_until.raw_induct[where P = "\<lambda>s e r. \<not> ?stuck s e", rotated])
    fix f s e r
    assume IH: "\<And>s e r. f s e = Some r \<Longrightarrow> \<not> ?stuck s e"
      and r: "(if \<not> e < set_size s then f (expand s) e else Some s) = Some r"
    show "\<not> ?stuck s e"
    proof
      assume st: "?stuck s e"
      then have "?stuck (expand s) e" using expand_mod[of s] by (simp del: width_simps)
      moreover have "f (expand s) e = Some r" using st r limit_passed[of s e] by (auto split: if_splits)
      ultimately show False using IH by blast
    qed
  qed
  then show ?thesis using assms by (cases "expand_until s e") auto
qed

section \<open>Creating sets\<close>

lemma ilog2_loop_power: "ilog2_loop i (2 ^ k) = Inr (i + k)"
proof (induction k arbitrary: i)
  case 0
  then show ?case by (simp add: ilog2_loop.simps)
next
  case (Suc k)
  have "\<not> 2 ^ Suc k \<le> (1 :: int)" using one_le_power[of "2 :: int" k] unfolding power_Suc by linarith
  then show ?case using Suc[of "i + 1"] by (simp add: ilog2_loop.simps[of i])
qed

lemma ilog2_loop_Inr: "ilog2_loop i n = Inr r \<Longrightarrow> 1 \<le> n \<Longrightarrow> \<exists>k. n = 2 ^ k"
proof (induction i n rule: ilog2_loop.induct)
  case (1 i n)
  show ?case
  proof (cases "n = 1")
    case True
    then show ?thesis by (intro exI[of _ 0]) simp
  next
    case False
    with 1(2,3) have ev: "even n" by (auto simp: ilog2_loop.simps[of i n] split: if_splits)
    have half: "1 \<le> n div 2" using ev False 1(3) by (auto elim!: evenE)
    then obtain k where "n div 2 = 2 ^ k"
      using False 1 ev by (auto simp: ilog2_loop.simps[of i n] split: if_splits)
    with ev show ?thesis by (intro exI[of _ "Suc k"]) auto
  qed
qed

lemma ilog2_Inr_iff: "ilog2 n = Inr k \<longleftrightarrow> n = 2 ^ k"
proof
  assume *: "ilog2 n = Inr k"
  then obtain j where "n = 2 ^ j"
    using ilog2_loop_Inr[of 0 n k] by (auto simp: ilog2_def split: if_splits)
  with * show "n = 2 ^ k" using ilog2_loop_power[of 0 j] by (auto simp: ilog2_def split: if_splits)
next
  assume "n = 2 ^ k"
  moreover have "\<not> (2 :: int) ^ k < 1" using one_le_power[of "2 :: int" k] by linarith
  ultimately show "ilog2 n = Inr k" by (simp add: ilog2_def ilog2_loop_power)
qed

lemma ilog2_cases: "(\<exists>k. ilog2 n = Inr k \<and> n = 2 ^ k) \<or> (\<exists>e. ilog2 n = Inl e) \<and> (\<forall>k. n \<noteq> 2 ^ k)"
  by (cases "ilog2 n") (auto simp: ilog2_Inr_iff, metis Inl_Inr_False ilog2_Inr_iff)

lemma empty_set_ok:
  assumes "params_ok s" and "base_class s < 32" and "bs_depth s = 0"
    and "set_size s = 2 ^ base_class s mod ELEM_LIMIT" and "bs_set s = t" and "default_value s = t"
    and "t = ALL_ZERO \<or> t = ALL_ONES"
  shows "bs_wf s" and "bitset_test s x = (t = ALL_ONES)"
proof -
  have "(2 :: nat) ^ base_class s < 2 ^ 32" by (rule power_strict_increasing) (use assms in auto)
  then show "bs_wf s" using assms by (auto simp: bs_wf_def)
  show "bitset_test s x = (t = ALL_ONES)" using assms(5-7) by (auto simp: bitset_test_def)
qed

definition created :: "nat \<Rightarrow> nat \<Rightarrow> bitset" where
  "created a b = \<lparr>bs_set = ALL_ZERO, bs_depth = 0, set_size = 2 ^ (b + 6) mod ELEM_LIMIT,
     default_value = ALL_ZERO, node_class = a, node_size = 2 ^ a, base_class = b + 6, base_words = 2 ^ b\<rparr>"

lemma mod_8_power: "(2 :: int) ^ k mod 8 = 0 \<Longrightarrow> 3 \<le> k"
  by (cases "k < 3") (auto simp: numeral_3_eq_3 less_Suc_eq)

lemma bitset_create_Inr:
  "bitset_create ns ls = Inr s \<longleftrightarrow> (\<exists>a b. 1 \<le> a \<and> ns = 8 * 2 ^ a \<and> ls = 8 * 2 ^ b \<and> s = created a b)"
proof
  assume "\<exists>a b. 1 \<le> a \<and> ns = 8 * 2 ^ a \<and> ls = 8 * 2 ^ b \<and> s = created a b"
  then obtain a b where ab: "1 \<le> a" "ns = 8 * 2 ^ a" "ls = 8 * 2 ^ b" "s = created a b" by blast
  have "ilog2 (2 ^ a) = Inr a" "ilog2 (8 * 2 ^ b) = Inr (b + 3)"
    by (simp_all add: ilog2_Inr_iff power_add)
  with ab show "bitset_create ns ls = Inr s"
    by (simp add: bitset_create_def created_def nat_power_eq Let_def add.commute)
next
  assume s: "bitset_create ns ls = Inr s"
  then have n8: "ns mod 8 = 0" and l8: "ls mod 8 = 0"
    by (auto simp: bitset_create_def result_bind_def Let_def split: if_splits sum.splits)
  from s obtain a k where ak: "ilog2 (ns div 8) = Inr a" "ilog2 ls = Inr k" "1 \<le> a"
    by (auto simp: bitset_create_def result_bind_def Let_def split: if_splits sum.splits)
  then have ls: "ls = 2 ^ k" and ns: "ns = 8 * 2 ^ a" using n8 by (auto simp: ilog2_Inr_iff)
  obtain b where b: "k = b + 3" using mod_8_power[of k] l8 ls by (metis le_add_diff_inverse2)
  have "s = created a b"
    using s n8 l8 ak ns ls b
    by (auto simp: bitset_create_def created_def nat_power_eq power_add add.commute mult.commute)
  with ak ns ls b show "\<exists>a b. 1 \<le> a \<and> ns = 8 * 2 ^ a \<and> ls = 8 * 2 ^ b \<and> s = created a b"
    by (intro exI[of _ a] exI[of _ b]) (simp add: power_add)
qed

lemma created_params:
  "1 \<le> a \<Longrightarrow> params_ok (created a b)" "base_class (created a b) = b + 6"
  by (simp_all add: params_ok_def created_def power_add)

section \<open>The set operations\<close>

lemma bitset_test_upd:
  assumes "bs_wf s" and "bs_wf s'" and "set_size s' = set_size s" and "default_value s' = default_value s"
    and "\<And>x. x < 2 ^ width s (bs_depth s) \<Longrightarrow> testbit s' (bs_set s') (bs_depth s') x = q x (testbit s (bs_set s) (bs_depth s) x)"
    and "\<And>x. set_size s \<le> x \<Longrightarrow> q x (default_value s = ALL_ONES) = (default_value s = ALL_ONES)"
  shows "bitset_test s' x = q x (bitset_test s x)"
  using assms by (auto simp: bitset_test_def bs_wf_def)

lemma bitset_set_ok:
  assumes "bs_wf s" and "e < bs_limit s"
  shows "\<exists>s'. bitset_set s e = Some (\<not> bitset_test s e, s') \<and> bs_keeps s s'
    \<and> (\<forall>x. bitset_test s' x = (x = e \<or> bitset_test s x))"
proof -
  obtain u where u: "expand_until s e = Some u" "bs_keeps s u" "e < set_size u"
      "\<And>x. bitset_test u x = bitset_test s x" using expand_until_ok[OF assms] by auto
  let ?t = "set_bit u (bs_set u) (bs_depth u) e"
  have wf: "bs_wf u" using u by (simp add: bs_keeps_def)
  note t = set_bit_ok[of u "bs_depth u" "bs_set u" e]
  have wf': "bs_wf (u\<lparr>bs_set := fst ?t\<rparr>)" using wf u(3) t by (auto simp: bs_wf_def)
  have "bitset_test (u\<lparr>bs_set := fst ?t\<rparr>) x = (x = e \<or> bitset_test u x)" for x
    by (rule bitset_test_upd[OF wf wf', where q = "\<lambda>x b. x = e \<or> b"]) (use wf u(3) t in \<open>auto simp: bs_wf_def\<close>)
  moreover have "snd ?t = (\<not> bitset_test u e)" using t wf u(3) by (simp add: bs_wf_def bitset_test_def)
  ultimately show ?thesis using u wf'
    by (simp add: bitset_set_def bs_keeps_def prod.case_eq_if)
qed

lemma bitset_clear_ok:
  assumes "bs_wf s" and "e < bs_limit s"
  shows "\<exists>s'. bitset_clear s e = Some s' \<and> bs_keeps s s'
    \<and> (\<forall>x. bitset_test s' x = (x \<noteq> e \<and> bitset_test s x))"
proof -
  obtain u where u: "expand_until s e = Some u" "bs_keeps s u" "e < set_size u"
      "\<And>x. bitset_test u x = bitset_test s x" using expand_until_ok[OF assms] by auto
  let ?t = "clear_bit u (bs_set u) (bs_depth u) e"
  have wf: "bs_wf u" using u by (simp add: bs_keeps_def)
  note t = clear_bit_ok[of u "bs_depth u" "bs_set u" e]
  have wf': "bs_wf (u\<lparr>bs_set := ?t\<rparr>)" using wf u(3) t by (auto simp: bs_wf_def)
  have "bitset_test (u\<lparr>bs_set := ?t\<rparr>) x = (x \<noteq> e \<and> bitset_test u x)" for x
    by (rule bitset_test_upd[OF wf wf', where q = "\<lambda>x b. x \<noteq> e \<and> b"]) (use wf u(3) t in \<open>auto simp: bs_wf_def\<close>)
  then show ?thesis using u wf' by (simp add: bitset_clear_def bs_keeps_def)
qed

lemma bitset_invert_ok:
  assumes "bs_wf s"
  shows "bs_keeps s (bitset_invert s)" and "bitset_test (bitset_invert s) x = (\<not> bitset_test s x)"
proof -
  let ?i = "bitset_invert s"
  have p: "testbit ?i t d e = testbit s t d e" "wf_tree ?i d t = wf_tree s d t"
    "params_ok ?i = params_ok s" "width ?i d = width s d" "bs_limit ?i = bs_limit s" for t d e
    by (rule same_params; simp add: bitset_invert_def)+
  have f: "bs_set ?i = invert s (bs_set s) (bs_depth s)" "bs_depth ?i = bs_depth s" "set_size ?i = set_size s"
    "default_value ?i = invert s (default_value s) 0" by (simp_all add: bitset_invert_def)
  note i = invert_ok[of s "bs_depth s" "bs_set s"]
  show "bs_keeps s ?i" using assms i(1) by (auto simp: bs_keeps_def bs_wf_def p f)
  show "bitset_test ?i x = (\<not> bitset_test s x)"
    using assms i(2)[of x] by (auto simp: bitset_test_def bs_wf_def p f)
qed

text \<open>The tree sets implement sets kept as bits; an operation that does not return leaves its argument.\<close>

definition bs_ins :: "bitset \<Rightarrow> nat \<Rightarrow> bitset" where
  "bs_ins s e = (case bitset_set s e of Some (is_new, s') \<Rightarrow> s' | None \<Rightarrow> s)"

definition bs_del :: "bitset \<Rightarrow> nat \<Rightarrow> bitset" where
  "bs_del s e = (case bitset_clear s e of Some s' \<Rightarrow> s' | None \<Rightarrow> s)"

interpretation tree_set: bit_map bs_wf "\<lambda>s e. e < bs_limit s" bitset_test bs_ins bs_del
proof unfold_locales
  fix s e x assume *: "bs_wf s" "e < bs_limit s"
  obtain u where "bitset_set s e = Some (\<not> bitset_test s e, u)" "bs_wf u" "bs_limit u = bs_limit s"
      "\<And>x. bitset_test u x = (x = e \<or> bitset_test s x)"
    using bitset_set_ok[OF *] unfolding bs_keeps_def by blast
  then show "bs_wf (bs_ins s e)" "(x < bs_limit (bs_ins s e)) = (x < bs_limit s)"
    "bitset_test (bs_ins s e) x = (x = e \<or> bitset_test s x)"
    by (simp_all add: bs_ins_def)
  obtain u where "bitset_clear s e = Some u" "bs_wf u" "bs_limit u = bs_limit s"
      "\<And>x. bitset_test u x = (x \<noteq> e \<and> bitset_test s x)"
    using bitset_clear_ok[OF *] unfolding bs_keeps_def by blast
  then show "bs_wf (bs_del s e)" "(x < bs_limit (bs_del s e)) = (x < bs_limit s)"
    "bitset_test (bs_del s e) x = (x \<noteq> e \<and> bitset_test s x)"
    by (simp_all add: bs_del_def)
qed

lemma set_range_fold:
  assumes "bs_wf s" and "high < bs_limit s" and "i \<le> high + 1"
  shows "set_range_from s i high = Some (fold (\<lambda>e t. bs_ins t e) [i..<high + 1] s)"
  using assms
proof (induction "high + 1 - i" arbitrary: s i)
  case 0
  then show ?case by (simp add: set_range_from.simps)
next
  case (Suc k)
  have lim: "bs_limit s < 2 ^ 32"
    using bs_limit_lt[OF Suc.prems(1)] .
  obtain s' where s': "bitset_set s i = Some (\<not> bitset_test s i, s')" "bs_keeps s s'"
    using bitset_set_ok[of s i] Suc(2-5) by (metis Suc_eq_plus1 less_Suc_eq_le order_le_less_trans zero_less_Suc zero_less_diff)
  have "set_range_from s' (i + 1) high = Some (fold (\<lambda>e t. bs_ins t e) [i + 1..<high + 1] s')"
    using Suc s' by (intro Suc(1)) (auto simp: bs_keeps_def)
  moreover have "i \<le> high" using Suc(2) by simp
  moreover from this have "[i..<high + 1] = i # [i + 1..<high + 1]" by (simp add: upt_conv_Cons del: upt_Suc)
  moreover have "bs_ins s i = s'" using s'(1) by (simp add: bs_ins_def)
  ultimately show ?case using s'(1) Suc.prems(2) lim
    by (simp add: set_range_from.simps[of s i] del: upt_Suc)
qed

section \<open>Properties\<close>

definition demo_bitset :: bitset where
  "demo_bitset = \<lparr>bs_set = ALL_ZERO, bs_depth = 0, set_size = 64, default_value = ALL_ZERO,
     node_class = 1, node_size = 2, base_class = 6, base_words = 1\<rparr>"

lemma demo_bitset_ok: "bs_wf demo_bitset" "bs_limit demo_bitset = 2 ^ 31"
  by (simp_all add: demo_bitset_def bs_wf_def params_ok_def bs_limit_def width_def)

text \<open>
  C28. \<^verbatim>\<open>bitset_create\<close> succeeds exactly when the node size is a power of two of at least two pointers
  and the leaf size a power of two of at least one word; every set it creates, up to leaves of
  \<open>2 ^ 28\<close> bytes, is a well-formed empty set, and so are a set created from another one and a
  cleared set; \<^verbatim>\<open>bitset_set_all\<close> leaves a well-formed full set.
\<close>

theorem bitset_create_correct:
  "((\<exists>s. bitset_create ns ls = Inr s) \<longleftrightarrow> (\<exists>a b. 1 \<le> a \<and> ns = 8 * 2 ^ a \<and> ls = 8 * 2 ^ b))
   \<and> (ls \<le> 2 ^ 28 \<and> bitset_create ns ls = Inr s \<longrightarrow>
        bs_wf s \<and> \<not> bitset_test s x
        \<and> bs_wf (bitset_create_shared s) \<and> \<not> bitset_test (bitset_create_shared s) x
        \<and> bs_wf (bitset_clear_all s) \<and> \<not> bitset_test (bitset_clear_all s) x
        \<and> bs_wf (bitset_set_all s) \<and> bitset_test (bitset_set_all s) x)"
proof
  show "(\<exists>s. bitset_create ns ls = Inr s) \<longleftrightarrow> (\<exists>a b. 1 \<le> a \<and> ns = 8 * 2 ^ a \<and> ls = 8 * 2 ^ b)"
    by (auto simp: bitset_create_Inr)
  let ?ok = "bs_wf s \<and> \<not> bitset_test s x
        \<and> bs_wf (bitset_create_shared s) \<and> \<not> bitset_test (bitset_create_shared s) x
        \<and> bs_wf (bitset_clear_all s) \<and> \<not> bitset_test (bitset_clear_all s) x
        \<and> bs_wf (bitset_set_all s) \<and> bitset_test (bitset_set_all s) x"
  have ?ok if small: "ls \<le> 2 ^ 28" and s: "bitset_create ns ls = Inr s"
  proof -
    obtain a b where ab: "1 \<le> a" "ls = 8 * 2 ^ b" "s = created a b" using s by (auto simp: bitset_create_Inr)
    have "(2 :: int) ^ (b + 3) \<le> 2 ^ 28" using small ab(2) by (simp add: power_add)
    then have "b + 3 \<le> 28" using power_le_imp_le_exp[of "2 :: int" "b + 3" 28] by simp
    then have b: "base_class s < 32" using ab by (simp add: created_params)
    have p: "params_ok s" using ab by (simp add: created_params)
    have "params_ok (bitset_create_shared s)" "params_ok (bitset_clear_all s)" "params_ok (bitset_set_all s)"
      using p by (simp_all add: params_ok_def bitset_create_shared_def bitset_clear_all_def bitset_set_all_def)
    then show ?thesis
      using b p empty_set_ok[of "bitset_create_shared s" ALL_ZERO] empty_set_ok[of "bitset_clear_all s" ALL_ZERO]
        empty_set_ok[of "bitset_set_all s" ALL_ONES] empty_set_ok[of s ALL_ZERO] ab(3)
      by (simp add: bitset_create_shared_def bitset_clear_all_def bitset_set_all_def created_def)
  qed
  then show "ls \<le> 2 ^ 28 \<and> bitset_create ns ls = Inr s \<longrightarrow> ?ok" by blast
qed

theorem bitset_create_correct_witness:
  "bitset_create 16 8 = Inr demo_bitset \<and> bs_wf (bitset_set_all demo_bitset) \<and> bitset_test (bitset_set_all demo_bitset) 3"
proof -
  have "bitset_create 16 8 = Inr demo_bitset"
    unfolding bitset_create_Inr by (intro exI[of _ 1] exI[of _ 0]) (simp add: created_def demo_bitset_def)
  with bitset_create_correct[of 16 8 demo_bitset 3] show ?thesis by simp
qed

text \<open>
  C29. On a well-formed set and an element below the largest tree size, \<^verbatim>\<open>bitset_set\<close> ends, returns
  whether the element is new and adds exactly that element, and \<^verbatim>\<open>bitset_clear\<close> ends and removes
  exactly that element; both keep the invariant and the largest size.
\<close>

theorem bitset_set_clear_correct:
  assumes "bs_wf s" and "e < bs_limit s"
  shows "\<exists>s' s''. bitset_set s e = Some (\<not> bitset_test s e, s') \<and> bitset_clear s e = Some s''
    \<and> bs_wf s' \<and> bs_wf s'' \<and> bs_limit s' = bs_limit s \<and> bs_limit s'' = bs_limit s
    \<and> (\<forall>x. bitset_test s' x = (x = e \<or> bitset_test s x))
    \<and> (\<forall>x. bitset_test s'' x = (x \<noteq> e \<and> bitset_test s x))"
  using bitset_set_ok[OF assms] bitset_clear_ok[OF assms] unfolding bs_keeps_def by blast

theorem bitset_set_clear_correct_witness:
  "\<exists>s' s''. bitset_set demo_bitset 1000 = Some (True, s') \<and> bitset_clear demo_bitset 1000 = Some s''
    \<and> bs_wf s' \<and> bs_wf s'' \<and> (\<forall>x. bitset_test s' x = (x = 1000)) \<and> \<not> bitset_test s'' 1000"
proof -
  have "\<not> bitset_test demo_bitset x" for x by (simp add: bitset_test_def demo_bitset_def)
  then show ?thesis
    using bitset_set_clear_correct[of demo_bitset 1000] demo_bitset_ok by auto
qed

text \<open>
  C30. \<^verbatim>\<open>bitset_next_set\<close>, from an element that is at most the size of the tree, finds the smallest
  element of the set that is not below it, or leaves the element alone and returns \<open>0\<close> when the
  set has no such element.
\<close>

theorem bitset_next_set_correct:
  assumes "bs_wf s" and "e \<le> set_size s"
  shows "case bitset_next_set s e of
      (True, r) \<Rightarrow> e \<le> r \<and> bitset_test s r \<and> (\<forall>x. e \<le> x \<and> x < r \<longrightarrow> \<not> bitset_test s x)
    | (False, r) \<Rightarrow> r = e \<and> (\<forall>x. e \<le> x \<longrightarrow> \<not> bitset_test s x)"
proof -
  let ?r = "find_next_set s (bs_set s) (bs_depth s) e"
  have s: "params_ok s" "wf_tree s (bs_depth s) (bs_set s)" "set_size s = 2 ^ width s (bs_depth s)"
    "default_value s = ALL_ZERO \<or> default_value s = ALL_ONES" using assms by (auto simp: bs_wf_def)
  have r: "next_ok (testbit s (bs_set s) (bs_depth s)) (set_size s) e ?r" if "e < set_size s"
    using find_next_set_ok[OF s(1,2)] that s(3) by simp
  show ?thesis
  proof (cases "e < set_size s \<and> ?r < set_size s")
    case True
    with r show ?thesis by (simp add: bitset_next_set_def Let_def next_ok_def bitset_test_def)
  next
    case False
    then have none: "\<not> bitset_test s x" if "e \<le> x" "x < set_size s" for x
      using that r by (auto simp: next_ok_def bitset_test_def)
    from False have "bitset_next_set s e
        = (if default_value s = ALL_ONES then (True, set_size s) else (False, e))"
      by (auto simp: bitset_next_set_def Let_def)
    moreover have "bitset_test s x = (default_value s = ALL_ONES)" if "set_size s \<le> x" for x
      using that by (simp add: bitset_test_def)
    ultimately show ?thesis using none assms(2) by (auto simp: not_less) (metis not_le)
  qed
qed

theorem bitset_next_set_correct_witness:
  "bitset_next_set (demo_bitset\<lparr>bs_set := Leaf [40]\<rparr>) 4 = (True, 5)
   \<and> bitset_test (demo_bitset\<lparr>bs_set := Leaf [40]\<rparr>) 5 \<and> \<not> bitset_test (demo_bitset\<lparr>bs_set := Leaf [40]\<rparr>) 4"
proof -
  let ?s = "demo_bitset\<lparr>bs_set := Leaf [40]\<rparr>"
  have eq: "bitset_next_set ?s 4 = (True, 5)" by code_simp
  have "bs_wf ?s" by (simp add: bs_wf_def demo_bitset_def params_ok_def)
  from bitset_next_set_correct[OF this, of 4] eq show ?thesis by (auto simp: demo_bitset_def)
qed

text \<open>
  On a set whose default is full, \<^verbatim>\<open>bitset_next_set\<close> from an element beyond the tree goes back to
  the size of the tree, which is smaller than the element it was given, although that element is
  itself in the set.
\<close>

theorem bitset_next_set_goes_back:
  assumes "default_value s = ALL_ONES" and "set_size s < e"
  shows "bitset_next_set s e = (True, set_size s) \<and> bitset_test s e"
  using assms by (simp add: bitset_next_set_def bitset_test_def)

theorem bitset_next_set_goes_back_witness:
  "bitset_next_set (bitset_set_all demo_bitset) 100 = (True, 64) \<and> bitset_test (bitset_set_all demo_bitset) 100"
  using bitset_next_set_goes_back[of "bitset_set_all demo_bitset" 100]
  by (simp add: bitset_set_all_def demo_bitset_def)

text \<open>
  C31. \<^verbatim>\<open>bitset_invert\<close> complements a well-formed set, and \<^verbatim>\<open>bitset_set_range\<close> ends and adds exactly the
  elements from \<open>low\<close> to \<open>high\<close> when \<open>high\<close> is below the largest tree size; both keep the invariant.
\<close>

theorem bitset_invert_range_correct:
  assumes "bs_wf s" and "high < bs_limit s" and "low \<le> high"
  shows "bs_wf (bitset_invert s) \<and> (\<forall>x. bitset_test (bitset_invert s) x = (\<not> bitset_test s x))
    \<and> (\<exists>s'. bitset_set_range s low high = Some s' \<and> bs_wf s'
         \<and> (\<forall>x < bs_limit s. bitset_test s' x = (low \<le> x \<and> x \<le> high \<or> bitset_test s x)))"
proof -
  have "\<forall>e \<in> set [low..<high + 1]. e < bs_limit s" using assms(2) by auto
  from tree_set.ins_all[OF assms(1) this] show ?thesis
    using set_range_fold[OF assms(1,2), of low] assms(3) bitset_invert_ok[OF assms(1)]
    by (simp add: bitset_set_range_def bs_keeps_def less_Suc_eq_le del: upt_Suc)
qed

theorem bitset_invert_range_correct_witness:
  "bitset_test (bitset_invert demo_bitset) 7
   \<and> (\<exists>s'. bitset_set_range demo_bitset 100 2000 = Some s' \<and> bs_wf s' \<and> bitset_test s' 150)"
proof -
  have "\<not> bitset_test demo_bitset x" for x by (simp add: bitset_test_def demo_bitset_def)
  then show ?thesis
    using bitset_invert_range_correct[of demo_bitset 2000 100] demo_bitset_ok by auto
qed

text \<open>
  The size of the tree is an \<^verbatim>\<open>element_t\<close> that is shifted until it exceeds the element: for an
  element at or above the largest power of the node size that fits, it becomes \<open>0\<close> and
  \<^verbatim>\<open>bitset_set\<close> and \<^verbatim>\<open>bitset_clear\<close> never end. \<^verbatim>\<open>bitset_set_range\<close> up to the largest \<^verbatim>\<open>element_t\<close> never
  ends either, whatever the set, because its counter wraps.
\<close>

theorem bitset_set_diverges:
  assumes "bs_wf s" and "bs_limit s \<le> e" and "low < ELEM_LIMIT"
  shows "bitset_set s e = None \<and> bitset_clear s e = None \<and> bitset_set_range t low (ELEM_LIMIT - 1) = None"
proof -
  have "set_size s = 2 ^ width s (bs_depth s) mod ELEM_LIMIT"
    using assms(1) power_strict_increasing[of "width s (bs_depth s)" 32 "2 :: nat"] by (simp add: bs_wf_def)
  then have "expand_until s e = None"
    using expand_until_None[of s e] assms bs_wf_base by (simp add: bs_wf_def)
  moreover have "\<not> (i < ELEM_LIMIT \<and> high = ELEM_LIMIT - 1)" if "set_range_from t i high = Some r" for t i high r
    using that
  proof (rule set_range_from.raw_induct[where P = "\<lambda>s i high r. \<not> (i < ELEM_LIMIT \<and> high = ELEM_LIMIT - 1)", rotated])
    fix f t i high r
    assume IH: "\<And>t i high r. f t i high = Some r \<Longrightarrow> \<not> (i < ELEM_LIMIT \<and> high = ELEM_LIMIT - 1)"
      and r: "(if i \<le> high then case bitset_set t i of None \<Rightarrow> None
        | Some (is_new, s) \<Rightarrow> f s ((i + 1) mod ELEM_LIMIT) high else Some t) = Some r"
    show "\<not> (i < ELEM_LIMIT \<and> high = ELEM_LIMIT - 1)"
      using r IH by (auto split: if_splits option.splits prod.splits)
  qed
  ultimately show ?thesis using assms(3)
    by (cases "set_range_from t low (ELEM_LIMIT - 1)")
      (auto simp: bitset_set_def bitset_clear_def bitset_set_range_def)
qed

theorem bitset_set_diverges_witness:
  "bitset_set demo_bitset (2 ^ 31) = None \<and> bitset_set_range demo_bitset 0 (ELEM_LIMIT - 1) = None"
  using bitset_set_diverges[of demo_bitset "2 ^ 31" 0 demo_bitset] demo_bitset_ok by simp

end
