(* ===== verification/Isba.thy ===== *)
theory Isba
  imports Prelude
begin

text \<open>
  The block allocator with stack regime of \<^verbatim>\<open>src/src/util-lib/is-balloc.c\<close>: a stack of arrays of
  \<^verbatim>\<open>el_size\<close> ints, kept in blocks of \<open>2 ^ 20\<close> elements. A block is the function from its offsets to
  its ints, where \<open>None\<close> is memory that was allocated and not yet written; a pointer into a block
  is the number of the block and an offset. The array of block pointers has room for
  \<^verbatim>\<open>cap_blocks\<close> pointers: \<^verbatim>\<open>max_blocks\<close> after its creation, but an eighth of it after
  \<^verbatim>\<open>RTrealloc\<close>, which is called with the number of pointers and not with their size.

  The interface \<open>elem_stack\<close> says what a stack of elements promises; it is interpreted by the
  allocator, and the frame stacks of \<^verbatim>\<open>dfs-stack.c\<close> are verified over it.
\<close>

section \<open>Model\<close>

definition INIT_MAX_BLOCKS :: nat where
  "INIT_MAX_BLOCKS = 1024 * 64"

definition BLOCK_ELT_SIZE :: nat where
  "BLOCK_ELT_SIZE = 2 ^ 20"

type_synonym block = "nat \<Rightarrow> int option"
type_synonym elem = "int option list"
type_synonym ptr = "nat \<times> nat"

record isba =
  el_size :: nat
  max_blocks :: nat
  cap_blocks :: nat
  num_block :: nat
  cur_index :: nat
  blocks :: "block list"

text \<open>The ints an \<^verbatim>\<open>int*\<close> of the allocator points to.\<close>

definition deref :: "isba \<Rightarrow> ptr \<Rightarrow> elem" where
  "deref buf p = (case p of (b, off) \<Rightarrow> map (blocks buf ! b) [off..<off + el_size buf])"

definition add_block :: "isba \<Rightarrow> isba result" where
  "add_block buf =
     (if num_block buf < cap_blocks buf
      then Inr (buf\<lparr>blocks := take (num_block buf) (blocks buf) @ [\<lambda>k. None],
                  num_block := num_block buf + 1, cur_index := 0\<rparr>)
      else Inl Bad_access)"

definition remove_block :: "isba \<Rightarrow> isba result" where
  "remove_block buf =
     (if num_block buf = 0 then Inl Bad_access
      else Inr (buf\<lparr>num_block := num_block buf - 1, blocks := take (num_block buf - 1) (blocks buf)\<rparr>))"

definition isba_create :: "nat \<Rightarrow> isba result" where
  "isba_create element_size =
     add_block \<lparr>el_size = element_size, max_blocks = INIT_MAX_BLOCKS, cap_blocks = INIT_MAX_BLOCKS,
       num_block = 0, cur_index = 0, blocks = []\<rparr>"

definition isba_elt_size :: "isba \<Rightarrow> nat" where
  "isba_elt_size buf = el_size buf"

fun remove_all :: "nat \<Rightarrow> isba \<Rightarrow> isba result" where
  "remove_all 0 buf = Inr buf"
| "remove_all (Suc n) buf = result_bind (remove_block buf) (remove_all n)"

text \<open>
  \<^verbatim>\<open>do {remove_block(buf);} while (buf->num_block > 0);\<close> removes one block and then as many as are left.
\<close>

definition isba_destroy :: "isba \<Rightarrow> isba result" where
  "isba_destroy buf = result_bind (remove_block buf) (\<lambda>b. remove_all (num_block b) b)"

text \<open>\<^verbatim>\<open>memcpy\<close> of \<^verbatim>\<open>el_size\<close> ints to an offset of a block.\<close>

definition write_elem :: "isba \<Rightarrow> ptr \<Rightarrow> int list \<Rightarrow> isba" where
  "write_elem buf p element = (case p of (b, off) \<Rightarrow>
     buf\<lparr>blocks := (blocks buf)[b := \<lambda>k. if off \<le> k \<and> k < off + el_size buf
        then Some (element ! (k - off)) else (blocks buf ! b) k]\<rparr>)"

definition isba_push_int :: "isba \<Rightarrow> int list option \<Rightarrow> (ptr \<times> isba) result" where
  "isba_push_int buf element =
     result_bind
       (if cur_index buf = BLOCK_ELT_SIZE
        then add_block (if num_block buf = max_blocks buf
               then buf\<lparr>max_blocks := max_blocks buf + INIT_MAX_BLOCKS,
                      cap_blocks := (max_blocks buf + INIT_MAX_BLOCKS) div 8\<rparr>
               else buf)
        else Inr buf)
       (\<lambda>buf. let p = (num_block buf - 1, cur_index buf * el_size buf)
          in if num_block buf = 0 \<or> BLOCK_ELT_SIZE \<le> cur_index buf then Inl Bad_access
             else case element of
               None \<Rightarrow> Inr (p, buf\<lparr>cur_index := cur_index buf + 1\<rparr>)
             | Some element \<Rightarrow> if length element < el_size buf then Inl Bad_access
                 else Inr (p, (write_elem buf p element)\<lparr>cur_index := cur_index buf + 1\<rparr>))"

definition isba_pop_int :: "isba \<Rightarrow> (ptr option \<times> isba) result" where
  "isba_pop_int buf =
     (if cur_index buf = 0 \<and> num_block buf = 1 then Inr (None, buf)
      else result_bind
        (if cur_index buf = 0
         then result_bind (remove_block buf) (\<lambda>buf. Inr (buf\<lparr>cur_index := BLOCK_ELT_SIZE\<rparr>))
         else Inr buf)
        (\<lambda>buf. let i = cur_index buf - 1
           in if num_block buf = 0 then Inl Bad_access
              else Inr (Some (num_block buf - 1, i * el_size buf), buf\<lparr>cur_index := i\<rparr>)))"

text \<open>\<^verbatim>\<open>size_t\<close> arithmetic, which wraps when there is no block left.\<close>

definition isba_size_int :: "isba \<Rightarrow> nat" where
  "isba_size_int buf =
     ((num_block buf + (SIZE_LIMIT - 1)) * BLOCK_ELT_SIZE + cur_index buf) mod SIZE_LIMIT"

definition isba_discard_int :: "isba \<Rightarrow> nat \<Rightarrow> isba result" where
  "isba_discard_int buf amount =
     (if cur_index buf < amount
      then let n = amount div BLOCK_ELT_SIZE
           in if num_block buf = 1 \<or> num_block buf \<le> n then Inl (Abort_msg ''Discard'')
              else result_bind (remove_all (n + 1) buf)
                (\<lambda>b. Inr (b\<lparr>cur_index := BLOCK_ELT_SIZE - amount mod BLOCK_ELT_SIZE + cur_index b\<rparr>))
      else Inr (buf\<lparr>cur_index := cur_index buf - amount\<rparr>))"

definition isba_top_int :: "isba \<Rightarrow> ptr result" where
  "isba_top_int buf =
     (if cur_index buf = 0
      then if num_block buf = 1 then Inl (Abort_msg ''Top on empty buffer'')
           else if num_block buf < 2 then Inl Bad_access
           else Inr (num_block buf - 2, (BLOCK_ELT_SIZE - 1) * el_size buf)
      else if num_block buf = 0 then Inl Bad_access
      else Inr (num_block buf - 1, (cur_index buf - 1) * el_size buf))"

definition isba_peek_int :: "isba \<Rightarrow> nat \<Rightarrow> ptr option" where
  "isba_peek_int buf offset_top =
     (let sz = isba_size_int buf
      in if sz \<le> offset_top then None
         else let newsize = sz - (offset_top + 1)
              in Some (newsize div BLOCK_ELT_SIZE, newsize mod BLOCK_ELT_SIZE * el_size buf))"

definition isba_index :: "isba \<Rightarrow> nat \<Rightarrow> ptr option" where
  "isba_index buf index =
     (let sz = isba_size_int buf
      in if sz \<le> index then None
         else Some (index div BLOCK_ELT_SIZE, index mod BLOCK_ELT_SIZE * el_size buf))"

section \<open>The interface of a stack of elements\<close>

text \<open>
  \<open>elems\<close> is the content from the bottom to the top, \<open>deref\<close> reads the element behind a pointer,
  \<open>fits\<close> says that a value can be pushed and \<open>disc\<close> that so many elements can be discarded at once.
\<close>

locale elem_stack =
  fixes inv :: "'s \<Rightarrow> bool"
    and elems :: "'s \<Rightarrow> 'e list"
    and width :: "'s \<Rightarrow> nat"
    and fits :: "'s \<Rightarrow> 'a \<Rightarrow> bool"
    and enc :: "'a \<Rightarrow> 'e"
    and deref :: "'s \<Rightarrow> 'p \<Rightarrow> 'e"
    and push :: "'s \<Rightarrow> 'a option \<Rightarrow> ('p \<times> 's) result"
    and pop :: "'s \<Rightarrow> ('p option \<times> 's) result"
    and top :: "'s \<Rightarrow> 'p result"
    and peek :: "'s \<Rightarrow> nat \<Rightarrow> 'p option"
    and disc :: "'s \<Rightarrow> nat \<Rightarrow> bool"
    and discard :: "'s \<Rightarrow> nat \<Rightarrow> 's result"
  assumes push_ok: "inv s \<Longrightarrow> fits s a \<Longrightarrow> \<exists>p t. push s (Some a) = Inr (p, t) \<and> inv t \<and> width t = width s
      \<and> elems t = elems s @ [enc a] \<and> deref t p = enc a"
    and pop_empty: "inv s \<Longrightarrow> elems s = [] \<Longrightarrow> pop s = Inr (None, s)"
    and pop_ok: "inv s \<Longrightarrow> elems s = xs @ [x] \<Longrightarrow> \<exists>p t. pop s = Inr (Some p, t) \<and> inv t \<and> width t = width s
      \<and> elems t = xs \<and> deref t p = x"
    and top_ok: "inv s \<Longrightarrow> elems s = xs @ [x] \<Longrightarrow> \<exists>p. top s = Inr p \<and> deref s p = x"
    and peek_ok: "inv s \<Longrightarrow> k < length (elems s) \<Longrightarrow> \<exists>p. peek s k = Some p \<and> deref s p = rev (elems s) ! k"
    and peek_None: "inv s \<Longrightarrow> length (elems s) \<le> k \<Longrightarrow> peek s k = None"
    and discard_ok: "inv s \<Longrightarrow> n \<le> length (elems s) \<Longrightarrow> disc s n \<Longrightarrow> \<exists>t. discard s n = Inr t \<and> inv t
      \<and> width t = width s \<and> elems t = take (length (elems s) - n) (elems s)"
begin

text \<open>What is pushed is on top, is popped again, and popping it restores the stack.\<close>

lemma push_pop:
  assumes "inv s" and "fits s a"
  shows "\<exists>p t q r u. push s (Some a) = Inr (p, t) \<and> top t = Inr q \<and> deref t q = enc a
    \<and> pop t = Inr (Some r, u) \<and> deref u r = enc a \<and> inv u \<and> elems u = elems s"
proof -
  obtain p t where t: "push s (Some a) = Inr (p, t)" "inv t" "elems t = elems s @ [enc a]"
    using push_ok[OF assms] by auto
  with top_ok[OF t(2,3)] pop_ok[OF t(2,3)] show ?thesis by auto
qed

lemma discard_append:
  assumes "inv s" and "elems s = xs @ ys" and "disc s (length ys)"
  shows "\<exists>t. discard s (length ys) = Inr t \<and> inv t \<and> width t = width s \<and> elems t = xs"
  using discard_ok[OF assms(1) _ assms(3)] assms(2) by simp

lemma peek_append:
  assumes "inv s" and "elems s = xs @ x # ys"
  shows "\<exists>p. peek s (length ys) = Some p \<and> deref s p = x"
  using peek_ok[OF assms(1), of "length ys"] assms(2) by (simp add: nth_append)

end

section \<open>Invariant and abstraction\<close>

definition isba_wf :: "isba \<Rightarrow> bool" where
  "isba_wf buf \<longleftrightarrow> 1 \<le> num_block buf \<and> num_block buf \<le> INIT_MAX_BLOCKS \<and> cur_index buf \<le> BLOCK_ELT_SIZE
     \<and> length (blocks buf) = num_block buf \<and> max_blocks buf = INIT_MAX_BLOCKS \<and> cap_blocks buf = INIT_MAX_BLOCKS"

definition stack_size :: "isba \<Rightarrow> nat" where
  "stack_size buf = (num_block buf - 1) * BLOCK_ELT_SIZE + cur_index buf"

definition slot :: "isba \<Rightarrow> nat \<Rightarrow> ptr" where
  "slot buf i = (i div BLOCK_ELT_SIZE, i mod BLOCK_ELT_SIZE * el_size buf)"

text \<open>The elements on the stack, from the bottom to the top.\<close>

definition isba_elems :: "isba \<Rightarrow> elem list" where
  "isba_elems buf = map (\<lambda>i. deref buf (slot buf i)) [0..<stack_size buf]"

lemma block_pos [simp]: "0 < BLOCK_ELT_SIZE"
  by (simp add: BLOCK_ELT_SIZE_def)

lemma block_nz [simp]: "BLOCK_ELT_SIZE \<noteq> 0"
  by (simp add: BLOCK_ELT_SIZE_def)

lemma slot_eq: "k < BLOCK_ELT_SIZE \<Longrightarrow> slot buf (a * BLOCK_ELT_SIZE + k) = (a, k * el_size buf)"
  by (simp add: slot_def)

lemma length_isba_elems [simp]: "length (isba_elems buf) = stack_size buf"
  by (simp add: isba_elems_def)

lemma stack_size_lt:
  assumes "isba_wf buf"
  shows "stack_size buf < SIZE_LIMIT"
proof -
  have "stack_size buf \<le> INIT_MAX_BLOCKS * BLOCK_ELT_SIZE + BLOCK_ELT_SIZE"
    using assms unfolding stack_size_def isba_wf_def by (intro add_mono mult_le_mono1) auto
  then show ?thesis unfolding INIT_MAX_BLOCKS_def BLOCK_ELT_SIZE_def by simp
qed

lemma isba_size_eq:
  assumes "isba_wf buf"
  shows "isba_size_int buf = stack_size buf"
proof -
  obtain n where n: "num_block buf = Suc n" using assms by (cases "num_block buf") (auto simp: isba_wf_def)
  have "(num_block buf + (SIZE_LIMIT - 1)) * BLOCK_ELT_SIZE + cur_index buf
      = stack_size buf + SIZE_LIMIT * BLOCK_ELT_SIZE"
    using n by (simp add: stack_size_def algebra_simps)
  with stack_size_lt[OF assms] show ?thesis by (simp add: isba_size_int_def)
qed

lemma nth_isba_elems: "i < stack_size buf \<Longrightarrow> isba_elems buf ! i = deref buf (slot buf i)"
  by (simp add: isba_elems_def)

lemma elems_take:
  assumes "stack_size b = m" and "m \<le> stack_size buf" and "el_size b = el_size buf"
    and "\<And>i. i < m \<Longrightarrow> blocks b ! (i div BLOCK_ELT_SIZE) = blocks buf ! (i div BLOCK_ELT_SIZE)"
  shows "isba_elems b = take m (isba_elems buf)"
  using assms by (auto simp: isba_elems_def slot_def deref_def take_map intro!: nth_equalityI)

lemma block_of_slot: "isba_wf buf \<Longrightarrow> i < stack_size buf \<Longrightarrow> i div BLOCK_ELT_SIZE < num_block buf"
  by (auto simp: stack_size_def isba_wf_def div_less_iff_less_mult algebra_simps
      dest!: le_Suc_ex)

lemma slot_top:
  "1 \<le> num_block buf \<Longrightarrow> cur_index buf < BLOCK_ELT_SIZE \<Longrightarrow>
   slot buf (stack_size buf) = (num_block buf - 1, cur_index buf * el_size buf)"
  by (simp add: slot_def stack_size_def)

section \<open>Blocks\<close>

lemma add_block_ok:
  assumes "isba_wf buf" and "cur_index buf = BLOCK_ELT_SIZE" and "num_block buf < INIT_MAX_BLOCKS"
  shows "\<exists>b. add_block buf = Inr b \<and> isba_wf b \<and> isba_elems b = isba_elems buf \<and> el_size b = el_size buf
    \<and> stack_size b = stack_size buf \<and> cur_index b = 0"
proof -
  let ?b = "buf\<lparr>blocks := take (num_block buf) (blocks buf) @ [\<lambda>k. None], num_block := num_block buf + 1, cur_index := 0\<rparr>"
  have sz: "stack_size ?b = stack_size buf"
    using assms by (cases "num_block buf") (auto simp: stack_size_def isba_wf_def)
  have "isba_elems ?b = take (stack_size buf) (isba_elems buf)"
    by (rule elems_take) (use sz assms block_of_slot[OF assms(1)] in \<open>auto simp: isba_wf_def nth_append\<close>)
  with sz assms show ?thesis by (auto simp: add_block_def isba_wf_def)
qed

lemma remove_all_eq:
  "n \<le> num_block buf \<Longrightarrow> length (blocks buf) = num_block buf \<Longrightarrow> remove_all n buf
    = Inr (buf\<lparr>num_block := num_block buf - n, blocks := take (num_block buf - n) (blocks buf)\<rparr>)"
proof (induction n arbitrary: buf)
  case (Suc n)
  have "remove_block buf = Inr (buf\<lparr>num_block := num_block buf - 1, blocks := take (num_block buf - 1) (blocks buf)\<rparr>)"
    using Suc.prems by (simp add: remove_block_def)
  then show ?case using Suc by (simp add: min_def)
qed simp

lemma cut_ok:
  assumes "isba_wf buf" and "1 \<le> n" and "n \<le> num_block buf" and "c \<le> BLOCK_ELT_SIZE"
    and "(n - 1) * BLOCK_ELT_SIZE + c \<le> stack_size buf"
  defines "b \<equiv> buf\<lparr>num_block := n, blocks := take n (blocks buf), cur_index := c\<rparr>"
  shows "isba_wf b" and "stack_size b = (n - 1) * BLOCK_ELT_SIZE + c"
    and "isba_elems b = take ((n - 1) * BLOCK_ELT_SIZE + c) (isba_elems buf)"
proof -
  show wf: "isba_wf b" using assms by (auto simp: isba_wf_def)
  show sz: "stack_size b = (n - 1) * BLOCK_ELT_SIZE + c" by (simp add: b_def stack_size_def)
  show "isba_elems b = take ((n - 1) * BLOCK_ELT_SIZE + c) (isba_elems buf)"
    by (rule elems_take[OF sz assms(5)]) (use block_of_slot[OF wf] sz in \<open>auto simp: b_def\<close>)
qed

section \<open>The operations refine a stack\<close>

lemma isba_create_ok:
  "\<exists>b. isba_create n = Inr b \<and> isba_wf b \<and> isba_elems b = [] \<and> el_size b = n"
  by (simp add: isba_create_def add_block_def isba_wf_def isba_elems_def stack_size_def INIT_MAX_BLOCKS_def)

lemma write_other:
  assumes "i < n"
  shows "deref (write_elem buf (slot buf n) e) (slot buf i) = deref buf (slot buf i)"
proof (cases "i div BLOCK_ELT_SIZE = n div BLOCK_ELT_SIZE \<and> n div BLOCK_ELT_SIZE < length (blocks buf)")
  case True
  have "i mod BLOCK_ELT_SIZE < n mod BLOCK_ELT_SIZE"
    using assms True by (metis div_mult_mod_eq nat_add_left_cancel_less)
  then have "i mod BLOCK_ELT_SIZE * el_size buf + el_size buf \<le> n mod BLOCK_ELT_SIZE * el_size buf"
    using mult_le_mono1[of "Suc (i mod BLOCK_ELT_SIZE)" "n mod BLOCK_ELT_SIZE" "el_size buf"] by simp
  with True show ?thesis by (auto simp: deref_def write_elem_def slot_def)
next
  case False
  then show ?thesis
    by (cases "n div BLOCK_ELT_SIZE < length (blocks buf)")
      (auto simp: deref_def write_elem_def slot_def list_update_beyond)
qed

lemma write_same:
  assumes "n div BLOCK_ELT_SIZE < length (blocks buf)" and "length e = el_size buf"
  shows "deref (write_elem buf (slot buf n) e) (slot buf n) = map Some e"
  using assms by (auto simp: deref_def write_elem_def slot_def intro!: nth_equalityI)

lemma push_here:
  assumes "isba_wf buf" and "cur_index buf < BLOCK_ELT_SIZE" and "length e = el_size buf"
  defines "b \<equiv> (write_elem buf (slot buf (stack_size buf)) e)\<lparr>cur_index := cur_index buf + 1\<rparr>"
  shows "isba_wf b" and "el_size b = el_size buf" and "isba_elems b = isba_elems buf @ [map Some e]"
    and "deref b (slot buf (stack_size buf)) = map Some e"
proof -
  let ?n = "stack_size buf" and ?w = "write_elem buf (slot buf (stack_size buf)) e"
  have same: "deref b q = deref ?w q" "slot b i = slot buf i" for q i
    by (simp_all add: b_def deref_def slot_def write_elem_def split: prod.split)
  show "isba_wf b" "el_size b = el_size buf" using assms
    by (simp_all add: isba_wf_def b_def write_elem_def slot_def)
  have sz: "stack_size b = Suc ?n" by (simp add: b_def stack_size_def write_elem_def slot_def)
  have "fst (slot buf ?n) < length (blocks buf)"
    using slot_top[of buf] assms by (simp add: isba_wf_def)
  then have new: "deref ?w (slot buf ?n) = map Some e"
    using assms(3) by (intro write_same) (auto simp: slot_def)
  then show "deref b (slot buf ?n) = map Some e" by (simp add: same)
  show "isba_elems b = isba_elems buf @ [map Some e]"
    unfolding isba_elems_def sz by (simp add: same new write_other cong: map_cong)
qed

lemma isba_push_ok:
  assumes "isba_wf buf" and "stack_size buf < INIT_MAX_BLOCKS * BLOCK_ELT_SIZE" and "length e = el_size buf"
  shows "\<exists>p b. isba_push_int buf (Some e) = Inr (p, b) \<and> isba_wf b \<and> el_size b = el_size buf
    \<and> isba_elems b = isba_elems buf @ [map Some e] \<and> deref b p = map Some e"
proof -
  have push: "\<exists>p b'. isba_push_int b (Some e) = Inr (p, b') \<and> isba_wf b' \<and> el_size b' = el_size buf
      \<and> isba_elems b' = isba_elems buf @ [map Some e] \<and> deref b' p = map Some e"
    if b: "isba_wf b" "cur_index b < BLOCK_ELT_SIZE" "el_size b = el_size buf" "isba_elems b = isba_elems buf" for b
    using push_here[OF b(1,2), of e] b slot_top[of b] assms(3)
    by (auto simp: isba_push_int_def isba_wf_def Let_def)
  show ?thesis
  proof (cases "cur_index buf < BLOCK_ELT_SIZE")
    case True
    with push assms show ?thesis by simp
  next
    case False
    then have full: "cur_index buf = BLOCK_ELT_SIZE" using assms by (simp add: isba_wf_def)
    have "num_block buf * BLOCK_ELT_SIZE = stack_size buf"
      using full assms(1) by (cases "num_block buf") (auto simp: stack_size_def isba_wf_def)
    with assms(2) have "num_block buf < INIT_MAX_BLOCKS" by (metis mult_less_cancel2)
    from add_block_ok[OF assms(1) full this] obtain b where
      b: "add_block buf = Inr b" "isba_wf b" "isba_elems b = isba_elems buf" "el_size b = el_size buf" "cur_index b = 0"
      by auto
    have "num_block buf \<noteq> max_blocks buf" using \<open>num_block buf < INIT_MAX_BLOCKS\<close> assms(1) by (simp add: isba_wf_def)
    then have "isba_push_int buf (Some e) = isba_push_int b (Some e)"
      using b full by (simp add: isba_push_int_def)
    with push[OF b(2) _ b(4,3)] b(5) show ?thesis by simp
  qed
qed

lemma stack_size_pos:
  assumes "isba_wf buf" and "stack_size buf \<noteq> 0"
  shows "cur_index buf = 0 \<Longrightarrow> 2 \<le> num_block buf"
  using assms by (cases "num_block buf = 1") (auto simp: stack_size_def isba_wf_def)

lemma slot_last:
  assumes "isba_wf buf" and "stack_size buf = Suc n"
  shows "slot buf n = (if cur_index buf = 0 then (num_block buf - 2, (BLOCK_ELT_SIZE - 1) * el_size buf)
    else (num_block buf - 1, (cur_index buf - 1) * el_size buf))"
proof (cases "cur_index buf = 0")
  case True
  then obtain m where "num_block buf = Suc (Suc m)"
    using stack_size_pos[OF assms(1)] assms(2) by (metis Suc_le_D Suc_le_mono nat.distinct(1) numeral_2_eq_2)
  with True assms have "n = m * BLOCK_ELT_SIZE + (BLOCK_ELT_SIZE - 1)"
    using block_pos by (simp add: stack_size_def del: block_pos)
  with True \<open>num_block buf = Suc (Suc m)\<close> show ?thesis by (simp add: slot_def)
next
  case False
  then have "n = (num_block buf - 1) * BLOCK_ELT_SIZE + (cur_index buf - 1)"
    "cur_index buf - 1 < BLOCK_ELT_SIZE"
    using assms by (auto simp: stack_size_def isba_wf_def)
  with False show ?thesis using slot_eq[of "cur_index buf - 1" buf "num_block buf - 1"] by simp
qed

lemma isba_top_ok:
  assumes "isba_wf buf" and "isba_elems buf = xs @ [x]"
  shows "\<exists>p. isba_top_int buf = Inr p \<and> deref buf p = x"
proof -
  have sz: "stack_size buf = Suc (length xs)" using assms(2) by (metis length_append_singleton length_isba_elems)
  have "deref buf (slot buf (length xs)) = x"
    using nth_isba_elems[of "length xs" buf] sz assms(2) by simp
  moreover have "isba_top_int buf = Inr (slot buf (length xs))"
    using slot_last[OF assms(1) sz] stack_size_pos[OF assms(1)] sz assms(1)
    by (cases "cur_index buf = 0") (auto simp: isba_top_int_def isba_wf_def)
  ultimately show ?thesis by blast
qed

lemma isba_pop_ok:
  assumes "isba_wf buf" and "isba_elems buf = xs @ [x]"
  shows "\<exists>p b. isba_pop_int buf = Inr (Some p, b) \<and> isba_wf b \<and> el_size b = el_size buf
    \<and> isba_elems b = xs \<and> deref b p = x"
proof -
  have sz: "stack_size buf = Suc (length xs)" using assms(2) by (metis length_append_singleton length_isba_elems)
  have top: "deref buf (slot buf (length xs)) = x"
    using nth_isba_elems[of "length xs" buf] sz assms(2) by simp
  define n c where "n = (if cur_index buf = 0 then num_block buf - 1 else num_block buf)"
    and "c = (if cur_index buf = 0 then BLOCK_ELT_SIZE else cur_index buf) - 1"
  let ?b = "buf\<lparr>num_block := n, blocks := take n (blocks buf), cur_index := c\<rparr>"
  have n: "1 \<le> n" "n \<le> num_block buf" "c \<le> BLOCK_ELT_SIZE"
    using assms(1) stack_size_pos[OF assms(1)] sz by (auto simp: n_def c_def isba_wf_def)
  have slot: "slot buf (length xs) = (n - 1, c * el_size buf)"
    using slot_last[OF assms(1) sz] by (simp add: n_def c_def numeral_2_eq_2)
  have len: "(n - 1) * BLOCK_ELT_SIZE + c = length xs"
  proof (cases "cur_index buf = 0")
    case True
    then obtain m where "num_block buf = Suc (Suc m)"
      using stack_size_pos[OF assms(1)] sz by (metis Suc_le_D Suc_le_mono nat.distinct(1) numeral_2_eq_2)
    with True sz show ?thesis using block_pos by (simp add: n_def c_def stack_size_def del: block_pos)
  qed (use sz in \<open>simp add: n_def c_def stack_size_def\<close>)
  have cut: "isba_wf ?b" "isba_elems ?b = xs"
    using cut_ok(1,3)[OF assms(1) n] len sz assms(2) by simp_all
  have "isba_pop_int buf = Inr (Some (slot buf (length xs)), ?b)"
    using n assms(1) stack_size_pos[OF assms(1)] sz unfolding slot
    by (auto simp: isba_pop_int_def remove_block_def n_def c_def isba_wf_def Let_def)
  moreover have "deref ?b (slot buf (length xs)) = x"
    using top n(1) by (simp add: deref_def slot)
  ultimately show ?thesis using cut by auto
qed

lemma isba_pop_empty:
  assumes "isba_wf buf" and "isba_elems buf = []"
  shows "isba_pop_int buf = Inr (None, buf)"
proof -
  have "stack_size buf = 0" using assms(2) by (metis length_isba_elems list.size(3))
  then have "cur_index buf = 0" "num_block buf - 1 = 0"
    using block_pos by (simp_all add: stack_size_def del: block_pos)
  with assms(1) have "num_block buf = 1" by (simp add: isba_wf_def)
  with \<open>cur_index buf = 0\<close> show ?thesis by (simp add: isba_pop_int_def)
qed

lemma isba_peek_eq:
  assumes "isba_wf buf"
  shows "isba_peek_int buf k = (if k < stack_size buf then Some (slot buf (stack_size buf - Suc k)) else None)"
    and "isba_index buf k = (if k < stack_size buf then Some (slot buf k) else None)"
  by (simp_all add: isba_peek_int_def isba_index_def isba_size_eq[OF assms] slot_def Let_def)

lemma isba_discard_ok:
  assumes "isba_wf buf" and "n \<le> stack_size buf" and "n \<le> cur_index buf \<or> cur_index buf < n mod BLOCK_ELT_SIZE"
  shows "\<exists>b. isba_discard_int buf n = Inr b \<and> isba_wf b \<and> el_size b = el_size buf
    \<and> isba_elems b = take (stack_size buf - n) (isba_elems buf)"
proof (cases "n \<le> cur_index buf")
  case True
  have b: "1 \<le> num_block buf" "length (blocks buf) = num_block buf" "cur_index buf - n \<le> BLOCK_ELT_SIZE"
    using assms(1) by (auto simp: isba_wf_def)
  have "isba_discard_int buf n = Inr (buf\<lparr>num_block := num_block buf, blocks := take (num_block buf) (blocks buf),
      cur_index := cur_index buf - n\<rparr>)"
    using True b by (simp add: isba_discard_int_def)
  then show ?thesis
    using cut_ok[OF assms(1) b(1) _ b(3)] True by (simp add: stack_size_def)
next
  case False
  let ?q = "n div BLOCK_ELT_SIZE" and ?r = "n mod BLOCK_ELT_SIZE"
  have r: "cur_index buf < ?r" using assms(3) False by simp
  have n: "n = ?q * BLOCK_ELT_SIZE + ?r" by simp
  have "?q < num_block buf - 1"
  proof (rule ccontr)
    assume "\<not> ?q < num_block buf - 1"
    then have "(num_block buf - 1) * BLOCK_ELT_SIZE \<le> ?q * BLOCK_ELT_SIZE" by simp
    then show False using assms(2) n r unfolding stack_size_def by linarith
  qed
  then obtain m where m: "num_block buf = Suc (Suc m) + ?q"
    by (metis add.commute add_Suc_right less_imp_Suc_add less_diff_conv plus_1_eq_Suc)
  let ?c = "BLOCK_ELT_SIZE - ?r + cur_index buf"
  let ?b = "buf\<lparr>num_block := Suc m, blocks := take (Suc m) (blocks buf), cur_index := ?c\<rparr>"
  have rlt: "?r < BLOCK_ELT_SIZE" by simp
  have c: "?c \<le> BLOCK_ELT_SIZE" using r rlt by linarith
  have "stack_size buf = m * BLOCK_ELT_SIZE + BLOCK_ELT_SIZE + ?q * BLOCK_ELT_SIZE + cur_index buf"
    using m by (simp add: stack_size_def algebra_simps)
  then have left: "m * BLOCK_ELT_SIZE + ?c = stack_size buf - n" using n r rlt by linarith
  have "remove_all (?q + 1) buf = Inr (buf\<lparr>num_block := Suc m, blocks := take (Suc m) (blocks buf)\<rparr>)"
    using remove_all_eq[of "?q + 1" buf] m assms(1) by (simp add: isba_wf_def)
  then have "isba_discard_int buf n = Inr ?b"
    using False m by (simp add: isba_discard_int_def Let_def)
  moreover have "isba_wf ?b" "isba_elems ?b = take (stack_size buf - n) (isba_elems buf)"
    using cut_ok[OF assms(1), of "Suc m" ?c] m c left assms(2) by simp_all
  ultimately show ?thesis by simp
qed

interpretation ib: elem_stack isba_wf isba_elems el_size
  "\<lambda>s e. stack_size s < INIT_MAX_BLOCKS * BLOCK_ELT_SIZE \<and> length e = el_size s" "map Some" deref
  isba_push_int isba_pop_int isba_top_int isba_peek_int
  "\<lambda>s n. n \<le> cur_index s \<or> cur_index s < n mod BLOCK_ELT_SIZE" isba_discard_int
proof (unfold_locales, goal_cases)
  case (1 s a)
  then show ?case using isba_push_ok by blast
next
  case (2 s)
  then show ?case by (rule isba_pop_empty)
next
  case (3 s xs x)
  then show ?case by (rule isba_pop_ok)
next
  case (4 s xs x)
  then show ?case by (rule isba_top_ok)
next
  case (5 s k)
  then show ?case by (simp add: isba_peek_eq nth_isba_elems rev_nth)
next
  case (6 s k)
  then show ?case by (simp add: isba_peek_eq)
next
  case (7 s n)
  then show ?case using isba_discard_ok by simp
qed

section \<open>Properties\<close>

text \<open>
  C32. The allocator refines a stack of elements. A new buffer is the empty stack. On a well-formed
  buffer with a free slot, pushing an array of \<^verbatim>\<open>el_size\<close> ints appends it and returns a pointer to it;
  popping and \<^verbatim>\<open>isba_top_int\<close> return a pointer to the last element, which popping removes (an empty
  stack gives \<^verbatim>\<open>NULL\<close>); \<^verbatim>\<open>isba_peek_int\<close> and \<^verbatim>\<open>isba_index\<close> count from the top and from the bottom and
  give \<^verbatim>\<open>NULL\<close> out of range; discarding fewer elements than a block holds removes that many from the
  top; and every operation keeps the buffer well-formed.
\<close>

theorem isba_refines_stack:
  assumes "isba_wf buf" and "stack_size buf < INIT_MAX_BLOCKS * BLOCK_ELT_SIZE" and "length e = el_size buf"
    and "n \<le> stack_size buf" and "n < BLOCK_ELT_SIZE"
  shows "(\<exists>b. isba_create w = Inr b \<and> isba_wf b \<and> isba_elems b = [] \<and> isba_elt_size b = w)
    \<and> isba_size_int buf = length (isba_elems buf)
    \<and> (\<exists>p b. isba_push_int buf (Some e) = Inr (p, b) \<and> isba_wf b \<and> isba_elems b = isba_elems buf @ [map Some e]
          \<and> deref b p = map Some e)
    \<and> (if isba_elems buf = [] then isba_pop_int buf = Inr (None, buf)
       else \<exists>p q b. isba_pop_int buf = Inr (Some p, b) \<and> isba_wf b \<and> isba_elems b = butlast (isba_elems buf)
          \<and> deref b p = last (isba_elems buf) \<and> isba_top_int buf = Inr q \<and> deref buf q = last (isba_elems buf))
    \<and> map_option (deref buf) (isba_peek_int buf k)
       = (if k < length (isba_elems buf) then Some (rev (isba_elems buf) ! k) else None)
    \<and> map_option (deref buf) (isba_index buf k)
       = (if k < length (isba_elems buf) then Some (isba_elems buf ! k) else None)
    \<and> (\<exists>b. isba_discard_int buf n = Inr b \<and> isba_wf b
          \<and> isba_elems b = take (length (isba_elems buf) - n) (isba_elems buf))"
proof (intro conjI)
  show "\<exists>b. isba_create w = Inr b \<and> isba_wf b \<and> isba_elems b = [] \<and> isba_elt_size b = w"
    using isba_create_ok[of w] by (auto simp: isba_elt_size_def)
  show "isba_size_int buf = length (isba_elems buf)" using assms(1) by (simp add: isba_size_eq)
  show "\<exists>p b. isba_push_int buf (Some e) = Inr (p, b) \<and> isba_wf b \<and> isba_elems b = isba_elems buf @ [map Some e]
      \<and> deref b p = map Some e"
    using isba_push_ok[OF assms(1-3)] by blast
  show "if isba_elems buf = [] then isba_pop_int buf = Inr (None, buf)
     else \<exists>p q b. isba_pop_int buf = Inr (Some p, b) \<and> isba_wf b \<and> isba_elems b = butlast (isba_elems buf)
        \<and> deref b p = last (isba_elems buf) \<and> isba_top_int buf = Inr q \<and> deref buf q = last (isba_elems buf)"
  proof (cases "isba_elems buf" rule: rev_cases)
    case Nil
    then show ?thesis using ib.pop_empty[OF assms(1)] by simp
  next
    case (snoc xs x)
    then show ?thesis using ib.pop_ok[OF assms(1) snoc] ib.top_ok[OF assms(1) snoc] by auto
  qed
  show "map_option (deref buf) (isba_peek_int buf k)
      = (if k < length (isba_elems buf) then Some (rev (isba_elems buf) ! k) else None)"
    by (simp add: isba_peek_eq[OF assms(1)] nth_isba_elems rev_nth)
  show "map_option (deref buf) (isba_index buf k)
      = (if k < length (isba_elems buf) then Some (isba_elems buf ! k) else None)"
    by (simp add: isba_peek_eq[OF assms(1)] nth_isba_elems)
  show "\<exists>b. isba_discard_int buf n = Inr b \<and> isba_wf b
      \<and> isba_elems b = take (length (isba_elems buf) - n) (isba_elems buf)"
    using isba_discard_ok[OF assms(1,4)] assms(5) by (cases "n \<le> cur_index buf") auto
qed

theorem isba_refines_stack_witness:
  "\<exists>b0 p b1 q b2. isba_create 2 = Inr b0 \<and> isba_push_int b0 (Some [7, 8]) = Inr (p, b1)
    \<and> isba_elems b1 = [[Some 7, Some 8]] \<and> isba_pop_int b1 = Inr (Some q, b2) \<and> deref b2 q = [Some 7, Some 8]
    \<and> isba_elems b2 = []"
proof -
  obtain b0 where b0: "isba_create 2 = Inr b0" "isba_wf b0" "isba_elems b0 = []" "el_size b0 = 2"
    using isba_create_ok by blast
  have sz: "stack_size b0 = 0" using b0(3) by (metis length_isba_elems list.size(3))
  have "\<exists>p b. isba_push_int b0 (Some [7, 8]) = Inr (p, b) \<and> isba_wf b \<and> isba_elems b = isba_elems b0 @ [map Some [7, 8]]"
  proof -
    have "stack_size b0 < INIT_MAX_BLOCKS * BLOCK_ELT_SIZE" "length [7, 8 :: int] = el_size b0"
      using sz b0(4) by (simp_all add: INIT_MAX_BLOCKS_def)
    from isba_refines_stack[OF b0(2) this, where n = 0 and k = 0 and w = 2] show ?thesis by auto
  qed
  with b0(3) obtain p b1 where b1: "isba_push_int b0 (Some [7, 8]) = Inr (p, b1)" "isba_wf b1" "isba_elems b1 = [[Some 7, Some 8]]"
    by auto
  from ib.pop_ok[OF b1(2), of "[]"] b1(3) obtain q b2 where
    "isba_pop_int b1 = Inr (Some q, b2)" "isba_elems b2 = []" "deref b2 q = [Some 7, Some 8]" by auto
  with b0 b1 show ?thesis by blast
qed

text \<open>
  Discarding more elements than a block holds, with a remainder below the fill of the top block,
  removes one block too many: the fill index leaves the block and the next push writes behind it.
\<close>

lemma isba_discard_overruns:
  assumes "isba_wf buf" and "n \<le> stack_size buf" and "cur_index buf < n" and "n mod BLOCK_ELT_SIZE < cur_index buf"
    and "cur_index buf < BLOCK_ELT_SIZE"
  shows "\<exists>b. isba_discard_int buf n = Inr b \<and> BLOCK_ELT_SIZE < cur_index b \<and> isba_push_int b e = Inl Bad_access"
proof -
  let ?q = "n div BLOCK_ELT_SIZE" and ?r = "n mod BLOCK_ELT_SIZE"
  have q: "1 \<le> ?q"
  proof (rule ccontr)
    assume "\<not> 1 \<le> ?q"
    then have "?q = 0" by linarith
    then have "n < BLOCK_ELT_SIZE" by (simp add: div_eq_0_iff)
    with assms(3,4) show False by simp
  qed
  obtain m where m: "num_block buf = Suc m" using assms(1) by (cases "num_block buf") (auto simp: isba_wf_def)
  have "n < num_block buf * BLOCK_ELT_SIZE"
    using assms(2,5) m by (simp add: stack_size_def)
  then have lt: "?q < num_block buf" by (simp add: div_less_iff_less_mult)
  have "remove_all (?q + 1) buf = Inr (buf\<lparr>num_block := num_block buf - (?q + 1),
      blocks := take (num_block buf - (?q + 1)) (blocks buf)\<rparr>)"
    using lt assms(1) by (intro remove_all_eq) (auto simp: isba_wf_def)
  moreover have "num_block buf \<noteq> 1" "\<not> num_block buf \<le> ?q" using q lt by linarith+
  ultimately have "isba_discard_int buf n = Inr (buf\<lparr>num_block := num_block buf - (?q + 1),
      blocks := take (num_block buf - (?q + 1)) (blocks buf), cur_index := BLOCK_ELT_SIZE - ?r + cur_index buf\<rparr>)"
    using assms(3) by (simp add: isba_discard_int_def Let_def)
  moreover have "BLOCK_ELT_SIZE < BLOCK_ELT_SIZE - ?r + cur_index buf"
    using assms(4) mod_less_divisor[OF block_pos, of n] by linarith
  ultimately show ?thesis by (auto simp: isba_push_int_def Let_def)
qed

end
