(* ===== verification/Dfs_Stack.thy ===== *)
theory Dfs_Stack
  imports Isba
begin

text \<open>
  The frame stack of \<^verbatim>\<open>src/src/util-lib/dfs-stack.c\<close>: a stack of states that a depth-first search
  divides into frames, and a stack with the size and the bottom of every frame below the current
  one. Elements popped from the bottom of a frame stay in memory and are only counted in
  \<^verbatim>\<open>frame_bottom\<close>. The model is over the operations of \<open>Isba\<close>; the proofs use only what the
  interface \<open>elem_stack\<close> promises of them.
\<close>

section \<open>Model\<close>

record dfs_stack =
  states :: isba
  frames :: isba
  frame_size :: int
  frame_bottom :: int
  nframes :: nat

definition dfs_stack_create :: "nat \<Rightarrow> dfs_stack result" where
  "dfs_stack_create element_size =
     result_bind (isba_create element_size) (\<lambda>st. result_bind (isba_create 2) (\<lambda>fr.
       Inr \<lparr>states = st, frames = fr, frame_size = 0, frame_bottom = 0, nframes = 0\<rparr>))"

definition dfs_stack_nframes :: "dfs_stack \<Rightarrow> nat" where
  "dfs_stack_nframes stack = nframes stack"

text \<open>The difference is converted to \<^verbatim>\<open>size_t\<close>.\<close>

definition dfs_stack_frame_size :: "dfs_stack \<Rightarrow> nat" where
  "dfs_stack_frame_size stack = nat ((frame_size stack - frame_bottom stack) mod 2 ^ 64)"

definition dfs_stack_size :: "dfs_stack \<Rightarrow> nat" where
  "dfs_stack_size stack = isba_size_int (states stack)"

text \<open>An \<^verbatim>\<open>int\<close> passed as a \<^verbatim>\<open>size_t\<close>.\<close>

definition to_size :: "int \<Rightarrow> nat" where
  "to_size i = nat (i mod 2 ^ 64)"

definition clean_frame :: "dfs_stack \<Rightarrow> dfs_stack result" where
  "clean_frame stack =
     (if frame_bottom stack \<noteq> 0
      then result_bind (isba_discard_int (states stack) (to_size (frame_bottom stack)))
        (\<lambda>st. Inr (stack\<lparr>states := st, frame_bottom := 0, frame_size := 0\<rparr>))
      else Inr stack)"

definition dfs_stack_enter :: "dfs_stack \<Rightarrow> dfs_stack result" where
  "dfs_stack_enter stack =
     (if frame_size stack = frame_bottom stack then Inl (Abort_msg ''Enter on empty frame'')
      else result_bind (isba_push_int (frames stack) (Some [frame_size stack, frame_bottom stack]))
        (\<lambda>(p, fr). Inr (stack\<lparr>frames := fr, frame_size := 0, frame_bottom := 0, nframes := nframes stack + 1\<rparr>)))"

text \<open>An \<^verbatim>\<open>int\<close> read through a pointer; reading memory that was never written is undefined.\<close>

definition read_int :: "isba \<Rightarrow> ptr \<Rightarrow> nat \<Rightarrow> int result" where
  "read_int buf p k =
     (if k < length (deref buf p) then (case deref buf p ! k of Some v \<Rightarrow> Inr v | None \<Rightarrow> Inl Bad_access)
      else Inl Bad_access)"

definition dfs_stack_leave :: "dfs_stack \<Rightarrow> dfs_stack result" where
  "dfs_stack_leave stack =
     (if nframes stack = 0 then Inl (Abort_msg ''Leave on empty stack'')
      else result_bind (isba_discard_int (states stack) (to_size (frame_size stack))) (\<lambda>st.
        result_bind (isba_top_int (frames stack)) (\<lambda>top.
        result_bind (read_int (frames stack) top 0) (\<lambda>sz.
        result_bind (read_int (frames stack) top 1) (\<lambda>bt.
        result_bind (isba_pop_int (frames stack)) (\<lambda>(p, fr).
          Inr (stack\<lparr>states := st, frames := fr, frame_size := sz, frame_bottom := bt,
                 nframes := nframes stack - 1\<rparr>)))))))"

definition dfs_stack_push :: "dfs_stack \<Rightarrow> int list option \<Rightarrow> (ptr \<times> dfs_stack) result" where
  "dfs_stack_push stack state =
     result_bind (isba_push_int (states stack) state)
       (\<lambda>(p, st). Inr (p, stack\<lparr>frame_size := frame_size stack + 1, states := st\<rparr>))"

definition dfs_stack_pop :: "dfs_stack \<Rightarrow> (ptr option \<times> dfs_stack) result" where
  "dfs_stack_pop stack =
     (if frame_size stack = frame_bottom stack
      then result_bind (clean_frame stack) (\<lambda>stack. Inr (None, stack))
      else result_bind (isba_pop_int (states stack))
        (\<lambda>(p, st). Inr (p, stack\<lparr>frame_size := frame_size stack - 1, states := st\<rparr>)))"

definition dfs_stack_top :: "dfs_stack \<Rightarrow> (ptr option \<times> dfs_stack) result" where
  "dfs_stack_top stack =
     (if frame_size stack = frame_bottom stack
      then result_bind (clean_frame stack) (\<lambda>stack. Inr (None, stack))
      else result_bind (isba_top_int (states stack)) (\<lambda>p. Inr (Some p, stack)))"

text \<open>The loop of \<^verbatim>\<open>dfs_stack_peek_top2\<close> over the frames; dereferencing \<^verbatim>\<open>NULL\<close> is a bad access.\<close>

definition peek_frame :: "dfs_stack \<Rightarrow> nat \<Rightarrow> int result" where
  "peek_frame stack i = (case isba_peek_int (frames stack) i of
     None \<Rightarrow> Inl Bad_access | Some p \<Rightarrow> read_int (frames stack) p 0)"

definition dfs_stack_peek_top2 :: "dfs_stack \<Rightarrow> nat \<Rightarrow> nat \<Rightarrow> ptr option result" where
  "dfs_stack_peek_top2 stack frame_offset o' =
     (if frame_offset = 0 \<and> frame_size stack = frame_bottom stack
      then Inl (Abort_msg ''Peek top on empty frame'')
      else result_bind
        (fold_result (\<lambda>x off. result_bind (peek_frame stack (x - 1)) (\<lambda>sz. Inr (off + sz)))
           [1..<frame_offset] (if frame_offset \<noteq> 0 then frame_size stack else 0))
        (\<lambda>offset. Inr (isba_peek_int (states stack) (to_size (offset + int o')))))"

definition dfs_stack_peek_top :: "dfs_stack \<Rightarrow> nat \<Rightarrow> ptr option result" where
  "dfs_stack_peek_top stack frame_offset = dfs_stack_peek_top2 stack frame_offset 0"

definition dfs_stack_peek :: "dfs_stack \<Rightarrow> nat \<Rightarrow> ptr option" where
  "dfs_stack_peek stack offset = isba_peek_int (states stack) offset"

definition dfs_stack_index :: "dfs_stack \<Rightarrow> nat \<Rightarrow> ptr option" where
  "dfs_stack_index stack index = isba_index (states stack) index"

text \<open>
  The loop of \<^verbatim>\<open>dfs_stack_discard\<close>; every iteration leaves a frame, and without a frame leaving aborts,
  so that it makes at most \<^verbatim>\<open>nframes + 1\<close> iterations.
\<close>

fun discard_frames :: "nat \<Rightarrow> dfs_stack \<Rightarrow> nat \<Rightarrow> (dfs_stack \<times> nat) result" where
  "discard_frames fuel stack num =
     (let sz = dfs_stack_frame_size stack
      in if sz < num
         then case fuel of 0 \<Rightarrow> Inl Diverges
              | Suc fuel' \<Rightarrow> result_bind (dfs_stack_leave stack) (\<lambda>stack. discard_frames fuel' stack (num - sz))
         else Inr (stack, num))"

declare discard_frames.simps [simp del]

definition dfs_stack_discard :: "dfs_stack \<Rightarrow> nat \<Rightarrow> dfs_stack result" where
  "dfs_stack_discard stack num =
     result_bind (discard_frames (nframes stack + 1) stack num) (\<lambda>(stack, num).
     result_bind (isba_discard_int (states stack) num) (\<lambda>st.
       Inr (stack\<lparr>states := st, frame_size := frame_size stack - int num\<rparr>)))"

definition dfs_stack_clear :: "dfs_stack \<Rightarrow> dfs_stack result" where
  "dfs_stack_clear stack =
     result_bind (isba_discard_int (states stack) (isba_size_int (states stack))) (\<lambda>st.
     result_bind (isba_discard_int (frames stack) (isba_size_int (frames stack))) (\<lambda>fr.
       Inr \<lparr>states = st, frames = fr, frame_size = 0, frame_bottom = 0, nframes = 0\<rparr>))"

definition dfs_stack_bottom :: "dfs_stack \<Rightarrow> (ptr option \<times> dfs_stack) result" where
  "dfs_stack_bottom stack =
     (if frame_size stack = frame_bottom stack
      then result_bind (clean_frame stack) (\<lambda>stack. Inr (None, stack))
      else Inr (isba_peek_int (states stack) (to_size (frame_size stack - frame_bottom stack - 1)), stack))"

definition dfs_stack_pop_bottom :: "dfs_stack \<Rightarrow> (ptr option \<times> dfs_stack) result" where
  "dfs_stack_pop_bottom stack =
     (if frame_size stack = frame_bottom stack then Inl (Abort_msg ''pop bottom empty frame'')
      else let stack = stack\<lparr>frame_bottom := frame_bottom stack + 1\<rparr>
           in Inr (isba_peek_int (states stack) (to_size (frame_size stack - frame_bottom stack)), stack))"

text \<open>
  The walks call a callback on a pointer and a context until it returns \<open>0\<close>. Without frames
  \<^verbatim>\<open>nframes-1\<close> wraps around.
\<close>

definition wrap_pred :: "nat \<Rightarrow> nat" where
  "wrap_pred n = (n + (SIZE_LIMIT - 1)) mod SIZE_LIMIT"

function walk_up_loop :: "(ptr option \<Rightarrow> 'c \<Rightarrow> bool \<times> 'c) \<Rightarrow> dfs_stack \<Rightarrow> nat \<Rightarrow> int \<Rightarrow> bool \<Rightarrow> 'c \<Rightarrow> 'c result" where
  "walk_up_loop cb stack i offset res ctx =
     (if i < wrap_pred (nframes stack) \<and> res
      then result_bind (peek_frame stack i) (\<lambda>sz. let offset = offset + sz;
             (res, ctx) = cb (isba_peek_int (states stack) (to_size offset)) ctx
           in walk_up_loop cb stack (i + 1) offset res ctx)
      else Inr ctx)"
  by pat_completeness auto
termination
  by (relation "measure (\<lambda>(cb, stack, i, offset, res, ctx). wrap_pred (nframes stack) - i)") auto

declare walk_up_loop.simps [simp del]

definition dfs_stack_walk_up :: "dfs_stack \<Rightarrow> (ptr option \<Rightarrow> 'c \<Rightarrow> bool \<times> 'c) \<Rightarrow> 'c \<Rightarrow> 'c result" where
  "dfs_stack_walk_up stack cb ctx =
     (let (res, ctx) = cb (isba_peek_int (states stack) 0) ctx;
          (offset, res, ctx) =
            (if res \<and> frame_size stack \<noteq> 0
             then let offset = frame_size stack;
                      (res, ctx) = cb (isba_peek_int (states stack) (to_size offset)) ctx
                  in (offset, res, ctx)
             else (0, res, ctx))
      in walk_up_loop cb stack 0 offset res ctx)"

fun walk_down_loop :: "(ptr option \<Rightarrow> 'c \<Rightarrow> bool \<times> 'c) \<Rightarrow> dfs_stack \<Rightarrow> nat \<Rightarrow> int \<Rightarrow> bool \<Rightarrow> 'c \<Rightarrow> (bool \<times> 'c) result" where
  "walk_down_loop cb stack 0 offset res ctx = Inr (res, ctx)"
| "walk_down_loop cb stack (Suc i) offset res ctx =
     (if res
      then result_bind (peek_frame stack (Suc i)) (\<lambda>sz. let offset = offset - sz;
             (res, ctx) = cb (isba_peek_int (states stack) (to_size offset)) ctx
           in walk_down_loop cb stack i offset res ctx)
      else Inr (res, ctx))"

definition dfs_stack_walk_down :: "dfs_stack \<Rightarrow> (ptr option \<Rightarrow> 'c \<Rightarrow> bool \<times> 'c) \<Rightarrow> 'c \<Rightarrow> 'c result" where
  "dfs_stack_walk_down stack cb ctx =
     result_bind (walk_down_loop cb stack (wrap_pred (nframes stack)) (int (isba_size_int (states stack))) True ctx)
       (\<lambda>(res, ctx). let (res, ctx) =
             (if res \<and> frame_size stack \<noteq> 0
              then cb (isba_peek_int (states stack) (to_size (frame_size stack))) ctx else (res, ctx))
           in Inr (if res then snd (cb (isba_peek_int (states stack) 0) ctx) else ctx))"

section \<open>Abstraction\<close>

text \<open>
  A frame is the list of its elements and the number of those that were popped from its bottom.
  \<open>dfs_rep s cur fs\<close>: the current frame is \<open>cur\<close> and the frames below it are \<open>fs\<close>, nearest first.
\<close>

type_synonym frame = "elem list \<times> nat"

definition frame_ok :: "frame \<Rightarrow> bool" where
  "frame_ok f \<longleftrightarrow> snd f < length (fst f) \<and> length (fst f) < BLOCK_ELT_SIZE"

definition frame_entry :: "frame \<Rightarrow> elem" where
  "frame_entry f = [Some (int (length (fst f))), Some (int (snd f))]"

definition dfs_rep :: "dfs_stack \<Rightarrow> frame \<Rightarrow> frame list \<Rightarrow> bool" where
  "dfs_rep s cur fs \<longleftrightarrow> isba_wf (states s) \<and> isba_wf (frames s) \<and> el_size (frames s) = 2
     \<and> isba_elems (states s) = concat (rev (map fst fs)) @ fst cur
     \<and> isba_elems (frames s) = rev (map frame_entry fs)
     \<and> frame_size s = int (length (fst cur)) \<and> frame_bottom s = int (snd cur)
     \<and> snd cur \<le> length (fst cur) \<and> length (fst cur) < BLOCK_ELT_SIZE
     \<and> nframes s = length fs \<and> list_all frame_ok fs"

lemma to_size_int: "n < BLOCK_ELT_SIZE \<Longrightarrow> to_size (int n) = n"
  by (simp add: to_size_def BLOCK_ELT_SIZE_def)

lemma disc_small: "n < BLOCK_ELT_SIZE \<Longrightarrow> n \<le> cur_index s \<or> cur_index s < n mod BLOCK_ELT_SIZE"
  by auto

lemmas rep_facts = dfs_rep_def frame_ok_def

lemma create_rep: "\<exists>s. dfs_stack_create n = Inr s \<and> dfs_rep s ([], 0) [] \<and> el_size (states s) = n"
  using isba_create_ok[of n] isba_create_ok[of 2] by (auto simp: dfs_stack_create_def dfs_rep_def)

lemma push_rep:
  assumes "dfs_rep s (xs, b) fs" and "length e = el_size (states s)"
    and "stack_size (states s) < INIT_MAX_BLOCKS * BLOCK_ELT_SIZE" and "length xs + 1 < BLOCK_ELT_SIZE"
  shows "\<exists>p t. dfs_stack_push s (Some e) = Inr (p, t) \<and> dfs_rep t (xs @ [map Some e], b) fs
    \<and> deref (states t) p = map Some e"
proof -
  have "isba_wf (states s)" using assms(1) by (simp add: dfs_rep_def)
  from ib.push_ok[OF this, of e] assms show ?thesis
    by (auto simp: dfs_stack_push_def dfs_rep_def)
qed

lemma clean_rep:
  assumes "dfs_rep s (xs, b) fs" and "b = length xs"
  shows "\<exists>t. clean_frame s = Inr t \<and> dfs_rep t ([], 0) fs"
proof (cases "b = 0")
  case True
  with assms show ?thesis by (simp add: clean_frame_def dfs_rep_def)
next
  case False
  have s: "isba_wf (states s)" "isba_elems (states s) = concat (rev (map fst fs)) @ xs" "b < BLOCK_ELT_SIZE"
    using assms by (auto simp: dfs_rep_def)
  from ib.discard_append[OF s(1,2)] s(3) assms(2) obtain st where
    "isba_discard_int (states s) b = Inr st" "isba_wf st" "isba_elems st = concat (rev (map fst fs))"
    using disc_small by metis
  with False assms s(3) show ?thesis
    by (auto simp: clean_frame_def dfs_rep_def to_size_int)
qed

lemma pop_rep:
  assumes "dfs_rep s (xs @ [x], b) fs" and "b \<le> length xs"
  shows "\<exists>p q t. dfs_stack_pop s = Inr (Some p, t) \<and> dfs_rep t (xs, b) fs \<and> deref (states t) p = x
    \<and> dfs_stack_top s = Inr (Some q, s) \<and> deref (states s) q = x"
proof -
  have s: "isba_wf (states s)" "isba_elems (states s) = (concat (rev (map fst fs)) @ xs) @ [x]"
    using assms by (auto simp: dfs_rep_def)
  from ib.pop_ok[OF s] ib.top_ok[OF s] assms show ?thesis
    by (auto simp: dfs_stack_pop_def dfs_stack_top_def dfs_rep_def)
qed

lemma pop_rep_empty:
  assumes "dfs_rep s (xs, b) fs" and "b = length xs"
  shows "\<exists>t. dfs_stack_pop s = Inr (None, t) \<and> dfs_stack_top s = Inr (None, t)
    \<and> dfs_stack_bottom s = Inr (None, t) \<and> dfs_rep t ([], 0) fs"
  using clean_rep[OF assms] assms
  by (auto simp: dfs_stack_pop_def dfs_stack_top_def dfs_stack_bottom_def dfs_rep_def)

lemma enter_rep:
  assumes "dfs_rep s (xs, b) fs" and "b < length xs" and "stack_size (frames s) < INIT_MAX_BLOCKS * BLOCK_ELT_SIZE"
  shows "\<exists>t. dfs_stack_enter s = Inr t \<and> dfs_rep t ([], 0) ((xs, b) # fs)"
proof -
  have s: "isba_wf (frames s)" "el_size (frames s) = 2" using assms(1) by (auto simp: dfs_rep_def)
  from ib.push_ok[OF s(1), of "[int (length xs), int b]"] assms s(2) show ?thesis
    by (auto simp: dfs_stack_enter_def dfs_rep_def frame_ok_def frame_entry_def)
qed

lemma leave_rep:
  assumes "dfs_rep s (xs, b) (f # fs)"
  shows "\<exists>t. dfs_stack_leave s = Inr t \<and> dfs_rep t f fs"
proof -
  obtain ys c where f: "f = (ys, c)" by (cases f)
  have s: "isba_wf (states s)" "isba_elems (states s) = (concat (rev (map fst fs)) @ ys) @ xs"
    "isba_wf (frames s)" "isba_elems (frames s) = rev (map frame_entry fs) @ [frame_entry f]"
    "length xs < BLOCK_ELT_SIZE" "frame_size s = int (length xs)" "nframes s = Suc (length fs)"
    using assms f by (auto simp: dfs_rep_def)
  from ib.discard_append[OF s(1,2) disc_small[OF s(5)]] obtain st where
    st: "isba_discard_int (states s) (length xs) = Inr st" "isba_wf st" "isba_elems st = concat (rev (map fst fs)) @ ys"
    by auto
  from ib.top_ok[OF s(3,4)] obtain p where p: "isba_top_int (frames s) = Inr p" "deref (frames s) p = frame_entry f" by auto
  from ib.pop_ok[OF s(3,4)] obtain q fr where
    fr: "isba_pop_int (frames s) = Inr (Some q, fr)" "isba_wf fr" "el_size fr = el_size (frames s)"
      "isba_elems fr = rev (map frame_entry fs)" by auto
  have "read_int (frames s) p 0 = Inr (int (length ys))" "read_int (frames s) p 1 = Inr (int c)"
    by (simp_all add: read_int_def p(2) f frame_entry_def)
  with st p fr s f assms show ?thesis
    by (auto simp: dfs_stack_leave_def dfs_rep_def frame_ok_def to_size_int)
qed

lemma bottom_rep:
  assumes "dfs_rep s (xs, b) fs" and "b < length xs"
  shows "\<exists>p q t. dfs_stack_bottom s = Inr (Some p, s) \<and> deref (states s) p = xs ! b
    \<and> dfs_stack_pop_bottom s = Inr (Some q, t) \<and> dfs_rep t (xs, b + 1) fs \<and> deref (states t) q = xs ! b"
proof -
  let ?t = "s\<lparr>frame_bottom := int b + 1\<rparr>"
  have s: "isba_wf (states s)"
    "isba_elems (states s) = (concat (rev (map fst fs)) @ take b xs) @ xs ! b # drop (Suc b) xs"
    "frame_size s = int (length xs)" "frame_bottom s = int b" "length xs < BLOCK_ELT_SIZE"
    using assms id_take_nth_drop[of b xs] by (auto simp: dfs_rep_def)
  have sub: "int (length xs) - int b - 1 = int (length xs - Suc b)" "int (length xs) - (int b + 1) = int (length xs - Suc b)"
    using assms(2) by auto
  have off: "to_size (int (length xs) - int b - 1) = length (drop (Suc b) xs)"
    "to_size (int (length xs) - (int b + 1)) = length (drop (Suc b) xs)"
    unfolding sub using to_size_int[of "length xs - Suc b"] s(5) by simp_all
  have "dfs_rep ?t (xs, b + 1) fs" using assms by (auto simp: dfs_rep_def)
  with ib.peek_append[OF s(1,2)] s assms(2) off show ?thesis
    by (auto simp: dfs_stack_bottom_def dfs_stack_pop_bottom_def Let_def)
qed

section \<open>Discarding and clearing\<close>

fun disc_spec :: "frame \<Rightarrow> frame list \<Rightarrow> nat \<Rightarrow> frame \<times> frame list" where
  "disc_spec (xs, b) [] n = ((take (length xs - n) xs, b), [])"
| "disc_spec (xs, b) (f # fs) n =
     (if n \<le> length xs - b then ((take (length xs - n) xs, b), f # fs)
      else disc_spec f fs (n - (length xs - b)))"

definition live :: "frame \<Rightarrow> elem list" where
  "live f = drop (snd f) (fst f)"

lemma length_live: "length (live (xs, b)) = length xs - b"
  by (simp add: live_def)

lemma frame_size_rep:
  assumes "dfs_rep s (xs, b) fs"
  shows "dfs_stack_frame_size s = length xs - b"
proof -
  have "frame_size s - frame_bottom s = int (length xs - b)" "length xs - b < BLOCK_ELT_SIZE"
    using assms by (auto simp: dfs_rep_def)
  then show ?thesis
    using to_size_int[of "length xs - b"] by (simp add: dfs_stack_frame_size_def to_size_def)
qed

lemma discard_frames_ok:
  assumes "dfs_rep s cur fs" and "length fs < fuel" and "n \<le> sum_list (map (length \<circ> live) (cur # fs))"
  shows "\<exists>t m xs b. discard_frames fuel s n = Inr (t, m) \<and> dfs_rep t (xs, b) (snd (disc_spec cur fs n))
    \<and> m \<le> length xs - b \<and> fst (disc_spec cur fs n) = (take (length xs - m) xs, b)"
  using assms
proof (induction fs arbitrary: s cur n fuel)
  case Nil
  then show ?case
    by (cases cur) (auto simp: discard_frames.simps frame_size_rep live_def Let_def)
next
  case (Cons f fs)
  obtain xs b where cur: "cur = (xs, b)" by (cases cur)
  obtain k where k: "fuel = Suc k" using Cons.prems(2) by (cases fuel) auto
  show ?case
  proof (cases "n \<le> length xs - b")
    case True
    then show ?thesis using Cons.prems(1) cur by (auto simp: discard_frames.simps frame_size_rep Let_def)
  next
    case False
    obtain t where t: "dfs_stack_leave s = Inr t" "dfs_rep t f fs"
      using leave_rep[of s xs b f fs] Cons.prems(1) cur by auto
    have "discard_frames fuel s n = discard_frames k t (n - (length xs - b))"
      using False Cons.prems(1) cur k t(1) by (simp add: discard_frames.simps[of "Suc k" s n] frame_size_rep Let_def)
    moreover have "n - (length xs - b) \<le> sum_list (map (length \<circ> live) (f # fs))"
      using Cons.prems(3) cur by (simp add: length_live o_def)
    ultimately show ?thesis
      using Cons.IH[OF t(2), of k "n - (length xs - b)"] False Cons.prems(2) k cur by (simp add: o_def)
  qed
qed

lemma discard_rep:
  assumes "dfs_rep s cur fs" and "n \<le> sum_list (map (length \<circ> live) (cur # fs))"
  shows "\<exists>t. dfs_stack_discard s n = Inr t \<and> dfs_rep t (fst (disc_spec cur fs n)) (snd (disc_spec cur fs n))"
proof -
  have "nframes s = length fs" using assms(1) by (simp add: dfs_rep_def)
  with discard_frames_ok[OF assms(1) _ assms(2), of "nframes s + 1"] obtain t m xs b where
    t: "discard_frames (nframes s + 1) s n = Inr (t, m)" "dfs_rep t (xs, b) (snd (disc_spec cur fs n))"
      "m \<le> length xs - b" "fst (disc_spec cur fs n) = (take (length xs - m) xs, b)" by auto
  let ?fs = "snd (disc_spec cur fs n)"
  have r: "isba_wf (states t)" "isba_elems (states t) = concat (rev (map fst ?fs)) @ xs" "length xs < BLOCK_ELT_SIZE"
    "b \<le> length xs" using t(2) by (auto simp: dfs_rep_def)
  have "isba_elems (states t) = (concat (rev (map fst ?fs)) @ take (length xs - m) xs) @ drop (length xs - m) xs"
    using r(2) by simp
  from ib.discard_append[OF r(1) this] r(3) t(3) obtain st where
    "isba_discard_int (states t) m = Inr st" "isba_wf st" "isba_elems st = concat (rev (map fst ?fs)) @ take (length xs - m) xs"
    using disc_small[of m "states t"] by auto
  with t r show ?thesis
    by (auto simp: dfs_stack_discard_def dfs_rep_def of_nat_diff)
qed

lemma live_disc_spec:
  assumes "n \<le> sum_list (map (length \<circ> live) (cur # fs))" and "snd cur \<le> length (fst cur)" and "list_all frame_ok fs"
  shows "concat (rev (map live (fst (disc_spec cur fs n) # snd (disc_spec cur fs n))))
    = take (sum_list (map (length \<circ> live) (cur # fs)) - n) (concat (rev (map live (cur # fs))))"
  using assms
proof (induction cur fs n rule: disc_spec.induct)
  case (1 xs b n)
  then show ?case by (auto simp: live_def drop_take add.commute)
next
  case (2 xs b f fs n)
  define A where "A = concat (rev (map live (f # fs)))"
  have A: "length A = sum_list (map (length \<circ> live) (f # fs))"
    unfolding A_def by (simp add: length_concat rev_map[symmetric] o_def add.commute)
  have all: "concat (rev (map live ((xs, b) # f # fs))) = A @ drop b xs"
    "sum_list (map (length \<circ> live) ((xs, b) # f # fs)) = length A + (length xs - b)"
    using A by (simp_all add: A_def live_def)
  show ?case
  proof (cases "n \<le> length xs - b")
    case True
    then have "concat (rev (map live (fst (disc_spec (xs, b) (f # fs) n) # snd (disc_spec (xs, b) (f # fs) n))))
        = A @ take (length xs - b - n) (drop b xs)"
      by (simp add: A_def live_def drop_take add.commute)
    with True show ?thesis unfolding all by simp
  next
    case False
    have ok: "snd f \<le> length (fst f)" "list_all frame_ok fs" using 2(4) by (auto simp: frame_ok_def[of f])
    have le: "n - (length xs - b) \<le> sum_list (map (length \<circ> live) (f # fs))"
      using 2(2) by (simp add: length_live o_def)
    from 2(1)[OF False le ok] False show ?thesis
      unfolding all A_def[symmetric] A[symmetric] by simp
  qed
qed

lemma clear_rep:
  assumes "dfs_rep s cur fs" and "stack_size (states s) < BLOCK_ELT_SIZE" and "stack_size (frames s) < BLOCK_ELT_SIZE"
  shows "\<exists>t. dfs_stack_clear s = Inr t \<and> dfs_rep t ([], 0) []"
proof -
  have s: "isba_wf (states s)" "isba_wf (frames s)" "el_size (frames s) = 2" using assms(1) by (auto simp: dfs_rep_def)
  from ib.discard_ok[OF s(1) _ disc_small[OF assms(2)]] obtain st where
    st: "isba_discard_int (states s) (stack_size (states s)) = Inr st" "isba_wf st" "isba_elems st = []" by auto
  from ib.discard_ok[OF s(2) _ disc_small[OF assms(3)]] obtain fr where
    "isba_discard_int (frames s) (stack_size (frames s)) = Inr fr" "isba_wf fr" "isba_elems fr = []" "el_size fr = 2"
    using s(3) by auto
  with st s show ?thesis by (auto simp: dfs_stack_clear_def isba_size_eq dfs_rep_def)
qed

section \<open>Looking at the frames\<close>

text \<open>The distance from the top of the stack to the top of every non-empty frame.\<close>

fun tops :: "nat \<Rightarrow> nat list \<Rightarrow> nat list" where
  "tops off [] = []"
| "tops off (n # ns) = off # tops (off + n) ns"

lemma tops_append: "tops off (ms @ ns) = tops off ms @ tops (off + sum_list ms) ns"
  by (induction ms arbitrary: off) (simp_all add: add.assoc)

definition frame_sizes :: "frame \<Rightarrow> frame list \<Rightarrow> nat list" where
  "frame_sizes cur fs = (if fst cur = [] then [] else [length (fst cur)]) @ map (length \<circ> fst) fs"

lemma to_size_lt: "n < SIZE_LIMIT \<Longrightarrow> to_size (int n) = n"
  by (simp add: to_size_def)

lemma peek_frame_rep:
  assumes "dfs_rep s cur fs" and "i < length fs"
  shows "peek_frame s i = Inr (int (length (fst (fs ! i))))"
proof -
  have s: "isba_wf (frames s)" "isba_elems (frames s) = rev (map frame_entry fs)"
    using assms(1) by (auto simp: dfs_rep_def)
  have "length (isba_elems (frames s)) = length fs" by (simp only: s(2) length_rev length_map)
  with ib.peek_ok[OF s(1), of i] assms(2) obtain p where
    "isba_peek_int (frames s) i = Some p" "deref (frames s) p = rev (isba_elems (frames s)) ! i" by auto
  then show ?thesis using s(2) assms(2) by (simp add: peek_frame_def read_int_def frame_entry_def)
qed

lemma rep_size:
  assumes "dfs_rep s cur fs"
  shows "stack_size (states s) = length (fst cur) + sum_list (map (length \<circ> fst) fs)"
    and "stack_size (frames s) = length fs"
proof -
  have "stack_size (states s) = length (concat (rev (map fst fs)) @ fst cur)"
    "stack_size (frames s) = length (rev (map frame_entry fs))"
    using assms unfolding dfs_rep_def by (metis length_isba_elems)+
  then show "stack_size (states s) = length (fst cur) + sum_list (map (length \<circ> fst) fs)"
    "stack_size (frames s) = length fs"
    by (simp_all add: length_concat rev_map[symmetric])
qed

lemma sum_take_le: "sum_list (take i ns) \<le> sum_list (ns :: nat list)"
  by (metis append_take_drop_id le_add1 sum_list_append)

lemma offset_lt:
  assumes "dfs_rep s cur fs"
  shows "length (fst cur) + sum_list (take i (map (length \<circ> fst) fs)) < SIZE_LIMIT"
  using rep_size(1)[OF assms] stack_size_lt[of "states s"] assms
    sum_take_le[of i "map (length \<circ> fst) fs"]
  unfolding dfs_rep_def by linarith

lemma wrap_pred_rep:
  assumes "dfs_rep s cur fs" and "fs \<noteq> []"
  shows "wrap_pred (nframes s) = length fs - 1"
proof -
  have "length fs < SIZE_LIMIT" "nframes s = length fs"
    using rep_size(2)[OF assms(1)] stack_size_lt[of "frames s"] assms(1) by (auto simp: dfs_rep_def)
  with assms(2) show ?thesis by (cases fs) (auto simp: wrap_pred_def)
qed

fun visit :: "(ptr option \<Rightarrow> 'c \<Rightarrow> bool \<times> 'c) \<Rightarrow> ptr option list \<Rightarrow> 'c \<Rightarrow> bool \<times> 'c" where
  "visit cb [] ctx = (True, ctx)"
| "visit cb (p # ps) ctx = (case cb p ctx of (res, ctx) \<Rightarrow> if res then visit cb ps ctx else (False, ctx))"

lemma visit_append:
  "visit cb (ps @ qs) ctx = (case visit cb ps ctx of (res, ctx) \<Rightarrow> if res then visit cb qs ctx else (False, ctx))"
  by (induction ps arbitrary: ctx) (auto split: prod.split)

definition off_to :: "frame \<Rightarrow> frame list \<Rightarrow> nat \<Rightarrow> nat" where
  "off_to cur fs i = length (fst cur) + sum_list (take i (map (length \<circ> fst) fs))"

definition tops_from :: "frame \<Rightarrow> frame list \<Rightarrow> nat \<Rightarrow> nat list" where
  "tops_from cur fs i = tops (off_to cur fs i) (drop i (map (length \<circ> fst) fs))"

lemma off_to_0 [simp]: "off_to cur fs 0 = length (fst cur)"
  by (simp add: off_to_def)

lemma off_to_Suc: "i < length fs \<Longrightarrow> off_to cur fs (Suc i) = off_to cur fs i + length (fst (fs ! i))"
  by (simp add: off_to_def take_Suc_conv_app_nth)

lemma tops_from_Cons:
  "i < length fs \<Longrightarrow> tops_from cur fs i = off_to cur fs i # tops_from cur fs (Suc i)"
  using Cons_nth_drop_Suc[of i "map (length \<circ> fst) fs", symmetric]
  by (simp add: tops_from_def off_to_Suc)

lemma tops_from_end [simp]: "length fs \<le> i \<Longrightarrow> tops_from cur fs i = []"
  by (simp add: tops_from_def)

lemma to_size_off_to: "dfs_rep s cur fs \<Longrightarrow> to_size (int (off_to cur fs i)) = off_to cur fs i"
  unfolding off_to_def using offset_lt[of s cur fs i] by (rule to_size_lt)

lemma walk_up_loop_ok:
  assumes rep: "dfs_rep s cur fs" and "fs \<noteq> []" and "i \<le> length fs - 1"
  shows "walk_up_loop cb s i (int (off_to cur fs i)) res ctx
    = Inr (if res then snd (visit cb (map (isba_peek_int (states s)) (tops_from cur fs (Suc i))) ctx) else ctx)"
  using assms(3)
proof (induction "length fs - 1 - i" arbitrary: i res ctx)
  case 0
  then have "\<not> i < wrap_pred (nframes s)" "length fs \<le> Suc i" using wrap_pred_rep[OF assms(1,2)] by auto
  then show ?case by (simp add: walk_up_loop.simps)
next
  case (Suc k)
  have i: "i < length fs" "i < wrap_pred (nframes s)" "Suc i < length fs"
    using Suc(2) wrap_pred_rep[OF assms(1,2)] by auto
  obtain r c where cb: "cb (isba_peek_int (states s) (off_to cur fs (Suc i))) ctx = (r, c)" by fastforce
  have off: "int (off_to cur fs i) + int (length (fst (fs ! i))) = int (off_to cur fs (Suc i))"
    using off_to_Suc[OF i(1)] by simp
  have "walk_up_loop cb s i (int (off_to cur fs i)) True ctx = walk_up_loop cb s (Suc i) (int (off_to cur fs (Suc i))) r c"
    using i cb by (simp add: walk_up_loop.simps[of cb s i] peek_frame_rep[OF rep] Let_def off to_size_off_to[OF rep])
  moreover have "tops_from cur fs (Suc i) = off_to cur fs (Suc i) # tops_from cur fs (Suc (Suc i))"
    by (rule tops_from_Cons[OF i(3)])
  ultimately show ?case
    using Suc(1)[of "Suc i" r c] Suc(2) i cb by (cases res) (auto simp: walk_up_loop.simps[of cb s i _ False])
qed

lemma walk_down_loop_ok:
  assumes rep: "dfs_rep s cur fs" and "i < length fs"
  shows "walk_down_loop cb s i (int (off_to cur fs (Suc i))) res ctx
    = Inr (if res then visit cb (map (isba_peek_int (states s)) (map (off_to cur fs) (rev [1..<Suc i]))) ctx else (False, ctx))"
  using assms(2)
proof (induction i arbitrary: res ctx)
  case 0
  then show ?case by simp
next
  case (Suc i)
  obtain r c where cb: "cb (isba_peek_int (states s) (off_to cur fs (Suc i))) ctx = (r, c)" by fastforce
  have off: "int (off_to cur fs (Suc (Suc i))) - int (length (fst (fs ! Suc i))) = int (off_to cur fs (Suc i))"
    using off_to_Suc[OF Suc.prems] by simp
  have "walk_down_loop cb s (Suc i) (int (off_to cur fs (Suc (Suc i)))) True ctx
      = walk_down_loop cb s i (int (off_to cur fs (Suc i))) r c"
    using cb Suc.prems by (simp add: peek_frame_rep[OF rep] Let_def off to_size_off_to[OF rep])
  with Suc.IH[of r c] Suc.prems cb show ?case by (cases res) auto
qed

lemma tops_from_map: "tops_from cur fs i = map (off_to cur fs) [i..<length fs]"
proof (induction "length fs - i" arbitrary: i)
  case (Suc k)
  then show ?case by (simp add: tops_from_Cons upt_conv_Cons)
qed simp

lemma frame_tops:
  "tops 0 (frame_sizes cur fs) = (if fst cur = [] then [] else [0]) @ tops_from cur fs 0"
  by (simp add: frame_sizes_def tops_from_def)

lemma walk_up_rep:
  assumes "dfs_rep s cur fs" and "fs \<noteq> []"
  shows "dfs_stack_walk_up s cb ctx
    = Inr (snd (visit cb (map (isba_peek_int (states s)) (tops 0 (frame_sizes cur fs))) ctx))"
proof -
  have fsz: "frame_size s = int (length (fst cur))" using assms(1) by (simp add: dfs_rep_def)
  note loop = walk_up_loop_ok[OF assms, of 0, simplified]
  obtain r c where cb: "cb (isba_peek_int (states s) 0) ctx = (r, c)" by fastforce
  have t: "tops_from cur fs 0 = length (fst cur) # tops_from cur fs (Suc 0)"
    using tops_from_Cons[of 0 fs cur] assms(2) by simp
  show ?thesis
  proof (cases "fst cur = []")
    case True
    then show ?thesis using loop[of cb r c] cb fsz t
      by (simp add: dfs_stack_walk_up_def frame_tops)
  next
    case False
    obtain r' c' where cb': "cb (isba_peek_int (states s) (length (fst cur))) c = (r', c')" by fastforce
    have "to_size (int (length (fst cur))) = length (fst cur)"
      using to_size_off_to[OF assms(1), of 0] by simp
    with False show ?thesis using loop[of cb r' c'] loop[of cb False c] cb cb' fsz t
      by (simp add: dfs_stack_walk_up_def frame_tops walk_up_loop.simps)
  qed
qed

lemma walk_down_rep:
  assumes "dfs_rep s cur fs" and "fs \<noteq> []"
  shows "dfs_stack_walk_down s cb ctx
    = Inr (snd (visit cb (rev (map (isba_peek_int (states s)) (tops 0 (frame_sizes cur fs)))) ctx))"
proof -
  have s: "frame_size s = int (length (fst cur))" "isba_wf (states s)" using assms(1) by (auto simp: dfs_rep_def)
  obtain n where n: "length fs = Suc n" using assms(2) by (cases fs) auto
  have size: "isba_size_int (states s) = off_to cur fs (Suc n)"
    using rep_size(1)[OF assms(1)] n by (simp add: isba_size_eq[OF s(2)] off_to_def)
  have w: "wrap_pred (nframes s) = n" using wrap_pred_rep[OF assms] n by simp
  have sz: "to_size (int (length (fst cur))) = length (fst cur)"
    using to_size_off_to[OF assms(1), of 0] by simp
  have t: "tops_from cur fs 0 = length (fst cur) # map (off_to cur fs) [1..<Suc n]"
    using n by (simp add: tops_from_map upt_conv_Cons del: upt_Suc)
  note loop = walk_down_loop_ok[OF assms(1), of n cb True ctx]
  obtain r c where v: "visit cb (map (isba_peek_int (states s)) (map (off_to cur fs) (rev [1..<Suc n]))) ctx = (r, c)" by fastforce
  have "dfs_stack_walk_down s cb ctx = (let (res, ctx) =
           (if r \<and> fst cur \<noteq> [] then cb (isba_peek_int (states s) (length (fst cur))) c else (r, c))
         in Inr (if res then snd (cb (isba_peek_int (states s) 0) ctx) else ctx))"
    using loop v n unfolding dfs_stack_walk_down_def w size s(1) sz by simp
  moreover have "\<not> r \<Longrightarrow> visit cb (map (isba_peek_int (states s)) (map (off_to cur fs) (rev [1..<Suc n]))) ctx = (False, c)"
    using v by simp
  ultimately show ?thesis using v
    by (cases "fst cur = []") (auto simp: frame_tops t visit_append rev_map split: prod.splits simp del: upt_Suc)
qed

lemma peek_tops:
  assumes "dfs_rep s cur fs"
  shows "map (\<lambda>k. map_option (deref (states s)) (isba_peek_int (states s) k)) (tops_from cur fs 0)
    = map (\<lambda>f. Some (last (fst f))) fs"
proof (rule nth_equalityI)
  fix i assume "i < length (map (\<lambda>k. map_option (deref (states s)) (isba_peek_int (states s) k)) (tops_from cur fs 0))"
  then have i: "i < length fs" by (simp add: tops_from_map)
  have s: "isba_wf (states s)" "isba_elems (states s) = concat (rev (map fst fs)) @ fst cur" "fst (fs ! i) \<noteq> []"
    using assms i by (auto simp: dfs_rep_def list_all_length frame_ok_def)
  let ?below = "concat (rev (map fst (drop (Suc i) fs)))" and ?above = "concat (rev (map fst (take i fs))) @ fst cur"
  have "concat (rev (map fst fs)) = ?below @ fst (fs ! i) @ concat (rev (map fst (take i fs)))"
    using arg_cong[OF id_take_nth_drop[OF i], of "\<lambda>fs. concat (rev (map fst fs))"] by simp
  then have "isba_elems (states s) = (?below @ butlast (fst (fs ! i))) @ last (fst (fs ! i)) # ?above"
    using s(2,3) by (metis append.assoc append_Cons append_Nil append_butlast_last_id)
  from ib.peek_append[OF s(1) this] obtain p where
    p: "isba_peek_int (states s) (length ?above) = Some p" "deref (states s) p = last (fst (fs ! i))" by auto
  have "length ?above = off_to cur fs i"
    by (simp add: off_to_def length_concat rev_map[symmetric] take_map)
  with p i show "map (\<lambda>k. map_option (deref (states s)) (isba_peek_int (states s) k)) (tops_from cur fs 0) ! i
      = map (\<lambda>f. Some (last (fst f))) fs ! i" by (simp add: tops_from_map)
qed (simp add: tops_from_map)

section \<open>Properties\<close>

text \<open>The abstract state: the elements of the frames, the current frame first.\<close>

definition dfs_frames :: "dfs_stack \<Rightarrow> elem list list \<Rightarrow> bool" where
  "dfs_frames s L \<longleftrightarrow> (\<exists>cur fs. dfs_rep s cur fs \<and> L = map live (cur # fs))"

lemma dfs_framesI: "dfs_rep s (xs, b) fs \<Longrightarrow> dfs_frames s (drop b xs # map live fs)"
  unfolding dfs_frames_def live_def by fastforce

lemma dfs_framesE:
  assumes "dfs_frames s (x # L)"
  obtains xs b fs where "dfs_rep s (xs, b) fs" "x = drop b xs" "L = map live fs" "b \<le> length xs"
  using assms unfolding dfs_frames_def by (auto simp: live_def dfs_rep_def)

definition stack_room :: "dfs_stack \<Rightarrow> bool" where
  "stack_room s \<longleftrightarrow> frame_size s + 1 < int BLOCK_ELT_SIZE
     \<and> stack_size (states s) < INIT_MAX_BLOCKS * BLOCK_ELT_SIZE \<and> stack_size (frames s) < INIT_MAX_BLOCKS * BLOCK_ELT_SIZE"

lemma pop_frames:
  assumes "dfs_frames s (x # L)"
  shows "if x = [] then \<exists>t. dfs_stack_pop s = Inr (None, t) \<and> dfs_stack_top s = Inr (None, t)
        \<and> dfs_stack_bottom s = Inr (None, t) \<and> dfs_frames t ([] # L)
      else \<exists>p q r t. dfs_stack_pop s = Inr (Some p, t) \<and> deref (states t) p = last x \<and> dfs_frames t (butlast x # L)
        \<and> dfs_stack_top s = Inr (Some q, s) \<and> deref (states s) q = last x
        \<and> dfs_stack_bottom s = Inr (Some r, s) \<and> deref (states s) r = hd x"
  using assms
proof (rule dfs_framesE)
  fix xs b fs assume rep: "dfs_rep s (xs, b) fs" and x: "x = drop b xs" "L = map live fs" "b \<le> length xs"
  show ?thesis
  proof (cases "x = []")
    case True
    with pop_rep_empty[OF rep] x dfs_framesI[of _ "[]" 0 fs] show ?thesis by force
  next
    case False
    obtain ys y where xs: "xs = ys @ [y]" "b \<le> length ys"
      using False x by (cases xs rule: rev_cases) auto
    from pop_rep[of s ys y b fs] bottom_rep[OF rep] rep xs obtain p q r t where
      *: "dfs_stack_pop s = Inr (Some p, t)" "dfs_rep t (ys, b) fs" "deref (states t) p = y"
        "dfs_stack_top s = Inr (Some q, s)" "deref (states s) q = y"
        "dfs_stack_bottom s = Inr (Some r, s)" "deref (states s) r = xs ! b" by auto
    have "butlast x = drop b ys" "last x = y" "hd x = xs ! b"
      using xs x(1) by (simp_all add: butlast_append hd_drop_conv_nth nth_append)
    with * dfs_framesI[OF *(2)] False x(2) show ?thesis by auto
  qed
qed

lemma bottom_frames:
  assumes "dfs_frames s (x # L)"
  shows "if x = [] then \<exists>m. dfs_stack_pop_bottom s = Inl (Abort_msg m)
      else \<exists>p t. dfs_stack_pop_bottom s = Inr (Some p, t) \<and> deref (states t) p = hd x \<and> dfs_frames t (tl x # L)"
  using assms
proof (rule dfs_framesE)
  fix xs b fs assume rep: "dfs_rep s (xs, b) fs" and x: "x = drop b xs" "L = map live fs" "b \<le> length xs"
  show ?thesis
  proof (cases "x = []")
    case True
    then show ?thesis using rep x by (simp add: dfs_stack_pop_bottom_def dfs_rep_def)
  next
    case False
    then have lt: "b < length xs" using x by simp
    from bottom_rep[OF rep lt] obtain q t where
      "dfs_stack_pop_bottom s = Inr (Some q, t)" "dfs_rep t (xs, b + 1) fs" "deref (states t) q = xs ! b" by blast
    moreover have "tl x = drop (b + 1) xs" "hd x = xs ! b" using x(1) lt by (simp_all add: tl_drop drop_Suc hd_drop_conv_nth)
    ultimately show ?thesis using False dfs_framesI[of t xs "b + 1" fs] x(2) by auto
  qed
qed

lemma enter_leave_frames:
  assumes "dfs_frames s (x # L)"
  shows "x \<noteq> [] \<and> stack_room s \<Longrightarrow> \<exists>t. dfs_stack_enter s = Inr t \<and> dfs_frames t ([] # x # L)"
    and "x = [] \<Longrightarrow> \<exists>m. dfs_stack_enter s = Inl (Abort_msg m)"
    and "L \<noteq> [] \<Longrightarrow> \<exists>t. dfs_stack_leave s = Inr t \<and> dfs_frames t L"
    and "L = [] \<Longrightarrow> \<exists>m. dfs_stack_leave s = Inl (Abort_msg m)"
proof -
  obtain xs b fs where rep: "dfs_rep s (xs, b) fs" and x: "x = drop b xs" "L = map live fs" "b \<le> length xs"
    using assms by (rule dfs_framesE)
  show "\<exists>t. dfs_stack_enter s = Inr t \<and> dfs_frames t ([] # x # L)" if "x \<noteq> [] \<and> stack_room s"
    using enter_rep[OF rep] that x dfs_framesI[of _ "[]" 0 "(xs, b) # fs"]
    by (auto simp: stack_room_def live_def)
  show "\<exists>m. dfs_stack_enter s = Inl (Abort_msg m)" if "x = []"
    using that rep x by (simp add: dfs_stack_enter_def dfs_rep_def)
  show "\<exists>t. dfs_stack_leave s = Inr t \<and> dfs_frames t L" if "L \<noteq> []"
  proof -
    obtain f fs' where "fs = f # fs'" using \<open>L \<noteq> []\<close> x(2) by (cases fs) auto
    moreover obtain t where "dfs_stack_leave s = Inr t" "dfs_rep t f fs'"
      using leave_rep[of s xs b f fs'] rep calculation by auto
    moreover from this have "dfs_frames t (map live (f # fs'))" unfolding dfs_frames_def by blast
    ultimately show ?thesis using x(2) by auto
  qed
  show "\<exists>m. dfs_stack_leave s = Inl (Abort_msg m)" if "L = []"
    using that rep x by (simp add: dfs_stack_leave_def dfs_rep_def)
qed

lemma push_frames:
  assumes "dfs_frames s (x # L)" and "stack_room s" and "length e = el_size (states s)"
  shows "\<exists>p t. dfs_stack_push s (Some e) = Inr (p, t) \<and> deref (states t) p = map Some e
    \<and> dfs_frames t ((x @ [map Some e]) # L)"
proof -
  obtain xs b fs where rep: "dfs_rep s (xs, b) fs" and x: "x = drop b xs" "L = map live fs" "b \<le> length xs"
    using assms(1) by (rule dfs_framesE)
  have "length xs + 1 < BLOCK_ELT_SIZE" using assms(2) rep by (simp add: stack_room_def dfs_rep_def)
  with push_rep[OF rep assms(3)] assms(2) obtain p t where
    "dfs_stack_push s (Some e) = Inr (p, t)" "dfs_rep t (xs @ [map Some e], b) fs" "deref (states t) p = map Some e"
    by (auto simp: stack_room_def)
  with dfs_framesI[of t "xs @ [map Some e]" b fs] x show ?thesis by auto
qed

lemma nframes_rep: "dfs_frames s (x # L) \<Longrightarrow> dfs_stack_nframes s = length L \<and> dfs_stack_frame_size s = length x"
  by (erule dfs_framesE) (auto simp: dfs_stack_nframes_def frame_size_rep dfs_rep_def)

text \<open>
  C33. The frame stack implements a list of frames. Pushing appends to the current frame; popping and
  looking at the top give and remove its last element, \<^verbatim>\<open>dfs_stack_bottom\<close> and \<^verbatim>\<open>dfs_stack_pop_bottom\<close>
  its first one, and on an empty frame they give \<^verbatim>\<open>NULL\<close> (\<^verbatim>\<open>dfs_stack_pop_bottom\<close> aborts); entering opens a
  new empty frame and aborts when the current one is empty; leaving drops the current frame with
  everything in it and aborts when it is the last one; the number of frames and the size of the
  frame are exact.
\<close>

theorem dfs_stack_refines_frames:
  assumes "dfs_frames s (x # L)" and "stack_room s" and "length e = el_size (states s)"
  shows "dfs_stack_nframes s = length L \<and> dfs_stack_frame_size s = length x
    \<and> (\<exists>p t. dfs_stack_push s (Some e) = Inr (p, t) \<and> deref (states t) p = map Some e
          \<and> dfs_frames t ((x @ [map Some e]) # L))
    \<and> (if x = [] then \<exists>t. dfs_stack_pop s = Inr (None, t) \<and> dfs_stack_top s = Inr (None, t)
          \<and> dfs_stack_bottom s = Inr (None, t) \<and> dfs_frames t ([] # L)
       else \<exists>p q r t. dfs_stack_pop s = Inr (Some p, t) \<and> deref (states t) p = last x \<and> dfs_frames t (butlast x # L)
          \<and> dfs_stack_top s = Inr (Some q, s) \<and> deref (states s) q = last x
          \<and> dfs_stack_bottom s = Inr (Some r, s) \<and> deref (states s) r = hd x)
    \<and> (if x = [] then \<exists>m. dfs_stack_pop_bottom s = Inl (Abort_msg m)
       else \<exists>p t. dfs_stack_pop_bottom s = Inr (Some p, t) \<and> deref (states t) p = hd x \<and> dfs_frames t (tl x # L))
    \<and> (if x = [] then \<exists>m. dfs_stack_enter s = Inl (Abort_msg m)
       else \<exists>t. dfs_stack_enter s = Inr t \<and> dfs_frames t ([] # x # L))
    \<and> (if L = [] then \<exists>m. dfs_stack_leave s = Inl (Abort_msg m)
       else \<exists>t. dfs_stack_leave s = Inr t \<and> dfs_frames t L)"
proof (intro conjI)
  show "dfs_stack_nframes s = length L" "dfs_stack_frame_size s = length x"
    using nframes_rep[OF assms(1)] by simp_all
qed (rule push_frames[OF assms] pop_frames[OF assms(1)] bottom_frames[OF assms(1)]
  | simp add: enter_leave_frames[OF assms(1)] assms(2))+

theorem dfs_stack_refines_frames_witness:
  "\<exists>s p t u. dfs_stack_create 1 = Inr s \<and> dfs_stack_push s (Some [5]) = Inr (p, t) \<and> dfs_frames t [[[Some 5]]]
    \<and> dfs_stack_leave s = Inl u"
proof -
  obtain s where s: "dfs_stack_create 1 = Inr s" "dfs_rep s ([], 0) []" "el_size (states s) = 1"
    using create_rep by blast
  have f: "dfs_frames s [[]]" using dfs_framesI[OF s(2)] by simp
  have r: "stack_room s" using rep_size[OF s(2)] s(2)
    by (simp add: stack_room_def dfs_rep_def INIT_MAX_BLOCKS_def BLOCK_ELT_SIZE_def)
  have e: "length [5 :: int] = el_size (states s)" using s(3) by simp
  have "\<exists>p t. dfs_stack_push s (Some [5]) = Inr (p, t) \<and> deref (states t) p = map Some [5]
      \<and> dfs_frames t (([] @ [map Some [5]]) # [])" "\<exists>m. dfs_stack_leave s = Inl (Abort_msg m)"
    using dfs_stack_refines_frames[OF f r e] by auto
  with s(1) show ?thesis by auto
qed

text \<open>
  \<^verbatim>\<open>dfs_stack_discard\<close> of at most as many elements as there are removes that many from the top
  across the frames; \<^verbatim>\<open>dfs_stack_clear\<close> empties a stack that fits in a block. \<^verbatim>\<open>dfs_stack_walk_up\<close> shows the
  callback the last element of the current frame, if it has one, and of every frame below, until
  the callback returns \<open>0\<close>, and \<^verbatim>\<open>dfs_stack_walk_down\<close> shows it the same elements from the bottom up.
\<close>

theorem dfs_stack_discard_and_walk:
  assumes "dfs_frames s (x # L)" and "L \<noteq> []" and "n \<le> length (concat (x # L))" and "x \<noteq> [] \<or> frame_size s = 0"
    and "stack_size (states s) < BLOCK_ELT_SIZE" and "stack_size (frames s) < BLOCK_ELT_SIZE"
  shows "(\<exists>t K. dfs_stack_discard s n = Inr t \<and> dfs_frames t K
       \<and> concat (rev K) = take (length (concat (x # L)) - n) (concat (rev (x # L))))
    \<and> (\<exists>t. dfs_stack_clear s = Inr t \<and> dfs_frames t [[]])
    \<and> (\<exists>ps. dfs_stack_walk_up s cb ctx = Inr (snd (visit cb ps ctx))
         \<and> dfs_stack_walk_down s cb ctx = Inr (snd (visit cb (rev ps) ctx))
         \<and> map (map_option (deref (states s))) ps = map (\<lambda>f. Some (last f)) (if x = [] then L else x # L))"
proof (intro conjI)
  obtain xs b fs where rep: "dfs_rep s (xs, b) fs" and x: "x = drop b xs" "L = map live fs" "b \<le> length xs"
    using assms(1) by (rule dfs_framesE)
  have ne: "fs \<noteq> []" using assms(2) x(2) by simp
  have sum: "sum_list (map (length \<circ> live) ((xs, b) # fs)) = length (concat (x # L))"
    using x by (simp add: length_concat live_def o_def)
  have cl: "concat (rev (x # L)) = concat (rev (map live ((xs, b) # fs)))" using x by (simp add: live_def)
  let ?d = "disc_spec (xs, b) fs n"
  have "\<exists>t. dfs_stack_discard s n = Inr t \<and> dfs_rep t (fst ?d) (snd ?d)"
    using discard_rep[OF rep] assms(3) sum by simp
  moreover have "concat (rev (map live (fst ?d # snd ?d))) = take (length (concat (x # L)) - n) (concat (rev (x # L)))"
    unfolding cl sum[symmetric] by (rule live_disc_spec) (use assms(3) sum rep in \<open>auto simp: dfs_rep_def\<close>)
  ultimately show "\<exists>t K. dfs_stack_discard s n = Inr t \<and> dfs_frames t K
      \<and> concat (rev K) = take (length (concat (x # L)) - n) (concat (rev (x # L)))"
    unfolding dfs_frames_def by blast
  show "\<exists>t. dfs_stack_clear s = Inr t \<and> dfs_frames t [[]]"
    using clear_rep[OF rep assms(5,6)] dfs_framesI[of _ "[]" 0 "[]"] by fastforce
  let ?ps = "map (isba_peek_int (states s)) (tops 0 (frame_sizes (xs, b) fs))"
  have last: "map (\<lambda>f. Some (last (fst f))) fs = map (\<lambda>f. Some (last f)) L"
    using rep x(2) by (auto simp: dfs_rep_def live_def frame_ok_def list_all_iff)
  have top: "map_option (deref (states s)) (isba_peek_int (states s) 0) = Some (last x)" if ne': "x \<noteq> []"
  proof -
    obtain ys y where xs: "xs = ys @ [y]" "b \<le> length ys" using ne' x by (cases xs rule: rev_cases) auto
    have s: "isba_wf (states s)" "isba_elems (states s) = (concat (rev (map fst fs)) @ ys) @ y # []"
      using rep xs by (auto simp: dfs_rep_def)
    from ib.peek_append[OF s] xs x(1) show ?thesis by auto
  qed
  have "xs = [] \<longleftrightarrow> x = []" using assms(4) x rep by (auto simp: dfs_rep_def)
  then have tops: "map (map_option (deref (states s))) ?ps = map (\<lambda>f. Some (last f)) (if x = [] then L else x # L)"
    using peek_tops[OF rep] last top by (simp add: frame_tops o_def)
  show "\<exists>ps. dfs_stack_walk_up s cb ctx = Inr (snd (visit cb ps ctx))
      \<and> dfs_stack_walk_down s cb ctx = Inr (snd (visit cb (rev ps) ctx))
      \<and> map (map_option (deref (states s))) ps = map (\<lambda>f. Some (last f)) (if x = [] then L else x # L)"
    by (intro exI[of _ ?ps] conjI walk_up_rep[OF rep ne] walk_down_rep[OF rep ne] tops)
qed

theorem dfs_stack_discard_and_walk_witness:
  "\<exists>s t. dfs_frames s [[], [[Some 5]]] \<and> dfs_stack_discard s 1 = Inr t \<and> dfs_stack_size s = 1"
proof -
  obtain s where s: "dfs_stack_create 1 = Inr s" "dfs_rep s ([], 0) []" "el_size (states s) = 1"
    using create_rep by blast
  have "\<exists>p t. dfs_stack_push s (Some [5]) = Inr (p, t) \<and> dfs_rep t ([[Some 5]], 0) []"
    using push_rep[OF s(2), of "[5]"] s(3) rep_size[OF s(2)] by (auto simp: INIT_MAX_BLOCKS_def BLOCK_ELT_SIZE_def)
  then obtain t where t: "dfs_rep t ([[Some 5]], 0) []" by blast
  obtain u where u: "dfs_rep u ([], 0) [([[Some 5]], 0)]"
    using enter_rep[OF t] rep_size[OF t] by (auto simp: INIT_MAX_BLOCKS_def)
  have f: "dfs_frames u [[], [[Some 5]]]" using dfs_framesI[OF u] by (simp add: live_def)
  have sz: "stack_size (states u) = 1" "stack_size (frames u) = 1" "frame_size u = 0"
    using rep_size[OF u] u by (simp_all add: dfs_rep_def)
  have "\<exists>t K. dfs_stack_discard u 1 = Inr t \<and> dfs_frames t K \<and>
      concat (rev K) = take (length (concat ([] # [[[Some 5]]])) - 1) (concat (rev ([] # [[[Some 5]]])))"
    using dfs_stack_discard_and_walk[OF f, of 1 "\<lambda>p c. (True, c)" "()"] sz by (simp add: BLOCK_ELT_SIZE_def)
  moreover have "dfs_stack_size u = 1" using sz(1) u by (simp add: dfs_stack_size_def isba_size_eq dfs_rep_def)
  ultimately show ?thesis using f by blast
qed

end
