(* ===== verification/Fast_Hash.thy ===== *)
theory Fast_Hash
  imports Prelude
begin

text \<open>
  The byte hashes of \<^verbatim>\<open>src/src/util-lib/fast_hash.c\<close> that the tables of the tool use, on lists of bytes.
  An \<^verbatim>\<open>int\<close> is hashed through its four bytes in memory, least significant byte first. The tables
  are verified for every hash function; these are the ones they are instantiated with.
\<close>

type_synonym byte = "8 word"

definition get16bits :: "byte \<Rightarrow> byte \<Rightarrow> u32" where
  "get16bits d0 d1 = push_bit 8 (ucast d1) + ucast d0"

definition sfh_step :: "byte \<Rightarrow> byte \<Rightarrow> byte \<Rightarrow> byte \<Rightarrow> u32 \<Rightarrow> u32" where
  "sfh_step b0 b1 b2 b3 hash =
     (let hash = hash + get16bits b0 b1;
          tmp = push_bit 11 (get16bits b2 b3) XOR hash;
          hash = push_bit 16 hash XOR tmp
      in hash + drop_bit 11 hash)"

text \<open>The main loop over four bytes at a time and the end cases for the remaining ones.\<close>

fun sfh_loop :: "byte list \<Rightarrow> u32 \<Rightarrow> u32" where
  "sfh_loop (b0 # b1 # b2 # b3 # data) hash = sfh_loop data (sfh_step b0 b1 b2 b3 hash)"
| "sfh_loop [b0, b1, b2] hash =
     (let hash = hash + get16bits b0 b1; hash = hash XOR push_bit 16 hash;
          hash = hash XOR push_bit 18 (ucast b2)
      in hash + drop_bit 11 hash)"
| "sfh_loop [b0, b1] hash =
     (let hash = hash + get16bits b0 b1; hash = hash XOR push_bit 11 hash in hash + drop_bit 17 hash)"
| "sfh_loop [b0] hash =
     (let hash = hash + ucast b0; hash = hash XOR push_bit 10 hash in hash + drop_bit 1 hash)"
| "sfh_loop [] hash = hash"

definition sfh_avalanche :: "u32 \<Rightarrow> u32" where
  "sfh_avalanche hash =
     (let hash = hash XOR push_bit 3 hash; hash = hash + drop_bit 5 hash;
          hash = hash XOR push_bit 4 hash; hash = hash + drop_bit 17 hash;
          hash = hash XOR push_bit 25 hash
      in hash + drop_bit 6 hash)"

definition SuperFastHash :: "byte list \<Rightarrow> u32 \<Rightarrow> u32" where
  "SuperFastHash data hash = (if data = [] then 0 else sfh_avalanche (sfh_loop data hash))"

fun oat_loop :: "byte list \<Rightarrow> u32 \<Rightarrow> u32" where
  "oat_loop [] h = h"
| "oat_loop (b # data) h =
     (let h = h + ucast b; h = h + push_bit 10 h in oat_loop data (h XOR drop_bit 6 h))"

definition oat_hash :: "byte list \<Rightarrow> u32 \<Rightarrow> u32" where
  "oat_hash data seed =
     (let h = oat_loop data seed; h = h + push_bit 3 h; h = h XOR drop_bit 11 h in h + push_bit 15 h)"

definition Mix :: "u32 \<Rightarrow> u32" where
  "Mix state =
     (let state = state + push_bit 12 state; state = state XOR drop_bit 22 state;
          state = state + push_bit 4 state; state = state XOR drop_bit 9 state;
          state = state + push_bit 10 state; state = state XOR drop_bit 2 state;
          state = state + push_bit 7 state
      in state XOR drop_bit 12 state)"

text \<open>The bytes of an \<^verbatim>\<open>int\<close>.\<close>

definition int_bytes :: "int \<Rightarrow> byte list" where
  "int_bytes i = map (\<lambda>k. ucast (drop_bit (8 * k) (word_of_int i :: u32))) [0, 1, 2, 3]"

end
