(* ===== verification/Treedbs.thy ===== *)
theory Treedbs
  imports Fast_Hash
begin

text \<open>
  The tree database of \<^verbatim>\<open>src/src/util-lib/treedbs.c\<close>, which stores integer vectors: a balanced binary
  tree over the positions of the vectors, in every inner node of which a hash table numbers pairs.
  The arrays of the C structure that are indexed by a node are one record per node. An array that
  is allocated without being filled is a function from indices; the code never reads a cell it has
  not written. Numbers of pairs are natural numbers below the range of \<^verbatim>\<open>int\<close>.
\<close>

section \<open>Model\<close>

abbreviation BLOCKSIZE :: nat where "BLOCKSIZE \<equiv> 256"

definition hashvalue :: "int \<Rightarrow> int \<Rightarrow> u32" where
  "hashvalue left right = SuperFastHash (int_bytes left) (SuperFastHash (int_bytes right) 0)"

record tnode =
  db_left :: "nat \<Rightarrow> int"
  db_right :: "nat \<Rightarrow> int"
  db_bucket :: "nat \<Rightarrow> int"
  db_size :: nat
  db_next :: nat
  db_hash :: "nat \<Rightarrow> int"
  db_mask :: u32
  db_hash_size :: nat

record treedbs =
  nPars :: nat
  count :: nat
  dbrange :: nat
  dbmap :: "nat \<Rightarrow> int"
  dbrev :: "nat \<Rightarrow> int"
  db_node :: "nat \<Rightarrow> tnode"
  db_tree_left :: "nat \<Rightarrow> nat"
  db_tree_right :: "nat \<Rightarrow> nat"
  db_tree_path :: "nat \<Rightarrow> int list"

definition slot_of :: "u32 \<Rightarrow> int \<Rightarrow> int \<Rightarrow> nat" where
  "slot_of msk left right = unat (hashvalue left right AND msk)"

text \<open>The second loop of \<^verbatim>\<open>resize_hash\<close>: entry \<open>i\<close> becomes the head of its bucket.\<close>

definition rehash_step :: "nat \<Rightarrow> tnode \<Rightarrow> tnode" where
  "rehash_step i nd =
     (let hash = slot_of (db_mask nd) (db_left nd i) (db_right nd i)
      in nd\<lparr>db_bucket := (db_bucket nd)(i := db_hash nd hash), db_hash := (db_hash nd)(hash := int i)\<rparr>)"

definition resize_hash :: "tnode \<Rightarrow> tnode" where
  "resize_hash nd =
     (let nd = nd\<lparr>db_hash_size := db_hash_size nd * 2, db_mask := push_bit 1 (db_mask nd) OR 1, db_hash := (\<lambda>i. -1)\<rparr>
      in fold rehash_step [0..<db_next nd] nd)"

definition resize_data :: "tnode \<Rightarrow> tnode" where
  "resize_data nd =
     (let blk_count = db_size nd div BLOCKSIZE
      in nd\<lparr>db_size := db_size nd + BLOCKSIZE * (blk_count div 2 + 1)\<rparr>)"

text \<open>The walk through a bucket; \<open>None\<close> means that it never ends.\<close>

partial_function (option) chain_find :: "tnode \<Rightarrow> int \<Rightarrow> int \<Rightarrow> int \<Rightarrow> int option" where
  "chain_find nd left right result =
     (if result \<ge> 0
      then if db_left nd (nat result) = left \<and> db_right nd (nat result) = right then Some result
           else chain_find nd left right (db_bucket nd (nat result))
      else Some result)"

declare chain_find.simps [code]

definition make_room :: "tnode \<Rightarrow> tnode" where
  "make_room nd = (let nd = resize_data nd in if db_hash_size nd < db_size nd then resize_hash nd else nd)"

lemma rehash_keeps [simp]:
  "db_size (fold rehash_step is nd) = db_size nd" "db_next (fold rehash_step is nd) = db_next nd"
  "db_left (fold rehash_step is nd) = db_left nd" "db_right (fold rehash_step is nd) = db_right nd"
  "db_mask (fold rehash_step is nd) = db_mask nd" "db_hash_size (fold rehash_step is nd) = db_hash_size nd"
  by (induction "is" arbitrary: nd) (simp_all add: rehash_step_def Let_def)

lemma make_room_grows:
  "db_size nd < db_size (make_room nd)" "db_next (make_room nd) = db_next nd"
  by (simp_all add: make_room_def resize_data_def resize_hash_def Let_def)

text \<open>The loop that makes room for one more entry.\<close>

function room_loop :: "tnode \<Rightarrow> tnode" where
  "room_loop nd = (if \<not> db_next nd < db_size nd then room_loop (make_room nd) else nd)"
  by pat_completeness auto
termination
  by (relation "measure (\<lambda>nd. Suc (db_next nd) - db_size nd)") (auto simp: make_room_grows diff_less_mono2)

declare room_loop.simps [simp del]

definition db_insert :: "tnode \<Rightarrow> int \<Rightarrow> int \<Rightarrow> (nat \<times> bool \<times> tnode) option" where
  "db_insert nd left right =
     (case chain_find nd left right (db_hash nd (slot_of (db_mask nd) left right)) of
        None \<Rightarrow> None
      | Some result \<Rightarrow>
          if result < 0
          then let nd = room_loop nd; hash = slot_of (db_mask nd) left right; result = db_next nd
               in Some (result, False,
                    nd\<lparr>db_next := db_next nd + 1, db_left := (db_left nd)(result := left),
                       db_right := (db_right nd)(result := right),
                       db_bucket := (db_bucket nd)(result := db_hash nd hash),
                       db_hash := (db_hash nd)(hash := int result)\<rparr>)
          else Some (nat result, True, nd))"

definition TreeCount :: "treedbs \<Rightarrow> nat" where
  "TreeCount dbs = (if nPars dbs = 1 then count dbs else db_next (db_node dbs 1))"

text \<open>The growth of \<^verbatim>\<open>range\<close> for vectors of length one, and the value of a child while a vector is folded.\<close>

function grow_range :: "nat \<Rightarrow> int \<Rightarrow> nat" where
  "grow_range r v =
     (if v \<ge> int r then grow_range (r + BLOCKSIZE * ((r div BLOCKSIZE) div 2 + 1)) v else r)"
  by pat_completeness auto
termination
  by (relation "measure (\<lambda>(r, v). nat (v + 1) - r)") auto

declare grow_range.simps [simp del]

definition child_value :: "treedbs \<Rightarrow> int list \<Rightarrow> (nat \<Rightarrow> int) \<Rightarrow> nat \<Rightarrow> int" where
  "child_value dbs vector tmp c = (if c < nPars dbs then tmp c else vector ! (c - nPars dbs))"

fun fold_nodes :: "nat list \<Rightarrow> treedbs \<Rightarrow> int list \<Rightarrow> (nat \<Rightarrow> int) \<Rightarrow> bool \<Rightarrow> (treedbs \<times> (nat \<Rightarrow> int) \<times> bool) option" where
  "fold_nodes [] dbs vector tmp seen = Some (dbs, tmp, seen)"
| "fold_nodes (i # is) dbs vector tmp seen =
     (case db_insert (db_node dbs i) (child_value dbs vector tmp (db_tree_left dbs i))
        (child_value dbs vector tmp (db_tree_right dbs i)) of
        None \<Rightarrow> None
      | Some (k, seen, nd) \<Rightarrow>
          fold_nodes is (dbs\<lparr>db_node := (db_node dbs)(i := nd)\<rparr>) vector (tmp(i := int k)) seen)"

text \<open>
  \<^verbatim>\<open>TreeFold_ret\<close> returns \<^verbatim>\<open>seen\<close> and, through its last argument, the number of the vector. The value
  of a vector of length one indexes the map and must not be negative.
\<close>

definition TreeFold_ret :: "treedbs \<Rightarrow> int list \<Rightarrow> (nat \<times> bool \<times> treedbs) option" where
  "TreeFold_ret dbs vector =
     (if nPars dbs = 1
      then let old = dbrange dbs; r = grow_range old (vector ! 0);
               dbs = dbs\<lparr>dbrange := r, dbmap := (\<lambda>k. if old \<le> k \<and> k < r then -1 else dbmap dbs k),
                      dbrev := (\<lambda>k. if old \<le> k \<and> k < r then -1 else dbrev dbs k)\<rparr>;
               v = nat (vector ! 0)
           in if dbmap dbs v = -1
              then Some (count dbs, False, dbs\<lparr>dbmap := (dbmap dbs)(v := int (count dbs)),
                     dbrev := (dbrev dbs)(count dbs := vector ! 0), count := count dbs + 1\<rparr>)
              else Some (nat (dbmap dbs v), True, dbs)
      else case fold_nodes (rev [1..<nPars dbs]) dbs vector (\<lambda>i. 0) False of
          None \<Rightarrow> None
        | Some (dbs, tmp, seen) \<Rightarrow> Some (nat (tmp 1), seen, dbs))"













definition TreeDBSclear :: "treedbs \<Rightarrow> treedbs" where
  "TreeDBSclear dbs =
     (if nPars dbs = 1 then dbs\<lparr>count := 0, dbmap := (\<lambda>k. if k < dbrange dbs then 0 else dbmap dbs k)\<rparr>
      else dbs\<lparr>db_node := (\<lambda>i. if 1 \<le> i \<and> i < nPars dbs
             then (db_node dbs i)\<lparr>db_hash := (\<lambda>j. if j < db_hash_size (db_node dbs i) then -1 else db_hash (db_node dbs i) j),
               db_next := 0\<rparr> else db_node dbs i)\<rparr>)"

section \<open>The hash table of a node\<close>

definition enc :: "nat option \<Rightarrow> int" where
  "enc r = (case r of None \<Rightarrow> -1 | Some i \<Rightarrow> int i)"

lemma enc_simps [simp]: "enc None = -1" "enc (Some i) = int i"
  by (simp_all add: enc_def)

definition entry :: "tnode \<Rightarrow> nat \<Rightarrow> int \<times> int" where
  "entry nd i = (db_left nd i, db_right nd i)"

definition entries :: "tnode \<Rightarrow> (int \<times> int) list" where
  "entries nd = map (entry nd) [0..<db_next nd]"




















section \<open>The shape of the tree\<close>

text \<open>The tree that \<^verbatim>\<open>mktree\<close> builds: a leaf with its number or an inner node with its number.\<close>

datatype shape = SL nat | SN nat shape shape



fun leaves :: "shape \<Rightarrow> nat list" where
  "leaves (SL p) = [p]"
| "leaves (SN n l r) = leaves l @ leaves r"



function mk_shape :: "nat \<Rightarrow> nat \<Rightarrow> nat \<Rightarrow> shape" where
  "mk_shape n b e =
     (if b < e then let m = b + (e - b) div 2
        in SN n (mk_shape (n + 1) b m) (mk_shape (n + 1 + (m - b)) (m + 1) e)
      else SL b)"
  by pat_completeness auto
termination
  by (relation "measure (\<lambda>(n, b, e). e - b)") auto

declare mk_shape.simps [simp del]

lemma mk_shape_leaf [simp]: "mk_shape n b b = SL b"
  by (simp add: mk_shape.simps)








definition shape_of :: "treedbs \<Rightarrow> (nat \<Rightarrow> nat) \<times> (nat \<Rightarrow> nat) \<times> (nat \<Rightarrow> int list)" where
  "shape_of dbs = (db_tree_left dbs, db_tree_right dbs, db_tree_path dbs)"

definition with_shape :: "treedbs \<Rightarrow> (nat \<Rightarrow> nat) \<times> (nat \<Rightarrow> nat) \<times> (nat \<Rightarrow> int list) \<Rightarrow> treedbs" where
  "with_shape dbs Y = dbs\<lparr>db_tree_left := fst Y, db_tree_right := fst (snd Y), db_tree_path := snd (snd Y)\<rparr>"

lemma with_shape_simps [simp]:
  "shape_of (with_shape dbs Y) = Y" "with_shape (with_shape dbs Y) Z = with_shape dbs Z"
  "nPars (with_shape dbs Y) = nPars dbs" "with_shape dbs (shape_of dbs) = dbs"
  "db_tree_left (with_shape dbs (L, R, P)) = L" "db_tree_right (with_shape dbs (L, R, P)) = R"
  "db_tree_path (with_shape dbs (L, R, P)) = P"
  "(with_shape dbs (L, R, P))\<lparr>db_tree_left := L'\<rparr> = with_shape dbs (L', R, P)"
  "(with_shape dbs (L, R, P))\<lparr>db_tree_right := R'\<rparr> = with_shape dbs (L, R', P)"
  by (simp_all add: shape_of_def with_shape_def)


section \<open>The vectors below a node\<close>

fun vec :: "(nat \<Rightarrow> tnode) \<Rightarrow> shape \<Rightarrow> int \<Rightarrow> int list" where
  "vec D (SL p) k = [k]"
| "vec D (SN n l r) k = vec D l (db_left (D n) (nat k)) @ vec D r (db_right (D n) (nat k))"



definition extends :: "(nat \<Rightarrow> tnode) \<Rightarrow> (nat \<Rightarrow> tnode) \<Rightarrow> bool" where
  "extends D D' \<longleftrightarrow> (\<forall>n. \<exists>xs. entries (D' n) = entries (D n) @ xs)"


lemma extends_refl [simp]: "extends D D"
  by (simp add: extends_def)


lemma length_entries [simp]: "length (entries nd) = db_next nd"
  by (simp add: entries_def)






lemma length_vec [simp]: "length (vec D t k) = length (leaves t)"
  by (induction t arbitrary: k) auto




section \<open>Unfolding\<close>






section \<open>Folding\<close>









section \<open>The database\<close>





















section \<open>Properties\<close>





text \<open>
  Clearing a database of vectors of length one sets its map to \<open>0\<close> and not to \<open>-1\<close>: afterwards every
  value in the range counts as seen, with the number \<open>0\<close>, although the database is empty.
\<close>

lemma clear_single_wrong:
  assumes "nPars dbs = 1" and "0 \<le> x" and "x < int (dbrange dbs)"
  shows "TreeCount (TreeDBSclear dbs) = 0 \<and> (\<exists>d. TreeFold_ret (TreeDBSclear dbs) [x] = Some (0, True, d))"
proof -
  have "grow_range (dbrange dbs) x = dbrange dbs" using assms(3) by (simp add: grow_range.simps)
  with assms show ?thesis by (simp add: TreeDBSclear_def TreeCount_def TreeFold_ret_def Let_def)
qed

end
