(* ===== verification/Sym_Model.thy ===== *)
theory Sym_Model
  imports Prelude
begin

text \<open>
  Symbolic reachability, from \<^verbatim>\<open>src/src/pins2lts-sym/alg\<close>: on-the-fly learning of transition relations and state
  labels (\<^verbatim>\<open>auxiliary.c\<close>), breadth-first search (\<^verbatim>\<open>bfs.c\<close>), chaining (\<^verbatim>\<open>chain.c\<close>) and deadlock
  detection (\<^verbatim>\<open>auxiliary/prop.c\<close>). Vector sets and relations are sets of vectors and of pairs of short vectors:
  \<open>vs_next\<close>, \<open>vs_prev\<close> and \<open>vs_join\<close> specify the vector-set calls of the search and do not translate code; that the
  list decision diagrams compute them is \<open>search_steps_by_diagrams\<close>. The language module is a parameter: the record \<open>pins\<close> has its
  dependencies, its transitions on short vectors and its state labels. Vectors are of a domain that does
  not separate reads and writes. Left out are action detection, invariants, traces, inhibited classes, statistics and
  the versions for parallel hardware.
\<close>

section \<open>The model under analysis\<close>

record pins =
  p_N :: nat
  nGrps :: nat
  r_projs :: "nat \<Rightarrow> nat list"
  transitions_short :: "nat \<Rightarrow> nat list \<Rightarrow> nat list list"
  p_guards :: "nat \<Rightarrow> nat list"
  nGuards :: nat
  l_projs :: "nat \<Rightarrow> nat list"
  state_label_short :: "nat \<Rightarrow> nat list \<Rightarrow> nat"
  valid_end :: "(nat list \<Rightarrow> bool) option"

record sym_opts =
  use_guards :: bool
  no_soundness_check :: bool
  maybe_and_false_is_false :: bool
  no_exit :: bool
  save_sat_levels :: bool

record sym =
  group_next :: "nat \<Rightarrow> (nat list \<times> nat list) set"
  group_explored :: "nat \<Rightarrow> nat list set"
  label_true :: "nat \<Rightarrow> nat list set"
  label_false :: "nat \<Rightarrow> nat list set"
  dlk_detect :: bool
  eg_count :: nat
  next_count :: nat
  guard_count :: nat

abbreviation exit_unsound :: err where "exit_unsound \<equiv> Abort_msg ''LTSMIN_EXIT_UNSOUND''"
abbreviation exit_counter_example :: err where "exit_counter_example \<equiv> Abort_msg ''LTSMIN_EXIT_COUNTER_EXAMPLE''"

section \<open>Operations on sets\<close>

abbreviation short :: "nat list \<Rightarrow> nat list \<Rightarrow> nat list" where
  "short ps x \<equiv> map ((!) x) ps"

definition put_short :: "nat list \<Rightarrow> nat list \<Rightarrow> nat list \<Rightarrow> nat list" where
  "put_short ps x b = fold (\<lambda>(p, v) x. x[p := v]) (zip ps b) x"

definition vs_next :: "nat list \<Rightarrow> (nat list \<times> nat list) set \<Rightarrow> nat list set \<Rightarrow> nat list set" where
  "vs_next ps Q A = (\<Union>x \<in> A. (\<lambda>(a, b). put_short ps x b) ` {(a, b) \<in> Q. a = short ps x})"

definition vs_prev :: "nat list \<Rightarrow> (nat list \<times> nat list) set \<Rightarrow> nat list set \<Rightarrow> nat list set \<Rightarrow> nat list set" where
  "vs_prev ps Q A U = {x \<in> U. \<exists>(a, b) \<in> Q. a = short ps x \<and> put_short ps x b \<in> A}"

definition vs_join :: "nat list \<Rightarrow> nat list set \<Rightarrow> nat list set \<Rightarrow> nat list set" where
  "vs_join ps A L = {x \<in> A. short ps x \<in> L}"

section \<open>Learning\<close>

definition expand_group_next :: "pins \<Rightarrow> nat \<Rightarrow> nat list set \<Rightarrow> sym \<Rightarrow> sym" where
  "expand_group_next pm g A s =
     (let tmp = short (r_projs pm g) ` A - group_explored s g
      in s\<lparr>group_next := (group_next s)(g := group_next s g \<union> (\<Union>a \<in> tmp. Pair a ` set (transitions_short pm g a))),
           group_explored := (group_explored s)(g := group_explored s g \<union> tmp)\<rparr>)"

definition eval_label :: "pins \<Rightarrow> sym_opts \<Rightarrow> nat \<Rightarrow> nat list set \<Rightarrow> sym \<Rightarrow> sym" where
  "eval_label pm opts l A s =
     (let tmp = short (l_projs pm l) ` A - label_false s l - label_true s l
      in s\<lparr>label_false := (label_false s)(l := label_false s l \<union> {a \<in> tmp. state_label_short pm l a = 0 \<or> state_label_short pm l a = 2}),
           label_true := (label_true s)(l := label_true s l \<union> {a \<in> tmp. state_label_short pm l a = 1
             \<or> state_label_short pm l a = 2 \<and> \<not> no_soundness_check opts})\<rparr>)"

definition drop_maybe :: "nat \<Rightarrow> sym \<Rightarrow> sym" where
  "drop_maybe l s = s\<lparr>label_true := (label_true s)(l := label_true s l - label_false s l)\<rparr>"

text \<open>The loop of \<^verbatim>\<open>learn_guards_reduce\<close> over the guards of a group; the sets are the true, the false and the maybe states.\<close>

fun guard_loop :: "pins \<Rightarrow> sym_opts \<Rightarrow> bool \<Rightarrow> nat list \<Rightarrow> nat list set \<Rightarrow> nat list set \<Rightarrow> nat list set \<Rightarrow> sym
    \<Rightarrow> (nat list set \<times> nat list set \<times> nat list set \<times> sym) result" where
  "guard_loop pm opts counting [] T F M s = Inr (T, F, M, s)"
| "guard_loop pm opts counting (g # gs) T F M s =
     (if T = {} then Inr (T, F, M, s)
      else let s = (if counting then s\<lparr>guard_count := guard_count s + 1\<rparr> else s);
               s = eval_label pm opts g T s;
               maybe = label_true s g \<inter> label_false s g;
               T' = vs_join (l_projs pm g) T (label_true s g)
           in if no_soundness_check opts then guard_loop pm opts counting gs T' F M s
              else if \<not> maybe_and_false_is_false opts then
                if maybe \<noteq> {} then Inl exit_unsound else guard_loop pm opts counting gs T' F M s
              else let tmp = vs_join (l_projs pm g) T maybe
                in guard_loop pm opts counting gs T' (F \<union> vs_join (l_projs pm g) T (label_false s g) - tmp) (M \<union> tmp) s)"

definition learn_guards_reduce :: "pins \<Rightarrow> sym_opts \<Rightarrow> bool \<Rightarrow> nat \<Rightarrow> nat list set \<Rightarrow> sym \<Rightarrow> (nat list set \<times> sym) result" where
  "learn_guards_reduce pm opts counting t T s =
     (if \<not> use_guards opts then Inr (T, s)
      else result_bind (guard_loop pm opts counting (p_guards pm t) T {} {} s) (\<lambda>(T, F, M, s).
        if \<not> no_soundness_check opts \<and> maybe_and_false_is_false opts \<and> M - F \<noteq> {} then Inl exit_unsound
        else Inr (T, if no_soundness_check opts then s else fold drop_maybe (p_guards pm t) s)))"

fun reduce_loop :: "pins \<Rightarrow> sym \<Rightarrow> nat list \<Rightarrow> nat list set \<Rightarrow> nat list set" where
  "reduce_loop pm s [] A = A"
| "reduce_loop pm s (g # gs) A = (if A = {} then A else reduce_loop pm s gs (vs_join (l_projs pm g) A (label_true s g)))"

definition reduce :: "pins \<Rightarrow> sym_opts \<Rightarrow> nat \<Rightarrow> nat list set \<Rightarrow> sym \<Rightarrow> nat list set" where
  "reduce pm opts t A s = (if use_guards opts then reduce_loop pm s (p_guards pm t) A else A)"

definition learn_guards :: "pins \<Rightarrow> sym_opts \<Rightarrow> nat list set \<Rightarrow> sym \<Rightarrow> sym" where
  "learn_guards pm opts A s = (if use_guards opts
     then fold (\<lambda>g s. eval_label pm opts g A (s\<lparr>guard_count := guard_count s + 1\<rparr>)) [0..<nGuards pm] s else s)"

section \<open>Deadlocks\<close>

text \<open>The groups that are not searched may have transitions as well.\<close>

definition deadlock_group :: "pins \<Rightarrow> sym_opts \<Rightarrow> (nat \<Rightarrow> bool) \<Rightarrow> nat \<Rightarrow> nat list set \<times> sym \<Rightarrow> (nat list set \<times> sym) result" where
  "deadlock_group pm opts reach_groups i = (\<lambda>(D, s).
     if reach_groups i then Inr (D, s)
     else result_bind (learn_guards_reduce pm opts False i D s) (\<lambda>(R, s).
       let s = expand_group_next pm i R s;
           next_temp = vs_next (r_projs pm i) (group_next s i) R;
           prev_temp = reduce pm opts i (vs_prev (r_projs pm i) (group_next s i) next_temp R) s
       in Inr (D - prev_temp, s)))"

text \<open>A model may have a label for the states in which an execution may end.\<close>

definition invalid_end :: "pins \<Rightarrow> nat list \<Rightarrow> bool" where
  "invalid_end pm x = (case valid_end pm of None \<Rightarrow> True | Some f \<Rightarrow> \<not> f x)"

definition deadlock_check :: "pins \<Rightarrow> sym_opts \<Rightarrow> (nat \<Rightarrow> bool) \<Rightarrow> nat list set \<Rightarrow> sym \<Rightarrow> sym result" where
  "deadlock_check pm opts reach_groups D s =
     (if D = {} then Inr s
      else result_bind (fold_result (deadlock_group pm opts reach_groups) [0..<nGrps pm] (D, s)) (\<lambda>(D, s).
        if D = {} then Inr s
        else if valid_end pm \<noteq> None \<and> (\<forall>x \<in> D. \<not> invalid_end pm x) then Inr s
        else if no_exit opts then Inr (s\<lparr>dlk_detect := False\<rparr>)
        else Inl exit_counter_example))"

definition check_deadlocks :: "pins \<Rightarrow> sym_opts \<Rightarrow> (nat \<Rightarrow> bool) \<Rightarrow> nat list set \<Rightarrow> sym \<Rightarrow> sym result" where
  "check_deadlocks pm opts reach_groups D s = (if dlk_detect s then deadlock_check pm opts reach_groups D s else Inr s)"

section \<open>Chaining\<close>

definition count_step :: "sym \<Rightarrow> sym" where
  "count_step s = s\<lparr>eg_count := eg_count s + 1, next_count := next_count s + 1\<rparr>"

definition reach_chain_group :: "pins \<Rightarrow> sym_opts \<Rightarrow> (nat \<Rightarrow> bool) \<Rightarrow> nat \<Rightarrow> nat list set \<times> nat list set \<times> sym
    \<Rightarrow> (nat list set \<times> nat list set \<times> sym) result" where
  "reach_chain_group pm opts reach_groups i = (\<lambda>(visited, deadlocks, s).
     if \<not> reach_groups i then Inr (visited, deadlocks, s)
     else result_bind (learn_guards_reduce pm opts True i visited s) (\<lambda>(new_reduced, s).
       let s = count_step (expand_group_next pm i new_reduced s);
           temp = vs_next (r_projs pm i) (group_next s i) new_reduced;
           dlk_temp = reduce pm opts i (vs_prev (r_projs pm i) (group_next s i) temp deadlocks) s
       in Inr (visited \<union> temp, if dlk_detect s then deadlocks - dlk_temp else deadlocks, s)))"

partial_function (option) reach_chain_loop :: "pins \<Rightarrow> sym_opts \<Rightarrow> (nat \<Rightarrow> bool) \<Rightarrow> nat list set \<Rightarrow> nat list set \<Rightarrow> sym
    \<Rightarrow> (nat list set \<times> sym) result option" where
  "reach_chain_loop pm opts reach_groups visited old_vis s = (if visited = old_vis then ret (visited, s)
     else rbind (Some (fold_result (reach_chain_group pm opts reach_groups) [0..<nGrps pm] (visited, visited, s))) (\<lambda>(visited', deadlocks, s).
          rbind (Some (check_deadlocks pm opts reach_groups deadlocks s)) (\<lambda>s. reach_chain_loop pm opts reach_groups visited' visited s)))"

definition reach_chain :: "pins \<Rightarrow> sym_opts \<Rightarrow> nat list set \<Rightarrow> (nat \<Rightarrow> bool) \<Rightarrow> nat list set \<Rightarrow> sym \<Rightarrow> (nat list set \<times> sym) result option" where
  "reach_chain pm opts visited_old reach_groups visited s = reach_chain_loop pm opts reach_groups visited {} s"

definition chain_prev_group :: "pins \<Rightarrow> sym_opts \<Rightarrow> (nat \<Rightarrow> bool) \<Rightarrow> nat list set \<Rightarrow> nat \<Rightarrow> nat list set \<times> nat list set \<times> sym
    \<Rightarrow> (nat list set \<times> nat list set \<times> sym) result" where
  "chain_prev_group pm opts reach_groups visited i = (\<lambda>(new_states, deadlocks, s).
     if \<not> reach_groups i then Inr (new_states, deadlocks, s)
     else result_bind (learn_guards_reduce pm opts True i new_states s) (\<lambda>(new_reduced, s).
       if new_reduced = {} then Inr (new_states, deadlocks, s)
       else let s = count_step (expand_group_next pm i new_reduced s);
                temp = vs_next (r_projs pm i) (group_next s i) new_reduced;
                dlk_temp = reduce pm opts i (vs_prev (r_projs pm i) (group_next s i) temp deadlocks) s
            in Inr (new_states \<union> (temp - visited), if dlk_detect s then deadlocks - dlk_temp else deadlocks, s)))"

partial_function (option) chain_prev_loop :: "pins \<Rightarrow> sym_opts \<Rightarrow> (nat \<Rightarrow> bool) \<Rightarrow> nat list set \<Rightarrow> nat list set \<Rightarrow> sym
    \<Rightarrow> (nat list set \<times> sym) result option" where
  "chain_prev_loop pm opts reach_groups visited new_states s = (if new_states = {} then ret (visited, s)
     else rbind (Some (fold_result (chain_prev_group pm opts reach_groups visited) [0..<nGrps pm] (new_states, new_states, s))) (\<lambda>(new_states, deadlocks, s).
          rbind (Some (check_deadlocks pm opts reach_groups deadlocks s)) (\<lambda>s.
            chain_prev_loop pm opts reach_groups (visited \<union> new_states) (new_states - visited) s)))"

definition reach_chain_prev :: "pins \<Rightarrow> sym_opts \<Rightarrow> nat list set \<Rightarrow> (nat \<Rightarrow> bool) \<Rightarrow> nat list set \<Rightarrow> sym \<Rightarrow> (nat list set \<times> sym) result option" where
  "reach_chain_prev pm opts visited_old reach_groups visited s =
     chain_prev_loop pm opts reach_groups visited (if save_sat_levels opts then visited - visited_old else visited) s"

declare reach_chain_loop.simps [code] chain_prev_loop.simps [code]

section \<open>Breadth-first search\<close>

text \<open>
  The search goes over a binary tree whose leaves are the groups, and for each group over a tree whose leaves are its guards. An empty interval
  makes the construction of the tree run forever. The sets in the nodes only pass arguments and results.
\<close>

datatype reach_red_t = Red_leaf nat | Red_node reach_red_t reach_red_t

datatype reach_t = Reach_leaf nat "reach_red_t option" | Reach_node reach_t reach_t

partial_function (option) reach_red_prepare :: "nat \<Rightarrow> nat \<Rightarrow> reach_red_t option" where
  "reach_red_prepare left right = (if right = left + 1 then Some (Red_leaf left)
     else Option.bind (reach_red_prepare left ((left + right) div 2)) (\<lambda>l.
          Option.bind (reach_red_prepare ((left + right) div 2) right) (\<lambda>r. Some (Red_node l r))))"

partial_function (option) reach_prepare :: "pins \<Rightarrow> sym_opts \<Rightarrow> nat \<Rightarrow> nat \<Rightarrow> reach_t option" where
  "reach_prepare pm opts left right = (if right = left + 1
     then if use_guards opts
          then Option.bind (reach_red_prepare 0 (length (p_guards pm left))) (\<lambda>red. Some (Reach_leaf left (Some red)))
          else Some (Reach_leaf left None)
     else Option.bind (reach_prepare pm opts left ((left + right) div 2)) (\<lambda>l.
          Option.bind (reach_prepare pm opts ((left + right) div 2) right) (\<lambda>r. Some (Reach_node l r))))"

fun reach_bfs_reduce :: "pins \<Rightarrow> sym_opts \<Rightarrow> nat \<Rightarrow> sym \<Rightarrow> reach_red_t \<Rightarrow> nat list set \<Rightarrow> nat list set \<times> nat list set" where
  "reach_bfs_reduce pm opts grp s (Red_leaf index) T =
     (if T = {} then (T, {})
      else let guard = p_guards pm grp ! index
           in (vs_join (l_projs pm guard) T (label_true s guard),
               if no_soundness_check opts then {} else vs_join (l_projs pm guard) T (label_false s guard)))"
| "reach_bfs_reduce pm opts grp s (Red_node left right) T =
     (let (Tl, Fl) = reach_bfs_reduce pm opts grp s left T;
          (Tr, Fr) = reach_bfs_reduce pm opts grp s right T
      in if no_soundness_check opts then (Tl \<inter> Tr, {})
         else let left_maybe = Fl \<inter> Tl;
                  left_maybe = (if maybe_and_false_is_false opts then left_maybe - Fr else left_maybe);
                  right_maybe = Fr \<inter> Tr - Fl;
                  maybe = left_maybe \<union> right_maybe
              in (Tl \<inter> Tr \<union> maybe, Fl \<union> Fr \<union> maybe))"

text \<open>
  The result has the container, the remaining deadlocks and the group that is not sound, if there is one; \<open>dlk\<close> says that the nodes have sets for deadlocks
  and ancestors.
\<close>

fun reach_bfs_next :: "pins \<Rightarrow> sym_opts \<Rightarrow> (nat \<Rightarrow> bool) \<Rightarrow> bool \<Rightarrow> reach_t \<Rightarrow> nat list set \<Rightarrow> nat list set \<Rightarrow> nat list set \<Rightarrow> sym
    \<Rightarrow> nat list set \<times> nat list set \<times> nat option \<times> sym" where
  "reach_bfs_next pm opts reach_groups dlk (Reach_leaf index red) container deadlocks ancestors s =
     (if \<not> reach_groups index then (container, deadlocks, None, s)
      else let (T, F) = (case red of None \<Rightarrow> (container, {}) | Some red \<Rightarrow> reach_bfs_reduce pm opts index s red container)
      in if red \<noteq> None \<and> T = {} then (container, deadlocks, None, s)
      else let unsound = (if red \<noteq> None \<and> \<not> no_soundness_check opts \<and> T \<inter> F \<noteq> {} then Some index else None);
               s = count_step (expand_group_next pm index T s);
               container = vs_next (r_projs pm index) (group_next s index) T;
               ancestors = reduce pm opts index (vs_prev (r_projs pm index) (group_next s index) container ancestors) s
           in (container, if dlk then deadlocks - ancestors else deadlocks, unsound, s))"
| "reach_bfs_next pm opts reach_groups dlk (Reach_node left right) container deadlocks ancestors s =
     (let (cl, dl, ul, s) = reach_bfs_next pm opts reach_groups dlk left container deadlocks ancestors s;
          (cr, dr, ur, s) = reach_bfs_next pm opts reach_groups dlk right container deadlocks ancestors s
      in (cl \<union> cr, if dlk then dl \<inter> dr else deadlocks, if ur \<noteq> None then ur else ul, s))"

text \<open>One level: guards are evaluated, successors are computed, and an unsound group ends the search.\<close>

definition bfs_level :: "pins \<Rightarrow> sym_opts \<Rightarrow> (nat \<Rightarrow> bool) \<Rightarrow> bool \<Rightarrow> reach_t \<Rightarrow> nat list set \<Rightarrow> sym \<Rightarrow> (nat list set \<times> nat list set \<times> sym) result" where
  "bfs_level pm opts reach_groups dlk root level s =
     (let s = learn_guards pm opts level s;
          (container, deadlocks, unsound, s) = reach_bfs_next pm opts reach_groups dlk root level (if dlk_detect s then level else {}) level s
      in if unsound \<noteq> None then Inl exit_unsound
         else Inr (container, deadlocks, if \<not> no_soundness_check opts \<and> use_guards opts then fold drop_maybe [0..<nGuards pm] s else s))"

partial_function (option) bfs_loop :: "pins \<Rightarrow> sym_opts \<Rightarrow> (nat \<Rightarrow> bool) \<Rightarrow> bool \<Rightarrow> reach_t \<Rightarrow> nat list set \<Rightarrow> nat list set \<Rightarrow> sym
    \<Rightarrow> (nat list set \<times> sym) result option" where
  "bfs_loop pm opts reach_groups dlk root visited old_vis s = (if visited = old_vis then ret (visited, s)
     else rbind (Some (bfs_level pm opts reach_groups dlk root visited s)) (\<lambda>(container, deadlocks, s).
          rbind (Some (check_deadlocks pm opts reach_groups deadlocks s)) (\<lambda>s.
            bfs_loop pm opts reach_groups dlk root (visited \<union> container) visited s)))"

definition reach_bfs :: "pins \<Rightarrow> sym_opts \<Rightarrow> nat list set \<Rightarrow> (nat \<Rightarrow> bool) \<Rightarrow> nat list set \<Rightarrow> sym \<Rightarrow> (nat list set \<times> sym) result option" where
  "reach_bfs pm opts visited_old reach_groups visited s = (case reach_prepare pm opts 0 (nGrps pm) of None \<Rightarrow> None
     | Some root \<Rightarrow> bfs_loop pm opts reach_groups (dlk_detect s) root visited {} s)"

partial_function (option) bfs_prev_loop :: "pins \<Rightarrow> sym_opts \<Rightarrow> (nat \<Rightarrow> bool) \<Rightarrow> bool \<Rightarrow> reach_t \<Rightarrow> nat list set \<Rightarrow> nat list set \<Rightarrow> sym
    \<Rightarrow> (nat list set \<times> sym) result option" where
  "bfs_prev_loop pm opts reach_groups dlk root visited current_level s = (if current_level = {} then ret (visited, s)
     else rbind (Some (bfs_level pm opts reach_groups dlk root current_level s)) (\<lambda>(container, deadlocks, s).
          rbind (Some (check_deadlocks pm opts reach_groups deadlocks s)) (\<lambda>s.
            bfs_prev_loop pm opts reach_groups dlk root (visited \<union> (container - visited)) (container - visited) s)))"

definition reach_bfs_prev :: "pins \<Rightarrow> sym_opts \<Rightarrow> nat list set \<Rightarrow> (nat \<Rightarrow> bool) \<Rightarrow> nat list set \<Rightarrow> sym \<Rightarrow> (nat list set \<times> sym) result option" where
  "reach_bfs_prev pm opts visited_old reach_groups visited s = (case reach_prepare pm opts 0 (nGrps pm) of None \<Rightarrow> None
     | Some root \<Rightarrow> bfs_prev_loop pm opts reach_groups (dlk_detect s) root visited (if save_sat_levels opts then visited - visited_old else visited) s)"

declare reach_red_prepare.simps [code] reach_prepare.simps [code] bfs_loop.simps [code] bfs_prev_loop.simps [code]

section \<open>Levels of saturation\<close>

text \<open>
  The level of a group is given by its first position, the levels go from the last positions to the first, \<open>gran\<close> positions
  each. For a level \<open>k\<close>, \<open>back\<close> is the first lower level that shares a position with it. The dependency matrix is \<open>dep\<close>.
\<close>

definition group_level :: "pins \<Rightarrow> (nat \<Rightarrow> nat \<Rightarrow> bool) \<Rightarrow> nat \<Rightarrow> nat \<Rightarrow> nat" where
  "group_level pm dep gran i = (case List.find (dep i) [0..<p_N pm] of None \<Rightarrow> 0 | Some j \<Rightarrow> (p_N pm - j - 1) div gran)"

definition max_sat_levels :: "pins \<Rightarrow> nat \<Rightarrow> nat" where
  "max_sat_levels pm gran = p_N pm div gran + 1"

definition level_matrix :: "pins \<Rightarrow> (nat \<Rightarrow> nat \<Rightarrow> bool) \<Rightarrow> nat \<Rightarrow> nat \<Rightarrow> nat set" where
  "level_matrix pm dep gran k = {j \<in> {..<p_N pm}. \<exists>i \<in> {..<nGrps pm}. group_level pm dep gran i = k \<and> dep i j}"

definition back_level :: "pins \<Rightarrow> (nat \<Rightarrow> nat \<Rightarrow> bool) \<Rightarrow> nat \<Rightarrow> nat \<Rightarrow> nat" where
  "back_level pm dep gran k = (case List.find (\<lambda>j. level_matrix pm dep gran j \<inter> level_matrix pm dep gran k \<noteq> {}) [0..<k] of
     Some j \<Rightarrow> j
   | None \<Rightarrow> if level_matrix pm dep gran k \<noteq> {} then k + 1 else max_sat_levels pm gran)"

record sat_levels =
  max_levels :: nat
  sat_groups :: "nat \<Rightarrow> nat \<Rightarrow> bool"
  empty_groups :: "nat \<Rightarrow> bool"
  sat_back :: "nat \<Rightarrow> nat"

definition initialize_levels :: "pins \<Rightarrow> (nat \<Rightarrow> nat \<Rightarrow> bool) \<Rightarrow> nat \<Rightarrow> (nat \<Rightarrow> bool) \<Rightarrow> sat_levels" where
  "initialize_levels pm dep gran reach_groups =
     (let groups = (\<lambda>k i. i < nGrps pm \<and> group_level pm dep gran i = k \<and> reach_groups i)
      in \<lparr>max_levels = max_sat_levels pm gran, sat_groups = groups,
          empty_groups = (\<lambda>k. \<forall>i \<in> {..<nGrps pm}. \<not> groups k i), sat_back = back_level pm dep gran\<rparr>)"

text \<open>
  The array \<^verbatim>\<open>prev_vis\<close> has one element for each group, and is used with one for each level.
\<close>

type_synonym reach_proc = "nat list set \<Rightarrow> (nat \<Rightarrow> bool) \<Rightarrow> nat list set \<Rightarrow> sym \<Rightarrow> (nat list set \<times> sym) result option"

partial_function (option) sat_like_loop :: "bool \<Rightarrow> sat_levels \<Rightarrow> reach_proc \<Rightarrow> nat \<Rightarrow> nat option \<Rightarrow> (nat \<Rightarrow> nat list set) \<Rightarrow> nat list set \<Rightarrow> sym
    \<Rightarrow> (nat list set \<times> sym) result option" where
  "sat_like_loop save lv proc k last_k prev_vis visited s = (if k < max_levels lv then
     if last_k = Some k \<or> empty_groups lv k then sat_like_loop save lv proc (k + 1) last_k prev_vis visited s
     else rbind (proc (prev_vis k) (sat_groups lv k) visited s) (\<lambda>(visited', s).
       let prev_vis = (if save then prev_vis(k := visited') else prev_vis)
       in if visited = visited' then sat_like_loop save lv proc (k + 1) last_k prev_vis visited' s
          else sat_like_loop save lv proc (sat_back lv k) (Some k) prev_vis visited' s)
     else ret (visited, s))"

definition reach_sat_like :: "pins \<Rightarrow> sym_opts \<Rightarrow> (nat \<Rightarrow> nat \<Rightarrow> bool) \<Rightarrow> nat \<Rightarrow> reach_proc \<Rightarrow> (nat \<Rightarrow> bool) \<Rightarrow> nat list set \<Rightarrow> sym
    \<Rightarrow> (nat list set \<times> sym) result option" where
  "reach_sat_like pm opts dep gran proc reach_groups visited s =
     (let lv = initialize_levels pm dep gran reach_groups
      in if nGrps pm < max_levels lv then Some (Inl Bad_access)
         else sat_like_loop (save_sat_levels opts) lv proc 0 None (\<lambda>k. {}) visited s)"

definition sat_loop_level :: "bool \<Rightarrow> sat_levels \<Rightarrow> reach_proc \<Rightarrow> nat \<Rightarrow> (nat \<Rightarrow> nat list set) \<times> nat list set \<times> sym
    \<Rightarrow> ((nat \<Rightarrow> nat list set) \<times> nat list set \<times> sym) result option" where
  "sat_loop_level save lv proc k = (\<lambda>(prev_vis, visited, s).
     if empty_groups lv k then ret (prev_vis, visited, s)
     else rbind (proc (prev_vis k) (sat_groups lv k) visited s) (\<lambda>(visited, s).
       ret (if save then prev_vis(k := visited) else prev_vis, visited, s)))"

fun fold_run :: "('a \<Rightarrow> 'b \<Rightarrow> 'b result option) \<Rightarrow> 'a list \<Rightarrow> 'b \<Rightarrow> 'b result option" where
  "fold_run f [] s = ret s"
| "fold_run f (x # xs) s = rbind (f x s) (fold_run f xs)"

partial_function (option) sat_loop_loop :: "bool \<Rightarrow> sat_levels \<Rightarrow> reach_proc \<Rightarrow> nat list set \<Rightarrow> (nat \<Rightarrow> nat list set) \<Rightarrow> nat list set \<Rightarrow> sym
    \<Rightarrow> (nat list set \<times> sym) result option" where
  "sat_loop_loop save lv proc old_vis prev_vis visited s = (if old_vis = visited then ret (visited, s)
     else rbind (fold_run (sat_loop_level save lv proc) [0..<max_levels lv] (prev_vis, visited, s))
       (\<lambda>(prev_vis, visited', s). sat_loop_loop save lv proc visited prev_vis visited' s))"

definition reach_sat_loop :: "pins \<Rightarrow> sym_opts \<Rightarrow> (nat \<Rightarrow> nat \<Rightarrow> bool) \<Rightarrow> nat \<Rightarrow> reach_proc \<Rightarrow> (nat \<Rightarrow> bool) \<Rightarrow> nat list set \<Rightarrow> sym
    \<Rightarrow> (nat list set \<times> sym) result option" where
  "reach_sat_loop pm opts dep gran proc reach_groups visited s =
     (let lv = initialize_levels pm dep gran reach_groups
      in if nGrps pm < max_levels lv then Some (Inl Bad_access)
         else sat_loop_loop (save_sat_levels opts) lv proc {} (\<lambda>k. {}) visited s)"

definition reach_no_sat :: "reach_proc \<Rightarrow> (nat \<Rightarrow> bool) \<Rightarrow> nat list set \<Rightarrow> sym \<Rightarrow> (nat list set \<times> sym) result option" where
  "reach_no_sat proc reach_groups visited s = proc {} reach_groups visited s"

definition unguided :: "((nat \<Rightarrow> bool) \<Rightarrow> nat list set \<Rightarrow> sym \<Rightarrow> (nat list set \<times> sym) result option) \<Rightarrow> nat list set \<Rightarrow> sym
    \<Rightarrow> (nat list set \<times> sym) result option" where
  "unguided sat_proc visited s = sat_proc (\<lambda>i. True) visited (s\<lparr>eg_count := 0, next_count := 0, guard_count := 0\<rparr>)"

declare sat_like_loop.simps [code] sat_loop_loop.simps [code]

end
