(* ===== verification/Sym_Learn.thy ===== *)
theory Sym_Learn
  imports Sym_Model
begin

text \<open>
  What the learned relations and labels mean, and that each step of the search is right: a group of transitions contributes
  exactly the successors under the transitions whose guards hold. Labels are taken to be true or false; the language
  module may also answer that it does not know, which ends a search with soundness checks.
\<close>

section \<open>Transitions\<close>

abbreviation label_of :: "pins \<Rightarrow> nat \<Rightarrow> nat list \<Rightarrow> nat" where
  "label_of pm g x \<equiv> state_label_short pm g (short (l_projs pm g) x)"

definition guards_hold :: "pins \<Rightarrow> sym_opts \<Rightarrow> nat \<Rightarrow> nat list \<Rightarrow> bool" where
  "guards_hold pm opts i x \<longleftrightarrow> use_guards opts \<longrightarrow> (\<forall>g \<in> set (p_guards pm i). label_of pm g x = 1)"

definition act_succ :: "pins \<Rightarrow> nat \<Rightarrow> nat list \<Rightarrow> nat list set" where
  "act_succ pm i x = put_short (r_projs pm i) x ` set (transitions_short pm i (short (r_projs pm i) x))"

definition step :: "pins \<Rightarrow> sym_opts \<Rightarrow> nat \<Rightarrow> (nat list \<times> nat list) set" where
  "step pm opts i = {(x, y). guards_hold pm opts i x \<and> y \<in> act_succ pm i x}"

definition two_valued :: "pins \<Rightarrow> bool" where
  "two_valued pm \<longleftrightarrow> (\<forall>g a. state_label_short pm g a = 0 \<or> state_label_short pm g a = 1)"

section \<open>Learned information\<close>

definition known :: "pins \<Rightarrow> sym \<Rightarrow> bool" where
  "known pm s \<longleftrightarrow> (\<forall>i. group_next s i = {(a, b). a \<in> group_explored s i \<and> b \<in> set (transitions_short pm i a)})
     \<and> (\<forall>g. (\<forall>a \<in> label_true s g. state_label_short pm g a = 1) \<and> (\<forall>a \<in> label_false s g. state_label_short pm g a = 0))"

definition grows :: "sym \<Rightarrow> sym \<Rightarrow> bool" where
  "grows s t \<longleftrightarrow> (\<forall>g. label_true s g \<subseteq> label_true t g \<and> label_false s g \<subseteq> label_false t g) \<and> (\<forall>i. group_explored s i \<subseteq> group_explored t i)
     \<and> dlk_detect t = dlk_detect s"

definition guards_known :: "pins \<Rightarrow> sym_opts \<Rightarrow> nat \<Rightarrow> nat list \<Rightarrow> sym \<Rightarrow> bool" where
  "guards_known pm opts i x s \<longleftrightarrow> (use_guards opts \<longrightarrow> (\<forall>g \<in> set (p_guards pm i). short (l_projs pm g) x \<in> label_true s g))"

lemma grows_refl [simp]: "grows s s"
  by (simp add: grows_def)

lemma grows_trans: "grows s t \<Longrightarrow> grows t u \<Longrightarrow> grows s u"
  unfolding grows_def by (metis subset_trans)

lemma guards_known_mono: "guards_known pm opts i x s \<Longrightarrow> grows s t \<Longrightarrow> guards_known pm opts i x t"
  unfolding guards_known_def grows_def by blast

lemma guards_known_hold: "known pm s \<Longrightarrow> guards_known pm opts i x s \<Longrightarrow> guards_hold pm opts i x"
  unfolding guards_known_def guards_hold_def known_def by blast

lemma count_step_simps [simp]:
  "group_next (count_step s) = group_next s" "group_explored (count_step s) = group_explored s" "label_true (count_step s) = label_true s"
  "label_false (count_step s) = label_false s" "dlk_detect (count_step s) = dlk_detect s"
  by (simp_all add: count_step_def)

lemma count_step_known [simp]: "known pm (count_step s) = known pm s" "grows s (count_step s)" "guards_known pm opts i x (count_step s) = guards_known pm opts i x s"
  by (simp_all add: known_def grows_def guards_known_def)

lemma expand_known:
  assumes "known pm s"
  shows "known pm (expand_group_next pm i A s)" and "grows s (expand_group_next pm i A s)"
    and "short (r_projs pm i) ` A \<subseteq> group_explored (expand_group_next pm i A s) i"
  using assms by (auto simp: known_def grows_def expand_group_next_def Let_def)

lemma next_known:
  assumes "known pm s" and "short (r_projs pm i) ` A \<subseteq> group_explored s i"
  shows "vs_next (r_projs pm i) (group_next s i) A = (\<Union>x \<in> A. act_succ pm i x)"
proof -
  have "(\<lambda>(a, b). put_short (r_projs pm i) x b) ` {(a, b) \<in> group_next s i. a = short (r_projs pm i) x} = act_succ pm i x" if "x \<in> A" for x
  proof -
    have "short (r_projs pm i) x \<in> group_explored s i" using assms(2) that by blast
    then have "{(a, b) \<in> group_next s i. a = short (r_projs pm i) x} = Pair (short (r_projs pm i) x) ` set (transitions_short pm i (short (r_projs pm i) x))"
      using assms(1) unfolding known_def by auto
    then show ?thesis by (simp add: act_succ_def image_image)
  qed
  then show ?thesis by (simp add: vs_next_def)
qed

lemma prev_known:
  assumes "known pm s"
  shows "vs_prev (r_projs pm i) (group_next s i) A U = {x \<in> U. short (r_projs pm i) x \<in> group_explored s i \<and> act_succ pm i x \<inter> A \<noteq> {}}"
  using assms unfolding vs_prev_def known_def act_succ_def by auto

section \<open>Labels\<close>

lemma eval_label_known:
  assumes "two_valued pm" and "known pm s"
  shows "known pm (eval_label pm opts g A s)" and "grows s (eval_label pm opts g A s)"
    and "x \<in> A \<Longrightarrow> short (l_projs pm g) x \<in> label_true (eval_label pm opts g A s) g \<longleftrightarrow> label_of pm g x = 1"
    and "x \<in> A \<Longrightarrow> short (l_projs pm g) x \<in> label_false (eval_label pm opts g A s) g \<longleftrightarrow> label_of pm g x = 0"
proof -
  have tv: "state_label_short pm g a \<noteq> 2" "state_label_short pm g a = 0 \<or> state_label_short pm g a = 1" for a
    using assms(1) unfolding two_valued_def by (metis numeral_2_eq_2 zero_neq_numeral One_nat_def n_not_Suc_n)+
  show "known pm (eval_label pm opts g A s)" "grows s (eval_label pm opts g A s)"
    using assms(2) tv by (auto simp: eval_label_def Let_def known_def grows_def)
  assume x: "x \<in> A"
  have "short (l_projs pm g) x \<in> short (l_projs pm g) ` A" using x by blast
  then show "short (l_projs pm g) x \<in> label_true (eval_label pm opts g A s) g \<longleftrightarrow> label_of pm g x = 1"
      "short (l_projs pm g) x \<in> label_false (eval_label pm opts g A s) g \<longleftrightarrow> label_of pm g x = 0"
    using assms(2) tv(1) unfolding known_def by (auto simp: eval_label_def Let_def)
qed

lemma known_disjoint: "known pm s \<Longrightarrow> label_true s g \<inter> label_false s g = {}"
  unfolding known_def by fastforce

lemma drop_maybe_known: "known pm s \<Longrightarrow> fold drop_maybe gs s = s"
proof (induction gs)
  case (Cons g gs)
  have "drop_maybe g s = s" using known_disjoint[OF Cons.prems] by (simp add: drop_maybe_def Diff_triv)
  then show ?case using Cons by simp
qed simp

lemma known_count [simp]: "known pm (s\<lparr>guard_count := n\<rparr>) = known pm s" "grows s (s\<lparr>guard_count := n\<rparr>)"
  by (simp_all add: known_def grows_def)

lemma guard_loop_run:
  assumes tv: "two_valued pm"
  shows "known pm s \<Longrightarrow> \<exists>F' t. guard_loop pm opts counting gs T F M s = Inr ({x \<in> T. \<forall>g \<in> set gs. label_of pm g x = 1}, F', M, t) \<and> known pm t \<and> grows s t
    \<and> (\<forall>x \<in> T. (\<forall>g \<in> set gs. label_of pm g x = 1) \<longrightarrow> (\<forall>g \<in> set gs. short (l_projs pm g) x \<in> label_true t g))"
proof (induction gs arbitrary: T F s)
  case Nil
  then show ?case by auto
next
  case (Cons g gs)
  show ?case
  proof (cases "T = {}")
    case True
    then show ?thesis using Cons.prems by (intro exI[of _ F] exI[of _ s]) auto
  next
    case False
    define s1 where "s1 = (if counting then s\<lparr>guard_count := guard_count s + 1\<rparr> else s)"
    define t where "t = eval_label pm opts g T s1"
    have s1: "known pm s1" "grows s s1" using Cons.prems by (simp_all add: s1_def)
    note e = eval_label_known[where opts = opts and g = g and A = T, OF tv s1(1), folded t_def]
    have j: "vs_join (l_projs pm g) T (label_true t g) = {x \<in> T. label_of pm g x = 1}" using e(3) by (auto simp: vs_join_def)
    have m: "label_true t g \<inter> label_false t g = {}" by (rule known_disjoint[OF e(1)])
    have jm: "vs_join (l_projs pm g) T {} = {}" by (simp add: vs_join_def)
    define T' where "T' = {x \<in> T. label_of pm g x = 1}"
    have "\<exists>F''. guard_loop pm opts counting (g # gs) T F M s = guard_loop pm opts counting gs T' F'' M t"
      using False by (auto simp: Let_def s1_def[symmetric] t_def[symmetric] j m jm T'_def)
    then obtain F'' where run: "guard_loop pm opts counting (g # gs) T F M s = guard_loop pm opts counting gs T' F'' M t" by blast
    from Cons.IH[OF e(1), of T' F''] obtain F' u where u: "guard_loop pm opts counting gs T' F'' M t = Inr ({x \<in> T'. \<forall>g \<in> set gs. label_of pm g x = 1}, F', M, u)"
      "known pm u" "grows t u" "\<forall>x \<in> T'. (\<forall>g \<in> set gs. label_of pm g x = 1) \<longrightarrow> (\<forall>g \<in> set gs. short (l_projs pm g) x \<in> label_true u g)" by blast
    have "{x \<in> T'. \<forall>g \<in> set gs. label_of pm g x = 1} = {x \<in> T. \<forall>g \<in> set (g # gs). label_of pm g x = 1}" by (auto simp: T'_def)
    moreover have "short (l_projs pm g) x \<in> label_true u g" if "x \<in> T'" for x using that e(3) u(3) by (auto simp: T'_def grows_def)
    ultimately show ?thesis using run u grows_trans[OF s1(2) grows_trans[OF e(2) u(3)]] by (auto simp: T'_def)
  qed
qed

lemma learn_guards_reduce_run:
  assumes tv: "two_valued pm" and k: "known pm s"
  shows "\<exists>t. learn_guards_reduce pm opts counting i T s = Inr ({x \<in> T. guards_hold pm opts i x}, t) \<and> known pm t \<and> grows s t
    \<and> (\<forall>x \<in> T. guards_hold pm opts i x \<longrightarrow> guards_known pm opts i x t)"
proof (cases "use_guards opts")
  case False
  then show ?thesis using k by (auto simp: learn_guards_reduce_def guards_hold_def guards_known_def)
next
  case True
  from guard_loop_run[OF tv k, of opts counting "p_guards pm i" T "{}" "{}"] obtain F' t where
    t: "guard_loop pm opts counting (p_guards pm i) T {} {} s = Inr ({x \<in> T. \<forall>g \<in> set (p_guards pm i). label_of pm g x = 1}, F', {}, t)" "known pm t" "grows s t"
      "\<forall>x \<in> T. (\<forall>g \<in> set (p_guards pm i). label_of pm g x = 1) \<longrightarrow> (\<forall>g \<in> set (p_guards pm i). short (l_projs pm g) x \<in> label_true t g)" by blast
  then show ?thesis using True drop_maybe_known[OF t(2)] by (auto simp: learn_guards_reduce_def guards_hold_def guards_known_def)
qed

lemma reduce_loop_run: "reduce_loop pm s gs A = {x \<in> A. \<forall>g \<in> set gs. short (l_projs pm g) x \<in> label_true s g}"
  by (induction gs arbitrary: A) (auto simp: vs_join_def)

lemma reduce_run: "reduce pm opts i A s = {x \<in> A. guards_known pm opts i x s}"
  by (auto simp: reduce_def reduce_loop_run guards_known_def)

end
