(* ===== verification/Sym_Reach.thy ===== *)
theory Sym_Reach
  imports Sym_Learn
begin

text \<open>
  The four search procedures compute the reachable states: breadth-first search and chaining, from all visited states or
  from the new states only. With deadlock detection they stop exactly when a reachable state has no transition.
\<close>

section \<open>Reachable and dead states\<close>

definition trans_rel :: "pins \<Rightarrow> sym_opts \<Rightarrow> (nat \<Rightarrow> bool) \<Rightarrow> (nat list \<times> nat list) set" where
  "trans_rel pm opts rg = (\<Union>i \<in> {i. i < nGrps pm \<and> rg i}. step pm opts i)"

definition reach_from :: "pins \<Rightarrow> sym_opts \<Rightarrow> (nat \<Rightarrow> bool) \<Rightarrow> nat list set \<Rightarrow> nat list set" where
  "reach_from pm opts rg V = (trans_rel pm opts rg)\<^sup>* `` V"

definition dead :: "pins \<Rightarrow> sym_opts \<Rightarrow> nat list \<Rightarrow> bool" where
  "dead pm opts x \<longleftrightarrow> (\<forall>i < nGrps pm. x \<notin> Domain (step pm opts i)) \<and> invalid_end pm x"

lemma trans_relI: "i < nGrps pm \<Longrightarrow> rg i \<Longrightarrow> (x, y) \<in> step pm opts i \<Longrightarrow> (x, y) \<in> trans_rel pm opts rg"
  by (auto simp: trans_rel_def)

lemma reach_from_self: "V \<subseteq> reach_from pm opts rg V"
  by (auto simp: reach_from_def)

lemma reach_from_step: "W \<subseteq> reach_from pm opts rg V \<Longrightarrow> trans_rel pm opts rg `` W \<subseteq> reach_from pm opts rg V"
  unfolding reach_from_def by (auto intro: rtrancl_into_rtrancl)

lemma reach_from_mono: "V \<subseteq> W \<Longrightarrow> reach_from pm opts rg V \<subseteq> reach_from pm opts rg W"
  by (auto simp: reach_from_def)

lemma reach_trans: "W \<subseteq> reach_from pm opts rg V \<Longrightarrow> reach_from pm opts rg W \<subseteq> reach_from pm opts rg V"
  unfolding reach_from_def by (auto intro: rtrancl_trans)

lemma reach_closed_set:
  assumes "V \<subseteq> W" and "W \<subseteq> reach_from pm opts rg V" and "trans_rel pm opts rg `` W \<subseteq> W"
  shows "W = reach_from pm opts rg V"
proof -
  have "y \<in> W" if "(x, y) \<in> (trans_rel pm opts rg)\<^sup>*" "x \<in> V" for x y
    using that by (induction rule: rtrancl_induct) (use assms(1,3) in auto)
  with assms(2) show ?thesis by (auto simp: reach_from_def)
qed

lemma reach_grow: "V \<subseteq> W \<Longrightarrow> W \<subseteq> reach_from pm opts rg V \<Longrightarrow> reach_from pm opts rg W = reach_from pm opts rg V"
  by (rule subset_antisym[OF reach_trans reach_from_mono])

section \<open>One sweep over the groups\<close>

text \<open>
  A sweep from the states \<open>C\<close> finds \<open>W\<close>: all successors are in \<open>W\<close> or were visited before, \<open>B\<close>, and nothing that cannot be reached is in \<open>W\<close>.
  What is left for the deadlock check are the states without transitions in the groups of the search.
\<close>

definition sweep_ok :: "pins \<Rightarrow> sym_opts \<Rightarrow> (nat \<Rightarrow> bool) \<Rightarrow> nat list set \<Rightarrow> nat list set \<Rightarrow> sym \<Rightarrow> (nat list set \<times> nat list set \<times> sym) result \<Rightarrow> bool" where
  "sweep_ok pm opts rg B C s m \<longleftrightarrow> (\<exists>W D t. m = Inr (W, D, t) \<and> trans_rel pm opts rg `` C \<subseteq> B \<union> W \<and> W \<subseteq> reach_from pm opts rg C
     \<and> (dlk_detect s \<longrightarrow> D = {x \<in> C. \<forall>i < nGrps pm. rg i \<longrightarrow> x \<notin> Domain (step pm opts i)}) \<and> known pm t \<and> dlk_detect t = dlk_detect s)"

text \<open>Learning and applying one group to states whose guards hold.\<close>

lemma group_step:
  assumes k: "known pm s" and T: "\<forall>x \<in> T. guards_hold pm opts i x \<and> guards_known pm opts i x s"
    and t: "t = count_step (expand_group_next pm i T s)"
  shows "vs_next (r_projs pm i) (group_next t i) T = step pm opts i `` T"
    and "D \<subseteq> C \<Longrightarrow> \<forall>x \<in> C. guards_hold pm opts i x \<longrightarrow> x \<in> T \<Longrightarrow>
      D - reduce pm opts i (vs_prev (r_projs pm i) (group_next t i) (step pm opts i `` T) D) t = {x \<in> D. x \<notin> Domain (step pm opts i)}"
    and "known pm t" and "grows s t"
proof -
  note e = expand_known[OF k, of i T]
  show kt: "known pm t" "grows s t" using e by (simp_all add: t grows_trans[OF e(2)])
  have sh: "short (r_projs pm i) ` T \<subseteq> group_explored t i" using e(3) by (simp add: t)
  show "vs_next (r_projs pm i) (group_next t i) T = step pm opts i `` T"
    using next_known[OF kt(1) sh] T by (auto simp: step_def)
  assume D: "D \<subseteq> C" "\<forall>x \<in> C. guards_hold pm opts i x \<longrightarrow> x \<in> T"
  have "x \<in> reduce pm opts i (vs_prev (r_projs pm i) (group_next t i) (step pm opts i `` T) D) t \<longleftrightarrow> x \<in> Domain (step pm opts i)" if x: "x \<in> D" for x
  proof
    assume "x \<in> reduce pm opts i (vs_prev (r_projs pm i) (group_next t i) (step pm opts i `` T) D) t"
    then have "guards_known pm opts i x t" "act_succ pm i x \<noteq> {}" by (auto simp: reduce_run prev_known[OF kt(1)])
    then show "x \<in> Domain (step pm opts i)" using guards_known_hold[OF kt(1)] by (auto simp: step_def)
  next
    assume "x \<in> Domain (step pm opts i)"
    then obtain y where y: "guards_hold pm opts i x" "y \<in> act_succ pm i x" by (auto simp: step_def)
    then have xT: "x \<in> T" using x D by blast
    then have "guards_known pm opts i x t" using T guards_known_mono[OF _ kt(2)] by blast
    moreover have "y \<in> step pm opts i `` T" using y xT by (auto simp: step_def)
    ultimately show "x \<in> reduce pm opts i (vs_prev (r_projs pm i) (group_next t i) (step pm opts i `` T) D) t"
      using x y(2) sh xT by (auto simp: reduce_run prev_known[OF kt(1)])
  qed
  then show "D - reduce pm opts i (vs_prev (r_projs pm i) (group_next t i) (step pm opts i `` T) D) t = {x \<in> D. x \<notin> Domain (step pm opts i)}" by blast
qed

lemma reach_chain_group_run:
  assumes tv: "two_valued pm" and k: "known pm s" and D: "D \<subseteq> V" and i: "rg i"
  shows "\<exists>t. reach_chain_group pm opts rg i (V, D, s) = Inr (V \<union> step pm opts i `` V, if dlk_detect s then {x \<in> D. x \<notin> Domain (step pm opts i)} else D, t)
    \<and> known pm t \<and> grows s t"
proof -
  define T where "T = {x \<in> V. guards_hold pm opts i x}"
  from learn_guards_reduce_run[OF tv k, of opts True i V] obtain u where u: "learn_guards_reduce pm opts True i V s = Inr (T, u)" "known pm u" "grows s u"
    "\<forall>x \<in> V. guards_hold pm opts i x \<longrightarrow> guards_known pm opts i x u" by (auto simp: T_def)
  define t where "t = count_step (expand_group_next pm i T u)"
  have T: "\<forall>x \<in> T. guards_hold pm opts i x \<and> guards_known pm opts i x u" using u(4) by (auto simp: T_def)
  note g = group_step[OF u(2) T t_def]
  have "step pm opts i `` T = step pm opts i `` V" by (auto simp: T_def step_def)
  moreover have "\<forall>x \<in> V. guards_hold pm opts i x \<longrightarrow> x \<in> T" by (simp add: T_def)
  moreover have "dlk_detect t = dlk_detect s" using u(3) g(4) by (simp add: grows_def)
  moreover have "reach_chain_group pm opts rg i (V, D, s) = Inr (V \<union> vs_next (r_projs pm i) (group_next t i) T,
      if dlk_detect t then D - reduce pm opts i (vs_prev (r_projs pm i) (group_next t i) (vs_next (r_projs pm i) (group_next t i) T) D) t else D, t)"
    using u(1) i by (simp add: reach_chain_group_def Let_def t_def)
  ultimately show ?thesis using g(1,3) g(2)[OF D] grows_trans[OF u(3) g(4)] by simp
qed

lemma chain_sweep:
  assumes tv: "two_valued pm" and k: "known pm s"
  shows "sweep_ok pm opts rg B V s (fold_result (reach_chain_group pm opts rg) [0..<nGrps pm] (V, V, s))"
proof -
  define P where "P = (\<lambda>k (W, D, t). V \<subseteq> W \<and> W \<subseteq> reach_from pm opts rg V \<and> (\<forall>i < k. rg i \<longrightarrow> step pm opts i `` V \<subseteq> W) \<and> D \<subseteq> V
    \<and> (dlk_detect s \<longrightarrow> D = {x \<in> V. \<forall>i < k. rg i \<longrightarrow> x \<notin> Domain (step pm opts i)}) \<and> known pm t \<and> grows s t)"
  have "\<exists>st. fold_result (reach_chain_group pm opts rg) [0..<nGrps pm] (V, V, s) = Inr st \<and> P (length [0..<nGrps pm]) st"
  proof (rule fold_result_invariant)
    show "P 0 (V, V, s)" using k reach_from_self by (auto simp: P_def)
  next
    fix j st assume j: "j < length [0..<nGrps pm]" and "P j st"
    obtain W D t where st: "st = (W, D, t)" by (cases st) auto
    with \<open>P j st\<close> have p: "V \<subseteq> W" "W \<subseteq> reach_from pm opts rg V" "\<forall>i < j. rg i \<longrightarrow> step pm opts i `` V \<subseteq> W" "D \<subseteq> V"
      "dlk_detect s \<longrightarrow> D = {x \<in> V. \<forall>i < j. rg i \<longrightarrow> x \<notin> Domain (step pm opts i)}" "known pm t" "grows s t" by (simp_all add: P_def)
    show "\<exists>st'. reach_chain_group pm opts rg ([0..<nGrps pm] ! j) st = Inr st' \<and> P (Suc j) st'"
    proof (cases "rg j")
      case False
      then show ?thesis using p j by (auto simp: st reach_chain_group_def P_def less_Suc_eq)
    next
      case True
      have "D \<subseteq> W" using p(1,4) by blast
      from reach_chain_group_run[where rg = rg and opts = opts, OF tv p(6) this True] obtain u where u: "reach_chain_group pm opts rg j (W, D, t)
          = Inr (W \<union> step pm opts j `` W, if dlk_detect t then {x \<in> D. x \<notin> Domain (step pm opts j)} else D, u)" "known pm u" "grows t u" by blast
      have "step pm opts j `` W \<subseteq> reach_from pm opts rg V" using reach_from_step[OF p(2)] trans_relI[of j pm rg] True j by fastforce
      moreover have "dlk_detect t = dlk_detect s" using p(7) by (simp add: grows_def)
      moreover have "\<forall>i < Suc j. rg i \<longrightarrow> step pm opts i `` V \<subseteq> W \<union> step pm opts j `` W" using p(1,3) by (blast elim: less_SucE)
      moreover have "{x \<in> {x \<in> V. \<forall>i < j. rg i \<longrightarrow> x \<notin> Domain (step pm opts i)}. x \<notin> Domain (step pm opts j)}
          = {x \<in> V. \<forall>i < Suc j. rg i \<longrightarrow> x \<notin> Domain (step pm opts i)}" using True by (auto simp: less_Suc_eq)
      ultimately show ?thesis using u grows_trans[OF p(7) u(3)] p(1,2,4,5) j by (auto simp: st P_def)
    qed
  qed
  then obtain W D t where r: "fold_result (reach_chain_group pm opts rg) [0..<nGrps pm] (V, V, s) = Inr (W, D, t)" and p: "P (nGrps pm) (W, D, t)" by auto
  from p have "\<forall>i < nGrps pm. rg i \<longrightarrow> step pm opts i `` V \<subseteq> W" by (simp add: P_def)
  then have "trans_rel pm opts rg `` V \<subseteq> W" unfolding trans_rel_def by blast
  with p r show ?thesis by (auto simp: sweep_ok_def P_def grows_def)
qed

lemma chain_prev_group_run:
  assumes tv: "two_valued pm" and k: "known pm s" and D: "D \<subseteq> C" and i: "rg i"
  shows "\<exists>t. chain_prev_group pm opts rg B i (C, D, s) = Inr (C \<union> (step pm opts i `` C - B), if dlk_detect s then {x \<in> D. x \<notin> Domain (step pm opts i)} else D, t)
    \<and> known pm t \<and> grows s t"
proof -
  define T where "T = {x \<in> C. guards_hold pm opts i x}"
  from learn_guards_reduce_run[OF tv k, of opts True i C] obtain u where u: "learn_guards_reduce pm opts True i C s = Inr (T, u)" "known pm u" "grows s u"
    "\<forall>x \<in> C. guards_hold pm opts i x \<longrightarrow> guards_known pm opts i x u" by (auto simp: T_def)
  have TC: "step pm opts i `` T = step pm opts i `` C" by (auto simp: T_def step_def)
  show ?thesis
  proof (cases "T = {}")
    case True
    then have "x \<notin> Domain (step pm opts i)" if "x \<in> C" for x using that by (auto simp: T_def step_def)
    then have "{x \<in> D. x \<notin> Domain (step pm opts i)} = D" "step pm opts i `` C = {}" using D by auto
    then show ?thesis using u i True by (auto simp: chain_prev_group_def)
  next
    case False
    define t where "t = count_step (expand_group_next pm i T u)"
    have T: "\<forall>x \<in> T. guards_hold pm opts i x \<and> guards_known pm opts i x u" using u(4) by (auto simp: T_def)
    note g = group_step[OF u(2) T t_def]
    have "\<forall>x \<in> C. guards_hold pm opts i x \<longrightarrow> x \<in> T" by (simp add: T_def)
    moreover have "dlk_detect t = dlk_detect s" using u(3) g(4) by (simp add: grows_def)
    moreover have "chain_prev_group pm opts rg B i (C, D, s) = Inr (C \<union> (vs_next (r_projs pm i) (group_next t i) T - B),
        if dlk_detect t then D - reduce pm opts i (vs_prev (r_projs pm i) (group_next t i) (vs_next (r_projs pm i) (group_next t i) T) D) t else D, t)"
      using u(1) i False by (simp add: chain_prev_group_def Let_def t_def)
    ultimately show ?thesis using g(1,3) g(2)[OF D] grows_trans[OF u(3) g(4)] TC by simp
  qed
qed

lemma chain_prev_sweep:
  assumes tv: "two_valued pm" and k: "known pm s"
  shows "sweep_ok pm opts rg B C s (fold_result (chain_prev_group pm opts rg B) [0..<nGrps pm] (C, C, s))"
proof -
  define P where "P = (\<lambda>k (W, D, t). C \<subseteq> W \<and> W \<subseteq> reach_from pm opts rg C \<and> (\<forall>i < k. rg i \<longrightarrow> step pm opts i `` C \<subseteq> B \<union> W) \<and> D \<subseteq> C
    \<and> (dlk_detect s \<longrightarrow> D = {x \<in> C. \<forall>i < k. rg i \<longrightarrow> x \<notin> Domain (step pm opts i)}) \<and> known pm t \<and> grows s t)"
  have "\<exists>st. fold_result (chain_prev_group pm opts rg B) [0..<nGrps pm] (C, C, s) = Inr st \<and> P (length [0..<nGrps pm]) st"
  proof (rule fold_result_invariant)
    show "P 0 (C, C, s)" using k reach_from_self by (auto simp: P_def)
  next
    fix j st assume j: "j < length [0..<nGrps pm]" and "P j st"
    obtain W D t where st: "st = (W, D, t)" by (cases st) auto
    with \<open>P j st\<close> have p: "C \<subseteq> W" "W \<subseteq> reach_from pm opts rg C" "\<forall>i < j. rg i \<longrightarrow> step pm opts i `` C \<subseteq> B \<union> W" "D \<subseteq> C"
      "dlk_detect s \<longrightarrow> D = {x \<in> C. \<forall>i < j. rg i \<longrightarrow> x \<notin> Domain (step pm opts i)}" "known pm t" "grows s t" by (simp_all add: P_def)
    show "\<exists>st'. chain_prev_group pm opts rg B ([0..<nGrps pm] ! j) st = Inr st' \<and> P (Suc j) st'"
    proof (cases "rg j")
      case False
      then show ?thesis using p j by (auto simp: st chain_prev_group_def P_def less_Suc_eq)
    next
      case True
      have "D \<subseteq> W" using p(1,4) by blast
      from chain_prev_group_run[where rg = rg and opts = opts and B = B, OF tv p(6) this True] obtain u where u: "chain_prev_group pm opts rg B j (W, D, t)
          = Inr (W \<union> (step pm opts j `` W - B), if dlk_detect t then {x \<in> D. x \<notin> Domain (step pm opts j)} else D, u)" "known pm u" "grows t u" by blast
      have "step pm opts j `` W \<subseteq> reach_from pm opts rg C" using reach_from_step[OF p(2)] trans_relI[of j pm rg] True j by fastforce
      moreover have "dlk_detect t = dlk_detect s" using p(7) by (simp add: grows_def)
      moreover have "\<forall>i < Suc j. rg i \<longrightarrow> step pm opts i `` C \<subseteq> B \<union> (W \<union> (step pm opts j `` W - B))" using p(1,3) by (blast elim: less_SucE)
      moreover have "{x \<in> {x \<in> C. \<forall>i < j. rg i \<longrightarrow> x \<notin> Domain (step pm opts i)}. x \<notin> Domain (step pm opts j)}
          = {x \<in> C. \<forall>i < Suc j. rg i \<longrightarrow> x \<notin> Domain (step pm opts i)}" using True by (auto simp: less_Suc_eq)
      ultimately show ?thesis using u grows_trans[OF p(7) u(3)] p(1,2,4,5) j by (auto simp: st P_def)
    qed
  qed
  then obtain W D t where r: "fold_result (chain_prev_group pm opts rg B) [0..<nGrps pm] (C, C, s) = Inr (W, D, t)" and p: "P (nGrps pm) (W, D, t)" by auto
  from p have "\<forall>i < nGrps pm. rg i \<longrightarrow> step pm opts i `` C \<subseteq> B \<union> W" by (simp add: P_def)
  then have "trans_rel pm opts rg `` C \<subseteq> B \<union> W" unfolding trans_rel_def by blast
  with p r show ?thesis by (auto simp: sweep_ok_def P_def grows_def)
qed

section \<open>Deadlocks\<close>

lemma deadlock_group_run:
  assumes tv: "two_valued pm" and k: "known pm s" and i: "\<not> rg i"
  shows "\<exists>t. deadlock_group pm opts rg i (D, s) = Inr ({x \<in> D. x \<notin> Domain (step pm opts i)}, t) \<and> known pm t \<and> grows s t"
proof -
  define T where "T = {x \<in> D. guards_hold pm opts i x}"
  from learn_guards_reduce_run[OF tv k, of opts False i D] obtain u where u: "learn_guards_reduce pm opts False i D s = Inr (T, u)" "known pm u" "grows s u"
    "\<forall>x \<in> D. guards_hold pm opts i x \<longrightarrow> guards_known pm opts i x u" by (auto simp: T_def)
  define t where "t = expand_group_next pm i T u"
  have T: "\<forall>x \<in> T. guards_hold pm opts i x \<and> guards_known pm opts i x u" using u(4) by (auto simp: T_def)
  note g = group_step[OF u(2) T refl, folded t_def]
  have c: "group_next (count_step t) = group_next t" "reduce pm opts i A (count_step t) = reduce pm opts i A t" for A by (simp_all add: reduce_run)
  have "T - reduce pm opts i (vs_prev (r_projs pm i) (group_next t i) (step pm opts i `` T) T) t = {x \<in> T. x \<notin> Domain (step pm opts i)}"
    using g(2)[of T T] by (simp add: c)
  moreover have "reduce pm opts i (vs_prev (r_projs pm i) (group_next t i) (step pm opts i `` T) T) t \<subseteq> T"
    by (auto simp: reduce_run vs_prev_def)
  moreover have "x \<in> D \<Longrightarrow> x \<in> Domain (step pm opts i) \<Longrightarrow> x \<in> T" for x by (auto simp: T_def step_def)
  ultimately have "D - reduce pm opts i (vs_prev (r_projs pm i) (group_next t i) (step pm opts i `` T) T) t = {x \<in> D. x \<notin> Domain (step pm opts i)}"
    by (auto simp: T_def)
  moreover have "deadlock_group pm opts rg i (D, s) = Inr (D - reduce pm opts i (vs_prev (r_projs pm i) (group_next t i) (vs_next (r_projs pm i) (group_next t i) T) T) t, t)"
    using u(1) i by (simp add: deadlock_group_def Let_def t_def)
  moreover have "known pm t" "grows s t" using expand_known[OF u(2), of i T] grows_trans[OF u(3)] by (simp_all add: t_def)
  ultimately show ?thesis using g(1) by (simp add: c)
qed

lemma check_deadlocks_run:
  assumes tv: "two_valued pm" and k: "known pm s"
    and D: "dlk_detect s \<Longrightarrow> D = {x \<in> C. \<forall>i < nGrps pm. rg i \<longrightarrow> x \<notin> Domain (step pm opts i)}"
  shows "if dlk_detect s \<and> (\<exists>x \<in> C. dead pm opts x) \<and> \<not> no_exit opts then check_deadlocks pm opts rg D s = Inl exit_counter_example
    else \<exists>t. check_deadlocks pm opts rg D s = Inr t \<and> known pm t \<and> dlk_detect t = (dlk_detect s \<and> \<not> (\<exists>x \<in> C. dead pm opts x))"
proof (cases "dlk_detect s")
  case False
  then show ?thesis using k by (simp add: check_deadlocks_def)
next
  case True
  define P where "P = (\<lambda>k (E, t). E = {x \<in> D. \<forall>i < k. \<not> rg i \<longrightarrow> x \<notin> Domain (step pm opts i)} \<and> known pm t \<and> grows s t)"
  have "\<exists>st. fold_result (deadlock_group pm opts rg) [0..<nGrps pm] (D, s) = Inr st \<and> P (length [0..<nGrps pm]) st"
  proof (rule fold_result_invariant)
    show "P 0 (D, s)" using k by (simp add: P_def)
  next
    fix j st assume j: "j < length [0..<nGrps pm]" and "P j st"
    obtain E t where st: "st = (E, t)" by (cases st)
    with \<open>P j st\<close> have p: "E = {x \<in> D. \<forall>i < j. \<not> rg i \<longrightarrow> x \<notin> Domain (step pm opts i)}" "known pm t" "grows s t" by (simp_all add: P_def)
    show "\<exists>st'. deadlock_group pm opts rg ([0..<nGrps pm] ! j) st = Inr st' \<and> P (Suc j) st'"
    proof (cases "rg j")
      case True
      then show ?thesis using p j by (auto simp: st deadlock_group_def P_def less_Suc_eq)
    next
      case False
      from deadlock_group_run[where rg = rg and opts = opts and D = E, OF tv p(2) False] obtain u where
        "deadlock_group pm opts rg j (E, t) = Inr ({x \<in> E. x \<notin> Domain (step pm opts j)}, u)" "known pm u" "grows t u" by blast
      then show ?thesis using p(1) grows_trans[OF p(3)] j False by (auto simp: st P_def less_Suc_eq)
    qed
  qed
  then obtain E t where r: "fold_result (deadlock_group pm opts rg) [0..<nGrps pm] (D, s) = Inr (E, t)" and p: "P (nGrps pm) (E, t)" by auto
  have E: "E = {x \<in> C. \<forall>i < nGrps pm. x \<notin> Domain (step pm opts i)}" using p D[OF True] by (auto simp: P_def)
  have "valid_end pm = None \<Longrightarrow> invalid_end pm x" for x by (simp add: invalid_end_def)
  then have stuck: "(\<exists>x \<in> C. dead pm opts x) \<longleftrightarrow> E \<noteq> {} \<and> \<not> (valid_end pm \<noteq> None \<and> (\<forall>x \<in> E. \<not> invalid_end pm x))" unfolding dead_def E by blast
  have DE: "D = {} \<Longrightarrow> E = {}" using p by (simp add: P_def)
  have t: "known pm t" "dlk_detect t" "known pm (t\<lparr>dlk_detect := False\<rparr>)" using p True by (auto simp: P_def grows_def known_def)
  have run: "check_deadlocks pm opts rg D s = (if D = {} then Inr s else if \<not> (\<exists>x \<in> C. dead pm opts x) then Inr t
      else if no_exit opts then Inr (t\<lparr>dlk_detect := False\<rparr>) else Inl exit_counter_example)"
    unfolding stuck using True r by (auto simp: check_deadlocks_def deadlock_check_def)
  show ?thesis
  proof (cases "D = {}")
    case True
    then have "\<not> (\<exists>x \<in> C. dead pm opts x)" using DE stuck by simp
    then show ?thesis unfolding run using True k by simp
  next
    case False
    then show ?thesis unfolding run using t \<open>dlk_detect s\<close> by simp
  qed
qed

end
