(* ===== verification/Sym_Bfs.thy ===== *)
theory Sym_Bfs
  imports Sym_Reach
begin

text \<open>
  One level of breadth-first search, over the binary tree of the groups: the trees of groups and guards are built when no
  interval is empty, their leaves are the groups and the guards, and a level is a sweep over the groups.
\<close>

section \<open>The trees\<close>

fun red_leaves :: "reach_red_t \<Rightarrow> nat set" where
  "red_leaves (Red_leaf i) = {i}"
| "red_leaves (Red_node l r) = red_leaves l \<union> red_leaves r"

fun tree_leaves :: "reach_t \<Rightarrow> nat set" where
  "tree_leaves (Reach_leaf i r) = {i}"
| "tree_leaves (Reach_node l r) = tree_leaves l \<union> tree_leaves r"

text \<open>The tree of the guards is there exactly with guard splitting.\<close>

fun tree_fits :: "pins \<Rightarrow> sym_opts \<Rightarrow> reach_t \<Rightarrow> bool" where
  "tree_fits pm opts (Reach_leaf i red) \<longleftrightarrow> (case red of None \<Rightarrow> \<not> use_guards opts | Some red \<Rightarrow> use_guards opts \<and> red_leaves red = {..<length (p_guards pm i)})"
| "tree_fits pm opts (Reach_node l r) \<longleftrightarrow> tree_fits pm opts l \<and> tree_fits pm opts r"

definition trees_end :: "pins \<Rightarrow> sym_opts \<Rightarrow> bool" where
  "trees_end pm opts \<longleftrightarrow> 0 < nGrps pm \<and> (use_guards opts \<longrightarrow> (\<forall>i < nGrps pm. p_guards pm i \<noteq> [] \<and> (\<forall>g \<in> set (p_guards pm i). g < nGuards pm)))"

lemma middle_less: "(a::nat) < b \<Longrightarrow> b \<noteq> a + 1 \<Longrightarrow> a < (a + b) div 2 \<and> (a + b) div 2 < b"
  by auto

lemma reach_red_prepare_run: "a < b \<Longrightarrow> \<exists>t. reach_red_prepare a b = Some t \<and> red_leaves t = {a..<b}"
proof (induction "b - a" arbitrary: a b rule: less_induct)
  case less
  show ?case
  proof (cases "b = a + 1")
    case True
    then show ?thesis by (subst reach_red_prepare.simps) auto
  next
    case False
    let ?m = "(a + b) div 2"
    have m: "a < ?m" "?m < b" using middle_less[OF less.prems False] by simp_all
    have d: "?m - a < b - a" "b - ?m < b - a" using m by linarith+
    from less.hyps[OF d(1) m(1)] obtain l where l: "reach_red_prepare a ?m = Some l" "red_leaves l = {a..<?m}" by blast
    from less.hyps[OF d(2) m(2)] obtain r where r: "reach_red_prepare ?m b = Some r" "red_leaves r = {?m..<b}" by blast
    have "{a..<?m} \<union> {?m..<b} = {a..<b}" using m by (intro ivl_disj_un_two(3)) simp_all
    then show ?thesis using False l r by (subst reach_red_prepare.simps) simp
  qed
qed

lemma reach_prepare_run:
  "a < b \<Longrightarrow> b \<le> nGrps pm \<Longrightarrow> use_guards opts \<longrightarrow> (\<forall>i < nGrps pm. p_guards pm i \<noteq> []) \<Longrightarrow> \<exists>t. reach_prepare pm opts a b = Some t \<and> tree_leaves t = {a..<b} \<and> tree_fits pm opts t"
proof (induction "b - a" arbitrary: a b rule: less_induct)
  case less
  show ?case
  proof (cases "b = a + 1")
    case True
    show ?thesis
    proof (cases "use_guards opts")
      case True
      then have "0 < length (p_guards pm a)" using less.prems by simp
      from reach_red_prepare_run[OF this] obtain t where "reach_red_prepare 0 (length (p_guards pm a)) = Some t" "red_leaves t = {0..<length (p_guards pm a)}" by blast
      then show ?thesis using \<open>b = a + 1\<close> True by (subst reach_prepare.simps) (simp add: atLeast0LessThan)
    next
      case False
      then show ?thesis using \<open>b = a + 1\<close> by (subst reach_prepare.simps) simp
    qed
  next
    case False
    let ?m = "(a + b) div 2"
    have m: "a < ?m" "?m < b" using middle_less[OF less.prems(1) False] by simp_all
    have d: "?m - a < b - a" "b - ?m < b - a" "?m \<le> nGrps pm" using m less.prems(2) by linarith+
    from less.hyps[OF d(1) m(1) d(3) less.prems(3)] obtain l where l: "reach_prepare pm opts a ?m = Some l" "tree_leaves l = {a..<?m}" "tree_fits pm opts l" by blast
    from less.hyps[OF d(2) m(2) less.prems(2,3)] obtain r where r: "reach_prepare pm opts ?m b = Some r" "tree_leaves r = {?m..<b}" "tree_fits pm opts r" by blast
    have "{a..<?m} \<union> {?m..<b} = {a..<b}" using m by (intro ivl_disj_un_two(3)) simp_all
    then show ?thesis using False l r by (subst reach_prepare.simps) simp
  qed
qed

text \<open>The construction ends only on intervals that are not empty.\<close>

lemma reach_red_prepare_some: "reach_red_prepare a b = Some t \<Longrightarrow> a < b"
proof (erule reach_red_prepare.raw_induct[where P = "\<lambda>a b t. a < b", rotated])
  fix f a b t
  assume IH: "\<And>a b t. f a b = Some t \<Longrightarrow> a < b"
    and "(if b = a + 1 then Some (Red_leaf a) else Option.bind (f a ((a + b) div 2)) (\<lambda>l. Option.bind (f ((a + b) div 2) b) (\<lambda>r. Some (Red_node l r)))) = Some t"
  then show "a < b" by (auto split: if_splits bind_splits dest!: IH)
qed

lemma reach_prepare_some: "reach_prepare pm opts a b = Some t \<Longrightarrow> a < b \<and> (use_guards opts \<longrightarrow> (\<forall>i \<in> {a..<b}. p_guards pm i \<noteq> []))"
proof (erule reach_prepare.raw_induct[where P = "\<lambda>pm opts a b t. a < b \<and> (use_guards opts \<longrightarrow> (\<forall>i \<in> {a..<b}. p_guards pm i \<noteq> []))", rotated])
  fix f pm opts a b t
  assume IH: "\<And>pm opts a b t. f pm opts a b = Some t \<Longrightarrow> a < b \<and> (use_guards opts \<longrightarrow> (\<forall>i \<in> {a..<b}. p_guards pm i \<noteq> []))"
    and r: "(if b = a + 1 then if use_guards opts then Option.bind (reach_red_prepare 0 (length (p_guards pm a))) (\<lambda>red. Some (Reach_leaf a (Some red)))
        else Some (Reach_leaf a None)
      else Option.bind (f pm opts a ((a + b) div 2)) (\<lambda>l. Option.bind (f pm opts ((a + b) div 2) b) (\<lambda>r. Some (Reach_node l r)))) = Some t"
  show "a < b \<and> (use_guards opts \<longrightarrow> (\<forall>i \<in> {a..<b}. p_guards pm i \<noteq> []))"
  proof (cases "b = a + 1")
    case True
    then have "use_guards opts \<longrightarrow> p_guards pm a \<noteq> []" using r reach_red_prepare_some by (fastforce split: if_splits bind_splits)
    then show ?thesis using True by (auto simp: less_Suc_eq_le)
  next
    case False
    let ?m = "(a + b) div 2"
    from r False obtain l r where "f pm opts a ?m = Some l" "f pm opts ?m b = Some r" by (auto split: bind_splits)
    from this[THEN IH] show ?thesis by (auto simp: not_less)
  qed
qed

section \<open>Reduction by guards\<close>

definition labels_learned :: "pins \<Rightarrow> nat list set \<Rightarrow> nat \<Rightarrow> sym \<Rightarrow> bool" where
  "labels_learned pm C g s \<longleftrightarrow> (\<forall>x \<in> C. short (l_projs pm g) x \<in> label_true s g \<longleftrightarrow> label_of pm g x = 1)"

lemma labels_learned_mono:
  assumes "labels_learned pm C g s" and "grows s t" and "known pm t"
  shows "labels_learned pm C g t"
  using assms unfolding labels_learned_def grows_def known_def by blast

lemma learn_guards_run:
  assumes tv: "two_valued pm" and k: "known pm s"
  shows "known pm (learn_guards pm opts A s) \<and> grows s (learn_guards pm opts A s)
    \<and> (use_guards opts \<longrightarrow> (\<forall>g < nGuards pm. labels_learned pm A g (learn_guards pm opts A s)))"
proof -
  let ?f = "\<lambda>g s. eval_label pm opts g A (s\<lparr>guard_count := guard_count s + 1\<rparr>)"
  have "known pm (fold ?f [0..<n] s) \<and> grows s (fold ?f [0..<n] s) \<and> (\<forall>g < n. labels_learned pm A g (fold ?f [0..<n] s))" for n
  proof (induction n)
    case (Suc n)
    define t where "t = fold ?f [0..<n] s"
    let ?t = "t\<lparr>guard_count := guard_count t + 1\<rparr>"
    have t: "known pm ?t" "grows s ?t" "grows t ?t" "\<forall>g < n. labels_learned pm A g t"
      using Suc grows_trans[of s t ?t] by (simp_all add: t_def)
    note e = eval_label_known[where opts = opts and g = n and A = A, OF tv t(1)]
    have "labels_learned pm A n (eval_label pm opts n A ?t)" using e(3) by (simp add: labels_learned_def)
    moreover have "labels_learned pm A g (eval_label pm opts n A ?t)" if "g < n" for g
      using labels_learned_mono[OF _ grows_trans[OF t(3) e(2)] e(1)] t(4) that by blast
    moreover have "fold ?f [0..<Suc n] s = eval_label pm opts n A ?t" by (simp add: t_def)
    ultimately show ?case using e(1) grows_trans[OF t(2) e(2)] less_Suc_eq by metis
  qed (simp add: k)
  then show ?thesis using k by (simp add: learn_guards_def)
qed

lemma reach_bfs_reduce_run:
  assumes k: "known pm s"
  shows "\<exists>F. reach_bfs_reduce pm opts grp s red A = ({x \<in> A. \<forall>i \<in> red_leaves red. short (l_projs pm (p_guards pm grp ! i)) x \<in> label_true s (p_guards pm grp ! i)}, F)
    \<and> {x \<in> A. \<forall>i \<in> red_leaves red. short (l_projs pm (p_guards pm grp ! i)) x \<in> label_true s (p_guards pm grp ! i)} \<inter> F = {}"
proof (induction red)
  case (Red_leaf i)
  have "label_true s (p_guards pm grp ! i) \<inter> label_false s (p_guards pm grp ! i) = {}" by (rule known_disjoint[OF k])
  then show ?case by (auto simp: Let_def vs_join_def)
next
  case (Red_node l r)
  let ?L = "\<lambda>t. {x \<in> A. \<forall>i \<in> red_leaves t. short (l_projs pm (p_guards pm grp ! i)) x \<in> label_true s (p_guards pm grp ! i)}"
  from Red_node obtain Fl Fr where l: "reach_bfs_reduce pm opts grp s l A = (?L l, Fl)" "?L l \<inter> Fl = {}"
    and r: "reach_bfs_reduce pm opts grp s r A = (?L r, Fr)" "?L r \<inter> Fr = {}" by blast
  have i: "?L l \<inter> ?L r = ?L (Red_node l r)" by auto
  have z: "Fl \<inter> ?L l = {}" "Fr \<inter> ?L r = {}" using l(2) r(2) by blast+
  have "reach_bfs_reduce pm opts grp s (Red_node l r) A = (?L (Red_node l r), if no_soundness_check opts then {} else Fl \<union> Fr)"
    unfolding reach_bfs_reduce.simps l(1) r(1) Let_def prod.case z i by simp
  moreover have "?L (Red_node l r) \<inter> (Fl \<union> Fr) = {}" using l(2) r(2) i by blast
  ultimately show ?case by simp
qed

section \<open>Successors\<close>

text \<open>What a subtree with the groups \<open>L\<close> computes from the level \<open>C\<close>.\<close>

definition next_ok :: "pins \<Rightarrow> sym_opts \<Rightarrow> (nat \<Rightarrow> bool) \<Rightarrow> bool \<Rightarrow> nat set \<Rightarrow> nat list set \<Rightarrow> nat list set \<Rightarrow> sym
    \<Rightarrow> nat list set \<times> nat list set \<times> nat option \<times> sym \<Rightarrow> bool" where
  "next_ok pm opts rg dlk L C D s = (\<lambda>(W, E, u, t). (\<forall>i \<in> L. rg i \<longrightarrow> step pm opts i `` C \<subseteq> W) \<and> (\<forall>y \<in> W. y \<in> C \<or> (\<exists>i \<in> L. rg i \<and> y \<in> step pm opts i `` C))
     \<and> (dlk \<longrightarrow> E = {x \<in> D. \<forall>i \<in> L. rg i \<longrightarrow> x \<notin> Domain (step pm opts i)}) \<and> u = None \<and> known pm t \<and> grows s t)"

lemma guards_learned:
  assumes "use_guards opts \<longrightarrow> (\<forall>g \<in> set (p_guards pm i). labels_learned pm C g s)" and "x \<in> C"
  shows "guards_known pm opts i x s \<longleftrightarrow> guards_hold pm opts i x"
  using assms unfolding guards_known_def guards_hold_def labels_learned_def by blast

lemma reach_bfs_leaf_run:
  assumes k: "known pm s" and f: "tree_fits pm opts (Reach_leaf i red)" and D: "D \<subseteq> C"
    and l: "use_guards opts \<longrightarrow> (\<forall>g \<in> set (p_guards pm i). labels_learned pm C g s)"
  shows "next_ok pm opts rg dlk {i} C D s (reach_bfs_next pm opts rg dlk (Reach_leaf i red) C D C s)"
proof (cases "rg i")
  case False
  then show ?thesis using k by (auto simp: next_ok_def)
next
  case True
  define T where "T = {x \<in> C. guards_hold pm opts i x}"
  define R where "R = (case red of None \<Rightarrow> (C, {}) | Some red \<Rightarrow> reach_bfs_reduce pm opts i s red C)"
  have "\<exists>F. R = (T, F) \<and> (red \<noteq> None \<longrightarrow> T \<inter> F = {})"
  proof (cases red)
    case None
    then show ?thesis using f by (simp add: R_def T_def guards_hold_def)
  next
    case (Some r)
    then have u: "use_guards opts" "red_leaves r = {..<length (p_guards pm i)}" using f by simp_all
    have "{x \<in> C. \<forall>j \<in> red_leaves r. short (l_projs pm (p_guards pm i ! j)) x \<in> label_true s (p_guards pm i ! j)} = {x \<in> C. guards_known pm opts i x s}"
      using u by (simp add: guards_known_def all_set_conv_all_nth) blast
    also have "\<dots> = T" using guards_learned[OF l] by (auto simp: T_def)
    finally show ?thesis using reach_bfs_reduce_run[OF k, of opts i r C] Some by (auto simp: R_def)
  qed
  then obtain F where R: "R = (T, F)" "red \<noteq> None \<longrightarrow> T \<inter> F = {}" by blast
  have TC: "step pm opts i `` T = step pm opts i `` C" by (auto simp: T_def step_def)
  have run: "reach_bfs_next pm opts rg dlk (Reach_leaf i red) C D C s = (if red \<noteq> None \<and> T = {} then (C, D, None, s)
      else let t = count_step (expand_group_next pm i T s);
               c = vs_next (r_projs pm i) (group_next t i) T
           in (c, if dlk then D - reduce pm opts i (vs_prev (r_projs pm i) (group_next t i) c C) t else D, None, t))"
    using True R by (simp add: R_def[symmetric] Let_def) blast
  show ?thesis
  proof (cases "red \<noteq> None \<and> T = {}")
    case True
    then have "x \<notin> Domain (step pm opts i)" if "x \<in> C" for x using that by (auto simp: T_def step_def)
    then have "{x \<in> D. x \<notin> Domain (step pm opts i)} = D" "step pm opts i `` C = {}" using D by auto
    then show ?thesis unfolding run using True k \<open>rg i\<close> by (simp add: next_ok_def)
  next
    case False
    define t where "t = count_step (expand_group_next pm i T s)"
    have T: "\<forall>x \<in> T. guards_hold pm opts i x \<and> guards_known pm opts i x s" using guards_learned[OF l] by (simp add: T_def)
    note g = group_step[OF k T t_def]
    have "C - reduce pm opts i (vs_prev (r_projs pm i) (group_next t i) (step pm opts i `` T) C) t = {x \<in> C. x \<notin> Domain (step pm opts i)}"
      by (rule g(2)[of C C]) (simp_all add: T_def)
    then have "D - reduce pm opts i (vs_prev (r_projs pm i) (group_next t i) (step pm opts i `` T) C) t = {x \<in> D. x \<notin> Domain (step pm opts i)}" using D by blast
    moreover have "reach_bfs_next pm opts rg dlk (Reach_leaf i red) C D C s = (step pm opts i `` T,
        if dlk then D - reduce pm opts i (vs_prev (r_projs pm i) (group_next t i) (step pm opts i `` T) C) t else D, None, t)"
      unfolding run if_not_P[OF False] Let_def t_def[symmetric] g(1) ..
    ultimately show ?thesis using g(3,4) \<open>rg i\<close> by (simp add: next_ok_def TC)
  qed
qed

lemma reach_bfs_next_run:
  assumes "known pm s" and "tree_fits pm opts root" and "D \<subseteq> C" and "use_guards opts \<longrightarrow> (\<forall>i \<in> tree_leaves root. \<forall>g \<in> set (p_guards pm i). labels_learned pm C g s)"
  shows "next_ok pm opts rg dlk (tree_leaves root) C D s (reach_bfs_next pm opts rg dlk root C D C s)"
  using assms
proof (induction root arbitrary: s)
  case (Reach_leaf i red)
  then show ?case using reach_bfs_leaf_run[of pm s opts i red D C rg dlk] by simp
next
  case (Reach_node l r)
  obtain Wl El ul t where tl: "reach_bfs_next pm opts rg dlk l C D C s = (Wl, El, ul, t)" by (cases "reach_bfs_next pm opts rg dlk l C D C s") auto
  have nl: "next_ok pm opts rg dlk (tree_leaves l) C D s (Wl, El, ul, t)"
    unfolding tl[symmetric] by (rule Reach_node.IH(1)) (use Reach_node.prems in \<open>simp_all add: ball_Un\<close>)
  then have t: "known pm t" "grows s t" by (simp_all add: next_ok_def)
  obtain Wr Er ur w where tr: "reach_bfs_next pm opts rg dlk r C D C t = (Wr, Er, ur, w)" by (cases "reach_bfs_next pm opts rg dlk r C D C t") auto
  have "use_guards opts \<longrightarrow> (\<forall>i \<in> tree_leaves r. \<forall>g \<in> set (p_guards pm i). labels_learned pm C g t)"
    using Reach_node.prems(4) labels_learned_mono[OF _ t(2,1)] by (simp add: ball_Un)
  then have nr: "next_ok pm opts rg dlk (tree_leaves r) C D t (Wr, Er, ur, w)"
    unfolding tr[symmetric] by (intro Reach_node.IH(2)) (use Reach_node.prems t in simp_all)
  have run: "reach_bfs_next pm opts rg dlk (Reach_node l r) C D C s = (Wl \<union> Wr, if dlk then El \<inter> Er else D, if ur \<noteq> None then ur else ul, w)"
    by (simp add: tl tr)
  have "\<forall>i \<in> tree_leaves (Reach_node l r). rg i \<longrightarrow> step pm opts i `` C \<subseteq> Wl \<union> Wr" using nl nr unfolding next_ok_def by auto
  moreover have "\<forall>y \<in> Wl \<union> Wr. y \<in> C \<or> (\<exists>i \<in> tree_leaves (Reach_node l r). rg i \<and> y \<in> step pm opts i `` C)" using nl nr unfolding next_ok_def by fastforce
  moreover have "dlk \<longrightarrow> El \<inter> Er = {x \<in> D. \<forall>i \<in> tree_leaves (Reach_node l r). rg i \<longrightarrow> x \<notin> Domain (step pm opts i)}" using nl nr unfolding next_ok_def by auto
  moreover have "grows s w" using nl nr grows_trans[of s t w] by (simp add: next_ok_def)
  ultimately show ?case using nl nr unfolding run by (simp add: next_ok_def)
qed

lemma bfs_level_sweep:
  assumes tv: "two_valued pm" and k: "known pm s" and te: "trees_end pm opts" and f: "tree_fits pm opts root" and lv: "tree_leaves root = {..<nGrps pm}"
    and dlk: "dlk_detect s \<longrightarrow> dlk"
  shows "sweep_ok pm opts rg B C s (bfs_level pm opts rg dlk root C s)"
proof -
  define t where "t = learn_guards pm opts C s"
  have t: "known pm t" "grows s t" "use_guards opts \<longrightarrow> (\<forall>g < nGuards pm. labels_learned pm C g t)"
    using learn_guards_run[OF tv k, of opts C] by (simp_all add: t_def)
  define D where "D = (if dlk_detect t then C else {})"
  obtain W E u w where r: "reach_bfs_next pm opts rg dlk root C D C t = (W, E, u, w)" by (cases "reach_bfs_next pm opts rg dlk root C D C t") auto
  have "next_ok pm opts rg dlk {..<nGrps pm} C D t (W, E, u, w)"
    unfolding r[symmetric] lv[symmetric]
    by (rule reach_bfs_next_run[OF t(1) f]) (use t(3) te lv in \<open>auto simp: D_def trees_end_def\<close>)
  then have n: "\<forall>i < nGrps pm. rg i \<longrightarrow> step pm opts i `` C \<subseteq> W" "\<forall>y \<in> W. y \<in> C \<or> (\<exists>i < nGrps pm. rg i \<and> y \<in> step pm opts i `` C)"
    "dlk \<longrightarrow> E = {x \<in> D. \<forall>i < nGrps pm. rg i \<longrightarrow> x \<notin> Domain (step pm opts i)}" "u = None" "known pm w" "grows t w" by (simp_all add: next_ok_def Ball_def Bex_def)
  have d: "dlk_detect t = dlk_detect s" "dlk_detect w = dlk_detect s" using t(2) n(6) by (simp_all add: grows_def)
  have "bfs_level pm opts rg dlk root C s = Inr (W, E, w)"
    using r n(4) drop_maybe_known[OF n(5)] unfolding bfs_level_def by (simp add: t_def[symmetric] D_def[symmetric] Let_def)
  moreover have "trans_rel pm opts rg `` C \<subseteq> W" using n(1) unfolding trans_rel_def by blast
  moreover have "W \<subseteq> C \<union> trans_rel pm opts rg `` C" using n(2) unfolding trans_rel_def by blast
  then have "W \<subseteq> reach_from pm opts rg C" using reach_from_self[of C pm opts rg] reach_from_step[OF reach_from_self[of C pm opts rg]] by blast
  moreover have "dlk_detect s \<longrightarrow> E = {x \<in> C. \<forall>i < nGrps pm. rg i \<longrightarrow> x \<notin> Domain (step pm opts i)}" using n(3) dlk d(1) by (simp add: D_def)
  ultimately show ?thesis using n(5) d(2) by (auto simp: sweep_ok_def)
qed

end
