(* ===== verification/Sym_Search.thy ===== *)
theory Sym_Search
  imports Sym_Bfs
begin

text \<open>
  The loops of the search procedures, and their common contract. The procedures come in two kinds, which repeat a
  sweep from all visited states until nothing changes, or from the new states until there are none. Both are locales, whose
  instances are the four procedures of the program.
\<close>

section \<open>The contract\<close>

text \<open>
  A search ends in a counterexample exactly when deadlocks are to be found, one is reachable and the search may exit; otherwise
  it returns the reachable states, and further deadlocks are looked for only if there was none.
\<close>

definition found :: "pins \<Rightarrow> sym_opts \<Rightarrow> (nat \<Rightarrow> bool) \<Rightarrow> nat list set \<Rightarrow> sym \<Rightarrow> (nat list set \<times> sym) result option \<Rightarrow> bool" where
  "found pm opts rg V s r \<longleftrightarrow> (let stuck = (\<exists>x \<in> reach_from pm opts rg V. dead pm opts x) in
     if dlk_detect s \<and> stuck \<and> \<not> no_exit opts then r = Some (Inl exit_counter_example)
     else \<exists>t. r = ret (reach_from pm opts rg V, t) \<and> known pm t \<and> dlk_detect t = (dlk_detect s \<and> \<not> stuck))"

lemma found_done:
  assumes "known pm s" and "trans_rel pm opts rg `` V \<subseteq> V" and "dlk_detect s \<longrightarrow> (\<forall>x \<in> V. \<not> dead pm opts x)"
  shows "found pm opts rg V s (ret (V, s))"
proof -
  have "reach_from pm opts rg V = V" using reach_closed_set[OF _ reach_from_self assms(2)] by simp
  then show ?thesis using assms(1,3) by (auto simp: found_def Let_def)
qed

text \<open>A search that goes on from more states, when the deadlocks of the states searched so far are dealt with.\<close>

lemma found_more:
  assumes f: "found pm opts rg W t r" and W: "V \<subseteq> W" "W \<subseteq> reach_from pm opts rg V" and S: "S \<subseteq> reach_from pm opts rg V"
    and d: "dlk_detect t = (dlk_detect s \<and> \<not> (\<exists>x \<in> S. dead pm opts x))" and n: "dlk_detect s \<Longrightarrow> \<exists>x \<in> S. dead pm opts x \<Longrightarrow> no_exit opts"
  shows "found pm opts rg V s r"
proof -
  have e: "reach_from pm opts rg W = reach_from pm opts rg V" by (rule reach_grow[OF W])
  show ?thesis
  proof (cases "\<exists>x \<in> S. dead pm opts x")
    case True
    then have "\<exists>x \<in> reach_from pm opts rg V. dead pm opts x" using S by blast
    then show ?thesis using f d n True by (auto simp: found_def Let_def e)
  next
    case False
    then show ?thesis using f d by (auto simp: found_def Let_def e)
  qed
qed

text \<open>A sweep, and the check for deadlocks after it.\<close>

definition checked :: "pins \<Rightarrow> sym_opts \<Rightarrow> (nat \<Rightarrow> bool) \<Rightarrow> (nat list set \<times> nat list set \<times> sym) result
    \<Rightarrow> (nat list set \<Rightarrow> sym \<Rightarrow> (nat list set \<times> sym) result option) \<Rightarrow> (nat list set \<times> sym) result option" where
  "checked pm opts rg m f = rbind (Some m) (\<lambda>(W, D, s). rbind (Some (check_deadlocks pm opts rg D s)) (f W))"

lemma checked_found:
  assumes tv: "two_valued pm" and sw: "sweep_ok pm opts rg B C s m" and C: "C \<subseteq> V" and B: "B \<subseteq> V"
    and f: "\<And>W D u t. m = Inr (W, D, u) \<Longrightarrow> known pm t \<Longrightarrow> W \<subseteq> reach_from pm opts rg V \<Longrightarrow> trans_rel pm opts rg `` C \<subseteq> B \<union> W
      \<Longrightarrow> dlk_detect t = (dlk_detect s \<and> \<not> (\<exists>x \<in> C. dead pm opts x)) \<Longrightarrow> \<exists>V'. V \<subseteq> V' \<and> V' \<subseteq> reach_from pm opts rg V \<and> found pm opts rg V' t (f W t)"
  shows "found pm opts rg V s (checked pm opts rg m f)"
proof -
  from sw obtain W D u where m: "m = Inr (W, D, u)" "trans_rel pm opts rg `` C \<subseteq> B \<union> W" "W \<subseteq> reach_from pm opts rg C"
    "dlk_detect s \<longrightarrow> D = {x \<in> C. \<forall>i < nGrps pm. rg i \<longrightarrow> x \<notin> Domain (step pm opts i)}" "known pm u" "dlk_detect u = dlk_detect s" by (auto simp: sweep_ok_def)
  have CV: "C \<subseteq> reach_from pm opts rg V" using C reach_from_self[of V pm opts rg] by blast
  note ck = check_deadlocks_run[where D = D and C = C and rg = rg and opts = opts, OF tv m(5), unfolded m(6), OF m(4)[rule_format]]
  show ?thesis
  proof (cases "dlk_detect s \<and> (\<exists>x \<in> C. dead pm opts x) \<and> \<not> no_exit opts")
    case True
    then have "\<exists>x \<in> reach_from pm opts rg V. dead pm opts x" using CV by blast
    then show ?thesis using True ck m(1) by (simp add: checked_def found_def Let_def)
  next
    case False
    with ck obtain t where t: "check_deadlocks pm opts rg D u = Inr t" "known pm t" "dlk_detect t = (dlk_detect s \<and> \<not> (\<exists>x \<in> C. dead pm opts x))" by auto
    have "W \<subseteq> reach_from pm opts rg V" using m(3) reach_from_mono[OF C, of pm opts rg] by blast
    from f[OF m(1) t(2) this m(2) t(3)] obtain V' where v: "V \<subseteq> V'" "V' \<subseteq> reach_from pm opts rg V" "found pm opts rg V' t (f W t)" by blast
    have "found pm opts rg V s (f W t)" by (rule found_more[OF v(3,1,2) CV t(3)]) (use False in blast)
    then show ?thesis using m(1) t(1) by (simp add: checked_def)
  qed
qed

section \<open>Loops over all visited states\<close>

text \<open>
  The condition \<open>ok\<close> on the state of the search is what the sweep relies on; it may rest on deadlock detection, which is only ever switched off.
\<close>

locale sweep_from =
  fixes pm :: pins and opts :: sym_opts and rg :: "nat \<Rightarrow> bool" and ok :: "sym \<Rightarrow> bool"
    and sweep :: "nat list set \<Rightarrow> nat list set \<Rightarrow> sym \<Rightarrow> (nat list set \<times> nat list set \<times> sym) result"
  assumes two: "ok s \<Longrightarrow> two_valued pm"
    and ok_less: "ok s \<Longrightarrow> (dlk_detect t \<longrightarrow> dlk_detect s) \<Longrightarrow> ok t"
    and sweeps: "ok s \<Longrightarrow> known pm s \<Longrightarrow> sweep_ok pm opts rg B C s (sweep B C s)"

locale full_loop = sweep_from +
  fixes loop :: "nat list set \<Rightarrow> nat list set \<Rightarrow> sym \<Rightarrow> (nat list set \<times> sym) result option"
  assumes loop_unfold: "loop V old s = (if V = old then ret (V, s) else checked pm opts rg (sweep V V s) (\<lambda>W t. loop (V \<union> W) V t))"
begin

lemma loop_found:
  "ok s \<Longrightarrow> known pm s \<Longrightarrow> finite (reach_from pm opts rg V) \<Longrightarrow> old \<subseteq> V \<Longrightarrow> trans_rel pm opts rg `` old \<subseteq> V
    \<Longrightarrow> dlk_detect s \<longrightarrow> (\<forall>x \<in> old. \<not> dead pm opts x) \<Longrightarrow> found pm opts rg V s (loop V old s)"
proof (induction "card (reach_from pm opts rg V - old)" arbitrary: V old s rule: less_induct)
  case less
  show ?case
  proof (cases "V = old")
    case True
    then show ?thesis using found_done[OF less.prems(2)] less.prems(5,6) by (subst loop_unfold) simp
  next
    case False
    have "found pm opts rg V s (checked pm opts rg (sweep V V s) (\<lambda>W t. loop (V \<union> W) V t))"
    proof (rule checked_found[OF two[OF less.prems(1)] sweeps[OF less.prems(1,2)] order_refl order_refl])
      fix W D u t assume k: "known pm t" and W: "W \<subseteq> reach_from pm opts rg V" "trans_rel pm opts rg `` V \<subseteq> V \<union> W"
        and d: "dlk_detect t = (dlk_detect s \<and> \<not> (\<exists>x \<in> V. dead pm opts x))"
      have VW: "V \<union> W \<subseteq> reach_from pm opts rg V" using W(1) reach_from_self[of V pm opts rg] by blast
      have e: "reach_from pm opts rg (V \<union> W) = reach_from pm opts rg V" by (rule reach_grow[OF _ VW]) simp
      have "reach_from pm opts rg V - V \<subset> reach_from pm opts rg V - old" using False less.prems(4) VW by blast
      then have "card (reach_from pm opts rg (V \<union> W) - V) < card (reach_from pm opts rg V - old)"
        unfolding e using less.prems(3) by (intro psubset_card_mono) simp_all
      then have "found pm opts rg (V \<union> W) t (loop (V \<union> W) V t)"
        by (rule less.hyps) (use ok_less[OF less.prems(1)] k d W(2) less.prems(3) in \<open>auto simp: e\<close>)
      then show "\<exists>V'. V \<subseteq> V' \<and> V' \<subseteq> reach_from pm opts rg V \<and> found pm opts rg V' t (loop (V \<union> W) V t)" using VW by blast
    qed
    then show ?thesis using False by (subst loop_unfold) simp
  qed
qed

end

section \<open>Loops over new states\<close>

locale new_loop = sweep_from +
  fixes loop :: "nat list set \<Rightarrow> nat list set \<Rightarrow> sym \<Rightarrow> (nat list set \<times> sym) result option"
  assumes loop_unfold: "loop V new s = (if new = {} then ret (V, s) else checked pm opts rg (sweep V new s) (\<lambda>W t. loop (V \<union> W) (W - V) t))"
begin

lemma loop_found:
  "ok s \<Longrightarrow> known pm s \<Longrightarrow> finite (reach_from pm opts rg V) \<Longrightarrow> new \<subseteq> V \<Longrightarrow> trans_rel pm opts rg `` (V - new) \<subseteq> V
    \<Longrightarrow> dlk_detect s \<longrightarrow> (\<forall>x \<in> V - new. \<not> dead pm opts x) \<Longrightarrow> found pm opts rg V s (loop V new s)"
proof (induction "card (reach_from pm opts rg V - (V - new))" arbitrary: V new s rule: less_induct)
  case less
  show ?case
  proof (cases "new = {}")
    case True
    then show ?thesis using found_done[OF less.prems(2)] less.prems(5,6) by (subst loop_unfold) simp
  next
    case False
    have "found pm opts rg V s (checked pm opts rg (sweep V new s) (\<lambda>W t. loop (V \<union> W) (W - V) t))"
    proof (rule checked_found[OF two[OF less.prems(1)] sweeps[OF less.prems(1,2)] less.prems(4) order_refl])
      fix W D u t assume k: "known pm t" and W: "W \<subseteq> reach_from pm opts rg V" "trans_rel pm opts rg `` new \<subseteq> V \<union> W"
        and d: "dlk_detect t = (dlk_detect s \<and> \<not> (\<exists>x \<in> new. dead pm opts x))"
      have VW: "V \<union> W \<subseteq> reach_from pm opts rg V" using W(1) reach_from_self[of V pm opts rg] by blast
      have e: "reach_from pm opts rg (V \<union> W) = reach_from pm opts rg V" by (rule reach_grow[OF _ VW]) simp
      have V: "V \<union> W - (W - V) = V" by blast
      have "reach_from pm opts rg V - V \<subset> reach_from pm opts rg V - (V - new)" using False less.prems(4) VW by blast
      then have m: "card (reach_from pm opts rg (V \<union> W) - (V \<union> W - (W - V))) < card (reach_from pm opts rg V - (V - new))"
        unfolding e V using less.prems(3) by (intro psubset_card_mono) simp_all
      have "trans_rel pm opts rg `` V \<subseteq> V \<union> W" using W(2) less.prems(5) by blast
      moreover have "dlk_detect t \<longrightarrow> (\<forall>x \<in> V. \<not> dead pm opts x)" using d less.prems(6) by blast
      ultimately have "found pm opts rg (V \<union> W) t (loop (V \<union> W) (W - V) t)"
        by (intro less.hyps[OF m]) (use ok_less[OF less.prems(1)] k d less.prems(3) in \<open>auto simp: e V\<close>)
      then show "\<exists>V'. V \<subseteq> V' \<and> V' \<subseteq> reach_from pm opts rg V \<and> found pm opts rg V' t (loop (V \<union> W) (W - V) t)" using VW by blast
    qed
    then show ?thesis using False by (subst loop_unfold) simp
  qed
qed

end

section \<open>The four procedures\<close>

lemma chain_grows: "fold_result (reach_chain_group pm opts rg) is (V, D, s) = Inr (W, E, t) \<Longrightarrow> V \<subseteq> W"
proof (induction "is" arbitrary: V D s)
  case (Cons i "is")
  from Cons.prems obtain V' D' s' where c: "reach_chain_group pm opts rg i (V, D, s) = Inr (V', D', s')" "fold_result (reach_chain_group pm opts rg) is (V', D', s') = Inr (W, E, t)"
    by (cases "reach_chain_group pm opts rg i (V, D, s)") auto
  have "V \<subseteq> V'" using c(1) by (auto simp: reach_chain_group_def Let_def result_bind_def split: if_splits sum.splits prod.splits)
  then show ?case using Cons.IH[OF c(2)] by blast
qed simp

interpretation chain: full_loop pm opts rg "\<lambda>s. two_valued pm" "\<lambda>B C s. fold_result (reach_chain_group pm opts rg) [0..<nGrps pm] (C, C, s)" "reach_chain_loop pm opts rg"
  for pm opts rg
proof unfold_locales
  fix V old s
  show "reach_chain_loop pm opts rg V old s = (if V = old then ret (V, s)
      else checked pm opts rg (fold_result (reach_chain_group pm opts rg) [0..<nGrps pm] (V, V, s)) (\<lambda>W t. reach_chain_loop pm opts rg (V \<union> W) V t))"
  proof (cases "fold_result (reach_chain_group pm opts rg) [0..<nGrps pm] (V, V, s)")
    case (Inr r)
    obtain W D t where r: "r = (W, D, t)" by (cases r)
    have w: "V \<union> W = W" using chain_grows[OF Inr[unfolded r]] by blast
    show ?thesis unfolding reach_chain_loop.simps[of pm opts rg V old s] checked_def Inr r by (simp add: w)
  next
    case (Inl e)
    show ?thesis unfolding reach_chain_loop.simps[of pm opts rg V old s] checked_def Inl by simp
  qed
qed (auto intro: chain_sweep)

interpretation chain_prev: new_loop pm opts rg "\<lambda>s. two_valued pm" "\<lambda>B C s. fold_result (chain_prev_group pm opts rg B) [0..<nGrps pm] (C, C, s)" "chain_prev_loop pm opts rg"
  for pm opts rg
proof unfold_locales
  fix V new s
  show "chain_prev_loop pm opts rg V new s = (if new = {} then ret (V, s)
      else checked pm opts rg (fold_result (chain_prev_group pm opts rg V) [0..<nGrps pm] (new, new, s)) (\<lambda>W t. chain_prev_loop pm opts rg (V \<union> W) (W - V) t))"
    by (subst chain_prev_loop.simps) (simp add: checked_def)
qed (auto intro: chain_prev_sweep)

definition bfs_ready :: "pins \<Rightarrow> sym_opts \<Rightarrow> bool \<Rightarrow> reach_t \<Rightarrow> sym \<Rightarrow> bool" where
  "bfs_ready pm opts dlk root s \<longleftrightarrow> two_valued pm \<and> trees_end pm opts \<and> tree_fits pm opts root \<and> tree_leaves root = {..<nGrps pm} \<and> (dlk_detect s \<longrightarrow> dlk)"

interpretation bfs: full_loop pm opts rg "bfs_ready pm opts dlk root" "\<lambda>B C s. bfs_level pm opts rg dlk root C s" "bfs_loop pm opts rg dlk root"
  for pm opts rg dlk root
proof unfold_locales
  fix V old s
  show "bfs_loop pm opts rg dlk root V old s = (if V = old then ret (V, s)
      else checked pm opts rg (bfs_level pm opts rg dlk root V s) (\<lambda>W t. bfs_loop pm opts rg dlk root (V \<union> W) V t))"
    by (subst bfs_loop.simps) (simp add: checked_def)
qed (auto simp: bfs_ready_def intro: bfs_level_sweep)

interpretation bfs_prev: new_loop pm opts rg "bfs_ready pm opts dlk root" "\<lambda>B C s. bfs_level pm opts rg dlk root C s" "bfs_prev_loop pm opts rg dlk root"
  for pm opts rg dlk root
proof unfold_locales
  fix V new s
  show "bfs_prev_loop pm opts rg dlk root V new s = (if new = {} then ret (V, s)
      else checked pm opts rg (bfs_level pm opts rg dlk root new s) (\<lambda>W t. bfs_prev_loop pm opts rg dlk root (V \<union> W) (W - V) t))"
    by (subst bfs_prev_loop.simps) (simp add: checked_def)
qed

text \<open>What a caller of a procedure has to know, with the states that it says were searched before.\<close>

definition searchable :: "pins \<Rightarrow> sym_opts \<Rightarrow> (nat \<Rightarrow> bool) \<Rightarrow> nat list set \<Rightarrow> nat list set \<Rightarrow> sym \<Rightarrow> bool" where
  "searchable pm opts rg old V s \<longleftrightarrow> two_valued pm \<and> known pm s \<and> finite (reach_from pm opts rg V)
     \<and> (save_sat_levels opts \<longrightarrow> trans_rel pm opts rg `` (V \<inter> old) \<subseteq> V \<and> (dlk_detect s \<longrightarrow> (\<forall>x \<in> V \<inter> old. \<not> dead pm opts x)))"

locale reach_procedure =
  fixes proc :: "pins \<Rightarrow> sym_opts \<Rightarrow> reach_proc" and fit :: "pins \<Rightarrow> sym_opts \<Rightarrow> bool"
  assumes proc_found: "fit pm opts \<Longrightarrow> searchable pm opts rg old V s \<Longrightarrow> found pm opts rg V s (proc pm opts old rg V s)"

interpretation chain_proc: reach_procedure reach_chain "\<lambda>pm opts. True"
proof
  fix pm opts rg old V s assume "searchable pm opts rg old V s"
  then show "found pm opts rg V s (reach_chain pm opts old rg V s)"
    unfolding reach_chain_def searchable_def by (intro chain.loop_found) auto
qed

interpretation chain_prev_proc: reach_procedure reach_chain_prev "\<lambda>pm opts. True"
proof
  fix pm opts rg old V s assume "searchable pm opts rg old V s"
  then show "found pm opts rg V s (reach_chain_prev pm opts old rg V s)"
    unfolding reach_chain_prev_def searchable_def by (intro chain_prev.loop_found) (auto simp: Diff_Diff_Int)
qed

lemma bfs_root:
  assumes "trees_end pm opts" and "two_valued pm"
  shows "\<exists>root. reach_prepare pm opts 0 (nGrps pm) = Some root \<and> bfs_ready pm opts (dlk_detect s) root s"
proof -
  have "0 < nGrps pm" using assms(1) by (simp add: trees_end_def)
  moreover have "use_guards opts \<longrightarrow> (\<forall>i < nGrps pm. p_guards pm i \<noteq> [])" using assms(1) by (simp add: trees_end_def)
  ultimately show ?thesis using reach_prepare_run[of 0 "nGrps pm" pm opts] assms by (auto simp: bfs_ready_def)
qed

interpretation bfs_proc: reach_procedure reach_bfs trees_end
proof
  fix pm opts rg old V s assume f: "trees_end pm opts" and s: "searchable pm opts rg old V s"
  from bfs_root[OF f] s obtain root where "reach_prepare pm opts 0 (nGrps pm) = Some root" and r: "bfs_ready pm opts (dlk_detect s) root s"
    unfolding searchable_def by blast
  then show "found pm opts rg V s (reach_bfs pm opts old rg V s)"
    using s by (simp add: reach_bfs_def searchable_def bfs.loop_found[OF r])
qed

interpretation bfs_prev_proc: reach_procedure reach_bfs_prev trees_end
proof
  fix pm opts rg old V s assume f: "trees_end pm opts" and s: "searchable pm opts rg old V s"
  from bfs_root[OF f] s obtain root where "reach_prepare pm opts 0 (nGrps pm) = Some root" and r: "bfs_ready pm opts (dlk_detect s) root s"
    unfolding searchable_def by blast
  then show "found pm opts rg V s (reach_bfs_prev pm opts old rg V s)"
    using s by (simp add: reach_bfs_prev_def searchable_def Diff_Diff_Int bfs_prev.loop_found[OF r])
qed

end
