(* ===== verification/Sym_Sat.thy ===== *)
theory Sym_Sat
  imports Sym_Search
begin

text \<open>
  The strategies that search level by level, \<^verbatim>\<open>sat.c\<close>. With any of the search procedures they find the
  reachable states as well. For \<^verbatim>\<open>reach_sat_like\<close> this rests on the levels that are skipped after a change:
  groups without common positions commute.
\<close>

section \<open>Groups that commute\<close>

definition positions :: "pins \<Rightarrow> sym_opts \<Rightarrow> nat \<Rightarrow> nat set" where
  "positions pm opts i = set (r_projs pm i) \<union> (if use_guards opts then (\<Union>g \<in> set (p_guards pm i). set (l_projs pm g)) else {})"

lemma put_short_Nil [simp]: "put_short [] x b = x"
  by (simp add: put_short_def)

lemma put_short_other: "q \<notin> set ps \<Longrightarrow> put_short ps x b ! q = x ! q"
proof (induction ps arbitrary: x b)
  case (Cons p ps)
  then show ?case by (cases b) (auto simp: put_short_def)
qed simp

lemma short_other: "set qs \<inter> set ps = {} \<Longrightarrow> short qs (put_short ps x b) = short qs x"
  by (simp add: put_short_other disjoint_iff)

lemma put_short_update: "p \<notin> set ps \<Longrightarrow> put_short ps (x[p := v]) b = (put_short ps x b)[p := v]"
proof (induction ps arbitrary: x b)
  case (Cons q ps)
  show ?case
  proof (cases b)
    case (Cons a as)
    have "x[p := v, q := a] = x[q := a, p := v]" using Cons.prems by (simp add: list_update_swap)
    then show ?thesis using Cons.IH[of "x[q := a]" as] Cons.prems by (simp add: Cons put_short_def)
  qed (simp add: put_short_def)
qed simp

lemma put_short_swap: "set ps \<inter> set qs = {} \<Longrightarrow> put_short qs (put_short ps x b) c = put_short ps (put_short qs x c) b"
proof (induction ps arbitrary: x b)
  case (Cons p ps)
  show ?case
  proof (cases b)
    case (Cons v vs)
    have e: "put_short (p # ps) y b = put_short ps (y[p := v]) vs" for y by (simp add: put_short_def Cons)
    show ?thesis using Cons.IH[of "x[p := v]" vs] Cons.prems put_short_update[of p qs x v c] by (simp add: e)
  qed (simp add: put_short_def)
qed simp

lemma guards_hold_other:
  assumes "positions pm opts j \<inter> set ps = {}"
  shows "guards_hold pm opts j (put_short ps x b) = guards_hold pm opts j x"
proof -
  have "label_of pm g (put_short ps x b) = label_of pm g x" if "use_guards opts" "g \<in> set (p_guards pm j)" for g
    using that assms by (subst short_other) (auto simp: positions_def)
  then show ?thesis by (auto simp: guards_hold_def)
qed

lemma step_commute:
  assumes d: "positions pm opts i \<inter> positions pm opts j = {}" and i: "(v, x) \<in> step pm opts i" and j: "(x, y) \<in> step pm opts j"
  shows "\<exists>w. (v, w) \<in> step pm opts j \<and> (w, y) \<in> step pm opts i"
proof -
  let ?p = "r_projs pm i" and ?q = "r_projs pm j"
  from i obtain b where b: "guards_hold pm opts i v" "x = put_short ?p v b" "b \<in> set (transitions_short pm i (short ?p v))"
    by (auto simp: step_def act_succ_def)
  from j obtain c where c: "guards_hold pm opts j x" "y = put_short ?q x c" "c \<in> set (transitions_short pm j (short ?q x))"
    by (auto simp: step_def act_succ_def)
  have rp: "set ?p \<subseteq> positions pm opts i" "set ?q \<subseteq> positions pm opts j" by (simp_all add: positions_def)
  have pq: "set ?p \<inter> set ?q = {}" "positions pm opts j \<inter> set ?p = {}" "positions pm opts i \<inter> set ?q = {}" using d rp by blast+
  have sx: "short ?q x = short ?q v" using pq(1) unfolding b(2) by (intro short_other) blast
  have sw: "short ?p (put_short ?q v c) = short ?p v" by (rule short_other[OF pq(1)])
  have "(v, put_short ?q v c) \<in> step pm opts j"
    using c guards_hold_other[OF pq(2)] by (auto simp: step_def act_succ_def b(2) sx[unfolded b(2)])
  moreover have "y = put_short ?p (put_short ?q v c) b" unfolding c(2) b(2) by (rule put_short_swap[OF pq(1)])
  then have "(put_short ?q v c, y) \<in> step pm opts i"
    using b(1,3) guards_hold_other[OF pq(3)] by (auto simp: step_def act_succ_def sw)
  ultimately show ?thesis by blast
qed

abbreviation closed_under :: "pins \<Rightarrow> sym_opts \<Rightarrow> (nat \<Rightarrow> bool) \<Rightarrow> nat list set \<Rightarrow> bool" where
  "closed_under pm opts rg V \<equiv> trans_rel pm opts rg `` V \<subseteq> V"

lemma reach_from_closed: "closed_under pm opts rg (reach_from pm opts rg V)"
  by (rule reach_from_step[OF order_refl])

lemma closed_commute:
  assumes d: "\<And>i j. i < nGrps pm \<Longrightarrow> j < nGrps pm \<Longrightarrow> rg i \<Longrightarrow> rg' j \<Longrightarrow> positions pm opts i \<inter> positions pm opts j = {}"
    and V: "closed_under pm opts rg' V"
  shows "closed_under pm opts rg' (reach_from pm opts rg V)"
proof -
  have "\<forall>y. (x, y) \<in> trans_rel pm opts rg' \<longrightarrow> y \<in> reach_from pm opts rg V" if "(v, x) \<in> (trans_rel pm opts rg)\<^sup>*" "v \<in> V" for v x
    using that
  proof (induction rule: rtrancl_induct)
    case base
    then show ?case using V reach_from_self[of V pm opts rg] by blast
  next
    case (step x z)
    show ?case
    proof (intro allI impI)
      fix y assume "(z, y) \<in> trans_rel pm opts rg'"
      then obtain j where j: "j < nGrps pm" "rg' j" "(z, y) \<in> step pm opts j" by (auto simp: trans_rel_def)
      from step.hyps(2) obtain i where i: "i < nGrps pm" "rg i" "(x, z) \<in> step pm opts i" by (auto simp: trans_rel_def)
      from step_commute[OF d[OF i(1) j(1) i(2) j(2)] i(3) j(3)] obtain w where w: "(x, w) \<in> step pm opts j" "(w, y) \<in> step pm opts i" by blast
      have "w \<in> reach_from pm opts rg V" using step.IH step.prems trans_relI[where rg = rg', OF j(1,2) w(1)] by blast
      then show "y \<in> reach_from pm opts rg V" using reach_from_closed trans_relI[where rg = rg, OF i(1,2) w(2)] by blast
    qed
  qed
  then show ?thesis by (auto simp: reach_from_def)
qed

section \<open>Levels\<close>

definition deps_cover :: "pins \<Rightarrow> sym_opts \<Rightarrow> (nat \<Rightarrow> nat \<Rightarrow> bool) \<Rightarrow> bool" where
  "deps_cover pm opts dep \<longleftrightarrow> (\<forall>i < nGrps pm. \<forall>p \<in> positions pm opts i. p < p_N pm \<and> dep i p)"

lemma group_level_less: "0 < gran \<Longrightarrow> group_level pm dep gran i < max_sat_levels pm gran"
  by (auto simp: group_level_def max_sat_levels_def less_Suc_eq_le div_le_mono split: option.splits)

lemma level_groups: "sat_groups (initialize_levels pm dep gran rg) k i \<longleftrightarrow> i < nGrps pm \<and> group_level pm dep gran i = k \<and> rg i"
  by (simp add: initialize_levels_def Let_def)

lemma level_max [simp]: "max_levels (initialize_levels pm dep gran rg) = max_sat_levels pm gran"
  by (simp add: initialize_levels_def Let_def)

lemma trans_rel_levels:
  assumes "0 < gran"
  shows "trans_rel pm opts rg = (\<Union>k < max_sat_levels pm gran. trans_rel pm opts (sat_groups (initialize_levels pm dep gran rg) k))"
  using group_level_less[OF assms, of pm dep] by (auto simp: trans_rel_def level_groups)

lemma level_empty: "empty_groups (initialize_levels pm dep gran rg) k \<Longrightarrow> trans_rel pm opts (sat_groups (initialize_levels pm dep gran rg) k) = {}"
  by (auto simp: trans_rel_def initialize_levels_def Let_def)

lemma level_nonempty:
  assumes "0 < gran" and "i < nGrps pm" and "rg i"
  shows "\<exists>k < max_sat_levels pm gran. \<not> empty_groups (initialize_levels pm dep gran rg) k"
  using assms group_level_less[OF assms(1), of pm dep i] by (auto simp: initialize_levels_def Let_def)

lemma level_reach_less: "reach_from pm opts (sat_groups (initialize_levels pm dep gran rg) k) V \<subseteq> reach_from pm opts rg V"
proof -
  have "trans_rel pm opts (sat_groups (initialize_levels pm dep gran rg) k) \<subseteq> trans_rel pm opts rg" by (auto simp: trans_rel_def level_groups)
  then show ?thesis unfolding reach_from_def by (intro Image_mono rtrancl_mono) simp_all
qed

text \<open>After a change in level \<open>k\<close> the levels before \<^verbatim>\<open>back[k]\<close> stay closed.\<close>

lemma back_keeps:
  assumes dc: "deps_cover pm opts dep" and lv: "lv = initialize_levels pm dep gran rg"
    and ch: "reach_from pm opts (sat_groups lv k) V \<noteq> V" and j: "j < sat_back lv k" and V: "j < k \<Longrightarrow> closed_under pm opts (sat_groups lv j) V"
  shows "closed_under pm opts (sat_groups lv j) (reach_from pm opts (sat_groups lv k) V)"
proof -
  have pos: "positions pm opts i \<subseteq> level_matrix pm dep gran l" if "sat_groups lv l i" for i l
    using that dc by (auto simp: lv level_groups deps_cover_def level_matrix_def)
  have bk: "sat_back lv k = back_level pm dep gran k" by (simp add: lv initialize_levels_def Let_def)
  have ne: "level_matrix pm dep gran k \<noteq> {}"
  proof
    assume e: "level_matrix pm dep gran k = {}"
    have "x = y" if "(x, y) \<in> trans_rel pm opts (sat_groups lv k)" for x y
    proof -
      from that obtain i where i: "sat_groups lv k i" "(x, y) \<in> step pm opts i" by (auto simp: trans_rel_def)
      then have "r_projs pm i = []" using pos[OF i(1)] e by (simp add: positions_def)
      then show ?thesis using i(2) by (auto simp: step_def act_succ_def)
    qed
    then have "closed_under pm opts (sat_groups lv k) V" by blast
    then show False using ch reach_closed_set[OF order_refl reach_from_self] by metis
  qed
  have "level_matrix pm dep gran j \<inter> level_matrix pm dep gran k = {} \<or> j = k"
  proof (cases "List.find (\<lambda>j. level_matrix pm dep gran j \<inter> level_matrix pm dep gran k \<noteq> {}) [0..<k]")
    case None
    then have "j < k + 1" using j ne by (simp add: bk back_level_def)
    then show ?thesis using None by (auto simp: find_None_iff less_Suc_eq)
  next
    case (Some b)
    then have "j < b" using j by (simp add: bk back_level_def)
    moreover have "\<forall>l < b. level_matrix pm dep gran l \<inter> level_matrix pm dep gran k = {}" using Some by (clarsimp simp: find_Some_iff)
    ultimately show ?thesis by blast
  qed
  then show ?thesis
  proof
    assume d: "level_matrix pm dep gran j \<inter> level_matrix pm dep gran k = {}"
    then have "j \<noteq> k" using ne by auto
    moreover have "j < k \<or> j \<ge> k" by arith
    moreover have "j \<le> k"
      using j ne by (auto simp: bk back_level_def find_Some_iff split: option.splits)
    ultimately have "closed_under pm opts (sat_groups lv j) V" using V by simp
    then show ?thesis by (rule closed_commute[rotated]) (use pos d in blast)
  next
    assume "j = k"
    then show ?thesis using reach_from_closed by simp
  qed
qed

section \<open>One level\<close>

lemma found_level:
  assumes lv: "lv = initialize_levels pm dep gran rg" and m: "found pm opts (sat_groups lv k) V s m"
    and f: "\<And>t. known pm t \<Longrightarrow> dlk_detect t = (dlk_detect s \<and> \<not> (\<exists>x \<in> reach_from pm opts (sat_groups lv k) V. dead pm opts x))
      \<Longrightarrow> found pm opts rg (reach_from pm opts (sat_groups lv k) V) t (f (reach_from pm opts (sat_groups lv k) V) t)"
  shows "found pm opts rg V s (rbind m (\<lambda>(W, t). f W t))"
proof -
  let ?W = "reach_from pm opts (sat_groups lv k) V"
  have W: "?W \<subseteq> reach_from pm opts rg V" unfolding lv by (rule level_reach_less)
  show ?thesis
  proof (cases "dlk_detect s \<and> (\<exists>x \<in> ?W. dead pm opts x) \<and> \<not> no_exit opts")
    case True
    then have "m = Some (Inl exit_counter_example)" "\<exists>x \<in> reach_from pm opts rg V. dead pm opts x" using m W by (auto simp: found_def Let_def)
    then show ?thesis using True by (simp add: found_def)
  next
    case False
    then obtain t where t: "m = ret (?W, t)" "known pm t" "dlk_detect t = (dlk_detect s \<and> \<not> (\<exists>x \<in> ?W. dead pm opts x))"
      using m by (auto simp: found_def Let_def split: if_splits)
    have "found pm opts rg V s (f ?W t)"
      by (rule found_more[OF f[OF t(2,3)] reach_from_self W W t(3)]) (use False in blast)
    then show ?thesis by (simp add: t(1))
  qed
qed

text \<open>The saved sets of the levels.\<close>

definition saved_ok :: "pins \<Rightarrow> sym_opts \<Rightarrow> sat_levels \<Rightarrow> (nat \<Rightarrow> nat list set) \<Rightarrow> nat list set \<Rightarrow> sym \<Rightarrow> bool" where
  "saved_ok pm opts lv prev V s \<longleftrightarrow> (save_sat_levels opts \<longrightarrow> (\<forall>k. prev k \<subseteq> V \<and> closed_under pm opts (sat_groups lv k) (prev k) \<and> (dlk_detect s \<longrightarrow> (\<forall>x \<in> prev k. \<not> dead pm opts x))))"

lemma saved_searchable:
  assumes "saved_ok pm opts lv prev V s" and "two_valued pm" and "known pm s" and "finite (reach_from pm opts rg V)" and "lv = initialize_levels pm dep gran rg"
  shows "searchable pm opts (sat_groups lv k) (prev k) V s"
proof -
  have "finite (reach_from pm opts (sat_groups lv k) V)" using finite_subset[OF level_reach_less assms(4)] assms(5) by simp
  then show ?thesis using assms(1-3) unfolding searchable_def saved_ok_def by blast
qed

lemma saved_update:
  assumes "saved_ok pm opts lv prev V s" and "dlk_detect t = (dlk_detect s \<and> \<not> (\<exists>x \<in> reach_from pm opts (sat_groups lv k) V. dead pm opts x))"
  shows "saved_ok pm opts lv (if save_sat_levels opts then prev(k := reach_from pm opts (sat_groups lv k) V) else prev) (reach_from pm opts (sat_groups lv k) V) t"
proof -
  let ?W = "reach_from pm opts (sat_groups lv k) V"
  have "V \<subseteq> ?W" "closed_under pm opts (sat_groups lv k) ?W" by (rule reach_from_self, rule reach_from_closed)
  then show ?thesis using assms unfolding saved_ok_def by simp blast
qed

section \<open>The strategies\<close>

definition sat_levels_ok :: "pins \<Rightarrow> nat \<Rightarrow> (nat \<Rightarrow> bool) \<Rightarrow> bool" where
  "sat_levels_ok pm gran rg \<longleftrightarrow> two_valued pm \<and> 0 < gran \<and> (\<exists>i < nGrps pm. rg i) \<and> max_sat_levels pm gran \<le> nGrps pm"

lemma levels_closed:
  assumes "0 < gran" and "\<forall>k < max_sat_levels pm gran. closed_under pm opts (sat_groups (initialize_levels pm dep gran rg) k) V"
  shows "closed_under pm opts rg V"
  using assms(2) unfolding trans_rel_levels[OF assms(1), of pm opts rg dep] by blast

text \<open>
  The invariant of \<^verbatim>\<open>reach_sat_like\<close> before level \<open>k\<close>: the visited states are closed under the levels before \<open>k\<close> and under the last level that
  changed them, and once one of these was searched, no visited state is dead.
\<close>

definition sat_inv :: "pins \<Rightarrow> sym_opts \<Rightarrow> sat_levels \<Rightarrow> nat \<Rightarrow> nat option \<Rightarrow> (nat \<Rightarrow> nat list set) \<Rightarrow> nat list set \<Rightarrow> sym \<Rightarrow> bool" where
  "sat_inv pm opts lv k last_k prev V s \<longleftrightarrow> saved_ok pm opts lv prev V s \<and> (\<forall>j < k. closed_under pm opts (sat_groups lv j) V)
     \<and> (\<forall>j. last_k = Some j \<longrightarrow> closed_under pm opts (sat_groups lv j) V \<and> (dlk_detect s \<longrightarrow> (\<forall>x \<in> V. \<not> dead pm opts x)))
     \<and> ((\<exists>j < k. \<not> empty_groups lv j) \<longrightarrow> dlk_detect s \<longrightarrow> (\<forall>x \<in> V. \<not> dead pm opts x))"

lemma sat_inv_end:
  assumes ok: "sat_levels_ok pm gran rg" and lv: "lv = initialize_levels pm dep gran rg" and I: "sat_inv pm opts lv k last_k prev V s" and k: "max_levels lv \<le> k"
  shows "closed_under pm opts rg V" and "dlk_detect s \<longrightarrow> (\<forall>x \<in> V. \<not> dead pm opts x)"
proof -
  have g: "0 < gran" using ok by (simp add: sat_levels_ok_def)
  obtain j where "j < max_levels lv" "\<not> empty_groups lv j" using ok level_nonempty[of gran _ pm rg dep] by (auto simp: sat_levels_ok_def lv)
  then show "dlk_detect s \<longrightarrow> (\<forall>x \<in> V. \<not> dead pm opts x)" using I k unfolding sat_inv_def by (meson less_le_trans)
  show "closed_under pm opts rg V" by (rule levels_closed[OF g, where dep = dep]) (use I k in \<open>auto simp: sat_inv_def lv\<close>)
qed

lemma sat_inv_skip:
  assumes "sat_inv pm opts lv k last_k prev V s" and "last_k = Some k \<or> empty_groups lv k" and "lv = initialize_levels pm dep gran rg"
  shows "sat_inv pm opts lv (k + 1) last_k prev V s"
proof -
  have "closed_under pm opts (sat_groups lv k) V" using assms(1,2) level_empty[of pm dep gran rg k opts, folded assms(3)] unfolding sat_inv_def by blast
  then show ?thesis using assms(1,2) unfolding sat_inv_def by (metis Suc_eq_plus1 less_SucE)
qed

lemma sat_inv_searched:
  assumes I: "sat_inv pm opts lv k last_k prev V s" and W: "W = reach_from pm opts (sat_groups lv k) V"
    and d: "dlk_detect t = (dlk_detect s \<and> \<not> (\<exists>x \<in> W. dead pm opts x))"
  shows "V = W \<Longrightarrow> sat_inv pm opts lv (k + 1) last_k (if save_sat_levels opts then prev(k := W) else prev) W t"
    and "V \<noteq> W \<Longrightarrow> deps_cover pm opts dep \<Longrightarrow> lv = initialize_levels pm dep gran rg
      \<Longrightarrow> sat_inv pm opts lv (sat_back lv k) (Some k) (if save_sat_levels opts then prev(k := W) else prev) W t"
proof -
  have su: "saved_ok pm opts lv (if save_sat_levels opts then prev(k := W) else prev) W t"
    unfolding W by (rule saved_update) (use I d in \<open>simp_all add: sat_inv_def W\<close>)
  have cW: "closed_under pm opts (sat_groups lv k) W" unfolding W by (rule reach_from_closed)
  have nd: "dlk_detect t \<longrightarrow> (\<forall>x \<in> W. \<not> dead pm opts x)" using d by simp
  {
    assume e: "V = W"
    have "\<forall>j < k + 1. closed_under pm opts (sat_groups lv j) W" using I cW unfolding sat_inv_def e by (metis Suc_eq_plus1 less_SucE)
    then show "sat_inv pm opts lv (k + 1) last_k (if save_sat_levels opts then prev(k := W) else prev) W t"
      using su nd I unfolding sat_inv_def e by blast
  next
    assume "V \<noteq> W" "deps_cover pm opts dep" "lv = initialize_levels pm dep gran rg"
    then have "\<forall>j < sat_back lv k. closed_under pm opts (sat_groups lv j) W" using back_keeps[of pm opts dep lv gran rg k V] I by (simp add: sat_inv_def W)
    then show "sat_inv pm opts lv (sat_back lv k) (Some k) (if save_sat_levels opts then prev(k := W) else prev) W t"
      using su nd cW unfolding sat_inv_def by blast
  }
qed

lemma sat_measure:
  assumes "finite R" and "V \<subset> W" and "W \<subseteq> R"
  shows "card (R - W) * (m + 1) + (m - k') < card (R - V) * (m + 1) + (m - k)"
proof -
  have "card (R - W) < card (R - V)" using assms by (intro psubset_card_mono) auto
  then have "(card (R - W) + 1) * (m + 1) \<le> card (R - V) * (m + 1)" by (intro mult_right_mono) simp_all
  then show ?thesis by (simp add: algebra_simps)
qed

context reach_procedure
begin

lemma sat_like_loop_found:
  assumes fit: "fit pm opts" and ok: "sat_levels_ok pm gran rg" and dc: "deps_cover pm opts dep" and lv: "lv = initialize_levels pm dep gran rg"
  shows "known pm s \<Longrightarrow> finite (reach_from pm opts rg V) \<Longrightarrow> sat_inv pm opts lv k last_k prev V s
    \<Longrightarrow> found pm opts rg V s (sat_like_loop (save_sat_levels opts) lv (proc pm opts) k last_k prev V s)"
proof (induction "card (reach_from pm opts rg V - V) * (max_levels lv + 1) + (max_levels lv - k)" arbitrary: s V prev k last_k rule: less_induct)
  case less
  note IH = less.hyps and I = less.prems(3)
  consider (last) "max_levels lv \<le> k" | (skip) "k < max_levels lv" "last_k = Some k \<or> empty_groups lv k"
    | (run) "k < max_levels lv" "\<not> (last_k = Some k \<or> empty_groups lv k)" by linarith
  then show ?case
  proof cases
    case last
    then show ?thesis using found_done[OF less.prems(1) sat_inv_end[OF ok lv I last]] by (subst sat_like_loop.simps) simp
  next
    case skip
    have "found pm opts rg V s (sat_like_loop (save_sat_levels opts) lv (proc pm opts) (k + 1) last_k prev V s)"
      by (rule IH[OF _ less.prems(1,2) sat_inv_skip[OF I skip(2) lv]]) (use skip(1) in simp)
    then show ?thesis using skip by (subst sat_like_loop.simps) simp
  next
    case run
    let ?g = "sat_groups lv k"
    define F where "F = (\<lambda>W t. let prev = (if save_sat_levels opts then prev(k := W) else prev)
      in if V = W then sat_like_loop (save_sat_levels opts) lv (proc pm opts) (k + 1) last_k prev W t
         else sat_like_loop (save_sat_levels opts) lv (proc pm opts) (sat_back lv k) (Some k) prev W t)"
    have "found pm opts rg V s (rbind (proc pm opts (prev k) ?g V s) (\<lambda>(W, t). F W t))"
    proof (rule found_level[OF lv])
      show "found pm opts ?g V s (proc pm opts (prev k) ?g V s)"
        using I ok by (intro proc_found[OF fit saved_searchable[OF _ _ less.prems(1,2) lv]]) (simp_all add: sat_inv_def sat_levels_ok_def)
    next
      fix t assume k: "known pm t" and d: "dlk_detect t = (dlk_detect s \<and> \<not> (\<exists>x \<in> reach_from pm opts ?g V. dead pm opts x))"
      define W where "W = reach_from pm opts ?g V"
      have VW: "V \<subseteq> W" "W \<subseteq> reach_from pm opts rg V" unfolding W_def lv by (rule reach_from_self, rule level_reach_less)
      have e: "reach_from pm opts rg W = reach_from pm opts rg V" by (rule reach_grow[OF VW])
      have fin: "finite (reach_from pm opts rg W)" using less.prems(2) by (simp add: e)
      note next_inv = sat_inv_searched[OF I W_def d[folded W_def]]
      have "found pm opts rg W t (F W t)"
      proof (cases "V = W")
        case True
        show ?thesis unfolding F_def Let_def if_P[OF True]
          by (rule IH[OF _ k fin next_inv(1)[OF True]]) (use run(1) in \<open>auto simp: True[symmetric]\<close>)
      next
        case False
        show ?thesis unfolding F_def Let_def if_not_P[OF False]
          by (rule IH[OF _ k fin next_inv(2)[OF False dc lv]]) (use VW False in \<open>auto simp only: e intro!: sat_measure less.prems(2)\<close>)
      qed
      then show "found pm opts rg (reach_from pm opts ?g V) t (F (reach_from pm opts ?g V) t)" by (simp add: W_def)
    qed
    then show ?thesis using run by (subst sat_like_loop.simps) (simp add: F_def)
  qed
qed

lemma sat_like_found:
  assumes "fit pm opts" and "sat_levels_ok pm gran rg" and "deps_cover pm opts dep" and "known pm s" and "finite (reach_from pm opts rg V)"
  shows "found pm opts rg V s (reach_sat_like pm opts dep gran (proc pm opts) rg V s)"
proof -
  have "saved_ok pm opts lv (\<lambda>k. {}) V s" for lv by (simp add: saved_ok_def)
  then have "found pm opts rg V s (sat_like_loop (save_sat_levels opts) (initialize_levels pm dep gran rg) (proc pm opts) 0 None (\<lambda>k. {}) V s)"
    by (intro sat_like_loop_found[OF assms(1-3) refl assms(4,5)]) (simp add: sat_inv_def)
  then show ?thesis using assms(2) by (simp add: reach_sat_like_def sat_levels_ok_def Let_def)
qed

lemma sat_loop_levels_found:
  assumes fit: "fit pm opts" and tv: "two_valued pm" and lv: "lv = initialize_levels pm dep gran rg"
    and f: "\<And>prev W t. known pm t \<Longrightarrow> saved_ok pm opts lv prev W t \<Longrightarrow> V \<subseteq> W \<Longrightarrow> W \<subseteq> reach_from pm opts rg V
      \<Longrightarrow> (V = W \<Longrightarrow> \<forall>k \<in> set ks. closed_under pm opts (sat_groups lv k) V)
      \<Longrightarrow> dlk_detect t \<longrightarrow> dlk_detect s \<and> ((\<exists>k \<in> set ks. \<not> empty_groups lv k) \<longrightarrow> (\<forall>x \<in> V. \<not> dead pm opts x)) \<Longrightarrow> found pm opts rg W t (f prev W t)"
  shows "known pm s \<Longrightarrow> finite (reach_from pm opts rg V) \<Longrightarrow> saved_ok pm opts lv prev V s
    \<Longrightarrow> found pm opts rg V s (rbind (fold_run (sat_loop_level (save_sat_levels opts) lv (proc pm opts)) ks (prev, V, s)) (\<lambda>(prev, W, t). f prev W t))"
  using f
proof (induction ks arbitrary: prev V s)
  case Nil
  then show ?case by (simp add: reach_from_self)
next
  case (Cons k ks)
  let ?g = "sat_groups lv k" and ?L = "sat_loop_level (save_sat_levels opts) lv (proc pm opts)"
  show ?case
  proof (cases "empty_groups lv k")
    case True
    then have run: "fold_run ?L (k # ks) (prev, V, s) = fold_run ?L ks (prev, V, s)" by (simp add: sat_loop_level_def)
    have c: "closed_under pm opts ?g V" using True level_empty[of pm dep gran rg k opts] by (simp add: lv)
    show ?thesis unfolding run
    proof (rule Cons.IH[OF Cons.prems(1-3)])
      fix prev' W t assume w: "known pm t" "saved_ok pm opts lv prev' W t" "V \<subseteq> W" "W \<subseteq> reach_from pm opts rg V"
        "V = W \<Longrightarrow> \<forall>k \<in> set ks. closed_under pm opts (sat_groups lv k) V"
        "dlk_detect t \<longrightarrow> dlk_detect s \<and> ((\<exists>k \<in> set ks. \<not> empty_groups lv k) \<longrightarrow> (\<forall>x \<in> V. \<not> dead pm opts x))"
      show "found pm opts rg W t (f prev' W t)" by (rule Cons.prems(4)[OF w(1-4)]) (use w(5,6) c True in simp_all)
    qed
  next
    case False
    define F where "F = (\<lambda>W t. rbind (fold_run ?L ks (if save_sat_levels opts then prev(k := W) else prev, W, t)) (\<lambda>(prev, W, t). f prev W t))"
    have "found pm opts rg V s (rbind (proc pm opts (prev k) ?g V s) (\<lambda>(W, t). F W t))"
    proof (rule found_level[OF lv])
      show "found pm opts ?g V s (proc pm opts (prev k) ?g V s)" by (rule proc_found[OF fit saved_searchable[OF Cons.prems(3) tv Cons.prems(1,2) lv]])
    next
      fix t assume kt: "known pm t" and d: "dlk_detect t = (dlk_detect s \<and> \<not> (\<exists>x \<in> reach_from pm opts ?g V. dead pm opts x))"
      define W where "W = reach_from pm opts ?g V"
      have VW: "V \<subseteq> W" "W \<subseteq> reach_from pm opts rg V" unfolding W_def lv by (rule reach_from_self, rule level_reach_less)
      have e: "reach_from pm opts rg W = reach_from pm opts rg V" by (rule reach_grow[OF VW])
      have fin: "finite (reach_from pm opts rg W)" using Cons.prems(2) by (simp add: e)
      have cW: "closed_under pm opts ?g W" unfolding W_def by (rule reach_from_closed)
      have "found pm opts rg W t (F W t)" unfolding F_def
      proof (rule Cons.IH[OF kt fin saved_update[OF Cons.prems(3) d, folded W_def]])
        fix prev' X u assume x: "known pm u" "saved_ok pm opts lv prev' X u" "W \<subseteq> X" "X \<subseteq> reach_from pm opts rg W"
          "W = X \<Longrightarrow> \<forall>k \<in> set ks. closed_under pm opts (sat_groups lv k) W"
          "dlk_detect u \<longrightarrow> dlk_detect t \<and> ((\<exists>k \<in> set ks. \<not> empty_groups lv k) \<longrightarrow> (\<forall>x \<in> W. \<not> dead pm opts x))"
        show "found pm opts rg X u (f prev' X u)"
        proof (rule Cons.prems(4)[OF x(1,2)])
          show "V \<subseteq> X" "X \<subseteq> reach_from pm opts rg V" using VW x(3,4) e by blast+
          show "\<forall>k \<in> set (k # ks). closed_under pm opts (sat_groups lv k) V" if "V = X"
          proof -
            have "V = W" "W = X" using that VW(1) x(3) by blast+
            then show ?thesis using x(5) cW by simp
          qed
          show "dlk_detect u \<longrightarrow> dlk_detect s \<and> ((\<exists>k \<in> set (k # ks). \<not> empty_groups lv k) \<longrightarrow> (\<forall>x \<in> V. \<not> dead pm opts x))"
            using x(6) d VW(1) unfolding W_def by blast
        qed
      qed
      then show "found pm opts rg (reach_from pm opts ?g V) t (F (reach_from pm opts ?g V) t)" by (simp add: W_def)
    qed
    moreover have "rbind (fold_run ?L (k # ks) (prev, V, s)) (\<lambda>(prev, W, t). f prev W t) = rbind (proc pm opts (prev k) ?g V s) (\<lambda>(W, t). F W t)"
      using False by (auto simp: sat_loop_level_def F_def rbind_def split: option.splits sum.splits)
    ultimately show ?thesis by simp
  qed
qed

lemma sat_loop_loop_found:
  assumes fit: "fit pm opts" and ok: "sat_levels_ok pm gran rg" and lv: "lv = initialize_levels pm dep gran rg"
  shows "known pm s \<Longrightarrow> finite (reach_from pm opts rg V) \<Longrightarrow> saved_ok pm opts lv prev V s \<Longrightarrow> old \<subseteq> V
    \<Longrightarrow> (V = old \<Longrightarrow> closed_under pm opts rg V \<and> (dlk_detect s \<longrightarrow> (\<forall>x \<in> V. \<not> dead pm opts x)))
    \<Longrightarrow> found pm opts rg V s (sat_loop_loop (save_sat_levels opts) lv (proc pm opts) old prev V s)"
proof (induction "card (reach_from pm opts rg V - old)" arbitrary: s V prev old rule: less_induct)
  case less
  have tv: "two_valued pm" "0 < gran" using ok by (simp_all add: sat_levels_ok_def)
  show ?case
  proof (cases "old = V")
    case True
    then show ?thesis using found_done[OF less.prems(1)] less.prems(5) by (subst sat_loop_loop.simps) simp
  next
    case False
    define F where "F = (\<lambda>prev W t. sat_loop_loop (save_sat_levels opts) lv (proc pm opts) V prev W t)"
    have "found pm opts rg V s (rbind (fold_run (sat_loop_level (save_sat_levels opts) lv (proc pm opts)) [0..<max_levels lv] (prev, V, s)) (\<lambda>(prev, W, t). F prev W t))"
    proof (rule sat_loop_levels_found[OF fit tv(1) lv _ less.prems(1-3)])
      fix prev' W t assume w: "known pm t" "saved_ok pm opts lv prev' W t" "V \<subseteq> W" "W \<subseteq> reach_from pm opts rg V"
        "V = W \<Longrightarrow> \<forall>k \<in> set [0..<max_levels lv]. closed_under pm opts (sat_groups lv k) V"
        "dlk_detect t \<longrightarrow> dlk_detect s \<and> ((\<exists>k \<in> set [0..<max_levels lv]. \<not> empty_groups lv k) \<longrightarrow> (\<forall>x \<in> V. \<not> dead pm opts x))"
      have e: "reach_from pm opts rg W = reach_from pm opts rg V" by (rule reach_grow[OF w(3,4)])
      have m: "card (reach_from pm opts rg W - V) < card (reach_from pm opts rg V - old)"
        unfolding e using less.prems(2,4) False w(3,4) by (intro psubset_card_mono) auto
      have "closed_under pm opts rg W \<and> (dlk_detect t \<longrightarrow> (\<forall>x \<in> W. \<not> dead pm opts x))" if "W = V"
      proof
        show "closed_under pm opts rg W" by (rule levels_closed[OF tv(2), where dep = dep]) (use w(5) that in \<open>simp add: lv\<close>)
        obtain j where "j < max_levels lv" "\<not> empty_groups lv j" using ok level_nonempty[of gran _ pm rg dep] by (auto simp: sat_levels_ok_def lv)
        then show "dlk_detect t \<longrightarrow> (\<forall>x \<in> W. \<not> dead pm opts x)" using w(6) that by auto
      qed
      then show "found pm opts rg W t (F prev' W t)" unfolding F_def
        by (intro less.hyps[OF m w(1) _ w(2,3)]) (use less.prems(2) in \<open>simp_all add: e\<close>)
    qed
    then show ?thesis using False by (subst sat_loop_loop.simps) (simp add: F_def)
  qed
qed

lemma sat_loop_found:
  assumes "fit pm opts" and "sat_levels_ok pm gran rg" and "known pm s" and "finite (reach_from pm opts rg V)"
  shows "found pm opts rg V s (reach_sat_loop pm opts dep gran (proc pm opts) rg V s)"
proof -
  have "saved_ok pm opts lv (\<lambda>k. {}) V s" for lv by (simp add: saved_ok_def)
  then have "found pm opts rg V s (sat_loop_loop (save_sat_levels opts) (initialize_levels pm dep gran rg) (proc pm opts) {} (\<lambda>k. {}) V s)"
    by (intro sat_loop_loop_found[OF assms(1,2) refl assms(3,4)]) simp_all
  then show ?thesis using assms(2) by (simp add: reach_sat_loop_def sat_levels_ok_def Let_def)
qed

end

end
