(* ===== verification/Ldd_Tree.thy ===== *)
theory Ldd_Tree
  imports Prelude
begin

text \<open>
  List decision diagrams as trees, the values that the nodes of \<^verbatim>\<open>src/src/vset-lib/vset_listdd.c\<close> stand
  for: \<open>Zero\<close> and \<open>One\<close> are the nodes 0 and 1, and \<open>Node v d r\<close> is a node with value \<open>v\<close>, whose vectors
  start with \<open>v\<close> and continue in \<open>d\<close>, or are vectors of \<open>r\<close>. The trees the tool builds are ordered and
  of one length (\<open>wf_dd\<close>); such trees are canonical: two of them with the same vectors are equal.
\<close>

datatype dd = Zero | One | Node nat dd dd

fun vecs :: "dd \<Rightarrow> nat list set" where
  "vecs Zero = {}"
| "vecs One = {[]}"
| "vecs (Node v d r) = (#) v ` vecs d \<union> vecs r"

fun above :: "nat \<Rightarrow> dd \<Rightarrow> bool" where
  "above v (Node w d r) \<longleftrightarrow> v < w"
| "above v t \<longleftrightarrow> True"

fun wf_dd :: "nat \<Rightarrow> dd \<Rightarrow> bool" where
  "wf_dd n Zero \<longleftrightarrow> True"
| "wf_dd n One \<longleftrightarrow> n = 0"
| "wf_dd n (Node v d r) \<longleftrightarrow> 0 < n \<and> d \<noteq> Zero \<and> wf_dd (n - 1) d \<and> wf_dd n r \<and> above v r"

lemma wf_dd_0: "wf_dd 0 t \<longleftrightarrow> t = Zero \<or> t = One"
  by (cases t) auto

lemma wf_dd_Suc: "wf_dd (Suc n) t \<longleftrightarrow> t = Zero
    \<or> (\<exists>v d r. t = Node v d r \<and> d \<noteq> Zero \<and> wf_dd n d \<and> wf_dd (Suc n) r \<and> above v r)"
  by (cases t) auto

lemma vecs_length: "wf_dd n t \<Longrightarrow> x \<in> vecs t \<Longrightarrow> length x = n"
  by (induction t arbitrary: n x) fastforce+

lemma vecs_empty: "wf_dd n t \<Longrightarrow> vecs t = {} \<longleftrightarrow> t = Zero"
  by (induction t arbitrary: n) auto

lemma vecs_above: "wf_dd n t \<Longrightarrow> above v t \<Longrightarrow> x \<in> vecs t \<Longrightarrow> x = [] \<or> v < hd x"
proof (induction t arbitrary: n v)
  case (Node w d r)
  have "above v r" using Node.prems by (cases r) auto
  with Node show ?case by auto
qed auto

lemma aboveI:
  assumes "wf_dd n t" and "\<And>x. x \<in> vecs t \<Longrightarrow> v < hd x"
  shows "above v t"
proof (cases t)
  case (Node w d r)
  with assms(1) have "vecs d \<noteq> {}" by (auto simp: vecs_empty)
  then obtain x where "w # x \<in> vecs t" using Node by auto
  with assms(2) Node show ?thesis by fastforce
qed auto

lemma vecs_Node:
  assumes "wf_dd n (Node v d r)"
  shows "{x. v # x \<in> vecs (Node v d r)} = vecs d" and "{x \<in> vecs (Node v d r). hd x \<noteq> v} = vecs r"
    and "x \<in> vecs (Node v d r) \<Longrightarrow> v \<le> hd x" and "\<exists>x \<in> vecs (Node v d r). hd x = v"
proof -
  have r: "v < hd x" if "x \<in> vecs r" for x
    using that assms vecs_above[of n r v x] vecs_length[of n r x] by auto
  then show "{x. v # x \<in> vecs (Node v d r)} = vecs d" by fastforce
  show "{x \<in> vecs (Node v d r). hd x \<noteq> v} = vecs r" using r by fastforce
  show "x \<in> vecs (Node v d r) \<Longrightarrow> v \<le> hd x" using r by fastforce
  have "vecs d \<noteq> {}" using assms vecs_empty[of "n - 1" d] by simp
  then obtain x where "x \<in> vecs d" by auto
  then have "v # x \<in> vecs (Node v d r)" by simp
  then show "\<exists>x \<in> vecs (Node v d r). hd x = v" by (rule bexI[rotated]) simp
qed

theorem dd_canonical: "wf_dd n s \<Longrightarrow> wf_dd n t \<Longrightarrow> vecs s = vecs t \<Longrightarrow> s = t"
proof (induction s arbitrary: n t)
  case Zero
  then show ?case using vecs_empty[of n t] by simp
next
  case One
  then have "n = 0" "vecs t \<noteq> {}" by auto
  then show ?case using One.prems(2) by (auto simp: wf_dd_0)
next
  case (Node v d r)
  have "t \<noteq> Zero" using Node.prems(1,3) vecs_empty[of n "Node v d r"] by auto
  then obtain w e q where t: "t = Node w e q" using Node.prems(1,2) by (cases t) auto
  have v: "v = w"
    using vecs_Node(3,4)[OF Node.prems(1)] vecs_Node(3,4)[OF Node.prems(2)[unfolded t]] Node.prems(3)
    unfolding t by (metis le_antisym)
  have "vecs d = vecs e" "vecs r = vecs q"
    using vecs_Node(1,2)[OF Node.prems(1)] vecs_Node(1,2)[OF Node.prems(2)[unfolded t]] Node.prems(3)
    unfolding t v by (simp_all only:)
  moreover have "wf_dd (n - 1) d" "wf_dd n r" "wf_dd (n - 1) e" "wf_dd n q"
    using Node.prems(1,2) by (simp_all add: t)
  ultimately show ?case using Node.IH unfolding t v by blast
qed

end
