(* ===== verification/Ldd_Store.thy ===== *)
theory Ldd_Store
  imports Ldd_Tree
begin

text \<open>
  The node store of \<^verbatim>\<open>src/src/vset-lib/vset_listdd.c\<close>: the node table with its unique table and free
  list, the operation cache, the stack of protected nodes, the garbage collector and the creation
  of nodes. All the static variables of the C file are one record. The tables are functions from
  indices, with their sizes beside them; a freshly allocated table has arbitrary contents until it
  is filled, and node numbers and values are natural numbers below \<open>2 ^ 32\<close>. The mark of the
  collector is bit 31 of the \<^verbatim>\<open>next\<close> field. The lists of protected sets and relations are lists of
  identifiers with the structures they point to.

  Whether an allocation of a number of bytes succeeds is the parameter \<open>alloc\<close> of the operations; where it
  fails, \<^verbatim>\<open>RTmalloc\<close>, \<^verbatim>\<open>RTrealloc\<close> and \<^verbatim>\<open>RTalign\<close> abort. A run that does not end is \<open>None\<close>.
\<close>

section \<open>The state\<close>

abbreviation (input) UINT32_MAX :: nat where "UINT32_MAX \<equiv> 4294967295"

fun fib_loop :: "nat \<Rightarrow> u32 \<Rightarrow> u32 \<Rightarrow> u32" where
  "fib_loop 0 tmp1 tmp2 = tmp1"
| "fib_loop (Suc n) tmp1 tmp2 = fib_loop n tmp2 (tmp2 + tmp1)"

definition fib :: "nat \<Rightarrow> nat" where
  "fib n = unat (fib_loop n 0 1)"

abbreviation (input) FIB_MAX :: nat where "FIB_MAX \<equiv> 46"

record mdd_node =
  nd_next :: nat
  nd_val :: nat
  nd_down :: nat
  nd_right :: nat

text \<open>The second word of the union in an entry of the cache is read as \<^verbatim>\<open>arg2\<close> and \<^verbatim>\<open>res\<close>.\<close>

record op_rec =
  op_op :: nat
  op_arg1 :: nat
  op_arg2 :: nat
  op_res :: nat

abbreviation (input) OP_UNUSED :: nat where "OP_UNUSED \<equiv> 0"
abbreviation (input) OP_COUNT :: nat where "OP_COUNT \<equiv> 1"
abbreviation (input) OP_UNION :: nat where "OP_UNION \<equiv> 2"
abbreviation (input) OP_MINUS :: nat where "OP_MINUS \<equiv> 3"
abbreviation (input) OP_PROJECT :: nat where "OP_PROJECT \<equiv> 4"
abbreviation (input) OP_NEXT :: nat where "OP_NEXT \<equiv> 5"
abbreviation (input) OP_PREV :: nat where "OP_PREV \<equiv> 6"
abbreviation (input) OP_COPY_MATCH :: nat where "OP_COPY_MATCH \<equiv> 7"
abbreviation (input) OP_INTERSECT :: nat where "OP_INTERSECT \<equiv> 8"
abbreviation (input) OP_SAT :: nat where "OP_SAT \<equiv> 9"
abbreviation (input) OP_RELPROD :: nat where "OP_RELPROD \<equiv> 10"
abbreviation (input) OP_UNIVERSE :: nat where "OP_UNIVERSE \<equiv> 11"
abbreviation (input) OP_CCOUNT1 :: nat where "OP_CCOUNT1 \<equiv> 12"
abbreviation (input) OP_CCOUNT2 :: nat where "OP_CCOUNT2 \<equiv> 13"
abbreviation (input) OP_VISIT :: nat where "OP_VISIT \<equiv> 14"

text \<open>A set and a relation; \<open>vs_size\<close> is the vector length of the domain.\<close>

record vector_set =
  vs_size :: nat
  vs_mdd :: nat
  vs_p_id :: nat
  vs_p_len :: int
  vs_proj :: "int list"

record ldd =
  mdd_nodes :: nat
  uniq_size :: nat
  cache_size :: nat
  nodes_fib :: nat
  cache_fib :: int
  free_node :: nat
  unique_table :: "nat \<Rightarrow> nat"
  node_table :: "nat \<Rightarrow> mdd_node"
  op_cache :: "nat \<Rightarrow> op_rec"
  mdd_used :: nat
  stack_fib :: nat
  stack_size :: nat
  mdd_stack :: "nat list"
  protected_sets :: "(nat \<times> vector_set) list"
  protected_rels :: "(nat \<times> vector_set) list"
  mdd_load_node_ids :: "nat list"

definition hash :: "nat \<Rightarrow> nat \<Rightarrow> nat \<Rightarrow> nat" where
  "hash a b c =
     (let a = of_nat a :: u32; b = of_nat b :: u32; c = of_nat c :: u32;
          a = a - b; a = a - c; a = a XOR drop_bit 13 c;
          b = b - c; b = b - a; b = b XOR push_bit 8 a;
          c = c - a; c = c - b; c = c XOR drop_bit 13 b;
          a = a - b; a = a - c; a = a XOR drop_bit 12 c;
          b = b - c; b = b - a; b = b XOR push_bit 16 a;
          c = c - a; c = c - b; c = c XOR drop_bit 5 b;
          a = a - b; a = a - c; a = a XOR drop_bit 3 c;
          b = b - c; b = b - a; b = b XOR push_bit 10 a;
          c = c - a; c = c - b; c = c XOR drop_bit 15 b
      in unat c)"

abbreviation val :: "ldd \<Rightarrow> nat \<Rightarrow> nat" where "val s i \<equiv> nd_val (node_table s i)"
abbreviation down :: "ldd \<Rightarrow> nat \<Rightarrow> nat" where "down s i \<equiv> nd_down (node_table s i)"
abbreviation right :: "ldd \<Rightarrow> nat \<Rightarrow> nat" where "right s i \<equiv> nd_right (node_table s i)"
abbreviation nxt :: "ldd \<Rightarrow> nat \<Rightarrow> nat" where "nxt s i \<equiv> nd_next (node_table s i)"

definition set_next :: "nat \<Rightarrow> nat \<Rightarrow> ldd \<Rightarrow> ldd" where
  "set_next i v s = s\<lparr>node_table := (node_table s)(i := (node_table s i)\<lparr>nd_next := v\<rparr>)\<rparr>"

section \<open>The stack of protected nodes\<close>

text \<open>The stack is the list of its entries, the last one pushed first; \<^verbatim>\<open>mdd_top\<close> is its length.\<close>

definition mdd_push :: "(nat \<Rightarrow> bool) \<Rightarrow> nat \<Rightarrow> ldd \<Rightarrow> ldd result option" where
  "mdd_push alloc mdd s =
     (if length (mdd_stack s) = stack_size s then
        let stack_size_new = fib (stack_fib s + 1)
        in if stack_size_new < stack_size s then abort ''stack overflow''
           else if \<not> alloc (4 * stack_size_new) then abort ''out of memory''
           else ret (s\<lparr>stack_fib := stack_fib s + 1, stack_size := stack_size_new, mdd_stack := mdd # mdd_stack s\<rparr>)
      else ret (s\<lparr>mdd_stack := mdd # mdd_stack s\<rparr>))"

definition mdd_pop :: "ldd \<Rightarrow> (nat \<times> ldd) result option" where
  "mdd_pop s = (case mdd_stack s of [] \<Rightarrow> abort ''stack underflow''
     | x # xs \<Rightarrow> ret (x, s\<lparr>mdd_stack := xs\<rparr>))"

section \<open>Garbage collection\<close>

definition marked :: "ldd \<Rightarrow> nat \<Rightarrow> bool" where
  "marked s i = bit (nxt s i) 31"

partial_function (option) mdd_mark :: "nat \<Rightarrow> ldd \<Rightarrow> ldd result option" where
  "mdd_mark mdd s =
     (if mdd \<le> 1 then ret s
      else if marked s mdd then ret s
      else let s = set_next mdd (nxt s mdd OR 2147483648) (s\<lparr>mdd_used := mdd_used s + 1\<rparr>)
           in rbind (mdd_mark (down s mdd) s) (\<lambda>s. mdd_mark (right s mdd) s))"

declare mdd_mark.simps [code]

partial_function (option) mdd_clear_and_count :: "nat \<Rightarrow> nat \<Rightarrow> ldd \<Rightarrow> (nat \<times> ldd) result option" where
  "mdd_clear_and_count mdd count s =
     (if mdd \<le> 1 then ret (count, s)
      else if marked s mdd then
        let s = set_next mdd (nxt s mdd AND 2147483647) s
        in rbind (mdd_clear_and_count (down s mdd) (count + 1) s)
             (\<lambda>(count, s). mdd_clear_and_count (right s mdd) count s)
      else ret (count, s))"

declare mdd_clear_and_count.simps [code]

definition mdd_node_count :: "nat \<Rightarrow> ldd \<Rightarrow> (nat \<times> ldd) result option" where
  "mdd_node_count mdd s =
     (if mdd \<le> 1 then ret (1, s)
      else rbind (mdd_mark mdd s) (\<lambda>s.
           rbind (mdd_clear_and_count mdd 0 s) (\<lambda>(res, s). ret (res + 2, s))))"

partial_function (option) mdd_sweep_bucket :: "nat \<Rightarrow> ldd \<Rightarrow> (nat \<times> ldd) result option" where
  "mdd_sweep_bucket mdd s =
     (if mdd = 0 then ret (0, s)
      else if mdd = 1 then abort ''data corruption''
      else if marked s mdd then
        let s = set_next mdd (nxt s mdd AND 2147483647) s
        in rbind (mdd_sweep_bucket (nxt s mdd) s) (\<lambda>(n, s). ret (mdd, set_next mdd n s))
      else
        let tmp = nxt s mdd; s = set_next mdd (free_node s) s; s = s\<lparr>free_node := mdd\<rparr>
        in mdd_sweep_bucket tmp s)"

declare mdd_sweep_bucket.simps [code]

text \<open>What the collector marks from, beside its two arguments: \<open>gc_roots\<close>.\<close>

definition gc_roots :: "ldd \<Rightarrow> nat list" where
  "gc_roots s = concat (map (\<lambda>(i, v). [vs_mdd v, vs_p_id v]) (protected_sets s))
     @ concat (map (\<lambda>(i, v). [vs_mdd v, vs_p_id v]) (protected_rels s))
     @ rev (mdd_stack s) @ mdd_load_node_ids s"

fun mark_all :: "nat list \<Rightarrow> ldd \<Rightarrow> ldd result option" where
  "mark_all [] s = ret s"
| "mark_all (i # is) s = rbind (mdd_mark i s) (mark_all is)"

text \<open>
  The switch of the loop over the cache: the entry as it is left there. \<open>cache_key2\<close> is the second
  argument under which the entry is copied to a new cache.
\<close>

definition gc_entry :: "ldd \<Rightarrow> op_rec \<Rightarrow> op_rec result" where
  "gc_entry s e =
     (let op = op_op e AND 255; unused = e\<lparr>op_op := OP_UNUSED\<rparr> in
      if op = OP_UNUSED then Inr e
      else if op \<in> set [OP_COUNT, OP_CCOUNT1, OP_CCOUNT2, OP_VISIT] then
        Inr (if marked s (op_arg1 e) then e else unused)
      else if op \<in> set [OP_PROJECT, OP_UNIVERSE] then
        Inr (if marked s (op_arg1 e) \<and> marked s (op_res e) then e else unused)
      else if op \<in> set [OP_UNION, OP_MINUS, OP_NEXT, OP_PREV, OP_COPY_MATCH, OP_INTERSECT, OP_SAT, OP_RELPROD] then
        Inr (if marked s (op_arg1 e) \<and> marked s (op_arg2 e) \<and> marked s (op_res e) then e else unused)
      else Inl (Abort_msg ''missing case''))"

definition cache_key2 :: "op_rec \<Rightarrow> nat" where
  "cache_key2 e = (if (op_op e AND 255) \<in> set [OP_COUNT, OP_CCOUNT1, OP_CCOUNT2, OP_VISIT] then 0 else op_arg2 e)"

definition gc_cache_step :: "ldd \<Rightarrow> bool \<Rightarrow> nat \<Rightarrow> nat \<Rightarrow> (nat \<Rightarrow> op_rec) \<times> (nat \<Rightarrow> op_rec)
    \<Rightarrow> ((nat \<Rightarrow> op_rec) \<times> (nat \<Rightarrow> op_rec)) result" where
  "gc_cache_step s resize new_cache_size i c =
     (let (oc, nc) = c in
      result_bind (gc_entry s (oc i)) (\<lambda>e.
        let oc = oc(i := e) in
        if (op_op e AND 255) = OP_UNUSED \<or> \<not> resize then Inr (oc, nc)
        else let slot = hash (op_op e AND 255) (op_arg1 e) (cache_key2 e) mod new_cache_size
             in Inr (oc, nc(slot := e))))"

fun sweep_all :: "nat list \<Rightarrow> ldd \<Rightarrow> ldd result option" where
  "sweep_all [] s = ret s"
| "sweep_all (i # is) s = rbind (mdd_sweep_bucket (unique_table s i) s)
     (\<lambda>(n, s). sweep_all is (s\<lparr>unique_table := (unique_table s)(i := n)\<rparr>))"

text \<open>The loops over the node table when it has been resized.\<close>

definition rehash_node :: "nat \<Rightarrow> ldd \<Rightarrow> ldd" where
  "rehash_node i s =
     (if marked s i then
        let s = set_next i (nxt s i AND 2147483647) s;
            slot = hash (val s i) (down s i) (right s i) mod uniq_size s;
            s = set_next i (unique_table s slot) s
        in s\<lparr>unique_table := (unique_table s)(slot := i)\<rparr>
      else (set_next i (free_node s) s)\<lparr>free_node := i\<rparr>)"

definition fresh_node :: "nat \<Rightarrow> ldd \<Rightarrow> ldd" where
  "fresh_node i s = s\<lparr>node_table := (node_table s)(i := (node_table s i)\<lparr>nd_val := 0, nd_next := i + 1\<rparr>)\<rparr>"

definition collect_resize :: "(nat \<Rightarrow> bool) \<Rightarrow> ldd \<Rightarrow> ldd result option" where
  "collect_resize alloc s =
     (let nf = nodes_fib s + 1;
          new_cache_size = fib (nat ((int nf + cache_fib s) mod 2 ^ 32))
      in if \<not> alloc (16 * new_cache_size) then abort ''out of memory'' else
      let new_cache = (\<lambda>i. (op_cache s i)\<lparr>op_op := 0\<rparr>);
          new_cache_size = (if new_cache_size < cache_size s then UINT32_MAX else new_cache_size)
      in case fold_result (gc_cache_step s True new_cache_size) [0..<cache_size s] (op_cache s, new_cache) of
           Inl e \<Rightarrow> Some (Inl e)
         | Inr (oc, nc) \<Rightarrow>
      let old_size = mdd_nodes s;
          nodes = fib nf;
          uniq = (if uniq_size s \<noteq> UINT32_MAX then let u = fib (nf + 1) in if u < nodes then UINT32_MAX else u else uniq_size s)
      in if uniq_size s \<noteq> UINT32_MAX \<and> \<not> alloc (4 * uniq) then abort ''out of memory'' else
      let nodes = (if uniq_size s = UINT32_MAX \<and> nodes < old_size then UINT32_MAX else nodes)
      in if \<not> alloc (16 * nodes) then abort ''out of memory'' else
      let s = s\<lparr>nodes_fib := nf, op_cache := nc, cache_size := new_cache_size, mdd_nodes := nodes, uniq_size := uniq,
                unique_table := (\<lambda>i. 0), free_node := old_size\<rparr>;
          s = fold fresh_node [old_size..<nodes] s;
          s = set_next (nodes - 1) 0 s
      in ret (fold rehash_node [2..<old_size] s))"

definition collect_sweep :: "ldd \<Rightarrow> ldd result option" where
  "collect_sweep s =
     (case fold_result (gc_cache_step s False (cache_size s)) [0..<cache_size s] (op_cache s, op_cache s) of
        Inl e \<Rightarrow> Some (Inl e)
      | Inr (oc, nc) \<Rightarrow> sweep_all [0..<uniq_size s] (s\<lparr>op_cache := oc\<rparr>))"

definition mdd_collect :: "(nat \<Rightarrow> bool) \<Rightarrow> nat \<Rightarrow> nat \<Rightarrow> ldd \<Rightarrow> ldd result option" where
  "mdd_collect alloc a b s =
     rbind (mark_all (a # b # gc_roots s) (s\<lparr>mdd_used := 0\<rparr>)) (\<lambda>s.
       if mdd_used s = UINT32_MAX then abort ''Node table full at maximum size''
       else if mdd_used s > fib ((nodes_fib s + UINT32_MAX) mod (UINT32_MAX + 1)) \<and> mdd_nodes s \<noteq> UINT32_MAX
       then collect_resize alloc s
       else collect_sweep s)"

section \<open>Creating nodes\<close>

partial_function (option) bucket_find :: "ldd \<Rightarrow> nat \<Rightarrow> nat \<Rightarrow> nat \<Rightarrow> nat \<Rightarrow> nat option" where
  "bucket_find s v d r res =
     (if res = 0 then Some 0
      else if val s res = v \<and> down s res = d \<and> right s res = r then Some res
      else bucket_find s v d r (nxt s res))"

declare bucket_find.simps [code]

text \<open>The last lines of \<^verbatim>\<open>mdd_create_node\<close>, where the head of the free list becomes the new node.\<close>

definition take_free_node :: "nat \<Rightarrow> nat \<Rightarrow> nat \<Rightarrow> nat \<Rightarrow> ldd \<Rightarrow> nat \<times> ldd" where
  "take_free_node slot v d r s =
     (let res = free_node s;
          s = s\<lparr>free_node := nxt s (free_node s)\<rparr>;
          s = set_next res (unique_table s slot) s;
          s = s\<lparr>unique_table := (unique_table s)(slot := res)\<rparr>
      in (res, s\<lparr>node_table := (node_table s)(res := (node_table s res)\<lparr>nd_val := v, nd_down := d, nd_right := r\<rparr>)\<rparr>))"

definition mdd_create_node :: "(nat \<Rightarrow> bool) \<Rightarrow> nat \<Rightarrow> nat \<Rightarrow> nat \<Rightarrow> ldd \<Rightarrow> (nat \<times> ldd) result option" where
  "mdd_create_node alloc v d r s =
     (if d = 0 then ret (r, s)
      else if r > 1 \<and> v \<ge> val s r then abort ''bad order''
      else let slot_hash = hash v d r; slot = slot_hash mod uniq_size s in
      case bucket_find s v d r (unique_table s slot) of
        None \<Rightarrow> None
      | Some res \<Rightarrow>
          if res \<noteq> 0 then ret (res, s)
          else if free_node s = 0 then
            rbind (mdd_collect alloc d r s) (\<lambda>s. ret (take_free_node (slot_hash mod uniq_size s) v d r s))
          else ret (take_free_node slot v d r s))"

section \<open>The initial tables\<close>

text \<open>
  The part of \<^verbatim>\<open>vdom_create_list_native\<close> that sets up the tables; \<open>junk\<close> is what the allocated
  blocks contain.
\<close>

definition init_tables :: "(nat \<Rightarrow> bool) \<Rightarrow> nat \<Rightarrow> int \<Rightarrow> ldd \<Rightarrow> ldd result option" where
  "init_tables alloc nf cf junk =
     (let nodes = (if nf \<le> FIB_MAX then fib nf else UINT32_MAX);
          uniq = (if nf + 1 \<le> FIB_MAX then fib (nf + 1) else UINT32_MAX);
          cf_sum = nat ((int nf + cf) mod 2 ^ 32);
          cache = (if cf_sum \<le> FIB_MAX then fib cf_sum else UINT32_MAX)
      in if \<not> alloc (4 * uniq) \<or> \<not> alloc (16 * nodes) \<or> \<not> alloc (16 * cache) \<or> \<not> alloc (4 * fib 22)
         then abort ''out of memory'' else
      let s = junk\<lparr>mdd_nodes := nodes, uniq_size := uniq, cache_size := cache, nodes_fib := nf, cache_fib := cf,
                   free_node := 2, unique_table := (\<lambda>i. 0),
                   op_cache := (\<lambda>i. (op_cache junk i)\<lparr>op_op := 0\<rparr>),
                   stack_fib := 22, stack_size := fib 22, mdd_stack := [],
                   protected_sets := [], protected_rels := [], mdd_load_node_ids := []\<rparr>;
          s = s\<lparr>node_table := (node_table s)(0 := (node_table s 0)\<lparr>nd_val := 0\<rparr>, 1 := (node_table s 1)\<lparr>nd_val := 0\<rparr>)\<rparr>;
          s = fold fresh_node [2..<nodes] s
      in ret (set_next (nodes - 1) 0 s))"

end
