(* ===== verification/Ldd_Inv.thy ===== *)
theory Ldd_Inv
  imports Ldd_Store
begin

text \<open>
  What a state of the node store means, and its invariant: buckets and free list are chains that
  partition the node table, nodes are unique and well-founded, and the entries of the cache are
  right.
\<close>

section \<open>Sizes\<close>

fun nfib :: "nat \<Rightarrow> nat" where
  "nfib 0 = 0"
| "nfib (Suc 0) = 1"
| "nfib (Suc (Suc n)) = nfib (Suc n) + nfib n"

lemma fib_loop_nfib: "fib_loop n (of_nat (nfib k)) (of_nat (nfib (Suc k))) = of_nat (nfib (n + k))"
proof (induction n arbitrary: k)
  case (Suc n)
  from Suc.IH[of "Suc k"] show ?case by simp
qed simp

lemma nfib_mono: "m \<le> n \<Longrightarrow> nfib m \<le> nfib n"
proof (rule lift_Suc_mono_le[of nfib])
  show "nfib k \<le> nfib (Suc k)" for k by (cases k) auto
qed

text \<open>The numbers themselves are computed by the loop on natural numbers.\<close>

fun nfib_loop :: "nat \<Rightarrow> nat \<Rightarrow> nat \<Rightarrow> nat" where
  "nfib_loop 0 a b = a"
| "nfib_loop (Suc n) a b = nfib_loop n b (b + a)"

lemma nfib_loop: "nfib_loop n (nfib k) (nfib (Suc k)) = nfib (n + k)"
proof (induction n arbitrary: k)
  case (Suc n)
  from Suc.IH[of "Suc k"] show ?case by simp
qed simp

lemma nfib_loop_numeral: "nfib_loop (numeral k) a b = nfib_loop (pred_numeral k) b (b + a)"
  by (simp add: numeral_eq_Suc)

lemma nfib_small: "nfib 4 = 3" "nfib 6 = 8"
  by (simp_all add: eval_nat_numeral)

lemma nfib_47: "nfib 47 = 2971215073" and nfib_46: "nfib 46 = 1836311903"
proof -
  have n: "nfib 3 = 2" "nfib 4 = 3" by (simp_all add: eval_nat_numeral)
  show "nfib 47 = 2971215073" using nfib_loop[of 44 3] by (simp add: n nfib_loop_numeral del: nfib.simps)
  show "nfib 46 = 1836311903" using nfib_loop[of 43 3] by (simp add: n nfib_loop_numeral del: nfib.simps)
qed

lemma fib_nfib: "n \<le> 47 \<Longrightarrow> fib n = nfib n"
proof -
  assume "n \<le> 47"
  then have "nfib n < 2 ^ 32" using nfib_mono[of n 47] nfib_47 by simp
  then show ?thesis
    using fib_loop_nfib[of n 0] by (simp add: fib_def unat_of_nat)
qed

lemma fib_46: "fib 46 = 1836311903" and fib_47: "fib 47 = 2971215073"
  by (simp_all add: fib_nfib nfib_47 nfib_46)

lemma fib_48: "fib 48 = 512559680"
proof -
  have "nfib 48 = nfib 47 + nfib 46" using nfib.simps(3)[of 46] by (simp add: eval_nat_numeral del: nfib.simps)
  then have "of_nat (nfib 48) = (of_nat 4807526976 :: u32)" by (simp add: nfib_47 nfib_46 del: of_nat_numeral)
  then show ?thesis using fib_loop_nfib[of 48 0] by (simp add: fib_def unat_of_nat)
qed

lemma fib_le: "m \<le> n \<Longrightarrow> n \<le> 47 \<Longrightarrow> fib m \<le> fib n"
  by (simp add: fib_nfib nfib_mono)

lemma nfib_ge: "n \<ge> 4 \<Longrightarrow> 3 \<le> nfib n"
  using nfib_mono[of 4 n] by (simp add: nfib_small)

lemma fib_pos: "0 < n \<Longrightarrow> n \<le> 47 \<Longrightarrow> 0 < fib n"
  using nfib_mono[of 1 n] by (simp add: fib_nfib)

text \<open>Enough room is left when the collector does not resize, and resizing makes room.\<close>

lemma fib_room:
  assumes "6 \<le> n" and "n \<le> 46"
  shows "fib (n - 1) + 3 \<le> fib n" and "fib n < fib (n + 1)"
proof -
  define k where "k = n - 2"
  with assms(1) have k: "n = Suc (Suc k)" "4 \<le> k" by simp_all
  then show "fib (n - 1) + 3 \<le> fib n" "fib n < fib (n + 1)"
    using assms nfib_ge[of k] nfib_ge[of "Suc k"] by (simp_all add: fib_nfib)
qed

section \<open>Denotation\<close>

fun repr :: "ldd \<Rightarrow> nat \<Rightarrow> dd \<Rightarrow> bool" where
  "repr s i Zero \<longleftrightarrow> i = 0"
| "repr s i One \<longleftrightarrow> i = 1"
| "repr s i (Node v d r) \<longleftrightarrow> 1 < i \<and> val s i = v \<and> repr s (down s i) d \<and> repr s (right s i) r"

definition den :: "ldd \<Rightarrow> nat \<Rightarrow> nat \<Rightarrow> nat list set \<Rightarrow> bool" where
  "den s n i A \<longleftrightarrow> (\<exists>t. repr s i t \<and> wf_dd n t \<and> vecs t = A)"

lemma repr_fun: "repr s i t \<Longrightarrow> repr s i u \<Longrightarrow> t = u"
proof (induction t arbitrary: i u)
  case (Node v d r)
  then show ?case by (cases u) auto
qed (case_tac u; auto)+

lemma den_fun: "den s n i A \<Longrightarrow> den s n i B \<Longrightarrow> A = B"
  unfolding den_def using repr_fun by blast

lemma den_0 [simp]: "den s n 0 A \<longleftrightarrow> A = {}"
proof -
  have "repr s 0 t \<longleftrightarrow> t = Zero" for t by (cases t) auto
  then show ?thesis by (auto simp: den_def)
qed

lemma den_1 [simp]: "den s n (Suc 0) A \<longleftrightarrow> A = {[]} \<and> n = 0"
proof -
  have "repr s (Suc 0) t \<longleftrightarrow> t = One" for t by (cases t) auto
  then show ?thesis by (auto simp: den_def)
qed

lemma den_length: "den s n i A \<Longrightarrow> x \<in> A \<Longrightarrow> length x = n"
  unfolding den_def using vecs_length by blast

lemma den_empty: "den s n i A \<Longrightarrow> A = {} \<longleftrightarrow> i = 0"
  unfolding den_def using vecs_empty by (metis repr.simps(1) den_0 den_def)

text \<open>A node above 1 splits its vectors by their first element.\<close>

lemma den_node:
  assumes "den s n i A" and "1 < i"
  obtains m D R where "n = Suc m" and "den s m (down s i) D" and "den s n (right s i) R"
    and "A = (#) (val s i) ` D \<union> R" and "D \<noteq> {}" and "\<forall>x \<in> R. val s i < hd x" and "\<forall>x \<in> D. length x = m"
    and "\<forall>x \<in> R. \<exists>y ys. x = y # ys"
proof -
  from assms obtain v d r where t: "repr s i (Node v d r)" "wf_dd n (Node v d r)" "vecs (Node v d r) = A"
    unfolding den_def by (metis dd.exhaust less_irrefl not_one_less_zero repr.simps(1,2))
  then obtain m where n: "n = Suc m" by (cases n) auto
  have len: "length x = n" if "x \<in> vecs r" for x using t n that vecs_length by auto
  show thesis
  proof (rule that[of m "vecs d" "vecs r"])
    show "den s m (down s i) (vecs d)" "den s n (right s i) (vecs r)" using t n by (auto simp: den_def)
    show "\<forall>x \<in> vecs r. val s i < hd x" using t len n vecs_above[of n r v] by fastforce
    show "\<forall>x \<in> vecs r. \<exists>y ys. x = y # ys" using len n by (metis length_Suc_conv)
  qed (use t n vecs_empty[of m d] vecs_length[of m d] in auto)
qed

section \<open>Chains\<close>

fun chain :: "(nat \<Rightarrow> nat) \<Rightarrow> nat \<Rightarrow> nat list \<Rightarrow> bool" where
  "chain nx i [] \<longleftrightarrow> i = 0"
| "chain nx i (x # xs) \<longleftrightarrow> i = x \<and> 0 < x \<and> chain nx (nx x) xs"

lemma chain_fun: "chain nx i xs \<Longrightarrow> chain nx i ys \<Longrightarrow> xs = ys"
proof (induction xs arbitrary: i ys)
  case Nil
  then show ?case by (cases ys) auto
next
  case (Cons x xs)
  then show ?case by (cases ys) auto
qed

lemma chain_cong: "(\<And>i. i \<in> set xs \<Longrightarrow> nx i = ny i) \<Longrightarrow> chain nx i xs = chain ny i xs"
  by (induction xs arbitrary: i) auto

lemma chain_upd [simp]: "j \<notin> set xs \<Longrightarrow> chain (nx(j := v)) i xs = chain nx i xs"
  by (rule chain_cong) auto

lemma chain_append: "chain nx i (xs @ ys) \<Longrightarrow> \<exists>j. chain nx j ys"
  by (induction xs arbitrary: i) auto

lemma chain_pos: "chain nx i xs \<Longrightarrow> x \<in> set xs \<Longrightarrow> 0 < x"
  by (induction xs arbitrary: i) auto

lemma chain_distinct: "chain nx i xs \<Longrightarrow> distinct xs"
proof (induction xs arbitrary: i)
  case (Cons x xs)
  have "x \<notin> set xs"
  proof
    assume "x \<in> set xs"
    then obtain ys zs where "xs = ys @ x # zs" by (auto simp: in_set_conv_decomp)
    with Cons.prems have "chain nx (nx x) (ys @ x # zs)" by simp
    moreover from this obtain j where "chain nx j (x # zs)" by (blast dest: chain_append)
    then have "chain nx (nx x) zs" by simp
    ultimately have "ys @ x # zs = zs" by (rule chain_fun)
    then show False by (auto dest: arg_cong[where f = length])
  qed
  with Cons show ?case by auto
qed simp

section \<open>The invariant\<close>

text \<open>\<open>tables s B F\<close>: \<open>B k\<close> is the bucket \<open>k\<close> of the unique table and \<open>F\<close> the free list.\<close>

definition slot_of_node :: "ldd \<Rightarrow> nat \<Rightarrow> nat" where
  "slot_of_node s i = hash (val s i) (down s i) (right s i) mod uniq_size s"

definition tables :: "ldd \<Rightarrow> (nat \<Rightarrow> nat list) \<Rightarrow> nat list \<Rightarrow> bool" where
  "tables s B F \<longleftrightarrow> (\<forall>k < uniq_size s. chain (nxt s) (unique_table s k) (B k)) \<and> chain (nxt s) (free_node s) F
     \<and> (\<forall>k < uniq_size s. \<forall>i \<in> set (B k). slot_of_node s i = k)
     \<and> (\<forall>k < uniq_size s. set (B k) \<inter> set F = {})
     \<and> (\<Union>k < uniq_size s. set (B k)) \<union> set F = {2..<mdd_nodes s}"

definition used :: "ldd \<Rightarrow> nat set" where
  "used s = {i. \<exists>k < uniq_size s. \<exists>xs. chain (nxt s) (unique_table s k) xs \<and> i \<in> set xs}"

definition vld :: "ldd \<Rightarrow> nat \<Rightarrow> bool" where
  "vld s i \<longleftrightarrow> i \<le> 1 \<or> i \<in> used s"

lemma used_tables: "tables s B F \<Longrightarrow> used s = (\<Union>k < uniq_size s. set (B k))"
  unfolding used_def tables_def by (auto dest: chain_fun)

definition op_fun :: "nat \<Rightarrow> nat list set \<Rightarrow> nat list set \<Rightarrow> nat list set" where
  "op_fun op A B = (if op = OP_UNION then A \<union> B else if op = OP_MINUS then A - B else A \<inter> B)"

definition set_op :: "nat \<Rightarrow> bool" where
  "set_op op \<longleftrightarrow> op = OP_UNION \<or> op = OP_MINUS \<or> op = OP_INTERSECT"

definition entry_ok :: "ldd \<Rightarrow> op_rec \<Rightarrow> bool" where
  "entry_ok s e \<longleftrightarrow> op_op e AND 255 \<le> 14 \<and> (set_op (op_op e) \<longrightarrow>
     vld s (op_arg1 e) \<and> vld s (op_arg2 e) \<and> vld s (op_res e)
     \<and> (\<forall>n A B. den s n (op_arg1 e) A \<longrightarrow> den s n (op_arg2 e) B \<longrightarrow> den s n (op_res e) (op_fun (op_op e) A B)))"

text \<open>
  The entries of the operations that take a projection, and the nodes of such an entry that the collector looks at: it
  does not test the projection.
\<close>

definition rel_op :: "nat \<Rightarrow> bool" where
  "rel_op op \<longleftrightarrow> op AND 255 \<in> {OP_PROJECT, OP_NEXT, OP_PREV, OP_COPY_MATCH, OP_SAT, OP_RELPROD, OP_UNIVERSE}"

definition entry_nodes :: "op_rec \<Rightarrow> nat set" where
  "entry_nodes e = {op_arg1 e, op_res e} \<union> (if op_op e AND 255 \<in> {OP_PROJECT, OP_UNIVERSE} then {} else {op_arg2 e})"

text \<open>Such entries only disappear, and the nodes of those that stay keep their meaning.\<close>

definition entries_from :: "ldd \<Rightarrow> ldd \<Rightarrow> bool" where
  "entries_from s s' \<longleftrightarrow> (\<forall>k < cache_size s'. rel_op (op_op (op_cache s' k)) \<longrightarrow>
     (\<exists>j < cache_size s. op_cache s j = op_cache s' k) \<and>
     (\<forall>i \<in> entry_nodes (op_cache s' k). vld s i \<longrightarrow> vld s' i \<and> (\<forall>n A. den s' n i A = den s n i A)))"

lemma rel_op_0 [simp]: "\<not> rel_op 0"
  by (simp add: rel_op_def)

lemma set_op_not_rel: "set_op op \<Longrightarrow> \<not> rel_op op"
  unfolding set_op_def rel_op_def by (elim disjE) simp_all

lemma entries_from_same:
  "op_cache s' = op_cache s \<Longrightarrow> cache_size s' = cache_size s \<Longrightarrow> (\<And>i. vld s i \<Longrightarrow> vld s' i \<and> (\<forall>n A. den s' n i A = den s n i A)) \<Longrightarrow> entries_from s s'"
  by (auto simp: entries_from_def)

lemma entries_from_trans:
  assumes "entries_from s t" and "entries_from t u"
  shows "entries_from s u"
  unfolding entries_from_def
proof (intro allI impI)
  fix k assume k: "k < cache_size u" "rel_op (op_op (op_cache u k))"
  then obtain j where j: "j < cache_size t" "op_cache t j = op_cache u k"
    and u: "\<forall>i \<in> entry_nodes (op_cache u k). vld t i \<longrightarrow> vld u i \<and> (\<forall>n A. den u n i A = den t n i A)"
    using assms(2) unfolding entries_from_def by blast
  then obtain l where "l < cache_size s" "op_cache s l = op_cache u k"
    and "\<forall>i \<in> entry_nodes (op_cache u k). vld s i \<longrightarrow> vld t i \<and> (\<forall>n A. den t n i A = den s n i A)"
    using assms(1) k(2) unfolding entries_from_def by metis
  with u show "(\<exists>j < cache_size s. op_cache s j = op_cache u k)
    \<and> (\<forall>i \<in> entry_nodes (op_cache u k). vld s i \<longrightarrow> vld u i \<and> (\<forall>n A. den u n i A = den s n i A))" by auto
qed

definition sizes_ok :: "ldd \<Rightarrow> bool" where
  "sizes_ok s \<longleftrightarrow> 6 \<le> nodes_fib s \<and> nodes_fib s \<le> 46 \<and> mdd_nodes s = fib (nodes_fib s)
     \<and> (uniq_size s = fib (nodes_fib s + 1) \<or> uniq_size s = UINT32_MAX)
     \<and> 1 \<le> int (nodes_fib s) + cache_fib s \<and> int (nodes_fib s) + cache_fib s \<le> 46
     \<and> cache_size s = fib (nat (int (nodes_fib s) + cache_fib s))
     \<and> 22 \<le> stack_fib s \<and> stack_fib s \<le> 47 \<and> stack_size s = fib (stack_fib s) \<and> length (mdd_stack s) \<le> stack_size s"

definition nodes_ok :: "ldd \<Rightarrow> bool" where
  "nodes_ok s \<longleftrightarrow> (\<forall>i \<in> used s. vld s (down s i) \<and> vld s (right s i) \<and> (\<exists>t. repr s i t))
     \<and> (\<forall>i \<in> used s. \<forall>j \<in> used s. val s i = val s j \<and> down s i = down s j \<and> right s i = right s j \<longrightarrow> i = j)"

definition ldd_ok :: "ldd \<Rightarrow> bool" where
  "ldd_ok s \<longleftrightarrow> sizes_ok s \<and> (\<exists>B F. tables s B F) \<and> nodes_ok s \<and> (\<forall>k < cache_size s. entry_ok s (op_cache s k))
     \<and> (\<forall>i \<in> set (gc_roots s). vld s i)"

lemma sizes_bounds:
  assumes "sizes_ok s"
  shows "0 < uniq_size s" and "0 < cache_size s" and "mdd_nodes s < 2 ^ 31" and "6 < mdd_nodes s"
proof -
  show "0 < uniq_size s" "0 < cache_size s" using assms by (auto simp: sizes_ok_def intro!: fib_pos)
  show "mdd_nodes s < 2 ^ 31" using assms fib_le[of "nodes_fib s" 46] by (simp add: sizes_ok_def fib_46)
  have "fib 6 \<le> mdd_nodes s" using assms fib_le[of 6 "nodes_fib s"] by (simp add: sizes_ok_def)
  moreover have "fib 6 = 8" by (simp add: fib_nfib nfib_small)
  ultimately show "6 < mdd_nodes s" by simp
qed

lemma vld_repr: "nodes_ok s \<Longrightarrow> vld s i \<Longrightarrow> \<exists>t. repr s i t"
proof -
  assume "nodes_ok s" "vld s i"
  then consider "i = 0" | "i = 1" | "\<exists>t. repr s i t" by (auto simp: vld_def nodes_ok_def le_Suc_eq)
  then show ?thesis
  proof cases
    case 1 then show ?thesis by (auto intro: exI[of _ Zero])
  next
    case 2 then show ?thesis by (auto intro: exI[of _ One])
  qed
qed

text \<open>Node numbers are canonical: two valid nodes that stand for the same tree are the same node.\<close>

lemma repr_inj:
  assumes "nodes_ok s"
  shows "vld s i \<Longrightarrow> vld s j \<Longrightarrow> repr s i t \<Longrightarrow> repr s j t \<Longrightarrow> i = j"
proof (induction t arbitrary: i j)
  case (Node v d r)
  then have "i \<in> used s" "j \<in> used s" by (auto simp: vld_def)
  moreover from this assms Node have "down s i = down s j" "right s i = right s j"
    by (auto simp: nodes_ok_def)
  ultimately show ?case using assms Node.prems by (auto simp: nodes_ok_def)
qed auto

lemma den_inj:
  assumes "nodes_ok s" and "vld s i" and "vld s j" and "den s n i A" and "den s n j A"
  shows "i = j"
  using assms repr_inj dd_canonical unfolding den_def by blast

section \<open>Reachable nodes\<close>

inductive_set reach :: "ldd \<Rightarrow> nat set \<Rightarrow> nat set" for s R where
  reach_root: "i \<in> R \<Longrightarrow> 1 < i \<Longrightarrow> i \<in> reach s R"
| reach_down: "i \<in> reach s R \<Longrightarrow> 1 < down s i \<Longrightarrow> down s i \<in> reach s R"
| reach_right: "i \<in> reach s R \<Longrightarrow> 1 < right s i \<Longrightarrow> right s i \<in> reach s R"

lemma reach_gt: "i \<in> reach s R \<Longrightarrow> 1 < i"
  by (induction rule: reach.induct) auto

lemma reach_mono: "i \<in> reach s R \<Longrightarrow> R \<subseteq> R' \<Longrightarrow> i \<in> reach s R'"
  by (induction rule: reach.induct) (auto intro: reach.intros)

lemma reach_closed: "i \<in> reach s R \<Longrightarrow> R \<inter> {1<..} \<subseteq> M \<Longrightarrow>
    (\<And>j. j \<in> M \<Longrightarrow> 1 < down s j \<Longrightarrow> down s j \<in> M) \<Longrightarrow> (\<And>j. j \<in> M \<Longrightarrow> 1 < right s j \<Longrightarrow> right s j \<in> M) \<Longrightarrow> i \<in> M"
  by (induction rule: reach.induct) auto

lemma reach_used: "nodes_ok s \<Longrightarrow> \<forall>i \<in> R. vld s i \<Longrightarrow> reach s R \<subseteq> used s"
proof
  fix i assume a: "nodes_ok s" "\<forall>i \<in> R. vld s i" "i \<in> reach s R"
  from a(3) show "i \<in> used s"
    by (rule reach_closed) (use a(1,2) in \<open>auto simp: vld_def nodes_ok_def\<close>)
qed

text \<open>A tree is kept where the fields of its nodes are kept.\<close>

definition same_fields :: "ldd \<Rightarrow> ldd \<Rightarrow> nat set \<Rightarrow> bool" where
  "same_fields s s' X \<longleftrightarrow> (\<forall>i \<in> X. val s' i = val s i \<and> down s' i = down s i \<and> right s' i = right s i)"

definition closed_nodes :: "ldd \<Rightarrow> nat set \<Rightarrow> bool" where
  "closed_nodes s X \<longleftrightarrow> (\<forall>i \<in> X. (1 < down s i \<longrightarrow> down s i \<in> X) \<and> (1 < right s i \<longrightarrow> right s i \<in> X))"

lemma same_fields_repr:
  assumes "same_fields s s' X" and "closed_nodes s X"
  shows "i \<le> 1 \<or> i \<in> X \<Longrightarrow> repr s' i t = repr s i t"
proof (induction t arbitrary: i)
  case (Node v d r)
  show ?case
  proof (cases "1 < i")
    case True
    with Node.prems have i: "i \<in> X" by auto
    then have "down s i \<le> 1 \<or> down s i \<in> X" "right s i \<le> 1 \<or> right s i \<in> X"
      using assms(2) by (auto simp: closed_nodes_def)
    with Node.IH assms(1) i show ?thesis by (auto simp: same_fields_def)
  qed simp
qed simp_all

lemma same_fields_den:
  "same_fields s s' X \<Longrightarrow> closed_nodes s X \<Longrightarrow> i \<le> 1 \<or> i \<in> X \<Longrightarrow> den s' n i A = den s n i A"
  by (simp add: den_def same_fields_repr)

lemma closed_reach: "closed_nodes s (reach s R)"
  by (auto simp: closed_nodes_def intro: reach.intros)

lemma closed_used: "nodes_ok s \<Longrightarrow> closed_nodes s (used s)"
  by (auto simp: closed_nodes_def nodes_ok_def vld_def)

text \<open>A state that keeps a closed part of the nodes keeps the invariant on them.\<close>

lemma nodes_ok_sub:
  assumes "nodes_ok s" and "used s' \<subseteq> used s" and "same_fields s s' (used s')" and "closed_nodes s (used s')"
  shows "nodes_ok s'"
proof -
  have f: "val s' i = val s i" "down s' i = down s i" "right s' i = right s i" if "i \<in> used s'" for i
    using assms(3) that by (auto simp: same_fields_def)
  have "vld s' (down s' i) \<and> vld s' (right s' i) \<and> (\<exists>t. repr s' i t)" if "i \<in> used s'" for i
    using that assms(1,2,4) same_fields_repr[OF assms(3,4), of i]
    by (auto simp: f[OF that] vld_def closed_nodes_def nodes_ok_def not_le)
  with assms(1,2) show ?thesis unfolding nodes_ok_def using f by (auto simp: subset_iff)
qed

lemma entry_ok_sub:
  assumes "entry_ok s e" and "set_op (op_op e) \<Longrightarrow> {op_arg1 e, op_arg2 e, op_res e} \<subseteq> {0, 1} \<union> X" and "X \<subseteq> used s'"
    and "same_fields s s' X" and "closed_nodes s X"
  shows "entry_ok s' e"
proof -
  have "vld s' i" "\<And>n A. den s' n i A = den s n i A" if "i \<in> {0, 1} \<union> X" for i
    using that assms(3) same_fields_den[OF assms(4,5), of i] by (auto simp: vld_def)
  with assms(1,2) show ?thesis unfolding entry_ok_def by auto
qed

end
