(* ===== verification/Ldd_Mark.thy ===== *)
theory Ldd_Mark
  imports Ldd_Inv
begin

text \<open>
  The mark phase of the collector and its pass over the cache: exactly the nodes that can be reached
  from the protected ones are marked and counted, and the entries that stay in the cache only mention marked nodes.
\<close>

section \<open>Marks\<close>

definition with_marks :: "nat set \<Rightarrow> ldd \<Rightarrow> ldd" where
  "with_marks M s = s\<lparr>node_table := (\<lambda>i. if i \<in> M then (node_table s i)\<lparr>nd_next := nxt s i OR 2147483648\<rparr> else node_table s i),
                     mdd_used := card M\<rparr>"

definition no_marks :: "ldd \<Rightarrow> bool" where
  "no_marks s \<longleftrightarrow> (\<forall>i. 2 \<le> i \<and> i < mdd_nodes s \<longrightarrow> nxt s i < 2147483648)"

lemma with_marks_fields [simp]:
  "val (with_marks M s) i = val s i" "down (with_marks M s) i = down s i" "right (with_marks M s) i = right s i"
  "uniq_size (with_marks M s) = uniq_size s" "unique_table (with_marks M s) = unique_table s"
  "free_node (with_marks M s) = free_node s" "mdd_used (with_marks M s) = card M" "cache_size (with_marks M s) = cache_size s"
  "op_cache (with_marks M s) = op_cache s" "mdd_nodes (with_marks M s) = mdd_nodes s" "nodes_fib (with_marks M s) = nodes_fib s"
  "cache_fib (with_marks M s) = cache_fib s" "mdd_stack (with_marks M s) = mdd_stack s" "stack_size (with_marks M s) = stack_size s"
  "protected_sets (with_marks M s) = protected_sets s" "protected_rels (with_marks M s) = protected_rels s"
  "mdd_load_node_ids (with_marks M s) = mdd_load_node_ids s" "stack_fib (with_marks M s) = stack_fib s"
  by (simp_all add: with_marks_def)

lemma nxt_with_marks: "nxt (with_marks M s) i = (if i \<in> M then nxt s i OR 2147483648 else nxt s i)"
  by (simp add: with_marks_def)

lemma bit31: "bit (2147483648::nat) k \<longleftrightarrow> k = 31"
proof -
  have "(2147483648::nat) = 2 ^ 31" by simp
  then show ?thesis by (metis bit_push_bit_iff_nat push_bit_of_1 bit_1_iff possible_bit_nat bit_exp_iff)
qed

lemma low_bits: "(n::nat) < 2147483648 \<Longrightarrow> \<not> bit n 31"
  by (simp add: bit_iff_odd)

lemma or_31: "bit ((n::nat) OR 2147483648) 31"
  unfolding bit_or_iff bit31 by simp

lemma and_low: "(n::nat) AND 2147483647 = take_bit 31 n"
  by (simp add: take_bit_eq_mask mask_eq_exp_minus_1)

lemma or_and_low: "(n::nat) < 2147483648 \<Longrightarrow> (n OR 2147483648) AND 2147483647 = n"
  unfolding and_low take_bit_or by (simp add: take_bit_eq_mod)

lemma marked_with_marks:
  assumes "no_marks s" and "2 \<le> i" and "i < mdd_nodes s"
  shows "marked (with_marks M s) i \<longleftrightarrow> i \<in> M"
  using assms by (simp add: marked_def nxt_with_marks or_31 low_bits no_marks_def)

lemma with_marks_insert: "finite M \<Longrightarrow> i \<notin> M \<Longrightarrow>
    set_next i (nxt (with_marks M s) i OR 2147483648) ((with_marks M s)\<lparr>mdd_used := mdd_used (with_marks M s) + 1\<rparr>)
      = with_marks (insert i M) s"
  by (simp add: set_next_def with_marks_def fun_eq_iff)

lemma with_marks_empty: "with_marks {} s = s\<lparr>mdd_used := 0\<rparr>"
  by (simp add: with_marks_def)

section \<open>The mark phase\<close>

definition marks_from :: "ldd \<Rightarrow> nat set \<Rightarrow> nat set \<Rightarrow> nat set \<Rightarrow> bool" where
  "marks_from s R M M' \<longleftrightarrow> M \<subseteq> M' \<and> M' \<subseteq> M \<union> reach s R \<and> R \<inter> {1<..} \<subseteq> M' \<and>
     (\<forall>j \<in> M' - M. (1 < down s j \<longrightarrow> down s j \<in> M') \<and> (1 < right s j \<longrightarrow> right s j \<in> M'))"

lemma marks_fromD:
  assumes "marks_from s R M M'"
  shows "M \<subseteq> M'" and "M' \<subseteq> M \<union> reach s R" and "R \<inter> {1<..} \<subseteq> M'"
    and "j \<in> M' \<Longrightarrow> j \<notin> M \<Longrightarrow> 1 < down s j \<Longrightarrow> down s j \<in> M'" and "j \<in> M' \<Longrightarrow> j \<notin> M \<Longrightarrow> 1 < right s j \<Longrightarrow> right s j \<in> M'"
  using assms by (simp_all add: marks_from_def)

lemma marks_from_trans:
  assumes "marks_from s R M M1" and "marks_from s R' M1 M2"
  shows "marks_from s (R \<union> R') M M2"
proof -
  have "reach s R \<subseteq> reach s (R \<union> R')" "reach s R' \<subseteq> reach s (R \<union> R')" by (auto intro: reach_mono)
  then have "M \<subseteq> M2" "M2 \<subseteq> M \<union> reach s (R \<union> R')" "(R \<union> R') \<inter> {1<..} \<subseteq> M2"
    using marks_fromD(1-3)[OF assms(1)] marks_fromD(1-3)[OF assms(2)] by blast+
  moreover have "(1 < down s j \<longrightarrow> down s j \<in> M2) \<and> (1 < right s j \<longrightarrow> right s j \<in> M2)" if "j \<in> M2 - M" for j
    using assms that unfolding marks_from_def by (cases "j \<in> M1") auto
  ultimately show ?thesis by (simp add: marks_from_def)
qed

lemma mdd_mark_run:
  assumes ok: "nodes_ok s" and low: "no_marks s" and sub: "used s \<subseteq> {2..<mdd_nodes s}"
  shows "repr s i t \<Longrightarrow> vld s i \<Longrightarrow> M \<subseteq> used s \<Longrightarrow>
     \<exists>M'. mdd_mark i (with_marks M s) = ret (with_marks M' s) \<and> marks_from s {i} M M' \<and> M' \<subseteq> used s"
proof (induction t arbitrary: i M)
  case Zero
  then show ?case by (intro exI[of _ M]) (simp add: mdd_mark.simps marks_from_def)
next
  case One
  then show ?case by (intro exI[of _ M]) (simp add: mdd_mark.simps marks_from_def)
next
  case (Node v d r)
  then have i: "1 < i" "i \<in> used s" by (auto simp: vld_def)
  have m: "marked (with_marks M s) i \<longleftrightarrow> i \<in> M" using marked_with_marks[OF low] i sub by auto
  show ?case
  proof (cases "i \<in> M")
    case True
    then show ?thesis using i m Node.prems
      by (intro exI[of _ M]) (simp add: mdd_mark.simps marks_from_def)
  next
    case False
    have fin: "finite M" using Node.prems(3) sub by (meson finite_atLeastLessThan finite_subset)
    have v: "vld s (down s i)" "vld s (right s i)" using ok i by (auto simp: nodes_ok_def)
    from Node.IH(1)[of "down s i" "insert i M"] Node.prems i v obtain M1 where
      M1: "mdd_mark (down s i) (with_marks (insert i M) s) = ret (with_marks M1 s)" "marks_from s {down s i} (insert i M) M1" "M1 \<subseteq> used s"
      by auto
    from Node.IH(2)[of "right s i" M1] Node.prems M1 v obtain M2 where
      M2: "mdd_mark (right s i) (with_marks M1 s) = ret (with_marks M2 s)" "marks_from s {right s i} M1 M2" "M2 \<subseteq> used s"
      by auto
    have "mdd_mark i (with_marks M s) = ret (with_marks M2 s)"
      using i m False M1(1) M2(1) by (subst mdd_mark.simps) (simp add: with_marks_insert[OF fin False, simplified])
    moreover have "marks_from s {i} M M2"
    proof -
      have ri: "i \<in> reach s {i}" using i by (simp add: reach_root)
      then have r: "reach s {down s i} \<subseteq> reach s {i}" "reach s {right s i} \<subseteq> reach s {i}" "i \<in> reach s {i}"
        using i reach_down[OF ri] reach_right[OF ri] by (auto intro: reach.intros elim!: reach_closed)
      have c: "(1 < down s j \<longrightarrow> down s j \<in> M2) \<and> (1 < right s j \<longrightarrow> right s j \<in> M2)" if "j \<in> M2 - M" for j
        using M1(2) M2(2) that unfolding marks_from_def by (cases "j = i"; cases "j \<in> M1") auto
      have m: "insert i M \<subseteq> M1" "M1 \<subseteq> insert i M \<union> reach s {i}" "M1 \<subseteq> M2" "M2 \<subseteq> M1 \<union> reach s {i}"
        using marks_fromD(1,2)[OF M1(2)] marks_fromD(1,2)[OF M2(2)] r(1,2) by (auto simp only: subset_iff Un_iff)
      have "M \<subseteq> M2" "{i} \<inter> {1<..} \<subseteq> M2" using m(1,3) by auto
      moreover have "M2 \<subseteq> M \<union> reach s {i}" using m(2,4) ri by auto
      ultimately show ?thesis using c by (simp add: marks_from_def)
    qed
    ultimately show ?thesis using M2(3) by blast
  qed
qed

lemma mark_all_run:
  assumes "nodes_ok s" and "no_marks s" and "used s \<subseteq> {2..<mdd_nodes s}" and "\<forall>i \<in> set is. vld s i" and "M \<subseteq> used s"
  shows "\<exists>M'. mark_all is (with_marks M s) = ret (with_marks M' s) \<and> marks_from s (set is) M M' \<and> M' \<subseteq> used s"
  using assms(4,5)
proof (induction "is" arbitrary: M)
  case Nil
  then show ?case by (intro exI[of _ M]) (simp add: marks_from_def)
next
  case (Cons i "is")
  from Cons.prems vld_repr[OF assms(1), of i] obtain t where "repr s i t" by auto
  from mdd_mark_run[OF assms(1-3) this _ Cons.prems(2)] Cons.prems(1) obtain M1 where
    M1: "mdd_mark i (with_marks M s) = ret (with_marks M1 s)" "marks_from s {i} M M1" "M1 \<subseteq> used s" by auto
  from Cons.IH[OF _ M1(3)] Cons.prems obtain M2 where
    M2: "mark_all is (with_marks M1 s) = ret (with_marks M2 s)" "marks_from s (set is) M1 M2" "M2 \<subseteq> used s" by auto
  with M1 marks_from_trans[OF M1(2) M2(2)] show ?case by auto
qed

lemma mark_all_reach:
  assumes "nodes_ok s" and "no_marks s" and "used s \<subseteq> {2..<mdd_nodes s}" and "\<forall>i \<in> set is. vld s i"
  shows "mark_all is (s\<lparr>mdd_used := 0\<rparr>) = ret (with_marks (reach s (set is)) s)"
proof -
  from mark_all_run[OF assms, of "{}"] obtain M where
    M: "mark_all is (s\<lparr>mdd_used := 0\<rparr>) = ret (with_marks M s)" "marks_from s (set is) {} M"
    by (auto simp: with_marks_empty)
  have "reach s (set is) \<subseteq> M"
    using M(2) by (auto simp: marks_from_def elim!: reach_closed)
  with M(2) have "M = reach s (set is)" by (auto simp: marks_from_def)
  with M(1) show ?thesis by simp
qed

section \<open>The cache\<close>

text \<open>An entry that stays is unchanged, and its nodes are marked.\<close>

definition entry_kept :: "ldd \<Rightarrow> op_rec \<Rightarrow> op_rec \<Rightarrow> bool" where
  "entry_kept s e e' \<longleftrightarrow> e' = e\<lparr>op_op := 0\<rparr>
     \<or> e' = e \<and> (set_op (op_op e) \<longrightarrow> marked s (op_arg1 e) \<and> marked s (op_arg2 e) \<and> marked s (op_res e))
     \<and> (rel_op (op_op e) \<longrightarrow> (\<forall>i \<in> entry_nodes e. marked s i))"

lemma gc_entry_run:
  assumes "op_op e AND 255 \<le> 14"
  shows "\<exists>e'. gc_entry s e = Inr e' \<and> entry_kept s e e'"
proof -
  define o' where "o' = op_op e AND 255"
  have "set_op (op_op e) \<Longrightarrow> o' = op_op e" unfolding o'_def set_op_def by (elim disjE) simp_all
  moreover have "o' = 0 \<or> o' = 1 \<or> o' = 2 \<or> o' = 3 \<or> o' = 4 \<or> o' = 5 \<or> o' = 6 \<or> o' = 7 \<or> o' = 8 \<or> o' = 9
      \<or> o' = 10 \<or> o' = 11 \<or> o' = 12 \<or> o' = 13 \<or> o' = 14"
    using assms unfolding o'_def by arith
  ultimately show ?thesis
    unfolding gc_entry_def entry_kept_def set_op_def rel_op_def entry_nodes_def o'_def[symmetric] Let_def
    by (elim disjE) auto
qed

text \<open>The pass over the cache; \<open>oc\<close> is the old cache and \<open>nc\<close> the new one.\<close>

lemma gc_cache_run:
  assumes "\<forall>k < n. op_op (oc k) AND 255 \<le> 14"
  shows "\<exists>oc' nc'. fold_result (gc_cache_step s rz m) [0..<n] (oc, nc) = Inr (oc', nc')
     \<and> (\<forall>k < n. entry_kept s (oc k) (oc' k)) \<and> (\<forall>k \<ge> n. oc' k = oc k)
     \<and> (\<forall>k. nc' k = nc k \<or> (\<exists>j < n. nc' k = oc' j))"
  using assms
proof (induction n)
  case 0
  then show ?case by simp
next
  case (Suc n)
  then obtain oc' nc' where IH: "fold_result (gc_cache_step s rz m) [0..<n] (oc, nc) = Inr (oc', nc')"
    "\<forall>k < n. entry_kept s (oc k) (oc' k)" "\<forall>k \<ge> n. oc' k = oc k" "\<forall>k. nc' k = nc k \<or> (\<exists>j < n. nc' k = oc' j)"
    by auto
  have app: "fold_result f (xs @ [x]) c = result_bind (fold_result f xs c) (f x)" for f :: "nat \<Rightarrow> _" and xs x c
    by (induction xs arbitrary: c) (auto simp: result_bind_def split: sum.splits)
  from gc_entry_run[of "oc n" s] Suc.prems obtain e where e: "gc_entry s (oc n) = Inr e" "entry_kept s (oc n) e" by auto
  define c where "c = (oc'(n := e), if (op_op e AND 255) = OP_UNUSED \<or> \<not> rz then nc'
      else nc'(hash (op_op e AND 255) (op_arg1 e) (cache_key2 e) mod m := e))"
  have step: "gc_cache_step s rz m n (oc', nc') = Inr c"
    using e IH(3) by (simp add: gc_cache_step_def Let_def c_def)
  have n: "snd c k = nc k \<or> (\<exists>j < Suc n. snd c k = fst c j)" for k
  proof -
    have "snd c k = nc' k \<or> snd c k = fst c n" by (simp add: c_def)
    moreover have "nc' k = nc k \<or> (\<exists>j < n. nc' k = fst c j)" using IH(4) by (auto simp: c_def)
    ultimately show ?thesis by (metis less_Suc_eq)
  qed
  show ?case
    by (rule exI[of _ "fst c"], rule exI[of _ "snd c"])
      (use IH n e step in \<open>auto simp: app less_Suc_eq c_def\<close>)
qed

end
