(* ===== verification/Ldd_Sweep.thy ===== *)
theory Ldd_Sweep
  imports Ldd_Mark
begin

text \<open>
  The second half of the collector: without a resize the buckets are swept, with one all tables are
  built anew. In both cases exactly the marked nodes stay, with their fields, and the others are on the free list.
\<close>

section \<open>Sweeping\<close>

definition link :: "ldd \<Rightarrow> nat \<Rightarrow> nat" where
  "link s i = nxt s i AND 2147483647"

definition same_nodes :: "ldd \<Rightarrow> ldd \<Rightarrow> bool" where
  "same_nodes s s' \<longleftrightarrow> (\<forall>i. val s' i = val s i \<and> down s' i = down s i \<and> right s' i = right s i)"

definition table_change :: "ldd \<Rightarrow> ldd \<Rightarrow> bool" where
  "table_change s s' \<longleftrightarrow> same_nodes s s' \<and>
     s' = s\<lparr>node_table := node_table s', free_node := free_node s', unique_table := unique_table s'\<rparr>"

lemma table_change_refl [simp]: "table_change s s"
  by (simp add: table_change_def same_nodes_def)

lemma table_change_trans: "table_change s t \<Longrightarrow> table_change t u \<Longrightarrow> table_change s u"
  by (cases s; cases t; cases u) (auto simp: table_change_def same_nodes_def)

lemma table_change_set_next: "table_change s (set_next i v s)"
  by (simp add: table_change_def same_nodes_def set_next_def)

lemma table_change_free: "table_change s (s\<lparr>free_node := v\<rparr>)"
  by (simp add: table_change_def same_nodes_def)

lemma table_change_unique: "table_change s (s\<lparr>unique_table := v\<rparr>)"
  by (simp add: table_change_def same_nodes_def)

lemmas table_changes = table_change_set_next table_change_free table_change_unique

lemma nxt_set_next: "nxt (set_next i v s) = (nxt s)(i := v)"
  by (auto simp: set_next_def)

lemma nxt_set_next_at [simp]: "nxt (set_next i v s) j = (if j = i then v else nxt s j)"
  by (simp add: set_next_def)

lemma chain_upd_at [simp]: "j \<notin> set xs \<Longrightarrow> chain (\<lambda>i. if i = j then v else nx i) k xs = chain nx k xs"
  by (rule chain_cong) auto

lemma set_next_simps [simp]:
  "free_node (set_next i v s) = free_node s" "unique_table (set_next i v s) = unique_table s"
  "uniq_size (set_next i v s) = uniq_size s" "mdd_nodes (set_next i v s) = mdd_nodes s"
  "val (set_next i v s) j = val s j" "down (set_next i v s) j = down s j" "right (set_next i v s) j = right s j"
  "j \<noteq> i \<Longrightarrow> node_table (set_next i v s) j = node_table s j"
  by (simp_all add: set_next_def)

lemma unmarked_link: "nxt s i < 4294967296 \<Longrightarrow> \<not> marked s i \<Longrightarrow> nxt s i = link s i"
proof -
  assume a: "nxt s i < 4294967296" "\<not> marked s i"
  have "nxt s i = take_bit 32 (nxt s i)" using a(1) by (simp add: take_bit_eq_mod)
  also have "\<dots> = take_bit 31 (nxt s i)"
    using a(2) by (intro bit_eqI) (auto simp: bit_take_bit_iff marked_def less_Suc_eq_le le_less numeral_eq_Suc less_Suc_eq)
  finally show ?thesis by (simp add: link_def and_low)
qed

lemma sweep_bucket_run:
  assumes "chain (link s) h xs" and "\<forall>i \<in> set xs. 1 < i \<and> nxt s i < 4294967296"
    and "chain (nxt s) (free_node s) F" and "set xs \<inter> set F = {}"
  shows "\<exists>h' s'. mdd_sweep_bucket h s = ret (h', s') \<and> table_change s s' \<and> unique_table s' = unique_table s
     \<and> chain (nxt s') h' (filter (marked s) xs) \<and> chain (nxt s') (free_node s') (rev (filter (\<lambda>i. \<not> marked s i) xs) @ F)
     \<and> (\<forall>i. i \<notin> set xs \<longrightarrow> node_table s' i = node_table s i)"
  using assms
proof (induction xs arbitrary: h s F)
  case Nil
  then show ?case by (simp add: mdd_sweep_bucket.simps)
next
  case (Cons x xs)
  have h: "h = x" "1 < x" "chain (link s) (link s x) xs" using Cons.prems by auto
  have x: "x \<notin> set xs" "x \<notin> set F" using chain_distinct[OF Cons.prems(1)] Cons.prems(4) by auto
  have same: "filter (marked s1) xs = filter (marked s) xs" "filter (\<lambda>i. \<not> marked s1 i) xs = filter (\<lambda>i. \<not> marked s i) xs"
    "chain (link s1) j xs = chain (link s) j xs" "\<forall>i \<in> set xs. 1 < i \<and> nxt s1 i < 4294967296"
    if "\<And>i. i \<noteq> x \<Longrightarrow> node_table s1 i = node_table s i" for s1 j
  proof -
    have "\<And>i. i \<in> set xs \<Longrightarrow> node_table s1 i = node_table s i" using that x(1) by metis
    then show "filter (marked s1) xs = filter (marked s) xs" "filter (\<lambda>i. \<not> marked s1 i) xs = filter (\<lambda>i. \<not> marked s i) xs"
      "chain (link s1) j xs = chain (link s) j xs" "\<forall>i \<in> set xs. 1 < i \<and> nxt s1 i < 4294967296"
      using Cons.prems(2) by (auto simp: marked_def link_def intro!: filter_cong chain_cong)
  qed
  show ?case
  proof (cases "marked s x")
    case True
    define s1 where "s1 = set_next x (link s x) s"
    have s1: "node_table s1 i = node_table s i" if "i \<noteq> x" for i using that by (simp add: s1_def)
    have "chain (nxt s1) (free_node s1) F" using Cons.prems(3) x by (simp add: s1_def nxt_set_next)
    then obtain h' s2 where IH: "mdd_sweep_bucket (link s x) s1 = ret (h', s2)" "table_change s1 s2" "unique_table s2 = unique_table s1"
      "chain (nxt s2) h' (filter (marked s) xs)" "chain (nxt s2) (free_node s2) (rev (filter (\<lambda>i. \<not> marked s i) xs) @ F)"
      "\<forall>i. i \<notin> set xs \<longrightarrow> node_table s2 i = node_table s1 i"
      using Cons.IH[of s1 "link s x" F] h(3) Cons.prems(4) same[OF s1] by auto
    have "nxt s1 x = link s x" by (simp add: s1_def nxt_set_next)
    then have "mdd_sweep_bucket h s = ret (x, set_next x h' s2)"
      using h True IH(1) by (subst mdd_sweep_bucket.simps) (simp add: s1_def link_def Let_def)
    moreover have "table_change s (set_next x h' s2)"
      using table_change_trans[OF table_change_trans[OF table_change_set_next IH(2)[unfolded s1_def]] table_change_set_next] .
    ultimately show ?thesis using IH x h True s1
      by (intro exI[of _ x] exI[of _ "set_next x h' s2"]) (simp add: nxt_set_next s1_def)
  next
    case False
    define s1 where "s1 = (set_next x (free_node s) s)\<lparr>free_node := x\<rparr>"
    have s1: "node_table s1 i = node_table s i" if "i \<noteq> x" for i using that by (simp add: s1_def)
    have "chain (nxt s1) (free_node s1) (x # F)" using Cons.prems(3) x h by (simp add: s1_def nxt_set_next)
    then obtain h' s2 where IH: "mdd_sweep_bucket (link s x) s1 = ret (h', s2)" "table_change s1 s2" "unique_table s2 = unique_table s1"
      "chain (nxt s2) h' (filter (marked s) xs)" "chain (nxt s2) (free_node s2) (rev (filter (\<lambda>i. \<not> marked s i) xs) @ x # F)"
      "\<forall>i. i \<notin> set xs \<longrightarrow> node_table s2 i = node_table s1 i"
      using Cons.IH[of s1 "link s x" "x # F"] h(3) Cons.prems(4) x same[OF s1] by auto
    have "nxt s x = link s x" using unmarked_link False Cons.prems(2) by simp
    then have "mdd_sweep_bucket h s = ret (h', s2)"
      using h False IH(1) by (subst mdd_sweep_bucket.simps) (simp add: s1_def Let_def)
    moreover have "table_change s s2"
      using table_change_trans[OF table_change_trans[OF table_change_set_next table_change_free] IH(2)[unfolded s1_def]] .
    ultimately show ?thesis using IH x h False s1
      by (intro exI[of _ h'] exI[of _ s2]) (simp add: s1_def)
  qed
qed

lemma sweep_all_run:
  assumes "distinct ks" and "\<forall>k \<in> set ks. chain (link s) (unique_table s k) (B k) \<and> set (B k) \<inter> set F = {}"
    and "\<forall>k \<in> set ks. \<forall>i \<in> set (B k). 1 < i \<and> nxt s i < 4294967296"
    and "\<forall>k \<in> set ks. \<forall>l \<in> set ks. k \<noteq> l \<longrightarrow> set (B k) \<inter> set (B l) = {}" and "chain (nxt s) (free_node s) F"
  shows "\<exists>s' F'. sweep_all ks s = ret s' \<and> table_change s s'
     \<and> (\<forall>k. k \<notin> set ks \<longrightarrow> unique_table s' k = unique_table s k)
     \<and> (\<forall>k \<in> set ks. chain (nxt s') (unique_table s' k) (filter (marked s) (B k))) \<and> chain (nxt s') (free_node s') F'
     \<and> set F' = set F \<union> (\<Union>k \<in> set ks. {i \<in> set (B k). \<not> marked s i})
     \<and> (\<forall>i. (\<forall>k \<in> set ks. i \<notin> set (B k)) \<longrightarrow> node_table s' i = node_table s i)"
  using assms
proof (induction ks arbitrary: s F)
  case Nil
  then show ?case by (intro exI[of _ s] exI[of _ F]) simp
next
  case (Cons k ks)
  obtain h s1 where s1: "mdd_sweep_bucket (unique_table s k) s = ret (h, s1)" "table_change s s1" "unique_table s1 = unique_table s"
    "chain (nxt s1) h (filter (marked s) (B k))" "chain (nxt s1) (free_node s1) (rev (filter (\<lambda>i. \<not> marked s i) (B k)) @ F)"
    "\<forall>i. i \<notin> set (B k) \<longrightarrow> node_table s1 i = node_table s i"
    using sweep_bucket_run[of s "unique_table s k" "B k" F] Cons.prems by auto
  define s2 where "s2 = s1\<lparr>unique_table := (unique_table s1)(k := h)\<rparr>"
  define F2 where "F2 = rev (filter (\<lambda>i. \<not> marked s i) (B k)) @ F"
  have dis: "set (B k) \<inter> set (B l) = {}" "k \<noteq> l" if "l \<in> set ks" for l using Cons.prems(1,4) that by auto
  have nt: "node_table s2 i = node_table s i" if "l \<in> set ks" "i \<in> set (B l)" for l i
    using s1(6) dis(1)[OF that(1)] that(2) by (auto simp: s2_def)
  have c: "chain (link s2) (unique_table s2 l) (B l)" if "l \<in> set ks" for l
  proof -
    have "chain (link s2) (unique_table s l) (B l) = chain (link s) (unique_table s l) (B l)"
      using nt[OF that] by (intro chain_cong) (auto simp: link_def)
    moreover have "unique_table s2 l = unique_table s l" using dis(2)[OF that] s1(3) by (simp add: s2_def)
    ultimately show ?thesis using Cons.prems(2) that by simp
  qed
  have "\<forall>l \<in> set ks. chain (link s2) (unique_table s2 l) (B l) \<and> set (B l) \<inter> set F2 = {}"
    using c dis(1) Cons.prems(2) by (auto simp: F2_def)
  moreover have "\<forall>l \<in> set ks. \<forall>i \<in> set (B l). 1 < i \<and> nxt s2 i < 4294967296"
    using nt Cons.prems(3) by auto
  moreover have "chain (nxt s2) (free_node s2) F2" using s1(5) by (simp add: s2_def F2_def)
  ultimately obtain s' F' where IH: "sweep_all ks s2 = ret s'" "table_change s2 s'"
    "\<forall>k. k \<notin> set ks \<longrightarrow> unique_table s' k = unique_table s2 k"
    "\<forall>k \<in> set ks. chain (nxt s') (unique_table s' k) (filter (marked s2) (B k))" "chain (nxt s') (free_node s') F'"
    "set F' = set F2 \<union> (\<Union>k \<in> set ks. {i \<in> set (B k). \<not> marked s2 i})"
    "\<forall>i. (\<forall>k \<in> set ks. i \<notin> set (B k)) \<longrightarrow> node_table s' i = node_table s2 i"
    using Cons.IH[of s2 F2] Cons.prems(1,4) by auto
  have mk: "marked s2 i = marked s i" if "l \<in> set ks" "i \<in> set (B l)" for l i using nt[OF that] by (simp add: marked_def)
  have "chain (nxt s') (unique_table s' k) (filter (marked s) (B k))"
  proof -
    have "chain (nxt s') h (filter (marked s) (B k)) = chain (nxt s1) h (filter (marked s) (B k))"
      using IH(7) dis(1) by (intro chain_cong) (auto simp: s2_def disjoint_iff)
    moreover have "unique_table s' k = h" using IH(3) Cons.prems(1) by (simp add: s2_def)
    ultimately show ?thesis using s1(4) by simp
  qed
  moreover have "chain (nxt s') (unique_table s' l) (filter (marked s) (B l))" if "l \<in> set ks" for l
  proof -
    have "filter (marked s2) (B l) = filter (marked s) (B l)" using mk[OF that] by (rule filter_cong[OF refl])
    with IH(4) that show ?thesis by metis
  qed
  moreover have "set F' = set F \<union> (\<Union>k \<in> set (k # ks). {i \<in> set (B k). \<not> marked s i})"
    using IH(6) mk by (auto simp: F2_def)
  moreover have "table_change s s'"
    using table_change_trans[OF table_change_trans[OF s1(2) table_change_unique] IH(2)[unfolded s2_def]] .
  moreover have "node_table s' i = node_table s i" if "\<forall>k \<in> set (k # ks). i \<notin> set (B k)" for i
    using IH(7) s1(6) that by (simp add: s2_def)
  moreover have "unique_table s' j = unique_table s j" if "j \<notin> set (k # ks)" for j
    using IH(3) s1(3) that by (simp add: s2_def)
  ultimately show ?case using s1(1) IH(1,5) by (intro exI[of _ s'] exI[of _ F']) (simp add: s2_def)
qed

section \<open>Rebuilding the tables\<close>

lemma fresh_nodes_run:
  "fold fresh_node [a..<b] s = s\<lparr>node_table := (\<lambda>i. if a \<le> i \<and> i < b
     then (node_table s i)\<lparr>nd_val := 0, nd_next := i + 1\<rparr> else node_table s i)\<rparr>"
proof (induction b)
  case (Suc b)
  show ?case
  proof (cases "a \<le> b")
    case True
    with Suc show ?thesis by (auto simp: fresh_node_def fun_eq_iff less_Suc_eq)
  next
    case False
    then have "(\<lambda>i. if a \<le> i \<and> i < Suc b then (node_table s i)\<lparr>nd_val := 0, nd_next := i + 1\<rparr> else node_table s i) = node_table s"
      by (auto simp: fun_eq_iff)
    with False show ?thesis by simp
  qed
qed (simp add: fun_eq_iff)

lemma chain_upt: "a < b \<Longrightarrow> 0 < a \<Longrightarrow> (\<And>i. a \<le> i \<Longrightarrow> i < b \<Longrightarrow> nx i = (if i = b - 1 then 0 else i + 1)) \<Longrightarrow> chain nx a [a..<b]"
proof (induction "b - a" arbitrary: a)
  case (Suc n)
  show ?case
  proof (cases "Suc a = b")
    case True
    with Suc show ?thesis by (simp add: upt_conv_Cons)
  next
    case False
    then have "chain nx (Suc a) [Suc a..<b]" using Suc by simp
    with Suc.prems False show ?thesis by (simp add: upt_conv_Cons)
  qed
qed simp

lemma table_change_rehash: "table_change s (rehash_node i s)"
  by (simp add: table_change_def same_nodes_def rehash_node_def set_next_def Let_def)

text \<open>The loop that puts every marked node into its bucket and every other one on the free list.\<close>

lemma rehash_run:
  assumes "\<forall>k < uniq_size s. unique_table s k = 0" and "0 < uniq_size s" and "chain (nxt s) (free_node s) F"
    and "\<forall>j \<in> set F. n \<le> j" and "2 \<le> n"
  shows "\<exists>B F'. table_change s (fold rehash_node [2..<n] s)
     \<and> (\<forall>k < uniq_size s. chain (nxt (fold rehash_node [2..<n] s)) (unique_table (fold rehash_node [2..<n] s) k) (B k)
          \<and> set (B k) = {j. 2 \<le> j \<and> j < n \<and> marked s j \<and> slot_of_node s j = k})
     \<and> chain (nxt (fold rehash_node [2..<n] s)) (free_node (fold rehash_node [2..<n] s)) F'
     \<and> set F' = set F \<union> {j. 2 \<le> j \<and> j < n \<and> \<not> marked s j}
     \<and> (\<forall>j \<ge> n. node_table (fold rehash_node [2..<n] s) j = node_table s j)"
  using assms(5,4)
proof (induction n rule: dec_induct)
  case base
  then show ?case using assms by (intro exI[of _ "\<lambda>k. []"] exI[of _ F]) auto
next
  case (step n)
  define t where "t = fold rehash_node [2..<n] s"
  have "\<forall>j \<in> set F. n \<le> j" using step.prems by auto
  from step.IH[OF this] obtain B F' where IH: "table_change s t"
    "\<forall>k < uniq_size s. chain (nxt t) (unique_table t k) (B k) \<and> set (B k) = {j. 2 \<le> j \<and> j < n \<and> marked s j \<and> slot_of_node s j = k}"
    "chain (nxt t) (free_node t) F'" "set F' = set F \<union> {j. 2 \<le> j \<and> j < n \<and> \<not> marked s j}"
    "\<forall>j \<ge> n. node_table t j = node_table s j" unfolding t_def by blast
  have f: "fold rehash_node [2..<Suc n] s = rehash_node n t" using step.hyps by (simp add: t_def)
  have u: "uniq_size t = uniq_size s" using IH(1) unfolding table_change_def by (cases s; cases t) auto
  have sl: "slot_of_node t n = slot_of_node s n" using IH(1) u by (simp add: table_change_def same_nodes_def slot_of_node_def)
  have m: "marked t n = marked s n" using IH(5) by (simp add: marked_def)
  have n: "n \<notin> set F'" "\<And>k. k < uniq_size s \<Longrightarrow> n \<notin> set (B k)" using IH(2,4) step.prems by auto
  show ?case
  proof (cases "marked s n")
    case True
    define slot where "slot = slot_of_node s n"
    have slot: "slot < uniq_size s" using assms(2) by (simp add: slot_def slot_of_node_def)
    define t' where "t' = rehash_node n t"
    have t'_nxt: "nxt t' = (nxt t)(n := unique_table t slot)"
      using True m sl by (simp add: t'_def rehash_node_def Let_def slot_def slot_of_node_def nxt_set_next fun_eq_iff)
    have t'_u: "unique_table t' = (unique_table t)(slot := n)" and t'_f: "free_node t' = free_node t"
      and t'_n: "\<And>j. j \<noteq> n \<Longrightarrow> node_table t' j = node_table t j"
      using True m sl by (simp_all add: t'_def rehash_node_def Let_def slot_def slot_of_node_def)
    have "table_change t t'" unfolding t'_def by (rule table_change_rehash)
    then have "table_change s t'" using IH(1) by (rule table_change_trans[rotated])
    moreover have "chain (nxt t') (unique_table t' k) ((B(slot := n # B slot)) k)
        \<and> set ((B(slot := n # B slot)) k) = {j. 2 \<le> j \<and> j < Suc n \<and> marked s j \<and> slot_of_node s j = k}" if "k < uniq_size s" for k
      using IH(2) that n(2)[OF that] step.hyps True slot
      by (auto simp: t'_nxt t'_u less_Suc_eq slot_def)
    moreover have "chain (nxt t') (free_node t') F'" using IH(3) n(1) by (simp add: t'_nxt t'_f)
    moreover have "set F' = set F \<union> {j. 2 \<le> j \<and> j < Suc n \<and> \<not> marked s j}" using IH(4) True by (auto simp: less_Suc_eq)
    moreover have "\<forall>j \<ge> Suc n. node_table t' j = node_table s j" using IH(5) t'_n by auto
    ultimately show ?thesis unfolding f t'_def[symmetric]
      by (intro exI[of _ "B(slot := n # B slot)"] exI[of _ F']) blast
  next
    case False
    define t' where "t' = rehash_node n t"
    have t'_eq: "t' = (set_next n (free_node t) t)\<lparr>free_node := n\<rparr>" using False m by (simp add: t'_def rehash_node_def)
    have "table_change t t'" unfolding t'_def by (rule table_change_rehash)
    then have "table_change s t'" using IH(1) by (rule table_change_trans[rotated])
    moreover have nx: "nxt t' = (nxt t)(n := free_node t)" by (simp add: t'_eq nxt_set_next fun_eq_iff)
    have "chain (nxt t') (unique_table t' k) (B k)
        \<and> set (B k) = {j. 2 \<le> j \<and> j < Suc n \<and> marked s j \<and> slot_of_node s j = k}" if "k < uniq_size s" for k
      using IH(2) that n(2)[OF that] False by (auto simp: nx less_Suc_eq) (simp_all add: t'_eq)
    moreover have "chain (nxt t') (free_node t') (n # F')" using IH(3) n(1) step.hyps unfolding nx by (simp add: t'_eq)
    moreover have "set (n # F') = set F \<union> {j. 2 \<le> j \<and> j < Suc n \<and> \<not> marked s j}"
      using IH(4) False step.hyps by (auto simp: less_Suc_eq)
    moreover have "\<forall>j \<ge> Suc n. node_table t' j = node_table s j" using IH(5) by (simp add: t'_eq)
    ultimately show ?thesis unfolding f t'_def[symmetric]
      by (intro exI[of _ B] exI[of _ "n # F'"]) blast
  qed
qed

end
