(* ===== verification/Ldd_Create.thy ===== *)
theory Ldd_Create
  imports Ldd_Sweep
begin

text \<open>
  The collector as a whole keeps the invariant and exactly the nodes that can be reached from its roots, and
  a node is created without losing anything that is protected.
\<close>

section \<open>The collector\<close>

definition same_roots :: "ldd \<Rightarrow> ldd \<Rightarrow> bool" where
  "same_roots s s' \<longleftrightarrow> mdd_stack s' = mdd_stack s \<and> protected_sets s' = protected_sets s
     \<and> protected_rels s' = protected_rels s \<and> mdd_load_node_ids s' = mdd_load_node_ids s"

lemma same_roots_gc_roots: "same_roots s s' \<Longrightarrow> gc_roots s' = gc_roots s"
  by (simp add: same_roots_def gc_roots_def)

lemma chain_next: "chain nx i xs \<Longrightarrow> x \<in> set xs \<Longrightarrow> nx x = 0 \<or> nx x \<in> set xs"
proof (induction xs arbitrary: i)
  case (Cons y ys)
  then show ?case by (cases ys) auto
qed simp

lemma tables_nodes:
  assumes "tables s B F"
  shows "used s \<subseteq> {2..<mdd_nodes s}" and "used s \<union> set F = {2..<mdd_nodes s}" and "used s \<inter> set F = {}"
    and "\<And>i. 2 \<le> i \<Longrightarrow> i < mdd_nodes s \<Longrightarrow> nxt s i < mdd_nodes s"
proof -
  show u: "used s \<union> set F = {2..<mdd_nodes s}" using assms by (simp add: used_tables[OF assms] tables_def)
  then show "used s \<subseteq> {2..<mdd_nodes s}" by auto
  show "used s \<inter> set F = {}" using assms by (auto simp: used_tables[OF assms] tables_def)
  fix i assume i: "2 \<le> i" "i < mdd_nodes s"
  then have "i \<in> used s \<union> set F" unfolding u by simp
  then consider k where "k < uniq_size s" "i \<in> set (B k)" | "i \<in> set F"
    unfolding used_tables[OF assms] by blast
  then have "nxt s i = 0 \<or> nxt s i \<in> used s \<union> set F"
  proof cases
    case 1
    then show ?thesis using chain_next[of "nxt s" "unique_table s k" "B k" i] assms
      by (auto simp: used_tables[OF assms] tables_def)
  next
    case 2
    then show ?thesis using chain_next[of "nxt s" "free_node s" F i] assms by (auto simp: tables_def)
  qed
  then show "nxt s i < mdd_nodes s" using u i by auto
qed

lemma tables_no_marks: "tables s B F \<Longrightarrow> sizes_ok s \<Longrightarrow> no_marks s"
  unfolding no_marks_def using tables_nodes(4) sizes_bounds(3) by fastforce

text \<open>What the collector leaves behind, for the set of nodes \<open>M\<close> it has marked.\<close>

definition collected :: "ldd \<Rightarrow> nat set \<Rightarrow> ldd \<Rightarrow> bool" where
  "collected s M s' \<longleftrightarrow> ldd_ok s' \<and> used s' = M \<and> same_fields s s' M \<and> same_roots s s' \<and> entries_from s s' \<and> free_node s' \<noteq> 0"

lemma collectedI:
  assumes ok: "ldd_ok s" and R: "set (gc_roots s) \<subseteq> R" "\<forall>i \<in> R. vld s i" and M: "M = reach s R"
    and t: "tables s' B' F'" "used s' = M" "same_fields s s' M" "same_roots s s'" "sizes_ok s'"
    and c: "\<And>k. k < cache_size s' \<Longrightarrow> op_op (op_cache s' k) = 0
        \<or> (\<exists>j < cache_size s. entry_kept (with_marks M s) (op_cache s j) (op_cache s' k))"
    and room: "card M + 2 < mdd_nodes s'"
  shows "collected s M s'"
proof -
  obtain B F where BF: "tables s B F" using ok by (auto simp: ldd_ok_def)
  have sub: "M \<subseteq> used s" unfolding M using ok R(2) by (intro reach_used) (simp_all add: ldd_ok_def)
  have mk: "marked (with_marks M s) i \<Longrightarrow> vld s i \<Longrightarrow> i \<in> {0, 1} \<union> M" for i
  proof -
    assume a: "marked (with_marks M s) i" "vld s i"
    have "i = 0 \<or> i = 1 \<or> 2 \<le> i \<and> i < mdd_nodes s" using a(2) tables_nodes(1)[OF BF] by (auto simp: vld_def)
    moreover have "no_marks s" using tables_no_marks[OF BF] ok by (simp add: ldd_ok_def)
    ultimately show ?thesis using a(1) marked_with_marks[of s i M] by auto
  qed
  have cl: "closed_nodes s M" unfolding M by (rule closed_reach)
  have "nodes_ok s'" 
  proof (rule nodes_ok_sub)
    show "nodes_ok s" using ok by (simp add: ldd_ok_def)
  qed (use sub t(2,3) cl in simp_all)
  moreover have "entry_ok s' (op_cache s' k)" if "k < cache_size s'" for k
  proof -
    have z: "entry_ok s' e" if "op_op e = 0" for e using that by (simp add: entry_ok_def set_op_def)
    from c[OF that] show ?thesis
    proof
      assume "\<exists>j < cache_size s. entry_kept (with_marks M s) (op_cache s j) (op_cache s' k)"
      then obtain e where e: "entry_ok s e" "entry_kept (with_marks M s) e (op_cache s' k)" using ok by (auto simp: ldd_ok_def)
      show ?thesis
      proof (cases "op_op (op_cache s' k) = 0")
        case True
        then show ?thesis by (rule z)
      next
        case False
        with e(2) have same: "op_cache s' k = e"
          and m: "set_op (op_op e) \<Longrightarrow> marked (with_marks M s) (op_arg1 e) \<and> marked (with_marks M s) (op_arg2 e) \<and> marked (with_marks M s) (op_res e)"
          by (auto simp: entry_kept_def)
        show ?thesis unfolding same
        proof (rule entry_ok_sub[OF e(1) _ _ t(3) cl])
          assume "set_op (op_op e)"
          with m e(1) show "{op_arg1 e, op_arg2 e, op_res e} \<subseteq> {0, 1} \<union> M"
            unfolding entry_ok_def using mk by auto
        qed (simp add: t(2))
      qed
    qed (rule z)
  qed
  moreover have "entries_from s s'"
    unfolding entries_from_def
  proof (intro allI impI)
    fix k assume k: "k < cache_size s'" "rel_op (op_op (op_cache s' k))"
    then have "op_op (op_cache s' k) \<noteq> 0" by (metis rel_op_0)
    with c[OF k(1)] obtain j where j: "j < cache_size s" "op_cache s j = op_cache s' k"
      "\<forall>i \<in> entry_nodes (op_cache s' k). marked (with_marks M s) i" using k(2) by (auto simp: entry_kept_def)
    have "vld s' i \<and> (\<forall>n A. den s' n i A = den s n i A)" if "marked (with_marks M s) i" "vld s i" for i
      using mk[OF that] same_fields_den[OF t(3) cl, of i] t(2) by (auto simp: vld_def)
    with j show "(\<exists>j < cache_size s. op_cache s j = op_cache s' k)
      \<and> (\<forall>i \<in> entry_nodes (op_cache s' k). vld s i \<longrightarrow> vld s' i \<and> (\<forall>n A. den s' n i A = den s n i A))" by blast
  qed
  moreover have "vld s' i" if "i \<in> set (gc_roots s')" for i
  proof -
    have "i \<in> R" using that R(1) same_roots_gc_roots[OF t(4)] by auto
    then have "i \<le> 1 \<or> i \<in> reach s R" using reach_root[of i R s] by linarith
    then show ?thesis unfolding vld_def t(2) M .
  qed
  moreover have "free_node s' \<noteq> 0"
  proof
    assume "free_node s' = 0"
    with t(1) have "F' = []" by (cases F') (auto simp: tables_def)
    then have "M = {2..<mdd_nodes s'}" using tables_nodes(2)[OF t(1)] t(2) by simp
    with room show False by simp
  qed
  ultimately show ?thesis using t by (auto simp: collected_def ldd_ok_def)
qed

lemma or_bound: "(n::nat) < 2147483648 \<Longrightarrow> n OR 2147483648 < 4294967296"
proof -
  assume "n < 2147483648"
  then have "take_bit 32 (n OR 2147483648) = n OR 2147483648" unfolding take_bit_or by (simp add: take_bit_eq_mod)
  moreover have "take_bit 32 (n OR 2147483648) < 2 ^ 32" by (rule take_bit_nat_less_exp)
  ultimately show ?thesis by simp
qed

lemma collect_sweep_run:
  assumes ok: "ldd_ok s" and R: "set (gc_roots s) \<subseteq> R" "\<forall>i \<in> R. vld s i"
    and M: "M = reach s R" and few: "card M \<le> fib (nodes_fib s - 1)"
  shows "\<exists>s'. collect_sweep (with_marks M s) = ret s' \<and> collected s M s'"
proof -
  obtain B F where BF: "tables s B F" using ok by (auto simp: ldd_ok_def)
  have sz: "sizes_ok s" using ok by (simp add: ldd_ok_def)
  note low = tables_no_marks[OF BF sz]
  have sub: "M \<subseteq> used s" unfolding M using ok R(2) by (intro reach_used) (simp_all add: ldd_ok_def)
  define w where "w = with_marks M s"
  have "\<forall>k < cache_size s. op_op (op_cache s k) AND 255 \<le> 14" using ok by (simp add: ldd_ok_def entry_ok_def)
  from gc_cache_run[OF this, of w False "cache_size s" "op_cache s"] obtain oc nc where
    oc: "fold_result (gc_cache_step w False (cache_size s)) [0..<cache_size s] (op_cache s, op_cache s) = Inr (oc, nc)"
    "\<forall>k < cache_size s. entry_kept w (op_cache s k) (oc k)" by blast
  define w1 where "w1 = w\<lparr>op_cache := oc\<rparr>"
  have mk: "marked w1 i \<longleftrightarrow> i \<in> M" and ln: "link w1 i = nxt s i" and nb: "nxt w1 i < 4294967296" and gt: "1 < i"
    if "i \<in> used s \<union> set F" for i
  proof -
    have i: "2 \<le> i" "i < mdd_nodes s" using that tables_nodes(2)[OF BF] by auto
    then have n: "nxt s i < 2147483648" using low by (simp add: no_marks_def)
    show "marked w1 i \<longleftrightarrow> i \<in> M" using marked_with_marks[OF low i, of M] by (simp add: w1_def w_def marked_def)
    show "link w1 i = nxt s i" using n or_and_low[OF n] and_low[of "nxt s i"]
      by (simp add: w1_def w_def link_def nxt_with_marks take_bit_nat_eq_self)
    show "nxt w1 i < 4294967296" using n or_bound[OF n] by (simp add: w1_def w_def nxt_with_marks)
    show "1 < i" using i by simp
  qed
  have inu: "i \<in> used s" if "k < uniq_size s" "i \<in> set (B k)" for k i using that by (auto simp: used_tables[OF BF])
  have slot: "slot_of_node s i = k" if "k < uniq_size s" "i \<in> set (B k)" for k i using BF that by (auto simp: tables_def)
  have c1: "chain (link w1) (unique_table w1 k) (B k)" if "k < uniq_size s" for k
  proof -
    have "chain (link w1) (unique_table s k) (B k) = chain (nxt s) (unique_table s k) (B k)"
      using ln inu[OF that] by (intro chain_cong) auto
    then show ?thesis using BF that by (simp add: tables_def w1_def w_def)
  qed
  have c2: "chain (nxt w1) (free_node w1) F"
  proof -
    have "chain (nxt w1) (free_node s) F = chain (nxt s) (free_node s) F"
      using sub tables_nodes(3)[OF BF] by (intro chain_cong) (auto simp: w1_def w_def nxt_with_marks)
    then show ?thesis using BF by (simp add: tables_def w1_def w_def)
  qed
  have "\<exists>s' F'. sweep_all [0..<uniq_size s] w1 = ret s' \<and> table_change w1 s'
     \<and> (\<forall>k. k \<notin> set [0..<uniq_size s] \<longrightarrow> unique_table s' k = unique_table w1 k)
     \<and> (\<forall>k \<in> set [0..<uniq_size s]. chain (nxt s') (unique_table s' k) (filter (marked w1) (B k))) \<and> chain (nxt s') (free_node s') F'
     \<and> set F' = set F \<union> (\<Union>k \<in> set [0..<uniq_size s]. {i \<in> set (B k). \<not> marked w1 i})
     \<and> (\<forall>i. (\<forall>k \<in> set [0..<uniq_size s]. i \<notin> set (B k)) \<longrightarrow> node_table s' i = node_table w1 i)"
  proof (rule sweep_all_run)
    show "\<forall>k \<in> set [0..<uniq_size s]. chain (link w1) (unique_table w1 k) (B k) \<and> set (B k) \<inter> set F = {}"
      using c1 BF by (auto simp: tables_def)
    show "\<forall>k \<in> set [0..<uniq_size s]. \<forall>i \<in> set (B k). 1 < i \<and> nxt w1 i < 4294967296" using nb gt inu by auto
    show "\<forall>k \<in> set [0..<uniq_size s]. \<forall>l \<in> set [0..<uniq_size s]. k \<noteq> l \<longrightarrow> set (B k) \<inter> set (B l) = {}"
    proof (intro ballI impI)
      fix k l assume "k \<in> set [0..<uniq_size s]" "l \<in> set [0..<uniq_size s]" "k \<noteq> l"
      then show "set (B k) \<inter> set (B l) = {}" using slot[of k] slot[of l] by fastforce
    qed
  qed (use c2 in simp_all)
  then obtain s' F' where s': "sweep_all [0..<uniq_size s] w1 = ret s'" "table_change w1 s'"
    "\<forall>k < uniq_size s. chain (nxt s') (unique_table s' k) (filter (marked w1) (B k))" "chain (nxt s') (free_node s') F'"
    "set F' = set F \<union> (\<Union>k < uniq_size s. {i \<in> set (B k). \<not> marked w1 i})"
    by (auto simp: lessThan_atLeast0)
  have nodes: "val s' i = val s i" "down s' i = down s i" "right s' i = right s i" for i
    using s'(2) by (auto simp: table_change_def same_nodes_def w1_def w_def)
  have eq: "s' = w1\<lparr>node_table := node_table s', free_node := free_node s', unique_table := unique_table s'\<rparr>"
    using s'(2) by (simp add: table_change_def)
  have fr: "uniq_size s' = uniq_size s" "mdd_nodes s' = mdd_nodes s" "cache_size s' = cache_size s" "op_cache s' = oc"
    "same_roots s s'" "nodes_fib s' = nodes_fib s" "cache_fib s' = cache_fib s" "stack_size s' = stack_size s" "stack_fib s' = stack_fib s" "mdd_stack s' = mdd_stack s"
    by (subst eq; simp add: w1_def w_def same_roots_def)+
  have fm: "set (filter (marked w1) (B k)) = set (B k) \<inter> M" if "k < uniq_size s" for k using mk inu[OF that] by auto
  have F': "set F' = set F \<union> (used s - M)"
    using s'(5) mk inu by (auto simp: used_tables[OF BF])
  have tb: "tables s' (\<lambda>k. filter (marked w1) (B k)) F'"
    unfolding tables_def
  proof (intro conjI allI impI ballI)
    fix k assume k: "k < uniq_size s'"
    then have k': "k < uniq_size s" using fr by simp
    show "chain (nxt s') (unique_table s' k) (filter (marked w1) (B k))" using s'(3) k' by simp
    show "set (filter (marked w1) (B k)) \<inter> set F' = {}"
      unfolding fm[OF k'] F' using tables_nodes(3)[OF BF] inu[OF k'] by auto
    fix i assume "i \<in> set (filter (marked w1) (B k))"
    then show "slot_of_node s' i = k" using slot[OF k', of i] fr by (simp add: slot_of_node_def nodes)
  next
    show "(\<Union>k<uniq_size s'. set (filter (marked w1) (B k))) \<union> set F' = {2..<mdd_nodes s'}"
      unfolding fr F' tables_nodes(2)[OF BF, symmetric] using fm sub by (auto simp: used_tables[OF BF])
  qed (rule s'(4))
  have um: "used s' = M" unfolding used_tables[OF tb] fr using fm sub by (auto simp: used_tables[OF BF])
  have "sizes_ok s'" using sz fr by (simp add: sizes_ok_def)
  moreover have "\<exists>j < cache_size s. entry_kept (with_marks M s) (op_cache s j) (op_cache s' k)" if "k < cache_size s'" for k
    using that fr oc(2) by (auto simp: w_def)
  moreover have "card M + 2 < mdd_nodes s'"
    using few sz fib_room(1)[of "nodes_fib s"] by (simp add: fr sizes_ok_def)
  ultimately have "collected s M s'"
    using tb um fr nodes by (intro collectedI[OF ok R M]) (simp_all add: same_fields_def)
  moreover have "collect_sweep w = ret s'"
    using oc(1) s'(1) by (simp add: collect_sweep_def w1_def w_def)
  ultimately show ?thesis by (auto simp: w_def)
qed

text \<open>The same for the collector that resizes; \<open>resized\<close> is the state before the nodes are put into the new tables.\<close>

definition resized :: "nat set \<Rightarrow> (nat \<Rightarrow> op_rec) \<Rightarrow> nat \<Rightarrow> ldd \<Rightarrow> ldd" where
  "resized M nc uniq s = set_next (fib (nodes_fib s + 1) - 1) 0 (fold fresh_node [mdd_nodes s..<fib (nodes_fib s + 1)]
     ((with_marks M s)\<lparr>nodes_fib := nodes_fib s + 1, op_cache := nc, cache_size := fib (nat (int (nodes_fib s) + 1 + cache_fib s)),
        mdd_nodes := fib (nodes_fib s + 1), uniq_size := uniq, unique_table := (\<lambda>i. 0), free_node := mdd_nodes s\<rparr>))"

lemma resized_fields [simp]:
  "uniq_size (resized M nc uniq s) = uniq" "unique_table (resized M nc uniq s) = (\<lambda>i. 0)"
  "free_node (resized M nc uniq s) = mdd_nodes s" "mdd_nodes (resized M nc uniq s) = fib (nodes_fib s + 1)"
  "op_cache (resized M nc uniq s) = nc" "cache_size (resized M nc uniq s) = fib (nat (int (nodes_fib s) + 1 + cache_fib s))"
  "nodes_fib (resized M nc uniq s) = nodes_fib s + 1" "cache_fib (resized M nc uniq s) = cache_fib s"
  "mdd_stack (resized M nc uniq s) = mdd_stack s" "stack_size (resized M nc uniq s) = stack_size s" "stack_fib (resized M nc uniq s) = stack_fib s"
  "protected_sets (resized M nc uniq s) = protected_sets s" "protected_rels (resized M nc uniq s) = protected_rels s"
  "mdd_load_node_ids (resized M nc uniq s) = mdd_load_node_ids s"
  by (simp_all add: resized_def fresh_nodes_run set_next_def)

lemma resized_nodes:
  assumes "mdd_nodes s < fib (nodes_fib s + 1)"
  shows "i < mdd_nodes s \<Longrightarrow> node_table (resized M nc uniq s) i = node_table (with_marks M s) i"
    and "\<lbrakk>mdd_nodes s \<le> i; i < fib (nodes_fib s + 1)\<rbrakk> \<Longrightarrow>
      nxt (resized M nc uniq s) i = (if i = fib (nodes_fib s + 1) - 1 then 0 else i + 1)"
  using assms by (auto simp: resized_def fresh_nodes_run set_next_def)

lemma collect_resize_cases:
  assumes sz: "sizes_ok s" and mem: "\<not> alloc (16 * fib 47)" and ops: "\<forall>k < cache_size s. op_op (op_cache s k) AND 255 \<le> 14"
  shows "collect_resize alloc (with_marks M s) = abort ''out of memory'' \<or>
     (\<exists>oc nc uniq. nodes_fib s + 1 \<le> 46 \<and> int (nodes_fib s) + 1 + cache_fib s \<le> 46
       \<and> (uniq = fib (nodes_fib s + 2) \<or> uniq = UINT32_MAX)
       \<and> (\<forall>k < cache_size s. entry_kept (with_marks M s) (op_cache s k) (oc k))
       \<and> (\<forall>k. op_op (nc k) = 0 \<or> (\<exists>j < cache_size s. nc k = oc j))
       \<and> collect_resize alloc (with_marks M s) = ret (fold rehash_node [2..<mdd_nodes s] (resized M nc uniq s)))"
proof -
  define w where "w = with_marks M s"
  define nf where "nf = nodes_fib s + 1"
  define ix where "ix = nat (int nf + cache_fib s)"
  define uniq where "uniq = (if uniq_size s \<noteq> UINT32_MAX then if fib (nf + 1) < fib nf then UINT32_MAX else fib (nf + 1) else uniq_size s)"
  have nf: "nf \<le> 47" "6 \<le> nf" using sz by (simp_all add: sizes_ok_def nf_def)
  have ix: "nat ((int nf + cache_fib s) mod 4294967296) = ix" "ix \<le> 47"
    using sz by (auto simp: ix_def nf_def sizes_ok_def)
  have old: "mdd_nodes s \<le> fib nf" using sz nf fib_le[of "nodes_fib s" nf] by (simp add: sizes_ok_def nf_def)
  have cs: "cache_size s \<le> fib ix"
  proof -
    have "nat (int (nodes_fib s) + cache_fib s) \<le> ix" by (simp add: ix_def nf_def)
    then show ?thesis using sz fib_le[OF _ ix(2)] by (simp add: sizes_ok_def)
  qed
  from gc_cache_run[OF ops, of w True "fib ix" "\<lambda>i. (op_cache s i)\<lparr>op_op := 0\<rparr>"] obtain oc nc where
    oc: "fold_result (gc_cache_step w True (fib ix)) [0..<cache_size s] (op_cache s, \<lambda>i. (op_cache s i)\<lparr>op_op := 0\<rparr>) = Inr (oc, nc)"
    "\<forall>k < cache_size s. entry_kept w (op_cache s k) (oc k)"
    "\<forall>k. nc k = (op_cache s k)\<lparr>op_op := 0\<rparr> \<or> (\<exists>j < cache_size s. nc k = oc j)" by blast
  have run: "collect_resize alloc w =
     (if \<not> alloc (16 * fib ix) \<or> uniq_size s \<noteq> UINT32_MAX \<and> \<not> alloc (4 * uniq) \<or> \<not> alloc (16 * fib nf) then abort ''out of memory''
      else ret (fold rehash_node [2..<mdd_nodes s] (resized M nc uniq s)))"
  proof -
    have "nat (int (nodes_fib s) + 1 + cache_fib s) = ix" by (simp add: ix_def nf_def)
    then show ?thesis
      using ix cs old oc(1)
      by (simp add: collect_resize_def Let_def w_def uniq_def resized_def nf_def not_less)
  qed
  show ?thesis
  proof (cases "collect_resize alloc w = abort ''out of memory''")
    case False
    with run have a: "alloc (16 * fib ix)" "alloc (16 * fib nf)" by (auto split: if_splits)
    with mem have n47: "nf \<noteq> 47" "ix \<noteq> 47" by auto
    have "nf \<le> 46" "ix \<le> 46" using nf ix n47 by auto
    then have "int (nodes_fib s) + 1 + cache_fib s \<le> 46" by (simp add: ix_def nf_def)
    moreover have "uniq = fib (nodes_fib s + 2) \<or> uniq = UINT32_MAX" by (auto simp: uniq_def nf_def)
    moreover have "\<forall>k. op_op (nc k) = 0 \<or> (\<exists>j < cache_size s. nc k = oc j)" using oc(3) by (metis op_rec.select_convs(1) op_rec.surjective op_rec.update_convs(1))
    moreover have "collect_resize alloc w = ret (fold rehash_node [2..<mdd_nodes s] (resized M nc uniq s))"
      using False run by (auto split: if_splits)
    ultimately show ?thesis using oc(2) \<open>nf \<le> 46\<close> unfolding w_def nf_def by blast
  qed (simp add: w_def)
qed

lemma collect_resize_run:
  assumes ok: "ldd_ok s" and R: "set (gc_roots s) \<subseteq> R" "\<forall>i \<in> R. vld s i"
    and M: "M = reach s R" and mem: "\<not> alloc (16 * fib 47)"
  shows "collect_resize alloc (with_marks M s) = abort ''out of memory''
    \<or> (\<exists>s'. collect_resize alloc (with_marks M s) = ret s' \<and> collected s M s')"
proof (cases "collect_resize alloc (with_marks M s) = abort ''out of memory''")
  case False
  obtain B F where BF: "tables s B F" using ok by (auto simp: ldd_ok_def)
  have sz: "sizes_ok s" using ok by (simp add: ldd_ok_def)
  note low = tables_no_marks[OF BF sz]
  have sub: "M \<subseteq> used s" unfolding M using ok R(2) by (intro reach_used) (simp_all add: ldd_ok_def)
  have old: "M \<subseteq> {2..<mdd_nodes s}" using sub tables_nodes(1)[OF BF] by auto
  have "\<forall>k < cache_size s. op_op (op_cache s k) AND 255 \<le> 14" using ok by (simp add: ldd_ok_def entry_ok_def)
  from collect_resize_cases[where alloc = alloc and M = M, OF sz mem this] False obtain oc nc uniq where
    c: "nodes_fib s + 1 \<le> 46" "int (nodes_fib s) + 1 + cache_fib s \<le> 46" "uniq = fib (nodes_fib s + 2) \<or> uniq = UINT32_MAX"
      "\<forall>k < cache_size s. entry_kept (with_marks M s) (op_cache s k) (oc k)" "\<forall>k. op_op (nc k) = 0 \<or> (\<exists>j < cache_size s. nc k = oc j)"
      "collect_resize alloc (with_marks M s) = ret (fold rehash_node [2..<mdd_nodes s] (resized M nc uniq s))" by blast
  define w where "w = resized M nc uniq s"
  define s' where "s' = fold rehash_node [2..<mdd_nodes s] w"
  have up: "0 < uniq" using c(1,3) fib_pos[of "nodes_fib s + 2"] by auto
  have gr: "mdd_nodes s < fib (nodes_fib s + 1)" using sz fib_room(2)[of "nodes_fib s"] by (simp add: sizes_ok_def)
  have mk: "marked w j \<longleftrightarrow> j \<in> M" if "2 \<le> j" "j < mdd_nodes s" for j
    using marked_with_marks[OF low that, of M] resized_nodes(1)[OF gr that(2)] by (simp add: w_def marked_def)
  have fl: "val w j = val s j" "down w j = down s j" "right w j = right s j" if "j < mdd_nodes s" for j
    using resized_nodes(1)[OF gr that] by (simp_all add: w_def)
  have cf: "chain (nxt w) (free_node w) [mdd_nodes s..<fib (nodes_fib s + 1)]"
    using gr sizes_bounds(4)[OF sz] resized_nodes(2)[OF gr] by (auto simp: w_def intro!: chain_upt)
  have "\<exists>B F'. table_change w s'
     \<and> (\<forall>k < uniq_size w. chain (nxt s') (unique_table s' k) (B k)
          \<and> set (B k) = {j. 2 \<le> j \<and> j < mdd_nodes s \<and> marked w j \<and> slot_of_node w j = k})
     \<and> chain (nxt s') (free_node s') F' \<and> set F' = set [mdd_nodes s..<fib (nodes_fib s + 1)] \<union> {j. 2 \<le> j \<and> j < mdd_nodes s \<and> \<not> marked w j}
     \<and> (\<forall>j \<ge> mdd_nodes s. node_table s' j = node_table w j)"
    unfolding s'_def by (rule rehash_run[OF _ _ cf]) (use up sizes_bounds(4)[OF sz] in \<open>auto simp: w_def\<close>)
  then obtain B' F' where s': "table_change w s'" "\<forall>k < uniq. chain (nxt s') (unique_table s' k) (B' k)"
      "\<forall>k < uniq. set (B' k) = {j. 2 \<le> j \<and> j < mdd_nodes s \<and> marked w j \<and> slot_of_node w j = k}"
      "chain (nxt s') (free_node s') F'" "set F' = {mdd_nodes s..<fib (nodes_fib s + 1)} \<union> {j. 2 \<le> j \<and> j < mdd_nodes s \<and> \<not> marked w j}"
    by (auto simp: w_def)
  have Bk: "set (B' k) = {j \<in> M. slot_of_node w j = k}" if "k < uniq" for k using s'(3) that mk old by auto
  have F': "set F' = {2..<fib (nodes_fib s + 1)} - M"
    using s'(5) mk old gr sizes_bounds(4)[OF sz] by (auto simp: subset_iff)
  have eq: "s' = w\<lparr>node_table := node_table s', free_node := free_node s', unique_table := unique_table s'\<rparr>"
    using s'(1) by (simp add: table_change_def)
  have fr: "uniq_size s' = uniq" "mdd_nodes s' = fib (nodes_fib s + 1)" "cache_size s' = fib (nat (int (nodes_fib s) + 1 + cache_fib s))"
    "op_cache s' = nc" "same_roots s s'" "nodes_fib s' = nodes_fib s + 1" "cache_fib s' = cache_fib s" "stack_size s' = stack_size s" "stack_fib s' = stack_fib s" "mdd_stack s' = mdd_stack s"
    by (subst eq; simp add: w_def same_roots_def)+
  have nodes: "val s' i = val w i" "down s' i = down w i" "right s' i = right w i" for i
    using s'(1) by (auto simp: table_change_def same_nodes_def)
  have sl: "slot_of_node s' j = slot_of_node w j" for j by (simp add: slot_of_node_def nodes fr) (simp add: w_def)
  have ul: "(\<Union>k < uniq. set (B' k)) = M"
  proof -
    have "slot_of_node w j < uniq" for j using up by (simp add: slot_of_node_def w_def)
    then show ?thesis using Bk by auto
  qed
  have tb: "tables s' B' F'"
    unfolding tables_def fr ul using s'(2,4) Bk F' sl old gr by auto
  have "sizes_ok s'" using sz c(1-3) by (simp add: sizes_ok_def fr algebra_simps)
  moreover have "same_fields s s' M" using fl old by (auto simp: same_fields_def nodes)
  moreover have "card M + 2 < mdd_nodes s'"
  proof -
    have "card M \<le> card {2..<mdd_nodes s}" using old by (intro card_mono) auto
    then show ?thesis using gr sizes_bounds(4)[OF sz] by (simp add: fr)
  qed
  moreover have "op_op (op_cache s' k) = 0 \<or> (\<exists>j < cache_size s. entry_kept (with_marks M s) (op_cache s j) (op_cache s' k))" for k
    using c(4,5) unfolding fr by metis
  moreover have "used s' = M" using used_tables[OF tb] ul by (simp add: fr)
  ultimately have "collected s M s'" using tb fr by (intro collectedI[OF ok R M]) simp_all
  then show ?thesis using c(6) by (auto simp: s'_def w_def)
qed simp

text \<open>The collector.\<close>

lemma mdd_collect_run:
  assumes ok: "ldd_ok s" and v: "vld s a" "vld s b" and mem: "\<not> alloc (16 * fib 47)"
  shows "mdd_collect alloc a b s = abort ''out of memory''
    \<or> (\<exists>s'. mdd_collect alloc a b s = ret s' \<and> collected s (reach s ({a, b} \<union> set (gc_roots s))) s')"
proof -
  obtain B F where BF: "tables s B F" using ok by (auto simp: ldd_ok_def)
  have sz: "sizes_ok s" using ok by (simp add: ldd_ok_def)
  define R where "R = {a, b} \<union> set (gc_roots s)"
  define M where "M = reach s R"
  have R: "set (gc_roots s) \<subseteq> R" "\<forall>i \<in> R. vld s i" using ok v by (auto simp: R_def ldd_ok_def)
  have mark: "mark_all (a # b # gc_roots s) (s\<lparr>mdd_used := 0\<rparr>) = ret (with_marks M s)"
    using mark_all_reach[OF _ tables_no_marks[OF BF sz] tables_nodes(1)[OF BF], of "a # b # gc_roots s"] ok R
    by (simp add: ldd_ok_def M_def R_def)
  have "M \<subseteq> {2..<mdd_nodes s}"
    unfolding M_def using ok R(2) reach_used[of s R] tables_nodes(1)[OF BF] by (auto simp: ldd_ok_def)
  then have "card M \<le> card {2..<mdd_nodes s}" by (intro card_mono) auto
  then have cm: "card M \<noteq> UINT32_MAX" "mdd_nodes s \<noteq> UINT32_MAX" using sizes_bounds(3)[OF sz] by auto
  have nf: "(nodes_fib s + UINT32_MAX) mod 4294967296 = nodes_fib s - 1"
    using sz by (auto simp: sizes_ok_def mod_if)
  have run: "mdd_collect alloc a b s = (if card M > fib (nodes_fib s - 1) then collect_resize alloc (with_marks M s) else collect_sweep (with_marks M s))"
    using mark cm nf by (simp add: mdd_collect_def)
  show ?thesis
  proof (cases "card M > fib (nodes_fib s - 1)")
    case True
    with run collect_resize_run[where alloc = alloc, OF ok R M_def mem] show ?thesis by (simp add: M_def R_def)
  next
    case False
    with run collect_sweep_run[OF ok R M_def] show ?thesis by (simp add: M_def R_def)
  qed
qed

end
