(* ===== verification/Ldd_Node.thy ===== *)
theory Ldd_Node
  imports Ldd_Create
begin

text \<open>
  Creating nodes and protecting them. The nodes that matter to a caller are those that can be reached
  from the roots of the collector (\<open>prot\<close>); an operation \<open>keeps\<close> a state when all of them stay valid
  with their fields. An operation may also give up for lack of memory or of stack space (\<open>no_room\<close>).
\<close>

section \<open>Looking a node up and taking a free one\<close>

lemma bucket_find_run:
  assumes "chain (nxt s) h xs"
  shows "bucket_find s v d r h = Some 0 \<and> (\<forall>i \<in> set xs. \<not> (val s i = v \<and> down s i = d \<and> right s i = r))
    \<or> (\<exists>i \<in> set xs. bucket_find s v d r h = Some i \<and> val s i = v \<and> down s i = d \<and> right s i = r)"
  using assms
proof (induction xs arbitrary: h)
  case Nil
  then show ?case by (simp add: bucket_find.simps)
next
  case (Cons x xs)
  then have h: "h = x" "0 < x" by auto
  show ?case
  proof (cases "val s x = v \<and> down s x = d \<and> right s x = r")
    case True
    with h show ?thesis by (simp add: bucket_find.simps)
  next
    case False
    then have "bucket_find s v d r h = bucket_find s v d r (nxt s x)" using h by (subst bucket_find.simps) auto
    with Cons.IH[of "nxt s x"] Cons.prems False show ?thesis by auto
  qed
qed

lemma bucket_find_node:
  assumes "ldd_ok s"
  obtains "bucket_find s v d r (unique_table s (hash v d r mod uniq_size s)) = Some 0"
      "\<forall>i \<in> used s. \<not> (val s i = v \<and> down s i = d \<and> right s i = r)"
    | i where "bucket_find s v d r (unique_table s (hash v d r mod uniq_size s)) = Some i" "i \<in> used s"
      "val s i = v" "down s i = d" "right s i = r" "1 < i"
proof -
  obtain B F where BF: "tables s B F" using assms by (auto simp: ldd_ok_def)
  define k where "k = hash v d r mod uniq_size s"
  have k: "k < uniq_size s" using assms sizes_bounds(1)[of s] by (simp add: k_def ldd_ok_def)
  have c: "chain (nxt s) (unique_table s k) (B k)" using BF k by (simp add: tables_def)
  have u: "set (B k) \<subseteq> used s" using used_tables[OF BF] k by auto
  from bucket_find_run[OF c, of v d r] show thesis
  proof
    assume a: "bucket_find s v d r (unique_table s k) = Some 0 \<and> (\<forall>i \<in> set (B k). \<not> (val s i = v \<and> down s i = d \<and> right s i = r))"
    have "\<not> (val s i = v \<and> down s i = d \<and> right s i = r)" if i: "i \<in> used s" for i
    proof
      assume e: "val s i = v \<and> down s i = d \<and> right s i = r"
      from i obtain l where "l < uniq_size s" "i \<in> set (B l)" by (auto simp: used_tables[OF BF])
      moreover from this have "slot_of_node s i = l" using BF by (auto simp: tables_def)
      ultimately have "i \<in> set (B k)" using e by (simp add: slot_of_node_def k_def)
      with a e show False by blast
    qed
    with a that(1) show thesis by (simp add: k_def)
  next
    assume "\<exists>i \<in> set (B k). bucket_find s v d r (unique_table s k) = Some i \<and> val s i = v \<and> down s i = d \<and> right s i = r"
    then obtain i where i: "i \<in> set (B k)" "bucket_find s v d r (unique_table s k) = Some i" "val s i = v \<and> down s i = d \<and> right s i = r" by blast
    moreover from i(1) u have "i \<in> used s" by auto
    moreover from this have "1 < i" using tables_nodes(1)[OF BF] by auto
    ultimately show thesis using that(2)[of i] by (simp add: k_def)
  qed
qed

text \<open>The new node: everything that was valid stays so, and the invariant holds with one node more.\<close>

lemma take_free_node_run:
  assumes ok: "ldd_ok s" and free: "free_node s \<noteq> 0" and v: "vld s d" "vld s r"
    and new: "\<forall>i \<in> used s. \<not> (val s i = v \<and> down s i = d \<and> right s i = r)"
  obtains i s' where "take_free_node (hash v d r mod uniq_size s) v d r s = (i, s')" and "ldd_ok s'" and "used s' = insert i (used s)"
    and "1 < i" and "val s' i = v" and "down s' i = d" and "right s' i = r" and "same_fields s s' (used s)" and "same_roots s s'"
    and "op_cache s' = op_cache s" and "cache_size s' = cache_size s"
proof -
  obtain B F where BF: "tables s B F" using ok by (auto simp: ldd_ok_def)
  define i where "i = free_node s"
  define k where "k = hash v d r mod uniq_size s"
  define s' where "s' = snd (take_free_node k v d r s)"
  have k: "k < uniq_size s" using ok sizes_bounds(1)[of s] by (simp add: k_def ldd_ok_def)
  from BF free obtain F' where F: "F = i # F'" by (cases F) (auto simp: tables_def i_def)
  have run: "take_free_node k v d r s = (i, s')" by (simp add: s'_def take_free_node_def Let_def i_def)
  have nt: "node_table s' j = (if j = i then \<lparr>nd_next = unique_table s k, nd_val = v, nd_down = d, nd_right = r\<rparr> else node_table s j)" for j
    by (simp add: s'_def take_free_node_def Let_def i_def set_next_def)
  have fs: "free_node s' = nxt s i" "unique_table s' = (unique_table s)(k := i)" "uniq_size s' = uniq_size s" "mdd_nodes s' = mdd_nodes s"
    "cache_size s' = cache_size s" "op_cache s' = op_cache s" "same_roots s s'" "sizes_ok s' = sizes_ok s"
    by (simp_all add: s'_def take_free_node_def Let_def i_def set_next_def same_roots_def sizes_ok_def)
  have iF0: "i \<in> set F" using F by simp
  then have "i \<in> {2..<mdd_nodes s}" unfolding tables_nodes(2)[OF BF, symmetric] by blast
  then have i: "i \<in> set F" "1 < i" "i \<notin> used s" using iF0 tables_nodes(3)[OF BF] by auto
  have nxt: "nxt s' = (nxt s)(i := unique_table s k)" by (auto simp: nt)
  have notB: "i \<notin> set (B l)" if "l < uniq_size s" for l using i(3) that by (auto simp: used_tables[OF BF])
  have iF: "i \<notin> set F'" using BF F chain_distinct[of "nxt s" "free_node s" F] by (simp add: tables_def)
  have slot: "slot_of_node s' j = (if j = i then k else slot_of_node s j)" for j
    by (simp add: slot_of_node_def nt fs k_def)
  have tb: "tables s' (B(k := i # B k)) F'"
    unfolding tables_def fs
  proof (intro conjI allI impI ballI)
    fix l assume l: "l < uniq_size s"
    show "chain (nxt s') (((unique_table s)(k := i)) l) ((B(k := i # B k)) l)"
      using BF l notB[OF l] i(2) by (auto simp: tables_def nxt)
    show "set ((B(k := i # B k)) l) \<inter> set F' = {}" using BF l iF F by (auto simp: tables_def)
    fix j assume "j \<in> set ((B(k := i # B k)) l)"
    then show "slot_of_node s' j = l" using BF l notB[OF l] by (auto simp: tables_def slot split: if_splits)
  next
    show "chain (nxt s') (nxt s i) F'" using BF F iF by (simp add: tables_def nxt)
    have "(\<Union>l<uniq_size s. set ((B(k := i # B k)) l)) = insert i (used s)"
      using k by (auto simp: used_tables[OF BF] split: if_splits)
    then show "(\<Union>l<uniq_size s. set ((B(k := i # B k)) l)) \<union> set F' = {2..<mdd_nodes s}"
      using tables_nodes(2)[OF BF] F by auto
  qed
  have u: "used s' = insert i (used s)"
    using k by (auto simp: used_tables[OF tb] used_tables[OF BF] fs split: if_splits)
  have sf: "same_fields s s' (used s)" using i(3) by (auto simp: same_fields_def nt)
  have nok: "nodes_ok s" using ok by (simp add: ldd_ok_def)
  note cl = closed_used[OF nok]
  have vl: "vld s' j" if "vld s j" for j using that by (auto simp: vld_def u)
  have rp: "repr s' j t = repr s j t" if "vld s j" for j t using same_fields_repr[OF sf cl] that by (simp add: vld_def)
  have "nodes_ok s'"
    unfolding nodes_ok_def u
  proof (intro conjI ballI impI)
    fix j assume j: "j \<in> insert i (used s)"
    show "vld s' (down s' j)" "vld s' (right s' j)"
      using j v nok by (auto simp: nt nodes_ok_def intro!: vl)
    from vld_repr[OF nok v(1)] vld_repr[OF nok v(2)] obtain td tr where "repr s d td" "repr s r tr" by blast
    then have "repr s' i (Node v td tr)" using i(2) v by (simp add: nt rp)
    moreover have "\<exists>t. repr s' j t" if "j \<in> used s" using that nok rp[of j] by (auto simp: nodes_ok_def vld_def)
    ultimately show "\<exists>t. repr s' j t" using j by (metis insertE)
    fix l assume "l \<in> insert i (used s)" "val s' j = val s' l \<and> down s' j = down s' l \<and> right s' j = right s' l"
    then show "j = l" using j new nok i(3) by (auto simp: nt nodes_ok_def split: if_splits)
  qed
  moreover have "entry_ok s' (op_cache s' l)" if l: "l < cache_size s'" for l
  proof (rule entry_ok_sub[OF _ _ _ sf cl])
    show e: "entry_ok s (op_cache s' l)" using ok l by (simp add: ldd_ok_def fs)
    show "set_op (op_op (op_cache s' l)) \<Longrightarrow> {op_arg1 (op_cache s' l), op_arg2 (op_cache s' l), op_res (op_cache s' l)} \<subseteq> {0, 1} \<union> used s"
      using e by (auto simp: entry_ok_def vld_def le_Suc_eq)
  qed (auto simp: u)
  ultimately have "ldd_ok s'"
    using ok tb fs same_roots_gc_roots[OF fs(7)] by (auto simp: ldd_ok_def intro: vl)
  then show thesis using that[of i s'] run u i(2) sf fs by (simp add: k_def nt)
qed

section \<open>Protected nodes\<close>

definition prot :: "ldd \<Rightarrow> nat \<Rightarrow> bool" where
  "prot s i \<longleftrightarrow> i \<le> 1 \<or> i \<in> reach s (set (gc_roots s))"

definition keeps_nodes :: "ldd \<Rightarrow> ldd \<Rightarrow> bool" where
  "keeps_nodes s s' \<longleftrightarrow> same_roots s s' \<and> reach s (set (gc_roots s)) \<subseteq> used s' \<and> same_fields s s' (reach s (set (gc_roots s)))"

definition keeps :: "ldd \<Rightarrow> ldd \<Rightarrow> bool" where
  "keeps s s' \<longleftrightarrow> keeps_nodes s s' \<and> entries_from s s'"

definition no_room :: "'a result option \<Rightarrow> bool" where
  "no_room m \<longleftrightarrow> m = abort ''out of memory'' \<or> m = abort ''stack overflow''"

lemma no_room_bind [simp]: "no_room m \<Longrightarrow> no_room (rbind m f)"
  by (auto simp: no_room_def)

lemma prot_01 [simp]: "prot s 0" "prot s (Suc 0)"
  by (simp_all add: prot_def)

lemma prot_vld: "ldd_ok s \<Longrightarrow> prot s i \<Longrightarrow> vld s i"
  unfolding ldd_ok_def prot_def vld_def using reach_used[of s "set (gc_roots s)"] by (auto simp: vld_def)

lemma prot_children: "prot s i \<Longrightarrow> 1 < i \<Longrightarrow> prot s (down s i) \<and> prot s (right s i)"
  unfolding prot_def using reach_down[of i s] reach_right[of i s] by (meson not_le)

lemma prot_root: "i \<in> set (gc_roots s) \<Longrightarrow> prot s i"
  unfolding prot_def using reach_root[of i _ s] by (meson not_le)

lemma keeps_keeps_nodes: "keeps s s' \<Longrightarrow> keeps_nodes s s'"
  by (simp add: keeps_def)

lemma keeps_nodes_refl: "ldd_ok s \<Longrightarrow> keeps_nodes s s"
  unfolding keeps_nodes_def using reach_used[of s "set (gc_roots s)"] by (simp add: same_roots_def same_fields_def ldd_ok_def)

lemma keeps_refl: "ldd_ok s \<Longrightarrow> keeps s s"
  by (simp add: keeps_def keeps_nodes_refl entries_from_same)

lemma keeps_nodes_reach: "keeps_nodes s s' \<Longrightarrow> reach s' (set (gc_roots s')) = reach s (set (gc_roots s))"
proof -
  assume k: "keeps_nodes s s'"
  define R where "R = set (gc_roots s)"
  have r: "set (gc_roots s') = R" using k same_roots_gc_roots[of s s'] by (simp add: keeps_nodes_def R_def)
  have f: "down s' i = down s i" "right s' i = right s i" if "i \<in> reach s R" for i
    using k that by (auto simp: keeps_nodes_def same_fields_def R_def)
  have a: "i \<in> reach s R" if "i \<in> reach s' R" for i
    using that by (induction rule: reach.induct) (auto simp: f intro: reach.intros)
  have "i \<in> reach s' R" if "i \<in> reach s R" for i
    using that
  proof (induction rule: reach.induct)
    case (reach_down i)
    then show ?case using reach.reach_down[of i s' R] f(1)[of i] by simp
  next
    case (reach_right i)
    then show ?case using reach.reach_right[of i s' R] f(2)[of i] by simp
  qed (rule reach_root)
  with a show ?thesis unfolding r R_def[symmetric] by blast
qed

lemma keeps_nodes_prot: "keeps_nodes s s' \<Longrightarrow> prot s' i = prot s i"
  by (simp add: prot_def keeps_nodes_reach)

lemma keeps_nodes_trans: "keeps_nodes s t \<Longrightarrow> keeps_nodes t u \<Longrightarrow> keeps_nodes s u"
  using keeps_nodes_reach[of s t] by (simp add: keeps_nodes_def same_roots_def same_fields_def)

lemma keeps_trans: "keeps s t \<Longrightarrow> keeps t u \<Longrightarrow> keeps s u"
  unfolding keeps_def using keeps_nodes_trans entries_from_trans by blast

lemma keeps_nodes_repr: "keeps_nodes s s' \<Longrightarrow> prot s i \<Longrightarrow> repr s' i t = repr s i t"
  unfolding keeps_nodes_def prot_def using same_fields_repr[OF _ closed_reach] by blast

lemma keeps_nodes_den: "keeps_nodes s s' \<Longrightarrow> prot s i \<Longrightarrow> den s' n i A = den s n i A"
  by (simp add: den_def keeps_nodes_repr)

lemma keeps_nodes_fields:
  assumes "keeps_nodes s s'" and "prot s i" and "1 < i"
  shows "val s' i = val s i" and "down s' i = down s i" and "right s' i = right s i"
  using assms by (auto simp: keeps_nodes_def prot_def same_fields_def)

lemmas keeps_prot = keeps_nodes_prot[OF keeps_keeps_nodes]
lemmas keeps_den = keeps_nodes_den[OF keeps_keeps_nodes]
lemmas keeps_fields = keeps_nodes_fields[OF keeps_keeps_nodes]

section \<open>Creating nodes\<close>

lemma mdd_create_node_run:
  assumes ok: "ldd_ok s" and mem: "\<not> alloc (16 * fib 47)" and v: "vld s d" "vld s r" and order: "1 < r \<Longrightarrow> v < val s r"
  shows "no_room (mdd_create_node alloc v d r s) \<or> (\<exists>i s'. mdd_create_node alloc v d r s = ret (i, s') \<and> ldd_ok s' \<and> keeps s s' \<and> vld s' i
     \<and> (\<forall>td tr. repr s d td \<longrightarrow> repr s r tr \<longrightarrow> repr s' i (if d = 0 then tr else Node v td tr)))"
proof (cases "d = 0")
  case True
  then have "mdd_create_node alloc v d r s = ret (r, s)" by (simp add: mdd_create_node_def)
  then show ?thesis using ok v keeps_refl True by auto
next
  case d: False
  have run0: "mdd_create_node alloc v d r s = (case bucket_find s v d r (unique_table s (hash v d r mod uniq_size s)) of
        None \<Rightarrow> None
      | Some res \<Rightarrow> if res \<noteq> 0 then ret (res, s)
          else if free_node s = 0 then rbind (mdd_collect alloc d r s) (\<lambda>t. ret (take_free_node (hash v d r mod uniq_size t) v d r t))
          else ret (take_free_node (hash v d r mod uniq_size s) v d r s))"
    using d order unfolding mdd_create_node_def Let_def by (cases "1 < r") simp_all
  have fin: "\<exists>i s'. m = ret (i, s') \<and> ldd_ok s' \<and> keeps s s' \<and> vld s' i
     \<and> (\<forall>td tr. repr s d td \<longrightarrow> repr s r tr \<longrightarrow> repr s' i (if d = 0 then tr else Node v td tr))"
    if m: "m = ret (take_free_node (hash v d r mod uniq_size t) v d r t)" and t: "ldd_ok t" "free_node t \<noteq> 0" "keeps s t" "vld t d" "vld t r"
      "\<forall>i \<in> used t. \<not> (val t i = v \<and> down t i = d \<and> right t i = r)"
      "\<And>td. repr s d td \<Longrightarrow> repr t d td" "\<And>tr. repr s r tr \<Longrightarrow> repr t r tr" for m t
  proof -
    from take_free_node_run[OF t(1,2,4,5,6)] obtain i s' where
      i: "take_free_node (hash v d r mod uniq_size t) v d r t = (i, s')" "ldd_ok s'" "used s' = insert i (used t)" "1 < i"
        "val s' i = v" "down s' i = d" "right s' i = r" "same_fields t s' (used t)" "same_roots t s'" "op_cache s' = op_cache t" "cache_size s' = cache_size t" .
    have sub: "reach t (set (gc_roots t)) \<subseteq> used t"
      using t(1) by (intro reach_used) (simp_all add: ldd_ok_def)
    then have "keeps_nodes t s'" using i(3,8,9) by (auto simp: keeps_nodes_def same_fields_def)
    moreover have "entries_from t s'"
    proof (rule entries_from_same[OF i(10,11)])
      fix j assume "vld t j"
      then show "vld s' j \<and> (\<forall>n A. den s' n j A = den t n j A)"
        using i(3) same_fields_den[OF i(8) closed_used, of j] t(1) by (auto simp: vld_def ldd_ok_def)
    qed
    ultimately have "keeps t s'" by (simp add: keeps_def)
    then have "keeps s s'" using t(3) keeps_trans by blast
    moreover have "repr s' d td" "repr s' r tr" if "repr s d td" "repr s r tr" for td tr
      using that t(1,4,5,7,8) i(8) same_fields_repr[OF i(8) closed_used] by (auto simp: ldd_ok_def vld_def)
    ultimately show ?thesis using m i d by (intro exI[of _ i] exI[of _ s']) (auto simp: vld_def)
  qed
  show ?thesis
  proof (rule bucket_find_node[OF ok, of v d r])
    fix i assume "bucket_find s v d r (unique_table s (hash v d r mod uniq_size s)) = Some i" "i \<in> used s"
      "val s i = v" "down s i = d" "right s i = r" "1 < i"
    moreover from this have "mdd_create_node alloc v d r s = ret (i, s)" by (simp add: run0)
    ultimately show ?thesis using ok keeps_refl d by (auto simp: vld_def)
  next
    assume b: "bucket_find s v d r (unique_table s (hash v d r mod uniq_size s)) = Some 0"
      "\<forall>i \<in> used s. \<not> (val s i = v \<and> down s i = d \<and> right s i = r)"
    show ?thesis
    proof (cases "free_node s = 0")
      case False
      then have "mdd_create_node alloc v d r s = ret (take_free_node (hash v d r mod uniq_size s) v d r s)" by (simp add: run0 b(1))
      from fin[OF this ok False keeps_refl[OF ok] v b(2)] show ?thesis by blast
    next
      case True
      have run: "mdd_create_node alloc v d r s = rbind (mdd_collect alloc d r s)
          (\<lambda>s. ret (take_free_node (hash v d r mod uniq_size s) v d r s))"
        by (simp add: run0 b(1) True)
      from mdd_collect_run[where alloc = alloc, OF ok v mem] show ?thesis
      proof
        assume "mdd_collect alloc d r s = abort ''out of memory''"
        with run show ?thesis by (simp add: no_room_def)
      next
        define M where "M = reach s ({d, r} \<union> set (gc_roots s))"
        assume "\<exists>t. mdd_collect alloc d r s = ret t \<and> collected s (reach s ({d, r} \<union> set (gc_roots s))) t"
        then obtain t where t: "mdd_collect alloc d r s = ret t" "ldd_ok t" "used t = M" "same_fields s t M" "same_roots s t" "free_node t \<noteq> 0" "entries_from s t"
          by (auto simp: collected_def M_def)
        have rM: "reach s (set (gc_roots s)) \<subseteq> M" unfolding M_def by (auto intro: reach_mono)
        have Mu: "M \<subseteq> used s" unfolding M_def using ok v by (intro reach_used) (auto simp: ldd_ok_def)
        have dr: "i \<le> 1 \<or> i \<in> M" if "i = d \<or> i = r" for i unfolding M_def using that reach_root[of i "{d, r} \<union> set (gc_roots s)" s] by (cases "1 < i") auto
        have kp: "keeps s t" using t rM by (auto simp: keeps_def keeps_nodes_def same_fields_def)
        have rp: "repr t i u = repr s i u" if "i = d \<or> i = r" for i u
          using same_fields_repr[OF t(4), of i u] closed_reach dr[OF that] by (simp add: M_def)
        have "\<forall>i \<in> used t. \<not> (val t i = v \<and> down t i = d \<and> right t i = r)"
          using b(2) t(3,4) Mu by (auto simp: same_fields_def)
        from fin[OF _ t(2,6) kp _ _ this, of "mdd_create_node alloc v d r s"] dr rp t(1,3) run show ?thesis
          by (simp add: vld_def)
      qed
    qed
  qed
qed

text \<open>The law on sets of vectors, which the operations use.\<close>

lemma mdd_create_node_den:
  assumes ok: "ldd_ok s" and mem: "\<not> alloc (16 * fib 47)" and v: "vld s d" "vld s r"
    and D: "den s n d D" and R: "den s (Suc n) r R" "\<forall>x \<in> R. v < hd x"
  shows "no_room (mdd_create_node alloc v d r s) \<or> (\<exists>i s'. mdd_create_node alloc v d r s = ret (i, s') \<and> ldd_ok s' \<and> keeps s s' \<and> vld s' i
     \<and> den s' (Suc n) i ((#) v ` D \<union> R))"
proof -
  have od: "v < val s r" if "1 < r"
    using den_node[OF R(1) that] R(2) by (metis (no_types, lifting) UnI1 all_not_in_conv imageI list.sel(1))
  from D R obtain td tr where t: "repr s d td" "wf_dd n td" "vecs td = D" "repr s r tr" "wf_dd (Suc n) tr" "vecs tr = R"
    by (auto simp: den_def)
  have w: "wf_dd (Suc n) (if d = 0 then tr else Node v td tr) \<and> vecs (if d = 0 then tr else Node v td tr) = (#) v ` D \<union> R"
    using t R(2) vecs_empty[OF t(2)] aboveI[OF t(5), of v] by (cases td) auto
  from mdd_create_node_run[where alloc = alloc, OF ok mem v od] show ?thesis
    using t(1,4) w unfolding den_def by blast
qed

section \<open>The stack\<close>

lemma mdd_push_nodes:
  assumes ok: "ldd_ok s" and x: "vld s x"
  obtains "no_room (mdd_push alloc x s)"
    | s1 where "mdd_push alloc x s = ret s1" and "ldd_ok s1" and "prot s1 x" and "\<And>i. prot s i \<Longrightarrow> prot s1 i"
      and "\<And>n i A. den s1 n i A = den s n i A" and "\<And>i. vld s1 i = vld s i" and "node_table s1 = node_table s" and "entries_from s s1"
      and "\<And>s2. ldd_ok s2 \<Longrightarrow> keeps_nodes s1 s2 \<Longrightarrow> mdd_pop s2 = ret (x, s2\<lparr>mdd_stack := mdd_stack s\<rparr>)
        \<and> ldd_ok (s2\<lparr>mdd_stack := mdd_stack s\<rparr>) \<and> keeps_nodes s (s2\<lparr>mdd_stack := mdd_stack s\<rparr>)
        \<and> entries_from s2 (s2\<lparr>mdd_stack := mdd_stack s\<rparr>) \<and> (\<forall>n i A. den (s2\<lparr>mdd_stack := mdd_stack s\<rparr>) n i A = den s2 n i A) \<and> (\<forall>i. vld (s2\<lparr>mdd_stack := mdd_stack s\<rparr>) i = vld s2 i)"
proof (cases "no_room (mdd_push alloc x s)")
  case False
  obtain s1 where s1: "mdd_push alloc x s = ret s1" "\<exists>f z. s1 = s\<lparr>stack_fib := f, stack_size := z, mdd_stack := x # mdd_stack s\<rparr>
      \<and> 22 \<le> f \<and> f \<le> 47 \<and> z = fib f \<and> length (mdd_stack s) < z"
  proof (cases "length (mdd_stack s) = stack_size s")
    case True
    define f where "f = stack_fib s + 1"
    have f: "22 \<le> f" "f \<le> 48" using ok by (simp_all add: f_def ldd_ok_def sizes_ok_def)
    have sz: "stack_size s = fib (stack_fib s)" using ok by (simp add: ldd_ok_def sizes_ok_def)
    have "stack_size s \<le> fib f"
    proof (rule ccontr)
      assume "\<not> stack_size s \<le> fib f"
      then have "mdd_push alloc x s = abort ''stack overflow''" using True by (simp add: mdd_push_def f_def)
      with False show False by (simp add: no_room_def)
    qed
    moreover have "alloc (4 * fib f)"
    proof (rule ccontr)
      assume "\<not> alloc (4 * fib f)"
      then have "mdd_push alloc x s = abort ''out of memory''" using True calculation by (simp add: mdd_push_def f_def)
      with False show False by (simp add: no_room_def)
    qed
    ultimately have run: "mdd_push alloc x s = ret (s\<lparr>stack_fib := f, stack_size := fib f, mdd_stack := x # mdd_stack s\<rparr>)"
      and le: "stack_size s \<le> fib f" using True by (simp_all add: mdd_push_def f_def)
    have "f \<noteq> 48"
    proof
      assume "f = 48"
      then have "stack_fib s = 47" by (simp add: f_def)
      with le sz \<open>f = 48\<close> fib_47 fib_48 show False by simp
    qed
    then have f47: "f \<le> 47" using f by simp
    have "stack_size s < fib f" using sz fib_room(2)[of "stack_fib s"] f f47 by (simp add: f_def)
    then show ?thesis using that[OF run] True f(1) f47 by auto
  next
    case neq: False
    have sz: "22 \<le> stack_fib s" "stack_fib s \<le> 47" "stack_size s = fib (stack_fib s)" "length (mdd_stack s) < stack_size s"
      using ok neq by (auto simp: ldd_ok_def sizes_ok_def)
    have "mdd_push alloc x s = ret (s\<lparr>stack_fib := stack_fib s, stack_size := stack_size s, mdd_stack := x # mdd_stack s\<rparr>)"
      using neq by (simp add: mdd_push_def)
    with sz show ?thesis using that by blast
  qed
  then obtain f z where f: "s1 = s\<lparr>stack_fib := f, stack_size := z, mdd_stack := x # mdd_stack s\<rparr>" "22 \<le> f" "f \<le> 47" "z = fib f" "length (mdd_stack s) < z"
    by blast
  have roots: "set (gc_roots s1) = insert x (set (gc_roots s))" by (auto simp: f(1) gc_roots_def)
  have nt: "node_table s1 = node_table s" by (simp add: f(1))
  have rep: "repr s1 i t = repr s i t" for i t by (induction t arbitrary: i) (simp_all add: nt)
  then have dn: "den s1 n i A = den s n i A" for n i A by (simp add: den_def)
  have us: "used s1 = used s" by (simp add: used_def f(1))
  then have vl: "vld s1 i = vld s i" for i by (simp add: vld_def)
  have rc: "i \<in> reach s1 (insert x R)" if "i \<in> reach s R" for i R
    using that
  proof (induction rule: reach.induct)
    case (reach_down i)
    then show ?case using reach.reach_down[of i s1 "insert x R"] by (simp add: nt)
  next
    case (reach_right i)
    then show ?case using reach.reach_right[of i s1 "insert x R"] by (simp add: nt)
  qed (simp add: reach_root)
  have pr: "prot s1 i" if "prot s i" for i using that rc by (auto simp: prot_def roots)
  have "ldd_ok s1"
  proof -
    have "tables s1 B F = tables s B F" for B F by (simp add: tables_def slot_of_node_def f(1))
    moreover have "nodes_ok s1 = nodes_ok s" by (simp add: nodes_ok_def us vl rep nt)
    moreover have "entry_ok s1 e = entry_ok s e" for e by (simp add: entry_ok_def vl dn)
    moreover have "sizes_ok s1" using ok f by (simp add: ldd_ok_def sizes_ok_def)
    ultimately show ?thesis using ok x by (auto simp: ldd_ok_def roots vl) (simp_all add: f(1))
  qed
  moreover have "entries_from s s1" by (rule entries_from_same) (simp_all add: dn vl, simp_all add: f(1))
  moreover have "mdd_pop s2 = ret (x, s2\<lparr>mdd_stack := mdd_stack s\<rparr>)
        \<and> ldd_ok (s2\<lparr>mdd_stack := mdd_stack s\<rparr>) \<and> keeps_nodes s (s2\<lparr>mdd_stack := mdd_stack s\<rparr>)
        \<and> entries_from s2 (s2\<lparr>mdd_stack := mdd_stack s\<rparr>) \<and> (\<forall>n i A. den (s2\<lparr>mdd_stack := mdd_stack s\<rparr>) n i A = den s2 n i A) \<and> (\<forall>i. vld (s2\<lparr>mdd_stack := mdd_stack s\<rparr>) i = vld s2 i)"
    if s2: "ldd_ok s2" "keeps_nodes s1 s2" for s2
  proof -
    define s3 where "s3 = s2\<lparr>mdd_stack := mdd_stack s\<rparr>"
    have st: "mdd_stack s2 = x # mdd_stack s" using s2(2) by (simp add: keeps_nodes_def same_roots_def f(1))
    have nt3: "node_table s3 = node_table s2" by (simp add: s3_def)
    have rep3: "repr s3 i t = repr s2 i t" for i t by (induction t arbitrary: i) (simp_all add: nt3)
    then have dn3: "den s3 n i A = den s2 n i A" for n i A by (simp add: den_def)
    have us3: "used s3 = used s2" by (simp add: used_def s3_def)
    then have vl3: "vld s3 i = vld s2 i" for i by (simp add: vld_def)
    have "set (gc_roots s3) \<subseteq> set (gc_roots s2)" using st by (auto simp: s3_def gc_roots_def)
    moreover have "tables s3 B F = tables s2 B F" for B F by (simp add: tables_def slot_of_node_def s3_def)
    moreover have "nodes_ok s3 = nodes_ok s2" by (simp add: nodes_ok_def us3 vl3 rep3 nt3)
    moreover have "entry_ok s3 e = entry_ok s2 e" for e by (simp add: entry_ok_def vl3 dn3)
    moreover have "sizes_ok s3" using s2(1) st by (simp add: ldd_ok_def sizes_ok_def s3_def)
    moreover have "cache_size s3 = cache_size s2" "op_cache s3 = op_cache s2" by (simp_all add: s3_def)
    ultimately have ok3: "ldd_ok s3" using s2(1) by (auto simp: ldd_ok_def vl3)
    have "reach s (set (gc_roots s)) \<subseteq> reach s1 (set (gc_roots s1))" using rc by (auto simp: roots)
    then have "keeps_nodes s s3"
      using s2(2) us3 by (auto simp: keeps_nodes_def same_roots_def same_fields_def nt3 nt f(1) s3_def)
    moreover have "entries_from s2 s3" by (rule entries_from_same) (simp_all add: dn3 vl3, simp_all add: s3_def)
    ultimately show ?thesis using st ok3 dn3 vl3 by (simp add: s3_def mdd_pop_def)
  qed
  ultimately show thesis using that(2)[OF s1(1)] dn vl nt pr prot_root[of x s1] by (simp add: roots)
qed

lemma mdd_push_run:
  assumes ok: "ldd_ok s" and x: "vld s x"
  obtains "no_room (mdd_push alloc x s)"
    | s1 where "mdd_push alloc x s = ret s1" and "ldd_ok s1" and "prot s1 x" and "\<And>i. prot s i \<Longrightarrow> prot s1 i"
      and "\<And>n i A. den s1 n i A = den s n i A" and "\<And>i. vld s1 i = vld s i" and "node_table s1 = node_table s"
      and "\<And>s2. ldd_ok s2 \<Longrightarrow> keeps s1 s2 \<Longrightarrow> mdd_pop s2 = ret (x, s2\<lparr>mdd_stack := mdd_stack s\<rparr>)
        \<and> ldd_ok (s2\<lparr>mdd_stack := mdd_stack s\<rparr>) \<and> keeps s (s2\<lparr>mdd_stack := mdd_stack s\<rparr>)
        \<and> (\<forall>n i A. den (s2\<lparr>mdd_stack := mdd_stack s\<rparr>) n i A = den s2 n i A) \<and> (\<forall>i. vld (s2\<lparr>mdd_stack := mdd_stack s\<rparr>) i = vld s2 i)"
proof (rule mdd_push_nodes[OF ok x, of alloc])
  fix s1
  assume s1: "mdd_push alloc x s = ret s1" "ldd_ok s1" "prot s1 x" "\<And>i. prot s i \<Longrightarrow> prot s1 i"
    "\<And>n i A. den s1 n i A = den s n i A" "\<And>i. vld s1 i = vld s i" "node_table s1 = node_table s" "entries_from s s1"
    and pop: "\<And>s2. ldd_ok s2 \<Longrightarrow> keeps_nodes s1 s2 \<Longrightarrow> mdd_pop s2 = ret (x, s2\<lparr>mdd_stack := mdd_stack s\<rparr>)
        \<and> ldd_ok (s2\<lparr>mdd_stack := mdd_stack s\<rparr>) \<and> keeps_nodes s (s2\<lparr>mdd_stack := mdd_stack s\<rparr>)
        \<and> entries_from s2 (s2\<lparr>mdd_stack := mdd_stack s\<rparr>)
        \<and> (\<forall>n i A. den (s2\<lparr>mdd_stack := mdd_stack s\<rparr>) n i A = den s2 n i A) \<and> (\<forall>i. vld (s2\<lparr>mdd_stack := mdd_stack s\<rparr>) i = vld s2 i)"
  have "entries_from s (s2\<lparr>mdd_stack := mdd_stack s\<rparr>)" if "ldd_ok s2" "keeps s1 s2" for s2
    using s1(8) that pop[of s2] entries_from_trans unfolding keeps_def by metis
  then show thesis using that(2)[OF s1(1-7)] pop unfolding keeps_def by blast
qed (rule that(1))

end
