(* ===== verification/Ldd_Ops.thy ===== *)
theory Ldd_Ops
  imports Ldd_Node
begin

text \<open>
  The set operations of \<^verbatim>\<open>src/src/vset-lib/vset_listdd.c\<close> on nodes: union, difference and intersection,
  with the operation cache. Every node a caller still needs has to be protected while a node is created, because
  creating a node may run the collector; the proofs follow the pushes and pops of the code.
\<close>

section \<open>Model\<close>

definition cache_hit :: "ldd \<Rightarrow> nat \<Rightarrow> nat \<Rightarrow> nat \<Rightarrow> nat \<Rightarrow> bool" where
  "cache_hit s slot op a b \<longleftrightarrow> op_op (op_cache s slot) = op \<and> op_arg1 (op_cache s slot) = a \<and> op_arg2 (op_cache s slot) = b"

definition cache_put :: "nat \<Rightarrow> nat \<Rightarrow> nat \<Rightarrow> nat \<Rightarrow> nat \<Rightarrow> ldd \<Rightarrow> ldd" where
  "cache_put slot op a b r s = s\<lparr>op_cache := (op_cache s)(slot := \<lparr>op_op = op, op_arg1 = a, op_arg2 = b, op_res = r\<rparr>)\<rparr>"

partial_function (option) mdd_union :: "(nat \<Rightarrow> bool) \<Rightarrow> nat \<Rightarrow> nat \<Rightarrow> ldd \<Rightarrow> (nat \<times> ldd) result option" where
  "mdd_union alloc a b s =
     (if a = b then ret (a, s)
      else if a = 0 then ret (b, s)
      else if b = 0 then ret (a, s)
      else if a = 1 \<or> b = 1 then abort ''missing case in union''
      else let (a, b) = (if b < a then (b, a) else (a, b));
               slot_hash = hash OP_UNION a b; slot = slot_hash mod cache_size s in
      if cache_hit s slot OP_UNION a b then ret (op_res (op_cache s slot), s)
      else rbind
        (if val s a < val s b then
           rbind (mdd_union alloc (right s a) b s) (\<lambda>(tmp, s). mdd_create_node alloc (val s a) (down s a) tmp s)
         else if val s a = val s b then
           rbind (mdd_union alloc (down s a) (down s b) s) (\<lambda>(tmp, s).
           rbind (mdd_push alloc tmp s) (\<lambda>s.
           rbind (mdd_union alloc (right s a) (right s b) s) (\<lambda>(tmp, s).
           rbind (mdd_pop s) (\<lambda>(d, s). mdd_create_node alloc (val s a) d tmp s))))
         else
           rbind (mdd_union alloc a (right s b) s) (\<lambda>(tmp, s). mdd_create_node alloc (val s b) (down s b) tmp s))
        (\<lambda>(tmp, s). ret (tmp, cache_put (slot_hash mod cache_size s) OP_UNION a b tmp s)))"

partial_function (option) mdd_minus :: "(nat \<Rightarrow> bool) \<Rightarrow> nat \<Rightarrow> nat \<Rightarrow> ldd \<Rightarrow> (nat \<times> ldd) result option" where
  "mdd_minus alloc a b s =
     (if a = b then ret (0, s)
      else if a = 0 then ret (0, s)
      else if b = 0 then ret (a, s)
      else if a = 1 \<or> b = 1 then abort ''missing case in minus''
      else let slot_hash = hash OP_MINUS a b; slot = slot_hash mod cache_size s in
      if cache_hit s slot OP_MINUS a b then ret (op_res (op_cache s slot), s)
      else rbind
        (if val s a < val s b then
           rbind (mdd_minus alloc (right s a) b s) (\<lambda>(tmp, s). mdd_create_node alloc (val s a) (down s a) tmp s)
         else if val s a = val s b then
           rbind (mdd_minus alloc (down s a) (down s b) s) (\<lambda>(tmp, s).
           rbind (mdd_push alloc tmp s) (\<lambda>s.
           rbind (mdd_minus alloc (right s a) (right s b) s) (\<lambda>(tmp, s).
           rbind (mdd_pop s) (\<lambda>(d, s). mdd_create_node alloc (val s a) d tmp s))))
         else mdd_minus alloc a (right s b) s)
        (\<lambda>(tmp, s). ret (tmp, cache_put (slot_hash mod cache_size s) OP_MINUS a b tmp s)))"

partial_function (option) mdd_intersect :: "(nat \<Rightarrow> bool) \<Rightarrow> nat \<Rightarrow> nat \<Rightarrow> ldd \<Rightarrow> (nat \<times> ldd) result option" where
  "mdd_intersect alloc a b s =
     (if a = b then ret (a, s)
      else if a = 0 \<or> b = 0 then ret (0, s)
      else if a = 1 \<or> b = 1 then abort ''missing case in intersect''
      else let slot_hash = hash OP_INTERSECT a b; slot = slot_hash mod cache_size s in
      if cache_hit s slot OP_INTERSECT a b then ret (op_res (op_cache s slot), s)
      else rbind
        (if val s a = val s b then
           rbind (mdd_intersect alloc (down s a) (down s b) s) (\<lambda>(tmp, s).
           rbind (mdd_push alloc tmp s) (\<lambda>s.
           rbind (mdd_intersect alloc (right s a) (right s b) s) (\<lambda>(tmp, s).
           rbind (mdd_pop s) (\<lambda>(d, s). mdd_create_node alloc (val s a) d tmp s))))
         else if val s a < val s b then mdd_intersect alloc (right s a) b s
         else mdd_intersect alloc a (right s b) s)
        (\<lambda>(tmp, s). ret (tmp, cache_put (slot_hash mod cache_size s) OP_INTERSECT a b tmp s)))"

declare mdd_union.simps [code] mdd_minus.simps [code] mdd_intersect.simps [code]

section \<open>Composing runs\<close>

text \<open>
  \<open>runs_to m s n A\<close>: started in \<open>s\<close>, \<open>m\<close> ends with a node for \<open>A\<close>, a set of vectors of length \<open>n\<close>, in a
  state that satisfies the invariant and keeps \<open>s\<close>, or for lack of room.
\<close>

definition runs_to :: "(nat \<times> ldd) result option \<Rightarrow> ldd \<Rightarrow> nat \<Rightarrow> nat list set \<Rightarrow> bool" where
  "runs_to m s n A \<longleftrightarrow> no_room m
     \<or> (\<exists>i s'. m = ret (i, s') \<and> ldd_ok s' \<and> keeps s s' \<and> vld s' i \<and> den s' n i A)"

lemma runs_to_ret: "ldd_ok s \<Longrightarrow> vld s i \<Longrightarrow> den s n i A \<Longrightarrow> runs_to (ret (i, s)) s n A"
  by (auto simp: runs_to_def keeps_refl)

lemma runs_to_bind:
  assumes "runs_to m s n A"
    and "\<And>i s'. ldd_ok s' \<Longrightarrow> keeps s s' \<Longrightarrow> vld s' i \<Longrightarrow> den s' n i A \<Longrightarrow> runs_to (f (i, s')) s' k B"
  shows "runs_to (rbind m f) s k B"
  using assms(1) unfolding runs_to_def[of m]
proof
  assume "no_room m"
  then show ?thesis by (simp add: runs_to_def)
next
  assume "\<exists>i s'. m = ret (i, s') \<and> ldd_ok s' \<and> keeps s s' \<and> vld s' i \<and> den s' n i A"
  then obtain i s' where i: "m = ret (i, s')" "ldd_ok s'" "keeps s s'" "vld s' i" "den s' n i A" by blast
  with assms(2) have "runs_to (f (i, s')) s' k B" by blast
  then show ?thesis using i(1,3) keeps_trans[of s s'] by (auto simp: runs_to_def)
qed

lemma runs_to_create:
  assumes "ldd_ok s" and "\<not> alloc (16 * fib 47)" and "vld s d" and "vld s r"
    and "den s n d D" and "den s (Suc n) r R" and "\<forall>x \<in> R. v < hd x" and "A = (#) v ` D \<union> R"
  shows "runs_to (mdd_create_node alloc v d r s) s (Suc n) A"
  using mdd_create_node_den[where alloc = alloc, OF assms(1-7)] assms(8) by (simp add: runs_to_def)

text \<open>A result is kept on the stack while the next one is computed.\<close>

lemma runs_to_push:
  assumes ok: "ldd_ok s" and x: "vld s x" "den s k x D"
    and m: "\<And>s1. ldd_ok s1 \<Longrightarrow> node_table s1 = node_table s \<Longrightarrow> (\<And>i. prot s i \<Longrightarrow> prot s1 i)
      \<Longrightarrow> (\<And>n i A. den s1 n i A = den s n i A) \<Longrightarrow> runs_to (m s1) s1 n R"
    and f: "\<And>t i. ldd_ok t \<Longrightarrow> keeps s t \<Longrightarrow> vld t x \<Longrightarrow> den t k x D \<Longrightarrow> vld t i \<Longrightarrow> den t n i R \<Longrightarrow> runs_to (f x i t) t l B"
  shows "runs_to (rbind (mdd_push alloc x s) (\<lambda>s. rbind (m s) (\<lambda>(tmp, s). rbind (mdd_pop s) (\<lambda>(d, s). f d tmp s)))) s l B"
proof (rule mdd_push_run[OF ok x(1), of alloc])
  assume "no_room (mdd_push alloc x s)"
  then show ?thesis by (simp add: runs_to_def)
next
  fix s1
  assume s1: "mdd_push alloc x s = ret s1" "ldd_ok s1" "prot s1 x" "\<And>i. prot s i \<Longrightarrow> prot s1 i"
    "\<And>n i A. den s1 n i A = den s n i A" "\<And>i. vld s1 i = vld s i" "node_table s1 = node_table s"
    and pop: "\<And>s2. ldd_ok s2 \<Longrightarrow> keeps s1 s2 \<Longrightarrow> mdd_pop s2 = ret (x, s2\<lparr>mdd_stack := mdd_stack s\<rparr>)
        \<and> ldd_ok (s2\<lparr>mdd_stack := mdd_stack s\<rparr>) \<and> keeps s (s2\<lparr>mdd_stack := mdd_stack s\<rparr>)
        \<and> (\<forall>n i A. den (s2\<lparr>mdd_stack := mdd_stack s\<rparr>) n i A = den s2 n i A) \<and> (\<forall>i. vld (s2\<lparr>mdd_stack := mdd_stack s\<rparr>) i = vld s2 i)"
  from m[OF s1(2,7,4,5)] consider "no_room (m s1)"
    | i s2 where "m s1 = ret (i, s2)" "ldd_ok s2" "keeps s1 s2" "vld s2 i" "den s2 n i R" by (auto simp: runs_to_def)
  then show ?thesis
  proof cases
    case 1
    then show ?thesis by (simp add: s1(1) runs_to_def)
  next
    case (2 i s2)
    define t where "t = s2\<lparr>mdd_stack := mdd_stack s\<rparr>"
    have p: "mdd_pop s2 = ret (x, t)" "ldd_ok t" "keeps s t" "\<And>n i A. den t n i A = den s2 n i A" "\<And>i. vld t i = vld s2 i"
      using pop[OF 2(2,3)] by (simp_all add: t_def)
    have "prot s2 x" using keeps_prot[OF 2(3)] s1(3) by simp
    then have x2: "vld s2 x" "den s2 k x D"
      using prot_vld[OF 2(2)] keeps_den[OF 2(3) s1(3)] s1(5) x(2) by simp_all
    have "runs_to (f x i t) t l B"
      using f[OF p(2,3)] x2 2(4,5) p(4,5) by simp
    then show ?thesis using keeps_trans[OF p(3)] by (auto simp: s1(1) 2(1) p(1) runs_to_def)
  qed
qed

section \<open>The cache\<close>

lemma den_length_unique: "den s n i A \<Longrightarrow> den s k i B \<Longrightarrow> i \<noteq> 0 \<Longrightarrow> n = k \<and> A = B"
proof -
  assume d: "den s n i A" "den s k i B" "i \<noteq> 0"
  then obtain t where t: "repr s i t" "wf_dd n t" "wf_dd k t" "vecs t = A" "vecs t = B"
    unfolding den_def using repr_fun by metis
  have "A \<noteq> {}" using den_empty[OF d(1)] d(3) by simp
  then obtain x where "x \<in> vecs t" using t(4) by auto
  then show ?thesis using vecs_length[OF t(2)] vecs_length[OF t(3)] t(4,5) by auto
qed

lemma cache_put_nodes:
  assumes ok: "ldd_ok s" and e: "entry_ok s \<lparr>op_op = op, op_arg1 = a, op_arg2 = b, op_res = r\<rparr>"
  shows "ldd_ok (cache_put slot op a b r s)" and "keeps_nodes s (cache_put slot op a b r s)"
    and "vld (cache_put slot op a b r s) i = vld s i" and "den (cache_put slot op a b r s) k i C = den s k i C"
proof -
  define s' where "s' = cache_put slot op a b r s"
  have nt: "node_table s' = node_table s" by (simp add: s'_def cache_put_def)
  have rep: "repr s' i t = repr s i t" for i t by (induction t arbitrary: i) (simp_all add: nt)
  then have dn: "den s' k i C = den s k i C" for k i C by (simp add: den_def)
  have us: "used s' = used s" by (simp add: used_def s'_def cache_put_def)
  then have vl: "vld s' i = vld s i" for i by (simp add: vld_def)
  show "vld (cache_put slot op a b r s) i = vld s i" "den (cache_put slot op a b r s) k i C = den s k i C"
    using vl dn by (simp_all add: s'_def)
  have "entry_ok s' e = entry_ok s e" for e by (simp add: entry_ok_def vl dn)
  moreover have "tables s' B F = tables s B F" for B F by (simp add: tables_def slot_of_node_def s'_def cache_put_def)
  moreover have "nodes_ok s' = nodes_ok s" by (simp add: nodes_ok_def us vl rep nt)
  moreover have "sizes_ok s' = sizes_ok s" "gc_roots s' = gc_roots s" "cache_size s' = cache_size s"
    by (simp_all add: s'_def cache_put_def sizes_ok_def gc_roots_def)
  moreover have "op_cache s' = (op_cache s)(slot := \<lparr>op_op = op, op_arg1 = a, op_arg2 = b, op_res = r\<rparr>)" by (simp add: s'_def cache_put_def)
  ultimately have "ldd_ok s'" using ok e by (simp add: ldd_ok_def vl)
  then show "ldd_ok (cache_put slot op a b r s)" by (simp add: s'_def)
  have "keeps_nodes s s'" using keeps_nodes_refl[OF ok] us unfolding keeps_nodes_def
    by (simp add: same_roots_def same_fields_def s'_def cache_put_def)
  then show "keeps_nodes s (cache_put slot op a b r s)" by (simp add: s'_def)
qed

lemma cache_put_ok:
  assumes ok: "ldd_ok s" and op: "set_op op" and v: "vld s a" "vld s b" "vld s r" and "a \<noteq> 0" "b \<noteq> 0"
    and d: "den s n a A" "den s n b B" "den s n r (op_fun op A B)"
  shows "ldd_ok (cache_put slot op a b r s)" and "keeps s (cache_put slot op a b r s)"
    and "vld (cache_put slot op a b r s) i = vld s i" and "den (cache_put slot op a b r s) k i C = den s k i C"
proof -
  have "op AND 255 \<le> 14" using op unfolding set_op_def by (elim disjE) simp_all
  moreover have "den s n' r (op_fun op A' B')" if "den s n' a A'" "den s n' b B'" for n' A' B'
    using den_length_unique[OF d(1) that(1)] den_length_unique[OF d(2) that(2)] d(3) assms(6,7) by auto
  ultimately have e: "entry_ok s \<lparr>op_op = op, op_arg1 = a, op_arg2 = b, op_res = r\<rparr>" using v by (simp add: entry_ok_def)
  note c = cache_put_nodes[OF ok e]
  show "ldd_ok (cache_put slot op a b r s)" "vld (cache_put slot op a b r s) i = vld s i" "den (cache_put slot op a b r s) k i C = den s k i C"
    by (rule c)+
  have "entries_from s (cache_put slot op a b r s)"
    using set_op_not_rel[OF op] unfolding entries_from_def by (auto simp: c(3,4)) (auto simp: cache_put_def split: if_splits)
  with c(2) show "keeps s (cache_put slot op a b r s)" by (simp add: keeps_def)
qed

lemma runs_to_cache:
  assumes m: "runs_to m s n C" and ok: "ldd_ok s" and p: "prot s a" "prot s b" "a \<noteq> 0" "b \<noteq> 0" and op: "set_op op"
    and d: "den s n a A" "den s n b B" and C: "C = op_fun op A B"
  shows "runs_to (rbind m (\<lambda>(tmp, s). ret (tmp, cache_put (slot s) op a b tmp s))) s n C"
proof (rule runs_to_bind[OF m])
  fix i s' assume s': "ldd_ok s'" "keeps s s'" "vld s' i" "den s' n i C"
  have v: "vld s' a" "vld s' b" using prot_vld[OF s'(1)] keeps_prot[OF s'(2)] p by simp_all
  have d': "den s' n a A" "den s' n b B" using keeps_den[OF s'(2)] p d by simp_all
  from cache_put_ok[OF s'(1) op v s'(3) p(3,4) d' s'(4)[unfolded C], of "slot s'"] s'(3,4) C
  show "runs_to (case (i, s') of (tmp, s) \<Rightarrow> ret (tmp, cache_put (slot s) op a b tmp s)) s' n C"
    by (auto simp: runs_to_def)
qed

lemma cache_hit_run:
  assumes ok: "ldd_ok s" and hit: "cache_hit s (h mod cache_size s) op a b" and op: "set_op op" and d: "den s n a A" "den s n b B"
  shows "runs_to (ret (op_res (op_cache s (h mod cache_size s)), s)) s n (op_fun op A B)"
proof -
  have "h mod cache_size s < cache_size s" using ok sizes_bounds(2)[of s] by (simp add: ldd_ok_def)
  then have "entry_ok s (op_cache s (h mod cache_size s))" using ok by (simp add: ldd_ok_def)
  with hit op d show ?thesis by (auto simp: entry_ok_def cache_hit_def intro!: runs_to_ret[OF ok])
qed

text \<open>An operation that looks in the cache first and stores its result there.\<close>

lemma cached_run:
  assumes ok: "ldd_ok s" and p: "prot s a" "prot s b" "a \<noteq> 0" "b \<noteq> 0" and op: "set_op op" and d: "den s n a A" "den s n b B"
    and body: "runs_to body s n (op_fun op A B)"
    and m: "m = (if cache_hit s (h mod cache_size s) op a b then ret (op_res (op_cache s (h mod cache_size s)), s)
      else rbind body (\<lambda>(tmp, s). ret (tmp, cache_put (h mod cache_size s) op a b tmp s)))"
  shows "runs_to m s n (op_fun op A B)"
  unfolding m using cache_hit_run[OF ok _ op d] runs_to_cache[OF body ok p op d refl, of "\<lambda>s. h mod cache_size s"] by simp

section \<open>Correctness\<close>

lemma vecs_finite: "finite (vecs t)"
  by (induction t) auto

lemma den_finite: "den s n i A \<Longrightarrow> finite A"
  by (auto simp: den_def vecs_finite)

text \<open>The parts of a node are smaller than the node.\<close>

lemma split_card:
  fixes v :: nat
  assumes "finite ((#) v ` D \<union> R)" and "D \<noteq> {}" and "\<forall>x \<in> R. v < hd x"
  shows "card D \<le> card ((#) v ` D \<union> R)" and "card R < card ((#) v ` D \<union> R)"
proof -
  have "card ((#) v ` D) = card D" by (simp add: card_image)
  moreover have "card ((#) v ` D \<union> R) = card ((#) v ` D) + card R"
  proof (rule card_Un_disjoint)
    show "(#) v ` D \<inter> R = {}"
    proof (rule Int_emptyI)
      fix x assume "x \<in> (#) v ` D" "x \<in> R"
      then have "hd x = v" "v < hd x" using assms(3) by (auto dest: bspec)
      then show False by simp
    qed
  qed (use assms(1) in auto)
  moreover have "0 < card ((#) v ` D)" using assms(1,2) by (auto simp: card_gt_0_iff)
  ultimately show "card D \<le> card ((#) v ` D \<union> R)" "card R < card ((#) v ` D \<union> R)" by simp_all
qed

text \<open>What the operations need to know of a protected node above 1, for the set \<open>A\<close> of its vectors.\<close>

definition splits :: "ldd \<Rightarrow> nat \<Rightarrow> nat \<Rightarrow> nat list set \<Rightarrow> nat list set \<Rightarrow> nat list set \<Rightarrow> bool" where
  "splits s i m A D R \<longleftrightarrow> 1 < i \<and> prot s i \<and> prot s (down s i) \<and> prot s (right s i)
     \<and> den s m (down s i) D \<and> den s (Suc m) (right s i) R \<and> A = (#) (val s i) ` D \<union> R \<and> D \<noteq> {}
     \<and> (\<forall>x \<in> R. val s i < hd x) \<and> (\<forall>x \<in> R. \<exists>y ys. x = y # ys) \<and> card D \<le> card A \<and> card R < card A"

lemma splitsD:
  assumes "splits s i m A D R"
  shows "1 < i" and "prot s i" and "prot s (down s i)" and "prot s (right s i)" and "den s m (down s i) D" and "den s (Suc m) (right s i) R"
    and "A = (#) (val s i) ` D \<union> R" and "D \<noteq> {}" and "\<forall>x \<in> R. val s i < hd x" and "\<forall>x \<in> R. \<exists>y ys. x = y # ys"
    and "card D \<le> card A" and "card R < card A"
  using assms unfolding splits_def by blast+

lemma splitsI:
  assumes "den s n i A" and "1 < i" and "prot s i"
  obtains m D R where "n = Suc m" and "splits s i m A D R"
proof -
  from den_node[OF assms(1,2)] obtain m D R where d: "n = Suc m" "den s m (down s i) D" "den s n (right s i) R"
    "A = (#) (val s i) ` D \<union> R" "D \<noteq> {}" "\<forall>x \<in> R. val s i < hd x" "\<forall>x \<in> R. \<exists>y ys. x = y # ys" by metis
  have "finite A" using den_finite[OF assms(1)] .
  then have "card D \<le> card A" "card R < card A" using split_card[of "val s i" D R] d(4-6) by simp_all
  then show thesis using that[of m D R] d prot_children[OF assms(3,2)] assms(2,3) by (simp add: splits_def)
qed

lemma splits_fields:
  assumes "splits s i m A D R" and "keeps s s'"
  shows "val s' i = val s i" and "down s' i = down s i" and "right s' i = right s i"
  using keeps_fields[OF assms(2) splitsD(2,1)[OF assms(1)]] .

lemma splits_keeps: "splits s i m A D R \<Longrightarrow> keeps s s' \<Longrightarrow> splits s' i m A D R"
proof -
  assume sp: "splits s i m A D R" and k: "keeps s s'"
  note d = splitsD[OF sp] and f = splits_fields[OF sp k]
  show ?thesis unfolding splits_def f keeps_prot[OF k] keeps_den[OF k d(3)] keeps_den[OF k d(4)]
    using d by blast
qed

text \<open>A branch that computes the new right part and creates the node.\<close>

lemma runs_to_right:
  assumes mem: "\<not> alloc (16 * fib 47)" and sp: "splits s a k A D R" and m: "runs_to m s (Suc k) R'"
    and R': "\<forall>x \<in> R'. val s a < hd x" and C: "C = (#) (val s a) ` D \<union> R'"
  shows "runs_to (rbind m (\<lambda>(tmp, s). mdd_create_node alloc (val s a) (down s a) tmp s)) s (Suc k) C"
proof (rule runs_to_bind[OF m])
  fix i s' assume s': "ldd_ok s'" "keeps s s'" "vld s' i" "den s' (Suc k) i R'"
  have "runs_to (mdd_create_node alloc (val s' a) (down s' a) i s') s' (Suc k) C"
  proof (rule runs_to_create[where alloc = alloc, OF s'(1) mem])
    note sp' = splits_keeps[OF sp s'(2)]
    show "vld s' (down s' a)" using prot_vld[OF s'(1)] splitsD(3)[OF sp'] by simp
    show "den s' k (down s' a) D" using splitsD(5)[OF sp'] .
  qed (use s' R' C splits_fields[OF sp s'(2)] in simp_all)
  then show "runs_to (case (i, s') of (tmp, s) \<Rightarrow> mdd_create_node alloc (val s a) (down s a) tmp s) s' (Suc k) C" by simp
qed

text \<open>The branch for equal values, which recurs on both parts with the first result on the stack.\<close>

lemma runs_to_both:
  assumes mem: "\<not> alloc (16 * fib 47)" and a: "splits s a k A D R" and b: "splits s b k B E Q"
    and down: "runs_to (run (down s a) (down s b) s) s k D'"
    and right: "\<And>t. ldd_ok t \<Longrightarrow> prot t (right s a) \<Longrightarrow> prot t (right s b) \<Longrightarrow> den t (Suc k) (right s a) R \<Longrightarrow> den t (Suc k) (right s b) Q
      \<Longrightarrow> runs_to (run (right s a) (right s b) t) t (Suc k) R'"
    and R': "\<forall>x \<in> R'. val s a < hd x" and C: "C = (#) (val s a) ` D' \<union> R'"
  shows "runs_to (rbind (run (down s a) (down s b) s) (\<lambda>(tmp, s). rbind (mdd_push alloc tmp s) (\<lambda>s.
     rbind (run (right s a) (right s b) s) (\<lambda>(tmp, s). rbind (mdd_pop s) (\<lambda>(d, s). mdd_create_node alloc (val s a) d tmp s))))) s (Suc k) C"
proof (rule runs_to_bind[OF down], simp, rule runs_to_push)
  fix x s1 assume s1: "ldd_ok s1" "keeps s s1" "vld s1 x" "den s1 k x D'"
  show "ldd_ok s1" "vld s1 x" "den s1 k x D'" by (rule s1)+
  note a1 = splits_keeps[OF a s1(2)] and b1 = splits_keeps[OF b s1(2)]
  note f1 = splits_fields[OF a s1(2)] splits_fields[OF b s1(2)]
  show "runs_to (run (right s2 a) (right s2 b) s2) s2 (Suc k) R'"
    if s2: "ldd_ok s2" "node_table s2 = node_table s1" "\<And>i. prot s1 i \<Longrightarrow> prot s2 i" "\<And>n i A. den s2 n i A = den s1 n i A" for s2
    using right[OF s2(1)] s2(2-4) splitsD(4,6)[OF a1] splitsD(4,6)[OF b1] f1 by simp
  show "runs_to (mdd_create_node alloc (val t a) x i t) t (Suc k) C"
    if t: "ldd_ok t" "keeps s1 t" "vld t x" "den t k x D'" "vld t i" "den t (Suc k) i R'" for t i
    using runs_to_create[where alloc = alloc, OF t(1) mem t(3,5,4,6), of "val s a" C] R' C splits_fields[OF a1 t(2)] f1 by simp
qed

text \<open>Two nodes of one length that differ and are not empty are both above 1.\<close>

lemma both_above:
  assumes "den s n a A" and "den s n b B" and "a \<noteq> b" and "a \<noteq> 0" and "b \<noteq> 0"
  shows "1 < a" and "1 < b"
proof -
  have x: "n = 0" if "den s n (Suc 0) C" for C using that by simp
  have y: "n \<noteq> 0" if "den s n j C" "1 < j" for j C using that den_node[OF that] by blast
  show "1 < a" "1 < b" using x y assms by (metis less_one linorder_neqE_nat One_nat_def)+
qed

lemma splits_heads:
  assumes "splits s a k A D R"
  shows "\<forall>x \<in> A. val s a \<le> hd x" and "\<forall>x \<in> A. x \<noteq> []"
  using splitsD(7,9,10)[OF assms] by (auto simp: less_imp_le)

section \<open>Union\<close>

text \<open>The computation behind a miss of the cache.\<close>

definition union_body :: "(nat \<Rightarrow> bool) \<Rightarrow> nat \<Rightarrow> nat \<Rightarrow> ldd \<Rightarrow> (nat \<times> ldd) result option" where
  "union_body alloc a b s = (if val s a < val s b then
           rbind (mdd_union alloc (right s a) b s) (\<lambda>(tmp, s). mdd_create_node alloc (val s a) (down s a) tmp s)
         else if val s a = val s b then
           rbind (mdd_union alloc (down s a) (down s b) s) (\<lambda>(tmp, s).
           rbind (mdd_push alloc tmp s) (\<lambda>s.
           rbind (mdd_union alloc (right s a) (right s b) s) (\<lambda>(tmp, s).
           rbind (mdd_pop s) (\<lambda>(d, s). mdd_create_node alloc (val s a) d tmp s))))
         else
           rbind (mdd_union alloc a (right s b) s) (\<lambda>(tmp, s). mdd_create_node alloc (val s b) (down s b) tmp s))"

lemma mdd_union_step:
  assumes mem: "\<not> alloc (16 * fib 47)" and ok: "ldd_ok s" and a: "splits s a k A D R" and b: "splits s b k B E Q"
    and dA: "den s (Suc k) a A" and dB: "den s (Suc k) b B"
    and IH: "\<And>m x y X Y t. m + card X + card Y < Suc k + card A + card B \<Longrightarrow> ldd_ok t \<Longrightarrow> prot t x \<Longrightarrow> prot t y \<Longrightarrow> den t m x X
      \<Longrightarrow> den t m y Y \<Longrightarrow> runs_to (mdd_union alloc x y t) t m (X \<union> Y)"
  shows "runs_to (union_body alloc a b s) s (Suc k) (A \<union> B)"
proof (rule linorder_cases[of "val s a" "val s b"])
  note da = splitsD[OF a] and db = splitsD[OF b]
  {
    assume lt: "val s a < val s b"
    have ih: "runs_to (mdd_union alloc (right s a) b s) s (Suc k) (R \<union> B)" using IH[of "Suc k" R B] ok da db dB by simp
    moreover have "\<forall>x \<in> R \<union> B. val s a < hd x" using da(9) splits_heads(1)[OF b] lt by auto
    ultimately show ?thesis unfolding union_body_def using lt da(7) by (auto intro!: runs_to_right[where alloc = alloc, OF mem a])
  next
    assume gt: "val s b < val s a"
    have ih: "runs_to (mdd_union alloc a (right s b) s) s (Suc k) (A \<union> Q)" using IH[of "Suc k" A Q] ok da db dA by simp
    moreover have "\<forall>x \<in> A \<union> Q. val s b < hd x" using db(9) splits_heads(1)[OF a] gt by auto
    ultimately show ?thesis unfolding union_body_def using gt db(7) by (auto intro!: runs_to_right[where alloc = alloc, OF mem b])
  next
    assume eq: "val s a = val s b"
    have "runs_to (mdd_union alloc (down s a) (down s b) s) s k (D \<union> E)" using IH[of k D E] ok da db by simp
    moreover have "\<forall>x \<in> R \<union> Q. val s a < hd x" using da(9) db(9) eq by auto
    moreover have "A \<union> B = (#) (val s a) ` (D \<union> E) \<union> (R \<union> Q)" using da(7) db(7) eq by auto
    ultimately show ?thesis unfolding union_body_def using eq IH[of "Suc k" R Q] da db
      by (simp, intro runs_to_both[where alloc = alloc and run = "mdd_union alloc", OF mem a b]) simp_all
  }
qed

lemma mdd_union_run:
  assumes mem: "\<not> alloc (16 * fib 47)"
  shows "ldd_ok s \<Longrightarrow> prot s a \<Longrightarrow> prot s b \<Longrightarrow> den s n a A \<Longrightarrow> den s n b B \<Longrightarrow>
    runs_to (mdd_union alloc a b s) s n (A \<union> B)"
proof (induction "n + card A + card B" arbitrary: s a b n A B rule: less_induct)
  case less
  note ok = less.prems(1) and d = less.prems(4,5)
  show ?case
  proof (cases "a = b \<or> a = 0 \<or> b = 0")
    case True
    have v: "vld s a" "vld s b" using prot_vld[OF ok] less.prems(2,3) by auto
    have "a = b \<Longrightarrow> A = B" using d den_fun by blast
    then show ?thesis using True d v ok by (subst mdd_union.simps) (auto intro!: runs_to_ret)
  next
    case False
    then have gt: "1 < a" "1 < b" using both_above[OF d] by auto
    obtain a' b' A' B' where sw: "(if b < a then (b, a) else (a, b)) = (a', b')" and gt': "1 < a'" "1 < b'"
      and p: "prot s a'" "prot s b'" and d': "den s n a' A'" "den s n b' B'" and AB: "A' \<union> B' = A \<union> B"
      and cd: "n + card A' + card B' = n + card A + card B"
    proof (cases "b < a")
      case True
      then show thesis using that[of b a B A] gt d less.prems(2,3) by auto
    next
      case False
      then show thesis using that[of a b A B] gt d less.prems(2,3) by auto
    qed
    from splitsI[OF d'(1) gt'(1) p(1)] obtain k D R where a: "n = Suc k" "splits s a' k A' D R" .
    from splitsI[OF d'(2) gt'(2) p(2)] a(1) obtain E Q where b: "splits s b' k B' E Q" by blast
    have op: "set_op OP_UNION" "op_fun OP_UNION A' B' = A \<union> B" using AB by (simp_all add: set_op_def op_fun_def)
    have nz: "a' \<noteq> 0" "b' \<noteq> 0" using gt' by auto
    have IH: "runs_to (mdd_union alloc x y t) t m (X \<union> Y)" if "m + card X + card Y < Suc k + card A' + card B'"
      "ldd_ok t" "prot t x" "prot t y" "den t m x X" "den t m y Y" for m x y X Y t
      using less.hyps[of m X Y t x y] that cd a(1) by simp
    note step = mdd_union_step[where alloc = alloc, OF mem ok a(2) b d'[unfolded a(1)] IH]
    have unf: "mdd_union alloc a b s = (if cache_hit s (hash OP_UNION a' b' mod cache_size s) OP_UNION a' b'
        then ret (op_res (op_cache s (hash OP_UNION a' b' mod cache_size s)), s)
        else rbind (union_body alloc a' b' s) (\<lambda>(tmp, s). ret (tmp, cache_put (hash OP_UNION a' b' mod cache_size s) OP_UNION a' b' tmp s)))"
      using False gt sw unfolding union_body_def by (subst mdd_union.simps) (simp add: Let_def)
    show ?thesis using cached_run[OF ok p nz op(1) d' _ unf] step op(2) AB a(1) by simp
  qed
qed

section \<open>Difference\<close>

definition minus_body :: "(nat \<Rightarrow> bool) \<Rightarrow> nat \<Rightarrow> nat \<Rightarrow> ldd \<Rightarrow> (nat \<times> ldd) result option" where
  "minus_body alloc a b s = (if val s a < val s b then
           rbind (mdd_minus alloc (right s a) b s) (\<lambda>(tmp, s). mdd_create_node alloc (val s a) (down s a) tmp s)
         else if val s a = val s b then
           rbind (mdd_minus alloc (down s a) (down s b) s) (\<lambda>(tmp, s).
           rbind (mdd_push alloc tmp s) (\<lambda>s.
           rbind (mdd_minus alloc (right s a) (right s b) s) (\<lambda>(tmp, s).
           rbind (mdd_pop s) (\<lambda>(d, s). mdd_create_node alloc (val s a) d tmp s))))
         else mdd_minus alloc a (right s b) s)"

lemma mdd_minus_step:
  assumes mem: "\<not> alloc (16 * fib 47)" and ok: "ldd_ok s" and a: "splits s a k A D R" and b: "splits s b k B E Q"
    and dA: "den s (Suc k) a A" and dB: "den s (Suc k) b B"
    and IH: "\<And>m x y X Y t. m + card X + card Y < Suc k + card A + card B \<Longrightarrow> ldd_ok t \<Longrightarrow> prot t x \<Longrightarrow> prot t y \<Longrightarrow> den t m x X
      \<Longrightarrow> den t m y Y \<Longrightarrow> runs_to (mdd_minus alloc x y t) t m (X - Y)"
  shows "runs_to (minus_body alloc a b s) s (Suc k) (A - B)"
proof (rule linorder_cases[of "val s a" "val s b"])
  note da = splitsD[OF a] and db = splitsD[OF b]
  {
    assume lt: "val s a < val s b"
    have "runs_to (mdd_minus alloc (right s a) b s) s (Suc k) (R - B)" using IH[of "Suc k" R B] ok da db dB by simp
    moreover have "\<forall>x \<in> R - B. val s a < hd x" using da(9) by auto
    moreover have "A - B = (#) (val s a) ` D \<union> (R - B)" using da(7) splits_heads(1)[OF b] lt by fastforce
    ultimately show ?thesis unfolding minus_body_def using lt by (auto intro!: runs_to_right[where alloc = alloc, OF mem a])
  next
    assume gt: "val s b < val s a"
    have "runs_to (mdd_minus alloc a (right s b) s) s (Suc k) (A - Q)" using IH[of "Suc k" A Q] ok da db dA by simp
    moreover have "A - B = A - Q" using db(7) splits_heads(1)[OF a] gt by fastforce
    ultimately show ?thesis unfolding minus_body_def using gt by simp
  next
    assume eq: "val s a = val s b"
    have "runs_to (mdd_minus alloc (down s a) (down s b) s) s k (D - E)" using IH[of k D E] ok da db by simp
    moreover have "\<forall>x \<in> R - Q. val s a < hd x" using da(9) by auto
    moreover have "A - B = (#) (val s a) ` (D - E) \<union> (R - Q)" unfolding da(7) db(7) using da(9) db(9) eq by fastforce
    ultimately show ?thesis unfolding minus_body_def using eq IH[of "Suc k" R Q] da db
      by (simp, intro runs_to_both[where alloc = alloc and run = "mdd_minus alloc", OF mem a b]) simp_all
  }
qed

lemma mdd_minus_run:
  assumes mem: "\<not> alloc (16 * fib 47)"
  shows "ldd_ok s \<Longrightarrow> prot s a \<Longrightarrow> prot s b \<Longrightarrow> den s n a A \<Longrightarrow> den s n b B \<Longrightarrow>
    runs_to (mdd_minus alloc a b s) s n (A - B)"
proof (induction "n + card A + card B" arbitrary: s a b n A B rule: less_induct)
  case less
  note ok = less.prems(1) and d = less.prems(4,5) and p = less.prems(2,3)
  show ?case
  proof (cases "a = b \<or> a = 0 \<or> b = 0")
    case True
    have v: "vld s a" "vld s 0" using prot_vld[OF ok] p by (auto simp: vld_def)
    have "a = b \<Longrightarrow> A = B" using d den_fun by blast
    then show ?thesis using True d v ok by (subst mdd_minus.simps) (auto intro!: runs_to_ret)
  next
    case False
    then have gt: "1 < a" "1 < b" and nz: "a \<noteq> 0" "b \<noteq> 0" using both_above[OF d] by auto
    from splitsI[OF d(1) gt(1) p(1)] obtain k D R where a: "n = Suc k" "splits s a k A D R" .
    from splitsI[OF d(2) gt(2) p(2)] a(1) obtain E Q where b: "splits s b k B E Q" by blast
    have op: "set_op OP_MINUS" "op_fun OP_MINUS A B = A - B" by (simp_all add: set_op_def op_fun_def)
    have IH: "runs_to (mdd_minus alloc x y t) t m (X - Y)" if "m + card X + card Y < Suc k + card A + card B"
      "ldd_ok t" "prot t x" "prot t y" "den t m x X" "den t m y Y" for m x y X Y t
      using less.hyps[of m X Y t x y] that a(1) by simp
    note step = mdd_minus_step[where alloc = alloc, OF mem ok a(2) b d[unfolded a(1)] IH]
    have unf: "mdd_minus alloc a b s = (if cache_hit s (hash OP_MINUS a b mod cache_size s) OP_MINUS a b
        then ret (op_res (op_cache s (hash OP_MINUS a b mod cache_size s)), s)
        else rbind (minus_body alloc a b s) (\<lambda>(tmp, s). ret (tmp, cache_put (hash OP_MINUS a b mod cache_size s) OP_MINUS a b tmp s)))"
      using False gt unfolding minus_body_def by (subst mdd_minus.simps) (simp add: Let_def)
    show ?thesis using cached_run[OF ok p nz op(1) d _ unf] step op(2) a(1) by simp
  qed
qed

section \<open>Intersection\<close>

definition intersect_body :: "(nat \<Rightarrow> bool) \<Rightarrow> nat \<Rightarrow> nat \<Rightarrow> ldd \<Rightarrow> (nat \<times> ldd) result option" where
  "intersect_body alloc a b s = (if val s a = val s b then
           rbind (mdd_intersect alloc (down s a) (down s b) s) (\<lambda>(tmp, s).
           rbind (mdd_push alloc tmp s) (\<lambda>s.
           rbind (mdd_intersect alloc (right s a) (right s b) s) (\<lambda>(tmp, s).
           rbind (mdd_pop s) (\<lambda>(d, s). mdd_create_node alloc (val s a) d tmp s))))
         else if val s a < val s b then mdd_intersect alloc (right s a) b s
         else mdd_intersect alloc a (right s b) s)"

lemma mdd_intersect_step:
  assumes mem: "\<not> alloc (16 * fib 47)" and ok: "ldd_ok s" and a: "splits s a k A D R" and b: "splits s b k B E Q"
    and dA: "den s (Suc k) a A" and dB: "den s (Suc k) b B"
    and IH: "\<And>m x y X Y t. m + card X + card Y < Suc k + card A + card B \<Longrightarrow> ldd_ok t \<Longrightarrow> prot t x \<Longrightarrow> prot t y \<Longrightarrow> den t m x X
      \<Longrightarrow> den t m y Y \<Longrightarrow> runs_to (mdd_intersect alloc x y t) t m (X \<inter> Y)"
  shows "runs_to (intersect_body alloc a b s) s (Suc k) (A \<inter> B)"
proof (rule linorder_cases[of "val s a" "val s b"])
  note da = splitsD[OF a] and db = splitsD[OF b]
  {
    assume lt: "val s a < val s b"
    have "runs_to (mdd_intersect alloc (right s a) b s) s (Suc k) (R \<inter> B)" using IH[of "Suc k" R B] ok da db dB by simp
    moreover have "A \<inter> B = R \<inter> B" using da(7) splits_heads(1)[OF b] lt by fastforce
    ultimately show ?thesis unfolding intersect_body_def using lt by simp
  next
    assume gt: "val s b < val s a"
    have "runs_to (mdd_intersect alloc a (right s b) s) s (Suc k) (A \<inter> Q)" using IH[of "Suc k" A Q] ok da db dA by simp
    moreover have "A \<inter> B = A \<inter> Q" using db(7) splits_heads(1)[OF a] gt by fastforce
    ultimately show ?thesis unfolding intersect_body_def using gt by simp
  next
    assume eq: "val s a = val s b"
    have "runs_to (mdd_intersect alloc (down s a) (down s b) s) s k (D \<inter> E)" using IH[of k D E] ok da db by simp
    moreover have "\<forall>x \<in> R \<inter> Q. val s a < hd x" using da(9) by auto
    moreover have "A \<inter> B = (#) (val s a) ` (D \<inter> E) \<union> (R \<inter> Q)" unfolding da(7) db(7) using da(9) db(9) eq by fastforce
    ultimately show ?thesis unfolding intersect_body_def using eq IH[of "Suc k" R Q] da db
      by (simp, intro runs_to_both[where alloc = alloc and run = "mdd_intersect alloc", OF mem a b]) simp_all
  }
qed

lemma mdd_intersect_run:
  assumes mem: "\<not> alloc (16 * fib 47)"
  shows "ldd_ok s \<Longrightarrow> prot s a \<Longrightarrow> prot s b \<Longrightarrow> den s n a A \<Longrightarrow> den s n b B \<Longrightarrow>
    runs_to (mdd_intersect alloc a b s) s n (A \<inter> B)"
proof (induction "n + card A + card B" arbitrary: s a b n A B rule: less_induct)
  case less
  note ok = less.prems(1) and d = less.prems(4,5) and p = less.prems(2,3)
  show ?case
  proof (cases "a = b \<or> a = 0 \<or> b = 0")
    case True
    have v: "vld s a" "vld s 0" using prot_vld[OF ok] p by (auto simp: vld_def)
    have "a = b \<Longrightarrow> A = B" using d den_fun by blast
    then show ?thesis using True d v ok by (subst mdd_intersect.simps) (auto intro!: runs_to_ret)
  next
    case False
    then have gt: "1 < a" "1 < b" and nz: "a \<noteq> 0" "b \<noteq> 0" using both_above[OF d] by auto
    from splitsI[OF d(1) gt(1) p(1)] obtain k D R where a: "n = Suc k" "splits s a k A D R" .
    from splitsI[OF d(2) gt(2) p(2)] a(1) obtain E Q where b: "splits s b k B E Q" by blast
    have op: "set_op OP_INTERSECT" "op_fun OP_INTERSECT A B = A \<inter> B" by (simp_all add: set_op_def op_fun_def)
    have IH: "runs_to (mdd_intersect alloc x y t) t m (X \<inter> Y)" if "m + card X + card Y < Suc k + card A + card B"
      "ldd_ok t" "prot t x" "prot t y" "den t m x X" "den t m y Y" for m x y X Y t
      using less.hyps[of m X Y t x y] that a(1) by simp
    note step = mdd_intersect_step[where alloc = alloc, OF mem ok a(2) b d[unfolded a(1)] IH]
    have unf: "mdd_intersect alloc a b s = (if cache_hit s (hash OP_INTERSECT a b mod cache_size s) OP_INTERSECT a b
        then ret (op_res (op_cache s (hash OP_INTERSECT a b mod cache_size s)), s)
        else rbind (intersect_body alloc a b s) (\<lambda>(tmp, s). ret (tmp, cache_put (hash OP_INTERSECT a b mod cache_size s) OP_INTERSECT a b tmp s)))"
      using False gt unfolding intersect_body_def by (subst mdd_intersect.simps) (simp add: Let_def)
    show ?thesis using cached_run[OF ok p nz op(1) d _ unf] step op(2) a(1) by simp
  qed
qed

end
