(* ===== verification/Ldd_Vec.thy ===== *)
theory Ldd_Vec
  imports Ldd_Ops
begin

text \<open>
  Single vectors in \<^verbatim>\<open>src/src/vset-lib/vset_listdd.c\<close>: membership, adding a vector and enumerating the
  vectors of a node. A vector is a list of values; \<open>len\<close> is the length the caller passes.
\<close>

section \<open>Model\<close>

text \<open>One iteration of the loop in \<^verbatim>\<open>mdd_member\<close> is a call with the same vector, whose length is not 0.\<close>

partial_function (option) mdd_member :: "ldd \<Rightarrow> nat \<Rightarrow> nat list \<Rightarrow> nat \<Rightarrow> nat result option" where
  "mdd_member s mdd vec len =
     (if len = 0 then if mdd > 1 then abort ''non-uniform length'' else ret mdd
      else if mdd > 1 then
        case vec of [] \<Rightarrow> Some (Inl Bad_access)
        | v # vs \<Rightarrow>
          if val s mdd < v then mdd_member s (right s mdd) vec len
          else if val s mdd = v then mdd_member s (down s mdd) vs (len - 1)
          else ret 0
      else ret 0)"

text \<open>The result of \<^verbatim>\<open>mdd_put\<close> comes with the value it stores in \<^verbatim>\<open>*is_new\<close>.\<close>

partial_function (option) mdd_put :: "(nat \<Rightarrow> bool) \<Rightarrow> nat \<Rightarrow> nat list \<Rightarrow> nat \<Rightarrow> ldd \<Rightarrow> (nat \<times> bool \<times> ldd) result option" where
  "mdd_put alloc mdd vec len s =
     (if len = 0 then
        if mdd = 0 then ret (1, True, s)
        else if mdd = 1 then ret (1, False, s)
        else rbind (mdd_put alloc (right s mdd) vec len s) (\<lambda>(tmp, is_new, s).
          if tmp \<noteq> right s mdd then
            rbind (mdd_create_node alloc (val s mdd) (down s mdd) tmp s) (\<lambda>(r, s). ret (r, is_new, s))
          else ret (mdd, is_new, s))
      else case vec of [] \<Rightarrow> Some (Inl Bad_access)
      | v # vs \<Rightarrow>
        if mdd > 1 \<and> val s mdd < v then
          rbind (mdd_put alloc (right s mdd) vec len s) (\<lambda>(r, is_new, s).
            if r = right s mdd then ret (mdd, is_new, s)
            else rbind (mdd_create_node alloc (val s mdd) (down s mdd) r s) (\<lambda>(r, s). ret (r, is_new, s)))
        else if mdd > 1 \<and> val s mdd = v then
          rbind (mdd_put alloc (down s mdd) vs (len - 1) s) (\<lambda>(d, is_new, s).
            if d = down s mdd then ret (mdd, is_new, s)
            else rbind (mdd_create_node alloc (val s mdd) d (right s mdd) s) (\<lambda>(r, s). ret (r, is_new, s)))
        else rbind (mdd_put alloc 0 vs (len - 1) s) (\<lambda>(d, is_new, s).
            rbind (mdd_create_node alloc v d mdd s) (\<lambda>(r, s). ret (r, is_new, s))))"

text \<open>
  The callback of \<^verbatim>\<open>mdd_enum\<close> is called with the vectors of the result, one after the other; \<open>pre\<close> is the
  part of the buffer that is filled, whose length is the argument \<^verbatim>\<open>idx\<close>. The loop over the nodes of a level is a call with
  the next node.
\<close>

partial_function (option) mdd_enum :: "ldd \<Rightarrow> nat \<Rightarrow> nat list \<Rightarrow> nat \<Rightarrow> nat list list result option" where
  "mdd_enum s mdd pre len =
     (if length pre = len then
        if len \<noteq> 0 \<and> mdd \<noteq> 1 then abort ''non-uniform length''
        else if mdd > 1 then abort ''non-uniform length''
        else if mdd \<noteq> 0 then ret [pre] else ret []
      else if mdd > 1 then
        rbind (mdd_enum s (down s mdd) (pre @ [val s mdd]) len) (\<lambda>vs.
        rbind (mdd_enum s (right s mdd) pre len) (\<lambda>ws. ret (vs @ ws)))
      else if mdd \<noteq> 0 then abort ''non-uniform length'' else ret [])"

declare mdd_member.simps [code] mdd_put.simps [code] mdd_enum.simps [code]

section \<open>Membership\<close>

lemma mdd_member_run:
  "den s n i A \<Longrightarrow> length vec = n \<Longrightarrow> mdd_member s i vec n = ret (if vec \<in> A then 1 else 0)"
proof (induction "n + card A" arbitrary: i vec n A rule: less_induct)
  case less
  note d = less.prems(1)
  show ?case
  proof (cases "1 < i")
    case False
    then consider "i = 0" | "i = 1" by linarith
    then show ?thesis
    proof cases
      case 1
      with d show ?thesis by (subst mdd_member.simps) simp
    next
      case 2
      with d less.prems(2) show ?thesis by (subst mdd_member.simps) simp
    qed
  next
    case True
    from den_node[OF d True] obtain m D R where p: "n = Suc m" "den s m (down s i) D" "den s n (right s i) R"
      "A = (#) (val s i) ` D \<union> R" "D \<noteq> {}" "\<forall>x \<in> R. val s i < hd x" by metis
    have c: "card D \<le> card A" "card R < card A" using split_card[of "val s i" D R] den_finite[OF d] p(4-6) by simp_all
    obtain v vs where vec: "vec = v # vs" "length vs = m" using less.prems(2) p(1) by (cases vec) auto
    have R: "v # vs \<in> R \<Longrightarrow> val s i < v" using p(6) by fastforce
    consider "val s i < v" | "val s i = v" | "v < val s i" by linarith
    then show ?thesis
    proof cases
      case 1
      then show ?thesis using less.hyps[of n R "right s i" vec] less.prems(2) c(2) p True vec
        by (subst mdd_member.simps) auto
    next
      case 2
      then show ?thesis using less.hyps[of m D "down s i" vs] c(1) p True vec R
        by (subst mdd_member.simps) auto
    next
      case 3
      then show ?thesis using p True vec R by (subst mdd_member.simps) auto
    qed
  qed
qed

section \<open>Enumeration\<close>

text \<open>The vectors come in lexicographic order, each of them once.\<close>

lemma mdd_enum_list:
  "den s n i A \<Longrightarrow> length pre + n = len \<Longrightarrow> n = 0 \<longrightarrow> len = 0 \<or> A \<noteq> {} \<Longrightarrow>
    \<exists>vs. mdd_enum s i pre len = ret (map ((@) pre) vs) \<and> set vs = A \<and> sorted_wrt (\<lambda>x y. (x, y) \<in> lexord {(a, b). a < b}) vs"
proof (induction "n + card A" arbitrary: i n A pre rule: less_induct)
  case less
  note d = less.prems(1)
  show ?case
  proof (cases "1 < i")
    case False
    then consider "i = 0" | "i = 1" by linarith
    then show ?thesis
    proof cases
      case 1
      with d less.prems show ?thesis by (subst mdd_enum.simps) (auto intro!: exI[of _ "[]"])
    next
      case 2
      with d less.prems show ?thesis by (subst mdd_enum.simps) (auto intro!: exI[of _ "[[]]"])
    qed
  next
    case True
    from den_node[OF d True] obtain m D R where p: "n = Suc m" "den s m (down s i) D" "den s n (right s i) R"
      "A = (#) (val s i) ` D \<union> R" "D \<noteq> {}" "\<forall>x \<in> R. val s i < hd x" "\<forall>x \<in> R. \<exists>y ys. x = y # ys" by metis
    have c: "card D \<le> card A" "card R < card A" using split_card[of "val s i" D R] den_finite[OF d] p(4-6) by simp_all
    from less.hyps[of m D "down s i" "pre @ [val s i]"] c(1) p less.prems(2) obtain vs where
      vs: "mdd_enum s (down s i) (pre @ [val s i]) len = ret (map ((@) (pre @ [val s i])) vs)" "set vs = D"
        "sorted_wrt (\<lambda>x y. (x, y) \<in> lexord {(a, b). a < b}) vs" by auto
    from less.hyps[of n R "right s i" pre] c(2) p less.prems(2) obtain ws where
      ws: "mdd_enum s (right s i) pre len = ret (map ((@) pre) ws)" "set ws = R"
        "sorted_wrt (\<lambda>x y. (x, y) \<in> lexord {(a, b). a < b}) ws" by auto
    have "mdd_enum s i pre len = ret (map ((@) pre) (map ((#) (val s i)) vs @ ws))"
      using True p(1) less.prems(2) vs(1) ws(1) by (subst mdd_enum.simps) simp
    moreover have "sorted_wrt (\<lambda>x y. (x, y) \<in> lexord {(a, b). a < b}) (map ((#) (val s i)) vs @ ws)"
    proof -
      have "(val s i # x, y) \<in> lexord {(a, b). a < b}" if "y \<in> R" for x y
        using p(6,7) that by (cases y) auto
      then show ?thesis using vs(2,3) ws(2,3) by (auto simp: sorted_wrt_append sorted_wrt_map)
    qed
    ultimately show ?thesis using vs(2) ws(2) p(4) by (intro exI[of _ "map ((#) (val s i)) vs @ ws"]) auto
  qed
qed

section \<open>Adding a vector\<close>

definition puts_to :: "(nat \<times> bool \<times> ldd) result option \<Rightarrow> ldd \<Rightarrow> nat \<Rightarrow> nat list set \<Rightarrow> bool \<Rightarrow> bool" where
  "puts_to m s n A new \<longleftrightarrow> no_room m
     \<or> (\<exists>i s'. m = ret (i, new, s') \<and> ldd_ok s' \<and> keeps s s' \<and> vld s' i \<and> den s' n i A)"

lemma puts_to_ret: "ldd_ok s \<Longrightarrow> vld s i \<Longrightarrow> den s n i A \<Longrightarrow> puts_to (ret (i, new, s)) s n A new"
  by (auto simp: puts_to_def keeps_refl)

lemma puts_to_bind:
  assumes "puts_to m s n A new"
    and "\<And>i s'. ldd_ok s' \<Longrightarrow> keeps s s' \<Longrightarrow> vld s' i \<Longrightarrow> den s' n i A \<Longrightarrow> puts_to (f (i, new, s')) s' k B new"
  shows "puts_to (rbind m f) s k B new"
  using assms(1) unfolding puts_to_def[of m]
proof
  assume "no_room m"
  then show ?thesis by (simp add: puts_to_def)
next
  assume "\<exists>i s'. m = ret (i, new, s') \<and> ldd_ok s' \<and> keeps s s' \<and> vld s' i \<and> den s' n i A"
  then obtain i s' where i: "m = ret (i, new, s')" "ldd_ok s'" "keeps s s'" "vld s' i" "den s' n i A" by blast
  with assms(2) have "puts_to (f (i, new, s')) s' k B new" by blast
  then show ?thesis using i(1,3) keeps_trans[of s s'] by (auto simp: puts_to_def)
qed

lemma puts_to_create:
  assumes "ldd_ok s" and "\<not> alloc (16 * fib 47)" and "vld s d" and "vld s r"
    and "den s n d D" and "den s (Suc n) r R" and "\<forall>x \<in> R. v < hd x" and "A = (#) v ` D \<union> R"
  shows "puts_to (rbind (mdd_create_node alloc v d r s) (\<lambda>(r, s). ret (r, new, s))) s (Suc n) A new"
  using mdd_create_node_den[where alloc = alloc, OF assms(1-7)] assms(8) by (auto simp: puts_to_def)

text \<open>The three branches: the vector goes to the right, down, or before the node.\<close>

lemma puts_to_right:
  assumes mem: "\<not> alloc (16 * fib 47)" and sp: "splits s i m A D R" and d: "den s (Suc m) i A"
    and ih: "puts_to M s (Suc m) (insert vec R) new" and v: "vec = v # vs" "val s i < v"
  shows "puts_to (rbind M (\<lambda>(r, is_new, s). if r = right s i then ret (i, is_new, s)
      else rbind (mdd_create_node alloc (val s i) (down s i) r s) (\<lambda>(r, s). ret (r, is_new, s)))) s (Suc m) (insert vec A) new"
proof (rule puts_to_bind[OF ih], simp only: prod.case)
  fix j s' assume s': "ldd_ok s'" "keeps s s'" "vld s' j" "den s' (Suc m) j (insert vec R)"
  note sd = splitsD[OF sp] and sp' = splitsD[OF splits_keeps[OF sp s'(2)]] and f = splits_fields[OF sp s'(2)]
  have "insert vec A = (#) (val s i) ` D \<union> insert vec R" "\<forall>x \<in> insert vec R. val s i < hd x" using sd(7,9) v by auto
  moreover have "insert vec A = A" if "j = right s' i" using den_fun[OF s'(4)] sp'(6,7) that by auto
  moreover have "vld s' i" "den s' (Suc m) i A" using prot_vld[OF s'(1) sp'(2)] keeps_den[OF s'(2) sd(2)] d by simp_all
  moreover have "vld s' (down s' i)" using prot_vld[OF s'(1) sp'(3)] .
  ultimately show "puts_to (if j = right s' i then ret (i, new, s')
     else rbind (mdd_create_node alloc (val s' i) (down s' i) j s') (\<lambda>(r, s). ret (r, new, s))) s' (Suc m) (insert vec A) new"
    using s' f sp'(5) by (auto intro!: puts_to_ret puts_to_create[where alloc = alloc, OF s'(1) mem, of _ _ m D "insert vec R"])
qed

lemma puts_to_down:
  assumes mem: "\<not> alloc (16 * fib 47)" and sp: "splits s i m A D R" and d: "den s (Suc m) i A"
    and ih: "puts_to M s m (insert vs D) new" and v: "vec = val s i # vs"
  shows "puts_to (rbind M (\<lambda>(d, is_new, s). if d = down s i then ret (i, is_new, s)
      else rbind (mdd_create_node alloc (val s i) d (right s i) s) (\<lambda>(r, s). ret (r, is_new, s)))) s (Suc m) (insert vec A) new"
proof (rule puts_to_bind[OF ih], simp only: prod.case)
  fix j s' assume s': "ldd_ok s'" "keeps s s'" "vld s' j" "den s' m j (insert vs D)"
  note sd = splitsD[OF sp] and sp' = splitsD[OF splits_keeps[OF sp s'(2)]] and f = splits_fields[OF sp s'(2)]
  have "insert vec A = (#) (val s i) ` insert vs D \<union> R" using sd(7) v by auto
  moreover have "insert vec A = A" if "j = down s' i" using den_fun[OF s'(4)] sp'(5) sd(7) v that by auto
  moreover have "vld s' i" "den s' (Suc m) i A" using prot_vld[OF s'(1) sp'(2)] keeps_den[OF s'(2) sd(2)] d by simp_all
  moreover have "vld s' (right s' i)" using prot_vld[OF s'(1) sp'(4)] .
  ultimately show "puts_to (if j = down s' i then ret (i, new, s')
     else rbind (mdd_create_node alloc (val s' i) j (right s' i) s') (\<lambda>(r, s). ret (r, new, s))) s' (Suc m) (insert vec A) new"
    using s' f sp'(6,9) by (auto intro!: puts_to_ret puts_to_create[where alloc = alloc, OF s'(1) mem, of _ _ m "insert vs D" R])
qed

lemma puts_to_before:
  assumes mem: "\<not> alloc (16 * fib 47)" and pr: "prot s i" and d: "den s (Suc m) i A" and hd: "\<forall>x \<in> A. v < hd x"
    and ih: "puts_to M s m {vs} True"
  shows "puts_to (rbind M (\<lambda>(d, is_new, s). rbind (mdd_create_node alloc v d i s) (\<lambda>(r, s). ret (r, is_new, s)))) s (Suc m) (insert (v # vs) A) True"
proof (rule puts_to_bind[OF ih], simp only: prod.case)
  fix j s' assume s': "ldd_ok s'" "keeps s s'" "vld s' j" "den s' m j {vs}"
  have "vld s' i" "den s' (Suc m) i A" using prot_vld[OF s'(1)] keeps_prot[OF s'(2)] keeps_den[OF s'(2) pr] pr d by simp_all
  then show "puts_to (rbind (mdd_create_node alloc v j i s') (\<lambda>(r, s). ret (r, True, s))) s' (Suc m) (insert (v # vs) A) True"
    using s' hd by (intro puts_to_create[where alloc = alloc, OF s'(1) mem, of j i m "{vs}" A]) simp_all
qed

lemma mdd_put_run:
  assumes mem: "\<not> alloc (16 * fib 47)"
  shows "ldd_ok s \<Longrightarrow> prot s i \<Longrightarrow> den s n i A \<Longrightarrow> length vec = n \<Longrightarrow>
    puts_to (mdd_put alloc i vec n s) s n (insert vec A) (vec \<notin> A)"
proof (induction "n + card A" arbitrary: s i vec n A rule: less_induct)
  case less
  note ok = less.prems(1) and pr = less.prems(2) and d = less.prems(3)
  show ?case
  proof (cases n)
    case 0
    then have "i = 0 \<or> i = 1" using den_node[OF d] by (metis Zero_not_Suc less_one linorder_neqE_nat)
    then show ?thesis using 0 d less.prems(4) ok
      by (subst mdd_put.simps) (auto intro!: puts_to_ret simp: vld_def)
  next
    case (Suc m)
    then obtain v vs where vec: "vec = v # vs" "length vs = m" using less.prems(4) by (cases vec) auto
    note d' = d[unfolded Suc]
    have before: ?thesis if lo: "\<not> (1 < i \<and> val s i \<le> v)" and hd: "\<forall>x \<in> A. v < hd x"
    proof -
      have ih: "puts_to (mdd_put alloc 0 vs m s) s m {vs} True"
        using less.hyps[of m "{}" s 0 vs] Suc ok vec by simp
      have "mdd_put alloc i vec n s = rbind (mdd_put alloc 0 vs m s) (\<lambda>(d, is_new, s).
            rbind (mdd_create_node alloc v d i s) (\<lambda>(r, s). ret (r, is_new, s)))"
        using Suc vec lo by (subst mdd_put.simps) auto
      moreover have "vec \<notin> A" using hd vec by auto
      ultimately show ?thesis using puts_to_before[where alloc = alloc, OF mem pr d' hd ih] vec Suc by simp
    qed
    show ?thesis
    proof (cases "1 < i")
      case False
      then have "A = {}" using d Suc by (cases i) auto
      with before False show ?thesis by simp
    next
      case True
      from splitsI[OF d True pr] Suc obtain D R where sp: "splits s i m A D R" by blast
      note sd = splitsD[OF sp]
      consider "val s i < v" | "val s i = v" | "v < val s i" by linarith
      then show ?thesis
      proof cases
        case 1
        have ih: "puts_to (mdd_put alloc (right s i) vec n s) s (Suc m) (insert vec R) (vec \<notin> R)"
          using less.hyps[of n R s "right s i" vec] sd ok less.prems(4) Suc by simp
        have "vec \<in> A \<longleftrightarrow> vec \<in> R" using sd(7) 1 vec by auto
        then show ?thesis using puts_to_right[where alloc = alloc, OF mem sp d' ih vec(1) 1] Suc vec 1 True
          by (subst mdd_put.simps) simp
      next
        case 2
        have ih: "puts_to (mdd_put alloc (down s i) vs m s) s m (insert vs D) (vs \<notin> D)"
          using less.hyps[of m D s "down s i" vs] sd ok vec Suc by simp
        have "vec \<notin> R" using sd(9) 2 vec by auto
        then have "vec \<in> A \<longleftrightarrow> vs \<in> D" using sd(7) 2 vec by auto
        then show ?thesis using puts_to_down[where alloc = alloc, OF mem sp d' ih vec(1)[folded 2]] Suc vec 2 True
          by (subst mdd_put.simps) simp
      next
        case 3
        then show ?thesis using before splits_heads(1)[OF sp] by fastforce
      qed
    qed
  qed
qed

end
