(* ===== verification/Ldd_Sets.thy ===== *)
theory Ldd_Sets
  imports Ldd_Vec
begin

text \<open>
  The vector sets of \<^verbatim>\<open>src/src/vset-lib/vset_listdd.c\<close>, the objects that the rest of the tool works with: each
  has a node, a projection and the length of its vectors, and stands in the list that the collector marks from. A
  set is named by an identifier, its address; an operation on an address that is not in the list is an access to freed memory. The allocation of the object itself
  is taken to succeed.
\<close>

section \<open>Model\<close>

definition get_set :: "ldd \<Rightarrow> nat \<Rightarrow> vector_set option" where
  "get_set s i = map_of (protected_sets s) i"

definition upd_set :: "nat \<Rightarrow> (vector_set \<Rightarrow> vector_set) \<Rightarrow> ldd \<Rightarrow> ldd" where
  "upd_set i f s = s\<lparr>protected_sets := map (\<lambda>(j, v). (j, if j = i then f v else v)) (protected_sets s)\<rparr>"

definition with_set :: "ldd \<Rightarrow> nat \<Rightarrow> (vector_set \<Rightarrow> 'a result option) \<Rightarrow> 'a result option" where
  "with_set s i f = (case get_set s i of None \<Rightarrow> Some (Inl Bad_access) | Some v \<Rightarrow> f v)"

definition u32_of_int :: "int \<Rightarrow> nat" where
  "u32_of_int i = nat (i mod 2 ^ 32)"

text \<open>The loop over the projection in \<^verbatim>\<open>set_create_mdd\<close>, from its last entry to its first.\<close>

fun create_proj :: "(nat \<Rightarrow> bool) \<Rightarrow> nat \<Rightarrow> int list \<Rightarrow> ldd \<Rightarrow> ldd result option" where
  "create_proj alloc i [] s = ret s"
| "create_proj alloc i (p # ps) s =
     (let s = upd_set i (\<lambda>v. v\<lparr>vs_proj := p # vs_proj v\<rparr>) s
      in with_set s i (\<lambda>v. rbind (mdd_create_node alloc (u32_of_int p) (vs_p_id v) 0 s)
           (\<lambda>(r, s). create_proj alloc i ps (upd_set i (\<lambda>v. v\<lparr>vs_p_id := r\<rparr>) s))))"

definition set_create_mdd :: "(nat \<Rightarrow> bool) \<Rightarrow> nat \<Rightarrow> nat \<Rightarrow> int \<Rightarrow> int list \<Rightarrow> ldd \<Rightarrow> ldd result option" where
  "set_create_mdd alloc i sz k proj s =
     (if \<not> k \<le> int sz then Some (Inl Assert_fail)
      else let v = \<lparr>vs_size = sz, vs_mdd = 0, vs_p_id = 1, vs_p_len = k, vs_proj = []\<rparr>;
               s = s\<lparr>protected_sets := (i, v) # protected_sets s\<rparr>
           in create_proj alloc i (rev (take (nat k) proj)) s)"

definition set_destroy_mdd :: "nat \<Rightarrow> ldd \<Rightarrow> ldd result option" where
  "set_destroy_mdd i s = with_set s i (\<lambda>v. ret (s\<lparr>protected_sets := filter (\<lambda>(j, v). j \<noteq> i) (protected_sets s)\<rparr>))"

definition vset_len :: "vector_set \<Rightarrow> nat" where
  "vset_len v = (if vs_p_len v < 0 then vs_size v else nat (vs_p_len v))"

lemma vset_len_upd [simp]:
  "vset_len (v\<lparr>vs_mdd := r\<rparr>) = vset_len v" "vset_len (v\<lparr>vs_p_id := r\<rparr>) = vset_len v" "vset_len (v\<lparr>vs_proj := ps\<rparr>) = vset_len v"
  by (simp_all add: vset_len_def)

definition set_add_mdd :: "(nat \<Rightarrow> bool) \<Rightarrow> nat \<Rightarrow> int list \<Rightarrow> ldd \<Rightarrow> ldd result option" where
  "set_add_mdd alloc i e s = with_set s i (\<lambda>v.
     rbind (mdd_put alloc (vs_mdd v) (map u32_of_int e) (vset_len v) s)
       (\<lambda>(r, is_new, s). ret (upd_set i (\<lambda>v. v\<lparr>vs_mdd := r\<rparr>) s)))"

definition set_is_empty_mdd :: "nat \<Rightarrow> ldd \<Rightarrow> bool result option" where
  "set_is_empty_mdd i s = with_set s i (\<lambda>v. ret (vs_mdd v = 0))"

definition set_equal_mdd :: "nat \<Rightarrow> nat \<Rightarrow> ldd \<Rightarrow> bool result option" where
  "set_equal_mdd i j s = with_set s i (\<lambda>v. with_set s j (\<lambda>w. ret (vs_mdd v = vs_mdd w)))"

definition set_clear_mdd :: "nat \<Rightarrow> ldd \<Rightarrow> ldd result option" where
  "set_clear_mdd i s = with_set s i (\<lambda>v. ret (upd_set i (\<lambda>v. v\<lparr>vs_mdd := 0\<rparr>) s))"

definition set_copy_mdd :: "nat \<Rightarrow> nat \<Rightarrow> ldd \<Rightarrow> ldd result option" where
  "set_copy_mdd dst src s = with_set s dst (\<lambda>v. with_set s src (\<lambda>w.
     if vs_p_id v \<noteq> vs_p_id w then Some (Inl Assert_fail)
     else ret (upd_set dst (\<lambda>v. v\<lparr>vs_mdd := vs_mdd w\<rparr>) s)))"

definition set_enum_mdd :: "nat \<Rightarrow> ldd \<Rightarrow> nat list list result option" where
  "set_enum_mdd i s = with_set s i (\<lambda>v. mdd_enum s (vs_mdd v) [] (vset_len v))"

definition set_member_mdd :: "nat \<Rightarrow> int list \<Rightarrow> ldd \<Rightarrow> nat result option" where
  "set_member_mdd i e s = with_set s i (\<lambda>v. mdd_member s (vs_mdd v) (map u32_of_int e) (vset_len v))"

definition set_union_mdd :: "(nat \<Rightarrow> bool) \<Rightarrow> nat \<Rightarrow> nat \<Rightarrow> ldd \<Rightarrow> ldd result option" where
  "set_union_mdd alloc dst src s = with_set s dst (\<lambda>v. with_set s src (\<lambda>w.
     if vs_p_id v \<noteq> vs_p_id w then Some (Inl Assert_fail)
     else rbind (mdd_union alloc (vs_mdd v) (vs_mdd w) s) (\<lambda>(r, s). ret (upd_set dst (\<lambda>v. v\<lparr>vs_mdd := r\<rparr>) s))))"

definition set_minus_mdd :: "(nat \<Rightarrow> bool) \<Rightarrow> nat \<Rightarrow> nat \<Rightarrow> ldd \<Rightarrow> ldd result option" where
  "set_minus_mdd alloc dst src s = with_set s dst (\<lambda>v. with_set s src (\<lambda>w.
     if vs_p_id v \<noteq> vs_p_id w \<or> vs_p_len v \<noteq> vs_p_len w then Some (Inl Assert_fail)
     else rbind (mdd_minus alloc (vs_mdd v) (vs_mdd w) s) (\<lambda>(r, s). ret (upd_set dst (\<lambda>v. v\<lparr>vs_mdd := r\<rparr>) s))))"

definition set_intersect_mdd :: "(nat \<Rightarrow> bool) \<Rightarrow> nat \<Rightarrow> nat \<Rightarrow> ldd \<Rightarrow> ldd result option" where
  "set_intersect_mdd alloc dst src s = with_set s dst (\<lambda>v. with_set s src (\<lambda>w.
     if vs_p_id v \<noteq> vs_p_id w then Some (Inl Assert_fail)
     else rbind (mdd_intersect alloc (vs_mdd v) (vs_mdd w) s) (\<lambda>(r, s). ret (upd_set dst (\<lambda>v. v\<lparr>vs_mdd := r\<rparr>) s))))"

text \<open>The loop of \<^verbatim>\<open>set_example_mdd\<close>: the leftmost vector.\<close>

fun example_loop :: "ldd \<Rightarrow> nat \<Rightarrow> nat \<Rightarrow> nat list result option" where
  "example_loop s mdd 0 = (if mdd \<noteq> 1 then abort ''non-uniform length'' else ret [])"
| "example_loop s mdd (Suc n) = (if mdd = 1 then abort ''non-uniform length''
     else rbind (example_loop s (down s mdd) n) (\<lambda>e. ret (val s mdd # e)))"

definition set_example_mdd :: "nat \<Rightarrow> ldd \<Rightarrow> nat list result option" where
  "set_example_mdd i s = with_set s i (\<lambda>v. if vs_mdd v = 0 then abort ''empty set'' else example_loop s (vs_mdd v) (vset_len v))"

section \<open>What a set contains\<close>

definition set_has :: "ldd \<Rightarrow> nat \<Rightarrow> nat \<Rightarrow> nat list set \<Rightarrow> bool" where
  "set_has s i n A \<longleftrightarrow> (\<exists>v. get_set s i = Some v \<and> vset_len v = n \<and> den s n (vs_mdd v) A)"

definition sets_ok :: "ldd \<Rightarrow> bool" where
  "sets_ok s \<longleftrightarrow> ldd_ok s \<and> distinct (map fst (protected_sets s)) \<and>
     (\<forall>i v. get_set s i = Some v \<longrightarrow> (\<exists>A. den s (vset_len v) (vs_mdd v) A))"

lemma set_has_fun: "set_has s i n A \<Longrightarrow> set_has s i m B \<Longrightarrow> n = m \<and> A = B"
  unfolding set_has_def by (metis option.inject den_fun)

lemma gc_roots_iff: "i \<in> set (gc_roots s) \<longleftrightarrow> (\<exists>j v. (j, v) \<in> set (protected_sets s) \<and> (i = vs_mdd v \<or> i = vs_p_id v))
    \<or> (\<exists>j v. (j, v) \<in> set (protected_rels s) \<and> (i = vs_mdd v \<or> i = vs_p_id v)) \<or> i \<in> set (mdd_stack s) \<or> i \<in> set (mdd_load_node_ids s)"
proof -
  have "i \<in> set (concat (map (\<lambda>(j, v). [vs_mdd v, vs_p_id v]) xs)) \<longleftrightarrow> (\<exists>j v. (j, v) \<in> set xs \<and> (i = vs_mdd v \<or> i = vs_p_id v))" for xs :: "(nat \<times> vector_set) list"
    by (induction xs) auto
  then show ?thesis unfolding gc_roots_def set_append Un_iff by simp
qed

lemma protected_vld:
  assumes "ldd_ok s" and "(j, v) \<in> set (protected_sets s) \<union> set (protected_rels s)"
  shows "vld s (vs_mdd v) \<and> vld s (vs_p_id v)"
proof -
  have "vs_mdd v \<in> set (gc_roots s)" "vs_p_id v \<in> set (gc_roots s)" using assms(2) by (auto simp: gc_roots_iff)
  with assms(1) show ?thesis by (simp add: ldd_ok_def)
qed

lemma set_prot:
  assumes "get_set s i = Some v"
  shows "prot s (vs_mdd v)" and "prot s (vs_p_id v)"
proof -
  have "(i, v) \<in> set (protected_sets s)" using assms by (auto simp: get_set_def dest: map_of_SomeD)
  then have "vs_mdd v \<in> set (gc_roots s)" "vs_p_id v \<in> set (gc_roots s)" by (auto simp: gc_roots_iff)
  then show "prot s (vs_mdd v)" "prot s (vs_p_id v)" by (simp_all add: prot_root)
qed

lemma nodes_get_set: "keeps_nodes s s' \<Longrightarrow> get_set s' i = get_set s i"
  by (simp add: keeps_nodes_def same_roots_def get_set_def)

lemma nodes_set_has: "keeps_nodes s s' \<Longrightarrow> set_has s' i n A = set_has s i n A"
  using set_prot(1) by (auto simp: set_has_def nodes_get_set keeps_nodes_den)

text \<open>Changing the lists of protected objects keeps the nodes; the new roots must be valid.\<close>

lemma change_roots:
  assumes ok: "ldd_ok s" and s': "s' = s\<lparr>protected_sets := xs, protected_rels := ys\<rparr>"
    and v: "\<forall>(i, v) \<in> set xs \<union> set ys. vld s (vs_mdd v) \<and> vld s (vs_p_id v)"
  shows "ldd_ok s'" and "den s' n i A = den s n i A" and "vld s' i = vld s i"
proof -
  have nt: "node_table s' = node_table s" by (simp add: s')
  have rep: "repr s' i t = repr s i t" for i t by (induction t arbitrary: i) (simp_all add: nt)
  then have dn: "den s' n i A = den s n i A" for n i A by (simp add: den_def)
  have us: "used s' = used s" by (simp add: used_def s')
  then have vl: "vld s' i = vld s i" for i by (simp add: vld_def)
  show "den s' n i A = den s n i A" "vld s' i = vld s i" by (rule dn, rule vl)
  have "entry_ok s' e = entry_ok s e" for e by (simp add: entry_ok_def vl dn)
  moreover have "tables s' B F = tables s B F" for B F by (simp add: tables_def slot_of_node_def s')
  moreover have "nodes_ok s' = nodes_ok s" by (simp add: nodes_ok_def us vl rep nt)
  moreover have "sizes_ok s' = sizes_ok s" "cache_size s' = cache_size s" "op_cache s' = op_cache s" by (simp_all add: s' sizes_ok_def)
  moreover have "vld s i" if "i \<in> set (gc_roots s')" for i
  proof (cases "i \<in> set (gc_roots s)")
    case True
    then show ?thesis using ok by (simp add: ldd_ok_def)
  next
    case False
    then have "\<exists>j v. (j, v) \<in> set xs \<union> set ys \<and> (i = vs_mdd v \<or> i = vs_p_id v)" using that by (auto simp: s' gc_roots_iff)
    then show ?thesis using v by fastforce
  qed
  ultimately show "ldd_ok s'" using ok by (auto simp: ldd_ok_def vl)
qed

lemma change_sets:
  assumes ok: "ldd_ok s" and s': "s' = s\<lparr>protected_sets := xs\<rparr>" and v: "\<forall>(i, v) \<in> set xs. vld s (vs_mdd v) \<and> vld s (vs_p_id v)"
  shows "ldd_ok s'" and "den s' n i A = den s n i A" and "vld s' i = vld s i"
proof -
  have eq: "s' = s\<lparr>protected_sets := xs, protected_rels := protected_rels s\<rparr>" by (simp add: s')
  have "\<forall>(i, v) \<in> set xs \<union> set (protected_rels s). vld s (vs_mdd v) \<and> vld s (vs_p_id v)" using v protected_vld[OF ok] by blast
  note c = change_roots[OF ok eq this]
  show "ldd_ok s'" "den s' n i A = den s n i A" "vld s' i = vld s i" by (rule c)+
qed

lemma get_upd_set: "get_set (upd_set i f s) j = (if j = i then map_option f (get_set s i) else get_set s j)"
proof -
  have "map_of (map (\<lambda>(k, v). (k, if k = i then f v else v)) xs) j = (if j = i then map_option f (map_of xs i) else map_of xs j)" for xs
    by (induction xs) auto
  then show ?thesis by (simp add: get_set_def upd_set_def)
qed

lemma upd_set_fst [simp]: "map fst (protected_sets (upd_set i f s)) = map fst (protected_sets s)"
  by (simp add: upd_set_def case_prod_beta comp_def)

text \<open>Changing the node or the projection of a set.\<close>

lemma set_change:
  assumes ok: "sets_ok s" and v: "get_set s i = Some v" and f: "vld s (vs_mdd (f v))" "vld s (vs_p_id (f v))" "vset_len (f v) = vset_len v"
    and d: "den s (vset_len v) (vs_mdd (f v)) A"
  shows "sets_ok (upd_set i f s)" and "set_has (upd_set i f s) i (vset_len v) A"
    and "j \<noteq> i \<Longrightarrow> set_has (upd_set i f s) j n B = set_has s j n B"
proof -
  define s' where "s' = upd_set i f s"
  define xs where "xs = map (\<lambda>(j, v). (j, if j = i then f v else v)) (protected_sets s)"
  have eq: "s' = s\<lparr>protected_sets := xs\<rparr>" by (simp add: s'_def upd_set_def xs_def)
  have lok: "ldd_ok s" and dis: "distinct (map fst (protected_sets s))" using ok by (simp_all add: sets_ok_def)
  have "w = v" if "(i, w) \<in> set (protected_sets s)" for w
    using that v dis by (auto simp: get_set_def dest: map_of_is_SomeI)
  then have "\<forall>(j, w) \<in> set xs. vld s (vs_mdd w) \<and> vld s (vs_p_id w)" using f protected_vld[OF lok, OF UnI1] by (fastforce simp: xs_def)
  note ch = change_sets[OF lok eq this]
  have g: "get_set s' j = (if j = i then Some (f v) else get_set s j)" for j
    using v by (simp add: s'_def get_upd_set)
  have "\<exists>A. den s' (vset_len w) (vs_mdd w) A" if "get_set s' j = Some w" for j w
    using that ok d g[of j] f(3) ch(2) by (auto simp: sets_ok_def split: if_splits)
  moreover have "distinct (map fst (protected_sets s'))" using dis by (simp add: s'_def)
  ultimately have "sets_ok s'" using ch(1) by (simp add: sets_ok_def)
  then show "sets_ok (upd_set i f s)" by (simp add: s'_def)
  show "set_has (upd_set i f s) i (vset_len v) A"
    using g[of i] f(3) d ch(2) by (simp add: set_has_def s'_def[symmetric])
  show "j \<noteq> i \<Longrightarrow> set_has (upd_set i f s) j n B = set_has s j n B"
    using g[of j] ch(2) by (simp add: set_has_def s'_def[symmetric])
qed

lemma set_node:
  assumes "sets_ok s" and "get_set s i = Some v" and "vld s r" and "den s (vset_len v) r A"
  shows "sets_ok (upd_set i (\<lambda>v. v\<lparr>vs_mdd := r\<rparr>) s)" and "set_has (upd_set i (\<lambda>v. v\<lparr>vs_mdd := r\<rparr>) s) i (vset_len v) A"
    and "j \<noteq> i \<Longrightarrow> set_has (upd_set i (\<lambda>v. v\<lparr>vs_mdd := r\<rparr>) s) j n B = set_has s j n B"
proof -
  have "vld s (vs_p_id v)" using assms(1) set_prot(2)[OF assms(2)] prot_vld by (auto simp: sets_ok_def)
  then have f: "vld s (vs_mdd (v\<lparr>vs_mdd := r\<rparr>))" "vld s (vs_p_id (v\<lparr>vs_mdd := r\<rparr>))" "vset_len (v\<lparr>vs_mdd := r\<rparr>) = vset_len v"
    "den s (vset_len v) (vs_mdd (v\<lparr>vs_mdd := r\<rparr>)) A" using assms(3,4) by (simp_all add: vset_len_def)
  note c = set_change[OF assms(1,2), of "\<lambda>v. v\<lparr>vs_mdd := r\<rparr>", OF f]
  show "sets_ok (upd_set i (\<lambda>v. v\<lparr>vs_mdd := r\<rparr>) s)" and "set_has (upd_set i (\<lambda>v. v\<lparr>vs_mdd := r\<rparr>) s) i (vset_len v) A"
    and "j \<noteq> i \<Longrightarrow> set_has (upd_set i (\<lambda>v. v\<lparr>vs_mdd := r\<rparr>) s) j n B = set_has s j n B"
    by (rule c)+
qed

lemma nodes_sets_ok:
  assumes "sets_ok s" and "keeps_nodes s s'" and "ldd_ok s'"
  shows "sets_ok s'"
  using assms set_prot(1)[of s] keeps_nodes_den[OF assms(2)] nodes_get_set[OF assms(2)]
  by (auto simp: sets_ok_def keeps_nodes_def same_roots_def)

lemmas keeps_get_set = nodes_get_set[OF keeps_keeps_nodes]
lemmas keeps_set_has = nodes_set_has[OF keeps_keeps_nodes]
lemmas keeps_sets_ok = nodes_sets_ok[OF _ keeps_keeps_nodes]

text \<open>The outcome of an operation that changes the set \<open>i\<close> to \<open>A\<close> and no other.\<close>

definition sets_to :: "ldd result option \<Rightarrow> ldd \<Rightarrow> nat \<Rightarrow> nat \<Rightarrow> nat list set \<Rightarrow> bool" where
  "sets_to m s i n A \<longleftrightarrow> no_room m \<or> (\<exists>s'. m = ret s' \<and> sets_ok s' \<and> set_has s' i n A
     \<and> (\<forall>j m B. j \<noteq> i \<longrightarrow> set_has s' j m B = set_has s j m B))"

text \<open>How all of them do it but creation and destruction: they compute a node for \<open>A\<close> and make it the node of the set.\<close>

definition updates_to :: "ldd result option \<Rightarrow> ldd \<Rightarrow> nat \<Rightarrow> nat list set \<Rightarrow> bool" where
  "updates_to m s i A \<longleftrightarrow> no_room m \<or> (\<exists>t r v. m = ret (upd_set i (\<lambda>v. v\<lparr>vs_mdd := r\<rparr>) t) \<and> ldd_ok t \<and> keeps s t \<and> vld t r
     \<and> get_set s i = Some v \<and> den t (vset_len v) r A)"

lemma updates_toI:
  "get_set s i = Some v \<Longrightarrow> ldd_ok t \<Longrightarrow> keeps s t \<Longrightarrow> vld t r \<Longrightarrow> den t (vset_len v) r A \<Longrightarrow> updates_to (ret (upd_set i (\<lambda>v. v\<lparr>vs_mdd := r\<rparr>) t)) s i A"
  unfolding updates_to_def by blast

lemma updates_sets_to:
  assumes ok: "sets_ok s" and v: "get_set s i = Some v" and m: "updates_to m s i A"
  shows "sets_to m s i (vset_len v) A"
  using m unfolding updates_to_def
proof
  assume "no_room m"
  then show ?thesis by (simp add: sets_to_def)
next
  assume "\<exists>t r w. m = ret (upd_set i (\<lambda>v. v\<lparr>vs_mdd := r\<rparr>) t) \<and> ldd_ok t \<and> keeps s t \<and> vld t r \<and> get_set s i = Some w \<and> den t (vset_len w) r A"
  then obtain t r where t: "m = ret (upd_set i (\<lambda>v. v\<lparr>vs_mdd := r\<rparr>) t)" "ldd_ok t" "keeps s t" "vld t r" "den t (vset_len v) r A" using v by auto
  then show ?thesis using set_node[OF keeps_sets_ok[OF ok t(3,2)], of i v r A] v keeps_get_set[OF t(3)] keeps_set_has[OF t(3)]
    by (auto simp: sets_to_def)
qed

section \<open>Operations on two sets\<close>

text \<open>
  An operation on nodes that computes \<open>F\<close> on sets of vectors, and the operation on set objects that is built from it.
\<close>

locale node_operation =
  fixes run :: "nat \<Rightarrow> nat \<Rightarrow> ldd \<Rightarrow> (nat \<times> ldd) result option"
    and F :: "nat list set \<Rightarrow> nat list set \<Rightarrow> nat list set"
  assumes run_correct: "ldd_ok s \<Longrightarrow> prot s a \<Longrightarrow> prot s b \<Longrightarrow> den s n a A \<Longrightarrow> den s n b B \<Longrightarrow> runs_to (run a b s) s n (F A B)"
begin

lemma on_sets:
  assumes ok: "sets_ok s" and v: "get_set s dst = Some v" "get_set s src = Some w"
    and d: "set_has s dst n A" "set_has s src n B"
  shows "updates_to (rbind (run (vs_mdd v) (vs_mdd w) s) (\<lambda>(r, s). ret (upd_set dst (\<lambda>v. v\<lparr>vs_mdd := r\<rparr>) s))) s dst (F A B)"
proof -
  have n: "n = vset_len v" "den s n (vs_mdd v) A" "den s n (vs_mdd w) B" using d v by (auto simp: set_has_def)
  have lok: "ldd_ok s" using ok by (simp add: sets_ok_def)
  from run_correct[OF lok set_prot(1)[OF v(1)] set_prot(1)[OF v(2)] n(2,3)]
  consider "no_room (run (vs_mdd v) (vs_mdd w) s)"
    | i s' where "run (vs_mdd v) (vs_mdd w) s = ret (i, s')" "ldd_ok s'" "keeps s s'" "vld s' i" "den s' n i (F A B)"
    by (auto simp: runs_to_def)
  then show ?thesis
  proof cases
    case 1
    then show ?thesis by (simp add: updates_to_def)
  next
    case (2 i s')
    then show ?thesis using updates_toI[OF v(1) 2(2-4)] n(1) by simp
  qed
qed

text \<open>The result does not depend on the order of the arguments when \<open>F\<close> is commutative.\<close>

lemma run_commute:
  assumes com: "\<And>A B. F A B = F B A" and ok: "ldd_ok s" and p: "prot s a" "prot s b" and d: "den s n a A" "den s n b B"
    and r: "run a b s = ret (i, t)" "run b a s = ret (j, u)"
  shows "\<exists>C. den t n i C \<and> den u n j C"
  using run_correct[OF ok p d] run_correct[OF ok p(2,1) d(2,1)] r com[of A B] by (auto simp: runs_to_def no_room_def)

end

text \<open>
  The three operations implement it when an allocation for the 47th step of the tables fails, which is what \<open>bounded\<close> says
  for an arbitrary allocator.
\<close>

definition bounded :: "(nat \<Rightarrow> bool) \<Rightarrow> nat \<Rightarrow> bool" where
  "bounded alloc n \<longleftrightarrow> alloc n \<and> n \<noteq> 16 * fib 47"

lemma bounded_eq: "\<not> alloc (16 * fib 47) \<Longrightarrow> bounded alloc = alloc"
  by (auto simp: bounded_def fun_eq_iff)

lemma bounded_mem: "\<not> bounded alloc (16 * fib 47)"
  by (simp add: bounded_def)

interpretation nu: node_operation "mdd_union (bounded alloc)" "(\<union>)" for alloc
  by unfold_locales (rule mdd_union_run, rule bounded_mem)

interpretation nm: node_operation "mdd_minus (bounded alloc)" "(-)" for alloc
  by unfold_locales (rule mdd_minus_run, rule bounded_mem)

interpretation ni: node_operation "mdd_intersect (bounded alloc)" "(\<inter>)" for alloc
  by unfold_locales (rule mdd_intersect_run, rule bounded_mem)

end
