(* ===== verification/Vset_Listdd.thy ===== *)
theory Vset_Listdd
  imports Ldd_Sets "HOL-Library.Code_Target_Nat"
begin

text \<open>
  The list decision diagrams as an implementation of vector sets: from the initial tables, every
  sequence of operations on set objects behaves as the same operations on sets of vectors, whenever the collector runs
  in between, and an operation only gives up for lack of memory or stack.
\<close>

section \<open>Operations and their specification\<close>

datatype vset_op =
    Create nat nat int "int list"
  | Destroy nat
  | Add nat "int list"
  | Clear nat
  | Copy nat nat
  | Union nat nat
  | Minus nat nat
  | Intersect nat nat

fun vset_exec :: "(nat \<Rightarrow> bool) \<Rightarrow> vset_op \<Rightarrow> ldd \<Rightarrow> ldd result option" where
  "vset_exec alloc (Create i sz k proj) s = set_create_mdd alloc i sz k proj s"
| "vset_exec alloc (Destroy i) s = set_destroy_mdd i s"
| "vset_exec alloc (Add i e) s = set_add_mdd alloc i e s"
| "vset_exec alloc (Clear i) s = set_clear_mdd i s"
| "vset_exec alloc (Copy dst src) s = set_copy_mdd dst src s"
| "vset_exec alloc (Union dst src) s = set_union_mdd alloc dst src s"
| "vset_exec alloc (Minus dst src) s = set_minus_mdd alloc dst src s"
| "vset_exec alloc (Intersect dst src) s = set_intersect_mdd alloc dst src s"

text \<open>
  How the operations are used: a new set has a new address, the others exist, vectors have the length of their set, and
  the two sets of an operation have the same projection and length.
\<close>

definition same_kind :: "ldd \<Rightarrow> nat \<Rightarrow> nat \<Rightarrow> bool" where
  "same_kind s i j = (case (get_set s i, get_set s j) of
     (Some v, Some w) \<Rightarrow> vs_p_id v = vs_p_id w \<and> vs_p_len v = vs_p_len w \<and> vset_len v = vset_len w | _ \<Rightarrow> False)"

fun vset_allowed :: "vset_op \<Rightarrow> ldd \<Rightarrow> bool" where
  "vset_allowed (Create i sz k proj) s \<longleftrightarrow> get_set s i = None \<and> k \<le> int sz \<and> k \<le> int (length proj)"
| "vset_allowed (Destroy i) s \<longleftrightarrow> get_set s i \<noteq> None"
| "vset_allowed (Add i e) s \<longleftrightarrow> (case get_set s i of Some v \<Rightarrow> length e = vset_len v | None \<Rightarrow> False)"
| "vset_allowed (Clear i) s \<longleftrightarrow> get_set s i \<noteq> None"
| "vset_allowed (Copy dst src) s \<longleftrightarrow> same_kind s dst src"
| "vset_allowed (Union dst src) s \<longleftrightarrow> same_kind s dst src"
| "vset_allowed (Minus dst src) s \<longleftrightarrow> same_kind s dst src"
| "vset_allowed (Intersect dst src) s \<longleftrightarrow> same_kind s dst src"

type_synonym vsets = "nat \<rightharpoonup> nat \<times> nat list set"

definition on_two :: "(nat list set \<Rightarrow> nat list set \<Rightarrow> nat list set) \<Rightarrow> nat \<Rightarrow> nat \<Rightarrow> vsets \<Rightarrow> vsets" where
  "on_two f i j m = m(i \<mapsto> (fst (the (m i)), f (snd (the (m i))) (snd (the (m j)))))"

fun vset_spec :: "vset_op \<Rightarrow> vsets \<Rightarrow> vsets" where
  "vset_spec (Create i sz k proj) m = m(i \<mapsto> (if k < 0 then sz else nat k, {}))"
| "vset_spec (Destroy i) m = m(i := None)"
| "vset_spec (Add i e) m = m(i \<mapsto> (fst (the (m i)), insert (map u32_of_int e) (snd (the (m i)))))"
| "vset_spec (Clear i) m = m(i \<mapsto> (fst (the (m i)), {}))"
| "vset_spec (Copy dst src) m = on_two (\<lambda>A B. B) dst src m"
| "vset_spec (Union dst src) m = on_two (\<union>) dst src m"
| "vset_spec (Minus dst src) m = on_two (-) dst src m"
| "vset_spec (Intersect dst src) m = on_two (\<inter>) dst src m"

definition vset_abs :: "ldd \<Rightarrow> vsets" where
  "vset_abs s i = map_option (\<lambda>v. (vset_len v, \<Union> {A. den s (vset_len v) (vs_mdd v) A})) (get_set s i)"

lemma den_Union: "den s n i A \<Longrightarrow> \<Union> {B. den s n i B} = A"
  using den_fun by (metis (mono_tags, lifting) Collect_cong ccpo_Sup_singleton singleton_conv)

lemma vset_abs_iff: "sets_ok s \<Longrightarrow> vset_abs s i = Some (n, A) \<longleftrightarrow> set_has s i n A"
proof (cases "get_set s i")
  case (Some v)
  moreover assume "sets_ok s"
  ultimately obtain B where "den s (vset_len v) (vs_mdd v) B" by (auto simp: sets_ok_def)
  then have "\<Union> {C. den s (vset_len v) (vs_mdd v) C} = B" "den s (vset_len v) (vs_mdd v) C \<longleftrightarrow> B = C" for C
    using den_Union den_fun by blast+
  then show ?thesis using Some by (auto simp: vset_abs_def set_has_def)
qed (simp add: vset_abs_def set_has_def)

lemma vset_abs_eqI:
  assumes "sets_ok s" and "sets_ok s'" and "set_has s' i n A" and "\<And>j m B. j \<noteq> i \<Longrightarrow> set_has s' j m B = set_has s j m B"
  shows "vset_abs s' = (vset_abs s)(i \<mapsto> (n, A))"
proof
  fix j
  show "vset_abs s' j = ((vset_abs s)(i \<mapsto> (n, A))) j"
  proof (cases "j = i")
    case True
    then show ?thesis using assms(3) vset_abs_iff[OF assms(2)] by simp
  next
    case False
    have "vset_abs s' j = Some p \<longleftrightarrow> vset_abs s j = Some p" for p
      using assms(4)[OF False] vset_abs_iff[OF assms(1)] vset_abs_iff[OF assms(2)] by (cases p) simp
    then have "vset_abs s' j = vset_abs s j" by (metis option.exhaust)
    with False show ?thesis by simp
  qed
qed

definition refines :: "ldd result option \<Rightarrow> vsets \<Rightarrow> bool" where
  "refines m a \<longleftrightarrow> no_room m \<or> (\<exists>s'. m = ret s' \<and> sets_ok s' \<and> vset_abs s' = a)"

lemma sets_to_refines: "sets_to m s i n A \<Longrightarrow> sets_ok s \<Longrightarrow> refines m ((vset_abs s)(i \<mapsto> (n, A)))"
  unfolding sets_to_def refines_def using vset_abs_eqI[of s] by blast

section \<open>Operations on one set\<close>

lemma set_add_refines:
  assumes ok: "sets_ok s" and mem: "\<not> alloc (16 * fib 47)" and v: "get_set s i = Some v" "length e = vset_len v" and d: "set_has s i n A"
  shows "updates_to (set_add_mdd alloc i e s) s i (insert (map u32_of_int e) A)"
proof -
  have lok: "ldd_ok s" using ok by (simp add: sets_ok_def)
  have n: "n = vset_len v" "den s (vset_len v) (vs_mdd v) A" using d v by (auto simp: set_has_def)
  have "puts_to (mdd_put alloc (vs_mdd v) (map u32_of_int e) (vset_len v) s) s (vset_len v) (insert (map u32_of_int e) A) (map u32_of_int e \<notin> A)"
    by (rule mdd_put_run[where alloc = alloc, OF mem lok set_prot(1)[OF v(1)] n(2)]) (simp add: v)
  then consider "no_room (mdd_put alloc (vs_mdd v) (map u32_of_int e) (vset_len v) s)"
    | r b s' where "mdd_put alloc (vs_mdd v) (map u32_of_int e) (vset_len v) s = ret (r, b, s')" "ldd_ok s'" "keeps s s'" "vld s' r"
        "den s' (vset_len v) r (insert (map u32_of_int e) A)" by (auto simp: puts_to_def)
  then show ?thesis
  proof cases
    case 1
    then show ?thesis using v by (simp add: set_add_mdd_def with_set_def updates_to_def)
  next
    case (2 r b s')
    then show ?thesis using updates_toI[OF v(1) 2(2-5)] v n(1) by (simp add: set_add_mdd_def with_set_def)
  qed
qed

lemma set_destroy_refines:
  assumes ok: "sets_ok s" and v: "get_set s i = Some v"
  shows "refines (set_destroy_mdd i s) ((vset_abs s)(i := None))"
proof -
  define s' where "s' = s\<lparr>protected_sets := filter (\<lambda>(j, v). j \<noteq> i) (protected_sets s)\<rparr>"
  have lok: "ldd_ok s" using ok by (simp add: sets_ok_def)
  have "\<forall>(j, w) \<in> set (filter (\<lambda>(j, v). j \<noteq> i) (protected_sets s)). vld s (vs_mdd w) \<and> vld s (vs_p_id w)"
    using protected_vld[OF lok, OF UnI1] by auto
  note ch = change_sets[OF lok s'_def this]
  have g: "get_set s' j = (if j = i then None else get_set s j)" for j
  proof -
    have "map_of (filter (\<lambda>(j, v). j \<noteq> i) xs) j = (if j = i then None else map_of xs j)" for xs :: "(nat \<times> vector_set) list"
      by (induction xs) auto
    then show ?thesis by (simp add: get_set_def s'_def)
  qed
  have "distinct (map fst (protected_sets s'))" using ok by (auto simp: sets_ok_def s'_def distinct_map_filter)
  moreover have "\<exists>A. den s' (vset_len w) (vs_mdd w) A" if "get_set s' j = Some w" for j w
    using that ok g[of j] ch(2) by (auto simp: sets_ok_def split: if_splits)
  ultimately have "sets_ok s'" using ch(1) by (simp add: sets_ok_def)
  moreover have "vset_abs s' = (vset_abs s)(i := None)" by (auto simp: vset_abs_def g ch(2))
  ultimately show ?thesis using v by (simp add: refines_def set_destroy_mdd_def with_set_def s'_def)
qed

text \<open>The projection of a new set is built while the set is already protected.\<close>

lemma create_proj_run:
  assumes mem: "\<not> alloc (16 * fib 47)"
  shows "sets_ok s \<Longrightarrow> set_has s i n A \<Longrightarrow> sets_to (create_proj alloc i ps s) s i n A"
proof (induction ps arbitrary: s)
  case Nil
  then show ?case by (auto simp: sets_to_def)
next
  case (Cons p ps)
  from Cons.prems(2) obtain v where v: "get_set s i = Some v" "vset_len v = n" "den s n (vs_mdd v) A" by (auto simp: set_has_def)
  have lok: "ldd_ok s" using Cons.prems(1) by (simp add: sets_ok_def)
  define s1 where "s1 = upd_set i (\<lambda>v. v\<lparr>vs_proj := p # vs_proj v\<rparr>) s"
  have vl: "vld s (vs_mdd v)" "vld s (vs_p_id v)" using prot_vld[OF lok] set_prot[OF v(1)] by auto
  have s1: "sets_ok s1" "set_has s1 i n A" "\<And>j m B. j \<noteq> i \<Longrightarrow> set_has s1 j m B = set_has s j m B"
    using set_change[OF Cons.prems(1) v(1), of "\<lambda>v. v\<lparr>vs_proj := p # vs_proj v\<rparr>" A] vl v by (simp_all add: s1_def)
  define w where "w = v\<lparr>vs_proj := p # vs_proj v\<rparr>"
  have w: "get_set s1 i = Some w" using v by (simp add: s1_def get_upd_set w_def)
  have l1: "ldd_ok s1" using s1(1) by (simp add: sets_ok_def)
  have pw: "vld s1 (vs_p_id w)" using prot_vld[OF l1] set_prot(2)[OF w] .
  have run: "create_proj alloc i (p # ps) s = rbind (mdd_create_node alloc (u32_of_int p) (vs_p_id w) 0 s1)
      (\<lambda>(r, s). create_proj alloc i ps (upd_set i (\<lambda>v. v\<lparr>vs_p_id := r\<rparr>) s))"
    using w by (simp add: s1_def[symmetric] with_set_def)
  from mdd_create_node_run[where alloc = alloc, OF l1 mem pw, of 0 "u32_of_int p"]
  consider "no_room (mdd_create_node alloc (u32_of_int p) (vs_p_id w) 0 s1)"
    | r s2 where "mdd_create_node alloc (u32_of_int p) (vs_p_id w) 0 s1 = ret (r, s2)" "ldd_ok s2" "keeps s1 s2" "vld s2 r"
    by (auto simp: vld_def)
  then show ?case
  proof cases
    case 1
    then show ?thesis unfolding run by (simp add: sets_to_def)
  next
    case (2 r s2)
    define s3 where "s3 = upd_set i (\<lambda>v. v\<lparr>vs_p_id := r\<rparr>) s2"
    have ok2: "sets_ok s2" using keeps_sets_ok[OF s1(1) 2(3,2)] .
    have w2: "get_set s2 i = Some w" using w keeps_get_set[OF 2(3)] by simp
    have d2: "den s2 (vset_len w) (vs_mdd w) A"
      using s1(2) w keeps_den[OF 2(3) set_prot(1)[OF w]] by (auto simp: set_has_def)
    have wl: "vset_len w = n" using v by (simp add: w_def)
    have s3: "sets_ok s3" "set_has s3 i n A" "\<And>j m B. j \<noteq> i \<Longrightarrow> set_has s3 j m B = set_has s2 j m B"
      using set_change[OF ok2 w2, of "\<lambda>v. v\<lparr>vs_p_id := r\<rparr>" A] prot_vld[OF 2(2) set_prot(1)[OF w2]] 2(4) d2 wl
      by (simp_all add: s3_def)
    have "sets_to (create_proj alloc i ps s3) s3 i n A" by (rule Cons.IH[OF s3(1,2)])
    then show ?thesis unfolding run 2(1) using s3(3) s1(3) keeps_set_has[OF 2(3)]
      by (simp add: s3_def[symmetric] sets_to_def)
  qed
qed

lemma set_create_refines:
  assumes ok: "sets_ok s" and mem: "\<not> alloc (16 * fib 47)" and new: "get_set s i = None" and k: "k \<le> int sz"
  shows "refines (set_create_mdd alloc i sz k proj s) ((vset_abs s)(i \<mapsto> (if k < 0 then sz else nat k, {})))"
proof -
  define v where "v = \<lparr>vs_size = sz, vs_mdd = 0, vs_p_id = 1, vs_p_len = k, vs_proj = []\<rparr>"
  define s' where "s' = s\<lparr>protected_sets := (i, v) # protected_sets s\<rparr>"
  have lok: "ldd_ok s" using ok by (simp add: sets_ok_def)
  have "\<forall>(j, w) \<in> set ((i, v) # protected_sets s). vld s (vs_mdd w) \<and> vld s (vs_p_id w)"
    using protected_vld[OF lok, OF UnI1] by (fastforce simp: v_def vld_def)
  note ch = change_sets[OF lok s'_def this]
  have g: "get_set s' j = (if j = i then Some v else get_set s j)" for j by (simp add: get_set_def s'_def)
  have len: "vset_len v = (if k < 0 then sz else nat k)" by (simp add: v_def vset_len_def)
  have d: "den s' n (vs_mdd v) {}" for n by (simp add: v_def)
  have "i \<notin> fst ` set (protected_sets s)" using new by (simp add: get_set_def map_of_eq_None_iff)
  then have "distinct (map fst (protected_sets s'))" using ok by (simp add: sets_ok_def s'_def)
  moreover have "\<exists>A. den s' (vset_len w) (vs_mdd w) A" if "get_set s' j = Some w" for j w
    using that ok d g[of j] ch(2) by (auto simp: sets_ok_def split: if_splits)
  ultimately have ok': "sets_ok s'" using ch(1) by (simp add: sets_ok_def)
  have has: "set_has s' i (vset_len v) {}" using g d by (simp add: set_has_def)
  have "set_has s' j m B = set_has s j m B" if "j \<noteq> i" for j m B using that by (simp add: set_has_def g ch(2))
  then have ab: "vset_abs s' = (vset_abs s)(i \<mapsto> (vset_len v, {}))" using vset_abs_eqI[OF ok ok' has] by simp
  have "refines (create_proj alloc i (rev (take (nat k) proj)) s') ((vset_abs s')(i \<mapsto> (vset_len v, {})))"
    using sets_to_refines[OF create_proj_run[where alloc = alloc, OF mem ok' has] ok'] .
  moreover have "set_create_mdd alloc i sz k proj s = create_proj alloc i (rev (take (nat k) proj)) s'"
    using k unfolding set_create_mdd_def s'_def v_def Let_def by simp
  ultimately show ?thesis unfolding ab len by simp
qed

section \<open>All operations\<close>

lemma same_kindD:
  assumes "same_kind s i j" and "sets_ok s"
  obtains v w n A B where "get_set s i = Some v" and "get_set s j = Some w" and "vs_p_id v = vs_p_id w" and "vs_p_len v = vs_p_len w"
    and "set_has s i n A" and "set_has s j n B" and "vset_abs s i = Some (n, A)" and "vset_abs s j = Some (n, B)"
proof -
  from assms(1) obtain v w where v: "get_set s i = Some v" "get_set s j = Some w" "vs_p_id v = vs_p_id w" "vs_p_len v = vs_p_len w" "vset_len v = vset_len w"
    by (auto simp: same_kind_def split: option.splits)
  moreover from v assms(2) obtain A B where "den s (vset_len v) (vs_mdd v) A" "den s (vset_len w) (vs_mdd w) B" unfolding sets_ok_def by blast
  ultimately have "set_has s i (vset_len v) A" "set_has s j (vset_len v) B" by (simp_all add: set_has_def)
  then show thesis using that[of v w "vset_len v" A B] v vset_abs_iff[OF assms(2)] by simp
qed

lemma vset_present:
  assumes "sets_ok s" and "get_set s i = Some v"
  obtains A where "set_has s i (vset_len v) A" and "vset_abs s i = Some (vset_len v, A)"
proof -
  from assms obtain A where "den s (vset_len v) (vs_mdd v) A" unfolding sets_ok_def by blast
  with assms(2) have "set_has s i (vset_len v) A" by (simp add: set_has_def)
  then show thesis using that vset_abs_iff[OF assms(1)] by blast
qed

text \<open>All operations but creation and destruction change the node of one set.\<close>

fun vset_target :: "vset_op \<Rightarrow> nat option" where
  "vset_target (Create i sz k proj) = None"
| "vset_target (Destroy i) = None"
| "vset_target (Add i e) = Some i"
| "vset_target (Clear i) = Some i"
| "vset_target (Copy dst src) = Some dst"
| "vset_target (Union dst src) = Some dst"
| "vset_target (Minus dst src) = Some dst"
| "vset_target (Intersect dst src) = Some dst"

lemma vset_exec_updates:
  assumes ok: "sets_ok s" and mem: "\<not> alloc (16 * fib 47)" and al: "vset_allowed op s" and i: "vset_target op = Some i"
  shows "\<exists>v A. get_set s i = Some v \<and> updates_to (vset_exec alloc op s) s i A \<and> vset_spec op (vset_abs s) = (vset_abs s)(i \<mapsto> (vset_len v, A))"
proof -
  have lok: "ldd_ok s" using ok by (simp add: sets_ok_def)
  have two: "\<exists>v A. get_set s i = Some v \<and> updates_to (with_set s i (\<lambda>v. with_set s j (\<lambda>w. f v w))) s i A
      \<and> on_two F i j (vset_abs s) = (vset_abs s)(i \<mapsto> (vset_len v, A))"
    if k: "same_kind s i j" and f: "\<And>v w n A B. get_set s i = Some v \<Longrightarrow> get_set s j = Some w \<Longrightarrow> vs_p_id v = vs_p_id w \<Longrightarrow> vs_p_len v = vs_p_len w
      \<Longrightarrow> set_has s i n A \<Longrightarrow> set_has s j n B \<Longrightarrow> updates_to (f v w) s i (F A B)" for j f F
  proof (rule same_kindD[OF k ok])
    fix v w n A B
    assume a: "get_set s i = Some v" "get_set s j = Some w" "vs_p_id v = vs_p_id w" "vs_p_len v = vs_p_len w" "set_has s i n A" "set_has s j n B"
      "vset_abs s i = Some (n, A)" "vset_abs s j = Some (n, B)"
    then have "n = vset_len v" by (simp add: set_has_def)
    then show ?thesis using f[OF a(1-6)] a(1,2,7,8) by (auto simp: with_set_def on_two_def)
  qed
  show ?thesis
  proof (cases op)
    case (Add j e)
    with al i obtain v where v: "get_set s i = Some v" "length e = vset_len v" by (auto split: option.splits)
    from vset_present[OF ok v(1)] obtain A where "set_has s i (vset_len v) A" "vset_abs s i = Some (vset_len v, A)" .
    then show ?thesis using Add i v set_add_refines[where alloc = alloc, OF ok mem v] by auto
  next
    case (Clear j)
    with al i obtain v where v: "get_set s i = Some v" by auto
    from vset_present[OF ok v] obtain A where "vset_abs s i = Some (vset_len v, A)" .
    then show ?thesis using Clear i v updates_toI[OF v lok keeps_refl[OF lok], of 0 "{}"] by (auto simp: set_clear_mdd_def with_set_def vld_def)
  next
    case (Copy dst src)
    have "updates_to (ret (upd_set i (\<lambda>v. v\<lparr>vs_mdd := vs_mdd w\<rparr>) s)) s i B"
      if "get_set s i = Some v" "get_set s src = Some w" "set_has s i n A" "set_has s src n B" for v w n A B
      using that updates_toI[OF that(1) lok keeps_refl[OF lok], of "vs_mdd w" B] prot_vld[OF lok set_prot(1)[OF that(2)]] by (auto simp: set_has_def)
    then show ?thesis using Copy al i two[of src _ "\<lambda>A B. B"] by (simp add: set_copy_mdd_def)
  next
    case (Union dst src)
    then show ?thesis using al i two[of src _ "(\<union>)"] nu.on_sets[where alloc = alloc, OF ok] bounded_eq[of alloc, OF mem] by (simp add: set_union_mdd_def)
  next
    case (Minus dst src)
    then show ?thesis using al i two[of src _ "(-)"] nm.on_sets[where alloc = alloc, OF ok] bounded_eq[of alloc, OF mem] by (simp add: set_minus_mdd_def)
  next
    case (Intersect dst src)
    then show ?thesis using al i two[of src _ "(\<inter>)"] ni.on_sets[where alloc = alloc, OF ok] bounded_eq[of alloc, OF mem] by (simp add: set_intersect_mdd_def)
  qed (use i in simp_all)
qed

lemma vset_exec_refines:
  assumes ok: "sets_ok s" and mem: "\<not> alloc (16 * fib 47)" and al: "vset_allowed op s"
  shows "refines (vset_exec alloc op s) (vset_spec op (vset_abs s))"
proof (cases "vset_target op")
  case None
  then show ?thesis using al set_create_refines[where alloc = alloc, OF ok mem] set_destroy_refines[OF ok] by (cases op) auto
next
  case (Some i)
  from vset_exec_updates[where alloc = alloc, OF ok mem al Some] show ?thesis
    using sets_to_refines[OF updates_sets_to[OF ok] ok] by auto
qed

section \<open>The initial tables\<close>

lemma init_tables_ok:
  assumes run: "init_tables alloc nf cf junk = ret s" and nf: "6 \<le> nf" "nf \<le> 46" and cf: "1 \<le> int nf + cf" "int nf + cf \<le> 46"
  shows "sets_ok s" and "vset_abs s = Map.empty"
proof -
  have ix: "nat ((int nf + cf) mod 4294967296) = nat (int nf + cf)" "nat (int nf + cf) \<le> 46" using cf by auto
  define s0 where "s0 = junk\<lparr>mdd_nodes := fib nf, uniq_size := (if nf + 1 \<le> 46 then fib (nf + 1) else UINT32_MAX), cache_size := fib (nat (int nf + cf)),
      nodes_fib := nf, cache_fib := cf, free_node := 2, unique_table := (\<lambda>i. 0),
      op_cache := (\<lambda>i. (op_cache junk i)\<lparr>op_op := 0\<rparr>), stack_fib := 22, stack_size := fib 22, mdd_stack := [],
      protected_sets := [], protected_rels := [], mdd_load_node_ids := []\<rparr>"
  define s1 where "s1 = s0\<lparr>node_table := (node_table s0)(0 := (node_table s0 0)\<lparr>nd_val := 0\<rparr>, 1 := (node_table s0 1)\<lparr>nd_val := 0\<rparr>)\<rparr>"
  have s: "s = set_next (fib nf - 1) 0 (fold fresh_node [2..<fib nf] s1)"
    using run nf ix unfolding init_tables_def Let_def s1_def s0_def by (auto split: if_splits)
  have fs: "mdd_nodes s = fib nf" "uniq_size s = (if nf + 1 \<le> 46 then fib (nf + 1) else UINT32_MAX)" "cache_size s = fib (nat (int nf + cf))"
    "nodes_fib s = nf" "cache_fib s = cf" "free_node s = 2" "unique_table s = (\<lambda>i. 0)" "op_cache s = (\<lambda>i. (op_cache junk i)\<lparr>op_op := 0\<rparr>)"
    "stack_fib s = 22" "stack_size s = fib 22" "mdd_stack s = []" "protected_sets s = []" "protected_rels s = []" "mdd_load_node_ids s = []"
    by (simp_all add: s s1_def s0_def fresh_nodes_run set_next_def)
  have sz: "sizes_ok s" using nf cf by (auto simp: sizes_ok_def fs)
  have gt: "2 < fib nf" using sizes_bounds(4)[OF sz] by (simp add: fs)
  have nx: "nxt s i = (if i = fib nf - 1 then 0 else i + 1)" if "2 \<le> i" "i < fib nf" for i
    using that by (simp add: s fresh_nodes_run set_next_def)
  have "chain (nxt s) 2 [2..<fib nf]" using gt nx by (intro chain_upt) auto
  then have tb: "tables s (\<lambda>k. []) [2..<fib nf]" by (simp add: tables_def fs)
  then have us: "used s = {}" by (simp add: used_tables)
  have "nodes_ok s" by (simp add: nodes_ok_def us)
  moreover have "entry_ok s (op_cache s k)" for k by (simp add: fs entry_ok_def set_op_def)
  moreover have "gc_roots s = []" by (simp add: gc_roots_def fs)
  ultimately have "ldd_ok s" using sz tb by (auto simp: ldd_ok_def)
  then show "sets_ok s" by (simp add: sets_ok_def get_set_def fs)
  show "vset_abs s = Map.empty" by (auto simp: vset_abs_def get_set_def fs)
qed

text \<open>The states that can be reached, with the sets that have been built.\<close>

inductive vset_reach :: "(nat \<Rightarrow> bool) \<Rightarrow> nat \<Rightarrow> int \<Rightarrow> ldd \<Rightarrow> vset_op list \<Rightarrow> ldd \<Rightarrow> bool" for alloc nf cf junk where
  vset_init: "init_tables alloc nf cf junk = ret s \<Longrightarrow> vset_reach alloc nf cf junk [] s"
| vset_step: "vset_reach alloc nf cf junk ops s \<Longrightarrow> vset_allowed op s \<Longrightarrow> vset_exec alloc op s = ret s'
    \<Longrightarrow> vset_reach alloc nf cf junk (ops @ [op]) s'"

lemma vset_reach_ok:
  assumes "vset_reach alloc nf cf junk ops s" and mem: "\<not> alloc (16 * fib 47)"
    and nf: "6 \<le> nf" "nf \<le> 46" "1 \<le> int nf + cf" "int nf + cf \<le> 46"
  shows "sets_ok s \<and> vset_abs s = fold vset_spec ops Map.empty"
  using assms(1)
proof (induction rule: vset_reach.induct)
  case (vset_init s)
  then show ?case using init_tables_ok[OF _ nf] by simp
next
  case (vset_step ops s op s')
  then show ?case using vset_exec_refines[where alloc = alloc, OF _ mem] by (fastforce simp: refines_def no_room_def)
qed

section \<open>Queries\<close>

lemma example_loop_run: "den s n i A \<Longrightarrow> i \<noteq> 0 \<Longrightarrow> \<exists>e \<in> A. example_loop s i n = ret e \<and> (\<forall>x \<in> A. x = e \<or> (e, x) \<in> lexord {(a, b). a < b})"
proof (induction n arbitrary: i A)
  case 0
  then have "i = 1" using den_node[of s 0 i A] by (metis Zero_not_Suc less_one linorder_neqE_nat)
  with 0 show ?case by simp
next
  case (Suc n)
  then have "i \<noteq> 1" by auto
  with Suc.prems have gt: "1 < i" by simp
  from den_node[OF Suc.prems(1) gt] obtain m D R where "Suc n = Suc m" "den s m (down s i) D" and d0: "A = (#) (val s i) ` D \<union> R" "D \<noteq> {}"
    "\<forall>x \<in> R. val s i < hd x" "\<forall>x \<in> R. \<exists>y ys. x = y # ys" by metis
  then have d: "den s n (down s i) D" "A = (#) (val s i) ` D \<union> R" "D \<noteq> {}" "\<forall>x \<in> R. val s i < hd x" "\<forall>x \<in> R. \<exists>y ys. x = y # ys" by simp_all
  from d(3) den_empty[OF d(1)] have "down s i \<noteq> 0" by simp
  from Suc.IH[OF d(1) this] obtain e where e: "e \<in> D" "example_loop s (down s i) n = ret e" "\<forall>x \<in> D. x = e \<or> (e, x) \<in> lexord {(a, b). a < b}" by blast
  have "(val s i # e, x) \<in> lexord {(a, b). a < b}" if "x \<in> R" for x using d(4,5) that by fastforce
  then show ?case using e d(2) gt by (intro bexI[of _ "val s i # e"]) auto
qed

section \<open>Properties\<close>

text \<open>A sequence of operations, run from a state; the witnesses evaluate it.\<close>

fun vset_run :: "(nat \<Rightarrow> bool) \<Rightarrow> vset_op list \<Rightarrow> ldd \<Rightarrow> ldd result option" where
  "vset_run alloc [] s = ret s"
| "vset_run alloc (op # ops) s =
     (if vset_allowed op s then rbind (vset_exec alloc op s) (vset_run alloc ops) else Some (Inl Assert_fail))"

lemma vset_run_reach:
  "vset_run alloc ops s = ret s' \<Longrightarrow> vset_reach alloc nf cf junk ops0 s \<Longrightarrow> vset_reach alloc nf cf junk (ops0 @ ops) s'"
proof (induction ops arbitrary: s ops0)
  case (Cons op ops)
  then obtain s1 where s1: "vset_allowed op s" "vset_exec alloc op s = ret s1" "vset_run alloc ops s1 = ret s'"
    by (auto simp: rbind_def split: if_splits option.splits sum.splits)
  from Cons.IH[OF s1(3) vset_step[OF Cons.prems(2) s1(1,2)]] show ?case by simp
qed simp

definition example_junk :: ldd where
  "example_junk = \<lparr>mdd_nodes = 0, uniq_size = 0, cache_size = 0, nodes_fib = 0, cache_fib = 0, free_node = 0,
     unique_table = (\<lambda>i. 0), node_table = (\<lambda>i. \<lparr>nd_next = 0, nd_val = 0, nd_down = 0, nd_right = 0\<rparr>),
     op_cache = (\<lambda>i. \<lparr>op_op = 0, op_arg1 = 0, op_arg2 = 0, op_res = 0\<rparr>), mdd_used = 0, stack_fib = 0, stack_size = 0,
     mdd_stack = [], protected_sets = [], protected_rels = [], mdd_load_node_ids = []\<rparr>"

definition example_alloc :: "nat \<Rightarrow> bool" where
  "example_alloc n \<longleftrightarrow> n < 1000000"

definition example_ops :: "vset_op list" where
  "example_ops = [Create 7 1 (- 1) [], Add 7 [3]]"

lemma example_reach: "\<exists>s. vset_reach example_alloc 6 1 example_junk example_ops s \<and> vset_allowed (Add 7 [2]) s"
proof -
  have "(case rbind (init_tables example_alloc 6 1 example_junk) (vset_run example_alloc example_ops) of
      Some (Inr s) \<Rightarrow> vset_allowed (Add 7 [2]) s | _ \<Rightarrow> False)" by code_simp
  then obtain s where s: "rbind (init_tables example_alloc 6 1 example_junk) (vset_run example_alloc example_ops) = ret s" "vset_allowed (Add 7 [2]) s"
    by (auto split: option.splits sum.splits)
  then obtain s0 where s0: "init_tables example_alloc 6 1 example_junk = ret s0" "vset_run example_alloc example_ops s0 = ret s"
    by (auto simp: rbind_def split: option.splits sum.splits)
  with s(2) vset_run_reach[OF s0(2) vset_init[OF s0(1)]] show ?thesis by auto
qed

lemma example_mem: "\<not> example_alloc (16 * fib 47)"
  by (simp add: example_alloc_def fib_47)

text \<open>
  C2. The list decision diagrams implement sets of vectors: from the initial tables, the sets in every state that
  a sequence of operations leads to are those that the same operations on mathematical sets give, and every further
  operation ends, either with the right sets again or for lack of memory or stack. The collector may run in any of them.
\<close>

theorem vset_listdd_refines:
  assumes "vset_reach alloc nf cf junk ops s" and "\<not> alloc (16 * fib 47)"
    and "6 \<le> nf" and "nf \<le> 46" and "1 \<le> int nf + cf" and "int nf + cf \<le> 46" and "vset_allowed op s"
  shows "vset_abs s = fold vset_spec ops Map.empty
    \<and> (no_room (vset_exec alloc op s) \<or> (\<exists>s'. vset_exec alloc op s = ret s' \<and> vset_abs s' = vset_spec op (vset_abs s)))"
  using vset_reach_ok[where alloc = alloc, OF assms(1-6)] vset_exec_refines[where alloc = alloc, OF _ assms(2,7)] by (auto simp: refines_def)

theorem vset_listdd_refines_witness:
  "\<exists>s. vset_reach example_alloc 6 1 example_junk example_ops s \<and> vset_abs s = fold vset_spec example_ops Map.empty
    \<and> (no_room (vset_exec example_alloc (Add 7 [2]) s) \<or> (\<exists>s'. vset_exec example_alloc (Add 7 [2]) s = ret s'
      \<and> vset_abs s' = vset_spec (Add 7 [2]) (vset_abs s)))"
  using example_reach vset_listdd_refines[where alloc = example_alloc and nf = 6 and cf = 1, OF _ example_mem] by fastforce

text \<open>
  C3. Every query answers for the sets of vectors: emptiness, membership of a vector of the right length, equality of two
  sets of the same length, which compares node numbers, an example, which is the least vector, and the enumeration, which gives the vectors in lexicographic
  order and each of them once.
\<close>

theorem vset_queries_correct:
  assumes "vset_reach alloc nf cf junk ops s" and "\<not> alloc (16 * fib 47)"
    and "6 \<le> nf" and "nf \<le> 46" and "1 \<le> int nf + cf" and "int nf + cf \<le> 46"
    and "vset_abs s i = Some (n, A)" and "vset_abs s j = Some (n, B)" and "length e = n"
  shows "set_is_empty_mdd i s = ret (A = {}) \<and> set_equal_mdd i j s = ret (A = B)
    \<and> set_member_mdd i e s = ret (if map u32_of_int e \<in> A then 1 else 0)
    \<and> (A \<noteq> {} \<longrightarrow> (\<exists>x \<in> A. set_example_mdd i s = ret x \<and> (\<forall>y \<in> A. y = x \<or> (x, y) \<in> lexord {(a, b). a < b})))
    \<and> (\<exists>vs. set_enum_mdd i s = ret vs \<and> set vs = A \<and> sorted_wrt (\<lambda>x y. (x, y) \<in> lexord {(a, b). a < b}) vs)"
proof -
  have ok: "sets_ok s" using vset_reach_ok[where alloc = alloc, OF assms(1-6)] by simp
  then have l: "ldd_ok s" "nodes_ok s" by (simp_all add: sets_ok_def ldd_ok_def)
  from assms(7,8) obtain v w where v: "get_set s i = Some v" "vset_len v = n" "den s n (vs_mdd v) A"
    and w: "get_set s j = Some w" "den s n (vs_mdd w) B" unfolding vset_abs_iff[OF ok] set_has_def by blast
  have "vld s (vs_mdd v)" "vld s (vs_mdd w)" using prot_vld[OF l(1)] set_prot(1) v(1) w(1) by blast+
  then have "vs_mdd v = vs_mdd w \<longleftrightarrow> A = B" using den_inj[OF l(2)] v(3) w(2) den_fun by metis
  moreover have "vs_mdd v = 0 \<longleftrightarrow> A = {}" using den_empty[OF v(3)] by simp
  moreover have "mdd_member s (vs_mdd v) (map u32_of_int e) n = ret (if map u32_of_int e \<in> A then 1 else 0)"
    using mdd_member_run[OF v(3)] assms(9) by simp
  moreover have "\<exists>vs. mdd_enum s (vs_mdd v) [] n = ret vs \<and> set vs = A \<and> sorted_wrt (\<lambda>x y. (x, y) \<in> lexord {(a, b). a < b}) vs"
    using mdd_enum_list[OF v(3), of "[]" n] by (auto simp: map_idI)
  moreover have "A \<noteq> {} \<longrightarrow> (\<exists>x \<in> A. example_loop s (vs_mdd v) n = ret x \<and> (\<forall>y \<in> A. y = x \<or> (x, y) \<in> lexord {(a, b). a < b}))"
    using example_loop_run[OF v(3)] den_empty[OF v(3)] by simp
  ultimately show ?thesis using v w
    by (simp add: set_is_empty_mdd_def set_equal_mdd_def set_member_mdd_def set_enum_mdd_def set_example_mdd_def with_set_def)
qed

theorem vset_queries_correct_witness:
  "\<exists>s. vset_abs s 7 = Some (1, {[3]}) \<and> set_equal_mdd 7 7 s = ret True \<and> set_member_mdd 7 [3] s = ret 1 \<and> set_is_empty_mdd 7 s = ret False"
proof -
  from example_reach obtain s where s: "vset_reach example_alloc 6 1 example_junk example_ops s" by blast
  have "vset_abs s = fold vset_spec example_ops Map.empty"
    using vset_reach_ok[where alloc = example_alloc and nf = 6 and cf = 1, OF s example_mem] by simp
  then have a: "vset_abs s 7 = Some (1, {[3]})" by (simp add: example_ops_def u32_of_int_def)
  have "set_is_empty_mdd 7 s = ret ({[3]} = ({} :: nat list set)) \<and> set_equal_mdd 7 7 s = ret ({[3]} = ({[3]} :: nat list set))
    \<and> set_member_mdd 7 [3] s = ret (if map u32_of_int [3] \<in> {[3]} then 1 else 0)"
    using vset_queries_correct[where alloc = example_alloc and nf = 6 and cf = 1 and e = "[3]", OF s example_mem _ _ _ _ a a] by simp
  with a show ?thesis by (intro exI[of _ s]) (simp add: u32_of_int_def)
qed

text \<open>
  C4. The collector keeps the invariant, frees exactly the nodes that cannot be reached from its arguments, the
  protected sets and relations and the stack, leaves the fields of the others alone, with or without a
  resize, and always makes room for a node; where it does not end this way the memory is exhausted.
\<close>

theorem mdd_collect_exact:
  assumes "ldd_ok s" and "vld s a" and "vld s b" and "\<not> alloc (16 * fib 47)"
  shows "mdd_collect alloc a b s = abort ''out of memory'' \<or>
    (\<exists>s'. mdd_collect alloc a b s = ret s' \<and> ldd_ok s' \<and> used s' = reach s ({a, b} \<union> set (gc_roots s)) \<and> free_node s' \<noteq> 0
      \<and> gc_roots s' = gc_roots s
      \<and> (\<forall>i \<in> used s'. val s' i = val s i \<and> down s' i = down s i \<and> right s' i = right s i))"
  using mdd_collect_run[where alloc = alloc, OF assms] same_roots_gc_roots by (auto simp: collected_def same_fields_def)

theorem mdd_collect_exact_witness:
  "\<exists>s. ldd_ok s \<and> (mdd_collect example_alloc 0 1 s = abort ''out of memory''
    \<or> (\<exists>s'. mdd_collect example_alloc 0 1 s = ret s' \<and> used s' = reach s ({0, 1} \<union> set (gc_roots s))))"
proof -
  from example_reach obtain s where "vset_reach example_alloc 6 1 example_junk example_ops s" by blast
  then have ok: "ldd_ok s" using vset_reach_ok[where alloc = example_alloc and nf = 6 and cf = 1, OF _ example_mem] by (simp add: sets_ok_def)
  have "mdd_collect example_alloc 0 1 s = abort ''out of memory'' \<or>
    (\<exists>s'. mdd_collect example_alloc 0 1 s = ret s' \<and> ldd_ok s' \<and> used s' = reach s ({0, 1} \<union> set (gc_roots s)) \<and> free_node s' \<noteq> 0
      \<and> gc_roots s' = gc_roots s
      \<and> (\<forall>i \<in> used s'. val s' i = val s i \<and> down s' i = down s i \<and> right s' i = right s i))"
    by (rule mdd_collect_exact[where alloc = example_alloc, OF ok _ _ example_mem]) (simp_all add: vld_def)
  with ok show ?thesis by blast
qed

text \<open>
  A node table of step 5, which the option \<^verbatim>\<open>ldd32-step\<close> allows, has three nodes; the state is the one after three vectors were added.
\<close>

definition full_nodes :: "nat \<Rightarrow> mdd_node" where
  "full_nodes i = (if i = 2 then \<lparr>nd_next = 0, nd_val = 3, nd_down = 1, nd_right = 0\<rparr>
     else if i = 3 then \<lparr>nd_next = 0, nd_val = 2, nd_down = 1, nd_right = 2\<rparr>
     else \<lparr>nd_next = 0, nd_val = 1, nd_down = 1, nd_right = 3\<rparr>)"

definition full_table :: ldd where
  "full_table = \<lparr>mdd_nodes = 5, uniq_size = 8, cache_size = 8, nodes_fib = 5, cache_fib = 1, free_node = 0,
     unique_table = (\<lambda>i. if i = 4 then 2 else if i = 0 then 3 else if i = 1 then 4 else 0), node_table = full_nodes,
     op_cache = (\<lambda>i. \<lparr>op_op = 0, op_arg1 = 0, op_arg2 = 0, op_res = 0\<rparr>), mdd_used = 0, stack_fib = 22, stack_size = 17711,
     mdd_stack = [], protected_sets = [(7, \<lparr>vs_size = 1, vs_mdd = 4, vs_p_id = 1, vs_p_len = - 1, vs_proj = []\<rparr>)],
     protected_rels = [], mdd_load_node_ids = []\<rparr>"

lemma full_create: "case mdd_create_node (\<lambda>n. True) 0 1 4 full_table of
    Some (Inr (i, s)) \<Rightarrow> i = 0 \<and> map fst (protected_sets s) = [7] | _ \<Rightarrow> False"
  by code_simp

text \<open>
  With a table of step 5 the collector neither frees a node nor resizes, and the new node is node 0: adding a fourth vector to a set
  of three makes the set empty, without any message.
\<close>

theorem small_table_loses_set:
  "set_enum_mdd 7 full_table = ret [[1], [2], [3]]
    \<and> rbind (set_add_mdd (\<lambda>n. True) 7 [0] full_table) (set_is_empty_mdd 7) = ret True"
proof
  show "set_enum_mdd 7 full_table = ret [[1], [2], [3]]" by code_simp
  from full_create obtain s where s: "mdd_create_node (\<lambda>n. True) 0 1 4 full_table = ret (0, s)" "map fst (protected_sets s) = [7]"
    by (auto split: option.splits sum.splits)
  have v: "get_set full_table 7 = Some \<lparr>vs_size = 1, vs_mdd = 4, vs_p_id = 1, vs_p_len = - 1, vs_proj = []\<rparr>"
    by (simp add: get_set_def full_table_def)
  have g: "get_set s 7 \<noteq> None" using s(2) by (auto simp: get_set_def map_of_eq_None_iff)
  have "mdd_put (\<lambda>n. True) 4 [0] 1 full_table = ret (0, True, s)"
    using s(1) by (subst mdd_put.simps, subst mdd_put.simps) (simp add: full_table_def full_nodes_def)
  then have "set_add_mdd (\<lambda>n. True) 7 [0] full_table = ret (upd_set 7 (\<lambda>v. v\<lparr>vs_mdd := 0\<rparr>) s)"
    using v by (simp add: set_add_mdd_def with_set_def vset_len_def u32_of_int_def)
  then show "rbind (set_add_mdd (\<lambda>n. True) 7 [0] full_table) (set_is_empty_mdd 7) = ret True"
    using g by (auto simp: set_is_empty_mdd_def with_set_def get_upd_set)
qed

end
