(* ===== verification/Ldd_Rel.thy ===== *)
theory Ldd_Rel
  imports Ldd_Vec
begin

text \<open>
  The operations of \<^verbatim>\<open>src/src/vset-lib/vset_listdd.c\<close> that work on some elements of the vectors only: projection,
  successors and predecessors under a relation, and the selection of vectors that match a pattern. The elements are
  given twice, as the array \<open>proj\<close> of their positions and as a node \<open>p_id\<close> for that array, which is part of the
  key under which results are cached. A relation is a diagram of vectors in which source and target values
  alternate. This theory has the model and the meaning of the operations.
\<close>

section \<open>Loops\<close>

text \<open>
  The lines that these operations have in common: a diagram is computed and added to the result, which is on the stack
  meanwhile.
\<close>

definition accumulate :: "(nat \<Rightarrow> bool) \<Rightarrow> (ldd \<Rightarrow> (nat \<times> ldd) result option) \<Rightarrow> nat \<Rightarrow> ldd \<Rightarrow> (nat \<times> ldd) result option" where
  "accumulate alloc m res s =
     rbind (mdd_push alloc res s) (\<lambda>s.
     rbind (m s) (\<lambda>(tmp, s).
     rbind (mdd_push alloc tmp s) (\<lambda>s.
     rbind (mdd_union alloc res tmp s) (\<lambda>(res, s).
     rbind (mdd_pop s) (\<lambda>(x, s).
     rbind (mdd_pop s) (\<lambda>(x, s). ret (res, s)))))))"

text \<open>The loop over the nodes of a level.\<close>

partial_function (option) union_loop :: "(nat \<Rightarrow> bool) \<Rightarrow> (nat \<Rightarrow> ldd \<Rightarrow> (nat \<times> ldd) result option) \<Rightarrow> nat \<Rightarrow> nat \<Rightarrow> ldd
    \<Rightarrow> (nat \<times> ldd) result option" where
  "union_loop alloc f mdd res s = (if mdd > 1
     then rbind (accumulate alloc (f mdd) res s) (\<lambda>(res, s). union_loop alloc f (right s mdd) res s)
     else ret (res, s))"

text \<open>The loop of \<^verbatim>\<open>mdd_prev\<close> over the nodes of two levels with equal values.\<close>

partial_function (option) prev_loop :: "(nat \<Rightarrow> bool) \<Rightarrow> (nat \<Rightarrow> nat \<Rightarrow> ldd \<Rightarrow> (nat \<times> ldd) result option) \<Rightarrow> nat \<Rightarrow> nat \<Rightarrow> nat \<Rightarrow> ldd
    \<Rightarrow> ((nat \<times> nat \<times> nat) \<times> ldd) result option" where
  "prev_loop alloc f src rel res s = (if rel > 1 \<and> src > 1 then
       if val s rel < val s src then prev_loop alloc f src (right s rel) res s
       else if val s src < val s rel then prev_loop alloc f (right s src) rel res s
       else rbind (accumulate alloc (f src rel) res s) (\<lambda>(res, s). prev_loop alloc f (right s src) (right s rel) res s)
     else ret ((src, rel, res), s))"

declare union_loop.simps [code] prev_loop.simps [code]

text \<open>The loops are monotone in their body, so that the body may be a recursive call.\<close>

lemma accumulate_ext:
  "accumulate alloc f res s = Some y \<Longrightarrow> (\<And>s y. f s = Some y \<Longrightarrow> g s = Some y) \<Longrightarrow> accumulate alloc g res s = Some y"
  unfolding accumulate_def by (auto elim!: rbind_mono_elem)

lemma union_loop_ext:
  assumes "union_loop alloc f mdd res s = Some y" and "\<forall>m s y. f m s = Some y \<longrightarrow> g m s = Some y"
  shows "union_loop alloc g mdd res s = Some y"
proof (rule mp[OF union_loop.raw_induct[where P = "\<lambda>al h m r s y. (\<forall>m s y. h m s = Some y \<longrightarrow> g m s = Some y) \<longrightarrow> union_loop al g m r s = Some y",
    OF _ assms(1)] assms(2)], rule impI)
  fix loop al h m r s y
  assume IH: "\<And>al h m r s y. loop al h m r s = Some y \<Longrightarrow> (\<forall>m s y. h m s = Some y \<longrightarrow> g m s = Some y) \<longrightarrow> union_loop al g m r s = Some y"
    and h: "\<forall>m s y. h m s = Some y \<longrightarrow> g m s = Some y"
    and run: "(if m > 1 then rbind (accumulate al (h m) r s) (\<lambda>(r, s). loop al h (right s m) r s) else ret (r, s)) = Some y"
  show "union_loop al g m r s = Some y"
    using run h IH by (subst union_loop.simps) (auto split: if_splits elim!: rbind_mono_elem accumulate_ext)
qed

lemma prev_loop_ext:
  assumes "prev_loop alloc f src rel res s = Some y" and "\<forall>m n s y. f m n s = Some y \<longrightarrow> g m n s = Some y"
  shows "prev_loop alloc g src rel res s = Some y"
proof (rule mp[OF prev_loop.raw_induct[where P = "\<lambda>al h m n r s y. (\<forall>m n s y. h m n s = Some y \<longrightarrow> g m n s = Some y) \<longrightarrow> prev_loop al g m n r s = Some y",
    OF _ assms(1)] assms(2)], rule impI)
  fix loop al h m n r s y
  assume IH: "\<And>al h m n r s y. loop al h m n r s = Some y \<Longrightarrow> (\<forall>m n s y. h m n s = Some y \<longrightarrow> g m n s = Some y) \<longrightarrow> prev_loop al g m n r s = Some y"
    and h: "\<forall>m n s y. h m n s = Some y \<longrightarrow> g m n s = Some y"
    and run: "(if n > 1 \<and> m > 1 then if val s n < val s m then loop al h m (right s n) r s
        else if val s m < val s n then loop al h (right s m) n r s
        else rbind (accumulate al (h m n) r s) (\<lambda>(r, s). loop al h (right s m) (right s n) r s)
      else ret ((m, n, r), s)) = Some y"
  show "prev_loop al g m n r s = Some y"
    using run h IH by (subst prev_loop.simps) (auto split: if_splits elim!: rbind_mono_elem accumulate_ext)
qed

lemma mono_option_ext:
  assumes "mono_option (\<lambda>h. F h)" and "option.le_fun g h" and "F g = Some y"
  shows "F h = Some y"
proof -
  have "option_ord (F g) (F h)" using assms(1,2) by (simp add: monotone_def)
  with assms(3) show ?thesis by (auto simp: flat_ord_def)
qed

lemma mono_optionI: "(\<And>g h y. option.le_fun g h \<Longrightarrow> F g = Some y \<Longrightarrow> F h = Some y) \<Longrightarrow> mono_option F"
  by (rule monotoneI) (metis flat_ord_def not_None_eq)

lemma accumulate_mono [partial_function_mono]:
  assumes "\<And>s. mono_option (\<lambda>h. F h s)"
  shows "mono_option (\<lambda>h. accumulate alloc (F h) res s)"
proof (rule mono_optionI)
  fix g h y assume le: "option.le_fun g h" and run: "accumulate alloc (F g) res s = Some y"
  show "accumulate alloc (F h) res s = Some y"
    by (rule accumulate_ext[OF run]) (use mono_option_ext[OF assms le] in blast)
qed

lemma union_loop_mono [partial_function_mono]:
  assumes "\<And>m s. mono_option (\<lambda>h. F h m s)"
  shows "mono_option (\<lambda>h. union_loop alloc (F h) mdd res s)"
proof (rule mono_optionI)
  fix g h y assume le: "option.le_fun g h" and run: "union_loop alloc (F g) mdd res s = Some y"
  show "union_loop alloc (F h) mdd res s = Some y"
    by (rule union_loop_ext[OF run]) (use mono_option_ext[OF assms le] in blast)
qed

lemma prev_loop_mono [partial_function_mono]:
  assumes "\<And>m n s. mono_option (\<lambda>h. F h m n s)"
  shows "mono_option (\<lambda>h. prev_loop alloc (F h) src rel res s)"
proof (rule mono_optionI)
  fix g h y assume le: "option.le_fun g h" and run: "prev_loop alloc (F g) src rel res s = Some y"
  show "prev_loop alloc (F h) src rel res s = Some y"
    by (rule prev_loop_ext[OF run]) (use mono_option_ext[OF assms le] in blast)
qed

section \<open>Operations\<close>

text \<open>The operation of a cache entry with its projection, a 32-bit number.\<close>

definition rel_key :: "nat \<Rightarrow> nat \<Rightarrow> nat" where
  "rel_key op p_id = op OR (p_id * 65536 mod 2 ^ 32)"

partial_function (option) mdd_project :: "(nat \<Rightarrow> bool) \<Rightarrow> nat \<Rightarrow> nat \<Rightarrow> nat \<Rightarrow> int list \<Rightarrow> nat \<Rightarrow> ldd \<Rightarrow> (nat \<times> ldd) result option" where
  "mdd_project alloc p_id mdd idx proj len s =
     (if mdd = 0 then ret (0, s)
      else if len = 0 then ret (1, s)
      else let slot_hash = hash OP_PROJECT mdd p_id; slot = slot_hash mod cache_size s in
      if cache_hit s slot OP_PROJECT mdd p_id then ret (op_res (op_cache s slot), s)
      else case proj of [] \<Rightarrow> Some (Inl Bad_access)
      | p # ps \<Rightarrow> rbind
        (if p = int idx then
           rbind (mdd_project alloc p_id (right s mdd) idx proj len s) (\<lambda>(r, s).
           rbind (mdd_push alloc r s) (\<lambda>s.
           rbind (mdd_project alloc (down s p_id) (down s mdd) (idx + 1) ps (len - 1) s) (\<lambda>(tmp, s).
           rbind (mdd_pop s) (\<lambda>(r, s). mdd_create_node alloc (val s mdd) tmp r s))))
         else union_loop alloc (\<lambda>mdd s. mdd_project alloc p_id (down s mdd) (idx + 1) proj len s) mdd 0 s)
        (\<lambda>(res, s). ret (res, cache_put (slot_hash mod cache_size s) OP_PROJECT mdd p_id res s)))"

text \<open>
  The first loop of \<^verbatim>\<open>mdd_next\<close>, which looks for the next two nodes with equal values; \<open>None\<close> is the case in which it returns 0.
\<close>

partial_function (option) next_match :: "ldd \<Rightarrow> nat \<Rightarrow> nat \<Rightarrow> (nat \<times> nat) option option" where
  "next_match s src rel =
     (if val s src = val s rel then Some (Some (src, rel))
      else let src' = (if val s src < val s rel then right s src else src) in
      if val s src < val s rel \<and> src' \<le> 1 then Some None
      else let rel' = (if val s rel < val s src' then right s rel else rel) in
      if val s rel < val s src' \<and> rel' \<le> 1 then Some None
      else next_match s src' rel')"

partial_function (option) mdd_next :: "(nat \<Rightarrow> bool) \<Rightarrow> nat \<Rightarrow> nat \<Rightarrow> nat \<Rightarrow> nat \<Rightarrow> int list \<Rightarrow> nat \<Rightarrow> ldd \<Rightarrow> (nat \<times> ldd) result option" where
  "mdd_next alloc p_id src rel idx proj len s =
     (if rel = 0 \<or> src = 0 then ret (0, s)
      else if len = 0 then ret (src, s)
      else if rel = 1 \<or> src = 1 then abort ''missing case in next''
      else case proj of [] \<Rightarrow> Some (Inl Bad_access)
      | p # ps \<Rightarrow>
      case (if p = int idx then next_match s src rel else Some (Some (src, rel))) of
        None \<Rightarrow> None
      | Some None \<Rightarrow> ret (0, s)
      | Some (Some (src, rel)) \<Rightarrow>
      let op = rel_key OP_NEXT p_id; slot_hash = hash op src rel; slot = slot_hash mod cache_size s in
      if cache_hit s slot op src rel then ret (op_res (op_cache s slot), s)
      else rbind
        (if p = int idx then
           rbind (mdd_next alloc p_id (right s src) (right s rel) idx proj len s) (\<lambda>(res, s).
             union_loop alloc (\<lambda>rel s.
               rbind (mdd_next alloc (down s p_id) (down s src) (down s rel) (idx + 1) ps (len - 1) s) (\<lambda>(tmp, s).
               mdd_create_node alloc (val s rel) tmp 0 s)) (down s rel) res s)
         else
           rbind (mdd_next alloc p_id (right s src) rel idx proj len s) (\<lambda>(r, s).
           rbind (mdd_push alloc r s) (\<lambda>s.
           rbind (mdd_next alloc p_id (down s src) rel (idx + 1) proj len s) (\<lambda>(res, s).
           rbind (mdd_pop s) (\<lambda>(r, s). mdd_create_node alloc (val s src) res r s)))))
        (\<lambda>(res, s). ret (res, cache_put (slot_hash mod cache_size s) op src rel res s)))"

text \<open>
  When \<^verbatim>\<open>mdd_prev\<close> stores its result, \<^verbatim>\<open>set\<close> and \<^verbatim>\<open>rel\<close> are what the loop has left of them.
\<close>

partial_function (option) mdd_prev :: "(nat \<Rightarrow> bool) \<Rightarrow> nat \<Rightarrow> nat \<Rightarrow> nat \<Rightarrow> nat \<Rightarrow> int list \<Rightarrow> nat \<Rightarrow> ldd \<Rightarrow> (nat \<times> ldd) result option" where
  "mdd_prev alloc p_id src rel idx proj len s =
     (if rel = 0 \<or> src = 0 then ret (0, s)
      else if len = 0 then ret (src, s)
      else if rel = 1 \<or> src = 1 then abort ''missing case in prev''
      else let op = rel_key OP_PREV p_id; slot_hash = hash op src rel; slot = slot_hash mod cache_size s in
      if cache_hit s slot op src rel then ret (op_res (op_cache s slot), s)
      else case proj of [] \<Rightarrow> Some (Inl Bad_access)
      | p # ps \<Rightarrow> rbind
        (if p = int idx then
           rbind (mdd_prev alloc p_id src (right s rel) idx proj len s) (\<lambda>(r, s).
           rbind (mdd_push alloc r s) (\<lambda>s.
           let v = val s rel in
           rbind (prev_loop alloc (\<lambda>src rel s. mdd_prev alloc (down s p_id) (down s src) (down s rel) (idx + 1) ps (len - 1) s)
             src (down s rel) 0 s) (\<lambda>((src, rel, res), s).
           rbind (mdd_pop s) (\<lambda>(r, s).
           rbind (mdd_create_node alloc v res r s) (\<lambda>(res, s). ret ((src, rel, res), s))))))
         else
           rbind (mdd_prev alloc p_id (right s src) rel idx proj len s) (\<lambda>(r, s).
           rbind (mdd_push alloc r s) (\<lambda>s.
           rbind (mdd_prev alloc p_id (down s src) rel (idx + 1) proj len s) (\<lambda>(res, s).
           rbind (mdd_pop s) (\<lambda>(r, s).
           rbind (mdd_create_node alloc (val s src) res r s) (\<lambda>(res, s). ret ((src, rel, res), s)))))))
        (\<lambda>((src, rel, res), s). ret (res, cache_put (slot_hash mod cache_size s) op src rel res s)))"

partial_function (option) find_val :: "ldd \<Rightarrow> nat \<Rightarrow> nat \<Rightarrow> nat option" where
  "find_val s mdd v = (if mdd > 1 \<and> val s mdd < v then find_val s (right s mdd) v else Some mdd)"

partial_function (option) mdd_copy_match :: "(nat \<Rightarrow> bool) \<Rightarrow> nat \<Rightarrow> nat \<Rightarrow> nat \<Rightarrow> nat \<Rightarrow> int list \<Rightarrow> nat \<Rightarrow> ldd \<Rightarrow> (nat \<times> ldd) result option" where
  "mdd_copy_match alloc p_id mdd pattern idx proj len s =
     (if mdd = 0 then ret (0, s)
      else if mdd = 1 then ret (1, s)
      else if len = 0 then ret (mdd, s)
      else let op = rel_key OP_COPY_MATCH p_id; slot_hash = hash op mdd pattern; slot = slot_hash mod cache_size s in
      if cache_hit s slot op mdd pattern then ret (op_res (op_cache s slot), s)
      else case proj of [] \<Rightarrow> Some (Inl Bad_access)
      | p # ps \<Rightarrow> rbind
        (if p = int idx then
           case find_val s mdd (val s pattern) of None \<Rightarrow> None
           | Some mdd \<Rightarrow>
             if mdd > 1 \<and> val s mdd = val s pattern then
               rbind (mdd_copy_match alloc (down s p_id) (down s mdd) (down s pattern) (idx + 1) ps (len - 1) s) (\<lambda>(tmp, s).
               mdd_create_node alloc (val s mdd) tmp 0 s)
             else ret (0, s)
         else union_loop alloc (\<lambda>mdd s. rbind (mdd_copy_match alloc p_id (down s mdd) pattern (idx + 1) proj len s) (\<lambda>(tmp, s).
             mdd_create_node alloc (val s mdd) tmp 0 s)) mdd 0 s)
        (\<lambda>(res, s). ret (res, cache_put (slot_hash mod cache_size s) op mdd pattern res s)))"

declare mdd_project.simps [code] next_match.simps [code] mdd_next.simps [code] mdd_prev.simps [code]
  find_val.simps [code] mdd_copy_match.simps [code]


section \<open>Meaning\<close>

text \<open>
  The positions in \<open>ps\<close> count from the first element of a whole vector; \<open>idx\<close> is the position of the first element of the vectors at hand.
\<close>

definition proj_vec :: "nat \<Rightarrow> nat list \<Rightarrow> nat list \<Rightarrow> nat list" where
  "proj_vec idx ps x = map (\<lambda>p. x ! (p - idx)) ps"

fun interleave :: "nat list \<Rightarrow> nat list \<Rightarrow> nat list" where
  "interleave (a # x) (b # y) = a # b # interleave x y"
| "interleave x y = []"

text \<open>The vector \<open>y\<close> is a successor of \<open>x\<close> under the entry \<open>r\<close> of a relation on the positions \<open>ps\<close>.\<close>

definition step_vec :: "nat \<Rightarrow> nat list \<Rightarrow> nat list \<Rightarrow> nat list \<Rightarrow> nat list \<Rightarrow> bool" where
  "step_vec idx ps x r y \<longleftrightarrow> length y = length x \<and> (\<forall>i < length x. idx + i \<notin> set ps \<longrightarrow> y ! i = x ! i)
     \<and> r = interleave (proj_vec idx ps x) (proj_vec idx ps y)"

definition next_set :: "nat \<Rightarrow> nat list \<Rightarrow> nat list set \<Rightarrow> nat list set \<Rightarrow> nat list set" where
  "next_set idx ps A R = {y. \<exists>x \<in> A. \<exists>r \<in> R. step_vec idx ps x r y}"

definition prev_set :: "nat \<Rightarrow> nat list \<Rightarrow> nat list set \<Rightarrow> nat list set \<Rightarrow> nat list set" where
  "prev_set idx ps A R = {x. \<exists>y \<in> A. \<exists>r \<in> R. step_vec idx ps x r y}"

definition match_set :: "nat \<Rightarrow> nat list \<Rightarrow> nat list set \<Rightarrow> nat list set \<Rightarrow> nat list set" where
  "match_set idx ps A R = {x \<in> A. proj_vec idx ps x \<in> R}"

definition proj_ok :: "nat \<Rightarrow> nat \<Rightarrow> nat list \<Rightarrow> bool" where
  "proj_ok idx n ps \<longleftrightarrow> sorted_wrt (<) ps \<and> (\<forall>p \<in> set ps. idx \<le> p \<and> p < idx + n)"

lemma proj_ok_0: "proj_ok idx 0 ps \<Longrightarrow> ps = []"
  by (cases ps) (auto simp: proj_ok_def)

lemma proj_ok_hit: "proj_ok idx (Suc n) (idx # ps) \<Longrightarrow> proj_ok (Suc idx) n ps"
  by (auto simp: proj_ok_def)

lemma proj_ok_miss: "proj_ok idx (Suc n) (p # ps) \<Longrightarrow> p \<noteq> idx \<Longrightarrow> proj_ok (Suc idx) n (p # ps)"
  by (fastforce simp: proj_ok_def)

lemma proj_vec_Suc: "\<forall>p \<in> set ps. idx < p \<Longrightarrow> proj_vec idx ps (a # x) = proj_vec (Suc idx) ps x"
  by (auto simp: proj_vec_def nth_Cons' intro!: arg_cong[where f = "(!) x"])

lemma proj_vec_hit: "proj_ok idx n (idx # ps) \<Longrightarrow> proj_vec idx (idx # ps) (a # x) = a # proj_vec (Suc idx) ps x"
  using proj_vec_Suc[of ps idx a x] by (simp add: proj_ok_def proj_vec_def)

lemma proj_vec_miss: "proj_ok idx n (p # ps) \<Longrightarrow> p \<noteq> idx \<Longrightarrow> proj_vec idx (p # ps) (a # x) = proj_vec (Suc idx) (p # ps) x"
  by (rule proj_vec_Suc) (fastforce simp: proj_ok_def)

lemma step_vec_nil: "step_vec idx [] x r y \<longleftrightarrow> x = y \<and> r = []"
  by (auto simp: step_vec_def proj_vec_def intro: nth_equalityI)

lemma step_vec_same:
  "(\<forall>i < length (a # x). idx + i \<notin> S \<longrightarrow> (b # y) ! i = (a # x) ! i) \<longleftrightarrow>
    (idx \<notin> S \<longrightarrow> a = b) \<and> (\<forall>i < length x. Suc idx + i \<notin> S \<longrightarrow> y ! i = x ! i)"
  by (auto simp: less_Suc_eq_0_disj)

lemma step_vec_hit:
  assumes "proj_ok idx n (idx # ps)"
  shows "step_vec idx (idx # ps) (a # x) r (b # y) \<longleftrightarrow> (\<exists>q. r = a # b # q \<and> step_vec (Suc idx) ps x q y)"
proof -
  have "Suc idx + i \<in> set (idx # ps) \<longleftrightarrow> Suc idx + i \<in> set ps" for i by simp
  then show ?thesis unfolding step_vec_def step_vec_same proj_vec_hit[OF assms] by auto
qed

lemma step_vec_miss:
  assumes "proj_ok idx n (p # ps)" and "p \<noteq> idx"
  shows "step_vec idx (p # ps) (a # x) r (b # y) \<longleftrightarrow> a = b \<and> step_vec (Suc idx) (p # ps) x r y"
proof -
  have "idx \<notin> set (p # ps)" using assms by (fastforce simp: proj_ok_def)
  then show ?thesis unfolding step_vec_def step_vec_same proj_vec_miss[OF assms] by auto
qed

lemma step_vec_Cons: "step_vec idx ps x r y \<Longrightarrow> (\<exists>a x'. x = a # x') \<longleftrightarrow> (\<exists>b y'. y = b # y')"
  by (cases x; cases y) (auto simp: step_vec_def)


text \<open>How the operations follow the structure of diagrams. Here \<open>(#) v ` D\<close> are the vectors below a node with value \<open>v\<close>.\<close>

lemma next_set_Un: "next_set idx ps (A \<union> B) R = next_set idx ps A R \<union> next_set idx ps B R"
    "next_set idx ps A (R \<union> Q) = next_set idx ps A R \<union> next_set idx ps A Q"
  by (auto simp: next_set_def)

lemma prev_set_Un: "prev_set idx ps (A \<union> B) R = prev_set idx ps A R \<union> prev_set idx ps B R"
    "prev_set idx ps A (R \<union> Q) = prev_set idx ps A R \<union> prev_set idx ps A Q"
  by (auto simp: prev_set_def)

lemma rel_set_empty [simp]: "next_set idx ps {} R = {}" "next_set idx ps A {} = {}" "prev_set idx ps {} R = {}" "prev_set idx ps A {} = {}"
    "match_set idx ps {} R = {}"
  by (simp_all add: next_set_def prev_set_def match_set_def)

lemma rel_set_nil: "next_set idx [] A {[]} = A" "prev_set idx [] A {[]} = A" "match_set idx [] A {[]} = A"
  by (auto simp: next_set_def prev_set_def match_set_def step_vec_nil proj_vec_def)

lemma next_set_miss:
  assumes "proj_ok idx n (p # ps)" and "p \<noteq> idx"
  shows "next_set idx (p # ps) ((#) v ` D) R = (#) v ` next_set (Suc idx) (p # ps) D R"
proof -
  have "step_vec idx (p # ps) (v # x) r y \<longleftrightarrow> (\<exists>z. y = v # z \<and> step_vec (Suc idx) (p # ps) x r z)" for x r y
    using step_vec_miss[OF assms] by (cases y) (auto simp: step_vec_def)
  then show ?thesis by (auto simp: next_set_def)
qed

lemma prev_set_miss:
  assumes "proj_ok idx n (p # ps)" and "p \<noteq> idx"
  shows "prev_set idx (p # ps) ((#) v ` D) R = (#) v ` prev_set (Suc idx) (p # ps) D R"
proof -
  have "step_vec idx (p # ps) x r (v # y) \<longleftrightarrow> (\<exists>z. x = v # z \<and> step_vec (Suc idx) (p # ps) z r y)" for x r y
    using step_vec_miss[OF assms] by (cases x) (auto simp: step_vec_def)
  then show ?thesis by (auto simp: prev_set_def)
qed

lemma step_vec_hit_left:
  assumes "proj_ok idx n (idx # ps)"
  shows "step_vec idx (idx # ps) (a # x) r y \<longleftrightarrow> (\<exists>b z q. y = b # z \<and> r = a # b # q \<and> step_vec (Suc idx) ps x q z)"
  using step_vec_hit[OF assms] by (cases y) (auto simp: step_vec_def)

lemma step_vec_hit_right:
  assumes "proj_ok idx n (idx # ps)"
  shows "step_vec idx (idx # ps) x r (b # y) \<longleftrightarrow> (\<exists>a z q. x = a # z \<and> r = a # b # q \<and> step_vec (Suc idx) ps z q y)"
  using step_vec_hit[OF assms] by (cases x) (auto simp: step_vec_def)

lemma next_set_hit:
  assumes "proj_ok idx n (idx # ps)"
  shows "next_set idx (idx # ps) ((#) v ` D) ((#) v ` E) = (\<Union>b. (#) b ` next_set (Suc idx) ps D {r. b # r \<in> E})"
  by (auto simp: next_set_def step_vec_hit_left[OF assms]) blast

lemma next_set_other:
  assumes "proj_ok idx n (idx # ps)"
  shows "\<forall>r \<in> Q. hd r \<noteq> v \<Longrightarrow> next_set idx (idx # ps) ((#) v ` D) Q = {}"
    and "\<forall>x \<in> S. \<exists>a y. x = a # y \<and> a \<noteq> w \<Longrightarrow> next_set idx (idx # ps) S ((#) w ` E) = {}"
  using step_vec_hit_left[OF assms] by (fastforce simp: next_set_def)+

lemma prev_set_hit:
  assumes "proj_ok idx n (idx # ps)" and "\<forall>x \<in> A. \<exists>a y. x = a # y"
  shows "prev_set idx (idx # ps) A ((#) w ` E) = (#) w ` (\<Union>b. prev_set (Suc idx) ps {y. b # y \<in> A} {r. b # r \<in> E})"
proof (intro set_eqI iffI)
  fix x assume "x \<in> prev_set idx (idx # ps) A ((#) w ` E)"
  then obtain y e where "y \<in> A" "e \<in> E" "step_vec idx (idx # ps) x (w # e) y" by (auto simp: prev_set_def)
  moreover from this obtain b y' where "y = b # y'" using assms(2) by blast
  ultimately show "x \<in> (#) w ` (\<Union>b. prev_set (Suc idx) ps {y. b # y \<in> A} {r. b # r \<in> E})"
    using step_vec_hit_right[OF assms(1)] by (auto simp: prev_set_def)
next
  fix x assume "x \<in> (#) w ` (\<Union>b. prev_set (Suc idx) ps {y. b # y \<in> A} {r. b # r \<in> E})"
  then obtain z b y r where z: "x = w # z" "b # y \<in> A" "b # r \<in> E" "step_vec (Suc idx) ps z r y" by (auto simp: prev_set_def)
  then have "step_vec idx (idx # ps) x (w # b # r) (b # y)" using step_vec_hit_right[OF assms(1)] by simp
  with z(2,3) show "x \<in> prev_set idx (idx # ps) A ((#) w ` E)" by (auto simp: prev_set_def)
qed

lemma next_set_heads:
  assumes "proj_ok idx n (p # ps)" and "p \<noteq> idx" and "\<forall>x \<in> A. \<exists>a y. x = a # y" and "y \<in> next_set idx (p # ps) A R"
  shows "\<exists>x \<in> A. hd y = hd x"
proof -
  from assms(3,4) obtain a x r where x: "a # x \<in> A" "step_vec idx (p # ps) (a # x) r y" by (fastforce simp: next_set_def)
  then have "hd y = a" using step_vec_miss[OF assms(1,2)] by (cases y) (auto simp: step_vec_def)
  with x(1) show ?thesis by (intro bexI[of _ "a # x"]) auto
qed

lemma prev_set_heads:
  assumes "proj_ok idx n (p # ps)" and "p \<noteq> idx" and "\<forall>x \<in> A. \<exists>a y. x = a # y" and "x \<in> prev_set idx (p # ps) A R"
  shows "\<exists>y \<in> A. hd x = hd y"
proof -
  from assms(3,4) obtain a y r where y: "a # y \<in> A" "step_vec idx (p # ps) x r (a # y)" by (fastforce simp: prev_set_def)
  then have "hd x = a" using step_vec_miss[OF assms(1,2)] by (cases x) (auto simp: step_vec_def)
  with y(1) show ?thesis by (intro bexI[of _ "a # y"]) auto
qed

lemma prev_set_heads_hit:
  assumes "proj_ok idx n (idx # ps)" and "\<forall>x \<in> A. \<exists>a y. x = a # y" and "x \<in> prev_set idx (idx # ps) A Q"
  shows "\<exists>r \<in> Q. hd x = hd r"
  using assms(2,3) step_vec_hit_right[OF assms(1)] by (fastforce simp: prev_set_def)

lemma proj_image_hit:
  assumes "proj_ok idx n (idx # ps)"
  shows "proj_vec idx (idx # ps) ` (#) v ` D = (#) v ` proj_vec (Suc idx) ps ` D"
  by (auto simp: proj_vec_hit[OF assms] image_image)

lemma by_heads:
  assumes "\<forall>x \<in> A. \<exists>a y. x = a # y"
  shows "A = (\<Union>v. (#) v ` {x. v # x \<in> A})"
proof (rule set_eqI)
  fix x show "x \<in> A \<longleftrightarrow> x \<in> (\<Union>v. (#) v ` {x. v # x \<in> A})" using assms by (cases x) auto
qed

lemma proj_image_miss:
  assumes "proj_ok idx n (p # ps)" and "p \<noteq> idx" and "\<forall>x \<in> A. \<exists>a y. x = a # y"
  shows "proj_vec idx (p # ps) ` A = (\<Union>v. proj_vec (Suc idx) (p # ps) ` {x. v # x \<in> A})"
  by (subst by_heads[OF assms(3)]) (simp add: image_UN image_image proj_vec_miss[OF assms(1,2)])

lemma proj_image_heads:
  assumes "\<forall>x \<in> A. \<exists>a y. x = a # y" and "y \<in> proj_vec idx (idx # ps) ` A"
  shows "\<exists>x \<in> A. hd y = hd x"
proof -
  from assms(2) obtain x where x: "x \<in> A" "y = proj_vec idx (idx # ps) x" by blast
  with assms(1) have "hd y = hd x" by (cases x) (auto simp: proj_vec_def)
  with x(1) show ?thesis by blast
qed

lemma match_set_hit:
  assumes "proj_ok idx n (idx # ps)" and "\<forall>x \<in> A. \<exists>a y. x = a # y"
  shows "match_set idx (idx # ps) A {c # r} = (#) c ` match_set (Suc idx) ps {x. c # x \<in> A} {r}"
proof (rule set_eqI)
  fix x show "x \<in> match_set idx (idx # ps) A {c # r} \<longleftrightarrow> x \<in> (#) c ` match_set (Suc idx) ps {x. c # x \<in> A} {r}"
    using assms(2) proj_vec_hit[OF assms(1)] by (cases x) (auto simp: match_set_def)
qed

lemma match_set_miss:
  assumes "proj_ok idx n (p # ps)" and "p \<noteq> idx" and "\<forall>x \<in> A. \<exists>a y. x = a # y"
  shows "match_set idx (p # ps) A R = (\<Union>v. (#) v ` match_set (Suc idx) (p # ps) {x. v # x \<in> A} R)"
proof (rule set_eqI)
  fix x show "x \<in> match_set idx (p # ps) A R \<longleftrightarrow> x \<in> (\<Union>v. (#) v ` match_set (Suc idx) (p # ps) {x. v # x \<in> A} R)"
    using assms(3) proj_vec_miss[OF assms(1,2)] by (cases x) (auto simp: match_set_def)
qed

end
