(* ===== verification/Ldd_Rel_Ok.thy ===== *)
theory Ldd_Rel_Ok
  imports Ldd_Rel
begin

text \<open>
  Projection, successors, predecessors and matching are correct. A cached result is only right for the projection it
  was computed with, of which the key has the node number, and for one length of whole vectors, which the key does not
  have. The collector does not remove the entries of a projection whose node it frees. So the invariant has two
  parameters: the vector length \<open>N\<close>, and the projections \<open>P\<close> with their node numbers, all of which stay protected.
\<close>

section \<open>The invariant\<close>

definition later :: "ldd \<Rightarrow> ldd \<Rightarrow> bool" where
  "later s t \<longleftrightarrow> (\<forall>i. prot s i \<longrightarrow> prot t i \<and> (\<forall>n A. den t n i A = den s n i A)
     \<and> (1 < i \<longrightarrow> val t i = val s i \<and> down t i = down s i \<and> right t i = right s i))"

lemma laterD:
  assumes "later s t" and "prot s i"
  shows "prot t i" and "den t n i A = den s n i A" and "1 < i \<Longrightarrow> val t i = val s i" and "1 < i \<Longrightarrow> down t i = down s i"
    and "1 < i \<Longrightarrow> right t i = right s i"
  using assms by (simp_all add: later_def)

lemma later_refl [simp]: "later s s"
  by (simp add: later_def)

lemma later_trans: "later s t \<Longrightarrow> later t u \<Longrightarrow> later s u"
  by (simp add: later_def)

lemma keeps_nodes_later: "keeps_nodes s t \<Longrightarrow> later s t"
  by (auto simp: later_def keeps_nodes_prot keeps_nodes_den keeps_nodes_fields)

type_synonym projs = "nat \<Rightarrow> nat list option"

definition projs_ok :: "projs \<Rightarrow> ldd \<Rightarrow> bool" where
  "projs_ok P s \<longleftrightarrow> (\<forall>p ps. P p = Some ps \<longrightarrow> prot s p \<and> den s (length ps) p {ps} \<and> (ps \<noteq> [] \<longrightarrow> P (down s p) = Some (tl ps)))"

text \<open>The numbers of the projections of a relation fit into the key of a cache entry.\<close>

fun small_ids :: "ldd \<Rightarrow> nat \<Rightarrow> nat list \<Rightarrow> bool" where
  "small_ids s p [] \<longleftrightarrow> True"
| "small_ids s p (q # ps) \<longleftrightarrow> p < 65536 \<and> small_ids s (down s p) ps"

definition rel_len :: "nat \<Rightarrow> nat list \<Rightarrow> nat" where
  "rel_len op ps = (if op = OP_COPY_MATCH then length ps else 2 * length ps)"

definition rel_res :: "nat \<Rightarrow> nat \<Rightarrow> nat list \<Rightarrow> nat list set \<Rightarrow> nat list set \<Rightarrow> nat list set" where
  "rel_res op idx ps A R = (if op = OP_NEXT then next_set idx ps A R else if op = OP_PREV then prev_set idx ps A R else match_set idx ps A R)"

definition rel_arg :: "nat \<Rightarrow> nat list set \<Rightarrow> bool" where
  "rel_arg op R \<longleftrightarrow> (op = OP_COPY_MATCH \<longrightarrow> (\<exists>r. R = {r}))"

definition project_entry :: "nat \<Rightarrow> projs \<Rightarrow> ldd \<Rightarrow> op_rec \<Rightarrow> bool" where
  "project_entry N P s e \<longleftrightarrow> op_op e = OP_PROJECT \<and> (\<exists>ps. P (op_arg2 e) = Some ps \<and> (\<forall>n A. n \<le> N \<longrightarrow> proj_ok (N - n) n ps
     \<longrightarrow> den s n (op_arg1 e) A \<longrightarrow> den s (length ps) (op_res e) (proj_vec (N - n) ps ` A)))"

definition product_entry :: "nat \<Rightarrow> projs \<Rightarrow> ldd \<Rightarrow> op_rec \<Rightarrow> bool" where
  "product_entry N P s e \<longleftrightarrow> (\<exists>op p ps. op \<in> {OP_NEXT, OP_PREV, OP_COPY_MATCH} \<and> p < 65536 \<and> op_op e = rel_key op p \<and> P p = Some ps
     \<and> (1 < op_arg1 e \<longrightarrow> 1 < op_arg2 e \<longrightarrow> (\<forall>n A R. n \<le> N \<longrightarrow> proj_ok (N - n) n ps \<longrightarrow> rel_arg op R \<longrightarrow> den s n (op_arg1 e) A
       \<longrightarrow> den s (rel_len op ps) (op_arg2 e) R \<longrightarrow> den s n (op_res e) (rel_res op (N - n) ps A R))))"

definition rel_entry :: "nat \<Rightarrow> projs \<Rightarrow> ldd \<Rightarrow> op_rec \<Rightarrow> bool" where
  "rel_entry N P s e \<longleftrightarrow> (rel_op (op_op e) \<longrightarrow> (\<forall>i \<in> entry_nodes e. vld s i) \<and> (project_entry N P s e \<or> product_entry N P s e))"

definition rel_entries :: "nat \<Rightarrow> projs \<Rightarrow> ldd \<Rightarrow> bool" where
  "rel_entries N P s \<longleftrightarrow> (\<forall>k < cache_size s. rel_entry N P s (op_cache s k))"

definition rel_ok :: "nat \<Rightarrow> projs \<Rightarrow> ldd \<Rightarrow> bool" where
  "rel_ok N P s \<longleftrightarrow> ldd_ok s \<and> projs_ok P s \<and> rel_entries N P s"

lemma den_gt: "den s (Suc k) i A \<Longrightarrow> A \<noteq> {} \<Longrightarrow> 1 < i"
proof (rule ccontr)
  assume a: "den s (Suc k) i A" "A \<noteq> {}" "\<not> 1 < i"
  then have "i = 0 \<or> i = Suc 0" by linarith
  with a(1,2) show False by auto
qed

lemma projs_okD:
  assumes "projs_ok P s" and "P p = Some ps"
  shows "prot s p" and "den s (length ps) p {ps}"
  using assms by (simp_all add: projs_ok_def)

lemma projs_Cons:
  assumes "projs_ok P s" and "P p = Some (q # ps)"
  shows "1 < p" and "P (down s p) = Some ps"
proof -
  have "den s (length (q # ps)) p {q # ps}" by (rule projs_okD[OF assms])
  then show "1 < p" using den_gt[of s "length ps" p "{q # ps}"] by simp
  have "(q # ps \<noteq> []) \<longrightarrow> P (down s p) = Some (tl (q # ps))" using assms unfolding projs_ok_def by blast
  then show "P (down s p) = Some ps" by simp
qed

lemma projs_ok_later: "projs_ok P s \<Longrightarrow> later s t \<Longrightarrow> projs_ok P t"
proof -
  assume P: "projs_ok P s" and l: "later s t"
  have "prot t p \<and> den t (length ps) p {ps} \<and> (ps \<noteq> [] \<longrightarrow> P (down t p) = Some (tl ps))" if p: "P p = Some ps" for p ps
  proof (cases ps)
    case Nil
    then show ?thesis using laterD(1,2)[OF l projs_okD(1)[OF P p]] projs_okD(2)[OF P p] by simp
  next
    case (Cons q qs)
    note c = projs_Cons[OF P p[unfolded Cons]]
    show ?thesis using laterD(1,2)[OF l projs_okD(1)[OF P p]] projs_okD(2)[OF P p] laterD(4)[OF l projs_okD(1)[OF P p] c(1)] c(2) Cons by simp
  qed
  then show ?thesis by (simp add: projs_ok_def)
qed

lemma small_ids_later:
  "projs_ok P s \<Longrightarrow> later s t \<Longrightarrow> P p = Some ps \<Longrightarrow> small_ids t p ps = small_ids s p ps"
proof (induction ps arbitrary: p)
  case (Cons q ps)
  note c = projs_Cons[OF Cons.prems(1,3)]
  have "down t p = down s p" using laterD(4)[OF Cons.prems(2) projs_okD(1)[OF Cons.prems(1,3)] c(1)] .
  then show ?case using Cons.IH[OF Cons.prems(1,2) c(2)] by simp
qed simp

lemma rel_key_parts:
  assumes "op < 256" and "p < 65536"
  shows "rel_key op p mod 65536 = op" and "rel_key op p div 65536 = p" and "rel_key op p AND 255 = op"
proof -
  have key: "rel_key op p = op OR push_bit 16 p" using assms(2) by (simp add: rel_key_def push_bit_eq_mult)
  have op: "take_bit 16 op = op" "drop_bit 16 op = 0" "take_bit 8 op = op" using assms(1) by (simp_all add: take_bit_eq_mod drop_bit_eq_div)
  have "take_bit 16 (rel_key op p) = op" by (simp add: key take_bit_or op take_bit_push_bit)
  then show "rel_key op p mod 65536 = op" by (simp add: take_bit_eq_mod)
  have "drop_bit 16 (rel_key op p) = p" by (simp add: key drop_bit_or op drop_bit_push_bit)
  then show "rel_key op p div 65536 = p" by (simp add: drop_bit_eq_div)
  have "take_bit 8 (rel_key op p) = op" by (simp add: key take_bit_or op take_bit_push_bit)
  moreover have "rel_key op p AND 255 = take_bit 8 (rel_key op p)" by (simp add: take_bit_eq_mask mask_eq_exp_minus_1)
  ultimately show "rel_key op p AND 255 = op" by simp
qed

lemma rel_key_inj:
  assumes "rel_key op p = rel_key op' p'" and "op < 256" "p < 65536" "op' < 256" "p' < 65536"
  shows "op = op'" and "p = p'"
  using rel_key_parts(1,2)[OF assms(2,3)] rel_key_parts(1,2)[OF assms(4,5)] assms(1) by simp_all

lemma product_entry_nodes:
  assumes "product_entry N P s e"
  shows "entry_nodes e = {op_arg1 e, op_res e, op_arg2 e}" and "rel_op (op_op e)"
proof -
  from assms obtain op p where "op \<in> {OP_NEXT, OP_PREV, OP_COPY_MATCH}" "p < 65536" "op_op e = rel_key op p"
    unfolding product_entry_def by blast
  then have "op_op e AND 255 \<in> {OP_NEXT, OP_PREV, OP_COPY_MATCH}" using rel_key_parts(3)[of op p] by auto
  then show "entry_nodes e = {op_arg1 e, op_res e, op_arg2 e}" "rel_op (op_op e)" by (auto simp: entry_nodes_def rel_op_def)
qed

text \<open>Entries keep their meaning as long as their nodes do.\<close>

lemma rel_entry_from:
  assumes "rel_entry N P s e" and "\<And>i. rel_op (op_op e) \<Longrightarrow> i \<in> entry_nodes e \<Longrightarrow> vld s i \<Longrightarrow> vld t i \<and> (\<forall>n A. den t n i A = den s n i A)"
  shows "rel_entry N P t e"
  unfolding rel_entry_def
proof (intro impI conjI)
  assume op: "rel_op (op_op e)"
  have v: "vld s i" "vld t i" "den t n i A = den s n i A" if "i \<in> entry_nodes e" for i n A
    using assms(1,2) op that unfolding rel_entry_def by blast+
  then show "\<forall>i \<in> entry_nodes e. vld t i" by blast
  have "op_arg1 e \<in> entry_nodes e" "op_res e \<in> entry_nodes e" by (simp_all add: entry_nodes_def)
  then have d: "den t n (op_arg1 e) A = den s n (op_arg1 e) A" "den t n (op_res e) A = den s n (op_res e) A" for n A using v(3) by blast+
  from assms(1) op consider "project_entry N P s e" | "product_entry N P s e" unfolding rel_entry_def by blast
  then show "project_entry N P t e \<or> product_entry N P t e"
  proof cases
    case 1
    then show ?thesis by (simp add: project_entry_def d)
  next
    case 2
    then have "den t n (op_arg2 e) A = den s n (op_arg2 e) A" for n A using product_entry_nodes(1)[OF 2] v(3) by blast
    then show ?thesis using 2 by (simp add: product_entry_def d)
  qed
qed

lemma rel_entries_from: "rel_entries N P s \<Longrightarrow> entries_from s t \<Longrightarrow> rel_entries N P t"
  unfolding rel_entries_def
proof (intro allI impI)
  fix k assume "\<forall>k < cache_size s. rel_entry N P s (op_cache s k)" and f: "entries_from s t" and k: "k < cache_size t"
  show "rel_entry N P t (op_cache t k)"
  proof (cases "rel_op (op_op (op_cache t k))")
    case True
    then have "rel_entry N P s (op_cache t k)" using f k \<open>\<forall>k < cache_size s. rel_entry N P s (op_cache s k)\<close>
      unfolding entries_from_def by metis
    then show ?thesis using f k by (rule_tac rel_entry_from) (auto simp: entries_from_def)
  qed (simp add: rel_entry_def)
qed

lemma rel_ok_keeps: "rel_ok N P s \<Longrightarrow> ldd_ok t \<Longrightarrow> keeps s t \<Longrightarrow> rel_ok N P t"
  unfolding rel_ok_def keeps_def using projs_ok_later[OF _ keeps_nodes_later] rel_entries_from by blast


section \<open>Composing runs\<close>

text \<open>
  \<open>ends N P m s Q\<close>: started in \<open>s\<close>, \<open>m\<close> ends in a state that satisfies the invariant and keeps the nodes of \<open>s\<close>, with a result that
  satisfies \<open>Q\<close>, or for lack of room.
\<close>

definition ends :: "nat \<Rightarrow> projs \<Rightarrow> ('a \<times> ldd) result option \<Rightarrow> ldd \<Rightarrow> ('a \<Rightarrow> ldd \<Rightarrow> bool) \<Rightarrow> bool" where
  "ends N P m s Q \<longleftrightarrow> no_room m \<or> (\<exists>x t. m = ret (x, t) \<and> rel_ok N P t \<and> keeps_nodes s t \<and> Q x t)"

abbreviation runs_rel :: "nat \<Rightarrow> projs \<Rightarrow> (nat \<times> ldd) result option \<Rightarrow> ldd \<Rightarrow> nat \<Rightarrow> nat list set \<Rightarrow> bool" where
  "runs_rel N P m s n A \<equiv> ends N P m s (\<lambda>i t. vld t i \<and> den t n i A)"

lemma rel_okD: "rel_ok N P s \<Longrightarrow> ldd_ok s" "rel_ok N P s \<Longrightarrow> projs_ok P s"
  by (simp_all add: rel_ok_def)

lemma ends_ret: "rel_ok N P s \<Longrightarrow> Q x s \<Longrightarrow> ends N P (ret (x, s)) s Q"
  by (auto simp: ends_def rel_okD keeps_nodes_refl)

lemma ends_of_runs_to: "rel_ok N P s \<Longrightarrow> runs_to m s n A \<Longrightarrow> runs_rel N P m s n A"
  unfolding runs_to_def ends_def using rel_ok_keeps keeps_keeps_nodes by blast

lemma ends_bind:
  assumes "ends N P m s Q" and "\<And>x t. rel_ok N P t \<Longrightarrow> keeps_nodes s t \<Longrightarrow> Q x t \<Longrightarrow> ends N P (f (x, t)) t Q'"
  shows "ends N P (rbind m f) s Q'"
  using assms(1) unfolding ends_def[of _ _ m]
proof
  assume "no_room m"
  then show ?thesis by (simp add: ends_def)
next
  assume "\<exists>x t. m = ret (x, t) \<and> rel_ok N P t \<and> keeps_nodes s t \<and> Q x t"
  then obtain x t where x: "m = ret (x, t)" "rel_ok N P t" "keeps_nodes s t" "Q x t" by blast
  with assms(2) have "ends N P (f (x, t)) t Q'" by blast
  then show ?thesis using x(1,3) keeps_nodes_trans[of s t] by (auto simp: ends_def)
qed

lemma ends_mono: "ends N P m s Q \<Longrightarrow> (\<And>x t. rel_ok N P t \<Longrightarrow> keeps_nodes s t \<Longrightarrow> Q x t \<Longrightarrow> Q' x t) \<Longrightarrow> ends N P m s Q'"
  by (auto simp: ends_def)

text \<open>A result is kept on the stack while the next one is computed.\<close>

lemma ends_push:
  assumes ok: "rel_ok N P s" and x: "vld s x" "den s k x D"
    and m: "\<And>t. rel_ok N P t \<Longrightarrow> later s t \<Longrightarrow> prot t x \<Longrightarrow> den t k x D \<Longrightarrow> (\<And>i. vld s i \<Longrightarrow> vld t i) \<Longrightarrow> (\<And>n i A. den t n i A = den s n i A)
      \<Longrightarrow> ends N P (m t) t Q"
    and pop: "\<And>y t u. Q y t \<Longrightarrow> (\<And>i. vld u i = vld t i) \<Longrightarrow> (\<And>n i A. den u n i A = den t n i A) \<Longrightarrow> later s u \<Longrightarrow> R y u"
    and f: "\<And>y t. rel_ok N P t \<Longrightarrow> keeps_nodes s t \<Longrightarrow> vld t x \<Longrightarrow> den t k x D \<Longrightarrow> R y t \<Longrightarrow> ends N P (f x y t) t Q'"
  shows "ends N P (rbind (mdd_push alloc x s) (\<lambda>s. rbind (m s) (\<lambda>(y, s). rbind (mdd_pop s) (\<lambda>(d, s). f d y s)))) s Q'"
proof (rule mdd_push_nodes[OF rel_okD(1)[OF ok] x(1), of alloc])
  assume "no_room (mdd_push alloc x s)"
  then show ?thesis by (simp add: ends_def)
next
  fix s1
  assume s1: "mdd_push alloc x s = ret s1" "ldd_ok s1" "prot s1 x" "\<And>i. prot s i \<Longrightarrow> prot s1 i"
    "\<And>n i A. den s1 n i A = den s n i A" "\<And>i. vld s1 i = vld s i" "node_table s1 = node_table s" "entries_from s s1"
    and pops: "\<And>s2. ldd_ok s2 \<Longrightarrow> keeps_nodes s1 s2 \<Longrightarrow> mdd_pop s2 = ret (x, s2\<lparr>mdd_stack := mdd_stack s\<rparr>)
        \<and> ldd_ok (s2\<lparr>mdd_stack := mdd_stack s\<rparr>) \<and> keeps_nodes s (s2\<lparr>mdd_stack := mdd_stack s\<rparr>)
        \<and> entries_from s2 (s2\<lparr>mdd_stack := mdd_stack s\<rparr>)
        \<and> (\<forall>n i A. den (s2\<lparr>mdd_stack := mdd_stack s\<rparr>) n i A = den s2 n i A) \<and> (\<forall>i. vld (s2\<lparr>mdd_stack := mdd_stack s\<rparr>) i = vld s2 i)"
  have l1: "later s s1" using s1(4,5,7) by (simp add: later_def)
  have ok1: "rel_ok N P s1" using ok s1(2,8) projs_ok_later[OF _ l1] rel_entries_from unfolding rel_ok_def by blast
  from m[OF ok1 l1 s1(3)] s1(5,6) x(2) consider "no_room (m s1)"
    | y s2 where "m s1 = ret (y, s2)" "rel_ok N P s2" "keeps_nodes s1 s2" "Q y s2" by (auto simp: ends_def)
  then show ?thesis
  proof cases
    case 1
    then show ?thesis by (simp add: s1(1) ends_def)
  next
    case (2 y s2)
    define t where "t = s2\<lparr>mdd_stack := mdd_stack s\<rparr>"
    have p: "mdd_pop s2 = ret (x, t)" "ldd_ok t" "keeps_nodes s t" "entries_from s2 t" "\<And>n i A. den t n i A = den s2 n i A" "\<And>i. vld t i = vld s2 i"
      using pops[OF rel_okD(1)[OF 2(2)] 2(3)] by (simp_all add: t_def)
    have okt: "rel_ok N P t" using ok 2(2) p(2,4) projs_ok_later[OF _ keeps_nodes_later[OF p(3)]] rel_entries_from unfolding rel_ok_def by blast
    have "prot s2 x" using keeps_nodes_prot[OF 2(3)] s1(3) by simp
    then have x2: "vld t x" "den t k x D"
      using prot_vld[OF rel_okD(1)[OF 2(2)]] keeps_nodes_den[OF 2(3) s1(3)] s1(5) x(2) p(5,6) by simp_all
    have "R y t" by (rule pop[OF 2(4)]) (simp_all add: p(5,6) keeps_nodes_later[OF p(3)])
    then have "ends N P (f x y t) t Q'" using f[OF okt p(3) x2] by blast
    then show ?thesis using keeps_nodes_trans[OF p(3)] by (auto simp: s1(1) 2(1) p(1) ends_def)
  qed
qed

lemma runs_push:
  assumes "rel_ok N P s" and "vld s x" and "den s k x D"
    and "\<And>t. rel_ok N P t \<Longrightarrow> later s t \<Longrightarrow> prot t x \<Longrightarrow> den t k x D \<Longrightarrow> runs_rel N P (m t) t n R"
    and "\<And>i t. rel_ok N P t \<Longrightarrow> keeps_nodes s t \<Longrightarrow> vld t x \<Longrightarrow> den t k x D \<Longrightarrow> vld t i \<Longrightarrow> den t n i R \<Longrightarrow> ends N P (f x i t) t Q"
  shows "ends N P (rbind (mdd_push alloc x s) (\<lambda>s. rbind (m s) (\<lambda>(y, s). rbind (mdd_pop s) (\<lambda>(d, s). f d y s)))) s Q"
  by (rule ends_push[OF assms(1-3), where Q = "\<lambda>i t. vld t i \<and> den t n i R" and R = "\<lambda>i t. vld t i \<and> den t n i R"])
    (use assms(4,5) in auto)

lemma rbind_assoc: "rbind (rbind m f) g = rbind m (\<lambda>x. rbind (f x) g)"
  by (auto simp: rbind_def split: option.splits sum.splits)

lemma rel_create:
  assumes "rel_ok N P s" and "\<not> alloc (16 * fib 47)" and "vld s d" and "vld s r"
    and "den s n d D" and "den s (Suc n) r R" and "\<forall>x \<in> R. v < hd x" and "A = (#) v ` D \<union> R"
  shows "runs_rel N P (mdd_create_node alloc v d r s) s (Suc n) A"
  using ends_of_runs_to[OF assms(1) runs_to_create[where alloc = alloc, OF rel_okD(1)[OF assms(1)] assms(2-8)]] .

lemma accumulate_run:
  assumes mem: "\<not> alloc (16 * fib 47)" and ok: "rel_ok N P s" and res: "vld s res" "den s n res X"
    and m: "\<And>t. rel_ok N P t \<Longrightarrow> later s t \<Longrightarrow> runs_rel N P (m t) t n Y"
  shows "runs_rel N P (accumulate alloc m res s) s n (X \<union> Y)"
proof -
  define inner where "inner = (\<lambda>s. rbind (m s) (\<lambda>(tmp, s). rbind (mdd_push alloc tmp s) (\<lambda>s.
     rbind (mdd_union alloc res tmp s) (\<lambda>(r, s). rbind (mdd_pop s) (\<lambda>(x, s). ret (r, s))))))"
  have "accumulate alloc m res s = rbind (mdd_push alloc res s) (\<lambda>s. rbind (inner s) (\<lambda>(r, s). rbind (mdd_pop s) (\<lambda>(x, s). ret (r, s))))"
    by (simp add: accumulate_def inner_def rbind_assoc case_prod_unfold)
  also have "runs_rel N P \<dots> s n (X \<union> Y)"
  proof (rule runs_push[OF ok res])
    fix t assume t: "rel_ok N P t" "later s t" "prot t res" "den t n res X"
    show "runs_rel N P (inner t) t n (X \<union> Y)"
      unfolding inner_def
    proof (rule ends_bind[OF m[OF t(1,2)]], simp only: prod.case)
      fix tmp u assume u: "rel_ok N P u" "keeps_nodes t u" "vld u tmp \<and> den u n tmp Y"
      have r: "prot u res" "den u n res X" using keeps_nodes_prot[OF u(2)] keeps_nodes_den[OF u(2) t(3)] t(3,4) by simp_all
      show "runs_rel N P (rbind (mdd_push alloc tmp u) (\<lambda>s. rbind (mdd_union alloc res tmp s) (\<lambda>(r, s). rbind (mdd_pop s) (\<lambda>(x, s). ret (r, s))))) u n (X \<union> Y)"
      proof (rule runs_push[OF u(1)])
        fix w assume w: "rel_ok N P w" "later u w" "prot w tmp" "den w n tmp Y"
        have "prot w res" "den w n res X" using laterD(1,2)[OF w(2) r(1)] r(2) by simp_all
        then show "runs_rel N P (mdd_union alloc res tmp w) w n (X \<union> Y)"
          using ends_of_runs_to[OF w(1) mdd_union_run[where alloc = alloc, OF mem rel_okD(1)[OF w(1)]]] w(3,4) by blast
      qed (use u(3) in \<open>auto intro: ends_ret\<close>)
    qed
  qed (auto intro: ends_ret)
  finally show ?thesis .
qed


text \<open>The loops; \<open>G v D\<close> is what the body computes for a node with value \<open>v\<close> and the vectors \<open>D\<close> below it.\<close>

lemma UN_heads:
  assumes "\<forall>x \<in> R. v < hd x" and "\<And>u. G u {} = {}"
  shows "(\<Union>u::nat. G u {x. u # x \<in> (#) v ` D \<union> R}) = G v D \<union> (\<Union>u. G u {x. u # x \<in> R})"
proof -
  have v: "{x. v # x \<in> R} = {}" using assms(1) by fastforce
  have "{x. v # x \<in> (#) v ` D \<union> R} = D \<union> {x. v # x \<in> R}" by auto
  then have 1: "{x. v # x \<in> (#) v ` D \<union> R} = D" unfolding v by simp
  have 2: "{x. u # x \<in> (#) v ` D \<union> R} = {x. u # x \<in> R}" if "u \<noteq> v" for u using that by auto
  have "G u {x. u # x \<in> (#) v ` D \<union> R} = (if u = v then G v D else {}) \<union> G u {x. u # x \<in> R}" for u
    using 1 2 v assms(2) by simp
  then show ?thesis by (auto split: if_splits)
qed

lemma union_loop_run:
  assumes mem: "\<not> alloc (16 * fib 47)" and G: "\<And>v. G v {} = {}"
    and f: "\<And>t i D. rel_ok N P t \<Longrightarrow> later base t \<Longrightarrow> 1 < i \<Longrightarrow> prot t i \<Longrightarrow> den t k (down t i) D \<Longrightarrow> D \<noteq> {} \<Longrightarrow> card D \<le> card Btop
      \<Longrightarrow> runs_rel N P (f i t) t m (G (val t i) D)"
  shows "rel_ok N P s \<Longrightarrow> later base s \<Longrightarrow> prot s mdd \<Longrightarrow> den s (Suc k) mdd B \<Longrightarrow> card B \<le> card Btop \<Longrightarrow> vld s res \<Longrightarrow> den s m res X
    \<Longrightarrow> runs_rel N P (union_loop alloc f mdd res s) s m (X \<union> (\<Union>v. G v {x. v # x \<in> B}))"
proof (induction "card B" arbitrary: s mdd B res X rule: less_induct)
  case less
  note ok = less.prems(1) and l = less.prems(2)
  show ?case
  proof (cases "1 < mdd")
    case False
    then have "B = {}" using less.prems(4) den_gt by blast
    then show ?thesis using False less.prems(1,6,7) G by (subst union_loop.simps) (auto intro!: ends_ret)
  next
    case True
    from splitsI[OF less.prems(4) True less.prems(3)] obtain D R where sp: "splits s mdd k B D R" by blast
    note sd = splitsD[OF sp]
    have "runs_rel N P (rbind (accumulate alloc (f mdd) res s) (\<lambda>(res, s). union_loop alloc f (right s mdd) res s)) s m
      (X \<union> (\<Union>v. G v {x. v # x \<in> B}))"
    proof (rule ends_bind[OF accumulate_run[where alloc = alloc, OF mem ok less.prems(6,7)]], simp_all only: prod.case)
      fix t assume t: "rel_ok N P t" "later s t"
      have "den t k (down t mdd) D" using laterD(2)[OF t(2) sd(3)] laterD(4)[OF t(2) sd(2,1)] sd(5) by simp
      then show "runs_rel N P (f mdd t) t m (G (val s mdd) D)"
        using f[OF t(1) later_trans[OF l t(2)] True laterD(1)[OF t(2) sd(2)]] sd(8,11) less.prems(5) laterD(3)[OF t(2) sd(2,1)] by simp
    next
      fix i t assume t: "rel_ok N P t" "keeps_nodes s t" "vld t i \<and> den t m i (X \<union> G (val s mdd) D)"
      note lt = keeps_nodes_later[OF t(2)]
      have r: "right t mdd = right s mdd" using laterD(5)[OF lt sd(2,1)] .
      have "runs_rel N P (union_loop alloc f (right t mdd) i t) t m ((X \<union> G (val s mdd) D) \<union> (\<Union>v. G v {x. v # x \<in> R}))"
        unfolding r using less.hyps[of R t "right s mdd" i "X \<union> G (val s mdd) D"] sd(12) t(1,3) later_trans[OF l lt] laterD(1,2)[OF lt sd(4)] sd(6) less.prems(5)
        by simp
      then show "runs_rel N P (union_loop alloc f (right t mdd) i t) t m (X \<union> (\<Union>v. G v {x. v # x \<in> B}))"
        unfolding sd(7) UN_heads[OF sd(9), of G, OF G] by (simp add: Un_assoc)
    qed
    then show ?thesis using True by (subst union_loop.simps) simp
  qed
qed


lemma prev_loop_run:
  assumes mem: "\<not> alloc (16 * fib 47)" and G: "\<And>v B. G v {} B = {}" "\<And>v A. G v A {} = {}"
    and f: "\<And>t i j D E. rel_ok N P t \<Longrightarrow> later base t \<Longrightarrow> 1 < i \<Longrightarrow> 1 < j \<Longrightarrow> prot t i \<Longrightarrow> prot t j \<Longrightarrow> den t k (down t i) D \<Longrightarrow> den t l (down t j) E
      \<Longrightarrow> card D \<le> card Atop \<Longrightarrow> card E \<le> card Btop \<Longrightarrow> runs_rel N P (f i j t) t m (G (val t i) D E)"
  shows "rel_ok N P s \<Longrightarrow> later base s \<Longrightarrow> prot base a \<Longrightarrow> prot base b \<Longrightarrow> den s (Suc k) a A \<Longrightarrow> den s (Suc l) b B \<Longrightarrow> card A \<le> card Atop \<Longrightarrow> card B \<le> card Btop
    \<Longrightarrow> vld s res \<Longrightarrow> den s m res X \<Longrightarrow> ends N P (prev_loop alloc f a b res s) s (\<lambda>(a', b', i) t. vld t i
      \<and> den t m i (X \<union> (\<Union>v. G v {x. v # x \<in> A} {x. v # x \<in> B})) \<and> (a' \<le> 1 \<or> b' \<le> 1) \<and> prot base a' \<and> prot base b')"
proof (induction "card A + card B" arbitrary: s a b A B res X rule: less_induct)
  case less
  note ok = less.prems(1) and l = less.prems(2)
  show ?case
  proof (cases "1 < a \<and> 1 < b")
    case False
    then have "A = {} \<or> B = {}" using less.prems(5,6) den_gt by blast
    then show ?thesis using False ok less.prems(3,4,9,10) G by (subst prev_loop.simps) (auto intro!: ends_ret)
  next
    case True
    from splitsI[OF less.prems(5) _ laterD(1)[OF l less.prems(3)]] True obtain D R where a: "splits s a k A D R" by blast
    from splitsI[OF less.prems(6) _ laterD(1)[OF l less.prems(4)]] True obtain E Q where b: "splits s b l B E Q" by blast
    have pr: "prot base (right s a)" "prot base (right s b)"
      using prot_children[OF less.prems(3)] prot_children[OF less.prems(4)] laterD(5)[OF l less.prems(3)] laterD(5)[OF l less.prems(4)] True by simp_all
    note sa = splitsD[OF a] and sb = splitsD[OF b]
    have A: "(\<Union>v. G v {x. v # x \<in> A} {x. v # x \<in> B}) = G (val s a) D {x. val s a # x \<in> B} \<union> (\<Union>v. G v {x. v # x \<in> R} {x. v # x \<in> B})" for B
      unfolding sa(7) by (rule UN_heads[OF sa(9), of "\<lambda>v D. G v D {x. v # x \<in> B}"]) (simp add: G)
    have B: "(\<Union>v. G v {x. v # x \<in> A} {x. v # x \<in> B}) = G (val s b) {x. val s b # x \<in> A} E \<union> (\<Union>v. G v {x. v # x \<in> A} {x. v # x \<in> Q})" for A
      unfolding sb(7) by (rule UN_heads[OF sb(9), of "\<lambda>v. G v {x. v # x \<in> A}"]) (simp add: G)
    consider "val s b < val s a" | "val s a < val s b" | "val s a = val s b" by linarith
    then show ?thesis
    proof cases
      case 1
      have "{x. val s b # x \<in> A} = {}" using splits_heads(1)[OF a] 1 by fastforce
      then have "(\<Union>v. G v {x. v # x \<in> A} {x. v # x \<in> B}) = (\<Union>v. G v {x. v # x \<in> A} {x. v # x \<in> Q})" using B G by simp
      then show ?thesis using less.hyps[of A Q s a "right s b" res X] less.prems sb(6,12) pr True 1 by (subst prev_loop.simps) simp
    next
      case 2
      have "{x. val s a # x \<in> B} = {}" using splits_heads(1)[OF b] 2 by fastforce
      then have "(\<Union>v. G v {x. v # x \<in> A} {x. v # x \<in> B}) = (\<Union>v. G v {x. v # x \<in> R} {x. v # x \<in> B})" using A G by simp
      then show ?thesis using less.hyps[of R B s "right s a" b res X] less.prems sa(6,12) pr True 2 by (subst prev_loop.simps) simp
    next
      case 3
      have "{x. val s b # x \<in> R} = {}" "{x. val s a # x \<in> B} = E" using sa(9) sb(9) 3 by (auto simp: sb(7))
      then have U: "(\<Union>v. G v {x. v # x \<in> A} {x. v # x \<in> B}) = G (val s a) D E \<union> (\<Union>v. G v {x. v # x \<in> R} {x. v # x \<in> Q})"
        using A[of B] B[of R] G by simp
      have "ends N P (rbind (accumulate alloc (f a b) res s) (\<lambda>(res, s). prev_loop alloc f (right s a) (right s b) res s)) s
        (\<lambda>(a', b', i) t. vld t i \<and> den t m i (X \<union> (\<Union>v. G v {x. v # x \<in> A} {x. v # x \<in> B})) \<and> (a' \<le> 1 \<or> b' \<le> 1) \<and> prot base a' \<and> prot base b')"
      proof (rule ends_bind[OF accumulate_run[where alloc = alloc, OF mem ok less.prems(9,10)]], simp_all only: prod.case)
        fix t assume t: "rel_ok N P t" "later s t"
        have "den t k (down t a) D" "den t l (down t b) E"
          using laterD(2)[OF t(2) sa(3)] laterD(4)[OF t(2) sa(2,1)] sa(5) laterD(2)[OF t(2) sb(3)] laterD(4)[OF t(2) sb(2,1)] sb(5) by simp_all
        then show "runs_rel N P (f a b t) t m (G (val s a) D E)"
          using f[OF t(1) later_trans[OF l t(2)] sa(1) sb(1) laterD(1)[OF t(2) sa(2)] laterD(1)[OF t(2) sb(2)]] sa(11) sb(11) less.prems(7,8) laterD(3)[OF t(2) sa(2,1)] by simp
      next
        fix i t assume t: "rel_ok N P t" "keeps_nodes s t" "vld t i \<and> den t m i (X \<union> G (val s a) D E)"
        note lt = keeps_nodes_later[OF t(2)]
        have rr: "right t a = right s a" "right t b = right s b" using laterD(5)[OF lt sa(2,1)] laterD(5)[OF lt sb(2,1)] .
        show "ends N P (prev_loop alloc f (right t a) (right t b) i t) t (\<lambda>(a', b', i) t. vld t i \<and> den t m i (X \<union> (\<Union>v. G v {x. v # x \<in> A} {x. v # x \<in> B}))
            \<and> (a' \<le> 1 \<or> b' \<le> 1) \<and> prot base a' \<and> prot base b')"
          unfolding rr U using less.hyps[of R Q t "right s a" "right s b" i "X \<union> G (val s a) D E"] sa(12) sb(12) t(1,3) later_trans[OF l lt]
            laterD(2)[OF lt sa(4)] laterD(2)[OF lt sb(4)] sa(6) sb(6) pr less.prems(7,8) by (simp add: Un_assoc)
      qed
      then show ?thesis using True 3 by (subst prev_loop.simps) simp
    qed
  qed
qed

section \<open>The cache\<close>

lemma rel_cache_put:
  assumes ok: "rel_ok N P s" and e: "rel_entry N P s \<lparr>op_op = op, op_arg1 = a, op_arg2 = b, op_res = r\<rparr>" and op: "op AND 255 \<le> 14" "rel_op op"
  shows "rel_ok N P (cache_put slot op a b r s)" and "keeps_nodes s (cache_put slot op a b r s)"
    and "vld (cache_put slot op a b r s) i = vld s i" and "den (cache_put slot op a b r s) k i C = den s k i C"
proof -
  have eo: "entry_ok s \<lparr>op_op = op, op_arg1 = a, op_arg2 = b, op_res = r\<rparr>" using op set_op_not_rel[of op] by (auto simp: entry_ok_def)
  note c = cache_put_nodes[OF rel_okD(1)[OF ok] eo]
  show "keeps_nodes s (cache_put slot op a b r s)" "vld (cache_put slot op a b r s) i = vld s i" "den (cache_put slot op a b r s) k i C = den s k i C"
    by (rule c)+
  have same: "rel_entry N P (cache_put slot op a b r s) x" if "rel_entry N P s x" for x
    using rel_entry_from[OF that] c(3,4) by blast
  have "rel_entries N P s" using ok by (simp add: rel_ok_def)
  then have "rel_entries N P (cache_put slot op a b r s)"
    using same same[OF e] by (auto simp: rel_entries_def) (auto simp: cache_put_def)
  then show "rel_ok N P (cache_put slot op a b r s)"
    using c(1) projs_ok_later[OF rel_okD(2)[OF ok] keeps_nodes_later[OF c(2)]] by (simp add: rel_ok_def)
qed

lemma product_hit:
  assumes ok: "rel_ok N P s" and hit: "cache_hit s (h mod cache_size s) (rel_key op p) a b" and ab: "1 < a" "1 < b"
    and op: "op \<in> {OP_NEXT, OP_PREV, OP_COPY_MATCH}" and p: "P p = Some ps" "p < 65536" and n: "n \<le> N" "proj_ok (N - n) n ps" "rel_arg op R"
    and d: "den s n a A" "den s (rel_len op ps) b R"
  shows "runs_rel N P (ret (op_res (op_cache s (h mod cache_size s)), s)) s n (rel_res op (N - n) ps A R)"
proof -
  define e where "e = op_cache s (h mod cache_size s)"
  have "h mod cache_size s < cache_size s" using rel_okD(1)[OF ok] sizes_bounds(2)[of s] by (simp add: ldd_ok_def)
  then have e: "rel_entry N P s e" using ok by (simp add: rel_ok_def rel_entries_def e_def)
  have he: "op_op e = rel_key op p" "op_arg1 e = a" "op_arg2 e = b" using hit by (simp_all add: cache_hit_def e_def)
  have op': "op < 256" "op \<noteq> 4" using op by auto
  note parts = rel_key_parts[OF op'(1) p(2)]
  have "rel_op (op_op e)" using op parts(3) by (auto simp: rel_op_def he)
  moreover have "op_op e \<noteq> OP_PROJECT" using parts(1) op'(2) by (auto simp: he)
  ultimately have pe: "product_entry N P s e" and v: "vld s (op_res e)" using e by (auto simp: rel_entry_def project_entry_def entry_nodes_def)
  from pe obtain op2 p2 ps2 where e2: "op2 \<in> {OP_NEXT, OP_PREV, OP_COPY_MATCH}" "p2 < 65536" "op_op e = rel_key op2 p2" "P p2 = Some ps2"
    "1 < op_arg1 e \<longrightarrow> 1 < op_arg2 e \<longrightarrow> (\<forall>n A R. n \<le> N \<longrightarrow> proj_ok (N - n) n ps2 \<longrightarrow> rel_arg op2 R \<longrightarrow> den s n (op_arg1 e) A
       \<longrightarrow> den s (rel_len op2 ps2) (op_arg2 e) R \<longrightarrow> den s n (op_res e) (rel_res op2 (N - n) ps2 A R))"
    unfolding product_entry_def by blast
  have "op2 = op" "p2 = p" using rel_key_inj[of op2 p2 op p] e2(1-3) he(1) op'(1) p(2) by auto
  then have "den s n (op_res e) (rel_res op (N - n) ps A R)" using e2(4,5) p(1) he(2,3) ab n d by auto
  with v show ?thesis by (auto intro!: ends_ret[OF ok] simp: e_def)
qed

lemma product_put:
  assumes ok: "rel_ok N P s" and op: "op \<in> {OP_NEXT, OP_PREV, OP_COPY_MATCH}" and p: "P p = Some ps" "p < 65536"
    and v: "vld s a" "vld s b" "vld s r" and n: "n \<le> N" and res: "den s n r (rel_res op (N - n) ps A R)"
    and d: "a \<le> 1 \<or> b \<le> 1 \<or> den s n a A \<and> den s (rel_len op ps) b R"
  shows "runs_rel N P (ret (r, cache_put slot (rel_key op p) a b r s)) s n (rel_res op (N - n) ps A R)"
proof -
  define e where "e = \<lparr>op_op = rel_key op p, op_arg1 = a, op_arg2 = b, op_res = r\<rparr>"
  have "op < 256" using op by auto
  then have k: "rel_key op p AND 255 = op" by (rule rel_key_parts(3)[OF _ p(2)])
  have "den s n' r (rel_res op (N - n') ps A' R')" if "1 < a" "1 < b" "den s n' a A'" "den s (rel_len op ps) b R'" for n' A' R'
  proof -
    from d that(1,2) have "den s n a A" "den s (rel_len op ps) b R" by auto
    then have "n = n' \<and> A = A'" "R = R'" using den_length_unique that by (metis less_irrefl not_one_less_zero)+
    then show ?thesis using res by simp
  qed
  then have "product_entry N P s e" using op p unfolding product_entry_def
    by (intro exI[of _ op] exI[of _ p] exI[of _ ps]) (simp add: e_def)
  then have "rel_entry N P s e" using v product_entry_nodes(1)[of N P s e] by (auto simp: rel_entry_def e_def)
  moreover have "rel_key op p AND 255 \<le> 14" "rel_op (rel_key op p)" using op k by (auto simp: rel_op_def)
  ultimately have "rel_ok N P (cache_put slot (rel_key op p) a b r s)" "keeps_nodes s (cache_put slot (rel_key op p) a b r s)"
      "vld (cache_put slot (rel_key op p) a b r s) r" "den (cache_put slot (rel_key op p) a b r s) n r (rel_res op (N - n) ps A R)"
    using rel_cache_put[OF ok, of "rel_key op p" a b r slot] v(3) res by (simp_all add: e_def)
  then show ?thesis unfolding ends_def by blast
qed

lemma product_cached:
  assumes ok: "rel_ok N P s" and pr: "prot s a" "prot s b" and ab: "1 < a" "1 < b"
    and op: "op \<in> {OP_NEXT, OP_PREV, OP_COPY_MATCH}" and p: "P p = Some ps" "p < 65536" and n: "n \<le> N" "proj_ok (N - n) n ps" "rel_arg op R"
    and d: "den s n a A" "den s (rel_len op ps) b R" and body: "runs_rel N P body s n (rel_res op (N - n) ps A R)"
  shows "runs_rel N P (if cache_hit s (h mod cache_size s) (rel_key op p) a b then ret (op_res (op_cache s (h mod cache_size s)), s)
    else rbind body (\<lambda>(res, s). ret (res, cache_put (h mod cache_size s) (rel_key op p) a b res s))) s n (rel_res op (N - n) ps A R)"
proof (cases "cache_hit s (h mod cache_size s) (rel_key op p) a b")
  case True
  then show ?thesis using product_hit[OF ok True ab op p n d] by simp
next
  case False
  have "runs_rel N P (rbind body (\<lambda>(res, s). ret (res, cache_put (h mod cache_size s) (rel_key op p) a b res s))) s n (rel_res op (N - n) ps A R)"
  proof (rule ends_bind[OF body], simp only: prod.case)
    fix i t assume t: "rel_ok N P t" "keeps_nodes s t" "vld t i \<and> den t n i (rel_res op (N - n) ps A R)"
    have "vld t a" "vld t b" using prot_vld[OF rel_okD(1)[OF t(1)]] keeps_nodes_prot[OF t(2)] pr by simp_all
    moreover have "den t n a A" "den t (rel_len op ps) b R" using keeps_nodes_den[OF t(2)] pr d by simp_all
    ultimately show "runs_rel N P (ret (i, cache_put (h mod cache_size t) (rel_key op p) a b i t)) t n (rel_res op (N - n) ps A R)"
      using product_put[OF t(1) op p _ _ _ n(1)] t(3) by blast
  qed
  with False show ?thesis by simp
qed

end
