(* ===== verification/Ldd_Next.thy ===== *)
theory Ldd_Next
  imports Ldd_Rel_Ok
begin

text \<open>
  Successors and predecessors under a relation: \<^verbatim>\<open>mdd_next\<close> and \<^verbatim>\<open>mdd_prev\<close> of \<^verbatim>\<open>src/src/vset-lib/vset_listdd.c\<close> compute
  \<open>next_set\<close> and \<open>prev_set\<close>.
\<close>

section \<open>Arguments\<close>

text \<open>What the operations expect of a set \<open>a\<close> of vectors of length \<open>n\<close> and a relation \<open>r\<close> on the positions \<open>ps\<close>.\<close>

definition rel_ready :: "nat \<Rightarrow> projs \<Rightarrow> nat \<Rightarrow> ldd \<Rightarrow> nat \<Rightarrow> nat list \<Rightarrow> nat \<Rightarrow> nat \<Rightarrow> nat \<Rightarrow> nat list set \<Rightarrow> nat \<Rightarrow> nat list set \<Rightarrow> bool" where
  "rel_ready N P op s p ps idx n a A r R \<longleftrightarrow> rel_ok N P s \<and> prot s a \<and> prot s r \<and> den s n a A \<and> den s (rel_len op ps) r R
     \<and> P p = Some ps \<and> small_ids s p ps \<and> n + idx = N \<and> proj_ok idx n ps"

lemma rel_readyD:
  assumes "rel_ready N P op s p ps idx n a A r R"
  shows "rel_ok N P s" and "prot s a" and "prot s r" and "den s n a A" and "den s (rel_len op ps) r R"
    and "P p = Some ps" and "small_ids s p ps" and "n + idx = N" and "proj_ok idx n ps"
  using assms unfolding rel_ready_def by blast+

lemma rel_ready_later:
  assumes "rel_ready N P op s p ps idx n a A r R" and "later s t" and "rel_ok N P t"
  shows "rel_ready N P op t p ps idx n a A r R"
proof -
  note d = rel_readyD[OF assms(1)]
  show ?thesis unfolding rel_ready_def
    using d assms(3) laterD(1,2)[OF assms(2) d(2)] laterD(1,2)[OF assms(2) d(3)] small_ids_later[OF rel_okD(2)[OF d(1)] assms(2) d(6)] by simp
qed

text \<open>The next level below, for a position of the projection and for another one.\<close>

lemma ready_below_hit:
  assumes r: "rel_ready N P op s p (idx # ps) idx (Suc k) a A r R"
    and "prot s i" "prot s j" "den s k i D" "den s (rel_len op ps) j E"
  shows "rel_ready N P op s (down s p) ps (Suc idx) k i D j E"
proof -
  note d = rel_readyD[OF r]
  show ?thesis unfolding rel_ready_def
    using assms(2-5) d(1,7,8) projs_Cons(2)[OF rel_okD(2)[OF d(1)] d(6)] proj_ok_hit[OF d(9)] by simp
qed

lemma ready_below_miss:
  assumes r: "rel_ready N P op s p (q # ps) idx (Suc k) a A r R" and q: "q \<noteq> idx"
    and "prot s i" "den s k i D"
  shows "rel_ready N P op s p (q # ps) (Suc idx) k i D r R"
proof -
  note d = rel_readyD[OF r]
  show ?thesis unfolding rel_ready_def using assms(3,4) d proj_ok_miss[OF d(9) q] by simp
qed

lemma ready_same:
  assumes r: "rel_ready N P op s p ps idx n a A r R" and "prot s i" "prot s j" "den s n i D" "den s (rel_len op ps) j E"
  shows "rel_ready N P op s p ps idx n i D j E"
  using rel_readyD[OF r] assms(2-5) unfolding rel_ready_def by simp

lemma ready_Cons:
  assumes r: "rel_ready N P op s p (q # ps) idx n a A r R" and "a \<noteq> 0" "r \<noteq> 0"
  obtains k where "n = Suc k" "1 < a" "1 < r"
proof -
  note d = rel_readyD[OF r]
  have ne: "A \<noteq> {}" "R \<noteq> {}" using den_empty[OF d(4)] den_empty[OF d(5)] assms(2,3) by simp_all
  have "n \<noteq> 0" using proj_ok_0[of idx "q # ps"] d(9) by (cases n) auto
  then obtain k where n: "n = Suc k" by (cases n) auto
  moreover obtain m where "rel_len op (q # ps) = Suc m" by (cases "rel_len op (q # ps)") (auto simp: rel_len_def split: if_splits)
  then have "1 < r" using den_gt[of s m r R] d(5) ne(2) by simp
  ultimately show thesis using that den_gt[OF d(4)[unfolded n] ne(1)] by blast
qed

lemma splits_cons: "splits s a k A D R \<Longrightarrow> \<forall>x \<in> A. \<exists>y ys. x = y # ys"
  using splits_heads(2) by (metis neq_Nil_conv)

text \<open>A branch that computes the right part, then the part below with the first result on the stack, and creates the node.\<close>

lemma both_run:
  assumes mem: "\<not> alloc (16 * fib 47)" and a: "splits s a k A D S"
    and m1: "runs_rel N P m1 s (Suc l) S'"
    and m2: "\<And>t. rel_ok N P t \<Longrightarrow> later s t \<Longrightarrow> runs_rel N P (m2 t) t l D'"
    and C: "C = (#) (val s a) ` D' \<union> S'" "\<forall>x \<in> S'. val s a < hd x"
    and g: "\<And>i t. rel_ok N P t \<Longrightarrow> keeps_nodes s t \<Longrightarrow> vld t i \<Longrightarrow> den t (Suc l) i C \<Longrightarrow> ends N P (g (i, t)) t Q"
  shows "ends N P (rbind m1 (\<lambda>(r, s). rbind (mdd_push alloc r s) (\<lambda>s. rbind (m2 s) (\<lambda>(res, s). rbind (mdd_pop s) (\<lambda>(r, s).
    rbind (mdd_create_node alloc (val s a) res r s) g))))) s Q"
proof (rule ends_bind[OF m1], simp only: prod.case)
  note da = splitsD[OF a]
  fix x t assume t: "rel_ok N P t" "keeps_nodes s t" "vld t x \<and> den t (Suc l) x S'"
  note lt = keeps_nodes_later[OF t(2)]
  show "ends N P (rbind (mdd_push alloc x t) (\<lambda>s. rbind (m2 s) (\<lambda>(res, s). rbind (mdd_pop s) (\<lambda>(r, s).
    rbind (mdd_create_node alloc (val s a) res r s) g)))) t Q"
  proof (rule runs_push[OF t(1)])
    show "vld t x" "den t (Suc l) x S'" using t(3) by simp_all
    fix u assume "rel_ok N P u" "later t u"
    then show "runs_rel N P (m2 u) u l D'" using m2 later_trans[OF lt] by blast
  next
    fix i u assume u: "rel_ok N P u" "keeps_nodes t u" "vld u x" "den u (Suc l) x S'" "vld u i" "den u l i D'"
    note ku = keeps_nodes_trans[OF t(2) u(2)]
    have v: "val u a = val s a" using keeps_nodes_fields(1)[OF ku da(2,1)] .
    have "runs_rel N P (mdd_create_node alloc (val u a) i x u) u (Suc l) C"
      unfolding v by (rule rel_create[where alloc = alloc, OF u(1) mem u(5,3,6,4) C(2,1)])
    then show "ends N P (rbind (mdd_create_node alloc (val u a) i x u) g) u Q"
      by (rule ends_bind) (use g keeps_nodes_trans[OF ku] in blast)
  qed
qed

lemma rbind_ret [simp]: "rbind m (\<lambda>x. ret x) = m"
  by (auto simp: rbind_def split: option.splits sum.splits)

lemma den_nil: "den s 0 i A \<Longrightarrow> i \<noteq> 0 \<Longrightarrow> i = 1 \<and> A = {[]}"
proof -
  assume d: "den s 0 i A" "i \<noteq> 0"
  then have "\<not> 1 < i" using den_node[OF d(1)] by (metis nat.distinct(1))
  with d(2) have "i = Suc 0" by linarith
  with d(1) show ?thesis by simp
qed

section \<open>Successors\<close>

text \<open>Skipping a value that only one side has.\<close>

lemma next_set_skip:
  assumes pk: "proj_ok idx n (idx # ps)" and a: "splits s a k A D S" and r: "splits s r l R E Q"
  shows "val s a < val s r \<Longrightarrow> next_set idx (idx # ps) A R = next_set idx (idx # ps) S R"
    and "val s r < val s a \<Longrightarrow> next_set idx (idx # ps) A R = next_set idx (idx # ps) A Q"
proof -
  note da = splitsD[OF a] and dr = splitsD[OF r]
  assume "val s a < val s r"
  then have "\<forall>x \<in> R. hd x \<noteq> val s a" using splits_heads(1)[OF r] by fastforce
  then show "next_set idx (idx # ps) A R = next_set idx (idx # ps) S R"
    using next_set_other(1)[OF pk] by (simp add: da(7) next_set_Un(1))
next
  note da = splitsD[OF a] and dr = splitsD[OF r]
  assume lt: "val s r < val s a"
  have "\<exists>y z. x = y # z \<and> y \<noteq> val s r" if "x \<in> A" for x
    using splits_heads(1)[OF a] splits_cons[OF a] lt that by fastforce
  then have "next_set idx (idx # ps) A ((#) (val s r) ` E) = {}" using next_set_other(2)[OF pk, of A] by blast
  then show "next_set idx (idx # ps) A R = next_set idx (idx # ps) A Q" by (simp add: dr(7) next_set_Un(2))
qed

lemma next_match_run:
  assumes pk: "proj_ok idx n (idx # ps)"
  shows "prot s a \<Longrightarrow> prot s r \<Longrightarrow> den s (Suc k) a A \<Longrightarrow> den s (Suc l) r R \<Longrightarrow> 1 < a \<Longrightarrow> 1 < r \<Longrightarrow>
    next_match s a r = Some None \<and> next_set idx (idx # ps) A R = {}
    \<or> (\<exists>a' r' A' R'. next_match s a r = Some (Some (a', r')) \<and> 1 < a' \<and> 1 < r' \<and> prot s a' \<and> prot s r' \<and> den s (Suc k) a' A' \<and> den s (Suc l) r' R'
      \<and> val s a' = val s r' \<and> card A' \<le> card A \<and> card R' \<le> card R \<and> next_set idx (idx # ps) A' R' = next_set idx (idx # ps) A R)"
proof (induction "card A + card R" arbitrary: a r A R rule: less_induct)
  case less
  from splitsI[OF less.prems(3,5,1)] obtain D S where a: "splits s a k A D S" by blast
  from splitsI[OF less.prems(4,6,2)] obtain E Q where r: "splits s r l R E Q" by blast
  note da = splitsD[OF a] and dr = splitsD[OF r]
  have z: "X = {}" if "den s (Suc m) i X" "i \<le> 1" for m i X using den_gt[OF that(1)] that(2) by auto
  consider "val s a = val s r" | "val s r < val s a" | "val s a < val s r" by linarith
  then show ?case
  proof cases
    case 1
    then have "next_match s a r = Some (Some (a, r))" by (subst next_match.simps) simp
    then show ?thesis using less.prems 1 by blast
  next
    case 2
    note sk = next_set_skip(2)[OF pk a r 2]
    show ?thesis
    proof (cases "1 < right s r")
      case False
      then have "next_match s a r = Some None" using 2 by (subst next_match.simps) (simp add: not_less)
      moreover have "Q = {}" using z[OF dr(6)] False by simp
      ultimately show ?thesis using sk by simp
    next
      case True
      have nm: "next_match s a r = next_match s a (right s r)" using 2 True by (subst next_match.simps) (simp add: not_less)
      show ?thesis unfolding nm sk[symmetric] using less.hyps[OF _ less.prems(1) dr(4) less.prems(3) dr(6) less.prems(5) True] dr(12) sk by fastforce
    qed
  next
    case 3
    note sk = next_set_skip(1)[OF pk a r 3]
    show ?thesis
    proof (cases "1 < right s a")
      case False
      then have "next_match s a r = Some None" using 3 by (subst next_match.simps) (simp add: not_less)
      moreover have "S = {}" using z[OF da(6)] False by simp
      ultimately show ?thesis using sk by simp
    next
      case ra: True
      from splitsI[OF da(6) ra da(4)] obtain D2 S2 where a2: "splits s (right s a) k S D2 S2" by blast
      show ?thesis
      proof (cases "val s r < val s (right s a)")
        case False
        have nm: "next_match s a r = next_match s (right s a) r" using 3 ra False by (subst next_match.simps) (simp add: not_less)
        show ?thesis unfolding nm using less.hyps[OF _ da(4) less.prems(2) da(6) less.prems(4) ra less.prems(6)] da(12) sk by fastforce
      next
        case lt: True
        note sk2 = next_set_skip(2)[OF pk a2 r lt]
        show ?thesis
        proof (cases "1 < right s r")
          case False
          then have "next_match s a r = Some None" using 3 ra lt by (subst next_match.simps) (simp add: not_less Let_def)
          moreover have "Q = {}" using z[OF dr(6)] False by simp
          ultimately show ?thesis using sk sk2 by simp
        next
          case True
          have nm: "next_match s a r = next_match s (right s a) (right s r)"
            using 3 ra lt True by (subst next_match.simps) (simp add: not_less Let_def)
          show ?thesis unfolding nm using less.hyps[OF _ da(4) dr(4) da(6) dr(6) ra True] da(12) dr(12) sk sk2 by fastforce
        qed
      qed
    qed
  qed
qed


text \<open>The two branches of \<^verbatim>\<open>mdd_next\<close>, for a level that the relation changes and one that it does not.\<close>

lemma next_hit_run:
  assumes mem: "\<not> alloc (16 * fib 47)" and rd: "rel_ready N P OP_NEXT s p (idx # ps) idx (Suc k) a A r R"
    and a: "splits s a k A D S" and r: "splits s r (Suc (2 * length ps)) R E Q" and eq: "val s a = val s r"
    and IH: "\<And>t p qs idx m i X j Y. m + card X + card Y < Suc k + card A + card R \<Longrightarrow> rel_ready N P OP_NEXT t p qs idx m i X j Y
      \<Longrightarrow> runs_rel N P (mdd_next alloc p i j idx (map int qs) (length qs) t) t m (next_set idx qs X Y)"
  shows "runs_rel N P (rbind (mdd_next alloc p (right s a) (right s r) idx (map int (idx # ps)) (length (idx # ps)) s) (\<lambda>(res, s).
     union_loop alloc (\<lambda>rel s. rbind (mdd_next alloc (down s p) (down s a) (down s rel) (idx + 1) (map int ps) (length ps) s) (\<lambda>(tmp, s).
       mdd_create_node alloc (val s rel) tmp 0 s)) (down s r) res s)) s (Suc k) (next_set idx (idx # ps) A R)"
proof -
  note da = splitsD[OF a] and dr = splitsD[OF r] and d = rel_readyD[OF rd]
  have len: "rel_len OP_NEXT (idx # ps) = Suc (Suc (2 * length ps))" "rel_len OP_NEXT ps = 2 * length ps" by (simp_all add: rel_len_def)
  have "runs_rel N P (mdd_next alloc p (right s a) (right s r) idx (map int (idx # ps)) (length (idx # ps)) s) s (Suc k) (next_set idx (idx # ps) S Q)"
    by (rule IH[OF _ ready_same[OF rd da(4) dr(4) da(6)]]) (use da(12) dr(12) dr(6) len in simp_all)
  then show ?thesis
  proof (rule ends_bind, simp only: prod.case)
  fix res t assume t: "rel_ok N P t" "keeps_nodes s t" "vld t res \<and> den t (Suc k) res (next_set idx (idx # ps) S Q)"
  note lt = keeps_nodes_later[OF t(2)]
  have fr: "down t r = down s r" "prot t (down s r)" "den t (Suc (2 * length ps)) (down s r) E"
    using laterD(4)[OF lt dr(2,1)] laterD(1,2)[OF lt dr(3)] dr(5) by simp_all
  have "next_set idx (idx # ps) A R = next_set idx (idx # ps) S Q \<union> (\<Union>b. (#) b ` next_set (Suc idx) ps D {x. b # x \<in> E})"
  proof -
    have "\<forall>x \<in> Q. hd x \<noteq> val s a" "\<forall>x \<in> S. \<exists>y z. x = y # z \<and> y \<noteq> val s r" using da(9,10) dr(9) eq by fastforce+
    then show ?thesis unfolding da(7) dr(7) next_set_Un using next_set_other[OF d(9), of Q "val s a"] next_set_other(2)[OF d(9), of S "val s r"]
        next_set_hit[OF d(9), of "val s a" D E] eq by auto
  qed
  moreover have "runs_rel N P (union_loop alloc (\<lambda>rel s. rbind (mdd_next alloc (down s p) (down s a) (down s rel) (idx + 1) (map int ps) (length ps) s) (\<lambda>(tmp, s).
      mdd_create_node alloc (val s rel) tmp 0 s)) (down s r) res t) t (Suc k)
      (next_set idx (idx # ps) S Q \<union> (\<Union>b. (#) b ` next_set (Suc idx) ps D {x. b # x \<in> E}))"
  proof (rule union_loop_run[where alloc = alloc and base = s and Btop = E and G = "\<lambda>b F. (#) b ` next_set (Suc idx) ps D F", OF mem])
    fix u i F assume u: "rel_ok N P u" "later s u" "1 < i" "prot u i" "den u (2 * length ps) (down u i) F" "card F \<le> card E"
    have i: "prot u (down u i)" using prot_children[OF u(4,3)] by simp
    have fa: "down u a = down s a" "prot u (down s a)" "den u k (down s a) D"
      using laterD(4)[OF u(2) da(2,1)] laterD(1,2)[OF u(2) da(3)] da(5) by simp_all
    have "runs_rel N P (mdd_next alloc (down u p) (down u a) (down u i) (idx + 1) (map int ps) (length ps) u) u k (next_set (idx + 1) ps D F)"
      unfolding fa(1) using IH[OF _ ready_below_hit[OF rel_ready_later[OF rd u(2,1)] fa(2) i fa(3)]] u(5,6) len da(11) dr(11) by simp
    then show "runs_rel N P (rbind (mdd_next alloc (down u p) (down u a) (down u i) (idx + 1) (map int ps) (length ps) u) (\<lambda>(tmp, s).
       mdd_create_node alloc (val s i) tmp 0 s)) u (Suc k) ((#) (val u i) ` next_set (Suc idx) ps D F)"
    proof (rule ends_bind, simp only: prod.case)
      fix x w assume w: "rel_ok N P w" "keeps_nodes u w" "vld w x \<and> den w k x (next_set (idx + 1) ps D F)"
      have "val w i = val u i" using keeps_nodes_fields(1)[OF w(2) u(4,3)] .
      then show "runs_rel N P (mdd_create_node alloc (val w i) x 0 w) w (Suc k) ((#) (val u i) ` next_set (Suc idx) ps D F)"
        using w(3) by (intro rel_create[where alloc = alloc, OF w(1) mem, of x 0 k "next_set (Suc idx) ps D F" "{}"]) (simp_all add: vld_def)
    qed
  qed (use t lt fr in simp_all)
  ultimately show "runs_rel N P (union_loop alloc (\<lambda>rel s. rbind (mdd_next alloc (down s p) (down s a) (down s rel) (idx + 1) (map int ps) (length ps) s) (\<lambda>(tmp, s).
      mdd_create_node alloc (val s rel) tmp 0 s)) (down t r) res t) t (Suc k) (next_set idx (idx # ps) A R)" using fr(1) by simp
  qed
qed


lemma next_miss_run:
  assumes mem: "\<not> alloc (16 * fib 47)" and rd: "rel_ready N P OP_NEXT s p (q # ps) idx (Suc k) a A r R" and q: "q \<noteq> idx"
    and a: "splits s a k A D S"
    and IH: "\<And>t p qs idx m i X j Y. m + card X + card Y < Suc k + card A + card R \<Longrightarrow> rel_ready N P OP_NEXT t p qs idx m i X j Y
      \<Longrightarrow> runs_rel N P (mdd_next alloc p i j idx (map int qs) (length qs) t) t m (next_set idx qs X Y)"
  shows "runs_rel N P (rbind (mdd_next alloc p (right s a) r idx (map int (q # ps)) (length (q # ps)) s) (\<lambda>(r', s).
    rbind (mdd_push alloc r' s) (\<lambda>s. rbind (mdd_next alloc p (down s a) r (idx + 1) (map int (q # ps)) (length (q # ps)) s) (\<lambda>(res, s).
    rbind (mdd_pop s) (\<lambda>(r, s). mdd_create_node alloc (val s a) res r s))))) s (Suc k) (next_set idx (q # ps) A R)"
proof -
  note da = splitsD[OF a] and d = rel_readyD[OF rd]
  have m1: "runs_rel N P (mdd_next alloc p (right s a) r idx (map int (q # ps)) (length (q # ps)) s) s (Suc k) (next_set idx (q # ps) S R)"
    by (rule IH[OF _ ready_same[OF rd da(4) d(3) da(6) d(5)]]) (use da(12) in simp)
  have m2: "runs_rel N P (mdd_next alloc p (down t a) r (idx + 1) (map int (q # ps)) (length (q # ps)) t) t k (next_set (Suc idx) (q # ps) D R)"
    if t: "rel_ok N P t" "later s t" for t
  proof -
    have "prot t (down s a)" "den t k (down s a) D" using laterD(1,2)[OF t(2) da(3)] da(5) by simp_all
    from IH[OF _ ready_below_miss[OF rel_ready_later[OF rd t(2,1)] q this]] show ?thesis
      using da(11) laterD(4)[OF t(2) da(2,1)] by simp
  qed
  have C: "next_set idx (q # ps) A R = (#) (val s a) ` next_set (Suc idx) (q # ps) D R \<union> next_set idx (q # ps) S R"
    unfolding da(7) next_set_Un next_set_miss[OF d(9) q] by simp
  have h: "\<forall>x \<in> next_set idx (q # ps) S R. val s a < hd x" using next_set_heads[OF d(9) q da(10)] da(9) by metis
  show ?thesis by (rule both_run[where alloc = alloc and g = "\<lambda>x. ret x", unfolded rbind_ret, OF mem a m1 m2 C h]) (auto intro: ends_ret)
qed

lemma mdd_next_run:
  assumes mem: "\<not> alloc (16 * fib 47)"
  shows "rel_ready N P OP_NEXT s p ps idx n a A r R \<Longrightarrow>
    runs_rel N P (mdd_next alloc p a r idx (map int ps) (length ps) s) s n (next_set idx ps A R)"
proof (induction "n + card A + card R" arbitrary: s p ps idx n a A r R rule: less_induct)
  case less
  note rd = less.prems and d = rel_readyD[OF less.prems]
  have v: "vld s a" using prot_vld[OF rel_okD(1)[OF d(1)]] d(2) by simp
  show ?case
  proof (cases "r = 0 \<or> a = 0 \<or> ps = []")
    case True
    then consider "r = 0 \<or> a = 0" | "r \<noteq> 0" "a \<noteq> 0" "ps = []" by blast
    then show ?thesis
    proof cases
      case 1
      then have "next_set idx ps A R = {}" using d(4,5) by auto
      then show ?thesis using 1 by (subst mdd_next.simps) (auto intro!: ends_ret[OF d(1)] simp: vld_def)
    next
      case 2
      then have "r = 1" "R = {[]}" using den_nil[of s r R] d(5) by (auto simp: rel_len_def)
      then show ?thesis using 2 d(4) v by (subst mdd_next.simps) (auto intro!: ends_ret[OF d(1)] simp: rel_set_nil)
    qed
  next
    case False
    then obtain q qs where ps: "ps = q # qs" by (cases ps) auto
    obtain k where k: "n = Suc k" "1 < a" "1 < r" using ready_Cons[OF rd[unfolded ps]] False by blast
    have len: "rel_len OP_NEXT ps = Suc (Suc (2 * length qs))" by (simp add: rel_len_def ps)
    have np: "N - n = idx" "n \<le> N" using d(8) by auto
    have small: "p < 65536" using d(7) by (simp add: ps)
    note prod = product_cached[where op = OP_NEXT, OF d(1) _ _ _ _ _ d(6) small np(2), unfolded np(1)]
    show ?thesis
    proof (cases "q = idx")
      case True
      note pk = d(9)[unfolded ps True]
      from next_match_run[OF pk d(2,3) d(4)[unfolded k(1)] d(5)[unfolded len] k(2,3)] show ?thesis
      proof
        assume "next_match s a r = Some None \<and> next_set idx (idx # qs) A R = {}"
        then show ?thesis using True ps k by (subst mdd_next.simps) (auto intro!: ends_ret[OF d(1)] simp: vld_def)
      next
        assume "\<exists>a' r' A' R'. next_match s a r = Some (Some (a', r')) \<and> 1 < a' \<and> 1 < r' \<and> prot s a' \<and> prot s r' \<and> den s (Suc k) a' A'
          \<and> den s (Suc (Suc (2 * length qs))) r' R' \<and> val s a' = val s r' \<and> card A' \<le> card A \<and> card R' \<le> card R
          \<and> next_set idx (idx # qs) A' R' = next_set idx (idx # qs) A R"
        then obtain a' r' A' R' where m: "next_match s a r = Some (Some (a', r'))" "1 < a'" "1 < r'" "prot s a'" "prot s r'" "den s (Suc k) a' A'"
          "den s (Suc (Suc (2 * length qs))) r' R'" "val s a' = val s r'" "card A' \<le> card A" "card R' \<le> card R"
          "next_set idx (idx # qs) A' R' = next_set idx (idx # qs) A R" by blast
        from splitsI[OF m(6,2,4)] obtain D S where a: "splits s a' k A' D S" by blast
        from splitsI[OF m(7,3,5)] obtain E Q where r: "splits s r' (Suc (2 * length qs)) R' E Q" by blast
        have rd': "rel_ready N P OP_NEXT s p (idx # qs) idx (Suc k) a' A' r' R'"
          using ready_same[OF rd m(4,5)] m(6,7) len k(1) by (simp add: ps True)
        have IH: "runs_rel N P (mdd_next alloc p i j idx (map int qs) (length qs) t) t m (next_set idx qs X Y)"
          if "m + card X + card Y < Suc k + card A' + card R'" "rel_ready N P OP_NEXT t p qs idx m i X j Y" for t p qs idx m i X j Y
          using less.hyps[OF _ that(2)] that(1) m(9,10) k(1) by simp
        have "rel_res OP_NEXT idx ps A' R' = next_set idx ps A R" using m(11) by (simp add: rel_res_def ps True)
        then have "runs_rel N P (if cache_hit s (hash (rel_key OP_NEXT p) a' r' mod cache_size s) (rel_key OP_NEXT p) a' r'
            then ret (op_res (op_cache s (hash (rel_key OP_NEXT p) a' r' mod cache_size s)), s)
            else rbind (rbind (mdd_next alloc p (right s a') (right s r') idx (map int (idx # qs)) (length (idx # qs)) s) (\<lambda>(res, s).
              union_loop alloc (\<lambda>rel s. rbind (mdd_next alloc (down s p) (down s a') (down s rel) (idx + 1) (map int qs) (length qs) s) (\<lambda>(tmp, s).
                mdd_create_node alloc (val s rel) tmp 0 s)) (down s r') res s))
              (\<lambda>(res, s). ret (res, cache_put (hash (rel_key OP_NEXT p) a' r' mod cache_size s) (rel_key OP_NEXT p) a' r' res s))) s n (next_set idx ps A R)"
          using prod[OF m(4,5,2,3) _ d(9) _ _ _ , of R' A'] next_hit_run[where alloc = alloc, OF mem rd' a r m(8) IH] m(6,7,11) k(1) len
          by (simp add: rel_arg_def ps True)
        then show ?thesis using m(1) k False by (subst mdd_next.simps) (simp add: ps True Let_def cong: if_cong split del: if_split)
      qed
    next
      case False
      from splitsI[OF d(4) k(2) d(2)] k(1) obtain D S where a: "splits s a k A D S" by blast
      have IH: "runs_rel N P (mdd_next alloc p i j idx (map int qs) (length qs) t) t m (next_set idx qs X Y)"
        if "m + card X + card Y < Suc k + card A + card R" "rel_ready N P OP_NEXT t p qs idx m i X j Y" for t p qs idx m i X j Y
        using less.hyps[OF _ that(2)] that(1) k(1) by simp
      have "rel_res OP_NEXT idx ps A R = next_set idx ps A R" by (simp add: rel_res_def)
      then have "runs_rel N P (if cache_hit s (hash (rel_key OP_NEXT p) a r mod cache_size s) (rel_key OP_NEXT p) a r
          then ret (op_res (op_cache s (hash (rel_key OP_NEXT p) a r mod cache_size s)), s)
          else rbind (rbind (mdd_next alloc p (right s a) r idx (map int (q # qs)) (length (q # qs)) s) (\<lambda>(r', s).
              rbind (mdd_push alloc r' s) (\<lambda>s. rbind (mdd_next alloc p (down s a) r (idx + 1) (map int (q # qs)) (length (q # qs)) s) (\<lambda>(res, s).
              rbind (mdd_pop s) (\<lambda>(r, s). mdd_create_node alloc (val s a) res r s)))))
            (\<lambda>(res, s). ret (res, cache_put (hash (rel_key OP_NEXT p) a r mod cache_size s) (rel_key OP_NEXT p) a r res s))) s n (next_set idx ps A R)"
        using prod[OF d(2,3) k(2,3) _ d(9) _ d(4,5)] next_miss_run[where alloc = alloc, OF mem rd[unfolded ps k(1)] False a IH] k(1)
        by (simp add: rel_arg_def ps)
      then show ?thesis using k False by (subst mdd_next.simps) (simp add: ps Let_def cong: if_cong split del: if_split)
    qed
  qed
qed


section \<open>Predecessors\<close>

text \<open>
  How \<^verbatim>\<open>mdd_prev\<close> ends before it stores the result: at a level that the relation changes, one of the two nodes it
  stores is 0 or 1, so that the entry is never found.
\<close>

abbreviation prev_ends :: "nat \<Rightarrow> projs \<Rightarrow> ((nat \<times> nat \<times> nat) \<times> ldd) result option \<Rightarrow> ldd \<Rightarrow> nat \<Rightarrow> nat list \<Rightarrow> nat list set \<Rightarrow> nat list set \<Rightarrow> bool" where
  "prev_ends N P m s n ps A R \<equiv> ends N P m s (\<lambda>(a, b, i) t. vld t i \<and> den t n i (prev_set (N - n) ps A R) \<and> vld t a \<and> vld t b
     \<and> (a \<le> 1 \<or> b \<le> 1 \<or> den t n a A \<and> den t (rel_len OP_PREV ps) b R))"

lemma push_let: "rbind (mdd_push alloc x s) (\<lambda>t. let v = val t i in F v t) = rbind (mdd_push alloc x s) (\<lambda>t. F (val s i) t)"
  by (simp add: mdd_push_def Let_def)

lemma triple_pop: "(\<lambda>((a, b, c), s). rbind (mdd_pop s) (\<lambda>(d, s). G a b c d s)) = (\<lambda>(y, s). rbind (mdd_pop s) (\<lambda>(d, s). case y of (a, b, c) \<Rightarrow> G a b c d s))"
  by (auto simp: fun_eq_iff)

lemma prev_hit_run:
  assumes mem: "\<not> alloc (16 * fib 47)" and rd: "rel_ready N P OP_PREV s p (idx # ps) idx (Suc k) a A r R"
    and a: "splits s a k A D S" and r: "splits s r (Suc (2 * length ps)) R E Q"
    and IH: "\<And>t p qs idx m i X j Y. m + card X + card Y < Suc k + card A + card R \<Longrightarrow> rel_ready N P OP_PREV t p qs idx m i X j Y
      \<Longrightarrow> runs_rel N P (mdd_prev alloc p i j idx (map int qs) (length qs) t) t m (prev_set idx qs X Y)"
  shows "prev_ends N P (rbind (mdd_prev alloc p a (right s r) idx (map int (idx # ps)) (length (idx # ps)) s) (\<lambda>(r', s).
     rbind (mdd_push alloc r' s) (\<lambda>s. let v = val s r in
       rbind (prev_loop alloc (\<lambda>src rel s. mdd_prev alloc (down s p) (down s src) (down s rel) (idx + 1) (map int ps) (length ps) s) a (down s r) 0 s)
         (\<lambda>((src, rel, res), s). rbind (mdd_pop s) (\<lambda>(r', s). rbind (mdd_create_node alloc v res r' s) (\<lambda>(res, s). ret ((src, rel, res), s))))))) s (Suc k) (idx # ps) A R"
proof -
  note da = splitsD[OF a] and dr = splitsD[OF r] and d = rel_readyD[OF rd]
  have idx: "N - Suc k = idx" using d(8) by simp
  have len: "rel_len OP_PREV (idx # ps) = Suc (Suc (2 * length ps))" "rel_len OP_PREV ps = 2 * length ps" by (simp_all add: rel_len_def)
  define U where "U = (\<Union>b. prev_set (Suc idx) ps {y. b # y \<in> A} {x. b # x \<in> E})"
  have C: "prev_set idx (idx # ps) A R = (#) (val s r) ` U \<union> prev_set idx (idx # ps) A Q"
    unfolding dr(7) prev_set_Un(2) U_def prev_set_hit[OF d(9) splits_cons[OF a]] ..
  have h: "\<forall>x \<in> prev_set idx (idx # ps) A Q. val s r < hd x"
    using prev_set_heads_hit[OF d(9) splits_cons[OF a]] dr(9) by metis
  have "runs_rel N P (mdd_prev alloc p a (right s r) idx (map int (idx # ps)) (length (idx # ps)) s) s (Suc k) (prev_set idx (idx # ps) A Q)"
    by (rule IH[OF _ ready_same[OF rd d(2) dr(4) d(4)]]) (use dr(6,12) len in simp_all)
  then show ?thesis
  proof (rule ends_bind, simp only: prod.case push_let)
    fix x t assume t: "rel_ok N P t" "keeps_nodes s t" "vld t x \<and> den t (Suc k) x (prev_set idx (idx # ps) A Q)"
    note lt = keeps_nodes_later[OF t(2)]
    have v: "val t r = val s r" using laterD(3)[OF lt dr(2,1)] .
    show "prev_ends N P (rbind (mdd_push alloc x t) (\<lambda>s. rbind (prev_loop alloc (\<lambda>src rel s. mdd_prev alloc (down s p) (down s src) (down s rel) (idx + 1) (map int ps) (length ps) s)
        a (down s r) 0 s) (\<lambda>((src, rel, res), s). rbind (mdd_pop s) (\<lambda>(r', s). rbind (mdd_create_node alloc (val t r) res r' s) (\<lambda>(res, s). ret ((src, rel, res), s)))))) t (Suc k) (idx # ps) A R"
      unfolding v triple_pop
    proof (rule ends_push[OF t(1), where Q = "\<lambda>(a', b', i) u. vld u i \<and> den u k i U \<and> (a' \<le> 1 \<or> b' \<le> 1) \<and> prot s a' \<and> prot s b'"
          and R = "\<lambda>(a', b', i) u. vld u i \<and> den u k i U \<and> (a' \<le> 1 \<or> b' \<le> 1) \<and> prot s a' \<and> prot s b'"])
      show "vld t x" "den t (Suc k) x (prev_set idx (idx # ps) A Q)" using t(3) by simp_all
      fix u assume u: "rel_ok N P u" "later t u"
      note lu = later_trans[OF lt u(2)]
      have fr: "down u r = down s r" "prot u (down s r)" "den u (Suc (2 * length ps)) (down s r) E" "prot u a" "den u (Suc k) a A"
        using laterD(4)[OF lu dr(2,1)] laterD(1,2)[OF lu dr(3)] dr(5) laterD(1,2)[OF lu d(2)] d(4) by simp_all
      have "ends N P (prev_loop alloc (\<lambda>src rel s. mdd_prev alloc (down s p) (down s src) (down s rel) (idx + 1) (map int ps) (length ps) s) a (down s r) 0 u) u
        (\<lambda>(a', b', i) t. vld t i \<and> den t k i ({} \<union> (\<Union>v. prev_set (Suc idx) ps {x. v # x \<in> A} {x. v # x \<in> E})) \<and> (a' \<le> 1 \<or> b' \<le> 1) \<and> prot s a' \<and> prot s b')"
      proof (rule prev_loop_run[where alloc = alloc and base = s and Atop = A and Btop = E and G = "\<lambda>v. prev_set (Suc idx) ps", OF mem])
        fix w i j X Y assume w: "rel_ok N P w" "later s w" "1 < i" "1 < j" "prot w i" "prot w j" "den w k (down w i) X" "den w (2 * length ps) (down w j) Y"
          "card X \<le> card A" "card Y \<le> card E"
        have "prot w (down w i)" "prot w (down w j)" using prot_children[OF w(5,3)] prot_children[OF w(6,4)] by simp_all
        from IH[OF _ ready_below_hit[OF rel_ready_later[OF rd w(2,1)] this w(7)]] w(8-10) len dr(11)
        show "runs_rel N P (mdd_prev alloc (down w p) (down w i) (down w j) (idx + 1) (map int ps) (length ps) w) w k (prev_set (Suc idx) ps X Y)" by simp
      qed (use u lu fr d(2) dr(3) in \<open>simp_all add: vld_def\<close>)
      then show "ends N P (prev_loop alloc (\<lambda>src rel s. mdd_prev alloc (down s p) (down s src) (down s rel) (idx + 1) (map int ps) (length ps) s) a (down u r) 0 u) u
        (\<lambda>(a', b', i) u. vld u i \<and> den u k i U \<and> (a' \<le> 1 \<or> b' \<le> 1) \<and> prot s a' \<and> prot s b')" using fr(1) by (simp add: U_def)
    next
      fix y u assume u: "rel_ok N P u" "keeps_nodes t u" "vld u x" "den u (Suc k) x (prev_set idx (idx # ps) A Q)"
        and y: "(\<lambda>(a', b', i) u. vld u i \<and> den u k i U \<and> (a' \<le> 1 \<or> b' \<le> 1) \<and> prot s a' \<and> prot s b') y u"
      obtain a' b' i where y': "y = (a', b', i)" by (cases y) auto
      have "runs_rel N P (mdd_create_node alloc (val s r) i x u) u (Suc k) (prev_set idx (idx # ps) A R)"
        by (rule rel_create[where alloc = alloc, OF u(1) mem _ u(3) _ u(4) h C]) (use y y' in auto)
      then have "prev_ends N P (rbind (mdd_create_node alloc (val s r) i x u) (\<lambda>(res, s). ret ((a', b', res), s))) u (Suc k) (idx # ps) A R"
      proof (rule ends_bind, simp only: prod.case)
        fix j w assume w: "rel_ok N P w" "keeps_nodes u w" "vld w j \<and> den w (Suc k) j (prev_set idx (idx # ps) A R)"
        have "prot w a'" "prot w b'" using y y' keeps_nodes_prot[OF keeps_nodes_trans[OF keeps_nodes_trans[OF t(2) u(2)] w(2)]] by auto
        then show "prev_ends N P (ret ((a', b', j), w)) w (Suc k) (idx # ps) A R"
          using w(3) y y' idx prot_vld[OF rel_okD(1)[OF w(1)]] by (intro ends_ret[OF w(1)]) auto
      qed
      then show "prev_ends N P (case y of (src, rel, res) \<Rightarrow> rbind (mdd_create_node alloc (val s r) res x u) (\<lambda>(res, s). ret ((src, rel, res), s))) u (Suc k) (idx # ps) A R"
        by (simp add: y')
    qed auto
  qed
qed


lemma prev_miss_run:
  assumes mem: "\<not> alloc (16 * fib 47)" and rd: "rel_ready N P OP_PREV s p (q # ps) idx (Suc k) a A r R" and q: "q \<noteq> idx"
    and a: "splits s a k A D S"
    and IH: "\<And>t p qs idx m i X j Y. m + card X + card Y < Suc k + card A + card R \<Longrightarrow> rel_ready N P OP_PREV t p qs idx m i X j Y
      \<Longrightarrow> runs_rel N P (mdd_prev alloc p i j idx (map int qs) (length qs) t) t m (prev_set idx qs X Y)"
  shows "prev_ends N P (rbind (mdd_prev alloc p (right s a) r idx (map int (q # ps)) (length (q # ps)) s) (\<lambda>(r', s).
    rbind (mdd_push alloc r' s) (\<lambda>s. rbind (mdd_prev alloc p (down s a) r (idx + 1) (map int (q # ps)) (length (q # ps)) s) (\<lambda>(res, s).
    rbind (mdd_pop s) (\<lambda>(r', s). rbind (mdd_create_node alloc (val s a) res r' s) (\<lambda>(res, s). ret ((a, r, res), s))))))) s (Suc k) (q # ps) A R"
proof -
  note da = splitsD[OF a] and d = rel_readyD[OF rd]
  have idx: "N - Suc k = idx" using d(8) by simp
  have m1: "runs_rel N P (mdd_prev alloc p (right s a) r idx (map int (q # ps)) (length (q # ps)) s) s (Suc k) (prev_set idx (q # ps) S R)"
    by (rule IH[OF _ ready_same[OF rd da(4) d(3) da(6) d(5)]]) (use da(12) in simp)
  have m2: "runs_rel N P (mdd_prev alloc p (down t a) r (idx + 1) (map int (q # ps)) (length (q # ps)) t) t k (prev_set (Suc idx) (q # ps) D R)"
    if t: "rel_ok N P t" "later s t" for t
  proof -
    have "prot t (down s a)" "den t k (down s a) D" using laterD(1,2)[OF t(2) da(3)] da(5) by simp_all
    from IH[OF _ ready_below_miss[OF rel_ready_later[OF rd t(2,1)] q this]] show ?thesis
      using da(11) laterD(4)[OF t(2) da(2,1)] by simp
  qed
  have C: "prev_set idx (q # ps) A R = (#) (val s a) ` prev_set (Suc idx) (q # ps) D R \<union> prev_set idx (q # ps) S R"
    unfolding da(7) prev_set_Un prev_set_miss[OF d(9) q] by simp
  have h: "\<forall>x \<in> prev_set idx (q # ps) S R. val s a < hd x" using prev_set_heads[OF d(9) q da(10)] da(9) by metis
  show ?thesis
  proof (rule both_run[where alloc = alloc, OF mem a m1 m2 C h], simp_all only: prod.case)
    fix i t assume t: "rel_ok N P t" "keeps_nodes s t" "vld t i" "den t (Suc k) i (prev_set idx (q # ps) A R)"
    have "vld t a" "vld t r" using prot_vld[OF rel_okD(1)[OF t(1)]] keeps_nodes_prot[OF t(2)] d(2,3) by simp_all
    then show "prev_ends N P (ret ((a, r, i), t)) t (Suc k) (q # ps) A R"
      using t d(4,5) keeps_nodes_den[OF t(2)] d(2,3) by (intro ends_ret) (simp_all add: idx)
  qed
qed

lemma prev_put_run:
  assumes p: "P p = Some ps" "p < 65536" and n: "n \<le> N" and body: "prev_ends N P body s n ps A R"
  shows "runs_rel N P (rbind body (\<lambda>((src, rel, res), s). ret (res, cache_put (h mod cache_size s) (rel_key OP_PREV p) src rel res s))) s n (prev_set (N - n) ps A R)"
proof (rule ends_bind[OF body])
  fix y t assume t: "rel_ok N P t" and y: "(\<lambda>(a, b, i) t. vld t i \<and> den t n i (prev_set (N - n) ps A R) \<and> vld t a \<and> vld t b
     \<and> (a \<le> 1 \<or> b \<le> 1 \<or> den t n a A \<and> den t (rel_len OP_PREV ps) b R)) y t"
  obtain a b i where y': "y = (a, b, i)" by (cases y) auto
  have "rel_res OP_PREV (N - n) ps A R = prev_set (N - n) ps A R" by (simp add: rel_res_def)
  then show "runs_rel N P ((\<lambda>((src, rel, res), s). ret (res, cache_put (h mod cache_size s) (rel_key OP_PREV p) src rel res s)) (y, t)) t n (prev_set (N - n) ps A R)"
    using product_put[where op = OP_PREV, OF t _ p _ _ _ n, of a b i A R] y by (simp add: y')
qed

lemma mdd_prev_run:
  assumes mem: "\<not> alloc (16 * fib 47)"
  shows "rel_ready N P OP_PREV s p ps idx n a A r R \<Longrightarrow>
    runs_rel N P (mdd_prev alloc p a r idx (map int ps) (length ps) s) s n (prev_set idx ps A R)"
proof (induction "n + card A + card R" arbitrary: s p ps idx n a A r R rule: less_induct)
  case less
  note rd = less.prems and d = rel_readyD[OF less.prems]
  have v: "vld s a" using prot_vld[OF rel_okD(1)[OF d(1)]] d(2) by simp
  show ?case
  proof (cases "r = 0 \<or> a = 0 \<or> ps = []")
    case True
    then consider "r = 0 \<or> a = 0" | "r \<noteq> 0" "a \<noteq> 0" "ps = []" by blast
    then show ?thesis
    proof cases
      case 1
      then have "prev_set idx ps A R = {}" using d(4,5) by auto
      then show ?thesis using 1 by (subst mdd_prev.simps) (auto intro!: ends_ret[OF d(1)] simp: vld_def)
    next
      case 2
      then have "r = 1" "R = {[]}" using den_nil[of s r R] d(5) by (auto simp: rel_len_def)
      then show ?thesis using 2 d(4) v by (subst mdd_prev.simps) (auto intro!: ends_ret[OF d(1)] simp: rel_set_nil)
    qed
  next
    case False
    then obtain q qs where ps: "ps = q # qs" by (cases ps) auto
    obtain k where k: "n = Suc k" "1 < a" "1 < r" using ready_Cons[OF rd[unfolded ps]] False by blast
    have len: "rel_len OP_PREV ps = Suc (Suc (2 * length qs))" by (simp add: rel_len_def ps)
    have np: "N - n = idx" "n \<le> N" using d(8) by auto
    have small: "p < 65536" using d(7) by (simp add: ps)
    from splitsI[OF d(4) k(2) d(2)] k(1) obtain D S where a: "splits s a k A D S" by blast
    from splitsI[OF d(5)[unfolded len] k(3) d(3)] obtain E Q where r: "splits s r (Suc (2 * length qs)) R E Q" by blast
    have IH: "runs_rel N P (mdd_prev alloc p i j idx (map int qs) (length qs) t) t m (prev_set idx qs X Y)"
      if "m + card X + card Y < Suc k + card A + card R" "rel_ready N P OP_PREV t p qs idx m i X j Y" for t p qs idx m i X j Y
      using less.hyps[OF _ that(2)] that(1) k(1) by simp
    note put = prev_put_run[where P = P, OF d(6) small np(2)]
    have "rel_res OP_PREV idx ps A R = prev_set idx ps A R" by (simp add: rel_res_def)
    then have hit: "runs_rel N P (ret (op_res (op_cache s (hash (rel_key OP_PREV p) a r mod cache_size s)), s)) s n (prev_set idx ps A R)"
      if "cache_hit s (hash (rel_key OP_PREV p) a r mod cache_size s) (rel_key OP_PREV p) a r"
      using product_hit[where op = OP_PREV, OF d(1) that k(2,3) _ d(6) small np(2) _ _ d(4,5)] d(9) np(1) by (simp add: rel_arg_def)
    show ?thesis
    proof (cases "cache_hit s (hash (rel_key OP_PREV p) a r mod cache_size s) (rel_key OP_PREV p) a r")
      case True
      then show ?thesis using hit k by (subst mdd_prev.simps) (simp add: ps Let_def)
    next
      case miss: False
      show ?thesis
      proof (cases "q = idx")
        case True
        note body = put[unfolded ps True k(1), OF prev_hit_run[where alloc = alloc, OF mem rd[unfolded ps True k(1)] a r IH]]
        show ?thesis using body miss k np(1) by (subst mdd_prev.simps) (simp add: ps True Let_def split del: if_split cong: if_cong)
      next
        case False
        note body = put[unfolded ps k(1), OF prev_miss_run[where alloc = alloc, OF mem rd[unfolded ps k(1)] False a IH]]
        show ?thesis using body miss k np(1) False by (subst mdd_prev.simps) (simp add: ps Let_def split del: if_split cong: if_cong)
      qed
    qed
  qed
qed

end
