(* ===== verification/Ldd_Project.thy ===== *)
theory Ldd_Project
  imports Ldd_Next
begin

text \<open>
  Projection and matching: \<^verbatim>\<open>mdd_project\<close> and \<^verbatim>\<open>mdd_copy_match\<close> of \<^verbatim>\<open>src/src/vset-lib/vset_listdd.c\<close> compute the image under \<open>proj_vec\<close> and
  \<open>match_set\<close>.
\<close>

section \<open>Projection\<close>

lemma project_hit:
  assumes ok: "rel_ok N P s" and hit: "cache_hit s (h mod cache_size s) OP_PROJECT a p" and p: "P p = Some ps"
    and n: "n \<le> N" "proj_ok (N - n) n ps" and d: "den s n a A"
  shows "runs_rel N P (ret (op_res (op_cache s (h mod cache_size s)), s)) s (length ps) (proj_vec (N - n) ps ` A)"
proof -
  define e where "e = op_cache s (h mod cache_size s)"
  have "h mod cache_size s < cache_size s" using rel_okD(1)[OF ok] sizes_bounds(2)[of s] by (simp add: ldd_ok_def)
  then have e: "rel_entry N P s e" using ok by (simp add: rel_ok_def rel_entries_def e_def)
  have he: "op_op e = OP_PROJECT" "op_arg1 e = a" "op_arg2 e = p" using hit by (simp_all add: cache_hit_def e_def)
  have "rel_op (op_op e)" by (simp add: rel_op_def he)
  moreover have "\<not> product_entry N P s e"
  proof
    assume "product_entry N P s e"
    then obtain op q where "op \<in> {OP_NEXT, OP_PREV, OP_COPY_MATCH}" "q < 65536" "op_op e = rel_key op q" unfolding product_entry_def by blast
    then show False using rel_key_parts(1)[of op q] he(1) by auto
  qed
  ultimately have "project_entry N P s e" "vld s (op_res e)" using e by (auto simp: rel_entry_def entry_nodes_def)
  then show ?thesis using p n d he(2,3) by (auto intro!: ends_ret[OF ok] simp: project_entry_def e_def[symmetric])
qed

lemma project_put:
  assumes ok: "rel_ok N P s" and p: "P p = Some ps" and v: "vld s a" "vld s r" and a: "a \<noteq> 0" and n: "n \<le> N"
    and res: "den s (length ps) r (proj_vec (N - n) ps ` A)" and d: "den s n a A"
  shows "runs_rel N P (ret (r, cache_put slot OP_PROJECT a p r s)) s (length ps) (proj_vec (N - n) ps ` A)"
proof -
  define e where "e = \<lparr>op_op = OP_PROJECT, op_arg1 = a, op_arg2 = p, op_res = r\<rparr>"
  have "den s (length ps) r (proj_vec (N - n') ps ` A')" if "den s n' a A'" for n' A'
    using den_length_unique[OF d that a] res by simp
  then have "project_entry N P s e" using p by (simp add: project_entry_def e_def)
  then have "rel_entry N P s e" using v by (simp add: rel_entry_def entry_nodes_def e_def)
  moreover have "OP_PROJECT AND 255 \<le> 14" "rel_op OP_PROJECT" by (simp_all add: rel_op_def)
  ultimately have "rel_ok N P (cache_put slot OP_PROJECT a p r s)" "keeps_nodes s (cache_put slot OP_PROJECT a p r s)"
      "vld (cache_put slot OP_PROJECT a p r s) r" "den (cache_put slot OP_PROJECT a p r s) (length ps) r (proj_vec (N - n) ps ` A)"
    using rel_cache_put[OF ok, of OP_PROJECT a p r slot] v(2) res by (simp_all add: e_def)
  then show ?thesis unfolding ends_def by blast
qed

text \<open>What projection expects of its arguments.\<close>

definition proj_ready :: "nat \<Rightarrow> projs \<Rightarrow> ldd \<Rightarrow> nat \<Rightarrow> nat list \<Rightarrow> nat \<Rightarrow> nat \<Rightarrow> nat \<Rightarrow> nat list set \<Rightarrow> bool" where
  "proj_ready N P s p ps idx n a A \<longleftrightarrow> rel_ok N P s \<and> prot s a \<and> den s n a A \<and> P p = Some ps \<and> n + idx = N \<and> proj_ok idx n ps"

lemma proj_readyD:
  assumes "proj_ready N P s p ps idx n a A"
  shows "rel_ok N P s" and "prot s a" and "den s n a A" and "P p = Some ps" and "n + idx = N" and "proj_ok idx n ps"
  using assms unfolding proj_ready_def by blast+

lemma project_hit_run:
  assumes mem: "\<not> alloc (16 * fib 47)" and rd: "proj_ready N P s p (idx # ps) idx (Suc k) a A" and a: "splits s a k A D S"
    and IH: "\<forall>t p qs idx m i X. m + card X < Suc k + card A \<longrightarrow> proj_ready N P t p qs idx m i X
      \<longrightarrow> runs_rel N P (mdd_project alloc p i idx (map int qs) (length qs) t) t (length qs) (proj_vec idx qs ` X)"
  shows "runs_rel N P (rbind (mdd_project alloc p (right s a) idx (map int (idx # ps)) (length (idx # ps)) s) (\<lambda>(r, s).
     rbind (mdd_push alloc r s) (\<lambda>s. rbind (mdd_project alloc (down s p) (down s a) (idx + 1) (map int ps) (length ps) s) (\<lambda>(tmp, s).
     rbind (mdd_pop s) (\<lambda>(r, s). mdd_create_node alloc (val s a) tmp r s))))) s (Suc (length ps)) (proj_vec idx (idx # ps) ` A)"
proof -
  note da = splitsD[OF a] and d = proj_readyD[OF rd]
  have m1: "runs_rel N P (mdd_project alloc p (right s a) idx (map int (idx # ps)) (length (idx # ps)) s) s (Suc (length ps)) (proj_vec idx (idx # ps) ` S)"
    using IH[rule_format, of "Suc k" S s p "idx # ps" idx "right s a"] da(4,6,12) d by (simp add: proj_ready_def)
  have m2: "runs_rel N P (mdd_project alloc (down t p) (down t a) (idx + 1) (map int ps) (length ps) t) t (length ps) (proj_vec (Suc idx) ps ` D)"
    if t: "rel_ok N P t" "later s t" for t
  proof -
    have "prot t (down s a)" "den t k (down s a) D" "down t a = down s a"
      using laterD(1,2)[OF t(2) da(3)] da(5) laterD(4)[OF t(2) da(2,1)] by simp_all
    moreover have "P (down t p) = Some ps" using projs_Cons(2)[OF rel_okD(2)[OF t(1)] d(4)] .
    ultimately show ?thesis using IH[rule_format, of k D t "down t p" ps "Suc idx" "down s a"] da(11) t(1) d(5) proj_ok_hit[OF d(6)] by (simp add: proj_ready_def)
  qed
  have C: "proj_vec idx (idx # ps) ` A = (#) (val s a) ` proj_vec (Suc idx) ps ` D \<union> proj_vec idx (idx # ps) ` S"
    unfolding da(7) image_Un proj_image_hit[OF d(6)] ..
  have h: "\<forall>x \<in> proj_vec idx (idx # ps) ` S. val s a < hd x" using proj_image_heads[OF da(10)] da(9) by metis
  show ?thesis
    by (rule both_run[where alloc = alloc and g = "\<lambda>x. ret x", unfolded rbind_ret, OF mem a m1 m2 C h]) (auto intro: ends_ret)
qed

lemma project_miss_run:
  assumes mem: "\<not> alloc (16 * fib 47)" and rd: "proj_ready N P s p (q # ps) idx (Suc k) a A" and q: "q \<noteq> idx" and a: "splits s a k A D S"
    and IH: "\<forall>t p qs idx m i X. m + card X < Suc k + card A \<longrightarrow> proj_ready N P t p qs idx m i X
      \<longrightarrow> runs_rel N P (mdd_project alloc p i idx (map int qs) (length qs) t) t (length qs) (proj_vec idx qs ` X)"
  shows "runs_rel N P (union_loop alloc (\<lambda>mdd s. mdd_project alloc p (down s mdd) (idx + 1) (map int (q # ps)) (length (q # ps)) s) a 0 s)
     s (length (q # ps)) (proj_vec idx (q # ps) ` A)"
proof -
  note da = splitsD[OF a] and d = proj_readyD[OF rd]
  have "runs_rel N P (union_loop alloc (\<lambda>mdd s. mdd_project alloc p (down s mdd) (idx + 1) (map int (q # ps)) (length (q # ps)) s) a 0 s)
     s (length (q # ps)) ({} \<union> (\<Union>v. proj_vec (Suc idx) (q # ps) ` {x. v # x \<in> A}))"
  proof (rule union_loop_run[where alloc = alloc and base = s and Btop = A and G = "\<lambda>v D. proj_vec (Suc idx) (q # ps) ` D", OF mem])
    fix t i X assume t: "rel_ok N P t" "later s t" "1 < i" "prot t i" "den t k (down t i) X" "card X \<le> card A"
    have "prot t (down t i)" using prot_children[OF t(4,3)] by simp
    then show "runs_rel N P (mdd_project alloc p (down t i) (idx + 1) (map int (q # ps)) (length (q # ps)) t) t (length (q # ps)) (proj_vec (Suc idx) (q # ps) ` X)"
      using IH[rule_format, of k X t p "q # ps" "Suc idx" "down t i"] t(1,5,6) d(4,5) proj_ok_miss[OF d(6) q] by (simp add: proj_ready_def)
  qed (use d in \<open>simp_all add: vld_def\<close>)
  then show ?thesis unfolding proj_image_miss[OF d(6) q splits_cons[OF a]] by simp
qed

lemma mdd_project_run:
  assumes mem: "\<not> alloc (16 * fib 47)"
  shows "proj_ready N P s p ps idx n a A \<Longrightarrow>
    runs_rel N P (mdd_project alloc p a idx (map int ps) (length ps) s) s (length ps) (proj_vec idx ps ` A)"
proof (induction "n + card A" arbitrary: s p ps idx n a A rule: less_induct)
  case less
  note rd = less.prems and d = proj_readyD[OF less.prems]
  have v: "vld s a" using prot_vld[OF rel_okD(1)[OF d(1)]] d(2) by simp
  show ?case
  proof (cases "a = 0 \<or> ps = []")
    case True
    have "a \<noteq> 0 \<Longrightarrow> ps = [] \<Longrightarrow> proj_vec idx ps ` A = {[]}" using den_empty[OF d(3)] by (auto simp: proj_vec_def)
    then show ?thesis using True d(3) by (subst mdd_project.simps) (auto intro!: ends_ret[OF d(1)] simp: vld_def)
  next
    case False
    then obtain q qs where ps: "ps = q # qs" by (cases ps) auto
    have ne: "A \<noteq> {}" using den_empty[OF d(3)] False by simp
    have "n \<noteq> 0" using proj_ok_0[of idx ps] d(6) ps by (cases n) auto
    then obtain k where k: "n = Suc k" by (cases n) auto
    have gt: "1 < a" using den_gt[OF d(3)[unfolded k] ne] .
    from splitsI[OF d(3) gt d(2)] k obtain D S where a: "splits s a k A D S" by blast
    have np: "N - n = idx" "n \<le> N" using d(5) by auto
    have IH: "\<forall>t p qs idx m i X. m + card X < Suc k + card A \<longrightarrow> proj_ready N P t p qs idx m i X
      \<longrightarrow> runs_rel N P (mdd_project alloc p i idx (map int qs) (length qs) t) t (length qs) (proj_vec idx qs ` X)"
      using less.hyps k by blast
    define h where "h = hash OP_PROJECT a p"
    show ?thesis
    proof (cases "cache_hit s (h mod cache_size s) OP_PROJECT a p")
      case True
      then show ?thesis using project_hit[OF d(1) True d(4) np(2) _ d(3)] d(6) np(1) False by (subst mdd_project.simps) (simp add: ps h_def Let_def)
    next
      case miss: False
      have put: "runs_rel N P (rbind body (\<lambda>(res, s). ret (res, cache_put (h mod cache_size s) OP_PROJECT a p res s))) s (length ps) (proj_vec idx ps ` A)"
        if "runs_rel N P body s (length ps) (proj_vec idx ps ` A)" for body
      proof (rule ends_bind[OF that], simp only: prod.case)
        fix i t assume t: "rel_ok N P t" "keeps_nodes s t" "vld t i \<and> den t (length ps) i (proj_vec idx ps ` A)"
        have "vld t a" "den t n a A" using prot_vld[OF rel_okD(1)[OF t(1)]] keeps_nodes_prot[OF t(2)] keeps_nodes_den[OF t(2)] d(2,3) by simp_all
        then show "runs_rel N P (ret (i, cache_put (h mod cache_size t) OP_PROJECT a p i t)) t (length ps) (proj_vec idx ps ` A)"
          using project_put[OF t(1) d(4) _ _ _ np(2), of a i A] t(3) gt np(1) by simp
      qed
      show ?thesis
      proof (cases "q = idx")
        case True
        have "runs_rel N P body s (length ps) (proj_vec idx ps ` A) = runs_rel N P body s (Suc (length qs)) (proj_vec idx (idx # qs) ` A)" for body
          by (simp add: ps True)
        from put[unfolded this, OF project_hit_run[where alloc = alloc, OF mem rd[unfolded ps True k] a IH]] miss gt show ?thesis
          by (subst mdd_project.simps) (simp add: ps True h_def Let_def split del: if_split cong: if_cong)
      next
        case False
        from put[OF project_miss_run[where alloc = alloc, OF mem rd[unfolded ps k] False a IH, folded ps]] miss gt False show ?thesis
          by (subst mdd_project.simps) (simp add: ps h_def Let_def split del: if_split cong: if_cong)
      qed
    qed
  qed
qed


section \<open>Matching\<close>

lemma find_val_run:
  "prot s a \<Longrightarrow> den s (Suc k) a A \<Longrightarrow> \<exists>a' A'. find_val s a v = Some a' \<and> prot s a' \<and> den s (Suc k) a' A' \<and> card A' \<le> card A
    \<and> {x. v # x \<in> A'} = {x. v # x \<in> A} \<and> (1 < a' \<longrightarrow> v \<le> val s a')"
proof (induction "card A" arbitrary: a A rule: less_induct)
  case less
  show ?case
  proof (cases "1 < a \<and> val s a < v")
    case False
    then have "find_val s a v = Some a" by (subst find_val.simps) auto
    then show ?thesis using less.prems False by fastforce
  next
    case True
    from splitsI[OF less.prems(2) _ less.prems(1)] True obtain D S where a: "splits s a k A D S" by blast
    note da = splitsD[OF a]
    have "{x. v # x \<in> S} = {x. v # x \<in> A}" using da(7) True by auto
    moreover have "find_val s a v = find_val s (right s a) v" using True by (subst find_val.simps) simp
    ultimately show ?thesis using less.hyps[OF da(12,4,6)] da(12) by fastforce
  qed
qed

lemma singleton_node:
  assumes "splits s r k {x} E Q"
  shows "x = val s r # tl x" and "E = {tl x}"
proof -
  note d = splitsD[OF assms]
  have x: "val s r # e = x" if "e \<in> E" for e using d(7) that by blast
  from d(8) obtain e where e: "e \<in> E" by blast
  show "x = val s r # tl x" unfolding x[OF e, symmetric] by simp
  have "f = tl x" if "f \<in> E" for f unfolding x[OF that, symmetric] by simp
  with e show "E = {tl x}" by blast
qed

lemma match_hit_run:
  assumes mem: "\<not> alloc (16 * fib 47)" and rd: "rel_ready N P OP_COPY_MATCH s p (idx # ps) idx (Suc k) a A r {w}"
    and a: "splits s a k A D S" and r: "1 < r"
    and IH: "\<forall>t p qs idx m i X j y. m + card X < Suc k + card A \<longrightarrow> rel_ready N P OP_COPY_MATCH t p qs idx m i X j {y}
      \<longrightarrow> runs_rel N P (mdd_copy_match alloc p i j idx (map int qs) (length qs) t) t m (match_set idx qs X {y})"
  shows "runs_rel N P (case find_val s a (val s r) of None \<Rightarrow> None | Some mdd \<Rightarrow>
      if mdd > 1 \<and> val s mdd = val s r then
        rbind (mdd_copy_match alloc (down s p) (down s mdd) (down s r) (idx + 1) (map int ps) (length ps) s) (\<lambda>(tmp, s).
        mdd_create_node alloc (val s mdd) tmp 0 s)
      else ret (0, s)) s (Suc k) (match_set idx (idx # ps) A {w})"
proof -
  note da = splitsD[OF a] and d = rel_readyD[OF rd]
  have len: "rel_len OP_COPY_MATCH (idx # ps) = Suc (length ps)" "rel_len OP_COPY_MATCH ps = length ps" by (simp_all add: rel_len_def)
  from splitsI[OF d(5)[unfolded len] r d(3)] obtain E Q where r: "splits s r (length ps) {w} E Q" by blast
  note dr = splitsD[OF r] and w = singleton_node[OF r]
  have M: "match_set idx (idx # ps) A {w} = (#) (val s r) ` match_set (Suc idx) ps {x. val s r # x \<in> A} {tl w}"
    by (subst w(1), rule match_set_hit[OF d(9) splits_cons[OF a]])
  from find_val_run[OF d(2,4), of "val s r"] obtain b B where b: "find_val s a (val s r) = Some b" "prot s b" "den s (Suc k) b B" "card B \<le> card A"
    "{x. val s r # x \<in> B} = {x. val s r # x \<in> A}" "1 < b \<longrightarrow> val s r \<le> val s b" by blast
  show ?thesis
  proof (cases "1 < b \<and> val s b = val s r")
    case True
    from splitsI[OF b(3) _ b(2)] True obtain F T where sb: "splits s b k B F T" by blast
    note db = splitsD[OF sb]
    have F: "{x. val s r # x \<in> A} = F" unfolding b(5)[symmetric] db(7) using db(9) True by auto
    have "runs_rel N P (mdd_copy_match alloc (down s p) (down s b) (down s r) (idx + 1) (map int ps) (length ps) s) s k (match_set (Suc idx) ps F {tl w})"
      using IH[rule_format, of k F s "down s p" ps "Suc idx" "down s b" "down s r" "tl w"]
        ready_below_hit[OF rd db(3) dr(3) db(5)] dr(5) w(2) len(2) db(11) b(4) by simp
    then have "runs_rel N P (rbind (mdd_copy_match alloc (down s p) (down s b) (down s r) (idx + 1) (map int ps) (length ps) s) (\<lambda>(tmp, s).
        mdd_create_node alloc (val s b) tmp 0 s)) s (Suc k) (match_set idx (idx # ps) A {w})"
    proof (rule ends_bind, simp only: prod.case)
      fix i t assume t: "rel_ok N P t" "keeps_nodes s t" "vld t i \<and> den t k i (match_set (Suc idx) ps F {tl w})"
      have "val t b = val s r" using keeps_nodes_fields(1)[OF t(2) db(2,1)] True by simp
      then show "runs_rel N P (mdd_create_node alloc (val t b) i 0 t) t (Suc k) (match_set idx (idx # ps) A {w})"
        unfolding M F using t(3) by (intro rel_create[where alloc = alloc, OF t(1) mem, of i 0 k "match_set (Suc idx) ps F {tl w}" "{}"]) (simp_all add: vld_def)
    qed
    then show ?thesis using True by (simp add: b(1))
  next
    case False
    have "{x. val s r # x \<in> B} = {}"
    proof (cases "1 < b")
      case True
      from splitsI[OF b(3) True b(2)] obtain F T where "splits s b k B F T" by blast
      then show ?thesis using splits_heads(1)[of s b k B F T] b(6) True False by fastforce
    next
      case False
      then show ?thesis using den_gt[OF b(3)] by auto
    qed
    then have "match_set idx (idx # ps) A {w} = {}" unfolding M b(5)[symmetric] by simp
    then show ?thesis using False b(1) by (auto intro!: ends_ret[OF d(1)] simp: vld_def)
  qed
qed

lemma match_miss_run:
  assumes mem: "\<not> alloc (16 * fib 47)" and rd: "rel_ready N P OP_COPY_MATCH s p (q # ps) idx (Suc k) a A r {w}" and q: "q \<noteq> idx"
    and a: "splits s a k A D S"
    and IH: "\<forall>t p qs idx m i X j y. m + card X < Suc k + card A \<longrightarrow> rel_ready N P OP_COPY_MATCH t p qs idx m i X j {y}
      \<longrightarrow> runs_rel N P (mdd_copy_match alloc p i j idx (map int qs) (length qs) t) t m (match_set idx qs X {y})"
  shows "runs_rel N P (union_loop alloc (\<lambda>mdd s. rbind (mdd_copy_match alloc p (down s mdd) r (idx + 1) (map int (q # ps)) (length (q # ps)) s) (\<lambda>(tmp, s).
      mdd_create_node alloc (val s mdd) tmp 0 s)) a 0 s) s (Suc k) (match_set idx (q # ps) A {w})"
proof -
  note d = rel_readyD[OF rd]
  have "runs_rel N P (union_loop alloc (\<lambda>mdd s. rbind (mdd_copy_match alloc p (down s mdd) r (idx + 1) (map int (q # ps)) (length (q # ps)) s) (\<lambda>(tmp, s).
      mdd_create_node alloc (val s mdd) tmp 0 s)) a 0 s) s (Suc k) ({} \<union> (\<Union>v. (#) v ` match_set (Suc idx) (q # ps) {x. v # x \<in> A} {w}))"
  proof (rule union_loop_run[where alloc = alloc and base = s and Btop = A and G = "\<lambda>v D. (#) v ` match_set (Suc idx) (q # ps) D {w}", OF mem])
    fix t i X assume t: "rel_ok N P t" "later s t" "1 < i" "prot t i" "den t k (down t i) X" "card X \<le> card A"
    have "prot t (down t i)" using prot_children[OF t(4,3)] by simp
    from IH[rule_format, OF _ ready_below_miss[OF rel_ready_later[OF rd t(2,1)] q this t(5)]] t(6)
    have "runs_rel N P (mdd_copy_match alloc p (down t i) r (idx + 1) (map int (q # ps)) (length (q # ps)) t) t k (match_set (Suc idx) (q # ps) X {w})" by simp
    then show "runs_rel N P (rbind (mdd_copy_match alloc p (down t i) r (idx + 1) (map int (q # ps)) (length (q # ps)) t) (\<lambda>(tmp, s).
      mdd_create_node alloc (val s i) tmp 0 s)) t (Suc k) ((#) (val t i) ` match_set (Suc idx) (q # ps) X {w})"
    proof (rule ends_bind, simp only: prod.case)
      fix x u assume u: "rel_ok N P u" "keeps_nodes t u" "vld u x \<and> den u k x (match_set (Suc idx) (q # ps) X {w})"
      have "val u i = val t i" using keeps_nodes_fields(1)[OF u(2) t(4,3)] .
      then show "runs_rel N P (mdd_create_node alloc (val u i) x 0 u) u (Suc k) ((#) (val t i) ` match_set (Suc idx) (q # ps) X {w})"
        using u(3) by (intro rel_create[where alloc = alloc, OF u(1) mem, of x 0 k "match_set (Suc idx) (q # ps) X {w}" "{}"]) (simp_all add: vld_def)
    qed
  qed (use d in \<open>simp_all add: vld_def\<close>)
  then show ?thesis unfolding match_set_miss[OF d(9) q splits_cons[OF a]] by simp
qed

lemma mdd_copy_match_run:
  assumes mem: "\<not> alloc (16 * fib 47)"
  shows "rel_ready N P OP_COPY_MATCH s p ps idx n a A r {w} \<Longrightarrow>
    runs_rel N P (mdd_copy_match alloc p a r idx (map int ps) (length ps) s) s n (match_set idx ps A {w})"
proof (induction "n + card A" arbitrary: s p ps idx n a A r w rule: less_induct)
  case less
  note rd = less.prems and d = rel_readyD[OF less.prems]
  have v: "vld s a" using prot_vld[OF rel_okD(1)[OF d(1)]] d(2) by simp
  have w: "ps = [] \<Longrightarrow> w = []" using den_length[OF d(5)] by (simp add: rel_len_def)
  show ?case
  proof (cases "a = 0 \<or> a = 1 \<or> ps = []")
    case True
    have "ps = []" if "a = 1" using that d(4) proj_ok_0[of idx ps] d(9) by simp
    then have "a \<noteq> 0 \<Longrightarrow> match_set idx ps A {w} = A" using True w rel_set_nil(3) by auto
    then show ?thesis using True d(4) v by (subst mdd_copy_match.simps) (auto intro!: ends_ret[OF d(1)] simp: vld_def)
  next
    case False
    then obtain q qs where ps: "ps = q # qs" by (cases ps) auto
    have nr: "r \<noteq> 0" using den_empty[OF d(5)] by auto
    obtain k where k: "n = Suc k" "1 < a" "1 < r" using ready_Cons[OF rd[unfolded ps]] False nr by blast
    from splitsI[OF d(4) k(2) d(2)] k(1) obtain D S where a: "splits s a k A D S" by blast
    have np: "N - n = idx" "n \<le> N" using d(8) by auto
    have small: "p < 65536" using d(7) by (simp add: ps)
    have IH: "\<forall>t p qs idx m i X j y. m + card X < Suc k + card A \<longrightarrow> rel_ready N P OP_COPY_MATCH t p qs idx m i X j {y}
      \<longrightarrow> runs_rel N P (mdd_copy_match alloc p i j idx (map int qs) (length qs) t) t m (match_set idx qs X {y})"
      using less.hyps k(1) by blast
    have rr: "rel_res OP_COPY_MATCH idx ps A {w} = match_set idx ps A {w}" by (simp add: rel_res_def)
    have prod: "runs_rel N P (if cache_hit s (hash (rel_key OP_COPY_MATCH p) a r mod cache_size s) (rel_key OP_COPY_MATCH p) a r
          then ret (op_res (op_cache s (hash (rel_key OP_COPY_MATCH p) a r mod cache_size s)), s)
          else rbind body (\<lambda>(res, s). ret (res, cache_put (hash (rel_key OP_COPY_MATCH p) a r mod cache_size s) (rel_key OP_COPY_MATCH p) a r res s)))
        s n (match_set idx ps A {w})" if "runs_rel N P body s n (match_set idx ps A {w})" for body
      using product_cached[where op = OP_COPY_MATCH, OF d(1,2,3) k(2,3) _ d(6) small np(2) _ _ d(4,5)] that d(9) np(1) rr
      by (simp add: rel_arg_def)
    show ?thesis
    proof (cases "q = idx")
      case True
      from prod[unfolded ps True k(1), OF match_hit_run[where alloc = alloc, OF mem rd[unfolded ps True k(1)] a k(3) IH]] k show ?thesis
        by (subst mdd_copy_match.simps) (simp add: ps True Let_def split del: if_split cong: if_cong option.case_cong)
    next
      case False
      from prod[unfolded ps k(1), OF match_miss_run[where alloc = alloc, OF mem rd[unfolded ps k(1)] False a IH]] k False show ?thesis
        by (subst mdd_copy_match.simps) (simp add: ps Let_def split del: if_split cong: if_cong)
    qed
  qed
qed

end
