(* ===== verification/Ldd_Rels.thy ===== *)
theory Ldd_Rels
  imports Vset_Listdd Ldd_Project
begin

text \<open>
  The relations of \<^verbatim>\<open>src/src/vset-lib/vset_listdd.c\<close> and the operations on set objects that use a projection: relation
  objects, projection, successors, predecessors and matching. A relation object has the fields of a set object, which
  share the record of the model. This theory has the model, the sets of vectors that it implements, and the invariant.
\<close>

section \<open>Model\<close>

definition get_rel :: "ldd \<Rightarrow> nat \<Rightarrow> vector_set option" where
  "get_rel s i = map_of (protected_rels s) i"

definition upd_rel :: "nat \<Rightarrow> (vector_set \<Rightarrow> vector_set) \<Rightarrow> ldd \<Rightarrow> ldd" where
  "upd_rel i f s = s\<lparr>protected_rels := map (\<lambda>(j, v). (j, if j = i then f v else v)) (protected_rels s)\<rparr>"

definition with_rel :: "ldd \<Rightarrow> nat \<Rightarrow> (vector_set \<Rightarrow> 'a result option) \<Rightarrow> 'a result option" where
  "with_rel s i f = (case get_rel s i of None \<Rightarrow> Some (Inl Bad_access) | Some v \<Rightarrow> f v)"

text \<open>The loop over the projection in \<^verbatim>\<open>rel_create_mdd\<close>, from its last entry to its first.\<close>

fun rel_create_proj :: "(nat \<Rightarrow> bool) \<Rightarrow> nat \<Rightarrow> int list \<Rightarrow> ldd \<Rightarrow> ldd result option" where
  "rel_create_proj alloc i [] s = ret s"
| "rel_create_proj alloc i (p # ps) s =
     (let s = upd_rel i (\<lambda>v. v\<lparr>vs_proj := p # vs_proj v\<rparr>) s
      in with_rel s i (\<lambda>v. rbind (mdd_create_node alloc (u32_of_int p) (vs_p_id v) 0 s)
           (\<lambda>(r, s). let s = upd_rel i (\<lambda>v. v\<lparr>vs_p_id := r\<rparr>) s
              in if r div 2 ^ 16 > 0 then abort ''rel_create_mdd: projection identifier too large''
                 else rel_create_proj alloc i ps s)))"

definition rel_create_mdd :: "(nat \<Rightarrow> bool) \<Rightarrow> nat \<Rightarrow> nat \<Rightarrow> int \<Rightarrow> int list \<Rightarrow> ldd \<Rightarrow> ldd result option" where
  "rel_create_mdd alloc i sz k proj s =
     (if \<not> (0 \<le> k \<and> k \<le> int sz) then Some (Inl Assert_fail)
      else let v = \<lparr>vs_size = sz, vs_mdd = 0, vs_p_id = 1, vs_p_len = k, vs_proj = []\<rparr>;
               s = s\<lparr>protected_rels := (i, v) # protected_rels s\<rparr>
           in rel_create_proj alloc i (rev (take (nat k) proj)) s)"

definition rel_add_mdd :: "(nat \<Rightarrow> bool) \<Rightarrow> nat \<Rightarrow> int list \<Rightarrow> int list \<Rightarrow> ldd \<Rightarrow> ldd result option" where
  "rel_add_mdd alloc i src dst s = with_rel s i (\<lambda>v.
     let N = vset_len v in
     if length src < N \<or> length dst < N then Some (Inl Bad_access)
     else let vec = concat (map (\<lambda>k. [u32_of_int (src ! k), u32_of_int (dst ! k)]) [0..<N]) in
       rbind (mdd_put alloc (vs_mdd v) vec (2 * N) s) (\<lambda>(r, is_new, s). ret (upd_rel i (\<lambda>v. v\<lparr>vs_mdd := r\<rparr>) s)))"

text \<open>A length below \<open>- 1\<close>, which \<^verbatim>\<open>set_create_mdd\<close> accepts, is neither 0 nor in the range of the projection.\<close>

definition set_project_mdd :: "(nat \<Rightarrow> bool) \<Rightarrow> nat \<Rightarrow> nat \<Rightarrow> ldd \<Rightarrow> ldd result option" where
  "set_project_mdd alloc dst src s = with_set s dst (\<lambda>v. with_set s src (\<lambda>w.
     if vs_p_len w \<noteq> - 1 \<or> vs_p_len v = - 1 then ret (upd_set dst (\<lambda>v. v\<lparr>vs_mdd := vs_mdd w\<rparr>) s)
     else let s = upd_set dst (\<lambda>v. v\<lparr>vs_mdd := 0\<rparr>) s in
       with_set s src (\<lambda>w. rbind (mdd_project alloc (vs_p_id v) (vs_mdd w) 0 (vs_proj v) (u32_of_int (vs_p_len v)) s)
         (\<lambda>(r, s). ret (upd_set dst (\<lambda>v. v\<lparr>vs_mdd := r\<rparr>) s)))))"

definition set_next_mdd :: "(nat \<Rightarrow> bool) \<Rightarrow> nat \<Rightarrow> nat \<Rightarrow> nat \<Rightarrow> ldd \<Rightarrow> ldd result option" where
  "set_next_mdd alloc dst src rel s = with_set s dst (\<lambda>v. with_set s src (\<lambda>w. with_rel s rel (\<lambda>x.
     if \<not> (vs_p_len w = - 1 \<and> vs_p_len v = - 1) then Some (Inl Assert_fail)
     else rbind (mdd_next alloc (vs_p_id x) (vs_mdd w) (vs_mdd x) 0 (vs_proj x) (u32_of_int (vs_p_len x)) s)
       (\<lambda>(r, s). ret (upd_set dst (\<lambda>v. v\<lparr>vs_mdd := r\<rparr>) s)))))"

definition set_prev_mdd :: "(nat \<Rightarrow> bool) \<Rightarrow> nat \<Rightarrow> nat \<Rightarrow> nat \<Rightarrow> nat \<Rightarrow> ldd \<Rightarrow> ldd result option" where
  "set_prev_mdd alloc dst src rel uni s = with_set s dst (\<lambda>v. with_set s src (\<lambda>w. with_rel s rel (\<lambda>x.
     if \<not> (vs_p_len w = - 1 \<and> vs_p_len v = - 1) then Some (Inl Assert_fail)
     else rbind (mdd_prev alloc (vs_p_id x) (vs_mdd w) (vs_mdd x) 0 (vs_proj x) (u32_of_int (vs_p_len x)) s)
       (\<lambda>(r, s). set_intersect_mdd alloc dst uni (upd_set dst (\<lambda>v. v\<lparr>vs_mdd := r\<rparr>) s)))))"

text \<open>
  The lines that \<^verbatim>\<open>set_copy_match_mdd\<close>, \<^verbatim>\<open>set_copy_match_proj_mdd\<close> and \<^verbatim>\<open>set_enum_match_mdd\<close> have in common; they
  differ in how they get the node of the projection.
\<close>

definition match_mdd :: "(nat \<Rightarrow> bool) \<Rightarrow> (ldd \<Rightarrow> (nat \<times> ldd) result option) \<Rightarrow> nat \<Rightarrow> int \<Rightarrow> int list \<Rightarrow> int list \<Rightarrow> ldd
    \<Rightarrow> (nat \<times> ldd) result option" where
  "match_mdd alloc get_p_id mdd p_len proj pattern s =
     rbind (mdd_put alloc 0 (map u32_of_int pattern) (nat p_len) s) (\<lambda>(singleton, is_new, s).
     rbind (mdd_push alloc singleton s) (\<lambda>s.
     rbind (get_p_id s) (\<lambda>(p_id, s).
     rbind (mdd_push alloc p_id s) (\<lambda>s.
     rbind (mdd_copy_match alloc p_id mdd singleton 0 proj (nat p_len) s) (\<lambda>(r, s).
     rbind (mdd_pop s) (\<lambda>(x, s).
     rbind (mdd_pop s) (\<lambda>(x, s). ret (r, s))))))))"

definition proj_put :: "(nat \<Rightarrow> bool) \<Rightarrow> string \<Rightarrow> int \<Rightarrow> int list \<Rightarrow> ldd \<Rightarrow> (nat \<times> ldd) result option" where
  "proj_put alloc msg p_len proj s = rbind (mdd_put alloc 0 (map u32_of_int proj) (nat p_len) s)
     (\<lambda>(p_id, is_new, s). if p_id div 2 ^ 16 > 0 then abort msg else ret (p_id, s))"

definition set_copy_match_mdd :: "(nat \<Rightarrow> bool) \<Rightarrow> nat \<Rightarrow> nat \<Rightarrow> int \<Rightarrow> int list \<Rightarrow> int list \<Rightarrow> ldd \<Rightarrow> ldd result option" where
  "set_copy_match_mdd alloc dst src p_len proj pattern s = with_set s dst (\<lambda>v. with_set s src (\<lambda>w.
     if \<not> (vs_p_len w = - 1 \<and> vs_p_len v = - 1 \<and> p_len \<ge> 0) then Some (Inl Assert_fail)
     else rbind (match_mdd alloc (proj_put alloc ''set_copy_match_mdd: projection identifier too large'' p_len proj) (vs_mdd w) p_len proj pattern s)
       (\<lambda>(r, s). ret (upd_set dst (\<lambda>v. v\<lparr>vs_mdd := r\<rparr>) s))))"

definition set_copy_match_proj_mdd :: "(nat \<Rightarrow> bool) \<Rightarrow> nat \<Rightarrow> nat \<Rightarrow> int \<Rightarrow> int list \<Rightarrow> int \<Rightarrow> int list \<Rightarrow> ldd \<Rightarrow> ldd result option" where
  "set_copy_match_proj_mdd alloc dst src p_len proj p_id pattern s = with_set s dst (\<lambda>v. with_set s src (\<lambda>w.
     if \<not> (vs_p_len w = - 1 \<and> vs_p_len v = - 1 \<and> p_len \<ge> 0) then Some (Inl Assert_fail)
     else rbind (match_mdd alloc (\<lambda>s. if p_id div 2 ^ 16 > 0 then abort ''set_copy_match_proj_mdd: projection identifier too large''
         else ret (u32_of_int p_id, s)) (vs_mdd w) p_len proj pattern s)
       (\<lambda>(r, s). ret (upd_set dst (\<lambda>v. v\<lparr>vs_mdd := r\<rparr>) s))))"

definition proj_create_mdd :: "(nat \<Rightarrow> bool) \<Rightarrow> int \<Rightarrow> int list \<Rightarrow> ldd \<Rightarrow> (nat \<times> ldd) result option" where
  "proj_create_mdd alloc p_len proj s = (if \<not> p_len \<ge> 0 then Some (Inl Assert_fail)
     else proj_put alloc ''set_copy_match_mdd: projection identifier too large'' p_len proj s)"

definition set_enum_match_mdd :: "(nat \<Rightarrow> bool) \<Rightarrow> nat \<Rightarrow> int \<Rightarrow> int list \<Rightarrow> int list \<Rightarrow> ldd \<Rightarrow> (nat list list \<times> ldd) result option" where
  "set_enum_match_mdd alloc i p_len proj pattern s = with_set s i (\<lambda>w.
     if \<not> (vs_p_len w = - 1 \<and> p_len \<ge> 0) then Some (Inl Assert_fail)
     else rbind (match_mdd alloc (proj_put alloc ''set_enum_match_mdd: projection identifier too large'' p_len proj) (vs_mdd w) p_len proj pattern s)
       (\<lambda>(tmp, s). rbind (mdd_enum s tmp [] (vs_size w)) (\<lambda>vs. ret (vs, s))))"

section \<open>Objects and projections\<close>

definition objects :: "ldd \<Rightarrow> (nat \<times> vector_set) set" where
  "objects s = set (protected_sets s) \<union> set (protected_rels s)"

definition p_roots :: "ldd \<Rightarrow> nat set" where
  "p_roots s = (\<lambda>(i, v). vs_p_id v) ` objects s"

text \<open>
  The projections \<open>P\<close> are those of the protected objects and what is below them, so they stay protected whatever the sets
  become. The empty projection is always one of them.
\<close>

definition core :: "nat \<Rightarrow> projs \<Rightarrow> ldd \<Rightarrow> bool" where
  "core N P s \<longleftrightarrow> rel_ok N P s \<and> P 1 = Some [] \<and> (\<forall>p ps. P p = Some ps \<longrightarrow> p \<le> 1 \<or> p \<in> reach s (p_roots s))"

lemma coreD:
  assumes "core N P s"
  shows "rel_ok N P s" and "P 1 = Some []" and "P p = Some ps \<Longrightarrow> p \<le> 1 \<or> p \<in> reach s (p_roots s)" and "ldd_ok s"
  using assms by (auto simp: core_def rel_okD)

lemma reach_sub: "\<forall>i \<in> R. 1 < i \<longrightarrow> i \<in> reach s R' \<Longrightarrow> i \<in> reach s R \<Longrightarrow> i \<in> reach s R'"
  by (erule reach_closed) (auto intro: reach.intros)

lemma p_roots_gc: "p_roots s \<subseteq> set (gc_roots s)"
proof
  fix p assume "p \<in> p_roots s"
  then obtain i v where "(i, v) \<in> objects s" "p = vs_p_id v" by (auto simp: p_roots_def)
  then show "p \<in> set (gc_roots s)" unfolding gc_roots_iff objects_def by blast
qed

lemma p_roots_prot: "i \<in> reach s (p_roots s) \<Longrightarrow> prot s i"
  unfolding prot_def using reach_mono[OF _ p_roots_gc] by blast

lemma reach_same: "i \<in> reach s R \<Longrightarrow> node_table s' = node_table s \<Longrightarrow> i \<in> reach s' R"
proof (induction rule: reach.induct)
  case (reach_down i)
  then show ?case using reach.reach_down[of i s' R] by simp
next
  case (reach_right i)
  then show ?case using reach.reach_right[of i s' R] by simp
qed (rule reach.reach_root)

lemma core_keeps:
  assumes c: "core N P s" and ok: "rel_ok N P t" and k: "keeps_nodes s t"
  shows "core N P t"
proof -
  have eq: "p_roots t = p_roots s" using k by (simp add: p_roots_def objects_def keeps_nodes_def same_roots_def)
  have "i \<in> reach t (p_roots s)" if "i \<in> reach s (p_roots s)" for i
    using that
  proof (induction rule: reach.induct)
    case (reach_down i)
    then have "down t i = down s i" using keeps_nodes_fields(2)[OF k p_roots_prot] reach_gt by blast
    then show ?case using reach_down reach.reach_down[of i t] by simp
  next
    case (reach_right i)
    then have "right t i = right s i" using keeps_nodes_fields(3)[OF k p_roots_prot] reach_gt by blast
    then show ?case using reach_right reach.reach_right[of i t] by simp
  qed (rule reach.reach_root)
  then show ?thesis using c ok by (auto simp: core_def eq)
qed

text \<open>The objects may change as long as their nodes are valid and the projections remain reachable.\<close>

lemma core_change:
  assumes c: "core N P s" and s': "s' = s\<lparr>protected_sets := xs, protected_rels := ys\<rparr>"
    and v: "\<forall>(i, v) \<in> set xs \<union> set ys. vld s (vs_mdd v) \<and> vld s (vs_p_id v)"
    and roots: "\<forall>p \<in> p_roots s. 1 < p \<longrightarrow> p \<in> reach s ((\<lambda>(i, v). vs_p_id v) ` (set xs \<union> set ys))"
  shows "core N P s'" and "den s' n i A = den s n i A" and "vld s' i = vld s i"
proof -
  note ch = change_roots[OF coreD(4)[OF c] s' v]
  show "den s' n i A = den s n i A" "vld s' i = vld s i" by (rule ch(2), rule ch(3))
  have eq: "p_roots s' = (\<lambda>(i, v). vs_p_id v) ` (set xs \<union> set ys)" by (simp add: p_roots_def objects_def s')
  have rch: "p \<in> reach s' (p_roots s')" if "p \<in> reach s (p_roots s)" for p
    using reach_same[OF reach_sub[OF roots that], of s'] by (simp add: eq) (simp add: s')
  have anch: "p \<le> 1 \<or> p \<in> reach s' (p_roots s')" if "P p = Some ps" for p ps
    using coreD(3)[OF c that] rch by blast
  have pr: "prot s' p" if "P p = Some ps" for p ps using anch[OF that] p_roots_prot by (auto simp: prot_def)
  have "projs_ok P s'" using pr rel_okD(2)[OF coreD(1)[OF c]] by (auto simp: projs_ok_def ch(2)) (simp_all add: s')
  moreover have "entries_from s s'" by (rule entries_from_same) (simp_all add: ch(2,3), simp_all add: s')
  ultimately have "rel_ok N P s'" using coreD(1)[OF c] ch(1) rel_entries_from by (auto simp: rel_ok_def)
  with anch coreD(2)[OF c] show "core N P s'" by (auto simp: core_def)
qed

text \<open>The projection of an object becomes one of \<open>P\<close>.\<close>

lemma rel_entry_more:
  assumes "rel_entry N P s e" and "P \<subseteq>\<^sub>m P'"
  shows "rel_entry N P' s e"
proof -
  have up: "P' p = Some ps" if "P p = Some ps" for p ps using assms(2) that by (metis domI map_le_def)
  have "project_entry N P s e \<Longrightarrow> project_entry N P' s e" unfolding project_entry_def using up by blast
  moreover have "product_entry N P s e \<Longrightarrow> product_entry N P' s e"
    unfolding product_entry_def by (elim exE conjE, intro exI conjI) (assumption | erule up)+
  ultimately show ?thesis using assms(1) unfolding rel_entry_def by blast
qed

lemma den_single:
  assumes "den s n i {x}" and "den s m i {y}"
  shows "x = y"
  using assms repr_fun unfolding den_def by (metis singleton_inject)

lemma core_extend:
  assumes c: "core N P s" and r: "r \<in> p_roots s" "1 < r" and d: "den s (Suc (length qs)) r {p # qs}" and q: "P (down s r) = Some qs"
  shows "core N (P(r \<mapsto> p # qs)) s" and "P \<subseteq>\<^sub>m P(r \<mapsto> p # qs)"
proof -
  define P' where "P' = P(r \<mapsto> p # qs)"
  have "P r = None \<or> P r = Some (p # qs)"
  proof (cases "P r")
    case (Some x)
    then show ?thesis using den_single[OF projs_okD(2)[OF rel_okD(2)[OF coreD(1)[OF c]] Some] d] by simp
  qed simp
  then have le: "P \<subseteq>\<^sub>m P'" by (auto simp: P'_def map_le_def)
  then show "P \<subseteq>\<^sub>m P(r \<mapsto> p # qs)" by (simp add: P'_def)
  have up: "P' i = Some x" if "P i = Some x" for i x using le that by (metis domI map_le_def)
  have rr: "r \<in> reach s (p_roots s)" using reach_root r by blast
  have "prot s i \<and> den s (length x) i {x} \<and> (x \<noteq> [] \<longrightarrow> P' (down s i) = Some (tl x))" if "P' i = Some x" for i x
  proof (cases "i = r")
    case True
    with that show ?thesis using d up[OF q] p_roots_prot[OF rr] by (auto simp: P'_def)
  next
    case False
    with that have "P i = Some x" by (simp add: P'_def)
    then show ?thesis using rel_okD(2)[OF coreD(1)[OF c]] up by (auto simp: projs_ok_def)
  qed
  then have "projs_ok P' s" by (simp add: projs_ok_def)
  moreover have "rel_entries N P' s" using coreD(1)[OF c] rel_entry_more[OF _ le] by (auto simp: rel_ok_def rel_entries_def)
  ultimately have "rel_ok N P' s" using coreD(4)[OF c] by (simp add: rel_ok_def)
  then show "core N (P(r \<mapsto> p # qs)) s" using coreD(2,3)[OF c] rr r(2) by (auto simp: core_def P'_def)
qed

lemma later_change:
  assumes ok: "ldd_ok s" and s': "s' = s\<lparr>protected_sets := xs, protected_rels := ys\<rparr>"
    and v: "\<forall>(i, v) \<in> set xs \<union> set ys. vld s (vs_mdd v) \<and> vld s (vs_p_id v)"
    and roots: "\<forall>(i, v) \<in> objects s. (1 < vs_mdd v \<longrightarrow> vs_mdd v \<in> reach s (set (gc_roots s'))) \<and> (1 < vs_p_id v \<longrightarrow> vs_p_id v \<in> reach s (set (gc_roots s')))"
  shows "later s s'"
proof -
  have "p \<in> reach s (set (gc_roots s'))" if p: "p \<in> set (gc_roots s)" "1 < p" for p
  proof (cases "\<exists>i v. (i, v) \<in> objects s \<and> (p = vs_mdd v \<or> p = vs_p_id v)")
    case True
    then show ?thesis using roots p(2) by fastforce
  next
    case False
    then have "p \<in> set (gc_roots s')" using p(1) unfolding gc_roots_iff objects_def by (auto simp: s')
    then show ?thesis using p(2) reach_root by blast
  qed
  then have "prot s' j" if "prot s j" for j
    using that reach_sub[of "set (gc_roots s)" s "set (gc_roots s')" j] reach_same[of j s "set (gc_roots s')" s'] by (auto simp: prot_def s')
  then show ?thesis using change_roots(2)[OF ok s' v] by (simp add: later_def) (simp add: s')
qed

section \<open>One list of objects\<close>

text \<open>
  Sets and relations are kept in two lists. What follows holds for both: \<open>objs\<close> is the list at hand and \<open>rest\<close> the other one.
\<close>

locale object_list =
  fixes objs :: "ldd \<Rightarrow> (nat \<times> vector_set) list" and put :: "(nat \<times> vector_set) list \<Rightarrow> ldd \<Rightarrow> ldd" and rest :: "ldd \<Rightarrow> (nat \<times> vector_set) list"
  assumes put_eq: "\<exists>ys zs. put xs s = s\<lparr>protected_sets := ys, protected_rels := zs\<rparr> \<and> set ys \<union> set zs = set xs \<union> set (rest s)"
    and objects_eq: "objects s = set (objs s) \<union> set (rest s)"
    and objs_put: "objs (put xs s) = xs" and rest_put: "rest (put xs s) = rest s"
    and objs_keeps: "keeps_nodes s t \<Longrightarrow> objs t = objs s \<and> rest t = rest s"
begin

lemma valid:
  assumes "ldd_ok s" and "(i, v) \<in> set (objs s) \<union> set (rest s)"
  shows "vld s (vs_mdd v)" and "vld s (vs_p_id v)"
  using protected_vld[OF assms(1), of i v] assms(2) objects_eq[of s] by (auto simp: objects_def)

lemma put_core:
  assumes c: "core N P s" and v: "\<forall>(i, v) \<in> set xs. vld s (vs_mdd v) \<and> vld s (vs_p_id v)"
    and roots: "\<forall>(i, v) \<in> set (objs s). 1 < vs_p_id v \<longrightarrow> vs_p_id v \<in> reach s ((\<lambda>(i, v). vs_p_id v) ` (set xs \<union> set (rest s)))"
  shows "core N P (put xs s)" and "den (put xs s) n i A = den s n i A" and "vld (put xs s) i = vld s i" and "node_table (put xs s) = node_table s"
proof -
  from put_eq[of xs s] obtain ys zs where eq: "put xs s = s\<lparr>protected_sets := ys, protected_rels := zs\<rparr>" and yz: "set ys \<union> set zs = set xs \<union> set (rest s)" by blast
  have "\<forall>(i, v) \<in> set ys \<union> set zs. vld s (vs_mdd v) \<and> vld s (vs_p_id v)" unfolding yz using v valid[OF coreD(4)[OF c]] by blast
  moreover have "\<forall>p \<in> p_roots s. 1 < p \<longrightarrow> p \<in> reach s ((\<lambda>(i, v). vs_p_id v) ` (set ys \<union> set zs))"
    unfolding yz p_roots_def objects_eq using roots by (fastforce intro: reach_root)
  ultimately show "core N P (put xs s)" "den (put xs s) n i A = den s n i A" "vld (put xs s) i = vld s i"
    using core_change[OF c eq] by blast+
  show "node_table (put xs s) = node_table s" by (simp add: eq)
qed

lemma put_later:
  assumes ok: "ldd_ok s" and v: "\<forall>(i, v) \<in> set xs. vld s (vs_mdd v) \<and> vld s (vs_p_id v)"
    and roots: "\<forall>(i, v) \<in> set (objs s). (\<exists>j w. (j, w) \<in> set xs \<and> vs_mdd w = vs_mdd v)
      \<and> (\<exists>j w. (j, w) \<in> set xs \<and> (vs_p_id w = vs_p_id v \<or> 1 < vs_p_id w \<and> vs_p_id v = down s (vs_p_id w)))"
  shows "later s (put xs s)"
proof -
  from put_eq[of xs s] obtain ys zs where eq: "put xs s = s\<lparr>protected_sets := ys, protected_rels := zs\<rparr>" and yz: "set ys \<union> set zs = set xs \<union> set (rest s)" by blast
  have new: "i \<in> reach s (set (gc_roots (put xs s)))" if "(j, w) \<in> set xs \<union> set (rest s)" "i = vs_mdd w \<or> i = vs_p_id w" "1 < i" for i j w
  proof -
    have "i \<in> set (gc_roots (put xs s))" using that(1,2) unfolding yz[symmetric] gc_roots_iff by (auto simp: eq)
    then show ?thesis using reach_root that(3) by blast
  qed
  have "\<forall>(i, v) \<in> set ys \<union> set zs. vld s (vs_mdd v) \<and> vld s (vs_p_id v)" unfolding yz using v valid[OF ok] by blast
  moreover have "\<forall>(i, v) \<in> objects s. (1 < vs_mdd v \<longrightarrow> vs_mdd v \<in> reach s (set (gc_roots (put xs s)))) \<and> (1 < vs_p_id v \<longrightarrow> vs_p_id v \<in> reach s (set (gc_roots (put xs s))))"
  proof (intro ballI, clarify)
    fix i v assume "(i, v) \<in> objects s"
    then consider "(i, v) \<in> set (rest s)" | j w k x where "(j, w) \<in> set xs" "vs_mdd w = vs_mdd v" "(k, x) \<in> set xs"
      "vs_p_id x = vs_p_id v \<or> 1 < vs_p_id x \<and> vs_p_id v = down s (vs_p_id x)" using roots unfolding objects_eq by blast
    then show "(1 < vs_mdd v \<longrightarrow> vs_mdd v \<in> reach s (set (gc_roots (put xs s)))) \<and> (1 < vs_p_id v \<longrightarrow> vs_p_id v \<in> reach s (set (gc_roots (put xs s))))"
    proof cases
      case 1
      then show ?thesis using new[of i v] by blast
    next
      case 2
      have "vs_p_id v \<in> reach s (set (gc_roots (put xs s)))" if "1 < vs_p_id v"
        using 2(4) that new[of k x] reach_down[of "vs_p_id x" s] 2(3) by auto
      then show ?thesis using new[of j w] 2(1,2) by auto
    qed
  qed
  ultimately show ?thesis using later_change[OF ok eq] by blast
qed

text \<open>Changing one object.\<close>

lemma map_of_change: "map_of (map (\<lambda>(j, v). (j, if j = i then f v else v)) xs) j = (if j = i then map_option f (map_of xs i) else map_of xs j)"
  by (induction xs) auto

lemma change_valid:
  assumes "ldd_ok s" and "distinct (map fst (objs s))" and "map_of (objs s) i = Some v" and "vld s (vs_mdd (f v))" and "vld s (vs_p_id (f v))"
  shows "\<forall>(j, w) \<in> set (map (\<lambda>(j, v). (j, if j = i then f v else v)) (objs s)). vld s (vs_mdd w) \<and> vld s (vs_p_id w)"
proof -
  have "w = v" if "(i, w) \<in> set (objs s)" for w using that assms(2,3) by (auto dest: map_of_is_SomeI)
  then show ?thesis using assms(4,5) valid[OF assms(1)] by fastforce
qed

lemma change_core:
  assumes c: "core N P s" and o: "distinct (map fst (objs s))" "map_of (objs s) i = Some v" and v: "vld s (vs_mdd (f v))" "vld s (vs_p_id (f v))"
    and p: "vs_p_id (f v) = vs_p_id v \<or> 1 < vs_p_id (f v) \<and> vs_p_id v = down s (vs_p_id (f v))"
    and t: "t = put (map (\<lambda>(j, v). (j, if j = i then f v else v)) (objs s)) s"
  shows "core N P t" and "den t n k A = den s n k A" and "vld t k = vld s k" and "node_table t = node_table s"
    and "vs_mdd (f v) = vs_mdd v \<Longrightarrow> later s t"
proof -
  define xs where "xs = map (\<lambda>(j, v). (j, if j = i then f v else v)) (objs s)"
  have vs: "\<forall>(j, w) \<in> set xs. vld s (vs_mdd w) \<and> vld s (vs_p_id w)" unfolding xs_def by (rule change_valid[where f = f, OF coreD(4)[OF c] o v])
  have is_v: "w = v" if "(i, w) \<in> set (objs s)" for w using that o by (auto dest: map_of_is_SomeI)
  have inx: "(j, if j = i then f w else w) \<in> set xs" if "(j, w) \<in> set (objs s)" for j w using that by (force simp: xs_def)
  have "vs_p_id w \<in> reach s ((\<lambda>(i, v). vs_p_id v) ` (set xs \<union> set (rest s)))" if w: "(j, w) \<in> set (objs s)" "1 < vs_p_id w" for j w
  proof -
    define x where "x = (if j = i then f w else w)"
    have x: "vs_p_id x \<in> (\<lambda>(i, v). vs_p_id v) ` (set xs \<union> set (rest s))" using inx[OF w(1)] by (force simp: x_def)
    have "vs_p_id x = vs_p_id w \<or> 1 < vs_p_id x \<and> vs_p_id w = down s (vs_p_id x)" using p is_v w(1) by (auto simp: x_def)
    then show ?thesis using reach_root[OF x, of s] reach_down[of "vs_p_id x" s] w(2) by auto
  qed
  then have "\<forall>(j, w) \<in> set (objs s). 1 < vs_p_id w \<longrightarrow> vs_p_id w \<in> reach s ((\<lambda>(i, v). vs_p_id v) ` (set xs \<union> set (rest s)))" by blast
  note pc = put_core[OF c vs this] and t' = t[folded xs_def]
  show "core N P t" "den t n k A = den s n k A" "vld t k = vld s k" "node_table t = node_table s" unfolding t' by (rule pc)+
  assume m: "vs_mdd (f v) = vs_mdd v"
  have "(\<exists>j w. (j, w) \<in> set xs \<and> vs_mdd w = vs_mdd x) \<and> (\<exists>j w. (j, w) \<in> set xs \<and> (vs_p_id w = vs_p_id x \<or> 1 < vs_p_id w \<and> vs_p_id x = down s (vs_p_id w)))"
    if x: "(k, x) \<in> set (objs s)" for k x
  proof (cases "k = i")
    case True
    then have "(i, f v) \<in> set xs" "x = v" using inx[OF x] is_v x by auto
    then show ?thesis using m p by auto
  next
    case False
    then show ?thesis using inx[OF x] by auto
  qed
  then have "later s (put xs s)" by (intro put_later[OF coreD(4)[OF c] vs]) auto
  then show "later s t" by (simp add: t xs_def)
qed

text \<open>A position is added in front of the projection of an object.\<close>

lemma grow:
  assumes mem: "\<not> alloc (16 * fib 47)" and c: "core N P s" and o: "distinct (map fst (objs s))" "map_of (objs s) i = Some v"
    and q: "P (vs_p_id v) = Some qs"
  shows "no_room (mdd_create_node alloc p (vs_p_id v) 0 s) \<or> (\<exists>r t u. mdd_create_node alloc p (vs_p_id v) 0 s = ret (r, t)
    \<and> u = put (map (\<lambda>(j, v). (j, if j = i then v\<lparr>vs_p_id := r\<rparr> else v)) (objs t)) t \<and> core N (P(r \<mapsto> p # qs)) u \<and> P \<subseteq>\<^sub>m P(r \<mapsto> p # qs)
    \<and> later s u \<and> 1 < r \<and> down u r = vs_p_id v \<and> objs t = objs s \<and> rest u = rest s)"
proof -
  have lok: "ldd_ok s" and pq: "prot s (vs_p_id v)" "den s (length qs) (vs_p_id v) {qs}"
    using coreD(4)[OF c] projs_okD[OF rel_okD(2)[OF coreD(1)[OF c]] q] by auto
  have "runs_to (mdd_create_node alloc p (vs_p_id v) 0 s) s (Suc (length qs)) {p # qs}"
    by (rule runs_to_create[where alloc = alloc, OF lok mem prot_vld[OF lok pq(1)] _ pq(2)]) (auto simp: vld_def)
  then consider "no_room (mdd_create_node alloc p (vs_p_id v) 0 s)"
    | r t where "mdd_create_node alloc p (vs_p_id v) 0 s = ret (r, t)" "ldd_ok t" "keeps s t" "vld t r" "den t (Suc (length qs)) r {p # qs}"
    unfolding runs_to_def by blast
  then show ?thesis
  proof cases
    case (2 r t)
    have gt: "1 < r" using den_gt[OF 2(5)] by simp
    have nok: "nodes_ok t" using 2(2) by (simp add: ldd_ok_def)
    have dn: "down t r = vs_p_id v"
    proof -
      from den_node[OF 2(5) gt] obtain m D R where d: "Suc (length qs) = Suc m" "den t m (down t r) D" "{p # qs} = (#) (val t r) ` D \<union> R" "D \<noteq> {}" by metis
      have "x = qs" if "x \<in> D" for x
      proof -
        have "val t r # x \<in> {p # qs}" unfolding d(3) using that by blast
        then show ?thesis by simp
      qed
      with d(4) have "D = {qs}" by blast
      moreover have "vld t (down t r)" using nok gt 2(4) by (auto simp: nodes_ok_def vld_def)
      ultimately show ?thesis using den_inj[OF nok, of "down t r" "vs_p_id v" "length qs" "{qs}"] d(1,2)
        keeps_den[OF 2(3) pq(1)] pq(2) prot_vld[OF 2(2)] keeps_prot[OF 2(3)] pq(1) by simp
    qed
    note kn = keeps_keeps_nodes[OF 2(3)]
    have ct: "core N P t" using core_keeps[OF c rel_ok_keeps[OF coreD(1)[OF c] 2(2,3)] kn] .
    have ob: "objs t = objs s" "rest t = rest s" using objs_keeps[OF kn] by simp_all
    define u where "u = put (map (\<lambda>(j, v). (j, if j = i then v\<lparr>vs_p_id := r\<rparr> else v)) (objs t)) t"
    have vm: "vld t (vs_mdd v)" using valid[OF 2(2), of i v] o ob by (auto dest: map_of_SomeD)
    have ch: "core N P u" "den u n k A = den t n k A" "vld u k = vld t k" "node_table u = node_table t" "later t u" for n k A
      using change_core[where f = "\<lambda>v. v\<lparr>vs_p_id := r\<rparr>", OF ct _ _ _ _ _ u_def] o ob vm 2(4) gt dn by simp_all
    have "(i, v\<lparr>vs_p_id := r\<rparr>) \<in> set (objs u)" using o(2) ob objs_put by (force simp: u_def dest: map_of_SomeD)
    then have "(i, v\<lparr>vs_p_id := r\<rparr>) \<in> objects u" by (simp add: objects_eq)
    then have rr: "r \<in> p_roots u" unfolding p_roots_def by (force intro: image_eqI)
    have "core N (P(r \<mapsto> p # qs)) u" "P \<subseteq>\<^sub>m P(r \<mapsto> p # qs)"
      using core_extend[OF ch(1) rr gt, of qs p] ch(2,4) 2(5) dn q by simp_all
    then show ?thesis using 2(1) u_def later_trans[OF keeps_nodes_later[OF kn] ch(5)] gt dn ch(4) ob rest_put by (auto simp: u_def)
  qed simp
qed

text \<open>
  A loop that adds positions from the last to the first, as in the creation of sets and relations; the one for relations
  ends when a node number is too large.
\<close>

lemma build_step:
  assumes mem: "\<not> alloc (16 * fib 47)" and c: "core N P s" and o: "distinct (map fst (objs s))" "map_of (objs s) i = Some v"
    and q: "P (vs_p_id v) = Some qs" and p: "0 \<le> p" "p < 2 ^ 32"
    and run: "m = (let s = put (map (\<lambda>(j, v). (j, if j = i then v\<lparr>vs_proj := p # vs_proj v\<rparr> else v)) (objs s)) s
      in case map_of (objs s) i of None \<Rightarrow> Some (Inl Bad_access)
         | Some v \<Rightarrow> rbind (mdd_create_node alloc (u32_of_int p) (vs_p_id v) 0 s) (\<lambda>(r, s).
             let s = put (map (\<lambda>(j, v). (j, if j = i then v\<lparr>vs_p_id := r\<rparr> else v)) (objs s)) s in if large r then abort msg else loop s))"
  shows "no_room m \<or> (\<exists>r u. m = (if large r then abort msg else loop u) \<and> core N (P(r \<mapsto> nat p # qs)) u \<and> P \<subseteq>\<^sub>m P(r \<mapsto> nat p # qs)
    \<and> later s u \<and> down u r = vs_p_id v \<and> rest u = rest s \<and> map fst (objs u) = map fst (objs s)
    \<and> (\<forall>j. map_of (objs u) j = (if j = i then Some (v\<lparr>vs_proj := p # vs_proj v, vs_p_id := r\<rparr>) else map_of (objs s) j)))"
proof -
  define s1 where "s1 = put (map (\<lambda>(j, v). (j, if j = i then v\<lparr>vs_proj := p # vs_proj v\<rparr> else v)) (objs s)) s"
  have c1: "core N P s1" "later s s1"
    using change_core[where f = "\<lambda>v. v\<lparr>vs_proj := p # vs_proj v\<rparr>", OF c o _ _ _ s1_def] valid[OF coreD(4)[OF c], of i v] o(2)
    by (auto dest: map_of_SomeD)
  define w where "w = v\<lparr>vs_proj := p # vs_proj v\<rparr>"
  have o1: "map fst (objs s1) = map fst (objs s)" "map_of (objs s1) j = (if j = i then Some w else map_of (objs s) j)" "rest s1 = rest s" for j
    using o(2) by (simp_all add: s1_def objs_put rest_put map_of_change w_def case_prod_beta comp_def)
  have "u32_of_int p = nat p" using p by (simp add: u32_of_int_def)
  then have m: "m = rbind (mdd_create_node alloc (nat p) (vs_p_id w) 0 s1) (\<lambda>(r, s).
      let s = put (map (\<lambda>(j, v). (j, if j = i then v\<lparr>vs_p_id := r\<rparr> else v)) (objs s)) s in if large r then abort msg else loop s)"
    unfolding run s1_def[symmetric] Let_def using o1(2)[of i] by simp
  have "distinct (map fst (objs s1))" "map_of (objs s1) i = Some w" "P (vs_p_id w) = Some qs" using o o1 q by (simp_all add: w_def)
  from grow[where alloc = alloc, OF mem c1(1) this, of "nat p"] consider "no_room (mdd_create_node alloc (nat p) (vs_p_id w) 0 s1)"
    | r t u where "mdd_create_node alloc (nat p) (vs_p_id w) 0 s1 = ret (r, t)" "u = put (map (\<lambda>(j, v). (j, if j = i then v\<lparr>vs_p_id := r\<rparr> else v)) (objs t)) t"
      "core N (P(r \<mapsto> nat p # qs)) u" "P \<subseteq>\<^sub>m P(r \<mapsto> nat p # qs)" "later s1 u" "down u r = vs_p_id w" "objs t = objs s1" "rest u = rest s1" by blast
  then show ?thesis
  proof cases
    case 1
    then show ?thesis by (simp add: m)
  next
    case (2 r t u)
    have "map fst (objs u) = map fst (objs s)" "map_of (objs u) j = (if j = i then Some (w\<lparr>vs_p_id := r\<rparr>) else map_of (objs s) j)" for j
      using o1 by (simp_all add: 2(2,7) objs_put map_of_change case_prod_beta comp_def)
    moreover have "m = (if large r then abort msg else loop u)" by (simp add: m 2(1) 2(2)[symmetric])
    ultimately show ?thesis using 2 o1(3) later_trans[OF c1(2) 2(5)] by (intro disjI2 exI[of _ r] exI[of _ u]) (simp add: w_def)
  qed
qed

lemma build:
  assumes mem: "\<not> alloc (16 * fib 47)" and nil: "\<And>s. loop [] s = ret s"
    and cons: "\<And>p ps s. loop (p # ps) s = (let s = put (map (\<lambda>(j, v). (j, if j = i then v\<lparr>vs_proj := p # vs_proj v\<rparr> else v)) (objs s)) s
      in case map_of (objs s) i of None \<Rightarrow> Some (Inl Bad_access)
         | Some v \<Rightarrow> rbind (mdd_create_node alloc (u32_of_int p) (vs_p_id v) 0 s) (\<lambda>(r, s).
             let s = put (map (\<lambda>(j, v). (j, if j = i then v\<lparr>vs_p_id := r\<rparr> else v)) (objs s)) s in if large r then abort msg else loop ps s))"
  shows "core N P s \<Longrightarrow> distinct (map fst (objs s)) \<Longrightarrow> map_of (objs s) i = Some v \<Longrightarrow> P (vs_p_id v) = Some qs \<Longrightarrow> \<forall>p \<in> set ps. 0 \<le> p \<and> p < 2 ^ 32
    \<Longrightarrow> no_room (loop ps s) \<or> loop ps s = abort msg \<and> (\<exists>r. large r) \<or> (\<exists>t P' r. loop ps s = ret t \<and> core N P' t \<and> P \<subseteq>\<^sub>m P' \<and> later s t \<and> rest t = rest s
      \<and> map fst (objs t) = map fst (objs s) \<and> P' r = Some (rev (map nat ps) @ qs)
      \<and> (\<forall>j. map_of (objs t) j = (if j = i then Some (v\<lparr>vs_proj := rev ps @ vs_proj v, vs_p_id := r\<rparr>) else map_of (objs s) j))
      \<and> ((\<forall>r. \<not> large r \<longrightarrow> r < 65536) \<longrightarrow> small_ids s (vs_p_id v) qs \<longrightarrow> small_ids t r (rev (map nat ps) @ qs)))"
proof (induction ps arbitrary: s P v qs)
  case Nil
  have "v\<lparr>vs_proj := rev [] @ vs_proj v, vs_p_id := vs_p_id v\<rparr> = v" by simp
  then show ?case using Nil by (intro disjI2 exI[of _ s] exI[of _ P] exI[of _ "vs_p_id v"]) (simp add: nil)
next
  case (Cons p ps)
  have "0 \<le> p" "p < 2 ^ 32" using Cons.prems(5) by simp_all
  from build_step[where alloc = alloc and loop = "loop ps", OF mem Cons.prems(1-4) this cons] consider "no_room (loop (p # ps) s)"
    | r u where "loop (p # ps) s = (if large r then abort msg else loop ps u)" "core N (P(r \<mapsto> nat p # qs)) u" "P \<subseteq>\<^sub>m P(r \<mapsto> nat p # qs)"
      "later s u" "down u r = vs_p_id v" "rest u = rest s" "map fst (objs u) = map fst (objs s)"
      "\<forall>j. map_of (objs u) j = (if j = i then Some (v\<lparr>vs_proj := p # vs_proj v, vs_p_id := r\<rparr>) else map_of (objs s) j)" by blast
  then show ?case
  proof cases
    case (2 r u)
    show ?thesis
    proof (cases "large r")
      case True
      then show ?thesis using 2(1) by auto
    next
      case False
      define x where "x = v\<lparr>vs_proj := p # vs_proj v, vs_p_id := r\<rparr>"
      have "distinct (map fst (objs u))" "map_of (objs u) i = Some x" "(P(r \<mapsto> nat p # qs)) (vs_p_id x) = Some (nat p # qs)"
        "\<forall>p \<in> set ps. 0 \<le> p \<and> p < 2 ^ 32" using Cons.prems(2,5) 2(7,8) by (simp_all add: x_def)
      note IH = Cons.IH[OF 2(2) this]
      have sm: "small_ids u (vs_p_id x) (nat p # qs)" if "\<forall>r. \<not> large r \<longrightarrow> r < 65536" "small_ids s (vs_p_id v) qs"
        using small_ids_later[OF rel_okD(2)[OF coreD(1)[OF Cons.prems(1)]] 2(4) Cons.prems(4)] that False 2(5) by (simp add: x_def)
      have eq: "x\<lparr>vs_proj := rev ps @ vs_proj x, vs_p_id := k\<rparr> = v\<lparr>vs_proj := rev (p # ps) @ vs_proj v, vs_p_id := k\<rparr>" for k by (simp add: x_def)
      have run: "loop (p # ps) s = loop ps u" using 2(1) False by simp
      from IH[unfolded eq] consider "no_room (loop ps u)" | "loop ps u = abort msg" "\<exists>r. large r" | t P' k where "loop ps u = ret t" "core N P' t"
        "P(r \<mapsto> nat p # qs) \<subseteq>\<^sub>m P'" "later u t" "rest t = rest u" "map fst (objs t) = map fst (objs u)" "P' k = Some (rev (map nat ps) @ nat p # qs)"
        "\<forall>j. map_of (objs t) j = (if j = i then Some (v\<lparr>vs_proj := rev (p # ps) @ vs_proj v, vs_p_id := k\<rparr>) else map_of (objs u) j)"
        "(\<forall>r. \<not> large r \<longrightarrow> r < 65536) \<longrightarrow> small_ids u (vs_p_id x) (nat p # qs) \<longrightarrow> small_ids t k (rev (map nat ps) @ nat p # qs)" by blast
      then show ?thesis
      proof cases
        case (3 t P' k)
        then show ?thesis unfolding run using map_le_trans[OF 2(3) 3(3)] later_trans[OF 2(4) 3(4)] sm 2(6-8)
          by (intro disjI2 exI[of _ t] exI[of _ P'] exI[of _ k]) auto
      qed (simp_all add: run)
    qed
  qed simp
qed

end

interpretation so: object_list protected_sets "\<lambda>xs s. s\<lparr>protected_sets := xs\<rparr>" protected_rels
proof (unfold_locales, goal_cases)
  case (1 xs s)
  have "s\<lparr>protected_sets := xs\<rparr> = s\<lparr>protected_sets := xs, protected_rels := protected_rels s\<rparr>" by simp
  then show ?case by blast
qed (auto simp: objects_def keeps_nodes_def same_roots_def)

interpretation ro: object_list protected_rels "\<lambda>xs s. s\<lparr>protected_rels := xs\<rparr>" protected_sets
proof (unfold_locales, goal_cases)
  case (1 xs s)
  have "s\<lparr>protected_rels := xs\<rparr> = s\<lparr>protected_sets := protected_sets s, protected_rels := xs\<rparr>" by simp
  then show ?case by blast
qed (auto simp: objects_def keeps_nodes_def same_roots_def)

end
