(* ===== verification/Vset_Rel.thy ===== *)
theory Vset_Rel
  imports Ldd_Rels
begin

text \<open>
  List decision diagrams as an implementation of sets and relations: sequences of operations on set objects, relation
  objects and projections behave as the same operations on sets of vectors and sets of pairs of vectors, whenever
  the collector runs in between.
\<close>

section \<open>Specification\<close>

text \<open>A relation on the positions \<open>ps\<close> contains pairs of the values there, before and after; the other positions stay as they are.\<close>

definition same_outside :: "nat list \<Rightarrow> nat list \<Rightarrow> nat list \<Rightarrow> bool" where
  "same_outside ps x y \<longleftrightarrow> length y = length x \<and> (\<forall>i < length x. i \<notin> set ps \<longrightarrow> y ! i = x ! i)"

definition successors :: "nat list \<Rightarrow> (nat list \<times> nat list) set \<Rightarrow> nat list set \<Rightarrow> nat list set" where
  "successors ps Q A = {y. \<exists>x \<in> A. same_outside ps x y \<and> (map ((!) x) ps, map ((!) y) ps) \<in> Q}"

definition predecessors :: "nat list \<Rightarrow> (nat list \<times> nat list) set \<Rightarrow> nat list set \<Rightarrow> nat list set" where
  "predecessors ps Q A = {x. \<exists>y \<in> A. same_outside ps x y \<and> (map ((!) x) ps, map ((!) y) ps) \<in> Q}"

definition matching :: "nat list \<Rightarrow> nat list \<Rightarrow> nat list set \<Rightarrow> nat list set" where
  "matching ps w A = {x \<in> A. map ((!) x) ps = w}"

record vworld =
  w_sets :: vsets
  w_proj :: "nat \<rightharpoonup> nat list option"
  w_rels :: "nat \<rightharpoonup> nat list \<times> (nat list \<times> nat list) set"

datatype vrel_op =
    On_sets vset_op
  | Rel_create nat nat int "int list"
  | Rel_add nat "int list" "int list"
  | Project nat nat
  | Next nat nat nat
  | Prev nat nat nat nat
  | Copy_match nat nat "int list" "int list"

fun vrel_exec :: "(nat \<Rightarrow> bool) \<Rightarrow> vrel_op \<Rightarrow> ldd \<Rightarrow> ldd result option" where
  "vrel_exec alloc (On_sets op) s = vset_exec alloc op s"
| "vrel_exec alloc (Rel_create i sz k proj) s = rel_create_mdd alloc i sz k proj s"
| "vrel_exec alloc (Rel_add i src dst) s = rel_add_mdd alloc i src dst s"
| "vrel_exec alloc (Project dst src) s = set_project_mdd alloc dst src s"
| "vrel_exec alloc (Next dst src rel) s = set_next_mdd alloc dst src rel s"
| "vrel_exec alloc (Prev dst src rel uni) s = set_prev_mdd alloc dst src rel uni s"
| "vrel_exec alloc (Copy_match dst src proj pattern) s = set_copy_match_mdd alloc dst src (int (length proj)) proj pattern s"

text \<open>
  How the operations are used: all whole vectors have the length \<open>N\<close>, projections are increasing, sets with a projection are not
  destroyed, and a match is for the projection of a relation.
\<close>

definition proj_list_ok :: "nat \<Rightarrow> int list \<Rightarrow> bool" where
  "proj_list_ok N ps \<longleftrightarrow> sorted_wrt (<) ps \<and> (\<forall>p \<in> set ps. 0 \<le> p \<and> p < int N)"

definition whole :: "ldd \<Rightarrow> nat \<Rightarrow> bool" where
  "whole s i = (case get_set s i of Some v \<Rightarrow> vs_p_len v = - 1 | None \<Rightarrow> False)"

fun set_use :: "nat \<Rightarrow> vset_op \<Rightarrow> ldd \<Rightarrow> bool" where
  "set_use N (Create i sz k proj) s \<longleftrightarrow> sz = N \<and> - 1 \<le> k \<and> proj_list_ok N (take (nat k) proj)"
| "set_use N (Destroy i) s \<longleftrightarrow> whole s i"
| "set_use N op s \<longleftrightarrow> True"

fun vrel_allowed :: "nat \<Rightarrow> vrel_op \<Rightarrow> ldd \<Rightarrow> bool" where
  "vrel_allowed N (On_sets op) s \<longleftrightarrow> vset_allowed op s \<and> set_use N op s"
| "vrel_allowed N (Rel_create i sz k proj) s \<longleftrightarrow> get_rel s i = None \<and> sz = N \<and> 0 \<le> k \<and> k \<le> int N \<and> k \<le> int (length proj)
     \<and> proj_list_ok N (take (nat k) proj)"
| "vrel_allowed N (Rel_add i src dst) s \<longleftrightarrow> (case get_rel s i of Some v \<Rightarrow> length src = vset_len v \<and> length dst = vset_len v | None \<Rightarrow> False)"
| "vrel_allowed N (Project dst src) s \<longleftrightarrow> (case (get_set s dst, get_set s src) of
     (Some v, Some w) \<Rightarrow> vs_p_len w = - 1 \<and> vs_p_len v \<noteq> - 1 \<or> vset_len v = vset_len w | _ \<Rightarrow> False)"
| "vrel_allowed N (Next dst src rel) s \<longleftrightarrow> whole s dst \<and> whole s src \<and> get_rel s rel \<noteq> None"
| "vrel_allowed N (Prev dst src rel uni) s \<longleftrightarrow> whole s dst \<and> whole s src \<and> get_rel s rel \<noteq> None \<and> whole s uni"
| "vrel_allowed N (Copy_match dst src proj pattern) s \<longleftrightarrow> whole s dst \<and> whole s src \<and> length pattern = length proj
     \<and> list_ex (\<lambda>(i, v). vs_proj v = proj) (protected_rels s)"

fun proj_spec :: "vset_op \<Rightarrow> (nat \<rightharpoonup> nat list option) \<Rightarrow> (nat \<rightharpoonup> nat list option)" where
  "proj_spec (Create i sz k proj) m = m(i \<mapsto> (if k < 0 then None else Some (map nat (take (nat k) proj))))"
| "proj_spec (Destroy i) m = m(i := None)"
| "proj_spec op m = m"

definition new_set :: "nat \<Rightarrow> nat list set \<Rightarrow> vsets \<Rightarrow> vsets" where
  "new_set i A m = m(i \<mapsto> (fst (the (m i)), A))"

definition elements :: "vworld \<Rightarrow> nat \<Rightarrow> nat list set" where
  "elements w i = snd (the (w_sets w i))"

fun vrel_spec :: "vrel_op \<Rightarrow> vworld \<Rightarrow> vworld" where
  "vrel_spec (On_sets op) w = w\<lparr>w_sets := vset_spec op (w_sets w), w_proj := proj_spec op (w_proj w)\<rparr>"
| "vrel_spec (Rel_create i sz k proj) w = w\<lparr>w_rels := (w_rels w)(i \<mapsto> (map nat (take (nat k) proj), {}))\<rparr>"
| "vrel_spec (Rel_add i src dst) w = (let (ps, Q) = the (w_rels w i) in
     w\<lparr>w_rels := (w_rels w)(i \<mapsto> (ps, insert (map u32_of_int src, map u32_of_int dst) Q))\<rparr>)"
| "vrel_spec (Project dst src) w = w\<lparr>w_sets := new_set dst (case (w_proj w dst, w_proj w src) of
     (Some (Some ps), Some None) \<Rightarrow> (\<lambda>x. map ((!) x) ps) ` elements w src | _ \<Rightarrow> elements w src) (w_sets w)\<rparr>"
| "vrel_spec (Next dst src rel) w = (let (ps, Q) = the (w_rels w rel) in
     w\<lparr>w_sets := new_set dst (successors ps Q (elements w src)) (w_sets w)\<rparr>)"
| "vrel_spec (Prev dst src rel uni) w = (let (ps, Q) = the (w_rels w rel) in
     w\<lparr>w_sets := vset_spec (Intersect dst uni) (new_set dst (predecessors ps Q (elements w src)) (w_sets w))\<rparr>)"
| "vrel_spec (Copy_match dst src proj pattern) w =
     w\<lparr>w_sets := new_set dst (matching (map nat proj) (map u32_of_int pattern) (elements w src)) (w_sets w)\<rparr>"

section \<open>Invariant and abstraction\<close>

definition rels_ok :: "ldd \<Rightarrow> bool" where
  "rels_ok s \<longleftrightarrow> distinct (map fst (protected_rels s)) \<and> (\<forall>i v. get_rel s i = Some v \<longrightarrow> (\<exists>R. den s (2 * vset_len v) (vs_mdd v) R))"

definition projected :: "nat \<Rightarrow> projs \<Rightarrow> vector_set \<Rightarrow> nat list \<Rightarrow> bool" where
  "projected N P v ps \<longleftrightarrow> vs_p_len v = int (length ps) \<and> vs_proj v = map int ps \<and> P (vs_p_id v) = Some ps \<and> proj_ok 0 N ps"

definition world_ok :: "nat \<Rightarrow> projs \<Rightarrow> ldd \<Rightarrow> bool" where
  "world_ok N P s \<longleftrightarrow> N < 2 ^ 31 \<and> core N P s \<and> sets_ok s \<and> rels_ok s
     \<and> (\<forall>i v. get_set s i = Some v \<longrightarrow> vs_size v = N \<and> (vs_p_len v = - 1 \<and> vs_p_id v = 1 \<or> (\<exists>ps. projected N P v ps)))
     \<and> (\<forall>i v. get_rel s i = Some v \<longrightarrow> (\<exists>ps. projected N P v ps \<and> small_ids s (vs_p_id v) ps))"

definition pairs :: "nat \<Rightarrow> nat list set \<Rightarrow> (nat list \<times> nat list) set" where
  "pairs n R = {(x, y). length x = n \<and> length y = n \<and> interleave x y \<in> R}"

definition proj_abs :: "ldd \<Rightarrow> nat \<rightharpoonup> nat list option" where
  "proj_abs s i = map_option (\<lambda>v. if vs_p_len v < 0 then None else Some (map nat (vs_proj v))) (get_set s i)"

definition rel_abs :: "ldd \<Rightarrow> nat \<rightharpoonup> nat list \<times> (nat list \<times> nat list) set" where
  "rel_abs s i = map_option (\<lambda>v. (map nat (vs_proj v), pairs (vset_len v) (\<Union> {R. den s (2 * vset_len v) (vs_mdd v) R}))) (get_rel s i)"

definition world_abs :: "ldd \<Rightarrow> vworld" where
  "world_abs s = \<lparr>w_sets = vset_abs s, w_proj = proj_abs s, w_rels = rel_abs s\<rparr>"

lemma world_okD:
  assumes "world_ok N P s"
  shows "core N P s" and "sets_ok s" and "rels_ok s" and "rel_ok N P s" and "ldd_ok s"
    and "get_set s i = Some v \<Longrightarrow> vs_size v = N \<and> (vs_p_len v = - 1 \<and> vs_p_id v = 1 \<or> (\<exists>ps. projected N P v ps))"
    and "get_rel s i = Some v \<Longrightarrow> \<exists>ps. projected N P v ps \<and> small_ids s (vs_p_id v) ps"
  using assms by (auto simp: world_ok_def dest: coreD)

lemma rel_prot: "get_rel s i = Some v \<Longrightarrow> prot s (vs_mdd v) \<and> prot s (vs_p_id v)"
  by (intro conjI prot_root) (auto simp: get_rel_def gc_roots_iff dest!: map_of_SomeD)

lemma get_upd_rel: "get_rel (upd_rel i f s) j = (if j = i then map_option f (get_rel s i) else get_rel s j)"
  by (simp add: get_rel_def upd_rel_def ro.map_of_change)

lemma upd_rel_simps [simp]: "get_set (upd_rel i f s) j = get_set s j" "protected_sets (upd_rel i f s) = protected_sets s"
    "map fst (protected_rels (upd_rel i f s)) = map fst (protected_rels s)"
  by (simp_all add: get_set_def upd_rel_def case_prod_beta comp_def)

lemma upd_set_rel [simp]: "get_rel (upd_set i f s) j = get_rel s j" "protected_rels (upd_set i f s) = protected_rels s"
  by (simp_all add: get_rel_def upd_set_def)

text \<open>The abstraction only depends on the objects and the sets of their nodes.\<close>

lemma world_abs_same:
  assumes "\<And>j. get_set t j = get_set s j" and "\<And>j. get_rel t j = get_rel s j"
    and "\<And>j v n A. get_set s j = Some v \<Longrightarrow> den t n (vs_mdd v) A = den s n (vs_mdd v) A"
    and "\<And>j v n A. get_rel s j = Some v \<Longrightarrow> den t n (vs_mdd v) A = den s n (vs_mdd v) A"
  shows "world_abs t = world_abs s"
proof -
  have "vset_abs t j = vset_abs s j" for j unfolding vset_abs_def assms(1) using assms(3) by (auto intro!: option.map_cong0)
  moreover have "rel_abs t j = rel_abs s j" for j unfolding rel_abs_def assms(2) using assms(4) by (auto simp: pairs_def intro!: option.map_cong0)
  moreover have "proj_abs t j = proj_abs s j" for j by (simp add: proj_abs_def assms(1))
  ultimately show ?thesis by (simp add: world_abs_def fun_eq_iff)
qed

lemma nodes_get_rel: "keeps_nodes s t \<Longrightarrow> get_rel t i = get_rel s i"
  by (simp add: keeps_nodes_def same_roots_def get_rel_def)

lemma world_keeps:
  assumes w: "world_ok N P s" and t: "rel_ok N P t" "keeps_nodes s t"
  shows "world_ok N P t" and "world_abs t = world_abs s"
proof -
  note d = world_okD[OF w] and g = nodes_get_set[OF t(2)] nodes_get_rel[OF t(2)] and kd = keeps_nodes_den[OF t(2)]
  have "rels_ok t" using d(3) kd rel_prot t(2) by (auto simp: rels_ok_def g keeps_nodes_def same_roots_def)
  moreover have "small_ids t (vs_p_id v) ps = small_ids s (vs_p_id v) ps" if "projected N P v ps" for v ps
    using small_ids_later[OF rel_okD(2)[OF d(4)] keeps_nodes_later[OF t(2)]] that by (simp add: projected_def)
  then have "\<exists>ps. projected N P v ps \<and> small_ids t (vs_p_id v) ps" if "get_rel s i = Some v" for i v using d(7)[OF that] by blast
  ultimately show "world_ok N P t"
    using w core_keeps[OF d(1) t] nodes_sets_ok[OF d(2) t(2) rel_okD(1)[OF t(1)]] by (simp add: world_ok_def g)
  show "world_abs t = world_abs s" by (rule world_abs_same) (simp_all add: g kd set_prot(1) rel_prot)
qed

lemma small_ids_same: "node_table t = node_table s \<Longrightarrow> small_ids t p ps = small_ids s p ps"
  by (induction ps arbitrary: p) simp_all

text \<open>A new node for a set.\<close>

lemma world_set_node:
  assumes w: "world_ok N P s" and v: "get_set s i = Some v" and r: "vld s r" "den s (vset_len v) r A"
  shows "world_ok N P (upd_set i (\<lambda>v. v\<lparr>vs_mdd := r\<rparr>) s)"
    and "world_abs (upd_set i (\<lambda>v. v\<lparr>vs_mdd := r\<rparr>) s) = (world_abs s)\<lparr>w_sets := (vset_abs s)(i \<mapsto> (vset_len v, A))\<rparr>"
proof -
  define t where "t = upd_set i (\<lambda>v. v\<lparr>vs_mdd := r\<rparr>) s"
  note d = world_okD[OF w] and sn = set_node[OF world_okD(2)[OF w] v r, folded t_def]
  have g: "get_set t j = (if j = i then Some (v\<lparr>vs_mdd := r\<rparr>) else get_set s j)" for j using v by (simp add: t_def get_upd_set)
  have gr: "get_rel t j = get_rel s j" for j by (simp add: t_def)
  have ch: "core N P t" "den t n k B = den s n k B" "node_table t = node_table s" for n k B
    using so.change_core[where f = "\<lambda>v. v\<lparr>vs_mdd := r\<rparr>" and i = i and v = v and t = t, OF d(1)] d(2) v r(1) prot_vld[OF d(5)] set_prot(2)[OF v]
    by (simp_all add: sets_ok_def get_set_def t_def upd_set_def)
  have "rels_ok t" using d(3) by (simp add: rels_ok_def gr ch(2)) (simp add: t_def)
  then show "world_ok N P (upd_set i (\<lambda>v. v\<lparr>vs_mdd := r\<rparr>) s)"
    using w sn(1) ch(1) v by (auto simp: world_ok_def g gr t_def[symmetric] small_ids_same[OF ch(3)] projected_def)
  have "vset_abs t = (vset_abs s)(i \<mapsto> (vset_len v, A))" using vset_abs_eqI[OF d(2) sn] by simp
  moreover have "proj_abs t = proj_abs s" using v by (auto simp: proj_abs_def g)
  moreover have "rel_abs t = rel_abs s" by (auto simp: rel_abs_def gr ch(2))
  ultimately show "world_abs (upd_set i (\<lambda>v. v\<lparr>vs_mdd := r\<rparr>) s) = (world_abs s)\<lparr>w_sets := (vset_abs s)(i \<mapsto> (vset_len v, A))\<rparr>"
    by (simp add: world_abs_def t_def)
qed

text \<open>A new node for a relation.\<close>

lemma world_rel_node:
  assumes w: "world_ok N P s" and v: "get_rel s i = Some v" and r: "vld s r" "den s (2 * vset_len v) r R"
  shows "world_ok N P (upd_rel i (\<lambda>v. v\<lparr>vs_mdd := r\<rparr>) s)"
    and "world_abs (upd_rel i (\<lambda>v. v\<lparr>vs_mdd := r\<rparr>) s) = (world_abs s)\<lparr>w_rels := (rel_abs s)(i \<mapsto> (map nat (vs_proj v), pairs (vset_len v) R))\<rparr>"
proof -
  define t where "t = upd_rel i (\<lambda>v. v\<lparr>vs_mdd := r\<rparr>) s"
  note d = world_okD[OF w]
  have g: "get_rel t j = (if j = i then Some (v\<lparr>vs_mdd := r\<rparr>) else get_rel s j)" for j using v by (simp add: t_def get_upd_rel)
  have gs: "get_set t j = get_set s j" for j by (simp add: t_def)
  have ch: "core N P t" "den t n k B = den s n k B" "node_table t = node_table s" for n k B
    using ro.change_core[where f = "\<lambda>v. v\<lparr>vs_mdd := r\<rparr>" and i = i and v = v and t = t, OF d(1)] d(3) v r(1) prot_vld[OF d(5)] rel_prot[OF v]
    by (simp_all add: rels_ok_def get_rel_def t_def upd_rel_def)
  have "rels_ok t" using d(3) r(2) by (auto simp: rels_ok_def g ch(2)) (simp add: t_def)
  moreover have "sets_ok t" using d(2) coreD(4)[OF ch(1)] by (auto simp: sets_ok_def gs ch(2)) (simp add: t_def)
  ultimately show "world_ok N P (upd_rel i (\<lambda>v. v\<lparr>vs_mdd := r\<rparr>) s)"
    using w ch(1) v by (auto simp: world_ok_def g gs t_def[symmetric] small_ids_same[OF ch(3)] projected_def)
  have "rel_abs t = (rel_abs s)(i \<mapsto> (map nat (vs_proj v), pairs (vset_len v) R))" using den_Union[OF r(2)] by (auto simp: rel_abs_def g ch(2))
  moreover have "vset_abs t = vset_abs s" "proj_abs t = proj_abs s" by (auto simp: vset_abs_def proj_abs_def gs ch(2))
  ultimately show "world_abs (upd_rel i (\<lambda>v. v\<lparr>vs_mdd := r\<rparr>) s) = (world_abs s)\<lparr>w_rels := (rel_abs s)(i \<mapsto> (map nat (vs_proj v), pairs (vset_len v) R))\<rparr>"
    by (simp add: world_abs_def t_def)
qed

section \<open>Operations that change one object\<close>

definition world_to :: "nat \<Rightarrow> projs \<Rightarrow> ldd result option \<Rightarrow> vworld \<Rightarrow> bool" where
  "world_to N P m w \<longleftrightarrow> no_room m \<or> (\<exists>t. m = ret t \<and> world_ok N P t \<and> world_abs t = w)"

lemma world_run:
  assumes w: "world_ok N P s" and v: "get_set s i = Some v" and m: "runs_rel N P m s (vset_len v) A"
    and f: "\<And>t. world_ok N P t \<Longrightarrow> world_abs t = (world_abs s)\<lparr>w_sets := (vset_abs s)(i \<mapsto> (vset_len v, A))\<rparr>
      \<Longrightarrow> \<exists>r. \<forall>j. get_set t j = (if j = i then Some (v\<lparr>vs_mdd := r\<rparr>) else get_set s j) \<Longrightarrow> world_to N P (f t) w'"
  shows "world_to N P (rbind m (\<lambda>(r, s). f (upd_set i (\<lambda>v. v\<lparr>vs_mdd := r\<rparr>) s))) w'"
  using m unfolding ends_def
proof (elim disjE exE conjE)
  assume "no_room m"
  then show ?thesis by (simp add: world_to_def)
next
  fix r t assume t: "m = ret (r, t)" "rel_ok N P t" "keeps_nodes s t" "vld t r" "den t (vset_len v) r A"
  define u where "u = upd_set i (\<lambda>v. v\<lparr>vs_mdd := r\<rparr>) t"
  note k = world_keeps[OF w t(2,3)]
  have v': "get_set t i = Some v" using v nodes_get_set[OF t(3)] by simp
  have "vset_abs t = vset_abs s" using k(2) by (simp add: world_abs_def)
  then have "world_abs u = (world_abs s)\<lparr>w_sets := (vset_abs s)(i \<mapsto> (vset_len v, A))\<rparr>" "world_ok N P u"
    using world_set_node[OF k(1) v' t(4,5)] k(2) by (simp_all add: u_def)
  moreover have "\<exists>r. \<forall>j. get_set u j = (if j = i then Some (v\<lparr>vs_mdd := r\<rparr>) else get_set s j)"
    using v' nodes_get_set[OF t(3)] by (auto simp: u_def get_upd_set)
  ultimately show ?thesis using f[of u] by (simp add: t(1) u_def)
qed

lemma world_run_ret:
  assumes "world_ok N P s" and "get_set s i = Some v" and "runs_rel N P m s (vset_len v) A"
  shows "world_to N P (rbind m (\<lambda>(r, s). ret (upd_set i (\<lambda>v. v\<lparr>vs_mdd := r\<rparr>) s))) ((world_abs s)\<lparr>w_sets := (vset_abs s)(i \<mapsto> (vset_len v, A))\<rparr>)"
  by (rule world_run[OF assms]) (simp add: world_to_def)

lemma world_updates:
  assumes w: "world_ok N P s" and v: "get_set s i = Some v" and m: "updates_to m s i A"
  shows "world_to N P m ((world_abs s)\<lparr>w_sets := (vset_abs s)(i \<mapsto> (vset_len v, A))\<rparr>)"
  using m unfolding updates_to_def
proof (elim disjE exE conjE)
  assume "no_room m"
  then show ?thesis by (simp add: world_to_def)
next
  fix t r v' assume t: "m = ret (upd_set i (\<lambda>v. v\<lparr>vs_mdd := r\<rparr>) t)" "ldd_ok t" "keeps s t" "vld t r" "get_set s i = Some v'" "den t (vset_len v') r A"
  have "runs_rel N P (ret (r, t)) s (vset_len v) A"
    unfolding ends_def using rel_ok_keeps[OF world_okD(4)[OF w] t(2,3)] keeps_keeps_nodes[OF t(3)] t(4-6) v by auto
  from world_run_ret[OF w v this] show ?thesis by (simp add: t(1))
qed

lemma world_sets [simp]: "w_sets (world_abs s) = vset_abs s" "w_proj (world_abs s) = proj_abs s" "w_rels (world_abs s) = rel_abs s"
  by (simp_all add: world_abs_def)

lemma world_set_op:
  assumes w: "world_ok N P s" and mem: "\<not> alloc (16 * fib 47)" and al: "vset_allowed op s" and i: "vset_target op = Some i"
  shows "world_to N P (vset_exec alloc op s) (vrel_spec (On_sets op) (world_abs s))"
proof -
  from vset_exec_updates[where alloc = alloc, OF world_okD(2)[OF w] mem al i] obtain v A where v: "get_set s i = Some v" "updates_to (vset_exec alloc op s) s i A"
    and spec: "vset_spec op (vset_abs s) = (vset_abs s)(i \<mapsto> (vset_len v, A))" by blast
  have "proj_spec op m = m" for m using i by (cases op) auto
  then show ?thesis using world_updates[OF w v] spec by (simp add: world_abs_def)
qed

text \<open>The specification in terms of interleaved vectors.\<close>

lemma interleave_inj: "length x = length y \<Longrightarrow> length x' = length y' \<Longrightarrow> interleave x y = interleave x' y' \<longleftrightarrow> x = x' \<and> y = y'"
proof (induction x arbitrary: y x' y')
  case Nil
  then show ?case by (cases x'; cases y') auto
next
  case (Cons a x)
  then show ?case by (cases y; cases x'; cases y') auto
qed

lemma pairs_insert: "length x = n \<Longrightarrow> length y = n \<Longrightarrow> pairs n (insert (interleave x y) R) = insert (x, y) (pairs n R)"
  by (auto simp: pairs_def interleave_inj)

lemma interleave_map: "concat (map (\<lambda>k. [f k, g k]) ks) = interleave (map f ks) (map g ks)"
  by (induction ks) auto

lemma interleave_nth:
  assumes "length x = n" and "length y = n"
  shows "concat (map (\<lambda>k. [f (x ! k), g (y ! k)]) [0..<n]) = interleave (map f x) (map g y)"
proof -
  have "map (\<lambda>k. f (x ! k)) [0..<n] = map f x" "map (\<lambda>k. g (y ! k)) [0..<n] = map g y" using assms by (auto intro: nth_equalityI)
  then show ?thesis by (simp add: interleave_map)
qed

lemma interleave_length: "length x = length y \<Longrightarrow> length (interleave x y) = 2 * length x"
  by (induction x y rule: interleave.induct) auto

lemma proj_vec_0: "proj_vec 0 ps x = map ((!) x) ps"
  by (simp add: proj_vec_def)

lemma step_vec_pairs:
  "step_vec 0 ps x r y \<and> r \<in> R \<longleftrightarrow> same_outside ps x y \<and> r = interleave (map ((!) x) ps) (map ((!) y) ps) \<and> (map ((!) x) ps, map ((!) y) ps) \<in> pairs (length ps) R"
  by (auto simp: step_vec_def same_outside_def proj_vec_0 pairs_def)

lemma next_set_spec: "next_set 0 ps A R = successors ps (pairs (length ps) R) A"
  unfolding next_set_def successors_def using step_vec_pairs by blast

lemma prev_set_spec: "prev_set 0 ps A R = predecessors ps (pairs (length ps) R) A"
  unfolding prev_set_def predecessors_def using step_vec_pairs by blast

lemma match_set_spec: "match_set 0 ps A {w} = matching ps w A"
  by (simp add: match_set_def matching_def proj_vec_0)

section \<open>Operations with relations and projections\<close>

lemma proj_ok_length: "proj_ok 0 N ps \<Longrightarrow> length ps \<le> N"
proof -
  assume "proj_ok 0 N ps"
  then have "distinct ps" "set ps \<subseteq> {..<N}" by (auto simp: proj_ok_def strict_sorted_iff)
  then show ?thesis using card_mono[of "{..<N}" "set ps"] by (simp add: distinct_card)
qed

lemma projectedD:
  assumes w: "world_ok N P s" and v: "projected N P v ps"
  shows "P (vs_p_id v) = Some ps" and "proj_ok 0 N ps" and "vs_proj v = map int ps" and "u32_of_int (vs_p_len v) = length ps" and "vset_len v = length ps"
    and "vs_p_len v \<noteq> - 1" and "\<not> vs_p_len v < 0"
proof -
  show "P (vs_p_id v) = Some ps" "vs_proj v = map int ps" and pk: "proj_ok 0 N ps" using v by (simp_all add: projected_def)
  have "length ps < 2 ^ 32" using proj_ok_length[OF pk] w by (simp add: world_ok_def)
  then show "u32_of_int (vs_p_len v) = length ps" using v by (simp add: projected_def u32_of_int_def)
  show "vset_len v = length ps" "vs_p_len v \<noteq> - 1" "\<not> vs_p_len v < 0" using v by (simp_all add: projected_def vset_len_def)
qed

lemma wholeD:
  assumes w: "world_ok N P s" and i: "whole s i"
  obtains v A where "get_set s i = Some v" and "vs_p_len v = - 1" and "vs_p_id v = 1" and "vset_len v = N" and "den s N (vs_mdd v) A"
    and "vset_abs s i = Some (N, A)" and "prot s (vs_mdd v)" and "proj_abs s i = Some None"
proof -
  from i obtain v where v: "get_set s i = Some v" "vs_p_len v = - 1" by (auto simp: whole_def split: option.splits)
  have n: "vs_p_id v = 1" "vset_len v = N" using world_okD(6)[OF w v(1)] v(2) by (auto simp: projected_def vset_len_def)
  from vset_present[OF world_okD(2)[OF w] v(1)] obtain A where "set_has s i (vset_len v) A" "vset_abs s i = Some (vset_len v, A)" .
  then show thesis using that[of v A] v n set_prot(1)[OF v(1)] by (simp add: set_has_def proj_abs_def)
qed

lemma relD:
  assumes w: "world_ok N P s" and x: "get_rel s i = Some x"
  obtains ps R where "projected N P x ps" and "small_ids s (vs_p_id x) ps" and "den s (2 * length ps) (vs_mdd x) R"
    and "rel_abs s i = Some (ps, pairs (length ps) R)" and "prot s (vs_mdd x)"
proof -
  from world_okD(7)[OF w x] obtain ps where ps: "projected N P x ps" "small_ids s (vs_p_id x) ps" by blast
  note d = projectedD[OF w ps(1)]
  from world_okD(3)[OF w] x obtain R where R: "den s (2 * length ps) (vs_mdd x) R" unfolding rels_ok_def d(5)[symmetric] by blast
  then have "rel_abs s i = Some (ps, pairs (length ps) R)" using x d(3,5) den_Union[OF R] by (simp add: rel_abs_def comp_def)
  then show thesis using that ps R rel_prot[OF x] by blast
qed

lemma rel_len_simps: "rel_len OP_NEXT ps = 2 * length ps" "rel_len OP_PREV ps = 2 * length ps" "rel_len OP_COPY_MATCH ps = length ps"
  by (simp_all add: rel_len_def)

lemma world_next:
  assumes w: "world_ok N P s" and mem: "\<not> alloc (16 * fib 47)" and al: "vrel_allowed N (Next dst src rel) s"
  shows "world_to N P (set_next_mdd alloc dst src rel s) (vrel_spec (Next dst src rel) (world_abs s))"
proof -
  from al have a: "whole s dst" "whole s src" and x0: "get_rel s rel \<noteq> None" by simp_all
  from wholeD[OF w a(1)] obtain v B where v: "get_set s dst = Some v" "vs_p_len v = - 1" "vset_len v = N" "vset_abs s dst = Some (N, B)" by metis
  from wholeD[OF w a(2)] obtain y A where y: "get_set s src = Some y" "vs_p_len y = - 1" "den s N (vs_mdd y) A" "vset_abs s src = Some (N, A)" "prot s (vs_mdd y)" by metis
  from x0 obtain x where x: "get_rel s rel = Some x" by blast
  from relD[OF w x] obtain ps R where r: "projected N P x ps" "small_ids s (vs_p_id x) ps" "den s (2 * length ps) (vs_mdd x) R"
    "rel_abs s rel = Some (ps, pairs (length ps) R)" "prot s (vs_mdd x)" .
  note d = projectedD[OF w r(1)]
  have "rel_ready N P OP_NEXT s (vs_p_id x) ps 0 N (vs_mdd y) A (vs_mdd x) R"
    using world_okD(4)[OF w] y r d by (simp add: rel_ready_def rel_len_simps)
  from mdd_next_run[where alloc = alloc, OF mem this] world_run_ret[OF w v(1)]
  have "world_to N P (rbind (mdd_next alloc (vs_p_id x) (vs_mdd y) (vs_mdd x) 0 (vs_proj x) (u32_of_int (vs_p_len x)) s) (\<lambda>(r, s). ret (upd_set dst (\<lambda>v. v\<lparr>vs_mdd := r\<rparr>) s)))
      ((world_abs s)\<lparr>w_sets := (vset_abs s)(dst \<mapsto> (N, next_set 0 ps A R))\<rparr>)" unfolding v(3) d(3,4) by blast
  then show ?thesis using v y r(4) x by (simp add: set_next_mdd_def with_set_def with_rel_def next_set_spec new_set_def elements_def)
qed

lemma world_prev:
  assumes w: "world_ok N P s" and mem: "\<not> alloc (16 * fib 47)" and al: "vrel_allowed N (Prev dst src rel uni) s"
  shows "world_to N P (set_prev_mdd alloc dst src rel uni s) (vrel_spec (Prev dst src rel uni) (world_abs s))"
proof -
  from al have a: "whole s dst" "whole s src" "whole s uni" and x0: "get_rel s rel \<noteq> None" by simp_all
  from wholeD[OF w a(1)] obtain v B where v: "get_set s dst = Some v" "vs_p_len v = - 1" "vs_p_id v = 1" "vset_len v = N" "vset_abs s dst = Some (N, B)" by metis
  from wholeD[OF w a(2)] obtain y A where y: "get_set s src = Some y" "vs_p_len y = - 1" "den s N (vs_mdd y) A" "vset_abs s src = Some (N, A)" "prot s (vs_mdd y)" by metis
  from wholeD[OF w a(3)] obtain u where u: "get_set s uni = Some u" "vs_p_len u = - 1" "vs_p_id u = 1" "vset_len u = N" by metis
  from x0 obtain x where x: "get_rel s rel = Some x" by blast
  from relD[OF w x] obtain ps R where r: "projected N P x ps" "small_ids s (vs_p_id x) ps" "den s (2 * length ps) (vs_mdd x) R"
    "rel_abs s rel = Some (ps, pairs (length ps) R)" "prot s (vs_mdd x)" .
  note d = projectedD[OF w r(1)]
  have "rel_ready N P OP_PREV s (vs_p_id x) ps 0 N (vs_mdd y) A (vs_mdd x) R"
    using world_okD(4)[OF w] y r d by (simp add: rel_ready_def rel_len_simps)
  from mdd_prev_run[where alloc = alloc, OF mem this]
  have run: "runs_rel N P (mdd_prev alloc (vs_p_id x) (vs_mdd y) (vs_mdd x) 0 (vs_proj x) (u32_of_int (vs_p_len x)) s) s (vset_len v) (prev_set 0 ps A R)"
    unfolding d(3,4) v(4) .
  have "world_to N P (rbind (mdd_prev alloc (vs_p_id x) (vs_mdd y) (vs_mdd x) 0 (vs_proj x) (u32_of_int (vs_p_len x)) s)
      (\<lambda>(r, s). set_intersect_mdd alloc dst uni (upd_set dst (\<lambda>v. v\<lparr>vs_mdd := r\<rparr>) s))) (vrel_spec (Prev dst src rel uni) (world_abs s))"
  proof (rule world_run[OF w v(1) run])
    fix t assume t: "world_ok N P t" "world_abs t = (world_abs s)\<lparr>w_sets := (vset_abs s)(dst \<mapsto> (vset_len v, prev_set 0 ps A R))\<rparr>"
      "\<exists>r. \<forall>j. get_set t j = (if j = dst then Some (v\<lparr>vs_mdd := r\<rparr>) else get_set s j)"
    from t(3) obtain r' where g: "\<And>j. get_set t j = (if j = dst then Some (v\<lparr>vs_mdd := r'\<rparr>) else get_set s j)" by blast
    then have "get_set t dst = Some (v\<lparr>vs_mdd := r'\<rparr>)" by simp
    moreover obtain u' where "get_set t uni = Some u'" "vs_p_len u' = - 1" "vs_p_id u' = 1" "vset_len u' = N"
      using g[of uni] u v by (cases "uni = dst") auto
    ultimately have "same_kind t dst uni" using v by (simp add: same_kind_def)
    then have "world_to N P (vset_exec alloc (Intersect dst uni) t) (vrel_spec (On_sets (Intersect dst uni)) (world_abs t))"
      by (intro world_set_op[where alloc = alloc, OF t(1) mem]) simp_all
    then show "world_to N P (set_intersect_mdd alloc dst uni t) (vrel_spec (Prev dst src rel uni) (world_abs s))"
      using v y r(4) by (simp add: t(2) new_set_def elements_def prev_set_spec) (simp add: world_abs_def)
  qed
  then show ?thesis using v y x by (simp add: set_prev_mdd_def with_set_def with_rel_def)
qed

lemma world_project:
  assumes w: "world_ok N P s" and mem: "\<not> alloc (16 * fib 47)" and al: "vrel_allowed N (Project dst src) s"
  shows "world_to N P (set_project_mdd alloc dst src s) (vrel_spec (Project dst src) (world_abs s))"
proof -
  from al obtain v y where v: "get_set s dst = Some v" and y: "get_set s src = Some y"
    and k: "vs_p_len y = - 1 \<and> vs_p_len v \<noteq> - 1 \<or> vset_len v = vset_len y" by (auto split: option.splits)
  from vset_present[OF world_okD(2)[OF w] v] obtain B where B: "vset_abs s dst = Some (vset_len v, B)" .
  from vset_present[OF world_okD(2)[OF w] y] obtain A where A: "set_has s src (vset_len y) A" "vset_abs s src = Some (vset_len y, A)" .
  have dA: "den s (vset_len y) (vs_mdd y) A" using A(1) y by (simp add: set_has_def)
  have el: "elements (world_abs s) src = A" using A(2) by (simp add: elements_def)
  show ?thesis
  proof (cases "vs_p_len y = - 1 \<and> vs_p_len v \<noteq> - 1")
    case False
    then have eq: "vset_len v = vset_len y" using k by blast
    have "runs_rel N P (ret (vs_mdd y, s)) s (vset_len v) A"
      unfolding eq by (rule ends_ret[OF world_okD(4)[OF w]]) (simp add: dA prot_vld[OF world_okD(5)[OF w] set_prot(1)[OF y]])
    from world_run_ret[OF w v this] have "world_to N P (set_project_mdd alloc dst src s) ((world_abs s)\<lparr>w_sets := (vset_abs s)(dst \<mapsto> (vset_len v, A))\<rparr>)"
      using v y False by (auto simp: set_project_mdd_def with_set_def)
    moreover have "proj_abs s dst = Some None \<or> (\<exists>ps. proj_abs s src = Some (Some ps))"
      using False world_okD(6)[OF w y] projectedD(7)[OF w] v y by (auto simp: proj_abs_def)
    then have "(case (proj_abs s dst, proj_abs s src) of (Some (Some ps), Some None) \<Rightarrow> (\<lambda>x. map ((!) x) ps) ` A | _ \<Rightarrow> A) = A"
      by (auto split: option.splits)
    ultimately show ?thesis unfolding vrel_spec.simps el world_sets by (simp add: new_set_def B)
  next
    case True
    then obtain ps where ps: "projected N P v ps" using world_okD(6)[OF w v] by blast
    note d = projectedD[OF w ps]
    have n: "vset_len y = N" using world_okD(6)[OF w y] True projectedD(6)[OF w] by (auto simp: vset_len_def)
    have ne: "src \<noteq> dst" using True v y by auto
    define t where "t = upd_set dst (\<lambda>v. v\<lparr>vs_mdd := 0\<rparr>) s"
    have t: "world_ok N P t" "world_abs t = (world_abs s)\<lparr>w_sets := (vset_abs s)(dst \<mapsto> (vset_len v, {}))\<rparr>"
      using world_set_node[OF w v, of 0 "{}"] by (simp_all add: t_def vld_def)
    have g: "get_set t dst = Some (v\<lparr>vs_mdd := 0\<rparr>)" "get_set t src = Some y" using v y ne by (simp_all add: t_def get_upd_set)
    have tA: "vset_abs t = (vset_abs s)(dst \<mapsto> (vset_len v, {}))" using t(2) by (simp add: world_abs_def)
    then have "set_has t src N A" using vset_abs_iff[OF world_okD(2)[OF t(1)], of src N A] A(2) ne n by simp
    then have "den t N (vs_mdd y) A" using g by (simp add: set_has_def)
    then have "proj_ready N P t (vs_p_id v) ps 0 N (vs_mdd y) A"
      using world_okD(4)[OF t(1)] set_prot(1)[OF g(2)] d by (simp add: proj_ready_def)
    from mdd_project_run[where alloc = alloc, OF mem this]
    have "runs_rel N P (mdd_project alloc (vs_p_id v) (vs_mdd y) 0 (vs_proj v) (u32_of_int (vs_p_len v)) t) t (vset_len (v\<lparr>vs_mdd := 0\<rparr>)) (proj_vec 0 ps ` A)"
      using d by simp
    from world_run_ret[OF t(1) g(1) this]
    have "world_to N P (set_project_mdd alloc dst src s) ((world_abs s)\<lparr>w_sets := (vset_abs s)(dst \<mapsto> (length ps, proj_vec 0 ps ` A))\<rparr>)"
      using v y g True tA t(2) d(5) by (simp add: set_project_mdd_def with_set_def t_def[symmetric])
    moreover have "proj_abs s dst = Some (Some ps)" "proj_abs s src = Some None" using v y d True by (simp_all add: proj_abs_def comp_def)
    ultimately show ?thesis unfolding vrel_spec.simps el world_sets by (simp add: new_set_def B d(5) proj_vec_0)
  qed
qed

lemma world_rel_add:
  assumes w: "world_ok N P s" and mem: "\<not> alloc (16 * fib 47)" and al: "vrel_allowed N (Rel_add i src dst) s"
  shows "world_to N P (rel_add_mdd alloc i src dst s) (vrel_spec (Rel_add i src dst) (world_abs s))"
proof -
  from al obtain x where x: "get_rel s i = Some x" "length src = vset_len x" "length dst = vset_len x" by (auto split: option.splits)
  from relD[OF w x(1)] obtain ps R where r: "projected N P x ps" "den s (2 * length ps) (vs_mdd x) R" "rel_abs s i = Some (ps, pairs (length ps) R)" "prot s (vs_mdd x)" by metis
  note d = projectedD[OF w r(1)]
  define vec where "vec = interleave (map u32_of_int src) (map u32_of_int dst)"
  have len: "length vec = 2 * length ps" using x d(5) by (simp add: vec_def interleave_length)
  have run: "rel_add_mdd alloc i src dst s = rbind (mdd_put alloc (vs_mdd x) vec (2 * length ps) s) (\<lambda>(r, is_new, s). ret (upd_rel i (\<lambda>v. v\<lparr>vs_mdd := r\<rparr>) s))"
    using x d(5) by (simp add: rel_add_mdd_def with_rel_def interleave_nth vec_def)
  from mdd_put_run[where alloc = alloc, OF mem world_okD(5)[OF w] r(4,2) len] show ?thesis
    unfolding puts_to_def
  proof (elim disjE exE conjE)
    assume "no_room (mdd_put alloc (vs_mdd x) vec (2 * length ps) s)"
    then show ?thesis by (simp add: run world_to_def)
  next
    fix j t assume t: "mdd_put alloc (vs_mdd x) vec (2 * length ps) s = ret (j, vec \<notin> R, t)" "ldd_ok t" "keeps s t" "vld t j" "den t (2 * length ps) j (insert vec R)"
    note k = world_keeps[OF w rel_ok_keeps[OF world_okD(4)[OF w] t(2,3)] keeps_keeps_nodes[OF t(3)]]
    have "get_rel t i = Some x" using x(1) nodes_get_rel[OF keeps_keeps_nodes[OF t(3)]] by simp
    note n = world_rel_node[OF k(1) this t(4), unfolded d(5), OF t(5)]
    have "rel_abs t = rel_abs s" using k(2) by (simp add: world_abs_def)
    moreover have "pairs (length ps) (insert vec R) = insert (map u32_of_int src, map u32_of_int dst) (pairs (length ps) R)"
      unfolding vec_def using x d(5) by (intro pairs_insert) simp_all
    ultimately show ?thesis using n k(2) r(3) d(3) by (auto simp: run t(1) world_to_def comp_def)
  qed
qed

text \<open>Matching with the projection of a relation: the projection is found, and not created.\<close>

lemma put_bind:
  assumes "puts_to m s n A b" and "rel_ok N P s"
    and "\<And>r t. rel_ok N P t \<Longrightarrow> keeps_nodes s t \<Longrightarrow> vld t r \<Longrightarrow> den t n r A \<Longrightarrow> ends N P (f (r, b, t)) t Q"
  shows "ends N P (rbind m f) s Q"
  using assms(1) unfolding puts_to_def
proof (elim disjE exE conjE)
  fix i t assume t: "m = ret (i, b, t)" "ldd_ok t" "keeps s t" "vld t i" "den t n i A"
  note k = keeps_keeps_nodes[OF t(3)]
  have "ends N P (f (i, b, t)) t Q" by (rule assms(3)[OF rel_ok_keeps[OF assms(2) t(2,3)] k t(4,5)])
  then show ?thesis using keeps_nodes_trans[OF k] by (auto simp: t(1) ends_def)
qed (simp add: ends_def)

lemma u32_proj: "proj_ok 0 N ps \<Longrightarrow> N < 2 ^ 31 \<Longrightarrow> map (\<lambda>p. u32_of_int (int p)) ps = ps"
  by (intro map_idI) (auto simp: proj_ok_def u32_of_int_def)

lemma proj_put_run:
  assumes mem: "\<not> alloc (16 * fib 47)" and ok: "rel_ok N P s" and p: "P p = Some ps" "small_ids s p ps" "proj_ok 0 N ps" "N < 2 ^ 31"
  shows "ends N P (proj_put alloc msg (int (length ps)) (map int ps) s) s (\<lambda>i t. i = p)"
proof -
  have "puts_to (mdd_put alloc 0 ps (length ps) s) s (length ps) (insert ps {}) (ps \<notin> {})"
    by (rule mdd_put_run[where alloc = alloc, OF mem rel_okD(1)[OF ok]]) simp_all
  then have "puts_to (mdd_put alloc 0 (map u32_of_int (map int ps)) (nat (int (length ps))) s) s (length ps) {ps} True"
    using u32_proj[OF p(3,4)] by (simp add: comp_def)
  then show ?thesis
    unfolding proj_put_def
  proof (rule put_bind[OF _ ok])
    fix r t assume t: "rel_ok N P t" "keeps_nodes s t" "vld t r" "den t (length ps) r {ps}"
    note q = projs_okD[OF rel_okD(2)[OF t(1)] p(1)]
    have "nodes_ok t" using rel_okD(1)[OF t(1)] by (simp add: ldd_ok_def)
    then have "r = p" using den_inj[OF _ t(3) prot_vld[OF rel_okD(1)[OF t(1)] q(1)] t(4) q(2)] by blast
    moreover have "p < 65536"
    proof (cases ps)
      case Nil
      then have "p = 1" using q(2) den_nil[of t p "{[]}"] by (cases "p = 0") simp_all
      then show ?thesis by simp
    qed (use p(2) in simp)
    ultimately show "ends N P (case (r, True, t) of (p_id, is_new, s) \<Rightarrow> if p_id div 2 ^ 16 > 0 then abort msg else ret (p_id, s)) t (\<lambda>i t. i = p)"
      using t(1) by (simp add: ends_ret)
  qed
qed

lemma match_mdd_run:
  assumes mem: "\<not> alloc (16 * fib 47)" and ok: "rel_ok N P s" and a: "prot s a" "den s N a A"
    and p: "P p = Some ps" "small_ids s p ps" "proj_ok 0 N ps" and len: "length pattern = length ps"
    and gp: "\<And>t. rel_ok N P t \<Longrightarrow> later s t \<Longrightarrow> ends N P (get_p t) t (\<lambda>i u. i = p)"
  shows "runs_rel N P (match_mdd alloc get_p a (int (length ps)) (map int ps) pattern s) s N (match_set 0 ps A {map u32_of_int pattern})"
proof -
  define w where "w = map u32_of_int pattern"
  define inner where "inner = (\<lambda>r s. rbind (get_p s) (\<lambda>(p_id, s). rbind (mdd_push alloc p_id s) (\<lambda>s.
     rbind (mdd_copy_match alloc p_id a r 0 (map int ps) (length ps) s) (\<lambda>(r, s). rbind (mdd_pop s) (\<lambda>(x, s). ret (r, s))))))"
  have eq: "match_mdd alloc get_p a (int (length ps)) (map int ps) pattern s = rbind (mdd_put alloc 0 w (length ps) s) (\<lambda>(r, is_new, s).
      rbind (mdd_push alloc r s) (\<lambda>s. rbind (inner r s) (\<lambda>(r, s). rbind (mdd_pop s) (\<lambda>(x, s). ret (r, s)))))"
    by (simp add: match_mdd_def inner_def w_def rbind_assoc case_prod_unfold)
  have "puts_to (mdd_put alloc 0 w (length ps) s) s (length ps) {w} True"
    using mdd_put_run[where alloc = alloc, OF mem rel_okD(1)[OF ok], of 0 "length ps" "{}" w] len by (simp add: w_def)
  then show ?thesis
    unfolding eq w_def[symmetric]
  proof (rule put_bind[OF _ ok], simp only: prod.case)
    fix r t assume t: "rel_ok N P t" "keeps_nodes s t" "vld t r" "den t (length ps) r {w}"
    show "runs_rel N P (rbind (mdd_push alloc r t) (\<lambda>s. rbind (inner r s) (\<lambda>(r, s). rbind (mdd_pop s) (\<lambda>(x, s). ret (r, s))))) t N (match_set 0 ps A {w})"
    proof (rule runs_push[OF t(1,3,4)])
      fix u assume u: "rel_ok N P u" "later t u" "prot u r" "den u (length ps) r {w}"
      note su = later_trans[OF keeps_nodes_later[OF t(2)] u(2)]
      show "runs_rel N P (inner r u) u N (match_set 0 ps A {w})"
        unfolding inner_def
      proof (rule ends_bind[OF gp[OF u(1) su]], simp only: prod.case)
        fix z assume z: "rel_ok N P z" "keeps_nodes u z"
        note q = projs_okD[OF rel_okD(2)[OF z(1)] p(1)]
        note lz = keeps_nodes_later[OF z(2)]
        show "runs_rel N P (rbind (mdd_push alloc p z) (\<lambda>s. rbind (mdd_copy_match alloc p a r 0 (map int ps) (length ps) s)
            (\<lambda>(r, s). rbind (mdd_pop s) (\<lambda>(x, s). ret (r, s))))) z N (match_set 0 ps A {w})"
        proof (rule runs_push[OF z(1) prot_vld[OF rel_okD(1)[OF z(1)] q(1)] q(2)])
          fix y assume y: "rel_ok N P y" "later z y"
          note uy = later_trans[OF lz y(2)]
          note sy = later_trans[OF su uy]
          have "rel_ready N P OP_COPY_MATCH y p ps 0 N a A r {w}"
            using y(1) laterD(1,2)[OF sy a(1)] laterD(1,2)[OF uy u(3)] a(2) u(4) p small_ids_later[OF rel_okD(2)[OF ok] sy p(1)]
            by (simp add: rel_ready_def rel_len_simps)
          from mdd_copy_match_run[where alloc = alloc, OF mem this]
          show "runs_rel N P (mdd_copy_match alloc p a r 0 (map int ps) (length ps) y) y N (match_set 0 ps A {w})" .
        qed (auto intro: ends_ret)
      qed
    qed (auto intro: ends_ret)
  qed
qed

lemma world_copy_match:
  assumes w: "world_ok N P s" and mem: "\<not> alloc (16 * fib 47)" and al: "vrel_allowed N (Copy_match dst src proj pattern) s"
  shows "world_to N P (set_copy_match_mdd alloc dst src (int (length proj)) proj pattern s) (vrel_spec (Copy_match dst src proj pattern) (world_abs s))"
proof -
  from al have a: "whole s dst" "whole s src" and len: "length pattern = length proj" by simp_all
  from wholeD[OF w a(1)] obtain v B where v: "get_set s dst = Some v" "vs_p_len v = - 1" "vset_len v = N" "vset_abs s dst = Some (N, B)" by metis
  from wholeD[OF w a(2)] obtain y A where y: "get_set s src = Some y" "vs_p_len y = - 1" "den s N (vs_mdd y) A" "vset_abs s src = Some (N, A)" "prot s (vs_mdd y)" by metis
  from al obtain i x where "(i, x) \<in> set (protected_rels s)" and x: "vs_proj x = proj" by (auto simp: list_ex_iff)
  then have "get_rel s i = Some x" using world_okD(3)[OF w] by (simp add: rels_ok_def get_rel_def)
  from relD[OF w this] obtain ps where r: "projected N P x ps" "small_ids s (vs_p_id x) ps" by metis
  note d = projectedD[OF w r(1)]
  have pr: "proj = map int ps" using d(3) x by simp
  have N: "N < 2 ^ 31" using w by (simp add: world_ok_def)
  define msg where "msg = ''set_copy_match_mdd: projection identifier too large''"
  have "runs_rel N P (match_mdd alloc (proj_put alloc msg (int (length ps)) (map int ps)) (vs_mdd y) (int (length ps)) (map int ps) pattern s) s N
      (match_set 0 ps A {map u32_of_int pattern})"
  proof (rule match_mdd_run[where alloc = alloc, OF mem world_okD(4)[OF w] y(5,3) d(1) r(2) d(2)])
    show "length pattern = length ps" using len pr by simp
  next
    fix t assume t: "rel_ok N P t" "later s t"
    have "small_ids t (vs_p_id x) ps" using small_ids_later[OF rel_okD(2)[OF world_okD(4)[OF w]] t(2) d(1)] r(2) by simp
    from proj_put_run[where alloc = alloc, OF mem t(1) d(1) this d(2) N]
    show "ends N P (proj_put alloc msg (int (length ps)) (map int ps) t) t (\<lambda>i u. i = vs_p_id x)" .
  qed
  from world_run_ret[OF w v(1), unfolded v(3), OF this] show ?thesis
    using v y by (simp add: set_copy_match_mdd_def with_set_def pr msg_def match_set_spec new_set_def elements_def comp_def)
qed

section \<open>Creation and destruction\<close>

lemma world_more:
  assumes w: "world_ok N P s" and c: "core N P' t" and le: "P \<subseteq>\<^sub>m P'" and l: "later s t"
    and dis: "distinct (map fst (protected_sets t))" "distinct (map fst (protected_rels t))"
    and gs: "\<And>j v. get_set t j = Some v \<Longrightarrow> get_set s j = Some v
      \<or> vs_mdd v = 0 \<and> vs_size v = N \<and> (vs_p_len v = - 1 \<and> vs_p_id v = 1 \<or> (\<exists>ps. projected N P' v ps))"
    and gr: "\<And>j v. get_rel t j = Some v \<Longrightarrow> get_rel s j = Some v \<or> vs_mdd v = 0 \<and> (\<exists>ps. projected N P' v ps \<and> small_ids t (vs_p_id v) ps)"
  shows "world_ok N P' t"
proof -
  note d = world_okD[OF w]
  have up: "projected N P' v ps" if "projected N P v ps" for v ps
    using that le unfolding projected_def map_le_def by (metis domI)
  have "\<exists>A. den t (vset_len v) (vs_mdd v) A" if "get_set t j = Some v" for j v
    using gs[OF that] laterD(2)[OF l set_prot(1)] d(2) by (auto simp: sets_ok_def)
  then have s': "sets_ok t" using coreD(4)[OF c] dis(1) by (simp add: sets_ok_def)
  have "\<exists>R. den t (2 * vset_len v) (vs_mdd v) R" if "get_rel t j = Some v" for j v
    using gr[OF that] laterD(2)[OF l] rel_prot d(3) by (auto simp: rels_ok_def)
  then have r': "rels_ok t" using dis(2) by (simp add: rels_ok_def)
  have "vs_size v = N \<and> (vs_p_len v = - 1 \<and> vs_p_id v = 1 \<or> (\<exists>ps. projected N P' v ps))" if "get_set t j = Some v" for j v
    using gs[OF that] d(6) up by blast
  moreover have "\<exists>ps. projected N P' v ps \<and> small_ids t (vs_p_id v) ps" if "get_rel t j = Some v" for j v
    using gr[OF that]
  proof
    assume "get_rel s j = Some v"
    then obtain ps where ps: "projected N P v ps" "small_ids s (vs_p_id v) ps" using d(7) by blast
    then show ?thesis using up small_ids_later[OF rel_okD(2)[OF d(4)] l projectedD(1)[OF w ps(1)]] by blast
  qed blast
  ultimately show ?thesis using c s' r' w by (simp add: world_ok_def)
qed

lemma proj_list_ok:
  assumes "proj_list_ok N ps"
  shows "proj_ok 0 N (map nat ps)" and "map int (map nat ps) = ps" and "\<forall>p \<in> set ps. 0 \<le> p \<and> p < int N"
proof -
  show b: "\<forall>p \<in> set ps. 0 \<le> p \<and> p < int N" using assms by (simp add: proj_list_ok_def)
  have "sorted_wrt (\<lambda>x y. nat x < nat y) ps"
    using assms b unfolding proj_list_ok_def by (auto elim!: sorted_wrt_mono_rel[rotated])
  then show "proj_ok 0 N (map nat ps)" using b by (auto simp: proj_ok_def sorted_wrt_map)
  show "map int (map nat ps) = ps" using b by (auto intro: map_idI)
qed

lemma later_abs:
  assumes "later s t"
  shows "get_set s j = Some y \<Longrightarrow> den t n (vs_mdd y) A = den s n (vs_mdd y) A" and "get_rel s j = Some y \<Longrightarrow> den t n (vs_mdd y) A = den s n (vs_mdd y) A"
  using assms laterD(2) set_prot(1) rel_prot by blast+

text \<open>The new set, after the loop over its projection.\<close>

lemma created_set:
  assumes w: "world_ok N P s" and c: "core N P' t" and le: "P \<subseteq>\<^sub>m P'" and l: "later s t" and new: "get_set s i = None"
    and t: "protected_rels t = protected_rels s" "distinct (map fst (protected_sets t))"
      "\<And>j. get_set t j = (if j = i then Some u else get_set s j)"
    and u: "u = \<lparr>vs_size = N, vs_mdd = 0, vs_p_id = r, vs_p_len = k, vs_proj = take (nat k) proj\<rparr>" "P' r = Some (map nat (take (nat k) proj))"
    and k: "k \<le> int (length proj)" "- 1 \<le> k" "proj_list_ok N (take (nat k) proj)"
  shows "world_to N P' (ret t) (vrel_spec (On_sets (Create i N k proj)) (world_abs s))"
proof -
  define ps where "ps = map nat (take (nat k) proj)"
  note pl = proj_list_ok[OF k(3), folded ps_def]
  have gr: "get_rel t j = get_rel s j" for j using t(1) by (simp add: get_rel_def)
  have u': "vs_mdd u = 0" "vs_size u = N" "vset_len u = (if k < 0 then N else nat k)" by (simp_all add: u(1) vset_len_def)
  have kind: "vs_p_len u = - 1 \<and> vs_p_id u = 1 \<or> (\<exists>ps. projected N P' u ps)"
  proof (cases "k = - 1")
    case True
    then have "P' r = Some []" using u(2) by simp
    then have "den t 0 r {[]}" using projs_okD(2)[OF rel_okD(2)[OF coreD(1)[OF c]]] by fastforce
    then have "r = 1" using den_nil[of t r "{[]}"] by (cases "r = 0") simp_all
    with True show ?thesis by (simp add: u(1))
  next
    case False
    then have "projected N P' u ps" using k pl u by (simp add: projected_def ps_def)
    then show ?thesis by blast
  qed
  have "distinct (map fst (protected_rels t))" using t(1) world_okD(3)[OF w] by (simp add: rels_ok_def)
  moreover have "get_set s j = Some y \<or> vs_mdd y = 0 \<and> vs_size y = N \<and> (vs_p_len y = - 1 \<and> vs_p_id y = 1 \<or> (\<exists>ps. projected N P' y ps))" if "get_set t j = Some y" for j y
    using that t(3)[of j] u' kind by (cases "j = i") auto
  ultimately have "world_ok N P' t" using world_more[OF w c le l t(2)] gr by simp
  moreover have "vset_abs t = (vset_abs s)(i \<mapsto> (if k < 0 then N else nat k, {}))"
    using later_abs[OF l] u' by (auto simp: vset_abs_def t(3) fun_eq_iff intro!: option.map_cong0)
  moreover have "proj_abs t = (proj_abs s)(i \<mapsto> (if k < 0 then None else Some ps))" by (auto simp: proj_abs_def t(3) fun_eq_iff u(1) ps_def)
  moreover have "rel_abs t = rel_abs s" using later_abs[OF l] by (auto simp: rel_abs_def gr fun_eq_iff pairs_def intro!: option.map_cong0)
  ultimately show ?thesis by (auto simp: world_to_def ps_def world_abs_def)
qed

lemma world_create_set:
  assumes w: "world_ok N P s" and mem: "\<not> alloc (16 * fib 47)" and al: "vrel_allowed N (On_sets (Create i sz k proj)) s"
  shows "\<exists>P'. world_to N P' (set_create_mdd alloc i sz k proj s) (vrel_spec (On_sets (Create i sz k proj)) (world_abs s))"
proof -
  from al have new: "get_set s i = None" and k: "k \<le> int N" "k \<le> int (length proj)" "sz = N" "- 1 \<le> k" "proj_list_ok N (take (nat k) proj)" by simp_all
  define v where "v = \<lparr>vs_size = N, vs_mdd = 0, vs_p_id = 1, vs_p_len = k, vs_proj = []\<rparr>"
  define s1 where "s1 = s\<lparr>protected_sets := (i, v) # protected_sets s\<rparr>"
  note d = world_okD[OF w]
  have vs: "\<forall>(j, x) \<in> set ((i, v) # protected_sets s). vld s (vs_mdd x) \<and> vld s (vs_p_id x)" using so.valid[OF d(5)] by (fastforce simp: v_def vld_def)
  have c1: "core N P s1" unfolding s1_def by (rule so.put_core(1)[OF d(1) vs]) (force intro!: reach_root)
  have l1: "later s s1" unfolding s1_def by (rule so.put_later[OF d(5) vs]) auto
  have dis: "distinct (map fst (protected_sets s1))" using d(2) new by (simp add: s1_def sets_ok_def get_set_def map_of_eq_None_iff)
  have g1: "map_of (protected_sets s1) i = Some v" "P (vs_p_id v) = Some []" using coreD(2)[OF d(1)] by (simp_all add: s1_def v_def)
  have pb: "\<forall>p \<in> set (rev (take (nat k) proj)). 0 \<le> p \<and> p < 2 ^ 32" using proj_list_ok(3)[OF k(5)] w by (auto simp: world_ok_def)
  have run: "set_create_mdd alloc i sz k proj s = create_proj alloc i (rev (take (nat k) proj)) s1"
    using k unfolding set_create_mdd_def s1_def v_def Let_def by simp
  have loop: "create_proj alloc i (p # ps) s = (let s = s\<lparr>protected_sets := map (\<lambda>(j, v). (j, if j = i then v\<lparr>vs_proj := p # vs_proj v\<rparr> else v)) (protected_sets s)\<rparr>
      in case map_of (protected_sets s) i of None \<Rightarrow> Some (Inl Bad_access)
         | Some v \<Rightarrow> rbind (mdd_create_node alloc (u32_of_int p) (vs_p_id v) 0 s) (\<lambda>(r, s).
             let s = s\<lparr>protected_sets := map (\<lambda>(j, v). (j, if j = i then v\<lparr>vs_p_id := r\<rparr> else v)) (protected_sets s)\<rparr>
             in if False then abort [] else create_proj alloc i ps s))" for p ps s
    unfolding create_proj.simps(2) upd_set_def with_set_def get_set_def Let_def if_False ..
  note so.build[where alloc = alloc and large = "\<lambda>r. False", OF mem create_proj.simps(1) loop c1 dis g1 pb, unfolded rev_map rev_rev_ident append_Nil2]
  then consider "no_room (create_proj alloc i (rev (take (nat k) proj)) s1)" | t P' r where "create_proj alloc i (rev (take (nat k) proj)) s1 = ret t" "core N P' t" "P \<subseteq>\<^sub>m P'" "later s1 t"
      "protected_rels t = protected_rels s1" "map fst (protected_sets t) = map fst (protected_sets s1)" "P' r = Some (map nat (take (nat k) proj))"
      "\<forall>j. map_of (protected_sets t) j = (if j = i then Some (v\<lparr>vs_proj := take (nat k) proj @ vs_proj v, vs_p_id := r\<rparr>) else map_of (protected_sets s1) j)"
    by blast
  then show ?thesis
  proof cases
    case 1
    then show ?thesis by (simp add: run world_to_def)
  next
    case (2 t P' r)
    have "world_to N P' (ret t) (vrel_spec (On_sets (Create i N k proj)) (world_abs s))"
      by (rule created_set[OF w 2(2,3) later_trans[OF l1 2(4)] new]) (use 2 dis k in \<open>auto simp: s1_def v_def get_set_def\<close>)
    then show ?thesis unfolding run unfolding 2(1) k(3) by blast
  qed
qed

lemma created_rel:
  assumes w: "world_ok N P s" and c: "core N P' t" and le: "P \<subseteq>\<^sub>m P'" and l: "later s t"
    and t: "protected_sets t = protected_sets s" "distinct (map fst (protected_rels t))"
      "\<And>j. get_rel t j = (if j = i then Some u else get_rel s j)"
    and u: "u = \<lparr>vs_size = N, vs_mdd = 0, vs_p_id = r, vs_p_len = k, vs_proj = take (nat k) proj\<rparr>" "P' r = Some (map nat (take (nat k) proj))"
    and k: "k \<le> int (length proj)" "0 \<le> k" "proj_list_ok N (take (nat k) proj)" and sm: "small_ids t r (map nat (take (nat k) proj))"
  shows "world_to N P' (ret t) (vrel_spec (Rel_create i N k proj) (world_abs s))"
proof -
  define ps where "ps = map nat (take (nat k) proj)"
  note pl = proj_list_ok[OF k(3), folded ps_def]
  have gs: "get_set t j = get_set s j" for j using t(1) by (simp add: get_set_def)
  have kind: "projected N P' u ps" "small_ids t (vs_p_id u) ps" "vs_mdd u = 0" using k pl u sm by (simp_all add: projected_def ps_def)
  have "distinct (map fst (protected_sets t))" using t(1) world_okD(2)[OF w] by (simp add: sets_ok_def)
  moreover have "get_rel s j = Some y \<or> vs_mdd y = 0 \<and> (\<exists>ps. projected N P' y ps \<and> small_ids t (vs_p_id y) ps)" if "get_rel t j = Some y" for j y
    using that t(3)[of j] kind by (cases "j = i") auto
  ultimately have "world_ok N P' t" using world_more[OF w c le l _ t(2)] gs by simp
  moreover have "vset_abs t = vset_abs s" using later_abs[OF l] by (auto simp: vset_abs_def gs fun_eq_iff intro!: option.map_cong0)
  moreover have "proj_abs t = proj_abs s" by (auto simp: proj_abs_def gs)
  moreover have "rel_abs t = (rel_abs s)(i \<mapsto> (ps, {}))"
    using later_abs[OF l] kind(3) by (auto simp: rel_abs_def t(3) fun_eq_iff pairs_def u(1) ps_def intro!: option.map_cong0)
  ultimately show ?thesis by (auto simp: world_to_def ps_def world_abs_def)
qed

lemma world_create_rel:
  assumes w: "world_ok N P s" and mem: "\<not> alloc (16 * fib 47)" and al: "vrel_allowed N (Rel_create i sz k proj) s"
  shows "rel_create_mdd alloc i sz k proj s = abort ''rel_create_mdd: projection identifier too large''
    \<or> (\<exists>P'. world_to N P' (rel_create_mdd alloc i sz k proj s) (vrel_spec (Rel_create i sz k proj) (world_abs s)))"
proof -
  from al have new: "get_rel s i = None" and k: "k \<le> int N" "k \<le> int (length proj)" "sz = N" "0 \<le> k" "proj_list_ok N (take (nat k) proj)" by simp_all
  define v where "v = \<lparr>vs_size = N, vs_mdd = 0, vs_p_id = 1, vs_p_len = k, vs_proj = []\<rparr>"
  define s1 where "s1 = s\<lparr>protected_rels := (i, v) # protected_rels s\<rparr>"
  note d = world_okD[OF w]
  have vs: "\<forall>(j, x) \<in> set ((i, v) # protected_rels s). vld s (vs_mdd x) \<and> vld s (vs_p_id x)" using ro.valid[OF d(5)] by (fastforce simp: v_def vld_def)
  have c1: "core N P s1" unfolding s1_def by (rule ro.put_core(1)[OF d(1) vs]) (force intro!: reach_root)
  have l1: "later s s1" unfolding s1_def by (rule ro.put_later[OF d(5) vs]) auto
  have dis: "distinct (map fst (protected_rels s1))" using d(3) new by (simp add: s1_def rels_ok_def get_rel_def map_of_eq_None_iff)
  have g1: "map_of (protected_rels s1) i = Some v" "P (vs_p_id v) = Some []" using coreD(2)[OF d(1)] by (simp_all add: s1_def v_def)
  have pb: "\<forall>p \<in> set (rev (take (nat k) proj)). 0 \<le> p \<and> p < 2 ^ 32" using proj_list_ok(3)[OF k(5)] w by (auto simp: world_ok_def)
  have run: "rel_create_mdd alloc i sz k proj s = rel_create_proj alloc i (rev (take (nat k) proj)) s1"
    using k unfolding rel_create_mdd_def s1_def v_def Let_def by simp
  have loop: "rel_create_proj alloc i (p # ps) s = (let s = s\<lparr>protected_rels := map (\<lambda>(j, v). (j, if j = i then v\<lparr>vs_proj := p # vs_proj v\<rparr> else v)) (protected_rels s)\<rparr>
      in case map_of (protected_rels s) i of None \<Rightarrow> Some (Inl Bad_access)
         | Some v \<Rightarrow> rbind (mdd_create_node alloc (u32_of_int p) (vs_p_id v) 0 s) (\<lambda>(r, s).
             let s = s\<lparr>protected_rels := map (\<lambda>(j, v). (j, if j = i then v\<lparr>vs_p_id := r\<rparr> else v)) (protected_rels s)\<rparr>
             in if r div 2 ^ 16 > 0 then abort ''rel_create_mdd: projection identifier too large'' else rel_create_proj alloc i ps s))" for p ps s
    unfolding rel_create_proj.simps(2) upd_rel_def with_rel_def get_rel_def Let_def ..
  have lg: "\<forall>r. \<not> 0 < r div 2 ^ 16 \<longrightarrow> r < (65536::nat)" by (auto simp: div_eq_0_iff)
  have sm: "small_ids s1 (vs_p_id v) []" by simp
  note ro.build[where alloc = alloc and large = "\<lambda>r. r div 2 ^ 16 > 0", OF mem rel_create_proj.simps(1) loop c1 dis g1 pb, unfolded rev_map rev_rev_ident append_Nil2]
  then consider "no_room (rel_create_proj alloc i (rev (take (nat k) proj)) s1)"
    | "rel_create_proj alloc i (rev (take (nat k) proj)) s1 = abort ''rel_create_mdd: projection identifier too large''"
    | t P' r where "rel_create_proj alloc i (rev (take (nat k) proj)) s1 = ret t" "core N P' t" "P \<subseteq>\<^sub>m P'" "later s1 t"
      "protected_sets t = protected_sets s1" "map fst (protected_rels t) = map fst (protected_rels s1)" "P' r = Some (map nat (take (nat k) proj))"
      "\<forall>j. map_of (protected_rels t) j = (if j = i then Some (v\<lparr>vs_proj := take (nat k) proj @ vs_proj v, vs_p_id := r\<rparr>) else map_of (protected_rels s1) j)"
      "small_ids t r (map nat (take (nat k) proj))"
    using lg sm by blast
  then show ?thesis
  proof cases
    case 1
    then show ?thesis by (simp add: run world_to_def)
  next
    case 2
    then show ?thesis by (simp add: run)
  next
    case (3 t P' r)
    have "world_to N P' (ret t) (vrel_spec (Rel_create i N k proj) (world_abs s))"
      by (rule created_rel[OF w 3(2,3) later_trans[OF l1 3(4)]]) (use 3 dis k in \<open>auto simp: s1_def v_def get_rel_def\<close>)
    then show ?thesis unfolding run unfolding 3(1) k(3) by blast
  qed
qed

lemma world_destroy:
  assumes w: "world_ok N P s" and i: "whole s i"
  shows "world_to N P (set_destroy_mdd i s) (vrel_spec (On_sets (Destroy i)) (world_abs s))"
proof -
  from wholeD[OF w i] obtain v where v: "get_set s i = Some v" "vs_p_id v = 1" by metis
  define t where "t = s\<lparr>protected_sets := filter (\<lambda>(j, v). j \<noteq> i) (protected_sets s)\<rparr>"
  note d = world_okD[OF w]
  have run: "set_destroy_mdd i s = ret t" using v by (simp add: set_destroy_mdd_def with_set_def t_def)
  have t: "sets_ok t" "vset_abs t = (vset_abs s)(i := None)"
    using set_destroy_refines[OF d(2) v(1)] by (auto simp: run refines_def no_room_def)
  have "w' = v" if "(i, w') \<in> set (protected_sets s)" for w'
    using that v(1) d(2) by (auto simp: get_set_def sets_ok_def dest: map_of_is_SomeI)
  then have "(j, x) \<in> set (filter (\<lambda>(j, v). j \<noteq> i) (protected_sets s))" if "(j, x) \<in> set (protected_sets s)" "1 < vs_p_id x" for j x
    using that v(2) by auto
  then have roots: "\<forall>(j, x) \<in> set (protected_sets s). 1 < vs_p_id x \<longrightarrow>
      vs_p_id x \<in> reach s ((\<lambda>(i, v). vs_p_id v) ` (set (filter (\<lambda>(j, v). j \<noteq> i) (protected_sets s)) \<union> set (protected_rels s)))"
    by (force intro!: reach_root)
  have "\<forall>(j, x) \<in> set (filter (\<lambda>(j, v). j \<noteq> i) (protected_sets s)). vld s (vs_mdd x) \<and> vld s (vs_p_id x)" using so.valid[OF d(5)] by auto
  note c = so.put_core[OF d(1) this roots, folded t_def]
  have "map_of (filter (\<lambda>(j, v). j \<noteq> i) xs) j = (if j = i then None else map_of xs j)" for xs :: "(nat \<times> vector_set) list" and j
    by (induction xs) auto
  then have g: "get_set t j = (if j = i then None else get_set s j)" "get_rel t j = get_rel s j" for j by (simp_all add: get_set_def get_rel_def t_def)
  have "rels_ok t" using d(3) by (simp add: rels_ok_def g c(2)) (simp add: t_def)
  then have "world_ok N P t" using w t(1) c(1) by (simp add: world_ok_def g small_ids_same[OF c(4)])
  moreover have "proj_abs t = (proj_abs s)(i := None)" "rel_abs t = rel_abs s" by (auto simp: proj_abs_def rel_abs_def g c(2))
  ultimately show ?thesis using t(2) by (simp add: run world_to_def world_abs_def)
qed

section \<open>Sequences of operations\<close>

definition too_large :: "ldd result option \<Rightarrow> bool" where
  "too_large m \<longleftrightarrow> m = abort ''rel_create_mdd: projection identifier too large''"

lemma vrel_exec_refines:
  assumes w: "world_ok N P s" and mem: "\<not> alloc (16 * fib 47)" and al: "vrel_allowed N op s"
  shows "(\<exists>P'. world_to N P' (vrel_exec alloc op s) (vrel_spec op (world_abs s)))
    \<or> too_large (vrel_exec alloc op s) \<and> (\<exists>i sz k proj. op = Rel_create i sz k proj)"
proof (cases op)
  case (On_sets op')
  show ?thesis
  proof (cases "vset_target op'")
    case (Some i)
    then show ?thesis using world_set_op[where alloc = alloc, OF w mem _ Some] al On_sets by auto
  next
    case None
    then consider i sz k proj where "op' = Create i sz k proj" | i where "op' = Destroy i" by (cases op') auto
    then show ?thesis
    proof cases
      case 1
      then show ?thesis using world_create_set[where alloc = alloc, OF w mem] al On_sets by auto
    next
      case 2
      then show ?thesis using world_destroy[OF w] al On_sets by auto
    qed
  qed
next
  case (Rel_create i sz k proj)
  then show ?thesis using world_create_rel[where alloc = alloc, OF w mem al[unfolded Rel_create]] by (auto simp: too_large_def)
next
  case (Rel_add i src dst)
  then show ?thesis using world_rel_add[where alloc = alloc, OF w mem al[unfolded Rel_add]] by auto
next
  case (Project dst src)
  then show ?thesis using world_project[where alloc = alloc, OF w mem al[unfolded Project]] by auto
next
  case (Next dst src rel)
  then show ?thesis using world_next[where alloc = alloc, OF w mem al[unfolded Next]] by auto
next
  case (Prev dst src rel uni)
  then show ?thesis using world_prev[where alloc = alloc, OF w mem al[unfolded Prev]] by auto
next
  case (Copy_match dst src proj pattern)
  then show ?thesis using world_copy_match[where alloc = alloc, OF w mem al[unfolded Copy_match]] by auto
qed

definition empty_world :: vworld where
  "empty_world = \<lparr>w_sets = Map.empty, w_proj = Map.empty, w_rels = Map.empty\<rparr>"

lemma init_tables_fields:
  assumes "init_tables alloc nf cf junk = ret s"
  shows "op_op (op_cache s k) = 0" and "protected_sets s = []" and "protected_rels s = []"
  using assms unfolding init_tables_def Let_def by (auto simp: fresh_nodes_run set_next_def split: if_splits)

lemma init_world:
  assumes run: "init_tables alloc nf cf junk = ret s" and nf: "6 \<le> nf" "nf \<le> 46" "1 \<le> int nf + cf" "int nf + cf \<le> 46" and N: "N < 2 ^ 31"
  shows "world_ok N [1 \<mapsto> []] s" and "world_abs s = empty_world"
proof -
  note ok = init_tables_ok[OF run nf] and f = init_tables_fields[OF run]
  have g: "get_set s i = None" "get_rel s i = None" for i by (simp_all add: get_set_def get_rel_def f)
  have l: "ldd_ok s" using ok(1) by (simp add: sets_ok_def)
  have "projs_ok [1 \<mapsto> []] s" by (simp add: projs_ok_def)
  moreover have "rel_entries N [1 \<mapsto> []] s" by (simp add: rel_entries_def rel_entry_def f)
  ultimately have "core N [1 \<mapsto> []] s" using l by (simp add: core_def rel_ok_def)
  then show "world_ok N [1 \<mapsto> []] s" using ok(1) N by (simp add: world_ok_def rels_ok_def g f)
  show "world_abs s = empty_world" using ok(2) by (auto simp: world_abs_def empty_world_def proj_abs_def rel_abs_def g)
qed

inductive vrel_reach :: "(nat \<Rightarrow> bool) \<Rightarrow> nat \<Rightarrow> int \<Rightarrow> ldd \<Rightarrow> nat \<Rightarrow> vrel_op list \<Rightarrow> ldd \<Rightarrow> bool" for alloc nf cf junk N where
  vrel_init: "init_tables alloc nf cf junk = ret s \<Longrightarrow> vrel_reach alloc nf cf junk N [] s"
| vrel_step: "vrel_reach alloc nf cf junk N ops s \<Longrightarrow> vrel_allowed N op s \<Longrightarrow> vrel_exec alloc op s = ret s'
    \<Longrightarrow> vrel_reach alloc nf cf junk N (ops @ [op]) s'"

lemma vrel_reach_ok:
  assumes "vrel_reach alloc nf cf junk N ops s" and mem: "\<not> alloc (16 * fib 47)"
    and nf: "6 \<le> nf" "nf \<le> 46" "1 \<le> int nf + cf" "int nf + cf \<le> 46" and N: "N < 2 ^ 31"
  shows "\<exists>P. world_ok N P s \<and> world_abs s = fold vrel_spec ops empty_world"
  using assms(1)
proof (induction rule: vrel_reach.induct)
  case (vrel_init s)
  then show ?case using init_world[OF _ nf N] by auto
next
  case (vrel_step ops s op s')
  then obtain P where P: "world_ok N P s" "world_abs s = fold vrel_spec ops empty_world" by blast
  then show ?case using vrel_exec_refines[where alloc = alloc, OF P(1) mem vrel_step.hyps(2)] vrel_step.hyps(3)
    by (auto simp: world_to_def no_room_def too_large_def)
qed

text \<open>A sequence of operations, run from a state; the witnesses evaluate it.\<close>

fun vrel_run :: "(nat \<Rightarrow> bool) \<Rightarrow> nat \<Rightarrow> vrel_op list \<Rightarrow> ldd \<Rightarrow> ldd result option" where
  "vrel_run alloc N [] s = ret s"
| "vrel_run alloc N (op # ops) s =
     (if vrel_allowed N op s then rbind (vrel_exec alloc op s) (vrel_run alloc N ops) else Some (Inl Assert_fail))"

lemma vrel_run_reach:
  "vrel_run alloc N ops s = ret t \<Longrightarrow> vrel_reach alloc nf cf junk N old s \<Longrightarrow> vrel_reach alloc nf cf junk N (old @ ops) t"
proof (induction ops arbitrary: s old)
  case (Cons op ops)
  then obtain u where u: "vrel_allowed N op s" "vrel_exec alloc op s = ret u" "vrel_run alloc N ops u = ret t"
    by (auto simp: rbind_def split: if_splits option.splits sum.splits)
  from Cons.IH[OF u(3) vrel_step[OF Cons.prems(2) u(1,2)]] show ?case by simp
qed simp

definition example_rel_ops :: "vrel_op list" where
  "example_rel_ops = [On_sets (Create 7 2 (- 1) []), On_sets (Add 7 [3, 4]), Rel_create 1 2 1 [1], Rel_add 1 [4] [5]]"

lemma example_rel_reach: "\<exists>s. vrel_reach example_alloc 7 1 example_junk 2 example_rel_ops s \<and> vrel_allowed 2 (Next 7 7 1) s"
proof -
  have "(case rbind (init_tables example_alloc 7 1 example_junk) (vrel_run example_alloc 2 example_rel_ops) of
      Some (Inr s) \<Rightarrow> vrel_allowed 2 (Next 7 7 1) s | _ \<Rightarrow> False)" by code_simp
  then obtain s where s: "rbind (init_tables example_alloc 7 1 example_junk) (vrel_run example_alloc 2 example_rel_ops) = ret s" "vrel_allowed 2 (Next 7 7 1) s"
    by (auto split: option.splits sum.splits)
  then obtain u where u: "init_tables example_alloc 7 1 example_junk = ret u" "vrel_run example_alloc 2 example_rel_ops u = ret s"
    by (auto simp: rbind_def split: option.splits sum.splits)
  with s(2) vrel_run_reach[OF u(2) vrel_init[OF u(1)]] show ?thesis by auto
qed

section \<open>Properties\<close>

text \<open>
  C1. The list decision diagrams implement sets and relations: from the initial tables, the sets, projections and relations in
  every state that a sequence of operations leads to are those that the same operations on sets of vectors and
  sets of pairs give. Every further operation ends, with the right result again, for lack of memory or stack, or, for a new
  relation, because the number of a node is too large. Projected sets hold the projections of the vectors, successors and predecessors
  are those under the pairs that were added to the relation, and the collector may run in any operation.
\<close>

theorem vset_rel_refines:
  assumes "vrel_reach alloc nf cf junk N ops s" and "\<not> alloc (16 * fib 47)"
    and "6 \<le> nf" and "nf \<le> 46" and "1 \<le> int nf + cf" and "int nf + cf \<le> 46" and "N < 2 ^ 31" and "vrel_allowed N op s"
  shows "world_abs s = fold vrel_spec ops empty_world
    \<and> (no_room (vrel_exec alloc op s) \<or> too_large (vrel_exec alloc op s) \<and> (\<exists>i sz k proj. op = Rel_create i sz k proj)
      \<or> (\<exists>s'. vrel_exec alloc op s = ret s' \<and> world_abs s' = vrel_spec op (world_abs s)))"
  using vrel_reach_ok[where alloc = alloc, OF assms(1-7)] vrel_exec_refines[where alloc = alloc, OF _ assms(2,8)] by (fastforce simp: world_to_def)

theorem vset_rel_refines_witness:
  "\<exists>s. vrel_reach example_alloc 7 1 example_junk 2 example_rel_ops s \<and> world_abs s = fold vrel_spec example_rel_ops empty_world
    \<and> (no_room (vrel_exec example_alloc (Next 7 7 1) s) \<or> (\<exists>s'. vrel_exec example_alloc (Next 7 7 1) s = ret s'
      \<and> world_abs s' = vrel_spec (Next 7 7 1) (world_abs s)))"
  using example_rel_reach vset_rel_refines[where alloc = example_alloc and nf = 7 and cf = 1 and N = 2, OF _ example_mem] by fastforce

end
