(* ===== verification/Sym_Props.thy ===== *)
theory Sym_Props
  imports Sym_Sat Vset_Rel
begin

text \<open>
  The properties of symbolic reachability, and a small model on which they are used.
\<close>

section \<open>Sets and relations\<close>

lemma put_short_length [simp]: "length (put_short ps x b) = length x"
proof (induction ps arbitrary: x b)
  case (Cons p ps)
  then show ?case by (cases b) (simp_all add: put_short_def)
qed simp

lemma short_put_short:
  assumes "distinct ps" and "length b = length ps" and "\<forall>p \<in> set ps. p < length x"
  shows "short ps (put_short ps x b) = b"
  using assms(2,1,3)
proof (induction b ps arbitrary: x rule: list_induct2)
  case (Cons v b p ps)
  have e: "put_short (p # ps) x (v # b) = put_short ps (x[p := v]) b" by (simp add: put_short_def)
  have "put_short ps (x[p := v]) b ! p = v" using Cons.prems put_short_other[of p ps "x[p := v]" b] by simp
  then show ?case using Cons.IH[of "x[p := v]"] Cons.prems by (simp add: e)
qed simp

lemma put_short_same: "same_outside ps x (put_short ps x b)"
  by (simp add: same_outside_def put_short_other)

lemma put_short_unique:
  assumes "same_outside ps x y" and "distinct ps" and "\<forall>p \<in> set ps. p < length x"
  shows "y = put_short ps x (short ps y)"
proof (rule nth_equalityI)
  show "length y = length (put_short ps x (short ps y))" using assms(1) by (simp add: same_outside_def)
  fix i assume i: "i < length y"
  have "short ps (put_short ps x (short ps y)) = short ps y" using assms(2,3) by (intro short_put_short) simp_all
  then have "i \<in> set ps \<Longrightarrow> put_short ps x (short ps y) ! i = y ! i" by simp
  moreover have "i \<notin> set ps \<Longrightarrow> y ! i = x ! i" using assms(1) i by (simp add: same_outside_def)
  ultimately show "y ! i = put_short ps x (short ps y) ! i" using put_short_other[of i ps x] by metis
qed

lemma steps_as_sets:
  assumes "sorted_wrt (<) ps" and "\<forall>p \<in> set ps. p < n" and "\<forall>(a, b) \<in> Q. length b = length ps" and "\<forall>x \<in> A \<union> U. length x = n"
  shows "vs_next ps Q A = successors ps Q A \<and> vs_prev ps Q A U = predecessors ps Q A \<inter> U"
proof -
  have d: "distinct ps" using assms(1) by (simp add: strict_sorted_iff)
  define S where "S = (\<lambda>x y. \<exists>b. (short ps x, b) \<in> Q \<and> put_short ps x b = y)"
  have step: "S x y \<longleftrightarrow> same_outside ps x y \<and> (short ps x, short ps y) \<in> Q" if "length x = n" for x y
  proof
    assume "S x y"
    then obtain b where b: "(short ps x, b) \<in> Q" "y = put_short ps x b" unfolding S_def by blast
    then have "short ps y = b" using short_put_short[OF d, of b x] assms(2,3) that by auto
    then show "same_outside ps x y \<and> (short ps x, short ps y) \<in> Q" using b put_short_same by simp
  next
    assume "same_outside ps x y \<and> (short ps x, short ps y) \<in> Q"
    then show "S x y" unfolding S_def using put_short_unique[of ps x y] d assms(2) that by metis
  qed
  have "vs_next ps Q A = {y. \<exists>x \<in> A. S x y}" by (auto simp: vs_next_def S_def)
  moreover have "vs_prev ps Q A U = {x \<in> U. \<exists>y \<in> A. S x y}" by (auto simp: vs_prev_def S_def)
  ultimately show ?thesis using step assms(4) by (auto simp: successors_def predecessors_def)
qed

text \<open>What an invariant state says of a relation and of the sets that are used with it.\<close>

lemma steps_in_world:
  assumes w: "world_ok N P s" and r: "w_rels (world_abs s) rel = Some (ps, Q)" and "whole s src" and "whole s uni"
  shows "get_rel s rel \<noteq> None"
    and "vs_next ps Q (elements (world_abs s) src) = successors ps Q (elements (world_abs s) src)"
    and "vs_prev ps Q (elements (world_abs s) src) (elements (world_abs s) uni) = predecessors ps Q (elements (world_abs s) src) \<inter> elements (world_abs s) uni"
proof -
  from r obtain x where x: "get_rel s rel = Some x" by (auto simp: rel_abs_def)
  then show "get_rel s rel \<noteq> None" by simp
  from relD[OF w x] obtain R where R: "projected N P x ps" "Q = pairs (length ps) R" using r by auto
  have ps: "sorted_wrt (<) ps" "\<forall>p \<in> set ps. p < N" using projectedD(2)[OF w R(1)] by (auto simp: proj_ok_def)
  have Q: "\<forall>(a, b) \<in> Q. length b = length ps" using R(2) by (auto simp: pairs_def)
  have len: "\<forall>x \<in> elements (world_abs s) i. length x = N" if "whole s i" for i
    using wholeD[OF w that] den_length by (metis elements_def option.sel snd_conv world_sets(1))
  have "\<forall>x \<in> elements (world_abs s) src \<union> elements (world_abs s) uni. length x = N" using len assms(3,4) by blast
  from steps_as_sets[OF ps Q this]
  show "vs_next ps Q (elements (world_abs s) src) = successors ps Q (elements (world_abs s) src)"
    and "vs_prev ps Q (elements (world_abs s) src) (elements (world_abs s) uni) = predecessors ps Q (elements (world_abs s) src) \<inter> elements (world_abs s) uni"
    by simp_all
qed

text \<open>
  C36. The steps of the symbolic search are those that the list decision diagrams compute: in every state of the library that a
  sequence of operations leads to, \<^verbatim>\<open>set_next_mdd\<close> ends for lack of memory or stack, or it makes its destination
  the set \<open>vs_next\<close> of the search over the relation and the source set, and leaves the other sets as they are; and so does
  \<^verbatim>\<open>set_prev_mdd\<close> with \<open>vs_prev\<close>, when the universe is not its destination.
\<close>

theorem search_steps_by_diagrams:
  assumes "vrel_reach alloc nf cf junk N ops s" and "\<not> alloc (16 * fib 47)"
    and "6 \<le> nf" and "nf \<le> 46" and "1 \<le> int nf + cf" and "int nf + cf \<le> 46" and "N < 2 ^ 31"
    and "whole s dst" and "whole s src" and "whole s uni" and "uni \<noteq> dst" and "w_rels (world_abs s) rel = Some (ps, Q)"
  shows "(no_room (set_next_mdd alloc dst src rel s)
      \<or> (\<exists>s'. set_next_mdd alloc dst src rel s = ret s' \<and> elements (world_abs s') dst = vs_next ps Q (elements (world_abs s) src)
          \<and> (\<forall>i. i \<noteq> dst \<longrightarrow> elements (world_abs s') i = elements (world_abs s) i)))
    \<and> (no_room (set_prev_mdd alloc dst src rel uni s)
      \<or> (\<exists>s'. set_prev_mdd alloc dst src rel uni s = ret s'
          \<and> elements (world_abs s') dst = vs_prev ps Q (elements (world_abs s) src) (elements (world_abs s) uni)
          \<and> (\<forall>i. i \<noteq> dst \<longrightarrow> elements (world_abs s') i = elements (world_abs s) i)))"
proof -
  obtain P where w: "world_ok N P s" using vrel_reach_ok[where alloc = alloc, OF assms(1-7)] by blast
  note S = steps_in_world[OF w assms(12,9,10)]
  obtain B U where sets: "vset_abs s dst = Some (N, B)" "vset_abs s uni = Some (N, U)"
    using wholeD[OF w assms(8)] wholeD[OF w assms(10)] by metis
  have "world_to N P (set_next_mdd alloc dst src rel s) (vrel_spec (Next dst src rel) (world_abs s))"
    by (rule world_next[where alloc = alloc, OF w assms(2)]) (use assms(8,9) S(1) in simp)
  moreover have "world_to N P (set_prev_mdd alloc dst src rel uni s) (vrel_spec (Prev dst src rel uni) (world_abs s))"
    by (rule world_prev[where alloc = alloc, OF w assms(2)]) (use assms(8,9,10) S(1) in simp)
  moreover have "elements (vrel_spec (Next dst src rel) (world_abs s)) i
      = (if i = dst then vs_next ps Q (elements (world_abs s) src) else elements (world_abs s) i)" for i
    unfolding S(2) using assms(12) by (simp add: elements_def new_set_def)
  moreover have "elements (vrel_spec (Prev dst src rel uni) (world_abs s)) i
      = (if i = dst then vs_prev ps Q (elements (world_abs s) src) (elements (world_abs s) uni) else elements (world_abs s) i)" for i
    unfolding S(3) using assms(11,12) sets by (simp add: elements_def new_set_def on_two_def)
  ultimately show ?thesis unfolding world_to_def by metis
qed

definition example_step_ops :: "vrel_op list" where
  "example_step_ops = example_rel_ops @ [On_sets (Create 8 2 (- 1) [])]"

lemma example_step_reach: "\<exists>s. vrel_reach example_alloc 7 1 example_junk 2 example_step_ops s \<and> vrel_allowed 2 (Next 8 7 1) s"
proof -
  have "(case rbind (init_tables example_alloc 7 1 example_junk) (vrel_run example_alloc 2 example_step_ops) of
      Some (Inr s) \<Rightarrow> vrel_allowed 2 (Next 8 7 1) s | _ \<Rightarrow> False)" by code_simp
  then obtain u s where "init_tables example_alloc 7 1 example_junk = ret u" "vrel_run example_alloc 2 example_step_ops u = ret s" "vrel_allowed 2 (Next 8 7 1) s"
    by (auto simp: rbind_def split: option.splits sum.splits)
  with vrel_run_reach[OF this(2) vrel_init[OF this(1)]] show ?thesis by auto
qed

theorem search_steps_by_diagrams_witness:
  "\<exists>s. vrel_reach example_alloc 7 1 example_junk 2 example_step_ops s \<and> (no_room (set_next_mdd example_alloc 8 7 1 s)
    \<or> (\<exists>s'. set_next_mdd example_alloc 8 7 1 s = ret s' \<and> elements (world_abs s') 8 = {[3, 5]} \<and> elements (world_abs s') 7 = {[3, 4]}))"
proof -
  obtain s where s: "vrel_reach example_alloc 7 1 example_junk 2 example_step_ops s" "whole s 8" "whole s 7" using example_step_reach by auto
  have "world_abs s = fold vrel_spec example_step_ops empty_world"
    using vrel_reach_ok[where alloc = example_alloc, OF s(1) example_mem] by auto
  then have w: "w_rels (world_abs s) 1 = Some ([1], {([4], [5])})" "elements (world_abs s) 7 = {[3, 4]}"
    by (simp_all add: example_step_ops_def example_rel_ops_def empty_world_def elements_def u32_of_int_def)
  have v: "vs_next [1] {([4], [5])} {[3, 4]} = {[3, 5]}" by (auto simp: vs_next_def put_short_def image_iff)
  have "no_room (set_next_mdd example_alloc 8 7 1 s) \<or> (\<exists>s'. set_next_mdd example_alloc 8 7 1 s = ret s'
      \<and> elements (world_abs s') 8 = vs_next [1] {([4], [5])} (elements (world_abs s) 7)
      \<and> (\<forall>i. i \<noteq> 8 \<longrightarrow> elements (world_abs s') i = elements (world_abs s) i))"
    by (rule search_steps_by_diagrams[where alloc = example_alloc, OF s(1) example_mem _ _ _ _ _ s(2,3,3) _ w(1), THEN conjunct1]) simp_all
  then have "no_room (set_next_mdd example_alloc 8 7 1 s) \<or> (\<exists>s'. set_next_mdd example_alloc 8 7 1 s = ret s'
      \<and> elements (world_abs s') 8 = {[3, 5]} \<and> elements (world_abs s') 7 = {[3, 4]})"
    unfolding w(2) v using w(2) by force
  then show ?thesis using s(1) by blast
qed

section \<open>The trees of breadth-first search\<close>

text \<open>
  C37. Breadth-first search prepares its tree of groups exactly when there is a group, and with guard splitting each group has a
  guard; otherwise the preparation does not end.
\<close>

theorem reach_prepare_ends_iff:
  "reach_prepare pm opts 0 (nGrps pm) = None \<longleftrightarrow> nGrps pm = 0 \<or> use_guards opts \<and> (\<exists>i < nGrps pm. p_guards pm i = [])"
proof (cases "reach_prepare pm opts 0 (nGrps pm)")
  case None
  then show ?thesis using reach_prepare_run[of 0 "nGrps pm" pm opts] by auto
next
  case (Some t)
  from reach_prepare_some[OF this] show ?thesis using Some by auto
qed

section \<open>An example\<close>

text \<open>Two counters, the first up to two and the second up to one, with a guard on the second, a group that is never enabled and a label for valid end states.\<close>

definition counters :: pins where
  "counters = \<lparr>p_N = 2, nGrps = 3, r_projs = (\<lambda>i. [if i = 0 then 0 else 1]),
     transitions_short = (\<lambda>i a. if i = 0 \<and> hd a < 2 \<or> i = 1 \<and> hd a < 1 then [[hd a + 1]] else []), p_guards = (\<lambda>i. [0]), nGuards = 1,
     l_projs = (\<lambda>g. [1]), state_label_short = (\<lambda>g a. if hd a < 2 then 1 else 0), valid_end = Some (\<lambda>x. hd x < 2)\<rparr>"

definition guarded :: sym_opts where
  "guarded = \<lparr>use_guards = True, no_soundness_check = False, maybe_and_false_is_false = True, no_exit = False, save_sat_levels = True\<rparr>"

definition nothing_learned :: "bool \<Rightarrow> sym" where
  "nothing_learned dlk = \<lparr>group_next = (\<lambda>i. {}), group_explored = (\<lambda>i. {}), label_true = (\<lambda>g. {}), label_false = (\<lambda>g. {}), dlk_detect = dlk,
     eg_count = 0, next_count = 0, guard_count = 0\<rparr>"

definition counter_states :: "nat list set" where
  "counter_states = {[0, 0], [1, 0], [2, 0], [0, 1], [1, 1], [2, 1]}"

lemma nothing_known [simp]: "known pm (nothing_learned dlk)" "dlk_detect (nothing_learned dlk) = dlk"
  by (simp_all add: known_def nothing_learned_def)

lemma counters_two [simp]: "two_valued counters" "trees_end counters guarded"
  by (simp_all add: two_valued_def trees_end_def counters_def guarded_def)

lemma counters_group:
  "([a, b], y) \<in> step counters guarded i \<longleftrightarrow> b < 2 \<and> (i = 0 \<and> a < 2 \<and> y = [a + 1, b] \<or> i = 1 \<and> b < 1 \<and> y = [a, b + 1])"
  by (simp add: step_def guards_hold_def act_succ_def put_short_def counters_def guarded_def) auto

lemma counters_step:
  "([a, b], y) \<in> trans_rel counters guarded (\<lambda>i. True) \<longleftrightarrow> b < 2 \<and> (a < 2 \<and> y = [a + 1, b] \<or> b < 1 \<and> y = [a, b + 1])"
proof -
  have "nGrps counters = 3" by (simp add: counters_def)
  then show ?thesis by (auto simp: trans_rel_def counters_group intro: exI[of _ 0] exI[of _ 1])
qed

lemma counters_reach: "reach_from counters guarded (\<lambda>i. True) {[0, 0]} = counter_states"
proof (rule reach_closed_set[symmetric])
  let ?R = "reach_from counters guarded (\<lambda>i. True) {[0, 0]}"
  have r: "y \<in> ?R" if "[a, b] \<in> ?R" "([a, b], y) \<in> trans_rel counters guarded (\<lambda>i. True)" for a b y
    using that reach_from_step[of ?R counters guarded "\<lambda>i. True" "{[0, 0]}"] by blast
  have x0: "[0, 0] \<in> ?R" using reach_from_self[of "{[0, 0]}"] by blast
  have x1: "[1, 0] \<in> ?R" by (rule r[OF x0]) (simp add: counters_step)
  have x2: "[2, 0] \<in> ?R" by (rule r[OF x1]) (simp add: counters_step)
  have y0: "[0, 1] \<in> ?R" by (rule r[OF x0]) (simp add: counters_step)
  have y1: "[1, 1] \<in> ?R" by (rule r[OF x1]) (simp add: counters_step)
  have "[2, 1] \<in> ?R" by (rule r[OF x2]) (simp add: counters_step)
  then show "counter_states \<subseteq> ?R" using x0 x1 x2 y0 y1 by (simp add: counter_states_def)
  show "{[0, 0]} \<subseteq> counter_states" by (simp add: counter_states_def)
  show "trans_rel counters guarded (\<lambda>i. True) `` counter_states \<subseteq> counter_states"
    unfolding counter_states_def by (auto simp: counters_step)
qed

lemma counters_dead: "dead counters guarded [2, 1]"
proof -
  have "dead pm opts x \<longleftrightarrow> x \<notin> Domain (trans_rel pm opts (\<lambda>i. True)) \<and> invalid_end pm x" for pm opts x by (auto simp: dead_def trans_rel_def)
  moreover have "invalid_end counters [2, 1]" by (simp add: invalid_end_def counters_def)
  ultimately show ?thesis by (auto simp: counters_step)
qed

lemma counters_found:
  assumes "found counters guarded (\<lambda>i. True) {[0, 0]} (nothing_learned dlk) r"
  shows "if dlk then r = Some (Inl exit_counter_example) else \<exists>t. r = ret (counter_states, t)"
proof -
  have "[2, 1] \<in> counter_states" "\<not> no_exit guarded" by (simp_all add: counter_states_def guarded_def)
  then have "\<exists>x \<in> reach_from counters guarded (\<lambda>i. True) {[0, 0]}. dead counters guarded x" using counters_dead by (auto simp: counters_reach)
  then show ?thesis using assms \<open>\<not> no_exit guarded\<close> unfolding found_def Let_def by (auto simp: counters_reach split: if_splits)
qed

section \<open>Search\<close>

lemma found_counters [simp]: "found pm opts rg V (s\<lparr>eg_count := a, next_count := b, guard_count := c\<rparr>) r = found pm opts rg V s r"
proof -
  have "dlk_detect (s\<lparr>eg_count := a, next_count := b, guard_count := c\<rparr>) = dlk_detect s" by simp
  then show ?thesis unfolding found_def by (simp only:)
qed

lemma known_counters [simp]: "known pm (s\<lparr>eg_count := a\<rparr>) = known pm s" "known pm (s\<lparr>next_count := b\<rparr>) = known pm s"
  by (simp_all add: known_def)

text \<open>
  C5. Each of the four search procedures ends, for a finite state space: with a counterexample exactly when deadlocks are
  detected, a reachable state has no transition and the search may exit, and otherwise with the set of the reachable
  states.
\<close>

theorem search_procedures_correct:
  assumes "two_valued pm" and "trees_end pm opts" and "known pm s" and "finite (reach_from pm opts (\<lambda>i. True) V)"
    and "proc \<in> {reach_bfs, reach_bfs_prev, reach_chain, reach_chain_prev}"
  shows "found pm opts (\<lambda>i. True) V s (unguided (reach_no_sat (proc pm opts)) V s)"
proof -
  have s: "searchable pm opts (\<lambda>i. True) {} V (s\<lparr>eg_count := 0, next_count := 0, guard_count := 0\<rparr>)" using assms(1,3,4) by (simp add: searchable_def)
  have "found pm opts (\<lambda>i. True) V (s\<lparr>eg_count := 0, next_count := 0, guard_count := 0\<rparr>) (unguided (reach_no_sat (proc pm opts)) V s)"
    unfolding unguided_def reach_no_sat_def
    using assms(5) bfs_proc.proc_found[OF assms(2) s] bfs_prev_proc.proc_found[OF assms(2) s] chain_proc.proc_found[OF TrueI s] chain_prev_proc.proc_found[OF TrueI s] by blast
  then show ?thesis by simp
qed

theorem search_procedures_correct_witness:
  "(\<exists>t. unguided (reach_no_sat (reach_chain_prev counters guarded)) {[0, 0]} (nothing_learned False) = ret (counter_states, t))
   \<and> unguided (reach_no_sat (reach_bfs counters guarded)) {[0, 0]} (nothing_learned True) = Some (Inl exit_counter_example)"
proof -
  have f: "finite (reach_from counters guarded (\<lambda>i. True) {[0, 0]})" by (simp add: counters_reach counter_states_def)
  have "proc \<in> {reach_bfs, reach_bfs_prev, reach_chain, reach_chain_prev} \<Longrightarrow>
      found counters guarded (\<lambda>i. True) {[0, 0]} (nothing_learned dlk) (unguided (reach_no_sat (proc counters guarded)) {[0, 0]} (nothing_learned dlk))" for proc dlk
    by (rule search_procedures_correct[OF counters_two _ f]) simp_all
  from this[THEN counters_found, of reach_chain_prev False] this[THEN counters_found, of reach_bfs True] show ?thesis by simp
qed

text \<open>
  C6. The two strategies that search the levels of saturation one by one find the same states and deadlocks, with each of the
  search procedures and also when they keep what each level has searched before, provided that the array of saved sets is
  large enough and the dependency matrix has all positions that a group uses.
\<close>

theorem sat_strategies_correct:
  assumes "sat_levels_ok pm gran (\<lambda>i. True)" and "deps_cover pm opts dep" and "trees_end pm opts" and "known pm s" and "finite (reach_from pm opts (\<lambda>i. True) V)"
    and "proc \<in> {reach_bfs, reach_bfs_prev, reach_chain, reach_chain_prev}"
  shows "found pm opts (\<lambda>i. True) V s (unguided (reach_sat_like pm opts dep gran (proc pm opts)) V s)
    \<and> found pm opts (\<lambda>i. True) V s (unguided (reach_sat_loop pm opts dep gran (proc pm opts)) V s)"
proof -
  define s0 where "s0 = s\<lparr>eg_count := 0, next_count := 0, guard_count := 0\<rparr>"
  have k: "known pm s0" using assms(4) by (simp add: s0_def)
  note like = bfs_proc.sat_like_found[OF assms(3,1,2) k assms(5)] bfs_prev_proc.sat_like_found[OF assms(3,1,2) k assms(5)]
    chain_proc.sat_like_found[OF TrueI assms(1,2) k assms(5)] chain_prev_proc.sat_like_found[OF TrueI assms(1,2) k assms(5)]
  note loop = bfs_proc.sat_loop_found[OF assms(3,1) k assms(5)] bfs_prev_proc.sat_loop_found[OF assms(3,1) k assms(5)]
    chain_proc.sat_loop_found[OF TrueI assms(1) k assms(5)] chain_prev_proc.sat_loop_found[OF TrueI assms(1) k assms(5)]
  have "found pm opts (\<lambda>i. True) V s0 (reach_sat_like pm opts dep gran (proc pm opts) (\<lambda>i. True) V s0)" using assms(6) like by blast
  moreover have "found pm opts (\<lambda>i. True) V s0 (reach_sat_loop pm opts dep gran (proc pm opts) (\<lambda>i. True) V s0)" using assms(6) loop by blast
  ultimately show ?thesis by (simp add: unguided_def s0_def)
qed

theorem sat_strategies_correct_witness:
  "(\<exists>t. unguided (reach_sat_like counters guarded (\<lambda>i p. p = 1 \<or> i = 0) 1 (reach_chain_prev counters guarded)) {[0, 0]} (nothing_learned False) = ret (counter_states, t))
   \<and> unguided (reach_sat_loop counters guarded (\<lambda>i p. p = 1 \<or> i = 0) 1 (reach_bfs_prev counters guarded)) {[0, 0]} (nothing_learned True) = Some (Inl exit_counter_example)"
proof -
  have f: "finite (reach_from counters guarded (\<lambda>i. True) {[0, 0]})" by (simp add: counters_reach counter_states_def)
  have l: "sat_levels_ok counters 1 (\<lambda>i. True)"
    unfolding sat_levels_ok_def using counters_two(1) by (auto simp: max_sat_levels_def counters_def intro: exI[of _ 0])
  have c: "deps_cover counters guarded (\<lambda>i p. p = 1 \<or> i = 0)" by (auto simp: deps_cover_def positions_def counters_def guarded_def split: if_splits)
  have "proc \<in> {reach_bfs, reach_bfs_prev, reach_chain, reach_chain_prev} \<Longrightarrow>
      found counters guarded (\<lambda>i. True) {[0, 0]} (nothing_learned dlk) (unguided (reach_sat_like counters guarded (\<lambda>i p. p = 1 \<or> i = 0) 1 (proc counters guarded)) {[0, 0]} (nothing_learned dlk))
      \<and> found counters guarded (\<lambda>i. True) {[0, 0]} (nothing_learned dlk) (unguided (reach_sat_loop counters guarded (\<lambda>i p. p = 1 \<or> i = 0) 1 (proc counters guarded)) {[0, 0]} (nothing_learned dlk))" for proc dlk
    by (rule sat_strategies_correct[OF l c counters_two(2) _ f]) simp_all
  note this[THEN conjunct1, THEN counters_found, of reach_chain_prev False] this[THEN conjunct2, THEN counters_found, of reach_bfs_prev True]
  then show ?thesis by simp
qed

end
