(* ===== verification/State_Pred.thy ===== *)
theory State_Pred
  imports Sym_Props "HOL-Library.Signed_Division"
begin

text \<open>
  State predicates of formulas, \<^verbatim>\<open>pins-lib/property-semantics.c\<close>: their evaluation on 64-bit numbers with
  the checks for overflow and division by zero, and the positions of the state that they read. Predicates on actions and values from
  tables (\<^verbatim>\<open>PRED_EVAR\<close>, \<^verbatim>\<open>PRED_EN\<close>, \<^verbatim>\<open>PRED_CHUNK\<close>) are left out, and so are the assertions of debug builds that a variable or label of
  three-valued type is not \<^verbatim>\<open>maybe\<close>: the model is of a build with \<^verbatim>\<open>NDEBUG\<close>.
\<close>

section \<open>Numbers\<close>

definition LONG_MIN :: int where "LONG_MIN = - (2 ^ 63)"
definition LONG_MAX :: int where "LONG_MAX = 2 ^ 63 - 1"

definition is_long :: "int \<Rightarrow> bool" where
  "is_long a \<longleftrightarrow> LONG_MIN \<le> a \<and> a \<le> LONG_MAX"

definition long_mult_overflow :: "int \<Rightarrow> int \<Rightarrow> bool" where
  "long_mult_overflow si_a si_b =
     (if 0 < si_a then if 0 < si_b then LONG_MAX sdiv si_b < si_a else si_b < LONG_MIN sdiv si_a
      else if 0 < si_b then si_a < LONG_MIN sdiv si_b
      else si_a \<noteq> 0 \<and> si_b < LONG_MAX sdiv si_a)"

text \<open>The elements of vectors are kept as 32-bit words; the predicates read them as signed numbers.\<close>

definition s32 :: "nat \<Rightarrow> int" where
  "s32 v = (if v < 2 ^ 31 then int v else int v - 2 ^ 32)"

section \<open>Predicates\<close>

datatype pred =
    PRED_TRUE | PRED_FALSE | PRED_NUM int | PRED_SVAR nat
  | PRED_NOT pred
  | PRED_EQ pred pred | PRED_NEQ pred pred
  | PRED_AND pred pred | PRED_OR pred pred | PRED_IMPLY pred pred | PRED_EQUIV pred pred
  | PRED_LT pred pred | PRED_LEQ pred pred | PRED_GT pred pred | PRED_GEQ pred pred
  | PRED_MULT pred pred | PRED_DIV pred pred | PRED_REM pred pred | PRED_ADD pred pred | PRED_SUB pred pred

abbreviation exit_failure :: err where "exit_failure \<equiv> Abort_msg ''LTSMIN_EXIT_FAILURE''"

definition both :: "int result \<Rightarrow> int result \<Rightarrow> (int \<Rightarrow> int \<Rightarrow> int result) \<Rightarrow> int result" where
  "both a b f = result_bind a (\<lambda>l. result_bind b (f l))"

definition truth :: "bool \<Rightarrow> int result" where
  "truth b = Inr (if b then 1 else 0)"

fun eval_trans_predicate :: "pins \<Rightarrow> pred \<Rightarrow> nat list \<Rightarrow> int result" where
  "eval_trans_predicate pm PRED_TRUE x = Inr 1"
| "eval_trans_predicate pm PRED_FALSE x = Inr 0"
| "eval_trans_predicate pm (PRED_NUM n) x = Inr n"
| "eval_trans_predicate pm (PRED_SVAR i) x = Inr (if i < p_N pm then s32 (x ! i) else int (label_of pm (i - p_N pm) x))"
| "eval_trans_predicate pm (PRED_NOT a) x = result_bind (eval_trans_predicate pm a x) (\<lambda>l. truth (l = 0))"
| "eval_trans_predicate pm (PRED_EQ a b) x = both (eval_trans_predicate pm a x) (eval_trans_predicate pm b x) (\<lambda>l r. truth (l = r))"
| "eval_trans_predicate pm (PRED_NEQ a b) x = both (eval_trans_predicate pm a x) (eval_trans_predicate pm b x) (\<lambda>l r. truth (l \<noteq> r))"
| "eval_trans_predicate pm (PRED_AND a b) x = result_bind (eval_trans_predicate pm a x) (\<lambda>l. if l = 0 then Inr 0 else result_bind (eval_trans_predicate pm b x) (\<lambda>r. truth (r \<noteq> 0)))"
| "eval_trans_predicate pm (PRED_OR a b) x = result_bind (eval_trans_predicate pm a x) (\<lambda>l. if l \<noteq> 0 then Inr 1 else result_bind (eval_trans_predicate pm b x) (\<lambda>r. truth (r \<noteq> 0)))"
| "eval_trans_predicate pm (PRED_IMPLY a b) x = result_bind (eval_trans_predicate pm a x) (\<lambda>l. if l = 0 then Inr 1 else result_bind (eval_trans_predicate pm b x) (\<lambda>r. truth (r \<noteq> 0)))"
| "eval_trans_predicate pm (PRED_EQUIV a b) x = both (eval_trans_predicate pm a x) (eval_trans_predicate pm b x) (\<lambda>l r. truth ((l = 0) = (r = 0)))"
| "eval_trans_predicate pm (PRED_LT a b) x = both (eval_trans_predicate pm a x) (eval_trans_predicate pm b x) (\<lambda>l r. truth (l < r))"
| "eval_trans_predicate pm (PRED_LEQ a b) x = both (eval_trans_predicate pm a x) (eval_trans_predicate pm b x) (\<lambda>l r. truth (l \<le> r))"
| "eval_trans_predicate pm (PRED_GT a b) x = both (eval_trans_predicate pm a x) (eval_trans_predicate pm b x) (\<lambda>l r. truth (r < l))"
| "eval_trans_predicate pm (PRED_GEQ a b) x = both (eval_trans_predicate pm a x) (eval_trans_predicate pm b x) (\<lambda>l r. truth (r \<le> l))"
| "eval_trans_predicate pm (PRED_MULT a b) x = both (eval_trans_predicate pm a x) (eval_trans_predicate pm b x)
     (\<lambda>l r. if long_mult_overflow l r then Inl exit_failure else Inr (l * r))"
| "eval_trans_predicate pm (PRED_DIV a b) x = both (eval_trans_predicate pm a x) (eval_trans_predicate pm b x)
     (\<lambda>l r. if r = 0 \<or> l = LONG_MIN \<and> r = -1 then Inl exit_failure else Inr (l sdiv r))"
| "eval_trans_predicate pm (PRED_REM a b) x = both (eval_trans_predicate pm a x) (eval_trans_predicate pm b x)
     (\<lambda>l r. if r = 0 \<or> l = LONG_MIN \<and> r = -1 then Inl exit_failure else Inr (l smod r))"
| "eval_trans_predicate pm (PRED_ADD a b) x = both (eval_trans_predicate pm a x) (eval_trans_predicate pm b x)
     (\<lambda>l r. if 0 < r \<and> LONG_MAX - r < l \<or> r < 0 \<and> l < LONG_MIN - r then Inl exit_failure else Inr (l + r))"
| "eval_trans_predicate pm (PRED_SUB a b) x = both (eval_trans_predicate pm a x) (eval_trans_predicate pm b x)
     (\<lambda>l r. if 0 < r \<and> l < LONG_MIN + r \<or> r < 0 \<and> LONG_MAX + r < l then Inl exit_failure else Inr (l - r))"

abbreviation eval_state_predicate :: "pins \<Rightarrow> pred \<Rightarrow> nat list \<Rightarrow> int result" where
  "eval_state_predicate \<equiv> eval_trans_predicate"

fun set_pins_semantics :: "pins \<Rightarrow> pred \<Rightarrow> nat set" where
  "set_pins_semantics pm (PRED_SVAR i) = (if i < p_N pm then {i} else set (l_projs pm (i - p_N pm)))"
| "set_pins_semantics pm (PRED_NOT a) = set_pins_semantics pm a"
| "set_pins_semantics pm (PRED_EQ a b) = set_pins_semantics pm a \<union> set_pins_semantics pm b"
| "set_pins_semantics pm (PRED_NEQ a b) = set_pins_semantics pm a \<union> set_pins_semantics pm b"
| "set_pins_semantics pm (PRED_AND a b) = set_pins_semantics pm a \<union> set_pins_semantics pm b"
| "set_pins_semantics pm (PRED_OR a b) = set_pins_semantics pm a \<union> set_pins_semantics pm b"
| "set_pins_semantics pm (PRED_IMPLY a b) = set_pins_semantics pm a \<union> set_pins_semantics pm b"
| "set_pins_semantics pm (PRED_EQUIV a b) = set_pins_semantics pm a \<union> set_pins_semantics pm b"
| "set_pins_semantics pm (PRED_LT a b) = set_pins_semantics pm a \<union> set_pins_semantics pm b"
| "set_pins_semantics pm (PRED_LEQ a b) = set_pins_semantics pm a \<union> set_pins_semantics pm b"
| "set_pins_semantics pm (PRED_GT a b) = set_pins_semantics pm a \<union> set_pins_semantics pm b"
| "set_pins_semantics pm (PRED_GEQ a b) = set_pins_semantics pm a \<union> set_pins_semantics pm b"
| "set_pins_semantics pm (PRED_MULT a b) = set_pins_semantics pm a \<union> set_pins_semantics pm b"
| "set_pins_semantics pm (PRED_DIV a b) = set_pins_semantics pm a \<union> set_pins_semantics pm b"
| "set_pins_semantics pm (PRED_REM a b) = set_pins_semantics pm a \<union> set_pins_semantics pm b"
| "set_pins_semantics pm (PRED_ADD a b) = set_pins_semantics pm a \<union> set_pins_semantics pm b"
| "set_pins_semantics pm (PRED_SUB a b) = set_pins_semantics pm a \<union> set_pins_semantics pm b"
| "set_pins_semantics pm e = {}"

text \<open>
  A symbolic set keeps short vectors, so a predicate is evaluated on the initial state with the positions of the predicate replaced;
  the short vectors on which it holds are collected.
\<close>

definition rel_expr_cb :: "pins \<Rightarrow> nat list \<Rightarrow> nat list \<Rightarrow> pred \<Rightarrow> nat list \<Rightarrow> nat list set \<Rightarrow> nat list set result" where
  "rel_expr_cb pm vec deps e a T = result_bind (eval_state_predicate pm e (put_short deps vec a)) (\<lambda>v. Inr (if v \<noteq> 0 then insert a T else T))"

section \<open>Overflow\<close>

lemma int_div_less:
  assumes "0 < (b::int)"
  shows "p div b < a \<longleftrightarrow> p < a * b"
proof (cases "p div b < a")
  case True
  have "b * (p div b + 1) \<le> b * a" using True assms by (intro mult_left_mono) simp_all
  then have "b * (p div b) + b \<le> b * a" by (simp only: distrib_left mult_1_right)
  moreover have "p mod b < b" "p = b * (p div b) + p mod b" using assms by simp_all
  ultimately have "p < b * a" by linarith
  then show ?thesis using True by (simp add: mult.commute)
next
  case False
  then have "b * a \<le> b * (p div b)" using assms by (intro mult_left_mono) simp_all
  moreover have "0 \<le> p mod b" "p = b * (p div b) + p mod b" using assms by simp_all
  ultimately have "b * a \<le> p" by linarith
  then show ?thesis using False by (simp add: mult.commute)
qed

lemma long_mult_overflow_exact:
  assumes "is_long a" and "is_long b"
  shows "long_mult_overflow a b \<longleftrightarrow> \<not> is_long (a * b)"
proof -
  have q: "(p::int) sdiv q = (if 0 < q then if 0 \<le> p then p div q else - (- p div q) else if 0 \<le> p then - (p div - q) else - p div - q)" if "q \<noteq> 0" for p q
    using that by (auto simp: signed_divide_int_def sgn_if abs_if)
  have neg: "- ((2::int) ^ 63) < 0" "(0::int) < 2 ^ 63" by simp_all
  consider "0 < a" "0 < b" | "0 < a" "b \<le> 0" | "a \<le> 0" "0 < b" | "a = 0" "b \<le> 0" | "a < 0" "b \<le> 0" by linarith
  then show ?thesis
  proof cases
    case 1
    have "LONG_MAX div b < a \<longleftrightarrow> LONG_MAX < a * b" using int_div_less[OF 1(2), of LONG_MAX a] by simp
    moreover have "LONG_MIN \<le> a * b" by (rule order_trans[of _ 0]) (use 1 in \<open>simp_all add: LONG_MIN_def\<close>)
    moreover have "0 \<le> LONG_MAX" by (simp add: LONG_MAX_def)
    ultimately show ?thesis using 1 by (simp add: long_mult_overflow_def q is_long_def not_le)
  next
    case 2
    have "b < - (2 ^ 63 div a) \<longleftrightarrow> 2 ^ 63 < a * - b" using int_div_less[OF 2(1), of "2 ^ 63" "- b"] by (auto simp: mult.commute)
    moreover have "a * b \<le> 0" using 2 by (simp add: mult_nonneg_nonpos)
    ultimately show ?thesis using 2 by (auto simp: long_mult_overflow_def q is_long_def LONG_MAX_def LONG_MIN_def)
  next
    case 3
    have "a < - (2 ^ 63 div b) \<longleftrightarrow> 2 ^ 63 < - a * b" using int_div_less[OF 3(2), of "2 ^ 63" "- a"] by (auto simp: mult.commute)
    moreover have "a * b \<le> 0" using 3 by (simp add: mult_nonpos_nonneg)
    ultimately show ?thesis using 3 by (auto simp: long_mult_overflow_def q is_long_def LONG_MAX_def LONG_MIN_def)
  next
    case 4
    then show ?thesis by (simp add: long_mult_overflow_def is_long_def LONG_MAX_def LONG_MIN_def)
  next
    case 5
    have "b < - ((2 ^ 63 - 1) div - a) \<longleftrightarrow> 2 ^ 63 - 1 < - a * - b" using 5 int_div_less[of "- a" "2 ^ 63 - 1" "- b"] by (auto simp: mult.commute)
    moreover have "0 \<le> a * b" using 5 by (simp add: mult_nonpos_nonpos)
    ultimately show ?thesis using 5 by (auto simp: long_mult_overflow_def q is_long_def LONG_MAX_def LONG_MIN_def)
  qed
qed

text \<open>The numbers in a predicate fit into a machine word.\<close>

fun numbers_fit :: "pred \<Rightarrow> bool" where
  "numbers_fit (PRED_NUM n) \<longleftrightarrow> is_long n"
| "numbers_fit (PRED_NOT a) \<longleftrightarrow> numbers_fit a"
| "numbers_fit (PRED_EQ a b) \<longleftrightarrow> numbers_fit a \<and> numbers_fit b"
| "numbers_fit (PRED_NEQ a b) \<longleftrightarrow> numbers_fit a \<and> numbers_fit b"
| "numbers_fit (PRED_AND a b) \<longleftrightarrow> numbers_fit a \<and> numbers_fit b"
| "numbers_fit (PRED_OR a b) \<longleftrightarrow> numbers_fit a \<and> numbers_fit b"
| "numbers_fit (PRED_IMPLY a b) \<longleftrightarrow> numbers_fit a \<and> numbers_fit b"
| "numbers_fit (PRED_EQUIV a b) \<longleftrightarrow> numbers_fit a \<and> numbers_fit b"
| "numbers_fit (PRED_LT a b) \<longleftrightarrow> numbers_fit a \<and> numbers_fit b"
| "numbers_fit (PRED_LEQ a b) \<longleftrightarrow> numbers_fit a \<and> numbers_fit b"
| "numbers_fit (PRED_GT a b) \<longleftrightarrow> numbers_fit a \<and> numbers_fit b"
| "numbers_fit (PRED_GEQ a b) \<longleftrightarrow> numbers_fit a \<and> numbers_fit b"
| "numbers_fit (PRED_MULT a b) \<longleftrightarrow> numbers_fit a \<and> numbers_fit b"
| "numbers_fit (PRED_DIV a b) \<longleftrightarrow> numbers_fit a \<and> numbers_fit b"
| "numbers_fit (PRED_REM a b) \<longleftrightarrow> numbers_fit a \<and> numbers_fit b"
| "numbers_fit (PRED_ADD a b) \<longleftrightarrow> numbers_fit a \<and> numbers_fit b"
| "numbers_fit (PRED_SUB a b) \<longleftrightarrow> numbers_fit a \<and> numbers_fit b"
| "numbers_fit e \<longleftrightarrow> True"

lemma both_simps [simp]: "both (Inr l) (Inr r) f = f l r" "both (Inl e) b f = Inl e" "both (Inr l) (Inl e) f = Inl e"
  by (simp_all add: both_def)

lemma long_sdiv:
  assumes l: "is_long l" and r: "r \<noteq> 0" "\<not> (l = LONG_MIN \<and> r = - 1)"
  shows "is_long (l sdiv r)" and "is_long (l smod r)"
proof -
  have a: "\<bar>l sdiv r\<bar> = \<bar>l\<bar> div \<bar>r\<bar>" using r(1) by (cases "l = 0") (simp_all add: signed_divide_int_def abs_mult pos_imp_zdiv_nonneg_iff)
  have m: "\<bar>l smod r\<bar> = \<bar>l\<bar> mod \<bar>r\<bar>" using r(1) by (cases "l = 0") (simp_all add: signed_modulo_int_def abs_mult abs_of_nonneg)
  have "\<bar>l\<bar> mod \<bar>r\<bar> \<le> \<bar>l\<bar>" by (rule zmod_le_nonneg_dividend) simp
  show "is_long (l sdiv r)"
  proof (cases "\<bar>r\<bar> = 1")
    case True
    then have "r = 1 \<or> r = - 1" by linarith
    then show ?thesis using l r by (auto simp: signed_divide_int_def is_long_def LONG_MIN_def LONG_MAX_def sgn_mult sgn_if abs_if split: if_splits)
  next
    case False
    then have "2 \<le> \<bar>r\<bar>" using r(1) by linarith
    then have "\<bar>l\<bar> div \<bar>r\<bar> \<le> \<bar>l\<bar> div 2" by (intro zdiv_mono2) simp_all
    then show ?thesis using l unfolding is_long_def LONG_MIN_def LONG_MAX_def a[symmetric] by linarith
  qed
  show "is_long (l smod r)"
  proof (cases "l = LONG_MIN")
    case True
    have "\<bar>l smod r\<bar> \<le> \<bar>l\<bar>" using \<open>\<bar>l\<bar> mod \<bar>r\<bar> \<le> \<bar>l\<bar>\<close> m by simp
    moreover have "\<bar>l\<bar> \<le> 2 ^ 63" using True by (simp add: LONG_MIN_def)
    moreover have "l smod r \<le> 0" unfolding signed_modulo_int_def True LONG_MIN_def using r(1) by (simp add: sgn_if)
    ultimately show ?thesis unfolding is_long_def LONG_MIN_def LONG_MAX_def by (intro conjI) simp_all
  next
    case False
    then have "\<bar>l\<bar> \<le> LONG_MAX" using l by (auto simp: is_long_def LONG_MIN_def LONG_MAX_def)
    then show ?thesis using \<open>\<bar>l\<bar> mod \<bar>r\<bar> \<le> \<bar>l\<bar>\<close> unfolding m[symmetric] is_long_def LONG_MIN_def LONG_MAX_def by linarith
  qed
qed

lemma long_add: "is_long l \<Longrightarrow> is_long r \<Longrightarrow> (0 < r \<and> LONG_MAX - r < l \<or> r < 0 \<and> l < LONG_MIN - r) \<longleftrightarrow> \<not> is_long (l + r)"
  by (auto simp: is_long_def LONG_MIN_def LONG_MAX_def)

lemma long_sub: "is_long l \<Longrightarrow> is_long r \<Longrightarrow> (0 < r \<and> l < LONG_MIN + r \<or> r < 0 \<and> LONG_MAX + r < l) \<longleftrightarrow> \<not> is_long (l - r)"
  by (auto simp: is_long_def LONG_MIN_def LONG_MAX_def)

lemma long_s32: "v < 2 ^ 32 \<Longrightarrow> is_long (s32 v)"
  by (auto simp: s32_def is_long_def LONG_MIN_def LONG_MAX_def)

section \<open>Dependencies\<close>

lemma label_same: "\<forall>p \<in> set (l_projs pm g). x ! p = y ! p \<Longrightarrow> label_of pm g x = label_of pm g y"
  by (metis map_cong)

lemma eval_same:
  "\<forall>p \<in> set_pins_semantics pm e. x ! p = y ! p \<Longrightarrow> eval_trans_predicate pm e x = eval_trans_predicate pm e y"
proof (induction e)
  case (PRED_SVAR i)
  then show ?case using label_same[of pm "i - p_N pm" x y] by (auto split: if_splits)
qed (simp_all add: ball_Un cong: if_cong)

text \<open>
  C38. Evaluating a predicate on a short vector, over the positions that the dependency analysis finds, decides it for every state with that
  projection: the callback fails exactly if the predicate fails on the state, and adds the short vector exactly if the
  predicate is true there.
\<close>

theorem rel_expr_cb_correct:
  assumes "\<forall>p \<in> set_pins_semantics pm e. p < length vec" and "deps = sorted_list_of_set (set_pins_semantics pm e)"
  shows "rel_expr_cb pm vec deps e (short deps x) T
    = result_bind (eval_state_predicate pm e x) (\<lambda>v. Inr (if v \<noteq> 0 then insert (short deps x) T else T))"
proof -
  have fin: "finite (set_pins_semantics pm e)" by (rule finite_subset[of _ "{..<length vec}"]) (use assms(1) in auto)
  then have d: "distinct deps" "set deps = set_pins_semantics pm e" by (simp_all add: assms(2))
  have "short deps (put_short deps vec (short deps x)) = short deps x"
    by (rule short_put_short) (use assms(1) d in simp_all)
  then have "\<forall>p \<in> set deps. put_short deps vec (short deps x) ! p = x ! p" by simp
  then have "eval_state_predicate pm e (put_short deps vec (short deps x)) = eval_state_predicate pm e x" by (intro eval_same) (simp add: d(2))
  then show ?thesis by (simp add: rel_expr_cb_def)
qed

theorem rel_expr_cb_correct_witness:
  "rel_expr_cb counters [0, 0] [0] (PRED_LT (PRED_NUM 1) (PRED_SVAR 0)) [2] {} = Inr {[2]}"
proof -
  have "sorted_list_of_set (set_pins_semantics counters (PRED_LT (PRED_NUM 1) (PRED_SVAR 0))) = [0]" by (simp add: counters_def)
  moreover have "\<forall>p \<in> set_pins_semantics counters (PRED_LT (PRED_NUM 1) (PRED_SVAR 0)). p < length [0, 0 :: nat]" by (simp add: counters_def)
  ultimately have "rel_expr_cb counters [0, 0] [0] (PRED_LT (PRED_NUM 1) (PRED_SVAR 0)) (short [0] [2, 1]) {}
      = result_bind (eval_state_predicate counters (PRED_LT (PRED_NUM 1) (PRED_SVAR 0)) [2, 1]) (\<lambda>v. Inr (if v \<noteq> 0 then insert (short [0] [2, 1]) {} else {}))"
    by (intro rel_expr_cb_correct) simp_all
  moreover have "eval_state_predicate counters (PRED_LT (PRED_NUM 1) (PRED_SVAR 0)) [2, 1] = Inr 1" by (simp add: counters_def s32_def truth_def both_def)
  ultimately show ?thesis by simp
qed

section \<open>The arithmetic is exact\<close>

text \<open>
  The reference evaluation: it computes in unbounded integers and is undefined where a sum, difference, product or quotient is not
  a 64-bit number or a divisor is zero. Conjunction, disjunction and implication do not evaluate their right side when the left side decides.
\<close>

definition fits :: "int \<Rightarrow> int option" where
  "fits v = (if is_long v then Some v else None)"

definition opt2 :: "(int \<Rightarrow> int \<Rightarrow> int option) \<Rightarrow> int option \<Rightarrow> int option \<Rightarrow> int option" where
  "opt2 f a b = (case (a, b) of (Some l, Some r) \<Rightarrow> f l r | _ \<Rightarrow> None)"

definition opt_if :: "int option \<Rightarrow> (bool \<Rightarrow> int option) \<Rightarrow> int option" where
  "opt_if a f = (case a of Some l \<Rightarrow> f (l \<noteq> 0) | None \<Rightarrow> None)"

definition bit_of :: "bool \<Rightarrow> int option" where
  "bit_of b = Some (if b then 1 else 0)"

fun exact_value :: "pins \<Rightarrow> pred \<Rightarrow> nat list \<Rightarrow> int option" where
  "exact_value pm PRED_TRUE x = bit_of True"
| "exact_value pm PRED_FALSE x = bit_of False"
| "exact_value pm (PRED_NUM n) x = Some n"
| "exact_value pm (PRED_SVAR i) x = Some (if i < p_N pm then s32 (x ! i) else int (label_of pm (i - p_N pm) x))"
| "exact_value pm (PRED_NOT a) x = opt_if (exact_value pm a x) (\<lambda>l. bit_of (\<not> l))"
| "exact_value pm (PRED_EQ a b) x = opt2 (\<lambda>l r. bit_of (l = r)) (exact_value pm a x) (exact_value pm b x)"
| "exact_value pm (PRED_NEQ a b) x = opt2 (\<lambda>l r. bit_of (l \<noteq> r)) (exact_value pm a x) (exact_value pm b x)"
| "exact_value pm (PRED_AND a b) x = opt_if (exact_value pm a x) (\<lambda>l. if l then opt_if (exact_value pm b x) bit_of else bit_of False)"
| "exact_value pm (PRED_OR a b) x = opt_if (exact_value pm a x) (\<lambda>l. if l then bit_of True else opt_if (exact_value pm b x) bit_of)"
| "exact_value pm (PRED_IMPLY a b) x = opt_if (exact_value pm a x) (\<lambda>l. if l then opt_if (exact_value pm b x) bit_of else bit_of True)"
| "exact_value pm (PRED_EQUIV a b) x = opt_if (exact_value pm a x) (\<lambda>l. opt_if (exact_value pm b x) (\<lambda>r. bit_of (l = r)))"
| "exact_value pm (PRED_LT a b) x = opt2 (\<lambda>l r. bit_of (l < r)) (exact_value pm a x) (exact_value pm b x)"
| "exact_value pm (PRED_LEQ a b) x = opt2 (\<lambda>l r. bit_of (l \<le> r)) (exact_value pm a x) (exact_value pm b x)"
| "exact_value pm (PRED_GT a b) x = opt2 (\<lambda>l r. bit_of (l > r)) (exact_value pm a x) (exact_value pm b x)"
| "exact_value pm (PRED_GEQ a b) x = opt2 (\<lambda>l r. bit_of (l \<ge> r)) (exact_value pm a x) (exact_value pm b x)"
| "exact_value pm (PRED_MULT a b) x = opt2 (\<lambda>l r. fits (l * r)) (exact_value pm a x) (exact_value pm b x)"
| "exact_value pm (PRED_DIV a b) x = opt2 (\<lambda>l r. if r = 0 then None else fits (l sdiv r)) (exact_value pm a x) (exact_value pm b x)"
| "exact_value pm (PRED_REM a b) x = opt2 (\<lambda>l r. if r = 0 \<or> \<not> is_long (l sdiv r) then None else Some (l smod r)) (exact_value pm a x) (exact_value pm b x)"
| "exact_value pm (PRED_ADD a b) x = opt2 (\<lambda>l r. fits (l + r)) (exact_value pm a x) (exact_value pm b x)"
| "exact_value pm (PRED_SUB a b) x = opt2 (\<lambda>l r. fits (l - r)) (exact_value pm a x) (exact_value pm b x)"

lemma long_sdiv_fits:
  assumes "is_long l" and "r \<noteq> 0"
  shows "is_long (l sdiv r) \<longleftrightarrow> \<not> (l = LONG_MIN \<and> r = - 1)"
proof -
  have "\<not> is_long (LONG_MIN sdiv (- 1))" by (simp add: is_long_def LONG_MIN_def LONG_MAX_def signed_divide_int_def)
  then show ?thesis using long_sdiv(1)[OF assms] by blast
qed

text \<open>\<open>agrees r o\<close>: the code returns the value of the reference, or aborts where there is none; values are 64-bit numbers.\<close>

definition agrees :: "int result \<Rightarrow> int option \<Rightarrow> bool" where
  "agrees r v \<longleftrightarrow> r = (case v of Some n \<Rightarrow> Inr n | None \<Rightarrow> Inl exit_failure) \<and> (\<forall>n. v = Some n \<longrightarrow> is_long n)"

lemma agrees_both:
  assumes "agrees a v" and "agrees b w" and "\<And>l r. is_long l \<Longrightarrow> is_long r \<Longrightarrow> agrees (f l r) (g l r)"
  shows "agrees (both a b f) (opt2 g v w)"
proof (cases "v \<noteq> None \<and> w \<noteq> None")
  case True
  then obtain l r where lr: "v = Some l" "w = Some r" by auto
  then have "a = Inr l" "b = Inr r" "is_long l" "is_long r" using assms(1,2) by (simp_all add: agrees_def)
  then show ?thesis using lr assms(3)[of l r] by (simp add: opt2_def)
next
  case False
  then show ?thesis using assms(1,2) by (auto simp: agrees_def opt2_def both_def split: option.splits)
qed

lemma agrees_if:
  assumes "agrees a v" and "\<And>l. agrees (f l) (g (l \<noteq> 0))"
  shows "agrees (result_bind a f) (opt_if v g)"
proof (cases v)
  case None
  then show ?thesis using assms(1) by (simp add: agrees_def opt_if_def)
next
  case (Some l)
  then have "a = Inr l" using assms(1) by (simp add: agrees_def)
  then show ?thesis using Some assms(2)[of l] by (simp add: opt_if_def)
qed

lemma agrees_truth: "agrees (truth b) (bit_of b)" "agrees (Inr 0) (bit_of False)" "agrees (Inr 1) (bit_of True)"
  by (simp_all add: agrees_def truth_def bit_of_def is_long_def LONG_MIN_def LONG_MAX_def)

lemma agrees_logic:
  assumes "agrees a v"
  shows "agrees (result_bind a (\<lambda>l. truth (l = 0))) (opt_if v (\<lambda>l. bit_of (\<not> l)))"
    and "agrees b w \<Longrightarrow> agrees (both a b (\<lambda>l r. truth (P l r))) (opt2 (\<lambda>l r. bit_of (P l r)) v w)"
    and "agrees b w \<Longrightarrow> agrees (result_bind a (\<lambda>l. if l = 0 then Inr 0 else result_bind b (\<lambda>r. truth (r \<noteq> 0))))
      (opt_if v (\<lambda>l. if l then opt_if w bit_of else bit_of False))"
    and "agrees b w \<Longrightarrow> agrees (result_bind a (\<lambda>l. if l \<noteq> 0 then Inr 1 else result_bind b (\<lambda>r. truth (r \<noteq> 0))))
      (opt_if v (\<lambda>l. if l then bit_of True else opt_if w bit_of))"
    and "agrees b w \<Longrightarrow> agrees (result_bind a (\<lambda>l. if l = 0 then Inr 1 else result_bind b (\<lambda>r. truth (r \<noteq> 0))))
      (opt_if v (\<lambda>l. if l then opt_if w bit_of else bit_of True))"
    and "agrees b w \<Longrightarrow> agrees (both a b (\<lambda>l r. truth ((l = 0) = (r = 0)))) (opt_if v (\<lambda>l. opt_if w (\<lambda>r. bit_of (l = r))))"
proof -
  have sub: "agrees (result_bind b (\<lambda>r. truth (r \<noteq> 0))) (opt_if w bit_of)" if "agrees b w"
    by (rule agrees_if[OF that agrees_truth(1)])
  show "agrees (result_bind a (\<lambda>l. truth (l = 0))) (opt_if v (\<lambda>l. bit_of (\<not> l)))"
    by (rule agrees_if[OF assms]) (use agrees_truth(1) in simp)
  show "agrees (both a b (\<lambda>l r. truth (P l r))) (opt2 (\<lambda>l r. bit_of (P l r)) v w)" if "agrees b w"
    by (rule agrees_both[OF assms that agrees_truth(1)])
  show "agrees (result_bind a (\<lambda>l. if l = 0 then Inr 0 else result_bind b (\<lambda>r. truth (r \<noteq> 0))))
      (opt_if v (\<lambda>l. if l then opt_if w bit_of else bit_of False))" if "agrees b w"
    by (rule agrees_if[OF assms]) (simp only: if_not_P if_P sub[OF that] agrees_truth split: if_split, simp)
  show "agrees (result_bind a (\<lambda>l. if l \<noteq> 0 then Inr 1 else result_bind b (\<lambda>r. truth (r \<noteq> 0))))
      (opt_if v (\<lambda>l. if l then bit_of True else opt_if w bit_of))" if "agrees b w"
    by (rule agrees_if[OF assms]) (simp only: if_not_P if_P sub[OF that] agrees_truth split: if_split, simp)
  show "agrees (result_bind a (\<lambda>l. if l = 0 then Inr 1 else result_bind b (\<lambda>r. truth (r \<noteq> 0))))
      (opt_if v (\<lambda>l. if l then opt_if w bit_of else bit_of True))" if "agrees b w"
    by (rule agrees_if[OF assms]) (simp only: if_not_P if_P sub[OF that] agrees_truth split: if_split, simp)
  have eqv: "agrees (result_bind b (\<lambda>r. truth ((l = 0) = (r = 0)))) (opt_if w (\<lambda>r. bit_of ((l \<noteq> 0) = r)))" if "agrees b w" for l :: int
    by (rule agrees_if[OF that]) (use agrees_truth(1)[of "(l = 0) = (_ = 0)"] in simp)
  show "agrees (both a b (\<lambda>l r. truth ((l = 0) = (r = 0)))) (opt_if v (\<lambda>l. opt_if w (\<lambda>r. bit_of (l = r))))" if "agrees b w"
    unfolding both_def by (rule agrees_if[OF assms]) (rule eqv[OF that])
qed

lemma agrees_arith:
  assumes "is_long l" and "is_long r"
  shows "agrees (if long_mult_overflow l r then Inl exit_failure else Inr (l * r)) (fits (l * r))"
    and "agrees (if 0 < r \<and> LONG_MAX - r < l \<or> r < 0 \<and> l < LONG_MIN - r then Inl exit_failure else Inr (l + r)) (fits (l + r))"
    and "agrees (if 0 < r \<and> l < LONG_MIN + r \<or> r < 0 \<and> LONG_MAX + r < l then Inl exit_failure else Inr (l - r)) (fits (l - r))"
    and "agrees (if r = 0 \<or> l = LONG_MIN \<and> r = -1 then Inl exit_failure else Inr (l sdiv r)) (if r = 0 then None else fits (l sdiv r))"
    and "agrees (if r = 0 \<or> l = LONG_MIN \<and> r = -1 then Inl exit_failure else Inr (l smod r)) (if r = 0 \<or> \<not> is_long (l sdiv r) then None else Some (l smod r))"
  unfolding long_mult_overflow_exact[OF assms] long_add[OF assms] long_sub[OF assms]
  using long_sdiv_fits[OF assms(1), of r] long_sdiv(2)[OF assms(1), of r]
  by (auto simp: agrees_def fits_def)

lemma eval_agrees:
  assumes "numbers_fit e" and x: "\<forall>i < p_N pm. x ! i < 2 ^ 32" and lab: "\<forall>g a. state_label_short pm g a < 2 ^ 31"
  shows "agrees (eval_trans_predicate pm e x) (exact_value pm e x)"
  using assms(1)
proof (induction e)
  case (PRED_SVAR i)
  have "is_long (int n)" if "n < 2 ^ 31" for n using that by (simp add: is_long_def LONG_MIN_def LONG_MAX_def)
  then show ?case using x lab long_s32 by (auto simp: agrees_def)
next
  case (PRED_MULT a b)
  then show ?case by (simp add: agrees_both agrees_arith(1))
next
  case (PRED_DIV a b)
  then show ?case by (simp add: agrees_both agrees_arith(4))
next
  case (PRED_REM a b)
  then show ?case by (simp add: agrees_both agrees_arith(5))
next
  case (PRED_ADD a b)
  then show ?case by (simp add: agrees_both agrees_arith(2))
next
  case (PRED_SUB a b)
  then show ?case by (simp add: agrees_both agrees_arith(3))
next
  case (PRED_NUM n)
  then show ?case by (simp add: agrees_def)
qed (simp_all add: agrees_truth agrees_logic)

text \<open>
  C39. Evaluating a predicate is exact: with numbers and labels that fit, the code returns the value of the predicate
  in unbounded integers, which is then a 64-bit number, as are all values in between; and it aborts exactly where there is no such value, because a sum, difference,
  product or quotient leaves the 64-bit numbers or a divisor is zero in a part that has to be evaluated.
\<close>

theorem predicate_arithmetic_exact:
  assumes "numbers_fit e" and "\<forall>i < p_N pm. x ! i < 2 ^ 32" and "\<forall>g a. state_label_short pm g a < 2 ^ 31"
  shows "eval_trans_predicate pm e x = (case exact_value pm e x of Some v \<Rightarrow> Inr v | None \<Rightarrow> Inl exit_failure)
    \<and> (\<forall>v. eval_trans_predicate pm e x = Inr v \<longrightarrow> is_long v)"
  using eval_agrees[OF assms] by (auto simp: agrees_def split: option.splits)

theorem predicate_arithmetic_exact_witness:
  "eval_trans_predicate counters (PRED_ADD (PRED_SVAR 0) (PRED_MULT (PRED_NUM 3) (PRED_SVAR 1))) [2, 1] = Inr 5
   \<and> eval_trans_predicate counters (PRED_MULT (PRED_NUM (2 ^ 62)) (PRED_NUM 2)) [2, 1] = Inl exit_failure
   \<and> eval_trans_predicate counters (PRED_DIV (PRED_NUM 7) (PRED_SUB (PRED_SVAR 1) (PRED_NUM 1))) [2, 1] = Inl exit_failure"
proof -
  have x: "\<forall>i < p_N counters. [2, 1] ! i < (2 ^ 32 :: nat)" by (auto simp: counters_def less_2_cases_iff)
  have l: "\<forall>g a. state_label_short counters g a < 2 ^ 31" by (simp add: counters_def)
  have fit: "numbers_fit (PRED_ADD (PRED_SVAR 0) (PRED_MULT (PRED_NUM 3) (PRED_SVAR 1)))"
    "numbers_fit (PRED_MULT (PRED_NUM (2 ^ 62)) (PRED_NUM 2))" "numbers_fit (PRED_DIV (PRED_NUM 7) (PRED_SUB (PRED_SVAR 1) (PRED_NUM 1)))"
    by (simp_all add: is_long_def LONG_MIN_def LONG_MAX_def)
  have "exact_value counters (PRED_ADD (PRED_SVAR 0) (PRED_MULT (PRED_NUM 3) (PRED_SVAR 1))) [2, 1] = Some 5"
    "exact_value counters (PRED_MULT (PRED_NUM (2 ^ 62)) (PRED_NUM 2)) [2, 1] = None"
    "exact_value counters (PRED_DIV (PRED_NUM 7) (PRED_SUB (PRED_SVAR 1) (PRED_NUM 1))) [2, 1] = None"
    by (simp_all add: is_long_def LONG_MIN_def LONG_MAX_def fits_def opt2_def counters_def s32_def)
  then show ?thesis
    using fit[THEN predicate_arithmetic_exact, OF x l] by (simp del: eval_trans_predicate.simps exact_value.simps)
qed

end
