(* ===== verification/Spg_Game.thy ===== *)
theory Spg_Game
  imports Prelude
begin

text \<open>
  Symbolic parity games, \<^verbatim>\<open>src/src/spg-lib/spg.c\<close>: the game structure with its copy, the restriction of
  a game to the vertices outside a set (\<^verbatim>\<open>spg-solve.c\<close>) and the search for the priority of a vertex
  (\<^verbatim>\<open>spg-strategy.c\<close>). A vector set is the set of the vertices it holds and a relation a set of pairs, as
  \<^verbatim>\<open>vset-lib/vector_set.h\<close> documents its operations; the theory \<open>Vset_Listdd\<close> shows that the list
  decision diagrams implement the set operations. A game has one relation per transition group.
  Priorities are array indices, hence natural numbers; of the array of the priority sets the code reads
  only the slots between the least and the greatest priority, and the others are left empty here.
\<close>

section \<open>Vector sets and relations\<close>

type_synonym 'v vrel = "('v \<times> 'v) set"

definition vset_next :: "'v set \<Rightarrow> 'v vrel \<Rightarrow> 'v set" where
  "vset_next src rel = snd ` Set.filter (\<lambda>(x, y). x \<in> src) rel"

definition vset_prev :: "'v set \<Rightarrow> 'v vrel \<Rightarrow> 'v set \<Rightarrow> 'v set" where
  "vset_prev src rel uni = fst ` Set.filter (\<lambda>(x, y). y \<in> src) rel \<inter> uni"

definition vset_zip :: "'v set \<Rightarrow> 'v set \<Rightarrow> 'v set \<times> 'v set" where
  "vset_zip dst src = (let src = src - dst; dst = dst \<union> src in (dst, src))"

lemma mem_vset_next [simp]: "y \<in> vset_next s r \<longleftrightarrow> (\<exists>x \<in> s. (x, y) \<in> r)"
  by (force simp: vset_next_def)

lemma mem_vset_prev [simp]: "x \<in> vset_prev s r u \<longleftrightarrow> x \<in> u \<and> (\<exists>y \<in> s. (x, y) \<in> r)"
  by (force simp: vset_prev_def)

lemma vset_zip_eq [simp]: "vset_zip dst src = (dst \<union> src, src - dst)"
  by (auto simp: vset_zip_def)

section \<open>The game\<close>

record 'v parity_game =
  spg_src :: "'v"
  spg_v :: "'v set"
  v_player :: "nat \<Rightarrow> 'v set"
  min_priority :: nat
  max_priority :: nat
  v_priority :: "nat \<Rightarrow> 'v set"
  spg_e :: "'v vrel list"

text \<open>The arrays of the initial state and of the relations are allocated but not filled: their
  contents are parameters.\<close>

definition spg_create :: "'v \<Rightarrow> 'v vrel list \<Rightarrow> nat \<Rightarrow> nat \<Rightarrow> 'v parity_game" where
  "spg_create src e mn mx = \<lparr>spg_src = src, spg_v = {}, v_player = (\<lambda>_. {}), min_priority = mn,
     max_priority = mx, v_priority = (\<lambda>_. {}), spg_e = e\<rparr>"

definition spg_copy :: "'v parity_game \<Rightarrow> 'v parity_game" where
  "spg_copy g = (let r = spg_create (spg_src g) (spg_e g) (min_priority g) (max_priority g);
      r = r\<lparr>spg_v := spg_v g\<rparr>;
      r = r\<lparr>v_player := fold (\<lambda>i f. f(i := v_player g i)) [0..<2] (v_player r)\<rparr>;
      r = r\<lparr>v_priority := fold (\<lambda>i f. f(i := v_priority g i)) [min_priority g..<Suc (max_priority g)] (v_priority r)\<rparr>
    in r)"

definition restrict_step :: "'v set \<Rightarrow> nat \<Rightarrow> 'v parity_game \<Rightarrow> 'v parity_game" where
  "restrict_step a i g = (let g = g\<lparr>v_priority := (v_priority g)(i := v_priority g i - a)\<rparr>
    in if i = min_priority g \<and> i < max_priority g \<and> v_priority g i = {}
       then g\<lparr>min_priority := min_priority g + 1\<rparr> else g)"

fun trim_max :: "(nat \<Rightarrow> 'v set) \<Rightarrow> nat \<Rightarrow> nat \<Rightarrow> nat" where
  "trim_max pr lo hi = (if hi > lo \<and> pr hi = {} then trim_max pr lo (hi - 1) else hi)"

declare trim_max.simps [simp del]

definition spg_game_restrict :: "'v parity_game \<Rightarrow> 'v set \<Rightarrow> 'v parity_game" where
  "spg_game_restrict g a = (let g = g\<lparr>spg_v := spg_v g - a\<rparr>;
      g = g\<lparr>v_player := fold (\<lambda>i f. f(i := f i - a)) [0..<2] (v_player g)\<rparr>;
      g = fold (restrict_step a) [min_priority g..<Suc (max_priority g)] g
    in g\<lparr>max_priority := trim_max (v_priority g) (min_priority g) (max_priority g)\<rparr>)"

definition get_priority :: "'v parity_game \<Rightarrow> 'v \<Rightarrow> nat result" where
  "get_priority g s = (case List.find (\<lambda>i. s \<in> v_priority g i) [min_priority g..<Suc (max_priority g)] of
     None \<Rightarrow> Inl Assert_fail | Some i \<Rightarrow> Inr i)"

section \<open>Well-formed games\<close>

text \<open>
  The two players share the vertices between them, and so do the priorities. The edges of a game are
  those of its relations that join two of its vertices: a restricted game keeps the relations of the
  game it comes from.
\<close>

abbreviation priorities :: "'v parity_game \<Rightarrow> nat set" where
  "priorities g \<equiv> {min_priority g..max_priority g}"

definition wf_game :: "'v parity_game \<Rightarrow> bool" where
  "wf_game g \<longleftrightarrow> finite (spg_v g) \<and> v_player g 0 \<union> v_player g 1 = spg_v g \<and> v_player g 0 \<inter> v_player g 1 = {}
     \<and> min_priority g \<le> max_priority g \<and> (\<Union>i \<in> priorities g. v_priority g i) = spg_v g
     \<and> (\<forall>i \<in> priorities g. \<forall>j \<in> priorities g. i \<noteq> j \<longrightarrow> v_priority g i \<inter> v_priority g j = {})"

definition game_edges :: "'v parity_game \<Rightarrow> 'v vrel" where
  "game_edges g = \<Union> (set (spg_e g)) \<inter> spg_v g \<times> spg_v g"

definition total_game :: "'v parity_game \<Rightarrow> bool" where
  "total_game g \<longleftrightarrow> (\<forall>x \<in> spg_v g. \<exists>y. (x, y) \<in> game_edges g)"

definition prio :: "'v parity_game \<Rightarrow> 'v \<Rightarrow> nat" where
  "prio g x = (case get_priority g x of Inl _ \<Rightarrow> 0 | Inr i \<Rightarrow> i)"

lemma wf_gameD:
  assumes "wf_game g"
  shows "finite (spg_v g)" and "v_player g 0 \<union> v_player g 1 = spg_v g" and "v_player g 0 \<inter> v_player g 1 = {}"
    and "min_priority g \<le> max_priority g" and "(\<Union>i \<in> priorities g. v_priority g i) = spg_v g"
    and "\<And>i j. i \<in> priorities g \<Longrightarrow> j \<in> priorities g \<Longrightarrow> i \<noteq> j \<Longrightarrow> v_priority g i \<inter> v_priority g j = {}"
proof -
  have 0: "\<forall>i \<in> priorities g. \<forall>j \<in> priorities g. i \<noteq> j \<longrightarrow> v_priority g i \<inter> v_priority g j = {}"
    and "finite (spg_v g)" "v_player g 0 \<union> v_player g 1 = spg_v g" "v_player g 0 \<inter> v_player g 1 = {}"
      "min_priority g \<le> max_priority g" "(\<Union>i \<in> priorities g. v_priority g i) = spg_v g"
    using assms unfolding wf_game_def by - (elim conjE, assumption)+
  then show "finite (spg_v g)" "v_player g 0 \<union> v_player g 1 = spg_v g" "v_player g 0 \<inter> v_player g 1 = {}"
      "min_priority g \<le> max_priority g" "(\<Union>i \<in> priorities g. v_priority g i) = spg_v g" by - assumption+
  show "v_priority g i \<inter> v_priority g j = {}" if "i \<in> priorities g" "j \<in> priorities g" "i \<noteq> j" for i j
    using 0 that by simp
qed

lemma player_cases: "p < (2::nat) \<Longrightarrow> (p = 0 \<Longrightarrow> P) \<Longrightarrow> (p = 1 \<Longrightarrow> P) \<Longrightarrow> P"
  by linarith

lemma player_sub: "wf_game g \<Longrightarrow> p < 2 \<Longrightarrow> v_player g p \<subseteq> spg_v g"
  by (erule player_cases) (use wf_gameD(2) in blast)+

lemma other_player:
  assumes "wf_game g" and "p < 2" and "x \<in> spg_v g"
  shows "x \<notin> v_player g p \<longleftrightarrow> x \<in> v_player g (1 - p)"
  using wf_gameD(2,3)[OF assms(1)] assms(2,3) by (auto elim!: player_cases)

lemma edges_in: "(x, y) \<in> game_edges g \<Longrightarrow> x \<in> spg_v g \<and> y \<in> spg_v g"
  by (simp add: game_edges_def)

lemma get_priority_at:
  assumes "wf_game g" and "i \<in> priorities g" and "x \<in> v_priority g i"
  shows "get_priority g x = Inr i"
proof -
  have "List.find (\<lambda>i. x \<in> v_priority g i) [min_priority g..<Suc (max_priority g)] = Some i"
  proof -
    have "x \<notin> v_priority g k" if "min_priority g \<le> k" "k < i" for k
      using wf_gameD(6)[OF assms(1), of k i] that assms(2,3) by force
    then show ?thesis using assms(2,3) by (subst find_upt_Some) auto
  qed
  then show ?thesis by (simp add: get_priority_def)
qed

lemma prio_at: "wf_game g \<Longrightarrow> i \<in> priorities g \<Longrightarrow> x \<in> v_priority g i \<Longrightarrow> prio g x = i"
  by (simp add: prio_def get_priority_at)

lemma prio_in:
  assumes "wf_game g" and "x \<in> spg_v g"
  shows "prio g x \<in> priorities g \<and> x \<in> v_priority g (prio g x)"
proof -
  obtain i where "i \<in> priorities g" "x \<in> v_priority g i" using assms wf_gameD(5)[OF assms(1)] by blast
  then show ?thesis using prio_at[OF assms(1)] by simp
qed

section \<open>Copies and restrictions\<close>

lemma fold_upd: "fold (\<lambda>i f. f(i := h i)) [a..<b] f = (\<lambda>i. if a \<le> i \<and> i < b then h i else f i)"
  by (induction b) (auto simp: fun_eq_iff)

lemma spg_copy_sel:
  "spg_src (spg_copy g) = spg_src g" "spg_v (spg_copy g) = spg_v g" "min_priority (spg_copy g) = min_priority g"
  "max_priority (spg_copy g) = max_priority g" "spg_e (spg_copy g) = spg_e g"
  "i < 2 \<Longrightarrow> v_player (spg_copy g) i = v_player g i"
  "i \<in> priorities g \<Longrightarrow> v_priority (spg_copy g) i = v_priority g i"
  by (simp_all add: spg_copy_def spg_create_def Let_def fold_upd del: upt_Suc)

lemma trim_max_bounds:
  "lo \<le> hi \<Longrightarrow> lo \<le> trim_max pr lo hi \<and> trim_max pr lo hi \<le> hi \<and> (\<forall>i. trim_max pr lo hi < i \<and> i \<le> hi \<longrightarrow> pr i = {})"
proof (induction pr lo hi rule: trim_max.induct)
  case (1 pr lo hi)
  show ?case
  proof (cases "hi > lo \<and> pr hi = {}")
    case True
    then have "trim_max pr lo hi = trim_max pr lo (hi - 1)" by (subst trim_max.simps) simp
    moreover have "lo \<le> hi - 1" using True by linarith
    moreover have "i \<le> hi \<longleftrightarrow> i \<le> hi - 1 \<or> i = hi" for i using True by linarith
    ultimately show ?thesis using 1(1)[OF True] True by auto
  next
    case False
    then have "trim_max pr lo hi = hi" by (subst trim_max.simps) auto
    then show ?thesis using 1(2) by auto
  qed
qed

lemma restrict_step_sel [simp]:
  "spg_src (restrict_step a i g) = spg_src g" "spg_v (restrict_step a i g) = spg_v g"
  "v_player (restrict_step a i g) = v_player g" "max_priority (restrict_step a i g) = max_priority g"
  "spg_e (restrict_step a i g) = spg_e g" "v_priority (restrict_step a i g) = (v_priority g)(i := v_priority g i - a)"
  by (simp_all add: restrict_step_def Let_def)

lemma restrict_fold_sel [simp]:
  "spg_src (fold (restrict_step a) is g) = spg_src g" "spg_v (fold (restrict_step a) is g) = spg_v g"
  "v_player (fold (restrict_step a) is g) = v_player g" "max_priority (fold (restrict_step a) is g) = max_priority g"
  "spg_e (fold (restrict_step a) is g) = spg_e g"
  by (induction "is" arbitrary: g) simp_all

lemma restrict_fold_priority:
  "v_priority (fold (restrict_step a) [lo..<hi] g) = (\<lambda>i. if lo \<le> i \<and> i < hi then v_priority g i - a else v_priority g i)"
  by (induction hi) (auto simp: fun_eq_iff)

text \<open>The least priority moves up only past priorities that have become empty.\<close>

lemma restrict_fold_min:
  assumes "lo = min_priority g" and "lo \<le> hi" and "hi \<le> Suc (max_priority g)" and "lo \<le> max_priority g"
    and h_def: "h = fold (restrict_step a) [lo..<hi] g"
  shows "lo \<le> min_priority h \<and> min_priority h \<le> max_priority g \<and> min_priority h \<le> hi \<and>
    (\<forall>i. lo \<le> i \<and> i < min_priority h \<longrightarrow> v_priority g i - a = {})"
  unfolding h_def using assms(2,3)
proof (induction hi)
  case 0
  then show ?case using assms(1,4) by simp
next
  case (Suc hi)
  show ?case
  proof (cases "lo = Suc hi")
    case True
    then show ?thesis using assms(1,4) by auto
  next
    case False
    define f where "f = fold (restrict_step a) [lo..<hi] g"
    have IH: "lo \<le> min_priority f \<and> min_priority f \<le> max_priority g \<and> min_priority f \<le> hi \<and>
        (\<forall>i. lo \<le> i \<and> i < min_priority f \<longrightarrow> v_priority g i - a = {})"
      unfolding f_def using False Suc.prems by (intro Suc.IH) linarith+
    have pr: "v_priority f hi = v_priority g hi" and mx: "max_priority f = max_priority g"
      by (simp_all add: f_def restrict_fold_priority)
    have "min_priority (restrict_step a hi f) = (if hi = min_priority f \<and> hi < max_priority g \<and> v_priority g hi - a = {}
        then hi + 1 else min_priority f)"
      by (auto simp: restrict_step_def pr mx Let_def)
    moreover have "fold (restrict_step a) [lo..<Suc hi] g = restrict_step a hi f"
      using False Suc.prems by (simp add: f_def)
    ultimately show ?thesis using IH by (auto simp: less_Suc_eq)
  qed
qed

lemma fold_minus_players: "fold (\<lambda>i f. f(i := f i - a)) [0..<2] f = f(0 := f 0 - a, 1 := f 1 - a)"
  by (simp add: numeral_2_eq_2)

text \<open>What a smaller game keeps of the game it comes from.\<close>

definition subgame :: "'v parity_game \<Rightarrow> 'v set \<Rightarrow> 'v parity_game \<Rightarrow> bool" where
  "subgame g a h \<longleftrightarrow> wf_game h \<and> spg_v h = spg_v g - a \<and> spg_e h = spg_e g
     \<and> (\<forall>p < 2. v_player h p = v_player g p - a) \<and> (\<forall>x \<in> spg_v h. prio h x = prio g x)"

lemma subgameD:
  assumes "subgame g a h"
  shows "wf_game h" and "spg_v h = spg_v g - a" and "spg_e h = spg_e g"
    and "\<And>p. p < 2 \<Longrightarrow> v_player h p = v_player g p - a" and "\<And>x. x \<in> spg_v h \<Longrightarrow> prio h x = prio g x"
  using assms unfolding subgame_def by blast+

lemma subgame_edges: "subgame g a h \<Longrightarrow> game_edges h = game_edges g \<inter> (- a) \<times> (- a)"
  by (auto simp: game_edges_def subgame_def)

lemma spg_game_restrict_sub:
  assumes "wf_game g"
  shows "subgame g a (spg_game_restrict (spg_copy g) a)"
proof -
  let ?c = "spg_copy g"
  define c where "c = ?c\<lparr>spg_v := spg_v g - a, v_player := (v_player ?c)(0 := v_player ?c 0 - a, 1 := v_player ?c 1 - a)\<rparr>"
  have c: "min_priority c = min_priority g" "max_priority c = max_priority g" "v_priority c = v_priority ?c"
    "spg_v c = spg_v g - a" "spg_e c = spg_e g" "v_player c = (v_player ?c)(0 := v_player ?c 0 - a, 1 := v_player ?c 1 - a)"
    by (simp_all add: c_def spg_copy_sel)
  define f where "f = fold (restrict_step a) [min_priority g..<Suc (max_priority g)] c"
  define h where "h = f\<lparr>max_priority := trim_max (v_priority f) (min_priority f) (max_priority f)\<rparr>"
  have h: "spg_game_restrict ?c a = h"
    by (simp add: spg_game_restrict_def Let_def fold_minus_players h_def f_def c_def spg_copy_sel(2-4) del: upt_Suc)
  note wf = wf_gameD[OF assms]
  have mn: "min_priority g \<le> min_priority f \<and> min_priority f \<le> max_priority g \<and>
      (\<forall>i. min_priority g \<le> i \<and> i < min_priority f \<longrightarrow> v_priority ?c i - a = {})"
    using restrict_fold_min[OF c(1)[symmetric] _ _ _ f_def] wf(4) unfolding c by simp
  have mx: "max_priority f = max_priority g"
    by (simp add: f_def c del: upt_Suc)
  have pr: "v_priority f i = v_priority g i - a" if "i \<in> priorities g" for i
    using that by (simp add: f_def c restrict_fold_priority spg_copy_sel del: upt_Suc)
  note tm = trim_max_bounds[of "min_priority f" "max_priority f" "v_priority f"]
  have mh: "min_priority h = min_priority f" and ph: "v_priority h = v_priority f"
    and xh: "max_priority h = trim_max (v_priority f) (min_priority f) (max_priority g)"
    by (simp_all add: h_def mx)
  have sub: "priorities h \<subseteq> priorities g" and ord: "min_priority h \<le> max_priority h"
    using mn tm mx by (auto simp: mh xh)
  have gone: "v_priority g i - a = {}" if "i \<in> priorities g" "i \<notin> priorities h" for i
  proof (cases "i < min_priority f")
    case True
    then show ?thesis using mn that(1) spg_copy_sel(7)[OF that(1)] by auto
  next
    case False
    then have "v_priority f i = {}" using tm mn mx that by (auto simp: mh xh)
    then show ?thesis using pr[OF that(1)] by simp
  qed
  have cover: "(\<Union>i \<in> priorities h. v_priority h i) = spg_v g - a"
  proof -
    have "(\<Union>i \<in> priorities h. v_priority h i) = (\<Union>i \<in> priorities h. v_priority g i - a)"
      using sub pr by (auto simp: ph)
    also have "\<dots> = (\<Union>i \<in> priorities g. v_priority g i - a)" using sub gone by blast
    finally show ?thesis using wf(5) by auto
  qed
  have v: "spg_v h = spg_v g - a" and e: "spg_e h = spg_e g"
    by (simp_all add: h_def f_def c del: upt_Suc)
  have pl: "v_player h p = v_player g p - a" if "p < 2" for p
    using that by (auto simp: h_def f_def c spg_copy_sel elim!: player_cases simp del: upt_Suc)
  have whf: "wf_game h"
    unfolding wf_game_def
  proof (intro conjI ballI impI)
    show "finite (spg_v h)" using wf(1) v by simp
    show "v_player h 0 \<union> v_player h 1 = spg_v h" "v_player h 0 \<inter> v_player h 1 = {}" using wf(2,3) v pl by auto
    show "min_priority h \<le> max_priority h" by (rule ord)
    show "(\<Union>i \<in> priorities h. v_priority h i) = spg_v h" using cover v by simp
    show "v_priority h i \<inter> v_priority h j = {}" if "i \<in> priorities h" "j \<in> priorities h" "i \<noteq> j" for i j
      using wf(6)[of i j] sub that pr ph by auto
  qed
  moreover have "prio h x = prio g x" if x: "x \<in> spg_v h" for x
  proof -
    have i: "prio h x \<in> priorities h" "x \<in> v_priority h (prio h x)" using prio_in[OF whf x] by auto
    then have "x \<in> v_priority g (prio h x)" using sub pr ph by auto
    then show ?thesis using prio_at[OF assms, of "prio h x"] sub i(1) by auto
  qed
  ultimately show ?thesis unfolding subgame_def h using v e pl by blast
qed

end
