(* ===== verification/Spg_Attr.thy ===== *)
theory Spg_Attr
  imports Spg_Game
begin

text \<open>
  Attractors and recorded strategies. From \<^verbatim>\<open>src/src/spg-lib/spg-strategy.c\<close>: the result structure with the
  level sets of a strategy and the boundaries between attractor computations, its creation, the addition
  of a level and the concatenation of two results. From \<^verbatim>\<open>src/src/spg-lib/spg-attr.c\<close>: the attractor
  computed round by round and the chaining attractor, which works group by group.

  An array from \<^verbatim>\<open>RTmalloc\<close> is a list of slots as long as the block, where a slot that has not been
  written is \<open>None\<close>; reading such a slot or leaving the block is a \<open>Bad_access\<close>. Timers, log messages and
  the \<^verbatim>\<open>depth\<close> argument, which only indents them, are left out.
\<close>

section \<open>Arrays\<close>

definition array_get :: "'a option list \<Rightarrow> nat \<Rightarrow> 'a result" where
  "array_get xs i = (if i < length xs then (case xs ! i of None \<Rightarrow> Inl Bad_access | Some x \<Rightarrow> Inr x) else Inl Bad_access)"

definition array_set :: "'a option list \<Rightarrow> nat \<Rightarrow> 'a \<Rightarrow> 'a option list result" where
  "array_set xs i x = (if i < length xs then Inr (xs[i := Some x]) else Inl Bad_access)"

definition array_resize :: "'a option list \<Rightarrow> nat \<Rightarrow> 'a option list" where
  "array_resize xs n = take n xs @ replicate (n - length xs) None"

definition copy_into :: "('a \<Rightarrow> 'b) \<Rightarrow> 'a option list \<Rightarrow> nat \<Rightarrow> nat \<Rightarrow> 'b option list \<Rightarrow> 'b option list result" where
  "copy_into f src n ofs dst = fold_result (\<lambda>i dst. result_bind (array_get src i) (\<lambda>x. array_set dst (ofs + i) (f x))) [0..<n] dst"

text \<open>The first \<open>n\<close> slots have been written.\<close>

definition filled :: "'a option list \<Rightarrow> nat \<Rightarrow> bool" where
  "filled xs n \<longleftrightarrow> n \<le> length xs \<and> (\<forall>i < n. xs ! i \<noteq> None)"

definition contents :: "'a option list \<Rightarrow> nat \<Rightarrow> 'a list" where
  "contents xs n = map the (take n xs)"

lemma length_resize [simp]: "length (array_resize xs n) = n"
  by (simp add: array_resize_def min_def)

lemma nth_resize: "i < n \<Longrightarrow> i < length xs \<Longrightarrow> array_resize xs n ! i = xs ! i"
  by (simp add: array_resize_def nth_append)

lemma filled_resize:
  assumes "filled xs n" and "n \<le> m"
  shows "filled (array_resize xs m) n" and "contents (array_resize xs m) n = contents xs n"
proof -
  show "filled (array_resize xs m) n" using assms by (auto simp: filled_def nth_resize)
  show "contents (array_resize xs m) n = contents xs n" using assms by (auto simp: filled_def contents_def array_resize_def)
qed

lemma array_get_filled: "filled xs n \<Longrightarrow> i < n \<Longrightarrow> array_get xs i = Inr (contents xs n ! i)"
  by (auto simp: array_get_def filled_def contents_def)

lemma fold_result_snoc: "fold_result f (xs @ [x]) s = result_bind (fold_result f xs s) (f x)"
  by (induction xs arbitrary: s) (auto simp: result_bind_def split: sum.splits)

lemma copy_into_Suc: "copy_into f src (Suc n) ofs dst = result_bind (copy_into f src n ofs dst)
    (\<lambda>dst. result_bind (array_get src n) (\<lambda>x. array_set dst (ofs + n) (f x)))"
  by (simp add: copy_into_def fold_result_snoc)

lemma copy_into_run:
  assumes "filled src n" and "ofs + n \<le> length dst"
  shows "copy_into f src n ofs dst = Inr (take ofs dst @ map (Some \<circ> f) (contents src n) @ drop (ofs + n) dst)"
  using assms
proof (induction n)
  case 0
  then show ?case by (simp add: copy_into_def contents_def)
next
  case (Suc n)
  have f: "filled src n" "n < length src" using Suc.prems(1) by (auto simp: filled_def)
  have g: "array_get src n = Inr (the (src ! n))" using Suc.prems(1) f by (auto simp: array_get_def filled_def)
  have c: "contents src (Suc n) = contents src n @ [the (src ! n)]"
    using f(2) by (simp add: contents_def take_Suc_conv_app_nth)
  have l: "length (contents src n) = n" using f(2) by (simp add: contents_def)
  have d: "drop (ofs + n) dst = dst ! (ofs + n) # drop (ofs + Suc n) dst"
    using Suc.prems(2) by (simp add: Cons_nth_drop_Suc)
  show ?case
    using Suc.IH[OF f(1)] Suc.prems(2) unfolding copy_into_Suc g
    by (simp add: array_set_def c l d list_update_append)
qed

lemma filled_append:
  assumes "filled xs n" and "ys = take n xs @ map Some zs @ rest"
  shows "filled ys (n + length zs)" and "contents ys (n + length zs) = contents xs n @ zs"
  using assms by (auto simp: filled_def contents_def nth_append comp_def)

section \<open>Results of the solver\<close>

record 'v recursive_result =
  win :: "nat \<Rightarrow> 'v set"
  strategy_levels_max :: "nat \<Rightarrow> nat"
  strategy_levels_count :: "nat \<Rightarrow> nat"
  strategy_levels :: "nat \<Rightarrow> 'v set option list"
  strategy_boundary_count :: "nat \<Rightarrow> nat"
  strategy_boundaries :: "nat \<Rightarrow> nat option list"

abbreviation (input) INIT_STRATEGY_MAX :: nat where "INIT_STRATEGY_MAX \<equiv> 64"

definition recursive_result_create :: "'v recursive_result" where
  "recursive_result_create = \<lparr>win = (\<lambda>_. {}), strategy_levels_max = (\<lambda>_. INIT_STRATEGY_MAX),
     strategy_levels_count = (\<lambda>_. 0), strategy_levels = (\<lambda>_. replicate INIT_STRATEGY_MAX None),
     strategy_boundary_count = (\<lambda>_. 1), strategy_boundaries = (\<lambda>_. (replicate INIT_STRATEGY_MAX None)[0 := Some 0])\<rparr>"

definition update_strategy_levels :: "'v recursive_result \<Rightarrow> nat \<Rightarrow> 'v set \<Rightarrow> 'v recursive_result result" where
  "update_strategy_levels r player level = (let n = strategy_levels_count r player; bc = strategy_boundary_count r player;
      r = (if n = strategy_levels_max r player
        then let r = r\<lparr>strategy_levels_max := (strategy_levels_max r)(player := strategy_levels_max r player + INIT_STRATEGY_MAX)\<rparr>
          in r\<lparr>strategy_levels := (strategy_levels r)(player := array_resize (strategy_levels r player) (strategy_levels_max r player))\<rparr>
        else r)
    in result_bind (array_set (strategy_levels r player) n level) (\<lambda>ls.
       result_bind (array_get (strategy_boundaries r player) (bc - 1)) (\<lambda>b.
       result_bind (array_set (strategy_boundaries r player) (bc - 1) (b + 1)) (\<lambda>bs.
       if b + 1 = n + 1 then Inr (r\<lparr>strategy_levels := (strategy_levels r)(player := ls),
           strategy_levels_count := (strategy_levels_count r)(player := n + 1),
           strategy_boundaries := (strategy_boundaries r)(player := bs)\<rparr>)
       else Inl Assert_fail))))"

definition concat_strategy_levels_player :: "nat \<Rightarrow> 'v recursive_result \<Rightarrow> 'v recursive_result \<Rightarrow> 'v recursive_result result" where
  "concat_strategy_levels_player player dst src = (let dc = strategy_levels_count dst player; sc = strategy_levels_count src player;
      db = strategy_boundary_count dst player; sb = strategy_boundary_count src player
    in result_bind (copy_into (\<lambda>x. x) (strategy_levels src player) sc dc (array_resize (strategy_levels dst player) (dc + sc))) (\<lambda>ls.
       result_bind (copy_into (\<lambda>b. b + dc) (strategy_boundaries src player) sb db (array_resize (strategy_boundaries dst player) (db + sb))) (\<lambda>bs.
       Inr (dst\<lparr>strategy_levels := (strategy_levels dst)(player := ls), strategy_boundaries := (strategy_boundaries dst)(player := bs),
         strategy_levels_count := (strategy_levels_count dst)(player := dc + sc),
         strategy_boundary_count := (strategy_boundary_count dst)(player := db + sb)\<rparr>))))"

definition concat_strategy_levels :: "'v recursive_result \<Rightarrow> 'v recursive_result \<Rightarrow> 'v recursive_result result" where
  "concat_strategy_levels dst src = fold_result (\<lambda>player dst. concat_strategy_levels_player player dst src) [0..<2] dst"

text \<open>
  A result is in order for a player when the counted slots have been written and the last boundary is the
  number of levels; it has room when the block of the levels is as long as its recorded size.
\<close>

definition result_ok :: "'v recursive_result \<Rightarrow> nat \<Rightarrow> bool" where
  "result_ok r p \<longleftrightarrow> filled (strategy_levels r p) (strategy_levels_count r p)
     \<and> filled (strategy_boundaries r p) (strategy_boundary_count r p) \<and> 0 < strategy_boundary_count r p
     \<and> the (strategy_boundaries r p ! (strategy_boundary_count r p - 1)) = strategy_levels_count r p"

definition result_room :: "'v recursive_result \<Rightarrow> nat \<Rightarrow> bool" where
  "result_room r p \<longleftrightarrow> length (strategy_levels r p) = strategy_levels_max r p"

definition levels_of :: "'v recursive_result \<Rightarrow> nat \<Rightarrow> 'v set list" where
  "levels_of r p = contents (strategy_levels r p) (strategy_levels_count r p)"

definition boundaries_of :: "'v recursive_result \<Rightarrow> nat \<Rightarrow> nat list" where
  "boundaries_of r p = contents (strategy_boundaries r p) (strategy_boundary_count r p)"

lemma result_create_ok:
  "result_ok recursive_result_create p" "result_room recursive_result_create p"
  "levels_of recursive_result_create p = []" "boundaries_of recursive_result_create p = [0]"
  by (simp_all add: result_ok_def result_room_def recursive_result_create_def filled_def levels_of_def boundaries_of_def
      contents_def take_Suc nth_list_update hd_conv_nth)

lemma update_strategy_levels_run:
  assumes "result_ok r p" and "result_room r p"
  shows "\<exists>r'. update_strategy_levels r p level = Inr r' \<and> result_ok r' p \<and> result_room r' p
    \<and> levels_of r' p = levels_of r p @ [level] \<and> win r' = win r
    \<and> boundaries_of r' p = butlast (boundaries_of r p) @ [Suc (strategy_levels_count r p)]"
proof -
  let ?n = "strategy_levels_count r p" and ?m = "strategy_levels_max r p" and ?bc = "strategy_boundary_count r p"
  let ?B = "strategy_boundaries r p"
  define L where "L = (if ?n = ?m then array_resize (strategy_levels r p) (?m + 64) else strategy_levels r p)"
  define M where "M = (if ?n = ?m then ?m + 64 else ?m)"
  have ok: "filled (strategy_levels r p) ?n" "filled ?B ?bc" "0 < ?bc" "the (?B ! (?bc - 1)) = ?n"
    and len: "length (strategy_levels r p) = ?m"
    using assms by (auto simp: result_ok_def result_room_def)
  have L: "length L = M" "?n < length L" "filled L ?n" "contents L ?n = contents (strategy_levels r p) ?n"
    using ok(1) len filled_resize[OF ok(1), of "?m + 64"] by (auto simp: L_def M_def filled_def)
  have b: "array_get ?B (?bc - 1) = Inr ?n"
    using array_get_filled[OF ok(2), of "?bc - 1"] ok(2-4) by (auto simp: contents_def filled_def)
  have bl: "?bc - 1 < length ?B" using ok(2,3) by (auto simp: filled_def)
  define r' where "r' = r\<lparr>strategy_levels_max := (strategy_levels_max r)(p := M),
      strategy_levels := (strategy_levels r)(p := L[?n := Some level]),
      strategy_levels_count := (strategy_levels_count r)(p := ?n + 1),
      strategy_boundaries := (strategy_boundaries r)(p := ?B[?bc - 1 := Some (?n + 1)])\<rparr>"
  have "update_strategy_levels r p level = Inr r'"
    using L(2) b bl by (auto simp: update_strategy_levels_def Let_def array_set_def r'_def L_def M_def fun_upd_idem)
  moreover have "result_ok r' p \<and> result_room r' p"
    using L ok(2,3) bl by (auto simp: result_ok_def result_room_def r'_def filled_def nth_list_update less_Suc_eq)
  moreover have "levels_of r' p = levels_of r p @ [level]"
    using L by (simp add: levels_of_def r'_def contents_def take_Suc_conv_app_nth take_update_swap list_update_append)
  moreover have "boundaries_of r' p = butlast (boundaries_of r p) @ [Suc ?n]"
  proof -
    obtain k where k: "?bc = Suc k" using ok(3) by (cases ?bc) auto
    show ?thesis using bl by (simp add: boundaries_of_def r'_def contents_def k take_Suc_conv_app_nth butlast_append)
  qed
  ultimately show ?thesis by (auto simp: r'_def)
qed

lemma concat_player_run:
  assumes "result_ok dst p" and "result_ok src p"
  shows "\<exists>r. concat_strategy_levels_player p dst src = Inr r \<and> result_ok r p \<and> win r = win dst
    \<and> levels_of r p = levels_of dst p @ levels_of src p
    \<and> boundaries_of r p = boundaries_of dst p @ map (\<lambda>b. b + strategy_levels_count dst p) (boundaries_of src p)
    \<and> strategy_levels_max r = strategy_levels_max dst
    \<and> length (strategy_levels r p) = strategy_levels_count dst p + strategy_levels_count src p
    \<and> strategy_levels_count r p = strategy_levels_count dst p + strategy_levels_count src p
    \<and> (\<forall>q. q \<noteq> p \<longrightarrow> result_ok r q = result_ok dst q \<and> levels_of r q = levels_of dst q)"
proof -
  let ?dc = "strategy_levels_count dst p" and ?sc = "strategy_levels_count src p"
  let ?db = "strategy_boundary_count dst p" and ?sb = "strategy_boundary_count src p"
  let ?L = "array_resize (strategy_levels dst p) (?dc + ?sc)" and ?B = "array_resize (strategy_boundaries dst p) (?db + ?sb)"
  define ls where "ls = take ?dc ?L @ map Some (levels_of src p)"
  define bs where "bs = take ?db ?B @ map Some (map (\<lambda>b. b + ?dc) (boundaries_of src p))"
  note ok = assms[unfolded result_ok_def]
  have 1: "copy_into (\<lambda>x. x) (strategy_levels src p) ?sc ?dc ?L = Inr ls"
    using ok by (subst copy_into_run) (auto simp: ls_def levels_of_def comp_def)
  have 2: "copy_into (\<lambda>b. b + ?dc) (strategy_boundaries src p) ?sb ?db ?B = Inr bs"
    using ok by (subst copy_into_run) (auto simp: bs_def boundaries_of_def comp_def)
  define r where "r = dst\<lparr>strategy_levels := (strategy_levels dst)(p := ls), strategy_boundaries := (strategy_boundaries dst)(p := bs),
         strategy_levels_count := (strategy_levels_count dst)(p := ?dc + ?sc),
         strategy_boundary_count := (strategy_boundary_count dst)(p := ?db + ?sb)\<rparr>"
  have run: "concat_strategy_levels_player p dst src = Inr r"
    by (simp add: concat_strategy_levels_player_def 1 2 r_def)
  have len: "length (levels_of src p) = ?sc" "length (boundaries_of src p) = ?sb"
    using ok by (auto simp: levels_of_def boundaries_of_def contents_def filled_def)
  have fl: "filled ?L ?dc" "contents ?L ?dc = levels_of dst p" and fb: "filled ?B ?db" "contents ?B ?db = boundaries_of dst p"
    using ok by (simp_all add: filled_resize levels_of_def boundaries_of_def)
  have ls: "filled ls (?dc + ?sc)" "contents ls (?dc + ?sc) = levels_of dst p @ levels_of src p"
    using filled_append[OF fl(1), of ls "levels_of src p" "[]"] len fl(2) by (simp_all add: ls_def)
  have bs: "filled bs (?db + ?sb)" "contents bs (?db + ?sb) = boundaries_of dst p @ map (\<lambda>b. b + ?dc) (boundaries_of src p)"
    using filled_append[OF fb(1), of bs "map (\<lambda>b. b + ?dc) (boundaries_of src p)" "[]"] len fb(2) by (simp_all add: bs_def)
  have "the (bs ! (?db + ?sb - 1)) = contents bs (?db + ?sb) ! (?db + ?sb - 1)"
    using bs(1) ok by (auto simp: contents_def filled_def)
  also have "\<dots> = boundaries_of src p ! (?sb - 1) + ?dc"
    using ok len(2) unfolding bs(2)
    by (auto simp: nth_append boundaries_of_def contents_def filled_def)
  also have "boundaries_of src p ! (?sb - 1) = ?sc"
    using ok by (auto simp: boundaries_of_def contents_def filled_def)
  finally have last: "the (bs ! (?db + ?sb - 1)) = ?dc + ?sc" by simp
  have "result_ok r p" using ls(1) bs(1) last ok by (simp add: result_ok_def r_def)
  moreover have "levels_of r p = levels_of dst p @ levels_of src p"
    and "boundaries_of r p = boundaries_of dst p @ map (\<lambda>b. b + ?dc) (boundaries_of src p)"
    using ls(2) bs(2) by (simp_all add: levels_of_def boundaries_of_def r_def)
  moreover have "length ls = ?dc + ?sc" using len by (simp add: ls_def min_def)
  ultimately show ?thesis unfolding run by (simp add: r_def result_ok_def levels_of_def)
qed

lemma concat_strategy_levels_run:
  assumes "\<forall>p < 2. result_ok dst p" and "\<forall>p < 2. result_ok src p"
  shows "\<exists>r. concat_strategy_levels dst src = Inr r \<and> (\<forall>p < 2. result_ok r p) \<and> win r = win dst
    \<and> (\<forall>p < 2. levels_of r p = levels_of dst p @ levels_of src p)"
proof -
  obtain r0 where r0: "concat_strategy_levels_player 0 dst src = Inr r0" "result_ok r0 0" "win r0 = win dst"
      "levels_of r0 0 = levels_of dst 0 @ levels_of src 0" "result_ok r0 1" "levels_of r0 1 = levels_of dst 1"
    using concat_player_run[of dst 0 src] assms by auto
  obtain r1 where r1: "concat_strategy_levels_player 1 r0 src = Inr r1" "result_ok r1 1" "win r1 = win r0"
      "levels_of r1 1 = levels_of r0 1 @ levels_of src 1" "result_ok r1 0" "levels_of r1 0 = levels_of r0 0"
    using concat_player_run[of r0 1 src] r0(2,5) assms by auto
  have "concat_strategy_levels dst src = Inr r1"
    using r0(1) r1(1) by (simp add: concat_strategy_levels_def numeral_2_eq_2)
  then show ?thesis using r0 r1 by (auto simp: less_2_cases_iff)
qed

section \<open>Attractors\<close>

text \<open>The loops over the transition groups.\<close>

definition prev_all :: "'v parity_game \<Rightarrow> 'v set \<Rightarrow> 'v set" where
  "prev_all g s = fold (\<lambda>r acc. acc \<union> vset_prev s r (spg_v g)) (spg_e g) {}"

definition next_all :: "'v parity_game \<Rightarrow> 'v set \<Rightarrow> 'v set" where
  "next_all g s = fold (\<lambda>r acc. acc \<union> (vset_next s r \<inter> spg_v g)) (spg_e g) {}"

text \<open>The vertices that one round of the attractor adds to \<open>u\<close>, before those of \<open>u\<close> are removed.\<close>

definition attr_round :: "nat \<Rightarrow> 'v parity_game \<Rightarrow> 'v set \<Rightarrow> 'v set \<Rightarrow> 'v set" where
  "attr_round player g u v_level = (let
      prev_attr = prev_all g v_level;
      v_level = prev_attr \<inter> v_player g player;
      b = next_all g prev_attr - u;
      prev_b = prev_all g b;
      attr_other_player = (prev_attr - prev_b) \<inter> v_player g (1 - player)
    in v_level \<union> attr_other_player)"

record spg_attr_options =
  saturation :: bool
  compute_strategy :: bool

definition record_level :: "spg_attr_options \<Rightarrow> nat \<Rightarrow> 'v set \<Rightarrow> 'v recursive_result \<Rightarrow> 'v recursive_result result" where
  "record_level options player v_level r = (if compute_strategy options then update_strategy_levels r player v_level else Inr r)"

partial_function (option) attractor_loop ::
  "nat \<Rightarrow> 'v parity_game \<Rightarrow> spg_attr_options \<Rightarrow> 'v recursive_result \<Rightarrow> 'v set \<Rightarrow> 'v set \<Rightarrow> ('v recursive_result \<times> 'v set) result option" where
  "attractor_loop player g options r u v_level = (if v_level = {} then ret (r, u)
    else rbind (Some (record_level options player v_level r)) (\<lambda>r.
      let v_level = attr_round player g u v_level; (u, v_level) = vset_zip u v_level
      in attractor_loop player g options r u v_level))"

declare attractor_loop.simps [code]

definition spg_attractor :: "nat \<Rightarrow> 'v parity_game \<Rightarrow> spg_attr_options \<Rightarrow> 'v recursive_result \<Rightarrow> 'v set \<Rightarrow> ('v recursive_result \<times> 'v set) result option" where
  "spg_attractor player g options r u = attractor_loop player g options r u u"

text \<open>
  The chaining attractor: the vertices that one step through a group adds, the loop that repeats the
  step (only once unless saturation is asked for), the loop over the groups and the loop over the rounds.
\<close>

definition chain_step :: "nat \<Rightarrow> 'v parity_game \<Rightarrow> 'v vrel \<Rightarrow> 'v set \<Rightarrow> 'v set \<Rightarrow> 'v set" where
  "chain_step player g r u v_group = (let
      prev_attr = vset_prev v_group r (spg_v g);
      v_group = prev_attr \<inter> v_player g player;
      prev_attr_other_player = prev_attr \<inter> v_player g (1 - player);
      b = next_all g prev_attr_other_player - u;
      prev_b = prev_all g b;
      prev_attr_other_player = prev_attr_other_player - prev_b
    in (v_group \<union> prev_attr_other_player) - u)"

partial_function (option) chain_group ::
  "nat \<Rightarrow> 'v parity_game \<Rightarrow> spg_attr_options \<Rightarrow> 'v vrel \<Rightarrow> nat \<Rightarrow> 'v set \<Rightarrow> 'v set \<Rightarrow> 'v set \<Rightarrow> 'v set \<Rightarrow> ('v set \<times> 'v set \<times> 'v set) result option" where
  "chain_group player g options r k u v_level v_previous_level v_group =
     (if (saturation options \<or> k < 1) \<and> v_group \<noteq> {}
      then let v_group = chain_step player g r u v_group
           in chain_group player g options r (k + 1) (u \<union> v_group) (v_level \<union> v_group) (v_previous_level \<union> v_group) v_group
      else ret (u, v_level, v_previous_level))"

declare chain_group.simps [code]

fun chain_groups ::
  "nat \<Rightarrow> 'v parity_game \<Rightarrow> spg_attr_options \<Rightarrow> 'v vrel list \<Rightarrow> 'v set \<Rightarrow> 'v set \<Rightarrow> 'v set \<Rightarrow> ('v set \<times> 'v set \<times> 'v set) result option" where
  "chain_groups player g options [] u v_level v_previous_level = ret (u, v_level, v_previous_level)"
| "chain_groups player g options (r # rs) u v_level v_previous_level =
     rbind (chain_group player g options r 0 u v_level v_previous_level v_previous_level)
       (\<lambda>(u, v_level, v_previous_level). chain_groups player g options rs u v_level v_previous_level)"

partial_function (option) chain_loop ::
  "nat \<Rightarrow> 'v parity_game \<Rightarrow> spg_attr_options \<Rightarrow> 'v set \<Rightarrow> 'v set \<Rightarrow> 'v set result option" where
  "chain_loop player g options u v_level = (if v_level = {} then ret u
    else rbind (chain_groups player g options (spg_e g) u {} v_level)
      (\<lambda>(u, v_level, v_previous_level). chain_loop player g options u v_level))"

declare chain_loop.simps [code]

definition spg_attractor_chaining :: "nat \<Rightarrow> 'v parity_game \<Rightarrow> spg_attr_options \<Rightarrow> 'v recursive_result \<Rightarrow> 'v set \<Rightarrow> ('v recursive_result \<times> 'v set) result option" where
  "spg_attractor_chaining player g options r u = rbind (chain_loop player g options u u) (\<lambda>u. ret (r, u))"

section \<open>The attractor of a set\<close>

text \<open>
  The vertices from which a player can force a visit to a set: the player picks one edge, the opponent
  has to have all edges lead there, and at least one.
\<close>

inductive_set attractor :: "'v parity_game \<Rightarrow> nat \<Rightarrow> 'v set \<Rightarrow> 'v set"
  for g :: "'v parity_game" and p :: nat and U :: "'v set" where
  base: "x \<in> U \<Longrightarrow> x \<in> attractor g p U"
| own: "x \<in> v_player g p \<Longrightarrow> (x, y) \<in> game_edges g \<Longrightarrow> y \<in> attractor g p U \<Longrightarrow> x \<in> attractor g p U"
| forced: "x \<in> v_player g (1 - p) \<Longrightarrow> (x, y) \<in> game_edges g \<Longrightarrow>
    (\<And>y. (x, y) \<in> game_edges g \<Longrightarrow> y \<in> attractor g p U) \<Longrightarrow> x \<in> attractor g p U"

definition pulled :: "'v parity_game \<Rightarrow> nat \<Rightarrow> 'v set \<Rightarrow> 'v set" where
  "pulled g p S = {x \<in> v_player g p. \<exists>y \<in> S. (x, y) \<in> game_edges g}
     \<union> {x \<in> v_player g (1 - p). (\<exists>y. (x, y) \<in> game_edges g) \<and> (\<forall>y. (x, y) \<in> game_edges g \<longrightarrow> y \<in> S)}"

lemma attractor_least: "U \<subseteq> S \<Longrightarrow> pulled g p S \<subseteq> S \<Longrightarrow> attractor g p U \<subseteq> S"
proof
  show "x \<in> S" if "U \<subseteq> S" "pulled g p S \<subseteq> S" and x: "x \<in> attractor g p U" for x
    using x by (induction rule: attractor.induct) (use that(1,2) in \<open>auto simp: pulled_def\<close>)
qed

lemma pulled_attractor: "S \<subseteq> attractor g p U \<Longrightarrow> pulled g p S \<subseteq> attractor g p U"
  unfolding pulled_def by (blast intro: attractor.own attractor.forced)

lemma attractor_in: "wf_game g \<Longrightarrow> p < 2 \<Longrightarrow> U \<subseteq> spg_v g \<Longrightarrow> attractor g p U \<subseteq> spg_v g"
  by (rule attractor_least) (auto simp: pulled_def dest: edges_in)

lemma pulled_in: "pulled g p S \<subseteq> spg_v g"
  by (auto simp: pulled_def dest: edges_in)

lemma loops_done [simp]:
  "attractor_loop p g opt r u {} = ret (r, u)" "chain_loop p g opt u {} = ret u"
  "chain_group p g opt r' k u lv pl {} = ret (u, lv, pl)"
  by (simp_all add: attractor_loop.simps chain_loop.simps chain_group.simps)

lemma fold_union: "fold (\<lambda>r acc. acc \<union> f r) rs A = A \<union> (\<Union>r \<in> set rs. f r)"
  by (induction rs arbitrary: A) auto

lemma mem_prev_all [simp]: "s \<subseteq> spg_v g \<Longrightarrow> x \<in> prev_all g s \<longleftrightarrow> (\<exists>y \<in> s. (x, y) \<in> game_edges g)"
  unfolding prev_all_def fold_union by (auto simp: game_edges_def)

lemma mem_next_all [simp]: "s \<subseteq> spg_v g \<Longrightarrow> y \<in> next_all g s \<longleftrightarrow> (\<exists>x \<in> s. (x, y) \<in> game_edges g)"
  unfolding next_all_def fold_union by (auto simp: game_edges_def)

lemma mem_attr_round:
  assumes "lv \<subseteq> spg_v g"
  shows "x \<in> attr_round p g u lv \<longleftrightarrow> (\<exists>y \<in> lv. (x, y) \<in> game_edges g) \<and>
    (x \<in> v_player g p \<or> x \<in> v_player g (1 - p) \<and> (\<forall>y. (x, y) \<in> game_edges g \<longrightarrow> y \<in> u))"
proof -
  have pa: "prev_all g lv \<subseteq> spg_v g" using assms by (auto dest: edges_in)
  have nx: "z \<in> next_all g (prev_all g lv) \<longleftrightarrow> (\<exists>w. (\<exists>y \<in> lv. (w, y) \<in> game_edges g) \<and> (w, z) \<in> game_edges g)" for z
    unfolding mem_next_all[OF pa] Bex_def mem_prev_all[OF assms] by blast
  then have sub: "next_all g (prev_all g lv) - u \<subseteq> spg_v g" by (auto dest: edges_in)
  show ?thesis
    unfolding attr_round_def Let_def Un_iff Int_iff Diff_iff mem_prev_all[OF assms] mem_prev_all[OF sub] Bex_def nx by blast
qed

text \<open>What every attractor loop keeps: the vertices pulled towards those already treated are in \<open>u\<close>.\<close>

definition attr_inv :: "'v parity_game \<Rightarrow> nat \<Rightarrow> 'v set \<Rightarrow> 'v set \<Rightarrow> 'v set \<Rightarrow> bool" where
  "attr_inv g p U u lv \<longleftrightarrow> U \<subseteq> u \<and> u \<subseteq> attractor g p U \<and> u \<subseteq> spg_v g \<and> lv \<subseteq> u \<and> pulled g p (u - lv) \<subseteq> u"

lemma attr_inv_init: "U \<subseteq> spg_v g \<Longrightarrow> attr_inv g p U U U"
  by (auto simp: attr_inv_def pulled_def intro: attractor.base)

lemma attr_inv_done: "attr_inv g p U u {} \<Longrightarrow> u = attractor g p U"
  using attractor_least[of U u g p] by (auto simp: attr_inv_def)

lemma attr_round_pulled: "lv \<subseteq> u \<Longrightarrow> lv \<subseteq> spg_v g \<Longrightarrow> attr_round p g u lv \<subseteq> pulled g p u"
  unfolding pulled_def using mem_attr_round[of lv g] by blast

lemma attr_inv_round:
  assumes "attr_inv g p U u lv" and "wf_game g" and "p < 2" and n: "n = attr_round p g u lv"
  shows "attr_inv g p U (u \<union> n) (n - u)"
proof -
  note inv = assms(1)[unfolded attr_inv_def]
  have lv: "lv \<subseteq> u" "lv \<subseteq> spg_v g" using inv by auto
  have sub: "n \<subseteq> attractor g p U"
    using attr_round_pulled[OF lv] pulled_attractor inv unfolding n by blast
  moreover have "n \<subseteq> spg_v g" using sub attractor_in[OF assms(2,3), of U] inv by blast
  moreover have "pulled g p u \<subseteq> u \<union> n"
  proof
    fix x assume x: "x \<in> pulled g p u"
    show "x \<in> u \<union> n"
    proof (cases "\<exists>y \<in> lv. (x, y) \<in> game_edges g")
      case True
      then show ?thesis using x unfolding n by (auto simp: mem_attr_round[OF lv(2)] pulled_def)
    next
      case False
      then have "x \<in> pulled g p (u - lv)" using x by (auto simp: pulled_def)
      then show ?thesis using inv by blast
    qed
  qed
  moreover have "u \<union> n - (n - u) = u" by blast
  ultimately show ?thesis using inv unfolding attr_inv_def by auto
qed

lemma unvisited_decreases:
  assumes "wf_game g" and "n \<subseteq> spg_v g" and "n - u \<noteq> {}"
  shows "card (spg_v g - (u \<union> n)) < card (spg_v g - u)"
  using assms by (intro psubset_card_mono) (auto simp: wf_gameD(1))

text \<open>A round either adds new vertices or is the last one.\<close>

lemma attractor_loop_run:
  assumes "wf_game g" and "p < 2" and "\<not> compute_strategy opt"
  shows "attr_inv g p U u lv \<Longrightarrow> attractor_loop p g opt r u lv = ret (r, attractor g p U)"
proof (induction "card (spg_v g - u)" arbitrary: u lv rule: less_induct)
  case less
  define n where "n = attr_round p g u lv"
  have inv: "attr_inv g p U (u \<union> n) (n - u)" by (rule attr_inv_round[OF less.prems assms(1,2) n_def])
  show ?case
  proof (cases "lv = {}")
    case True
    then show ?thesis using attr_inv_done less.prems by (subst attractor_loop.simps) auto
  next
    case False
    have "attractor_loop p g opt r u lv = attractor_loop p g opt r (u \<union> n) (n - u)"
      using False assms(3) by (subst attractor_loop.simps) (simp add: record_level_def n_def Let_def)
    also have "\<dots> = ret (r, attractor g p U)"
    proof (cases "n - u = {}")
      case True
      show ?thesis unfolding True using attr_inv_done[OF inv[unfolded True]] by simp
    next
      case False
      have "n \<subseteq> spg_v g" using inv by (auto simp: attr_inv_def)
      then show ?thesis using less.hyps[OF unvisited_decreases[OF assms(1) _ False] inv] by simp
    qed
    finally show ?thesis .
  qed
qed

text \<open>The recorded levels: a vertex of the player has an edge into the level before, a vertex of the
  opponent only edges into earlier levels.\<close>

definition layered :: "'v parity_game \<Rightarrow> nat \<Rightarrow> 'v set \<Rightarrow> 'v set list \<Rightarrow> bool" where
  "layered g p S ls \<longleftrightarrow> (\<forall>k. Suc k < length ls \<longrightarrow> (\<forall>x \<in> ls ! Suc k.
     (x \<in> v_player g p \<and> (\<exists>y \<in> ls ! k. (x, y) \<in> game_edges g)) \<or>
     (x \<in> v_player g (1 - p) \<and> (\<forall>y. (x, y) \<in> game_edges g \<longrightarrow> y \<in> S \<union> \<Union> (set (take (Suc k) ls))))))"

lemma layered_Cons:
  assumes "layered g p (S \<union> l) ls"
    and "ls \<noteq> [] \<Longrightarrow> \<forall>x \<in> hd ls. (x \<in> v_player g p \<and> (\<exists>y \<in> l. (x, y) \<in> game_edges g)) \<or>
      (x \<in> v_player g (1 - p) \<and> (\<forall>y. (x, y) \<in> game_edges g \<longrightarrow> y \<in> S \<union> l))"
  shows "layered g p S (l # ls)"
  unfolding layered_def
proof (intro allI impI)
  fix k assume k: "Suc k < length (l # ls)"
  show "\<forall>x \<in> (l # ls) ! Suc k. (x \<in> v_player g p \<and> (\<exists>y \<in> (l # ls) ! k. (x, y) \<in> game_edges g)) \<or>
     (x \<in> v_player g (1 - p) \<and> (\<forall>y. (x, y) \<in> game_edges g \<longrightarrow> y \<in> S \<union> \<Union> (set (take (Suc k) (l # ls)))))"
  proof (cases k)
    case 0
    then show ?thesis using assms(2) k by (cases ls) auto
  next
    case (Suc j)
    then show ?thesis using assms(1) k unfolding layered_def by (simp add: Un_assoc)
  qed
qed

lemma attractor_loop_levels:
  assumes "wf_game g" and "p < 2" and "compute_strategy opt"
  shows "attr_inv g p U u lv \<Longrightarrow> result_ok r p \<Longrightarrow> result_room r p \<Longrightarrow>
    \<exists>r' ls. attractor_loop p g opt r u lv = ret (r', attractor g p U) \<and> result_ok r' p \<and> result_room r' p
      \<and> levels_of r' p = levels_of r p @ ls \<and> win r' = win r \<and> (if lv = {} then ls = [] else ls \<noteq> [] \<and> hd ls = lv)
      \<and> layered g p (u - lv) ls \<and> (u - lv) \<union> \<Union> (set ls) = attractor g p U"
proof (induction "card (spg_v g - u)" arbitrary: u lv r rule: less_induct)
  case less
  note inv0 = less.prems(1)
  define n where "n = attr_round p g u lv"
  have inv: "attr_inv g p U (u \<union> n) (n - u)" by (rule attr_inv_round[OF inv0 assms(1,2) n_def])
  show ?case
  proof (cases "lv = {}")
    case True
    then show ?thesis using attr_inv_done inv0 less.prems(2,3)
      by (subst attractor_loop.simps) (auto simp: layered_def)
  next
    case False
    obtain r1 where r1: "update_strategy_levels r p lv = Inr r1" "result_ok r1 p" "result_room r1 p"
        "levels_of r1 p = levels_of r p @ [lv]" "win r1 = win r"
      using update_strategy_levels_run[OF less.prems(2,3)] by blast
    have run: "attractor_loop p g opt r u lv = attractor_loop p g opt r1 (u \<union> n) (n - u)"
      using False assms(3) r1(1) by (subst attractor_loop.simps) (simp add: record_level_def n_def Let_def)
    have lv: "lv \<subseteq> u" "lv \<subseteq> spg_v g" using inv0 by (auto simp: attr_inv_def)
    have base: "u \<union> n - (n - u) = u" "u = (u - lv) \<union> lv" using lv(1) by auto
    have "\<exists>r' ls. attractor_loop p g opt r1 (u \<union> n) (n - u) = ret (r', attractor g p U) \<and> result_ok r' p \<and> result_room r' p
      \<and> levels_of r' p = levels_of r1 p @ ls \<and> win r' = win r1 \<and> (if n - u = {} then ls = [] else ls \<noteq> [] \<and> hd ls = n - u)
      \<and> layered g p u ls \<and> u \<union> \<Union> (set ls) = attractor g p U"
    proof (cases "n - u = {}")
      case True
      then have "u \<union> n = u" by blast
      then have "u = attractor g p U" using attr_inv_done[OF inv[unfolded True]] by simp
      then show ?thesis unfolding True using r1(2,3) \<open>u \<union> n = u\<close> by (simp add: layered_def)
    next
      case False
      have "n \<subseteq> spg_v g" using inv by (auto simp: attr_inv_def)
      from less.hyps[OF unvisited_decreases[OF assms(1) this False] inv r1(2,3)] show ?thesis
        unfolding base(1) .
    qed
    then obtain r' ls where r': "attractor_loop p g opt r u lv = ret (r', attractor g p U)" "result_ok r' p" "result_room r' p"
        "levels_of r' p = levels_of r p @ lv # ls" "win r' = win r" "if n - u = {} then ls = [] else ls \<noteq> [] \<and> hd ls = n - u"
        "layered g p u ls" "u \<union> \<Union> (set ls) = attractor g p U"
      unfolding run using r1(4,5) by auto
    have "layered g p (u - lv) (lv # ls)"
    proof (rule layered_Cons)
      show "layered g p (u - lv \<union> lv) ls" using r'(7) base(2) by simp
      show "\<forall>x \<in> hd ls. (x \<in> v_player g p \<and> (\<exists>y \<in> lv. (x, y) \<in> game_edges g)) \<or>
        (x \<in> v_player g (1 - p) \<and> (\<forall>y. (x, y) \<in> game_edges g \<longrightarrow> y \<in> u - lv \<union> lv))" if "ls \<noteq> []"
        using that r'(6) mem_attr_round[OF lv(2)] unfolding base(2)[symmetric] n_def by (auto split: if_splits)
    qed
    moreover have "(u - lv) \<union> \<Union> (set (lv # ls)) = attractor g p U" using r'(8) base(2) by auto
    ultimately show ?thesis using r' False by auto
  qed
qed

section \<open>The chaining attractor\<close>

lemma mem_chain_step:
  assumes "vg \<subseteq> spg_v g" and "r \<in> set (spg_e g)"
  shows "x \<in> chain_step p g r u vg \<longleftrightarrow> x \<notin> u \<and> x \<in> spg_v g \<and> (\<exists>y \<in> vg. (x, y) \<in> r) \<and>
    (x \<in> v_player g p \<or> x \<in> v_player g (1 - p) \<and> (\<forall>y. (x, y) \<in> game_edges g \<longrightarrow> y \<in> u))"
proof -
  define po where "po = vset_prev vg r (spg_v g) \<inter> v_player g (1 - p)"
  have po: "po \<subseteq> spg_v g" by (auto simp: po_def)
  have sub: "next_all g po - u \<subseteq> spg_v g" using po by (auto dest: edges_in)
  have "x \<in> prev_all g (next_all g po - u) \<longleftrightarrow> (\<exists>y. y \<notin> u \<and> (x, y) \<in> game_edges g)" if "x \<in> po"
    unfolding mem_prev_all[OF sub] Bex_def Diff_iff mem_next_all[OF po] using that by blast
  then show ?thesis unfolding chain_step_def Let_def po_def[symmetric] using po_def by auto
qed

lemma chain_step_pulled:
  assumes "vg \<subseteq> u" and "u \<subseteq> spg_v g" and "r \<in> set (spg_e g)"
  shows "chain_step p g r u vg \<subseteq> pulled g p u - u"
proof
  fix x assume "x \<in> chain_step p g r u vg"
  then have x: "x \<notin> u" "x \<in> spg_v g" "\<exists>y \<in> vg. (x, y) \<in> r"
      "x \<in> v_player g p \<or> x \<in> v_player g (1 - p) \<and> (\<forall>y. (x, y) \<in> game_edges g \<longrightarrow> y \<in> u)"
    using mem_chain_step[of vg g r] assms by blast+
  then obtain y where "y \<in> u" "(x, y) \<in> game_edges g" using assms by (auto simp: game_edges_def)
  then show "x \<in> pulled g p u - u" using x by (auto simp: pulled_def)
qed

text \<open>Treating one group adds vertices of the attractor, at least those of its first step.\<close>

lemma chain_group_run:
  assumes "wf_game g" and "p < 2" and "r \<in> set (spg_e g)"
  shows "vg \<subseteq> u \<Longrightarrow> u \<subseteq> attractor g p U \<Longrightarrow> u \<subseteq> spg_v g \<Longrightarrow>
    \<exists>u'. chain_group p g opt r k u lv pl vg = ret (u', lv \<union> (u' - u), pl \<union> (u' - u))
      \<and> u \<subseteq> u' \<and> u' \<subseteq> attractor g p U \<and> u' \<subseteq> spg_v g \<and> (k = 0 \<longrightarrow> chain_step p g r u vg \<subseteq> u')"
proof (induction "card (spg_v g - u)" arbitrary: k u lv pl vg rule: less_induct)
  case less
  define n where "n = chain_step p g r u vg"
  have pn: "n \<subseteq> pulled g p u - u" unfolding n_def by (rule chain_step_pulled[OF less.prems(1,3) assms(3)])
  have n: "n \<inter> u = {}" "n \<subseteq> attractor g p U" "n \<subseteq> spg_v g"
    using pn pulled_attractor[OF less.prems(2)] pulled_in[of g p u] by auto
  have e: "n = {}" if "vg = {}"
    using that mem_chain_step[of "{}" g r _ p u] assms(3) unfolding n_def by auto
  show ?case
  proof (cases "(saturation opt \<or> k < 1) \<and> vg \<noteq> {}")
    case False
    then show ?thesis using less.prems e
      by (subst chain_group.simps) (auto simp: n_def)
  next
    case True
    then have run: "chain_group p g opt r k u lv pl vg = chain_group p g opt r (k + 1) (u \<union> n) (lv \<union> n) (pl \<union> n) n"
      by (subst chain_group.simps) (simp add: n_def Let_def)
    show ?thesis
    proof (cases "n = {}")
      case True
      have "chain_group p g opt r (k + 1) (u \<union> n) (lv \<union> n) (pl \<union> n) n = ret (u, lv, pl)"
        unfolding True by simp
      then show ?thesis using run less.prems True by (auto simp: n_def)
    next
      case False
      have "card (spg_v g - (u \<union> n)) < card (spg_v g - u)"
        by (rule unvisited_decreases[OF assms(1) n(3)]) (use False n(1) in blast)
      from less.hyps[OF this, of n "k + 1" "lv \<union> n" "pl \<union> n"] n(2,3) less.prems(2,3)
      obtain u' where u': "chain_group p g opt r (k + 1) (u \<union> n) (lv \<union> n) (pl \<union> n) n
            = ret (u', lv \<union> n \<union> (u' - (u \<union> n)), pl \<union> n \<union> (u' - (u \<union> n)))"
          "u \<union> n \<subseteq> u'" "u' \<subseteq> attractor g p U" "u' \<subseteq> spg_v g" by auto
      have "n \<union> (u' - (u \<union> n)) = u' - u" using u'(2) n(1) by blast
      then have "lv \<union> n \<union> (u' - (u \<union> n)) = lv \<union> (u' - u)" "pl \<union> n \<union> (u' - (u \<union> n)) = pl \<union> (u' - u)"
        by (simp_all only: Un_assoc)
      then show ?thesis using run u' unfolding n_def by auto
    qed
  qed
qed

text \<open>Treating all groups adds every vertex that is pulled towards \<open>u\<close> and has an edge into the last level.\<close>

lemma chain_groups_run:
  assumes "wf_game g" and "p < 2"
  shows "set rs \<subseteq> set (spg_e g) \<Longrightarrow> u0 \<subseteq> u \<Longrightarrow> u \<subseteq> attractor g p U \<Longrightarrow> u \<subseteq> spg_v g \<Longrightarrow> pl \<subseteq> u \<Longrightarrow>
    \<exists>u'. chain_groups p g opt rs u lv pl = ret (u', lv \<union> (u' - u), pl \<union> (u' - u))
      \<and> u \<subseteq> u' \<and> u' \<subseteq> attractor g p U \<and> u' \<subseteq> spg_v g
      \<and> (\<forall>x \<in> pulled g p u0. \<forall>r \<in> set rs. \<forall>y \<in> pl. (x, y) \<in> r \<longrightarrow> x \<in> u')"
proof (induction rs arbitrary: u lv pl)
  case Nil
  then show ?case by auto
next
  case (Cons r rs)
  have r: "r \<in> set (spg_e g)" and pl: "pl \<subseteq> spg_v g" using Cons.prems by auto
  obtain u1 where u1: "chain_group p g opt r 0 u lv pl pl = ret (u1, lv \<union> (u1 - u), pl \<union> (u1 - u))"
      "u \<subseteq> u1" "u1 \<subseteq> attractor g p U" "u1 \<subseteq> spg_v g" "chain_step p g r u pl \<subseteq> u1"
    using chain_group_run[OF assms r Cons.prems(5,3,4), of opt 0 lv pl] by auto
  have "\<exists>u'. chain_groups p g opt rs u1 (lv \<union> (u1 - u)) (pl \<union> (u1 - u)) =
        ret (u', lv \<union> (u1 - u) \<union> (u' - u1), pl \<union> (u1 - u) \<union> (u' - u1))
      \<and> u1 \<subseteq> u' \<and> u' \<subseteq> attractor g p U \<and> u' \<subseteq> spg_v g
      \<and> (\<forall>x \<in> pulled g p u0. \<forall>r \<in> set rs. \<forall>y \<in> pl \<union> (u1 - u). (x, y) \<in> r \<longrightarrow> x \<in> u')"
    by (rule Cons.IH) (use Cons.prems u1 in auto)
  then obtain u' where u': "chain_groups p g opt rs u1 (lv \<union> (u1 - u)) (pl \<union> (u1 - u)) =
        ret (u', lv \<union> (u1 - u) \<union> (u' - u1), pl \<union> (u1 - u) \<union> (u' - u1))"
      "u1 \<subseteq> u'" "u' \<subseteq> attractor g p U" "u' \<subseteq> spg_v g"
      "\<forall>x \<in> pulled g p u0. \<forall>r \<in> set rs. \<forall>y \<in> pl \<union> (u1 - u). (x, y) \<in> r \<longrightarrow> x \<in> u'" by blast
  have "(u1 - u) \<union> (u' - u1) = u' - u" using u1(2) u'(2) by blast
  then have eq: "A \<union> (u1 - u) \<union> (u' - u1) = A \<union> (u' - u)" for A by (simp only: Un_assoc)
  have "x \<in> u'" if x: "x \<in> pulled g p u0" and y: "y \<in> pl" "(x, y) \<in> r" for x y
  proof (cases "x \<in> u")
    case False
    have "x \<in> spg_v g" using x pulled_in[of g p u0] by blast
    then have "x \<in> chain_step p g r u pl"
      using False x y Cons.prems(2) unfolding mem_chain_step[OF pl r] pulled_def by blast
    then show ?thesis using u1(5) u'(2) by blast
  qed (use u1(2) u'(2) in blast)
  then have "\<forall>x \<in> pulled g p u0. \<forall>r \<in> set (r # rs). \<forall>y \<in> pl. (x, y) \<in> r \<longrightarrow> x \<in> u'" using u'(5) by auto
  moreover have "u \<subseteq> u'" using u1(2) u'(2) by blast
  ultimately show ?case using u'(1,3,4) u1(1) unfolding chain_groups.simps by (simp add: eq)
qed

lemma chain_loop_run:
  assumes "wf_game g" and "p < 2"
  shows "attr_inv g p U u lv \<Longrightarrow> chain_loop p g opt u lv = ret (attractor g p U)"
proof (induction "card (spg_v g - u)" arbitrary: u lv rule: less_induct)
  case less
  note inv = less.prems[unfolded attr_inv_def]
  show ?case
  proof (cases "lv = {}")
    case True
    then show ?thesis using attr_inv_done less.prems by (subst chain_loop.simps) auto
  next
    case False
    obtain u' where u': "chain_groups p g opt (spg_e g) u {} lv = ret (u', u' - u, lv \<union> (u' - u))"
        "u \<subseteq> u'" "u' \<subseteq> attractor g p U" "u' \<subseteq> spg_v g"
        "\<forall>x \<in> pulled g p u. \<forall>r \<in> set (spg_e g). \<forall>y \<in> lv. (x, y) \<in> r \<longrightarrow> x \<in> u'"
      using chain_groups_run[OF assms, of "spg_e g" u u U lv opt "{}"] inv by auto
    have "pulled g p u \<subseteq> u'"
    proof
      fix x assume x: "x \<in> pulled g p u"
      show "x \<in> u'"
      proof (cases "\<exists>y \<in> lv. (x, y) \<in> game_edges g")
        case True
        then show ?thesis using u'(5) x by (auto simp: game_edges_def)
      next
        case False
        then have "x \<in> pulled g p (u - lv)" using x by (auto simp: pulled_def)
        then show ?thesis using inv u'(2) by blast
      qed
    qed
    moreover have "u' - (u' - u) = u" using u'(2) by blast
    ultimately have inv': "attr_inv g p U u' (u' - u)" using u' inv by (auto simp: attr_inv_def)
    have run: "chain_loop p g opt u lv = chain_loop p g opt u' (u' - u)"
      using False u'(1) by (subst chain_loop.simps) simp
    show ?thesis
    proof (cases "u' - u = {}")
      case True
      show ?thesis unfolding run True using attr_inv_done[OF inv'[unfolded True]] by simp
    next
      case False
      have "u \<union> u' = u'" using u'(2) by blast
      then show ?thesis using less.hyps[OF _ inv'] run unvisited_decreases[OF assms(1) u'(4) False] by simp
    qed
  qed
qed

section \<open>The interface of the attractor functions\<close>

text \<open>
  The solver calls the attractor through the function pointer \<^verbatim>\<open>attr\<close> of its options. What it relies on:
  without strategies, the call leaves the result structure alone and turns \<open>u\<close> into its attractor.
\<close>

locale attractor_procedure =
  fixes attr :: "nat \<Rightarrow> 'v parity_game \<Rightarrow> spg_attr_options \<Rightarrow> 'v recursive_result \<Rightarrow> 'v set \<Rightarrow> ('v recursive_result \<times> 'v set) result option"
  assumes attr_run: "wf_game g \<Longrightarrow> p < 2 \<Longrightarrow> U \<subseteq> spg_v g \<Longrightarrow> spg_e g \<noteq> [] \<Longrightarrow> \<not> compute_strategy opt \<Longrightarrow>
    attr p g opt r U = ret (r, attractor g p U)"

interpretation plain: attractor_procedure spg_attractor
  by unfold_locales (simp add: spg_attractor_def attractor_loop_run attr_inv_init)

interpretation chaining: attractor_procedure spg_attractor_chaining
  by unfold_locales (simp add: spg_attractor_chaining_def chain_loop_run[OF _ _ attr_inv_init])

end
