(* ===== verification/Spg_Win.thy ===== *)
theory Spg_Win
  imports Spg_Attr
begin

text \<open>
  Who wins a parity game. A play is an infinite walk, won by the player whose parity is that of the
  least priority that occurs infinitely often. The lemmas say how regions that a player wins by a positional
  strategy are put together from those of smaller games: the steps of the recursive solver.
\<close>

section \<open>Plays and winning strategies\<close>

definition play :: "'v parity_game \<Rightarrow> (nat \<Rightarrow> 'v) \<Rightarrow> bool" where
  "play g \<pi> \<longleftrightarrow> (\<forall>i. (\<pi> i, \<pi> (Suc i)) \<in> game_edges g)"

definition follows :: "'v set \<Rightarrow> ('v \<Rightarrow> 'v) \<Rightarrow> (nat \<Rightarrow> 'v) \<Rightarrow> bool" where
  "follows S \<sigma> \<pi> \<longleftrightarrow> (\<forall>i. \<pi> i \<in> S \<longrightarrow> \<pi> (Suc i) = \<sigma> (\<pi> i))"

definition won_by :: "nat \<Rightarrow> (nat \<Rightarrow> nat) \<Rightarrow> bool" where
  "won_by p c \<longleftrightarrow> (\<exists>m. m mod 2 = p \<and> (\<forall>n. \<exists>i \<ge> n. c i = m) \<and> (\<exists>n. \<forall>i \<ge> n. m \<le> c i))"

definition wins :: "'v parity_game \<Rightarrow> nat \<Rightarrow> 'v \<Rightarrow> bool" where
  "wins g p x \<longleftrightarrow> (\<exists>\<sigma>. (\<forall>y \<in> v_player g p. (y, \<sigma> y) \<in> game_edges g) \<and>
     (\<forall>\<pi>. play g \<pi> \<and> follows (v_player g p) \<sigma> \<pi> \<and> \<pi> 0 = x \<longrightarrow> won_by p (\<lambda>i. prio g (\<pi> i))))"

text \<open>A region that a player never has to leave, with a strategy that wins every play in it.\<close>

definition dominion :: "'v parity_game \<Rightarrow> nat \<Rightarrow> ('v \<Rightarrow> 'v) \<Rightarrow> 'v set \<Rightarrow> bool" where
  "dominion g p \<sigma> W \<longleftrightarrow> W \<subseteq> spg_v g \<and> (\<forall>x \<in> W \<inter> v_player g p. (x, \<sigma> x) \<in> game_edges g \<and> \<sigma> x \<in> W)
     \<and> (\<forall>x \<in> W - v_player g p. \<forall>y. (x, y) \<in> game_edges g \<longrightarrow> y \<in> W)
     \<and> (\<forall>\<pi>. play g \<pi> \<and> follows (v_player g p) \<sigma> \<pi> \<and> \<pi> 0 \<in> W \<longrightarrow> won_by p (\<lambda>i. prio g (\<pi> i)))"

lemma dominionD:
  assumes "dominion g p \<sigma> W"
  shows "W \<subseteq> spg_v g" and "\<And>x. x \<in> W \<Longrightarrow> x \<in> v_player g p \<Longrightarrow> (x, \<sigma> x) \<in> game_edges g"
    and "\<And>x. x \<in> W \<Longrightarrow> x \<in> v_player g p \<Longrightarrow> \<sigma> x \<in> W"
    and "\<And>x y. x \<in> W \<Longrightarrow> x \<notin> v_player g p \<Longrightarrow> (x, y) \<in> game_edges g \<Longrightarrow> y \<in> W"
    and "\<And>\<pi>. play g \<pi> \<Longrightarrow> follows (v_player g p) \<sigma> \<pi> \<Longrightarrow> \<pi> 0 \<in> W \<Longrightarrow> won_by p (\<lambda>i. prio g (\<pi> i))"
  using assms by (simp_all add: dominion_def)

lemma play_edge: "play g \<pi> \<Longrightarrow> (\<pi> i, \<pi> (Suc i)) \<in> game_edges g"
  by (simp add: play_def)

lemma play_in: "play g \<pi> \<Longrightarrow> \<pi> i \<in> spg_v g"
  using play_edge edges_in by fast

lemma play_shift: "play g \<pi> \<Longrightarrow> play g (\<lambda>i. \<pi> (i + k))"
  by (simp add: play_def)

lemma follows_shift: "follows S \<sigma> \<pi> \<Longrightarrow> follows S \<sigma> (\<lambda>i. \<pi> (i + k))"
  by (simp add: follows_def)

lemma won_by_shift: "won_by p (\<lambda>i. c (i + k)) \<Longrightarrow> won_by p c"
proof -
  assume "won_by p (\<lambda>i. c (i + k))"
  then obtain m n where m: "m mod 2 = p" "\<forall>n. \<exists>i \<ge> n. c (i + k) = m" and n: "\<forall>i \<ge> n. m \<le> c (i + k)"
    by (auto simp: won_by_def)
  have "\<exists>i \<ge> j. c i = m" for j using m(2) by (meson le_add1 le_trans)
  moreover have "m \<le> c i" if "i \<ge> n + k" for i using n[rule_format, of "i - k"] that by simp
  ultimately show ?thesis using m(1) unfolding won_by_def by blast
qed

lemma won_by_eventually:
  assumes "\<And>i. i \<ge> k \<Longrightarrow> c i = m"
  shows "won_by (m mod 2) c"
proof -
  have "\<exists>i \<ge> n. c i = m" for n using assms[of "max n k"] by (meson max.cobounded1 max.cobounded2)
  moreover have "\<forall>i \<ge> k. m \<le> c i" using assms by simp
  ultimately show ?thesis unfolding won_by_def by blast
qed

lemma won_by_unique: "won_by p c \<Longrightarrow> won_by q c \<Longrightarrow> p = q"
proof -
  assume p: "won_by p c" and q: "won_by q c"
  from p obtain m k where m: "m mod 2 = p" "\<forall>j. \<exists>i \<ge> j. c i = m" "\<forall>i \<ge> k. m \<le> c i" unfolding won_by_def by blast
  from q obtain n l where n: "n mod 2 = q" "\<forall>j. \<exists>i \<ge> j. c i = n" "\<forall>i \<ge> l. n \<le> c i" unfolding won_by_def by blast
  have "m \<le> n" using m(3) n(2) by metis
  moreover have "n \<le> m" using n(3) m(2) by metis
  ultimately show ?thesis using m(1) n(1) by simp
qed

lemma dominion_stays:
  assumes "dominion g p \<sigma> W" and "play g \<pi>" and "follows (v_player g p) \<sigma> \<pi>" and "\<pi> k \<in> W"
  shows "\<pi> (i + k) \<in> W"
proof (induction i)
  case (Suc i)
  show ?case
  proof (cases "\<pi> (i + k) \<in> v_player g p")
    case True
    then show ?thesis using dominionD(3)[OF assms(1) Suc] assms(3) by (simp add: follows_def)
  next
    case False
    then show ?thesis using dominionD(4)[OF assms(1) Suc False] play_edge[OF assms(2)] by simp
  qed
qed (simp add: assms(4))

lemma dominion_empty: "dominion g p \<sigma> {}"
  by (simp add: dominion_def)

section \<open>Attractors and plays\<close>

lemma attractor_mono_step: "x \<notin> attractor g p U \<Longrightarrow> x \<in> v_player g p \<Longrightarrow> (x, y) \<in> game_edges g \<Longrightarrow> y \<notin> attractor g p U"
  using attractor.own by fast

lemma attractor_avoid: "x \<notin> attractor g p U \<Longrightarrow> x \<in> v_player g (1 - p) \<Longrightarrow> (x, y) \<in> game_edges g \<Longrightarrow>
    \<exists>z. (x, z) \<in> game_edges g \<and> z \<notin> attractor g p U"
  using attractor.forced by fast

text \<open>Removing an attractor leaves every other vertex an edge.\<close>

lemma subgame_total:
  assumes "wf_game g" and "p < 2" and "total_game g" and "subgame g (attractor g p U) h"
  shows "total_game h"
  unfolding total_game_def
proof
  fix x assume "x \<in> spg_v h"
  then have x: "x \<in> spg_v g" "x \<notin> attractor g p U" using subgameD(2)[OF assms(4)] by auto
  obtain y where y: "(x, y) \<in> game_edges g" using assms(3) x by (auto simp: total_game_def)
  obtain z where "(x, z) \<in> game_edges g" "z \<notin> attractor g p U"
    using attractor_mono_step[OF x(2) _ y] attractor_avoid[OF x(2) _ y] other_player[OF assms(1,2) x(1)] y by blast
  then show "\<exists>y. (x, y) \<in> game_edges h" using subgame_edges[OF assms(4)] x by auto
qed

text \<open>
  The levels of an attractor: the player can always move down one level, the opponent has to. So a play
  that enters the attractor visits its target.
\<close>

fun attr_level :: "'v parity_game \<Rightarrow> nat \<Rightarrow> 'v set \<Rightarrow> nat \<Rightarrow> 'v set" where
  "attr_level g p U 0 = U"
| "attr_level g p U (Suc n) = attr_level g p U n \<union> pulled g p (attr_level g p U n)"

lemma attr_level_le: "n \<le> m \<Longrightarrow> attr_level g p U n \<subseteq> attr_level g p U m"
  by (induction m) (auto simp: le_Suc_eq)

lemma pulled_edge: "x \<in> pulled g p S \<Longrightarrow> \<exists>y \<in> S. (x, y) \<in> game_edges g"
  by (auto simp: pulled_def)

lemma pulled_forced: "x \<in> pulled g p S \<Longrightarrow> x \<notin> v_player g p \<Longrightarrow> (x, y) \<in> game_edges g \<Longrightarrow> y \<in> S"
  by (auto simp: pulled_def)

lemma attr_level_sub: "attr_level g p U n \<subseteq> attractor g p U"
  by (induction n) (auto intro: attractor.base dest: pulled_attractor[THEN subsetD])

lemma attractor_levels:
  assumes "finite (spg_v g)" and "x \<in> attractor g p U"
  shows "\<exists>n. x \<in> attr_level g p U n"
  using assms(2)
proof (induction rule: attractor.induct)
  case (base x)
  then show ?case by (intro exI[of _ 0]) simp
next
  case (own x y)
  then obtain n where "y \<in> attr_level g p U n" by blast
  then have "x \<in> attr_level g p U (Suc n)" using own by (auto simp: pulled_def)
  then show ?case ..
next
  case (forced x y)
  define S where "S = {y. (x, y) \<in> game_edges g}"
  have "finite S" by (rule finite_subset[OF _ assms(1)]) (auto simp: S_def dest: edges_in)
  moreover have "\<forall>y \<in> S. \<exists>n. y \<in> attr_level g p U n" using forced by (auto simp: S_def)
  ultimately have "\<exists>m. S \<subseteq> attr_level g p U m"
  proof (induction S rule: finite_induct)
    case (insert y S)
    then obtain n m where "y \<in> attr_level g p U n" "S \<subseteq> attr_level g p U m" by auto
    then have "insert y S \<subseteq> attr_level g p U (max n m)"
      using attr_level_le[of n "max n m"] attr_level_le[of m "max n m"] by fastforce
    then show ?case ..
  qed simp
  then obtain m where "S \<subseteq> attr_level g p U m" ..
  then have "x \<in> attr_level g p U (Suc m)" using forced(1,2) by (auto simp: pulled_def S_def)
  then show ?case ..
qed

text \<open>A strategy that forces a visit.\<close>

definition forces :: "'v parity_game \<Rightarrow> nat \<Rightarrow> 'v set \<Rightarrow> ('v \<Rightarrow> 'v) \<Rightarrow> bool" where
  "forces g p U \<tau> \<longleftrightarrow> (\<forall>x \<in> (attractor g p U - U) \<inter> v_player g p. (x, \<tau> x) \<in> game_edges g \<and> \<tau> x \<in> attractor g p U)
     \<and> (\<forall>\<pi>. play g \<pi> \<and> follows ((attractor g p U - U) \<inter> v_player g p) \<tau> \<pi> \<and> \<pi> 0 \<in> attractor g p U \<longrightarrow> (\<exists>i. \<pi> i \<in> U))"

lemma forces_visit:
  assumes "forces g p U \<tau>" and "play g \<pi>" and "follows ((attractor g p U - U) \<inter> v_player g p) \<tau> \<pi>" and "\<pi> k \<in> attractor g p U"
  shows "\<exists>i \<ge> k. \<pi> i \<in> U"
proof -
  have "\<exists>i. \<pi> (i + k) \<in> U"
    using assms(1) play_shift[OF assms(2), of k] follows_shift[OF assms(3), of k] assms(4)
    unfolding forces_def by (metis (no_types, lifting) add_0)
  then show ?thesis by (metis le_add2)
qed

lemma attractor_forces:
  assumes "finite (spg_v g)"
  shows "\<exists>\<tau>. forces g p U \<tau>"
proof -
  define rank where "rank x = (LEAST n. x \<in> attr_level g p U n)" for x
  define \<tau> where "\<tau> x = (SOME y. (x, y) \<in> game_edges g \<and> y \<in> attractor g p U \<and> rank y < rank x)" for x
  let ?A = "attractor g p U"
  have at: "x \<in> attr_level g p U (rank x)" if "x \<in> ?A" for x
    using attractor_levels[OF assms that] unfolding rank_def by (rule LeastI_ex)
  have le: "rank x \<le> n" if "x \<in> attr_level g p U n" for x n
    unfolding rank_def using that by (rule Least_le)
  have down: "x \<in> pulled g p (attr_level g p U n)" "rank x = Suc n" if x: "x \<in> ?A - U" and n: "n = rank x - 1" for x n
  proof -
    have "rank x \<noteq> 0" using at[of x] x by (metis DiffE attr_level.simps(1))
    then show r: "rank x = Suc n" using n by simp
    have "x \<notin> attr_level g p U n" using le[of x n] r by auto
    then show "x \<in> pulled g p (attr_level g p U n)" using at[of x] x unfolding r by auto
  qed
  have own: "(x, \<tau> x) \<in> game_edges g \<and> \<tau> x \<in> ?A \<and> rank (\<tau> x) < rank x" if x: "x \<in> ?A - U" "x \<in> v_player g p" for x
  proof -
    obtain y where y: "(x, y) \<in> game_edges g" "y \<in> attr_level g p U (rank x - 1)"
      using pulled_edge[OF down(1)[OF x(1) refl]] by (elim bexE)
    then have "rank y < rank x" using le[OF y(2)] down(2)[OF x(1) refl] by simp
    moreover have "y \<in> ?A" using y(2) attr_level_sub by fast
    ultimately have "\<exists>y. (x, y) \<in> game_edges g \<and> y \<in> ?A \<and> rank y < rank x" using y(1) by blast
    then show ?thesis unfolding \<tau>_def by (rule someI_ex)
  qed
  have step: "\<pi> (Suc i) \<in> ?A \<and> rank (\<pi> (Suc i)) < rank (\<pi> i)"
    if \<pi>: "play g \<pi>" "follows ((?A - U) \<inter> v_player g p) \<tau> \<pi>" and x: "\<pi> i \<in> ?A - U" for \<pi> i
  proof (cases "\<pi> i \<in> v_player g p")
    case True
    then show ?thesis using own[OF x True] \<pi>(2) x by (simp add: follows_def)
  next
    case False
    then have "\<pi> (Suc i) \<in> attr_level g p U (rank (\<pi> i) - 1)"
      using pulled_forced[OF down(1)[OF x refl]] play_edge[OF \<pi>(1), of i] by blast
    then show ?thesis using le[of "\<pi> (Suc i)"] down(2)[OF x refl] attr_level_sub by fastforce
  qed
  have "\<exists>i. \<pi> i \<in> U" if \<pi>: "play g \<pi>" "follows ((?A - U) \<inter> v_player g p) \<tau> \<pi>" "\<pi> 0 \<in> ?A" for \<pi>
  proof (rule ccontr)
    assume no: "\<nexists>i. \<pi> i \<in> U"
    have "\<pi> i \<in> ?A \<and> rank (\<pi> i) + i \<le> rank (\<pi> 0)" for i
    proof (induction i)
      case (Suc i)
      then show ?case using step[OF \<pi>(1,2), of i] no by fastforce
    qed (use \<pi>(3) in simp)
    then show False using not_less_eq_eq[of "Suc (rank (\<pi> 0))" "rank (\<pi> 0)"] by (metis add_leE Suc_n_not_le_n)
  qed
  then show ?thesis unfolding forces_def using own by (intro exI[of _ \<tau>]) blast
qed

section \<open>Putting regions together\<close>

text \<open>It is enough that a play follows the strategy of a dominion from some point on, inside the dominion.\<close>

lemma dominion_won_from:
  assumes "dominion g p \<sigma> W" and "play g \<pi>" and "follows (W \<inter> v_player g p) \<sigma> \<pi>" and "\<pi> k \<in> W"
  shows "won_by p (\<lambda>i. prio g (\<pi> i))"
proof -
  have stay: "\<pi> (i + k) \<in> W" for i
  proof (induction i)
    case (Suc i)
    then show ?case
      using dominionD(3)[OF assms(1) Suc] dominionD(4)[OF assms(1) Suc] play_edge[OF assms(2), of "i + k"] assms(3)
      by (cases "\<pi> (i + k) \<in> v_player g p") (simp_all add: follows_def)
  qed (simp add: assms(4))
  have "follows (v_player g p) \<sigma> (\<lambda>i. \<pi> (i + k))"
    using assms(3) stay by (simp add: follows_def)
  then have "won_by p (\<lambda>i. prio g (\<pi> (i + k)))"
    using dominionD(5)[OF assms(1) play_shift[OF assms(2)]] assms(4) by simp
  then show ?thesis by (rule won_by_shift)
qed

lemma play_sub:
  assumes "subgame g a h" and "play g \<pi>" and "\<And>i. \<pi> i \<notin> a"
  shows "play h \<pi>" and "(\<lambda>i. prio h (\<pi> i)) = (\<lambda>i. prio g (\<pi> i))"
proof -
  show "play h \<pi>" using assms subgame_edges[OF assms(1)] by (auto simp: play_def)
  then show "(\<lambda>i. prio h (\<pi> i)) = (\<lambda>i. prio g (\<pi> i))" using play_in subgameD(5)[OF assms(1)] by fast
qed

text \<open>The opponent's dominions outside an attractor stay dominions in the whole game.\<close>

lemma dominion_lift:
  assumes "wf_game g" and "p < 2" and sub: "subgame g (attractor g p U) h" and dom: "dominion h (1 - p) \<sigma> W"
  shows "dominion g (1 - p) \<sigma> W"
proof -
  let ?A = "attractor g p U"
  have q: "1 - p < 2" by simp
  note d = dominionD[OF dom]
  have W: "W \<subseteq> spg_v g" "W \<inter> ?A = {}" using d(1) subgameD(2)[OF sub] by auto
  have own: "x \<in> v_player h (1 - p)" if "x \<in> W" "x \<in> v_player g (1 - p)" for x
    using that W(2) subgameD(4)[OF sub q] by auto
  have oth: "y \<in> W" if x: "x \<in> W" "x \<notin> v_player g (1 - p)" "(x, y) \<in> game_edges g" for x y
  proof -
    have "x \<in> v_player g p" using other_player[OF assms(1,2), of x] x W(1) by auto
    then have "y \<notin> ?A" using attractor_mono_step[of x g p U y] x W(2) by blast
    then have "(x, y) \<in> game_edges h" using subgame_edges[OF sub] x W(2) by auto
    then show ?thesis using d(4)[OF x(1)] x subgameD(4)[OF sub q] by auto
  qed
  show ?thesis
    unfolding dominion_def
  proof (intro conjI ballI allI impI)
    show "W \<subseteq> spg_v g" by (rule W(1))
    show "(x, \<sigma> x) \<in> game_edges g" "\<sigma> x \<in> W" if "x \<in> W \<inter> v_player g (1 - p)" for x
      using d(2,3)[OF _ own] that subgame_edges[OF sub] by auto
    show "y \<in> W" if "x \<in> W - v_player g (1 - p)" "(x, y) \<in> game_edges g" for x y
      using oth that by blast
    fix \<pi> assume \<pi>: "play g \<pi> \<and> follows (v_player g (1 - p)) \<sigma> \<pi> \<and> \<pi> 0 \<in> W"
    have stay: "\<pi> i \<in> W" for i
    proof (induction i)
      case (Suc i)
      then show ?case using oth[OF Suc] d(3)[OF Suc own[OF Suc]] \<pi> play_edge[of g \<pi> i]
        by (cases "\<pi> i \<in> v_player g (1 - p)") (auto simp: follows_def)
    qed (use \<pi> in simp)
    then have out: "\<pi> i \<notin> ?A" for i using W(2) by blast
    have "follows (v_player h (1 - p)) \<sigma> \<pi>" using \<pi> subgameD(4)[OF sub q] by (auto simp: follows_def)
    then have "won_by (1 - p) (\<lambda>i. prio h (\<pi> i))"
      using d(5)[OF play_sub(1)[OF sub, of \<pi>, OF _ out]] \<pi> by blast
    then show "won_by (1 - p) (\<lambda>i. prio g (\<pi> i))" using play_sub(2)[OF sub, of \<pi>, OF _ out] \<pi> by simp
  qed
qed

lemma attractor_closed:
  assumes "wf_game g" and "p < 2" and "x \<in> attractor g p U - U" and "x \<notin> v_player g p" and "(x, y) \<in> game_edges g"
  shows "y \<in> attractor g p U"
  using assms(3-5) by (auto elim: attractor.cases)

lemma dominion_attractor:
  assumes "wf_game g" and "p < 2" and dom: "dominion g p \<sigma> W"
  shows "\<exists>\<sigma>'. dominion g p \<sigma>' (attractor g p W)"
proof -
  let ?A = "attractor g p W"
  note d = dominionD[OF dom]
  obtain \<tau> where \<tau>: "forces g p W \<tau>" using attractor_forces wf_gameD(1)[OF assms(1)] by blast
  define \<rho> where "\<rho> x = (if x \<in> W then \<sigma> x else \<tau> x)" for x
  have base: "W \<subseteq> ?A" by (auto intro: attractor.base)
  have "dominion g p \<rho> ?A"
    unfolding dominion_def
  proof (intro conjI ballI allI impI)
    show "?A \<subseteq> spg_v g" using attractor_in[OF assms(1,2) d(1)] .
    show "(x, \<rho> x) \<in> game_edges g" "\<rho> x \<in> ?A" if "x \<in> ?A \<inter> v_player g p" for x
      using that d(2,3)[of x] \<tau> base by (auto simp: \<rho>_def forces_def)
    show "y \<in> ?A" if "x \<in> ?A - v_player g p" "(x, y) \<in> game_edges g" for x y
      using that attractor_closed[OF assms(1,2), of x W y] d(4)[of x y] base by blast
    fix \<pi> assume \<pi>: "play g \<pi> \<and> follows (v_player g p) \<rho> \<pi> \<and> \<pi> 0 \<in> ?A"
    then have "follows ((?A - W) \<inter> v_player g p) \<tau> \<pi>" "follows (W \<inter> v_player g p) \<sigma> \<pi>"
      by (auto simp: follows_def \<rho>_def)
    then show "won_by p (\<lambda>i. prio g (\<pi> i))"
      using forces_visit[OF \<tau>, of \<pi> 0] dominion_won_from[OF dom, of \<pi>] \<pi> by blast
  qed
  then show ?thesis by blast
qed

lemma dominion_union:
  assumes "p < 2" and dom: "dominion g p \<sigma> B" and sub: "subgame g B h" and dom': "dominion h p \<sigma>' Y"
  shows "\<exists>\<rho>. dominion g p \<rho> (B \<union> Y)"
proof -
  note d = dominionD[OF dom] and d' = dominionD[OF dom']
  define \<rho> where "\<rho> x = (if x \<in> B then \<sigma> x else \<sigma>' x)" for x
  have Y: "Y \<subseteq> spg_v g - B" using d'(1) subgameD(2)[OF sub] by auto
  have own: "x \<in> v_player h p \<longleftrightarrow> x \<in> v_player g p" if "x \<in> Y" for x
    using subgameD(4)[OF sub assms(1)] that Y by auto
  have oth: "y \<in> B \<union> Y" if x: "x \<in> Y" "x \<notin> v_player g p" "(x, y) \<in> game_edges g" for x y
  proof (cases "y \<in> B")
    case False
    then have "(x, y) \<in> game_edges h" using x Y subgame_edges[OF sub] by auto
    then show ?thesis using d'(4)[OF x(1)] own[OF x(1)] x(2) by blast
  qed simp
  have mine: "(x, \<rho> x) \<in> game_edges g \<and> \<rho> x \<in> B \<union> Y \<and> (x \<in> Y \<longrightarrow> \<rho> x \<in> Y)" if "x \<in> B \<union> Y" "x \<in> v_player g p" for x
  proof (cases "x \<in> B")
    case False
    then have "x \<in> Y" using that by blast
    then show ?thesis using d'(2,3)[of x] own[of x] that(2) subgame_edges[OF sub] False by (simp add: \<rho>_def)
  qed (use d(2,3)[of x] that Y in \<open>auto simp: \<rho>_def\<close>)
  have "dominion g p \<rho> (B \<union> Y)"
    unfolding dominion_def
  proof (intro conjI ballI allI impI)
    show "B \<union> Y \<subseteq> spg_v g" using d(1) Y by blast
    show "(x, \<rho> x) \<in> game_edges g" "\<rho> x \<in> B \<union> Y" if "x \<in> (B \<union> Y) \<inter> v_player g p" for x
      using mine that by blast+
    show "y \<in> B \<union> Y" if "x \<in> B \<union> Y - v_player g p" "(x, y) \<in> game_edges g" for x y
      using d(4)[of x y] oth[of x y] that by blast
    fix \<pi> assume \<pi>: "play g \<pi> \<and> follows (v_player g p) \<rho> \<pi> \<and> \<pi> 0 \<in> B \<union> Y"
    show "won_by p (\<lambda>i. prio g (\<pi> i))"
    proof (cases "\<exists>k. \<pi> k \<in> B")
      case True
      moreover have "follows (B \<inter> v_player g p) \<sigma> \<pi>" using \<pi> by (auto simp: follows_def \<rho>_def)
      ultimately show ?thesis using dominion_won_from[OF dom] \<pi> by blast
    next
      case False
      then have out: "\<pi> i \<notin> B" for i by blast
      have "follows (v_player h p) \<sigma>' \<pi>"
        using \<pi> out subgameD(4)[OF sub assms(1)] by (auto simp: follows_def \<rho>_def)
      moreover have "\<pi> 0 \<in> Y" using \<pi> out by blast
      ultimately have "won_by p (\<lambda>i. prio h (\<pi> i))"
        using d'(5)[OF play_sub(1)[OF sub, of \<pi>, OF _ out]] \<pi> by blast
      then show ?thesis using play_sub(2)[OF sub, of \<pi>, OF _ out] \<pi> by simp
    qed
  qed
  then show ?thesis by blast
qed

text \<open>
  If the player of the least priority wins everything outside the attractor of that priority, the player
  wins the whole game.
\<close>

lemma dominion_all:
  assumes "wf_game g" and "p < 2" and "total_game g" and U: "U \<subseteq> spg_v g"
    and least: "\<And>x. x \<in> spg_v g \<Longrightarrow> m \<le> prio g x" and at: "\<And>x. x \<in> U \<Longrightarrow> prio g x = m" and m: "m mod 2 = p"
    and sub: "subgame g (attractor g p U) h" and dom: "dominion h p \<sigma> (spg_v h)"
  shows "\<exists>\<rho>. dominion g p \<rho> (spg_v g)"
proof -
  let ?A = "attractor g p U"
  note d = dominionD[OF dom]
  obtain \<tau> where \<tau>: "forces g p U \<tau>" using attractor_forces wf_gameD(1)[OF assms(1)] by blast
  define \<rho> where "\<rho> x = (if x \<notin> ?A then \<sigma> x else if x \<in> U then SOME y. (x, y) \<in> game_edges g else \<tau> x)" for x
  have edge: "(x, \<rho> x) \<in> game_edges g" if x: "x \<in> spg_v g" "x \<in> v_player g p" for x
  proof (cases "x \<in> ?A")
    case True
    then show ?thesis
    proof (cases "x \<in> U")
      case True
      have "\<exists>y. (x, y) \<in> game_edges g" using assms(3) x(1) by (auto simp: total_game_def)
      then show ?thesis using True \<open>x \<in> ?A\<close> by (simp add: \<rho>_def) (erule someI_ex)
    qed (use True \<tau> x in \<open>auto simp: \<rho>_def forces_def\<close>)
  next
    case False
    then have "x \<in> spg_v h" "x \<in> v_player h p" using x subgameD(2,4)[OF sub] assms(2) by auto
    then show ?thesis using d(2) subgame_edges[OF sub] False by (auto simp: \<rho>_def)
  qed
  have "dominion g p \<rho> (spg_v g)"
    unfolding dominion_def
  proof (intro conjI ballI allI impI)
    show "(x, \<rho> x) \<in> game_edges g" "\<rho> x \<in> spg_v g" if "x \<in> spg_v g \<inter> v_player g p" for x
      using edge[of x] that by (auto dest: edges_in)
    show "y \<in> spg_v g" if "(x, y) \<in> game_edges g" for x y using edges_in that by fast
    fix \<pi> assume \<pi>: "play g \<pi> \<and> follows (v_player g p) \<rho> \<pi> \<and> \<pi> 0 \<in> spg_v g"
    show "won_by p (\<lambda>i. prio g (\<pi> i))"
    proof (cases "\<forall>n. \<exists>k \<ge> n. \<pi> k \<in> ?A")
      case True
      have "follows ((?A - U) \<inter> v_player g p) \<tau> \<pi>" using \<pi> by (auto simp: follows_def \<rho>_def)
      then have "\<exists>i \<ge> n. \<pi> i \<in> U" for n using True forces_visit[OF \<tau>] \<pi> by (meson le_trans)
      then have "\<exists>i \<ge> n. prio g (\<pi> i) = m" for n using at by blast
      moreover have "m \<le> prio g (\<pi> i)" for i using least play_in \<pi> by blast
      ultimately show ?thesis using m unfolding won_by_def by blast
    next
      case False
      then obtain n where n: "\<And>k. k \<ge> n \<Longrightarrow> \<pi> k \<notin> ?A" by blast
      let ?s = "\<lambda>i. \<pi> (i + n)"
      have out: "?s i \<notin> ?A" for i using n by simp
      have ps: "play g ?s" using \<pi> play_shift by blast
      have "follows (v_player h p) \<sigma> ?s"
        using \<pi> out subgameD(4)[OF sub assms(2)] by (auto simp: follows_def \<rho>_def)
      moreover have "?s 0 \<in> spg_v h" using play_in[OF play_sub(1)[OF sub ps out]] by blast
      ultimately have "won_by p (\<lambda>i. prio h (?s i))" using d(5)[OF play_sub(1)[OF sub ps out]] by blast
      then show ?thesis using play_sub(2)[OF sub ps out] won_by_shift[of p "\<lambda>i. prio g (\<pi> i)" n] by simp
    qed
  qed simp
  then show ?thesis by blast
qed

section \<open>Dominions decide who wins\<close>

lemma dominion_wins:
  assumes "p < 2" and "wf_game g" and "total_game g" and dom: "dominion g p \<sigma> W" and "x \<in> W"
  shows "wins g p x"
proof -
  define \<rho> where "\<rho> y = (if y \<in> W then \<sigma> y else SOME z. (y, z) \<in> game_edges g)" for y
  have "(y, \<rho> y) \<in> game_edges g" if "y \<in> v_player g p" for y
  proof (cases "y \<in> W")
    case False
    have "\<exists>z. (y, z) \<in> game_edges g"
      using assms(3) that player_sub[OF assms(2,1)] unfolding total_game_def by blast
    then show ?thesis using False by (simp add: \<rho>_def) (erule someI_ex)
  qed (use dominionD(2)[OF dom] that in \<open>simp add: \<rho>_def\<close>)
  moreover have "won_by p (\<lambda>i. prio g (\<pi> i))" if "play g \<pi>" "follows (v_player g p) \<rho> \<pi>" "\<pi> 0 = x" for \<pi>
    by (rule dominion_won_from[OF dom that(1), of 0]) (use that assms(5) in \<open>auto simp: follows_def \<rho>_def\<close>)
  ultimately show ?thesis unfolding wins_def by blast
qed

text \<open>No vertex is won by both players: their strategies together determine a play.\<close>

lemma wins_exclusive:
  assumes "wf_game g" and "x \<in> spg_v g" and "wins g 0 x" and "wins g 1 x"
  shows False
proof -
  obtain \<sigma> where \<sigma>: "\<forall>y \<in> v_player g 0. (y, \<sigma> y) \<in> game_edges g"
      "\<forall>\<pi>. play g \<pi> \<and> follows (v_player g 0) \<sigma> \<pi> \<and> \<pi> 0 = x \<longrightarrow> won_by 0 (\<lambda>i. prio g (\<pi> i))"
    using assms(3) unfolding wins_def by blast
  obtain \<tau> where \<tau>: "\<forall>y \<in> v_player g 1. (y, \<tau> y) \<in> game_edges g"
      "\<forall>\<pi>. play g \<pi> \<and> follows (v_player g 1) \<tau> \<pi> \<and> \<pi> 0 = x \<longrightarrow> won_by 1 (\<lambda>i. prio g (\<pi> i))"
    using assms(4) unfolding wins_def by blast
  define move where "move y = (if y \<in> v_player g 0 then \<sigma> y else \<tau> y)" for y
  define \<pi> where "\<pi> i = (move ^^ i) x" for i
  have step: "(y, move y) \<in> game_edges g" if "y \<in> spg_v g" for y
    using that \<sigma>(1) \<tau>(1) other_player[OF assms(1), of 0 y] by (auto simp: move_def)
  have V: "\<pi> i \<in> spg_v g" for i
    by (induction i) (use assms(2) edges_in[OF step] in \<open>auto simp: \<pi>_def\<close>)
  have suc: "\<pi> (Suc i) = move (\<pi> i)" for i by (simp add: \<pi>_def)
  have pl: "play g \<pi>" unfolding play_def suc using step V by blast
  have disj: "y \<notin> v_player g 0" if "y \<in> v_player g 1" for y using wf_gameD(3)[OF assms(1)] that by blast
  have "follows (v_player g 0) \<sigma> \<pi>" "follows (v_player g 1) \<tau> \<pi>"
    unfolding follows_def suc using disj by (simp_all add: move_def)
  moreover have "\<pi> 0 = x" by (simp add: \<pi>_def)
  ultimately have "won_by 0 (\<lambda>i. prio g (\<pi> i))" "won_by 1 (\<lambda>i. prio g (\<pi> i))" using pl \<sigma>(2) \<tau>(2) by blast+
  then show False using won_by_unique by fastforce
qed

text \<open>Strategies on the whole game that reach or avoid a set.\<close>

lemma total_choice:
  assumes "wf_game g" and "p < 2" and "total_game g"
    and S: "\<And>x. x \<in> S \<Longrightarrow> x \<in> v_player g p \<Longrightarrow> (x, \<tau> x) \<in> game_edges g"
  shows "\<exists>\<rho>. (\<forall>x \<in> v_player g p. (x, \<rho> x) \<in> game_edges g) \<and> (\<forall>x \<in> S. \<rho> x = \<tau> x)"
proof -
  define \<rho> where "\<rho> x = (if x \<in> S then \<tau> x else SOME y. (x, y) \<in> game_edges g)" for x
  have "(x, \<rho> x) \<in> game_edges g" if x: "x \<in> v_player g p" for x
  proof (cases "x \<in> S")
    case False
    have "\<exists>y. (x, y) \<in> game_edges g" using assms(3) x player_sub[OF assms(1,2)] unfolding total_game_def by blast
    then show ?thesis using False by (simp add: \<rho>_def) (erule someI_ex)
  qed (use S x in \<open>simp add: \<rho>_def\<close>)
  moreover have "\<forall>x \<in> S. \<rho> x = \<tau> x" by (simp add: \<rho>_def)
  ultimately show ?thesis by blast
qed

lemma attractor_strategy:
  assumes "wf_game g" and "p < 2" and "total_game g"
  shows "\<exists>\<rho>. (\<forall>x \<in> v_player g p. (x, \<rho> x) \<in> game_edges g) \<and>
    (\<forall>\<pi>. play g \<pi> \<and> follows (v_player g p) \<rho> \<pi> \<and> \<pi> 0 \<in> attractor g p U \<longrightarrow> (\<exists>i. \<pi> i \<in> U))"
proof -
  let ?S = "(attractor g p U - U) \<inter> v_player g p"
  obtain \<tau> where \<tau>: "forces g p U \<tau>" using attractor_forces wf_gameD(1)[OF assms(1)] by blast
  obtain \<rho> where \<rho>: "\<forall>x \<in> v_player g p. (x, \<rho> x) \<in> game_edges g" "\<forall>x \<in> ?S. \<rho> x = \<tau> x"
    using total_choice[OF assms, of ?S \<tau>] \<tau> unfolding forces_def by blast
  have "\<exists>i. \<pi> i \<in> U" if \<pi>: "play g \<pi>" "follows (v_player g p) \<rho> \<pi>" "\<pi> 0 \<in> attractor g p U" for \<pi>
  proof -
    have "follows ?S \<tau> \<pi>" using \<pi>(2) \<rho>(2) unfolding follows_def by auto
    then show ?thesis using forces_visit[OF \<tau> \<pi>(1) _ \<pi>(3)] by blast
  qed
  then show ?thesis using \<rho>(1) by blast
qed

lemma avoid_strategy:
  assumes "wf_game g" and "p < 2" and "total_game g"
  shows "\<exists>\<rho>. (\<forall>x \<in> v_player g (1 - p). (x, \<rho> x) \<in> game_edges g) \<and>
    (\<forall>\<pi>. play g \<pi> \<and> follows (v_player g (1 - p)) \<rho> \<pi> \<and> \<pi> 0 \<notin> attractor g p U \<longrightarrow> (\<forall>i. \<pi> i \<notin> U))"
proof -
  let ?A = "attractor g p U" and ?q = "1 - p"
  have q: "?q < 2" by simp
  define \<tau> where "\<tau> x = (SOME z. (x, z) \<in> game_edges g \<and> z \<notin> ?A)" for x
  have \<tau>: "(x, \<tau> x) \<in> game_edges g \<and> \<tau> x \<notin> ?A" if x: "x \<notin> ?A" "x \<in> v_player g ?q" for x
  proof -
    obtain y where "(x, y) \<in> game_edges g" using assms(3) x(2) player_sub[OF assms(1) q] unfolding total_game_def by blast
    then have "\<exists>z. (x, z) \<in> game_edges g \<and> z \<notin> ?A" by (rule attractor_avoid[OF x])
    then show ?thesis unfolding \<tau>_def by (rule someI_ex)
  qed
  obtain \<rho> where \<rho>: "\<forall>x \<in> v_player g ?q. (x, \<rho> x) \<in> game_edges g" "\<forall>x \<in> - ?A \<inter> v_player g ?q. \<rho> x = \<tau> x"
    using total_choice[OF assms(1) q assms(3), of "- ?A \<inter> v_player g ?q" \<tau>] \<tau> by blast
  have "\<pi> i \<notin> U" if \<pi>: "play g \<pi>" "follows (v_player g ?q) \<rho> \<pi>" "\<pi> 0 \<notin> ?A" for \<pi> i
  proof -
    have "\<pi> i \<notin> ?A"
    proof (induction i)
      case (Suc i)
      show ?case
      proof (cases "\<pi> i \<in> v_player g ?q")
        case True
        then have "\<pi> (Suc i) = \<tau> (\<pi> i)" using \<pi>(2) \<rho>(2) Suc by (simp add: follows_def)
        then show ?thesis using \<tau>[OF Suc True] by simp
      next
        case False
        then have "\<pi> i \<in> v_player g p" using other_player[OF assms(1,2) play_in[OF \<pi>(1), of i]] by blast
        then show ?thesis using attractor_mono_step[OF Suc] play_edge[OF \<pi>(1)] by blast
      qed
    qed (rule \<pi>(3))
    then show ?thesis using attractor.base by fast
  qed
  then show ?thesis using \<rho>(1) by blast
qed

end
