(* ===== verification/Spg_Par.thy ===== *)
theory Spg_Par
  imports Spg_Attr
begin

text \<open>
  The parallel attractors of \<^verbatim>\<open>src/src/spg-lib/spg-attr.c\<close>. A balanced tree over the transition groups
  holds one container per node; the leaves compute the image of their group and the inner nodes unite
  the containers of their children. Sibling tasks write to disjoint containers and only read what they
  share, so the tasks between a spawn and its synchronisation are run one after the other here. In the
  second variant every leaf has a tree of its own for the images over all groups; its set \<^verbatim>\<open>b\<close>, which the
  step destroys after its only use, is local to the step.
\<close>

section \<open>Trees of tasks\<close>

datatype 'v reach_par = Par_Leaf nat "'v set" | Par_Node "'v reach_par" "'v reach_par" "'v set"

fun par_container :: "'v reach_par \<Rightarrow> 'v set" where
  "par_container (Par_Leaf i c) = c"
| "par_container (Par_Node l r c) = c"

fun par_clear :: "'v reach_par \<Rightarrow> 'v reach_par" where
  "par_clear (Par_Leaf i c) = Par_Leaf i {}"
| "par_clear (Par_Node l r c) = Par_Node l r {}"

partial_function (option) attr_par_prepare :: "nat \<Rightarrow> nat \<Rightarrow> 'v reach_par option" where
  "attr_par_prepare left right = (if right = left + 1 then Some (Par_Leaf left {})
    else Option.bind (attr_par_prepare left ((left + right) div 2)) (\<lambda>l.
         Option.bind (attr_par_prepare ((left + right) div 2) right) (\<lambda>r. Some (Par_Node l r {}))))"

declare attr_par_prepare.simps [code]

fun attr_par_prev :: "'v set \<Rightarrow> 'v reach_par \<Rightarrow> 'v parity_game \<Rightarrow> 'v reach_par" where
  "attr_par_prev states (Par_Leaf i c) g = Par_Leaf i (vset_prev states (spg_e g ! i) (spg_v g))"
| "attr_par_prev states (Par_Node l r c) g = (let l = attr_par_prev states l g; r = attr_par_prev states r g
     in Par_Node (par_clear l) (par_clear r) (par_container l \<union> par_container r))"

fun attr_par_next :: "'v set \<Rightarrow> 'v reach_par \<Rightarrow> 'v parity_game \<Rightarrow> 'v reach_par" where
  "attr_par_next states (Par_Leaf i c) g = Par_Leaf i (vset_next states (spg_e g ! i) \<inter> spg_v g)"
| "attr_par_next states (Par_Node l r c) g = (let l = attr_par_next states l g; r = attr_par_next states r g
     in Par_Node (par_clear l) (par_clear r) (par_container l \<union> par_container r))"

partial_function (option) attractor_par_loop :: "nat \<Rightarrow> 'v parity_game \<Rightarrow> spg_attr_options \<Rightarrow> 'v recursive_result \<Rightarrow>
    'v reach_par \<Rightarrow> 'v set \<Rightarrow> 'v set \<Rightarrow> ('v recursive_result \<times> 'v set) result option" where
  "attractor_par_loop player g options r root u v_level = (if v_level = {} then ret (r, u)
    else rbind (Some (record_level options player v_level r)) (\<lambda>r.
      let root = attr_par_prev v_level root g; prev_attr = par_container root; root = par_clear root;
          v_level = prev_attr \<inter> v_player g player;
          root = attr_par_next prev_attr root g; b = par_container root; root = par_clear root;
          b = b - u;
          root = attr_par_prev b root g; prev_b = par_container root; root = par_clear root;
          attr_other_player = (prev_attr - prev_b) \<inter> v_player g (1 - player);
          v_level = v_level \<union> attr_other_player;
          (u, v_level) = vset_zip u v_level
      in attractor_par_loop player g options r root u v_level))"

declare attractor_par_loop.simps [code]

definition spg_attractor_par :: "nat \<Rightarrow> 'v parity_game \<Rightarrow> spg_attr_options \<Rightarrow> 'v recursive_result \<Rightarrow> 'v set \<Rightarrow> ('v recursive_result \<times> 'v set) result option" where
  "spg_attractor_par player g options r u = Option.bind (attr_par_prepare 0 (length (spg_e g)))
     (\<lambda>root. attractor_par_loop player g options r root u u)"

section \<open>Trees that combine both directions\<close>

datatype 'v reach_par2 = Par2_Leaf nat "'v set" "'v set" "'v reach_par" | Par2_Node "'v reach_par2" "'v reach_par2" "'v set" "'v set"

fun par2_container :: "'v reach_par2 \<Rightarrow> 'v set" where
  "par2_container (Par2_Leaf i c pb t) = c"
| "par2_container (Par2_Node l r c pb) = c"

fun par2_prev_b :: "'v reach_par2 \<Rightarrow> 'v set" where
  "par2_prev_b (Par2_Leaf i c pb t) = pb"
| "par2_prev_b (Par2_Node l r c pb) = pb"

fun par2_clear :: "'v reach_par2 \<Rightarrow> 'v reach_par2" where
  "par2_clear (Par2_Leaf i c pb t) = Par2_Leaf i {} {} t"
| "par2_clear (Par2_Node l r c pb) = Par2_Node l r {} {}"

partial_function (option) attr_par2_prepare :: "nat \<Rightarrow> nat \<Rightarrow> nat \<Rightarrow> nat \<Rightarrow> 'v reach_par2 option" where
  "attr_par2_prepare left right l r = (if right = left + 1
    then Option.bind (attr_par_prepare l r) (\<lambda>nested. Some (Par2_Leaf left {} {} nested))
    else Option.bind (attr_par2_prepare left ((left + right) div 2) l r) (\<lambda>lt.
         Option.bind (attr_par2_prepare ((left + right) div 2) right l r) (\<lambda>rt. Some (Par2_Node lt rt {} {}))))"

declare attr_par2_prepare.simps [code]

fun attr_par_step :: "'v set \<Rightarrow> 'v set \<Rightarrow> 'v reach_par2 \<Rightarrow> 'v parity_game \<Rightarrow> 'v reach_par2" where
  "attr_par_step states u (Par2_Leaf i c pb nested) g = (let
     c = vset_prev states (spg_e g ! i) (spg_v g);
     nested = attr_par_next c nested g; b = par_container nested; nested = par_clear nested;
     b = b - u;
     nested = attr_par_prev b nested g; pb = par_container nested; nested = par_clear nested
   in Par2_Leaf i c pb nested)"
| "attr_par_step states u (Par2_Node l r c pb) g = (let l = attr_par_step states u l g; r = attr_par_step states u r g
   in Par2_Node (par2_clear l) (par2_clear r) (par2_container l \<union> par2_container r) (par2_prev_b l \<union> par2_prev_b r))"

partial_function (option) attractor_par2_loop :: "nat \<Rightarrow> 'v parity_game \<Rightarrow> spg_attr_options \<Rightarrow> 'v recursive_result \<Rightarrow>
    'v set \<Rightarrow> 'v set \<Rightarrow> ('v recursive_result \<times> 'v set) result option" where
  "attractor_par2_loop player g options r u v_level = (if v_level = {} then ret (r, u)
    else rbind (Some (record_level options player v_level r)) (\<lambda>r.
      Option.bind (attr_par2_prepare 0 (length (spg_e g)) 0 (length (spg_e g))) (\<lambda>root.
      let root = attr_par_step v_level u root g;
          prev_attr = par2_container root;
          prev_b = par2_prev_b root;
          v_level = prev_attr \<inter> v_player g player;
          attr_other_player = (prev_attr - prev_b) \<inter> v_player g (1 - player);
          v_level = v_level \<union> attr_other_player;
          (u, v_level) = vset_zip u v_level
      in attractor_par2_loop player g options r u v_level)))"

declare attractor_par2_loop.simps [code]

definition spg_attractor_par2 :: "nat \<Rightarrow> 'v parity_game \<Rightarrow> spg_attr_options \<Rightarrow> 'v recursive_result \<Rightarrow> 'v set \<Rightarrow> ('v recursive_result \<times> 'v set) result option" where
  "spg_attractor_par2 player g options r u = attractor_par2_loop player g options r u u"

section \<open>What the trees compute\<close>

fun par_indices :: "'v reach_par \<Rightarrow> nat set" where
  "par_indices (Par_Leaf i c) = {i}"
| "par_indices (Par_Node l r c) = par_indices l \<union> par_indices r"

fun par2_ok :: "nat set \<Rightarrow> 'v reach_par2 \<Rightarrow> bool" where
  "par2_ok I (Par2_Leaf i c pb t) \<longleftrightarrow> par_indices t = I"
| "par2_ok I (Par2_Node l r c pb) \<longleftrightarrow> par2_ok I l \<and> par2_ok I r"

fun par2_indices :: "'v reach_par2 \<Rightarrow> nat set" where
  "par2_indices (Par2_Leaf i c pb t) = {i}"
| "par2_indices (Par2_Node l r c pb) = par2_indices l \<union> par2_indices r"

lemma indices_clear [simp]: "par_indices (par_clear t) = par_indices t" "par2_indices (par2_clear s) = par2_indices s"
  by (cases t; simp) (cases s; simp)

lemma indices_prev [simp]: "par_indices (attr_par_prev s t g) = par_indices t"
  by (induction s t g rule: attr_par_prev.induct) (simp_all add: Let_def)

lemma indices_next [simp]: "par_indices (attr_par_next s t g) = par_indices t"
  by (induction s t g rule: attr_par_next.induct) (simp_all add: Let_def)

lemma container_prev: "par_container (attr_par_prev s t g) = (\<Union>i \<in> par_indices t. vset_prev s (spg_e g ! i) (spg_v g))"
  by (induction s t g rule: attr_par_prev.induct) (simp_all add: Let_def)

lemma container_next: "par_container (attr_par_next s t g) = (\<Union>i \<in> par_indices t. vset_next s (spg_e g ! i) \<inter> spg_v g)"
  by (induction s t g rule: attr_par_next.induct) (simp_all add: Let_def Int_Un_distrib2)

lemma halves: "l < r \<Longrightarrow> r \<noteq> Suc l \<Longrightarrow> l < (l + r) div 2 \<and> (l + r) div 2 < r \<and>
    (l + r) div 2 - l < r - l \<and> r - (l + r) div 2 < r - l" for l r :: nat
  by linarith

text \<open>The tree covers the groups from \<open>l\<close> to \<open>r\<close>; for an empty range the recursion never ends.\<close>

lemma prepare_run: "l < r \<Longrightarrow> \<exists>t :: 'v reach_par. attr_par_prepare l r = Some t \<and> par_indices t = {l..<r}"
proof (induction "r - l" arbitrary: l r rule: less_induct)
  case less
  show ?case
  proof (cases "r = Suc l")
    case True
    then show ?thesis by (subst attr_par_prepare.simps) auto
  next
    case False
    let ?m = "(l + r) div 2"
    have m: "l < ?m" "?m < r" "?m - l < r - l" "r - ?m < r - l"
      using halves[OF less.prems False] by blast+
    obtain a :: "'v reach_par" where a: "attr_par_prepare l ?m = Some a" "par_indices a = {l..<?m}"
      using less.hyps[of ?m l] m by auto
    obtain b :: "'v reach_par" where b: "attr_par_prepare ?m r = Some b" "par_indices b = {?m..<r}"
      using less.hyps[of r ?m] m by auto
    show ?thesis using False a b m by (subst attr_par_prepare.simps) auto
  qed
qed

lemma prepare_diverges: "attr_par_prepare 0 0 = None"
proof -
  have "\<not> (l = 0 \<and> r = 0)" if "attr_par_prepare l r = Some t" for l r :: nat and t :: "'a reach_par"
    using that by (rule attr_par_prepare.raw_induct[where P = "\<lambda>l r t. \<not> (l = 0 \<and> r = 0)", rotated])
      (force simp: Option.bind_eq_Some_conv)
  then show ?thesis by (cases "attr_par_prepare 0 0 :: 'a reach_par option") auto
qed

lemma prepare2_run: "l < r \<Longrightarrow> a < b \<Longrightarrow>
  \<exists>t :: 'v reach_par2. attr_par2_prepare l r a b = Some t \<and> par2_indices t = {l..<r} \<and> par2_ok {a..<b} t"
proof (induction "r - l" arbitrary: l r rule: less_induct)
  case less
  show ?case
  proof (cases "r = Suc l")
    case True
    obtain n :: "'v reach_par" where "attr_par_prepare a b = Some n" "par_indices n = {a..<b}"
      using prepare_run[OF less.prems(2)] by blast
    then show ?thesis using True by (subst attr_par2_prepare.simps) auto
  next
    case False
    let ?m = "(l + r) div 2"
    have m: "l < ?m" "?m < r" "?m - l < r - l" "r - ?m < r - l"
      using halves[OF less.prems(1) False] by blast+
    obtain s :: "'v reach_par2" where s: "attr_par2_prepare l ?m a b = Some s" "par2_indices s = {l..<?m}" "par2_ok {a..<b} s"
      using less.hyps[of ?m l] m less.prems by auto
    obtain t :: "'v reach_par2" where t: "attr_par2_prepare ?m r a b = Some t" "par2_indices t = {?m..<r}" "par2_ok {a..<b} t"
      using less.hyps[of r ?m] m less.prems by auto
    show ?thesis using False s t m by (subst attr_par2_prepare.simps) auto
  qed
qed

lemma union_groups: "(\<Union>i \<in> {0..<length xs}. f (xs ! i)) = (\<Union>x \<in> set xs. f x)"
proof -
  have "set xs = (!) xs ` {0..<length xs}" by (auto simp: set_conv_nth)
  then show ?thesis by (simp only: image_image)
qed

lemma container_prev_all:
  "par_indices t = {0..<length (spg_e g)} \<Longrightarrow> par_container (attr_par_prev s t g) = prev_all g s"
  unfolding container_prev prev_all_def fold_union using union_groups[of "\<lambda>r. vset_prev s r (spg_v g)"] by simp

lemma container_next_all:
  "par_indices t = {0..<length (spg_e g)} \<Longrightarrow> par_container (attr_par_next s t g) = next_all g s"
  unfolding container_next next_all_def fold_union using union_groups[of "\<lambda>r. vset_next s r \<inter> spg_v g"] by simp

lemma step_containers:
  "par2_ok {0..<length (spg_e g)} t \<Longrightarrow>
    par2_container (attr_par_step s u t g) = (\<Union>i \<in> par2_indices t. vset_prev s (spg_e g ! i) (spg_v g)) \<and>
    par2_prev_b (attr_par_step s u t g) = (\<Union>i \<in> par2_indices t. prev_all g (next_all g (vset_prev s (spg_e g ! i) (spg_v g)) - u))"
proof (induction t)
  case (Par2_Leaf i c pb nested)
  then show ?case by (simp add: Let_def container_prev_all container_next_all)
next
  case (Par2_Node l r c pb)
  then show ?case by (simp add: Let_def)
qed

lemma prev_all_UN: "prev_all g (\<Union>i \<in> I. f i) = (\<Union>i \<in> I. prev_all g (f i))"
  unfolding prev_all_def fold_union by fastforce

lemma next_all_UN: "next_all g (\<Union>i \<in> I. f i) = (\<Union>i \<in> I. next_all g (f i))"
  unfolding next_all_def fold_union by fastforce

lemma step_all:
  assumes "par2_ok {0..<length (spg_e g)} t" and "par2_indices t = {0..<length (spg_e g)}"
  shows "par2_container (attr_par_step s u t g) = prev_all g s"
    and "par2_prev_b (attr_par_step s u t g) = prev_all g (next_all g (prev_all g s) - u)"
proof -
  show c: "par2_container (attr_par_step s u t g) = prev_all g s"
    using step_containers[OF assms(1)] assms(2) union_groups[of "\<lambda>r. vset_prev s r (spg_v g)" "spg_e g"]
    unfolding prev_all_def fold_union by simp
  let ?f = "\<lambda>i. vset_prev s (spg_e g ! i) (spg_v g)"
  have "prev_all g s = (\<Union>i \<in> {0..<length (spg_e g)}. ?f i)"
    using step_containers[OF assms(1), of s u] c assms(2) by simp
  then have "next_all g (prev_all g s) - u = (\<Union>i \<in> {0..<length (spg_e g)}. next_all g (?f i) - u)"
    by (simp only: next_all_UN) blast
  then show "par2_prev_b (attr_par_step s u t g) = prev_all g (next_all g (prev_all g s) - u)"
    using step_containers[OF assms(1), of s u] assms(2) by (simp only: prev_all_UN)
qed

section \<open>The parallel loops run like the sequential one\<close>

lemma attractor_par_loop_eq:
  assumes "wf_game g" and "p < 2"
  shows "par_indices root = {0..<length (spg_e g)} \<Longrightarrow> lv \<subseteq> spg_v g \<Longrightarrow>
    attractor_par_loop p g opt r root u lv = attractor_loop p g opt r u lv"
proof (induction "card (spg_v g - u)" arbitrary: u lv r root rule: less_induct)
  case less
  define n where "n = attr_round p g u lv"
  have n: "n \<subseteq> spg_v g" unfolding n_def using mem_attr_round[OF less.prems(2)] by (auto dest: edges_in)
  show ?case
  proof (cases "lv = {}")
    case True
    then show ?thesis by (subst attractor_par_loop.simps) simp
  next
    case False
    define root' where "root' = par_clear (attr_par_prev (next_all g (prev_all g lv) - u)
      (par_clear (attr_par_next (prev_all g lv) (par_clear (attr_par_prev lv root g)) g)) g)"
    have root': "par_indices root' = {0..<length (spg_e g)}" by (simp add: root'_def less.prems(1))
    have par: "attractor_par_loop p g opt r root u lv =
        rbind (Some (record_level opt p lv r)) (\<lambda>r. attractor_par_loop p g opt r root' (u \<union> n) (n - u))"
      using False less.prems(1)
      by (subst attractor_par_loop.simps)
        (simp add: Let_def container_prev_all container_next_all n_def attr_round_def root'_def)
    have seq: "attractor_loop p g opt r u lv =
        rbind (Some (record_level opt p lv r)) (\<lambda>r. attractor_loop p g opt r (u \<union> n) (n - u))"
      using False by (subst attractor_loop.simps) (simp add: n_def Let_def)
    have "attractor_par_loop p g opt r' root' (u \<union> n) (n - u) = attractor_loop p g opt r' (u \<union> n) (n - u)" for r'
    proof (cases "n - u = {}")
      case True
      then show ?thesis unfolding True by (subst attractor_par_loop.simps) simp
    next
      case False
      show ?thesis by (rule less.hyps[OF unvisited_decreases[OF assms(1) n False] root']) (use n in blast)
    qed
    then show ?thesis unfolding par seq by presburger
  qed
qed

lemma attractor_par2_loop_eq:
  fixes g :: "'v parity_game"
  assumes "wf_game g" and "p < 2" and "spg_e g \<noteq> []"
  shows "lv \<subseteq> spg_v g \<Longrightarrow> attractor_par2_loop p g opt r u lv = attractor_loop p g opt r u lv"
proof (induction "card (spg_v g - u)" arbitrary: u lv r rule: less_induct)
  case less
  define n where "n = attr_round p g u lv"
  have n: "n \<subseteq> spg_v g" unfolding n_def using mem_attr_round[OF less.prems] by (auto dest: edges_in)
  obtain root :: "'v reach_par2" where root: "attr_par2_prepare 0 (length (spg_e g)) 0 (length (spg_e g)) = Some root"
      "par2_indices root = {0..<length (spg_e g)}" "par2_ok {0..<length (spg_e g)} root"
    using prepare2_run[of 0 "length (spg_e g)" 0 "length (spg_e g)"] assms(3) by auto
  show ?case
  proof (cases "lv = {}")
    case True
    then show ?thesis by (subst attractor_par2_loop.simps) simp
  next
    case False
    have par: "attractor_par2_loop p g opt r u lv =
        rbind (Some (record_level opt p lv r)) (\<lambda>r. attractor_par2_loop p g opt r (u \<union> n) (n - u))"
      using False
      by (subst attractor_par2_loop.simps) (simp add: Let_def root step_all[OF root(3,2)] n_def attr_round_def)
    have seq: "attractor_loop p g opt r u lv =
        rbind (Some (record_level opt p lv r)) (\<lambda>r. attractor_loop p g opt r (u \<union> n) (n - u))"
      using False by (subst attractor_loop.simps) (simp add: n_def Let_def)
    have "attractor_par2_loop p g opt r' (u \<union> n) (n - u) = attractor_loop p g opt r' (u \<union> n) (n - u)" for r'
    proof (cases "n - u = {}")
      case True
      then show ?thesis unfolding True by (subst attractor_par2_loop.simps) simp
    next
      case False
      show ?thesis by (rule less.hyps[OF unvisited_decreases[OF assms(1) n False]]) (use n in blast)
    qed
    then show ?thesis unfolding par seq by presburger
  qed
qed

lemma spg_attractor_par_eq:
  fixes g :: "'v parity_game"
  assumes "wf_game g" and "p < 2" and "U \<subseteq> spg_v g" and "spg_e g \<noteq> []"
  shows "spg_attractor_par p g opt r U = spg_attractor p g opt r U"
    and "spg_attractor_par2 p g opt r U = spg_attractor p g opt r U"
proof -
  obtain root :: "'v reach_par" where "attr_par_prepare 0 (length (spg_e g)) = Some root" "par_indices root = {0..<length (spg_e g)}"
    using prepare_run[of 0 "length (spg_e g)"] assms(4) by auto
  then show "spg_attractor_par p g opt r U = spg_attractor p g opt r U"
    using attractor_par_loop_eq[OF assms(1,2) _ assms(3)] by (simp add: spg_attractor_par_def spg_attractor_def)
  show "spg_attractor_par2 p g opt r U = spg_attractor p g opt r U"
    using attractor_par2_loop_eq[OF assms(1,2,4,3)] by (simp add: spg_attractor_par2_def spg_attractor_def)
qed

interpretation par: attractor_procedure spg_attractor_par
  by unfold_locales (simp add: spg_attractor_par_eq plain.attr_run)

interpretation par2: attractor_procedure spg_attractor_par2
  by unfold_locales (simp add: spg_attractor_par_eq plain.attr_run)

end
