(* ===== verification/Spg_Solve.thy ===== *)
theory Spg_Solve
  imports Spg_Win Spg_Par
begin

text \<open>
  The recursive solver of \<^verbatim>\<open>src/src/spg-lib/spg-solve.c\<close>: the choice of the least priority with the
  treatment of vertices without successors, the two recursive calls and the composition of their
  results. The attractor function is the parameter \<open>attr\<close>, as it is a function pointer of the options in
  the code. The solver is proved correct for games in which every vertex has a successor, whatever the
  attractor function; on games with stuck vertices it can give vertices to the wrong player.
\<close>

section \<open>The solver\<close>

definition deadlock_states :: "'v parity_game \<Rightarrow> nat \<Rightarrow> 'v set" where
  "deadlock_states g p = fold (\<lambda>r d. d - vset_prev (spg_v g) r (spg_v g)) (spg_e g) (v_player g p)"

function find_min :: "'v parity_game \<Rightarrow> nat \<Rightarrow> (nat \<times> 'v set) result" where
  "find_min g m = (if v_priority g m \<noteq> {} then Inr (m, v_priority g m)
     else if m + 1 > max_priority g then Inl (Abort_msg ''no min priority found!'') else find_min g (m + 1))"
  by pat_completeness auto
termination by (relation "measure (\<lambda>(g, m). max_priority g - m)") auto

declare find_min.simps [simp del]

text \<open>The player of the round and the set whose attractor is computed.\<close>

definition choose_target :: "'v parity_game \<Rightarrow> (nat \<times> 'v set) result" where
  "choose_target g = (let dead = deadlock_states g in
     result_bind (find_min g (min_priority g)) (\<lambda>(m, u).
     let m = (if m > 0 \<and> dead 1 \<noteq> {} then 0 else if m > 1 \<and> dead 0 \<noteq> {} then 1 else m);
         player = m mod 2;
         u = (if m < 2 then (if m \<ge> min_priority g then v_priority g m else u) \<union> dead (1 - player) else u)
     in Inr (player, u)))"

type_synonym 'v attractor_fun =
  "nat \<Rightarrow> 'v parity_game \<Rightarrow> spg_attr_options \<Rightarrow> 'v recursive_result \<Rightarrow> 'v set \<Rightarrow> ('v recursive_result \<times> 'v set) result option"

partial_function (option) spg_solve_recursive ::
  "'v attractor_fun \<Rightarrow> spg_attr_options \<Rightarrow> 'v parity_game \<Rightarrow> 'v recursive_result result option" where
  "spg_solve_recursive attr options g = (let result = recursive_result_create in
    if spg_v g = {} then ret result
    else rbind (Some (choose_target g)) (\<lambda>(player, u).
      rbind (attr player g options result u) (\<lambda>(result, u).
      rbind (spg_solve_recursive attr options (spg_game_restrict (spg_copy g) u)) (\<lambda>x.
      if win x (1 - player) = {}
      then let u = u \<union> win x player
        in rbind (Some (if compute_strategy options then concat_strategy_levels result x else Inr result)) (\<lambda>result.
           ret (result\<lparr>win := (win result)(player := u, 1 - player := {})\<rparr>))
      else let b = win x (1 - player); result = recursive_result_create
        in rbind (Some (concat_strategy_levels_player (1 - player) result x)) (\<lambda>result.
           rbind (attr (1 - player) g options result b) (\<lambda>(result, b).
           rbind (spg_solve_recursive attr options (spg_game_restrict (spg_copy g) b)) (\<lambda>y.
           rbind (Some (concat_strategy_levels result y)) (\<lambda>result.
             let result = result\<lparr>win := (win result)(player := win y player)\<rparr>; b = b \<union> win y (1 - player)
             in ret (result\<lparr>win := (win result)(1 - player := b)\<rparr>)))))))))"

declare spg_solve_recursive.simps [code]

record 'v spgsolver_options =
  opt_player :: nat
  opt_attr :: "'v attractor_fun"
  attr_options :: spg_attr_options

text \<open>
  The options of the solver from those of the command line: the attractor, whether it saturates, the file
  for the strategies and the player.
\<close>

datatype attr_strategy = DEFAULT_ATTR | CHAIN | PAR | PAR2

definition spg_get_solver_options :: "attr_strategy \<Rightarrow> bool \<Rightarrow> string option \<Rightarrow> int \<Rightarrow> 'v spgsolver_options result" where
  "spg_get_solver_options attr_strategy saturating strategy_filename player = (let
     attr = (case attr_strategy of CHAIN \<Rightarrow> spg_attractor_chaining | PAR \<Rightarrow> spg_attractor_par | PAR2 \<Rightarrow> spg_attractor_par2
       | DEFAULT_ATTR \<Rightarrow> spg_attractor);
     cs = (strategy_filename \<noteq> None)
   in if cs \<and> attr_strategy = CHAIN then Inl (Abort_msg ''Computing stategy not supported in chaining attractor'')
      else if player = 0 \<or> player = 1
      then Inr \<lparr>opt_player = nat player, opt_attr = attr, attr_options = \<lparr>saturation = saturating, compute_strategy = cs\<rparr>\<rparr>
      else Inl (Abort_msg ''Invalid player''))"

text \<open>
  Without options the solver takes those of the command line, the argument \<open>opts\<close>; the player to ask for
  is read through the options passed in either case.
\<close>

definition spg_solve :: "'v spgsolver_options \<Rightarrow> 'v parity_game \<Rightarrow> 'v spgsolver_options option \<Rightarrow>
    ('v recursive_result \<times> bool) result option" where
  "spg_solve opts g options = (let opts = (case options of None \<Rightarrow> opts | Some opt \<Rightarrow> opt); src = spg_src g
    in rbind (spg_solve_recursive (opt_attr opts) (attr_options opts) g) (\<lambda>result.
       case options of None \<Rightarrow> Some (Inl Bad_access) | Some opt \<Rightarrow> ret (result, src \<in> win result (opt_player opt))))"

section \<open>The first step of a round\<close>

lemma fold_minus: "fold (\<lambda>r d. d - f r) rs D = D - (\<Union>r \<in> set rs. f r)"
  by (induction rs arbitrary: D) auto

lemma mem_deadlock: "x \<in> deadlock_states g p \<longleftrightarrow> x \<in> v_player g p \<and> \<not> (x \<in> spg_v g \<and> (\<exists>y. (x, y) \<in> game_edges g))"
  unfolding deadlock_states_def fold_minus by (auto simp: game_edges_def)

lemma total_no_deadlock: "wf_game g \<Longrightarrow> total_game g \<Longrightarrow> p < 2 \<Longrightarrow> deadlock_states g p = {}"
  using player_sub[of g p] by (auto simp: mem_deadlock total_game_def)

lemma find_min_run:
  assumes "wf_game g" and "spg_v g \<noteq> {}"
  shows "m \<in> priorities g \<Longrightarrow> (\<And>i. i \<in> priorities g \<Longrightarrow> i < m \<Longrightarrow> v_priority g i = {}) \<Longrightarrow>
    \<exists>k \<in> priorities g. find_min g m = Inr (k, v_priority g k) \<and> v_priority g k \<noteq> {} \<and> (\<forall>i \<in> priorities g. i < k \<longrightarrow> v_priority g i = {})"
proof (induction "max_priority g - m" arbitrary: m rule: less_induct)
  case less
  show ?case
  proof (cases "v_priority g m = {}")
    case False
    then show ?thesis using less.prems by (subst find_min.simps) (auto intro!: bexI[of _ m])
  next
    case True
    have le: "m + 1 \<le> max_priority g"
    proof (rule ccontr)
      assume "\<not> m + 1 \<le> max_priority g"
      then have "v_priority g i = {}" if "i \<in> priorities g" for i
        using less.prems(2)[of i] True that less.prems(1) by (cases "i = m") auto
      then show False using wf_gameD(5)[OF assms(1)] assms(2) by simp
    qed
    then have run: "find_min g m = find_min g (m + 1)" using True by (subst find_min.simps) simp
    show ?thesis unfolding run
      by (rule less.hyps) (use le less.prems True in \<open>auto simp: less_Suc_eq\<close>)
  qed
qed

lemma choose_target_run:
  assumes "wf_game g" and "total_game g" and "spg_v g \<noteq> {}"
  shows "\<exists>m U. choose_target g = Inr (m mod 2, U) \<and> U \<noteq> {} \<and> U \<subseteq> spg_v g
    \<and> (\<forall>x \<in> U. prio g x = m) \<and> (\<forall>x \<in> spg_v g. m \<le> prio g x)"
proof -
  obtain m where m: "m \<in> priorities g" "find_min g (min_priority g) = Inr (m, v_priority g m)" "v_priority g m \<noteq> {}"
      "\<forall>i \<in> priorities g. i < m \<longrightarrow> v_priority g i = {}"
  proof -
    have "\<exists>k \<in> priorities g. find_min g (min_priority g) = Inr (k, v_priority g k) \<and> v_priority g k \<noteq> {} \<and>
        (\<forall>i \<in> priorities g. i < k \<longrightarrow> v_priority g i = {})"
      by (rule find_min_run[OF assms(1,3)]) (use wf_gameD(4)[OF assms(1)] in auto)
    then show thesis using that by blast
  qed
  have "choose_target g = Inr (m mod 2, v_priority g m)"
    using m(1,2) by (simp add: choose_target_def total_no_deadlock[OF assms(1,2)] Let_def)
  moreover have "v_priority g m \<subseteq> spg_v g" using wf_gameD(5)[OF assms(1)] m(1) by blast
  moreover have "prio g x = m" if "x \<in> v_priority g m" for x using prio_at[OF assms(1) m(1) that] .
  moreover have "m \<le> prio g x" if "x \<in> spg_v g" for x
  proof (rule ccontr)
    assume "\<not> m \<le> prio g x"
    then show False using prio_in[OF assms(1) that] m(4) by force
  qed
  ultimately show ?thesis using m(3) by blast
qed

section \<open>The solver is correct\<close>

text \<open>The two regions of a result share the vertices between them, and each is won by its player.\<close>

definition solved :: "'v parity_game \<Rightarrow> 'v recursive_result \<Rightarrow> bool" where
  "solved g r \<longleftrightarrow> win r 0 \<union> win r 1 = spg_v g \<and> win r 0 \<inter> win r 1 = {} \<and> (\<forall>p < 2. \<exists>\<sigma>. dominion g p \<sigma> (win r p))"

lemma solvedI:
  assumes "p < 2" and "win r p \<union> win r (1 - p) = spg_v g" and "win r p \<inter> win r (1 - p) = {}"
    and "\<exists>\<sigma>. dominion g p \<sigma> (win r p)" and "\<exists>\<sigma>. dominion g (1 - p) \<sigma> (win r (1 - p))"
  shows "solved g r"
  using assms by (auto simp: solved_def less_2_cases_iff Un_commute Int_commute elim!: player_cases)

lemma solvedD:
  assumes "solved g r" and "p < 2"
  shows "win r p \<union> win r (1 - p) = spg_v g" and "win r p \<inter> win r (1 - p) = {}"
    and "\<exists>\<sigma>. dominion g p \<sigma> (win r p)" and "\<exists>\<sigma>. dominion g (1 - p) \<sigma> (win r (1 - p))"
  using assms by (auto simp: solved_def elim!: player_cases)

lemma solved_wins:
  assumes "wf_game g" and "total_game g" and "solved g r" and "p < 2"
  shows "win r p = {x \<in> spg_v g. wins g p x}"
proof -
  note s = solvedD[OF assms(3,4)]
  have q: "1 - p < 2" by simp
  have 1: "wins g p x" if "x \<in> win r p" for x
    using s(3) dominion_wins[OF assms(4,1,2) _ that] by blast
  have 2: "wins g (1 - p) x" if "x \<in> win r (1 - p)" for x
    using s(4) dominion_wins[OF q assms(1,2) _ that] by blast
  have "\<not> (wins g p x \<and> wins g (1 - p) x)" if "x \<in> spg_v g" for x
    using wins_exclusive[OF assms(1) that] assms(4) by (auto elim!: player_cases)
  then show ?thesis using 1 2 s(1) by blast
qed

lemma result_ok_win [simp]: "result_ok (r\<lparr>win := w\<rparr>) p = result_ok r p"
  by (simp add: result_ok_def)

text \<open>The two ways in which a round ends.\<close>

lemma solved_all:
  assumes wf: "wf_game g" and p: "p < 2" and tot: "total_game g" and U: "U \<subseteq> spg_v g"
    and least: "\<forall>x \<in> spg_v g. m \<le> prio g x" and at: "\<forall>x \<in> U. prio g x = m" and m: "m mod 2 = p"
    and A: "A = attractor g p U" and h: "subgame g A h" and x: "solved h x" and empty: "win x (1 - p) = {}"
    and r: "win r p = A \<union> win x p" "win r (1 - p) = {}"
  shows "solved g r"
proof (rule solvedI[OF p])
  note sx = solvedD[OF x p]
  have "A \<subseteq> spg_v g" unfolding A by (rule attractor_in[OF wf p U])
  then have all: "win r p = spg_v g" using sx(1) empty subgameD(2)[OF h] r by auto
  then show "win r p \<union> win r (1 - p) = spg_v g" "win r p \<inter> win r (1 - p) = {}" using r(2) by auto
  show "\<exists>\<sigma>. dominion g (1 - p) \<sigma> (win r (1 - p))" unfolding r using dominion_empty by blast
  obtain \<sigma> where "dominion h p \<sigma> (spg_v h)" using sx(1,3) empty by auto
  then show "\<exists>\<sigma>. dominion g p \<sigma> (win r p)" unfolding all
    using dominion_all[OF wf p tot U, of m h \<sigma>] least at m h A by auto
qed

lemma solved_lift:
  assumes "wf_game g" and p: "p < 2" and "subgame g (attractor g p U) h" and "solved h x"
  shows "\<exists>\<sigma>. dominion g (1 - p) \<sigma> (win x (1 - p))"
  using solvedD(4)[OF assms(4) p] dominion_lift[OF assms(1-3)] by blast

lemma solved_split:
  assumes wf: "wf_game g" and p: "p < 2" and d1: "dominion g (1 - p) \<sigma> X" and B: "B = attractor g (1 - p) X"
    and k: "subgame g B k" and y: "solved k y" and r: "win r p = win y p" "win r (1 - p) = B \<union> win y (1 - p)"
  shows "solved g r"
proof (rule solvedI[OF p])
  let ?q = "1 - p"
  have q: "?q < 2" "1 - ?q = p" using p by auto
  note sy = solvedD[OF y p]
  obtain \<tau> where d2: "dominion g ?q \<tau> B" using dominion_attractor[OF wf q(1) d1] unfolding B by blast
  have V: "win y p \<union> win y ?q = spg_v g - B" using sy(1) subgameD(2)[OF k] by simp
  have Bs: "B \<subseteq> spg_v g" by (rule dominionD(1)[OF d2])
  show "win r p \<union> win r ?q = spg_v g" unfolding r using V Bs by blast
  show "win r p \<inter> win r ?q = {}" unfolding r using V sy(2) by blast
  show "\<exists>\<sigma>. dominion g ?q \<sigma> (win r ?q)" unfolding r using sy(4) dominion_union[OF q(1) d2 k] by blast
  show "\<exists>\<sigma>. dominion g p \<sigma> (win r p)"
    unfolding r using solved_lift[OF wf q(1) k[unfolded B] y] unfolding q(2) .
qed

lemma smaller:
  assumes "wf_game g" and "subgame g A h" and "X \<subseteq> A" and "X \<noteq> {}" and "X \<subseteq> spg_v g"
  shows "card (spg_v h) < card (spg_v g)"
  using assms subgameD(2)[OF assms(2)] by (intro psubset_card_mono) (auto simp: wf_gameD(1))

context attractor_procedure
begin

lemma solve_recursive_run:
  fixes g :: "'v parity_game"
  assumes "\<not> compute_strategy opt"
  shows "wf_game g \<Longrightarrow> total_game g \<Longrightarrow>
    \<exists>r. spg_solve_recursive attr opt g = ret r \<and> (\<forall>p < 2. result_ok r p) \<and> solved g r"
proof (induction "card (spg_v g)" arbitrary: g rule: less_induct)
  case less
  note wf = less.prems(1) and tot = less.prems(2)
  have IH: "\<exists>r. spg_solve_recursive attr opt h = ret r \<and> (\<forall>p < 2. result_ok r p) \<and> solved h r"
    if "p < 2" "A = attractor g p X" "X \<noteq> {}" "X \<subseteq> spg_v g" "subgame g A h" for p A X h
  proof -
    have "X \<subseteq> A" using that(2) by (auto intro: attractor.base)
    then show ?thesis
      using less.hyps[OF smaller[OF wf that(5) _ that(3,4)] subgameD(1)[OF that(5)]]
        subgame_total[OF wf that(1) tot that(5)[unfolded that(2)]] by blast
  qed
  show ?case
  proof (cases "spg_v g = {}")
    case True
    then have "spg_solve_recursive attr opt g = ret recursive_result_create"
      by (subst spg_solve_recursive.simps) simp
    moreover have "solved g recursive_result_create"
      using True by (simp add: solved_def recursive_result_create_def dominion_empty)
    ultimately show ?thesis using result_create_ok(1) by blast
  next
    case False
    let ?c = "recursive_result_create :: 'v recursive_result"
    obtain m U where t: "choose_target g = Inr (m mod 2, U)" "U \<noteq> {}" "U \<subseteq> spg_v g"
        "\<forall>x \<in> U. prio g x = m" "\<forall>x \<in> spg_v g. m \<le> prio g x"
      using choose_target_run[OF wf tot False] by blast
    define p where "p = m mod 2"
    have p: "p < 2" "1 - p < 2" by (simp_all add: p_def)
    have e: "spg_e g \<noteq> []" using tot False by (auto simp: total_game_def game_edges_def)
    define A where "A = attractor g p U"
    have a1: "attr p g opt ?c U = ret (?c, A)" unfolding A_def by (rule attr_run[OF wf p(1) t(3) e assms])
    define h where "h = spg_game_restrict (spg_copy g) A"
    have h: "subgame g A h" unfolding h_def by (rule spg_game_restrict_sub[OF wf])
    obtain x where x: "spg_solve_recursive attr opt h = ret x" "\<forall>p < 2. result_ok x p" "solved h x"
      using IH[OF p(1) A_def t(2,3) h] by blast
    show ?thesis
    proof (cases "win x (1 - p) = {}")
      case True
      define r where "r = ?c\<lparr>win := (win ?c)(p := A \<union> win x p, 1 - p := {})\<rparr>"
      have "spg_solve_recursive attr opt g = ret r"
        using False True by (subst spg_solve_recursive.simps)
          (simp add: t(1) a1[unfolded p_def] x(1)[unfolded h_def] assms r_def p_def del: One_nat_def)
      moreover have "\<forall>p < 2. result_ok r p" using result_create_ok(1) by (auto simp: r_def)
      moreover have "solved g r"
        by (rule solved_all[OF wf p(1) tot t(3,5,4) p_def[symmetric] A_def h x(3) True])
          (use p in \<open>auto simp: r_def elim!: player_cases\<close>)
      ultimately show ?thesis by blast
    next
      case ne: False
      let ?q = "1 - p"
      obtain c where c: "concat_strategy_levels_player ?q ?c x = Inr c" "result_ok c ?q" "win c = win ?c"
          "\<forall>i. i \<noteq> ?q \<longrightarrow> result_ok c i = result_ok ?c i"
        using concat_player_run[OF result_create_ok(1) x(2)[rule_format, OF p(2)]] by blast
      have cok: "\<forall>p < 2. result_ok c p" using c(2,4) result_create_ok(1) by metis
      obtain \<sigma> where d1: "dominion g ?q \<sigma> (win x ?q)"
        using solved_lift[OF wf p(1) h[unfolded A_def] x(3)] by blast
      define B where "B = attractor g ?q (win x ?q)"
      have xs: "win x ?q \<subseteq> spg_v g" by (rule dominionD(1)[OF d1])
      have a2: "attr ?q g opt c (win x ?q) = ret (c, B)" unfolding B_def by (rule attr_run[OF wf p(2) xs e assms])
      define k where "k = spg_game_restrict (spg_copy g) B"
      have k: "subgame g B k" unfolding k_def by (rule spg_game_restrict_sub[OF wf])
      obtain y where y: "spg_solve_recursive attr opt k = ret y" "\<forall>p < 2. result_ok y p" "solved k y"
        using IH[OF p(2) B_def ne xs k] by blast
      obtain f where f: "concat_strategy_levels c y = Inr f" "\<forall>p < 2. result_ok f p" "win f = win c"
        using concat_strategy_levels_run[OF cok y(2)] by blast
      define r where "r = f\<lparr>win := (win f)(p := win y p, ?q := B \<union> win y ?q)\<rparr>"
      have "spg_solve_recursive attr opt g = ret r"
        using False ne by (subst spg_solve_recursive.simps)
          (simp add: t(1) a1[unfolded p_def] x(1)[unfolded h_def] c(1)[unfolded p_def] a2[unfolded p_def]
            y(1)[unfolded k_def] f(1) r_def p_def Let_def del: One_nat_def)
      moreover have "\<forall>p < 2. result_ok r p" using f(2) by (simp add: r_def)
      moreover have "solved g r"
        by (rule solved_split[OF wf p(1) d1 B_def k y(3)]) (use p in \<open>auto simp: r_def elim!: player_cases\<close>)
      ultimately show ?thesis by blast
    qed
  qed
qed

end

lemma solver_options_ok:
  assumes "spg_get_solver_options s sat None pl = Inr opts"
  shows "opt_attr opts \<in> {spg_attractor, spg_attractor_chaining, spg_attractor_par, spg_attractor_par2}"
    and "\<not> compute_strategy (attr_options opts)" and "opt_player opts < 2"
  using assms by (auto simp: spg_get_solver_options_def Let_def split: if_splits attr_strategy.splits)

text \<open>The four attractor functions that the options select.\<close>

lemma solve_any:
  assumes "\<not> compute_strategy opt" and "wf_game g" and "total_game g"
    and "attr \<in> {spg_attractor, spg_attractor_chaining, spg_attractor_par, spg_attractor_par2}"
  shows "\<exists>r. spg_solve_recursive attr opt g = ret r \<and> solved g r"
  using assms(4) plain.solve_recursive_run[OF assms(1-3)] chaining.solve_recursive_run[OF assms(1-3)]
    par.solve_recursive_run[OF assms(1-3)] par2.solve_recursive_run[OF assms(1-3)] by blast

end
