(* ===== verification/Pg_Build.thy ===== *)
theory Pg_Build
  imports Spg_Solve
begin

text \<open>
  How the symbolic model checker builds and solves a parity game,
  \<^verbatim>\<open>src/src/pins2lts-sym/alg/pg.c\<close>: the table of the players and priorities of the variables, the game over
  the visited states and the call of the solver. A state is a vector of integers whose entry at \<open>var_pos\<close>
  is the number of its variable. The labels of a variable come from the language module
  (\<^verbatim>\<open>GBgetStateLabelLong\<close>) and are parameters, as are the visited states and the transition relations of the
  groups; \<^verbatim>\<open>vset_copy_match_proj\<close> selects the vectors of a set with a given entry.
  The array of priorities is a function; its allocation of \<^verbatim>\<open>max_priority + 1\<close> elements in \<^verbatim>\<open>spg_create\<close>, which
  overflows for the priority \<^verbatim>\<open>INT_MAX\<close>, is not part of the model.
\<close>

section \<open>The tables of the variables\<close>

record var_tables =
  vt_priority :: "int list"
  vt_player :: "int list"
  vt_min :: int
  vt_max :: int

definition label_var :: "(nat \<Rightarrow> int) \<Rightarrow> (nat \<Rightarrow> int) \<Rightarrow> nat \<Rightarrow> var_tables \<Rightarrow> var_tables" where
  "label_var prio_label player_label i t = (let
     label = prio_label i;
     t = t\<lparr>vt_priority := vt_priority t @ [label]\<rparr>;
     t = (if label < vt_min t then t\<lparr>vt_min := label\<rparr> else t);
     t = (if label > vt_max t then t\<lparr>vt_max := label\<rparr> else t);
     label = player_label i
   in t\<lparr>vt_player := vt_player t @ [label]\<rparr>)"

definition init_spg :: "(nat \<Rightarrow> int) \<Rightarrow> (nat \<Rightarrow> int) \<Rightarrow> nat \<Rightarrow> var_tables" where
  "init_spg prio_label player_label num_vars = fold (label_var prio_label player_label) [0..<num_vars]
     \<lparr>vt_priority = [], vt_player = [], vt_min = int INT_MAX, vt_max = - int INT_MAX - 1\<rparr>"

section \<open>The game\<close>

definition add_variable_subset :: "nat \<Rightarrow> int list set \<Rightarrow> int list set \<Rightarrow> nat \<Rightarrow> int list set" where
  "add_variable_subset var_pos dst src var_index = dst \<union> {x \<in> src. x ! var_pos = int var_index}"

definition add_var :: "nat \<Rightarrow> var_tables \<Rightarrow> nat \<Rightarrow> int list parity_game \<Rightarrow> int list parity_game" where
  "add_var var_pos t i g = (let
     pl = nat (vt_player t ! i); pr = nat (vt_priority t ! i);
     g = g\<lparr>v_player := (v_player g)(pl := add_variable_subset var_pos (v_player g pl) (spg_v g) i)\<rparr>
   in g\<lparr>v_priority := (v_priority g)(pr := add_variable_subset var_pos (v_priority g pr) (spg_v g) i)\<rparr>)"

definition compute_symbolic_parity_game ::
  "nat \<Rightarrow> nat \<Rightarrow> var_tables \<Rightarrow> int list vrel list \<Rightarrow> int list set \<Rightarrow> int list \<Rightarrow> int list parity_game" where
  "compute_symbolic_parity_game var_pos num_vars t group_next visited src = (let
     g = spg_create src group_next (nat (vt_min t)) (nat (vt_max t));
     g = g\<lparr>spg_v := visited\<rparr>
   in fold (add_var var_pos t) [0..<num_vars] g)"

definition lts_to_pg_solve :: "int list spgsolver_options \<Rightarrow> nat \<Rightarrow> nat \<Rightarrow> var_tables \<Rightarrow> int list vrel list \<Rightarrow> int list set \<Rightarrow> int list
    \<Rightarrow> (int list recursive_result \<times> bool) result option" where
  "lts_to_pg_solve opts var_pos num_vars t group_next visited src =
     spg_solve opts (compute_symbolic_parity_game var_pos num_vars t group_next visited src) (Some opts)"

section \<open>The game is well formed\<close>

lemma label_var_eq: "label_var f h i t = t\<lparr>vt_priority := vt_priority t @ [f i], vt_player := vt_player t @ [h i],
    vt_min := min (vt_min t) (f i), vt_max := max (vt_max t) (f i)\<rparr>"
  by (simp add: label_var_def Let_def min_def max_def)

lemma init_spg_run:
  "vt_priority (init_spg f h n) = map f [0..<n] \<and> vt_player (init_spg f h n) = map h [0..<n]
    \<and> (\<forall>i < n. vt_min (init_spg f h n) \<le> f i \<and> f i \<le> vt_max (init_spg f h n))"
  by (induction n) (auto simp: init_spg_def label_var_eq less_Suc_eq nth_append)

lemma add_var_sel [simp]:
  "spg_v (add_var vp t i g) = spg_v g" "spg_src (add_var vp t i g) = spg_src g" "spg_e (add_var vp t i g) = spg_e g"
  "min_priority (add_var vp t i g) = min_priority g" "max_priority (add_var vp t i g) = max_priority g"
  "v_player (add_var vp t i g) p = v_player g p \<union> {x \<in> spg_v g. x ! vp = int i \<and> nat (vt_player t ! i) = p}"
  "v_priority (add_var vp t i g) p = v_priority g p \<union> {x \<in> spg_v g. x ! vp = int i \<and> nat (vt_priority t ! i) = p}"
  by (auto simp: add_var_def Let_def add_variable_subset_def)

lemma add_vars_run:
  fixes g :: "int list parity_game"
  assumes "v_player g = (\<lambda>_. {})" and "v_priority g = (\<lambda>_. {})" and h: "h = fold (add_var vp t) [0..<n] g"
  shows "spg_v h = spg_v g" and "spg_src h = spg_src g" and "spg_e h = spg_e g"
    and "min_priority h = min_priority g" and "max_priority h = max_priority g"
    and "v_player h p = {x \<in> spg_v g. \<exists>i < n. x ! vp = int i \<and> nat (vt_player t ! i) = p}"
    and "v_priority h p = {x \<in> spg_v g. \<exists>i < n. x ! vp = int i \<and> nat (vt_priority t ! i) = p}"
proof -
  show 1: "spg_v h = spg_v g" "spg_src h = spg_src g" "spg_e h = spg_e g" "min_priority h = min_priority g" "max_priority h = max_priority g"
    unfolding h by (induction n) simp_all
  have v: "spg_v (fold (add_var vp t) [0..<n] g) = spg_v g" for n by (induction n) simp_all
  show "v_player h p = {x \<in> spg_v g. \<exists>i < n. x ! vp = int i \<and> nat (vt_player t ! i) = p}"
    unfolding h by (induction n) (auto simp: assms(1) v less_Suc_eq)
  show "v_priority h p = {x \<in> spg_v g. \<exists>i < n. x ! vp = int i \<and> nat (vt_priority t ! i) = p}"
    unfolding h by (induction n) (auto simp: assms(2) v less_Suc_eq)
qed

text \<open>The visited states carry variables of the table, and their labels are players and priorities.\<close>

definition vars_ok :: "nat \<Rightarrow> nat \<Rightarrow> (nat \<Rightarrow> int) \<Rightarrow> (nat \<Rightarrow> int) \<Rightarrow> int list set \<Rightarrow> bool" where
  "vars_ok var_pos num_vars prio_label player_label visited \<longleftrightarrow> finite visited \<and> 0 < num_vars
     \<and> (\<forall>x \<in> visited. \<exists>i < num_vars. x ! var_pos = int i)
     \<and> (\<forall>i < num_vars. 0 \<le> prio_label i \<and> prio_label i \<le> int INT_MAX \<and> player_label i \<in> {0, 1})"

lemma game_wf:
  assumes "vars_ok vp n f h visited"
    and g_def: "g = compute_symbolic_parity_game vp n (init_spg f h n) e visited src"
  shows "wf_game g" and "spg_v g = visited" and "spg_src g = src" and "spg_e g = e"
    and "x \<in> visited \<Longrightarrow> x ! vp = int i \<Longrightarrow> prio g x = nat (f i) \<and> x \<in> v_player g (nat (h i))"
proof -
  let ?t = "init_spg f h n"
  note ok = assms(1)[unfolded vars_ok_def]
  note t = init_spg_run[of f h n]
  define c where "c = (spg_create src e (nat (vt_min ?t)) (nat (vt_max ?t)) :: int list parity_game)\<lparr>spg_v := visited\<rparr>"
  have c: "v_player c = (\<lambda>_. {})" "v_priority c = (\<lambda>_. {})" "spg_v c = visited" "spg_src c = src" "spg_e c = e"
      "min_priority c = nat (vt_min ?t)" "max_priority c = nat (vt_max ?t)"
    by (simp_all add: c_def spg_create_def)
  have gc: "g = fold (add_var vp ?t) [0..<n] c" by (simp add: g_def compute_symbolic_parity_game_def c_def)
  note g = add_vars_run[OF c(1,2) gc, unfolded c(3-7)]
  have pl: "v_player g p = {x \<in> visited. \<exists>i < n. x ! vp = int i \<and> nat (h i) = p}" for p using g(6) t by auto
  have pr: "v_priority g p = {x \<in> visited. \<exists>i < n. x ! vp = int i \<and> nat (f i) = p}" for p using g(7) t by auto
  have bound: "nat (f i) \<in> priorities g" if "i < n" for i
    using t that unfolding g(4,5) by (auto intro: nat_mono)
  show v: "spg_v g = visited" and "spg_src g = src" and "spg_e g = e" by (rule g(1) g(2) g(3))+
  show wf: "wf_game g"
    unfolding wf_game_def v
  proof (intro conjI ballI impI)
    show "finite visited" using ok by blast
    show "v_player g 0 \<union> v_player g 1 = visited" "v_player g 0 \<inter> v_player g 1 = {}" unfolding pl using ok by fastforce+
    show "min_priority g \<le> max_priority g" using bound[of 0] ok by simp
    show "(\<Union>i \<in> priorities g. v_priority g i) = visited" unfolding pr using ok bound by blast
    show "v_priority g i \<inter> v_priority g j = {}" if "i \<noteq> j" for i j unfolding pr using that by auto
  qed
  show "prio g x = nat (f i) \<and> x \<in> v_player g (nat (h i))" if x: "x \<in> visited" "x ! vp = int i"
  proof -
    have i: "i < n" using ok x by auto
    then show ?thesis using prio_at[OF wf bound[OF i], of x] x unfolding pr pl by blast
  qed
qed

section \<open>From the model to the verdict\<close>

text \<open>
  C7. The game built from the visited states is well formed, every state has the priority and the player of
  its variable, and if every state has a successor the verdict is right: the solver returns, and answers
  true exactly if the player asked for wins from the initial state.
\<close>

theorem lts_to_pg_solve_correct:
  assumes "vars_ok var_pos num_vars prio_label player_label visited" and "src \<in> visited"
    and "spg_get_solver_options attr_strategy saturating None player = Inr opts"
    and "g = compute_symbolic_parity_game var_pos num_vars (init_spg prio_label player_label num_vars) group_next visited src"
    and "total_game g"
  shows "(\<exists>r. lts_to_pg_solve opts var_pos num_vars (init_spg prio_label player_label num_vars) group_next visited src
        = ret (r, wins g (opt_player opts) src))
    \<and> wf_game g \<and> (\<forall>x \<in> visited. \<forall>i < num_vars. x ! var_pos = int i \<longrightarrow>
        prio g x = nat (prio_label i) \<and> x \<in> v_player g (nat (player_label i)))"
proof -
  note g = game_wf[OF assms(1,4)] and o = solver_options_ok[OF assms(3)]
  obtain r where r: "spg_solve_recursive (opt_attr opts) (attr_options opts) g = ret r" "solved g r"
    using solve_any[OF o(2) g(1) assms(5) o(1)] by blast
  have "src \<in> win r (opt_player opts) \<longleftrightarrow> wins g (opt_player opts) src"
    using solved_wins[OF g(1) assms(5) r(2) o(3)] assms(2) g(2) by blast
  then have "lts_to_pg_solve opts var_pos num_vars (init_spg prio_label player_label num_vars) group_next visited src
      = ret (r, wins g (opt_player opts) src)"
    unfolding lts_to_pg_solve_def assms(4)[symmetric] by (simp add: spg_solve_def r(1) g(3))
  then show ?thesis using g(1,5) by blast
qed

lemma lts_to_pg_solve_correct_witness:
  "vars_ok 0 2 int (\<lambda>_. 0) {[0], [1]} \<and>
   (\<exists>opts r b. spg_get_solver_options DEFAULT_ATTR False None 0 = Inr opts \<and>
     lts_to_pg_solve opts 0 2 (init_spg int (\<lambda>_. 0) 2) [{([0], [0]), ([1], [1])}] {[0], [1]} [0] = ret (r, b))"
proof -
  let ?g = "compute_symbolic_parity_game 0 2 (init_spg int (\<lambda>_. 0) 2) [{([0], [0]), ([1], [1])}] {[0], [1]} [0]"
  have ok: "vars_ok 0 2 int (\<lambda>_. 0) {[0], [1]}" by (force simp: vars_ok_def)
  have g: "spg_v ?g = {[0], [1]}" "spg_e ?g = [{([0], [0]), ([1], [1])}]" using game_wf(2,4)[OF ok refl] by blast+
  have tot: "total_game ?g" unfolding total_game_def game_edges_def g by auto
  obtain opts :: "int list spgsolver_options" where opts: "spg_get_solver_options DEFAULT_ATTR False None 0 = Inr opts"
    by (simp add: spg_get_solver_options_def)
  show ?thesis using lts_to_pg_solve_correct[OF ok _ opts refl tot] ok opts by blast
qed

end
