(* ===== verification/Spg_Play.thy ===== *)
theory Spg_Play
  imports Spg_Solve
begin

text \<open>
  Playing a recorded strategy, from \<^verbatim>\<open>src/src/spg-lib/spg-strategy.c\<close>: the level a strategy moves to, one move,
  a random play and the check that runs random plays for both players. The choice of an element of a set,
  \<^verbatim>\<open>vset_random\<close>, is a parameter that may depend on the number of moves made so far. The states of a play
  are kept in a tree database and on a \<^verbatim>\<open>dfs_stack\<close>: equal numbers mean equal states (theory \<open>Treedbs\<close>) and
  the stack is a list with its top first (theory \<open>Dfs_Stack\<close>), so that \<^verbatim>\<open>dfs_stack_peek\<close> at an offset is the
  element at that position of the list.
\<close>

section \<open>Moves\<close>

function scan_segment :: "'v recursive_result \<Rightarrow> nat \<Rightarrow> 'v \<Rightarrow> nat \<Rightarrow> nat \<Rightarrow> nat \<Rightarrow> 'v set \<Rightarrow> 'v set result" where
  "scan_segment strategy player src bgn j fin level = (if j < fin
     then result_bind (array_get (strategy_levels strategy player) j) (\<lambda>l.
       if src \<in> l
       then result_bind (array_get (strategy_levels strategy player) (if j = bgn then j else j - 1)) (\<lambda>l'.
            let level = level \<union> l' in if level = {} then Inl Assert_fail else Inr level)
       else scan_segment strategy player src bgn (j + 1) fin level)
     else Inr level)"
  by pat_completeness auto
termination by (relation "measure (\<lambda>(_, _, _, _, j, e, _). e - j)") auto

declare scan_segment.simps [simp del]

definition compute_strategy_level :: "'v \<Rightarrow> nat \<Rightarrow> 'v recursive_result \<Rightarrow> 'v set result" where
  "compute_strategy_level src player strategy = fold_result (\<lambda>i level.
     result_bind (if i = 0 then Inr 0 else array_get (strategy_boundaries strategy player) (i - 1)) (\<lambda>bgn.
     result_bind (array_get (strategy_boundaries strategy player) i) (\<lambda>fin.
     if fin \<le> strategy_levels_count strategy player then scan_segment strategy player src bgn bgn fin level
     else Inl Assert_fail))) [0..<strategy_boundary_count strategy player] {}"

text \<open>A move, or a deadlock with the verdict whether the player of the strategy has won.\<close>

datatype 'v move = Move 'v | Deadlock bool

record 'v strategy_move =
  sm_group :: "nat option"
  current_player :: nat
  strategy_play :: bool
  sm_move :: "'v move"

fun first_group :: "'v set \<Rightarrow> 'v \<Rightarrow> 'v vrel list \<Rightarrow> nat \<Rightarrow> (nat \<times> 'v set) option" where
  "first_group level src [] i = None"
| "first_group level src (r # rs) i = (let tmp = vset_next {src} r \<inter> level
     in if tmp \<noteq> {} then Some (i, tmp) else first_group level src rs (i + 1))"

definition choose_strategy_move :: "('v set \<Rightarrow> 'v) \<Rightarrow> 'v parity_game \<Rightarrow> 'v recursive_result \<Rightarrow> nat \<Rightarrow> 'v \<Rightarrow> 'v strategy_move result" where
  "choose_strategy_move vset_random g strategy player src = (let
     cur = (if src \<in> v_player g player then player else 1 - player)
   in if cur = player \<and> src \<in> win strategy player
      then result_bind (compute_strategy_level src player strategy) (\<lambda>strategy_level.
        Inr (case first_group strategy_level src (spg_e g) 0 of
          Some (i, level) \<Rightarrow> \<lparr>sm_group = Some i, current_player = cur, strategy_play = True, sm_move = Move (vset_random level)\<rparr>
        | None \<Rightarrow> \<lparr>sm_group = None, current_player = cur, strategy_play = True, sm_move = Deadlock (cur \<noteq> player)\<rparr>))
      else let level = fold (\<lambda>r level. level \<union> vset_next {src} r) (spg_e g) {}
        in Inr \<lparr>sm_group = None, current_player = cur, strategy_play = False,
             sm_move = (if level = {} then Deadlock (cur \<noteq> player) else Move (vset_random level))\<rparr>)"

section \<open>Random plays\<close>

text \<open>The position on the stack, from its top, of the first entry with a state.\<close>

fun stack_pos :: "'v \<Rightarrow> ('v \<times> nat) list \<Rightarrow> nat \<Rightarrow> nat option" where
  "stack_pos t [] i = None"
| "stack_pos t ((s, pr) # st) i = (if s = t then Some i else stack_pos t st (i + 1))"

definition least_from :: "nat \<Rightarrow> nat \<Rightarrow> ('v \<times> nat) list \<Rightarrow> nat" where
  "least_from mx b st = fold (\<lambda>e m. if snd e < m then snd e else m) (drop b st) mx"

partial_function (option) play_loop ::
  "(nat \<Rightarrow> 'v set \<Rightarrow> 'v) \<Rightarrow> 'v parity_game \<Rightarrow> 'v recursive_result \<Rightarrow> nat \<Rightarrow> nat \<Rightarrow> ('v \<times> nat) list \<Rightarrow> 'v \<Rightarrow> bool result option" where
  "play_loop rand g strategy player l st s = rbind (Some (choose_strategy_move (rand l) g strategy player s)) (\<lambda>m.
     case sm_move m of Deadlock result \<Rightarrow> ret result
     | Move t \<Rightarrow> rbind (Some (get_priority g t)) (\<lambda>priority.
         case stack_pos t st 0 of
           Some cycle_begin \<Rightarrow> ret (least_from (max_priority g) cycle_begin st mod 2 = player)
         | None \<Rightarrow> play_loop rand g strategy player (l + 1) ((t, priority) # st) t))"

declare play_loop.simps [code]

definition random_strategy_play :: "(nat \<Rightarrow> 'v set \<Rightarrow> 'v) \<Rightarrow> 'v parity_game \<Rightarrow> 'v recursive_result \<Rightarrow> nat \<Rightarrow> bool result option" where
  "random_strategy_play rand g strategy player = rbind (Some (get_priority g (spg_src g))) (\<lambda>priority.
     play_loop rand g strategy player 0 [(spg_src g, priority)] (spg_src g))"

text \<open>The runs of the check, each with its own source of random choices.\<close>

fun check_runs :: "(nat \<times> nat \<Rightarrow> nat \<Rightarrow> 'v set \<Rightarrow> 'v) \<Rightarrow> 'v parity_game \<Rightarrow> 'v recursive_result \<Rightarrow> nat \<Rightarrow> bool \<Rightarrow> (nat \<times> nat) list \<Rightarrow> unit result option" where
  "check_runs rand g strategy player result [] = ret ()"
| "check_runs rand g strategy player result ((p, i) # runs) = rbind (random_strategy_play (rand (p, i)) g strategy p) (\<lambda>random_run.
     if ((p = player \<and> result) \<or> (p \<noteq> player \<and> \<not> result)) \<and> \<not> random_run then Some (Inl Assert_fail)
     else check_runs rand g strategy player result runs)"

definition check_strategy :: "(nat \<times> nat \<Rightarrow> nat \<Rightarrow> 'v set \<Rightarrow> 'v) \<Rightarrow> 'v parity_game \<Rightarrow> 'v recursive_result \<Rightarrow> nat \<Rightarrow> bool \<Rightarrow> nat \<Rightarrow> unit result option" where
  "check_strategy rand g strategy player result n = check_runs rand g strategy player result (List.product [0..<2] [0..<n])"

section \<open>Random plays end\<close>

text \<open>A recorded strategy is in order when no level is empty and no boundary is beyond the last level.\<close>

definition strategy_ok :: "'v recursive_result \<Rightarrow> nat \<Rightarrow> bool" where
  "strategy_ok r p \<longleftrightarrow> result_ok r p \<and> (\<forall>b \<in> set (boundaries_of r p). b \<le> strategy_levels_count r p) \<and> {} \<notin> set (levels_of r p)"

lemma scan_segment_run:
  assumes "filled (strategy_levels r p) n" and "{} \<notin> set (contents (strategy_levels r p) n)" and "e \<le> n"
  shows "\<exists>L. scan_segment r p x b j e lv = Inr L"
proof (induction "e - j" arbitrary: j rule: less_induct)
  case less
  show ?case
  proof (cases "j < e")
    case True
    have get: "array_get (strategy_levels r p) i = Inr (contents (strategy_levels r p) n ! i)" if "i \<le> j" for i
      using array_get_filled[OF assms(1)] that True assms(3) by simp
    have ne: "contents (strategy_levels r p) n ! i \<noteq> {}" if "i \<le> j" for i
    proof -
      have "i < length (contents (strategy_levels r p) n)"
        using assms(1,3) that True by (simp add: contents_def filled_def)
      then show ?thesis using assms(2) nth_mem by metis
    qed
    show ?thesis
      using less.hyps[of "j + 1"] True get[of j] get[of "if j = b then j else j - 1"] ne[of "if j = b then j else j - 1"]
      by (subst scan_segment.simps) (auto simp: Let_def)
  qed (simp add: scan_segment.simps)
qed

lemma compute_strategy_level_run:
  assumes "strategy_ok r p"
  shows "\<exists>L. compute_strategy_level x p r = Inr L"
proof -
  have ok: "filled (strategy_levels r p) (strategy_levels_count r p)"
      "filled (strategy_boundaries r p) (strategy_boundary_count r p)" "{} \<notin> set (levels_of r p)"
    using assms by (auto simp: strategy_ok_def result_ok_def)
  have b: "\<exists>b. array_get (strategy_boundaries r p) i = Inr b \<and> b \<le> strategy_levels_count r p"
    if "i < strategy_boundary_count r p" for i
  proof -
    have "i < length (boundaries_of r p)" using ok(2) that by (simp add: boundaries_of_def contents_def filled_def)
    then have "boundaries_of r p ! i \<le> strategy_levels_count r p" using assms by (simp add: strategy_ok_def)
    then show ?thesis using array_get_filled[OF ok(2) that] by (simp add: boundaries_of_def)
  qed
  have "\<exists>L. compute_strategy_level x p r = Inr L \<and> True"
    unfolding compute_strategy_level_def
  proof (rule fold_result_invariant[where P = "\<lambda>_ _. True"], simp)
    fix k and lv :: "'a set" assume "k < length [0..<strategy_boundary_count r p]"
    then have k: "k < strategy_boundary_count r p" by simp
    obtain e where e: "array_get (strategy_boundaries r p) k = Inr e" "e \<le> strategy_levels_count r p" using b[OF k] by blast
    obtain a where a: "(if k = 0 then Inr 0 else array_get (strategy_boundaries r p) (k - 1)) = (Inr a :: nat result)"
      using b[of "k - 1"] k by (cases "k = 0") fastforce+
    show "\<exists>L. result_bind (if [0..<strategy_boundary_count r p] ! k = 0 then Inr 0
          else array_get (strategy_boundaries r p) ([0..<strategy_boundary_count r p] ! k - 1)) (\<lambda>bgn.
        result_bind (array_get (strategy_boundaries r p) ([0..<strategy_boundary_count r p] ! k)) (\<lambda>fin.
        if fin \<le> strategy_levels_count r p then scan_segment r p x bgn bgn fin lv else Inl Assert_fail)) = Inr L \<and> True"
      using k e a scan_segment_run[OF ok(1) ok(3)[unfolded levels_of_def] e(2), of x a a lv] by (cases "k = 0") auto
  qed
  then show ?thesis by blast
qed

lemma first_group_Some: "first_group L x rs i = Some (j, T) \<Longrightarrow> T \<noteq> {} \<and> (\<exists>r \<in> set rs. T \<subseteq> vset_next {x} r)"
  by (induction rs arbitrary: i) (auto simp: Let_def split: if_splits)

lemma choose_strategy_move_run:
  assumes "strategy_ok r p" and rand: "\<And>S. S \<noteq> {} \<Longrightarrow> rand S \<in> S"
  shows "\<exists>m. choose_strategy_move rand g r p x = Inr m \<and> (\<forall>t. sm_move m = Move t \<longrightarrow> (\<exists>e \<in> set (spg_e g). (x, t) \<in> e))"
proof -
  obtain L where L: "compute_strategy_level x p r = Inr L" using compute_strategy_level_run[OF assms(1)] by blast
  have 1: "\<exists>e \<in> set (spg_e g). (x, rand T) \<in> e" if fg: "first_group L x (spg_e g) 0 = Some (j, T)" for j T
  proof -
    obtain e where "T \<noteq> {}" "e \<in> set (spg_e g)" "T \<subseteq> vset_next {x} e" using first_group_Some[OF fg] by blast
    then show ?thesis using rand[of T] by auto
  qed
  let ?N = "fold (\<lambda>e level. level \<union> vset_next {x} e) (spg_e g) {}"
  have 2: "\<exists>e \<in> set (spg_e g). (x, rand ?N) \<in> e" if "?N \<noteq> {}"
    using rand[OF that] unfolding fold_union by auto
  show ?thesis using 1 2
    by (cases "first_group L x (spg_e g) 0") (auto simp: choose_strategy_move_def Let_def L split: if_splits)
qed

lemma stack_pos_None: "stack_pos t st i = None \<longleftrightarrow> t \<notin> fst ` set st"
  by (induction t st i rule: stack_pos.induct) auto

lemma play_loop_ends:
  assumes "wf_game g" and "strategy_ok r p" and rand: "\<And>l S. S \<noteq> {} \<Longrightarrow> rand l S \<in> S"
    and closed: "\<And>e x y. e \<in> set (spg_e g) \<Longrightarrow> (x, y) \<in> e \<Longrightarrow> x \<in> spg_v g \<Longrightarrow> y \<in> spg_v g"
  shows "s \<in> spg_v g \<Longrightarrow> \<exists>b. play_loop rand g r p l st s = ret b"
proof (induction "card (spg_v g - fst ` set st)" arbitrary: l st s rule: less_induct)
  case less
  obtain m where m: "choose_strategy_move (rand l) g r p s = Inr m"
      "\<forall>t. sm_move m = Move t \<longrightarrow> (\<exists>e \<in> set (spg_e g). (s, t) \<in> e)"
    using choose_strategy_move_run[OF assms(2), of "rand l" g s] rand by blast
  show ?case
  proof (cases "sm_move m")
    case (Deadlock b)
    then show ?thesis using m(1) by (subst play_loop.simps) simp
  next
    case (Move t)
    have t: "t \<in> spg_v g" using m(2) Move closed less.prems by blast
    have pr: "get_priority g t = Inr (prio g t)" using get_priority_at[OF assms(1)] prio_in[OF assms(1) t] by blast
    show ?thesis
    proof (cases "stack_pos t st 0")
      case None
      then have "spg_v g - fst ` set ((t, prio g t) # st) \<subset> spg_v g - fst ` set st"
        using t by (auto simp: stack_pos_None)
      then have "card (spg_v g - fst ` set ((t, prio g t) # st)) < card (spg_v g - fst ` set st)"
        by (intro psubset_card_mono) (simp_all add: wf_gameD(1)[OF assms(1)])
      then show ?thesis using less.hyps[of "(t, prio g t) # st" t "l + 1"] t m(1) Move pr None
        by (subst play_loop.simps) simp
    qed (use m(1) Move pr in \<open>subst play_loop.simps; simp\<close>)
  qed
qed

end
