(* ===== verification/Spg_Props.thy ===== *)
theory Spg_Props
  imports Spg_Play "HOL-Library.Code_Target_Nat"
begin

text \<open>
  The properties of the parity game component, for \<^verbatim>\<open>src/src/spg-lib\<close>: the solver is correct on games
  without stuck vertices, the attractors are exact and agree, recorded levels are a strategy, random plays
  end; and what goes wrong with stuck vertices, with recorded strategies and with the verdict of a random
  play, each on a small game.
\<close>

section \<open>Properties of the solver\<close>

text \<open>
  C8. The solver returns on every finite game in which each vertex has a successor, without strategies and
  with any of the four attractor functions, and its two sets are exactly the vertices from which the one and
  the other player have a winning strategy; every vertex is in one of the sets and none in both.
\<close>

theorem spg_solve_recursive_correct:
  assumes "wf_game g" and "total_game g" and "\<not> compute_strategy opt"
    and "attr \<in> {spg_attractor, spg_attractor_chaining, spg_attractor_par, spg_attractor_par2}"
  shows "\<exists>r. spg_solve_recursive attr opt g = ret r \<and> (\<forall>p < 2. win r p = {x \<in> spg_v g. wins g p x})
    \<and> win r 0 \<union> win r 1 = spg_v g \<and> win r 0 \<inter> win r 1 = {}"
proof -
  obtain r where r: "spg_solve_recursive attr opt g = ret r" "solved g r"
    using solve_any[OF assms(3,1,2,4)] by blast
  show ?thesis
    using r(1) solved_wins[OF assms(1,2) r(2)] solvedD(1,2)[OF r(2), of 0] by (intro exI[of _ r]) simp
qed

text \<open>Example games: two vertices of player 0 on a cycle; two vertices with a loop each; a vertex of
  priority 0 from which the only way leads to a loop of priority 1; a stuck vertex of player 0; a loop of
  priority 1 beside a stuck vertex of player 1.\<close>

definition small_game :: "nat set \<Rightarrow> nat set \<Rightarrow> nat \<Rightarrow> nat set \<Rightarrow> nat set \<Rightarrow> nat vrel \<Rightarrow> nat parity_game" where
  "small_game p0 p1 mn v0 v1 e = \<lparr>spg_src = 0, spg_v = p0 \<union> p1, v_player = (\<lambda>i. if i = 0 then p0 else if i = 1 then p1 else {}),
     min_priority = mn, max_priority = 1, v_priority = (\<lambda>i. if i = 0 then v0 else if i = 1 then v1 else {}), spg_e = [e]\<rparr>"

definition two_cycle :: "nat parity_game" where
  "two_cycle = small_game {0, 1} {} 0 {0} {1} {(0, 1), (1, 0)}"

definition two_loops :: "nat parity_game" where
  "two_loops = small_game {0, 1} {} 0 {0} {1} {(0, 0), (1, 1)}"

definition lasso :: "nat parity_game" where
  "lasso = small_game {} {0, 1} 0 {0} {1} {(0, 1), (1, 1)}"

definition stuck_owner :: "nat parity_game" where
  "stuck_owner = small_game {0} {} 0 {0} {} {}"

definition stuck_beside_loop :: "nat parity_game" where
  "stuck_beside_loop = small_game {0} {1} 1 {} {0, 1} {(0, 0)}"

definition plain_options :: spg_attr_options where
  "plain_options = \<lparr>saturation = False, compute_strategy = False\<rparr>"

definition strategy_options :: spg_attr_options where
  "strategy_options = \<lparr>saturation = False, compute_strategy = True\<rparr>"

lemma two_loops_ok: "wf_game two_loops" "total_game two_loops" "game_edges two_loops = {(0, 0), (1, 1)}"
  by (auto simp: two_loops_def small_game_def wf_game_def total_game_def game_edges_def)

lemma spg_solve_recursive_correct_witness:
  "wf_game two_loops \<and> total_game two_loops \<and> \<not> compute_strategy plain_options \<and>
   (\<exists>r. spg_solve_recursive spg_attractor_chaining plain_options two_loops = ret r
      \<and> (\<forall>p < 2. win r p = {x \<in> spg_v two_loops. wins two_loops p x})
      \<and> win r 0 \<union> win r 1 = spg_v two_loops \<and> win r 0 \<inter> win r 1 = {})"
  using spg_solve_recursive_correct[OF two_loops_ok(1,2), of plain_options spg_attractor_chaining] two_loops_ok(1,2)
  by (simp add: plain_options_def)

text \<open>
  C9. The set an attractor computation returns is exact: from each of its vertices the player has a
  positional strategy with which every play visits the target, and from every other vertex the opponent has
  one with which no play ever does.
\<close>

theorem spg_attractor_forces:
  assumes "wf_game g" and "p < 2" and "U \<subseteq> spg_v g" and "\<not> compute_strategy opt" and "total_game g"
  shows "\<exists>A. spg_attractor p g opt r U = ret (r, A)
    \<and> (\<exists>\<tau>. (\<forall>x \<in> v_player g p. (x, \<tau> x) \<in> game_edges g) \<and>
        (\<forall>\<pi>. play g \<pi> \<and> follows (v_player g p) \<tau> \<pi> \<and> \<pi> 0 \<in> A \<longrightarrow> (\<exists>i. \<pi> i \<in> U)))
    \<and> (\<exists>\<tau>. (\<forall>x \<in> v_player g (1 - p). (x, \<tau> x) \<in> game_edges g) \<and>
        (\<forall>\<pi>. play g \<pi> \<and> follows (v_player g (1 - p)) \<tau> \<pi> \<and> \<pi> 0 \<notin> A \<longrightarrow> (\<forall>i. \<pi> i \<notin> U)))"
proof -
  let ?A = "attractor g p U"
  have "spg_attractor p g opt r U = ret (r, ?A)"
    using attractor_loop_run[OF assms(1,2,4) attr_inv_init[OF assms(3)]] by (simp add: spg_attractor_def)
  moreover have "\<exists>\<tau>. (\<forall>x \<in> v_player g p. (x, \<tau> x) \<in> game_edges g) \<and>
      (\<forall>\<pi>. play g \<pi> \<and> follows (v_player g p) \<tau> \<pi> \<and> \<pi> 0 \<in> ?A \<longrightarrow> (\<exists>i. \<pi> i \<in> U))"
    by (rule attractor_strategy[OF assms(1,2,5)])
  moreover have "\<exists>\<tau>. (\<forall>x \<in> v_player g (1 - p). (x, \<tau> x) \<in> game_edges g) \<and>
      (\<forall>\<pi>. play g \<pi> \<and> follows (v_player g (1 - p)) \<tau> \<pi> \<and> \<pi> 0 \<notin> ?A \<longrightarrow> (\<forall>i. \<pi> i \<notin> U))"
    by (rule avoid_strategy[OF assms(1,2,5)])
  ultimately show ?thesis by blast
qed

lemma spg_attractor_forces_witness:
  "wf_game two_loops \<and> {0} \<subseteq> spg_v two_loops \<and> \<not> compute_strategy plain_options \<and> total_game two_loops \<and>
   (\<exists>A. spg_attractor 0 two_loops plain_options recursive_result_create {0} = ret (recursive_result_create, A)
    \<and> (\<exists>\<tau>. (\<forall>x \<in> v_player two_loops 0. (x, \<tau> x) \<in> game_edges two_loops) \<and>
        (\<forall>\<pi>. play two_loops \<pi> \<and> follows (v_player two_loops 0) \<tau> \<pi> \<and> \<pi> 0 \<in> A \<longrightarrow> (\<exists>i. \<pi> i \<in> {0}))))"
proof -
  have "{0} \<subseteq> spg_v two_loops" "\<not> compute_strategy plain_options"
    by (simp_all add: two_loops_def small_game_def plain_options_def)
  then show ?thesis
    using spg_attractor_forces[OF two_loops_ok(1) _ _ _ two_loops_ok(2), of 0 "{0}" plain_options recursive_result_create]
      two_loops_ok(1,2) by simp blast
qed

text \<open>
  C10. The attractor functions compute the same: the parallel ones run exactly like the sequential one, with
  or without strategies, and so does chaining without strategies, saturating or not.
\<close>

theorem spg_attractors_agree:
  assumes "wf_game g" and "p < 2" and "U \<subseteq> spg_v g" and "spg_e g \<noteq> []"
  shows "spg_attractor_par p g opt r U = spg_attractor p g opt r U
    \<and> spg_attractor_par2 p g opt r U = spg_attractor p g opt r U
    \<and> (\<not> compute_strategy opt \<longrightarrow> spg_attractor_chaining p g opt r U = spg_attractor p g opt r U)"
  using spg_attractor_par_eq[OF assms] plain.attr_run[OF assms] chaining.attr_run[OF assms] by simp

lemma spg_attractors_agree_witness:
  "wf_game two_loops \<and> {0} \<subseteq> spg_v two_loops \<and> spg_e two_loops \<noteq> [] \<and>
   spg_attractor_chaining 0 two_loops plain_options recursive_result_create {0}
     = spg_attractor 0 two_loops plain_options recursive_result_create {0}"
  using spg_attractors_agree[OF two_loops_ok(1), of 0 "{0}" plain_options recursive_result_create] two_loops_ok(1)
  by (simp add: two_loops_def small_game_def plain_options_def)

text \<open>
  C11. With strategies, an attractor computation into a fresh result never leaves the arrays and records the
  levels of the attractor: the first is the target, together they are the attractor, and from a later level
  the player has an edge into the level just before while the opponent has only edges into earlier levels.
\<close>

theorem spg_attractor_levels:
  assumes "wf_game g" and "p < 2" and "U \<subseteq> spg_v g" and "U \<noteq> {}" and "compute_strategy opt"
  shows "\<exists>r ls. spg_attractor p g opt recursive_result_create U = ret (r, attractor g p U)
    \<and> levels_of r p = ls \<and> ls \<noteq> [] \<and> hd ls = U \<and> \<Union> (set ls) = attractor g p U \<and> layered g p {} ls
    \<and> (\<forall>q. win r q = {})"
proof -
  have w: "win (recursive_result_create :: 'a recursive_result) = (\<lambda>_. {})"
    by (simp add: recursive_result_create_def)
  show ?thesis
    using attractor_loop_levels[OF assms(1,2,5) attr_inv_init[OF assms(3)] result_create_ok(1,2)] assms(4)
    unfolding spg_attractor_def by (auto simp: result_create_ok w)
qed

lemma two_cycle_ok: "wf_game two_cycle" "total_game two_cycle"
  by (auto simp: two_cycle_def small_game_def wf_game_def total_game_def game_edges_def)

lemma spg_attractor_levels_witness:
  "wf_game two_cycle \<and> {0} \<subseteq> spg_v two_cycle \<and> compute_strategy strategy_options \<and>
   (\<exists>r ls. spg_attractor 0 two_cycle strategy_options recursive_result_create {0} = ret (r, attractor two_cycle 0 {0})
      \<and> levels_of r 0 = ls \<and> ls \<noteq> [] \<and> hd ls = {0} \<and> \<Union> (set ls) = attractor two_cycle 0 {0} \<and> layered two_cycle 0 {} ls
      \<and> (\<forall>q. win r q = {}))"
  using spg_attractor_levels[OF two_cycle_ok(1), of 0 "{0}" strategy_options] two_cycle_ok(1)
  by (simp add: two_cycle_def small_game_def strategy_options_def)

text \<open>
  C12. A random play by a recorded strategy ends with a verdict: on a finite game whose relations stay inside
  the game, with a choice that picks elements of the sets it is given, the walk gets stuck or closes a
  cycle.
\<close>

theorem random_strategy_play_ends:
  assumes "wf_game g" and "strategy_ok strategy p" and "spg_src g \<in> spg_v g"
    and "\<And>l S. S \<noteq> {} \<Longrightarrow> rand l S \<in> S"
    and "\<And>e x y. e \<in> set (spg_e g) \<Longrightarrow> (x, y) \<in> e \<Longrightarrow> x \<in> spg_v g \<Longrightarrow> y \<in> spg_v g"
  shows "\<exists>b. random_strategy_play rand g strategy p = ret b"
proof -
  have "get_priority g (spg_src g) = Inr (prio g (spg_src g))"
    using get_priority_at[OF assms(1)] prio_in[OF assms(1,3)] by blast
  then show ?thesis
    using play_loop_ends[OF assms(1,2,4,5,3)] by (simp add: random_strategy_play_def)
qed

lemma random_strategy_play_ends_witness:
  "wf_game two_cycle \<and> strategy_ok (recursive_result_create :: nat recursive_result) 0 \<and>
   (\<exists>b. random_strategy_play (\<lambda>l S. SOME x. x \<in> S) two_cycle recursive_result_create 0 = ret b)"
proof -
  have "strategy_ok (recursive_result_create :: nat recursive_result) 0"
    by (simp add: strategy_ok_def result_create_ok)
  moreover have "\<exists>b. random_strategy_play (\<lambda>l S. SOME x. x \<in> S) two_cycle recursive_result_create 0 = ret b"
    by (rule random_strategy_play_ends[OF two_cycle_ok(1)])
      (use calculation in \<open>auto simp: two_cycle_def small_game_def some_in_eq\<close>)
  ultimately show ?thesis using two_cycle_ok(1) by blast
qed

section \<open>Where the code goes wrong\<close>

text \<open>What the solver and the plays return on a game.\<close>

definition regions :: "nat recursive_result result option \<Rightarrow> (nat set \<times> nat set) result option" where
  "regions m = rbind m (\<lambda>r. ret (win r 0, win r 1))"

lemma stuck_runs:
  "regions (spg_solve_recursive spg_attractor plain_options stuck_owner) = ret ({0}, {})"
  "regions (spg_solve_recursive spg_attractor plain_options stuck_beside_loop) = ret ({0, 1}, {})"
  by code_simp+

text \<open>
  Stuck vertices break the solver. A vertex of player 0 without successors and with priority 0 is given
  to player 0, although a player who cannot move loses. And when the least priority of the game is 1, a
  stuck vertex of player 1 makes the solver give a loop of priority 1 to player 0 as well: the set of the
  least priority is kept although the round is turned over to player 0.
\<close>

theorem spg_solve_stuck_wrong:
  "v_player stuck_owner 0 = {0} \<and> game_edges stuck_owner = {}
   \<and> regions (spg_solve_recursive spg_attractor plain_options stuck_owner) = ret ({0}, {})
   \<and> {\<pi>. play stuck_beside_loop \<pi>} = {\<lambda>_. 0} \<and> won_by 1 (\<lambda>_. prio stuck_beside_loop 0)
   \<and> regions (spg_solve_recursive spg_attractor plain_options stuck_beside_loop) = ret ({0, 1}, {})"
proof -
  have e: "game_edges stuck_beside_loop = {(0, 0)}" and p: "prio stuck_beside_loop 0 = 1"
    by (auto simp: stuck_beside_loop_def small_game_def game_edges_def prio_def get_priority_def)
  have "won_by 1 (\<lambda>_. prio stuck_beside_loop 0)" using won_by_eventually[of 0 "\<lambda>_. prio stuck_beside_loop 0" 1] by (simp add: p)
  moreover have "v_player stuck_owner 0 = {0}" "game_edges stuck_owner = {}"
    by (auto simp: stuck_owner_def small_game_def game_edges_def)
  moreover have "{\<pi>. play stuck_beside_loop \<pi>} = {\<lambda>_. 0}" by (auto simp: play_def e)
  ultimately show ?thesis using stuck_runs by blast
qed

text \<open>
  Recording strategies overruns an array: when the first recursive call leaves the opponent a vertex, the
  levels of the opponent are copied into a block of exactly their number and the next attractor computation
  writes behind that block.
\<close>

theorem strategy_levels_overflow:
  "regions (spg_solve_recursive spg_attractor strategy_options two_loops) = Some (Inl Bad_access)"
  by code_simp

text \<open>
  Random plays give wrong verdicts. On two vertices of player 0 on a cycle through priority 0, player 0 wins
  everywhere, but the recorded strategy has no move at the target of its attractor: the play stops with
  the verdict that player 0 loses, and the check of the strategy fails its assertion. And on a lasso that ends
  in a loop of priority 1 the verdict for player 0 is positive: the least priority is searched on the
  vertices before the cycle instead of on the cycle.
\<close>

theorem random_play_wrong:
  "regions (spg_solve_recursive spg_attractor strategy_options two_cycle) = ret ({0, 1}, {})
   \<and> rbind (spg_solve_recursive spg_attractor strategy_options two_cycle)
       (\<lambda>r. random_strategy_play (\<lambda>_ S. Min S) two_cycle r 0) = ret False
   \<and> rbind (spg_solve_recursive spg_attractor strategy_options two_cycle)
       (\<lambda>r. check_strategy (\<lambda>_ _ S. Min S) two_cycle r 0 True 1) = Some (Inl Assert_fail)
   \<and> {\<pi>. play lasso \<pi> \<and> \<pi> 0 = 0} = {case_nat 0 (\<lambda>_. 1)} \<and> won_by 1 (\<lambda>i. prio lasso (case_nat 0 (\<lambda>_. 1) i))
   \<and> random_strategy_play (\<lambda>_ S. Min S) lasso recursive_result_create 0 = ret True"
proof -
  have e: "game_edges lasso = {(0, 1), (1, 1)}" and p: "prio lasso 1 = 1" "prio lasso 0 = 0"
    by (auto simp: lasso_def small_game_def game_edges_def prio_def get_priority_def)
  have "prio lasso (case_nat 0 (\<lambda>_. 1) i) = 1" if "i \<ge> 1" for i using that p(1) by (cases i) auto
  then have "won_by 1 (\<lambda>i. prio lasso (case_nat 0 (\<lambda>_. 1) i))" using won_by_eventually[of 1 "\<lambda>i. prio lasso (case_nat 0 (\<lambda>_. 1) i)" 1] by simp
  moreover have "{\<pi>. play lasso \<pi> \<and> \<pi> 0 = 0} = {case_nat 0 (\<lambda>_. 1)}"
    by (auto simp: play_def e fun_eq_iff split: nat.splits)
  moreover have "regions (spg_solve_recursive spg_attractor strategy_options two_cycle) = ret ({0, 1}, {})"
      "rbind (spg_solve_recursive spg_attractor strategy_options two_cycle)
        (\<lambda>r. random_strategy_play (\<lambda>_ S. Min S) two_cycle r 0) = ret False"
      "rbind (spg_solve_recursive spg_attractor strategy_options two_cycle)
        (\<lambda>r. check_strategy (\<lambda>_ _ S. Min S) two_cycle r 0 True 1) = Some (Inl Assert_fail)"
      "random_strategy_play (\<lambda>_ S. Min S) lasso recursive_result_create 0 = ret True"
    by code_simp+
  ultimately show ?thesis by blast
qed

end
