(* ===== verification/Spec2Isabelle.thy ===== *)
theory Spec2Isabelle
  imports Dm_Span Bitset Dfs_Stack Treedbs State_Pred Pg_Build Spg_Props
begin

text \<open>
  A verification of core data structures of LTSmin, a tool set for model checking and minimising
  labelled transition systems.

  \<^bold>\<open>The program.\<close> A language module gives the tools a transition system through the PINS interface: states are
  vectors of integers, transitions come in groups, and a dependency matrix says which group reads or
  writes which element of a vector. Wrappers (\<^verbatim>\<open>pins-lib/pins2pins-*.c\<close>) reorder and merge groups and
  elements to make the matrix narrow. The tools then explore the states: explicitly, keeping
  vectors in a tree database (\<^verbatim>\<open>util-lib/treedbs.c\<close>) and search frames on a stack in blocks (\<^verbatim>\<open>util-lib/dfs-stack.c\<close>,
  \<^verbatim>\<open>util-lib/is-balloc.c\<close>), with visited sets as bit trees (\<^verbatim>\<open>util-lib/bitset.c\<close>); or symbolically, keeping sets
  of vectors as decision diagrams (\<^verbatim>\<open>vset-lib\<close>). Model checking can be turned into a parity game over the
  reachable states (\<^verbatim>\<open>pins2lts-sym/alg/pg.c\<close>), which is solved on vector sets (\<^verbatim>\<open>spg-lib\<close>). All paths are below \<^verbatim>\<open>src/src\<close>.

  \<^bold>\<open>Theories.\<close>
  \<^item> \<open>Prelude\<close>: error values for the abnormal exits of the runtime, 32-bit integers with their wrap-around (\<open>int32\<close>), search loops, bit facts, and the
    interfaces \<open>bit_map\<close> and \<open>index_table\<close>.
  \<^item> \<open>Bitvector\<close>: \<^verbatim>\<open>dm/bitvector.c\<close> on 64-bit words; the word-wise operations are the set operations, unused bits stay 0
    (interpretation of \<open>bit_map\<close>).
  \<^item> \<open>Dm_Base\<close>, \<open>Dm_Perm\<close>, \<open>Dm_Sort\<close>, \<open>Dm_Merge\<close>, \<open>Dm_Merge_Cols\<close>, \<open>Dm_Nub\<close>, \<open>Dm_Ops\<close>, \<open>Dm_Span\<close>: the dependency matrix of \<^verbatim>\<open>dm/dm.c\<close>
    with the comparators of \<^verbatim>\<open>pins-lib/pins2pins-group.c\<close>. A matrix is the record of the C structure: two headers, each
    with a permutation, group lists, counts and cached bounds, and a bit vector. Shown are the exact effect of single
    entries and the header invariant, permutations, swaps, flips and the cycle decomposition, heapsort by a comparator
    (locales \<open>swappable\<close> for any comparator and \<open>sortable\<close> for one that compares keys),
    merging and unmerging of rows and columns as operations on lists of groups, removal of equal and subsumed lines,
    entry-wise operations, projections and their inverse, index tables, and the local search for a narrow matrix.
  \<^item> \<open>Bitset\<close>: the bit trees of \<^verbatim>\<open>util-lib/bitset.c\<close>, whose subtrees may be shared constants (interpretation of
    \<open>bit_map\<close>); the search for the next element, ranges, and the elements for which the loops never end.
  \<^item> \<open>Isba\<close>, \<open>Dfs_Stack\<close>: the block allocator as a stack (locale \<open>elem_stack\<close>) and the frame stack on top of it as a
    list of frames.
  \<^item> \<open>Fast_Hash\<close>, \<open>Treedbs\<close>: the hash functions and the tree database; each hash table numbers pairs and the
    tree numbers vectors (two interpretations of \<open>index_table\<close>), and unfolding a number gives the vector back.
  \<^item> \<open>Ldd_Tree\<close>, \<open>Ldd_Store\<close>, \<open>Ldd_Inv\<close>, \<open>Ldd_Mark\<close>, \<open>Ldd_Sweep\<close>, \<open>Ldd_Create\<close>, \<open>Ldd_Node\<close>: list decision diagrams of
    \<^verbatim>\<open>vset-lib/vset_listdd.c\<close>. \<open>Ldd_Store\<close> has the static variables as one record, the collector with its resizing and the
    creation of nodes. A node stands for a tree (\<open>repr\<close>), a tree for a set of vectors (\<open>vecs\<close>), and trees are canonical
    (\<open>Ldd_Tree\<close>). The invariant \<open>ldd_ok\<close> says that buckets and free list partition the node table, that nodes are unique and well-founded
    and that the entries of the cache are right. \<open>Ldd_Mark\<close> and \<open>Ldd_Sweep\<close> follow the two halves of the collector, \<open>Ldd_Create\<close>
    puts them together, and \<open>Ldd_Node\<close> shows that creating a node keeps all that is protected.
  \<^item> \<open>Ldd_Ops\<close>, \<open>Ldd_Vec\<close>, \<open>Ldd_Sets\<close>, \<open>Vset_Listdd\<close>: union, difference and intersection with their cache and the stack of
    protected results; membership, insertion, enumeration; set objects, where the locale \<open>node_operation\<close> turns an
    operation on nodes into one on objects (three interpretations); and the refinement of sets of vectors by
    sequences of operations.
  \<^item> \<open>Ldd_Rel\<close>, \<open>Ldd_Rel_Ok\<close>, \<open>Ldd_Next\<close>, \<open>Ldd_Project\<close>, \<open>Ldd_Rels\<close>, \<open>Vset_Rel\<close>: relations and projections. The recursive functions for
    successors, predecessors, matching and projection with their cache keys; what a node means as a relation on some positions; the
    proofs of the functions; relation objects and sets with a projection (locale \<open>object_list\<close> for both kinds of objects);
    and the refinement of sets and relations by sequences of operations.
  \<^item> \<open>Sym_Model\<close>, \<open>Sym_Learn\<close>, \<open>Sym_Reach\<close>, \<open>Sym_Bfs\<close>, \<open>Sym_Search\<close>, \<open>Sym_Sat\<close>, \<open>Sym_Props\<close>: symbolic reachability of \<^verbatim>\<open>pins2lts-sym/alg\<close>, over
    sets of vectors. \<open>Sym_Model\<close> has the learning of transition relations and guards, the search procedures, deadlock
    detection and the level-wise strategies; the language module is the record \<open>pins\<close>. Learned relations are exact where they
    were explored (\<open>Sym_Learn\<close>), one pass over the groups is a sweep (\<open>Sym_Reach\<close>, \<open>Sym_Bfs\<close>), the loops find the
    reachable states (locales \<open>full_loop\<close> and \<open>new_loop\<close>, two interpretations each), and so do the strategies on top of any
    procedure (locale \<open>reach_procedure\<close>, four interpretations), because groups without common positions commute. \<open>Sym_Props\<close> has
    the properties and the connection to the decision diagrams: their relational products compute the steps of the search.
  \<^item> \<open>State_Pred\<close>: state predicates of \<^verbatim>\<open>pins-lib/property-semantics.c\<close>, evaluated on 64-bit numbers with the checks for overflow, shown to be exact against an
    evaluation in unbounded integers, and on the short vectors of symbolic sets.
  \<^item> \<open>Spg_Game\<close>, \<open>Spg_Attr\<close>, \<open>Spg_Par\<close>: parity games of \<^verbatim>\<open>spg-lib\<close> over sets of vertices and one relation per group; the
    recorded strategies; and the four attractor functions. What the solver relies on is the locale
    \<open>attractor_procedure\<close>, interpreted on each of them: each returns the least set that its player can force, and the levels it records
    move closer to the target.
  \<^item> \<open>Spg_Win\<close>, \<open>Spg_Solve\<close>, \<open>Spg_Play\<close>, \<open>Spg_Props\<close>: plays, winning strategies and how they are put together; the recursive
    solver with its options, shown to return exactly the winning regions; random plays along a recorded
    strategy; and the properties of the component, among them games on which solver or recording fail.
  \<^item> \<open>Pg_Build\<close>: the construction of a game from the labels of the variables and the visited states, composed with
    the solver.

  \<^bold>\<open>Modelling.\<close> Structures are records and their operations functions that return the new
  state. \<^verbatim>\<open>Abort\<close>, failed assertions and accesses outside a block are error values. Machine words are used where bits
  matter; other integers are natural numbers or integers, with the wrap-around written out where it can
  occur. A loop that may run forever is a \<open>partial_function\<close> with \<open>None\<close> for a run that does not end, and termination is
  proved as existence of a result; bounded loops are recursion on their bound. Arrays are lists or, where
  blocks are allocated without being filled, functions with their size beside them.

  \<^bold>\<open>Bounds.\<close> Sums that the code keeps in an \<^verbatim>\<open>int\<close> wrap in the model, and the properties state the sizes for which they do not: the
  comparators by weight up to 65536 columns or rows (\<open>write_before_read_wraps\<close>), the index tables while their count fits an \<^verbatim>\<open>int\<close>
  (\<open>to_idx_table_wraps\<close>), the local search while rows times columns does. The sizes of the tables of \<open>Treedbs\<close> stay in the range of \<^verbatim>\<open>int\<close>,
  and priorities of games below \<^verbatim>\<open>INT_MAX\<close>. The decision diagrams are shown correct as long as an allocation of \<open>16 * fib 47\<close> bytes (47 GB)
  fails, and for tables of step 6 to 46: above, the mark of the collector shares a bit with the links between nodes, and below
  step 6 the collector may find no free node (\<open>small_table_loses_set\<close>). Sets and relations have one vector
  length below \<open>2 ^ 31\<close> and increasing projections that stay protected, fewer than \<open>2 ^ 16\<close> of them. Symbolic reachability is shown for finite
  state spaces and guards that are true or false; the levels of saturation must not be more than the groups. The parity game solver is shown correct for finite games in
  which every vertex has a successor and without recorded strategies: stuck vertices can go to the wrong player
  (\<open>spg_solve_stuck_wrong\<close>), and recording can leave its array (\<open>strategy_levels_overflow\<close>). Solver and attractor
  loops are partial functions, and that they return on finite games is part of what is proved.

  \<^bold>\<open>Not modelled.\<close> Of the decision diagrams: saturation, counting, universes and files. Of symbolic reachability: action
  detection, invariants, traces, inhibited classes, guided search, the strategies that use saturation in the diagrams, the evaluation of formulas, and the parallel versions. Of state predicates:
  actions, values from tables and debug assertions. Of the matrix: \<^verbatim>\<open>dm_subsume_cols\<close>, which reads an uninitialised variable and has no caller, the C++ graph orderings, and printing. The other tools
  (\<^verbatim>\<open>pins2lts-mc\<close>, \<^verbatim>\<open>pins2lts-seq\<close>, \<^verbatim>\<open>pins2lts-dist\<close>), the language modules, the runtime \<^verbatim>\<open>hre\<close>, file formats, the parallel tables of \<^verbatim>\<open>mc-lib\<close>
  and the distributed programs are left out so far. Of the parity games: files, interactive play and the
  interleaving of the tasks of the parallel attractors, which work on disjoint containers. Bindings to external packages and
  vendored code are not part of the plan.

  \<^bold>\<open>Plan.\<close> The mu-calculus algorithms of \<^verbatim>\<open>pins2lts-sym/alg/mu.c\<close>, saturation in the decision diagrams, reading and writing diagrams, the sequential behaviour of
  \<^verbatim>\<open>mc-lib/unionfind.c\<close>, and the explicit-state algorithms.
\<close>

end
